(* ===== verification/Prelude.thy ===== *)
theory Prelude
  imports Main "HOL-Library.Word" "HOL-Library.Multiset" "HOL-Library.Monad_Syntax"
begin

text \<open>
  Shared vocabulary of the development: machine types, error codes, the fault monad, bounds-checked
  arrays, and runs of step functions.

  A C computation that can go wrong is a value of type \<open>'a option\<close>: \<open>None\<close> means a failed
  \<open>FEV_ASSERT\<close>, a read of an uninitialised or missing cell, or an arithmetic overflow that C leaves
  undefined. Error codes that the C functions return are ordinary values inside \<open>Some\<close>.
\<close>

section \<open>Machine types and constants\<close>

type_synonym u8 = "8 word"
type_synonym u32 = "32 word"
type_synonym u64 = "64 word"

text \<open>Objects are named by their addresses; address 0 is \<open>NULL\<close>.\<close>

type_synonym addr = nat
type_synonym fiber_ptr = addr
type_synonym waiter_ptr = addr
type_synonym timer_ptr = addr

text \<open>\<open>size_t\<close> is 64 bits wide on x86\_64. Sizes are naturals; wrap-around is written out.\<close>

definition SIZE_MAX :: nat where
  "SIZE_MAX = 2 ^ 64 - 1"

definition LONG_MAX :: int where
  "LONG_MAX = 2 ^ 63 - 1"

definition EAGAIN :: int where "EAGAIN = 11"
definition ENOMEM :: int where "ENOMEM = 12"
definition EINVAL :: int where "EINVAL = 22"
definition ECONNRESET :: int where "ECONNRESET = 104"
definition ETIMEDOUT :: int where "ETIMEDOUT = 110"

named_theorems errno_defs "the numeric values of the error codes"

lemmas [errno_defs] = EAGAIN_def ENOMEM_def EINVAL_def ECONNRESET_def ETIMEDOUT_def

section \<open>The fault monad\<close>

text \<open>\<open>FEV_ASSERT\<close> of \<open>fev_assert.h\<close>, in a build with assertions enabled: a failed assertion aborts.\<close>

definition fev_assert :: "bool \<Rightarrow> unit option" where
  "fev_assert b = (if b then Some () else None)"

lemma fev_assert_simps [simp]:
  "fev_assert True = Some ()"
  "fev_assert False = None"
  by (simp_all add: fev_assert_def)

lemma fev_assert_bind [simp]:
  "Option.bind (fev_assert b) f = (if b then f () else None)"
  by (simp add: fev_assert_def)

lemma fev_assert_eq_Some [simp]: "fev_assert b = Some u \<longleftrightarrow> b"
  by (simp add: fev_assert_def)

section \<open>Arrays\<close>

text \<open>
  A C array of pointers is a list of cells; \<open>None\<close> is a cell that was never written. Reading it, and
  any access out of range, is a fault.
\<close>

definition aget :: "'a option list \<Rightarrow> nat \<Rightarrow> 'a option" where
  "aget xs i = (if i < length xs then xs ! i else None)"

definition aset :: "'a option list \<Rightarrow> nat \<Rightarrow> 'a \<Rightarrow> 'a option list option" where
  "aset xs i v = (if i < length xs then Some (xs[i := Some v]) else None)"

lemma aset_eq_Some [simp]: "i < length xs \<Longrightarrow> aset xs i v = Some (xs[i := Some v])"
  by (simp add: aset_def)

lemma aget_in_range [simp]: "i < length xs \<Longrightarrow> aget xs i = xs ! i"
  by (simp add: aget_def)

section \<open>Generic lemmas\<close>

lemma mset_update_move:
  assumes "i < length xs" "p < length xs" "i \<noteq> p"
  shows "mset (xs[i := xs ! p, p := t]) = mset (xs[i := t])"
proof -
  have "xs[i := xs ! p, p := t] = (xs[i := t])[p := (xs[i := t]) ! i, i := (xs[i := t]) ! p]"
    using assms by (auto simp: list_eq_iff_nth_eq nth_list_update)
  then show ?thesis
    using assms mset_swap [of i "xs[i := t]" p] by simp
qed

lemma mset_list_update_eq:
  "i < length xs \<Longrightarrow> mset (xs[i := t]) = add_mset t (mset xs - {#xs ! i#})"
  by (simp add: mset_update)

lemma int_mod_once:
  fixes a m :: int
  assumes "m \<le> a" "a < 2 * m"
  shows "a mod m = a - m"
  using assms mod_pos_pos_trivial [of "a - m" m] by (simp add: minus_mod_self2)

lemma of_nat_u32_pos: "n < 2 ^ 32 \<Longrightarrow> (of_nat n :: u32) > 0 \<longleftrightarrow> n > 0"
  by (simp add: word_less_nat_alt unat_of_nat)

text \<open>Numbers less than \<open>n\<close> apart have different remainders modulo \<open>n\<close>.\<close>

lemma mod_neq_within:
  assumes "i < j" "j < i + n"
  shows "(i :: nat) mod n \<noteq> j mod n"
proof
  assume "i mod n = j mod n"
  then have "n dvd j - i" using assms(1) by (metis less_imp_le mod_eq_dvd_iff_nat)
  then show False using assms by (auto dest!: dvd_imp_le)
qed

section \<open>Runs of a step function\<close>

text \<open>
  A concurrent component is a step function: \<open>step t s\<close> is the state after thread \<open>t\<close> performs its
  next atomic operation in \<open>s\<close>, or \<open>None\<close> when \<open>t\<close> cannot move. A schedule is a list of threads; a
  theorem about \<open>run step s sched\<close> for every \<open>sched\<close> is a theorem about every interleaving.
\<close>

primrec run :: "('t \<Rightarrow> 's \<Rightarrow> 's option) \<Rightarrow> 's \<Rightarrow> 't list \<Rightarrow> 's option" where
  "run step s [] = Some s"
| "run step s (t # ts) = (case step t s of None \<Rightarrow> None | Some s' \<Rightarrow> run step s' ts)"

lemma run_append:
  "run step s (ts @ us) = (case run step s ts of None \<Rightarrow> None | Some s' \<Rightarrow> run step s' us)"
  by (induction ts arbitrary: s) (auto split: option.splits)

text \<open>What an evaluation of a run has shown of its last state.\<close>

lemma observeE:
  assumes "map_option f r = Some v"
  obtains s where "r = Some s" "f s = v"
  using assms by (cases r) auto

text \<open>The contract of an inductive invariant, and what every client gets from it.\<close>

locale step_invariant =
  fixes step :: "'t \<Rightarrow> 's \<Rightarrow> 's option"
    and init :: "'s \<Rightarrow> bool"
    and inv :: "'s \<Rightarrow> bool"
  assumes inv_init: "init s \<Longrightarrow> inv s"
    and inv_step: "inv s \<Longrightarrow> step t s = Some s' \<Longrightarrow> inv s'"
begin

lemma inv_run: "inv s \<Longrightarrow> run step s ts = Some s' \<Longrightarrow> inv s'"
  by (induction ts arbitrary: s) (auto split: option.splits intro: inv_step)

lemma inv_run_init: "init s \<Longrightarrow> run step s ts = Some s' \<Longrightarrow> inv s'"
  using inv_run inv_init by blast

end

text \<open>
  A lock word that is free exactly when nobody holds the lock: the case analysis of one step by
  thread \<open>t\<close>.
\<close>

definition single_holder :: "bool \<Rightarrow> (nat \<Rightarrow> bool) \<Rightarrow> bool" where
  "single_holder free h \<longleftrightarrow> (free \<longleftrightarrow> (\<forall>t. \<not> h t)) \<and> (\<forall>a b. h a \<longrightarrow> h b \<longrightarrow> a = b)"

lemma single_holder_step:
  assumes "single_holder free h"
    and frame: "\<And>u. u \<noteq> t \<Longrightarrow> h' u = h u"
    and keep: "h' t = h t \<Longrightarrow> free' = free"
    and acquire: "\<not> h t \<Longrightarrow> h' t \<Longrightarrow> free \<and> \<not> free'"
    and release: "h t \<Longrightarrow> \<not> h' t \<Longrightarrow> free'"
  shows "single_holder free' h'"
proof -
  consider "h' t = h t" | "\<not> h t" "h' t" | "h t" "\<not> h' t" by blast
  then show ?thesis
  proof cases
    case 1
    then have "h' = h" using frame by (intro ext) metis
    then show ?thesis using assms(1) keep [OF 1] by simp
  next
    case 2
    then have "\<not> h u" for u using acquire assms(1) by (auto simp: single_holder_def)
    then have "h' u \<longleftrightarrow> u = t" for u using 2 frame by (cases "u = t") auto
    then show ?thesis using 2 acquire by (auto simp: single_holder_def)
  next
    case 3
    then have "u \<noteq> t \<Longrightarrow> \<not> h u" for u using assms(1) unfolding single_holder_def by blast
    then have "\<not> h' u" for u using 3 frame by (cases "u = t") auto
    then show ?thesis using 3 release by (auto simp: single_holder_def)
  qed
qed

text \<open>
  \<open>ow\<close> is the only thread for which \<open>P\<close> holds, or there is none; \<open>sole_next\<close> follows it when the
  program counter of \<open>f\<close> changes.
\<close>

definition sole :: "('a \<Rightarrow> bool) \<Rightarrow> 'a option \<Rightarrow> bool" where
  "sole P ow \<longleftrightarrow> (\<forall>u. P u \<longleftrightarrow> ow = Some u)"

definition sole_next :: "bool \<Rightarrow> 'a \<Rightarrow> 'a option \<Rightarrow> 'a option" where
  "sole_next b f ow = (if b then Some f else if ow = Some f then None else ow)"

lemma sole_upd:
  assumes "sole (\<lambda>u. h (g u)) ow" and "h p \<longrightarrow> ow = None \<or> ow = Some f"
  shows "sole (\<lambda>u. h ((g(f := p)) u)) (sole_next (h p) f ow)"
  using assms unfolding sole_def sole_next_def by (metis fun_upd_apply option.distinct(1) option.inject)

text \<open>
  A mutual-exclusion lock: a step system with an invariant under which at most one thread holds the
  lock. Each lock of the library (spin lock, futex mutex, internal fiber lock) is an instance.
\<close>

locale mutual_exclusion = step_invariant +
  fixes holds :: "'b \<Rightarrow> nat \<Rightarrow> bool"
  assumes inv_exclusive: "inv s \<Longrightarrow> holds s a \<Longrightarrow> holds s b \<Longrightarrow> a = b"
begin

lemma exclusive_run:
  "init s \<Longrightarrow> run step s ts = Some s' \<Longrightarrow> holds s' a \<Longrightarrow> holds s' b \<Longrightarrow> a = b"
  using inv_run_init inv_exclusive by blast

lemma at_most_one_holder:
  "init s \<Longrightarrow> run step s ts = Some s' \<Longrightarrow> finite {t. holds s' t} \<and> card {t. holds s' t} \<le> 1"
proof -
  assume r: "init s" "run step s ts = Some s'"
  show ?thesis
  proof (cases "\<exists>a. holds s' a")
    case True
    then obtain a where "holds s' a" by blast
    then have "{t. holds s' t} = {a}" using exclusive_run [OF r] by blast
    then show ?thesis by simp
  qed simp
qed

end

end
