(* ===== verification/Fev_Time.thy ===== *)
theory Fev_Time
  imports Prelude
begin

text \<open>
  \<open>src/fev_time.h\<close>: comparison of \<open>struct timespec\<close> values, conversion between absolute and relative
  times, and conversion to nanoseconds. \<open>time_t\<close> and \<open>long\<close> are 64-bit signed integers; a signed
  operation whose exact result does not fit is a fault. The clock is a parameter: the value that
  \<open>clock_gettime\<close> returned.
\<close>

section \<open>Data and operations\<close>

record timespec =
  tv_sec :: int
  tv_nsec :: int

definition FEV_NSECS_PER_SEC :: int where
  "FEV_NSECS_PER_SEC = 1000 * 1000 * 1000"

definition fits_long :: "int \<Rightarrow> bool" where
  "fits_long x \<longleftrightarrow> - LONG_MAX - 1 \<le> x \<and> x \<le> LONG_MAX"

text \<open>A signed \<open>long\<close> operation: the exact result, or a fault when it overflows.\<close>

definition long_op :: "int \<Rightarrow> int option" where
  "long_op x = (if fits_long x then Some x else None)"

definition timespec_valid :: "timespec \<Rightarrow> bool" where
  "timespec_valid ts \<longleftrightarrow> tv_sec ts \<ge> 0 \<and> tv_nsec ts \<ge> 0 \<and> tv_nsec ts < FEV_NSECS_PER_SEC"

definition fev_timespec_assert_valid :: "timespec \<Rightarrow> unit option" where
  "fev_timespec_assert_valid ts =
     do { fev_assert (tv_sec ts \<ge> 0);
          fev_assert (tv_nsec ts \<ge> 0 \<and> tv_nsec ts < FEV_NSECS_PER_SEC) }"

definition fev_timespec_cmp :: "timespec \<Rightarrow> timespec \<Rightarrow> int option" where
  "fev_timespec_cmp lhs rhs =
     do { fev_timespec_assert_valid lhs;
          fev_timespec_assert_valid rhs;
          sec_cmp \<leftarrow> long_op (tv_sec lhs - tv_sec rhs);
          if sec_cmp \<noteq> 0 then Some sec_cmp
          else long_op (tv_nsec lhs - tv_nsec rhs) }"

definition fev_timespec_abs_to_rel :: "timespec \<Rightarrow> timespec \<Rightarrow> timespec option" where
  "fev_timespec_abs_to_rel now abs_time =
     do { fev_timespec_assert_valid abs_time;
          c \<leftarrow> fev_timespec_cmp now abs_time;
          if c \<ge> 0 then Some \<lparr>tv_sec = 0, tv_nsec = 0\<rparr>
          else do {
            sec \<leftarrow> long_op (tv_sec abs_time - tv_sec now);
            nsec \<leftarrow> long_op (tv_nsec abs_time - tv_nsec now);
            ts \<leftarrow> (if nsec < 0
                   then do { fev_assert (sec > 0);
                             sec \<leftarrow> long_op (sec - 1);
                             nsec \<leftarrow> long_op (nsec + FEV_NSECS_PER_SEC);
                             Some \<lparr>tv_sec = sec, tv_nsec = nsec\<rparr> }
                   else Some \<lparr>tv_sec = sec, tv_nsec = nsec\<rparr>);
            fev_timespec_assert_valid ts;
            Some ts } }"

text \<open>C division and remainder truncate; both operands are non-negative here.\<close>

definition fev_get_abs_time_since_now :: "timespec \<Rightarrow> timespec \<Rightarrow> timespec option" where
  "fev_get_abs_time_since_now now rel_time =
     do { fev_timespec_assert_valid rel_time;
          n \<leftarrow> long_op (tv_nsec now + tv_nsec rel_time);
          d \<leftarrow> long_op (tv_sec rel_time + n div FEV_NSECS_PER_SEC);
          sec \<leftarrow> long_op (tv_sec now + d);
          abs_time \<leftarrow> Some \<lparr>tv_sec = sec, tv_nsec = n mod FEV_NSECS_PER_SEC\<rparr>;
          fev_timespec_assert_valid abs_time;
          Some abs_time }"

definition UINT64_MAX :: u64 where
  "UINT64_MAX = - 1"

definition fev_timespec_to_ns :: "timespec \<Rightarrow> u64 option" where
  "fev_timespec_to_ns ts =
     do { fev_timespec_assert_valid ts;
          let sec = (word_of_int (tv_sec ts) :: u64);
              nsec = (word_of_int (tv_nsec ts) :: u64);
              x = (if sec > UINT64_MAX div word_of_int FEV_NSECS_PER_SEC then UINT64_MAX
                   else sec * word_of_int FEV_NSECS_PER_SEC);
              ret = x + nsec
          in Some (if ret < x then UINT64_MAX else ret) }"

section \<open>The order of timespecs\<close>

text \<open>The time a valid timespec denotes, in nanoseconds.\<close>

definition ns :: "timespec \<Rightarrow> int" where
  "ns ts = tv_sec ts * FEV_NSECS_PER_SEC + tv_nsec ts"

text \<open>A valid timespec whose seconds fit \<open>time_t\<close>: what every \<open>struct timespec\<close> of the library is.\<close>

definition timespec_wf :: "timespec \<Rightarrow> bool" where
  "timespec_wf ts \<longleftrightarrow> timespec_valid ts \<and> tv_sec ts \<le> LONG_MAX"

named_theorems time_defs "unfolding of the time operations"

lemmas [time_defs] = timespec_wf_def timespec_valid_def fev_timespec_assert_valid_def
  long_op_def fits_long_def LONG_MAX_def FEV_NSECS_PER_SEC_def

lemma assert_valid_wf [simp]: "timespec_wf ts \<Longrightarrow> fev_timespec_assert_valid ts = Some ()"
  by (simp add: time_defs)

lemma timespec_cmp_wf:
  assumes "timespec_wf a" "timespec_wf b"
  shows "fev_timespec_cmp a b =
    Some (if tv_sec a = tv_sec b then tv_nsec a - tv_nsec b else tv_sec a - tv_sec b)"
  using assms by (auto simp: fev_timespec_cmp_def time_defs)

lemma ns_less_if_sec_less:
  assumes "timespec_wf a" "timespec_wf b" "tv_sec a < tv_sec b"
  shows "ns a < ns b"
  using assms by (simp add: ns_def time_defs)

lemma ns_inj: "timespec_wf a \<Longrightarrow> timespec_wf b \<Longrightarrow> ns a = ns b \<Longrightarrow> a = b"
  using ns_less_if_sec_less [of a b] ns_less_if_sec_less [of b a]
  by (cases "tv_sec a" "tv_sec b" rule: linorder_cases) (auto simp: ns_def intro: timespec.equality)

lemma timespec_cmp_sgn:
  assumes "timespec_wf a" "timespec_wf b"
  shows "\<exists>c. fev_timespec_cmp a b = Some c \<and> fits_long c \<and> sgn c = sgn (ns a - ns b)"
proof -
  consider "tv_sec a < tv_sec b" | "tv_sec a = tv_sec b" | "tv_sec b < tv_sec a" by linarith
  then show ?thesis
  proof cases
    case 1
    then show ?thesis using assms ns_less_if_sec_less [of a b] timespec_cmp_wf [OF assms]
      by (auto simp: time_defs)
  next
    case 2
    then show ?thesis using assms timespec_cmp_wf [OF assms] by (auto simp: ns_def time_defs)
  next
    case 3
    then show ?thesis using assms ns_less_if_sec_less [of b a] timespec_cmp_wf [OF assms]
      by (auto simp: time_defs)
  qed
qed

lemma timespec_cmp_le:
  assumes "timespec_wf a" "timespec_wf b"
  shows "\<exists>c. fev_timespec_cmp a b = Some c \<and> (c \<le> 0 \<longleftrightarrow> ns a \<le> ns b) \<and> (c < 0 \<longleftrightarrow> ns a < ns b)"
  using timespec_cmp_sgn [OF assms] by (auto simp: sgn_if split: if_splits)

section \<open>Correctness\<close>

text \<open>
  For all valid times \<open>fev_timespec_cmp\<close> runs without signed overflow and without a failed
  assertion, its result fits \<open>long\<close>, and the sign of the result is the order of the two instants in
  nanoseconds.
\<close>

theorem fev_timespec_cmp_orders:
  assumes "timespec_wf a" "timespec_wf b"
  shows "\<exists>c. fev_timespec_cmp a b = Some c \<and> fits_long c \<and> sgn c = sgn (ns a - ns b)"
  using assms by (rule timespec_cmp_sgn)

theorem fev_timespec_cmp_orders_witness:
  "\<exists>c. fev_timespec_cmp \<lparr>tv_sec = 3, tv_nsec = 5\<rparr> \<lparr>tv_sec = 2, tv_nsec = 999999999\<rparr> = Some c \<and>
       fits_long c \<and> sgn c = 1"
  using fev_timespec_cmp_orders [of "\<lparr>tv_sec = 3, tv_nsec = 5\<rparr>" "\<lparr>tv_sec = 2, tv_nsec = 999999999\<rparr>"]
  by (simp add: time_defs ns_def)

lemma abs_to_rel_wf:
  assumes "timespec_wf now" "timespec_wf abs_time"
  shows "\<exists>r. fev_timespec_abs_to_rel now abs_time = Some r \<and> timespec_wf r \<and>
             ns r = max 0 (ns abs_time - ns now)"
proof (cases "ns abs_time \<le> ns now")
  case True
  then show ?thesis using assms timespec_cmp_le [OF assms]
    by (auto simp: fev_timespec_abs_to_rel_def time_defs ns_def)
next
  case False
  obtain c where c: "fev_timespec_cmp now abs_time = Some c" "\<not> 0 \<le> c"
    using timespec_cmp_le [OF assms] False by auto
  have "tv_sec now \<le> tv_sec abs_time"
    using False assms ns_less_if_sec_less [of abs_time now] by force
  moreover have "tv_nsec abs_time < tv_nsec now \<Longrightarrow> tv_sec now < tv_sec abs_time"
    using False calculation by (cases "tv_sec now = tv_sec abs_time") (auto simp: ns_def)
  ultimately show ?thesis using assms c False
    by (simp add: fev_timespec_abs_to_rel_def)
       (auto simp: ns_def time_defs algebra_simps)
qed

text \<open>The deadline fits \<open>time_t\<close>.\<close>

definition deadline_fits :: "timespec \<Rightarrow> timespec \<Rightarrow> bool" where
  "deadline_fits now rel \<longleftrightarrow> ns now + ns rel < (LONG_MAX + 1) * FEV_NSECS_PER_SEC"

lemma abs_time_since_now_wf:
  assumes "timespec_wf now" "timespec_wf rel" "deadline_fits now rel"
  shows "\<exists>r. fev_get_abs_time_since_now now rel = Some r \<and> timespec_wf r \<and> ns r = ns now + ns rel"
proof -
  let ?n = "tv_nsec now + tv_nsec rel"
  have n: "0 \<le> ?n" "?n < 2 * FEV_NSECS_PER_SEC"
    using assms by (auto simp: time_defs)
  then have d: "?n div FEV_NSECS_PER_SEC = (if ?n < FEV_NSECS_PER_SEC then 0 else 1)"
    by (auto simp: FEV_NSECS_PER_SEC_def)
  moreover from n have "?n mod FEV_NSECS_PER_SEC =
      (if ?n < FEV_NSECS_PER_SEC then ?n else ?n - FEV_NSECS_PER_SEC)"
    using int_mod_once [of FEV_NSECS_PER_SEC ?n] by simp
  ultimately show ?thesis using assms n
    by (simp add: fev_get_abs_time_since_now_def) (auto simp: time_defs ns_def deadline_fits_def)
qed

text \<open>
  C33. The two conversions against the same clock reading are inverse to each other, and neither overflows nor
  fails an assertion. A relative time whose deadline fits \<open>time_t\<close> becomes the deadline that lies that much
  after now, from which \<open>fev_timespec_abs_to_rel\<close> gives it back. Every absolute time becomes a relative time
  from which \<open>fev_get_abs_time_since_now\<close> gives it back if it lies ahead, and now if it has passed, in which case
  the relative time is zero.
\<close>

theorem abs_rel_roundtrip:
  assumes "timespec_wf now"
  shows "(\<forall>rel. timespec_wf rel \<longrightarrow> deadline_fits now rel \<longrightarrow>
       (\<exists>d. fev_get_abs_time_since_now now rel = Some d \<and> timespec_wf d \<and> ns d = ns now + ns rel \<and>
            fev_timespec_abs_to_rel now d = Some rel)) \<and>
    (\<forall>abs_time. timespec_wf abs_time \<longrightarrow>
       (\<exists>rel. fev_timespec_abs_to_rel now abs_time = Some rel \<and> timespec_wf rel \<and>
            (ns abs_time \<le> ns now \<longrightarrow> rel = \<lparr>tv_sec = 0, tv_nsec = 0\<rparr>) \<and>
            fev_get_abs_time_since_now now rel = Some (if ns abs_time \<le> ns now then now else abs_time)))"
proof (intro conjI allI impI)
  fix rel assume rel: "timespec_wf rel" "deadline_fits now rel"
  obtain d where d: "fev_get_abs_time_since_now now rel = Some d" "timespec_wf d" "ns d = ns now + ns rel"
    using abs_time_since_now_wf [OF assms rel] by blast
  obtain r where r: "fev_timespec_abs_to_rel now d = Some r" "timespec_wf r" "ns r = max 0 (ns d - ns now)"
    using abs_to_rel_wf [OF assms d(2)] by blast
  have "ns rel \<ge> 0" using rel(1) by (simp add: ns_def time_defs)
  with r d have "r = rel" by (intro ns_inj) (auto simp: rel(1))
  with d r show "\<exists>d. fev_get_abs_time_since_now now rel = Some d \<and> timespec_wf d \<and> ns d = ns now + ns rel \<and>
            fev_timespec_abs_to_rel now d = Some rel" by blast
next
  fix abs_time assume abs: "timespec_wf abs_time"
  obtain r where r: "fev_timespec_abs_to_rel now abs_time = Some r" "timespec_wf r" "ns r = max 0 (ns abs_time - ns now)"
    using abs_to_rel_wf [OF assms abs] by blast
  have "ns x < (LONG_MAX + 1) * FEV_NSECS_PER_SEC" if "timespec_wf x" for x using that by (auto simp: ns_def time_defs)
  then have "deadline_fits now r" using assms abs r(3) by (auto simp: deadline_fits_def max_def)
  then obtain d where d: "fev_get_abs_time_since_now now r = Some d" "timespec_wf d" "ns d = ns now + ns r"
    using abs_time_since_now_wf [OF assms r(2)] by blast
  have "d = (if ns abs_time \<le> ns now then now else abs_time)"
    using r(3) d(3) by (intro ns_inj d(2)) (simp_all add: assms abs)
  moreover have "r = \<lparr>tv_sec = 0, tv_nsec = 0\<rparr>" if "ns abs_time \<le> ns now"
    using that r(3) by (intro ns_inj r(2)) (simp_all add: time_defs ns_def)
  ultimately show "\<exists>rel. fev_timespec_abs_to_rel now abs_time = Some rel \<and> timespec_wf rel \<and>
            (ns abs_time \<le> ns now \<longrightarrow> rel = \<lparr>tv_sec = 0, tv_nsec = 0\<rparr>) \<and>
            fev_get_abs_time_since_now now rel = Some (if ns abs_time \<le> ns now then now else abs_time)"
    using r(1,2) d(1) by blast
qed

text \<open>Three quarters of a second past ten: a deadline that takes a carry and a borrow, and one that has passed.\<close>

theorem abs_rel_roundtrip_witness:
  "(\<exists>d. fev_get_abs_time_since_now \<lparr>tv_sec = 10, tv_nsec = 750000000\<rparr> \<lparr>tv_sec = 1, tv_nsec = 300000000\<rparr> = Some d \<and>
      ns d = 12050000000 \<and>
      fev_timespec_abs_to_rel \<lparr>tv_sec = 10, tv_nsec = 750000000\<rparr> d = Some \<lparr>tv_sec = 1, tv_nsec = 300000000\<rparr>) \<and>
   (\<exists>rel. fev_timespec_abs_to_rel \<lparr>tv_sec = 10, tv_nsec = 750000000\<rparr> \<lparr>tv_sec = 10, tv_nsec = 5\<rparr> = Some rel \<and>
      fev_get_abs_time_since_now \<lparr>tv_sec = 10, tv_nsec = 750000000\<rparr> rel = Some \<lparr>tv_sec = 10, tv_nsec = 750000000\<rparr>)"
proof -
  let ?now = "\<lparr>tv_sec = 10, tv_nsec = 750000000\<rparr>" and ?rel = "\<lparr>tv_sec = 1, tv_nsec = 300000000\<rparr>" and ?abs = "\<lparr>tv_sec = 10, tv_nsec = 5\<rparr>"
  have wf: "timespec_wf ?now" "timespec_wf ?rel" "deadline_fits ?now ?rel" "timespec_wf ?abs"
    by (simp_all add: time_defs ns_def deadline_fits_def)
  have val: "ns ?now + ns ?rel = 12050000000" "ns ?abs \<le> ns ?now" by (simp_all add: ns_def FEV_NSECS_PER_SEC_def)
  note trip = abs_rel_roundtrip [OF wf(1)]
  show ?thesis
  proof (rule conjI)
    show "\<exists>d. fev_get_abs_time_since_now ?now ?rel = Some d \<and> ns d = 12050000000 \<and> fev_timespec_abs_to_rel ?now d = Some ?rel"
      using trip [THEN conjunct1, rule_format, OF wf(2,3)] val(1) by auto
    show "\<exists>rel. fev_timespec_abs_to_rel ?now ?abs = Some rel \<and> fev_get_abs_time_since_now ?now rel = Some ?now"
      using trip [THEN conjunct2, rule_format, OF wf(4)] val(2) by auto
  qed
qed

lemma uint_small: "0 \<le> k \<Longrightarrow> k < 2 ^ 64 \<Longrightarrow> uint (word_of_int k :: u64) = k"
  by (simp add: uint_word_of_int)

lemma uint_UINT64_MAX [simp]: "uint UINT64_MAX = 2 ^ 64 - 1"
  by (simp add: UINT64_MAX_def unsigned_minus_1_eq_mask mask_eq_exp_minus_1)

text \<open>
  \<open>fev_timespec_to_ns\<close> is exact saturating conversion: for every valid time the result is the number
  of nanoseconds, or \<open>UINT64_MAX\<close> when that number does not fit 64 bits; no intermediate wrap-around
  is visible in the result.
\<close>

theorem fev_timespec_to_ns_saturates:
  assumes "timespec_wf ts"
  shows "\<exists>w. fev_timespec_to_ns ts = Some w \<and> uint w = min (ns ts) (2 ^ 64 - 1)"
proof -
  define s n where "s = tv_sec ts" and "n = tv_nsec ts"
  have r: "0 \<le> s" "s < 2 ^ 63" "0 \<le> n" "n < 1000000000"
    using assms by (auto simp: s_def n_def time_defs)
  have us: "uint (word_of_int s :: u64) = s" and un: "uint (word_of_int n :: u64) = n"
    using r by (auto intro: uint_small)
  define q where "q = (UINT64_MAX div word_of_int FEV_NSECS_PER_SEC :: u64)"
  have q: "uint q = 18446744073"
    by (simp add: q_def FEV_NSECS_PER_SEC_def uint_div_distrib)
  define x where "x = (if word_of_int s > q then UINT64_MAX
                       else word_of_int s * word_of_int FEV_NSECS_PER_SEC)"
  have ux: "uint x = (if s > 18446744073 then 2 ^ 64 - 1 else s * 1000000000)"
    using r us q
    by (auto simp: x_def word_less_def FEV_NSECS_PER_SEC_def uint_word_ariths)
  have ret: "uint (x + word_of_int n) = (uint x + n) mod 2 ^ 64"
    by (simp add: uint_word_ariths un)
  have w: "fev_timespec_to_ns ts = Some (if x + word_of_int n < x then UINT64_MAX else x + word_of_int n)"
    using assms unfolding fev_timespec_to_ns_def
    by (simp add: Let_def s_def n_def x_def q_def)
  have "uint (if x + word_of_int n < x then UINT64_MAX else x + word_of_int n) =
      min (s * 1000000000 + n) (2 ^ 64 - 1)"
  proof (cases "uint x + n < 2 ^ 64")
    case True
    then have "uint (x + word_of_int n) = uint x + n"
      using ret r by simp
    then show ?thesis using True r ux by (auto simp: word_less_def split: if_splits)
  next
    case False
    then have "uint (x + word_of_int n) = uint x + n - 2 ^ 64"
      using ret r uint_lt2p [of x] int_mod_once [of "2 ^ 64" "uint x + n"] by simp
    then show ?thesis using False r ux by (auto simp: word_less_def split: if_splits)
  qed
  then show ?thesis using w by (simp add: ns_def s_def n_def FEV_NSECS_PER_SEC_def)
qed

theorem fev_timespec_to_ns_saturates_witness:
  "\<exists>w. fev_timespec_to_ns \<lparr>tv_sec = 18446744073, tv_nsec = 709551616\<rparr> = Some w \<and> uint w = 2 ^ 64 - 1"
  using fev_timespec_to_ns_saturates [of "\<lparr>tv_sec = 18446744073, tv_nsec = 709551616\<rparr>"]
  by (simp add: time_defs ns_def)

end
