(* ===== verification/Heap_Array.thy ===== *)
theory Heap_Array
  imports Prelude
begin

text \<open>
  Array-embedded binary heaps over an arbitrary key: the reference routines that the sift loops of
  \<open>fev_timers_binheap.c\<close> are compared with, and the lemmas that make them correct. Both routines keep a
  hole at index \<open>i\<close> and write the travelling element once, at the end.
\<close>

section \<open>Heap order\<close>

definition parent :: "nat \<Rightarrow> nat" where
  "parent i = (i - 1) div 2"

lemma parent_less [simp]: "0 < i \<Longrightarrow> parent i < i"
  by (simp add: parent_def)

lemma parent_le: "parent i \<le> i"
  by (simp add: parent_def)

lemma parent_neq [simp]: "0 < i \<Longrightarrow> parent i \<noteq> i" "0 < i \<Longrightarrow> i \<noteq> parent i"
  by (metis parent_less order_less_irrefl)+

lemma parent_bound [simp, intro]: "j < n \<Longrightarrow> parent j < n"
  using parent_le le_less_trans by blast

lemma parent_child: "parent (2 * i + 1) = i" "parent (2 * i + 2) = i"
  by (simp_all add: parent_def)

lemma child_cases: "0 < j \<Longrightarrow> parent j = i \<longleftrightarrow> j = 2 * i + 1 \<or> j = 2 * i + 2"
  by (auto simp: parent_def)

text \<open>Every element is at least its parent.\<close>

definition heap_ordered :: "('a \<Rightarrow> 'k::linorder) \<Rightarrow> 'a list \<Rightarrow> bool" where
  "heap_ordered k xs \<longleftrightarrow> (\<forall>j. 0 < j \<longrightarrow> j < length xs \<longrightarrow> k (xs ! parent j) \<le> k (xs ! j))"

text \<open>
  Order everywhere except between \<open>i\<close> and its parent; the children of \<open>i\<close> are at least that parent, so
  replacing the pair by its swap is safe.
\<close>

definition heap_except :: "('a \<Rightarrow> 'k::linorder) \<Rightarrow> 'a list \<Rightarrow> nat \<Rightarrow> bool" where
  "heap_except k xs i \<longleftrightarrow>
     (\<forall>j. 0 < j \<longrightarrow> j < length xs \<longrightarrow> j \<noteq> i \<longrightarrow> k (xs ! parent j) \<le> k (xs ! j)) \<and>
     (\<forall>j. 0 < j \<longrightarrow> j < length xs \<longrightarrow> parent j = i \<longrightarrow> 0 < i \<longrightarrow> k (xs ! parent i) \<le> k (xs ! j))"

lemma heap_ordered_except: "heap_ordered k xs \<Longrightarrow> heap_except k xs i"
  unfolding heap_ordered_def heap_except_def
  by (metis order_trans parent_less less_trans)

lemma heap_except_0: "heap_except k xs 0 \<longleftrightarrow> heap_ordered k xs"
  by (auto simp: heap_except_def heap_ordered_def)

lemma heap_except_fits:
  "heap_except k xs i \<Longrightarrow> k (xs ! parent i) \<le> k (xs ! i) \<Longrightarrow> heap_ordered k xs"
  by (auto simp: heap_except_def heap_ordered_def)

lemma heap_root_least:
  assumes "heap_ordered k xs" "j < length xs"
  shows "k (xs ! 0) \<le> k (xs ! j)"
  using assms(2)
proof (induction j rule: less_induct)
  case (less j)
  show ?case
  proof (cases "j = 0")
    case False
    then have "k (xs ! parent j) \<le> k (xs ! j)"
      using assms(1) less.prems by (simp add: heap_ordered_def)
    moreover have "k (xs ! 0) \<le> k (xs ! parent j)"
      using False less.prems by (intro less.IH) auto
    ultimately show ?thesis by simp
  qed simp
qed

lemma heap_butlast:
  "heap_ordered k xs \<Longrightarrow> heap_ordered k (butlast xs)"
  by (auto simp: heap_ordered_def nth_butlast)

section \<open>Moving up\<close>

fun up :: "('a \<Rightarrow> 'k::linorder) \<Rightarrow> 'a list \<Rightarrow> nat \<Rightarrow> 'a \<Rightarrow> 'a list \<times> nat" where
  "up k xs i t =
     (if i = 0 \<or> k (xs ! parent i) \<le> k t then (xs[i := t], i)
      else up k (xs[i := xs ! parent i]) (parent i) t)"

declare up.simps [simp del]

lemma up_facts:
  assumes "i < length xs"
  shows "length (fst (up k xs i t)) = length xs \<and> snd (up k xs i t) \<le> i \<and>
         mset (fst (up k xs i t)) = mset (xs[i := t]) \<and>
         fst (up k xs i t) ! snd (up k xs i t) = t"
  using assms
proof (induction k xs i t rule: up.induct)
  case (1 k xs i t)
  show ?case
  proof (cases "i = 0 \<or> k (xs ! parent i) \<le> k t")
    case True
    then show ?thesis using "1.prems" by (simp add: up.simps [of k xs i t])
  next
    case False
    then have i: "parent i < i" by simp
    then have "mset (xs[i := xs ! parent i, parent i := t]) = mset (xs[i := t])"
      using "1.prems" by (intro mset_update_move) auto
    then show ?thesis using "1.IH" [OF False] "1.prems" i False
      by (simp add: up.simps [of k xs i t])
  qed
qed

lemma heap_except_up_step:
  assumes h: "heap_except k (xs[i := t]) i" and i: "0 < i" "i < length xs"
    and less: "k t < k (xs ! parent i)"
  shows "heap_except k (xs[i := xs ! parent i, parent i := t]) (parent i)"
proof -
  let ?p = "parent i" and ?ys = "xs[i := xs ! parent i, parent i := t]"
  have p: "?p < i" using i by simp
  have old: "k (xs[i := t] ! parent j) \<le> k (xs[i := t] ! j)" if "0 < j" "j < length xs" "j \<noteq> i" for j
    using h that by (simp add: heap_except_def)
  have kid: "k (xs ! ?p) \<le> k (xs ! j)" if "0 < j" "j < length xs" "parent j = i" for j
  proof -
    from that have "i < j" by auto
    moreover have "k (xs[i := t] ! ?p) \<le> k (xs[i := t] ! j)"
      using h that i unfolding heap_except_def by (metis length_list_update)
    ultimately show ?thesis using p by simp
  qed
  have up: "k (xs ! parent j) \<le> k (xs ! j)" if "0 < j" "j < length xs" "j \<noteq> i" "parent j \<noteq> i" for j
    using old [OF that(1-3)] that by simp
  show ?thesis
    unfolding heap_except_def
  proof (intro conjI allI impI)
    fix j assume j: "0 < j" "j < length ?ys" "j \<noteq> ?p"
    consider "j = i" | "parent j = i" "j \<noteq> i" | "parent j = ?p" "j \<noteq> i" | "parent j \<noteq> i" "parent j \<noteq> ?p" "j \<noteq> i"
      by blast
    then show "k (?ys ! parent j) \<le> k (?ys ! j)"
    proof cases
      case 1 then show ?thesis using p i less by simp
    next
      case 2
      then have "i < j" using j(1) by auto
      then show ?thesis using 2 j kid [of j] i p by simp
    next
      case 3
      then have "?p < j" using j(1) parent_less [of j] by simp
      then show ?thesis using 3 j up [of j] i p less by (cases "?p = i") (auto intro: order_trans less_imp_le)
    next
      case 4 then show ?thesis using j up [of j] by simp
    qed
  next
    fix j assume j: "0 < j" "j < length ?ys" "parent j = ?p" "0 < ?p"
    have "parent ?p \<noteq> i" using p parent_le [of ?p] by linarith
    then have gp: "k (xs ! parent ?p) \<le> k (xs ! ?p)"
      using j p i up [of ?p] by simp
    have "parent ?p < ?p" using j(4) by simp
    then have pp: "?ys ! parent ?p = xs ! parent ?p" using p by simp
    show "k (?ys ! parent ?p) \<le> k (?ys ! j)"
    proof (cases "j = i")
      case True then show ?thesis using gp pp p i by simp
    next
      case False
      moreover have "?p < j" using j(1,3) parent_less [of j] by simp
      ultimately show ?thesis using gp pp j up [of j] p by (auto intro: order_trans)
    qed
  qed
qed

lemma up_heap:
  assumes "heap_except k (xs[i := t]) i" "i < length xs"
  shows "heap_ordered k (fst (up k xs i t))"
  using assms
proof (induction k xs i t rule: up.induct)
  case (1 k xs i t)
  show ?case
  proof (cases "i = 0 \<or> k (xs ! parent i) \<le> k t")
    case True
    then have "heap_ordered k (xs[i := t])"
    proof (cases "i = 0")
      case True then show ?thesis using "1.prems" heap_except_0 by blast
    next
      case False
      then have "parent i < i" by simp
      then show ?thesis using True False "1.prems"
        by (intro heap_except_fits [OF "1.prems"(1)]) (metis nth_list_update_eq nth_list_update_neq order_less_irrefl)
    qed
    then show ?thesis using True by (simp add: up.simps [of k xs i t])
  next
    case False
    then have "up k xs i t = up k (xs[i := xs ! parent i]) (parent i) t"
      by (simp add: up.simps [of k xs i t])
    moreover have "heap_except k (xs[i := xs ! parent i, parent i := t]) (parent i)"
      using False "1.prems" by (intro heap_except_up_step) auto
    ultimately show ?thesis using "1.IH" [OF False] "1.prems" by simp
  qed
qed

section \<open>Moving down\<close>

text \<open>
  The travelling element \<open>t\<close> starts in the hole at \<open>i\<close>; the smaller child (the left one on a tie) moves
  up while it is smaller than \<open>t\<close>.
\<close>

definition least_child :: "('a \<Rightarrow> 'k::linorder) \<Rightarrow> 'a list \<Rightarrow> nat \<Rightarrow> nat" where
  "least_child k xs i =
     (if 2 * i + 2 < length xs \<and> k (xs ! (2 * i + 2)) < k (xs ! (2 * i + 1)) then 2 * i + 2
      else 2 * i + 1)"

lemma least_child_facts:
  fixes k :: "'a \<Rightarrow> 'k::linorder" and xs :: "'a list" and i :: nat
  assumes "2 * i + 1 < length xs"
  shows "i < least_child k xs i" "least_child k xs i < length xs"
    "parent (least_child k xs i) = i"
    "\<And>j. 0 < j \<Longrightarrow> j < length xs \<Longrightarrow> parent j = i \<Longrightarrow> k (xs ! least_child k xs i) \<le> k (xs ! j)"
  using assms by (auto simp: least_child_def parent_child child_cases)

function down :: "('a \<Rightarrow> 'k::linorder) \<Rightarrow> 'a list \<Rightarrow> nat \<Rightarrow> 'a \<Rightarrow> 'a list" where
  "down k xs i t =
     (if length xs \<le> 2 * i + 1 \<or> k t \<le> k (xs ! least_child k xs i) then xs[i := t]
      else down k (xs[i := xs ! least_child k xs i]) (least_child k xs i) t)"
  by pat_completeness auto
termination
  by (relation "measure (\<lambda>(k, xs, i, t). length xs - i)")
    (auto simp: not_le intro!: diff_less_mono2 least_child_facts(1))

declare down.simps [simp del]

lemma down_facts:
  assumes "i < length xs"
  shows "length (down k xs i t) = length xs \<and> mset (down k xs i t) = mset (xs[i := t])"
  using assms
proof (induction k xs i t rule: down.induct)
  case (1 k xs i t)
  let ?c = "least_child k xs i"
  show ?case
  proof (cases "length xs \<le> 2 * i + 1 \<or> k t \<le> k (xs ! ?c)")
    case True
    then show ?thesis by (simp add: down.simps [of k xs i t])
  next
    case False
    then have c: "i < ?c" "?c < length xs" using least_child_facts [where k = k and xs = xs and i = i] by auto
    then have "mset (xs[i := xs ! ?c, ?c := t]) = mset (xs[i := t])"
      by (intro mset_update_move) auto
    then show ?thesis using "1.IH" [OF False] c False
      by (simp add: down.simps [of k xs i t])
  qed
qed

text \<open>
  The loop invariant, for a descent that started at \<open>r\<close>: order holds away from the hole, the hole's
  children are at least the hole's parent, and below \<open>r\<close> the travelling element is larger than the
  hole's parent.
\<close>

definition heap_hole :: "('a \<Rightarrow> 'k::linorder) \<Rightarrow> 'a list \<Rightarrow> nat \<Rightarrow> nat \<Rightarrow> 'a \<Rightarrow> bool" where
  "heap_hole k xs r i t \<longleftrightarrow>
     (\<forall>j. 0 < j \<longrightarrow> j < length xs \<longrightarrow> j \<noteq> i \<longrightarrow> j \<noteq> r \<longrightarrow> parent j \<noteq> i \<longrightarrow> k (xs ! parent j) \<le> k (xs ! j)) \<and>
     (\<forall>j. 0 < j \<longrightarrow> j < length xs \<longrightarrow> parent j = i \<longrightarrow> 0 < i \<longrightarrow> k (xs ! parent i) \<le> k (xs ! j)) \<and>
     (i = r \<or> (r < i \<and> k (xs ! parent i) < k t)) \<and>
     (i \<noteq> r \<longrightarrow> (\<forall>j. 0 < j \<longrightarrow> j < length xs \<longrightarrow> (parent j = r \<or> j = r) \<longrightarrow> 0 < r \<longrightarrow>
         k (xs ! parent r) \<le> k (xs ! j)))"

lemma heap_hole_step:
  assumes h: "heap_hole k xs r i t" and i: "2 * i + 1 < length xs"
    and less: "k (xs ! least_child k xs i) < k t"
  shows "heap_hole k (xs[i := xs ! least_child k xs i]) r (least_child k xs i) t"
proof -
  let ?c = "least_child k xs i"
  let ?ys = "xs[i := xs ! ?c]"
  note lc = least_child_facts [OF i, where k = k]
  have order: "k (xs ! parent j) \<le> k (xs ! j)"
    if "0 < j" "j < length xs" "j \<noteq> i" "j \<noteq> r" "parent j \<noteq> i" for j
    using h that unfolding heap_hole_def by blast
  have kids: "k (xs ! parent i) \<le> k (xs ! j)" if "0 < j" "j < length xs" "parent j = i" "0 < i" for j
    using h that unfolding heap_hole_def by blast
  have ri: "r \<le> i" using h unfolding heap_hole_def by auto
  have below: "k (xs ! parent r) \<le> k (xs ! j)"
    if "i \<noteq> r" "0 < j" "j < length xs" "parent j = r \<or> j = r" "0 < r" for j
    using h that unfolding heap_hole_def by blast
  show ?thesis
    unfolding heap_hole_def
  proof (intro conjI allI impI)
    fix j assume j: "0 < j" "j < length ?ys" "j \<noteq> ?c" "j \<noteq> r" "parent j \<noteq> ?c"
    show "k (?ys ! parent j) \<le> k (?ys ! j)"
    proof (cases "j = i")
      case True
      then show ?thesis using j lc kids [of ?c] i by simp
    next
      case False
      then show ?thesis using j lc order [of j] i by (cases "parent j = i") auto
    qed
  next
    fix j assume j: "0 < j" "j < length ?ys" "parent j = ?c" "0 < ?c"
    have "i < j" using j lc(1) parent_less [of j] by linarith
    moreover have "j \<noteq> r" "parent j \<noteq> i" using calculation ri j lc(1) by auto
    ultimately show "k (?ys ! parent ?c) \<le> k (?ys ! j)"
      using j order [of j] lc i by simp
  next
    show "?c = r \<or> (r < ?c \<and> k (?ys ! parent ?c) < k t)"
      using ri lc less i by simp
  next
    fix j assume j: "?c \<noteq> r" "0 < j" "j < length ?ys" "parent j = r \<or> j = r" "0 < r"
    have pr: "parent r < i" using j(5) ri parent_less [of r] by linarith
    show "k (?ys ! parent r) \<le> k (?ys ! j)"
    proof (cases "i = r")
      case True
      have "k (xs ! parent r) \<le> k (xs ! ?c)" using True lc kids [of ?c] j by simp
      moreover have "k (xs ! parent r) \<le> k (xs ! j)" if "parent j = r"
        using True kids [of j] j that by simp
      ultimately show ?thesis using j pr True lc i by (cases "j = i") auto
    next
      case False
      have "j = i \<Longrightarrow> k (xs ! parent r) \<le> k (xs ! ?c)"
      proof -
        assume "j = i"
        have "0 < i" using j ri by simp
        from \<open>j = i\<close> have "parent i = r" using j False by auto
        then have "k (xs ! parent r) \<le> k (xs ! i)" "k (xs ! parent i) \<le> k (xs ! ?c)"
          using below [of i] False j lc kids [of ?c] i \<open>0 < i\<close> by auto
        moreover have "k (xs ! parent r) \<le> k (xs ! r)"
          using below [of r] False j ri i by auto
        ultimately show ?thesis using \<open>parent i = r\<close> by (auto intro: order_trans)
      qed
      then show ?thesis using below [of j] False j pr i by (cases "j = i") auto
    qed
  qed
qed

lemma heap_hole_done:
  assumes h: "heap_hole k xs r i t" and i: "i < length xs"
    and stop: "length xs \<le> 2 * i + 1 \<or> k t \<le> k (xs ! least_child k xs i)"
  shows "heap_except k (xs[i := t]) r"
proof -
  let ?ys = "xs[i := t]"
  have order: "k (xs ! parent j) \<le> k (xs ! j)"
    if "0 < j" "j < length xs" "j \<noteq> i" "j \<noteq> r" "parent j \<noteq> i" for j
    using h that unfolding heap_hole_def by blast
  have kids: "k (xs ! parent i) \<le> k (xs ! j)" if "0 < j" "j < length xs" "parent j = i" "0 < i" for j
    using h that unfolding heap_hole_def by blast
  have ri: "i = r \<or> (r < i \<and> k (xs ! parent i) < k t)" using h unfolding heap_hole_def by auto
  have below: "k (xs ! parent r) \<le> k (xs ! j)"
    if "i \<noteq> r" "0 < j" "j < length xs" "parent j = r \<or> j = r" "0 < r" for j
    using h that unfolding heap_hole_def by blast
  have t_kids: "k t \<le> k (xs ! j)" if j: "0 < j" "j < length xs" "parent j = i" for j
  proof -
    from j have "2 * i + 1 < length xs" by (auto simp: child_cases)
    then show ?thesis using stop least_child_facts(4) [of i xs j, where k = k] j by (auto intro: order_trans)
  qed
  show ?thesis
    unfolding heap_except_def
  proof (intro conjI allI impI)
    fix j assume j: "0 < j" "j < length ?ys" "j \<noteq> r"
    show "k (?ys ! parent j) \<le> k (?ys ! j)"
    proof (cases "j = i")
      case True
      then show ?thesis using j ri i by auto
    next
      case False
      then show ?thesis using j order [of j] t_kids [of j] i by (cases "parent j = i") auto
    qed
  next
    fix j assume j: "0 < j" "j < length ?ys" "parent j = r" "0 < r"
    have pr: "parent r < i" using j(4) ri parent_less [of r] by linarith
    show "k (?ys ! parent r) \<le> k (?ys ! j)"
    proof (cases "i = r")
      case True
      then have "j \<noteq> i" using j by auto
      then show ?thesis using True j kids [of j] pr by simp
    next
      case False
      have "j = i \<Longrightarrow> k (xs ! parent r) \<le> k t"
        using below [of r] False j ri i by (auto intro: order_trans less_imp_le)
      then show ?thesis using below [of j] False j pr i by (cases "j = i") auto
    qed
  qed
qed

lemma down_heap:
  assumes "heap_hole k xs r i t" "i < length xs"
  shows "heap_except k (down k xs i t) r"
  using assms
proof (induction k xs i t rule: down.induct)
  case (1 k xs i t)
  let ?c = "least_child k xs i"
  show ?case
  proof (cases "length xs \<le> 2 * i + 1 \<or> k t \<le> k (xs ! ?c)")
    case True
    then show ?thesis using heap_hole_done [OF "1.prems"] by (simp add: down.simps [of k xs i t])
  next
    case False
    then have "down k xs i t = down k (xs[i := xs ! ?c]) ?c t"
      by (simp add: down.simps [of k xs i t])
    moreover have "heap_hole k (xs[i := xs ! ?c]) r ?c t"
      using False by (intro heap_hole_step [OF "1.prems"(1)]) auto
    ultimately show ?thesis using "1.IH" [OF False] False least_child_facts [where k = k and xs = xs and i = i] by simp
  qed
qed

lemma heap_hole_start: "heap_ordered k xs \<Longrightarrow> heap_hole k xs i i t"
  using heap_ordered_except [of k xs i]
  by (auto simp: heap_ordered_def heap_hole_def heap_except_def)


section \<open>The root\<close>

text \<open>The root changes only when the moved element ends there, and an element that is not smaller never does.\<close>

lemma up_root_keeps:
  "i < length xs \<Longrightarrow> snd (up k xs i t) \<noteq> 0 \<Longrightarrow> fst (up k xs i t) ! 0 = xs ! 0"
proof (induction k xs i t rule: up.induct)
  case (1 k xs i t)
  show ?case
  proof (cases "i = 0 \<or> k (xs ! parent i) \<le> k t")
    case True
    then show ?thesis using 1 by (auto simp: up.simps [of k xs i t])
  next
    case False
    then have "fst (up k xs i t) ! 0 = xs[i := xs ! parent i] ! 0"
      using 1 by (simp add: up.simps [of k xs i t])
    then show ?thesis using False by simp
  qed
qed

lemma up_root_not_reached:
  "0 < i \<Longrightarrow> i < length xs \<Longrightarrow> k (xs ! 0) \<le> k t \<Longrightarrow> snd (up k xs i t) \<noteq> 0"
proof (induction k xs i t rule: up.induct)
  case (1 k xs i t)
  show ?case
  proof (cases "k (xs ! parent i) \<le> k t")
    case True
    then show ?thesis using 1 by (simp add: up.simps [of k xs i t])
  next
    case False
    then have "parent i \<noteq> 0" using 1 by (cases "parent i = 0") auto
    then show ?thesis using 1 False by (simp add: up.simps [of k xs i t])
  qed
qed

lemma down_root_keeps: "0 < i \<Longrightarrow> i < length xs \<Longrightarrow> down k xs i t ! 0 = xs ! 0"
proof (induction k xs i t rule: down.induct)
  case (1 k xs i t)
  show ?case
  proof (cases "length xs \<le> 2 * i + 1 \<or> k t \<le> k (xs ! least_child k xs i)")
    case True
    then show ?thesis using 1 by (simp add: down.simps [of k xs i t])
  next
    case False
    then have "i < least_child k xs i" "least_child k xs i < length xs"
      using least_child_facts [where k = k and xs = xs and i = i] by auto
    then show ?thesis using 1 False by (simp add: down.simps [of k xs i t])
  qed
qed

end
