(* ===== verification/Binheap.thy ===== *)
theory Binheap
  imports Fev_Time Heap_Array
begin

text \<open>
  The binary-heap timer bucket (\<open>fev_timers_binheap.h\<close>, \<open>fev_timers_binheap.c\<close>). Timers live in a
  store indexed by their addresses; the heap is an array of addresses, and each timer records its own
  position in it, which the deletion of an arbitrary timer depends on. A dangling pointer, an access
  outside the array, a cell that was never written and a failed assertion are faults (\<open>None\<close>).
\<close>

section \<open>Data\<close>

record fev_timer =
  t_abs_time :: timespec
  t_index :: nat
  t_waiter :: waiter_ptr

type_synonym timer_store = "timer_ptr \<rightharpoonup> fev_timer"

text \<open>The members of \<open>struct fev_timers_bucket\<close> that belong to the heap.\<close>

record binheap_bucket =
  b_heap :: "timer_ptr option list"
  b_len :: nat
  b_capacity :: nat

text \<open>The assignment \<open>timer->index = i\<close>.\<close>

definition set_index :: "timer_store \<Rightarrow> timer_ptr \<Rightarrow> nat \<Rightarrow> timer_store option" where
  "set_index st t i = map_option (\<lambda>tm. st(t \<mapsto> tm\<lparr>t_index := i\<rparr>)) (st t)"

section \<open>Operations\<close>

definition fev_timers_cmp :: "timer_store \<Rightarrow> timer_ptr \<Rightarrow> timer_ptr \<Rightarrow> int option" where
  "fev_timers_cmp st lhs rhs =
     do { l \<leftarrow> st lhs; r \<leftarrow> st rhs; fev_timespec_cmp (t_abs_time l) (t_abs_time r) }"

text \<open>The loop of \<open>fev_timers_sift_up\<close>, entered with \<open>len > 0\<close>; it returns the final \<open>index\<close>.\<close>

function sift_up_loop ::
  "timer_store \<Rightarrow> timer_ptr option list \<Rightarrow> nat \<Rightarrow> nat \<Rightarrow> timer_ptr \<Rightarrow>
     (timer_store \<times> timer_ptr option list \<times> nat) option" where
  "sift_up_loop st heap len index timer =
     (let len = (len - 1) div 2
      in do { parent_ptr \<leftarrow> aget heap len;
              c \<leftarrow> fev_timers_cmp st parent_ptr timer;
              if c \<le> 0 then Some (st, heap, index)
              else do { heap \<leftarrow> aset heap index parent_ptr;
                        st \<leftarrow> set_index st parent_ptr index;
                        if len = 0 then Some (st, heap, len)
                        else sift_up_loop st heap len len timer } })"
  by auto
termination by (relation "measure (\<lambda>(st, heap, len, index, timer). len)") auto

declare sift_up_loop.simps [simp del]

definition fev_timers_sift_up ::
  "timer_store \<Rightarrow> timer_ptr option list \<Rightarrow> nat \<Rightarrow> timer_ptr \<Rightarrow> (timer_store \<times> timer_ptr option list) option" where
  "fev_timers_sift_up st heap len timer =
     do { (st, heap, index) \<leftarrow>
            (if len > 0 then sift_up_loop st heap len len timer else Some (st, heap, len));
          heap \<leftarrow> aset heap index timer;
          st \<leftarrow> set_index st timer index;
          Some (st, heap) }"

text \<open>The smaller of the children of \<open>start\<close> (one loop iteration of \<open>fev_timers_sift_down\<close>).\<close>

definition sift_down_child :: "timer_store \<Rightarrow> timer_ptr option list \<Rightarrow> nat \<Rightarrow> nat \<Rightarrow> (timer_ptr \<times> nat) option" where
  "sift_down_child st heap len start =
     (let child = start * 2 + 1; right = child + 1
      in do { child_ptr \<leftarrow> aget heap child;
              if right < len
              then do { right_ptr \<leftarrow> aget heap right;
                        c \<leftarrow> fev_timers_cmp st right_ptr child_ptr;
                        Some (if c < 0 then (right_ptr, right) else (child_ptr, child)) }
              else Some (child_ptr, child) })"

lemma sift_down_child_greater: "sift_down_child st heap len start = Some (p, child) \<Longrightarrow> start < child"
  by (auto simp: sift_down_child_def Let_def split: if_splits bind_splits)

text \<open>The loop of \<open>fev_timers_sift_down\<close>, entered with \<open>len \<ge> 2\<close>; it returns the final \<open>start\<close>.\<close>

function sift_down_loop ::
  "timer_store \<Rightarrow> timer_ptr option list \<Rightarrow> nat \<Rightarrow> nat \<Rightarrow> timer_ptr \<Rightarrow>
     (timer_store \<times> timer_ptr option list \<times> nat) option" where
  "sift_down_loop st heap len start last_ptr =
     (if (len - 2) div 2 < start then Some (st, heap, start)
      else do { (child_ptr, child) \<leftarrow> sift_down_child st heap len start;
                c \<leftarrow> fev_timers_cmp st last_ptr child_ptr;
                if c \<le> 0 then Some (st, heap, start)
                else do { heap \<leftarrow> aset heap start child_ptr;
                          st \<leftarrow> set_index st child_ptr start;
                          sift_down_loop st heap len child last_ptr } })"
  by auto
termination by (relation "measure (\<lambda>(st, heap, len, start, last_ptr). len + 2 - start)")
    (auto dest: sift_down_child_greater)

declare sift_down_loop.simps [simp del]

definition fev_timers_sift_down ::
  "timer_store \<Rightarrow> timer_ptr option list \<Rightarrow> nat \<Rightarrow> nat \<Rightarrow> (timer_store \<times> timer_ptr option list) option" where
  "fev_timers_sift_down st heap len start =
     do { fev_assert (len \<ge> 1);
          fev_assert (start < len);
          if start = len - 1 then Some (st, heap)
          else do {
            fev_assert (len \<ge> 2);
            last_ptr \<leftarrow> aget heap (len - 1);
            (st, heap, start) \<leftarrow>
              (if len - 1 \<ge> 2 then sift_down_loop st heap (len - 1) start last_ptr
               else Some (st, heap, start));
            heap \<leftarrow> aset heap start last_ptr;
            st \<leftarrow> set_index st last_ptr start;
            Some (st, heap) } }"

text \<open>
  \<open>fev_timers_bucket_grow\<close>: the doubled capacity wraps at 64 bits. \<open>alloc\<close> tells whether
  \<open>fev_realloc\<close> succeeds; it keeps the old cells and leaves the new ones unwritten.
\<close>

definition fev_timers_bucket_grow :: "bool \<Rightarrow> binheap_bucket \<Rightarrow> (int \<times> binheap_bucket) option" where
  "fev_timers_bucket_grow alloc b =
     (let c = 2 * b_capacity b mod 2 ^ 64; capacity = (if c = 0 then 1 else c)
      in do { fev_assert (capacity \<le> SIZE_MAX div 8);
              Some (if \<not> alloc then (- ENOMEM, b)
                    else (0, b\<lparr>b_heap := take capacity (b_heap b) @ replicate (capacity - length (b_heap b)) None,
                               b_capacity := capacity\<rparr>)) })"

definition fev_timers_bucket_empty :: "binheap_bucket \<Rightarrow> bool" where
  "fev_timers_bucket_empty b \<longleftrightarrow> b_len b = 0"

definition fev_timers_bucket_min :: "binheap_bucket \<Rightarrow> timer_ptr option" where
  "fev_timers_bucket_min b =
     do { fev_assert (\<not> fev_timers_bucket_empty b);
          m \<leftarrow> aget (b_heap b) 0;
          fev_assert (m \<noteq> 0);
          Some m }"

definition fev_timers_bucket_add ::
  "bool \<Rightarrow> timer_store \<Rightarrow> binheap_bucket \<Rightarrow> timer_ptr \<Rightarrow> (int \<times> timer_store \<times> binheap_bucket) option" where
  "fev_timers_bucket_add alloc st b timer =
     do { (ret, b) \<leftarrow> (if b_len b = b_capacity b then fev_timers_bucket_grow alloc b else Some (0, b));
          if ret \<noteq> 0 then Some (ret, st, b)
          else do {
            (st, heap) \<leftarrow> fev_timers_sift_up st (b_heap b) (b_len b) timer;
            tm \<leftarrow> st timer;
            Some (if t_index tm = 0 then 1 else 0, st, b\<lparr>b_heap := heap, b_len := b_len b + 1\<rparr>) } }"

definition fev_timers_bucket_del ::
  "timer_store \<Rightarrow> binheap_bucket \<Rightarrow> timer_ptr \<Rightarrow> (int \<times> timer_store \<times> binheap_bucket) option" where
  "fev_timers_bucket_del st b timer =
     do { tm \<leftarrow> st timer;
          let index = t_index tm;
          fev_assert (\<not> fev_timers_bucket_empty b);
          fev_assert (index \<noteq> SIZE_MAX);
          (st, heap) \<leftarrow> fev_timers_sift_down st (b_heap b) (b_len b) index;
          let b = b\<lparr>b_heap := heap, b_len := b_len b - 1\<rparr>;
          if index > 0
          then if index < b_len b
               then do { x \<leftarrow> aget (b_heap b) index;
                         (st, heap) \<leftarrow> fev_timers_sift_up st (b_heap b) index x;
                         Some (0, st, b\<lparr>b_heap := heap\<rparr>) }
               else Some (0, st, b)
          else Some (1, st, b) }"

definition fev_timers_bucket_del_min ::
  "timer_store \<Rightarrow> binheap_bucket \<Rightarrow> (timer_store \<times> binheap_bucket) option" where
  "fev_timers_bucket_del_min st b =
     do { fev_assert (\<not> fev_timers_bucket_empty b);
          (st, heap) \<leftarrow> fev_timers_sift_down st (b_heap b) (b_len b) 0;
          Some (st, b\<lparr>b_heap := heap, b_len := b_len b - 1\<rparr>) }"

text \<open>The heap part of \<open>fev_timers_bucket_init\<close>.\<close>

definition binheap_init :: binheap_bucket where
  "binheap_init = \<lparr>b_heap = [], b_len = 0, b_capacity = 0\<rparr>"

definition fev_timer_is_expired :: "timer_store \<Rightarrow> timer_ptr \<Rightarrow> bool option" where
  "fev_timer_is_expired st t = map_option (\<lambda>tm. t_index tm = SIZE_MAX) (st t)"

definition fev_timer_set_expired :: "timer_store \<Rightarrow> timer_ptr \<Rightarrow> timer_store option" where
  "fev_timer_set_expired st t = set_index st t SIZE_MAX"

section \<open>The array with a hole\<close>

text \<open>
  The first \<open>n\<close> cells hold the timers \<open>xs\<close>, except possibly at \<open>hole\<close> (\<open>hole = n\<close>: no exception), and
  each of these timers records its position.
\<close>

definition heap_rep :: "timer_store \<Rightarrow> timer_ptr option list \<Rightarrow> nat \<Rightarrow> nat \<Rightarrow> timer_ptr list \<Rightarrow> bool" where
  "heap_rep st heap n hole xs \<longleftrightarrow>
     length xs = n \<and> n \<le> length heap \<and>
     (\<forall>j<n. j \<noteq> hole \<longrightarrow> heap ! j = Some (xs ! j) \<and>
        (\<exists>tm. st (xs ! j) = Some tm \<and> t_index tm = j \<and> timespec_wf (t_abs_time tm)))"

definition key :: "timer_store \<Rightarrow> timer_ptr \<Rightarrow> int" where
  "key st t = (case st t of None \<Rightarrow> 0 | Some tm \<Rightarrow> ns (t_abs_time tm))"

text \<open>Stores that differ in the index fields only, and only of the timers in \<open>A\<close>.\<close>

definition same_times :: "timer_ptr set \<Rightarrow> timer_store \<Rightarrow> timer_store \<Rightarrow> bool" where
  "same_times A st st' \<longleftrightarrow>
     (\<forall>t. map_option (\<lambda>tm. (t_abs_time tm, t_waiter tm)) (st' t) =
          map_option (\<lambda>tm. (t_abs_time tm, t_waiter tm)) (st t)) \<and>
     (\<forall>t. t \<notin> A \<longrightarrow> st' t = st t)"

lemma same_times_refl [simp]: "same_times A st st"
  by (simp add: same_times_def)

lemma same_times_trans: "same_times A st st' \<Longrightarrow> same_times A st' st'' \<Longrightarrow> same_times A st st''"
  by (simp add: same_times_def)

lemma same_times_mono: "same_times A st st' \<Longrightarrow> A \<subseteq> B \<Longrightarrow> same_times B st st'"
  by (auto simp: same_times_def)

lemma same_times_at:
  assumes "same_times A st st'"
  shows "st t = Some tm \<Longrightarrow> \<exists>tm'. st' t = Some tm' \<and> t_abs_time tm' = t_abs_time tm \<and> t_waiter tm' = t_waiter tm"
    and "st' t = None \<longleftrightarrow> st t = None"
proof -
  have "map_option (\<lambda>tm. (t_abs_time tm, t_waiter tm)) (st' t) = map_option (\<lambda>tm. (t_abs_time tm, t_waiter tm)) (st t)"
    using assms by (simp add: same_times_def)
  note eq = this
  show "st' t = None \<longleftrightarrow> st t = None" using arg_cong [OF eq, of "\<lambda>x. x = None"] by simp
  show "\<exists>tm'. st' t = Some tm' \<and> t_abs_time tm' = t_abs_time tm \<and> t_waiter tm' = t_waiter tm" if st: "st t = Some tm"
  proof -
    obtain tm' where "st' t = Some tm'" using eq st by (cases "st' t") auto
    then show ?thesis using eq st by (intro exI [of _ tm']) simp
  qed
qed

lemma same_times_key: "same_times A st st' \<Longrightarrow> key st' = key st"
proof
  fix t assume "same_times A st st'"
  from same_times_at [OF this, of t] show "key st' t = key st t"
    by (cases "st t") (auto simp: key_def)
qed

lemma set_index_same_times:
  "st t = Some tm \<Longrightarrow> t \<in> A \<Longrightarrow> set_index st t i = Some (st(t \<mapsto> tm\<lparr>t_index := i\<rparr>)) \<and>
     same_times A st (st(t \<mapsto> tm\<lparr>t_index := i\<rparr>))"
  by (auto simp: set_index_def same_times_def)

lemma fev_timers_cmp_key:
  assumes "st a = Some x" "st b = Some y" "timespec_wf (t_abs_time x)" "timespec_wf (t_abs_time y)"
  shows "\<exists>c. fev_timers_cmp st a b = Some c \<and> (c \<le> 0 \<longleftrightarrow> key st a \<le> key st b) \<and> (c < 0 \<longleftrightarrow> key st a < key st b)"
  using timespec_cmp_le [OF assms(3,4)] assms by (auto simp: fev_timers_cmp_def key_def)

text \<open>Moving the timer at \<open>p\<close> into the hole makes \<open>p\<close> the hole.\<close>

lemma heap_rep_move:
  assumes rep: "heap_rep st heap n i xs" and "i < n" "p < n" "p \<noteq> i"
  shows "\<exists>st'. set_index st (xs ! p) i = Some st' \<and> heap_rep st' (heap[i := Some (xs ! p)]) n p (xs[i := xs ! p]) \<and>
     same_times (set xs) st st'"
proof -
  obtain tm where tm: "st (xs ! p) = Some tm" "t_index tm = p" "timespec_wf (t_abs_time tm)" "heap ! p = Some (xs ! p)"
    and len: "length xs = n" "n \<le> length heap"
    using assms by (auto simp: heap_rep_def)
  let ?st = "st(xs ! p \<mapsto> tm\<lparr>t_index := i\<rparr>)"
  have other: "xs ! j \<noteq> xs ! p" if "j < n" "j \<noteq> i" "j \<noteq> p" for j
  proof
    assume "xs ! j = xs ! p"
    moreover have "\<exists>tm. st (xs ! j) = Some tm \<and> t_index tm = j" using rep that by (auto simp: heap_rep_def)
    ultimately show False using tm that by auto
  qed
  have "heap_rep ?st (heap[i := Some (xs ! p)]) n p (xs[i := xs ! p])"
    using rep tm assms(2-4) other by (auto simp: heap_rep_def nth_list_update)
  moreover have "xs ! p \<in> set xs" using len assms by auto
  ultimately show ?thesis using set_index_same_times [where st = st, OF tm(1), of "set xs" i] by auto
qed

text \<open>Writing a timer into the hole completes the array.\<close>

lemma heap_rep_place:
  assumes rep: "heap_rep st heap n i xs" and i: "i < n" and t: "st t = Some tm" "timespec_wf (t_abs_time tm)"
    and new: "\<And>j. j < n \<Longrightarrow> j \<noteq> i \<Longrightarrow> xs ! j \<noteq> t"
  shows "\<exists>st'. set_index st t i = Some st' \<and> heap_rep st' (heap[i := Some t]) n n (xs[i := t]) \<and>
     same_times {t} st st'"
proof -
  have "heap_rep (st(t \<mapsto> tm\<lparr>t_index := i\<rparr>)) (heap[i := Some t]) n n (xs[i := t])"
    using rep t i new by (auto simp: heap_rep_def nth_list_update)
  then show ?thesis using set_index_same_times [where st = st, OF t(1), of "{t}" i] by auto
qed

text \<open>The hole may be filled with \<open>t\<close>: it is a valid timer and is nowhere else in the array.\<close>

definition fills :: "timer_store \<Rightarrow> nat \<Rightarrow> nat \<Rightarrow> timer_ptr list \<Rightarrow> timer_ptr \<Rightarrow> bool" where
  "fills st n i xs t \<longleftrightarrow>
     (\<exists>tm. st t = Some tm \<and> timespec_wf (t_abs_time tm)) \<and> (\<forall>j<n. j \<noteq> i \<longrightarrow> xs ! j \<noteq> t)"

lemma heap_rep_at:
  assumes "heap_rep st heap n i xs" "j < n" "j \<noteq> i"
  shows "aget heap j = Some (xs ! j)" "j < length heap"
    "\<exists>tm. st (xs ! j) = Some tm \<and> t_index tm = j \<and> timespec_wf (t_abs_time tm)"
  using assms by (auto simp: heap_rep_def)

lemma heap_rep_cmp:
  assumes "heap_rep st heap n i xs" "fills st n i xs t" "j < n" "j \<noteq> i"
  shows "\<exists>c. fev_timers_cmp st (xs ! j) t = Some c \<and> (c \<le> 0 \<longleftrightarrow> key st (xs ! j) \<le> key st t)"
    and "\<exists>c. fev_timers_cmp st t (xs ! j) = Some c \<and> (c \<le> 0 \<longleftrightarrow> key st t \<le> key st (xs ! j))"
  using heap_rep_at(3) [OF assms(1,3,4)] assms(2) fev_timers_cmp_key unfolding fills_def by meson+

lemma fills_move:
  assumes "heap_rep st heap n i xs" "fills st n i xs t" "i < n" "p < n" "p \<noteq> i"
    "same_times A st st'"
  shows "fills st' n p (xs[i := xs ! p]) t"
  using assms same_times_at(1) [OF assms(6), of t] by (auto simp: fills_def heap_rep_def nth_list_update)

lemma sift_up_loop_refines:
  assumes "heap_rep st heap n i xs" "fills st n i xs t" "0 < i" "i < n"
  shows "\<exists>st' heap' i' xs'. sift_up_loop st heap i i t = Some (st', heap', i') \<and>
     heap_rep st' heap' n i' xs' \<and> fills st' n i' xs' t \<and> i' < n \<and> length heap' = length heap \<and>
     up (key st) xs i t = (xs'[i' := t], i') \<and> same_times (set xs) st st'"
  using assms
proof (induction i arbitrary: st heap xs rule: less_induct)
  case (less i)
  let ?p = "(i - 1) div 2"
  have p: "?p < n" "?p \<noteq> i" "?p = parent i" using less.prems(3,4) by (auto simp: parent_def)
  obtain c where c: "fev_timers_cmp st (xs ! ?p) t = Some c" "c \<le> 0 \<longleftrightarrow> key st (xs ! ?p) \<le> key st t"
    using heap_rep_cmp(1) [OF less.prems(1,2) p(1,2)] by auto
  note at = heap_rep_at [OF less.prems(1) p(1,2)]
  have i: "i < length heap" using less.prems(1,4) by (auto simp: heap_rep_def)
  show ?case
  proof (cases "c \<le> 0")
    case True
    then have "sift_up_loop st heap i i t = Some (st, heap, i)" using at c by (simp add: sift_up_loop.simps)
    moreover have "up (key st) xs i t = (xs[i := t], i)" using True c p by (simp add: up.simps)
    ultimately show ?thesis using less.prems by auto
  next
    case False
    obtain st1 where st1: "set_index st (xs ! ?p) i = Some st1"
        "heap_rep st1 (heap[i := Some (xs ! ?p)]) n ?p (xs[i := xs ! ?p])" "same_times (set xs) st st1"
      using heap_rep_move [OF less.prems(1,4) p(1,2)] by blast
    let ?heap = "heap[i := Some (xs ! ?p)]" and ?xs = "xs[i := xs ! ?p]"
    have loop: "sift_up_loop st heap i i t =
        (if ?p = 0 then Some (st1, ?heap, ?p) else sift_up_loop st1 ?heap ?p ?p t)"
      using at c st1 i False by (subst sift_up_loop.simps) (simp add: Let_def)
    have up: "up (key st) xs i t = up (key st1) ?xs ?p t"
      using False c p less.prems(3) same_times_key [OF st1(3)] by (subst up.simps) simp
    have f: "fills st1 n ?p ?xs t" using fills_move [OF less.prems(1,2,4) p(1,2) st1(3)] .
    have sub: "set ?xs \<subseteq> set xs"
      using p less.prems(1) set_update_subset_insert [of xs i "xs ! ?p"] by (auto simp: heap_rep_def)
    show ?thesis
    proof (cases "?p = 0")
      case True
      then show ?thesis using loop up st1 f p less.prems(4) by (auto simp: up.simps)
    next
      case False
      then have "?p < i" "0 < ?p" by auto
      from less.IH [OF this(1) st1(2) f this(2) p(1)] obtain st' heap' i' xs' where
        IH: "sift_up_loop st1 ?heap ?p ?p t = Some (st', heap', i')" "heap_rep st' heap' n i' xs'"
          "fills st' n i' xs' t" "i' < n" "length heap' = length ?heap"
          "up (key st1) ?xs ?p t = (xs'[i' := t], i')" "same_times (set ?xs) st1 st'"
        by blast
      have "same_times (set xs) st st'"
        using st1(3) same_times_mono [OF IH(7) sub] by (rule same_times_trans)
      then show ?thesis using loop up False IH(1-6)
        by (intro exI [of _ st'] exI [of _ heap'] exI [of _ i'] exI [of _ xs']) simp
    qed
  qed
qed

lemma sift_up_refines:
  assumes rep: "heap_rep st heap n i xs" and f: "fills st n i xs t" and i: "i < n"
  shows "\<exists>st' heap' tm. fev_timers_sift_up st heap i t = Some (st', heap') \<and>
     heap_rep st' heap' n n (fst (up (key st) xs i t)) \<and> length heap' = length heap \<and>
     same_times (insert t (set xs)) st st' \<and> st' t = Some tm \<and> t_index tm = snd (up (key st) xs i t)"
proof -
  have "\<exists>st1 heap1 i1 xs1.
      (if i > 0 then sift_up_loop st heap i i t else Some (st, heap, i)) = Some (st1, heap1, i1) \<and>
      heap_rep st1 heap1 n i1 xs1 \<and> fills st1 n i1 xs1 t \<and> i1 < n \<and> length heap1 = length heap \<and>
      up (key st) xs i t = (xs1[i1 := t], i1) \<and> same_times (set xs) st st1"
  proof (cases "i > 0")
    case True
    then show ?thesis using sift_up_loop_refines [OF rep f True i] by simp
  next
    case False
    then show ?thesis using rep f i by (intro exI [of _ st] exI [of _ heap] exI [of _ i] exI [of _ xs]) (simp add: up.simps)
  qed
  then obtain st1 heap1 i1 xs1 where loop:
      "(if i > 0 then sift_up_loop st heap i i t else Some (st, heap, i)) = Some (st1, heap1, i1)"
    and r1: "heap_rep st1 heap1 n i1 xs1" "fills st1 n i1 xs1 t" "i1 < n" "length heap1 = length heap"
      "up (key st) xs i t = (xs1[i1 := t], i1)" "same_times (set xs) st st1" by blast
  obtain tm where tm: "st1 t = Some tm" "timespec_wf (t_abs_time tm)" "\<And>j. j < n \<Longrightarrow> j \<noteq> i1 \<Longrightarrow> xs1 ! j \<noteq> t"
    using r1(2) unfolding fills_def by blast
  obtain st2 where st2: "set_index st1 t i1 = Some st2" "heap_rep st2 (heap1[i1 := Some t]) n n (xs1[i1 := t])"
      "same_times {t} st1 st2"
    using heap_rep_place [OF r1(1,3) tm] by blast
  have "fev_timers_sift_up st heap i t = Some (st2, heap1[i1 := Some t])"
    using loop st2(1) r1(1,3) by (simp add: fev_timers_sift_up_def heap_rep_def)
  moreover have "same_times (insert t (set xs)) st st2"
    using same_times_mono [OF r1(6)] same_times_mono [OF st2(3)] by (blast intro: same_times_trans)
  moreover have "\<exists>tm. st2 t = Some tm \<and> t_index tm = i1"
    using heap_rep_at(3) [OF st2(2) r1(3)] r1(1,3) by (auto simp: heap_rep_def)
  ultimately show ?thesis using r1(4,5) st2(2) by auto
qed

lemma least_child_cmp:
  assumes rep: "heap_rep st heap m i ys" and m: "2 * i + 1 < m"
  shows "sift_down_child st heap m i = Some (ys ! least_child (key st) ys i, least_child (key st) ys i)"
proof (cases "2 * i + 2 < m")
  case True
  have len: "length ys = m" using rep by (simp add: heap_rep_def)
  obtain a b where ab: "st (ys ! (2 * i + 2)) = Some a" "timespec_wf (t_abs_time a)"
      "st (ys ! (2 * i + 1)) = Some b" "timespec_wf (t_abs_time b)"
    using heap_rep_at(3) [OF rep True] heap_rep_at(3) [OF rep m] by auto
  obtain c where c: "fev_timers_cmp st (ys ! (2 * i + 2)) (ys ! (2 * i + 1)) = Some c"
      "c < 0 \<longleftrightarrow> key st (ys ! (2 * i + 2)) < key st (ys ! (2 * i + 1))"
    using fev_timers_cmp_key [where st = st, OF ab(1,3,2,4)] by auto
  then show ?thesis
    using True len heap_rep_at(1) [OF rep True] heap_rep_at(1) [OF rep m]
    by (simp add: sift_down_child_def Let_def least_child_def mult.commute)
next
  case False
  then show ?thesis using rep heap_rep_at(1) [OF rep m]
    by (simp add: sift_down_child_def Let_def least_child_def heap_rep_def mult.commute)
qed

lemma sift_down_loop_refines:
  assumes "heap_rep st heap m i ys" "fills st m i ys t" "i < m" "2 \<le> m"
  shows "\<exists>st' heap' i' ys'. sift_down_loop st heap m i t = Some (st', heap', i') \<and>
     heap_rep st' heap' m i' ys' \<and> fills st' m i' ys' t \<and> i' < m \<and> length heap' = length heap \<and>
     down (key st) ys i t = ys'[i' := t] \<and> same_times (set ys) st st'"
  using assms
proof (induction "m - i" arbitrary: i st heap ys rule: less_induct)
  case less
  have len: "length ys = m" and i: "i < length heap" using less.prems by (auto simp: heap_rep_def)
  have stop: "(m - 2) div 2 < i \<longleftrightarrow> length ys \<le> 2 * i + 1" using less.prems(4) len by auto
  show ?case
  proof (cases "(m - 2) div 2 < i")
    case True
    then have "sift_down_loop st heap m i t = Some (st, heap, i)" by (simp add: sift_down_loop.simps)
    moreover have "down (key st) ys i t = ys[i := t]" using True stop by (simp add: down.simps)
    ultimately show ?thesis using less.prems by auto
  next
    case False
    let ?c = "least_child (key st) ys i"
    have in_range: "2 * i + 1 < m" using False stop len by simp
    then have c: "?c < m" "?c \<noteq> i" "i < ?c" using least_child_facts [where k = "key st" and xs = ys and i = i] len by auto
    obtain d where d: "fev_timers_cmp st t (ys ! ?c) = Some d" "d \<le> 0 \<longleftrightarrow> key st t \<le> key st (ys ! ?c)"
      using heap_rep_cmp(2) [OF less.prems(1,2) c(1,2)] by auto
    obtain st1 where st1: "set_index st (ys ! ?c) i = Some st1"
        "heap_rep st1 (heap[i := Some (ys ! ?c)]) m ?c (ys[i := ys ! ?c])" "same_times (set ys) st st1"
      using heap_rep_move [OF less.prems(1,3) c(1,2)] by blast
    let ?heap = "heap[i := Some (ys ! ?c)]" and ?ys = "ys[i := ys ! ?c]"
    have loop: "sift_down_loop st heap m i t =
        (if d \<le> 0 then Some (st, heap, i) else sift_down_loop st1 ?heap m ?c t)"
      using False d st1(1) i least_child_cmp [OF less.prems(1) in_range]
      by (subst sift_down_loop.simps) simp
    show ?thesis
    proof (cases "d \<le> 0")
      case True
      then have "down (key st) ys i t = ys[i := t]" using d by (simp add: down.simps)
      then show ?thesis using True loop less.prems by auto
    next
      case False
      have down: "down (key st) ys i t = down (key st1) ?ys ?c t"
        using False d in_range len same_times_key [OF st1(3)] by (subst down.simps) simp
      have f: "fills st1 m ?c ?ys t" using fills_move [OF less.prems(1,2,3) c(1,2) st1(3)] .
      have sub: "set ?ys \<subseteq> set ys"
        using c len set_update_subset_insert [of ys i "ys ! ?c"] by auto
      have "m - ?c < m - i" using c by simp
      from less.hyps [OF this st1(2) f c(1) less.prems(4)] obtain st' heap' i' ys' where
        IH: "sift_down_loop st1 ?heap m ?c t = Some (st', heap', i')" "heap_rep st' heap' m i' ys'"
          "fills st' m i' ys' t" "i' < m" "length heap' = length ?heap"
          "down (key st1) ?ys ?c t = ys'[i' := t]" "same_times (set ?ys) st1 st'"
        by blast
      have "same_times (set ys) st st'"
        using st1(3) same_times_mono [OF IH(7) sub] by (rule same_times_trans)
      then show ?thesis using loop down False IH(1-6)
        by (intro exI [of _ st'] exI [of _ heap'] exI [of _ i'] exI [of _ ys']) simp
    qed
  qed
qed

lemma heap_rep_butlast:
  assumes rep: "heap_rep st heap n n xs" and "i < n - 1"
  shows "heap_rep st heap (n - 1) i (butlast xs)" "fills st (n - 1) i (butlast xs) (last xs)"
proof -
  have len: "length xs = n" "xs \<noteq> []" using assms by (auto simp: heap_rep_def)
  show "heap_rep st heap (n - 1) i (butlast xs)" using rep by (auto simp: heap_rep_def nth_butlast)
  have *: "\<exists>tm. st (xs ! j) = Some tm \<and> t_index tm = j \<and> timespec_wf (t_abs_time tm)" if "j < n" for j
    using heap_rep_at(3) [OF rep that] that by auto
  have n: "n - 1 < n" using assms(2) by simp
  have "butlast xs ! j \<noteq> xs ! (n - 1)" if "j < n - 1" for j
  proof -
    have "j < n" using that by simp
    from * [OF this] * [OF n] show ?thesis using that len by (auto simp: nth_butlast)
  qed
  then show "fills st (n - 1) i (butlast xs) (last xs)"
    unfolding fills_def last_conv_nth [OF len(2)] len(1) using * [OF n] by auto
qed

lemma sift_down_refines:
  assumes rep: "heap_rep st heap n n xs" and i: "i < n"
  shows "\<exists>st' heap'. fev_timers_sift_down st heap n i = Some (st', heap') \<and>
     heap_rep st' heap' (n - 1) (n - 1)
       (if i = n - 1 then butlast xs else down (key st) (butlast xs) i (last xs)) \<and>
     length heap' = length heap \<and> same_times (set xs) st st'"
proof (cases "i = n - 1")
  case True
  have "heap_rep st heap (n - 1) (n - 1) (butlast xs)" using rep by (auto simp: heap_rep_def nth_butlast)
  then show ?thesis using True i by (auto simp: fev_timers_sift_down_def)
next
  case False
  let ?m = "n - 1" and ?t = "last xs"
  have len: "length xs = n" "xs \<noteq> []" "n \<le> length heap" and m: "i < ?m" "2 \<le> n"
    using rep i False by (auto simp: heap_rep_def)
  note hole = heap_rep_butlast [OF rep m(1)]
  have last: "aget heap ?m = Some ?t"
    using heap_rep_at(1) [OF rep, of ?m] len m by (simp add: last_conv_nth)
  have "\<exists>st1 heap1 i1 ys1.
      (if ?m \<ge> 2 then sift_down_loop st heap ?m i ?t else Some (st, heap, i)) = Some (st1, heap1, i1) \<and>
      heap_rep st1 heap1 ?m i1 ys1 \<and> fills st1 ?m i1 ys1 ?t \<and> i1 < ?m \<and> length heap1 = length heap \<and>
      down (key st) (butlast xs) i ?t = ys1[i1 := ?t] \<and> same_times (set (butlast xs)) st st1"
  proof (cases "?m \<ge> 2")
    case True
    then show ?thesis using sift_down_loop_refines [OF hole m(1) True] by simp
  next
    case False
    then show ?thesis using hole m len
      by (intro exI [of _ st] exI [of _ heap] exI [of _ i] exI [of _ "butlast xs"]) (simp add: down.simps)
  qed
  then obtain st1 heap1 i1 ys1 where
    loop: "(if ?m \<ge> 2 then sift_down_loop st heap ?m i ?t else Some (st, heap, i)) = Some (st1, heap1, i1)"
    and r1: "heap_rep st1 heap1 ?m i1 ys1" "fills st1 ?m i1 ys1 ?t" "i1 < ?m" "length heap1 = length heap"
      "down (key st) (butlast xs) i ?t = ys1[i1 := ?t]" "same_times (set (butlast xs)) st st1" by blast
  obtain tm where tm: "st1 ?t = Some tm" "timespec_wf (t_abs_time tm)" "\<And>j. j < ?m \<Longrightarrow> j \<noteq> i1 \<Longrightarrow> ys1 ! j \<noteq> ?t"
    using r1(2) unfolding fills_def by blast
  obtain st2 where st2: "set_index st1 ?t i1 = Some st2" "heap_rep st2 (heap1[i1 := Some ?t]) ?m ?m (ys1[i1 := ?t])"
      "same_times {?t} st1 st2"
    using heap_rep_place [OF r1(1,3) tm] by blast
  have "fev_timers_sift_down st heap n i = Some (st2, heap1[i1 := Some ?t])"
    using loop st2(1) last m r1(1,3) False by (simp add: fev_timers_sift_down_def heap_rep_def)
  moreover have "set (butlast xs) \<subseteq> set xs" "{?t} \<subseteq> set xs" using len by (auto dest: in_set_butlastD)
  then have "same_times (set xs) st st2"
    using same_times_mono [OF r1(6)] same_times_mono [OF st2(3)] by (blast intro: same_times_trans)
  ultimately show ?thesis using r1(4,5) st2(2) False by auto
qed

section \<open>The bucket invariant\<close>

definition timers_of :: "binheap_bucket \<Rightarrow> timer_ptr list" where
  "timers_of b = map the (take (b_len b) (b_heap b))"

definition bucket_inv :: "timer_store \<Rightarrow> binheap_bucket \<Rightarrow> bool" where
  "bucket_inv st b \<longleftrightarrow>
     heap_rep st (b_heap b) (b_len b) (b_len b) (timers_of b) \<and> heap_ordered (key st) (timers_of b) \<and>
     length (b_heap b) = b_capacity b \<and> b_capacity b \<le> SIZE_MAX div 8 \<and> 0 \<notin> set (timers_of b)"

lemma heap_rep_timers:
  assumes "heap_rep st heap n n xs"
  shows "map the (take n heap) = xs"
  using assms by (auto simp: heap_rep_def list_eq_iff_nth_eq)

lemma heap_rep_distinct:
  assumes rep: "heap_rep st heap n n xs"
  shows "distinct xs"
  unfolding distinct_conv_nth
proof (intro allI impI)
  fix i j assume ij: "i < length xs" "j < length xs" "i \<noteq> j"
  then have n: "i < n" "j < n" using rep by (auto simp: heap_rep_def)
  obtain a where a: "st (xs ! i) = Some a" "t_index a = i"
    using heap_rep_at(3) [OF rep n(1) less_imp_neq [OF n(1)]] by (elim exE conjE)
  obtain b where b: "st (xs ! j) = Some b" "t_index b = j"
    using heap_rep_at(3) [OF rep n(2) less_imp_neq [OF n(2)]] by (elim exE conjE)
  show "xs ! i \<noteq> xs ! j"
  proof
    assume "xs ! i = xs ! j"
    then have "a = b" using a(1) b(1) by simp
    then show False using a(2) b(2) ij(3) by metis
  qed
qed

lemma heap_rep_any_hole: "heap_rep st heap n n xs \<Longrightarrow> heap_rep st heap n i xs"
  by (auto simp: heap_rep_def)

lemma heap_rep_fills_self:
  assumes "heap_rep st heap n n xs" "i < n"
  shows "fills st n i xs (xs ! i)"
  using heap_rep_at(3) [OF assms(1), of i] heap_rep_distinct [OF assms(1)] assms
  by (auto simp: fills_def heap_rep_def nth_eq_iff_index_eq)

lemma heap_snoc_except: "heap_ordered k xs \<Longrightarrow> heap_except k (xs @ [t]) (length xs)"
  unfolding heap_ordered_def heap_except_def
  by (auto simp: nth_append less_Suc_eq dest: parent_less)

lemma bucket_invI:
  assumes "heap_rep st (b_heap b) (b_len b) (b_len b) xs" "heap_ordered (key st) xs"
    "length (b_heap b) = b_capacity b" "b_capacity b \<le> SIZE_MAX div 8" "0 \<notin> set xs"
  shows "bucket_inv st b" "timers_of b = xs"
  using assms heap_rep_timers [OF assms(1)] by (auto simp: bucket_inv_def timers_of_def)

lemma bucket_inv_len: "bucket_inv st b \<Longrightarrow> length (timers_of b) = b_len b \<and> b_len b < SIZE_MAX"
  by (auto simp: bucket_inv_def heap_rep_def SIZE_MAX_def)

lemma bucket_inv_empty: "bucket_inv st b \<Longrightarrow> fev_timers_bucket_empty b \<longleftrightarrow> set (timers_of b) = {}"
  using bucket_inv_len [of st b] by (auto simp: fev_timers_bucket_empty_def)

lemma bucket_min_refines:
  assumes inv: "bucket_inv st b" and ne: "set (timers_of b) \<noteq> {}"
  shows "fev_timers_bucket_min b = Some (timers_of b ! 0) \<and> timers_of b ! 0 \<in> set (timers_of b) \<and>
    (\<forall>t \<in> set (timers_of b). key st (timers_of b ! 0) \<le> key st t)"
proof (intro conjI ballI)
  have len: "length (timers_of b) = b_len b" "b_len b > 0"
    using bucket_inv_len [OF inv] ne by (auto simp: neq_Nil_conv)
  show in_set: "timers_of b ! 0 \<in> set (timers_of b)" using len by simp
  show "fev_timers_bucket_min b = Some (timers_of b ! 0)"
  proof -
    have "timers_of b ! 0 \<noteq> 0" using in_set inv unfolding bucket_inv_def by metis
    then show ?thesis
      using inv len heap_rep_at(1) [of st "b_heap b" "b_len b" "b_len b" "timers_of b" 0]
      by (simp add: bucket_inv_def fev_timers_bucket_min_def fev_timers_bucket_empty_def)
  qed
  fix t assume "t \<in> set (timers_of b)"
  then obtain j where j: "j < length (timers_of b)" "t = timers_of b ! j" by (metis in_set_conv_nth)
  have "heap_ordered (key st) (timers_of b)" using inv by (simp add: bucket_inv_def)
  from heap_root_least [OF this j(1)] j(2) show "key st (timers_of b ! 0) \<le> key st t" by simp
qed

text \<open>Growing keeps the contents and makes room, or fails without a change.\<close>

lemma bucket_grow_refines:
  assumes inv: "bucket_inv st b" and full: "b_len b = b_capacity b" and room: "2 * b_capacity b \<le> SIZE_MAX div 8"
  shows "fev_timers_bucket_grow False b = Some (- ENOMEM, b)"
    and "\<exists>b'. fev_timers_bucket_grow True b = Some (0, b') \<and> bucket_inv st b' \<and>
           timers_of b' = timers_of b \<and> b_len b' = b_len b \<and> b_len b' < b_capacity b'"
proof -
  let ?c = "if b_capacity b = 0 then 1 else 2 * b_capacity b"
  have c: "2 * b_capacity b mod 2 ^ 64 = 2 * b_capacity b" using room by (simp add: SIZE_MAX_def)
  have ok: "?c \<le> SIZE_MAX div 8" using room by (simp add: SIZE_MAX_def)
  show "fev_timers_bucket_grow False b = Some (- ENOMEM, b)"
    using c ok by (auto simp: fev_timers_bucket_grow_def Let_def)
  let ?b = "b\<lparr>b_heap := b_heap b @ replicate (?c - length (b_heap b)) None, b_capacity := ?c\<rparr>"
  have len: "length (b_heap b) = b_capacity b" using inv by (simp add: bucket_inv_def)
  have "fev_timers_bucket_grow True b = Some (0, ?b)"
    using c ok len by (auto simp: fev_timers_bucket_grow_def Let_def)
  moreover have "heap_rep st (b_heap ?b) (b_len ?b) (b_len ?b) (timers_of b)"
    using inv by (auto simp: bucket_inv_def heap_rep_def nth_append)
  then have "bucket_inv st ?b" "timers_of ?b = timers_of b"
    using bucket_invI [of st ?b "timers_of b"] inv ok len by (auto simp: bucket_inv_def)
  ultimately show "\<exists>b'. fev_timers_bucket_grow True b = Some (0, b') \<and> bucket_inv st b' \<and>
           timers_of b' = timers_of b \<and> b_len b' = b_len b \<and> b_len b' < b_capacity b'"
    using full by (intro exI [of _ ?b]) simp
qed

text \<open>Inserting into a bucket with room.\<close>

lemma bucket_insert_refines:
  assumes inv: "bucket_inv st b" and room: "b_len b < b_capacity b"
    and t: "t \<noteq> 0" "t \<notin> set (timers_of b)" "st t = Some tm" "timespec_wf (t_abs_time tm)"
  shows "\<exists>st' heap tm'. fev_timers_sift_up st (b_heap b) (b_len b) t = Some (st', heap) \<and>
     bucket_inv st' (b\<lparr>b_heap := heap, b_len := b_len b + 1\<rparr>) \<and>
     mset (timers_of (b\<lparr>b_heap := heap, b_len := b_len b + 1\<rparr>)) = add_mset t (mset (timers_of b)) \<and>
     st' t = Some tm' \<and> (t_index tm' = 0 \<longleftrightarrow> timers_of (b\<lparr>b_heap := heap, b_len := b_len b + 1\<rparr>) ! 0 = t) \<and>
     (t_index tm' \<noteq> 0 \<longrightarrow> timers_of b \<noteq> [] \<and>
        timers_of (b\<lparr>b_heap := heap, b_len := b_len b + 1\<rparr>) ! 0 = timers_of b ! 0) \<and>
     same_times (insert t (set (timers_of b))) st st'"
proof -
  let ?n = "b_len b" and ?xs = "timers_of b @ [t]"
  let ?up = "up (key st) ?xs ?n t"
  have rep: "heap_rep st (b_heap b) ?n ?n (timers_of b)" and ord: "heap_ordered (key st) (timers_of b)"
    and len: "length (timers_of b) = ?n"
    using inv by (auto simp: bucket_inv_def heap_rep_def)
  have hole: "heap_rep st (b_heap b) (?n + 1) ?n ?xs"
    using rep room inv by (auto simp: heap_rep_def bucket_inv_def nth_append less_Suc_eq)
  have f: "fills st (?n + 1) ?n ?xs t"
    using t len by (auto simp: fills_def nth_append less_Suc_eq)
  obtain st' heap tm' where up: "fev_timers_sift_up st (b_heap b) ?n t = Some (st', heap)"
      "heap_rep st' heap (?n + 1) (?n + 1) (fst ?up)" "length heap = length (b_heap b)"
      "same_times (insert t (set ?xs)) st st'" "st' t = Some tm'" "t_index tm' = snd ?up"
    using sift_up_refines [OF hole f] by auto
  have facts: "length (fst ?up) = ?n + 1" "snd ?up \<le> ?n" "mset (fst ?up) = mset (?xs[?n := t])"
      "fst ?up ! snd ?up = t"
    using up_facts [of ?n ?xs "key st" t] len by auto
  have m: "mset (fst ?up) = add_mset t (mset (timers_of b))" using facts(3) by (simp add: len [symmetric])
  have "heap_ordered (key st') (fst ?up)"
    using up_heap [of "key st" ?xs ?n t] heap_snoc_except [OF ord, of t] same_times_key [OF up(4)]
    by (simp add: len [symmetric])
  moreover have "0 \<notin> set (fst ?up)"
    using mset_eq_setD [of "fst ?up" "t # timers_of b"] m t inv by (simp add: bucket_inv_def)
  ultimately have "bucket_inv st' (b\<lparr>b_heap := heap, b_len := ?n + 1\<rparr>)"
      "timers_of (b\<lparr>b_heap := heap, b_len := ?n + 1\<rparr>) = fst ?up"
    using bucket_invI [of st' "b\<lparr>b_heap := heap, b_len := ?n + 1\<rparr>" "fst ?up"] up inv by (auto simp: bucket_inv_def)
  moreover have "snd ?up = 0 \<longleftrightarrow> fst ?up ! 0 = t"
    using facts heap_rep_distinct [OF up(2)] by (metis le_imp_less_Suc nth_eq_iff_index_eq Suc_eq_plus1 zero_less_Suc)
  moreover have "timers_of b \<noteq> [] \<and> fst ?up ! 0 = timers_of b ! 0" if "snd ?up \<noteq> 0"
    using up_root_keeps [OF _ that] that facts(2) len by (auto simp: nth_append)
  moreover have "insert t (set ?xs) = insert t (set (timers_of b))" by auto
  ultimately show ?thesis using up m by auto
qed

lemma bucket_add_refines:
  assumes inv: "bucket_inv st b" and room: "2 * b_capacity b \<le> SIZE_MAX div 8"
    and t: "t \<noteq> 0" "t \<notin> set (timers_of b)" "st t = Some tm" "timespec_wf (t_abs_time tm)"
  shows "if b_len b = b_capacity b \<and> \<not> alloc then fev_timers_bucket_add alloc st b t = Some (- ENOMEM, st, b)
     else \<exists>st' b'. fev_timers_bucket_add alloc st b t = Some (if timers_of b' ! 0 = t then 1 else 0, st', b') \<and>
       bucket_inv st' b' \<and> mset (timers_of b') = add_mset t (mset (timers_of b)) \<and>
       (timers_of b' ! 0 \<noteq> t \<longrightarrow> timers_of b \<noteq> [] \<and> timers_of b' ! 0 = timers_of b ! 0) \<and>
       same_times (insert t (set (timers_of b))) st st'"
proof (cases "b_len b = b_capacity b \<and> \<not> alloc")
  case True
  then show ?thesis using bucket_grow_refines(1) [OF inv _ room] by (simp add: fev_timers_bucket_add_def ENOMEM_def)
next
  case False
  obtain b1 where b1: "(if b_len b = b_capacity b then fev_timers_bucket_grow alloc b else Some (0, b)) = Some (0, b1)"
      "bucket_inv st b1" "timers_of b1 = timers_of b" "b_len b1 < b_capacity b1"
  proof (cases "b_len b = b_capacity b")
    case True
    then have alloc using False by simp
    with bucket_grow_refines(2) [OF inv True room] True that show ?thesis by (elim exE conjE) simp
  next
    case False
    then have "b_len b < b_capacity b" using inv by (simp add: bucket_inv_def heap_rep_def)
    with that [of b] False inv show ?thesis by simp
  qed
  have t': "t \<notin> set (timers_of b1)" using t b1(3) by simp
  obtain st' heap tm' where ins: "fev_timers_sift_up st (b_heap b1) (b_len b1) t = Some (st', heap)"
      "bucket_inv st' (b1\<lparr>b_heap := heap, b_len := b_len b1 + 1\<rparr>)"
      "mset (timers_of (b1\<lparr>b_heap := heap, b_len := b_len b1 + 1\<rparr>)) = add_mset t (mset (timers_of b))"
      "st' t = Some tm'" "t_index tm' = 0 \<longleftrightarrow> timers_of (b1\<lparr>b_heap := heap, b_len := b_len b1 + 1\<rparr>) ! 0 = t"
      "t_index tm' \<noteq> 0 \<longrightarrow> timers_of b \<noteq> [] \<and>
         timers_of (b1\<lparr>b_heap := heap, b_len := b_len b1 + 1\<rparr>) ! 0 = timers_of b ! 0"
      "same_times (insert t (set (timers_of b))) st st'"
    using bucket_insert_refines [where st = st, OF b1(2,4) t(1) t' t(3,4)] unfolding b1(3) by (elim exE conjE)
  have "fev_timers_bucket_add alloc st b t =
      Some (if t_index tm' = 0 then 1 else 0, st', b1\<lparr>b_heap := heap, b_len := b_len b1 + 1\<rparr>)"
    using b1(1) ins(1,4) by (simp add: fev_timers_bucket_add_def)
  then show ?thesis using ins(2,3,5,6,7) False
    by (auto intro!: exI [of _ st'] exI [of _ "b1\<lparr>b_heap := heap, b_len := b_len b1 + 1\<rparr>"])
qed

lemma mset_remove_replace_last:
  assumes "i < length xs - 1"
  shows "mset ((butlast xs)[i := last xs]) = mset xs - {#xs ! i#}"
proof -
  obtain ys z where xs: "xs = ys @ [z]" using assms by (cases xs rule: rev_cases) auto
  then show ?thesis using assms by (simp add: mset_update nth_append)
qed

text \<open>
  Removing the timer at position \<open>i\<close>: the sift-down leaves a heap except perhaps between \<open>i\<close> and its
  parent.
\<close>

lemma bucket_remove_refines:
  assumes inv: "bucket_inv st b" and i: "i < b_len b"
  shows "\<exists>st' heap zs. fev_timers_sift_down st (b_heap b) (b_len b) i = Some (st', heap) \<and>
     heap_rep st' heap (b_len b - 1) (b_len b - 1) zs \<and> length heap = length (b_heap b) \<and>
     same_times (set (timers_of b)) st st' \<and>
     mset zs = mset (timers_of b) - {#timers_of b ! i#} \<and> heap_except (key st') zs i \<and>
     (i = b_len b - 1 \<longrightarrow> heap_ordered (key st') zs) \<and>
     (0 < i \<longrightarrow> zs ! 0 = timers_of b ! 0)"
proof -
  let ?n = "b_len b" and ?xs = "timers_of b"
  let ?zs = "if i = ?n - 1 then butlast ?xs else down (key st) (butlast ?xs) i (last ?xs)"
  have rep: "heap_rep st (b_heap b) ?n ?n ?xs" and ord: "heap_ordered (key st) ?xs" and len: "length ?xs = ?n"
    using inv by (auto simp: bucket_inv_def heap_rep_def)
  obtain st' heap where d: "fev_timers_sift_down st (b_heap b) ?n i = Some (st', heap)"
      "heap_rep st' heap (?n - 1) (?n - 1) ?zs" "length heap = length (b_heap b)" "same_times (set ?xs) st st'"
    using sift_down_refines [OF rep i] by blast
  have key: "key st' = key st" using same_times_key [OF d(4)] .
  show ?thesis
  proof (cases "i = ?n - 1")
    case True
    obtain ys z where xs: "?xs = ys @ [z]" using len i by (cases ?xs rule: rev_cases) auto
    have "mset ?zs = mset ?xs - {#?xs ! i#}" using True len xs by (auto simp: nth_append)
    moreover have "heap_ordered (key st') ?zs" using True key heap_butlast [OF ord] by simp
    moreover have "0 < i \<longrightarrow> ?zs ! 0 = ?xs ! 0" using True len by (simp add: nth_butlast)
    ultimately show ?thesis using d heap_ordered_except by blast
  next
    case False
    then have i': "i < length (butlast ?xs)" using i len by simp
    have "mset ?zs = mset ?xs - {#?xs ! i#}"
      using False down_facts [OF i', of "key st" "last ?xs"] mset_remove_replace_last [of i ?xs] i' by simp
    moreover have "heap_except (key st') ?zs i"
      using False key down_heap [OF heap_hole_start [OF heap_butlast [OF ord]] i'] by simp
    moreover have "0 < i \<longrightarrow> ?zs ! 0 = ?xs ! 0"
      using False down_root_keeps [OF _ i'] i' by (auto simp: nth_butlast)
    ultimately show ?thesis using d False by blast
  qed
qed

lemma bucket_remove_done:
  assumes inv: "bucket_inv st b" and rep: "heap_rep st' heap (b_len b - 1) (b_len b - 1) zs"
    and len: "length heap = length (b_heap b)" and ord: "heap_ordered (key st') zs"
    and m: "mset zs = mset (timers_of b) - {#t#}"
  shows "bucket_inv st' (b\<lparr>b_heap := heap, b_len := b_len b - 1\<rparr>) \<and>
    timers_of (b\<lparr>b_heap := heap, b_len := b_len b - 1\<rparr>) = zs"
proof -
  have "0 \<notin> set zs"
    using inv m by (metis bucket_inv_def in_diffD set_mset_mset)
  then show ?thesis
    using bucket_invI [of st' "b\<lparr>b_heap := heap, b_len := b_len b - 1\<rparr>" zs] rep len ord inv
    by (simp add: bucket_inv_def)
qed

lemma bucket_index:
  assumes inv: "bucket_inv st b" and t: "t \<in> set (timers_of b)"
  shows "\<exists>tm. st t = Some tm \<and> t_index tm < b_len b \<and> t_index tm \<noteq> SIZE_MAX \<and>
     timers_of b ! t_index tm = t \<and> timespec_wf (t_abs_time tm)"
proof -
  have rep: "heap_rep st (b_heap b) (b_len b) (b_len b) (timers_of b)" using inv by (simp add: bucket_inv_def)
  obtain j where j: "j < b_len b" "timers_of b ! j = t"
    using t bucket_inv_len [OF inv] by (metis in_set_conv_nth)
  obtain tm where "st t = Some tm" "t_index tm = j" "timespec_wf (t_abs_time tm)"
    using heap_rep_at(3) [OF rep j(1) less_imp_neq [OF j(1)]] unfolding j(2) by (elim exE conjE)
  then show ?thesis using j bucket_inv_len [OF inv] by (intro exI [of _ tm]) simp
qed

lemma bucket_del_refines:
  assumes inv: "bucket_inv st b" and t: "t \<in> set (timers_of b)"
  shows "\<exists>st' b'. fev_timers_bucket_del st b t = Some (if timers_of b ! 0 = t then 1 else 0, st', b') \<and>
     bucket_inv st' b' \<and> mset (timers_of b') = mset (timers_of b) - {#t#} \<and> same_times (set (timers_of b)) st st' \<and>
     (timers_of b ! 0 \<noteq> t \<longrightarrow> timers_of b' \<noteq> [] \<and> timers_of b' ! 0 = timers_of b ! 0)"
proof -
  obtain tm where tm: "st t = Some tm" "t_index tm < b_len b" "t_index tm \<noteq> SIZE_MAX" "timers_of b ! t_index tm = t"
    using bucket_index [OF inv t] by (elim exE conjE)
  define i where "i = t_index tm"
  let ?m = "b_len b - 1"
  obtain st1 heap1 zs where d: "fev_timers_sift_down st (b_heap b) (b_len b) i = Some (st1, heap1)"
      "heap_rep st1 heap1 ?m ?m zs" "length heap1 = length (b_heap b)" "same_times (set (timers_of b)) st st1"
      "mset zs = mset (timers_of b) - {#t#}" "heap_except (key st1) zs i" "i = ?m \<longrightarrow> heap_ordered (key st1) zs"
      "0 < i \<longrightarrow> zs ! 0 = timers_of b ! 0"
    using bucket_remove_refines [OF inv tm(2)] tm(4) unfolding i_def by (elim exE conjE) simp
  have zs: "length zs = ?m" using d(2) by (simp add: heap_rep_def)
  have distinct: "distinct (timers_of b)" using inv unfolding bucket_inv_def by (blast intro: heap_rep_distinct)
  have first: "timers_of b ! 0 = t \<longleftrightarrow> i = 0"
    using tm distinct bucket_inv_len [OF inv] nth_eq_iff_index_eq [OF distinct, of 0 i] unfolding i_def by auto
  have del: "fev_timers_bucket_del st b t =
      (let b1 = b\<lparr>b_heap := heap1, b_len := ?m\<rparr>
       in if i > 0
          then if i < ?m
               then do { x \<leftarrow> aget heap1 i;
                         (st, heap) \<leftarrow> fev_timers_sift_up st1 heap1 i x;
                         Some (0, st, b1\<lparr>b_heap := heap\<rparr>) }
               else Some (0, st1, b1)
          else Some (1, st1, b1))"
    using tm d(1) by (simp add: fev_timers_bucket_del_def fev_timers_bucket_empty_def i_def Let_def)
  show ?thesis
  proof (cases "0 < i \<and> i < ?m")
    case True
    note f = heap_rep_fills_self [OF d(2) conjunct2 [OF True]]
    obtain st2 heap2 where up: "fev_timers_sift_up st1 heap1 i (zs ! i) = Some (st2, heap2)"
        "heap_rep st2 heap2 ?m ?m (fst (up (key st1) zs i (zs ! i)))" "length heap2 = length heap1"
        "same_times (insert (zs ! i) (set zs)) st1 st2"
      using sift_up_refines [OF heap_rep_any_hole [OF d(2)] f conjunct2 [OF True]] by (elim exE conjE)
    let ?ws = "fst (up (key st1) zs i (zs ! i))"
    have ws: "mset ?ws = mset zs" "heap_ordered (key st2) ?ws"
      using up_facts [of i zs "key st1" "zs ! i"] up_heap [of "key st1" zs i "zs ! i"] d(6) zs True
        same_times_key [OF up(4)] by simp_all
    have "heap_ordered (key st) (timers_of b)" using inv by (simp add: bucket_inv_def)
    moreover have "zs ! i \<in> set (timers_of b)" using zs True d(5) by (metis in_diffD nth_mem set_mset_mset)
    ultimately have "key st1 (timers_of b ! 0) \<le> key st1 (zs ! i)"
      unfolding same_times_key [OF d(4)] by (metis heap_root_least in_set_conv_nth)
    then have root: "?ws ! 0 = timers_of b ! 0"
      using True zs d(8) up_root_keeps [of i zs "key st1" "zs ! i"] up_root_not_reached [of i zs "key st1" "zs ! i"] by simp
    have "set zs \<subseteq> set (timers_of b)" using d(5) by (metis diff_subset_eq_self set_mset_mono set_mset_mset)
    moreover have "zs ! i \<in> set zs" using zs True by simp
    ultimately have "same_times (set (timers_of b)) st st2"
      using d(4) same_times_mono [OF up(4)] by (blast intro: same_times_trans)
    moreover have "aget heap1 i = Some (zs ! i)" using heap_rep_at(1) [OF d(2)] True by simp
    ultimately have "fev_timers_bucket_del st b t = Some (0, st2, b\<lparr>b_heap := heap2, b_len := ?m\<rparr>)"
        "same_times (set (timers_of b)) st st2"
      using del up(1) True by (simp_all add: Let_def)
    moreover have "?ws \<noteq> []" using ws(1) zs True by (metis length_0_conv less_nat_zero_code mset_eq_length)
    ultimately show ?thesis
      using True first d(5) ws(1) bucket_remove_done [OF inv up(2) _ ws(2), of t] up(3) d(3) root by simp
  next
    case False
    have "heap_ordered (key st1) zs"
      using False d(6,7) tm(2) heap_except_0 unfolding i_def by (cases "t_index tm = 0") auto
    from bucket_remove_done [OF inv d(2,3) this d(5)] show ?thesis
      using del False first d(4,5,8) zs tm(2) [folded i_def] by (auto simp: Let_def)
  qed
qed

lemma bucket_del_min_refines:
  assumes inv: "bucket_inv st b" and ne: "set (timers_of b) \<noteq> {}"
  shows "\<exists>st' b'. fev_timers_bucket_del_min st b = Some (st', b') \<and> bucket_inv st' b' \<and>
     mset (timers_of b') = mset (timers_of b) - {#timers_of b ! 0#} \<and> same_times (set (timers_of b)) st st'"
proof -
  have n: "0 < b_len b" using bucket_inv_len [OF inv] ne by (auto simp: neq_Nil_conv)
  obtain st1 heap1 zs where d: "fev_timers_sift_down st (b_heap b) (b_len b) 0 = Some (st1, heap1)"
      "heap_rep st1 heap1 (b_len b - 1) (b_len b - 1) zs" "length heap1 = length (b_heap b)"
      "same_times (set (timers_of b)) st st1"
      "mset zs = mset (timers_of b) - {#timers_of b ! 0#}" "heap_except (key st1) zs 0"
    using bucket_remove_refines [OF inv n] by (elim exE conjE)
  from bucket_remove_done [OF inv d(2,3) d(6) [unfolded heap_except_0] d(5)] show ?thesis
    using d(1,4,5) n by (auto simp: fev_timers_bucket_del_min_def fev_timers_bucket_empty_def)
qed


end
