(* ===== verification/Locks.thy ===== *)
theory Locks
  imports Prelude
begin

text \<open>
  The locks that operating-system threads take: the spin lock (\<open>fev_spinlock_impl.h\<close>) and the futex
  mutex (\<open>fev_thr_mutex_linux.h\<close>, \<open>fev_thr_mutex_linux.c\<close>). Each is a step function over the atomic
  operations of the source, one program counter per statement that touches shared memory; threads are
  numbered below \<open>n\<close>. Memory is sequentially consistent.
\<close>

section \<open>The spin lock\<close>

datatype spin_pc = SIdle | SLockXchg | SLockSpin | STryXchg | SHeld

record spin_sys =
  sl_state :: u32
  sl_pc :: "nat \<Rightarrow> spin_pc"

datatype spin_event = SpinLock nat | SpinTryLock nat | SpinUnlock nat | SpinStep nat

definition fev_spinlock_init :: "spin_sys" where
  "fev_spinlock_init = \<lparr>sl_state = 0, sl_pc = (\<lambda>_. SIdle)\<rparr>"

text \<open>The exchange of \<open>fev_spinlock_lock\<close>, and its inner read-only spin.\<close>

definition fev_spinlock_lock :: "nat \<Rightarrow> spin_sys \<Rightarrow> spin_sys option" where
  "fev_spinlock_lock t s =
     (case sl_pc s t of
        SLockXchg \<Rightarrow> Some (s\<lparr>sl_state := 1,
                           sl_pc := (sl_pc s)(t := if sl_state s \<noteq> 0 then SLockSpin else SHeld)\<rparr>)
      | SLockSpin \<Rightarrow> Some (s\<lparr>sl_pc := (sl_pc s)(t := if sl_state s \<noteq> 0 then SLockSpin else SLockXchg)\<rparr>)
      | _ \<Rightarrow> None)"

text \<open>\<open>fev_spinlock_try_lock\<close>: a relaxed load that may refuse at once, then an exchange.\<close>

definition fev_spinlock_try_lock :: "nat \<Rightarrow> spin_sys \<Rightarrow> spin_sys option" where
  "fev_spinlock_try_lock t s =
     (case sl_pc s t of
        SIdle \<Rightarrow> Some (if sl_state s \<noteq> 0 then s else s\<lparr>sl_pc := (sl_pc s)(t := STryXchg)\<rparr>)
      | STryXchg \<Rightarrow> Some (s\<lparr>sl_state := 1,
                          sl_pc := (sl_pc s)(t := if sl_state s \<noteq> 0 then SIdle else SHeld)\<rparr>)
      | _ \<Rightarrow> None)"

definition fev_spinlock_unlock :: "nat \<Rightarrow> spin_sys \<Rightarrow> spin_sys option" where
  "fev_spinlock_unlock t s =
     (if sl_pc s t = SHeld then Some (s\<lparr>sl_state := 0, sl_pc := (sl_pc s)(t := SIdle)\<rparr>) else None)"

fun spin_step :: "spin_event \<Rightarrow> spin_sys \<Rightarrow> spin_sys option" where
  "spin_step (SpinLock t) s =
     (if sl_pc s t = SIdle then Some (s\<lparr>sl_pc := (sl_pc s)(t := SLockXchg)\<rparr>) else None)"
| "spin_step (SpinTryLock t) s = (if sl_pc s t = SIdle then fev_spinlock_try_lock t s else None)"
| "spin_step (SpinUnlock t) s = fev_spinlock_unlock t s"
| "spin_step (SpinStep t) s =
     (if sl_pc s t = STryXchg then fev_spinlock_try_lock t s else fev_spinlock_lock t s)"

definition spin_inv :: "spin_sys \<Rightarrow> bool" where
  "spin_inv s \<longleftrightarrow>
     (sl_state s = 0 \<longrightarrow> (\<forall>t. sl_pc s t \<noteq> SHeld)) \<and>
     (\<forall>a b. sl_pc s a = SHeld \<longrightarrow> sl_pc s b = SHeld \<longrightarrow> a = b)"

lemma spin_inv_step: "spin_inv s \<Longrightarrow> spin_step e s = Some s' \<Longrightarrow> spin_inv s'"
  by (cases e)
     (auto simp: spin_inv_def fev_spinlock_lock_def fev_spinlock_try_lock_def fev_spinlock_unlock_def
       split: if_splits spin_pc.splits)

interpretation spin: mutual_exclusion spin_step "\<lambda>s. s = fev_spinlock_init" spin_inv
    "\<lambda>s t. sl_pc s t = SHeld"
  by unfold_locales
     (auto simp: spin_inv_step, auto simp: spin_inv_def fev_spinlock_init_def)

section \<open>The futex mutex\<close>

text \<open>
  The mutex word is 0 (free), 1 (held) or 2 (held, and some thread may be asleep in the kernel).
  \<open>futex_wait(2)\<close> sleeps only if the word is still 2 and may return early (\<open>EINTR\<close>, event
  \<open>MutexIntr\<close>); \<open>futex_wake(1)\<close> wakes one sleeper, chosen by the kernel, if there is one. The weak
  compare-exchange of the fast path may fail spuriously.
\<close>

datatype mtx_pc = MIdle | MLockCas | MSlowLoad | MSlowXchg | MSlowWait | MAsleep | MHeld | MUnlockWake

record mtx_sys =
  m_threads :: nat
  m_state :: int
  m_pc :: "nat \<Rightarrow> mtx_pc"

datatype mtx_event =
    MutexLock nat
  | MutexTryLock nat bool \<comment> \<open>with a spurious failure?\<close>
  | MutexUnlock nat
  | MutexCas nat bool \<comment> \<open>with a spurious failure?\<close>
  | MutexStep nat
  | MutexIntr nat
  | MutexWake nat "nat option" \<comment> \<open>the sleeper that the kernel chose\<close>

definition mtx_goto :: "mtx_sys \<Rightarrow> nat \<Rightarrow> mtx_pc \<Rightarrow> mtx_sys" where
  "mtx_goto s t p = s\<lparr>m_pc := (m_pc s)(t := p)\<rparr>"

definition fev_thr_mutex_init :: "nat \<Rightarrow> mtx_sys" where
  "fev_thr_mutex_init n = \<lparr>m_threads = n, m_state = 0, m_pc = (\<lambda>_. MIdle)\<rparr>"

definition fev_thr_mutex_try_lock :: "nat \<Rightarrow> bool \<Rightarrow> mtx_sys \<Rightarrow> mtx_sys" where
  "fev_thr_mutex_try_lock t spurious s =
     (if m_state s = 0 \<and> \<not> spurious then mtx_goto (s\<lparr>m_state := 1\<rparr>) t MHeld else s)"

definition fev_thr_mutex_lock :: "nat \<Rightarrow> bool \<Rightarrow> mtx_sys \<Rightarrow> mtx_sys" where
  "fev_thr_mutex_lock t spurious s =
     (if m_state s = 0 \<and> \<not> spurious then mtx_goto (s\<lparr>m_state := 1\<rparr>) t MHeld
      else mtx_goto s t MSlowLoad)"

definition fev_futex_wait :: "nat \<Rightarrow> int \<Rightarrow> mtx_sys \<Rightarrow> mtx_sys" where
  "fev_futex_wait t v s = (if m_state s = v then mtx_goto s t MAsleep else mtx_goto s t MSlowXchg)"

definition fev_thr_mutex_lock_slow :: "nat \<Rightarrow> mtx_sys \<Rightarrow> mtx_sys option" where
  "fev_thr_mutex_lock_slow t s =
     (case m_pc s t of
        MSlowLoad \<Rightarrow> Some (mtx_goto s t (if m_state s \<noteq> 2 then MSlowXchg else MSlowWait))
      | MSlowXchg \<Rightarrow> Some (mtx_goto (s\<lparr>m_state := 2\<rparr>) t (if m_state s \<noteq> 0 then MSlowWait else MHeld))
      | MSlowWait \<Rightarrow> Some (fev_futex_wait t 2 s)
      | _ \<Rightarrow> None)"

definition fev_thr_mutex_unlock :: "nat \<Rightarrow> mtx_sys \<Rightarrow> mtx_sys" where
  "fev_thr_mutex_unlock t s =
     mtx_goto (s\<lparr>m_state := 0\<rparr>) t (if m_state s = 2 then MUnlockWake else MIdle)"

definition fev_futex_wake :: "nat option \<Rightarrow> mtx_sys \<Rightarrow> mtx_sys option" where
  "fev_futex_wake w s =
     (case w of
        Some u \<Rightarrow> if u < m_threads s \<and> m_pc s u = MAsleep then Some (mtx_goto s u MSlowXchg) else None
      | None \<Rightarrow> if list_all (\<lambda>u. m_pc s u \<noteq> MAsleep) [0..<m_threads s] then Some s else None)"

definition fev_thr_mutex_unlock_slow :: "nat \<Rightarrow> nat option \<Rightarrow> mtx_sys \<Rightarrow> mtx_sys option" where
  "fev_thr_mutex_unlock_slow t w s =
     map_option (\<lambda>s'. mtx_goto s' t MIdle) (fev_futex_wake w s)"

fun mtx_thread :: "mtx_event \<Rightarrow> nat" where
  "mtx_thread (MutexLock t) = t"
| "mtx_thread (MutexTryLock t _) = t"
| "mtx_thread (MutexUnlock t) = t"
| "mtx_thread (MutexCas t _) = t"
| "mtx_thread (MutexStep t) = t"
| "mtx_thread (MutexIntr t) = t"
| "mtx_thread (MutexWake t _) = t"

fun mtx_move :: "mtx_event \<Rightarrow> mtx_sys \<Rightarrow> mtx_sys option" where
  "mtx_move (MutexLock t) s = (if m_pc s t = MIdle then Some (mtx_goto s t MLockCas) else None)"
| "mtx_move (MutexTryLock t b) s =
     (if m_pc s t = MIdle then Some (fev_thr_mutex_try_lock t b s) else None)"
| "mtx_move (MutexUnlock t) s = (if m_pc s t = MHeld then Some (fev_thr_mutex_unlock t s) else None)"
| "mtx_move (MutexCas t b) s = (if m_pc s t = MLockCas then Some (fev_thr_mutex_lock t b s) else None)"
| "mtx_move (MutexStep t) s = fev_thr_mutex_lock_slow t s"
| "mtx_move (MutexIntr t) s = (if m_pc s t = MAsleep then Some (mtx_goto s t MSlowXchg) else None)"
| "mtx_move (MutexWake t w) s =
     (if m_pc s t = MUnlockWake then fev_thr_mutex_unlock_slow t w s else None)"

definition mtx_step :: "mtx_event \<Rightarrow> mtx_sys \<Rightarrow> mtx_sys option" where
  "mtx_step e s = (if mtx_thread e < m_threads s then mtx_move e s else None)"

definition mtx_inv :: "mtx_sys \<Rightarrow> bool" where
  "mtx_inv s \<longleftrightarrow>
     m_state s \<in> {0, 1, 2} \<and>
     (\<forall>t. m_pc s t \<noteq> MIdle \<longrightarrow> t < m_threads s) \<and>
     single_holder (m_state s = 0) (\<lambda>t. m_pc s t = MHeld) \<and>
     ((\<exists>t. m_pc s t = MAsleep) \<longrightarrow>
        m_state s = 2 \<or> (\<exists>u. m_pc s u = MUnlockWake \<or> m_pc s u = MSlowXchg))"

named_theorems mtx_ops "unfolding of the futex mutex operations"

lemmas [mtx_ops] = fev_thr_mutex_try_lock_def fev_thr_mutex_lock_def fev_futex_wait_def
  fev_thr_mutex_lock_slow_def fev_thr_mutex_unlock_def fev_futex_wake_def
  fev_thr_mutex_unlock_slow_def

lemma mtx_goto_simps [simp]:
  "m_threads (mtx_goto s t p) = m_threads s"
  "m_state (mtx_goto s t p) = m_state s"
  "m_pc (mtx_goto s t p) = (m_pc s)(t := p)"
  by (simp_all add: mtx_goto_def)

text \<open>The invariant one component at a time: each is kept by every move.\<close>

lemma mtx_move_range:
  assumes "mtx_inv s" "mtx_move e s = Some s'" "mtx_thread e < m_threads s"
  shows "m_state s' \<in> {0, 1, 2} \<and> (\<forall>t. m_pc s' t \<noteq> MIdle \<longrightarrow> t < m_threads s')"
proof -
  have "\<forall>t. m_pc s t \<noteq> MIdle \<longrightarrow> t < m_threads s" "m_state s \<in> {0, 1, 2}"
    using assms(1) by (simp_all add: mtx_inv_def)
  then show ?thesis
    using assms(2,3) by (cases e) (auto simp: mtx_ops split: if_splits mtx_pc.splits option.splits)
qed

lemma mtx_move_holder:
  assumes inv: "mtx_inv s" and move: "mtx_move e s = Some s'"
  shows "single_holder (m_state s' = 0) (\<lambda>t. m_pc s' t = MHeld)"
proof (rule single_holder_step [where t = "mtx_thread e" and h = "\<lambda>t. m_pc s t = MHeld"])
  show "single_holder (m_state s = 0) (\<lambda>t. m_pc s t = MHeld)"
    using inv by (simp add: mtx_inv_def)
  show "(m_pc s' u = MHeld) = (m_pc s u = MHeld)" if "u \<noteq> mtx_thread e" for u
    using move that by (cases e) (auto simp: mtx_ops split: if_splits mtx_pc.splits option.splits)
  show "(m_state s' = 0) = (m_state s = 0)"
    if "(m_pc s' (mtx_thread e) = MHeld) = (m_pc s (mtx_thread e) = MHeld)"
    using move that by (cases e) (auto simp: mtx_ops split: if_splits mtx_pc.splits option.splits)
  show "m_state s = 0 \<and> m_state s' \<noteq> 0"
    if "m_pc s (mtx_thread e) \<noteq> MHeld" "m_pc s' (mtx_thread e) = MHeld"
    using move that by (cases e) (auto simp: mtx_ops split: if_splits mtx_pc.splits option.splits)
  show "m_state s' = 0"
    if "m_pc s (mtx_thread e) = MHeld" "m_pc s' (mtx_thread e) \<noteq> MHeld"
    using move that by (cases e) (auto simp: mtx_ops split: if_splits mtx_pc.splits option.splits)
qed

lemma mtx_move_frame:
  "mtx_move e s = Some s' \<Longrightarrow> u \<noteq> mtx_thread e \<Longrightarrow> m_pc s u \<noteq> MAsleep \<Longrightarrow> m_pc s' u = m_pc s u"
  by (cases e) (auto simp: mtx_ops split: if_splits mtx_pc.splits option.splits)

text \<open>A step never strands a sleeper: the word stays 2, or a wake-up or a retry is on its way.\<close>

lemma mtx_move_contended:
  assumes "mtx_move e s = Some s'" "m_state s = 2"
  shows "m_state s' = 2 \<or> m_pc s' (mtx_thread e) = MUnlockWake"
  using assms by (cases e) (auto simp: mtx_ops split: if_splits mtx_pc.splits option.splits)

lemma mtx_move_pending:
  assumes inv: "mtx_inv s" and move: "mtx_move e s = Some s'"
    and pend: "m_pc s (mtx_thread e) = MUnlockWake \<or> m_pc s (mtx_thread e) = MSlowXchg"
    and sleeper: "m_pc s' t = MAsleep"
  shows "m_state s' = 2 \<or> (\<exists>u. m_pc s' u = MSlowXchg)"
proof (cases e)
  case (MutexWake w v)
  show ?thesis
  proof (cases v)
    case None
    have "m_pc s u \<noteq> MAsleep" for u
      using move inv MutexWake None
      by (cases "m_pc s u = MIdle") (auto simp: mtx_inv_def mtx_ops list_all_iff split: if_splits)
    then show ?thesis using move sleeper MutexWake None by (auto simp: mtx_ops split: if_splits)
  next
    case (Some u)
    then have "m_pc s' u = MSlowXchg"
      using move MutexWake by (auto simp: mtx_ops split: if_splits)
    then show ?thesis by blast
  qed
qed (use move pend in \<open>auto simp: mtx_ops split: if_splits mtx_pc.splits\<close>)

lemma mtx_move_sleepers:
  assumes inv: "mtx_inv s" and move: "mtx_move e s = Some s'" and sleeper: "m_pc s' t = MAsleep"
  shows "m_state s' = 2 \<or> (\<exists>u. m_pc s' u = MUnlockWake \<or> m_pc s' u = MSlowXchg)"
proof (cases "m_pc s t = MAsleep")
  case False
  then have "m_state s' = 2"
    using move sleeper by (cases e) (auto simp: mtx_ops split: if_splits mtx_pc.splits option.splits)
  then show ?thesis by blast
next
  case True
  then consider "m_state s = 2" | u where "m_pc s u = MUnlockWake \<or> m_pc s u = MSlowXchg"
    using inv unfolding mtx_inv_def by blast
  then show ?thesis
  proof cases
    case 1
    then show ?thesis using mtx_move_contended [OF move] by blast
  next
    case 2
    then show ?thesis
      using mtx_move_frame [OF move, of u] mtx_move_pending [OF inv move _ sleeper]
      by (cases "u = mtx_thread e") auto
  qed
qed

lemma mtx_inv_step: "mtx_inv s \<Longrightarrow> mtx_step e s = Some s' \<Longrightarrow> mtx_inv s'"
  using mtx_move_range [of s e s'] mtx_move_holder [of s e s']
    mtx_move_sleepers [of s e s']
  unfolding mtx_inv_def [of s'] by (auto simp: mtx_step_def split: if_splits)

interpretation mtx: mutual_exclusion mtx_step "\<lambda>s. \<exists>n. s = fev_thr_mutex_init n" mtx_inv
    "\<lambda>s t. m_pc s t = MHeld"
proof unfold_locales
  show "mtx_inv s" if "\<exists>n. s = fev_thr_mutex_init n" for s
    using that by (auto simp: mtx_inv_def fev_thr_mutex_init_def single_holder_def)
  show "a = b" if "mtx_inv s" "m_pc s a = MHeld" "m_pc s b = MHeld" for s a b
    using that by (auto simp: mtx_inv_def single_holder_def)
qed (rule mtx_inv_step)

section \<open>What the locks promise\<close>

text \<open>
  Spin lock: whatever the interleaving of lock, try-lock and unlock calls by any number of
  threads, at most one thread is past a successful exchange and before its unlock.
\<close>

theorem fev_spinlock_mutual_exclusion:
  assumes "run spin_step fev_spinlock_init es = Some s"
    and "sl_pc s a = SHeld" and "sl_pc s b = SHeld"
  shows "a = b"
  using spin.exclusive_run [OF refl assms] .

theorem fev_spinlock_mutual_exclusion_witness:
  "\<exists>s. run spin_step fev_spinlock_init [SpinLock 0, SpinTryLock 1, SpinStep 0, SpinStep 1] = Some s \<and>
       sl_pc s 0 = SHeld \<and> (\<forall>b. sl_pc s b = SHeld \<longrightarrow> 0 = b)"
proof -
  obtain s where s: "run spin_step fev_spinlock_init [SpinLock 0, SpinTryLock 1, SpinStep 0, SpinStep 1] = Some s"
      "sl_pc s 0 = SHeld"
    by (simp add: fev_spinlock_init_def fev_spinlock_lock_def fev_spinlock_try_lock_def)
  with fev_spinlock_mutual_exclusion [OF s] show ?thesis by blast
qed

text \<open>
  C32. Futex mutex: in every interleaving at most one thread holds the mutex, and no thread is left
  asleep: whenever a thread sleeps in \<open>futex_wait\<close> there is a thread that holds the mutex with the word
  at 2 (so that its unlock will wake), or one that is about to call \<open>futex_wake\<close> or to retry the
  exchange. Spurious compare-exchange failures, interrupted waits and the kernel's choice of the thread
  to wake are all covered.
\<close>

theorem fev_thr_mutex_safe_and_live:
  assumes "run mtx_step (fev_thr_mutex_init n) es = Some s"
  shows "(\<forall>a b. m_pc s a = MHeld \<longrightarrow> m_pc s b = MHeld \<longrightarrow> a = b) \<and>
         (\<forall>t. m_pc s t = MAsleep \<longrightarrow>
            (\<exists>u. u \<noteq> t \<and> (m_pc s u = MHeld \<and> m_state s = 2 \<or> m_pc s u = MUnlockWake \<or> m_pc s u = MSlowXchg)))"
proof -
  have inv: "mtx_inv s" using mtx.inv_run_init [OF _ assms] by blast
  have "\<exists>u. u \<noteq> t \<and> (m_pc s u = MHeld \<and> m_state s = 2 \<or> m_pc s u = MUnlockWake \<or> m_pc s u = MSlowXchg)"
    if t: "m_pc s t = MAsleep" for t
  proof (cases "m_state s = 2")
    case True
    then obtain u where "m_pc s u = MHeld" using inv by (auto simp: mtx_inv_def single_holder_def)
    with t True show ?thesis by (intro exI [of _ u]) auto
  next
    case False
    then obtain u where "m_pc s u = MUnlockWake \<or> m_pc s u = MSlowXchg"
      using inv t unfolding mtx_inv_def by blast
    with t show ?thesis by (intro exI [of _ u]) auto
  qed
  then show ?thesis using inv by (auto simp: mtx_inv_def single_holder_def)
qed

definition mtx_contended_run :: "mtx_event list" where
  "mtx_contended_run =
     [MutexLock 0, MutexLock 1, MutexCas 0 False, MutexCas 1 False, MutexStep 1, MutexStep 1, MutexStep 1]"

theorem fev_thr_mutex_safe_and_live_witness:
  "\<exists>s. run mtx_step (fev_thr_mutex_init 2) mtx_contended_run = Some s \<and> m_pc s 1 = MAsleep \<and>
       (\<exists>u. u \<noteq> 1 \<and> (m_pc s u = MHeld \<and> m_state s = 2 \<or> m_pc s u = MUnlockWake \<or> m_pc s u = MSlowXchg))"
proof -
  obtain s where s: "run mtx_step (fev_thr_mutex_init 2) mtx_contended_run = Some s" "m_pc s 1 = MAsleep"
    by (simp add: mtx_contended_run_def mtx_step_def fev_thr_mutex_init_def mtx_ops)
  with fev_thr_mutex_safe_and_live [OF s(1)] show ?thesis by blast
qed

end
