(* ===== verification/Ilock.thy ===== *)
theory Ilock
  imports Locks
begin

text \<open>
  The internal fiber lock (\<open>fev_ilock_intf.h\<close>, \<open>fev_ilock_impl.h\<close>, \<open>fev_ilock.c\<close>). A fiber that cannot
  take the lock is appended to the waiters and switches to its scheduler; the unlocking fiber hands the
  lock to the first waiter.

  The first part gives each C function as it runs once its caller owns what the function needs, with no
  interference; the other components call these. The second part is the concurrent system: one program
  counter per statement that touches shared memory, and the inner lock (\<open>fev_ilock_lock_t\<close>, a futex
  mutex or a spin lock) as a lock that excludes, which theory \<open>Locks\<close> proves for both.
\<close>

section \<open>Data and sequential operations\<close>

record fev_ilock =
  il_state :: u32 \<comment> \<open>0 unlocked; 1 locked, no waiters; 2 locked, some waiters\<close>
  il_waiters :: "fiber_ptr list"

definition ilock_new :: fev_ilock where
  "ilock_new = \<lparr>il_state = 0, il_waiters = []\<rparr>"

text \<open>\<open>lock_ret\<close> is what the initialisation of the inner lock returned.\<close>

definition fev_ilock_init :: "int \<Rightarrow> int + fev_ilock" where
  "fev_ilock_init lock_ret = (if lock_ret \<noteq> 0 then Inl lock_ret else Inr ilock_new)"

text \<open>The fast path of \<open>fev_ilock_lock\<close>: the lock after the compare-exchange, and whether it succeeded.\<close>

definition fev_ilock_lock_fast :: "bool \<Rightarrow> fev_ilock \<Rightarrow> fev_ilock \<times> bool" where
  "fev_ilock_lock_fast spurious l =
     (if il_state l = 0 \<and> \<not> spurious then (l\<lparr>il_state := 1\<rparr>, True) else (l, False))"

text \<open>
  \<open>fev_ilock_unlock_slow\<close>: the assertions that the state is 2 and that there is a waiter, then the
  removal of the queue's head, with the state lowered to 1 when the queue became empty.
\<close>

definition fev_ilock_unlock_slow :: "fev_ilock \<Rightarrow> (fev_ilock \<times> fiber_ptr) option" where
  "fev_ilock_unlock_slow l =
     do { fev_assert (il_state l = 2);
          (case il_waiters l of
             [] \<Rightarrow> None
           | f # fs \<Rightarrow> Some (if fs = [] then l\<lparr>il_waiters := fs, il_state := 1\<rparr>
                            else l\<lparr>il_waiters := fs\<rparr>, f)) }"

definition fev_ilock_unlock :: "fev_ilock \<Rightarrow> (fev_ilock \<times> fiber_ptr option) option" where
  "fev_ilock_unlock l =
     (if il_state l = 1 then Some (l\<lparr>il_state := 0\<rparr>, None)
      else do { (l', f) \<leftarrow> fev_ilock_unlock_slow l; Some (l', Some f) })"

text \<open>
  \<open>fev_ilock_unlock_and_wake\<close>: the second component lists the fibers passed to
  \<open>fev_cur_wake_one\<close>.
\<close>

definition fev_ilock_unlock_and_wake :: "fev_ilock \<Rightarrow> (fev_ilock \<times> fiber_ptr list) option" where
  "fev_ilock_unlock_and_wake l =
     do { (l', f) \<leftarrow> fev_ilock_unlock l;
          Some (l', case f of None \<Rightarrow> [] | Some g \<Rightarrow> [g]) }"

text \<open>A lock that some fiber owns, as seen by that fiber between its lock and its unlock.\<close>

definition ilock_owned :: "fev_ilock \<Rightarrow> bool" where
  "ilock_owned l \<longleftrightarrow> il_state l = (if il_waiters l = [] then 1 else 2)"

lemma ilock_unlock_owned:
  assumes "ilock_owned l"
  shows "fev_ilock_unlock l =
    Some (case il_waiters l of
            [] \<Rightarrow> (l\<lparr>il_state := 0\<rparr>, None)
          | f # fs \<Rightarrow> (l\<lparr>il_waiters := fs, il_state := if fs = [] then 1 else 2\<rparr>, Some f))"
  using assms
  by (cases l) (auto simp: fev_ilock_unlock_def fev_ilock_unlock_slow_def ilock_owned_def split: list.splits)

lemma ilock_unlock_keeps_owned:
  "ilock_owned l \<Longrightarrow> fev_ilock_unlock l = Some (l', f) \<Longrightarrow>
     (f = None \<longleftrightarrow> il_waiters l = []) \<and> (f \<noteq> None \<longrightarrow> ilock_owned l') \<and>
     il_waiters l = (case f of None \<Rightarrow> [] | Some g \<Rightarrow> [g]) @ il_waiters l'"
  by (auto simp: ilock_unlock_owned ilock_owned_def split: list.splits)

lemma ilock_unlock_and_wake_owned:
  assumes "ilock_owned l"
  shows "\<exists>lk woken. fev_ilock_unlock_and_wake l = Some (lk, woken) \<and> il_waiters l = woken @ il_waiters lk"
  using assms
  by (cases "il_waiters l") (simp_all add: fev_ilock_unlock_and_wake_def ilock_unlock_owned)

section \<open>The concurrent system\<close>

datatype ilock_pc =
    IIdle
  | ILockCas \<comment> \<open>at the compare-exchange of \<open>fev_ilock_lock\<close>\<close>
  | ILockInner \<comment> \<open>taking the inner lock in \<open>fev_ilock_lock_slow\<close>\<close>
  | ILockXchg
  | ILockStore
  | ILockDrop
  | ILockAppend
  | ILockPost \<comment> \<open>on the scheduler stack, in \<open>fev_ilock_lock_post\<close>\<close>
  | IAsleep
  | IGranted \<comment> \<open>popped by the unlocking fiber, which has still to wake it\<close>
  | IHeld
  | IUnlockInner \<comment> \<open>taking the inner lock in \<open>fev_ilock_unlock_slow\<close>\<close>
  | IUnlockPop
  | IUnlockStore fiber_ptr
  | IUnlockDrop fiber_ptr
  | IUnlockWake fiber_ptr
  | IFault \<comment> \<open>an assertion failed\<close>

record ilock_sys =
  il :: fev_ilock
  il_inner :: "nat option"
  il_num_run :: u32 \<comment> \<open>\<open>sched->num_run_fibers\<close>\<close>
  il_pc :: "nat \<Rightarrow> ilock_pc"

datatype ilock_event =
    IlockLock nat
  | IlockCas nat bool \<comment> \<open>with a spurious failure?\<close>
  | IlockUnlock nat \<comment> \<open>the compare-exchange of \<open>fev_ilock_unlock\<close>\<close>
  | IlockStep nat

definition il_goto :: "ilock_sys \<Rightarrow> nat \<Rightarrow> ilock_pc \<Rightarrow> ilock_sys" where
  "il_goto s f p = s\<lparr>il_pc := (il_pc s)(f := p)\<rparr>"

definition ilock_sys_init :: "u32 \<Rightarrow> ilock_sys" where
  "ilock_sys_init n = \<lparr>il = ilock_new, il_inner = None, il_num_run = n, il_pc = (\<lambda>_. IIdle)\<rparr>"

definition ilock_lock_fast_step :: "nat \<Rightarrow> bool \<Rightarrow> ilock_sys \<Rightarrow> ilock_sys" where
  "ilock_lock_fast_step f spurious s =
     (let (l, ok) = fev_ilock_lock_fast spurious (il s)
      in il_goto (s\<lparr>il := l\<rparr>) f (if ok then IHeld else ILockInner))"

definition ilock_lock_slow_step :: "nat \<Rightarrow> ilock_sys \<Rightarrow> ilock_sys option" where
  "ilock_lock_slow_step f s =
     (case il_pc s f of
        ILockInner \<Rightarrow> if il_inner s = None then Some (il_goto (s\<lparr>il_inner := Some f\<rparr>) f ILockXchg) else None
      | ILockXchg \<Rightarrow> Some (il_goto (s\<lparr>il := (il s)\<lparr>il_state := 2\<rparr>\<rparr>) f
                            (if il_state (il s) = 0 then ILockStore else ILockAppend))
      | ILockStore \<Rightarrow> Some (il_goto (s\<lparr>il := (il s)\<lparr>il_state := 1\<rparr>\<rparr>) f ILockDrop)
      | ILockDrop \<Rightarrow> Some (il_goto (s\<lparr>il_inner := None\<rparr>) f IHeld)
      | ILockAppend \<Rightarrow> Some (il_goto (s\<lparr>il := (il s)\<lparr>il_waiters := il_waiters (il s) @ [f]\<rparr>\<rparr>) f ILockPost)
      | _ \<Rightarrow> None)"

definition ilock_lock_post_step :: "nat \<Rightarrow> ilock_sys \<Rightarrow> ilock_sys" where
  "ilock_lock_post_step f s =
     il_goto (s\<lparr>il_num_run := il_num_run s - 1, il_inner := None\<rparr>) f IAsleep"

definition ilock_unlock_fast_step :: "nat \<Rightarrow> ilock_sys \<Rightarrow> ilock_sys" where
  "ilock_unlock_fast_step f s =
     (if il_state (il s) = 1 then il_goto (s\<lparr>il := (il s)\<lparr>il_state := 0\<rparr>\<rparr>) f IIdle
      else il_goto s f IUnlockInner)"

text \<open>The popped fiber owns the lock from here on; it runs once it was woken.\<close>

definition ilock_unlock_slow_step :: "nat \<Rightarrow> ilock_sys \<Rightarrow> ilock_sys option" where
  "ilock_unlock_slow_step f s =
     (case il_pc s f of
        IUnlockInner \<Rightarrow> if il_inner s = None then Some (il_goto (s\<lparr>il_inner := Some f\<rparr>) f IUnlockPop) else None
      | IUnlockPop \<Rightarrow>
          if il_state (il s) \<noteq> 2 then Some (il_goto s f IFault)
          else (case il_waiters (il s) of
                  [] \<Rightarrow> Some (il_goto s f IFault)
                | g # gs \<Rightarrow> Some (il_goto (il_goto (s\<lparr>il := (il s)\<lparr>il_waiters := gs\<rparr>\<rparr>) g IGranted) f
                                    (if gs = [] then IUnlockStore g else IUnlockDrop g)))
      | IUnlockStore g \<Rightarrow> Some (il_goto (s\<lparr>il := (il s)\<lparr>il_state := 1\<rparr>\<rparr>) f (IUnlockDrop g))
      | IUnlockDrop g \<Rightarrow> Some (il_goto (s\<lparr>il_inner := None\<rparr>) f (IUnlockWake g))
      | _ \<Rightarrow> None)"

text \<open>
  Waking the granted fiber: it returns from \<open>fev_ilock_lock_slow\<close> past the assertion that the lock is
  not free.
\<close>

definition ilock_wake_step :: "nat \<Rightarrow> nat \<Rightarrow> ilock_sys \<Rightarrow> ilock_sys" where
  "ilock_wake_step f g s =
     il_goto (il_goto (s\<lparr>il_num_run := il_num_run s + 1\<rparr>) f IIdle) g
       (if il_state (il s) > 0 \<and> il_pc s g = IGranted then IHeld else IFault)"

fun ilock_step :: "ilock_event \<Rightarrow> ilock_sys \<Rightarrow> ilock_sys option" where
  "ilock_step (IlockLock f) s = (if il_pc s f = IIdle then Some (il_goto s f ILockCas) else None)"
| "ilock_step (IlockCas f b) s = (if il_pc s f = ILockCas then Some (ilock_lock_fast_step f b s) else None)"
| "ilock_step (IlockUnlock f) s = (if il_pc s f = IHeld then Some (ilock_unlock_fast_step f s) else None)"
| "ilock_step (IlockStep f) s =
     (case il_pc s f of
        ILockPost \<Rightarrow> Some (ilock_lock_post_step f s)
      | IUnlockWake g \<Rightarrow> Some (ilock_wake_step f g s)
      | IUnlockInner \<Rightarrow> ilock_unlock_slow_step f s
      | IUnlockPop \<Rightarrow> ilock_unlock_slow_step f s
      | IUnlockStore g \<Rightarrow> ilock_unlock_slow_step f s
      | IUnlockDrop g \<Rightarrow> ilock_unlock_slow_step f s
      | _ \<Rightarrow> ilock_lock_slow_step f s)"

section \<open>The invariant\<close>

fun il_owns :: "ilock_pc \<Rightarrow> bool" where
  "il_owns ILockStore = True"
| "il_owns ILockDrop = True"
| "il_owns IHeld = True"
| "il_owns IUnlockInner = True"
| "il_owns IUnlockPop = True"
| "il_owns IGranted = True"
| "il_owns _ = False"

fun il_inside :: "ilock_pc \<Rightarrow> bool" where
  "il_inside ILockXchg = True"
| "il_inside ILockStore = True"
| "il_inside ILockDrop = True"
| "il_inside ILockAppend = True"
| "il_inside ILockPost = True"
| "il_inside IUnlockPop = True"
| "il_inside (IUnlockStore _) = True"
| "il_inside (IUnlockDrop _) = True"
| "il_inside _ = False"

fun il_waking :: "ilock_pc \<Rightarrow> nat option" where
  "il_waking (IUnlockStore g) = Some g"
| "il_waking (IUnlockDrop g) = Some g"
| "il_waking (IUnlockWake g) = Some g"
| "il_waking _ = None"

fun il_queued :: "ilock_pc \<Rightarrow> bool" where
  "il_queued ILockPost = True"
| "il_queued IAsleep = True"
| "il_queued _ = False"

text \<open>
  What the fiber inside the inner lock, the owner, and the fiber with a wake-up to deliver guarantee,
  by their program counters.
\<close>

fun il_inside_ok :: "u32 \<Rightarrow> bool \<Rightarrow> ilock_pc \<Rightarrow> bool" where
  "il_inside_ok st emp ILockStore \<longleftrightarrow> st = 2 \<and> emp"
| "il_inside_ok st emp (IUnlockStore _) \<longleftrightarrow> st = 2 \<and> emp"
| "il_inside_ok st emp ILockAppend \<longleftrightarrow> st = 2"
| "il_inside_ok st emp p \<longleftrightarrow> st \<noteq> 2 \<or> \<not> emp"

fun il_owner_ok :: "u32 \<Rightarrow> ilock_pc \<Rightarrow> bool" where
  "il_owner_ok st IUnlockInner \<longleftrightarrow> st = 2"
| "il_owner_ok st IUnlockPop \<longleftrightarrow> st = 2"
| "il_owner_ok st _ \<longleftrightarrow> True"

text \<open>
  Who plays which role: \<open>ow\<close> owns the lock, \<open>inn\<close> is inside the inner lock, \<open>wk\<close> has popped the owner
  off the queue and has still to wake it, \<open>W\<close> are the queued fibers.
\<close>

definition ilock_roles :: "nat option \<Rightarrow> nat option \<Rightarrow> nat option \<Rightarrow> nat set \<Rightarrow> (nat \<Rightarrow> ilock_pc) \<Rightarrow> bool" where
  "ilock_roles ow inn wk W pc \<longleftrightarrow>
     sole (\<lambda>f. il_owns (pc f)) ow \<and> sole (\<lambda>f. il_inside (pc f)) inn \<and>
     sole (\<lambda>f. il_waking (pc f) \<noteq> None) wk \<and> (\<forall>f. f \<in> W \<longleftrightarrow> il_queued (pc f)) \<and> (\<forall>f. pc f \<noteq> IFault)"

definition ilock_data :: "nat option \<Rightarrow> nat option \<Rightarrow> ilock_sys \<Rightarrow> bool" where
  "ilock_data ow wk s \<longleftrightarrow>
     distinct (il_waiters (il s)) \<and>
     (il_state (il s) = 0 \<or> il_state (il s) = 1 \<or> il_state (il s) = 2) \<and>
     (il_state (il s) = 0 \<longleftrightarrow> ow = None) \<and>
     (il_waiters (il s) \<noteq> [] \<longrightarrow> il_state (il s) = 2) \<and>
     (case il_inner s of None \<Rightarrow> il_state (il s) \<noteq> 2 \<or> il_waiters (il s) \<noteq> []
      | Some f \<Rightarrow> il_inside_ok (il_state (il s)) (il_waiters (il s) = []) (il_pc s f)) \<and>
     (case ow of None \<Rightarrow> True | Some g \<Rightarrow> il_owner_ok (il_state (il s)) (il_pc s g)) \<and>
     (case wk of None \<Rightarrow> \<forall>g. ow = Some g \<longrightarrow> il_pc s g \<noteq> IGranted
      | Some f \<Rightarrow> \<exists>g. il_waking (il_pc s f) = Some g \<and> ow = Some g \<and> il_pc s g = IGranted)"

definition ilock_inv_for :: "nat option \<Rightarrow> nat option \<Rightarrow> ilock_sys \<Rightarrow> bool" where
  "ilock_inv_for ow wk s \<longleftrightarrow>
     ilock_roles ow (il_inner s) wk (set (il_waiters (il s))) (il_pc s) \<and> ilock_data ow wk s"

definition ilock_inv :: "ilock_sys \<Rightarrow> bool" where
  "ilock_inv s \<longleftrightarrow> (\<exists>ow wk. ilock_inv_for ow wk s)"

lemma il_goto_simps [simp]:
  "il (il_goto s f p) = il s"
  "il_inner (il_goto s f p) = il_inner s"
  "il_num_run (il_goto s f p) = il_num_run s"
  "il_pc (il_goto s f p) = (il_pc s)(f := p)"
  by (simp_all add: il_goto_def)

lemma ilock_roles_at:
  assumes "ilock_roles ow inn wk W pc"
  shows "(ow = Some f \<longleftrightarrow> il_owns (pc f)) \<and> (inn = Some f \<longleftrightarrow> il_inside (pc f)) \<and>
     (wk = Some f \<longleftrightarrow> il_waking (pc f) \<noteq> None) \<and> (f \<in> W \<longleftrightarrow> il_queued (pc f)) \<and> pc f \<noteq> IFault"
  using assms unfolding ilock_roles_def sole_def by simp

lemma ilock_roles_upd:
  assumes r: "ilock_roles ow inn wk W pc" and "p \<noteq> IFault"
    and "il_owns p \<longrightarrow> ow = None \<or> ow = Some f"
    and "il_inside p \<longrightarrow> inn = None \<or> inn = Some f"
    and "il_waking p \<noteq> None \<longrightarrow> wk = None \<or> wk = Some f"
    and "ow' = sole_next (il_owns p) f ow" and "inn' = sole_next (il_inside p) f inn"
    and "wk' = sole_next (il_waking p \<noteq> None) f wk"
    and "W' = (if il_queued p then insert f W else W - {f})"
  shows "ilock_roles ow' inn' wk' W' (pc(f := p))"
proof -
  have "sole (\<lambda>u. il_owns ((pc(f := p)) u)) ow'" "sole (\<lambda>u. il_inside ((pc(f := p)) u)) inn'"
    "sole (\<lambda>u. il_waking ((pc(f := p)) u) \<noteq> None) wk'"
    using assms unfolding ilock_roles_def
    by (blast intro: sole_upd [where h = il_owns] sole_upd [where h = il_inside]
      sole_upd [where h = "\<lambda>p. il_waking p \<noteq> None"])+
  then show ?thesis using assms unfolding ilock_roles_def by auto
qed

text \<open>A step that changes the program counter of \<open>f\<close> only.\<close>

lemma ilock_inv_for_upd:
  assumes inv: "ilock_inv_for ow wk s" and pc: "il_pc s' = (il_pc s)(f := p)" and "p \<noteq> IFault"
    and "il_owns p \<longrightarrow> ow = None \<or> ow = Some f"
    and "il_inside p \<longrightarrow> il_inner s = None \<or> il_inner s = Some f"
    and "il_waking p \<noteq> None \<longrightarrow> wk = None \<or> wk = Some f"
    and "il_inner s' = sole_next (il_inside p) f (il_inner s)"
    and "set (il_waiters (il s')) = (if il_queued p then insert f (set (il_waiters (il s))) else set (il_waiters (il s)) - {f})"
    and "ilock_data (sole_next (il_owns p) f ow) (sole_next (il_waking p \<noteq> None) f wk) s'"
  shows "ilock_inv s'"
proof -
  have "ilock_roles (sole_next (il_owns p) f ow) (il_inner s') (sole_next (il_waking p \<noteq> None) f wk) (set (il_waiters (il s'))) (il_pc s')"
    unfolding pc by (rule ilock_roles_upd) (use assms in \<open>simp_all add: ilock_inv_for_def\<close>)
  with assms(9) show ?thesis  unfolding ilock_inv_def ilock_inv_for_def pc by blast
qed

lemma ilock_inv_for_at:
  assumes "ilock_inv_for ow wk s"
  shows "(ow = Some f \<longleftrightarrow> il_owns (il_pc s f)) \<and> (il_inner s = Some f \<longleftrightarrow> il_inside (il_pc s f)) \<and>
     (wk = Some f \<longleftrightarrow> il_waking (il_pc s f) \<noteq> None) \<and>
     (f \<in> set (il_waiters (il s)) \<longleftrightarrow> il_queued (il_pc s f)) \<and> il_pc s f \<noteq> IFault \<and> ilock_data ow wk s"
  using assms ilock_roles_at unfolding ilock_inv_for_def by blast

lemma il_inside_ok_not2 [simp]: "il_inside_ok 1 e p \<longleftrightarrow> il_inside_ok 0 e p"
  by (cases p) auto

lemma il_owner_ok_2 [simp]: "il_owner_ok 2 p"
  by (cases p) auto

lemma ilock_begin_inv:
  assumes inv: "ilock_inv_for ow wk s" and "il_pc s f = IIdle"
  shows "ilock_inv (il_goto s f ILockCas)"
  by (rule ilock_inv_for_upd [OF inv, where f = f and p = ILockCas])
     (use assms(2) ilock_inv_for_at [OF inv, of f] in
        \<open>auto simp: ilock_data_def sole_next_def split: option.splits\<close>)

lemma ilock_lock_fast_inv:
  assumes inv: "ilock_inv_for ow wk s" and "il_pc s f = ILockCas"
  shows "ilock_inv (ilock_lock_fast_step f b s)"
  by (rule ilock_inv_for_upd [OF inv, where f = f
        and p = "if il_state (il s) = 0 \<and> \<not> b then IHeld else ILockInner"])
     (use assms(2) ilock_inv_for_at [OF inv, of f] in
        \<open>auto simp: ilock_lock_fast_step_def fev_ilock_lock_fast_def ilock_data_def sole_next_def
           split: option.splits\<close>)

lemma ilock_unlock_fast_inv:
  assumes inv: "ilock_inv_for ow wk s" and "il_pc s f = IHeld"
  shows "ilock_inv (ilock_unlock_fast_step f s)"
  by (rule ilock_inv_for_upd [OF inv, where f = f
        and p = "if il_state (il s) = 1 then IIdle else IUnlockInner"])
     (use assms(2) ilock_inv_for_at [OF inv, of f] in
        \<open>auto simp: ilock_unlock_fast_step_def ilock_data_def sole_next_def split: option.splits\<close>)

lemma ilock_lock_slow_inv:
  assumes inv: "ilock_inv_for ow wk s" and step: "ilock_lock_slow_step f s = Some s'"
  shows "ilock_inv s'"
proof (cases "il_pc s f")
  case ILockInner
  with step have s': "s' = il_goto (s\<lparr>il_inner := Some f\<rparr>) f (ILockXchg)"
    by (simp add: ilock_lock_slow_step_def split: if_splits)
  show ?thesis unfolding s'
    by (rule ilock_inv_for_upd [OF inv, where f = f and p = "ILockXchg"])
       (use ILockInner step ilock_inv_for_at [OF inv, of f] in \<open>auto simp: ilock_lock_slow_step_def ilock_data_def sole_next_def split: option.splits if_splits\<close>)
next
  case ILockXchg
  with step have s': "s' = il_goto (s\<lparr>il := (il s)\<lparr>il_state := 2\<rparr>\<rparr>) f (if il_state (il s) = 0 then ILockStore else ILockAppend)"
    by (simp add: ilock_lock_slow_step_def split: if_splits)
  show ?thesis unfolding s'
    by (rule ilock_inv_for_upd [OF inv, where f = f and p = "if il_state (il s) = 0 then ILockStore else ILockAppend"])
       (use ILockXchg ilock_inv_for_at [OF inv, of f] in \<open>auto simp: ilock_data_def sole_next_def split: option.splits\<close>)
next
  case ILockStore
  with step have s': "s' = il_goto (s\<lparr>il := (il s)\<lparr>il_state := 1\<rparr>\<rparr>) f (ILockDrop)"
    by (simp add: ilock_lock_slow_step_def split: if_splits)
  show ?thesis unfolding s'
    by (rule ilock_inv_for_upd [OF inv, where f = f and p = "ILockDrop"])
       (use ILockStore ilock_inv_for_at [OF inv, of f] in \<open>auto simp: ilock_data_def sole_next_def split: option.splits\<close>)
next
  case ILockDrop
  with step have s': "s' = il_goto (s\<lparr>il_inner := None\<rparr>) f (IHeld)"
    by (simp add: ilock_lock_slow_step_def split: if_splits)
  show ?thesis unfolding s'
    by (rule ilock_inv_for_upd [OF inv, where f = f and p = "IHeld"])
       (use ILockDrop ilock_inv_for_at [OF inv, of f] in \<open>auto simp: ilock_data_def sole_next_def split: option.splits\<close>)
next
  case ILockAppend
  with step have s': "s' = il_goto (s\<lparr>il := (il s)\<lparr>il_waiters := il_waiters (il s) @ [f]\<rparr>\<rparr>) f (ILockPost)"
    by (simp add: ilock_lock_slow_step_def split: if_splits)
  show ?thesis unfolding s'
    by (rule ilock_inv_for_upd [OF inv, where f = f and p = "ILockPost"])
       (use ILockAppend ilock_inv_for_at [OF inv, of f] in \<open>auto simp: ilock_data_def sole_next_def split: option.splits\<close>)
qed (use step in \<open>simp_all add: ilock_lock_slow_step_def\<close>)

lemma ilock_lock_post_inv:
  assumes inv: "ilock_inv_for ow wk s" and "il_pc s f = ILockPost"
  shows "ilock_inv (ilock_lock_post_step f s)"
  by (rule ilock_inv_for_upd [OF inv, where f = f and p = IAsleep])
     (use assms(2) ilock_inv_for_at [OF inv, of f] in
        \<open>auto simp: ilock_lock_post_step_def ilock_data_def sole_next_def split: option.splits\<close>)

lemma ilock_unlock_slow_inv:
  assumes inv: "ilock_inv_for ow wk s" and step: "ilock_unlock_slow_step f s = Some s'"
    and "il_pc s f \<noteq> IUnlockPop"
  shows "ilock_inv s'"
proof (cases "il_pc s f")
  case IUnlockInner
  with step have s': "s' = il_goto (s\<lparr>il_inner := Some f\<rparr>) f (IUnlockPop)"
    by (simp add: ilock_unlock_slow_step_def split: if_splits)
  show ?thesis unfolding s'
    by (rule ilock_inv_for_upd [OF inv, where f = f and p = "IUnlockPop"])
       (use IUnlockInner step ilock_inv_for_at [OF inv, of f] in \<open>auto simp: ilock_unlock_slow_step_def ilock_data_def sole_next_def split: option.splits if_splits\<close>)
next
  case (IUnlockStore g)
  with step have s': "s' = il_goto (s\<lparr>il := (il s)\<lparr>il_state := 1\<rparr>\<rparr>) f (IUnlockDrop g)"
    by (simp add: ilock_unlock_slow_step_def split: if_splits)
  show ?thesis unfolding s'
    by (rule ilock_inv_for_upd [OF inv, where f = f and p = "IUnlockDrop g"])
       (use IUnlockStore ilock_inv_for_at [OF inv, of f] in \<open>auto simp: ilock_data_def sole_next_def split: option.splits\<close>)
next
  case (IUnlockDrop g)
  with step have s': "s' = il_goto (s\<lparr>il_inner := None\<rparr>) f (IUnlockWake g)"
    by (simp add: ilock_unlock_slow_step_def split: if_splits)
  show ?thesis unfolding s'
    by (rule ilock_inv_for_upd [OF inv, where f = f and p = "IUnlockWake g"])
       (use IUnlockDrop ilock_inv_for_at [OF inv, of f] in \<open>auto simp: ilock_data_def sole_next_def split: option.splits\<close>)
qed (use step assms(3) in \<open>simp_all add: ilock_unlock_slow_step_def\<close>)

text \<open>The two steps that change the program counters of two fibers.\<close>

lemma ilock_unlock_pop_inv:
  assumes inv: "ilock_inv_for ow wk s" and pc: "il_pc s f = IUnlockPop"
    and step: "ilock_unlock_slow_step f s = Some s'"
  shows "ilock_inv s'"
proof -
  have d: "ilock_data ow wk s" and ow: "ow = Some f" and inn: "il_inner s = Some f" and wk: "wk = None"
    using ilock_inv_for_at [OF inv, of f] pc inv by (auto simp: ilock_inv_for_def ilock_data_def split: option.splits)
  then obtain g gs where W: "il_waiters (il s) = g # gs" and st: "il_state (il s) = 2"
    using pc by (cases "il_waiters (il s)") (auto simp: ilock_data_def)
  let ?p = "if gs = [] then IUnlockStore g else IUnlockDrop g"
  have g: "il_queued (il_pc s g)" "g \<noteq> f"
    using W pc ilock_inv_for_at [OF inv, of g] by auto
  have "ilock_roles None (Some f) (Some f) (set (g # gs)) ((il_pc s)(f := ?p))"
    by (rule ilock_roles_upd [of ow "il_inner s" wk "set (il_waiters (il s))"])
       (use inv pc ow inn wk W in \<open>auto simp: sole_next_def ilock_inv_for_def dest: ilock_roles_at [where f = f]\<close>)
  then have "ilock_roles (Some g) (Some f) (Some f) (set gs) ((il_pc s)(f := ?p, g := IGranted))"
    by (rule ilock_roles_upd)
       (use g d W in \<open>auto simp: sole_next_def ilock_data_def\<close>)
  moreover have "s' = il_goto (il_goto (s\<lparr>il := (il s)\<lparr>il_waiters := gs\<rparr>\<rparr>) g IGranted) f ?p"
    using step pc st W by (simp add: ilock_unlock_slow_step_def)
  ultimately have "ilock_inv_for (Some g) (Some f) s'"
    using d g st inn W by (auto simp: ilock_inv_for_def ilock_data_def fun_upd_twist)
  then show ?thesis by (auto simp: ilock_inv_def)
qed

lemma ilock_wake_inv:
  assumes inv: "ilock_inv_for ow wk s" and pc: "il_pc s f = IUnlockWake g"
  shows "ilock_inv (ilock_wake_step f g s)"
proof -
  have d: "ilock_data ow wk s" and wk: "wk = Some f" and inn: "il_inner s \<noteq> Some f" and ow: "ow \<noteq> Some f"
    using ilock_inv_for_at [OF inv, of f] pc by auto
  then have g: "ow = Some g" "il_pc s g = IGranted" "il_state (il s) > 0" "g \<noteq> f"
    using pc by (auto simp: ilock_data_def word_neq_0_conv)
  have W: "f \<notin> set (il_waiters (il s))" "g \<notin> set (il_waiters (il s))" "il_inner s \<noteq> Some g"
    using ilock_inv_for_at [OF inv, of f] ilock_inv_for_at [OF inv, of g] pc g by auto
  have "ilock_roles (Some g) (il_inner s) None (set (il_waiters (il s))) ((il_pc s)(f := IIdle))"
    by (rule ilock_roles_upd [of ow "il_inner s" wk "set (il_waiters (il s))"])
       (use inv g wk inn W in \<open>auto simp: sole_next_def ilock_inv_for_def\<close>)
  then have "ilock_roles (Some g) (il_inner s) None (set (il_waiters (il s))) ((il_pc s)(f := IIdle, g := IHeld))"
    by (rule ilock_roles_upd) (use W in \<open>auto simp: sole_next_def\<close>)
  then have "ilock_inv_for (Some g) None (ilock_wake_step f g s)"
    using d g inn W by (auto simp: ilock_wake_step_def ilock_inv_for_def ilock_data_def split: option.splits)
  then show ?thesis by (auto simp: ilock_inv_def)
qed

lemma ilock_inv_step:
  assumes "ilock_inv s" and step: "ilock_step e s = Some s'"
  shows "ilock_inv s'"
proof -
  obtain ow wk where inv: "ilock_inv_for ow wk s" using assms(1) by (auto simp: ilock_inv_def)
  note steps = ilock_begin_inv [OF inv] ilock_lock_fast_inv [OF inv] ilock_unlock_fast_inv [OF inv]
    ilock_lock_slow_inv [OF inv] ilock_lock_post_inv [OF inv] ilock_unlock_slow_inv [OF inv]
    ilock_unlock_pop_inv [OF inv] ilock_wake_inv [OF inv]
  show ?thesis
  proof (cases e)
    case (IlockStep f)
    then show ?thesis using step steps by (cases "il_pc s f") auto
  qed (use step steps in \<open>auto split: if_splits\<close>)
qed

lemma ilock_inv_init: "ilock_inv (ilock_sys_init n)"
proof -
  have "ilock_inv_for None None (ilock_sys_init n)"
    by (simp add: ilock_inv_for_def ilock_roles_def ilock_data_def ilock_sys_init_def ilock_new_def sole_def)
  then show ?thesis by (auto simp: ilock_inv_def)
qed

interpretation ilk: mutual_exclusion ilock_step "\<lambda>s. \<exists>n. s = ilock_sys_init n" ilock_inv
    "\<lambda>s f. il_owns (il_pc s f)"
proof unfold_locales
  show "a = b" if h: "ilock_inv s" "il_owns (il_pc s a)" "il_owns (il_pc s b)" for s a b
  proof -
    obtain ow wk where inv: "ilock_inv_for ow wk s" using h(1) by (auto simp: ilock_inv_def)
    show ?thesis using ilock_inv_for_at [OF inv, of a] ilock_inv_for_at [OF inv, of b] h(2,3) by simp
  qed
qed (auto simp: ilock_inv_init intro: ilock_inv_step)

section \<open>What the lock promises\<close>

text \<open>
  C31. In every interleaving of lock and unlock calls by any number of fibers, spurious compare-exchange
  failures included: at most one fiber owns the lock; no assertion of \<open>fev_ilock.c\<close> fails; a fiber that
  sleeps in \<open>fev_ilock_lock_slow\<close> is in the queue, another fiber owns the lock, and the state is 2, so
  that the owner's unlock goes through the queue; and a fiber that was taken off the queue has a fiber
  about to wake it.
\<close>

theorem fev_ilock_safe_and_live:
  assumes "run ilock_step (ilock_sys_init n) es = Some s"
  shows "(\<forall>a b. il_owns (il_pc s a) \<longrightarrow> il_owns (il_pc s b) \<longrightarrow> a = b) \<and>
         (\<forall>f. il_pc s f \<noteq> IFault) \<and>
         (\<forall>f. il_pc s f = IAsleep \<longrightarrow>
            f \<in> set (il_waiters (il s)) \<and> il_state (il s) = 2 \<and> (\<exists>g. g \<noteq> f \<and> il_owns (il_pc s g))) \<and>
         (\<forall>g. il_pc s g = IGranted \<longrightarrow> (\<exists>f. il_waking (il_pc s f) = Some g))"
proof (intro conjI allI impI)
  have "ilock_inv s" using ilk.inv_run_init [OF _ assms] by blast
  then obtain ow wk where inv: "ilock_inv_for ow wk s" by (auto simp: ilock_inv_def)
  note at = ilock_inv_for_at [OF inv]
  show "a = b" if "il_owns (il_pc s a)" "il_owns (il_pc s b)" for a b
    using ilk.exclusive_run [OF _ assms that] by blast
  show "il_pc s f \<noteq> IFault" for f using at [of f] by simp
  show q: "f \<in> set (il_waiters (il s))" if "il_pc s f = IAsleep" for f using at [of f] that by simp
  show st: "il_state (il s) = 2" if "il_pc s f = IAsleep" for f
    using at [of f] q [OF that] by (auto simp: ilock_data_def)
  show "\<exists>g. g \<noteq> f \<and> il_owns (il_pc s g)" if f: "il_pc s f = IAsleep" for f
  proof -
    obtain g where "ow = Some g" using st [OF f] at [of f] by (auto simp: ilock_data_def)
    then show ?thesis using at [of g] f by (intro exI [of _ g]) auto
  qed
  show "\<exists>f. il_waking (il_pc s f) = Some g" if "il_pc s g = IGranted" for g
    using that at [of g] by (auto simp: ilock_data_def split: option.splits)
qed

definition ilock_contended_run :: "ilock_event list" where
  "ilock_contended_run =
     [IlockLock 1, IlockCas 1 False, IlockLock 2, IlockCas 2 False, IlockStep 2, IlockStep 2,
      IlockStep 2, IlockStep 2]"

named_theorems ilock_ops "unfolding of the steps of the internal lock"

lemmas [ilock_ops] = ilock_sys_init_def ilock_new_def ilock_lock_fast_step_def
  fev_ilock_lock_fast_def ilock_lock_slow_step_def ilock_lock_post_step_def
  ilock_unlock_fast_step_def ilock_unlock_slow_step_def ilock_wake_step_def

theorem fev_ilock_safe_and_live_witness:
  "\<exists>s. run ilock_step (ilock_sys_init 2) ilock_contended_run = Some s \<and> il_pc s 2 = IAsleep \<and>
       2 \<in> set (il_waiters (il s)) \<and> il_state (il s) = 2 \<and> (\<exists>g. g \<noteq> 2 \<and> il_owns (il_pc s g))"
proof -
  obtain s where s: "run ilock_step (ilock_sys_init 2) ilock_contended_run = Some s" "il_pc s 2 = IAsleep"
    by (simp add: ilock_contended_run_def ilock_ops)
  with fev_ilock_safe_and_live [OF s(1)] show ?thesis by blast
qed

text \<open>
  Waiters are served first come, first served, and nobody overtakes them: in every reachable state
  with a non-empty queue, a fiber that becomes the owner in the next step is the first of the queue,
  and it leaves the queue.
\<close>

theorem fev_ilock_fifo:
  assumes "run ilock_step (ilock_sys_init n) es = Some s" and "il_waiters (il s) \<noteq> []"
    and "ilock_step e s = Some s'" and "\<not> il_owns (il_pc s f)" and "il_owns (il_pc s' f)"
  shows "il_waiters (il s) = f # il_waiters (il s')"
proof -
  have "ilock_inv s" using ilk.inv_run_init [OF _ assms(1)] by blast
  then obtain ow wk where inv: "ilock_inv_for ow wk s" by (auto simp: ilock_inv_def)
  then have st: "il_state (il s) = 2" using assms(2) by (simp add: ilock_inv_for_def ilock_data_def)
  have granted: "il_pc s g = IGranted \<and> g \<noteq> u" if "il_pc s u = IUnlockWake g" for u g
    using ilock_inv_for_at [OF inv, of u] that by (auto simp: ilock_data_def)
  show ?thesis
  proof (cases e)
    case (IlockStep u)
    show ?thesis
    proof (cases "il_pc s u")
      case IUnlockPop
      then show ?thesis using IlockStep assms st
        by (cases "il_waiters (il s)") (auto simp: ilock_ops split: if_splits)
    next
      case (IUnlockWake g)
      then show ?thesis using IlockStep assms granted [OF IUnlockWake]
        by (auto simp: ilock_ops split: if_splits)
    qed (use IlockStep assms(3-5) st in \<open>auto simp: ilock_ops split: if_splits\<close>)
  qed (use assms(3-5) st in \<open>auto simp: ilock_ops split: if_splits\<close>)
qed

theorem fev_ilock_fifo_witness:
  "\<exists>s s'. run ilock_step (ilock_sys_init 2) (ilock_contended_run @ [IlockUnlock 1, IlockStep 1]) = Some s \<and>
     ilock_step (IlockStep 1) s = Some s' \<and> il_owns (il_pc s' 2) \<and> il_waiters (il s) = 2 # il_waiters (il s')"
proof -
  obtain s s' where s: "run ilock_step (ilock_sys_init 2) (ilock_contended_run @ [IlockUnlock 1, IlockStep 1]) = Some s"
      "il_waiters (il s) \<noteq> []" "ilock_step (IlockStep 1) s = Some s'" "\<not> il_owns (il_pc s 2)"
      "il_owns (il_pc s' 2)"
    by (simp add: ilock_contended_run_def ilock_ops)
  with fev_ilock_fifo [OF s] show ?thesis by blast
qed

text \<open>
  The sequential \<open>fev_ilock_unlock\<close> that the other components use is what the statements of the
  owner's unlock do when no other fiber is inside the inner lock: run one after the other from a
  reachable state, they end with the same lock, having popped the same fiber.
\<close>

theorem fev_ilock_unlock_refines:
  assumes "run ilock_step (ilock_sys_init n) es = Some s" and "il_pc s f = IHeld" and "il_inner s = None"
  shows "\<exists>k s'. run ilock_step s (IlockUnlock f # replicate k (IlockStep f)) = Some s' \<and>
     fev_ilock_unlock (il s) = Some (il s', il_waking (il_pc s' f)) \<and>
     (il_pc s' f = IIdle \<or> (\<exists>g. il_pc s' f = IUnlockWake g))"
proof -
  have "ilock_inv s" using ilk.inv_run_init [OF _ assms(1)] by blast
  then obtain ow wk where inv: "ilock_inv_for ow wk s" by (auto simp: ilock_inv_def)
  have st: "il_state (il s) = (if il_waiters (il s) = [] then 1 else 2)" "distinct (il_waiters (il s))"
    and q: "f \<notin> set (il_waiters (il s))"
    using ilock_inv_for_at [OF inv, of f] assms(2,3) by (auto simp: ilock_data_def)
  show ?thesis
  proof (cases "il_waiters (il s)")
    case Nil
    then show ?thesis
      using assms(2) st by (intro exI [of _ 0]) (auto simp: ilock_ops fev_ilock_unlock_def)
  next
    case (Cons g gs)
    then show ?thesis
      using assms(2,3) st q
      by (intro exI [of _ "if gs = [] then 4 else 3"])
         (auto simp: ilock_ops fev_ilock_unlock_def fev_ilock_unlock_slow_def eval_nat_numeral)
  qed
qed

theorem fev_ilock_unlock_refines_witness:
  "\<exists>s. run ilock_step (ilock_sys_init 2) ilock_contended_run = Some s \<and>
     (\<exists>k s'. run ilock_step s (IlockUnlock 1 # replicate k (IlockStep 1)) = Some s' \<and>
       fev_ilock_unlock (il s) = Some (il s', il_waking (il_pc s' 1)))"
proof -
  obtain s where s: "run ilock_step (ilock_sys_init 2) ilock_contended_run = Some s" "il_pc s 1 = IHeld"
      "il_inner s = None"
    by (simp add: ilock_contended_run_def ilock_ops)
  with fev_ilock_unlock_refines [OF s] show ?thesis by blast
qed

end
