(* ===== verification/Waiter.thy ===== *)
theory Waiter
  imports Prelude
begin

text \<open>
  The waiter (\<open>fev_waiter_intf.h\<close>, \<open>fev_waiter_impl.h\<close>): the rendezvous between a fiber that suspends
  and the handlers (unlocking fibers, timers, the poller) that want to wake it. The fiber must be woken
  exactly once, with the reason of the handler that came first, even if that handler runs while the
  fiber is still switching to its scheduler; and the waiter may live on the fiber's stack, so that the
  scheduler and the handler that won must be done with it before the fiber returns. (A handler that
  comes later only loses, but it still reads the waiter: that no such handler reaches a waiter on the
  stack is the duty of the callers, which take the waiter out of their queue or bucket under its lock.)

  The first part is \<open>fev_waiter_wake\<close> as one operation, which the other components call; the second is
  the concurrent system with one program counter per atomic access.
\<close>

section \<open>Data and sequential operation\<close>

datatype fev_waiter_wake_result =
    FEV_WAITER_FAILED | FEV_WAITER_SET_ONLY | FEV_WAITER_SET_AND_WAKE_UP

text \<open>\<open>enum fev_waiter_wake_reason\<close>, stored in an \<open>atomic_uint\<close>.\<close>

definition FEV_WAITER_NONE :: u32 where "FEV_WAITER_NONE = 0"
definition FEV_WAITER_READY :: u32 where "FEV_WAITER_READY = 1"
definition FEV_WAITER_TIMED_OUT_CHECK :: u32 where "FEV_WAITER_TIMED_OUT_CHECK = 2"
definition FEV_WAITER_TIMED_OUT_NO_CHECK :: u32 where "FEV_WAITER_TIMED_OUT_NO_CHECK = 3"

named_theorems reason_defs "the numeric values of the wake-up reasons"

lemmas [reason_defs] = FEV_WAITER_NONE_def FEV_WAITER_READY_def FEV_WAITER_TIMED_OUT_CHECK_def
  FEV_WAITER_TIMED_OUT_NO_CHECK_def

record fev_waiter =
  w_reason :: u32
  w_do_wake :: u32
  w_wake_reason :: u32
  w_wait_for_post :: u8
  w_wait_for_wake :: u8
  w_fiber :: fiber_ptr

text \<open>The assertions at the head of \<open>fev_waiter_wake\<close>.\<close>

definition wake_asserts :: "fev_waiter \<Rightarrow> u32 \<Rightarrow> bool" where
  "wake_asserts w reason \<longleftrightarrow>
     reason \<noteq> FEV_WAITER_NONE \<and> w_reason w \<le> FEV_WAITER_TIMED_OUT_NO_CHECK \<and> w_do_wake w \<le> 1"

definition fev_waiter_wake :: "fev_waiter \<Rightarrow> u32 \<Rightarrow> (fev_waiter_wake_result \<times> fev_waiter) option" where
  "fev_waiter_wake w reason =
     do { fev_assert (wake_asserts w reason);
          if w_reason w = FEV_WAITER_NONE
          then let w1 = w\<lparr>w_reason := reason, w_do_wake := 0\<rparr>
               in if w_do_wake w \<noteq> 0
                  then Some (FEV_WAITER_SET_AND_WAKE_UP, w1\<lparr>w_wake_reason := reason, w_wait_for_wake := 0\<rparr>)
                  else Some (FEV_WAITER_SET_ONLY, w1\<lparr>w_wait_for_wake := 0\<rparr>)
          else Some (FEV_WAITER_FAILED, w) }"

section \<open>The concurrent system\<close>

text \<open>\<open>fev_waiter_enable_wake_ups\<close>, which runs on the scheduler's stack after the fiber was suspended.\<close>

datatype post_pc =
    PNone
  | PDoWake
  | PLoad
  | PXchg u32
  | PStore u32
  | PClear bool \<comment> \<open>with a fiber to wake?\<close>
  | PWake
  | PDone bool \<comment> \<open>having woken the fiber?\<close>

text \<open>The waiting fiber, in \<open>fev_waiter_wait\<close>.\<close>

datatype fib_pc = FRun | FSusp | FSpin | FRead | FRet u32

text \<open>A handler, in \<open>fev_waiter_wake\<close> and then waking the fiber if it was told to.\<close>

datatype waker_pc =
    KIdle | KCas u32 | KXchg u32 | KStore u32 | KClear fev_waiter_wake_result | KWake
  | KRet fev_waiter_wake_result

text \<open>
  \<open>ws_stack\<close>: the waiter lives on the fiber's stack (the caller sets \<open>wait_for_wake\<close> to 1).
  \<open>ws_fault\<close>: an assertion failed, a fiber that was not suspended was woken, or
  \<open>fev_waiter_enable_wake_ups\<close>, or the winning handler of a waiter on the stack, accessed the waiter after
  the fiber had returned. The accesses of a handler that loses (its assertions and its failing
  compare-exchange) are not counted.
\<close>

record waiter_sys =
  ws_waiter :: fev_waiter
  ws_stack :: bool
  ws_num_run :: u32
  ws_post :: post_pc
  ws_fib :: fib_pc
  ws_waker :: "nat \<Rightarrow> waker_pc"
  ws_fault :: bool

datatype waiter_event =
    WaitBegin
  | PostStep
  | FiberStep
  | WakeBegin nat u32
  | WakeStep nat

text \<open>How the caller prepares the waiter (see \<open>fev_waiters_queue_wait\<close> for a waiter on the stack).\<close>

definition waiter_sys_init :: "bool \<Rightarrow> u32 \<Rightarrow> u32 \<Rightarrow> u8 \<Rightarrow> fiber_ptr \<Rightarrow> waiter_sys" where
  "waiter_sys_init stack n wr wfpost f =
     \<lparr>ws_waiter = \<lparr>w_reason = FEV_WAITER_NONE, w_do_wake = 0, w_wake_reason = wr, w_wait_for_post = wfpost,
         w_wait_for_wake = (if stack then 1 else 0), w_fiber = f\<rparr>,
      ws_stack = stack, ws_num_run = n, ws_post = PNone, ws_fib = FRun, ws_waker = (\<lambda>_. KIdle), ws_fault = False\<rparr>"

text \<open>\<open>fev_cur_wake_one\<close> on the waiter's fiber.\<close>

definition deliver_wake :: "waiter_sys \<Rightarrow> waiter_sys" where
  "deliver_wake s = s\<lparr>ws_num_run := ws_num_run s + 1, ws_fib := FSpin, ws_fault := ws_fault s \<or> ws_fib s \<noteq> FSusp\<rparr>"

definition returned :: "waiter_sys \<Rightarrow> bool" where
  "returned s \<longleftrightarrow> (case ws_fib s of FRet _ \<Rightarrow> True | _ \<Rightarrow> False)"

text \<open>An access to the waiter by \<open>fev_waiter_enable_wake_ups\<close>, and one by the handler that set the reason.\<close>

definition post_access :: "waiter_sys \<Rightarrow> waiter_sys" where
  "post_access s = s\<lparr>ws_fault := ws_fault s \<or> returned s\<rparr>"

definition waker_access :: "waiter_sys \<Rightarrow> waiter_sys" where
  "waker_access s = s\<lparr>ws_fault := ws_fault s \<or> returned s \<and> ws_stack s\<rparr>"

definition waker_goto :: "waiter_sys \<Rightarrow> nat \<Rightarrow> waker_pc \<Rightarrow> waiter_sys" where
  "waker_goto s i p = s\<lparr>ws_waker := (ws_waker s)(i := p)\<rparr>"

text \<open>\<open>fev_waiter_wait\<close> up to the context switch.\<close>

definition fev_waiter_wait_begin :: "waiter_sys \<Rightarrow> waiter_sys" where
  "fev_waiter_wait_begin s =
     s\<lparr>ws_fault := ws_fault s \<or> w_do_wake (ws_waiter s) \<noteq> 0 \<or> w_fiber (ws_waiter s) = 0,
       ws_num_run := ws_num_run s - 1,
       ws_waiter := (ws_waiter s)\<lparr>w_wait_for_post := 1\<rparr>, ws_fib := FSusp, ws_post := PDoWake\<rparr>"

text \<open>
  \<open>fev_waiter_wait\<close> after the context switch: the spin on \<open>wait\<close> (both bytes of the union), in which the
  fiber reschedules itself, and the load of \<open>wake_reason\<close>.
\<close>

definition fev_waiter_wait_resume :: "waiter_sys \<Rightarrow> waiter_sys option" where
  "fev_waiter_wait_resume s =
     (case ws_fib s of
        FSpin \<Rightarrow>
          if w_wait_for_post (ws_waiter s) \<noteq> 0 \<or> w_wait_for_wake (ws_waiter s) \<noteq> 0
          then Some (s\<lparr>ws_num_run := ws_num_run s - 1 + 1\<rparr>)
          else Some (s\<lparr>ws_fib := FRead\<rparr>)
      | FRead \<Rightarrow> Some (s\<lparr>ws_fib := FRet (w_wake_reason (ws_waiter s))\<rparr>)
      | _ \<Rightarrow> None)"

definition fev_waiter_enable_wake_ups :: "waiter_sys \<Rightarrow> waiter_sys option" where
  "fev_waiter_enable_wake_ups s0 =
     (let s = post_access s0; w = ws_waiter s0
      in case ws_post s0 of
           PDoWake \<Rightarrow> Some (s\<lparr>ws_waiter := w\<lparr>w_do_wake := 1\<rparr>, ws_post := PLoad\<rparr>)
         | PLoad \<Rightarrow> Some (s\<lparr>ws_post := if w_reason w \<noteq> 0 then PXchg (w_reason w) else PClear False\<rparr>)
         | PXchg r \<Rightarrow> Some (s\<lparr>ws_waiter := w\<lparr>w_do_wake := 0\<rparr>,
                             ws_post := if w_do_wake w \<noteq> 0 then PStore r else PClear False\<rparr>)
         | PStore r \<Rightarrow> Some (s\<lparr>ws_waiter := w\<lparr>w_wake_reason := r\<rparr>, ws_post := PClear True\<rparr>)
         | PClear b \<Rightarrow> Some (s\<lparr>ws_waiter := w\<lparr>w_wait_for_post := 0\<rparr>, ws_post := if b then PWake else PDone False\<rparr>)
         | PWake \<Rightarrow> Some (deliver_wake (s0\<lparr>ws_post := PDone True\<rparr>))
         | _ \<Rightarrow> None)"

definition waiter_wake_step :: "nat \<Rightarrow> waiter_sys \<Rightarrow> waiter_sys option" where
  "waiter_wake_step i s0 =
     (let s = waker_access s0; w = ws_waiter s0
      in case ws_waker s0 i of
           KCas r \<Rightarrow> Some (if w_reason w = FEV_WAITER_NONE
                            then waker_goto (s\<lparr>ws_waiter := w\<lparr>w_reason := r\<rparr>\<rparr>) i (KXchg r)
                            else waker_goto s0 i (KRet FEV_WAITER_FAILED))
         | KXchg r \<Rightarrow> Some (waker_goto (s\<lparr>ws_waiter := w\<lparr>w_do_wake := 0\<rparr>\<rparr>) i
                              (if w_do_wake w \<noteq> 0 then KStore r else KClear FEV_WAITER_SET_ONLY))
         | KStore r \<Rightarrow> Some (waker_goto (s\<lparr>ws_waiter := w\<lparr>w_wake_reason := r\<rparr>\<rparr>) i (KClear FEV_WAITER_SET_AND_WAKE_UP))
         | KClear res \<Rightarrow> Some (waker_goto (s\<lparr>ws_waiter := w\<lparr>w_wait_for_wake := 0\<rparr>\<rparr>) i
                                 (if res = FEV_WAITER_SET_AND_WAKE_UP then KWake else KRet res))
         | KWake \<Rightarrow> Some (deliver_wake (waker_goto s0 i (KRet FEV_WAITER_SET_AND_WAKE_UP)))
         | _ \<Rightarrow> None)"

fun waiter_step :: "waiter_event \<Rightarrow> waiter_sys \<Rightarrow> waiter_sys option" where
  "waiter_step WaitBegin s = (if ws_fib s = FRun then Some (fev_waiter_wait_begin s) else None)"
| "waiter_step PostStep s = fev_waiter_enable_wake_ups s"
| "waiter_step FiberStep s = fev_waiter_wait_resume s"
| "waiter_step (WakeBegin i r) s =
     (if ws_waker s i = KIdle \<and> r \<noteq> FEV_WAITER_NONE \<and> r \<le> FEV_WAITER_TIMED_OUT_NO_CHECK
      then Some (waker_goto (s\<lparr>ws_fault := ws_fault s \<or> \<not> wake_asserts (ws_waiter s) r\<rparr>) i (KCas r))
      else None)"
| "waiter_step (WakeStep i) s = waiter_wake_step i s"

section \<open>The invariant\<close>

text \<open>The handler that set the reason, past its compare-exchange.\<close>

fun won :: "waker_pc \<Rightarrow> bool" where
  "won (KXchg _) = True"
| "won (KStore _) = True"
| "won (KClear _) = True"
| "won KWake = True"
| "won (KRet res) = (res \<noteq> FEV_WAITER_FAILED)"
| "won _ = False"

text \<open>The side that changed \<open>do_wake\<close> from 1 to 0, and so has to wake the fiber.\<close>

fun ptaken :: "post_pc \<Rightarrow> bool" where
  "ptaken (PStore _) = True"
| "ptaken (PClear b) = b"
| "ptaken PWake = True"
| "ptaken (PDone b) = b"
| "ptaken _ = False"

fun ktaken :: "waker_pc \<Rightarrow> bool" where
  "ktaken (KStore _) = True"
| "ktaken (KClear res) = (res = FEV_WAITER_SET_AND_WAKE_UP)"
| "ktaken KWake = True"
| "ktaken (KRet res) = (res = FEV_WAITER_SET_AND_WAKE_UP)"
| "ktaken _ = False"

fun past_store :: "post_pc \<Rightarrow> bool" where
  "past_store PNone = False"
| "past_store PDoWake = False"
| "past_store _ = True"

text \<open>The reason that a program counter carries agrees with the waiter.\<close>

fun post_reason :: "u32 \<Rightarrow> u32 \<Rightarrow> post_pc \<Rightarrow> bool" where
  "post_reason r wr (PXchg x) = (x = r)"
| "post_reason r wr (PStore x) = (x = r)"
| "post_reason r wr (PClear b) = (b \<longrightarrow> wr = r)"
| "post_reason r wr PWake = (wr = r)"
| "post_reason r wr (PDone b) = (b \<longrightarrow> wr = r)"
| "post_reason r wr _ = True"

fun waker_reason :: "u32 \<Rightarrow> u32 \<Rightarrow> waker_pc \<Rightarrow> bool" where
  "waker_reason r wr (KXchg x) = (x = r)"
| "waker_reason r wr (KStore x) = (x = r)"
| "waker_reason r wr (KClear res) = (res \<noteq> FEV_WAITER_FAILED \<and> (res = FEV_WAITER_SET_AND_WAKE_UP \<longrightarrow> wr = r))"
| "waker_reason r wr KWake = (wr = r)"
| "waker_reason r wr (KRet res) = (res = FEV_WAITER_SET_AND_WAKE_UP \<longrightarrow> wr = r)"
| "waker_reason r wr _ = True"

fun needs_reason :: "post_pc \<Rightarrow> bool" where
  "needs_reason (PXchg _) = True"
| "needs_reason p = ptaken p"

fun post_busy :: "post_pc \<Rightarrow> bool" where
  "post_busy PNone = False"
| "post_busy PWake = False"
| "post_busy (PDone _) = False"
| "post_busy _ = True"

fun waker_busy :: "waker_pc \<Rightarrow> bool" where
  "waker_busy KWake = False"
| "waker_busy (KRet _) = False"
| "waker_busy _ = True"

text \<open>
  The waiter against the program counters: \<open>k\<close> is the program counter of the winning handler, or
  \<open>KIdle\<close> when no handler has set the reason.
\<close>

definition delivered :: "post_pc \<Rightarrow> waker_pc \<Rightarrow> bool" where
  "delivered p k \<longleftrightarrow> p = PDone True \<or> k = KRet FEV_WAITER_SET_AND_WAKE_UP"

definition waiter_ok :: "fev_waiter \<Rightarrow> bool \<Rightarrow> post_pc \<Rightarrow> fib_pc \<Rightarrow> waker_pc \<Rightarrow> bool" where
  "waiter_ok w stack p f k \<longleftrightarrow>
     (w_reason w = 0 \<longleftrightarrow> \<not> won k) \<and> w_reason w \<le> 3 \<and> (\<not> won k \<longrightarrow> k = KIdle) \<and>
     w_do_wake w = (if past_store p \<and> \<not> ptaken p \<and> \<not> ktaken k then 1 else 0) \<and>
     \<not> (ptaken p \<and> ktaken k) \<and> (ktaken k \<longrightarrow> past_store p) \<and> (needs_reason p \<longrightarrow> won k) \<and>
     post_reason (w_reason w) (w_wake_reason w) p \<and> waker_reason (w_reason w) (w_wake_reason w) k \<and>
     (p = PClear False \<or> p = PDone False \<longrightarrow> won k \<longrightarrow> ktaken k \<or> (\<exists>r. k = KXchg r)) \<and>
     (p \<noteq> PNone \<longrightarrow> (w_wait_for_post w = 0 \<longleftrightarrow> \<not> post_busy p)) \<and>
     w_wait_for_wake w = (if stack \<and> waker_busy k then 1 else 0) \<and>
     (case f of FRun \<Rightarrow> p = PNone | FSusp \<Rightarrow> p \<noteq> PNone \<and> \<not> delivered p k | FSpin \<Rightarrow> delivered p k
      | FRead \<Rightarrow> delivered p k \<and> (\<exists>b. p = PDone b) \<and> (stack \<longrightarrow> \<not> waker_busy k)
      | FRet r \<Rightarrow> delivered p k \<and> (\<exists>b. p = PDone b) \<and> (stack \<longrightarrow> \<not> waker_busy k) \<and> r = w_reason w)"


text \<open>\<open>win\<close> is the handler that set the reason, if any.\<close>

definition winner_pc :: "(nat \<Rightarrow> waker_pc) \<Rightarrow> nat option \<Rightarrow> waker_pc" where
  "winner_pc pc win = (case win of None \<Rightarrow> KIdle | Some i \<Rightarrow> pc i)"

fun cas_ok :: "waker_pc \<Rightarrow> bool" where
  "cas_ok (KCas r) = (r \<noteq> 0 \<and> r \<le> 3)"
| "cas_ok _ = True"

definition waiter_inv_for :: "nat option \<Rightarrow> waiter_sys \<Rightarrow> bool" where
  "waiter_inv_for win s \<longleftrightarrow>
     sole (\<lambda>i. won (ws_waker s i)) win \<and> (\<forall>i. cas_ok (ws_waker s i)) \<and>
     \<not> ws_fault s \<and> w_fiber (ws_waiter s) \<noteq> 0 \<and>
     waiter_ok (ws_waiter s) (ws_stack s) (ws_post s) (ws_fib s) (winner_pc (ws_waker s) win)"

definition waiter_inv :: "waiter_sys \<Rightarrow> bool" where
  "waiter_inv s \<longleftrightarrow> (\<exists>win. waiter_inv_for win s)"

text \<open>One lemma per statement, on the waiter and the program counters alone.\<close>

lemmas ok_defs = waiter_ok_def delivered_def

lemma post_ok:
  "waiter_ok w st PDoWake f k \<Longrightarrow> waiter_ok (w\<lparr>w_do_wake := 1\<rparr>) st PLoad f k"
  "waiter_ok w st PLoad f k \<Longrightarrow>
     waiter_ok w st (if w_reason w \<noteq> 0 then PXchg (w_reason w) else PClear False) f k"
  "waiter_ok w st (PXchg r) f k \<Longrightarrow>
     waiter_ok (w\<lparr>w_do_wake := 0\<rparr>) st (if w_do_wake w \<noteq> 0 then PStore r else PClear False) f k"
  "waiter_ok w st (PStore r) f k \<Longrightarrow> waiter_ok (w\<lparr>w_wake_reason := r\<rparr>) st (PClear True) f k"
  "waiter_ok w st (PClear b) f k \<Longrightarrow>
     waiter_ok (w\<lparr>w_wait_for_post := 0\<rparr>) st (if b then PWake else PDone False) f k"
  "waiter_ok w st PWake f k \<Longrightarrow> f = FSusp \<and> waiter_ok w st (PDone True) FSpin k"
  by (cases k; cases f; auto simp: ok_defs)+

lemma waker_ok:
  "waiter_ok w st p f KIdle \<Longrightarrow> r \<noteq> 0 \<Longrightarrow> r \<le> 3 \<Longrightarrow> waiter_ok (w\<lparr>w_reason := r\<rparr>) st p f (KXchg r)"
  "waiter_ok w st p f (KXchg r) \<Longrightarrow>
     waiter_ok (w\<lparr>w_do_wake := 0\<rparr>) st p f (if w_do_wake w \<noteq> 0 then KStore r else KClear FEV_WAITER_SET_ONLY)"
  "waiter_ok w st p f (KStore r) \<Longrightarrow> waiter_ok (w\<lparr>w_wake_reason := r\<rparr>) st p f (KClear FEV_WAITER_SET_AND_WAKE_UP)"
  "waiter_ok w st p f (KClear res) \<Longrightarrow>
     waiter_ok (w\<lparr>w_wait_for_wake := 0\<rparr>) st p f (if res = FEV_WAITER_SET_AND_WAKE_UP then KWake else KRet res)"
  "waiter_ok w st p f KWake \<Longrightarrow>
     f = FSusp \<and> waiter_ok w st p FSpin (KRet FEV_WAITER_SET_AND_WAKE_UP)"
  by (cases p; cases f; auto simp: ok_defs)+

lemma fiber_ok:
  "waiter_ok w st p FRun k \<Longrightarrow> waiter_ok (w\<lparr>w_wait_for_post := 1\<rparr>) st PDoWake FSusp k"
  "waiter_ok w st p FSpin k \<Longrightarrow> w_wait_for_post w = 0 \<Longrightarrow> w_wait_for_wake w = 0 \<Longrightarrow> waiter_ok w st p FRead k"
  "waiter_ok w st p FRead k \<Longrightarrow> waiter_ok w st p (FRet (w_wake_reason w)) k"
  by (cases p; cases k; auto simp: ok_defs)+

lemma not_returned:
  "waiter_ok w st p f k \<Longrightarrow> post_busy p \<Longrightarrow> f \<noteq> FRet r"
  "waiter_ok w st p f k \<Longrightarrow> won k \<Longrightarrow> waker_busy k \<Longrightarrow> st \<Longrightarrow> f \<noteq> FRet r"
  "waiter_ok w st p f KIdle \<Longrightarrow> f \<noteq> FRet r"
  by (auto simp: ok_defs)

lemma returned_reason: "waiter_ok w st p (FRet r) k \<Longrightarrow> won k \<and> r \<noteq> 0 \<and> r = w_reason w"
  by (auto simp: ok_defs)

lemma waiter_inv_forD:
  assumes "waiter_inv_for win s"
  shows "sole (\<lambda>i. won (ws_waker s i)) win" "cas_ok (ws_waker s i)" "\<not> ws_fault s" "w_fiber (ws_waiter s) \<noteq> 0"
    "waiter_ok (ws_waiter s) (ws_stack s) (ws_post s) (ws_fib s) (winner_pc (ws_waker s) win)"
    "won (ws_waker s i) \<longleftrightarrow> win = Some i"
  using assms by (auto simp: waiter_inv_for_def sole_def)

lemma post_inv:
  assumes inv: "waiter_inv_for win s" and step: "fev_waiter_enable_wake_ups s = Some s'"
  shows "waiter_inv s'"
proof -
  note d = waiter_inv_forD [OF inv]
  have "waiter_inv_for win s'"
  proof (cases "ws_post s = PWake")
    case True
    then show ?thesis using step inv post_ok(6) [OF d(5) [unfolded True]]
      by (auto simp: waiter_inv_for_def fev_waiter_enable_wake_ups_def deliver_wake_def)
  next
    case False
    have "\<not> returned s" if "post_busy (ws_post s)"
      using not_returned(1) [OF d(5) that] by (auto simp: returned_def split: fib_pc.splits)
    moreover have "waiter_ok (ws_waiter s') (ws_stack s) (ws_post s') (ws_fib s) (winner_pc (ws_waker s) win)"
      using False step d(5)
      by (cases "ws_post s")
         (auto simp: fev_waiter_enable_wake_ups_def post_access_def Let_def dest: post_ok split: if_splits)
    ultimately show ?thesis using False step inv
      by (cases "ws_post s")
         (auto simp: waiter_inv_for_def fev_waiter_enable_wake_ups_def post_access_def Let_def)
  qed
  then show ?thesis by (auto simp: waiter_inv_def)
qed

lemma fiber_inv:
  assumes inv: "waiter_inv_for win s" and step: "fev_waiter_wait_resume s = Some s'"
  shows "waiter_inv s'"
proof -
  have "waiter_inv_for win s'"
    using inv step waiter_inv_forD(5) [OF inv]
    by (cases "ws_fib s")
       (auto simp: waiter_inv_for_def fev_waiter_wait_resume_def split: if_splits intro: fiber_ok)
  then show ?thesis by (auto simp: waiter_inv_def)
qed

lemma wait_begin_inv:
  assumes inv: "waiter_inv_for win s" and "ws_fib s = FRun"
  shows "waiter_inv (fev_waiter_wait_begin s)"
proof -
  note d = waiter_inv_forD [OF inv]
  have "w_do_wake (ws_waiter s) = 0" using d(5) assms(2) by (auto simp: waiter_ok_def)
  then have "waiter_inv_for win (fev_waiter_wait_begin s)"
    using inv assms(2) fiber_ok(1) [OF d(5) [unfolded assms(2)]]
    by (simp add: waiter_inv_for_def fev_waiter_wait_begin_def)
  then show ?thesis by (auto simp: waiter_inv_def)
qed

text \<open>A handler's step: either it is the winner, or it becomes the winner, or it changes nothing but itself.\<close>

lemma waker_inv_upd:
  assumes inv: "waiter_inv_for win s" and "cas_ok p" and "won p \<longrightarrow> win = None \<or> win = Some i"
    and "win = Some i \<longrightarrow> won p"
    and "ws_waker s' = (ws_waker s)(i := p)" "\<not> ws_fault s'" "w_fiber (ws_waiter s') = w_fiber (ws_waiter s)"
    and "waiter_ok (ws_waiter s') (ws_stack s') (ws_post s') (ws_fib s') (if won p then p else winner_pc (ws_waker s) win)"
  shows "waiter_inv s'"
proof -
  have "sole (\<lambda>u. won (((ws_waker s)(i := p)) u)) (sole_next (won p) i win)"
    using sole_upd [where h = won and g = "ws_waker s", OF waiter_inv_forD(1) [OF inv]] assms(3) by blast
  moreover have "winner_pc (ws_waker s') (sole_next (won p) i win) = (if won p then p else winner_pc (ws_waker s) win)"
    using assms(4,5) by (auto simp: winner_pc_def sole_next_def split: option.splits)
  ultimately have "waiter_inv_for (sole_next (won p) i win) s'"
    using assms inv by (simp add: waiter_inv_for_def)
  then show ?thesis by (auto simp: waiter_inv_def)
qed

lemma waker_inv:
  assumes inv: "waiter_inv_for win s" and step: "waiter_wake_step i s = Some s'"
  shows "waiter_inv s'"
proof -
  note d = waiter_inv_forD [OF inv] and at = waiter_inv_forD(2,6) [OF inv, of i]
  have nr: "\<not> (returned s \<and> ws_stack s)" if "won (winner_pc (ws_waker s) win) \<and> waker_busy (winner_pc (ws_waker s) win) \<or> winner_pc (ws_waker s) win = KIdle"
    using d(5) that by (cases "ws_fib s") (auto simp: returned_def dest: not_returned)
  have wpc: "winner_pc (ws_waker s) win = ws_waker s i" if "won (ws_waker s i)" using at that by (simp add: winner_pc_def)
  show ?thesis
  proof (cases "ws_waker s i")
    case (KCas r)
    show ?thesis
    proof (cases "w_reason (ws_waiter s) = 0")
      case True
      then have idle: "win = None" "winner_pc (ws_waker s) win = KIdle"
        using d(5) waiter_inv_forD(6) [OF inv] by (auto simp: waiter_ok_def winner_pc_def split: option.splits)
      show ?thesis
        by (rule waker_inv_upd [OF inv, where p = "KXchg r" and i = i])
           (use step KCas True idle at d(3,5) nr waker_ok(1) in
             \<open>auto simp: waiter_wake_step_def Let_def waker_goto_def waker_access_def reason_defs\<close>)
    next
      case False
      show ?thesis
        by (rule waker_inv_upd [OF inv, where p = "KRet FEV_WAITER_FAILED" and i = i])
           (use step KCas False at d(3,5) in \<open>auto simp: waiter_wake_step_def Let_def waker_goto_def reason_defs\<close>)
    qed
  next
    case (KXchg r)
    show ?thesis
      by (rule waker_inv_upd [OF inv, where i = i
            and p = "if w_do_wake (ws_waiter s) \<noteq> 0 then KStore r else KClear FEV_WAITER_SET_ONLY"])
         (use step KXchg at d(3) nr wpc waker_ok(2) [OF d(5) [unfolded wpc [unfolded KXchg, simplified]]] in
           \<open>auto simp: waiter_wake_step_def Let_def waker_goto_def waker_access_def\<close>)
  next
    case (KStore r)
    show ?thesis
      by (rule waker_inv_upd [OF inv, where i = i and p = "KClear FEV_WAITER_SET_AND_WAKE_UP"])
         (use step KStore at d(3) nr wpc waker_ok(3) [OF d(5) [unfolded wpc [unfolded KStore, simplified]]] in
           \<open>auto simp: waiter_wake_step_def Let_def waker_goto_def waker_access_def\<close>)
  next
    case (KClear res)
    then have res: "res \<noteq> FEV_WAITER_FAILED" using d(5) wpc by (simp add: waiter_ok_def)
    show ?thesis
      by (rule waker_inv_upd [OF inv, where i = i
            and p = "if res = FEV_WAITER_SET_AND_WAKE_UP then KWake else KRet res"])
         (use step KClear res at d(3) nr wpc waker_ok(4) [OF d(5) [unfolded wpc [unfolded KClear, simplified]]] in
           \<open>auto simp: waiter_wake_step_def Let_def waker_goto_def waker_access_def\<close>)
  next
    case KWake
    show ?thesis
      by (rule waker_inv_upd [OF inv, where i = i and p = "KRet FEV_WAITER_SET_AND_WAKE_UP"])
         (use step KWake at d(3) nr wpc waker_ok(5) [OF d(5) [unfolded wpc [unfolded KWake, simplified]]] in
           \<open>auto simp: waiter_wake_step_def Let_def waker_goto_def deliver_wake_def\<close>)
  qed (use step in \<open>auto simp: waiter_wake_step_def\<close>)
qed

lemma wake_begin_inv:
  assumes inv: "waiter_inv_for win s" and "ws_waker s i = KIdle" "r \<noteq> 0" "r \<le> 3"
  shows "waiter_inv (waker_goto (s\<lparr>ws_fault := ws_fault s \<or> \<not> wake_asserts (ws_waiter s) r\<rparr>) i (KCas r))"
proof (rule waker_inv_upd [OF inv, where p = "KCas r" and i = i])
  note d = waiter_inv_forD [OF inv]
  have "wake_asserts (ws_waiter s) r"
    using d(5) assms(3) by (auto simp: waiter_ok_def wake_asserts_def reason_defs)
  then show "\<not> ws_fault (waker_goto (s\<lparr>ws_fault := ws_fault s \<or> \<not> wake_asserts (ws_waiter s) r\<rparr>) i (KCas r))"
    using d(3) by (simp add: waker_goto_def)
qed (use assms waiter_inv_forD [OF inv] waiter_inv_forD(6) [OF inv, of i] in \<open>simp_all add: waker_goto_def\<close>)

lemma waiter_inv_step:
  assumes "waiter_inv s" and step: "waiter_step e s = Some s'"
  shows "waiter_inv s'"
proof -
  obtain win where inv: "waiter_inv_for win s" using assms(1) by (auto simp: waiter_inv_def)
  show ?thesis
    using step wait_begin_inv [OF inv] post_inv [OF inv] fiber_inv [OF inv] wake_begin_inv [OF inv] waker_inv [OF inv]
    by (cases e) (auto simp: reason_defs split: if_splits)
qed

lemma waiter_inv_init: "f \<noteq> 0 \<Longrightarrow> waiter_inv (waiter_sys_init stack n wr wfpost f)"
  unfolding waiter_inv_def
  by (rule exI [of _ None])
     (simp add: waiter_inv_for_def waiter_sys_init_def sole_def winner_pc_def ok_defs reason_defs)

interpretation wtr: step_invariant waiter_step
    "\<lambda>s. \<exists>stack n wr wfpost f. f \<noteq> 0 \<and> s = waiter_sys_init stack n wr wfpost f" waiter_inv
  by unfold_locales (auto simp: waiter_inv_init intro: waiter_inv_step)

lemma stack_step: "waiter_step e s = Some s' \<Longrightarrow> ws_stack s' = ws_stack s"
  by (cases e)
     (auto simp: fev_waiter_wait_begin_def fev_waiter_enable_wake_ups_def fev_waiter_wait_resume_def waiter_wake_step_def
        Let_def waker_goto_def deliver_wake_def post_access_def waker_access_def
        split: if_splits post_pc.splits waker_pc.splits fib_pc.splits)

lemma stack_run: "run waiter_step s es = Some s' \<Longrightarrow> ws_stack s' = ws_stack s"
  by (induction es arbitrary: s) (auto simp: stack_step split: option.splits bind_splits)

text \<open>After the return of the fiber the scheduler and the winner are done, and everybody else loses.\<close>

lemma returned_unchanged:
  assumes inv: "waiter_inv_for win s" and ret: "returned s" and "ws_stack s" and step: "waiter_step e s = Some s'"
  shows "ws_waiter s' = ws_waiter s"
proof -
  note d = waiter_inv_forD [OF inv]
  obtain r where r: "ws_fib s = FRet r" using ret by (auto simp: returned_def split: fib_pc.splits)
  let ?k = "winner_pc (ws_waker s) win"
  have "won ?k" using returned_reason [OF d(5) [unfolded r]] by blast
  then have ok: "w_reason (ws_waiter s) \<noteq> 0" "\<exists>b. ws_post s = PDone b" "\<not> waker_busy ?k"
    using d(5) [unfolded r] assms(3) by (simp_all add: ok_defs)
  have idle: "won (ws_waker s i) \<Longrightarrow> \<not> waker_busy (ws_waker s i)" for i
    using ok(3) waiter_inv_forD(6) [OF inv, of i] by (simp add: winner_pc_def)
  show ?thesis
  proof (cases e)
    case (WakeStep i)
    then show ?thesis using step ok(1) idle [of i]
      by (cases "ws_waker s i") (auto simp: waiter_wake_step_def waker_goto_def deliver_wake_def reason_defs)
  qed (use step r ok(2) in
    \<open>auto simp: fev_waiter_enable_wake_ups_def fev_waiter_wait_resume_def waker_goto_def split: if_splits\<close>)
qed

section \<open>What the waiter promises\<close>

text \<open>
  C1. In every interleaving of the waiting fiber, \<open>fev_waiter_enable_wake_ups\<close> on its scheduler and any
  number of handlers: no assertion fails, the fiber is never woken while it is not suspended (so it is
  woken at most once), and neither \<open>fev_waiter_enable_wake_ups\<close> nor the handler that set the reason of a
  waiter on the stack touches the waiter after the fiber has returned from \<open>fev_waiter_wait\<close>; at most
  one handler sets the reason; and the value that \<open>fev_waiter_wait\<close> returns is the reason that handler
  set, never \<open>FEV_WAITER_NONE\<close>. Once the fiber has returned, no step writes to a waiter on the stack any
  more. (Handlers that start late still read it, and lose; the callers have to keep them away.)
\<close>

theorem fev_waiter_safe:
  assumes "f \<noteq> 0" and "run waiter_step (waiter_sys_init stack n wr wfpost f) es = Some s"
  shows "\<not> ws_fault s \<and>
     (\<forall>i j. won (ws_waker s i) \<longrightarrow> won (ws_waker s j) \<longrightarrow> i = j) \<and>
     (\<forall>r. ws_fib s = FRet r \<longrightarrow> r \<noteq> FEV_WAITER_NONE \<and> r = w_reason (ws_waiter s) \<and> (\<exists>i. won (ws_waker s i))) \<and>
     (\<forall>e s'. returned s \<longrightarrow> stack \<longrightarrow> waiter_step e s = Some s' \<longrightarrow> ws_waiter s' = ws_waiter s)"
proof -
  have "waiter_inv s" using wtr.inv_run_init [OF _ assms(2)] assms(1) by blast
  then obtain win where inv: "waiter_inv_for win s" by (auto simp: waiter_inv_def)
  note d = waiter_inv_forD [OF inv]
  have "won (winner_pc (ws_waker s) win)" if "ws_fib s = FRet r" for r
    using returned_reason d(5) [unfolded that] by blast
  then have "\<exists>i. won (ws_waker s i)" if "ws_fib s = FRet r" for r
    using that by (cases win) (auto simp: winner_pc_def)
  moreover have "r \<noteq> FEV_WAITER_NONE \<and> r = w_reason (ws_waiter s)" if "ws_fib s = FRet r" for r
    using returned_reason d(5) [unfolded that] by (simp add: reason_defs)
  moreover have "i = j" if "won (ws_waker s i)" "won (ws_waker s j)" for i j
    using that waiter_inv_forD(6) [OF inv] by simp
  moreover have "ws_waiter s' = ws_waiter s" if "returned s" "stack" "waiter_step e s = Some s'" for e s'
    using returned_unchanged [OF inv] that stack_run [OF assms(2)] by (simp add: waiter_sys_init_def)
  ultimately show ?thesis using d(3) by blast
qed

text \<open>
  C2. No wake-up is lost: once a handler has set the reason, and every party that is inside
  \<open>fev_waiter_wake\<close> or \<open>fev_waiter_enable_wake_ups\<close> (wake-ups to deliver included) has run to completion,
  the fiber has been woken, and \<open>fev_waiter_wait\<close> no longer spins: two more steps of the fiber return.
\<close>

theorem fev_waiter_no_lost_wakeup:
  assumes "f \<noteq> 0" and "run waiter_step (waiter_sys_init stack n wr wfpost f) es = Some s"
    and "ws_waker s i = KRet res" "res \<noteq> FEV_WAITER_FAILED" and "ws_post s = PDone b"
  shows "(ws_fib s = FSpin \<longrightarrow> (\<exists>s'. run waiter_step s [FiberStep, FiberStep] = Some s' \<and> ws_fib s' = FRet (w_reason (ws_waiter s)))) \<and>
     ws_fib s \<noteq> FSusp \<and> ws_fib s \<noteq> FRun"
proof -
  have "waiter_inv s" using wtr.inv_run_init [OF _ assms(2)] assms(1) by blast
  then obtain win where inv: "waiter_inv_for win s" by (auto simp: waiter_inv_def)
  have "win = Some i" using waiter_inv_forD(6) [OF inv, of i] assms(3,4) by simp
  then have ok: "waiter_ok (ws_waiter s) (ws_stack s) (PDone b) (ws_fib s) (KRet res)"
    using waiter_inv_forD(5) [OF inv] assms(3,5) by (simp add: winner_pc_def)
  then have "delivered (PDone b) (KRet res)" using assms(4) by (cases b) (auto simp: ok_defs)
  then show ?thesis
    using ok assms(4) by (cases res) (auto simp: ok_defs fev_waiter_wait_resume_def split: fib_pc.splits)
qed

text \<open>
  A handler overtakes the fiber's switch to the scheduler, so that \<open>fev_waiter_enable_wake_ups\<close> has to
  deliver the wake-up while the handler is still inside \<open>fev_waiter_wake\<close>.
\<close>

definition waiter_race_run :: "waiter_event list" where
  "waiter_race_run =
     [WakeBegin 7 1, WaitBegin, WakeStep 7, WakeStep 7, PostStep, PostStep, PostStep, PostStep, PostStep, PostStep,
      FiberStep, WakeStep 7]"

lemmas waiter_ops = waiter_sys_init_def fev_waiter_wait_begin_def fev_waiter_enable_wake_ups_def
  fev_waiter_wait_resume_def waiter_wake_step_def post_access_def waker_access_def waker_goto_def
  deliver_wake_def wake_asserts_def returned_def reason_defs

theorem fev_waiter_safe_witness:
  "\<exists>s. run waiter_step (waiter_sys_init True 3 0 0 5) (waiter_race_run @ [FiberStep, FiberStep]) = Some s \<and>
     ws_fib s = FRet 1 \<and> \<not> ws_fault s \<and> (\<exists>i. won (ws_waker s i))"
proof -
  obtain s where s: "run waiter_step (waiter_sys_init True 3 0 0 5) (waiter_race_run @ [FiberStep, FiberStep]) = Some s"
      "ws_fib s = FRet 1"
    by (simp add: waiter_race_run_def waiter_ops)
  have "(5::nat) \<noteq> 0" by simp
  from fev_waiter_safe [OF this s(1)] s show ?thesis by blast
qed

theorem fev_waiter_no_lost_wakeup_witness:
  "\<exists>s. run waiter_step (waiter_sys_init True 3 0 0 5) waiter_race_run = Some s \<and> ws_fib s = FSpin \<and>
     (\<exists>s'. run waiter_step s [FiberStep, FiberStep] = Some s' \<and> ws_fib s' = FRet (w_reason (ws_waiter s)))"
proof -
  obtain s where s: "run waiter_step (waiter_sys_init True 3 0 0 5) waiter_race_run = Some s"
      "ws_waker s 7 = KRet FEV_WAITER_SET_ONLY" "ws_post s = PDone True" "ws_fib s = FSpin"
    by (simp add: waiter_race_run_def waiter_ops)
  have "(5::nat) \<noteq> 0" "FEV_WAITER_SET_ONLY \<noteq> FEV_WAITER_FAILED" by simp_all
  from fev_waiter_no_lost_wakeup [OF this(1) s(1,2) this(2) s(3)] s show ?thesis by blast
qed

text \<open>
  \<open>fev_waiter_wake\<close> as one operation, used by the queues and the timers, is what the statements of a
  handler do when nobody interferes: from a reachable state, a handler run alone ends with the waiter
  and the result that \<open>fev_waiter_wake\<close> computes.
\<close>

theorem fev_waiter_wake_refines:
  assumes "f \<noteq> 0" and "run waiter_step (waiter_sys_init stack n wr wfpost f) es = Some s"
    and "ws_waker s i = KIdle" and "r \<noteq> FEV_WAITER_NONE" "r \<le> FEV_WAITER_TIMED_OUT_NO_CHECK"
  shows "\<exists>k s' res. run waiter_step s (WakeBegin i r # replicate k (WakeStep i)) = Some s' \<and>
     fev_waiter_wake (ws_waiter s) r = Some (res, ws_waiter s') \<and>
     ws_waker s' i = (if res = FEV_WAITER_SET_AND_WAKE_UP then KWake else KRet res)"
proof -
  have "waiter_inv s" using wtr.inv_run_init [OF _ assms(2)] assms(1) by blast
  then obtain win where inv: "waiter_inv_for win s" by (auto simp: waiter_inv_def)
  have ok: "wake_asserts (ws_waiter s) r"
    using waiter_inv_forD(5) [OF inv] assms(4) by (auto simp: waiter_ok_def wake_asserts_def reason_defs)
  let ?k = "if w_reason (ws_waiter s) = 0 then if w_do_wake (ws_waiter s) = 0 then 3 else 4 else 1"
  show ?thesis
    using assms(3-5) ok
    by (intro exI [of _ ?k])
       (auto simp: eval_nat_numeral fev_waiter_wake_def waiter_wake_step_def Let_def waker_goto_def
          waker_access_def reason_defs)
qed

theorem fev_waiter_wake_refines_witness:
  "\<exists>k s' res. run waiter_step (waiter_sys_init True 3 0 0 5) (WakeBegin 2 1 # replicate k (WakeStep 2)) = Some s' \<and>
     fev_waiter_wake (ws_waiter (waiter_sys_init True 3 0 0 5)) 1 = Some (res, ws_waiter s') \<and>
     ws_waker s' 2 = (if res = FEV_WAITER_SET_AND_WAKE_UP then KWake else KRet res)"
proof -
  let ?s = "waiter_sys_init True 3 0 0 5"
  have "run waiter_step ?s [] = Some ?s" "ws_waker ?s 2 = KIdle" "(5::nat) \<noteq> 0"
      "1 \<noteq> FEV_WAITER_NONE" "1 \<le> FEV_WAITER_TIMED_OUT_NO_CHECK"
    by (simp_all add: waiter_ops)
  from fev_waiter_wake_refines [OF this(3,1,2,4,5)] show ?thesis .
qed

end
