(* ===== verification/Timers.thy ===== *)
theory Timers
  imports Binheap Ilock Waiter
begin

text \<open>
  The timers (\<open>fev_timers.h\<close>, \<open>fev_timers.c\<close>) over a bucket implementation. The library is compiled with
  one of two buckets (binary heap or red-black tree); the operations here take the bucket's operations as
  a record, and the locale \<open>timers_bucket\<close> below states what they rely on. Theory \<open>Binheap\<close> provides the
  default instance.

  Every function but \<open>fev_timed_wait\<close> runs inside the bucket's lock; it is modelled from the moment its
  fiber owns that lock, with the unlock at its end. The results list what the function asked the poller
  (the time-outs it set, in order) and the scheduler (the fibers it woke, in order) to do.
\<close>

section \<open>Data\<close>

text \<open>\<open>'s\<close> is the store of timers, \<open>'b\<close> the bucket implementation's part of \<open>struct fev_timers_bucket\<close>.\<close>

record ('s, 'b) bucket_ops =
  bo_add :: "bool \<Rightarrow> 's \<Rightarrow> 'b \<Rightarrow> timer_ptr \<Rightarrow> (int \<times> 's \<times> 'b) option"
  bo_del :: "'s \<Rightarrow> 'b \<Rightarrow> timer_ptr \<Rightarrow> (int \<times> 's \<times> 'b) option"
  bo_del_min :: "'s \<Rightarrow> 'b \<Rightarrow> ('s \<times> 'b) option"
  bo_min :: "'b \<Rightarrow> timer_ptr option"
  bo_empty :: "'b \<Rightarrow> bool"
  bo_is_expired :: "'s \<Rightarrow> timer_ptr \<Rightarrow> bool option"
  bo_set_expired :: "'s \<Rightarrow> timer_ptr \<Rightarrow> 's option"
  bo_time :: "'s \<Rightarrow> timer_ptr \<Rightarrow> timespec option"
  bo_waiter :: "'s \<Rightarrow> timer_ptr \<Rightarrow> waiter_ptr option"

record 'b timers_bucket =
  tb_lock :: fev_ilock
  tb_queue :: 'b
  tb_min :: timer_ptr

type_synonym waiter_store = "waiter_ptr \<rightharpoonup> fev_waiter"

section \<open>Choosing a bucket\<close>

unbundle bit_operations_syntax

definition fev_timers_hash :: "u64 \<Rightarrow> u64" where
  "fev_timers_hash h = drop_bit 3 h XOR drop_bit 12 h XOR drop_bit 18 h XOR drop_bit 24 h"

definition FEV_TIMERS_BUCKETS :: nat where
  "FEV_TIMERS_BUCKETS = 64"

definition FEV_TIMERS_BUCKET_MASK :: u64 where
  "FEV_TIMERS_BUCKET_MASK = of_nat FEV_TIMERS_BUCKETS - 1"

definition fev_timers_find_bucket :: "'b timers_bucket list \<Rightarrow> u64 \<Rightarrow> 'b timers_bucket option" where
  "fev_timers_find_bucket buckets waiter =
     (let index = unat (fev_timers_hash waiter AND FEV_TIMERS_BUCKET_MASK)
      in if index < length buckets then Some (buckets ! index) else None)"

section \<open>Operations\<close>

definition fev_timers_add ::
  "('s, 'b) bucket_ops \<Rightarrow> bool \<Rightarrow> 's \<Rightarrow> 'b timers_bucket \<Rightarrow> timer_ptr \<Rightarrow>
     (int \<times> 's \<times> 'b timers_bucket \<times> timespec list \<times> fiber_ptr list) option" where
  "fev_timers_add ops alloc st bk timer =
     do { (ret, st, q) \<leftarrow> bo_add ops alloc st (tb_queue bk) timer;
          let bk = bk\<lparr>tb_queue := q\<rparr>;
          (ret, bk, timeouts) \<leftarrow>
            (if ret < 0 then Some (ret, bk, [])
             else if ret \<noteq> 0
             then do { m \<leftarrow> bo_min ops q;
                       fev_assert (m = timer);
                       abs_time \<leftarrow> bo_time ops st timer;
                       Some (0, bk\<lparr>tb_min := timer\<rparr>, [abs_time]) }
             else Some (0, bk, []));
          (lk, woken) \<leftarrow> fev_ilock_unlock_and_wake (tb_lock bk);
          Some (ret, st, bk\<lparr>tb_lock := lk\<rparr>, timeouts, woken) }"

definition fev_timers_del ::
  "('s, 'b) bucket_ops \<Rightarrow> 's \<Rightarrow> 'b timers_bucket \<Rightarrow> timer_ptr \<Rightarrow>
     ('s \<times> 'b timers_bucket \<times> timespec list \<times> fiber_ptr list) option" where
  "fev_timers_del ops st bk timer =
     do { expired \<leftarrow> bo_is_expired ops st timer;
          (st, bk, timeouts) \<leftarrow>
            (if expired then Some (st, bk, [])
             else do {
               (min_changed, st, q) \<leftarrow> bo_del ops st (tb_queue bk) timer;
               let bk = bk\<lparr>tb_queue := q\<rparr>;
               if min_changed = 0 then Some (st, bk, [])
               else if bo_empty ops q then Some (st, bk\<lparr>tb_min := 0\<rparr>, [])
               else do { m \<leftarrow> bo_min ops q;
                         abs_time \<leftarrow> bo_time ops st m;
                         Some (st, bk\<lparr>tb_min := m\<rparr>, [abs_time]) } });
          (lk, woken) \<leftarrow> fev_ilock_unlock_and_wake (tb_lock bk);
          Some (st, bk\<lparr>tb_lock := lk\<rparr>, timeouts, woken) }"

text \<open>
  \<open>fev_timers_wake_expired\<close>, with the clock reading \<open>now\<close> as an argument. That the loop ends is proved
  below; a loop that did not end would be \<open>None\<close>.
\<close>

partial_function (option) fev_timers_wake_expired ::
  "('s, 'b) bucket_ops \<Rightarrow> timespec \<Rightarrow> 's \<Rightarrow> 'b \<Rightarrow> waiter_store \<Rightarrow> fiber_ptr list \<Rightarrow> u32 \<Rightarrow>
     ('s \<times> 'b \<times> waiter_store \<times> fiber_ptr list \<times> u32) option" where
  "fev_timers_wake_expired ops now st q ws fibers num =
     (if bo_empty ops q then Some (st, q, ws, fibers, num)
      else do {
        m \<leftarrow> bo_min ops q;
        abs_time \<leftarrow> bo_time ops st m;
        c \<leftarrow> fev_timespec_cmp abs_time now;
        if c > 0 then Some (st, q, ws, fibers, num)
        else do {
          (st, q) \<leftarrow> bo_del_min ops st q;
          st \<leftarrow> bo_set_expired ops st m;
          waiter \<leftarrow> bo_waiter ops st m;
          w \<leftarrow> ws waiter;
          (result, w') \<leftarrow> fev_waiter_wake w FEV_WAITER_TIMED_OUT_NO_CHECK;
          if result = FEV_WAITER_SET_AND_WAKE_UP
          then fev_timers_wake_expired ops now st q (ws(waiter \<mapsto> w')) (fibers @ [w_fiber w]) (num + 1)
          else fev_timers_wake_expired ops now st q (ws(waiter \<mapsto> w')) fibers num } })"

definition fev_timers_process ::
  "('s, 'b) bucket_ops \<Rightarrow> timespec \<Rightarrow> 's \<Rightarrow> 'b timers_bucket \<Rightarrow> waiter_store \<Rightarrow> timer_ptr \<Rightarrow>
     (bool \<times> 's \<times> 'b timers_bucket \<times> waiter_store \<times> timespec list \<times> fiber_ptr list) option" where
  "fev_timers_process ops now st bk ws timer =
     do { let bk = bk\<lparr>tb_min := 0\<rparr>;
          (st, q, ws, fibers, num_fibers) \<leftarrow> fev_timers_wake_expired ops now st (tb_queue bk) ws [] 0;
          expired \<leftarrow> bo_is_expired ops st timer;
          (st, q) \<leftarrow>
            (if \<not> expired then do { (_, st, q) \<leftarrow> bo_del ops st q timer; Some (st, q) } else Some (st, q));
          (bk, timeouts) \<leftarrow>
            (if \<not> bo_empty ops q
             then do { m \<leftarrow> bo_min ops q;
                       abs_time \<leftarrow> bo_time ops st m;
                       Some (bk\<lparr>tb_queue := q, tb_min := m\<rparr>, [abs_time]) }
             else Some (bk\<lparr>tb_queue := q\<rparr>, []));
          (lk, fiber) \<leftarrow> fev_ilock_unlock (tb_lock bk);
          let fibers = fibers @ (case fiber of None \<Rightarrow> [] | Some f \<Rightarrow> [f]);
          let num_fibers = num_fibers + (case fiber of None \<Rightarrow> 0 | Some _ \<Rightarrow> 1);
          Some (expired, st, bk\<lparr>tb_lock := lk\<rparr>, ws, timeouts, if num_fibers > 0 then fibers else []) }"

text \<open>
  \<open>fev_timed_wait\<close> is split at the call of \<open>fev_waiter_wait\<close>, during which the other fibers run: the part
  before it returns \<open>Some ret\<close> when the function returns without waiting, and the part after it takes the
  reason of the wake-up.
\<close>

definition fev_timed_wait_begin ::
  "('s, 'b) bucket_ops \<Rightarrow> bool \<Rightarrow> fev_waiter \<Rightarrow> 's \<Rightarrow> 'b timers_bucket \<Rightarrow> timer_ptr \<Rightarrow>
     (int option \<times> 's \<times> 'b timers_bucket \<times> timespec list \<times> fiber_ptr list) option" where
  "fev_timed_wait_begin ops alloc waiter st bk timer =
     do { fev_assert (w_do_wake waiter = 0);
          (ret, st, bk, timeouts, woken) \<leftarrow> fev_timers_add ops alloc st bk timer;
          if ret < 0
          then do { fev_assert (ret = - ENOMEM); Some (Some ret, st, bk, timeouts, woken) }
          else Some (None, st, bk, timeouts, woken) }"

definition fev_timed_wait_end ::
  "('s, 'b) bucket_ops \<Rightarrow> u32 \<Rightarrow> timespec \<Rightarrow> 's \<Rightarrow> 'b timers_bucket \<Rightarrow> waiter_store \<Rightarrow> timer_ptr \<Rightarrow>
     (int \<times> 's \<times> 'b timers_bucket \<times> waiter_store \<times> timespec list \<times> fiber_ptr list) option" where
  "fev_timed_wait_end ops reason now st bk ws timer =
     do { fev_assert (reason \<noteq> FEV_WAITER_NONE);
          if reason = FEV_WAITER_READY
          then do { (st, bk, timeouts, woken) \<leftarrow> fev_timers_del ops st bk timer;
                    Some (0, st, bk, ws, timeouts, woken) }
          else if reason = FEV_WAITER_TIMED_OUT_NO_CHECK then Some (- ETIMEDOUT, st, bk, ws, [], [])
          else do { fev_assert (reason = FEV_WAITER_TIMED_OUT_CHECK);
                    (expired, st, bk, ws, timeouts, woken) \<leftarrow> fev_timers_process ops now st bk ws timer;
                    Some (if expired then - ETIMEDOUT else - EAGAIN, st, bk, ws, timeouts, woken) } }"

section \<open>Set-up and tear-down\<close>

datatype bucket_res = ResLock | ResMinLock

text \<open>
  \<open>fev_timers_bucket_init\<close>: the lock, the lock of the minimum, then the fields; an error of the second lock
  finalises the first. The result is the return value, the bucket, and the locks left initialised.
\<close>

definition fev_timers_bucket_init ::
  "int \<Rightarrow> int \<Rightarrow> 'b \<Rightarrow> int \<times> 'b timers_bucket option \<times> bucket_res list" where
  "fev_timers_bucket_init lock_ret min_lock_ret q =
     (case fev_ilock_init lock_ret of
        Inl ret \<Rightarrow> (ret, None, [])
      | Inr lk \<Rightarrow>
          if min_lock_ret \<noteq> 0 then (min_lock_ret, None, removeAll ResLock [ResLock])
          else (0, Some \<lparr>tb_lock = lk, tb_queue = q, tb_min = 0\<rparr>, [ResLock, ResMinLock]))"

definition fev_timers_bucket_fini :: "bucket_res list \<Rightarrow> bucket_res list" where
  "fev_timers_bucket_fini live = removeAll ResLock (removeAll ResMinLock live)"

text \<open>
  \<open>fev_timers_init\<close>: \<open>rets n\<close> is what \<open>fev_timers_bucket_init\<close> returns for bucket \<open>n\<close>. The result is the
  return value and the buckets left initialised.
\<close>

primrec timers_init_fail :: "nat \<Rightarrow> nat list \<Rightarrow> nat list" where
  "timers_init_fail 0 live = live"
| "timers_init_fail (Suc n) live = timers_init_fail n (removeAll n live)"

function timers_init_loop :: "(nat \<Rightarrow> int) \<Rightarrow> nat \<Rightarrow> nat list \<Rightarrow> int \<times> nat list" where
  "timers_init_loop rets n live =
     (if n < FEV_TIMERS_BUCKETS
      then if rets n \<noteq> 0 then (rets n, timers_init_fail n live)
           else timers_init_loop rets (n + 1) (live @ [n])
      else (0, live))"
  by auto
termination by (relation "measure (\<lambda>(rets, n, live). FEV_TIMERS_BUCKETS - n)") auto

declare timers_init_loop.simps [simp del]

definition fev_timers_init :: "(nat \<Rightarrow> int) \<Rightarrow> int \<times> nat list" where
  "fev_timers_init rets = timers_init_loop rets 0 []"

definition fev_timers_fini :: "nat list \<Rightarrow> nat list" where
  "fev_timers_fini live = fold removeAll [0..<FEV_TIMERS_BUCKETS] live"

lemma timers_init_fail_set: "set (timers_init_fail n live) = set live - {..<n}"
  by (induction n arbitrary: live) (auto simp: less_Suc_eq)

lemma timers_init_loop_step:
  "n < FEV_TIMERS_BUCKETS \<Longrightarrow> rets n = 0 \<Longrightarrow>
     timers_init_loop rets n [0..<n] = timers_init_loop rets (Suc n) [0..<Suc n]"
  by (simp add: timers_init_loop.simps [of rets n])

lemma timers_init_loop_ok:
  "n \<le> FEV_TIMERS_BUCKETS \<Longrightarrow> (\<And>i. n \<le> i \<Longrightarrow> i < FEV_TIMERS_BUCKETS \<Longrightarrow> rets i = 0) \<Longrightarrow>
     timers_init_loop rets n [0..<n] = (0, [0..<FEV_TIMERS_BUCKETS])"
proof (induction "FEV_TIMERS_BUCKETS - n" arbitrary: n)
  case 0
  then show ?case by (simp add: timers_init_loop.simps)
next
  case (Suc d)
  have "timers_init_loop rets (Suc n) [0..<Suc n] = (0, [0..<FEV_TIMERS_BUCKETS])"
    by (rule Suc.hyps(1)) (use Suc in auto)
  then show ?case using Suc.hyps(2) Suc.prems(2) [of n] timers_init_loop_step [of n rets] by simp
qed

lemma timers_init_loop_fails:
  "n \<le> i \<Longrightarrow> i < FEV_TIMERS_BUCKETS \<Longrightarrow> rets i \<noteq> 0 \<Longrightarrow> (\<And>j. n \<le> j \<Longrightarrow> j < i \<Longrightarrow> rets j = 0) \<Longrightarrow>
     timers_init_loop rets n [0..<n] = (rets i, [])"
proof (induction "i - n" arbitrary: n)
  case 0
  moreover have "timers_init_fail i [0..<i] = []"
    using timers_init_fail_set [of i "[0..<i]"] by (simp add: lessThan_atLeast0 flip: set_empty)
  ultimately show ?case by (simp add: timers_init_loop.simps [of rets n])
next
  case (Suc d)
  have "timers_init_loop rets (Suc n) [0..<Suc n] = (rets i, [])"
    by (rule Suc.hyps(1)) (use Suc in auto)
  then show ?case using Suc.hyps(2) Suc.prems timers_init_loop_step [of n rets] by simp
qed

section \<open>What the timers rely on\<close>

definition timer_ns :: "('s, 'b) bucket_ops \<Rightarrow> 's \<Rightarrow> timer_ptr \<Rightarrow> int" where
  "timer_ns ops st t = (case bo_time ops st t of None \<Rightarrow> 0 | Some ts \<Rightarrow> ns ts)"

text \<open>Times and waiters are kept, and so is the expiry of timers outside \<open>A\<close>.\<close>

definition keeps :: "('s, 'b) bucket_ops \<Rightarrow> timer_ptr set \<Rightarrow> 's \<Rightarrow> 's \<Rightarrow> bool" where
  "keeps ops A st st' \<longleftrightarrow>
     (\<forall>t. bo_time ops st' t = bo_time ops st t) \<and> (\<forall>t. bo_waiter ops st' t = bo_waiter ops st t) \<and>
     (\<forall>t. t \<notin> A \<longrightarrow> bo_is_expired ops st' t = bo_is_expired ops st t)"

lemma keeps_refl [simp]: "keeps ops A st st"
  by (simp add: keeps_def)

lemma keeps_trans: "keeps ops A st st' \<Longrightarrow> keeps ops B st' st'' \<Longrightarrow> keeps ops (A \<union> B) st st''"
  by (simp add: keeps_def)

lemma keeps_mono: "keeps ops A st st' \<Longrightarrow> A \<subseteq> B \<Longrightarrow> keeps ops B st st'"
  by (auto simp: keeps_def)

lemma keeps_ns: "keeps ops A st st' \<Longrightarrow> timer_ns ops st' = timer_ns ops st"
  by (simp add: keeps_def timer_ns_def fun_eq_iff)

text \<open>The minimum as \<open>bucket->min\<close> stores it: \<open>NULL\<close> for an empty bucket.\<close>

definition min_ptr :: "('s, 'b) bucket_ops \<Rightarrow> 'b \<Rightarrow> timer_ptr" where
  "min_ptr ops q = (if bo_empty ops q then 0 else case bo_min ops q of None \<Rightarrow> 0 | Some m \<Rightarrow> m)"

text \<open>The waiters of the timers in \<open>A\<close> exist and satisfy the assertions of \<open>fev_waiter_wake\<close>.\<close>

definition waiters_ok :: "('s, 'b) bucket_ops \<Rightarrow> 's \<Rightarrow> timer_ptr set \<Rightarrow> waiter_store \<Rightarrow> bool" where
  "waiters_ok ops st A ws \<longleftrightarrow>
     (\<forall>t\<in>A. \<exists>p w. bo_waiter ops st t = Some p \<and> ws p = Some w \<and> w_reason w \<le> FEV_WAITER_TIMED_OUT_NO_CHECK \<and> w_do_wake w \<le> 1)"

lemma waiters_ok_upd:
  assumes "waiters_ok ops st A ws" "B \<subseteq> A" "keeps ops C st st'"
    "w_reason w \<le> FEV_WAITER_TIMED_OUT_NO_CHECK" "w_do_wake w \<le> 1"
  shows "waiters_ok ops st' B (ws(p \<mapsto> w))"
  unfolding waiters_ok_def
proof
  fix t assume "t \<in> B"
  then have "t \<in> A" using assms(2) by blast
  then obtain p' w' where "bo_waiter ops st' t = Some p'" "ws p' = Some w'"
      "w_reason w' \<le> FEV_WAITER_TIMED_OUT_NO_CHECK" "w_do_wake w' \<le> 1"
    using assms(1,3) unfolding waiters_ok_def keeps_def by metis
  then show "\<exists>p' w'. bo_waiter ops st' t = Some p' \<and> (ws(p \<mapsto> w)) p' = Some w' \<and>
      w_reason w' \<le> FEV_WAITER_TIMED_OUT_NO_CHECK \<and> w_do_wake w' \<le> 1"
    using assms(4,5) by (cases "p' = p") auto
qed

text \<open>Waking the waiters of a list of timers one after the other, as \<open>fev_timers_wake_expired\<close> does.\<close>

fun expire_all :: "('s, 'b) bucket_ops \<Rightarrow> 's \<Rightarrow> timer_ptr list \<Rightarrow> waiter_store \<Rightarrow> (waiter_store \<times> fiber_ptr list) option" where
  "expire_all ops st [] ws = Some (ws, [])"
| "expire_all ops st (t # ts) ws =
     do { p \<leftarrow> bo_waiter ops st t;
          w \<leftarrow> ws p;
          (res, w') \<leftarrow> fev_waiter_wake w FEV_WAITER_TIMED_OUT_NO_CHECK;
          (ws', fs) \<leftarrow> expire_all ops st ts (ws(p \<mapsto> w'));
          Some (ws', (if res = FEV_WAITER_SET_AND_WAKE_UP then [w_fiber w] else []) @ fs) }"

lemma expire_all_keeps: "keeps ops A st st' \<Longrightarrow> expire_all ops st' ts ws = expire_all ops st ts ws"
proof (induction ts arbitrary: ws)
  case (Cons t ts)
  then have "bo_waiter ops st' t = bo_waiter ops st t" by (simp add: keeps_def)
  then show ?case using Cons by simp
qed simp

lemma fev_waiter_wake_ok:
  assumes "w_reason w \<le> FEV_WAITER_TIMED_OUT_NO_CHECK" "w_do_wake w \<le> 1" "r \<noteq> FEV_WAITER_NONE" "r \<le> FEV_WAITER_TIMED_OUT_NO_CHECK"
  shows "\<exists>res w'. fev_waiter_wake w r = Some (res, w') \<and> w_reason w' \<le> FEV_WAITER_TIMED_OUT_NO_CHECK \<and> w_do_wake w' \<le> 1"
  using assms by (auto simp: fev_waiter_wake_def wake_asserts_def Let_def)

locale timers_bucket =
  fixes ops :: "('s, 'b) bucket_ops"
    and inv :: "'s \<Rightarrow> 'b \<Rightarrow> bool"
    and content :: "'b \<Rightarrow> timer_ptr set"
    and room :: "'b \<Rightarrow> bool"
  assumes finite_content: "inv st b \<Longrightarrow> finite (content b)"
    and content_not_null: "inv st b \<Longrightarrow> 0 \<notin> content b"
    and empty_iff: "inv st b \<Longrightarrow> bo_empty ops b \<longleftrightarrow> content b = {}"
    and member: "inv st b \<Longrightarrow> t \<in> content b \<Longrightarrow> bo_is_expired ops st t = Some False \<and>
          (\<exists>ts. bo_time ops st t = Some ts \<and> timespec_wf ts)"
    and least: "inv st b \<Longrightarrow> content b \<noteq> {} \<Longrightarrow>
          \<exists>m. bo_min ops b = Some m \<and> m \<in> content b \<and> (\<forall>t\<in>content b. timer_ns ops st m \<le> timer_ns ops st t)"
    and add: "inv st b \<Longrightarrow> room b \<Longrightarrow> t \<noteq> 0 \<Longrightarrow> t \<notin> content b \<Longrightarrow> bo_time ops st t = Some ts \<Longrightarrow> timespec_wf ts \<Longrightarrow>
          (\<not> alloc \<and> bo_add ops alloc st b t = Some (- ENOMEM, st, b)) \<or>
          (\<exists>r st' b'. bo_add ops alloc st b t = Some (r, st', b') \<and> inv st' b' \<and> content b' = insert t (content b) \<and>
             keeps ops (insert t (content b)) st st' \<and>
             (r = 1 \<and> bo_min ops b' = Some t \<or> r = 0 \<and> content b \<noteq> {} \<and> bo_min ops b' = bo_min ops b))"
    and del: "inv st b \<Longrightarrow> t \<in> content b \<Longrightarrow>
          \<exists>r st' b'. bo_del ops st b t = Some (r, st', b') \<and> inv st' b' \<and> content b' = content b - {t} \<and>
             keeps ops (content b) st st' \<and>
             (r = 1 \<and> bo_min ops b = Some t \<or> r = 0 \<and> content b' \<noteq> {} \<and> bo_min ops b' = bo_min ops b)"
    and del_min: "inv st b \<Longrightarrow> content b \<noteq> {} \<Longrightarrow> bo_min ops b = Some m \<Longrightarrow>
          \<exists>st' b'. bo_del_min ops st b = Some (st', b') \<and> inv st' b' \<and> content b' = content b - {m} \<and>
             keeps ops (content b) st st'"
    and set_expired: "inv st b \<Longrightarrow> t \<notin> content b \<Longrightarrow> bo_time ops st t = Some ts \<Longrightarrow>
          \<exists>st'. bo_set_expired ops st t = Some st' \<and> inv st' b \<and> keeps ops {t} st st' \<and> bo_is_expired ops st' t = Some True"
begin

text \<open>One iteration of the loop that expires a timer.\<close>

lemma expire_step:
  assumes "inv st q" "content q \<noteq> {}" "bo_min ops q = Some m"
  shows "\<exists>st1 q' st'. bo_del_min ops st q = Some (st1, q') \<and> bo_set_expired ops st1 m = Some st' \<and> inv st' q' \<and>
     content q' = content q - {m} \<and> keeps ops (content q) st st' \<and> bo_is_expired ops st' m = Some True"
proof -
  obtain st1 q' where d: "bo_del_min ops st q = Some (st1, q')" "inv st1 q'" "content q' = content q - {m}"
      "keeps ops (content q) st st1"
    using del_min [OF assms] by blast
  have m: "m \<in> content q" using least [OF assms(1,2)] assms(3) by auto
  then obtain ts where "bo_time ops st1 m = Some ts" using member [OF assms(1) m] d(4) by (auto simp: keeps_def)
  moreover have "m \<notin> content q'" using d(3) by simp
  ultimately obtain st' where st': "bo_set_expired ops st1 m = Some st'" "inv st' q'" "keeps ops {m} st1 st'"
      "bo_is_expired ops st' m = Some True"
    using set_expired [OF d(2)] by blast
  have "keeps ops (content q) st st'" using keeps_trans [OF d(4) st'(3)] m by (simp add: insert_absorb)
  then show ?thesis using d st' by blast
qed

lemma wake_expired:
  assumes "inv st q" "timespec_wf now" "waiters_ok ops st (content q) ws"
  shows "\<exists>st' q' ws' fs ts.
     fev_timers_wake_expired ops now st q ws fibers num = Some (st', q', ws', fibers @ fs, num + of_nat (length fs)) \<and>
     expire_all ops st ts ws = Some (ws', fs) \<and>
     distinct ts \<and> sorted (map (timer_ns ops st) ts) \<and> set ts = {t \<in> content q. timer_ns ops st t \<le> ns now} \<and>
     inv st' q' \<and> content q' = {t \<in> content q. ns now < timer_ns ops st t} \<and>
     keeps ops (content q) st st' \<and> (\<forall>t\<in>set ts. bo_is_expired ops st' t = Some True)"
  using assms
proof (induction "card (content q)" arbitrary: st q ws fibers num rule: less_induct)
  case less
  show ?case
  proof (cases "content q = {}")
    case True
    then show ?thesis using less.prems empty_iff [OF less.prems(1)]
      by (intro exI [of _ st] exI [of _ q] exI [of _ ws] exI [of _ "[]"])
         (simp add: fev_timers_wake_expired.simps)
  next
    case False
    obtain m where m: "bo_min ops q = Some m" "m \<in> content q" "\<And>t. t \<in> content q \<Longrightarrow> timer_ns ops st m \<le> timer_ns ops st t"
      using least [OF less.prems(1) False] by blast
    obtain ts where ts: "bo_time ops st m = Some ts" "timespec_wf ts" using member [OF less.prems(1) m(2)] by blast
    obtain c where c: "fev_timespec_cmp ts now = Some c" "c \<le> 0 \<longleftrightarrow> timer_ns ops st m \<le> ns now"
      using timespec_cmp_le [OF ts(2) less.prems(2)] ts(1) by (auto simp: timer_ns_def)
    have ne: "\<not> bo_empty ops q" using False empty_iff [OF less.prems(1)] by simp
    show ?thesis
    proof (cases "c \<le> 0")
      case stop: False
      then have "ns now < timer_ns ops st t" if "t \<in> content q" for t using c m(3) [OF that] by linarith
      then have "{t \<in> content q. timer_ns ops st t \<le> ns now} = {}" "{t \<in> content q. ns now < timer_ns ops st t} = content q"
        by (auto simp: not_le)
      moreover have "fev_timers_wake_expired ops now st q ws fibers num = Some (st, q, ws, fibers, num)"
        using ne m(1) ts c(1) stop by (simp add: fev_timers_wake_expired.simps)
      ultimately show ?thesis using less.prems(1)
        by (intro exI [of _ st] exI [of _ q] exI [of _ ws] exI [of _ "[]"]) simp
    next
      case True
      obtain st1 q' st' where e: "bo_del_min ops st q = Some (st1, q')" "bo_set_expired ops st1 m = Some st'" "inv st' q'"
          "content q' = content q - {m}" "keeps ops (content q) st st'" "bo_is_expired ops st' m = Some True"
        using expire_step [OF less.prems(1) False m(1)] by blast
      obtain p w where p: "bo_waiter ops st m = Some p" "ws p = Some w" "w_reason w \<le> FEV_WAITER_TIMED_OUT_NO_CHECK" "w_do_wake w \<le> 1"
        using less.prems(3) m(2) by (auto simp: waiters_ok_def)
      have p': "bo_waiter ops st' m = Some p" using e(5) p(1) by (simp add: keeps_def)
      obtain res w' where w': "fev_waiter_wake w FEV_WAITER_TIMED_OUT_NO_CHECK = Some (res, w')"
          "w_reason w' \<le> FEV_WAITER_TIMED_OUT_NO_CHECK" "w_do_wake w' \<le> 1"
        using fev_waiter_wake_ok [OF p(3,4), of FEV_WAITER_TIMED_OUT_NO_CHECK] by (auto simp: reason_defs)
      let ?ws = "ws(p \<mapsto> w')" and ?f = "if res = FEV_WAITER_SET_AND_WAKE_UP then [w_fiber w] else []"
      have ok: "waiters_ok ops st' (content q') ?ws"
        by (rule waiters_ok_upd [OF less.prems(3) _ e(5) w'(2,3)]) (simp add: e(4))
      have "card (content q') < card (content q)"
        using e(4) m(2) finite_content [OF less.prems(1)] by (metis card_Diff1_less)
      from less.hyps [OF this e(3) less.prems(2) ok, of "fibers @ ?f" "num + of_nat (length ?f)"]
      obtain st2 q2 ws2 fs us where IH:
          "fev_timers_wake_expired ops now st' q' ?ws (fibers @ ?f) (num + of_nat (length ?f)) =
             Some (st2, q2, ws2, (fibers @ ?f) @ fs, (num + of_nat (length ?f)) + of_nat (length fs))"
          "expire_all ops st' us ?ws = Some (ws2, fs)" "distinct us" "sorted (map (timer_ns ops st') us)"
          "set us = {t \<in> content q'. timer_ns ops st' t \<le> ns now}" "inv st2 q2"
          "content q2 = {t \<in> content q'. ns now < timer_ns ops st' t}" "keeps ops (content q') st' st2"
          "\<forall>t\<in>set us. bo_is_expired ops st2 t = Some True" by blast
      have nskeep: "timer_ns ops st' = timer_ns ops st" using keeps_ns [OF e(5)] .
      have loop: "fev_timers_wake_expired ops now st q ws fibers num =
          fev_timers_wake_expired ops now st' q' ?ws (fibers @ ?f) (num + of_nat (length ?f))"
        using ne m(1) ts c(1) True e(1,2) p' p(2) w'(1)
        by (subst fev_timers_wake_expired.simps) simp
      have "expire_all ops st (m # us) ws = Some (ws2, ?f @ fs)"
        using p w'(1) IH(2) expire_all_keeps [OF e(5)] by simp
      moreover have "distinct (m # us)" "sorted (map (timer_ns ops st) (m # us))"
        using IH(3-5) e(4) m(3) nskeep by auto
      moreover have now: "timer_ns ops st m \<le> ns now" using True c(2) by simp
      then have "set (m # us) = {t \<in> content q. timer_ns ops st t \<le> ns now}"
        unfolding list.set(2) IH(5) e(4) nskeep using m(2) by blast
      moreover have "content q2 = {t \<in> content q. ns now < timer_ns ops st t}"
        unfolding IH(7) e(4) nskeep using now by auto
      moreover have "keeps ops (content q) st st2"
        using keeps_trans [OF e(5) IH(8)] e(4) by (simp add: Un_absorb2)
      moreover have "bo_is_expired ops st2 m = Some True" using IH(8) e(4,6) by (simp add: keeps_def)
      then have "\<forall>t\<in>set (m # us). bo_is_expired ops st2 t = Some True" using IH(9) by simp
      moreover have "fev_timers_wake_expired ops now st q ws fibers num =
          Some (st2, q2, ws2, fibers @ (?f @ fs), num + of_nat (length (?f @ fs)))"
        unfolding loop IH(1) by (simp add: add.assoc)
      ultimately show ?thesis using IH(6) by blast
    qed
  qed
qed

end

context timers_bucket begin

lemma not_null: "inv st q \<Longrightarrow> t \<in> content q \<Longrightarrow> t \<noteq> 0"
  using content_not_null by metis

lemma min_ptr_cases:
  assumes "inv st q"
  shows "content q = {} \<Longrightarrow> min_ptr ops q = 0"
    and "content q \<noteq> {} \<Longrightarrow> bo_min ops q = Some (min_ptr ops q) \<and> min_ptr ops q \<in> content q \<and> min_ptr ops q \<noteq> 0"
proof -
  show "min_ptr ops q = 0" if "content q = {}"
    using empty_iff [OF assms] that by (simp add: min_ptr_def)
  show "bo_min ops q = Some (min_ptr ops q) \<and> min_ptr ops q \<in> content q \<and> min_ptr ops q \<noteq> 0" if ne: "content q \<noteq> {}"
  proof -
    obtain m where "bo_min ops q = Some m" "m \<in> content q" using least [OF assms ne] by blast
    then show ?thesis using empty_iff [OF assms] ne not_null [OF assms] by (auto simp: min_ptr_def)
  qed
qed

lemma min_ptr_time:
  assumes "inv st q" "content q \<noteq> {}"
  shows "\<exists>ts. bo_time ops st (min_ptr ops q) = Some ts"
  using member [OF assms(1)] min_ptr_cases(2) [OF assms] by blast

lemma timers_add:
  assumes inv: "inv st (tb_queue bk)" and min: "tb_min bk = min_ptr ops (tb_queue bk)"
    and lock: "ilock_owned (tb_lock bk)"
    and t: "room (tb_queue bk)" "t \<noteq> 0" "t \<notin> content (tb_queue bk)" "bo_time ops st t = Some ts" "timespec_wf ts"
  shows "\<exists>ret st' bk' timeouts lk woken. fev_timers_add ops alloc st bk t = Some (ret, st', bk', timeouts, woken) \<and>
     fev_ilock_unlock_and_wake (tb_lock bk) = Some (lk, woken) \<and> tb_lock bk' = lk \<and>
     inv st' (tb_queue bk') \<and> tb_min bk' = min_ptr ops (tb_queue bk') \<and>
     (if ret < 0 then \<not> alloc \<and> ret = - ENOMEM \<and> st' = st \<and> tb_queue bk' = tb_queue bk \<and> timeouts = []
      else ret = 0 \<and> content (tb_queue bk') = insert t (content (tb_queue bk)) \<and>
        keeps ops (insert t (content (tb_queue bk))) st st' \<and>
        timeouts = (if tb_min bk' = t then [ts] else []))"
proof -
  obtain lk woken where u: "fev_ilock_unlock_and_wake (tb_lock bk) = Some (lk, woken)"
    using ilock_unlock_and_wake_owned [OF lock] by blast
  from add [OF inv t] consider
      (fail) "\<not> alloc" "bo_add ops alloc st (tb_queue bk) t = Some (- ENOMEM, st, tb_queue bk)"
    | (first) st' b' where "bo_add ops alloc st (tb_queue bk) t = Some (1, st', b')" "inv st' b'"
        "content b' = insert t (content (tb_queue bk))" "keeps ops (insert t (content (tb_queue bk))) st st'"
        "bo_min ops b' = Some t"
    | (later) st' b' where "bo_add ops alloc st (tb_queue bk) t = Some (0, st', b')" "inv st' b'"
        "content b' = insert t (content (tb_queue bk))" "keeps ops (insert t (content (tb_queue bk))) st st'"
        "content (tb_queue bk) \<noteq> {}" "bo_min ops b' = bo_min ops (tb_queue bk)"
    by blast
  then show ?thesis
  proof cases
    case fail
    then have "fev_timers_add ops alloc st bk t = Some (- ENOMEM, st, bk\<lparr>tb_lock := lk\<rparr>, [], woken)"
      using u by (simp add: fev_timers_add_def ENOMEM_def)
    then show ?thesis using fail(1) inv min u by (simp add: ENOMEM_def)
  next
    case first
    let ?bk = "bk\<lparr>tb_queue := b', tb_min := t, tb_lock := lk\<rparr>"
    have "fev_timers_add ops alloc st bk t = Some (0, st', ?bk, [ts], woken)"
      using first(1,4,5) u t(4) by (simp add: fev_timers_add_def keeps_def)
    moreover have "min_ptr ops b' = t" using min_ptr_cases(2) [OF first(2)] first(3,5) by simp
    ultimately show ?thesis using first u by simp
  next
    case later
    let ?bk = "bk\<lparr>tb_queue := b', tb_lock := lk\<rparr>"
    have "fev_timers_add ops alloc st bk t = Some (0, st', ?bk, [], woken)"
      using later(1) u by (simp add: fev_timers_add_def)
    moreover have "min_ptr ops b' = min_ptr ops (tb_queue bk)" "min_ptr ops b' \<noteq> t"
      using min_ptr_cases(2) [OF later(2)] min_ptr_cases(2) [OF inv later(5)] later(3,6) t(3) by auto
    ultimately show ?thesis using later min u by simp
  qed
qed

lemma timers_del:
  assumes inv: "inv st (tb_queue bk)" and min: "tb_min bk = min_ptr ops (tb_queue bk)"
    and lock: "ilock_owned (tb_lock bk)"
    and t: "t \<in> content (tb_queue bk) \<or> bo_is_expired ops st t = Some True"
  shows "\<exists>st' bk' timeouts lk woken. fev_timers_del ops st bk t = Some (st', bk', timeouts, woken) \<and>
     fev_ilock_unlock_and_wake (tb_lock bk) = Some (lk, woken) \<and> tb_lock bk' = lk \<and>
     inv st' (tb_queue bk') \<and> tb_min bk' = min_ptr ops (tb_queue bk') \<and>
     content (tb_queue bk') = content (tb_queue bk) - {t} \<and> keeps ops (content (tb_queue bk)) st st' \<and>
     timeouts = (if tb_min bk = t \<and> t \<noteq> 0 \<and> tb_min bk' \<noteq> 0 then [the (bo_time ops st (tb_min bk'))] else [])"
proof -
  obtain lk woken where u: "fev_ilock_unlock_and_wake (tb_lock bk) = Some (lk, woken)"
    using ilock_unlock_and_wake_owned [OF lock] by blast
  show ?thesis
  proof (cases "t \<in> content (tb_queue bk)")
    case False
    then have e: "bo_is_expired ops st t = Some True" using t by simp
    have "fev_timers_del ops st bk t = Some (st, bk\<lparr>tb_lock := lk\<rparr>, [], woken)"
      using e u by (simp add: fev_timers_del_def)
    moreover have "\<not> (tb_min bk = t \<and> t \<noteq> 0)"
      using False min min_ptr_cases [OF inv] by (cases "content (tb_queue bk) = {}") auto
    ultimately show ?thesis using False inv min u by simp
  next
    case True
    have e: "bo_is_expired ops st t = Some False" using member [OF inv True] by simp
    have ne: "content (tb_queue bk) \<noteq> {}" using True by blast
    note m = min_ptr_cases(2) [OF inv ne]
    obtain r st' b' where d: "bo_del ops st (tb_queue bk) t = Some (r, st', b')" "inv st' b'"
        "content b' = content (tb_queue bk) - {t}" "keeps ops (content (tb_queue bk)) st st'"
        "r = 1 \<and> bo_min ops (tb_queue bk) = Some t \<or> r = 0 \<and> content b' \<noteq> {} \<and> bo_min ops b' = bo_min ops (tb_queue bk)"
      using del [OF inv True] by blast
    show ?thesis
    proof (cases "r = 0")
      case True
      then have "content b' \<noteq> {}" "bo_min ops b' = bo_min ops (tb_queue bk)" using d(5) by auto
      then have "min_ptr ops b' = min_ptr ops (tb_queue bk)" "min_ptr ops b' \<noteq> t"
        using m min_ptr_cases(2) [OF d(2)] d(3) by auto
      moreover have "fev_timers_del ops st bk t = Some (st', bk\<lparr>tb_queue := b', tb_lock := lk\<rparr>, [], woken)"
        using True d(1) e u by (simp add: fev_timers_del_def)
      ultimately show ?thesis using d min u by simp
    next
      case False
      then have r: "r = 1" "tb_min bk = t" "t \<noteq> 0" using d(5) m min True not_null [OF inv True] by auto
      show ?thesis
      proof (cases "content b' = {}")
        case True
        then have "fev_timers_del ops st bk t = Some (st', bk\<lparr>tb_queue := b', tb_min := 0, tb_lock := lk\<rparr>, [], woken)"
          using r(1) d(1) e u empty_iff [OF d(2)] by (simp add: fev_timers_del_def)
        then show ?thesis using True d(2-4) u min_ptr_cases(1) [OF d(2)] by simp
      next
        case False
        note m' = min_ptr_cases(2) [OF d(2) False]
        obtain ts where ts: "bo_time ops st' (min_ptr ops b') = Some ts" using min_ptr_time [OF d(2) False] by blast
        have "fev_timers_del ops st bk t =
            Some (st', bk\<lparr>tb_queue := b', tb_min := min_ptr ops b', tb_lock := lk\<rparr>, [ts], woken)"
          using r(1) d(1) e u empty_iff [OF d(2)] False m' ts by (simp add: fev_timers_del_def)
        moreover have "bo_time ops st (min_ptr ops b') = Some ts" using ts d(4) by (simp add: keeps_def)
        ultimately show ?thesis using r d(2-4) u m' by simp
      qed
    qed
  qed
qed

end

lemma expire_all_length: "expire_all ops st ts ws = Some (ws', fs) \<Longrightarrow> length fs \<le> length ts"
proof (induction ts arbitrary: ws fs)
  case (Cons t ts)
  from Cons.prems obtain ws1 fs1 b where "expire_all ops st ts ws1 = Some (ws', fs1)" "length fs = b + length fs1" "b \<le> 1"
    by (auto split: bind_splits if_splits)
  then show ?case using Cons.IH by fastforce
qed simp

context timers_bucket begin

lemma timers_process:
  assumes inv: "inv st (tb_queue bk)" and lock: "ilock_owned (tb_lock bk)" and now: "timespec_wf now"
    and ok: "waiters_ok ops st (content (tb_queue bk)) ws" and few: "card (content (tb_queue bk)) < 2 ^ 32 - 1"
    and t: "t \<in> content (tb_queue bk) \<or> bo_is_expired ops st t = Some True"
  shows "\<exists>st' bk' ws' timeouts ts fs woken.
     fev_timers_process ops now st bk ws t =
       Some (t \<notin> content (tb_queue bk) \<or> timer_ns ops st t \<le> ns now, st', bk', ws', timeouts, fs @ woken) \<and>
     fev_ilock_unlock_and_wake (tb_lock bk) = Some (tb_lock bk', woken) \<and>
     expire_all ops st ts ws = Some (ws', fs) \<and> distinct ts \<and> sorted (map (timer_ns ops st) ts) \<and>
     set ts = {u \<in> content (tb_queue bk). timer_ns ops st u \<le> ns now} \<and>
     inv st' (tb_queue bk') \<and> content (tb_queue bk') = {u \<in> content (tb_queue bk). ns now < timer_ns ops st u} - {t} \<and>
     tb_min bk' = min_ptr ops (tb_queue bk') \<and>
     timeouts = (if tb_min bk' = 0 then [] else [the (bo_time ops st (tb_min bk'))])"
proof -
  let ?q = "tb_queue bk"
  obtain st1 q1 ws' fs ts where e:
      "fev_timers_wake_expired ops now st ?q ws [] 0 = Some (st1, q1, ws', fs, of_nat (length fs))"
      "expire_all ops st ts ws = Some (ws', fs)" "distinct ts" "sorted (map (timer_ns ops st) ts)"
      "set ts = {u \<in> content ?q. timer_ns ops st u \<le> ns now}" "inv st1 q1"
      "content q1 = {u \<in> content ?q. ns now < timer_ns ops st u}" "keeps ops (content ?q) st st1"
      "\<forall>u\<in>set ts. bo_is_expired ops st1 u = Some True"
    using wake_expired [OF inv now ok, of "[]" 0] by auto
  let ?exp = "t \<notin> content ?q \<or> timer_ns ops st t \<le> ns now"
  have expired: "bo_is_expired ops st1 t = Some ?exp"
  proof (cases "t \<in> content ?q")
    case True
    then show ?thesis using e(5,7,9) member [OF e(6), of t] by (cases "timer_ns ops st t \<le> ns now") auto
  next
    case False
    then show ?thesis using t e(8) by (simp add: keeps_def)
  qed
  have "\<exists>st2 q2. (if \<not> ?exp then do { (_, st, q) \<leftarrow> bo_del ops st1 q1 t; Some (st, q) } else Some (st1, q1)) = Some (st2, q2) \<and>
      inv st2 q2 \<and> content q2 = content q1 - {t} \<and> keeps ops (content q1) st1 st2"
  proof (cases ?exp)
    case True
    then have "t \<notin> content q1" using e(7) by auto
    then show ?thesis using True e(6) by simp
  next
    case False
    then have "t \<in> content q1" using e(7) by auto
    from del [OF e(6) this] show ?thesis using False by fastforce
  qed
  then obtain st2 q2 where d: "(if \<not> ?exp then do { (_, st, q) \<leftarrow> bo_del ops st1 q1 t; Some (st, q) } else Some (st1, q1)) = Some (st2, q2)"
      "inv st2 q2" "content q2 = content q1 - {t}" "keeps ops (content q1) st1 st2" by blast
  have time: "bo_time ops st2 u = bo_time ops st u" for u using e(8) d(4) by (simp add: keeps_def)
  let ?timeouts = "if min_ptr ops q2 = 0 then [] else [the (bo_time ops st (min_ptr ops q2))]"
  have m: "(if \<not> bo_empty ops q2
      then do { m \<leftarrow> bo_min ops q2; abs_time \<leftarrow> bo_time ops st2 m;
                Some (bk\<lparr>tb_min := 0, tb_queue := q2, tb_min := m\<rparr>, [abs_time]) }
      else Some (bk\<lparr>tb_min := 0, tb_queue := q2\<rparr>, [])) =
      Some (bk\<lparr>tb_queue := q2, tb_min := min_ptr ops q2\<rparr>, ?timeouts)"
  proof (cases "content q2 = {}")
    case True
    then show ?thesis using empty_iff [OF d(2)] min_ptr_cases(1) [OF d(2)] by simp
  next
    case False
    then show ?thesis using empty_iff [OF d(2)] min_ptr_cases(2) [OF d(2)] min_ptr_time [OF d(2)] time by auto
  qed
  obtain lk f where u: "fev_ilock_unlock (tb_lock bk) = Some (lk, f)"
    using ilock_unlock_owned [OF lock] by (cases "il_waiters (tb_lock bk)") auto
  let ?w = "case f of None \<Rightarrow> [] | Some g \<Rightarrow> [g]"
  have "card (set ts) \<le> card (content ?q)" unfolding e(5) by (rule card_mono [OF finite_content [OF inv]]) auto
  then have "length fs < 2 ^ 32 - 1"
    using expire_all_length [OF e(2)] distinct_card [OF e(3)] few by simp
  then have len: "length (fs @ ?w) < 2 ^ 32" by (auto split: option.splits)
  have num: "of_nat (length fs) + (case f of None \<Rightarrow> 0 | Some _ \<Rightarrow> 1) = (of_nat (length (fs @ ?w)) :: u32)"
    by (cases f) auto
  have "fev_timers_process ops now st bk ws t =
      Some (?exp, st2, bk\<lparr>tb_queue := q2, tb_min := min_ptr ops q2, tb_lock := lk\<rparr>, ws', ?timeouts, fs @ ?w)"
    using of_nat_u32_pos [OF len]
    by (simp add: fev_timers_process_def e(1) expired d(1) [simplified] m [simplified] u num [simplified])
  moreover have "fev_ilock_unlock_and_wake (tb_lock bk) = Some (lk, ?w)"
    using u by (simp add: fev_ilock_unlock_and_wake_def)
  moreover have "content q2 = {u \<in> content ?q. ns now < timer_ns ops st u} - {t}" using d(3) e(7) by simp
  ultimately show ?thesis using d(2) e(2-5)
    by - (rule exI [of _ st2], rule exI [of _ "bk\<lparr>tb_queue := q2, tb_min := min_ptr ops q2, tb_lock := lk\<rparr>"],
        rule exI [of _ ws'], rule exI [of _ ?timeouts], rule exI [of _ ts], rule exI [of _ fs], rule exI [of _ ?w],
        simp)
qed

end

section \<open>The binary heap provides it\<close>

definition binheap_ops :: "(timer_store, binheap_bucket) bucket_ops" where
  "binheap_ops =
     \<lparr>bo_add = fev_timers_bucket_add, bo_del = fev_timers_bucket_del, bo_del_min = fev_timers_bucket_del_min,
      bo_min = fev_timers_bucket_min, bo_empty = fev_timers_bucket_empty,
      bo_is_expired = fev_timer_is_expired, bo_set_expired = fev_timer_set_expired,
      bo_time = (\<lambda>st t. map_option t_abs_time (st t)), bo_waiter = (\<lambda>st t. map_option t_waiter (st t))\<rparr>"

lemma binheap_ops_simps [simp]:
  "bo_add binheap_ops = fev_timers_bucket_add" "bo_del binheap_ops = fev_timers_bucket_del"
  "bo_del_min binheap_ops = fev_timers_bucket_del_min" "bo_min binheap_ops = fev_timers_bucket_min"
  "bo_empty binheap_ops = fev_timers_bucket_empty" "bo_is_expired binheap_ops = fev_timer_is_expired"
  "bo_set_expired binheap_ops = fev_timer_set_expired"
  "bo_time binheap_ops st t = map_option t_abs_time (st t)"
  "bo_waiter binheap_ops st t = map_option t_waiter (st t)"
  by (simp_all add: binheap_ops_def)

lemma binheap_ns [simp]: "timer_ns binheap_ops = key"
  by (auto simp: fun_eq_iff timer_ns_def key_def split: option.splits)

lemma same_times_keeps:
  assumes "same_times A st st'"
  shows "keeps binheap_ops A st st'"
proof -
  have "map_option t_abs_time (st' t) = map_option t_abs_time (st t) \<and>
      map_option t_waiter (st' t) = map_option t_waiter (st t)" for t
    using same_times_at [OF assms, of t] by (cases "st t") auto
  moreover have "fev_timer_is_expired st' t = fev_timer_is_expired st t" if "t \<notin> A" for t
  proof -
    have "st' t = st t" using assms that unfolding same_times_def by blast
    then show ?thesis by (simp add: fev_timer_is_expired_def)
  qed
  ultimately show ?thesis by (simp add: keeps_def)
qed

lemma bucket_inv_frame:
  assumes inv: "bucket_inv st b" and st: "st t = Some tm" and t: "t \<notin> set (timers_of b)"
  shows "bucket_inv (st(t \<mapsto> tm\<lparr>t_index := i\<rparr>)) b"
proof -
  let ?st = "st(t \<mapsto> tm\<lparr>t_index := i\<rparr>)"
  have rep: "heap_rep st (b_heap b) (b_len b) (b_len b) (timers_of b)" using inv by (simp add: bucket_inv_def)
  have "timers_of b ! j \<noteq> t" if "j < b_len b" for j using that t bucket_inv_len [OF inv] by (metis nth_mem)
  then have "heap_rep ?st (b_heap b) (b_len b) (b_len b) (timers_of b)" using rep by (simp add: heap_rep_def)
  moreover have "key ?st = key st" using st by (auto simp: key_def fun_eq_iff)
  ultimately show ?thesis using inv by (simp add: bucket_inv_def)
qed

lemma binheap_add_law:
  assumes "bucket_inv st b" "2 * b_capacity b \<le> SIZE_MAX div 8" "t \<noteq> 0" "t \<notin> set (timers_of b)"
    "st t = Some tm" "timespec_wf (t_abs_time tm)"
  shows "(\<not> alloc \<and> fev_timers_bucket_add alloc st b t = Some (- ENOMEM, st, b)) \<or>
      (\<exists>r st' b'. fev_timers_bucket_add alloc st b t = Some (r, st', b') \<and> bucket_inv st' b' \<and>
         set (timers_of b') = insert t (set (timers_of b)) \<and> keeps binheap_ops (insert t (set (timers_of b))) st st' \<and>
         (r = 1 \<and> fev_timers_bucket_min b' = Some t \<or>
          r = 0 \<and> set (timers_of b) \<noteq> {} \<and> fev_timers_bucket_min b' = fev_timers_bucket_min b))"
proof (cases "b_len b = b_capacity b \<and> \<not> alloc")
  case True
  then show ?thesis using bucket_add_refines [where st = st, OF assms, of alloc] by simp
next
  case False
  obtain st' b' where r: "fev_timers_bucket_add alloc st b t = Some (if timers_of b' ! 0 = t then 1 else 0, st', b')"
      "bucket_inv st' b'" "mset (timers_of b') = add_mset t (mset (timers_of b))"
      "timers_of b' ! 0 \<noteq> t \<longrightarrow> timers_of b \<noteq> [] \<and> timers_of b' ! 0 = timers_of b ! 0"
      "same_times (insert t (set (timers_of b))) st st'"
    using bucket_add_refines [where st = st, OF assms, of alloc] False by auto
  have set': "set (timers_of b') = insert t (set (timers_of b))"
    using r(3) by (metis set_mset_add_mset_insert set_mset_mset)
  have "fev_timers_bucket_min b' = Some (timers_of b' ! 0)" using bucket_min_refines [OF r(2)] set' by simp
  moreover have "fev_timers_bucket_min b = Some (timers_of b ! 0)" if "timers_of b \<noteq> []"
    using bucket_min_refines [OF assms(1)] that by simp
  ultimately show ?thesis using r set' same_times_keeps [OF r(5)] by (cases "timers_of b' ! 0 = t") auto
qed

lemma binheap_removed:
  assumes "bucket_inv st b" "mset (timers_of b') = mset (timers_of b) - {#t#}"
  shows "set (timers_of b') = set (timers_of b) - {t}"
proof -
  have "distinct (timers_of b)" using assms(1) heap_rep_distinct unfolding bucket_inv_def by blast
  then have "mset (timers_of b) - {#t#} = mset (remove1 t (timers_of b))" "set (remove1 t (timers_of b)) = set (timers_of b) - {t}"
    by simp_all
  then show ?thesis using assms(2) by (metis set_mset_mset)
qed

lemma binheap_del_law:
  assumes "bucket_inv st b" "t \<in> set (timers_of b)"
  shows "\<exists>r st' b'. fev_timers_bucket_del st b t = Some (r, st', b') \<and> bucket_inv st' b' \<and>
     set (timers_of b') = set (timers_of b) - {t} \<and> keeps binheap_ops (set (timers_of b)) st st' \<and>
     (r = 1 \<and> fev_timers_bucket_min b = Some t \<or>
      r = 0 \<and> set (timers_of b') \<noteq> {} \<and> fev_timers_bucket_min b' = fev_timers_bucket_min b)"
proof -
  obtain st' b' where r: "fev_timers_bucket_del st b t = Some (if timers_of b ! 0 = t then 1 else 0, st', b')"
      "bucket_inv st' b'" "mset (timers_of b') = mset (timers_of b) - {#t#}" "same_times (set (timers_of b)) st st'"
      "timers_of b ! 0 \<noteq> t \<longrightarrow> timers_of b' \<noteq> [] \<and> timers_of b' ! 0 = timers_of b ! 0"
    using bucket_del_refines [OF assms] by auto
  have "fev_timers_bucket_min b = Some (timers_of b ! 0)" using bucket_min_refines [OF assms(1)] assms(2) by force
  moreover have "fev_timers_bucket_min b' = Some (timers_of b' ! 0)" if "timers_of b' \<noteq> []"
    using bucket_min_refines [OF r(2)] that by simp
  ultimately show ?thesis
    using r binheap_removed [OF assms(1) r(3)] same_times_keeps [OF r(4)] by (cases "timers_of b ! 0 = t") auto
qed

interpretation bh: timers_bucket binheap_ops bucket_inv "\<lambda>b. set (timers_of b)" "\<lambda>b. 2 * b_capacity b \<le> SIZE_MAX div 8"
proof (unfold_locales, goal_cases)
  case (1 st b)
  show ?case by simp
next
  case (2 st b)
  then show ?case by (simp add: bucket_inv_def)
next
  case (3 st b)
  then show ?case by (simp add: bucket_inv_empty)
next
  case (4 st b t)
  obtain tm where "st t = Some tm" "t_index tm \<noteq> SIZE_MAX" "timespec_wf (t_abs_time tm)"
    using bucket_index [OF 4] by auto
  then show ?case by (simp add: fev_timer_is_expired_def)
next
  case (5 st b)
  then show ?case using bucket_min_refines [OF 5] by auto
next
  case (6 st b t ts alloc)
  then obtain tm where "st t = Some tm" "t_abs_time tm = ts" by auto
  then show ?case using binheap_add_law [of st b t tm alloc] 6 by simp
next
  case (7 st b t)
  then show ?case using binheap_del_law [OF 7] by simp
next
  case (8 st b m)
  obtain st' b' where r: "fev_timers_bucket_del_min st b = Some (st', b')" "bucket_inv st' b'"
      "mset (timers_of b') = mset (timers_of b) - {#timers_of b ! 0#}" "same_times (set (timers_of b)) st st'"
    using bucket_del_min_refines [OF 8(1,2)] by auto
  have "m = timers_of b ! 0" using bucket_min_refines [OF 8(1,2)] 8(3) by simp
  then show ?case using r binheap_removed [OF 8(1) r(3)] same_times_keeps [OF r(4)] by simp
next
  case (9 st b t ts)
  then obtain tm where tm: "st t = Some tm" by auto
  let ?st = "st(t \<mapsto> tm\<lparr>t_index := SIZE_MAX\<rparr>)"
  have "set_index st t SIZE_MAX = Some ?st" "same_times {t} st ?st"
    using set_index_same_times [where st = st, OF tm, of "{t}" SIZE_MAX] by simp_all
  then show ?case using bucket_inv_frame [where st = st, OF 9(1) tm 9(2), of SIZE_MAX] same_times_keeps [of "{t}" st ?st]
    by (simp add: fev_timer_set_expired_def fev_timer_is_expired_def)
qed

section \<open>What the timers promise\<close>

text \<open>
  C29. \<open>fev_timers_wake_expired\<close> ends, and expires exactly the timers of the bucket whose time is not after
  the clock reading: in the order of their times, each removed from the heap and marked, its waiter woken
  with \<open>FEV_WAITER_TIMED_OUT_NO_CHECK\<close> (\<open>expire_all\<close>), and exactly the fibers that became runnable by
  this are returned and counted. The remaining bucket is a valid heap of the later timers.
\<close>

theorem fev_timers_wake_expired_exact:
  assumes "bucket_inv st q" "timespec_wf now" "waiters_ok binheap_ops st (set (timers_of q)) ws"
  shows "\<exists>st' q' ws' fs ts.
     fev_timers_wake_expired binheap_ops now st q ws [] 0 = Some (st', q', ws', fs, of_nat (length fs)) \<and>
     expire_all binheap_ops st ts ws = Some (ws', fs) \<and> distinct ts \<and> sorted (map (key st) ts) \<and>
     set ts = {t \<in> set (timers_of q). key st t \<le> ns now} \<and>
     bucket_inv st' q' \<and> set (timers_of q') = {t \<in> set (timers_of q). ns now < key st t} \<and>
     (\<forall>t\<in>set ts. fev_timer_is_expired st' t = Some True)"
proof -
  from bh.wake_expired [OF assms, of "[]" 0] obtain st' q' ws' fs ts where r:
      "fev_timers_wake_expired binheap_ops now st q ws [] 0 = Some (st', q', ws', [] @ fs, 0 + of_nat (length fs))"
      "expire_all binheap_ops st ts ws = Some (ws', fs)" "distinct ts" "sorted (map (key st) ts)"
      "set ts = {t \<in> set (timers_of q). key st t \<le> ns now}" "bucket_inv st' q'"
      "set (timers_of q') = {t \<in> set (timers_of q). ns now < key st t}"
      "\<forall>t\<in>set ts. fev_timer_is_expired st' t = Some True"
    unfolding binheap_ns binheap_ops_simps by blast
  from r(1) have "fev_timers_wake_expired binheap_ops now st q ws [] 0 = Some (st', q', ws', fs, of_nat (length fs))" by simp
  then show ?thesis using r(2-8) by blast
qed

text \<open>
  \<open>fev_timers_add\<close>: with the bucket's lock held, a valid heap and \<open>bucket->min\<close> at its minimum, the
  new timer joins the heap, \<open>bucket->min\<close> is the minimum again, the poller's time-out is set to the new
  timer's time exactly when the timer is the new minimum, and the lock is handed on. When the heap
  cannot grow the result is \<open>-ENOMEM\<close> and nothing else changed.
\<close>

theorem fev_timers_add_correct:
  assumes "bucket_inv st (tb_queue bk)" and "tb_min bk = min_ptr binheap_ops (tb_queue bk)"
    and "ilock_owned (tb_lock bk)" and "2 * b_capacity (tb_queue bk) \<le> SIZE_MAX div 8"
    and "t \<noteq> 0" "t \<notin> set (timers_of (tb_queue bk))" "st t = Some tm" "timespec_wf (t_abs_time tm)"
  shows "\<exists>ret st' bk' timeouts woken. fev_timers_add binheap_ops alloc st bk t = Some (ret, st', bk', timeouts, woken) \<and>
     fev_ilock_unlock_and_wake (tb_lock bk) = Some (tb_lock bk', woken) \<and>
     bucket_inv st' (tb_queue bk') \<and> tb_min bk' = min_ptr binheap_ops (tb_queue bk') \<and>
     (if ret < 0 then \<not> alloc \<and> ret = - ENOMEM \<and> st' = st \<and> tb_queue bk' = tb_queue bk \<and> timeouts = []
      else ret = 0 \<and> set (timers_of (tb_queue bk')) = insert t (set (timers_of (tb_queue bk))) \<and>
        key st' = key st \<and> timeouts = (if tb_min bk' = t then [t_abs_time tm] else []))"
proof -
  have "bo_time binheap_ops st t = Some (t_abs_time tm)" using assms(7) by simp
  from bh.timers_add [where alloc = alloc, OF assms(1-6) this assms(8)] show ?thesis
    using keeps_ns by fastforce
qed

text \<open>
  \<open>fev_timed_wait\<close> after the wait, for every reason: whatever happened to the bucket meanwhile, as long
  as it is a valid heap, the timer is either in it or marked expired (and it is expired if the reason is
  \<open>FEV_WAITER_TIMED_OUT_NO_CHECK\<close>), the call returns with the timer in neither the heap nor
  \<open>bucket->min\<close>, so that the timer on the fiber's stack can go away, with \<open>bucket->min\<close> at the new
  minimum; the value is 0 for \<open>FEV_WAITER_READY\<close>, and otherwise \<open>-ETIMEDOUT\<close> if the time has passed
  and \<open>-EAGAIN\<close> for a wake-up that came too early.
\<close>

theorem fev_timed_wait_end_correct:
  assumes "bucket_inv st (tb_queue bk)" and "tb_min bk = min_ptr binheap_ops (tb_queue bk)"
    and "ilock_owned (tb_lock bk)" and "timespec_wf now"
    and "waiters_ok binheap_ops st (set (timers_of (tb_queue bk))) ws" and "b_len (tb_queue bk) < 2 ^ 32 - 1"
    and "t \<noteq> 0"
    and "t \<in> set (timers_of (tb_queue bk)) \<and> reason \<noteq> FEV_WAITER_TIMED_OUT_NO_CHECK \<or>
         t \<notin> set (timers_of (tb_queue bk)) \<and> fev_timer_is_expired st t = Some True"
    and "reason = FEV_WAITER_READY \<or> reason = FEV_WAITER_TIMED_OUT_CHECK \<or> reason = FEV_WAITER_TIMED_OUT_NO_CHECK"
  shows "\<exists>ret st' bk' ws' timeouts woken.
     fev_timed_wait_end binheap_ops reason now st bk ws t = Some (ret, st', bk', ws', timeouts, woken) \<and>
     t \<notin> set (timers_of (tb_queue bk')) \<and> tb_min bk' \<noteq> t \<and>
     bucket_inv st' (tb_queue bk') \<and> tb_min bk' = min_ptr binheap_ops (tb_queue bk') \<and>
     ret = (if reason = FEV_WAITER_READY then 0
            else if t \<in> set (timers_of (tb_queue bk)) \<and> ns now < key st t then - EAGAIN else - ETIMEDOUT)"
proof -
  let ?q = "tb_queue bk"
  have t: "t \<in> set (timers_of ?q) \<or> bo_is_expired binheap_ops st t = Some True" using assms(8) by auto
  have not_min: "tb_min bk' \<noteq> t" if "bucket_inv st' (tb_queue bk')" "tb_min bk' = min_ptr binheap_ops (tb_queue bk')"
      "t \<notin> set (timers_of (tb_queue bk'))" for st' and bk' :: "binheap_bucket timers_bucket"
    using bh.min_ptr_cases [OF that(1)] that(2,3) assms(7) by (cases "set (timers_of (tb_queue bk')) = {}") auto
  consider "reason = FEV_WAITER_READY" | "reason = FEV_WAITER_TIMED_OUT_CHECK" | "reason = FEV_WAITER_TIMED_OUT_NO_CHECK"
    using assms(9) by blast
  then show ?thesis
  proof cases
    case 1
    from bh.timers_del [OF assms(1-3) t] obtain st' bk' timeouts woken where
        "fev_timers_del binheap_ops st bk t = Some (st', bk', timeouts, woken)" "bucket_inv st' (tb_queue bk')"
        "tb_min bk' = min_ptr binheap_ops (tb_queue bk')" "set (timers_of (tb_queue bk')) = set (timers_of ?q) - {t}"
      by blast
    then show ?thesis using 1 not_min [of st' bk'] by (simp add: fev_timed_wait_end_def reason_defs)
  next
    case 2
    have "card (set (timers_of ?q)) < 2 ^ 32 - 1"
      using assms(6) bucket_inv_len [OF assms(1)] card_length [of "timers_of ?q"] by simp
    from bh.timers_process [OF assms(1,3,4,5) this t] obtain st' bk' ws' timeouts fs woken where
        "fev_timers_process binheap_ops now st bk ws t =
           Some (t \<notin> set (timers_of ?q) \<or> key st t \<le> ns now, st', bk', ws', timeouts, fs @ woken)"
        "bucket_inv st' (tb_queue bk')" "tb_min bk' = min_ptr binheap_ops (tb_queue bk')"
        "set (timers_of (tb_queue bk')) = {u \<in> set (timers_of ?q). ns now < key st u} - {t}"
      by auto
    then show ?thesis using 2 not_min [of st' bk'] by (auto simp: fev_timed_wait_end_def reason_defs)
  next
    case 3
    then have "t \<notin> set (timers_of ?q)" using assms(8) by blast
    then show ?thesis using 3 assms(1,2) not_min [of st bk] by (simp add: fev_timed_wait_end_def reason_defs)
  qed
qed

text \<open>
  \<open>fev_timers_process\<close>: the fibers it wakes are exactly those whose waiters it woke, in the order of
  their timers, followed by the fiber that was waiting for the bucket's lock; the heap keeps the timers
  that are still to come, without the caller's; and if a timer is left, the poller's time-out is set to
  the earliest of them.
\<close>

theorem fev_timers_process_correct:
  assumes "bucket_inv st (tb_queue bk)" and "ilock_owned (tb_lock bk)" and "timespec_wf now"
    and "waiters_ok binheap_ops st (set (timers_of (tb_queue bk))) ws" and "b_len (tb_queue bk) < 2 ^ 32 - 1"
    and "t \<in> set (timers_of (tb_queue bk))"
  shows "\<exists>st' bk' ws' timeouts ts fs woken.
     fev_timers_process binheap_ops now st bk ws t = Some (key st t \<le> ns now, st', bk', ws', timeouts, fs @ woken) \<and>
     fev_ilock_unlock_and_wake (tb_lock bk) = Some (tb_lock bk', woken) \<and>
     expire_all binheap_ops st ts ws = Some (ws', fs) \<and> sorted (map (key st) ts) \<and>
     set ts = {u \<in> set (timers_of (tb_queue bk)). key st u \<le> ns now} \<and>
     bucket_inv st' (tb_queue bk') \<and>
     set (timers_of (tb_queue bk')) = {u \<in> set (timers_of (tb_queue bk)). ns now < key st u} - {t} \<and>
     timeouts = (if set (timers_of (tb_queue bk')) = {} then []
                 else [the (map_option t_abs_time (st (min_ptr binheap_ops (tb_queue bk'))))])"
proof -
  let ?q = "tb_queue bk"
  have card: "card (set (timers_of ?q)) < 2 ^ 32 - 1"
    using assms(5) bucket_inv_len [OF assms(1)] card_length [of "timers_of ?q"] by simp
  have t: "t \<in> set (timers_of ?q) \<or> bo_is_expired binheap_ops st t = Some True" using assms(6) by simp
  from bh.timers_process [OF assms(1-4) card t] obtain st' bk' ws' timeouts ts fs woken where p:
      "fev_timers_process binheap_ops now st bk ws t = Some (key st t \<le> ns now, st', bk', ws', timeouts, fs @ woken)"
      "fev_ilock_unlock_and_wake (tb_lock bk) = Some (tb_lock bk', woken)"
      "expire_all binheap_ops st ts ws = Some (ws', fs)" "sorted (map (key st) ts)"
      "set ts = {u \<in> set (timers_of ?q). key st u \<le> ns now}" "bucket_inv st' (tb_queue bk')"
      "set (timers_of (tb_queue bk')) = {u \<in> set (timers_of ?q). ns now < key st u} - {t}"
      "tb_min bk' = min_ptr binheap_ops (tb_queue bk')"
      "timeouts = (if tb_min bk' = 0 then [] else [the (bo_time binheap_ops st (tb_min bk'))])"
    using assms(6) by auto
  have "tb_min bk' = 0 \<longleftrightarrow> set (timers_of (tb_queue bk')) = {}"
    using bh.min_ptr_cases [OF p(6)] p(8) by metis
  then have "timeouts = (if set (timers_of (tb_queue bk')) = {} then []
      else [the (map_option t_abs_time (st (min_ptr binheap_ops (tb_queue bk'))))])"
    using p(8,9) by simp
  then show ?thesis using p(1-7) by blast
qed

text \<open>\<open>fev_timers_init\<close> is all or nothing: it initialises all buckets, or returns the first error with none left initialised.\<close>

theorem fev_timers_init_all_or_nothing:
  "(\<forall>i<FEV_TIMERS_BUCKETS. rets i = 0) \<and> fev_timers_init rets = (0, [0..<FEV_TIMERS_BUCKETS]) \<or>
   (\<exists>i<FEV_TIMERS_BUCKETS. rets i \<noteq> 0 \<and> (\<forall>j<i. rets j = 0) \<and> fev_timers_init rets = (rets i, []))"
proof (cases "\<forall>i<FEV_TIMERS_BUCKETS. rets i = 0")
  case True
  then show ?thesis using timers_init_loop_ok [of 0 rets] by (simp add: fev_timers_init_def)
next
  case False
  then obtain k where k: "k < FEV_TIMERS_BUCKETS" "rets k \<noteq> 0" by blast
  obtain i where i: "rets i \<noteq> 0" "\<And>j. j < i \<Longrightarrow> rets j = 0"
    using exists_least_iff [of "\<lambda>i. rets i \<noteq> 0"] k(2) by blast
  have "i < FEV_TIMERS_BUCKETS"
  proof (rule ccontr)
    assume "\<not> i < FEV_TIMERS_BUCKETS"
    then show False using i(2) [of k] k by simp
  qed
  moreover have "timers_init_loop rets 0 [0..<0] = (rets i, [])"
    by (rule timers_init_loop_fails) (use i calculation in auto)
  ultimately show ?thesis using i by (auto simp: fev_timers_init_def)
qed

text \<open>The bucket chosen for a waiter is always one of the \<open>FEV_TIMERS_BUCKETS\<close> buckets, whatever its address.\<close>

theorem fev_timers_find_bucket_in_range:
  assumes "length buckets = FEV_TIMERS_BUCKETS"
  shows "\<exists>i<FEV_TIMERS_BUCKETS. fev_timers_find_bucket buckets waiter = Some (buckets ! i)"
proof -
  have "fev_timers_hash waiter AND FEV_TIMERS_BUCKET_MASK = take_bit 6 (fev_timers_hash waiter)"
    by (simp add: FEV_TIMERS_BUCKET_MASK_def FEV_TIMERS_BUCKETS_def take_bit_eq_mask mask_eq_exp_minus_1)
  moreover have "unat (take_bit 6 (fev_timers_hash waiter)) < 2 ^ 6"
    unfolding unsigned_take_bit_eq by (rule take_bit_nat_less_exp)
  ultimately have "unat (fev_timers_hash waiter AND FEV_TIMERS_BUCKET_MASK) < 64" by simp
  then show ?thesis using assms
    by (simp add: fev_timers_find_bucket_def FEV_TIMERS_BUCKETS_def Let_def) blast
qed

section \<open>Witnesses\<close>

text \<open>A bucket with a timer due at 3 s and one due at 5 s, and a third timer that is not in it.\<close>

definition two_timers :: timer_store where
  "two_timers =
     [16 \<mapsto> \<lparr>t_abs_time = \<lparr>tv_sec = 3, tv_nsec = 0\<rparr>, t_index = 0, t_waiter = 100\<rparr>,
      8 \<mapsto> \<lparr>t_abs_time = \<lparr>tv_sec = 5, tv_nsec = 0\<rparr>, t_index = 1, t_waiter = 200\<rparr>,
      24 \<mapsto> \<lparr>t_abs_time = \<lparr>tv_sec = 1, tv_nsec = 7\<rparr>, t_index = 0, t_waiter = 300\<rparr>]"

definition two_heap :: binheap_bucket where
  "two_heap = \<lparr>b_heap = [Some 16, Some 8], b_len = 2, b_capacity = 2\<rparr>"

definition two_bucket :: "binheap_bucket timers_bucket" where
  "two_bucket = \<lparr>tb_lock = \<lparr>il_state = 2, il_waiters = [77]\<rparr>, tb_queue = two_heap, tb_min = 16\<rparr>"

definition two_waiters :: waiter_store where
  "two_waiters =
     (\<lambda>p. Some \<lparr>w_reason = 0, w_do_wake = 1, w_wake_reason = 0, w_wait_for_post = 0, w_wait_for_wake = 1, w_fiber = p + 1\<rparr>)"

lemma two_timers_of: "timers_of two_heap = [16, 8]"
  by (simp add: timers_of_def two_heap_def)

lemma two_inv: "bucket_inv two_timers two_heap"
proof -
  have "heap_rep two_timers (b_heap two_heap) (b_len two_heap) (b_len two_heap) [16, 8]"
    by (simp add: heap_rep_def two_heap_def two_timers_def less_Suc_eq numeral_2_eq_2 timespec_wf_def timespec_valid_def
        LONG_MAX_def FEV_NSECS_PER_SEC_def)
  moreover have "heap_ordered (key two_timers) [16, 8]"
    by (auto simp: heap_ordered_def key_def two_timers_def less_Suc_eq parent_def ns_def FEV_NSECS_PER_SEC_def)
  moreover have "b_capacity two_heap \<le> SIZE_MAX div 8" by (simp add: two_heap_def SIZE_MAX_def)
  ultimately show ?thesis by (simp add: bucket_inv_def two_timers_of) (simp add: two_heap_def)
qed

lemma two_facts:
  "tb_queue two_bucket = two_heap" "ilock_owned (tb_lock two_bucket)"
  "tb_min two_bucket = min_ptr binheap_ops (tb_queue two_bucket)"
  "timespec_wf \<lparr>tv_sec = 4, tv_nsec = 0\<rparr>"
  "waiters_ok binheap_ops two_timers (set (timers_of two_heap)) two_waiters"
  "b_len two_heap < 2 ^ 32 - 1" "2 * b_capacity two_heap \<le> SIZE_MAX div 8"
  by (simp_all add: two_bucket_def two_heap_def ilock_owned_def min_ptr_def fev_timers_bucket_min_def
      fev_timers_bucket_empty_def waiters_ok_def timers_of_def two_timers_def two_waiters_def reason_defs SIZE_MAX_def
      timespec_wf_def timespec_valid_def fits_long_def LONG_MAX_def FEV_NSECS_PER_SEC_def)

theorem fev_timers_wake_expired_exact_witness:
  "\<exists>st' q' ws' fs ts.
     fev_timers_wake_expired binheap_ops \<lparr>tv_sec = 4, tv_nsec = 0\<rparr> two_timers two_heap two_waiters [] 0 =
       Some (st', q', ws', fs, of_nat (length fs)) \<and>
     set ts = {t \<in> {16, 8}. key two_timers t \<le> ns \<lparr>tv_sec = 4, tv_nsec = 0\<rparr>} \<and> bucket_inv st' q'"
  using fev_timers_wake_expired_exact [OF two_inv two_facts(4,5)] unfolding two_timers_of by auto

theorem fev_timers_add_correct_witness:
  "\<exists>ret st' bk' timeouts woken. fev_timers_add binheap_ops True two_timers two_bucket 24 = Some (ret, st', bk', timeouts, woken) \<and>
     ret = 0 \<and> set (timers_of (tb_queue bk')) = {24, 16, 8} \<and> bucket_inv st' (tb_queue bk')"
proof -
  have t: "(24 :: nat) \<noteq> 0" "24 \<notin> set (timers_of (tb_queue two_bucket))"
    "two_timers 24 = Some \<lparr>t_abs_time = \<lparr>tv_sec = 1, tv_nsec = 7\<rparr>, t_index = 0, t_waiter = 300\<rparr>"
    "timespec_wf (t_abs_time \<lparr>t_abs_time = \<lparr>tv_sec = 1, tv_nsec = 7\<rparr>, t_index = 0, t_waiter = 300\<rparr>)"
    by (simp_all add: two_facts two_timers_of two_timers_def timespec_wf_def timespec_valid_def LONG_MAX_def
        FEV_NSECS_PER_SEC_def)
  have inv: "bucket_inv two_timers (tb_queue two_bucket)" using two_inv by (simp add: two_facts)
  have room: "2 * b_capacity (tb_queue two_bucket) \<le> SIZE_MAX div 8" using two_facts(7) by (simp add: two_facts)
  from fev_timers_add_correct [where alloc = True, OF inv two_facts(3,2) room t] show ?thesis
    unfolding two_facts(1) two_timers_of by (auto split: if_splits)
qed

theorem fev_timers_process_correct_witness:
  "\<exists>st' bk' ws' timeouts fs woken.
     fev_timers_process binheap_ops \<lparr>tv_sec = 4, tv_nsec = 0\<rparr> two_timers two_bucket two_waiters 16 =
       Some (True, st', bk', ws', timeouts, fs @ woken) \<and> set (timers_of (tb_queue bk')) = {8}"
proof -
  have *: "bucket_inv two_timers (tb_queue two_bucket)" "waiters_ok binheap_ops two_timers (set (timers_of (tb_queue two_bucket))) two_waiters"
      "b_len (tb_queue two_bucket) < 2 ^ 32 - 1" "16 \<in> set (timers_of (tb_queue two_bucket))"
    using two_inv two_facts(5,6) by (simp_all add: two_facts(1) two_timers_of)
  have k: "key two_timers 16 \<le> ns \<lparr>tv_sec = 4, tv_nsec = 0\<rparr>" "ns \<lparr>tv_sec = 4, tv_nsec = 0\<rparr> < key two_timers 8"
    by (simp_all add: key_def two_timers_def ns_def FEV_NSECS_PER_SEC_def)
  have "{u \<in> set [16, 8]. ns \<lparr>tv_sec = 4, tv_nsec = 0\<rparr> < key two_timers u} - {16} = {8}" using k by auto
  with fev_timers_process_correct [OF *(1) two_facts(2,4) *(2,3,4)] k(1) show ?thesis
    unfolding two_facts(1) two_timers_of by simp blast
qed

theorem fev_timed_wait_end_correct_witness:
  "\<exists>ret st' bk' ws' timeouts woken.
     fev_timed_wait_end binheap_ops FEV_WAITER_TIMED_OUT_CHECK \<lparr>tv_sec = 4, tv_nsec = 0\<rparr> two_timers two_bucket two_waiters 8 =
       Some (ret, st', bk', ws', timeouts, woken) \<and> 8 \<notin> set (timers_of (tb_queue bk')) \<and> tb_min bk' \<noteq> 8 \<and> ret = - EAGAIN"
proof -
  have *: "bucket_inv two_timers (tb_queue two_bucket)" "waiters_ok binheap_ops two_timers (set (timers_of (tb_queue two_bucket))) two_waiters"
      "b_len (tb_queue two_bucket) < 2 ^ 32 - 1"
    using two_inv two_facts(5,6) by (simp_all add: two_facts(1))
  have t: "(8 :: nat) \<noteq> 0" "8 \<in> set (timers_of (tb_queue two_bucket)) \<and> FEV_WAITER_TIMED_OUT_CHECK \<noteq> FEV_WAITER_TIMED_OUT_NO_CHECK \<or>
         8 \<notin> set (timers_of (tb_queue two_bucket)) \<and> fev_timer_is_expired two_timers 8 = Some True"
      "FEV_WAITER_TIMED_OUT_CHECK = FEV_WAITER_READY \<or> FEV_WAITER_TIMED_OUT_CHECK = FEV_WAITER_TIMED_OUT_CHECK \<or>
         FEV_WAITER_TIMED_OUT_CHECK = FEV_WAITER_TIMED_OUT_NO_CHECK"
    by (simp_all add: two_facts(1) two_timers_of reason_defs)
  have k: "ns \<lparr>tv_sec = 4, tv_nsec = 0\<rparr> < key two_timers 8" "FEV_WAITER_TIMED_OUT_CHECK \<noteq> FEV_WAITER_READY"
    by (simp_all add: key_def two_timers_def ns_def FEV_NSECS_PER_SEC_def reason_defs)
  from fev_timed_wait_end_correct [OF *(1) two_facts(3,2,4) *(2,3) t] k show ?thesis
    unfolding two_facts(1) two_timers_of by auto
qed

theorem fev_timers_init_all_or_nothing_witness: "fev_timers_init (\<lambda>i. if i = 2 then - ENOMEM else 0) = (- ENOMEM, [])"
  using fev_timers_init_all_or_nothing [of "\<lambda>i. if i = 2 then - ENOMEM else 0"]
  by (auto simp: ENOMEM_def FEV_TIMERS_BUCKETS_def split: if_splits)

theorem fev_timers_find_bucket_in_range_witness:
  "\<exists>i<FEV_TIMERS_BUCKETS. fev_timers_find_bucket (replicate FEV_TIMERS_BUCKETS two_bucket) 0x7fff12345678 =
     Some (replicate FEV_TIMERS_BUCKETS two_bucket ! i)"
  using fev_timers_find_bucket_in_range [of "replicate FEV_TIMERS_BUCKETS two_bucket" "0x7fff12345678"] by simp

section \<open>The heap operations\<close>

text \<open>
  \<open>fev_timers_bucket_add\<close> on a valid heap: the result is a valid heap (ordered by time, every timer's
  \<open>index\<close> its position, within the capacity) with exactly the new timer added, no time or waiter changed,
  and the value 1 exactly when the new timer is at the root; if the array is full and cannot grow, it is
  \<open>-ENOMEM\<close> with nothing changed.
\<close>

theorem fev_timers_bucket_add_correct:
  assumes "bucket_inv st b" and "2 * b_capacity b \<le> SIZE_MAX div 8"
    and "t \<noteq> 0" "t \<notin> set (timers_of b)" "st t = Some tm" "timespec_wf (t_abs_time tm)"
  shows "if b_len b = b_capacity b \<and> \<not> alloc then fev_timers_bucket_add alloc st b t = Some (- ENOMEM, st, b)
     else \<exists>st' b'. fev_timers_bucket_add alloc st b t = Some (if timers_of b' ! 0 = t then 1 else 0, st', b') \<and>
       bucket_inv st' b' \<and> mset (timers_of b') = add_mset t (mset (timers_of b)) \<and>
       same_times (insert t (set (timers_of b))) st st'"
  using bucket_add_refines [where st = st, OF assms, of alloc] by (auto split: if_splits)

text \<open>
  C30. \<open>fev_timers_bucket_del\<close> of any timer of a valid heap, not only the root: the sift-down and the
  sift-up that follows it together restore the heap without that timer, keep every other timer's recorded
  index at its position, and report 1 exactly when the root was removed.
\<close>

theorem fev_timers_bucket_del_correct:
  assumes "bucket_inv st b" "t \<in> set (timers_of b)"
  shows "\<exists>st' b'. fev_timers_bucket_del st b t = Some (if timers_of b ! 0 = t then 1 else 0, st', b') \<and>
     bucket_inv st' b' \<and> mset (timers_of b') = mset (timers_of b) - {#t#} \<and> same_times (set (timers_of b)) st st'"
  using bucket_del_refines [OF assms] by auto

theorem fev_timers_bucket_add_correct_witness:
  "\<exists>r st' b'. fev_timers_bucket_add True two_timers two_heap 24 = Some (r, st', b') \<and>
     bucket_inv st' b' \<and> mset (timers_of b') = {#24, 16, 8#}"
proof -
  have t: "(24 :: nat) \<noteq> 0" "24 \<notin> set (timers_of two_heap)"
    "two_timers 24 = Some \<lparr>t_abs_time = \<lparr>tv_sec = 1, tv_nsec = 7\<rparr>, t_index = 0, t_waiter = 300\<rparr>"
    "timespec_wf (t_abs_time \<lparr>t_abs_time = \<lparr>tv_sec = 1, tv_nsec = 7\<rparr>, t_index = 0, t_waiter = 300\<rparr>)"
    by (simp_all add: two_timers_of two_timers_def timespec_wf_def timespec_valid_def LONG_MAX_def FEV_NSECS_PER_SEC_def)
  from fev_timers_bucket_add_correct [where alloc = True, OF two_inv two_facts(7) t] show ?thesis
    unfolding two_timers_of by (auto split: if_splits)
qed

theorem fev_timers_bucket_del_correct_witness:
  "\<exists>st' b'. fev_timers_bucket_del two_timers two_heap 8 = Some (0, st', b') \<and> bucket_inv st' b' \<and> mset (timers_of b') = {#16#}"
  using fev_timers_bucket_del_correct [OF two_inv, of 8] unfolding two_timers_of by auto

end
