(* ===== verification/Waiters_Queue.thy ===== *)
theory Waiters_Queue
  imports Ilock Waiter
begin

text \<open>
  The queue of waiters (\<open>fev_waiters_queue_intf.h\<close>, \<open>fev_waiters_queue_impl.h\<close>), on which mutexes,
  condition variables, semaphores and joins are built. Nodes live on the stacks of the waiting fibers;
  they are kept in a store indexed by address. \<open>fev_waiters_queue_wait\<close> is split at the points where the
  fiber is suspended; each part is modelled from the moment its fiber owns the queue's lock, with the
  unlock at its end, and lists the fibers it wakes.
\<close>

section \<open>Data\<close>

record wq_node =
  n_waiter :: fev_waiter
  n_deleted :: bool

type_synonym node_store = "addr \<rightharpoonup> wq_node"

record fev_waiters_queue =
  wq_lock :: fev_ilock
  wq_nodes :: "addr list"

section \<open>Operations\<close>

definition fev_waiters_queue_init :: "int \<Rightarrow> int + fev_waiters_queue" where
  "fev_waiters_queue_init lock_ret =
     (case fev_ilock_init lock_ret of
        Inl ret \<Rightarrow> Inl ret
      | Inr lk \<Rightarrow> Inr \<lparr>wq_lock = lk, wq_nodes = []\<rparr>)"

definition wq_unlock_and_wake :: "fev_waiters_queue \<Rightarrow> (fev_waiters_queue \<times> fiber_ptr list) option" where
  "wq_unlock_and_wake q =
     do { (lk, woken) \<leftarrow> fev_ilock_unlock_and_wake (wq_lock q); Some (q\<lparr>wq_lock := lk\<rparr>, woken) }"

text \<open>
  \<open>fev_waiters_queue_wait\<close> up to the wait. \<open>g\<close> is what the memory of the node held before; \<open>recheck\<close> may
  change the state of the client, \<open>arg\<close>. The first component tells whether the fiber goes on to wait;
  if not, the function returns 0.
\<close>

definition prepare_waiter :: "fev_waiter \<Rightarrow> fiber_ptr \<Rightarrow> fev_waiter" where
  "prepare_waiter w cur_fiber =
     w\<lparr>w_reason := FEV_WAITER_NONE, w_do_wake := 0, w_wait_for_wake := 1, w_fiber := cur_fiber\<rparr>"

definition fev_waiters_queue_wait_begin ::
  "('a \<Rightarrow> ('a \<times> bool) option) option \<Rightarrow> 'a \<Rightarrow> wq_node \<Rightarrow> fiber_ptr \<Rightarrow> addr \<Rightarrow> node_store \<Rightarrow> fev_waiters_queue \<Rightarrow>
     (bool \<times> 'a \<times> node_store \<times> fev_waiters_queue \<times> fiber_ptr list) option" where
  "fev_waiters_queue_wait_begin recheck arg g cur_fiber node st q =
     do { fev_assert (cur_fiber \<noteq> 0);
          let w = prepare_waiter (n_waiter g) cur_fiber;
          (arg, do_wait) \<leftarrow> (case recheck of None \<Rightarrow> Some (arg, True) | Some r \<Rightarrow> r arg);
          let st = st(node \<mapsto> g\<lparr>n_waiter := w\<rparr>);
          if \<not> do_wait
          then do { (q, woken) \<leftarrow> wq_unlock_and_wake q; Some (False, arg, st, q, woken) }
          else do { let q = q\<lparr>wq_nodes := wq_nodes q @ [node]\<rparr>;
                    let st = st(node \<mapsto> \<lparr>n_waiter = w, n_deleted = False\<rparr>);
                    (q, woken) \<leftarrow> wq_unlock_and_wake q;
                    Some (True, arg, st, q, woken) } }"

text \<open>After an untimed wait: \<open>reason\<close> is what \<open>fev_waiter_wait\<close> returned.\<close>

definition fev_waiters_queue_wait_end :: "u32 \<Rightarrow> addr \<Rightarrow> node_store \<Rightarrow> int option" where
  "fev_waiters_queue_wait_end reason node st =
     do { fev_assert (reason = FEV_WAITER_READY);
          nd \<leftarrow> st node;
          fev_assert (n_deleted nd);
          Some 0 }"

text \<open>After a timed wait: \<open>res\<close> is what \<open>fev_timed_wait\<close> returned. On an error the queue's lock is taken again.\<close>

definition fev_waiters_queue_timed_wait_end ::
  "int \<Rightarrow> addr \<Rightarrow> node_store \<Rightarrow> fev_waiters_queue \<Rightarrow> (int \<times> fev_waiters_queue \<times> fiber_ptr list) option" where
  "fev_waiters_queue_timed_wait_end res node st q =
     do { nd \<leftarrow> st node;
          if res = 0 then do { fev_assert (n_deleted nd); Some (0, q, []) }
          else do {
            fev_assert (res = - EAGAIN \<or> res = - ENOMEM \<or> res = - ETIMEDOUT);
            let q = (if \<not> n_deleted nd then q\<lparr>wq_nodes := remove1 node (wq_nodes q)\<rparr> else q);
            (q, woken) \<leftarrow> wq_unlock_and_wake q;
            Some (res, q, woken) } }"

text \<open>The loop of \<open>fev_waiters_queue_wake\<close>.\<close>

fun waiters_wake_loop ::
  "u32 \<Rightarrow> addr list \<Rightarrow> node_store \<Rightarrow> u32 \<Rightarrow> fiber_ptr list \<Rightarrow> u32 \<Rightarrow>
     (addr list \<times> node_store \<times> u32 \<times> fiber_ptr list \<times> u32) option" where
  "waiters_wake_loop max_waiters nodes st num_woken fibers num_fibers =
     (if num_woken < max_waiters
      then (case nodes of
              [] \<Rightarrow> Some (nodes, st, num_woken, fibers, num_fibers)
            | node # rest \<Rightarrow>
                do { nd \<leftarrow> st node;
                     (result, w) \<leftarrow> fev_waiter_wake (n_waiter nd) FEV_WAITER_READY;
                     let st = st(node \<mapsto> \<lparr>n_waiter = w, n_deleted = True\<rparr>);
                     if result = FEV_WAITER_FAILED
                     then waiters_wake_loop max_waiters rest st num_woken fibers num_fibers
                     else if result = FEV_WAITER_SET_AND_WAKE_UP
                     then waiters_wake_loop max_waiters rest st (num_woken + 1) (fibers @ [w_fiber w]) (num_fibers + 1)
                     else waiters_wake_loop max_waiters rest st (num_woken + 1) fibers num_fibers })
      else Some (nodes, st, num_woken, fibers, num_fibers))"

declare waiters_wake_loop.simps [simp del]

definition fev_waiters_queue_wake ::
  "u32 \<Rightarrow> ('a \<Rightarrow> u32 \<Rightarrow> bool \<Rightarrow> 'a option) option \<Rightarrow> 'a \<Rightarrow> node_store \<Rightarrow> fev_waiters_queue \<Rightarrow>
     ('a \<times> node_store \<times> fev_waiters_queue \<times> fiber_ptr list) option" where
  "fev_waiters_queue_wake max_waiters callback arg st q =
     do { (nodes, st, num_woken, fibers, num_fibers) \<leftarrow> waiters_wake_loop max_waiters (wq_nodes q) st 0 [] 0;
          arg \<leftarrow> (case callback of None \<Rightarrow> Some arg | Some f \<Rightarrow> f arg num_woken (nodes = []));
          (lk, fiber) \<leftarrow> fev_ilock_unlock (wq_lock q);
          let fibers = fibers @ (case fiber of None \<Rightarrow> [] | Some g \<Rightarrow> [g]);
          let num_fibers = num_fibers + (case fiber of None \<Rightarrow> 0 | Some _ \<Rightarrow> 1);
          Some (arg, st, \<lparr>wq_lock = lk, wq_nodes = nodes\<rparr>, if num_fibers > 0 then fibers else []) }"

section \<open>The queue\<close>

text \<open>Queued nodes are distinct, in the store, not deleted, and their waiters satisfy the assertions of \<open>fev_waiter_wake\<close>.\<close>

definition queue_inv :: "node_store \<Rightarrow> addr list \<Rightarrow> bool" where
  "queue_inv st nodes \<longleftrightarrow>
     distinct nodes \<and>
     (\<forall>n\<in>set nodes. \<exists>nd. st n = Some nd \<and> \<not> n_deleted nd \<and>
        w_reason (n_waiter nd) \<le> FEV_WAITER_TIMED_OUT_NO_CHECK \<and> w_do_wake (n_waiter nd) \<le> 1)"

text \<open>A node whose waiter no handler has claimed yet; one whose fiber is already suspended.\<close>

definition pending :: "node_store \<Rightarrow> addr \<Rightarrow> bool" where
  "pending st n \<longleftrightarrow> (case st n of None \<Rightarrow> False | Some nd \<Rightarrow> w_reason (n_waiter nd) = FEV_WAITER_NONE)"

definition suspended :: "node_store \<Rightarrow> addr \<Rightarrow> bool" where
  "suspended st n \<longleftrightarrow> (case st n of None \<Rightarrow> False | Some nd \<Rightarrow> w_do_wake (n_waiter nd) \<noteq> 0)"

definition fiber_of :: "node_store \<Rightarrow> addr \<Rightarrow> fiber_ptr" where
  "fiber_of st n = (case st n of None \<Rightarrow> 0 | Some nd \<Rightarrow> w_fiber (n_waiter nd))"

text \<open>What waking does to a node, and to a set of nodes.\<close>

definition woken_node :: "wq_node \<Rightarrow> wq_node" where
  "woken_node nd =
     \<lparr>n_waiter = (case fev_waiter_wake (n_waiter nd) FEV_WAITER_READY of
                    None \<Rightarrow> n_waiter nd | Some (_, w) \<Rightarrow> w),
      n_deleted = True\<rparr>"

definition wake_nodes :: "addr set \<Rightarrow> node_store \<Rightarrow> node_store" where
  "wake_nodes A st = (\<lambda>n. if n \<in> A then map_option woken_node (st n) else st n)"

lemma fev_waiter_wake_cases:
  assumes "w_reason w \<le> FEV_WAITER_TIMED_OUT_NO_CHECK" "w_do_wake w \<le> 1"
  shows "\<exists>w'. fev_waiter_wake w FEV_WAITER_READY =
      Some (if w_reason w \<noteq> FEV_WAITER_NONE then FEV_WAITER_FAILED
            else if w_do_wake w \<noteq> 0 then FEV_WAITER_SET_AND_WAKE_UP else FEV_WAITER_SET_ONLY, w') \<and>
    w_fiber w' = w_fiber w"
  using assms by (auto simp: fev_waiter_wake_def wake_asserts_def Let_def reason_defs)

lemma waiters_wake_loop_spec:
  assumes "queue_inv st nodes" "num \<le> maxw"
  shows "\<exists>popped rest. nodes = popped @ rest \<and>
     waiters_wake_loop maxw nodes st num fibers nf =
       Some (rest, wake_nodes (set popped) st, num + of_nat (length (filter (pending st) popped)),
             fibers @ map (fiber_of st) (filter (suspended st) (filter (pending st) popped)),
             nf + of_nat (length (filter (suspended st) (filter (pending st) popped)))) \<and>
     unat num + length (filter (pending st) popped) \<le> unat maxw \<and>
     (rest \<noteq> [] \<longrightarrow> unat num + length (filter (pending st) popped) = unat maxw) \<and>
     (popped \<noteq> [] \<longrightarrow> unat num + length (filter (pending st) popped) = unat maxw \<longrightarrow> pending st (last popped))"
  using assms
proof (induction nodes arbitrary: st num fibers nf)
  case Nil
  then show ?case by (simp add: waiters_wake_loop.simps wake_nodes_def word_le_nat_alt)
next
  case (Cons n ns)
  show ?case
  proof (cases "num < maxw")
    case False
    then have "num = maxw" using Cons.prems(2) by simp
    then show ?thesis
      by (intro exI [of _ "[]"] exI [of _ "n # ns"]) (simp add: waiters_wake_loop.simps wake_nodes_def)
  next
    case True
    obtain nd where nd: "st n = Some nd" "w_reason (n_waiter nd) \<le> FEV_WAITER_TIMED_OUT_NO_CHECK" "w_do_wake (n_waiter nd) \<le> 1"
      using Cons.prems(1) unfolding queue_inv_def by auto
    let ?p = "w_reason (n_waiter nd) = FEV_WAITER_NONE" and ?s = "w_do_wake (n_waiter nd) \<noteq> 0"
    let ?res = "if \<not> ?p then FEV_WAITER_FAILED else if ?s then FEV_WAITER_SET_AND_WAKE_UP else FEV_WAITER_SET_ONLY"
    obtain w where w: "fev_waiter_wake (n_waiter nd) FEV_WAITER_READY = Some (?res, w)" "w_fiber w = w_fiber (n_waiter nd)"
      using fev_waiter_wake_cases [OF nd(2,3)] by auto
    let ?st = "st(n \<mapsto> \<lparr>n_waiter = w, n_deleted = True\<rparr>)"
    let ?num = "if ?p then num + 1 else num" and ?f = "if ?p \<and> ?s then [fiber_of st n] else []"
    let ?nf = "if ?p \<and> ?s then nf + 1 else nf"
    have ps: "pending st n \<longleftrightarrow> ?p" "suspended st n \<longleftrightarrow> ?s" using nd(1) by (simp_all add: pending_def suspended_def)
    have loop: "waiters_wake_loop maxw (n # ns) st num fibers nf = waiters_wake_loop maxw ns ?st ?num (fibers @ ?f) ?nf"
      using True nd(1) w by (subst waiters_wake_loop.simps) (simp add: Let_def fiber_of_def)
    have n: "n \<notin> set ns" using Cons.prems(1) by (simp add: queue_inv_def)
    have inv: "queue_inv ?st ns" using Cons.prems(1) n by (auto simp: queue_inv_def)
    have unum: "unat ?num = unat num + (if ?p then 1 else 0)" "?num \<le> maxw"
      using True unsigned_less [where ?'a = nat, of maxw] by (auto simp: unat_word_ariths word_less_nat_alt word_le_nat_alt)
    obtain popped rest where IH: "ns = popped @ rest"
        "waiters_wake_loop maxw ns ?st ?num (fibers @ ?f) ?nf =
           Some (rest, wake_nodes (set popped) ?st, ?num + of_nat (length (filter (pending ?st) popped)),
             (fibers @ ?f) @ map (fiber_of ?st) (filter (suspended ?st) (filter (pending ?st) popped)),
             ?nf + of_nat (length (filter (suspended ?st) (filter (pending ?st) popped))))"
        "unat ?num + length (filter (pending ?st) popped) \<le> unat maxw"
        "rest \<noteq> [] \<longrightarrow> unat ?num + length (filter (pending ?st) popped) = unat maxw"
        "popped \<noteq> [] \<longrightarrow> unat ?num + length (filter (pending ?st) popped) = unat maxw \<longrightarrow> pending ?st (last popped)"
      using Cons.IH [OF inv unum(2), of "fibers @ ?f" ?nf] by blast
    have frame: "filter (pending ?st) popped = filter (pending st) popped"
        "filter (suspended ?st) (filter (pending st) popped) = filter (suspended st) (filter (pending st) popped)"
        "map (fiber_of ?st) (filter (suspended st) (filter (pending st) popped)) =
         map (fiber_of st) (filter (suspended st) (filter (pending st) popped))"
    proof -
      have "?st m = st m" if "m \<in> set popped" for m using n IH(1) that by auto
      then have "pending ?st m = pending st m" "suspended ?st m = suspended st m" "fiber_of ?st m = fiber_of st m"
        if "m \<in> set popped" for m using that unfolding pending_def suspended_def fiber_of_def by presburger+
      then show "filter (pending ?st) popped = filter (pending st) popped"
        "filter (suspended ?st) (filter (pending st) popped) = filter (suspended st) (filter (pending st) popped)"
        "map (fiber_of ?st) (filter (suspended st) (filter (pending st) popped)) =
         map (fiber_of st) (filter (suspended st) (filter (pending st) popped))"
        by (auto intro!: filter_cong map_cong)
    qed
    have wn: "wake_nodes (set popped) ?st = wake_nodes (set (n # popped)) st"
      using n IH(1) nd(1) w(1) by (auto simp: wake_nodes_def woken_node_def)
    note eq = loop [unfolded IH(2), unfolded frame wn] and bounds = IH(3,4,5) [unfolded frame unum(1)]
    have "unat num + length (filter (pending st) (n # popped)) \<le> unat maxw \<and>
        (rest \<noteq> [] \<longrightarrow> unat num + length (filter (pending st) (n # popped)) = unat maxw)"
      using bounds ps(1) by (cases ?p) simp_all
    moreover have "pending st (last (n # popped))"
      if "unat num + length (filter (pending st) (n # popped)) = unat maxw"
    proof (cases "popped = []")
      case True
      then show ?thesis using that \<open>num < maxw\<close> by (auto simp: word_less_nat_alt split: if_splits)
    next
      case False
      then have "pending ?st (last popped)" using bounds(3) ps(1) that by (cases ?p) simp_all
      moreover have "last popped \<noteq> n" using n IH(1) False last_in_set by fastforce
      ultimately show ?thesis using False by (simp add: pending_def)
    qed
    moreover have "waiters_wake_loop maxw (n # ns) st num fibers nf =
       Some (rest, wake_nodes (set (n # popped)) st, num + of_nat (length (filter (pending st) (n # popped))),
             fibers @ map (fiber_of st) (filter (suspended st) (filter (pending st) (n # popped))),
             nf + of_nat (length (filter (suspended st) (filter (pending st) (n # popped)))))"
      unfolding eq using ps by (cases ?p; cases ?s) simp_all
    ultimately show ?thesis using IH(1) by (metis append_Cons)
  qed
qed

lemma waiters_queue_wake_spec:
  assumes "queue_inv st (wq_nodes q)" "ilock_owned (wq_lock q)" "length (wq_nodes q) < 2 ^ 32 - 1"
  shows "\<exists>popped rest lk woken. wq_nodes q = popped @ rest \<and>
     length (filter (pending st) popped) \<le> unat max_waiters \<and>
     (rest \<noteq> [] \<longrightarrow> length (filter (pending st) popped) = unat max_waiters) \<and>
     (popped \<noteq> [] \<longrightarrow> length (filter (pending st) popped) = unat max_waiters \<longrightarrow> pending st (last popped)) \<and>
     fev_ilock_unlock_and_wake (wq_lock q) = Some (lk, woken) \<and>
     fev_waiters_queue_wake max_waiters callback arg st q =
       (case (case callback of None \<Rightarrow> Some arg
              | Some f \<Rightarrow> f arg (of_nat (length (filter (pending st) popped))) (rest = [])) of
          None \<Rightarrow> None
        | Some arg' \<Rightarrow> Some (arg', wake_nodes (set popped) st, \<lparr>wq_lock = lk, wq_nodes = rest\<rparr>,
            map (fiber_of st) (filter (suspended st) (filter (pending st) popped)) @ woken))"
proof -
  have le: "(0::u32) \<le> max_waiters" by simp
  obtain popped rest where p: "wq_nodes q = popped @ rest"
      "waiters_wake_loop max_waiters (wq_nodes q) st 0 [] 0 =
       Some (rest, wake_nodes (set popped) st, 0 + of_nat (length (filter (pending st) popped)),
             [] @ map (fiber_of st) (filter (suspended st) (filter (pending st) popped)),
             0 + of_nat (length (filter (suspended st) (filter (pending st) popped))))"
      "unat (0::u32) + length (filter (pending st) popped) \<le> unat max_waiters"
      "rest \<noteq> [] \<longrightarrow> unat (0::u32) + length (filter (pending st) popped) = unat max_waiters"
      "popped \<noteq> [] \<longrightarrow> unat (0::u32) + length (filter (pending st) popped) = unat max_waiters \<longrightarrow> pending st (last popped)"
    using waiters_wake_loop_spec [OF assms(1) le, of "[]" 0] by blast
  let ?fs = "filter (suspended st) (filter (pending st) popped)"
  obtain lk f where u: "fev_ilock_unlock (wq_lock q) = Some (lk, f)"
    using ilock_unlock_owned [OF assms(2)] by (cases "il_waiters (wq_lock q)") auto
  let ?w = "case f of None \<Rightarrow> [] | Some g \<Rightarrow> [g]"
  have "length ?fs \<le> length popped" by (meson le_trans length_filter_le)
  moreover have "length ?w \<le> 1" by (auto split: option.splits)
  moreover have "length popped < 2 ^ 32 - 1" using assms(3) p(1) by simp
  ultimately have len: "length (?fs @ ?w) < 2 ^ 32" unfolding length_append by linarith
  have num: "of_nat (length ?fs) + (case f of None \<Rightarrow> 0 | Some _ \<Rightarrow> 1) = (of_nat (length (?fs @ ?w)) :: u32)"
    by (cases f) auto
  have pos: "(of_nat (length (?fs @ ?w)) :: u32) > 0 \<longleftrightarrow> map (fiber_of st) ?fs @ ?w \<noteq> []"
    using of_nat_u32_pos [OF len] by (cases f) auto
  have w: "fev_ilock_unlock_and_wake (wq_lock q) = Some (lk, ?w)"
    using u by (simp add: fev_ilock_unlock_and_wake_def)
  have "fev_waiters_queue_wake max_waiters callback arg st q =
       (case (case callback of None \<Rightarrow> Some arg
              | Some f \<Rightarrow> f arg (of_nat (length (filter (pending st) popped))) (rest = [])) of
          None \<Rightarrow> None
        | Some arg' \<Rightarrow> Some (arg', wake_nodes (set popped) st, \<lparr>wq_lock = lk, wq_nodes = rest\<rparr>,
            map (fiber_of st) ?fs @ ?w))"
    using pos by (simp add: fev_waiters_queue_wake_def p(2) u num Let_def split: option.splits)
  then show ?thesis using p(1,3,4,5) w by auto
qed

text \<open>Waking one waiter: the first pending one, or nobody.\<close>

lemma filter_length_le_1:
  assumes "length (filter P xs) \<le> 1" "xs \<noteq> [] \<longrightarrow> length (filter P xs) = 1 \<longrightarrow> P (last xs)" "\<exists>x\<in>set xs. P x"
  shows "\<exists>pre x. xs = pre @ [x] \<and> P x \<and> (\<forall>y\<in>set pre. \<not> P y)"
proof -
  obtain pre x where xs: "xs = pre @ [x]" using assms(3) by (cases xs rule: rev_cases) auto
  have "length (filter P xs) \<noteq> 0" using assms(3) by (simp add: filter_empty_conv)
  then have "length (filter P xs) = 1" using assms(1) by linarith
  then have "P x" "filter P pre = []" using assms(2) xs by (auto split: if_splits)
  then show ?thesis using xs by (auto simp: filter_empty_conv)
qed

lemma waiters_queue_wake_one:
  assumes "queue_inv st (wq_nodes q)" "ilock_owned (wq_lock q)" "length (wq_nodes q) < 2 ^ 32 - 1"
    and "fev_ilock_unlock_and_wake (wq_lock q) = Some (lk, woken)"
  shows "if \<exists>n\<in>set (wq_nodes q). pending st n
     then \<exists>pre n rest. wq_nodes q = pre @ n # rest \<and> pending st n \<and> (\<forall>m\<in>set pre. \<not> pending st m) \<and>
       fev_waiters_queue_wake 1 (Some f) arg st q =
         (case f arg 1 (rest = []) of None \<Rightarrow> None
          | Some arg' \<Rightarrow> Some (arg', wake_nodes (set (pre @ [n])) st, \<lparr>wq_lock = lk, wq_nodes = rest\<rparr>,
              (if suspended st n then [fiber_of st n] else []) @ woken))
     else fev_waiters_queue_wake 1 (Some f) arg st q =
         (case f arg 0 True of None \<Rightarrow> None
          | Some arg' \<Rightarrow> Some (arg', wake_nodes (set (wq_nodes q)) st, \<lparr>wq_lock = lk, wq_nodes = []\<rparr>, woken))"
proof -
  obtain popped rest where p: "wq_nodes q = popped @ rest" "length (filter (pending st) popped) \<le> 1"
      "rest \<noteq> [] \<longrightarrow> length (filter (pending st) popped) = 1"
      "popped \<noteq> [] \<longrightarrow> length (filter (pending st) popped) = 1 \<longrightarrow> pending st (last popped)"
      "fev_waiters_queue_wake 1 (Some f) arg st q =
       (case f arg (of_nat (length (filter (pending st) popped))) (rest = []) of None \<Rightarrow> None
        | Some arg' \<Rightarrow> Some (arg', wake_nodes (set popped) st, \<lparr>wq_lock = lk, wq_nodes = rest\<rparr>,
            map (fiber_of st) (filter (suspended st) (filter (pending st) popped)) @ woken))"
    using waiters_queue_wake_spec [OF assms(1-3), of 1 "Some f" arg] assms(4) by auto
  show ?thesis
  proof (cases "\<exists>n\<in>set popped. pending st n")
    case True
    obtain pre n where n: "popped = pre @ [n]" "pending st n" "\<forall>m\<in>set pre. \<not> pending st m"
      using filter_length_le_1 [OF p(2,4) True] by blast
    then have fp: "filter (pending st) popped = [n]" by (auto simp: filter_empty_conv)
    have "\<exists>n\<in>set (wq_nodes q). pending st n" using True p(1) by auto
    moreover have "wq_nodes q = pre @ n # rest" using p(1) n(1) by simp
    moreover have "fev_waiters_queue_wake 1 (Some f) arg st q =
         (case f arg 1 (rest = []) of None \<Rightarrow> None
          | Some arg' \<Rightarrow> Some (arg', wake_nodes (set (pre @ [n])) st, \<lparr>wq_lock = lk, wq_nodes = rest\<rparr>,
              (if suspended st n then [fiber_of st n] else []) @ woken))"
      using p(5) n(1) unfolding fp by (auto split: option.splits)
    ultimately show ?thesis using n(2,3) by auto
  next
    case False
    then have fp: "filter (pending st) popped = []" by (auto simp: filter_empty_conv)
    then have rest: "rest = []" using p(3) by auto
    then have "\<not> (\<exists>n\<in>set (wq_nodes q). pending st n)" using False p(1) by simp
    moreover have "wq_nodes q = popped" using p(1) rest by simp
    moreover note p(5) [unfolded fp rest]
    ultimately show ?thesis by (simp split: option.splits)
  qed
qed

lemma waiters_queue_wait_joins:
  assumes "queue_inv st (wq_nodes q)" "ilock_owned (wq_lock q)" "f \<noteq> 0" "node \<notin> set (wq_nodes q)"
    and "recheck arg = Some (arg', do_wait)"
  shows "\<exists>st' q' woken. fev_waiters_queue_wait_begin (Some recheck) arg g f node st q = Some (do_wait, arg', st', q', woken) \<and>
     queue_inv st' (wq_nodes q') \<and> wq_nodes q' = wq_nodes q @ (if do_wait then [node] else []) \<and>
     (do_wait \<longrightarrow> pending st' node \<and> \<not> suspended st' node \<and> fiber_of st' node = f) \<and>
     (\<forall>n. n \<noteq> node \<longrightarrow> st' n = st n)"
proof -
  obtain lk woken where u: "fev_ilock_unlock_and_wake (wq_lock q) = Some (lk, woken)"
    using ilock_unlock_and_wake_owned [OF assms(2)] by blast
  have "queue_inv (st(node \<mapsto> nd)) (wq_nodes q)" for nd
    using assms(1,4) by (auto simp: queue_inv_def)
  moreover have "queue_inv (st(node \<mapsto> \<lparr>n_waiter = prepare_waiter (n_waiter g) f, n_deleted = False\<rparr>)) (wq_nodes q @ [node])"
    using assms(1,4) by (auto simp: queue_inv_def prepare_waiter_def reason_defs)
  ultimately show ?thesis
    using assms(3,5) u
    by (cases do_wait)
       (auto simp: fev_waiters_queue_wait_begin_def wq_unlock_and_wake_def Let_def pending_def suspended_def
          fiber_of_def prepare_waiter_def)
qed

section \<open>What the queue promises\<close>

text \<open>
  \<open>fev_waiters_queue_wake\<close> serves the queue first come, first served: it takes nodes off the front,
  marks each of them deleted, and claims those that no other handler has claimed with
  \<open>FEV_WAITER_READY\<close>, until \<open>max_waiters\<close> were claimed or the queue is empty; nodes behind are untouched.
  The callback sees the number of claimed waiters and whether the queue is empty, and the fibers woken
  are exactly those claimed while already suspended, in queue order, then the fiber waiting for the
  queue's lock.
\<close>

theorem fev_waiters_queue_wake_fifo:
  assumes "queue_inv st (wq_nodes q)" "ilock_owned (wq_lock q)" "length (wq_nodes q) < 2 ^ 32 - 1"
  shows "\<exists>popped rest lk woken. wq_nodes q = popped @ rest \<and>
     length (filter (pending st) popped) \<le> unat max_waiters \<and>
     (rest \<noteq> [] \<longrightarrow> length (filter (pending st) popped) = unat max_waiters) \<and>
     (popped \<noteq> [] \<longrightarrow> length (filter (pending st) popped) = unat max_waiters \<longrightarrow> pending st (last popped)) \<and>
     fev_ilock_unlock_and_wake (wq_lock q) = Some (lk, woken) \<and>
     fev_waiters_queue_wake max_waiters callback arg st q =
       (case (case callback of None \<Rightarrow> Some arg
              | Some f \<Rightarrow> f arg (of_nat (length (filter (pending st) popped))) (rest = [])) of
          None \<Rightarrow> None
        | Some arg' \<Rightarrow> Some (arg', wake_nodes (set popped) st, \<lparr>wq_lock = lk, wq_nodes = rest\<rparr>,
            map (fiber_of st) (filter (suspended st) (filter (pending st) popped)) @ woken))"
  by (rule waiters_queue_wake_spec [OF assms])

text \<open>
  A fiber that stops waiting on an error leaves the queue as if it had never joined: with its node in
  the queue the node is removed and the others keep their order; with its node already taken by a waker
  nothing is removed.
\<close>

theorem fev_waiters_queue_cancel:
  assumes "queue_inv st (wq_nodes q)" "ilock_owned (wq_lock q)" "st node = Some nd"
    and "n_deleted nd \<longleftrightarrow> node \<notin> set (wq_nodes q)"
    and "res = - EAGAIN \<or> res = - ENOMEM \<or> res = - ETIMEDOUT"
  shows "\<exists>q' woken. fev_waiters_queue_timed_wait_end res node st q = Some (res, q', woken) \<and>
     wq_nodes q' = filter (\<lambda>n. n \<noteq> node) (wq_nodes q) \<and> queue_inv st (wq_nodes q') \<and>
     fev_ilock_unlock_and_wake (wq_lock q) = Some (wq_lock q', woken)"
proof -
  obtain lk woken where u: "fev_ilock_unlock_and_wake (wq_lock q) = Some (lk, woken)"
    using ilock_unlock_and_wake_owned [OF assms(2)] by blast
  have dist: "distinct (wq_nodes q)" using assms(1) by (simp add: queue_inv_def)
  have res: "res \<noteq> 0" using assms(5) by (auto simp: errno_defs)
  have rem: "remove1 node (wq_nodes q) = filter (\<lambda>n. n \<noteq> node) (wq_nodes q)"
    using distinct_remove1_removeAll [OF dist] by (simp add: removeAll_filter_not_eq) metis
  have "filter (\<lambda>n. n \<noteq> node) (wq_nodes q) = wq_nodes q" if "n_deleted nd"
    using that assms(4) by (auto simp: filter_id_conv)
  moreover have "queue_inv st (filter (\<lambda>n. n \<noteq> node) (wq_nodes q))"
    using assms(1) by (auto simp: queue_inv_def)
  ultimately show ?thesis
    using assms(3,5) res u rem
    by (cases "n_deleted nd") (auto simp: fev_waiters_queue_timed_wait_end_def wq_unlock_and_wake_def)
qed

text \<open>
  \<open>fev_waiters_queue_wait\<close> joins the queue at its end, with a waiter ready to be woken, exactly when the
  client's recheck says so; otherwise the queue is unchanged and the function returns without waiting.
\<close>

theorem fev_waiters_queue_wait_joins:
  assumes "queue_inv st (wq_nodes q)" "ilock_owned (wq_lock q)" "f \<noteq> 0" "node \<notin> set (wq_nodes q)"
    and "recheck arg = Some (arg', do_wait)"
  shows "\<exists>st' q' woken. fev_waiters_queue_wait_begin (Some recheck) arg g f node st q = Some (do_wait, arg', st', q', woken) \<and>
     queue_inv st' (wq_nodes q') \<and> wq_nodes q' = wq_nodes q @ (if do_wait then [node] else []) \<and>
     (do_wait \<longrightarrow> pending st' node \<and> \<not> suspended st' node \<and> fiber_of st' node = f) \<and>
     (\<forall>n. n \<noteq> node \<longrightarrow> st' n = st n)"
  using assms by (rule waiters_queue_wait_joins)

section \<open>Witnesses\<close>

text \<open>
  Three queued nodes: the first already claimed by a time-out, the second about to be suspended, the
  third suspended.
\<close>

definition mk_waiter :: "u32 \<Rightarrow> u32 \<Rightarrow> fiber_ptr \<Rightarrow> fev_waiter" where
  "mk_waiter r d f =
     \<lparr>w_reason = r, w_do_wake = d, w_wake_reason = 0, w_wait_for_post = 0, w_wait_for_wake = 1, w_fiber = f\<rparr>"

definition three_nodes :: node_store where
  "three_nodes =
     [1 \<mapsto> \<lparr>n_waiter = mk_waiter 2 0 11, n_deleted = False\<rparr>,
      2 \<mapsto> \<lparr>n_waiter = mk_waiter 0 0 12, n_deleted = False\<rparr>,
      3 \<mapsto> \<lparr>n_waiter = mk_waiter 0 1 13, n_deleted = False\<rparr>]"

definition three_queue :: fev_waiters_queue where
  "three_queue = \<lparr>wq_lock = \<lparr>il_state = 1, il_waiters = []\<rparr>, wq_nodes = [1, 2, 3]\<rparr>"

lemma three_facts:
  "queue_inv three_nodes (wq_nodes three_queue)" "ilock_owned (wq_lock three_queue)"
  "length (wq_nodes three_queue) < 2 ^ 32 - 1"
  by (simp_all add: queue_inv_def three_nodes_def three_queue_def mk_waiter_def ilock_owned_def reason_defs)

theorem fev_waiters_queue_wake_fifo_witness:
  "\<exists>popped rest lk woken. wq_nodes three_queue = popped @ rest \<and>
     fev_waiters_queue_wake 1 None () three_nodes three_queue =
       Some ((), wake_nodes (set popped) three_nodes, \<lparr>wq_lock = lk, wq_nodes = rest\<rparr>,
         map (fiber_of three_nodes) (filter (suspended three_nodes) (filter (pending three_nodes) popped)) @ woken)"
  using fev_waiters_queue_wake_fifo [OF three_facts, where max_waiters = 1 and arg = "()" and callback = None]
  unfolding option.case by blast

theorem fev_waiters_queue_cancel_witness:
  "\<exists>q' woken. fev_waiters_queue_timed_wait_end (- ETIMEDOUT) 1 three_nodes three_queue = Some (- ETIMEDOUT, q', woken) \<and>
     wq_nodes q' = [2, 3]"
proof -
  have "three_nodes 1 = Some \<lparr>n_waiter = mk_waiter 2 0 11, n_deleted = False\<rparr>"
      "n_deleted \<lparr>n_waiter = mk_waiter 2 0 11, n_deleted = False\<rparr> \<longleftrightarrow> 1 \<notin> set (wq_nodes three_queue)"
      "- ETIMEDOUT = - EAGAIN \<or> - ETIMEDOUT = - ENOMEM \<or> - ETIMEDOUT = - ETIMEDOUT"
    by (simp_all add: three_nodes_def three_queue_def)
  from fev_waiters_queue_cancel [OF three_facts(1,2) this] show ?thesis by (auto simp: three_queue_def)
qed

theorem fev_waiters_queue_wait_joins_witness:
  "\<exists>st' q' woken. fev_waiters_queue_wait_begin (Some (\<lambda>s. Some (s, True))) () \<lparr>n_waiter = mk_waiter 5 9 0, n_deleted = True\<rparr>
       14 4 three_nodes three_queue = Some (True, (), st', q', woken) \<and> wq_nodes q' = [1, 2, 3, 4]"
proof -
  have "(14 :: nat) \<noteq> 0" "4 \<notin> set (wq_nodes three_queue)" "(\<lambda>s. Some (s, True)) () = Some ((), True)"
    by (simp_all add: three_queue_def)
  from fev_waiters_queue_wait_joins [where recheck = "\<lambda>s. Some (s, True)", OF three_facts(1,2) this, of "\<lparr>n_waiter = mk_waiter 5 9 0, n_deleted = True\<rparr>"]
  show ?thesis by (auto simp: three_queue_def)
qed

end
