(* ===== verification/Sync.thy ===== *)
theory Sync
  imports Waiters_Queue Fev_Time
begin

text \<open>
  The synchronisation primitives of the public interface that sit on the queue of waiters: the mutex
  (\<open>fev_mutex.c\<close>, \<open>fev_mutex_impl.h\<close>), the condition variable (\<open>fev_cond.c\<close>, \<open>fev_cond_impl.h\<close>) and the
  semaphore (\<open>fev_sem.c\<close>). Each operation is the C function; where it waits, it is split there.
\<close>

section \<open>The mutex\<close>

record fev_mutex =
  mx_state :: u32 \<comment> \<open>0 unlocked; 1 locked, no waiters; 2 locked, some waiters\<close>
  mx_wq :: fev_waiters_queue

definition fev_mutex_init :: "int \<Rightarrow> int + fev_mutex" where
  "fev_mutex_init lock_ret =
     (case fev_waiters_queue_init lock_ret of
        Inl ret \<Rightarrow> Inl ret
      | Inr q \<Rightarrow> Inr \<lparr>mx_state = 0, mx_wq = q\<rparr>)"

text \<open>
  \<open>fev_mutex_create\<close>: \<open>malloc\<close> is the address that \<open>fev_malloc\<close> returned (0 on failure). The result is the
  return value, \<open>*mutex_ptr\<close> if it was set, and the allocations that are left.
\<close>

definition fev_mutex_create :: "addr \<Rightarrow> int \<Rightarrow> int \<times> (addr \<times> fev_mutex) option \<times> addr list" where
  "fev_mutex_create malloc lock_ret =
     (if malloc = 0 then (- ENOMEM, None, [])
      else case fev_mutex_init lock_ret of
             Inl ret \<Rightarrow> (ret, None, remove1 malloc [malloc])
           | Inr m \<Rightarrow> (0, Some (malloc, m), [malloc]))"

text \<open>
  \<open>fev_mutex_destroy\<close>, and likewise for the other primitives: the finalisers down to the queue's lock do
  nothing with the futex mutex, so what is left is \<open>fev_free\<close>, on the list of live allocations; freeing
  an address that is not allocated is a fault.
\<close>

definition free_in :: "addr \<Rightarrow> addr list \<Rightarrow> addr list option" where
  "free_in p live = (if p = 0 then Some live else if p \<in> set live then Some (remove1 p live) else None)"

definition fev_mutex_destroy :: "addr \<Rightarrow> addr list \<Rightarrow> addr list option" where
  "fev_mutex_destroy mutex live = free_in mutex live"

definition fev_mutex_try_lock :: "u32 \<Rightarrow> u32 \<times> bool" where
  "fev_mutex_try_lock state = (if state = 0 then (1, True) else (state, False))"

definition fev_mutex_lock_recheck :: "u32 \<Rightarrow> (u32 \<times> bool) option" where
  "fev_mutex_lock_recheck state = Some (if state = 0 then (1, False) else (2, True))"

definition fev_mutex_unlock_callback :: "u32 \<Rightarrow> u32 \<Rightarrow> bool \<Rightarrow> u32 option" where
  "fev_mutex_unlock_callback state num_woken is_empty =
     do { fev_assert (num_woken \<le> 1);
          Some (if num_woken = 0 then 0 else if is_empty then 1 else state) }"

text \<open>
  \<open>fev_mutex_lock\<close> up to the wait: the fast path, else the slow path. The first component is \<open>True\<close> when
  the fiber has to wait, \<open>False\<close> when it holds the mutex.
\<close>

definition fev_mutex_lock_begin ::
  "wq_node \<Rightarrow> fiber_ptr \<Rightarrow> addr \<Rightarrow> node_store \<Rightarrow> fev_mutex \<Rightarrow> (bool \<times> node_store \<times> fev_mutex \<times> fiber_ptr list) option" where
  "fev_mutex_lock_begin g cur_fiber node st m =
     (let (state, success) = fev_mutex_try_lock (mx_state m)
      in if success then Some (False, st, m\<lparr>mx_state := state\<rparr>, [])
         else do { (do_wait, state, st, q, woken) \<leftarrow>
                     fev_waiters_queue_wait_begin (Some fev_mutex_lock_recheck) (mx_state m) g cur_fiber node st (mx_wq m);
                   Some (do_wait, st, \<lparr>mx_state = state, mx_wq = q\<rparr>, woken) })"

definition fev_mutex_unlock ::
  "node_store \<Rightarrow> fev_mutex \<Rightarrow> (node_store \<times> fev_mutex \<times> fiber_ptr list) option" where
  "fev_mutex_unlock st m =
     (if mx_state m = 1 then Some (st, m\<lparr>mx_state := 0\<rparr>, [])
      else do { (state, st, q, woken) \<leftarrow>
                  fev_waiters_queue_wake 1 (Some fev_mutex_unlock_callback) (mx_state m) st (mx_wq m);
                Some (st, \<lparr>mx_state = state, mx_wq = q\<rparr>, woken) })"

text \<open>
  The loop of \<open>fev_mutex_try_lock_until_slow\<close> and of \<open>fev_sem_wait_until\<close>, over the results of the
  successive calls of \<open>fev_waiters_queue_wait\<close>; \<open>None\<close> while the last of them is still to come.
\<close>

fun retry_while_eagain :: "int list \<Rightarrow> int option" where
  "retry_while_eagain [] = None"
| "retry_while_eagain (res # rets) = (if res = - EAGAIN then retry_while_eagain rets else Some res)"

definition fev_mutex_try_lock_until :: "u32 \<Rightarrow> int list \<Rightarrow> int option" where
  "fev_mutex_try_lock_until state rets =
     (if snd (fev_mutex_try_lock state) then Some 0 else retry_while_eagain rets)"

text \<open>\<open>fev_mutex_try_lock_for\<close> computes the absolute time on its slow path only.\<close>

definition fev_mutex_try_lock_for :: "u32 \<Rightarrow> timespec \<Rightarrow> timespec \<Rightarrow> (timespec \<Rightarrow> int list) \<Rightarrow> int option option" where
  "fev_mutex_try_lock_for state now rel_time rets =
     (if snd (fev_mutex_try_lock state) then Some (Some 0)
      else do { abs_time \<leftarrow> fev_get_abs_time_since_now now rel_time;
                Some (retry_while_eagain (rets abs_time)) })"

section \<open>The condition variable\<close>

record fev_cond =
  cv_wq :: fev_waiters_queue

definition fev_cond_init :: "int \<Rightarrow> int + fev_cond" where
  "fev_cond_init lock_ret =
     (case fev_waiters_queue_init lock_ret of Inl ret \<Rightarrow> Inl ret | Inr q \<Rightarrow> Inr \<lparr>cv_wq = q\<rparr>)"

definition fev_cond_create :: "addr \<Rightarrow> int \<Rightarrow> int \<times> (addr \<times> fev_cond) option \<times> addr list" where
  "fev_cond_create malloc lock_ret =
     (if malloc = 0 then (- ENOMEM, None, [])
      else case fev_cond_init lock_ret of
             Inl ret \<Rightarrow> (ret, None, remove1 malloc [malloc])
           | Inr c \<Rightarrow> (0, Some (malloc, c), [malloc]))"

definition fev_cond_destroy :: "addr \<Rightarrow> addr list \<Rightarrow> addr list option" where
  "fev_cond_destroy cond live = free_in cond live"

text \<open>
  The recheck of a condition wait unlocks the mutex, inside the lock of the condition's queue. Its state
  is the store, the mutex and the fibers that the unlock woke.
\<close>

definition fev_cond_wait_recheck ::
  "node_store \<times> fev_mutex \<times> fiber_ptr list \<Rightarrow> ((node_store \<times> fev_mutex \<times> fiber_ptr list) \<times> bool) option" where
  "fev_cond_wait_recheck =
     (\<lambda>(st, m, woken). do { (st, m, fs) \<leftarrow> fev_mutex_unlock st m; Some ((st, m, woken @ fs), True) })"

text \<open>
  \<open>fev_cond_wait\<close> and \<open>fev_cond_wait_until\<close> up to the wait. The recheck runs after the waiter's own fields
  were written and before the node is queued; as it does not read the node, it is run first here, on the
  store without it. This is what the call does from the moment its fiber owns the lock of the condition's
  queue, as one operation; other fibers that run between the unlock of the mutex and the insertion of the
  node, and the order of these with respect to the queue's lock, are the subject of theory
  \<open>Cond_Concurrent\<close>.
\<close>

definition fev_cond_wait_begin ::
  "wq_node \<Rightarrow> fiber_ptr \<Rightarrow> addr \<Rightarrow> node_store \<Rightarrow> fev_cond \<Rightarrow> fev_mutex \<Rightarrow>
     (bool \<times> node_store \<times> fev_cond \<times> fev_mutex \<times> fiber_ptr list) option" where
  "fev_cond_wait_begin g cur_fiber node st c m =
     do { ((st', m, fs), do_wait) \<leftarrow> fev_cond_wait_recheck (st, m, []);
          (do_wait, _, st', q, woken) \<leftarrow>
            fev_waiters_queue_wait_begin (Some (\<lambda>u. Some (u, do_wait))) () g cur_fiber node st' (cv_wq c);
          Some (do_wait, st', c\<lparr>cv_wq := q\<rparr>, m, fs @ woken) }"

text \<open>
  \<open>fev_cond_wait_until\<close> after the wait, which returned \<open>res\<close>: the mutex is taken again only for 0 and
  \<open>-EAGAIN\<close>, with \<open>relock\<close> the result of \<open>fev_mutex_try_lock_until\<close>. The second component tells whether
  the mutex is held.
\<close>

definition fev_cond_wait_until_end :: "int \<Rightarrow> int \<Rightarrow> (int \<times> bool) option" where
  "fev_cond_wait_until_end res relock =
     (if res = - ENOMEM \<or> res = - ETIMEDOUT then Some (res, False)
      else do { fev_assert (res = 0 \<or> res = - EAGAIN); Some (relock, relock = 0) })"

text \<open>\<open>fev_cond_wait_for\<close>: the deadline that is passed to \<open>fev_cond_wait_until\<close>.\<close>

definition fev_cond_wait_for :: "timespec \<Rightarrow> timespec \<Rightarrow> (timespec \<Rightarrow> (int \<times> bool) option) \<Rightarrow> (int \<times> bool) option" where
  "fev_cond_wait_for now rel_time wait_until =
     do { abs_time \<leftarrow> fev_get_abs_time_since_now now rel_time; wait_until abs_time }"

definition fev_cond_notify_one :: "node_store \<Rightarrow> fev_cond \<Rightarrow> (node_store \<times> fev_cond \<times> fiber_ptr list) option" where
  "fev_cond_notify_one st c =
     do { (_, st, q, woken) \<leftarrow> fev_waiters_queue_wake 1 None () st (cv_wq c); Some (st, c\<lparr>cv_wq := q\<rparr>, woken) }"

definition fev_cond_notify_all :: "node_store \<Rightarrow> fev_cond \<Rightarrow> (node_store \<times> fev_cond \<times> fiber_ptr list) option" where
  "fev_cond_notify_all st c =
     do { (_, st, q, woken) \<leftarrow> fev_waiters_queue_wake (- 1) None () st (cv_wq c); Some (st, c\<lparr>cv_wq := q\<rparr>, woken) }"

section \<open>The semaphore\<close>

text \<open>\<open>value\<close> is an \<open>int32_t\<close>; its increment past \<open>INT32_MAX\<close> is a fault.\<close>

record fev_sem =
  sem_value :: int
  sem_wq :: fev_waiters_queue

definition INT32_MAX :: int where
  "INT32_MAX = 2 ^ 31 - 1"

definition fev_sem_init :: "int \<Rightarrow> int \<Rightarrow> int + fev_sem" where
  "fev_sem_init lock_ret v =
     (case fev_waiters_queue_init lock_ret of Inl ret \<Rightarrow> Inl ret | Inr q \<Rightarrow> Inr \<lparr>sem_value = v, sem_wq = q\<rparr>)"

definition fev_sem_create :: "addr \<Rightarrow> int \<Rightarrow> int \<Rightarrow> int \<times> (addr \<times> fev_sem) option \<times> addr list" where
  "fev_sem_create malloc lock_ret v =
     (if malloc = 0 then (- ENOMEM, None, [])
      else case fev_sem_init lock_ret v of
             Inl ret \<Rightarrow> (ret, None, remove1 malloc [malloc])
           | Inr s \<Rightarrow> (0, Some (malloc, s), [malloc]))"

definition fev_sem_destroy :: "addr \<Rightarrow> addr list \<Rightarrow> addr list option" where
  "fev_sem_destroy sem live = free_in sem live"

definition fev_sem_wait_recheck :: "int \<Rightarrow> (int \<times> bool) option" where
  "fev_sem_wait_recheck v = Some (if v > 0 then (v - 1, False) else (v, True))"

definition fev_sem_post_callback :: "int \<Rightarrow> u32 \<Rightarrow> bool \<Rightarrow> int option" where
  "fev_sem_post_callback v num_woken is_empty =
     do { fev_assert (num_woken \<le> 1);
          if num_woken = 0 then do { fev_assert (v < INT32_MAX); Some (v + 1) } else Some v }"

text \<open>\<open>fev_sem_wait\<close> and \<open>fev_sem_wait_until\<close> up to the wait; \<open>False\<close>: a unit was taken.\<close>

definition fev_sem_wait_begin ::
  "wq_node \<Rightarrow> fiber_ptr \<Rightarrow> addr \<Rightarrow> node_store \<Rightarrow> fev_sem \<Rightarrow> (bool \<times> node_store \<times> fev_sem \<times> fiber_ptr list) option" where
  "fev_sem_wait_begin g cur_fiber node st s =
     do { (do_wait, v, st, q, woken) \<leftarrow>
            fev_waiters_queue_wait_begin (Some fev_sem_wait_recheck) (sem_value s) g cur_fiber node st (sem_wq s);
          Some (do_wait, st, \<lparr>sem_value = v, sem_wq = q\<rparr>, woken) }"

definition fev_sem_wait_until :: "int list \<Rightarrow> int option" where
  "fev_sem_wait_until rets = retry_while_eagain rets"

definition fev_sem_wait_for :: "timespec \<Rightarrow> timespec \<Rightarrow> (timespec \<Rightarrow> int list) \<Rightarrow> int option option" where
  "fev_sem_wait_for now rel_time rets =
     do { abs_time \<leftarrow> fev_get_abs_time_since_now now rel_time; Some (fev_sem_wait_until (rets abs_time)) }"

definition fev_sem_post :: "node_store \<Rightarrow> fev_sem \<Rightarrow> (node_store \<times> fev_sem \<times> fiber_ptr list) option" where
  "fev_sem_post st s =
     do { (v, st, q, woken) \<leftarrow> fev_waiters_queue_wake 1 (Some fev_sem_post_callback) (sem_value s) st (sem_wq s);
          Some (st, \<lparr>sem_value = v, sem_wq = q\<rparr>, woken) }"

section \<open>What the operations promise\<close>

text \<open>
  Releasing a mutex through its slow path hands it over: if some queued fiber has not been claimed by a
  time-out, the first such fiber is claimed with \<open>FEV_WAITER_READY\<close> and the state stays non-zero (1 exactly
  when the queue is now empty), so that nobody can take the mutex in between; otherwise the state is 0 and
  the queue, which held only timed-out fibers, is empty.
\<close>

theorem fev_mutex_unlock_hands_over:
  assumes "mx_state m = 2" "queue_inv st (wq_nodes (mx_wq m))" "ilock_owned (wq_lock (mx_wq m))"
    and "length (wq_nodes (mx_wq m)) < 2 ^ 32 - 1"
  shows "\<exists>st' m' woken. fev_mutex_unlock st m = Some (st', m', woken) \<and>
     (if \<exists>n\<in>set (wq_nodes (mx_wq m)). pending st n
      then \<exists>pre n rest. wq_nodes (mx_wq m) = pre @ n # rest \<and> pending st n \<and> (\<forall>k\<in>set pre. \<not> pending st k) \<and>
        st' = wake_nodes (set (pre @ [n])) st \<and> wq_nodes (mx_wq m') = rest \<and>
        mx_state m' = (if rest = [] then 1 else 2) \<and> (suspended st n \<longrightarrow> fiber_of st n \<in> set woken)
      else mx_state m' = 0 \<and> wq_nodes (mx_wq m') = [])"
proof -
  obtain lk woken where u: "fev_ilock_unlock_and_wake (wq_lock (mx_wq m)) = Some (lk, woken)"
    using ilock_unlock_and_wake_owned [OF assms(3)] by blast
  note one = waiters_queue_wake_one [OF assms(2-4) u, of fev_mutex_unlock_callback "mx_state m"]
  show ?thesis
  proof (cases "\<exists>n\<in>set (wq_nodes (mx_wq m)). pending st n")
    case True
    with one obtain pre n rest where n: "wq_nodes (mx_wq m) = pre @ n # rest" "pending st n" "\<forall>k\<in>set pre. \<not> pending st k"
        "fev_waiters_queue_wake 1 (Some fev_mutex_unlock_callback) (mx_state m) st (mx_wq m) =
         (case fev_mutex_unlock_callback (mx_state m) 1 (rest = []) of None \<Rightarrow> None
          | Some arg' \<Rightarrow> Some (arg', wake_nodes (set (pre @ [n])) st, \<lparr>wq_lock = lk, wq_nodes = rest\<rparr>,
              (if suspended st n then [fiber_of st n] else []) @ woken))"
      by (simp only: if_True) blast
    then have r: "fev_mutex_unlock st m =
        Some (wake_nodes (set (pre @ [n])) st, \<lparr>mx_state = (if rest = [] then 1 else 2), mx_wq = \<lparr>wq_lock = lk, wq_nodes = rest\<rparr>\<rparr>,
          (if suspended st n then [fiber_of st n] else []) @ woken)"
      using assms(1) by (simp add: fev_mutex_unlock_def fev_mutex_unlock_callback_def)
    show ?thesis unfolding r using n(1-3) True by (simp only: if_True option.inject prod.inject) fastforce
  next
    case False
    with one have "fev_mutex_unlock st m = Some (wake_nodes (set (wq_nodes (mx_wq m))) st, \<lparr>mx_state = 0, mx_wq = \<lparr>wq_lock = lk, wq_nodes = []\<rparr>\<rparr>, woken)"
      using assms(1) by (simp add: fev_mutex_unlock_def fev_mutex_unlock_callback_def)
    then show ?thesis using False by simp
  qed
qed

text \<open>
  A semaphore post gives its unit either to the first waiting fiber that no time-out has claimed, leaving
  the value, or to the value, when no such fiber exists.
\<close>

theorem fev_sem_post_gives_one_unit:
  assumes "sem_value s < INT32_MAX" "queue_inv st (wq_nodes (sem_wq s))" "ilock_owned (wq_lock (sem_wq s))"
    and "length (wq_nodes (sem_wq s)) < 2 ^ 32 - 1"
  shows "\<exists>st' s' woken. fev_sem_post st s = Some (st', s', woken) \<and>
     (if \<exists>n\<in>set (wq_nodes (sem_wq s)). pending st n
      then sem_value s' = sem_value s \<and>
        (\<exists>pre n rest. wq_nodes (sem_wq s) = pre @ n # rest \<and> pending st n \<and> (\<forall>k\<in>set pre. \<not> pending st k) \<and>
          st' = wake_nodes (set (pre @ [n])) st \<and> wq_nodes (sem_wq s') = rest)
      else sem_value s' = sem_value s + 1 \<and> wq_nodes (sem_wq s') = [])"
proof -
  obtain lk woken where u: "fev_ilock_unlock_and_wake (wq_lock (sem_wq s)) = Some (lk, woken)"
    using ilock_unlock_and_wake_owned [OF assms(3)] by blast
  note one = waiters_queue_wake_one [OF assms(2-4) u, of fev_sem_post_callback "sem_value s"]
  show ?thesis
  proof (cases "\<exists>n\<in>set (wq_nodes (sem_wq s)). pending st n")
    case True
    with one obtain pre n rest where n: "wq_nodes (sem_wq s) = pre @ n # rest" "pending st n" "\<forall>k\<in>set pre. \<not> pending st k"
        "fev_waiters_queue_wake 1 (Some fev_sem_post_callback) (sem_value s) st (sem_wq s) =
         (case fev_sem_post_callback (sem_value s) 1 (rest = []) of None \<Rightarrow> None
          | Some arg' \<Rightarrow> Some (arg', wake_nodes (set (pre @ [n])) st, \<lparr>wq_lock = lk, wq_nodes = rest\<rparr>,
              (if suspended st n then [fiber_of st n] else []) @ woken))"
      by (simp only: if_True) blast
    then have r: "fev_sem_post st s =
        Some (wake_nodes (set (pre @ [n])) st, \<lparr>sem_value = sem_value s, sem_wq = \<lparr>wq_lock = lk, wq_nodes = rest\<rparr>\<rparr>,
          (if suspended st n then [fiber_of st n] else []) @ woken)"
      using assms(1) by (simp add: fev_sem_post_def fev_sem_post_callback_def)
    show ?thesis unfolding r using n(1-3) True by (simp only: if_True option.inject prod.inject) fastforce
  next
    case False
    with one have "fev_sem_post st s = Some (wake_nodes (set (wq_nodes (sem_wq s))) st, \<lparr>sem_value = sem_value s + 1, sem_wq = \<lparr>wq_lock = lk, wq_nodes = []\<rparr>\<rparr>, woken)"
      using assms(1) by (simp add: fev_sem_post_def fev_sem_post_callback_def)
    then show ?thesis using False by simp
  qed
qed

text \<open>A waiter that was pending and has been woken carries the reason \<open>FEV_WAITER_READY\<close>.\<close>

lemma wake_nodes_ready:
  assumes "queue_inv st nodes" "n \<in> set nodes" "n \<in> A" "pending st n"
  shows "\<exists>nd. wake_nodes A st n = Some nd \<and> n_deleted nd \<and> w_reason (n_waiter nd) = FEV_WAITER_READY"
proof -
  obtain nd where nd: "st n = Some nd" "w_do_wake (n_waiter nd) \<le> 1"
    using assms(1,2) by (auto simp: queue_inv_def)
  then have "w_reason (n_waiter nd) = FEV_WAITER_NONE" using assms(4) by (simp add: pending_def)
  then show ?thesis using nd assms(3)
    by (auto simp: wake_nodes_def woken_node_def fev_waiter_wake_def wake_asserts_def reason_defs Let_def)
qed

text \<open>The mutex as its owner finds it when it releases it.\<close>

definition mutex_releasable :: "node_store \<Rightarrow> fev_mutex \<Rightarrow> bool" where
  "mutex_releasable st m \<longleftrightarrow>
     mx_state m = 1 \<or>
     mx_state m = 2 \<and> queue_inv st (wq_nodes (mx_wq m)) \<and> ilock_owned (wq_lock (mx_wq m)) \<and>
       length (wq_nodes (mx_wq m)) < 2 ^ 32 - 1"

lemma mutex_unlock_frame:
  assumes "mutex_releasable st m"
  shows "\<exists>st' m' woken. fev_mutex_unlock st m = Some (st', m', woken) \<and>
     (\<forall>n. n \<notin> set (wq_nodes (mx_wq m)) \<longrightarrow> st' n = st n)"
proof (cases "mx_state m = 1")
  case True
  then show ?thesis by (simp add: fev_mutex_unlock_def)
next
  case False
  then have m: "mx_state m = 2" "queue_inv st (wq_nodes (mx_wq m))" "ilock_owned (wq_lock (mx_wq m))"
      "length (wq_nodes (mx_wq m)) < 2 ^ 32 - 1"
    using assms by (auto simp: mutex_releasable_def)
  obtain lk woken where u: "fev_ilock_unlock_and_wake (wq_lock (mx_wq m)) = Some (lk, woken)"
    using ilock_unlock_and_wake_owned [OF m(3)] by blast
  show ?thesis
  proof (cases "\<exists>n\<in>set (wq_nodes (mx_wq m)). pending st n")
    case True
    then obtain pre n rest where "wq_nodes (mx_wq m) = pre @ n # rest"
        "fev_waiters_queue_wake 1 (Some fev_mutex_unlock_callback) (mx_state m) st (mx_wq m) =
         Some (if rest = [] then 1 else mx_state m, wake_nodes (set (pre @ [n])) st, \<lparr>wq_lock = lk, wq_nodes = rest\<rparr>,
              (if suspended st n then [fiber_of st n] else []) @ woken)"
      using waiters_queue_wake_one [OF m(2-4) u, of fev_mutex_unlock_callback "mx_state m"]
      by (auto simp: fev_mutex_unlock_callback_def)
    then show ?thesis using m(1) by (simp add: fev_mutex_unlock_def wake_nodes_def)
  next
    case False
    then show ?thesis
      using waiters_queue_wake_one [OF m(2-4) u, of fev_mutex_unlock_callback "mx_state m"] m(1)
      by (simp add: fev_mutex_unlock_callback_def fev_mutex_unlock_def wake_nodes_def)
  qed
qed

lemma cond_wait_begin_spec:
  assumes "mutex_releasable st m" "queue_inv st (wq_nodes (cv_wq c))" "ilock_owned (wq_lock (cv_wq c))" "f \<noteq> 0"
    and "node \<notin> set (wq_nodes (cv_wq c))" "set (wq_nodes (mx_wq m)) \<inter> set (wq_nodes (cv_wq c)) = {}"
  shows "\<exists>st1 m' fs st' c' woken. fev_mutex_unlock st m = Some (st1, m', fs) \<and>
     fev_cond_wait_begin g f node st c m = Some (True, st', c', m', fs @ woken) \<and>
     wq_nodes (cv_wq c') = wq_nodes (cv_wq c) @ [node] \<and> queue_inv st' (wq_nodes (cv_wq c')) \<and>
     pending st' node \<and> (\<forall>n\<in>set (wq_nodes (cv_wq c)). st' n = st n)"
proof -
  obtain st1 m' fs where u: "fev_mutex_unlock st m = Some (st1, m', fs)"
      "\<forall>n. n \<notin> set (wq_nodes (mx_wq m)) \<longrightarrow> st1 n = st n"
    using mutex_unlock_frame [OF assms(1)] by blast
  have same: "\<forall>n\<in>set (wq_nodes (cv_wq c)). st1 n = st n" using u(2) assms(6) by blast
  then have inv: "queue_inv st1 (wq_nodes (cv_wq c))" using assms(2) unfolding queue_inv_def by simp
  obtain st' q' woken where w: "fev_waiters_queue_wait_begin (Some (\<lambda>u. Some (u, True))) () g f node st1 (cv_wq c) = Some (True, (), st', q', woken)"
      "queue_inv st' (wq_nodes q')" "wq_nodes q' = wq_nodes (cv_wq c) @ [node]" "pending st' node" "\<forall>n. n \<noteq> node \<longrightarrow> st' n = st1 n"
    using waiters_queue_wait_joins [where recheck = "\<lambda>u. Some (u, True)" and arg = "()" and g = g, OF inv assms(3,4,5) refl]
    unfolding if_True HOL.simp_thms by blast
  have "fev_cond_wait_begin g f node st c m = Some (True, st', c\<lparr>cv_wq := q'\<rparr>, m', fs @ woken)"
    using u(1) w(1) by (simp add: fev_cond_wait_begin_def fev_cond_wait_recheck_def)
  moreover have "\<forall>n\<in>set (wq_nodes (cv_wq c)). st' n = st n" using same w(5) assms(5) by metis
  ultimately show ?thesis using u(1) w(2,3,4)
    by (intro exI [of _ st1] exI [of _ m'] exI [of _ fs] exI [of _ st'] exI [of _ "c\<lparr>cv_wq := q'\<rparr>"] exI [of _ woken]) simp
qed

lemma cond_notify_all_spec:
  assumes "queue_inv st (wq_nodes (cv_wq c))" "ilock_owned (wq_lock (cv_wq c))" "length (wq_nodes (cv_wq c)) < 2 ^ 32 - 1"
  shows "\<exists>c' woken. fev_cond_notify_all st c = Some (wake_nodes (set (wq_nodes (cv_wq c))) st, c', woken) \<and>
     wq_nodes (cv_wq c') = []"
proof -
  obtain popped rest lk woken where p: "wq_nodes (cv_wq c) = popped @ rest"
      "rest \<noteq> [] \<longrightarrow> length (filter (pending st) popped) = unat (- 1 :: u32)"
      "fev_waiters_queue_wake (- 1) None () st (cv_wq c) =
        Some ((), wake_nodes (set popped) st, \<lparr>wq_lock = lk, wq_nodes = rest\<rparr>, woken)"
    using waiters_queue_wake_spec [OF assms, of "- 1" None "()"] unfolding option.case by blast
  have "length (filter (pending st) popped) \<le> length popped" by simp
  also have "\<dots> < 2 ^ 32 - 1" using assms(3) p(1) by simp
  finally have "rest = []" using p(2) by (auto simp: unsigned_minus_1_eq_mask mask_eq_exp_minus_1)
  then show ?thesis using p by (simp add: fev_cond_notify_all_def)
qed

text \<open>
  The two operations one after the other: a wait that has queued its node is woken by a \<open>fev_cond_notify_all\<close>
  that then owns the condition's lock, as is every other fiber that waited unclaimed.
\<close>

lemma cond_wait_then_notify_all:
  assumes "mutex_releasable st m" "queue_inv st (wq_nodes (cv_wq c))" "ilock_owned (wq_lock (cv_wq c))" "f \<noteq> 0"
    and "node \<notin> set (wq_nodes (cv_wq c))" "set (wq_nodes (mx_wq m)) \<inter> set (wq_nodes (cv_wq c)) = {}"
    and "length (wq_nodes (cv_wq c)) < 2 ^ 32 - 2" "ilock_owned lk"
  shows "\<exists>st1 m' fs st' c' woken st'' c'' woken'. fev_mutex_unlock st m = Some (st1, m', fs) \<and>
     fev_cond_wait_begin g f node st c m = Some (True, st', c', m', fs @ woken) \<and>
     fev_cond_notify_all st' (c'\<lparr>cv_wq := (cv_wq c')\<lparr>wq_lock := lk\<rparr>\<rparr>) = Some (st'', c'', woken') \<and>
     wq_nodes (cv_wq c'') = [] \<and>
     (\<forall>n \<in> insert node {n \<in> set (wq_nodes (cv_wq c)). pending st n}.
        \<exists>nd. st'' n = Some nd \<and> n_deleted nd \<and> w_reason (n_waiter nd) = FEV_WAITER_READY)"
proof -
  obtain st1 m' fs st' c' woken where b: "fev_mutex_unlock st m = Some (st1, m', fs)"
      "fev_cond_wait_begin g f node st c m = Some (True, st', c', m', fs @ woken)"
      "wq_nodes (cv_wq c') = wq_nodes (cv_wq c) @ [node]" "queue_inv st' (wq_nodes (cv_wq c'))"
      "pending st' node" "\<forall>n\<in>set (wq_nodes (cv_wq c)). st' n = st n"
    using cond_wait_begin_spec [OF assms(1-6)] by blast
  let ?c = "c'\<lparr>cv_wq := (cv_wq c')\<lparr>wq_lock := lk\<rparr>\<rparr>"
  obtain c'' woken' where a: "fev_cond_notify_all st' ?c = Some (wake_nodes (set (wq_nodes (cv_wq c'))) st', c'', woken')"
      "wq_nodes (cv_wq c'') = []"
    using cond_notify_all_spec [of st' ?c] assms(7,8) b(3,4) by auto
  have "\<exists>nd. wake_nodes (set (wq_nodes (cv_wq c'))) st' n = Some nd \<and> n_deleted nd \<and> w_reason (n_waiter nd) = FEV_WAITER_READY"
    if "n \<in> insert node {n \<in> set (wq_nodes (cv_wq c)). pending st n}" for n
    by (rule wake_nodes_ready [OF b(4)]) (use that b(3,5,6) in \<open>auto simp: pending_def\<close>)
  then show ?thesis using a b(1,2) by blast
qed

section \<open>Witnesses\<close>

lemma three_pending: "\<exists>n\<in>set (wq_nodes three_queue). pending three_nodes n"
  by (simp add: three_queue_def three_nodes_def pending_def mk_waiter_def reason_defs)

theorem fev_mutex_unlock_hands_over_witness:
  "\<exists>st' m' woken. fev_mutex_unlock three_nodes \<lparr>mx_state = 2, mx_wq = three_queue\<rparr> = Some (st', m', woken) \<and> mx_state m' \<noteq> 0"
  using fev_mutex_unlock_hands_over [of "\<lparr>mx_state = 2, mx_wq = three_queue\<rparr>" three_nodes] three_facts three_pending
  by (auto split: if_splits)

theorem fev_sem_post_gives_one_unit_witness:
  "\<exists>st' s' woken. fev_sem_post three_nodes \<lparr>sem_value = 0, sem_wq = three_queue\<rparr> = Some (st', s', woken) \<and> sem_value s' = 0"
  using fev_sem_post_gives_one_unit [of "\<lparr>sem_value = 0, sem_wq = three_queue\<rparr>" three_nodes] three_facts three_pending
  by (auto simp: INT32_MAX_def)

end
