(* ===== verification/Mutex_Concurrent.thy ===== *)
theory Mutex_Concurrent
  imports Sync
begin

text \<open>
  The mutex under concurrency. The fast paths of \<open>fev_mutex_try_lock\<close> and \<open>fev_mutex_unlock\<close> touch the state
  without the queue's lock, so the exclusion argument is not sequential. The system has one program
  counter per access to the state or to the queue. The queue's lock is a lock that excludes (theory
  \<open>Ilock\<close>); a waiter is the result of its wait: pending, claimed by an unlocking fiber, or claimed by a
  time-out, exactly one of which happens (theory \<open>Waiter\<close>).
\<close>

section \<open>The system\<close>

datatype mx_pc =
    XIdle
  | XTry bool \<comment> \<open>at the compare-exchange of a lock call; timed?\<close>
  | XLockQ bool \<comment> \<open>taking the queue's lock in \<open>fev_waiters_queue_wait\<close>\<close>
  | XXchg bool \<comment> \<open>at the exchange of \<open>fev_mutex_lock_recheck\<close>\<close>
  | XStore \<comment> \<open>at its store\<close>
  | XInsert bool
  | XTimerAdd \<comment> \<open>queued, adding the timer in \<open>fev_timed_wait\<close>\<close>
  | XWait bool
  | XCancelQ int \<comment> \<open>taking the queue's lock after a failed wait\<close>
  | XCancel int
  | XHeld
  | XUnlockQ \<comment> \<open>taking the queue's lock in \<open>fev_waiters_queue_wake\<close>\<close>
  | XPop
  | XCallback u32 \<comment> \<open>at \<open>fev_mutex_unlock_callback\<close>, with the number of woken waiters\<close>
  | XFault

text \<open>\<open>fb_res\<close>: the result of the wait, once a handler has claimed the waiter (0 for \<open>FEV_WAITER_READY\<close>).\<close>

record mx_fiber =
  fb_pc :: mx_pc
  fb_res :: "int option"
  fb_del :: bool

text \<open>\<open>xs_leaked\<close> is a ghost: a fiber that had been handed the mutex gave up on \<open>-ENOMEM\<close>.\<close>

record mutex_sys =
  xs_state :: u32
  xs_inner :: "nat option"
  xs_nodes :: "nat list"
  xs_fib :: "nat \<Rightarrow> mx_fiber"
  xs_leaked :: bool

datatype mutex_event =
    MxLock nat bool \<comment> \<open>timed?\<close>
  | MxTryLock nat
  | MxUnlock nat \<comment> \<open>the compare-exchange of \<open>fev_mutex_unlock\<close>\<close>
  | MxStep nat
  | MxTimeout nat int \<comment> \<open>a time-out claims the waiter; what \<open>fev_timed_wait\<close> will return\<close>
  | MxEnomem nat \<comment> \<open>the timer cannot be added\<close>

definition mutex_sys_init :: mutex_sys where
  "mutex_sys_init =
     \<lparr>xs_state = 0, xs_inner = None, xs_nodes = [],
      xs_fib = (\<lambda>_. \<lparr>fb_pc = XIdle, fb_res = None, fb_del = False\<rparr>), xs_leaked = False\<rparr>"

definition mx_set :: "mutex_sys \<Rightarrow> nat \<Rightarrow> mx_fiber \<Rightarrow> mutex_sys" where
  "mx_set s f b = s\<lparr>xs_fib := (xs_fib s)(f := b)\<rparr>"

definition mx_goto :: "mutex_sys \<Rightarrow> nat \<Rightarrow> mx_pc \<Rightarrow> mutex_sys" where
  "mx_goto s f p = mx_set s f ((xs_fib s f)\<lparr>fb_pc := p\<rparr>)"

text \<open>The fast paths.\<close>

definition mutex_try_lock_step :: "nat \<Rightarrow> mx_pc \<Rightarrow> mutex_sys \<Rightarrow> mutex_sys" where
  "mutex_try_lock_step f failed s =
     (let (state, success) = fev_mutex_try_lock (xs_state s)
      in mx_goto (s\<lparr>xs_state := state\<rparr>) f (if success then XHeld else failed))"

definition mutex_unlock_fast_step :: "nat \<Rightarrow> mutex_sys \<Rightarrow> mutex_sys" where
  "mutex_unlock_fast_step f s =
     (if xs_state s = 1 then mx_goto (s\<lparr>xs_state := 0\<rparr>) f XIdle else mx_goto s f XUnlockQ)"

text \<open>
  \<open>fev_waiters_queue_wait\<close> with \<open>fev_mutex_lock_recheck\<close>. The release of the queue's lock is joined to the
  last statement before it.
\<close>

definition mutex_wait_step :: "nat \<Rightarrow> mutex_sys \<Rightarrow> mutex_sys option" where
  "mutex_wait_step f s =
     (let b = xs_fib s f
      in case fb_pc b of
           XLockQ t \<Rightarrow> if xs_inner s = None then Some (mx_goto (s\<lparr>xs_inner := Some f\<rparr>) f (XXchg t)) else None
         | XXchg t \<Rightarrow> Some (mx_goto (s\<lparr>xs_state := 2\<rparr>) f (if xs_state s = 0 then XStore else XInsert t))
         | XStore \<Rightarrow> Some (mx_goto (s\<lparr>xs_state := 1, xs_inner := None\<rparr>) f XHeld)
         | XInsert t \<Rightarrow>
             Some (mx_set (s\<lparr>xs_nodes := xs_nodes s @ [f], xs_inner := None\<rparr>) f
                     \<lparr>fb_pc = if t then XTimerAdd else XWait False, fb_res = None, fb_del = False\<rparr>)
         | XTimerAdd \<Rightarrow> Some (mx_goto s f (XWait True))
         | XWait t \<Rightarrow>
             (case fb_res b of
                None \<Rightarrow> None
              | Some res \<Rightarrow> Some (mx_goto s f (if res \<noteq> 0 then XCancelQ res else if fb_del b then XHeld else XFault)))
         | _ \<Rightarrow> None)"

text \<open>
  The tail of \<open>fev_waiters_queue_wait\<close> after a failed wait, and the retry of
  \<open>fev_mutex_try_lock_until_slow\<close>.
\<close>

definition mutex_cancel_step :: "nat \<Rightarrow> mutex_sys \<Rightarrow> mutex_sys option" where
  "mutex_cancel_step f s =
     (let b = xs_fib s f
      in case fb_pc b of
           XCancelQ e \<Rightarrow> if xs_inner s = None then Some (mx_goto (s\<lparr>xs_inner := Some f\<rparr>) f (XCancel e)) else None
         | XCancel e \<Rightarrow>
             Some (mx_goto (s\<lparr>xs_nodes := (if fb_del b then xs_nodes s else remove1 f (xs_nodes s)), xs_inner := None,
                       xs_leaked := xs_leaked s \<or> fb_res b = Some 0\<rparr>) f
                     (if e = - EAGAIN then XLockQ True else XIdle))
         | _ \<Rightarrow> None)"

text \<open>\<open>fev_waiters_queue_wake\<close> with \<open>max_waiters\<close> 1 and \<open>fev_mutex_unlock_callback\<close>.\<close>

definition mutex_wake_step :: "nat \<Rightarrow> mutex_sys \<Rightarrow> mutex_sys option" where
  "mutex_wake_step f s =
     (case fb_pc (xs_fib s f) of
        XUnlockQ \<Rightarrow> if xs_inner s = None then Some (mx_goto (s\<lparr>xs_inner := Some f\<rparr>) f XPop) else None
      | XPop \<Rightarrow>
          (case xs_nodes s of
             [] \<Rightarrow> Some (mx_goto s f (XCallback 0))
           | n # rest \<Rightarrow>
               (let s' = s\<lparr>xs_nodes := rest\<rparr>; b = (xs_fib s n)\<lparr>fb_del := True\<rparr>
                in if fb_res b = None then Some (mx_goto (mx_set s' n (b\<lparr>fb_res := Some 0\<rparr>)) f (XCallback 1))
                   else Some (mx_set s' n b)))
      | XCallback num_woken \<Rightarrow>
          (case fev_mutex_unlock_callback (xs_state s) num_woken (xs_nodes s = []) of
             None \<Rightarrow> Some (mx_goto s f XFault)
           | Some state \<Rightarrow> Some (mx_goto (s\<lparr>xs_state := state, xs_inner := None\<rparr>) f XIdle))
      | _ \<Rightarrow> None)"

fun mutex_step :: "mutex_event \<Rightarrow> mutex_sys \<Rightarrow> mutex_sys option" where
  "mutex_step (MxLock f t) s = (if fb_pc (xs_fib s f) = XIdle then Some (mx_goto s f (XTry t)) else None)"
| "mutex_step (MxTryLock f) s = (if fb_pc (xs_fib s f) = XIdle then Some (mutex_try_lock_step f XIdle s) else None)"
| "mutex_step (MxUnlock f) s = (if fb_pc (xs_fib s f) = XHeld then Some (mutex_unlock_fast_step f s) else None)"
| "mutex_step (MxStep f) s =
     (case fb_pc (xs_fib s f) of
        XTry t \<Rightarrow> Some (mutex_try_lock_step f (XLockQ t) s)
      | XCancelQ e \<Rightarrow> mutex_cancel_step f s
      | XCancel e \<Rightarrow> mutex_cancel_step f s
      | XUnlockQ \<Rightarrow> mutex_wake_step f s
      | XPop \<Rightarrow> mutex_wake_step f s
      | XCallback n \<Rightarrow> mutex_wake_step f s
      | _ \<Rightarrow> mutex_wait_step f s)"
| "mutex_step (MxTimeout f e) s =
     (if fb_pc (xs_fib s f) = XWait True \<and> fb_res (xs_fib s f) = None \<and> (e = - ETIMEDOUT \<or> e = - EAGAIN)
      then Some (mx_set s f ((xs_fib s f)\<lparr>fb_res := Some e\<rparr>)) else None)"
| "mutex_step (MxEnomem f) s =
     (if fb_pc (xs_fib s f) = XTimerAdd then Some (mx_goto s f (XCancelQ (- ENOMEM))) else None)"

section \<open>The invariant\<close>

text \<open>
  The fiber owns the mutex: it holds it, or it was handed over to it. Then: it is inside the queue's lock;
  it is in \<open>fev_waiters_queue_wait\<close> after its node was queued; and what holds of every fiber on its own.
\<close>

fun owns_at :: "mx_pc \<Rightarrow> int option \<Rightarrow> bool" where
  "owns_at XStore r = True"
| "owns_at XHeld r = True"
| "owns_at XUnlockQ r = True"
| "owns_at XPop r = True"
| "owns_at (XCallback n) r = (n = 0)"
| "owns_at XTimerAdd r = (r = Some 0)"
| "owns_at (XWait _) r = (r = Some 0)"
| "owns_at (XCancelQ _) r = (r = Some 0)"
| "owns_at (XCancel _) r = (r = Some 0)"
| "owns_at _ r = False"

fun inside_at :: "mx_pc \<Rightarrow> bool" where
  "inside_at (XXchg _) = True"
| "inside_at XStore = True"
| "inside_at (XInsert _) = True"
| "inside_at XPop = True"
| "inside_at (XCallback _) = True"
| "inside_at (XCancel _) = True"
| "inside_at _ = False"

fun waits_at :: "mx_pc \<Rightarrow> bool" where
  "waits_at XTimerAdd = True"
| "waits_at (XWait _) = True"
| "waits_at (XCancelQ _) = True"
| "waits_at (XCancel _) = True"
| "waits_at _ = False"

fun fine_at :: "mx_pc \<Rightarrow> int option \<Rightarrow> bool" where
  "fine_at XFault r = False"
| "fine_at (XCallback n) r = (n \<le> 1)"
| "fine_at XTimerAdd r = (r = None \<or> r = Some 0)"
| "fine_at (XCancelQ e) r = (e \<noteq> 0 \<and> (e = - ENOMEM \<or> r = Some e))"
| "fine_at (XCancel e) r = (e \<noteq> 0 \<and> (e = - ENOMEM \<or> r = Some e))"
| "fine_at _ r = True"

definition mx_owns :: "mx_fiber \<Rightarrow> bool" where
  "mx_owns b \<longleftrightarrow> owns_at (fb_pc b) (fb_res b)"

definition mx_inside :: "mx_fiber \<Rightarrow> bool" where
  "mx_inside b \<longleftrightarrow> inside_at (fb_pc b)"

definition mx_queued :: "mx_fiber \<Rightarrow> bool" where
  "mx_queued b \<longleftrightarrow> waits_at (fb_pc b) \<and> \<not> fb_del b"

definition mx_fine :: "mx_fiber \<Rightarrow> bool" where
  "mx_fine b \<longleftrightarrow>
     fine_at (fb_pc b) (fb_res b) \<and>
     (waits_at (fb_pc b) \<longrightarrow> (fb_res b = Some 0 \<longrightarrow> fb_del b) \<and> (fb_del b \<longrightarrow> fb_res b \<noteq> None))"

fun mx_inside_ok :: "u32 \<Rightarrow> nat list \<Rightarrow> mx_pc \<Rightarrow> bool" where
  "mx_inside_ok st nodes XStore \<longleftrightarrow> st = 2 \<and> nodes = []"
| "mx_inside_ok st nodes (XInsert _) \<longleftrightarrow> st = 2"
| "mx_inside_ok st nodes (XCallback n) \<longleftrightarrow> (if n = 0 then nodes = [] else st = 2)"
| "mx_inside_ok st nodes _ \<longleftrightarrow> True"

definition mutex_roles :: "nat option \<Rightarrow> nat option \<Rightarrow> nat set \<Rightarrow> (nat \<Rightarrow> mx_fiber) \<Rightarrow> bool" where
  "mutex_roles ow inn W fib \<longleftrightarrow>
     sole (\<lambda>f. mx_owns (fib f)) ow \<and> sole (\<lambda>f. mx_inside (fib f)) inn \<and>
     (\<forall>f. f \<in> W \<longleftrightarrow> mx_queued (fib f)) \<and> (\<forall>f. mx_fine (fib f))"

definition mutex_data :: "nat option \<Rightarrow> mutex_sys \<Rightarrow> bool" where
  "mutex_data ow s \<longleftrightarrow>
     distinct (xs_nodes s) \<and>
     (xs_state s = 0 \<or> xs_state s = 1 \<or> xs_state s = 2) \<and>
     (xs_state s = 0 \<longleftrightarrow> ow = None \<and> \<not> xs_leaked s) \<and> (xs_leaked s \<longrightarrow> ow = None) \<and>
     (xs_nodes s \<noteq> [] \<longrightarrow> xs_state s = 2) \<and>
     (case xs_inner s of None \<Rightarrow> True | Some f \<Rightarrow> mx_inside_ok (xs_state s) (xs_nodes s) (fb_pc (xs_fib s f)))"

definition mutex_inv_for :: "nat option \<Rightarrow> mutex_sys \<Rightarrow> bool" where
  "mutex_inv_for ow s \<longleftrightarrow> mutex_roles ow (xs_inner s) (set (xs_nodes s)) (xs_fib s) \<and> mutex_data ow s"

definition mutex_inv :: "mutex_sys \<Rightarrow> bool" where
  "mutex_inv s \<longleftrightarrow> (\<exists>ow. mutex_inv_for ow s)"

lemma mx_set_simps [simp]:
  "xs_state (mx_set s f b) = xs_state s" "xs_inner (mx_set s f b) = xs_inner s"
  "xs_nodes (mx_set s f b) = xs_nodes s" "xs_leaked (mx_set s f b) = xs_leaked s"
  "xs_fib (mx_set s f b) = (xs_fib s)(f := b)"
  by (simp_all add: mx_set_def)

lemma mutex_roles_at:
  assumes "mutex_roles ow inn W fib"
  shows "(ow = Some f \<longleftrightarrow> mx_owns (fib f)) \<and> (inn = Some f \<longleftrightarrow> mx_inside (fib f)) \<and>
     (f \<in> W \<longleftrightarrow> mx_queued (fib f)) \<and> mx_fine (fib f)"
  using assms unfolding mutex_roles_def sole_def by simp

lemma mutex_roles_upd:
  assumes "mutex_roles ow inn W fib" and "mx_fine b"
    and "mx_owns b \<longrightarrow> ow = None \<or> ow = Some f" and "mx_inside b \<longrightarrow> inn = None \<or> inn = Some f"
    and "ow' = sole_next (mx_owns b) f ow" and "inn' = sole_next (mx_inside b) f inn"
    and "W' = (if mx_queued b then insert f W else W - {f})"
  shows "mutex_roles ow' inn' W' (fib(f := b))"
proof -
  have "sole (\<lambda>u. mx_owns ((fib(f := b)) u)) ow'" "sole (\<lambda>u. mx_inside ((fib(f := b)) u)) inn'"
    using assms unfolding mutex_roles_def
    by (blast intro: sole_upd [where h = mx_owns] sole_upd [where h = mx_inside])+
  then show ?thesis using assms unfolding mutex_roles_def by auto
qed

lemma mutex_inv_for_at:
  assumes "mutex_inv_for ow s"
  shows "(ow = Some f \<longleftrightarrow> mx_owns (xs_fib s f)) \<and> (xs_inner s = Some f \<longleftrightarrow> mx_inside (xs_fib s f)) \<and>
     (f \<in> set (xs_nodes s) \<longleftrightarrow> mx_queued (xs_fib s f)) \<and> mx_fine (xs_fib s f) \<and> mutex_data ow s"
  using assms mutex_roles_at unfolding mutex_inv_for_def by blast

text \<open>A step that changes one fiber only.\<close>

lemma mutex_inv_for_upd:
  assumes inv: "mutex_inv_for ow s" and fib: "xs_fib s' = (xs_fib s)(f := b)" and "mx_fine b"
    and "mx_owns b \<longrightarrow> ow = None \<or> ow = Some f" and "mx_inside b \<longrightarrow> xs_inner s = None \<or> xs_inner s = Some f"
    and "xs_inner s' = sole_next (mx_inside b) f (xs_inner s)"
    and "set (xs_nodes s') = (if mx_queued b then insert f (set (xs_nodes s)) else set (xs_nodes s) - {f})"
    and "mutex_data (sole_next (mx_owns b) f ow) s'"
  shows "mutex_inv s'"
proof -
  have "mutex_roles (sole_next (mx_owns b) f ow) (xs_inner s') (set (xs_nodes s')) (xs_fib s')"
    unfolding fib by (rule mutex_roles_upd) (use assms in \<open>simp_all add: mutex_inv_for_def\<close>)
  with assms(8) show ?thesis unfolding mutex_inv_def mutex_inv_for_def by blast
qed

lemmas mx_preds = mx_owns_def mx_inside_def mx_queued_def mx_fine_def

lemma mx_inside_ok_not2 [simp]: "mx_inside_ok 1 nodes p \<longleftrightarrow> mx_inside_ok 0 nodes p"
  by (cases p) auto

lemma mutex_begin_inv:
  assumes inv: "mutex_inv_for ow s" and "fb_pc (xs_fib s f) = XIdle"
  shows "mutex_inv (mx_goto s f (XTry t))"
  using assms(2-) mutex_inv_for_at [OF inv, of f]
  by - (rule mutex_inv_for_upd [OF inv, where f = f and b = "(xs_fib s f)\<lparr>fb_pc := XTry t\<rparr>"];
        (simp add:  mx_goto_def mx_preds sole_next_def)?;
        (auto simp: mutex_data_def split: option.splits)?)

lemma mutex_try_inv:
  assumes inv: "mutex_inv_for ow s" and "fb_pc (xs_fib s f) = XTry t"
  shows "mutex_inv (mutex_try_lock_step f (XLockQ t) s)"
  using assms(2-) mutex_inv_for_at [OF inv, of f]
  by - (rule mutex_inv_for_upd [OF inv, where f = f and b = "(xs_fib s f)\<lparr>fb_pc := if xs_state s = 0 then XHeld else XLockQ t\<rparr>"];
        (simp add: mutex_try_lock_step_def fev_mutex_try_lock_def mx_goto_def mx_preds sole_next_def)?;
        (auto simp: mutex_data_def split: option.splits)?)

lemma mutex_try_only_inv:
  assumes inv: "mutex_inv_for ow s" and "fb_pc (xs_fib s f) = XIdle"
  shows "mutex_inv (mutex_try_lock_step f XIdle s)"
  using assms(2-) mutex_inv_for_at [OF inv, of f]
  by - (rule mutex_inv_for_upd [OF inv, where f = f and b = "(xs_fib s f)\<lparr>fb_pc := if xs_state s = 0 then XHeld else XIdle\<rparr>"];
        (simp add: mutex_try_lock_step_def fev_mutex_try_lock_def mx_goto_def mx_preds sole_next_def)?;
        (auto simp: mutex_data_def split: option.splits)?)

lemma mutex_unlock_fast_inv:
  assumes inv: "mutex_inv_for ow s" and "fb_pc (xs_fib s f) = XHeld"
  shows "mutex_inv (mutex_unlock_fast_step f s)"
  using assms(2-) mutex_inv_for_at [OF inv, of f]
  by - (rule mutex_inv_for_upd [OF inv, where f = f and b = "(xs_fib s f)\<lparr>fb_pc := if xs_state s = 1 then XIdle else XUnlockQ\<rparr>"];
        (simp add: mutex_unlock_fast_step_def mx_goto_def mx_preds sole_next_def)?;
        (auto simp: mutex_data_def split: option.splits)?)

lemma mutex_lockq_inv:
  assumes inv: "mutex_inv_for ow s" and "fb_pc (xs_fib s f) = XLockQ t" "xs_inner s = None"
  shows "mutex_inv (mx_goto (s\<lparr>xs_inner := Some f\<rparr>) f (XXchg t))"
  using assms(2-) mutex_inv_for_at [OF inv, of f]
  by - (rule mutex_inv_for_upd [OF inv, where f = f and b = "(xs_fib s f)\<lparr>fb_pc := XXchg t\<rparr>"];
        (simp add:  mx_goto_def mx_preds sole_next_def)?;
        (auto simp: mutex_data_def split: option.splits)?)

lemma mutex_xchg_inv:
  assumes inv: "mutex_inv_for ow s" and "fb_pc (xs_fib s f) = XXchg t"
  shows "mutex_inv (mx_goto (s\<lparr>xs_state := 2\<rparr>) f (if xs_state s = 0 then XStore else XInsert t))"
  using assms(2-) mutex_inv_for_at [OF inv, of f]
  by - (rule mutex_inv_for_upd [OF inv, where f = f and b = "(xs_fib s f)\<lparr>fb_pc := if xs_state s = 0 then XStore else XInsert t\<rparr>"];
        (simp add:  mx_goto_def mx_preds sole_next_def)?;
        (auto simp: mutex_data_def split: option.splits)?)

lemma mutex_store_inv:
  assumes inv: "mutex_inv_for ow s" and "fb_pc (xs_fib s f) = XStore"
  shows "mutex_inv (mx_goto (s\<lparr>xs_state := 1, xs_inner := None\<rparr>) f XHeld)"
  using assms(2-) mutex_inv_for_at [OF inv, of f]
  by - (rule mutex_inv_for_upd [OF inv, where f = f and b = "(xs_fib s f)\<lparr>fb_pc := XHeld\<rparr>"];
        (simp add:  mx_goto_def mx_preds sole_next_def)?;
        (auto simp: mutex_data_def split: option.splits)?)

lemma mutex_insert_inv:
  assumes inv: "mutex_inv_for ow s" and "fb_pc (xs_fib s f) = XInsert t" "p = XTimerAdd \<or> p = XWait False"
  shows "mutex_inv (mx_set (s\<lparr>xs_nodes := xs_nodes s @ [f], xs_inner := None\<rparr>) f \<lparr>fb_pc = p, fb_res = None, fb_del = False\<rparr>)"
  using assms(2-) mutex_inv_for_at [OF inv, of f]
  by - (rule mutex_inv_for_upd [OF inv, where f = f and b = "\<lparr>fb_pc = p, fb_res = None, fb_del = False\<rparr>"];
        (simp add:  mx_goto_def mx_preds sole_next_def)?;
        (auto simp: mutex_data_def split: option.splits)?)

lemma mutex_timer_inv:
  assumes inv: "mutex_inv_for ow s" and "fb_pc (xs_fib s f) = XTimerAdd"
  shows "mutex_inv (mx_goto s f (XWait True))"
  using assms(2-) mutex_inv_for_at [OF inv, of f]
  by - (rule mutex_inv_for_upd [OF inv, where f = f and b = "(xs_fib s f)\<lparr>fb_pc := XWait True\<rparr>"];
        (simp add:  mx_goto_def mx_preds sole_next_def)?;
        (auto simp: mutex_data_def split: option.splits)?)

lemma mutex_enomem_inv:
  assumes inv: "mutex_inv_for ow s" and "fb_pc (xs_fib s f) = XTimerAdd"
  shows "mutex_inv (mx_goto s f (XCancelQ (- ENOMEM)))"
  using assms(2-) mutex_inv_for_at [OF inv, of f]
  by - (rule mutex_inv_for_upd [OF inv, where f = f and b = "(xs_fib s f)\<lparr>fb_pc := XCancelQ (- ENOMEM)\<rparr>"];
        (simp add: ENOMEM_def mx_goto_def mx_preds sole_next_def)?;
        (auto simp: mutex_data_def split: option.splits)?)

lemma mutex_woken_inv:
  assumes inv: "mutex_inv_for ow s" and "fb_pc (xs_fib s f) = XWait t" "fb_res (xs_fib s f) = Some res"
  shows "mutex_inv (mx_goto s f (if res \<noteq> 0 then XCancelQ res else if fb_del (xs_fib s f) then XHeld else XFault))"
  using assms(2-) mutex_inv_for_at [OF inv, of f]
  by - (rule mutex_inv_for_upd [OF inv, where f = f and b = "(xs_fib s f)\<lparr>fb_pc := if res \<noteq> 0 then XCancelQ res else XHeld\<rparr>"];
        (simp add:  mx_goto_def mx_preds sole_next_def)?;
        (auto simp: mutex_data_def split: option.splits)?)

lemma mutex_timeout_inv:
  assumes inv: "mutex_inv_for ow s" and "fb_pc (xs_fib s f) = XWait True" "fb_res (xs_fib s f) = None" "e = - ETIMEDOUT \<or> e = - EAGAIN"
  shows "mutex_inv (mx_set s f ((xs_fib s f)\<lparr>fb_res := Some e\<rparr>))"
  using assms(2-) mutex_inv_for_at [OF inv, of f]
  by - (rule mutex_inv_for_upd [OF inv, where f = f and b = "(xs_fib s f)\<lparr>fb_res := Some e\<rparr>"];
        (simp add: errno_defs mx_goto_def mx_preds sole_next_def)?;
        (auto simp: mutex_data_def split: option.splits)?)

lemma mutex_cancelq_inv:
  assumes inv: "mutex_inv_for ow s" and "fb_pc (xs_fib s f) = XCancelQ e" "xs_inner s = None"
  shows "mutex_inv (mx_goto (s\<lparr>xs_inner := Some f\<rparr>) f (XCancel e))"
  using assms(2-) mutex_inv_for_at [OF inv, of f]
  by - (rule mutex_inv_for_upd [OF inv, where f = f and b = "(xs_fib s f)\<lparr>fb_pc := XCancel e\<rparr>"];
        (simp add:  mx_goto_def mx_preds sole_next_def)?;
        (auto simp: mutex_data_def split: option.splits)?)

lemma mutex_cancel_inv:
  assumes inv: "mutex_inv_for ow s" and "fb_pc (xs_fib s f) = XCancel e"
  shows "mutex_inv (mx_goto (s\<lparr>xs_nodes := (if fb_del (xs_fib s f) then xs_nodes s else remove1 f (xs_nodes s)), xs_inner := None, xs_leaked := xs_leaked s \<or> fb_res (xs_fib s f) = Some 0\<rparr>) f (if e = - EAGAIN then XLockQ True else XIdle))"
  using assms(2-) mutex_inv_for_at [OF inv, of f]
  by - (rule mutex_inv_for_upd [OF inv, where f = f and b = "(xs_fib s f)\<lparr>fb_pc := if e = - EAGAIN then XLockQ True else XIdle\<rparr>"];
        (simp add:  mx_goto_def mx_preds sole_next_def)?;
        (auto simp: mutex_data_def split: option.splits)?)

lemma mutex_unlockq_inv:
  assumes inv: "mutex_inv_for ow s" and "fb_pc (xs_fib s f) = XUnlockQ" "xs_inner s = None"
  shows "mutex_inv (mx_goto (s\<lparr>xs_inner := Some f\<rparr>) f XPop)"
  using assms(2-) mutex_inv_for_at [OF inv, of f]
  by - (rule mutex_inv_for_upd [OF inv, where f = f and b = "(xs_fib s f)\<lparr>fb_pc := XPop\<rparr>"];
        (simp add:  mx_goto_def mx_preds sole_next_def)?;
        (auto simp: mutex_data_def split: option.splits)?)

lemma mutex_pop_empty_inv:
  assumes inv: "mutex_inv_for ow s" and "fb_pc (xs_fib s f) = XPop" "xs_nodes s = []"
  shows "mutex_inv (mx_goto s f (XCallback 0))"
  using assms(2-) mutex_inv_for_at [OF inv, of f]
  by - (rule mutex_inv_for_upd [OF inv, where f = f and b = "(xs_fib s f)\<lparr>fb_pc := XCallback 0\<rparr>"];
        (simp add:  mx_goto_def mx_preds sole_next_def)?;
        (auto simp: mutex_data_def split: option.splits)?)

lemma mutex_callback_inv:
  assumes inv: "mutex_inv_for ow s" and "fb_pc (xs_fib s f) = XCallback k"
  shows "mutex_inv (mx_goto (s\<lparr>xs_state := (if k = 0 then 0 else if xs_nodes s = [] then 1 else xs_state s), xs_inner := None\<rparr>) f XIdle)"
  using assms(2-) mutex_inv_for_at [OF inv, of f]
  by - (rule mutex_inv_for_upd [OF inv, where f = f and b = "(xs_fib s f)\<lparr>fb_pc := XIdle\<rparr>"];
        (simp add:  mx_goto_def mx_preds sole_next_def)?;
        (auto simp: mutex_data_def split: option.splits)?)

lemma mutex_pop_stale_inv:
  assumes inv: "mutex_inv_for ow s" and "fb_pc (xs_fib s f) = XPop" "xs_nodes s = n # rest" "fb_res (xs_fib s n) \<noteq> None"
  shows "mutex_inv (mx_set (s\<lparr>xs_nodes := rest\<rparr>) n ((xs_fib s n)\<lparr>fb_del := True\<rparr>))"
  using assms(2-) mutex_inv_for_at [OF inv, of f] mutex_inv_for_at [OF inv, of n]
  by - (rule mutex_inv_for_upd [OF inv, where f = n and b = "(xs_fib s n)\<lparr>fb_del := True\<rparr>"];
        (simp add: mx_preds sole_next_def)?;
        (auto simp: mutex_data_def split: option.splits)?)

lemma owns_at_waits: "waits_at p \<Longrightarrow> owns_at p (Some 0) \<and> (fine_at p None \<longrightarrow> fine_at p (Some 0))"
  by (cases p) auto

text \<open>The hand-over: the popped fiber becomes the owner.\<close>

lemma mutex_pop_grant_inv:
  assumes inv: "mutex_inv_for ow s" and pc: "fb_pc (xs_fib s f) = XPop" and W: "xs_nodes s = n # rest"
    and res: "fb_res (xs_fib s n) = None"
  shows "mutex_inv (mx_goto (mx_set (s\<lparr>xs_nodes := rest\<rparr>) n ((xs_fib s n)\<lparr>fb_del := True, fb_res := Some 0\<rparr>)) f (XCallback 1))"
proof -
  let ?b = "(xs_fib s n)\<lparr>fb_del := True, fb_res := Some 0\<rparr>" and ?c = "(xs_fib s f)\<lparr>fb_pc := XCallback 1\<rparr>"
  have d: "mutex_data ow s" and ow: "ow = Some f" and inn: "xs_inner s = Some f" and nq: "f \<notin> set (xs_nodes s)"
    using mutex_inv_for_at [OF inv, of f] pc by (auto simp: mx_preds)
  have q: "waits_at (fb_pc (xs_fib s n))" "fine_at (fb_pc (xs_fib s n)) None"
    using mutex_inv_for_at [OF inv, of n] W res by (auto simp: mx_preds)
  have n: "n \<noteq> f" using W nq by auto
  have not_in: "\<not> inside_at (fb_pc (xs_fib s n))" using mutex_inv_for_at [OF inv, of n] inn n by (simp add: mx_inside_def)
  have fine: "mx_fine ?b" using q owns_at_waits by (simp add: mx_fine_def)
  have "mutex_roles None (Some f) (set (xs_nodes s)) ((xs_fib s)(f := ?c))"
    by (rule mutex_roles_upd [of ow "xs_inner s" "set (xs_nodes s)"])
       (use inv pc ow inn nq in \<open>auto simp: sole_next_def mutex_inv_for_def mx_preds\<close>)
  then have "mutex_roles (Some n) (Some f) (set rest) ((xs_fib s)(f := ?c, n := ?b))"
    by (rule mutex_roles_upd)
       (use n q d W fine not_in owns_at_waits in \<open>auto simp: sole_next_def mutex_data_def mx_preds\<close>)
  then have "mutex_inv_for (Some n) (mx_goto (mx_set (s\<lparr>xs_nodes := rest\<rparr>) n ?b) f (XCallback 1))"
    using d n W inn ow by (auto simp: mutex_inv_for_def mutex_data_def mx_goto_def fun_upd_twist)
  then show ?thesis by (auto simp: mutex_inv_def)
qed
lemma mutex_inv_step:
  assumes "mutex_inv s" and step: "mutex_step e s = Some s'"
  shows "mutex_inv s'"
proof -
  obtain ow where inv: "mutex_inv_for ow s" using assms(1) by (auto simp: mutex_inv_def)
  note fine = mutex_inv_for_at [OF inv]
  show ?thesis
  proof (cases e)
    case (MxStep f)
    then show ?thesis
    proof (cases "fb_pc (xs_fib s f)")
      case XPop
      then show ?thesis using step MxStep mutex_pop_empty_inv [OF inv XPop] mutex_pop_stale_inv [OF inv XPop]
          mutex_pop_grant_inv [OF inv XPop]
        by (cases "xs_nodes s") (auto simp: mutex_wake_step_def Let_def split: if_splits)
    next
      case (XCallback k)
      then have "k \<le> 1" using fine [of f] by (simp add: mx_fine_def)
      then show ?thesis using step MxStep XCallback mutex_callback_inv [OF inv XCallback]
        by (simp add: mutex_wake_step_def fev_mutex_unlock_callback_def)
    next
      case (XInsert t)
      then show ?thesis using step MxStep mutex_insert_inv [OF inv XInsert]
        by (cases t) (auto simp: mutex_wait_step_def Let_def)
    next
      case (XWait t)
      then show ?thesis using step MxStep mutex_woken_inv [OF inv XWait]
        by (cases "fb_res (xs_fib s f)") (auto simp: mutex_wait_step_def Let_def)
    next
      case (XCancel err)
      then show ?thesis using step MxStep mutex_cancel_inv [OF inv XCancel]
        by (simp add: mutex_cancel_step_def Let_def)
    next
      case (XXchg t)
      then show ?thesis using step MxStep mutex_xchg_inv [OF inv XXchg]
        by (simp add: mutex_wait_step_def Let_def)
    qed (use step in \<open>auto simp: mutex_wait_step_def mutex_cancel_step_def mutex_wake_step_def Let_def
          simp del: split_paired_Ex split: if_splits
          intro: mutex_try_inv [OF inv] mutex_lockq_inv [OF inv] mutex_xchg_inv [OF inv] mutex_store_inv [OF inv]
            mutex_timer_inv [OF inv] mutex_cancelq_inv [OF inv] mutex_cancel_inv [OF inv] mutex_unlockq_inv [OF inv]\<close>)
  qed (use step in \<open>auto split: if_splits intro: mutex_begin_inv [OF inv] mutex_try_only_inv [OF inv]
        mutex_unlock_fast_inv [OF inv] mutex_timeout_inv [OF inv] mutex_enomem_inv [OF inv]\<close>)
qed
lemma mutex_inv_init: "mutex_inv mutex_sys_init"
  unfolding mutex_inv_def
  by (rule exI [of _ None])
     (simp add: mutex_inv_for_def mutex_roles_def mutex_data_def mutex_sys_init_def sole_def mx_preds)

interpretation mx: mutual_exclusion mutex_step "\<lambda>s. s = mutex_sys_init" mutex_inv "\<lambda>s f. mx_owns (xs_fib s f)"
proof unfold_locales
  show "a = b" if h: "mutex_inv s" "mx_owns (xs_fib s a)" "mx_owns (xs_fib s b)" for s a b
  proof -
    obtain ow where inv: "mutex_inv_for ow s" using h(1) by (auto simp: mutex_inv_def)
    show ?thesis using mutex_inv_for_at [OF inv, of a] mutex_inv_for_at [OF inv, of b] h(2,3) by simp
  qed
qed (auto simp: mutex_inv_init intro: mutex_inv_step)

section \<open>What the mutex promises\<close>

text \<open>
  C26. In every interleaving of lock, try-lock, timed lock and unlock calls, with time-outs, retries and
  failing timer allocations: at most one fiber owns the mutex (holds it or was handed it), and no assertion
  of \<open>fev_mutex.c\<close> and \<open>fev_waiters_queue_impl.h\<close> fails.
\<close>

theorem fev_mutex_mutual_exclusion:
  assumes "run mutex_step mutex_sys_init es = Some s"
  shows "(\<forall>a b. mx_owns (xs_fib s a) \<longrightarrow> mx_owns (xs_fib s b) \<longrightarrow> a = b) \<and> (\<forall>f. fb_pc (xs_fib s f) \<noteq> XFault)"
proof -
  have "mutex_inv s" using mx.inv_run_init [OF refl assms] .
  then obtain ow where inv: "mutex_inv_for ow s" by (auto simp: mutex_inv_def)
  have "fb_pc (xs_fib s f) \<noteq> XFault" for f
    using mutex_inv_for_at [OF inv, of f] by (auto simp: mx_fine_def)
  then show ?thesis using mx.exclusive_run [OF refl assms] by blast
qed

text \<open>Without failing allocations nobody gives up a mutex that was handed over.\<close>

definition mx_clean :: "mx_fiber \<Rightarrow> bool" where
  "mx_clean b \<longleftrightarrow> fb_pc b \<noteq> XCancelQ (- ENOMEM) \<and> fb_pc b \<noteq> XCancel (- ENOMEM) \<and> fb_res b \<noteq> Some (- ENOMEM)"

definition mutex_clean :: "mutex_sys \<Rightarrow> bool" where
  "mutex_clean s \<longleftrightarrow> \<not> xs_leaked s \<and> (\<forall>f. mx_clean (xs_fib s f))"

lemma mutex_clean_goto:
  "mutex_clean s \<Longrightarrow> p \<noteq> XCancelQ (- ENOMEM) \<Longrightarrow> p \<noteq> XCancel (- ENOMEM) \<Longrightarrow> \<not> xs_leaked s' \<Longrightarrow> xs_fib s' = xs_fib s \<Longrightarrow>
     mutex_clean (mx_goto s' f p)"
  by (auto simp: mutex_clean_def mx_clean_def mx_goto_def)

lemma mutex_clean_step:
  assumes inv: "mutex_inv_for ow s" and clean: "mutex_clean s" and step: "mutex_step e s = Some s'" and "\<And>f. e \<noteq> MxEnomem f"
  shows "mutex_clean s'"
proof (cases e)
  case (MxStep f)
  have b: "mx_clean (xs_fib s f)" "mx_fine (xs_fib s f)" "\<not> xs_leaked s"
    using clean mutex_inv_for_at [OF inv, of f] by (auto simp: mutex_clean_def)
  show ?thesis
  proof (cases "fb_pc (xs_fib s f)")
    case XPop
    show ?thesis
    proof (cases "xs_nodes s")
      case Nil
      then show ?thesis using step MxStep XPop mutex_clean_goto [OF clean] b by (auto simp: mutex_wake_step_def)
    next
      case (Cons n rest)
      have "mx_clean (xs_fib s n)" using clean by (simp add: mutex_clean_def)
      then show ?thesis using step MxStep XPop Cons clean
        by (auto simp: mutex_wake_step_def Let_def mutex_clean_def mx_clean_def mx_goto_def ENOMEM_def split: if_splits)
    qed
  next
    case (XCallback k)
    then show ?thesis using step MxStep mutex_clean_goto [OF clean] b
      by (auto simp: mutex_wake_step_def split: option.splits)
  next
    case (XWait t)
    then show ?thesis using step MxStep mutex_clean_goto [OF clean] b
      by (auto simp: mutex_wait_step_def mx_clean_def Let_def split: option.splits)
  next
    case (XInsert t)
    then show ?thesis using step MxStep clean
      by (cases t) (auto simp: mutex_wait_step_def mutex_clean_def mx_clean_def Let_def split: if_splits)
  next
    case (XCancel err)
    then have "fb_res (xs_fib s f) \<noteq> Some 0" using b by (auto simp: mx_fine_def mx_clean_def)
    then show ?thesis using step MxStep XCancel mutex_clean_goto [OF clean] b
      by (auto simp: mutex_cancel_step_def Let_def)
  qed (use step MxStep mutex_clean_goto [OF clean] b in \<open>auto simp: mutex_wait_step_def mutex_cancel_step_def mutex_wake_step_def
        mutex_try_lock_step_def fev_mutex_try_lock_def mx_clean_def Let_def split: if_splits\<close>)
next
  case (MxTimeout f err)
  then show ?thesis using step clean by (auto simp: mutex_clean_def mx_clean_def errno_defs split: if_splits)
qed (use step assms(4) mutex_clean_goto [OF clean] clean in
  \<open>auto simp: mutex_try_lock_step_def fev_mutex_try_lock_def mutex_unlock_fast_step_def mutex_clean_def split: if_splits\<close>)

lemma mutex_clean_run:
  "mutex_inv s \<Longrightarrow> mutex_clean s \<Longrightarrow> run mutex_step s es = Some s' \<Longrightarrow> \<forall>f. MxEnomem f \<notin> set es \<Longrightarrow> mutex_clean s'"
proof (induction es arbitrary: s)
  case (Cons e es)
  obtain s1 where s1: "mutex_step e s = Some s1" "run mutex_step s1 es = Some s'"
    using Cons.prems(3) by (auto split: option.splits)
  obtain ow where ow: "mutex_inv_for ow s" using Cons.prems(1) by (auto simp: mutex_inv_def)
  have "mutex_clean s1" by (rule mutex_clean_step [OF ow Cons.prems(2) s1(1)]) (use Cons.prems(4) in auto)
  then show ?case using Cons.IH [OF mutex_inv_step [OF Cons.prems(1) s1(1)]] s1(2) Cons.prems(4) by auto
qed simp

text \<open>
  C27. No waiting fiber is forgotten, as long as no timer allocation fails: while a fiber waits unclaimed, it
  is in the queue, the state is 2, so that the next unlock goes through the queue, and another fiber owns
  the mutex; and the mutex is free exactly when no fiber owns it.
\<close>

theorem fev_mutex_no_lost_wakeup:
  assumes "run mutex_step mutex_sys_init es = Some s" and "\<forall>f. MxEnomem f \<notin> set es"
  shows "(xs_state s = 0 \<longleftrightarrow> (\<forall>f. \<not> mx_owns (xs_fib s f))) \<and>
     (\<forall>f t. fb_pc (xs_fib s f) = XWait t \<longrightarrow> fb_res (xs_fib s f) = None \<longrightarrow>
        f \<in> set (xs_nodes s) \<and> xs_state s = 2 \<and> (\<exists>g. g \<noteq> f \<and> mx_owns (xs_fib s g)))"
proof -
  have mi: "mutex_inv s" using mx.inv_run_init [OF refl assms(1)] .
  then obtain ow where inv: "mutex_inv_for ow s" by (auto simp: mutex_inv_def)
  have "mutex_clean mutex_sys_init" by (simp add: mutex_clean_def mx_clean_def mutex_sys_init_def)
  then have clean: "\<not> xs_leaked s"
    using mutex_clean_run [OF mutex_inv_init _ assms] by (simp add: mutex_clean_def)
  have d: "mutex_data ow s" and at: "\<And>f. ow = Some f \<longleftrightarrow> mx_owns (xs_fib s f)"
    using mutex_inv_for_at [OF inv] by blast+
  have free: "xs_state s = 0 \<longleftrightarrow> ow = None" using d clean by (auto simp: mutex_data_def)
  have "f \<in> set (xs_nodes s) \<and> xs_state s = 2 \<and> (\<exists>g. g \<noteq> f \<and> mx_owns (xs_fib s g))"
    if w: "fb_pc (xs_fib s f) = XWait t" "fb_res (xs_fib s f) = None" for f t
  proof -
    have f: "f \<in> set (xs_nodes s)" "\<not> mx_owns (xs_fib s f)"
      using mutex_inv_for_at [OF inv, of f] w by (auto simp: mx_preds)
    then have st: "xs_state s = 2" using d by (auto simp: mutex_data_def)
    then obtain g where g: "ow = Some g" using free by auto
    then have "g \<noteq> f" using at f(2) by auto
    then show ?thesis using f st g at by auto
  qed
  moreover have "ow = None \<longleftrightarrow> (\<forall>f. \<not> mx_owns (xs_fib s f))" using at by (cases ow) auto
  ultimately show ?thesis using free by blast
qed

definition mutex_enomem_run :: "mutex_event list" where
  "mutex_enomem_run =
     [MxTryLock 1, MxLock 2 True, MxStep 2, MxStep 2, MxStep 2, MxStep 2, MxUnlock 1, MxStep 1, MxStep 1, MxStep 1,
      MxEnomem 2, MxStep 2, MxStep 2]"

lemma leaked_stays:
  assumes "mutex_inv s" "xs_leaked s" "run mutex_step s es = Some s'"
  shows "xs_leaked s' \<and> mutex_inv s'"
  using assms
proof (induction es arbitrary: s)
  case (Cons e es)
  obtain s1 where s1: "mutex_step e s = Some s1" "run mutex_step s1 es = Some s'"
    using Cons.prems(3) by (auto split: option.splits)
  have "xs_leaked s1" using s1(1) Cons.prems(2)
    by (cases e) (auto simp: mutex_try_lock_step_def fev_mutex_try_lock_def mutex_unlock_fast_step_def mutex_wait_step_def
        mutex_cancel_step_def mutex_wake_step_def mx_goto_def Let_def split: if_splits mx_pc.splits option.splits list.splits)
  then show ?case using Cons.IH [OF mutex_inv_step [OF Cons.prems(1) s1(1)]] s1(2) by blast
qed simp

lemma leaked_no_owner: "mutex_inv s \<Longrightarrow> xs_leaked s \<Longrightarrow> \<not> mx_owns (xs_fib s f)"
  using mutex_inv_for_at unfolding mutex_inv_def mutex_data_def by (metis option.distinct(1))

lemmas mutex_ops = mutex_sys_init_def mutex_try_lock_step_def fev_mutex_try_lock_def mutex_unlock_fast_step_def
  mutex_wait_step_def mutex_cancel_step_def mutex_wake_step_def fev_mutex_unlock_callback_def mx_goto_def

text \<open>
  A failing timer allocation can lose the mutex. A fiber that calls \<open>fev_mutex_try_lock_until\<close> queues its
  node before it adds its timer; if the owner unlocks in between, the mutex is handed to that fiber; if the
  timer then cannot be added, \<open>fev_timed_wait\<close> returns \<open>-ENOMEM\<close>, \<open>fev_waiters_queue_wait\<close> passes the error on
  without looking at the waiter's reason, and the caller reports that the mutex was not locked. There is a
  run after which every fiber is idle while the mutex is locked; and from then on no run gives any fiber
  the mutex.
\<close>

theorem fev_mutex_enomem_loses_mutex:
  "\<exists>s. run mutex_step mutex_sys_init mutex_enomem_run = Some s \<and>
     (\<forall>f. fb_pc (xs_fib s f) = XIdle) \<and> xs_state s \<noteq> 0 \<and>
     (\<forall>es s' f. run mutex_step s es = Some s' \<longrightarrow> \<not> mx_owns (xs_fib s' f))"
proof -
  obtain s where s: "run mutex_step mutex_sys_init mutex_enomem_run = Some s" "\<forall>f. fb_pc (xs_fib s f) = XIdle"
      "xs_state s \<noteq> 0" "xs_leaked s"
    by (simp add: mutex_enomem_run_def mutex_ops Let_def errno_defs)
  have "mutex_inv s" using mx.inv_run_init [OF refl s(1)] .
  then have "\<not> mx_owns (xs_fib s' f)" if "run mutex_step s es = Some s'" for es s' f
    using leaked_stays [OF _ s(4) that] leaked_no_owner by blast
  then show ?thesis using s by blast
qed

definition mutex_wait_run :: "mutex_event list" where
  "mutex_wait_run = [MxTryLock 1, MxLock 2 False, MxStep 2, MxStep 2, MxStep 2, MxStep 2]"

theorem fev_mutex_mutual_exclusion_witness:
  "\<exists>s. run mutex_step mutex_sys_init mutex_wait_run = Some s \<and> mx_owns (xs_fib s 1) \<and> (\<forall>b. mx_owns (xs_fib s b) \<longrightarrow> 1 = b)"
proof -
  obtain s where s: "run mutex_step mutex_sys_init mutex_wait_run = Some s" "mx_owns (xs_fib s 1)"
    by (simp add: mutex_wait_run_def mutex_ops Let_def mx_owns_def)
  with fev_mutex_mutual_exclusion [OF s(1)] show ?thesis by blast
qed

theorem fev_mutex_no_lost_wakeup_witness:
  "\<exists>s. run mutex_step mutex_sys_init mutex_wait_run = Some s \<and> 2 \<in> set (xs_nodes s) \<and> xs_state s = 2 \<and>
     (\<exists>g. g \<noteq> 2 \<and> mx_owns (xs_fib s g))"
proof -
  obtain s where s: "run mutex_step mutex_sys_init mutex_wait_run = Some s" "fb_pc (xs_fib s 2) = XWait False"
      "fb_res (xs_fib s 2) = None"
    by (simp add: mutex_wait_run_def mutex_ops Let_def)
  have "\<forall>f. MxEnomem f \<notin> set mutex_wait_run" by (simp add: mutex_wait_run_def)
  from fev_mutex_no_lost_wakeup [OF s(1) this] s show ?thesis by blast
qed

theorem fev_mutex_enomem_loses_mutex_witness:
  "\<exists>s. run mutex_step mutex_sys_init mutex_enomem_run = Some s \<and> xs_state s \<noteq> 0 \<and>
     (\<forall>s' f. run mutex_step s [MxTryLock 3] = Some s' \<longrightarrow> \<not> mx_owns (xs_fib s' f))"
  using fev_mutex_enomem_loses_mutex by blast

end
