(* ===== verification/Alloc.thy ===== *)
theory Alloc
  imports Prelude
begin

unbundle bit_operations_syntax

text \<open>
  Powers of two and masks, and the allocator of \<open>fev_alloc.h\<close>.
\<close>

section \<open>Powers of two\<close>

text \<open>The test \<open>(x & (x - 1)) == 0\<close> of the sources.\<close>

lemma nat_pow2_test: "n \<noteq> 0 \<Longrightarrow> n AND (n - 1) = (0 :: nat) \<Longrightarrow> \<exists>k. n = 2 ^ k"
proof (induction n rule: less_induct)
  case (less n)
  show ?case
  proof (cases "even n")
    case True
    then obtain m where m: "n = 2 * m" by blast
    with less.prems have "m \<noteq> 0" by simp
    then have "n - 1 = Suc (2 * (m - 1))" using m by simp
    then have "n AND (n - 1) = 2 * (m AND (m - 1))"
      using m by (simp add: and_nat_rec [of "2 * m"])
    then have "m AND (m - 1) = 0" using less.prems by simp
    then obtain k where "m = 2 ^ k" using less.IH [of m] m \<open>m \<noteq> 0\<close> by auto
    then have "n = 2 ^ Suc k" using m by simp
    then show ?thesis by blast
  next
    case False
    then obtain m where m: "n = Suc (2 * m)" by (metis oddE Suc_eq_plus1)
    then have "n AND (n - 1) = 2 * m" by (simp add: and_nat_rec [of "Suc (2 * m)"])
    then have "n = 2 ^ 0" using less.prems m by simp
    then show ?thesis by blast
  qed
qed

lemma word_pow2_test:
  fixes x :: "'a::len word"
  assumes "x \<noteq> 0" "x AND (x - 1) = 0"
  shows "\<exists>k. k < LENGTH('a) \<and> unat x = 2 ^ k \<and> x - 1 = mask k"
proof -
  have "unat (x - 1) = unat x - 1" using assms(1) by (simp add: unat_minus_one)
  moreover have "unat (x AND (x - 1)) = 0" using assms(2) by simp
  ultimately have "unat x AND (unat x - 1) = 0" by (simp add: unsigned_and_eq)
  moreover have "unat x \<noteq> 0" using assms(1) by (simp add: unat_eq_zero)
  ultimately obtain k where k: "unat x = 2 ^ k" using nat_pow2_test by blast
  have "(2::nat) ^ k < 2 ^ LENGTH('a)" using k unsigned_less [of x, where ?'a = nat] by simp
  then have "k < LENGTH('a)" by simp
  moreover have "x = 2 ^ k" using k by (metis of_nat_numeral of_nat_power of_nat_unat ucast_id)
  ultimately show ?thesis using k by (auto simp: mask_eq_exp_minus_1)
qed

lemma unat_and_mask: "unat (w AND mask k :: 'a::len word) = unat w mod 2 ^ k"
  unfolding take_bit_eq_mask [symmetric] unsigned_take_bit_eq by (rule take_bit_eq_mod)

lemma unat_and_not_mask: "unat (w AND NOT (mask k) :: 'a::len word) = unat w - unat w mod 2 ^ k"
proof -
  have "NOT w AND (w AND mask k) = 0" by (simp add: bit_eq_iff bit_simps)
  then have "w - (w AND mask k) = w AND NOT (w AND mask k)" by (rule disjunctive_diff_eq_and_not)
  also have "\<dots> = w AND NOT (mask k)" by (rule bit_eqI) (auto simp: bit_simps)
  finally have "w AND NOT (mask k) = w - (w AND mask k)" by simp
  moreover have "w AND mask k \<le> w" by (simp add: word_le_nat_alt unat_and_mask)
  ultimately show ?thesis by (simp add: unat_sub unat_and_mask)
qed

section \<open>The allocator\<close>

text \<open>
  \<open>fev_realloc_ptr\<close> points to \<open>realloc\<close> or to a function of the user. It is the argument \<open>ra\<close>: from a
  pointer, a size and the allocator's own state to a pointer and the new state. \<open>mem\<close> is the memory word
  in front of an aligned block. Pointers and sizes are 64 bits wide.
\<close>

type_synonym 'h realloc = "u64 \<Rightarrow> u64 \<Rightarrow> 'h \<Rightarrow> u64 \<times> 'h"

definition fev_set_realloc :: "'h realloc \<Rightarrow> 'h realloc \<Rightarrow> 'h realloc" where
  "fev_set_realloc realloc_ptr fev_realloc_ptr = realloc_ptr"

definition fev_malloc :: "'h realloc \<Rightarrow> u64 \<Rightarrow> 'h \<Rightarrow> (u64 \<times> 'h) option" where
  "fev_malloc ra bytes h =
     (let (ptr, h) = ra 0 bytes h
      in do { fev_assert (ptr mod 8 = 0); Some (ptr, h) })"

definition fev_realloc :: "'h realloc \<Rightarrow> u64 \<Rightarrow> u64 \<Rightarrow> 'h \<Rightarrow> u64 \<times> 'h" where
  "fev_realloc ra ptr bytes h = ra ptr bytes h"

definition fev_free :: "'h realloc \<Rightarrow> u64 \<Rightarrow> 'h \<Rightarrow> 'h" where
  "fev_free ra ptr h = (if ptr \<noteq> 0 then snd (ra ptr 0 h) else h)"

definition fev_aligned_alloc ::
  "'h realloc \<Rightarrow> u64 \<Rightarrow> u64 \<Rightarrow> 'h \<Rightarrow> (u64 \<rightharpoonup> u64) \<Rightarrow> (u64 \<times> 'h \<times> (u64 \<rightharpoonup> u64)) option" where
  "fev_aligned_alloc ra alignment bytes h mem =
     do { fev_assert (alignment \<noteq> 0);
          fev_assert (alignment mod 8 = 0);
          fev_assert (alignment AND (alignment - 1) = 0);
          fev_assert (bytes \<le> - 1 - alignment);
          (ptr, h) \<leftarrow> fev_malloc ra (bytes + alignment) h;
          if ptr = 0 then Some (0, h, mem)
          else do { let ret = (ptr + alignment) AND NOT (alignment - 1);
                    fev_assert (ret - ptr \<le> alignment);
                    fev_assert (ptr \<le> ret - 8);
                    Some (ret, h, mem(ret - 8 \<mapsto> ptr)) } }"

definition fev_aligned_free :: "'h realloc \<Rightarrow> u64 \<Rightarrow> 'h \<Rightarrow> (u64 \<rightharpoonup> u64) \<Rightarrow> 'h option" where
  "fev_aligned_free ra ptr h mem = do { p \<leftarrow> mem (ptr - 8); Some (fev_free ra p h) }"

lemma unat_mod_8: "unat (w mod 8 :: u64) = unat w mod 8"
  by (simp add: unat_mod_distrib)

lemma align_up:
  fixes ptr alignment :: u64
  assumes "alignment \<noteq> 0" "alignment mod 8 = 0" "alignment AND (alignment - 1) = 0" "ptr mod 8 = 0"
    and "unat ptr + unat alignment < 2 ^ 64"
  defines "ret \<equiv> (ptr + alignment) AND NOT (alignment - 1)"
  shows "unat ret = unat ptr + (unat alignment - unat ptr mod unat alignment)"
    and "unat ret mod unat alignment = 0" and "unat ptr + 8 \<le> unat ret" and "unat ret \<le> unat ptr + unat alignment"
proof -
  obtain k where k: "unat alignment = 2 ^ k" "alignment - 1 = mask k"
    using word_pow2_test [OF assms(1,3)] by blast
  let ?a = "unat alignment" and ?p = "unat ptr"
  have sum: "unat (ptr + alignment) = ?p + ?a" using assms(5) by (simp add: unat_word_ariths)
  have lt: "?p mod ?a < ?a" using k(1) by simp
  have "unat ret = (?p + ?a) - (?p + ?a) mod ?a"
    unfolding ret_def k(2) unat_and_not_mask sum k(1) ..
  then show r: "unat ret = ?p + (?a - ?p mod ?a)" using lt by simp
  have "?p + (?a - ?p mod ?a) = (?p div ?a) * ?a + ?a"
    using lt div_mult_mod_eq [of ?p ?a] by linarith
  then show "unat ret mod ?a = 0" using r by simp
  have "8 dvd ?a" "8 dvd ?p" using assms(2,4) unat_mod_8 by (metis dvd_eq_mod_eq_0 unsigned_0)+
  then have "8 dvd ?a - ?p mod ?a" by (simp add: dvd_diff_nat dvd_mod)
  then show "?p + 8 \<le> unat ret" using r lt by (metis add_le_cancel_left dvd_imp_le zero_less_diff)
  show "unat ret \<le> ?p + ?a" using r by simp
qed

text \<open>
  C36. \<open>fev_aligned_alloc\<close> returns \<open>NULL\<close> exactly when the allocator does, and otherwise a pointer that is a
  multiple of the alignment, with room for the word in front of it and for \<open>bytes\<close> bytes inside the block
  that was allocated; no assertion fails, and \<open>fev_aligned_free\<close> gives the original block back. The
  hypotheses are the contract of the allocator (alignment of its blocks, blocks inside the address
  space) and the preconditions that the function asserts.
\<close>

theorem fev_aligned_alloc_correct:
  assumes "alignment \<noteq> 0" "alignment mod 8 = 0" "alignment AND (alignment - 1) = 0" "bytes \<le> - 1 - alignment"
    and ra: "ra 0 (bytes + alignment) h = (ptr, h')" "ptr mod 8 = 0" "unat ptr + unat (bytes + alignment) < 2 ^ 64"
  shows "\<exists>ret mem'. fev_aligned_alloc ra alignment bytes h mem = Some (ret, h', mem') \<and>
     (ret = 0 \<longleftrightarrow> ptr = 0) \<and>
     (ptr \<noteq> 0 \<longrightarrow> unat ret mod unat alignment = 0 \<and> unat ptr + 8 \<le> unat ret \<and>
        unat ret + unat bytes \<le> unat ptr + unat (bytes + alignment) \<and>
        (\<forall>h''. fev_aligned_free ra ret h'' mem' = Some (snd (ra ptr 0 h''))))"
proof (cases "ptr = 0")
  case True
  then show ?thesis using assms by (simp add: fev_aligned_alloc_def fev_malloc_def)
next
  case False
  let ?ret = "(ptr + alignment) AND NOT (alignment - 1)"
  have sz: "unat (bytes + alignment) = unat bytes + unat alignment"
  proof -
    have "unat (- 1 - alignment) = 2 ^ 64 - 1 - unat alignment"
      using unat_sub [of alignment "- 1"] by (simp add: unsigned_minus_1_eq_mask mask_eq_exp_minus_1)
    then have "unat bytes + unat alignment < 2 ^ 64"
      using assms(4) unsigned_less [of alignment, where ?'a = nat] by (simp add: word_le_nat_alt)
    then show ?thesis by (simp add: unat_word_ariths)
  qed
  then have fits: "unat ptr + unat alignment < 2 ^ 64" using ra(3) by linarith
  note a = align_up [OF assms(1-3) ra(2) fits]
  have "unat (?ret - ptr) = unat ?ret - unat ptr" "unat (?ret - 8) = unat ?ret - 8"
    using a(3) by (simp_all add: unat_sub word_le_nat_alt)
  then have asserts: "?ret - ptr \<le> alignment" "ptr \<le> ?ret - 8" using a(3,4) by (simp_all add: word_le_nat_alt)
  have nz: "?ret \<noteq> 0" using a(3) by (auto simp: unat_eq_zero [symmetric])
  have "fev_aligned_alloc ra alignment bytes h mem = Some (?ret, h', mem(?ret - 8 \<mapsto> ptr))"
    using False assms asserts by (simp add: fev_aligned_alloc_def fev_malloc_def Let_def)
  then show ?thesis using False a(2-4) sz nz by (simp add: fev_aligned_free_def fev_free_def)
qed

theorem fev_aligned_alloc_correct_witness:
  "\<exists>ret mem'. fev_aligned_alloc (\<lambda>p n (h :: nat). (4104, h + 1)) 64 100 0 Map.empty = Some (ret, 1, mem') \<and>
     unat ret mod 64 = 0 \<and> 4112 \<le> unat ret \<and> unat ret + 100 \<le> 4268"
proof -
  let ?ra = "\<lambda>p n (h :: nat). (4104 :: u64, h + 1)"
  have "(64 :: u64) \<noteq> 0" "(64 :: u64) mod 8 = 0" "(64 :: u64) AND (64 - 1) = 0" "(100 :: u64) \<le> - 1 - 64"
      "?ra (0 :: u64) (100 + 64 :: u64) 0 = (4104, 1)" "(4104 :: u64) mod 8 = 0"
      "unat (4104 :: u64) + unat (100 + 64 :: u64) < 2 ^ 64"
    by simp_all
  from fev_aligned_alloc_correct [where ra = ?ra, OF this, of Map.empty] show ?thesis by (elim exE) auto
qed

end
