(* ===== verification/Spmc_Queue.thy ===== *)
theory Spmc_Queue
  imports Alloc
begin

text \<open>
  The bounded single-producer multiple-consumer queue (\<open>fev_bounded_spmc_queue.h\<close>), the run queue of a
  worker: a ring buffer with 32-bit indices that are never reduced. The operations here are those of the
  source run without interference; theory \<open>Spmc_Concurrent\<close> has the interleaved ones.
\<close>

section \<open>Operations\<close>

record fev_bounded_spmc_queue =
  q_buffer :: "fiber_ptr option list"
  q_mask :: u32
  q_head :: u32
  q_tail :: u32

text \<open>\<open>buffer\<close> tells whether the allocation succeeded.\<close>

definition fev_bounded_spmc_queue_init :: "bool \<Rightarrow> u32 \<Rightarrow> (int + fev_bounded_spmc_queue) option" where
  "fev_bounded_spmc_queue_init buffer n =
     do { fev_assert (n \<ge> 2 \<and> n AND (n - 1) = 0);
          Some (if \<not> buffer then Inl (- ENOMEM)
                else Inr \<lparr>q_buffer = replicate (unat n) None, q_mask = n - 1, q_head = 0, q_tail = 0\<rparr>) }"

definition fev_bounded_spmc_queue_size :: "fev_bounded_spmc_queue \<Rightarrow> u32" where
  "fev_bounded_spmc_queue_size q = q_tail q - q_head q"

definition fev_bounded_spmc_queue_pop :: "fev_bounded_spmc_queue \<Rightarrow> (fiber_ptr option \<times> fev_bounded_spmc_queue) option" where
  "fev_bounded_spmc_queue_pop q =
     (if q_head q = q_tail q then Some (None, q)
      else do { fiber \<leftarrow> aget (q_buffer q) (unat (q_head q AND q_mask q));
                Some (Some fiber, q\<lparr>q_head := q_head q + 1\<rparr>) })"

definition fev_bounded_spmc_queue_push :: "fev_bounded_spmc_queue \<Rightarrow> fiber_ptr \<Rightarrow> (bool \<times> fev_bounded_spmc_queue) option" where
  "fev_bounded_spmc_queue_push q fiber =
     (if q_tail q - q_head q \<le> q_mask q
      then do { buffer \<leftarrow> aset (q_buffer q) (unat (q_tail q AND q_mask q)) fiber;
                Some (True, q\<lparr>q_buffer := buffer, q_tail := q_tail q + 1\<rparr>) }
      else Some (False, q))"

text \<open>
  The loop of \<open>fev_bounded_spmc_queue_push_stq\<close>: \<open>n\<close> fibers are written from index \<open>tail\<close> on. Running past the
  end of the list is a fault.
\<close>

fun spmc_write_loop ::
  "nat \<Rightarrow> u32 \<Rightarrow> fiber_ptr option list \<Rightarrow> u32 \<Rightarrow> fiber_ptr list \<Rightarrow> (fiber_ptr option list \<times> u32 \<times> fiber_ptr list) option" where
  "spmc_write_loop 0 buffer_mask buffer tail cur = Some (buffer, tail, cur)"
| "spmc_write_loop (Suc n) buffer_mask buffer tail cur =
     (case cur of
        [] \<Rightarrow> None
      | fiber # rest \<Rightarrow>
          do { buffer \<leftarrow> aset buffer (unat (tail AND buffer_mask)) fiber;
               spmc_write_loop n buffer_mask buffer (tail + 1) rest })"

text \<open>The result: the new queue, the fibers that did not fit, and how many were pushed.\<close>

definition fev_bounded_spmc_queue_push_stq ::
  "fev_bounded_spmc_queue \<Rightarrow> fiber_ptr list \<Rightarrow> u32 \<Rightarrow> (fev_bounded_spmc_queue \<times> fiber_ptr list \<times> u32) option" where
  "fev_bounded_spmc_queue_push_stq q fibers num_fibers =
     (let free = (q_mask q + 1) - (q_tail q - q_head q);
          n = (if free < num_fibers then free else num_fibers)
      in do { (buffer, tail, cur) \<leftarrow> spmc_write_loop (unat n) (q_mask q) (q_buffer q) (q_tail q) fibers;
              fev_assert ((cur = []) = (n = num_fibers));
              Some (q\<lparr>q_buffer := buffer, q_tail := tail\<rparr>, cur, n) })"

section \<open>The queue as a list\<close>

text \<open>
  \<open>ring buffer m H xs\<close>: the ring of \<open>2 ^ m\<close> slots holds \<open>xs\<close> from the slot of the \<open>H\<close>-th push on. \<open>H\<close> counts
  without bound; the indices of the program are its remainder.
\<close>

definition ring :: "'a option list \<Rightarrow> nat \<Rightarrow> nat \<Rightarrow> 'a list \<Rightarrow> bool" where
  "ring buffer m H xs \<longleftrightarrow>
     length buffer = 2 ^ m \<and> length xs \<le> 2 ^ m \<and> (\<forall>i < length xs. buffer ! ((H + i) mod 2 ^ m) = Some (xs ! i))"

definition spmc_rep :: "nat \<Rightarrow> nat \<Rightarrow> fev_bounded_spmc_queue \<Rightarrow> fiber_ptr list \<Rightarrow> bool" where
  "spmc_rep m H q xs \<longleftrightarrow>
     1 \<le> m \<and> m < 32 \<and> q_mask q = mask m \<and> q_head q = of_nat H \<and> q_tail q = of_nat (H + length xs) \<and>
     ring (q_buffer q) m H xs"

lemma index_of_nat: "m \<le> 32 \<Longrightarrow> unat (of_nat k AND mask m :: u32) = k mod 2 ^ m"
  using mod_mod_cancel [OF le_imp_power_dvd [of m 32 "2::nat"], of k] by (simp add: unat_and_mask unat_of_nat)

lemma mod_pow2_less [simp]: "k mod 2 ^ m < (2::nat) ^ m"
  by simp

lemma ring_length: "ring buffer m H xs \<Longrightarrow> length buffer = 2 ^ m" "ring buffer m H xs \<Longrightarrow> length xs \<le> 2 ^ m"
  by (simp_all add: ring_def)

lemma ring_hd: "ring buffer m H (x # xs) \<Longrightarrow> buffer ! (H mod 2 ^ m) = Some x"
  by (auto simp: ring_def dest: spec [of _ 0])

lemma ring_tl: "ring buffer m H (x # xs) \<Longrightarrow> ring buffer m (Suc H) xs"
  unfolding ring_def by fastforce

lemma ring_snoc:
  assumes "ring buffer m H xs" "length xs < 2 ^ m"
  shows "ring (buffer[(H + length xs) mod 2 ^ m := Some x]) m H (xs @ [x])"
proof -
  have "(H + i) mod 2 ^ m \<noteq> (H + length xs) mod 2 ^ m" if "i < length xs" for i
    using mod_neq_within [of "H + i" "H + length xs" "2 ^ m"] that assms(2) by simp
  then have "buffer[(H + length xs) mod 2 ^ m := Some x] ! ((H + i) mod 2 ^ m) = buffer ! ((H + i) mod 2 ^ m)"
    if "i < length xs" for i
    using that by (metis nth_list_update_neq)
  then show ?thesis using assms unfolding ring_def by (auto simp: nth_append less_Suc_eq)
qed

lemma of_nat_u32_less: "n < 2 ^ 32 \<Longrightarrow> unat (of_nat n :: u32) = n"
  by (simp add: unat_of_nat)

lemma pow2_u32: "m < 32 \<Longrightarrow> (2::nat) ^ m \<le> 2147483648"
  using power_increasing [of m 31 "2::nat"] by simp

lemma spmc_len: "spmc_rep m H q xs \<Longrightarrow> length xs < 2 ^ 32"
  using pow2_u32 [of m] by (auto simp: spmc_rep_def ring_def)

lemma spmc_size: "spmc_rep m H q xs \<Longrightarrow> q_tail q - q_head q = of_nat (length xs)"
  by (simp add: spmc_rep_def)

lemma spmc_empty:
  assumes "spmc_rep m H q xs"
  shows "q_head q = q_tail q \<longleftrightarrow> xs = []"
proof -
  have "q_head q = q_tail q \<longleftrightarrow> (of_nat (length xs) :: u32) = 0"
    unfolding spmc_size [OF assms, symmetric] right_minus_eq by (rule eq_commute)
  also have "\<dots> \<longleftrightarrow> length xs = 0"
    unfolding unat_eq_zero [symmetric] of_nat_u32_less [OF spmc_len [OF assms]] ..
  finally show ?thesis by simp
qed

lemma spmc_pop:
  assumes "spmc_rep m H q (x # xs)"
  shows "fev_bounded_spmc_queue_pop q = Some (Some x, q\<lparr>q_head := q_head q + 1\<rparr>)"
    and "spmc_rep m (Suc H) (q\<lparr>q_head := q_head q + 1\<rparr>) xs"
proof -
  have r: "ring (q_buffer q) m H (x # xs)" "m < 32" "q_head q = of_nat H" "q_mask q = mask m"
    using assms by (simp_all add: spmc_rep_def)
  have ne: "q_head q \<noteq> q_tail q" using spmc_empty [OF assms] by simp
  have "unat (q_head q AND q_mask q) = H mod 2 ^ m" using r(2-4) index_of_nat [of m H] by simp
  then have "aget (q_buffer q) (unat (q_head q AND q_mask q)) = Some x"
    using ring_hd [OF r(1)] ring_length(1) [OF r(1)] by simp
  then show "fev_bounded_spmc_queue_pop q = Some (Some x, q\<lparr>q_head := q_head q + 1\<rparr>)"
    using ne by (simp add: fev_bounded_spmc_queue_pop_def)
  show "spmc_rep m (Suc H) (q\<lparr>q_head := q_head q + 1\<rparr>) xs"
    using assms ring_tl [OF r(1)] by (simp add: spmc_rep_def)
qed

lemma spmc_pop_empty: "spmc_rep m H q [] \<Longrightarrow> fev_bounded_spmc_queue_pop q = Some (None, q)"
  using spmc_empty [of m H q "[]"] by (simp add: fev_bounded_spmc_queue_pop_def)

lemma unat_mask_u32: "m \<le> 32 \<Longrightarrow> unat (mask m :: u32) = 2 ^ m - 1"
  using index_of_nat [of m "2 ^ m - 1"] 
  by (simp add: mask_eq_exp_minus_1)

lemma spmc_push:
  assumes "spmc_rep m H q xs" "length xs < 2 ^ m"
  shows "\<exists>q'. fev_bounded_spmc_queue_push q x = Some (True, q') \<and> spmc_rep m H q' (xs @ [x])"
proof -
  have r: "ring (q_buffer q) m H xs" "m < 32" "q_tail q = of_nat (H + length xs)" "q_mask q = mask m"
    using assms(1) by (simp_all add: spmc_rep_def)
  have "q_tail q - q_head q \<le> q_mask q"
    using assms(2) r(2,4) spmc_size [OF assms(1)] of_nat_u32_less [OF spmc_len [OF assms(1)]]
    by (simp add: word_le_nat_alt unat_mask_u32)
  moreover have "unat (q_tail q AND q_mask q) = (H + length xs) mod 2 ^ m"
    using r(2-4) index_of_nat [of m "H + length xs"] by simp
  ultimately have "fev_bounded_spmc_queue_push q x =
      Some (True, q\<lparr>q_buffer := (q_buffer q)[(H + length xs) mod 2 ^ m := Some x], q_tail := q_tail q + 1\<rparr>)"
    using ring_length(1) [OF r(1)] by (simp add: fev_bounded_spmc_queue_push_def)
  moreover have "q_tail q + 1 = of_nat (H + length (xs @ [x]))" unfolding r(3) by simp
  ultimately show ?thesis using assms(1) ring_snoc [OF r(1) assms(2), of x] by (simp add: spmc_rep_def)
qed

lemma spmc_push_full:
  assumes "spmc_rep m H q xs" "length xs = 2 ^ m"
  shows "fev_bounded_spmc_queue_push q x = Some (False, q)"
proof -
  have "m < 32" "q_mask q = mask m" using assms(1) by (simp_all add: spmc_rep_def)
  then have "\<not> q_tail q - q_head q \<le> q_mask q"
    using assms(2) spmc_size [OF assms(1)] of_nat_u32_less [OF spmc_len [OF assms(1)]]
    by (simp add: word_le_nat_alt unat_mask_u32 not_le)
  then show ?thesis by (simp add: fev_bounded_spmc_queue_push_def)
qed

lemma spmc_write_loop_spec:
  assumes "ring buffer m H xs" "m < 32" "n \<le> length ys" "length xs + n \<le> 2 ^ m"
  shows "\<exists>buffer'. spmc_write_loop n (mask m) buffer (of_nat (H + length xs)) ys =
      Some (buffer', of_nat (H + length xs + n), drop n ys) \<and> ring buffer' m H (xs @ take n ys)"
  using assms
proof (induction n arbitrary: buffer xs ys)
  case (Suc n)
  obtain y ys' where ys: "ys = y # ys'" using Suc.prems(3) by (cases ys) auto
  let ?b = "buffer[(H + length xs) mod 2 ^ m := Some y]"
  have "ring ?b m H (xs @ [y])" using ring_snoc [OF Suc.prems(1)] Suc.prems(4) by simp
  moreover have "length (xs @ [y]) + n \<le> 2 ^ m" using Suc.prems(4) by simp
  ultimately obtain b' where "spmc_write_loop n (mask m) ?b (of_nat (H + length (xs @ [y]))) ys' =
      Some (b', of_nat (H + length (xs @ [y]) + n), drop n ys') \<and> ring b' m H ((xs @ [y]) @ take n ys')"
    using Suc.IH Suc.prems(2,3) ys by (metis Suc_le_mono length_Cons)
  moreover have "unat ((of_nat (H + length xs) :: u32) AND mask m) = (H + length xs) mod 2 ^ m"
    by (rule index_of_nat) (use Suc.prems(2) in simp)
  ultimately show ?case using ys ring_length(1) [OF Suc.prems(1)] by (simp add: ac_simps)
qed simp

lemma spmc_push_stq:
  assumes "spmc_rep m H q xs" "num_fibers = of_nat (length ys)" "length ys < 2 ^ 32"
  defines "n \<equiv> min (2 ^ m - length xs) (length ys)"
  shows "\<exists>q'. fev_bounded_spmc_queue_push_stq q ys num_fibers = Some (q', drop n ys, of_nat n) \<and>
     spmc_rep m H q' (xs @ take n ys)"
proof -
  have r: "ring (q_buffer q) m H xs" "m < 32" "q_tail q = of_nat (H + length xs)" "q_mask q = mask m" "1 \<le> m"
    using assms(1) by (simp_all add: spmc_rep_def)
  let ?free = "q_mask q + 1 - (q_tail q - q_head q)"
  have "(q_mask q + 1) = of_nat (2 ^ m)" using r(4) by (simp add: mask_eq_exp_minus_1)
  then have "?free = of_nat (2 ^ m - length xs)"
    using spmc_size [OF assms(1)] ring_length(2) [OF r(1)] by (simp add: of_nat_diff)
  moreover have "2 ^ m - length xs < 2 ^ 32" using pow2_u32 [OF r(2)] by simp
  ultimately have free: "unat ?free = 2 ^ m - length xs" using of_nat_u32_less by metis
  have num: "unat num_fibers = length ys" using assms(2,3) of_nat_u32_less by simp
  let ?n = "if ?free < num_fibers then ?free else num_fibers"
  have un: "unat ?n = n" using free num by (simp add: n_def word_less_nat_alt)
  then have wn: "?n = of_nat n" by (simp only: un [symmetric] of_nat_unat ucast_id)
  have le: "n \<le> length ys" "length xs + n \<le> 2 ^ m" using ring_length(2) [OF r(1)] by (auto simp: n_def)
  obtain b' where b: "spmc_write_loop n (mask m) (q_buffer q) (of_nat (H + length xs)) ys =
      Some (b', of_nat (H + length xs + n), drop n ys)" "ring b' m H (xs @ take n ys)"
    using spmc_write_loop_spec [OF r(1,2) le] by blast
  have loop: "spmc_write_loop (unat ?n) (q_mask q) (q_buffer q) (q_tail q) ys = Some (b', of_nat (H + length xs + n), drop n ys)"
    using b(1) unfolding un by (simp only: r(3,4))
  have "drop n ys = [] \<longleftrightarrow> ?n = num_fibers"
  proof -
    have "?n = num_fibers \<longleftrightarrow> unat ?n = unat num_fibers" by (rule word_unat_eq_iff)
    then show ?thesis using un num le(1) by auto
  qed
  then have "fev_bounded_spmc_queue_push_stq q ys num_fibers =
      Some (q\<lparr>q_buffer := b', q_tail := of_nat (H + length xs + n)\<rparr>, drop n ys, of_nat n)"
    unfolding fev_bounded_spmc_queue_push_stq_def Let_def wn loop [unfolded wn] by simp
  moreover have "length (xs @ take n ys) = length xs + n" using le by simp
  ultimately show ?thesis using assms(1) b(2) by (simp add: spmc_rep_def add.assoc)
qed

lemma spmc_init:
  assumes "n \<ge> 2" "n AND (n - 1) = 0"
  shows "\<exists>m q. unat n = 2 ^ m \<and> fev_bounded_spmc_queue_init True n = Some (Inr q) \<and> spmc_rep m 0 q []"
proof -
  have "n \<noteq> 0" using assms(1) by auto
  then obtain m where m: "m < 32" "unat n = 2 ^ m" "n - 1 = mask m" using word_pow2_test [OF _ assms(2)] by auto
  have "2 \<le> unat n" using assms(1) by (simp add: word_le_nat_alt)
  then have "1 \<le> m" using m(2) by (cases m) auto
  then show ?thesis using assms m by (simp add: fev_bounded_spmc_queue_init_def spmc_rep_def ring_def)
qed

section \<open>What the operations promise\<close>

text \<open>
  Without interference the ring buffer is a bounded first-in first-out queue, for every position of the
  32-bit indices, the wrap-around included: its size is the number of elements, \<open>pop\<close> takes the first
  element or reports an empty queue, \<open>push\<close> appends one element or reports a full queue, and \<open>push_stq\<close>
  appends the longest prefix that fits, leaves the rest in the list and reports the length of the prefix;
  no assertion fails and no cell that was never written is read.
\<close>

theorem fev_bounded_spmc_queue_refines:
  assumes "spmc_rep m H q xs" "length ys < 2 ^ 32"
  shows "unat (fev_bounded_spmc_queue_size q) = length xs \<and>
     (case xs of
        [] \<Rightarrow> fev_bounded_spmc_queue_pop q = Some (None, q)
      | x # xs' \<Rightarrow> \<exists>q'. fev_bounded_spmc_queue_pop q = Some (Some x, q') \<and> spmc_rep m (Suc H) q' xs') \<and>
     (if length xs < 2 ^ m
      then \<exists>q'. fev_bounded_spmc_queue_push q y = Some (True, q') \<and> spmc_rep m H q' (xs @ [y])
      else fev_bounded_spmc_queue_push q y = Some (False, q)) \<and>
     (let n = min (2 ^ m - length xs) (length ys)
      in \<exists>q'. fev_bounded_spmc_queue_push_stq q ys (of_nat (length ys)) = Some (q', drop n ys, of_nat n) \<and>
           spmc_rep m H q' (xs @ take n ys))"
proof (intro conjI)
  show "unat (fev_bounded_spmc_queue_size q) = length xs"
    unfolding fev_bounded_spmc_queue_size_def spmc_size [OF assms(1)] by (rule of_nat_u32_less [OF spmc_len [OF assms(1)]])
  show "case xs of [] \<Rightarrow> fev_bounded_spmc_queue_pop q = Some (None, q)
      | x # xs' \<Rightarrow> \<exists>q'. fev_bounded_spmc_queue_pop q = Some (Some x, q') \<and> spmc_rep m (Suc H) q' xs'"
    using assms(1) spmc_pop spmc_pop_empty by (auto split: list.split)
  have "length xs \<le> 2 ^ m" using assms(1) by (simp add: spmc_rep_def ring_def)
  then show "if length xs < 2 ^ m
      then \<exists>q'. fev_bounded_spmc_queue_push q y = Some (True, q') \<and> spmc_rep m H q' (xs @ [y])
      else fev_bounded_spmc_queue_push q y = Some (False, q)"
    using spmc_push [OF assms(1)] spmc_push_full [OF assms(1)] by simp
  show "let n = min (2 ^ m - length xs) (length ys)
      in \<exists>q'. fev_bounded_spmc_queue_push_stq q ys (of_nat (length ys)) = Some (q', drop n ys, of_nat n) \<and>
           spmc_rep m H q' (xs @ take n ys)"
    unfolding Let_def by (rule spmc_push_stq [OF assms(1) refl assms(2)])
qed

text \<open>A queue of two slots that has been pushed to just before the indices wrap.\<close>

definition wrapping_queue :: fev_bounded_spmc_queue where
  "wrapping_queue = \<lparr>q_buffer = [None, Some 7], q_mask = 1, q_head = 4294967295, q_tail = 0\<rparr>"

theorem fev_bounded_spmc_queue_refines_witness:
  "\<exists>q'. fev_bounded_spmc_queue_push_stq wrapping_queue [8, 9] 2 = Some (q', [9], 1) \<and>
     spmc_rep 1 4294967295 q' [7, 8]"
proof -
  have "spmc_rep 1 4294967295 wrapping_queue [7]"
    by (simp add: spmc_rep_def ring_def wrapping_queue_def mask_eq_exp_minus_1)
  moreover have "length [8, 9 :: nat] < 2 ^ 32" by simp
  ultimately show ?thesis
    using fev_bounded_spmc_queue_refines [of 1 4294967295 wrapping_queue "[7]" "[8, 9]"]
    by (simp add: Let_def)
qed

end
