(* ===== verification/Spmc_Concurrent.thy ===== *)
theory Spmc_Concurrent
  imports Spmc_Queue
begin

text \<open>
  The bounded SPMC queue under concurrency: one producer, the worker that owns the queue, and any number of
  consumers, the workers that steal. Every load, store and compare-exchange is a step of its own. A
  consumer reads the slot before its compare-exchange has made the element its own, so the producer may
  overwrite the slot meanwhile; the theorem shows that the compare-exchange fails in that case.
\<close>

section \<open>The system\<close>

text \<open>Ghost arguments are marked: the number of pops, or of pushes, when an index was loaded.\<close>

datatype prod_pc =
    PIdle
  | PPush u32 nat fiber_ptr \<comment> \<open>head loaded (ghost: pops so far) in \<open>push\<close>\<close>
  | PPushStore fiber_ptr \<comment> \<open>slot written\<close>
  | PStq u32 nat "fiber_ptr list" \<comment> \<open>head loaded (ghost: pops so far) in \<open>push_stq\<close>\<close>
  | PWrite nat u32 "fiber_ptr list" "fiber_ptr list" u32 u32 \<comment> \<open>slots to write, \<open>tail\<close>, written (ghost), \<open>cur\<close>, \<open>n\<close>, \<open>*num_fibers\<close>\<close>
  | PFault

datatype cons_pc =
    CIdle
  | CHead u32 nat \<comment> \<open>head loaded (ghost: pops so far)\<close>
  | CTail u32 nat
  | CData u32 nat fiber_ptr \<comment> \<open>slot read\<close>
  | CFault

text \<open>
  Ghosts: \<open>sp_pushed\<close>, the elements published so far; \<open>sp_popped\<close>, the elements taken so far and by whom, in
  the order of the successful compare-exchanges; \<open>sp_wrong\<close>, an operation gave up that should not have.
\<close>

record spmc_sys =
  sp_buffer :: "fiber_ptr option list"
  sp_mask :: u32
  sp_head :: u32
  sp_tail :: u32
  sp_prod :: prod_pc
  sp_cons :: "nat \<Rightarrow> cons_pc"
  sp_pushed :: "fiber_ptr list"
  sp_popped :: "(nat \<times> fiber_ptr) list"
  sp_wrong :: bool

definition spmc_sys_init :: "nat \<Rightarrow> spmc_sys" where
  "spmc_sys_init m =
     \<lparr>sp_buffer = replicate (2 ^ m) None, sp_mask = mask m, sp_head = 0, sp_tail = 0, sp_prod = PIdle,
      sp_cons = (\<lambda>_. CIdle), sp_pushed = [], sp_popped = [], sp_wrong = False\<rparr>"

abbreviation pops :: "spmc_sys \<Rightarrow> nat" where "pops s \<equiv> length (sp_popped s)"
abbreviation pushes :: "spmc_sys \<Rightarrow> nat" where "pushes s \<equiv> length (sp_pushed s)"

definition cons_goto :: "spmc_sys \<Rightarrow> nat \<Rightarrow> cons_pc \<Rightarrow> spmc_sys" where
  "cons_goto s i p = s\<lparr>sp_cons := (sp_cons s)(i := p)\<rparr>"

text \<open>The producer: \<open>fev_bounded_spmc_queue_push\<close> and \<open>fev_bounded_spmc_queue_push_stq\<close>.\<close>

definition spmc_push_step :: "spmc_sys \<Rightarrow> spmc_sys option" where
  "spmc_push_step s =
     (case sp_prod s of
        PPush h k fiber \<Rightarrow>
          if sp_tail s - h \<le> sp_mask s
          then Some (case aset (sp_buffer s) (unat (sp_tail s AND sp_mask s)) fiber of
                       None \<Rightarrow> s\<lparr>sp_prod := PFault\<rparr>
                     | Some buffer \<Rightarrow> s\<lparr>sp_buffer := buffer, sp_prod := PPushStore fiber\<rparr>)
          else Some (s\<lparr>sp_prod := PIdle, sp_wrong := sp_wrong s \<or> pushes s - k < length (sp_buffer s)\<rparr>)
      | PPushStore fiber \<Rightarrow> Some (s\<lparr>sp_tail := sp_tail s + 1, sp_pushed := sp_pushed s @ [fiber], sp_prod := PIdle\<rparr>)
      | _ \<Rightarrow> None)"

definition spmc_push_stq_step :: "spmc_sys \<Rightarrow> spmc_sys option" where
  "spmc_push_stq_step s =
     (case sp_prod s of
        PStq h k fibers \<Rightarrow>
          (let num = of_nat (length fibers); free = (sp_mask s + 1) - (sp_tail s - h); n = (if free < num then free else num)
           in Some (s\<lparr>sp_prod := PWrite (unat n) (sp_tail s) [] fibers n num\<rparr>))
      | PWrite (Suc j) t ws (fiber # cur) n num \<Rightarrow>
          Some (case aset (sp_buffer s) (unat (t AND sp_mask s)) fiber of
                  None \<Rightarrow> s\<lparr>sp_prod := PFault\<rparr>
                | Some buffer \<Rightarrow> s\<lparr>sp_buffer := buffer, sp_prod := PWrite j (t + 1) (ws @ [fiber]) cur n num\<rparr>)
      | PWrite (Suc j) t ws [] n num \<Rightarrow> Some (s\<lparr>sp_prod := PFault\<rparr>)
      | PWrite 0 t ws cur n num \<Rightarrow>
          Some (if (cur = []) = (n = num)
                then s\<lparr>sp_tail := t, sp_pushed := sp_pushed s @ ws, sp_prod := PIdle\<rparr>
                else s\<lparr>sp_prod := PFault\<rparr>)
      | _ \<Rightarrow> None)"

text \<open>A consumer: \<open>fev_bounded_spmc_queue_pop\<close>; \<open>spurious\<close> is a failure of the weak compare-exchange.\<close>

definition spmc_pop_step :: "bool \<Rightarrow> nat \<Rightarrow> spmc_sys \<Rightarrow> spmc_sys option" where
  "spmc_pop_step spurious i s =
     (case sp_cons s i of
        CHead h k \<Rightarrow>
          if h = sp_tail s
          then Some ((cons_goto s i CIdle)\<lparr>sp_wrong := sp_wrong s \<or> pops s < pushes s\<rparr>)
          else Some (cons_goto s i (CTail h k))
      | CTail h k \<Rightarrow>
          Some (cons_goto s i (case aget (sp_buffer s) (unat (h AND sp_mask s)) of None \<Rightarrow> CFault | Some fiber \<Rightarrow> CData h k fiber))
      | CData h k fiber \<Rightarrow>
          if sp_head s = h \<and> \<not> spurious
          then Some ((cons_goto s i CIdle)\<lparr>sp_head := h + 1, sp_popped := sp_popped s @ [(i, fiber)]\<rparr>)
          else Some (cons_goto s i (CHead (sp_head s) (pops s)))
      | _ \<Rightarrow> None)"

datatype spmc_event =
    Push fiber_ptr
  | PushStq "fiber_ptr list"
  | ProdStep
  | Pop nat
  | PopStep bool nat

fun spmc_step :: "spmc_event \<Rightarrow> spmc_sys \<Rightarrow> spmc_sys option" where
  "spmc_step (Push fiber) s =
     (if sp_prod s = PIdle then Some (s\<lparr>sp_prod := PPush (sp_head s) (pops s) fiber\<rparr>) else None)"
| "spmc_step (PushStq fibers) s =
     (if sp_prod s = PIdle \<and> length fibers < 2 ^ 32 then Some (s\<lparr>sp_prod := PStq (sp_head s) (pops s) fibers\<rparr>) else None)"
| "spmc_step ProdStep s =
     (case sp_prod s of
        PPush _ _ _ \<Rightarrow> spmc_push_step s
      | PPushStore _ \<Rightarrow> spmc_push_step s
      | _ \<Rightarrow> spmc_push_stq_step s)"
| "spmc_step (Pop i) s = (if sp_cons s i = CIdle then Some (cons_goto s i (CHead (sp_head s) (pops s))) else None)"
| "spmc_step (PopStep spurious i) s = spmc_pop_step spurious i s"

section \<open>The invariant\<close>

text \<open>
  The indices are 32 bits wide: a compare-exchange cannot tell an index from the one \<open>2 ^ 32\<close> operations
  later. \<open>no_wrap\<close> says that no consumer is suspended inside \<open>pop\<close> while \<open>2 ^ 32\<close> elements are pushed.
\<close>

fun loaded_at :: "cons_pc \<Rightarrow> nat option" where
  "loaded_at (CHead h k) = Some k"
| "loaded_at (CTail h k) = Some k"
| "loaded_at (CData h k d) = Some k"
| "loaded_at _ = None"

definition no_wrap :: "spmc_sys \<Rightarrow> bool" where
  "no_wrap s \<longleftrightarrow> (\<forall>i. case loaded_at (sp_cons s i) of None \<Rightarrow> True | Some k \<Rightarrow> pushes s < k + 2 ^ 32)"

text \<open>Elements written to slots but not yet published; what the producer knows; what a consumer knows.\<close>

fun unpublished :: "prod_pc \<Rightarrow> fiber_ptr list" where
  "unpublished (PPushStore fiber) = [fiber]"
| "unpublished (PWrite _ _ ws _ _ _) = ws"
| "unpublished _ = []"

fun prod_ok :: "nat \<Rightarrow> nat \<Rightarrow> nat \<Rightarrow> prod_pc \<Rightarrow> bool" where
  "prod_ok m H T PIdle = True"
| "prod_ok m H T (PPush h k _) = (h = of_nat k \<and> k \<le> H \<and> k \<le> T \<and> T \<le> k + 2 ^ m)"
| "prod_ok m H T (PPushStore _) = True"
| "prod_ok m H T (PStq h k fibers) = (h = of_nat k \<and> k \<le> H \<and> k \<le> T \<and> T \<le> k + 2 ^ m \<and> length fibers < 2 ^ 32)"
| "prod_ok m H T (PWrite j t ws cur n num) =
     (t = of_nat (T + length ws) \<and> T + length ws + j \<le> H + 2 ^ m \<and> j \<le> length cur \<and>
      unat n = length ws + j \<and> unat num = length ws + length cur)"
| "prod_ok m H T PFault = False"

fun cons_ok :: "nat \<Rightarrow> fiber_ptr list \<Rightarrow> cons_pc \<Rightarrow> bool" where
  "cons_ok H pushed CIdle = True"
| "cons_ok H pushed (CHead h k) = (h = of_nat k \<and> k \<le> H)"
| "cons_ok H pushed (CTail h k) = (h = of_nat k \<and> k \<le> H \<and> k < length pushed)"
| "cons_ok H pushed (CData h k d) = (h = of_nat k \<and> k \<le> H \<and> k < length pushed \<and> (k = H \<longrightarrow> d = pushed ! H))"
| "cons_ok H pushed CFault = False"

definition spmc_inv :: "nat \<Rightarrow> spmc_sys \<Rightarrow> bool" where
  "spmc_inv m s \<longleftrightarrow>
     m < 32 \<and> sp_mask s = mask m \<and> sp_head s = of_nat (pops s) \<and> sp_tail s = of_nat (pushes s) \<and>
     map snd (sp_popped s) = take (pops s) (sp_pushed s) \<and>
     ring (sp_buffer s) m (pops s) (drop (pops s) (sp_pushed s) @ unpublished (sp_prod s)) \<and>
     (\<forall>k < pushes s. sp_buffer s ! (k mod 2 ^ m) \<noteq> None) \<and>
     prod_ok m (pops s) (pushes s) (sp_prod s) \<and> (\<forall>i. cons_ok (pops s) (sp_pushed s) (sp_cons s i)) \<and> \<not> sp_wrong s"

lemma cons_ok_mono: "cons_ok H pushed p \<Longrightarrow> H \<le> H' \<Longrightarrow> length pushed \<le> length pushed' \<Longrightarrow>
    (H < length pushed \<longrightarrow> pushed' ! H = pushed ! H) \<Longrightarrow> cons_ok H' pushed' p"
  by (cases p) auto

lemma prod_ok_mono: "prod_ok m H T p \<Longrightarrow> H \<le> H' \<Longrightarrow> prod_ok m H' T p"
  by (cases p) auto

lemma spmc_inv_facts:
  assumes "spmc_inv m s"
  shows "m < 32" "sp_mask s = mask m" "sp_head s = of_nat (pops s)" "sp_tail s = of_nat (pushes s)"
    and "pops s \<le> pushes s" "length (sp_buffer s) = 2 ^ m"
    and "pushes s + length (unpublished (sp_prod s)) \<le> pops s + 2 ^ m"
    and "prod_ok m (pops s) (pushes s) (sp_prod s)" "cons_ok (pops s) (sp_pushed s) (sp_cons s i)"
proof -
  have "length (map snd (sp_popped s)) = length (take (pops s) (sp_pushed s))"
    using assms by (simp only: spmc_inv_def)
  then show le: "pops s \<le> pushes s" by simp
  have "ring (sp_buffer s) m (pops s) (drop (pops s) (sp_pushed s) @ unpublished (sp_prod s))"
    using assms by (simp only: spmc_inv_def)
  from ring_length [OF this] le
  show "length (sp_buffer s) = 2 ^ m" "pushes s + length (unpublished (sp_prod s)) \<le> pops s + 2 ^ m" by simp_all
qed (use assms in \<open>simp_all only: spmc_inv_def\<close>)

lemma spmc_slot:
  assumes "spmc_inv m s" "k < pushes s"
  shows "\<exists>d. sp_buffer s ! (k mod 2 ^ m) = Some d \<and> (k = pops s \<longrightarrow> d = sp_pushed s ! k)"
proof (cases "k = pops s")
  case True
  have "ring (sp_buffer s) m (pops s) (drop (pops s) (sp_pushed s) @ unpublished (sp_prod s))"
    using assms(1) by (simp only: spmc_inv_def)
  moreover have "drop (pops s) (sp_pushed s) = sp_pushed s ! k # drop (Suc k) (sp_pushed s)"
    using True assms(2) by (simp add: Cons_nth_drop_Suc)
  ultimately show ?thesis using ring_hd True by fastforce
next
  case False
  then show ?thesis using assms by (auto simp: spmc_inv_def)
qed

lemma spmc_set_prod:
  "spmc_inv m s \<Longrightarrow> unpublished p = unpublished (sp_prod s) \<Longrightarrow> prod_ok m (pops s) (pushes s) p \<Longrightarrow>
     spmc_inv m (s\<lparr>sp_prod := p\<rparr>)"
  by (simp add: spmc_inv_def)

lemma spmc_set_cons:
  "spmc_inv m s \<Longrightarrow> cons_ok (pops s) (sp_pushed s) p \<Longrightarrow> spmc_inv m (cons_goto s i p)"
  by (simp add: spmc_inv_def cons_goto_def)

lemma spmc_publish:
  assumes inv: "spmc_inv m s" and ws: "unpublished (sp_prod s) = ws" and t: "t = of_nat (pushes s + length ws)"
  shows "spmc_inv m (s\<lparr>sp_tail := t, sp_pushed := sp_pushed s @ ws, sp_prod := PIdle\<rparr>)"
proof -
  note f = spmc_inv_facts [OF inv]
  have r: "ring (sp_buffer s) m (pops s) (drop (pops s) (sp_pushed s) @ ws)"
    using inv ws by (simp only: spmc_inv_def)
  have "sp_buffer s ! (k mod 2 ^ m) \<noteq> None" if "k < pushes s + length ws" for k
  proof (cases "k < pushes s")
    case True
    then show ?thesis using spmc_slot [OF inv] by fastforce
  next
    case False
    then have "pops s + (k - pops s) = k" "k - pops s < length (drop (pops s) (sp_pushed s) @ ws)" using that f(5) by auto
    then show ?thesis using r unfolding ring_def by (metis option.distinct(1))
  qed
  moreover have "cons_ok (pops s) (sp_pushed s @ ws) (sp_cons s i)" for i
    by (rule cons_ok_mono [OF f(9)]) (auto simp: nth_append)
  ultimately show ?thesis using inv r t f(5) by (simp add: spmc_inv_def)
qed

lemma spmc_write:
  assumes inv: "spmc_inv m s" and ws: "unpublished (sp_prod s) = ws" "unpublished p = ws @ [d]"
    and room: "pushes s + length ws < pops s + 2 ^ m" and p: "prod_ok m (pops s) (pushes s) p"
    and t: "t = of_nat (pushes s + length ws)"
  shows "\<exists>buffer. aset (sp_buffer s) (unat (t AND sp_mask s)) d = Some buffer \<and>
     spmc_inv m (s\<lparr>sp_buffer := buffer, sp_prod := p\<rparr>)"
proof -
  note f = spmc_inv_facts [OF inv]
  let ?xs = "drop (pops s) (sp_pushed s) @ ws" and ?j = "(pushes s + length ws) mod 2 ^ m"
  have r: "ring (sp_buffer s) m (pops s) ?xs" using inv ws(1) by (simp only: spmc_inv_def)
  have len: "pops s + length ?xs = pushes s + length ws" "length ?xs < 2 ^ m" using f(5) room by simp_all
  have "unat (t AND sp_mask s) = ?j" unfolding t f(2) by (rule index_of_nat) (use f(1) in simp)
  then have a: "aset (sp_buffer s) (unat (t AND sp_mask s)) d = Some ((sp_buffer s)[?j := Some d])" using f(6) by simp
  have r': "ring ((sp_buffer s)[?j := Some d]) m (pops s) (?xs @ [d])" using ring_snoc [OF r len(2), of d] unfolding len(1) .
  have "(sp_buffer s)[?j := Some d] ! (k mod 2 ^ m) \<noteq> None" if "k < pushes s" for k
    using spmc_slot [OF inv that] f(6) by (auto simp: nth_list_update)
  then have "spmc_inv m (s\<lparr>sp_buffer := (sp_buffer s)[?j := Some d], sp_prod := p\<rparr>)"
    using inv r' p ws(2) by (simp add: spmc_inv_def)
  then show ?thesis using a by blast
qed

lemma spmc_take:
  assumes inv: "spmc_inv m s" and c: "sp_cons s i = CData h (pops s) d"
  shows "spmc_inv m ((cons_goto s i CIdle)\<lparr>sp_head := sp_head s + 1, sp_popped := sp_popped s @ [(i, d)]\<rparr>)"
proof -
  note f = spmc_inv_facts [OF inv]
  have d: "pops s < pushes s" "d = sp_pushed s ! pops s" using f(9) [of i] c by auto
  have r: "ring (sp_buffer s) m (Suc (pops s)) (drop (Suc (pops s)) (sp_pushed s) @ unpublished (sp_prod s))"
  proof (rule ring_tl)
    show "ring (sp_buffer s) m (pops s) (d # (drop (Suc (pops s)) (sp_pushed s) @ unpublished (sp_prod s)))"
      using inv d by (simp add: spmc_inv_def Cons_nth_drop_Suc flip: append_Cons)
  qed
  have "cons_ok (Suc (pops s)) (sp_pushed s) (sp_cons s j)" for j
    by (rule cons_ok_mono [OF f(9)]) auto
  moreover have "prod_ok m (Suc (pops s)) (pushes s) (sp_prod s)" by (rule prod_ok_mono [OF f(8)]) simp
  ultimately show ?thesis using inv r d by (simp add: spmc_inv_def cons_goto_def take_Suc_conv_app_nth)
qed

lemma of_nat_u32_eq: "k \<le> n \<Longrightarrow> n < k + 2 ^ 32 \<Longrightarrow> (of_nat k :: u32) = of_nat n \<longleftrightarrow> k = n"
proof -
  assume "k \<le> n" "n < k + 2 ^ 32"
  then obtain d where d: "n = k + d" "d < 2 ^ 32" by (metis add_less_cancel_left le_iff_add)
  have "(of_nat k :: u32) = of_nat n \<longleftrightarrow> (of_nat d :: u32) = 0" by (simp add: d(1))
  also have "\<dots> \<longleftrightarrow> d = 0" unfolding unat_eq_zero [symmetric] of_nat_u32_less [OF d(2)] ..
  finally show ?thesis using d(1) by simp
qed

lemma le_pow2_minus_1: "n \<le> 2 ^ m - Suc 0 \<longleftrightarrow> n < (2::nat) ^ m"
proof -
  have "(0::nat) < 2 ^ m" by simp
  then show ?thesis by linarith
qed

lemma of_nat_u32_diff: "k \<le> n \<Longrightarrow> n < k + 2 ^ 32 \<Longrightarrow> unat (of_nat n - of_nat k :: u32) = n - k"
  using of_nat_u32_less [of "n - k"] by (simp add: of_nat_diff)

lemma spmc_push_step_inv:
  assumes inv: "spmc_inv m s" and step: "spmc_push_step s = Some s'"
  shows "spmc_inv m s'"
proof (cases "sp_prod s")
  case (PPush h k d)
  note f = spmc_inv_facts [OF inv]
  have k: "h = of_nat k" "k \<le> pops s" "k \<le> pushes s" "pushes s \<le> k + 2 ^ m" using f(8) PPush by simp_all
  have "pushes s < k + 2 ^ 32" using k(4) pow2_u32 [OF f(1)] by simp
  then have "unat (sp_tail s - h) = pushes s - k" unfolding f(4) k(1) by (rule of_nat_u32_diff [OF k(3)])
  then have cond: "sp_tail s - h \<le> sp_mask s \<longleftrightarrow> pushes s - k < 2 ^ m"
    using f(1,2) by (simp add: word_le_nat_alt unat_mask_u32 le_pow2_minus_1)
  show ?thesis
  proof (cases "sp_tail s - h \<le> sp_mask s")
    case True
    have "pushes s + length [] < pops s + 2 ^ m" using True cond k by simp
    then obtain buffer where "aset (sp_buffer s) (unat (sp_tail s AND sp_mask s)) d = Some buffer"
        "spmc_inv m (s\<lparr>sp_buffer := buffer, sp_prod := PPushStore d\<rparr>)"
      using spmc_write [OF inv, of "[]" "PPushStore d" d "sp_tail s"] PPush f(4) by auto
    then show ?thesis using step PPush True by (simp add: spmc_push_step_def)
  next
    case False
    then have "\<not> pushes s - k < length (sp_buffer s)" using cond f(6) by simp
    moreover have "spmc_inv m (s\<lparr>sp_prod := PIdle\<rparr>)" by (rule spmc_set_prod [OF inv]) (simp_all add: PPush)
    ultimately have "spmc_inv m (s\<lparr>sp_prod := PIdle, sp_wrong := sp_wrong s \<or> pushes s - k < length (sp_buffer s)\<rparr>)"
      by (simp add: spmc_inv_def)
    then show ?thesis using step PPush False by (simp add: spmc_push_step_def)
  qed
next
  case (PPushStore d)
  then have "s' = s\<lparr>sp_tail := sp_tail s + 1, sp_pushed := sp_pushed s @ [d], sp_prod := PIdle\<rparr>"
    using step by (simp add: spmc_push_step_def)
  then show ?thesis
    using spmc_publish [OF inv, of "[d]" "sp_tail s + 1"] PPushStore spmc_inv_facts(4) [OF inv] by (simp add: add.commute)
qed (use step in \<open>simp_all add: spmc_push_step_def\<close>)

lemma spmc_push_stq_step_inv:
  assumes inv: "spmc_inv m s" and step: "spmc_push_stq_step s = Some s'"
  shows "spmc_inv m s'"
proof (cases "sp_prod s")
  case (PStq h k fibers)
  note f = spmc_inv_facts [OF inv]
  have k: "h = of_nat k" "k \<le> pops s" "k \<le> pushes s" "pushes s \<le> k + 2 ^ m" "length fibers < 2 ^ 32" using f(8) PStq by simp_all
  let ?free = "sp_mask s + 1 - (sp_tail s - h)" and ?num = "of_nat (length fibers) :: u32"
  let ?n = "if ?free < ?num then ?free else ?num"
  have "(sp_mask s + 1) = of_nat (2 ^ m)" using f(2) by (simp add: mask_eq_exp_minus_1)
  then have "?free = of_nat (2 ^ m - (pushes s - k))" using k(1,3,4) f(4) by (simp add: of_nat_diff)
  moreover have "2 ^ m - (pushes s - k) < 2 ^ 32" using pow2_u32 [OF f(1)] by simp
  ultimately have free: "unat ?free = 2 ^ m - (pushes s - k)" using of_nat_u32_less by metis
  have num: "unat ?num = length fibers" using of_nat_u32_less [OF k(5)] .
  have n: "unat ?n \<le> 2 ^ m - (pushes s - k)" "unat ?n \<le> length fibers" using free num by (auto simp: word_less_nat_alt)
  have ok: "prod_ok m (pops s) (pushes s) (PWrite (unat ?n) (sp_tail s) [] fibers ?n ?num)"
    using n k num f(4) by simp
  have "spmc_inv m (s\<lparr>sp_prod := PWrite (unat ?n) (sp_tail s) [] fibers ?n ?num\<rparr>)"
    by (rule spmc_set_prod [OF inv _ ok]) (simp add: PStq)
  then show ?thesis using step PStq by (simp add: spmc_push_stq_step_def Let_def)
next
  case (PWrite j t ws cur n num)
  have k: "t = of_nat (pushes s + length ws)" "pushes s + length ws + j \<le> pops s + 2 ^ m" "j \<le> length cur"
      "unat n = length ws + j" "unat num = length ws + length cur"
    using spmc_inv_facts(8) [OF inv] PWrite by simp_all
  show ?thesis
  proof (cases j)
    case 0
    have "n = num \<longleftrightarrow> unat n = unat num" by (rule word_unat_eq_iff)
    then have "(cur = []) = (n = num)" using k(4,5) 0 by auto
    then have "s' = s\<lparr>sp_tail := t, sp_pushed := sp_pushed s @ ws, sp_prod := PIdle\<rparr>"
      using step PWrite 0 by (simp add: spmc_push_stq_step_def)
    then show ?thesis using spmc_publish [OF inv _ k(1)] PWrite by simp
  next
    case (Suc j')
    then obtain d cur' where cur: "cur = d # cur'" using k(3) by (cases cur) auto
    let ?p = "PWrite j' (t + 1) (ws @ [d]) cur' n num"
    have "prod_ok m (pops s) (pushes s) ?p" using k Suc cur by simp
    moreover have "pushes s + length ws < pops s + 2 ^ m" using k(2) Suc by simp
    ultimately obtain buffer where "aset (sp_buffer s) (unat (t AND sp_mask s)) d = Some buffer"
        "spmc_inv m (s\<lparr>sp_buffer := buffer, sp_prod := ?p\<rparr>)"
      using spmc_write [OF inv, of ws ?p d t] PWrite k(1) by auto
    then show ?thesis using step PWrite Suc cur by (simp add: spmc_push_stq_step_def)
  qed
qed (use step in \<open>simp_all add: spmc_push_stq_step_def\<close>)

lemma no_wrap_at: "no_wrap s \<Longrightarrow> loaded_at (sp_cons s i) = Some k \<Longrightarrow> pushes s < k + 2 ^ 32"
  unfolding no_wrap_def by (metis option.simps(5))

lemma spmc_pop_step_inv:
  assumes inv: "spmc_inv m s" and nw: "no_wrap s" and step: "spmc_pop_step b i s = Some s'"
  shows "spmc_inv m s'"
proof (cases "sp_cons s i")
  case (CHead h k)
  note f = spmc_inv_facts [OF inv]
  have k: "h = of_nat k" "k \<le> pops s" using f(9) [of i] CHead by simp_all
  have lt: "pushes s < k + 2 ^ 32" using no_wrap_at [OF nw, of i] CHead by simp
  have eq: "h = sp_tail s \<longleftrightarrow> k = pushes s" unfolding k(1) f(4) by (rule of_nat_u32_eq [OF _ lt]) (use k(2) f(5) in simp)
  show ?thesis
  proof (cases "h = sp_tail s")
    case True
    then have "s' = (cons_goto s i CIdle)\<lparr>sp_wrong := sp_wrong s \<or> pops s < pushes s\<rparr>" "\<not> pops s < pushes s"
      using step CHead eq k(2) by (auto simp: spmc_pop_step_def)
    moreover have "spmc_inv m (cons_goto s i CIdle)" by (rule spmc_set_cons [OF inv]) simp
    ultimately show ?thesis by (simp add: spmc_inv_def cons_goto_def)
  next
    case False
    then have "s' = cons_goto s i (CTail h k)" using step CHead by (simp add: spmc_pop_step_def)
    moreover have "k < pushes s" using eq False k(2) f(5) by auto
    ultimately show ?thesis using k spmc_set_cons [OF inv] by simp
  qed
next
  case (CTail h k)
  note f = spmc_inv_facts [OF inv]
  have k: "h = of_nat k" "k \<le> pops s" "k < pushes s" using f(9) [of i] CTail by simp_all
  obtain d where d: "sp_buffer s ! (k mod 2 ^ m) = Some d" "k = pops s \<longrightarrow> d = sp_pushed s ! k"
    using spmc_slot [OF inv k(3)] by blast
  have "unat (h AND sp_mask s) = k mod 2 ^ m" unfolding k(1) f(2) by (rule index_of_nat) (use f(1) in simp)
  then have "s' = cons_goto s i (CData h k d)" using step CTail d(1) f(6) by (simp add: spmc_pop_step_def)
  then show ?thesis using k d(2) spmc_set_cons [OF inv] by simp
next
  case (CData h k d)
  note f = spmc_inv_facts [OF inv]
  have k: "h = of_nat k" "k \<le> pops s" using f(9) [of i] CData by simp_all
  have "pushes s < k + 2 ^ 32" using no_wrap_at [OF nw, of i] CData by simp
  then have lt: "pops s < k + 2 ^ 32" using f(5) by simp
  show ?thesis
  proof (cases "sp_head s = h \<and> \<not> b")
    case True
    then have "(of_nat k :: u32) = of_nat (pops s)" using f(3) k(1) by metis
    then have "k = pops s" using of_nat_u32_eq [OF k(2) lt] by simp
    then have "spmc_inv m ((cons_goto s i CIdle)\<lparr>sp_head := sp_head s + 1, sp_popped := sp_popped s @ [(i, d)]\<rparr>)"
      using spmc_take [OF inv] CData by simp
    then show ?thesis using step CData True by (simp add: spmc_pop_step_def)
  next
    case False
    then have "s' = cons_goto s i (CHead (sp_head s) (pops s))" using step CData by (auto simp: spmc_pop_step_def)
    then show ?thesis using f(3) spmc_set_cons [OF inv] by simp
  qed
qed (use step in \<open>simp_all add: spmc_pop_step_def\<close>)

lemma spmc_step_inv:
  assumes inv: "spmc_inv m s" and nw: "no_wrap s" and step: "spmc_step e s = Some s'"
  shows "spmc_inv m s'"
proof (cases e)
  case (Push d)
  then have "sp_prod s = PIdle" "s' = s\<lparr>sp_prod := PPush (sp_head s) (pops s) d\<rparr>" using step by (auto split: if_splits)
  then show ?thesis using spmc_set_prod [OF inv] spmc_inv_facts(3,5,7) [OF inv] by simp
next
  case (PushStq ds)
  then have "sp_prod s = PIdle" "s' = s\<lparr>sp_prod := PStq (sp_head s) (pops s) ds\<rparr>" "length ds < 2 ^ 32"
    using step by (auto split: if_splits)
  then show ?thesis using spmc_set_prod [OF inv] spmc_inv_facts(3,5,7) [OF inv] by simp
next
  case ProdStep
  then show ?thesis using step spmc_push_step_inv [OF inv] spmc_push_stq_step_inv [OF inv] by (cases "sp_prod s") auto
next
  case (Pop i)
  then have "s' = cons_goto s i (CHead (sp_head s) (pops s))" using step by (auto split: if_splits)
  then show ?thesis using spmc_set_cons [OF inv] spmc_inv_facts(3) [OF inv] by simp
next
  case (PopStep b i)
  then show ?thesis using step spmc_pop_step_inv [OF inv nw] by simp
qed

section \<open>What the queue promises\<close>

text \<open>The runs without an index that wraps around inside one \<open>pop\<close>.\<close>

definition spmc_guarded_step :: "spmc_event \<Rightarrow> spmc_sys \<Rightarrow> spmc_sys option" where
  "spmc_guarded_step e s = (case spmc_step e s of None \<Rightarrow> None | Some s' \<Rightarrow> if no_wrap s' then Some s' else None)"

lemma spmc_init_inv: "m < 32 \<Longrightarrow> spmc_inv m (spmc_sys_init m)"
  by (simp add: spmc_inv_def spmc_sys_init_def ring_def)

lemma spmc_init_no_wrap: "no_wrap (spmc_sys_init m)"
  by (simp add: no_wrap_def spmc_sys_init_def)

interpretation spmc: step_invariant spmc_guarded_step "\<lambda>s. m < 32 \<and> s = spmc_sys_init m" "\<lambda>s. spmc_inv m s \<and> no_wrap s"
proof unfold_locales
  fix s s' e
  assume "spmc_inv m s \<and> no_wrap s" "spmc_guarded_step e s = Some s'"
  then show "spmc_inv m s' \<and> no_wrap s'"
    using spmc_step_inv by (auto simp: spmc_guarded_step_def split: option.splits if_splits)
qed (auto simp: spmc_init_inv spmc_init_no_wrap)

text \<open>
  C22. Linearizability of the bounded SPMC queue, for one producer and any number of consumers, in every
  interleaving of their loads, stores and compare-exchanges (spurious failures included) in which no
  consumer sleeps inside \<open>pop\<close> through \<open>2 ^ 32\<close> pushes: the elements taken are, in the order of the
  successful compare-exchanges, exactly the first elements published, so that none is lost, duplicated or
  reordered; \<open>pop\<close> reports an empty queue only when it is empty, \<open>push\<close> reports a full queue only when it was
  full when it loaded the head; no slot is read that was never written, and no assertion fails.
\<close>

theorem fev_bounded_spmc_queue_linearizable:
  assumes "m < 32" "run spmc_guarded_step (spmc_sys_init m) es = Some s"
  shows "map snd (sp_popped s) = take (length (sp_popped s)) (sp_pushed s) \<and>
     length (sp_popped s) \<le> length (sp_pushed s) \<and> length (sp_pushed s) \<le> length (sp_popped s) + 2 ^ m \<and>
     \<not> sp_wrong s \<and> sp_prod s \<noteq> PFault \<and> (\<forall>i. sp_cons s i \<noteq> CFault)"
proof -
  have inv: "spmc_inv m s" using spmc.inv_run_init [OF _ assms(2)] assms(1) by blast
  note f = spmc_inv_facts [OF inv]
  have "sp_cons s i \<noteq> CFault" for i using f(9) [of i] by auto
  moreover have "sp_prod s \<noteq> PFault" using f(8) by auto
  ultimately show ?thesis using inv f(5,7) by (auto simp: spmc_inv_def)
qed

text \<open>
  Two consumers race for the first of two elements while the producer pushes a third into the freed slot;
  the slower one has read the old slot and has to retry.
\<close>

lemma no_wrap_small: "pushes s < 2 ^ 32 \<Longrightarrow> no_wrap s"
  by (simp add: no_wrap_def split: option.split)

definition spmc_race_run :: "spmc_event list" where
  "spmc_race_run =
     [PushStq [7, 8], ProdStep, ProdStep, ProdStep, ProdStep,
      Pop 1, Pop 2, PopStep False 1, PopStep False 2, PopStep False 1, PopStep False 2, PopStep False 1,
      Push 9, ProdStep, ProdStep, PopStep False 2, PopStep False 2, PopStep False 2, PopStep False 2]"

theorem fev_bounded_spmc_queue_linearizable_witness:
  "\<exists>s. run spmc_guarded_step (spmc_sys_init 1) spmc_race_run = Some s \<and> sp_popped s = [(1, 7), (2, 8)] \<and>
     sp_pushed s = [7, 8, 9] \<and> map snd (sp_popped s) = take 2 (sp_pushed s)"
proof -
  obtain s where s: "run spmc_guarded_step (spmc_sys_init 1) spmc_race_run = Some s" "sp_popped s = [(1, 7), (2, 8)]"
      "sp_pushed s = [7, 8, 9]"
    by (simp add: spmc_race_run_def spmc_guarded_step_def spmc_sys_init_def spmc_push_step_def spmc_push_stq_step_def
        spmc_pop_step_def cons_goto_def no_wrap_small Let_def mask_eq_exp_minus_1)
  then show ?thesis using fev_bounded_spmc_queue_linearizable [OF _ s(1)] by simp
qed

end
