(* ===== verification/Mpmc_Concurrent.thy ===== *)
theory Mpmc_Concurrent
  imports Spmc_Concurrent
begin

text \<open>
  The bounded MPMC queue (\<open>fev_bounded_mpmc_queue.h\<close>), the run queue of the work-sharing scheduler: any number
  of threads push and pop at once. Every cell has a sequence number that says whose turn it is: the pusher
  of ticket \<open>k\<close> may fill the cell when the number is \<open>k\<close>, the popper of ticket \<open>k\<close> may empty it when it is
  \<open>k + 1\<close>, and leaves it to ticket \<open>k + capacity\<close>. Every load, store and compare-exchange is a step of its own.
\<close>

section \<open>The system\<close>

text \<open>
  What a push belongs to: a call of \<open>fev_bounded_mpmc_queue_push\<close>, or one round of the loop of
  \<open>fev_bounded_mpmc_queue_push_stq\<close> with the fibers after the current one, \<open>n\<close> and \<open>*num_fibers\<close>.
\<close>

datatype push_job = JPush | JStq "fiber_ptr list" u32 u32

text \<open>The number after a loaded index is a ghost: the ticket without the reduction to 32 bits.\<close>

datatype mpmc_pc =
    QIdle
  | QPopLoad \<comment> \<open>about to load \<open>head\<close>\<close>
  | QPopSeq u32 nat \<comment> \<open>\<open>head\<close> loaded\<close>
  | QPopCas u32 nat \<comment> \<open>\<open>diff = 0\<close>\<close>
  | QPopRead u32 nat \<comment> \<open>compare-exchange done\<close>
  | QPopStore u32 nat fiber_ptr \<comment> \<open>data read\<close>
  | QPushLoad fiber_ptr push_job \<comment> \<open>about to load \<open>tail\<close>\<close>
  | QPushSeq u32 nat fiber_ptr push_job
  | QPushCas u32 nat fiber_ptr push_job
  | QPushWrite u32 nat fiber_ptr push_job
  | QPushStore u32 nat fiber_ptr push_job
  | QFault

text \<open>
  Ghosts: \<open>mq_gseq\<close>, the sequence numbers without reduction; \<open>mq_pushed\<close>, the elements in the order of the
  successful compare-exchanges of the pushes; \<open>mq_pops\<close>, the number of those of the pops; \<open>mq_done\<close>, the
  tickets of the finished pushes; \<open>mq_got\<close>, the tickets and results of the finished pops; \<open>mq_wrong\<close>, an
  operation gave up that should not have. \<open>mq_ret\<close> is what a push hands back: the fibers that did not fit
  and the number of those that did.
\<close>

record mpmc_sys =
  mq_seq :: "u32 list"
  mq_data :: "fiber_ptr option list"
  mq_mask :: u32
  mq_head :: u32
  mq_tail :: u32
  mq_thr :: "nat \<Rightarrow> mpmc_pc"
  mq_ret :: "nat \<Rightarrow> fiber_ptr list \<times> u32"
  mq_gseq :: "nat list"
  mq_pushed :: "fiber_ptr list"
  mq_pops :: nat
  mq_done :: "nat list"
  mq_got :: "(nat \<times> fiber_ptr) list"
  mq_wrong :: bool

text \<open>\<open>buffer\<close> tells whether the allocation succeeded.\<close>

definition fev_bounded_mpmc_queue_init :: "bool \<Rightarrow> u32 \<Rightarrow> (int + mpmc_sys) option" where
  "fev_bounded_mpmc_queue_init buffer capacity =
     do { fev_assert (capacity \<ge> 2 \<and> capacity AND (capacity - 1) = 0);
          Some (if \<not> buffer then Inl (- ENOMEM)
                else Inr \<lparr>mq_seq = map of_nat [0..<unat capacity], mq_data = replicate (unat capacity) None,
                       mq_mask = capacity - 1, mq_head = 0, mq_tail = 0, mq_thr = (\<lambda>_. QIdle), mq_ret = (\<lambda>_. ([], 0)),
                       mq_gseq = [0..<unat capacity], mq_pushed = [], mq_pops = 0, mq_done = [], mq_got = [],
                       mq_wrong = False\<rparr>) }"

abbreviation mpushes :: "mpmc_sys \<Rightarrow> nat" where "mpushes s \<equiv> length (mq_pushed s)"

definition qgoto :: "mpmc_sys \<Rightarrow> nat \<Rightarrow> mpmc_pc \<Rightarrow> mpmc_sys" where
  "qgoto s i p = s\<lparr>mq_thr := (mq_thr s)(i := p)\<rparr>"

definition fev_bounded_mpmc_queue_size :: "mpmc_sys \<Rightarrow> u32" where
  "fev_bounded_mpmc_queue_size s = mq_tail s - mq_head s"

text \<open>
  \<open>fev_bounded_mpmc_queue_pop\<close>; \<open>spurious\<close> is a failure of the weak compare-exchange, after which the index is
  the one found in memory.
\<close>

definition mpmc_pop_step :: "bool \<Rightarrow> nat \<Rightarrow> mpmc_sys \<Rightarrow> mpmc_sys option" where
  "mpmc_pop_step spurious i s =
     (case mq_thr s i of
        QPopLoad \<Rightarrow> Some (qgoto s i (QPopSeq (mq_head s) (mq_pops s)))
      | QPopSeq h k \<Rightarrow>
          (let c = unat (h AND mq_mask s)
           in if c < length (mq_seq s)
              then let diff = sint (mq_seq s ! c - (h + 1))
                   in Some (if diff = 0 then qgoto s i (QPopCas h k)
                            else if diff < 0 then (qgoto s i QIdle)\<lparr>mq_wrong := mq_wrong s \<or> mq_pops s \<in> set (mq_done s)\<rparr>
                            else qgoto s i QPopLoad)
              else Some (qgoto s i QFault))
      | QPopCas h k \<Rightarrow>
          Some (if mq_head s = h \<and> \<not> spurious
                then (qgoto s i (QPopRead h k))\<lparr>mq_head := h + 1, mq_pops := mq_pops s + 1\<rparr>
                else qgoto s i (QPopSeq (mq_head s) (mq_pops s)))
      | QPopRead h k \<Rightarrow>
          Some (case aget (mq_data s) (unat (h AND mq_mask s)) of None \<Rightarrow> qgoto s i QFault | Some d \<Rightarrow> qgoto s i (QPopStore h k d))
      | QPopStore h k d \<Rightarrow>
          (let c = unat (h AND mq_mask s)
           in Some ((qgoto s i QIdle)\<lparr>mq_seq := (mq_seq s)[c := h + mq_mask s + 1],
                      mq_gseq := (mq_gseq s)[c := k + length (mq_seq s)], mq_got := mq_got s @ [(k, d)]\<rparr>))
      | _ \<Rightarrow> None)"

text \<open>The return from a push, into the loop of \<open>fev_bounded_mpmc_queue_push_stq\<close> when it was called there.\<close>

fun mpmc_push_return :: "bool \<Rightarrow> fiber_ptr \<Rightarrow> push_job \<Rightarrow> mpmc_pc" where
  "mpmc_push_return pushed fiber JPush = QIdle"
| "mpmc_push_return pushed fiber (JStq next n num) =
     (if pushed
      then case next of
             [] \<Rightarrow> if n + 1 = num then QIdle else QFault
           | f # fs \<Rightarrow> QPushLoad f (JStq fs (n + 1) num)
      else if n \<noteq> num then QIdle else QFault)"

fun mpmc_push_result :: "bool \<Rightarrow> fiber_ptr \<Rightarrow> push_job \<Rightarrow> fiber_ptr list \<times> u32" where
  "mpmc_push_result pushed fiber JPush = (if pushed then ([], 1) else ([fiber], 0))"
| "mpmc_push_result pushed fiber (JStq next n num) = (if pushed then (next, n + 1) else (fiber # next, n))"

definition mpmc_push_ret :: "bool \<Rightarrow> fiber_ptr \<Rightarrow> push_job \<Rightarrow> nat \<Rightarrow> mpmc_sys \<Rightarrow> mpmc_sys" where
  "mpmc_push_ret pushed fiber job i s =
     (qgoto s i (mpmc_push_return pushed fiber job))\<lparr>mq_ret := (mq_ret s)(i := mpmc_push_result pushed fiber job)\<rparr>"

definition mpmc_push_step :: "bool \<Rightarrow> nat \<Rightarrow> mpmc_sys \<Rightarrow> mpmc_sys option" where
  "mpmc_push_step spurious i s =
     (case mq_thr s i of
        QPushLoad fiber job \<Rightarrow> Some (qgoto s i (QPushSeq (mq_tail s) (mpushes s) fiber job))
      | QPushSeq t k fiber job \<Rightarrow>
          (let c = unat (t AND mq_mask s)
           in if c < length (mq_seq s)
              then let diff = sint (mq_seq s ! c - t)
                   in Some (if diff = 0 then qgoto s i (QPushCas t k fiber job)
                            else if diff < 0
                            then (mpmc_push_ret False fiber job i s)\<lparr>mq_wrong := mq_wrong s \<or> mpushes s < length (mq_seq s)
                                    \<or> mpushes s - length (mq_seq s) \<in> fst ` set (mq_got s)\<rparr>
                            else qgoto s i (QPushLoad fiber job))
              else Some (qgoto s i QFault))
      | QPushCas t k fiber job \<Rightarrow>
          Some (if mq_tail s = t \<and> \<not> spurious
                then (qgoto s i (QPushWrite t k fiber job))\<lparr>mq_tail := t + 1, mq_pushed := mq_pushed s @ [fiber]\<rparr>
                else qgoto s i (QPushSeq (mq_tail s) (mpushes s) fiber job))
      | QPushWrite t k fiber job \<Rightarrow>
          Some (case aset (mq_data s) (unat (t AND mq_mask s)) fiber of
                  None \<Rightarrow> qgoto s i QFault
                | Some data \<Rightarrow> (qgoto s i (QPushStore t k fiber job))\<lparr>mq_data := data\<rparr>)
      | QPushStore t k fiber job \<Rightarrow>
          (let c = unat (t AND mq_mask s)
           in Some ((mpmc_push_ret True fiber job i s)\<lparr>mq_seq := (mq_seq s)[c := t + 1],
                      mq_gseq := (mq_gseq s)[c := k + 1], mq_done := mq_done s @ [k]\<rparr>))
      | _ \<Rightarrow> None)"

text \<open>The start of \<open>fev_bounded_mpmc_queue_push_stq\<close>.\<close>

definition mpmc_push_stq_start :: "fiber_ptr list \<Rightarrow> u32 \<Rightarrow> nat \<Rightarrow> mpmc_sys \<Rightarrow> mpmc_sys" where
  "mpmc_push_stq_start fibers num_fibers i s =
     (case fibers of
        [] \<Rightarrow> (qgoto s i (if num_fibers = 0 then QIdle else QFault))\<lparr>mq_ret := (mq_ret s)(i := ([], 0))\<rparr>
      | f # fs \<Rightarrow> qgoto s i (QPushLoad f (JStq fs 0 num_fibers)))"

datatype mpmc_event =
    MPush nat fiber_ptr
  | MPushStq nat "fiber_ptr list" u32 \<comment> \<open>\<open>*num_fibers\<close> is the length of the list\<close>
  | MPop nat
  | MPushStep bool nat
  | MPopStep bool nat

fun mpmc_step :: "mpmc_event \<Rightarrow> mpmc_sys \<Rightarrow> mpmc_sys option" where
  "mpmc_step (MPush i fiber) s = (if mq_thr s i = QIdle then Some (qgoto s i (QPushLoad fiber JPush)) else None)"
| "mpmc_step (MPushStq i fibers num_fibers) s =
     (if mq_thr s i = QIdle \<and> unat num_fibers = length fibers then Some (mpmc_push_stq_start fibers num_fibers i s) else None)"
| "mpmc_step (MPop i) s = (if mq_thr s i = QIdle then Some (qgoto s i QPopLoad) else None)"
| "mpmc_step (MPushStep spurious i) s = mpmc_push_step spurious i s"
| "mpmc_step (MPopStep spurious i) s = mpmc_pop_step spurious i s"

section \<open>The invariant\<close>

text \<open>The ticket that a thread owns, between its compare-exchange and its store to the sequence number.\<close>

fun push_ticket :: "mpmc_pc \<Rightarrow> nat option" where
  "push_ticket (QPushWrite _ k _ _) = Some k"
| "push_ticket (QPushStore _ k _ _) = Some k"
| "push_ticket _ = None"

fun pop_ticket :: "mpmc_pc \<Rightarrow> nat option" where
  "pop_ticket (QPopRead _ k) = Some k"
| "pop_ticket (QPopStore _ k _) = Some k"
| "pop_ticket _ = None"

definition push_own :: "mpmc_sys \<Rightarrow> nat \<Rightarrow> nat option" where
  "push_own s i = push_ticket (mq_thr s i)"

definition pop_own :: "mpmc_sys \<Rightarrow> nat \<Rightarrow> nat option" where
  "pop_own s i = pop_ticket (mq_thr s i)"

text \<open>A ticket that a thread has loaded but not yet made its own.\<close>

fun loaded_ticket :: "mpmc_pc \<Rightarrow> nat option" where
  "loaded_ticket (QPopSeq _ k) = Some k"
| "loaded_ticket (QPopCas _ k) = Some k"
| "loaded_ticket (QPushSeq _ k _ _) = Some k"
| "loaded_ticket (QPushCas _ k _ _) = Some k"
| "loaded_ticket _ = None"

text \<open>
  No thread sleeps between its load of an index and its compare-exchange while the queue moves on by nearly
  \<open>2 ^ 31\<close> elements, the range in which the signed difference tells before from after.
\<close>

definition mpmc_no_wrap :: "mpmc_sys \<Rightarrow> bool" where
  "mpmc_no_wrap s \<longleftrightarrow>
     (\<forall>i. case loaded_ticket (mq_thr s i) of None \<Rightarrow> True | Some k \<Rightarrow> mpushes s + length (mq_seq s) < k + 2 ^ 31)"

fun job_ok :: "push_job \<Rightarrow> bool" where
  "job_ok JPush = True"
| "job_ok (JStq next n num) = (unat num = unat n + 1 + length next)"

fun thr_ok :: "nat \<Rightarrow> nat \<Rightarrow> fiber_ptr list \<Rightarrow> nat list \<Rightarrow> fiber_ptr option list \<Rightarrow> mpmc_pc \<Rightarrow> bool" where
  "thr_ok m H P g D QIdle = True"
| "thr_ok m H P g D QPopLoad = True"
| "thr_ok m H P g D (QPopSeq h k) = (h = of_nat k \<and> k \<le> H)"
| "thr_ok m H P g D (QPopCas h k) = (h = of_nat k \<and> k \<le> H \<and> k < g ! (k mod 2 ^ m))"
| "thr_ok m H P g D (QPopRead h k) = (h = of_nat k \<and> k < H \<and> g ! (k mod 2 ^ m) = Suc k)"
| "thr_ok m H P g D (QPopStore h k d) = (h = of_nat k \<and> k < H \<and> g ! (k mod 2 ^ m) = Suc k \<and> d = P ! k)"
| "thr_ok m H P g D (QPushLoad f j) = job_ok j"
| "thr_ok m H P g D (QPushSeq t k f j) = (t = of_nat k \<and> k \<le> length P \<and> job_ok j)"
| "thr_ok m H P g D (QPushCas t k f j) = (t = of_nat k \<and> k \<le> length P \<and> k \<le> g ! (k mod 2 ^ m) \<and> job_ok j)"
| "thr_ok m H P g D (QPushWrite t k f j) = (t = of_nat k \<and> k < length P \<and> g ! (k mod 2 ^ m) = k \<and> f = P ! k \<and> job_ok j)"
| "thr_ok m H P g D (QPushStore t k f j) =
     (t = of_nat k \<and> k < length P \<and> g ! (k mod 2 ^ m) = k \<and> f = P ! k \<and> D ! (k mod 2 ^ m) = Some f \<and> job_ok j)"
| "thr_ok m H P g D QFault = False"

text \<open>
  The state of a cell: waiting for the push of ticket \<open>g\<close>, which is in progress or still to come, or holding the
  element of ticket \<open>t\<close>, whose pop is in progress or still to come.
\<close>

definition cell_free :: "nat \<Rightarrow> mpmc_sys \<Rightarrow> nat \<Rightarrow> bool" where
  "cell_free m s c \<longleftrightarrow>
     (let g = mq_gseq s ! c
      in g mod 2 ^ m = c \<and> mq_pops s \<le> g \<and> g < mq_pops s + 2 ^ m \<and> (mpushes s \<le> g \<or> (\<exists>i. push_own s i = Some g)))"

definition cell_full :: "nat \<Rightarrow> mpmc_sys \<Rightarrow> nat \<Rightarrow> bool" where
  "cell_full m s c \<longleftrightarrow>
     (\<exists>t. mq_gseq s ! c = Suc t \<and> t mod 2 ^ m = c \<and> t < mpushes s \<and> mpushes s \<le> t + 2 ^ m \<and>
        mq_data s ! c = Some (mq_pushed s ! t) \<and> (mq_pops s \<le> t \<or> (\<exists>i. pop_own s i = Some t)))"

definition mpmc_basic :: "nat \<Rightarrow> mpmc_sys \<Rightarrow> bool" where
  "mpmc_basic m s \<longleftrightarrow>
     1 \<le> m \<and> m < 31 \<and> mq_mask s = mask m \<and> mq_head s = of_nat (mq_pops s) \<and> mq_tail s = of_nat (mpushes s) \<and>
     mq_pops s \<le> mpushes s \<and> mpushes s \<le> mq_pops s + 2 ^ m \<and>
     length (mq_gseq s) = 2 ^ m \<and> mq_seq s = map of_nat (mq_gseq s) \<and> length (mq_data s) = 2 ^ m \<and> \<not> mq_wrong s"

definition mpmc_past :: "nat \<Rightarrow> mpmc_sys \<Rightarrow> bool" where
  "mpmc_past m s \<longleftrightarrow>
     (\<forall>k < mpushes s. k \<le> mq_gseq s ! (k mod 2 ^ m)) \<and> (\<forall>k < mq_pops s. k < mq_gseq s ! (k mod 2 ^ m)) \<and>
     (\<forall>k \<in> set (mq_done s). k < mq_gseq s ! (k mod 2 ^ m)) \<and>
     (\<forall>k \<in> fst ` set (mq_got s). k + 2 ^ m \<le> mq_gseq s ! (k mod 2 ^ m))"

text \<open>Of \<open>n\<close> tickets given out, every one is finished or owned, by one owner.\<close>

definition owners :: "(nat \<Rightarrow> nat option) \<Rightarrow> nat set \<Rightarrow> nat \<Rightarrow> bool" where
  "owners own D n \<longleftrightarrow> (\<forall>i j k. own i = Some k \<longrightarrow> own j = Some k \<longrightarrow> i = j) \<and> (\<forall>k < n. k \<in> D \<or> (\<exists>i. own i = Some k))"

definition mpmc_owners :: "mpmc_sys \<Rightarrow> bool" where
  "mpmc_owners s \<longleftrightarrow>
     owners (push_own s) (set (mq_done s)) (mpushes s) \<and>
     owners (pop_own s) (fst ` set (mq_got s)) (mq_pops s)"

definition mpmc_log :: "mpmc_sys \<Rightarrow> bool" where
  "mpmc_log s \<longleftrightarrow> (\<forall>(k, d) \<in> set (mq_got s). k < mq_pops s \<and> d = mq_pushed s ! k) \<and> distinct (map fst (mq_got s))"

definition mpmc_threads :: "nat \<Rightarrow> mpmc_sys \<Rightarrow> bool" where
  "mpmc_threads m s \<longleftrightarrow> (\<forall>i. thr_ok m (mq_pops s) (mq_pushed s) (mq_gseq s) (mq_data s) (mq_thr s i))"

definition mpmc_cells :: "nat \<Rightarrow> mpmc_sys \<Rightarrow> bool" where
  "mpmc_cells m s \<longleftrightarrow> (\<forall>c < 2 ^ m. cell_free m s c \<or> cell_full m s c)"

definition mpmc_inv :: "nat \<Rightarrow> mpmc_sys \<Rightarrow> bool" where
  "mpmc_inv m s \<longleftrightarrow> mpmc_basic m s \<and> mpmc_past m s \<and> mpmc_owners s \<and> mpmc_log s \<and> mpmc_threads m s \<and> mpmc_cells m s"

lemmas mpmc_defs = mpmc_inv_def mpmc_basic_def mpmc_past_def mpmc_owners_def mpmc_log_def mpmc_threads_def mpmc_cells_def

subsection \<open>Cells\<close>

lemma owners_unique: "owners own D n \<Longrightarrow> own i = Some k \<Longrightarrow> own j = Some k \<Longrightarrow> i = j"
  by (simp add: owners_def)

lemma owners_claim:
  assumes "owners own D n" "own i = None" "\<And>l. own l \<noteq> Some n"
  shows "owners (own(i := Some n)) D (Suc n)"
proof -
  have "k \<in> D \<or> (\<exists>l. (own(i := Some n)) l = Some k)" if "k < Suc n" for k
  proof (cases "k = n")
    case False
    then have "k \<in> D \<or> (\<exists>l. own l = Some k)" using that assms(1) by (simp add: owners_def)
    then show ?thesis using assms(2) by (metis fun_upd_apply option.distinct(1))
  qed (metis fun_upd_same)
  then show ?thesis using assms by (auto simp: owners_def)
qed

lemma owners_finish: "owners own D n \<Longrightarrow> own i = Some k \<Longrightarrow> owners (own(i := None)) (insert k D) n"
  unfolding owners_def by (auto split: if_splits) (metis option.inject)

lemma mod_near: "a mod n = b mod n \<Longrightarrow> a < b + n \<Longrightarrow> b < a + n \<Longrightarrow> a = (b::nat)"
proof (rule ccontr)
  assume "a mod n = b mod n" "a < b + n" "b < a + n" "a \<noteq> b"
  then show False using mod_neq_within [of a b n] mod_neq_within [of b a n] by (cases a b rule: linorder_cases) auto
qed

lemma two_le_pow: "1 \<le> m \<Longrightarrow> (2::nat) \<le> 2 ^ m"
  using power_increasing [of 1 m "2::nat"] by simp

lemma mod_Suc_neq: "1 \<le> m \<Longrightarrow> Suc t mod 2 ^ m \<noteq> t mod 2 ^ m"
proof
  assume "1 \<le> m" "Suc t mod 2 ^ m = t mod 2 ^ m"
  moreover from this have "(2::nat) ^ 1 \<le> 2 ^ m" by (intro power_increasing) auto
  ultimately show False using mod_near [of "Suc t" "2 ^ m" t] by auto
qed

lemma mpmc_thread: "mpmc_inv m s \<Longrightarrow> thr_ok m (mq_pops s) (mq_pushed s) (mq_gseq s) (mq_data s) (mq_thr s i)"
  by (simp add: mpmc_inv_def mpmc_threads_def)

lemma push_ticket_cases:
  assumes "push_ticket p = Some k"
  obtains t f j where "p = QPushWrite t k f j" | t f j where "p = QPushStore t k f j"
  using assms by (cases p) auto

lemma pop_ticket_cases:
  assumes "pop_ticket p = Some k"
  obtains h where "p = QPopRead h k" | h d where "p = QPopStore h k d"
  using assms by (cases p) auto

lemma owned_push_cell:
  assumes "mpmc_inv m s" "push_own s i = Some k"
  shows "mq_gseq s ! (k mod 2 ^ m) = k" "k < mpushes s"
  using mpmc_thread [OF assms(1), of i] assms(2) unfolding push_own_def by (auto elim!: push_ticket_cases simp only: thr_ok.simps)

lemma owned_pop_cell:
  assumes "mpmc_inv m s" "pop_own s i = Some k"
  shows "mq_gseq s ! (k mod 2 ^ m) = Suc k" "k < mq_pops s"
  using mpmc_thread [OF assms(1), of i] assms(2) unfolding pop_own_def by (auto elim!: pop_ticket_cases simp only: thr_ok.simps)

text \<open>Two owners of tickets of one cell are the same owner.\<close>

lemma same_cell:
  assumes inv: "mpmc_inv m s" and c: "k mod 2 ^ m = k' mod (2::nat) ^ m"
  shows "push_own s i = Some k \<Longrightarrow> push_own s j = Some k' \<Longrightarrow> i = j"
    and "pop_own s i = Some k \<Longrightarrow> pop_own s j = Some k' \<Longrightarrow> i = j"
    and "push_own s i = Some k \<Longrightarrow> pop_own s j = Some k' \<Longrightarrow> False"
proof -
  have u: "mpmc_owners s" "1 \<le> m" using inv by (simp_all add: mpmc_inv_def mpmc_basic_def)
  show "i = j" if "push_own s i = Some k" "push_own s j = Some k'"
  proof -
    have "k = k'" using owned_push_cell(1) [OF inv that(1)] owned_push_cell(1) [OF inv that(2)] unfolding c by (rule trans [OF sym])
    then show ?thesis using u(1) that unfolding mpmc_owners_def by (blast dest: owners_unique)
  qed
  show "i = j" if "pop_own s i = Some k" "pop_own s j = Some k'"
  proof -
    have "Suc k = Suc k'" using owned_pop_cell(1) [OF inv that(1)] owned_pop_cell(1) [OF inv that(2)] unfolding c by (rule trans [OF sym])
    then have "k = k'" by simp
    then show ?thesis using u(1) that unfolding mpmc_owners_def by (blast dest: owners_unique)
  qed
  show False if "push_own s i = Some k" "pop_own s j = Some k'"
  proof -
    have "k = Suc k'" using owned_push_cell(1) [OF inv that(1)] owned_pop_cell(1) [OF inv that(2)] unfolding c by (rule trans [OF sym])
    then show False using c mod_Suc_neq [OF u(2), of k'] by blast
  qed
qed

text \<open>What a successful compare-exchange finds in its cell.\<close>

lemma mpmc_cell: "mpmc_inv m s \<Longrightarrow> cell_free m s (k mod 2 ^ m) \<or> cell_full m s (k mod 2 ^ m)"
  by (simp add: mpmc_inv_def mpmc_cells_def)

lemma owned_cell_neq:
  assumes "mpmc_inv m s" "push_own s i = Some k \<or> pop_own s i = Some k" "push_own s l = Some k' \<or> pop_own s l = Some k'" "l \<noteq> i"
  shows "k' mod 2 ^ m \<noteq> k mod 2 ^ m"
  using same_cell [OF assms(1), of k' k l i] same_cell(3) [OF assms(1), of k k' i l] assms(2-4) by auto

lemma cell_fullE:
  assumes "cell_full m s c"
  obtains t where "mq_gseq s ! c = Suc t" "t mod 2 ^ m = c" "t < mpushes s" "mpushes s \<le> t + 2 ^ m"
    "mq_data s ! c = Some (mq_pushed s ! t)" "mq_pops s \<le> t \<or> (\<exists>i. pop_own s i = Some t)"
  using assms unfolding cell_full_def by (elim exE conjE) (rule that)

lemma push_claim_cell:
  assumes inv: "mpmc_inv m s" and T: "mpushes s \<le> mq_gseq s ! (mpushes s mod 2 ^ m)"
  shows "mq_gseq s ! (mpushes s mod 2 ^ m) = mpushes s" "mpushes s < mq_pops s + 2 ^ m"
proof -
  let ?c = "mpushes s mod 2 ^ m"
  have b: "1 \<le> m" "mq_pops s \<le> mpushes s" using inv by (simp_all add: mpmc_inv_def mpmc_basic_def)
  have "mq_gseq s ! ?c = mpushes s \<and> mpushes s < mq_pops s + 2 ^ m"
  proof (cases "cell_free m s ?c")
    case True
    then have f: "mq_gseq s ! ?c mod 2 ^ m = ?c" "mq_gseq s ! ?c < mq_pops s + 2 ^ m" by (simp_all add: cell_free_def Let_def)
    have "mq_gseq s ! ?c = mpushes s" by (rule mod_near [where n = "2 ^ m", OF f(1)]) (use T b(2) f in linarith)+
    then show ?thesis using f(2) by linarith
  next
    case False
    then have "cell_full m s ?c" using mpmc_cell [OF inv, of "mpushes s"] by simp
    then obtain t where t: "mq_gseq s ! ?c = Suc t" "t mod 2 ^ m = ?c" "t < mpushes s" by (rule cell_fullE)
    then have "mpushes s = Suc t" using T by linarith
    then show ?thesis using mod_Suc_neq [OF b(1), of t] t(2) by metis
  qed
  then show "mq_gseq s ! ?c = mpushes s" "mpushes s < mq_pops s + 2 ^ m" by simp_all
qed

lemma pop_claim_cell:
  assumes inv: "mpmc_inv m s" and H: "mq_pops s < mq_gseq s ! (mq_pops s mod 2 ^ m)"
  shows "mq_gseq s ! (mq_pops s mod 2 ^ m) = Suc (mq_pops s)" "mq_pops s < mpushes s"
    "mq_data s ! (mq_pops s mod 2 ^ m) = Some (mq_pushed s ! mq_pops s)"
proof -
  let ?c = "mq_pops s mod 2 ^ m"
  have b: "mpushes s \<le> mq_pops s + 2 ^ m" using inv by (simp add: mpmc_inv_def mpmc_basic_def)
  have "\<not> cell_free m s ?c"
  proof
    assume "cell_free m s ?c"
    then have "mq_gseq s ! ?c mod 2 ^ m = ?c" "mq_gseq s ! ?c < mq_pops s + 2 ^ m" by (simp_all add: cell_free_def Let_def)
    then have "mq_gseq s ! ?c = mq_pops s" by (rule mod_near [where n = "2 ^ m"]) (use \<open>mq_gseq s ! ?c mod 2 ^ m = ?c\<close> H \<open>mq_gseq s ! ?c < mq_pops s + 2 ^ m\<close> in linarith)+
    then show False using H by linarith
  qed
  then have "cell_full m s ?c" using mpmc_cell [OF inv, of "mq_pops s"] by simp
  then obtain t where t: "mq_gseq s ! ?c = Suc t" "t mod 2 ^ m = ?c" "t < mpushes s" "mq_data s ! ?c = Some (mq_pushed s ! t)"
    by (rule cell_fullE)
  have "t = mq_pops s" by (rule mod_near [where n = "2 ^ m", OF t(2)]) (use t(1,3) H b in linarith)+
  then show "mq_gseq s ! ?c = Suc (mq_pops s)" "mq_pops s < mpushes s" "mq_data s ! ?c = Some (mq_pushed s ! mq_pops s)"
    using t by blast+
qed

subsection \<open>Transitions\<close>

lemma mpmc_basicD:
  assumes "mpmc_inv m s"
  shows "1 \<le> m" "m < 31" "mq_mask s = mask m" "mq_head s = of_nat (mq_pops s)" "mq_tail s = of_nat (mpushes s)"
    "mq_pops s \<le> mpushes s" "mpushes s \<le> mq_pops s + 2 ^ m" "length (mq_gseq s) = 2 ^ m" "mq_seq s = map of_nat (mq_gseq s)"
    "length (mq_data s) = 2 ^ m" "\<not> mq_wrong s"
  using assms unfolding mpmc_inv_def mpmc_basic_def by blast+

text \<open>
  One lemma for every part of the invariant: what a transition that changes the program counter of thread \<open>i\<close> and
  the shared state must show of the rest.
\<close>

lemma mpmc_threadsI:
  assumes "mpmc_threads m s" "mq_thr s' = (mq_thr s)(i := p)"
    "thr_ok m (mq_pops s') (mq_pushed s') (mq_gseq s') (mq_data s') p"
    "\<And>j. j \<noteq> i \<Longrightarrow> thr_ok m (mq_pops s) (mq_pushed s) (mq_gseq s) (mq_data s) (mq_thr s j) \<Longrightarrow>
       thr_ok m (mq_pops s') (mq_pushed s') (mq_gseq s') (mq_data s') (mq_thr s j)"
  shows "mpmc_threads m s'"
  using assms by (simp add: mpmc_threads_def)

lemma push_own_upd [simp]: "mq_thr s' = (mq_thr s)(i := p) \<Longrightarrow> push_own s' = (push_own s)(i := push_ticket p)"
  by (auto simp: push_own_def)

lemma pop_own_upd [simp]: "mq_thr s' = (mq_thr s)(i := p) \<Longrightarrow> pop_own s' = (pop_own s)(i := pop_ticket p)"
  by (auto simp: pop_own_def)

lemma mpmc_goto:
  assumes "mpmc_inv m s" "thr_ok m (mq_pops s) (mq_pushed s) (mq_gseq s) (mq_data s) p"
    "push_ticket p = push_own s i" "pop_ticket p = pop_own s i"
  shows "mpmc_inv m (qgoto s i p)"
proof -
  have t: "push_own (qgoto s i p) = push_own s" "pop_own (qgoto s i p) = pop_own s"
    using assms(3,4) by (auto simp: qgoto_def push_own_def pop_own_def)
  have "mpmc_threads m (qgoto s i p)"
    by (rule mpmc_threadsI [of m s]) (use assms in \<open>simp_all add: mpmc_inv_def qgoto_def\<close>)
  moreover have "mpmc_cells m (qgoto s i p)" "mpmc_owners (qgoto s i p)"
    using assms(1) unfolding mpmc_inv_def mpmc_cells_def cell_free_def cell_full_def mpmc_owners_def t
    by (simp_all add: qgoto_def)
  moreover have "mpmc_basic m (qgoto s i p)" "mpmc_past m (qgoto s i p)" "mpmc_log (qgoto s i p)"
    using assms(1) unfolding mpmc_inv_def by (simp_all add: mpmc_basic_def mpmc_past_def mpmc_log_def qgoto_def)
  ultimately show ?thesis by (simp add: mpmc_inv_def)
qed

lemma mpmc_ret: "mpmc_inv m (s\<lparr>mq_ret := r\<rparr>) = mpmc_inv m s"
  by (simp add: mpmc_defs cell_free_def cell_full_def push_own_def [abs_def] pop_own_def [abs_def])

lemma mpmc_wrong: "mpmc_inv m s \<Longrightarrow> \<not> b \<Longrightarrow> mpmc_inv m (s\<lparr>mq_wrong := b\<rparr>)"
  by (simp add: mpmc_defs cell_free_def cell_full_def push_own_def [abs_def] pop_own_def [abs_def])

lemma thr_ok_seq:
  assumes "thr_ok m H P g D p" "c < length g" "g ! c \<le> v"
    "\<And>k. push_ticket p = Some k \<or> pop_ticket p = Some k \<Longrightarrow> k mod 2 ^ m \<noteq> c"
  shows "thr_ok m H P (g[c := v]) D p"
  using assms by (cases p) (auto simp: nth_list_update)

lemma thr_ok_push: "thr_ok m H P g D p \<Longrightarrow> H \<le> length P \<Longrightarrow> thr_ok m H (P @ [f]) g D p"
  by (cases p) (auto simp: nth_append)

lemma thr_ok_pop: "thr_ok m H P g D p \<Longrightarrow> thr_ok m (Suc H) P g D p"
  by (cases p) auto

lemma mpmc_invI:
  "mpmc_basic m s \<Longrightarrow> mpmc_past m s \<Longrightarrow> mpmc_owners s \<Longrightarrow> mpmc_log s \<Longrightarrow> mpmc_threads m s \<Longrightarrow> mpmc_cells m s \<Longrightarrow> mpmc_inv m s"
  by (simp add: mpmc_inv_def)

lemma mpmc_parts:
  assumes "mpmc_inv m s"
  shows "mpmc_basic m s" "mpmc_past m s" "mpmc_owners s" "mpmc_log s" "mpmc_threads m s" "mpmc_cells m s"
  using assms by (simp_all add: mpmc_inv_def)

subsubsection \<open>The compare-exchange of a push\<close>

lemma claim_still: "own i = None \<Longrightarrow> T \<le> g \<or> (\<exists>l. own l = Some g) \<Longrightarrow> Suc T \<le> g \<or> (\<exists>l. (own(i := Some T)) l = Some g)"
  by (metis fun_upd_apply le_eq_less_or_eq option.distinct(1) Suc_leI)

lemma push_claim_free:
  assumes "cell_free m s d" "push_own s i = None" "mq_gseq s' = mq_gseq s" "mq_pops s' = mq_pops s"
    "length (mq_pushed s') = Suc (mpushes s)" "push_own s' = (push_own s)(i := Some (mpushes s))"
  shows "cell_free m s' d"
  using assms(1,3-5) claim_still [of "push_own s", OF assms(2)] unfolding cell_free_def assms(6) by (simp add: Let_def)

lemma push_claim_full:
  assumes "cell_full m s d" "1 \<le> m" "mq_gseq s ! (mpushes s mod 2 ^ m) = mpushes s" "mq_gseq s' = mq_gseq s" "mq_pops s' = mq_pops s"
    "mq_data s' = mq_data s" "mq_pushed s' = mq_pushed s @ [f]" "pop_own s' = pop_own s"
  shows "cell_full m s' d"
proof -
  obtain t where t: "mq_gseq s ! d = Suc t" "t mod 2 ^ m = d" "t < mpushes s" "mpushes s \<le> t + 2 ^ m"
      "mq_data s ! d = Some (mq_pushed s ! t)" "mq_pops s \<le> t \<or> (\<exists>i. pop_own s i = Some t)"
    using assms(1) by (rule cell_fullE)
  have "mpushes s \<noteq> t + 2 ^ m"
  proof
    assume e: "mpushes s = t + 2 ^ m"
    then have "mpushes s mod 2 ^ m = d" using t(2) by simp
    then have "Suc t = mpushes s" using assms(3) t(1) by simp
    then show False using e assms(2) by (cases m) auto
  qed
  then show ?thesis unfolding cell_full_def using t by (intro exI [of _ t]) (simp add: assms nth_append)
qed

lemma mpmc_push_claim:
  assumes inv: "mpmc_inv m s" and pc: "mq_thr s i = QPushCas t (mpushes s) f j"
  defines "s' \<equiv> (qgoto s i (QPushWrite t (mpushes s) f j))\<lparr>mq_tail := t + 1, mq_pushed := mq_pushed s @ [f]\<rparr>"
  shows "mpmc_inv m s'"
proof -
  let ?T = "mpushes s"
  note b = mpmc_basicD [OF inv] and parts = mpmc_parts [OF inv]
  have ok: "t = of_nat ?T" "?T \<le> mq_gseq s ! (?T mod 2 ^ m)" "job_ok j" using mpmc_thread [OF inv, of i] pc by simp_all
  note c = push_claim_cell [OF inv ok(2)]
  have thr: "mq_thr s' = (mq_thr s)(i := QPushWrite t ?T f j)" by (simp add: s'_def qgoto_def)
  have i: "push_own s i = None" "pop_own s i = None" using pc by (simp_all add: push_own_def pop_own_def)
  have own: "push_own s' = (push_own s)(i := Some ?T)" "pop_own s' = pop_own s"
    using push_own_upd [OF thr] pop_own_upd [OF thr] i by (auto simp: fun_upd_idem)
  have old: "push_own s l \<noteq> Some ?T" for l using owned_push_cell(2) [OF inv, of l ?T] by auto
  have s': "mq_seq s' = mq_seq s" "mq_data s' = mq_data s" "mq_gseq s' = mq_gseq s" "mq_pops s' = mq_pops s"
      "mq_pushed s' = mq_pushed s @ [f]" "mq_done s' = mq_done s" "mq_got s' = mq_got s" "mq_head s' = mq_head s"
      "mq_tail s' = t + 1" "mq_mask s' = mq_mask s" "mq_wrong s' = mq_wrong s"
    by (simp_all add: s'_def qgoto_def)
  show ?thesis
  proof (rule mpmc_invI)
    show "mpmc_basic m s'" using parts(1) c(2) ok(1) by (simp add: mpmc_basic_def s')
    show "mpmc_past m s'" using parts(2) ok(2) by (auto simp: mpmc_past_def s' less_Suc_eq)
    show "mpmc_log s'" using parts(4) b(6) by (auto simp: mpmc_log_def s' nth_append)
    show "mpmc_threads m s'"
      by (rule mpmc_threadsI [OF parts(5) thr]) (use ok c(1) thr_ok_push b(6) in \<open>simp_all add: s'\<close>)
    show "mpmc_owners s'" using owners_claim [where own = "push_own s", OF _ i(1) old] parts(3) by (simp add: mpmc_owners_def own s')
    show "mpmc_cells m s'"
      using parts(6) push_claim_free [OF _ i(1) s'(3,4) _ own(1)] push_claim_full [OF _ b(1) c(1) s'(3,4,2,5) own(2)]
      by (auto simp: mpmc_cells_def s')
  qed
qed

subsubsection \<open>The compare-exchange of a pop\<close>

lemma pop_claim_free:
  assumes "cell_free m s d" "mq_gseq s ! (mq_pops s mod 2 ^ m) = Suc (mq_pops s)" "mq_gseq s' = mq_gseq s" "mq_pops s' = Suc (mq_pops s)"
    "mq_pushed s' = mq_pushed s" "push_own s' = push_own s"
  shows "cell_free m s' d"
proof -
  have g: "mq_gseq s ! d mod 2 ^ m = d" "mq_pops s \<le> mq_gseq s ! d" using assms(1) by (simp_all add: cell_free_def Let_def)
  have "mq_gseq s ! d \<noteq> mq_pops s"
  proof
    assume e: "mq_gseq s ! d = mq_pops s"
    then have "mq_pops s mod 2 ^ m = d" using g(1) by simp
    then show False using assms(2) e by simp
  qed
  then have "Suc (mq_pops s) \<le> mq_gseq s ! d" using g(2) by simp
  then show ?thesis using assms(1) unfolding cell_free_def assms(3-6) by (simp add: Let_def)
qed

lemma pop_claim_full:
  assumes "cell_full m s d" "pop_own s i = None" "mq_gseq s' = mq_gseq s" "mq_pops s' = Suc (mq_pops s)"
    "mq_data s' = mq_data s" "mq_pushed s' = mq_pushed s" "pop_own s' = (pop_own s)(i := Some (mq_pops s))"
  shows "cell_full m s' d"
  using assms(1) claim_still [of "pop_own s", OF assms(2)] unfolding cell_full_def assms(3-7) by blast

lemma mpmc_pop_claim:
  assumes inv: "mpmc_inv m s" and pc: "mq_thr s i = QPopCas h (mq_pops s)"
  defines "s' \<equiv> (qgoto s i (QPopRead h (mq_pops s)))\<lparr>mq_head := h + 1, mq_pops := mq_pops s + 1\<rparr>"
  shows "mpmc_inv m s'"
proof -
  let ?H = "mq_pops s"
  note b = mpmc_basicD [OF inv] and parts = mpmc_parts [OF inv]
  have ok: "h = of_nat ?H" "?H < mq_gseq s ! (?H mod 2 ^ m)" using mpmc_thread [OF inv, of i] pc by simp_all
  note c = pop_claim_cell [OF inv ok(2)]
  have thr: "mq_thr s' = (mq_thr s)(i := QPopRead h ?H)" by (simp add: s'_def qgoto_def)
  have i: "push_own s i = None" "pop_own s i = None" using pc by (simp_all add: push_own_def pop_own_def)
  have own: "push_own s' = push_own s" "pop_own s' = (pop_own s)(i := Some ?H)"
    using push_own_upd [OF thr] pop_own_upd [OF thr] i by (auto simp: fun_upd_idem)
  have old: "pop_own s l \<noteq> Some ?H" for l using owned_pop_cell(2) [OF inv, of l ?H] by auto
  have s': "mq_seq s' = mq_seq s" "mq_data s' = mq_data s" "mq_gseq s' = mq_gseq s" "mq_pops s' = Suc ?H"
      "mq_pushed s' = mq_pushed s" "mq_done s' = mq_done s" "mq_got s' = mq_got s" "mq_head s' = h + 1"
      "mq_tail s' = mq_tail s" "mq_mask s' = mq_mask s" "mq_wrong s' = mq_wrong s"
    by (simp_all add: s'_def qgoto_def)
  show ?thesis
  proof (rule mpmc_invI)
    show "mpmc_basic m s'" using parts(1) c(2) ok(1) by (simp add: mpmc_basic_def s')
    show "mpmc_past m s'" using parts(2) ok(2) by (auto simp: mpmc_past_def s' less_Suc_eq)
    show "mpmc_log s'" using parts(4) by (auto simp: mpmc_log_def s' less_Suc_eq)
    show "mpmc_threads m s'"
      by (rule mpmc_threadsI [OF parts(5) thr]) (use ok(1) c(1) thr_ok_pop in \<open>simp_all add: s'\<close>)
    show "mpmc_owners s'" using owners_claim [where own = "pop_own s", OF _ i(2) old] parts(3) by (simp add: mpmc_owners_def own s')
    show "mpmc_cells m s'"
      using parts(6) pop_claim_free [OF _ c(1) s'(3,4,5) own(1)] pop_claim_full [OF _ i(2) s'(3,4,2,5) own(2)]
      by (auto simp: mpmc_cells_def)
  qed
qed

subsubsection \<open>The owners of tickets at work\<close>

lemma owned_push_free:
  assumes inv: "mpmc_inv m s" and own: "push_own s i = Some k"
  shows "cell_free m s (k mod 2 ^ m)" "\<not> cell_full m s (k mod 2 ^ m)" "mq_pops s \<le> k"
proof -
  note g = owned_push_cell(1) [OF inv own]
  show full: "\<not> cell_full m s (k mod 2 ^ m)"
  proof
    assume "cell_full m s (k mod 2 ^ m)"
    then obtain t where t: "mq_gseq s ! (k mod 2 ^ m) = Suc t" "t mod 2 ^ m = k mod 2 ^ m" by (rule cell_fullE)
    have "k = Suc t" using trans [OF sym [OF g] t(1)] .
    then show False using mod_Suc_neq [OF mpmc_basicD(1) [OF inv], of t] t(2) by simp
  qed
  then show free: "cell_free m s (k mod 2 ^ m)" using mpmc_cell [OF inv, of k] by simp
  then show "mq_pops s \<le> k" unfolding cell_free_def g Let_def by simp
qed

lemma owned_pop_full:
  assumes inv: "mpmc_inv m s" and own: "pop_own s i = Some k"
  shows "\<not> cell_free m s (k mod 2 ^ m)" "mpushes s \<le> k + 2 ^ m" "mq_data s ! (k mod 2 ^ m) = Some (mq_pushed s ! k)"
proof -
  note g = owned_pop_cell(1) [OF inv own]
  show free: "\<not> cell_free m s (k mod 2 ^ m)"
    using mod_Suc_neq [OF mpmc_basicD(1) [OF inv], of k] unfolding cell_free_def g Let_def by simp
  then have "cell_full m s (k mod 2 ^ m)" using mpmc_cell [OF inv, of k] by simp
  then obtain t where t: "mq_gseq s ! (k mod 2 ^ m) = Suc t" "mpushes s \<le> t + 2 ^ m" "mq_data s ! (k mod 2 ^ m) = Some (mq_pushed s ! t)"
    by (rule cell_fullE)
  have "k = t" using trans [OF sym [OF g] t(1)] by simp
  then show "mpushes s \<le> k + 2 ^ m" "mq_data s ! (k mod 2 ^ m) = Some (mq_pushed s ! k)" using t(2,3) by simp_all
qed

lemma mpmc_push_write:
  assumes inv: "mpmc_inv m s" and pc: "mq_thr s i = QPushWrite t k f j"
  defines "s' \<equiv> (qgoto s i (QPushStore t k f j))\<lparr>mq_data := (mq_data s)[k mod 2 ^ m := Some f]\<rparr>"
  shows "mpmc_inv m s'"
proof -
  note b = mpmc_basicD [OF inv] and parts = mpmc_parts [OF inv]
  have own_i: "push_own s i = Some k" "pop_own s i = None" using pc by (simp_all add: push_own_def pop_own_def)
  have thr: "mq_thr s' = (mq_thr s)(i := QPushStore t k f j)" by (simp add: s'_def qgoto_def)
  have own: "push_own s' = push_own s" "pop_own s' = pop_own s"
    using push_own_upd [OF thr] pop_own_upd [OF thr] own_i by (auto simp: fun_upd_idem)
  have s': "mq_seq s' = mq_seq s" "mq_data s' = (mq_data s)[k mod 2 ^ m := Some f]" "mq_gseq s' = mq_gseq s" "mq_pops s' = mq_pops s"
      "mq_pushed s' = mq_pushed s" "mq_done s' = mq_done s" "mq_got s' = mq_got s" "mq_head s' = mq_head s"
      "mq_tail s' = mq_tail s" "mq_mask s' = mq_mask s" "mq_wrong s' = mq_wrong s"
    by (simp_all add: s'_def qgoto_def)
  have other: "thr_ok m (mq_pops s') (mq_pushed s') (mq_gseq s') (mq_data s') (mq_thr s l)" if "l \<noteq> i" for l
  proof -
    have "k' mod 2 ^ m \<noteq> k mod 2 ^ m" if "mq_thr s l = QPushStore t' k' f' j'" for t' k' f' j'
      using same_cell(1) [OF inv _ _ own_i(1), of k' l] that \<open>l \<noteq> i\<close> by (auto simp: push_own_def)
    then show ?thesis using mpmc_thread [OF inv, of l] by (cases "mq_thr s l") (simp_all add: s')
  qed
  show ?thesis
  proof (rule mpmc_invI)
    show "mpmc_threads m s'"
      by (rule mpmc_threadsI [OF parts(5) thr]) (use mpmc_thread [OF inv, of i] pc b(10) other in \<open>simp_all add: s'\<close>)
    have "cell_full m s' d" if "cell_full m s d" for d
    proof -
      have "d \<noteq> k mod 2 ^ m" using owned_push_free(2) [OF inv own_i(1)] that by auto
      then show ?thesis using that unfolding cell_full_def own s' by simp
    qed
    moreover have "cell_free m s' d" if "cell_free m s d" for d using that by (simp add: cell_free_def s' own)
    ultimately show "mpmc_cells m s'" using parts(6) by (auto simp: mpmc_cells_def)
  qed (use parts in \<open>simp_all add: mpmc_basic_def mpmc_past_def mpmc_log_def mpmc_owners_def s' own\<close>)
qed

text \<open>A store to the sequence number of the cell of ticket \<open>k\<close>.\<close>

lemma past_store:
  assumes "mpmc_past m s" "length (mq_gseq s) = 2 ^ m" "mq_gseq s' = (mq_gseq s)[c := v]" "mq_gseq s ! c \<le> v"
    "mq_pushed s' = mq_pushed s" "mq_pops s' = mq_pops s"
    "\<And>k. k \<in> set (mq_done s') \<Longrightarrow> k \<in> set (mq_done s) \<or> k mod 2 ^ m = c \<and> k < v"
    "\<And>k. k \<in> fst ` set (mq_got s') \<Longrightarrow> k \<in> fst ` set (mq_got s) \<or> k mod 2 ^ m = c \<and> k + 2 ^ m \<le> v"
  shows "mpmc_past m s'"
proof -
  have le: "mq_gseq s ! (k mod 2 ^ m) \<le> mq_gseq s' ! (k mod 2 ^ m)" for k
    using assms(2-4) by (cases "k mod 2 ^ m = c") auto
  have eq: "mq_gseq s' ! (k mod 2 ^ m) = v" if "k mod 2 ^ m = c" for k using assms(2,3) that by auto
  have "k \<le> mq_gseq s' ! (k mod 2 ^ m)" if "k < mpushes s'" for k
    using assms(1,5) that le [of k] by (fastforce simp: mpmc_past_def)
  moreover have "k < mq_gseq s' ! (k mod 2 ^ m)" if "k < mq_pops s'" for k
    using assms(1,6) that le [of k] by (fastforce simp: mpmc_past_def)
  moreover have "k < mq_gseq s' ! (k mod 2 ^ m)" if "k \<in> set (mq_done s')" for k
    using assms(1) assms(7) [OF that] le [of k] eq [of k] by (fastforce simp: mpmc_past_def)
  moreover have "k + 2 ^ m \<le> mq_gseq s' ! (k mod 2 ^ m)" if "k \<in> fst ` set (mq_got s')" for k
    using assms(1) assms(8) [OF that] le [of k] eq [of k] by (fastforce simp: mpmc_past_def)
  ultimately show ?thesis unfolding mpmc_past_def by blast
qed

lemma finish_still: "own i = Some k \<Longrightarrow> own l = Some g \<Longrightarrow> g \<noteq> k \<Longrightarrow> (own(i := None)) l = Some g"
  by (metis fun_upd_apply option.inject)

lemma push_store_cell:
  assumes inv: "mpmc_inv m s" and own: "push_own s i = Some k" and data: "mq_data s ! (k mod 2 ^ m) = Some (mq_pushed s ! k)"
    and s': "mq_gseq s' = (mq_gseq s)[k mod 2 ^ m := Suc k]" "mq_pops s' = mq_pops s" "mq_data s' = mq_data s" "mq_pushed s' = mq_pushed s"
    and own': "push_own s' = (push_own s)(i := None)" "pop_own s' = pop_own s"
    and d: "cell_free m s d \<or> cell_full m s d"
  shows "cell_free m s' d \<or> cell_full m s' d"
proof (cases "d = k mod 2 ^ m")
  case True
  note b = mpmc_basicD [OF inv]
  have "mpushes s \<le> k + 2 ^ m" "mq_pops s \<le> k" using owned_push_free(3) [OF inv own] b(7) by simp_all
  then have "cell_full m s' d"
    unfolding cell_full_def s' True using data owned_push_cell(2) [OF inv own] b(8) by (intro exI [of _ k]) simp
  then show ?thesis ..
next
  case False
  then have g: "mq_gseq s' ! d = mq_gseq s ! d" by (simp add: s')
  have "mq_gseq s ! d \<noteq> k" if "cell_free m s d" using that False by (auto simp: cell_free_def Let_def)
  then have "cell_free m s d \<Longrightarrow> cell_free m s' d"
    using finish_still [of "push_own s" i k _ "mq_gseq s ! d", OF own] unfolding cell_free_def g Let_def s'(2-4) own' by blast
  moreover have "cell_full m s d \<Longrightarrow> cell_full m s' d" by (simp add: cell_full_def g s'(2-4) own')
  ultimately show ?thesis using d by blast
qed

lemma pop_store_cell:
  assumes inv: "mpmc_inv m s" and own: "pop_own s i = Some k"
    and s': "mq_gseq s' = (mq_gseq s)[k mod 2 ^ m := k + 2 ^ m]" "mq_pops s' = mq_pops s" "mq_data s' = mq_data s" "mq_pushed s' = mq_pushed s"
    and own': "pop_own s' = (pop_own s)(i := None)" "push_own s' = push_own s"
    and d: "cell_free m s d \<or> cell_full m s d"
  shows "cell_free m s' d \<or> cell_full m s' d"
proof (cases "d = k mod 2 ^ m")
  case True
  note b = mpmc_basicD [OF inv]
  have "mpushes s \<le> k + 2 ^ m" "k < mq_pops s" using owned_pop_full(2) [OF inv own] owned_pop_cell(2) [OF inv own] by simp_all
  then have "cell_free m s' d" using b(6,8) by (simp add: cell_free_def s' True Let_def)
  then show ?thesis ..
next
  case False
  then have g: "mq_gseq s' ! d = mq_gseq s ! d" by (simp add: s')
  have "cell_full m s' d" if full: "cell_full m s d"
  proof -
    obtain t where t: "mq_gseq s ! d = Suc t" "t mod 2 ^ m = d" "t < mpushes s" "mpushes s \<le> t + 2 ^ m"
        "mq_data s ! d = Some (mq_pushed s ! t)" "mq_pops s \<le> t \<or> (\<exists>i. pop_own s i = Some t)"
      using full by (rule cell_fullE)
    have "t \<noteq> k" using t(2) False by auto
    then have "mq_pops s \<le> t \<or> (\<exists>l. pop_own s' l = Some t)" using t(6) finish_still [of "pop_own s" i k _ t, OF own] unfolding own' by blast
    then show ?thesis unfolding cell_full_def g s'(2-4) using t(1-5) by (intro exI [of _ t]) simp
  qed
  moreover have "cell_free m s d \<Longrightarrow> cell_free m s' d" by (simp add: cell_free_def g s'(2-4) own')
  ultimately show ?thesis using d by blast
qed

lemma push_return:
  "job_ok j \<Longrightarrow> thr_ok m H P g D (mpmc_push_return b f j) \<and> push_ticket (mpmc_push_return b f j) = None \<and>
     pop_ticket (mpmc_push_return b f j) = None"
proof (cases j)
  case (JStq fs n num)
  assume "job_ok j"
  then have num: "unat num = unat n + 1 + length fs" using JStq by simp
  moreover have "unat num < 2 ^ 32" using unsigned_less [of num] by simp
  ultimately have n: "unat (n + 1) = unat n + 1" by (simp add: unat_word_ariths)
  have "n \<noteq> num" using num by auto
  moreover have "n + 1 = num" if "fs = []" using num n that by (simp add: word_unat_eq_iff)
  ultimately show ?thesis using num n unfolding JStq by (cases fs) auto
qed simp

lemmas push_return_ok = push_return [THEN conjunct1] push_return [THEN conjunct2, THEN conjunct1] push_return [THEN conjunct2, THEN conjunct2]

lemma mpmc_push_store:
  assumes inv: "mpmc_inv m s" and pc: "mq_thr s i = QPushStore t k f j"
  defines "s' \<equiv> (qgoto s i (mpmc_push_return True f j))\<lparr>mq_seq := (mq_seq s)[k mod 2 ^ m := t + 1],
     mq_gseq := (mq_gseq s)[k mod 2 ^ m := k + 1], mq_done := mq_done s @ [k]\<rparr>"
  shows "mpmc_inv m s'"
proof -
  let ?c = "k mod 2 ^ m" and ?p = "mpmc_push_return True f j"
  note b = mpmc_basicD [OF inv] and parts = mpmc_parts [OF inv]
  have ok: "t = of_nat k" "k < mpushes s" "mq_gseq s ! ?c = k" "f = mq_pushed s ! k" "mq_data s ! ?c = Some f" "job_ok j"
    using mpmc_thread [OF inv, of i] pc by simp_all
  have own_i: "push_own s i = Some k" "pop_own s i = None" using pc by (simp_all add: push_own_def pop_own_def)
  have thr: "mq_thr s' = (mq_thr s)(i := ?p)" by (simp add: s'_def qgoto_def)
  note p = push_return_ok [OF ok(6)]
  have own: "push_own s' = (push_own s)(i := None)" "pop_own s' = pop_own s"
    using push_own_upd [OF thr] pop_own_upd [OF thr] own_i p by (auto simp: fun_upd_idem)
  have s': "mq_seq s' = (mq_seq s)[?c := t + 1]" "mq_data s' = mq_data s" "mq_gseq s' = (mq_gseq s)[?c := Suc k]" "mq_pops s' = mq_pops s"
      "mq_pushed s' = mq_pushed s" "mq_done s' = mq_done s @ [k]" "mq_got s' = mq_got s" "mq_head s' = mq_head s"
      "mq_tail s' = mq_tail s" "mq_mask s' = mq_mask s" "mq_wrong s' = mq_wrong s"
    by (simp_all add: s'_def qgoto_def)
  have len: "?c < length (mq_gseq s)" using b(8) by simp
  show ?thesis
  proof (rule mpmc_invI)
    show "mpmc_basic m s'" using parts(1) ok(1) by (simp add: mpmc_basic_def s' map_update add.commute)
    show "mpmc_past m s'" by (rule past_store [OF parts(2) b(8) s'(3)]) (use ok(3) in \<open>auto simp: s'\<close>)
    show "mpmc_log s'" using parts(4) by (simp add: mpmc_log_def s')
    show "mpmc_owners s'" using owners_finish [where own = "push_own s", OF _ own_i(1)] parts(3) by (simp add: mpmc_owners_def own s')
    have "thr_ok m (mq_pops s) (mq_pushed s) ((mq_gseq s)[?c := Suc k]) (mq_data s) (mq_thr s l)" if "l \<noteq> i" for l
      by (rule thr_ok_seq [OF mpmc_thread [OF inv] len])
        (use ok(3) that owned_cell_neq [OF inv, of i k l] own_i(1) in \<open>auto simp: push_own_def pop_own_def\<close>)
    then show "mpmc_threads m s'"
      by (intro mpmc_threadsI [OF parts(5) thr]) (use p in \<open>simp_all add: s'\<close>)
    show "mpmc_cells m s'"
      using parts(6) push_store_cell [OF inv own_i(1) ok(5) [unfolded ok(4)] s'(3,4,2,5) own] by (auto simp: mpmc_cells_def)
  qed
qed

lemma mpmc_pop_store:
  assumes inv: "mpmc_inv m s" and pc: "mq_thr s i = QPopStore h k x"
  defines "s' \<equiv> (qgoto s i QIdle)\<lparr>mq_seq := (mq_seq s)[k mod 2 ^ m := h + mq_mask s + 1],
     mq_gseq := (mq_gseq s)[k mod 2 ^ m := k + length (mq_seq s)], mq_got := mq_got s @ [(k, x)]\<rparr>"
  shows "mpmc_inv m s'"
proof -
  let ?c = "k mod 2 ^ m"
  note b = mpmc_basicD [OF inv] and parts = mpmc_parts [OF inv]
  have ok: "h = of_nat k" "k < mq_pops s" "mq_gseq s ! ?c = Suc k" "x = mq_pushed s ! k" using mpmc_thread [OF inv, of i] pc by simp_all
  have own_i: "push_own s i = None" "pop_own s i = Some k" using pc by (simp_all add: push_own_def pop_own_def)
  have thr: "mq_thr s' = (mq_thr s)(i := QIdle)" by (simp add: s'_def qgoto_def)
  have own: "pop_own s' = (pop_own s)(i := None)" "push_own s' = push_own s"
    using push_own_upd [OF thr] pop_own_upd [OF thr] own_i by (auto simp: fun_upd_idem)
  have s': "mq_seq s' = (mq_seq s)[?c := h + mq_mask s + 1]" "mq_data s' = mq_data s" "mq_gseq s' = (mq_gseq s)[?c := k + 2 ^ m]"
      "mq_pops s' = mq_pops s" "mq_pushed s' = mq_pushed s" "mq_done s' = mq_done s" "mq_got s' = mq_got s @ [(k, x)]"
      "mq_head s' = mq_head s" "mq_tail s' = mq_tail s" "mq_mask s' = mq_mask s" "mq_wrong s' = mq_wrong s"
    using b(8,9) by (simp_all add: s'_def qgoto_def)
  have len: "?c < length (mq_gseq s)" using b(8) by simp
  have two: "Suc k \<le> k + 2 ^ m" "\<not> k + 2 ^ m \<le> Suc k" using two_le_pow [OF b(1)] by linarith+
  have seq: "h + mq_mask s + 1 = of_nat (k + 2 ^ m)" using ok(1) b(3) by (simp add: mask_eq_exp_minus_1)
  show ?thesis
  proof (rule mpmc_invI)
    show "mpmc_basic m s'" using parts(1) unfolding mpmc_basic_def s' seq by (simp add: map_update)
    show "mpmc_past m s'" by (rule past_store [OF parts(2) b(8) s'(3)]) (use ok(3) two(1) in \<open>auto simp: s'\<close>)
    have "k + 2 ^ m \<le> mq_gseq s ! ?c" if "k \<in> fst ` set (mq_got s)" using parts(2) that unfolding mpmc_past_def by blast
    then have "k \<notin> fst ` set (mq_got s)" using ok(3) two(2) by auto
    then show "mpmc_log s'" using parts(4) ok(2,4) by (simp add: mpmc_log_def s')
    show "mpmc_owners s'" using owners_finish [where own = "pop_own s", OF _ own_i(2)] parts(3) by (simp add: mpmc_owners_def own s')
    have "thr_ok m (mq_pops s) (mq_pushed s) ((mq_gseq s)[?c := k + 2 ^ m]) (mq_data s) (mq_thr s l)" if "l \<noteq> i" for l
      by (rule thr_ok_seq [OF mpmc_thread [OF inv] len])
        (use ok(3) two(1) that owned_cell_neq [OF inv, of i k l] own_i(2) in \<open>auto simp: push_own_def pop_own_def\<close>)
    then show "mpmc_threads m s'" by (intro mpmc_threadsI [OF parts(5) thr]) (simp_all add: s')
    show "mpmc_cells m s'"
      using parts(6) pop_store_cell [OF inv own_i(2) s'(3,4,2,5) own] by (auto simp: mpmc_cells_def)
  qed
qed

subsubsection \<open>Loads\<close>

lemma sint_diff:
  assumes "a < b + 2 ^ 31" "b \<le> a + 2 ^ 31"
  shows "sint (of_nat a - of_nat b :: u32) = int a - int b"
proof -
  have "(of_nat a - of_nat b :: u32) = of_int (int a - int b)" by simp
  then have "sint (of_nat a - of_nat b :: u32) = signed_take_bit 31 (int a - int b)"
    by (simp only: signed_of_int len_bit0 len_num1) simp
  also have "\<dots> = int a - int b" using assms by (intro signed_take_bit_int_eq_self) simp_all
  finally show ?thesis .
qed

lemma cell_range:
  assumes inv: "mpmc_inv m s"
  shows "mq_gseq s ! (k mod 2 ^ m) \<le> mpushes s + 2 ^ m" "mpushes s \<le> mq_gseq s ! (k mod 2 ^ m) + 2 ^ m"
proof -
  note b = mpmc_basicD [OF inv]
  have "mq_gseq s ! (k mod 2 ^ m) \<le> mpushes s + 2 ^ m \<and> mpushes s \<le> mq_gseq s ! (k mod 2 ^ m) + 2 ^ m"
    using mpmc_cell [OF inv, of k]
  proof
    assume "cell_free m s (k mod 2 ^ m)"
    then show ?thesis using b(6,7) by (simp add: cell_free_def Let_def)
  next
    assume "cell_full m s (k mod 2 ^ m)"
    then show ?thesis by (rule cell_fullE) simp
  qed
  then show "mq_gseq s ! (k mod 2 ^ m) \<le> mpushes s + 2 ^ m" "mpushes s \<le> mq_gseq s ! (k mod 2 ^ m) + 2 ^ m" by simp_all
qed

lemma cell_index: "mpmc_inv m s \<Longrightarrow> unat (of_nat k AND mq_mask s) = k mod 2 ^ m"
  using index_of_nat [of m k] mpmc_basicD(2,3) [of m s] by simp

text \<open>The difference that a thread computes is the difference to the ticket without reduction.\<close>

lemma mpmc_diff:
  assumes inv: "mpmc_inv m s" and nw: "mpushes s + 2 ^ m < k + 2 ^ 31" and k: "k \<le> Suc (mpushes s)"
  shows "sint (mq_seq s ! (l mod 2 ^ m) - of_nat k) = int (mq_gseq s ! (l mod 2 ^ m)) - int k"
proof -
  note b = mpmc_basicD [OF inv] and g = cell_range [OF inv, of l]
  have "(2::nat) ^ m \<le> 2 ^ 30" using b(2) by (intro power_increasing) auto
  then have "k \<le> mq_gseq s ! (l mod 2 ^ m) + 2 ^ 31" using g(2) k by simp
  moreover have "mq_gseq s ! (l mod 2 ^ m) < k + 2 ^ 31" using g(1) nw by linarith
  moreover have "mq_seq s ! (l mod 2 ^ m) = of_nat (mq_gseq s ! (l mod 2 ^ m))" using b(8) by (simp add: b(9))
  ultimately show ?thesis using sint_diff by simp
qed

lemma no_wrap_ticket:
  "mpmc_no_wrap s \<Longrightarrow> mpmc_inv m s \<Longrightarrow> loaded_ticket (mq_thr s i) = Some k \<Longrightarrow> mpushes s + 2 ^ m < k + 2 ^ 31"
  unfolding mpmc_no_wrap_def using mpmc_basicD(8,9) [of m s] by (metis length_map option.simps(5))

lemma pop_gives_up:
  assumes inv: "mpmc_inv m s" and k: "k \<le> mq_pops s" "mq_gseq s ! (k mod 2 ^ m) \<le> k"
  shows "mq_pops s \<notin> set (mq_done s)"
proof
  assume d: "mq_pops s \<in> set (mq_done s)"
  have past: "mpmc_past m s" using mpmc_parts(2) [OF inv] .
  have "k = mq_pops s" using past k unfolding mpmc_past_def by (metis le_neq_implies_less not_less)
  then show False using past k(2) d unfolding mpmc_past_def by (metis not_less)
qed

lemma push_gives_up:
  assumes inv: "mpmc_inv m s" and k: "k \<le> mpushes s" "mq_gseq s ! (k mod 2 ^ m) < k"
  shows "2 ^ m \<le> mpushes s \<and> mpushes s - 2 ^ m \<notin> fst ` set (mq_got s)"
proof -
  have past: "mpmc_past m s" using mpmc_parts(2) [OF inv] .
  have T: "k = mpushes s" using past k unfolding mpmc_past_def by (metis le_neq_implies_less not_less)
  have le: "2 ^ m \<le> mpushes s"
  proof (rule ccontr)
    assume "\<not> 2 ^ m \<le> mpushes s"
    then have c: "k mod 2 ^ m = k" using T by simp
    show False using mpmc_cell [OF inv, of k]
    proof
      assume "cell_free m s (k mod 2 ^ m)"
      then have "mq_gseq s ! k mod 2 ^ m = k" unfolding c by (simp add: cell_free_def Let_def)
      then show False using k(2) c by (metis leD mod_less_eq_dividend)
    next
      assume "cell_full m s (k mod 2 ^ m)"
      then obtain t where "mq_gseq s ! k = Suc t" "t mod 2 ^ m = k" unfolding c by (rule cell_fullE)
      then show False using k(2) c by (metis Suc_lessD leD mod_less_eq_dividend)
    qed
  qed
  moreover have "mpushes s - 2 ^ m \<notin> fst ` set (mq_got s)"
  proof
    assume "mpushes s - 2 ^ m \<in> fst ` set (mq_got s)"
    then have "mpushes s - 2 ^ m + 2 ^ m \<le> mq_gseq s ! ((mpushes s - 2 ^ m) mod 2 ^ m)" using past unfolding mpmc_past_def by blast
    moreover have "(mpushes s - 2 ^ m) mod 2 ^ m = k mod 2 ^ m" using le T by (simp add: le_mod_geq)
    ultimately show False using k(2) le T by simp
  qed
  ultimately show ?thesis ..
qed

lemma ticket_eq: "k \<le> n \<Longrightarrow> n < k + 2 ^ 32 \<Longrightarrow> (of_nat n :: u32) = of_nat k \<Longrightarrow> k = n"
  using of_nat_u32_eq by metis

subsection \<open>Every step keeps the invariant\<close>

lemma mpmc_pop_step_inv:
  assumes inv: "mpmc_inv m s" and nw: "mpmc_no_wrap s" and step: "mpmc_pop_step b i s = Some s'"
  shows "mpmc_inv m s'"
proof -
  note f = mpmc_basicD [OF inv] and ok = mpmc_thread [OF inv, of i] and c = cell_index [OF inv]
  show ?thesis
  proof (cases "mq_thr s i")
    case QPopLoad
    then show ?thesis using step f(4) by (auto simp: mpmc_pop_step_def push_own_def pop_own_def intro!: mpmc_goto [OF inv])
  next
    case (QPopSeq h k)
    have k: "h = of_nat k" "k \<le> mq_pops s" using ok QPopSeq by simp_all
    let ?g = "mq_gseq s ! (k mod 2 ^ m)"
    have "h + 1 = of_nat (Suc k)" using k(1) by simp
    moreover have "mpushes s + 2 ^ m < Suc k + 2 ^ 31" using no_wrap_ticket [OF nw inv, of i k] QPopSeq by simp
    ultimately have diff: "sint (mq_seq s ! (k mod 2 ^ m) - (h + 1)) = int ?g - int (Suc k)"
      using mpmc_diff [OF inv, of "Suc k" k] k(2) f(6) by (simp add: add.commute)
    have "s' = (if ?g = Suc k then qgoto s i (QPopCas h k)
                else if ?g \<le> k then (qgoto s i QIdle)\<lparr>mq_wrong := mq_wrong s \<or> mq_pops s \<in> set (mq_done s)\<rparr>
                else qgoto s i QPopLoad)"
      using step QPopSeq diff c [of k] f(8,9) k(1) by (auto simp: mpmc_pop_step_def Let_def)
    moreover have "mpmc_inv m (qgoto s i p)" if "p \<in> {QIdle, QPopLoad}" for p
      using that QPopSeq by (intro mpmc_goto [OF inv]) (auto simp: push_own_def pop_own_def)
    moreover have "mpmc_inv m (qgoto s i (QPopCas h k))" if "?g = Suc k"
      using that QPopSeq k by (intro mpmc_goto [OF inv]) (auto simp: push_own_def pop_own_def)
    moreover have "\<not> (mq_wrong s \<or> mq_pops s \<in> set (mq_done s))" if "?g \<le> k" using pop_gives_up [OF inv k(2) that] f(11) by simp
    ultimately show ?thesis by (auto intro: mpmc_wrong)
  next
    case (QPopCas h k)
    have k: "h = of_nat k" "k \<le> mq_pops s" using ok QPopCas by simp_all
    have "mq_pops s < k + 2 ^ 32" using no_wrap_ticket [OF nw inv, of i k] QPopCas f(6) by simp
    then have "mq_head s = h \<Longrightarrow> k = mq_pops s" unfolding f(4) k(1) by (rule ticket_eq [OF k(2)])
    moreover have "mpmc_inv m (qgoto s i (QPopSeq (mq_head s) (mq_pops s)))"
      using QPopCas f(4) by (intro mpmc_goto [OF inv]) (auto simp: push_own_def pop_own_def)
    ultimately show ?thesis using step QPopCas mpmc_pop_claim [OF inv, of i h] by (auto simp: mpmc_pop_step_def split: if_splits)
  next
    case (QPopRead h k)
    have own: "pop_own s i = Some k" "push_own s i = None" using QPopRead by (simp_all add: pop_own_def push_own_def)
    have k: "h = of_nat k" "k < mq_pops s" "mq_gseq s ! (k mod 2 ^ m) = Suc k" using ok QPopRead by simp_all
    have "s' = qgoto s i (QPopStore h k (mq_pushed s ! k))"
      using step QPopRead c [of k] f(10) k(1) owned_pop_full(3) [OF inv own(1)] by (simp add: mpmc_pop_step_def)
    then show ?thesis using mpmc_goto [OF inv, of "QPopStore h k (mq_pushed s ! k)" i] k own by simp
  next
    case (QPopStore h k d)
    have "h = of_nat k" using ok QPopStore by simp
    then show ?thesis using step QPopStore mpmc_pop_store [OF inv QPopStore] c [of k] by (simp add: mpmc_pop_step_def Let_def)
  qed (use step in \<open>simp_all add: mpmc_pop_step_def\<close>)
qed

lemma mpmc_push_step_inv:
  assumes inv: "mpmc_inv m s" and nw: "mpmc_no_wrap s" and step: "mpmc_push_step b i s = Some s'"
  shows "mpmc_inv m s'"
proof -
  note f = mpmc_basicD [OF inv] and ok = mpmc_thread [OF inv, of i] and c = cell_index [OF inv]
  have len: "length (mq_seq s) = 2 ^ m" using f(8,9) by simp
  show ?thesis
  proof (cases "mq_thr s i")
    case (QPushLoad d j)
    then show ?thesis using step f(5) ok by (auto simp: mpmc_push_step_def push_own_def pop_own_def intro!: mpmc_goto [OF inv])
  next
    case (QPushSeq t k d j)
    have k: "t = of_nat k" "k \<le> mpushes s" "job_ok j" using ok QPushSeq by simp_all
    let ?g = "mq_gseq s ! (k mod 2 ^ m)"
    have diff: "sint (mq_seq s ! (k mod 2 ^ m) - t) = int ?g - int k"
      using mpmc_diff [OF inv, of k k] no_wrap_ticket [OF nw inv, of i k] QPushSeq k by simp
    have "s' = (if ?g = k then qgoto s i (QPushCas t k d j)
                else if ?g < k then (mpmc_push_ret False d j i s)\<lparr>mq_wrong := mq_wrong s \<or> mpushes s < 2 ^ m \<or> mpushes s - 2 ^ m \<in> fst ` set (mq_got s)\<rparr>
                else qgoto s i (QPushLoad d j))"
      using step QPushSeq diff c [of k] len k(1) by (auto simp: mpmc_push_step_def Let_def)
    moreover have "mpmc_inv m (mpmc_push_ret False d j i s)"
      unfolding mpmc_push_ret_def mpmc_ret
      by (rule mpmc_goto [OF inv]) (use push_return_ok [OF k(3)] QPushSeq in \<open>simp_all add: push_own_def pop_own_def\<close>)
    moreover have "mpmc_inv m (qgoto s i (QPushLoad d j))" "?g = k \<Longrightarrow> mpmc_inv m (qgoto s i (QPushCas t k d j))"
      by (rule mpmc_goto [OF inv]; use QPushSeq k in \<open>simp add: push_own_def pop_own_def\<close>)+
    moreover have "\<not> (mq_wrong s \<or> mpushes s < 2 ^ m \<or> mpushes s - 2 ^ m \<in> fst ` set (mq_got s))" if "?g < k"
      using push_gives_up [OF inv k(2) that] f(11) by simp
    ultimately show ?thesis by (auto intro: mpmc_wrong)
  next
    case (QPushCas t k d j)
    have k: "t = of_nat k" "k \<le> mpushes s" "job_ok j" using ok QPushCas by simp_all
    have "mpushes s < k + 2 ^ 32" using no_wrap_ticket [OF nw inv, of i k] QPushCas by simp
    then have "mq_tail s = t \<Longrightarrow> k = mpushes s" unfolding f(5) k(1) by (rule ticket_eq [OF k(2)])
    moreover have "mpmc_inv m (qgoto s i (QPushSeq (mq_tail s) (mpushes s) d j))"
      using QPushCas f(5) k(3) by (intro mpmc_goto [OF inv]) (auto simp: push_own_def pop_own_def)
    ultimately show ?thesis using step QPushCas mpmc_push_claim [OF inv, of i t d j] by (auto simp: mpmc_push_step_def split: if_splits)
  next
    case (QPushWrite t k d j)
    have "t = of_nat k" using ok QPushWrite by simp
    then show ?thesis using step QPushWrite mpmc_push_write [OF inv QPushWrite] c [of k] f(10) by (simp add: mpmc_push_step_def)
  next
    case (QPushStore t k d j)
    have "t = of_nat k" using ok QPushStore by simp
    then have "s' = ((qgoto s i (mpmc_push_return True d j))\<lparr>mq_seq := (mq_seq s)[k mod 2 ^ m := t + 1],
        mq_gseq := (mq_gseq s)[k mod 2 ^ m := k + 1], mq_done := mq_done s @ [k]\<rparr>)\<lparr>mq_ret := (mq_ret s)(i := mpmc_push_result True d j)\<rparr>"
      using step QPushStore c [of k]
      by (intro mpmc_sys.equality) (auto simp: mpmc_push_step_def mpmc_push_ret_def Let_def qgoto_def)
    then show ?thesis unfolding mpmc_ret using mpmc_push_store [OF inv QPushStore] mpmc_ret by metis
  qed (use step in \<open>simp_all add: mpmc_push_step_def\<close>)
qed

lemma mpmc_step_inv:
  assumes inv: "mpmc_inv m s" and nw: "mpmc_no_wrap s" and step: "mpmc_step e s = Some s'"
  shows "mpmc_inv m s'"
proof (cases e)
  case (MPush i d)
  then have "mq_thr s i = QIdle" "s' = qgoto s i (QPushLoad d JPush)" using step by (auto split: if_splits)
  then show ?thesis using mpmc_goto [OF inv] by (simp add: push_own_def pop_own_def)
next
  case (MPushStq i ds num)
  then have i: "mq_thr s i = QIdle" "unat num = length ds" "s' = mpmc_push_stq_start ds num i s" using step by (auto split: if_splits)
  have idle: "push_own s i = None" "pop_own s i = None" using i(1) by (simp_all add: push_own_def pop_own_def)
  show ?thesis
  proof (cases ds)
    case Nil
    then have "num = 0" using i(2) by (simp add: unat_eq_zero)
    then show ?thesis using i(3) Nil mpmc_goto [OF inv, of QIdle i] idle by (simp add: mpmc_push_stq_start_def mpmc_ret)
  next
    case (Cons d ds')
    then show ?thesis using i(2,3) mpmc_goto [OF inv] idle by (simp add: mpmc_push_stq_start_def)
  qed
next
  case (MPop i)
  then have "mq_thr s i = QIdle" "s' = qgoto s i QPopLoad" using step by (auto split: if_splits)
  then show ?thesis using mpmc_goto [OF inv] by (simp add: push_own_def pop_own_def)
qed (use step mpmc_push_step_inv [OF inv nw] mpmc_pop_step_inv [OF inv nw] in simp_all)

section \<open>What the queue promises\<close>

definition mpmc_guarded_step :: "mpmc_event \<Rightarrow> mpmc_sys \<Rightarrow> mpmc_sys option" where
  "mpmc_guarded_step e s = (case mpmc_step e s of None \<Rightarrow> None | Some s' \<Rightarrow> if mpmc_no_wrap s' then Some s' else None)"

lemma mpmc_init:
  assumes "fev_bounded_mpmc_queue_init True capacity = Some (Inr s)" "capacity < 2 ^ 31"
  shows "\<exists>m. unat capacity = 2 ^ m \<and> mpmc_inv m s \<and> mpmc_no_wrap s"
proof -
  have cap: "capacity \<ge> 2" "capacity AND (capacity - 1) = 0"
    using assms(1) by (auto simp: fev_bounded_mpmc_queue_init_def fev_assert_def split: if_splits)
  then have "capacity \<noteq> 0" by auto
  then obtain m where m: "unat capacity = 2 ^ m" using word_pow2_test cap(2) by blast
  have s: "s = \<lparr>mq_seq = map of_nat [0..<2 ^ m], mq_data = replicate (2 ^ m) None,
                mq_mask = capacity - 1, mq_head = 0, mq_tail = 0, mq_thr = (\<lambda>_. QIdle), mq_ret = (\<lambda>_. ([], 0)),
                mq_gseq = [0..<2 ^ m], mq_pushed = [], mq_pops = 0, mq_done = [], mq_got = [], mq_wrong = False\<rparr>"
    using assms(1) m by (auto simp: fev_bounded_mpmc_queue_init_def fev_assert_def split: if_splits)
  have "2 \<le> unat capacity" "unat capacity < 2 ^ 31" using cap assms(2) by (simp_all add: word_le_nat_alt word_less_nat_alt)
  then have "m \<noteq> 0" "(2::nat) ^ m < 2 ^ 31" unfolding m by (auto intro: ccontr)
  then have range: "1 \<le> m" "m < 31" by (simp_all add: power_strict_increasing_iff del: power_numeral)
  have "capacity = of_nat (2 ^ m)" using m by (metis of_nat_unat ucast_id)
  then have "capacity - 1 = mask m" by (simp add: mask_eq_exp_minus_1)
  then have "mpmc_inv m s" using range by (simp add: s mpmc_defs owners_def push_own_def pop_own_def cell_free_def Let_def)
  then show ?thesis using m by (auto simp: s mpmc_no_wrap_def)
qed

interpretation mpmc: step_invariant mpmc_guarded_step
  "\<lambda>s. \<exists>capacity < 2 ^ 31. fev_bounded_mpmc_queue_init True capacity = Some (Inr s) \<and> unat capacity = 2 ^ m"
  "\<lambda>s. mpmc_inv m s \<and> mpmc_no_wrap s"
proof unfold_locales
  fix s s' e
  assume "mpmc_inv m s \<and> mpmc_no_wrap s" "mpmc_guarded_step e s = Some s'"
  then show "mpmc_inv m s' \<and> mpmc_no_wrap s'"
    using mpmc_step_inv by (auto simp: mpmc_guarded_step_def split: option.splits if_splits)
next
  fix s
  assume "\<exists>capacity < 2 ^ 31. fev_bounded_mpmc_queue_init True capacity = Some (Inr s) \<and> unat capacity = 2 ^ m"
  then show "mpmc_inv m s \<and> mpmc_no_wrap s" by (auto dest!: mpmc_init)
qed

text \<open>
  C21. Linearizability of the bounded MPMC queue, for any number of threads that push (one fiber or a list) and pop,
  in every interleaving of their loads, stores and compare-exchanges (spurious failures included), as long as no
  thread sleeps inside an operation while the queue moves on by \<open>2 ^ 31\<close> elements: the result of the pop with
  ticket \<open>k\<close> is the element of the push with ticket \<open>k\<close>, no ticket is served twice, and when all threads are idle
  exactly the first tickets have been served, so that no element is lost, duplicated or reordered. A pop gives up
  only when the push of the next element has not finished, a push only when the pop that frees its cell
  has not finished. No cell is read that was never written, and no assertion fails.
\<close>

theorem fev_bounded_mpmc_queue_linearizable:
  assumes "fev_bounded_mpmc_queue_init True capacity = Some (Inr s0)" "capacity < 2 ^ 31"
    and "run mpmc_guarded_step s0 es = Some s"
  shows "(\<forall>(k, d) \<in> set (mq_got s). k < mq_pops s \<and> d = mq_pushed s ! k) \<and> distinct (map fst (mq_got s)) \<and>
     mq_pops s \<le> length (mq_pushed s) \<and> length (mq_pushed s) \<le> mq_pops s + unat capacity \<and>
     ((\<forall>i. mq_thr s i = QIdle) \<longrightarrow> fst ` set (mq_got s) = {..<mq_pops s}) \<and>
     \<not> mq_wrong s \<and> (\<forall>i. mq_thr s i \<noteq> QFault)"
proof -
  obtain m where m: "unat capacity = 2 ^ m" using mpmc_init [OF assms(1,2)] by blast
  have inv: "mpmc_inv m s" using mpmc.inv_run_init [OF _ assms(3)] assms(1,2) m by blast
  note b = mpmc_basicD [OF inv] and parts = mpmc_parts [OF inv]
  have "mq_thr s i \<noteq> QFault" for i using mpmc_thread [OF inv, of i] by auto
  moreover have "fst ` set (mq_got s) = {..<mq_pops s}" if "\<forall>i. mq_thr s i = QIdle"
    using parts(3,4) that by (auto simp: mpmc_owners_def owners_def mpmc_log_def pop_own_def)
  ultimately show ?thesis using parts(4) b(6,7,11) m unfolding mpmc_log_def by simp
qed

text \<open>
  A queue of two cells: thread 1 claims the first cell and is held up, thread 2 pushes a list of two, of which one
  fits, and a pop by thread 3 gives up because the first element is not there yet; then thread 1 finishes and
  threads 3 and 4 pop both elements, in the order of the tickets.
\<close>

lemma mpmc_step_pushes:
  assumes "mpmc_step e s = Some s'"
  shows "mpushes s' \<le> Suc (mpushes s)" "length (mq_seq s') = length (mq_seq s)"
  using assms
  by (cases e; auto simp: mpmc_push_step_def mpmc_pop_step_def mpmc_push_stq_start_def mpmc_push_ret_def qgoto_def Let_def
      split: if_splits mpmc_pc.splits option.splits list.splits)+

lemma mpmc_short_run:
  "run mpmc_step s es = Some s' \<Longrightarrow> mpushes s + length es + length (mq_seq s) < 2 ^ 31 \<Longrightarrow> run mpmc_guarded_step s es = Some s'"
proof (induction es arbitrary: s)
  case (Cons e es)
  then obtain s1 where s1: "mpmc_step e s = Some s1" "run mpmc_step s1 es = Some s'" by (auto split: option.splits)
  note p = mpmc_step_pushes [OF s1(1)]
  have "mpushes s1 + length (mq_seq s1) < 2 ^ 31" using p Cons.prems(2) by simp
  then have "mpmc_no_wrap s1" by (simp add: mpmc_no_wrap_def split: option.split)
  moreover have "run mpmc_guarded_step s1 es = Some s'" by (rule Cons.IH [OF s1(2)]) (use p Cons.prems(2) in simp)
  moreover have "mpmc_guarded_step e s = Some s1" using s1(1) \<open>mpmc_no_wrap s1\<close> by (simp add: mpmc_guarded_step_def)
  ultimately show ?case by simp
qed simp

definition mpmc_race_run :: "mpmc_event list" where
  "mpmc_race_run =
     [MPush 1 7, MPushStep False 1, MPushStep False 1, MPushStep False 1, MPushStq 2 [8, 9] 2,
      MPushStep False 2, MPushStep False 2, MPushStep False 2, MPushStep False 2, MPushStep False 2,
      MPop 3, MPopStep False 3, MPopStep False 3, MPushStep False 2, MPushStep False 2, MPushStep False 1, MPushStep False 1,
      MPop 3, MPop 4, MPopStep False 3, MPopStep False 4, MPopStep False 3, MPopStep False 4, MPopStep False 4,
      MPopStep False 3, MPopStep False 3, MPopStep False 3, MPopStep False 3, MPopStep False 3, MPopStep False 4, MPopStep False 4]"

theorem fev_bounded_mpmc_queue_linearizable_witness:
  "\<exists>s0 s. fev_bounded_mpmc_queue_init True 2 = Some (Inr s0) \<and> run mpmc_guarded_step s0 mpmc_race_run = Some s \<and>
     mq_got s = [(1, 8), (0, 7)] \<and> mq_pushed s = [7, 8] \<and> mq_ret s 2 = ([9], 1) \<and> \<not> mq_wrong s \<and> mq_pops s \<le> 2"
proof -
  obtain s0 where s0: "fev_bounded_mpmc_queue_init True 2 = Some (Inr s0)" "mq_pushed s0 = []" "length (mq_seq s0) = 2"
    by (simp add: fev_bounded_mpmc_queue_init_def fev_assert_def)
  have "(case fev_bounded_mpmc_queue_init True 2 of Some (Inr s0) \<Rightarrow>
      map_option (\<lambda>s. (mq_got s, mq_pushed s, mq_ret s 2)) (run mpmc_step s0 mpmc_race_run)
      | _ \<Rightarrow> None) = Some ([(1, 8), (0, 7)], [7, 8], [9], 1)"
    by code_simp
  then obtain s where s: "run mpmc_step s0 mpmc_race_run = Some s" "mq_got s = [(1, 8), (0, 7)]" "mq_pushed s = [7, 8]"
      "mq_ret s 2 = ([9], 1)"
    using s0(1) by auto
  have r: "run mpmc_guarded_step s0 mpmc_race_run = Some s"
    by (rule mpmc_short_run [OF s(1)]) (simp add: s0 mpmc_race_run_def)
  show ?thesis using fev_bounded_mpmc_queue_linearizable [OF s0(1) _ r] s0(1) s r by auto
qed

end
