(* ===== verification/Sched_Common.thy ===== *)
theory Sched_Common
  imports Alloc
begin

text \<open>
  What the schedulers share: the random numbers of \<open>fev_util.h\<close>, the order in which a worker visits its
  victims, and the number of workers that \<open>fev_wake_workers_slow\<close> (\<open>fev_sched_common.c\<close>) wakes.
\<close>

section \<open>Random numbers\<close>

definition FEV_RANDOM_MULTIPLIER :: u64 where "FEV_RANDOM_MULTIPLIER = 48271"
definition FEV_RANDOM_MODULUS :: u64 where "FEV_RANDOM_MODULUS = 2147483647"

definition FEV_RANDOM_NEXT :: "u32 \<Rightarrow> u32" where
  "FEV_RANDOM_NEXT r = ucast ((ucast r * FEV_RANDOM_MULTIPLIER) mod FEV_RANDOM_MODULUS)"

lemma unat_random_next: "unat (FEV_RANDOM_NEXT r) = unat r * 48271 mod 2147483647"
proof -
  have r: "unat r < 2 ^ 32" using unsigned_less [of r, where ?'a = nat] by simp
  then have "unat r * 48271 < 2 ^ 64" by simp
  then have m: "unat (ucast r * FEV_RANDOM_MULTIPLIER :: u64) = unat r * 48271"
    by (simp add: FEV_RANDOM_MULTIPLIER_def unat_word_ariths unsigned_ucast_eq take_bit_nat_eq_self)
  have "unat ((ucast r * FEV_RANDOM_MULTIPLIER) mod FEV_RANDOM_MODULUS :: u64) = unat r * 48271 mod 2147483647"
    unfolding unat_mod_distrib m by (simp add: FEV_RANDOM_MODULUS_def)
  moreover have "unat r * 48271 mod 2147483647 < 2 ^ 32"
    using mod_less_divisor [of 2147483647 "unat r * 48271"] by simp
  ultimately show ?thesis
    by (simp add: FEV_RANDOM_NEXT_def unsigned_ucast_eq take_bit_nat_eq_self)
qed

text \<open>The multiplier has an inverse, so that multiplication does not merge remainders.\<close>

lemma multiplier_inverse: "48271 * 1899818559 = (1 :: nat) + 42704 * 2147483647"
  by simp

lemma multiplier_cancel:
  fixes r r' :: nat
  assumes "r * 48271 mod 2147483647 = r' * 48271 mod 2147483647" "r < 2147483647" "r' < 2147483647"
  shows "r = r'"
proof -
  have inv: "(x * 48271) * 1899818559 mod 2147483647 = x mod 2147483647" for x :: nat
  proof -
    have "(x * 48271) * 1899818559 = x + (x * 42704) * 2147483647"
      using multiplier_inverse by (simp add: algebra_simps)
    then show ?thesis by (simp only: mod_mult_self1)
  qed
  have "(r * 48271) * 1899818559 mod 2147483647 = (r' * 48271) * 1899818559 mod 2147483647"
    by (rule mod_mult_cong [OF assms(1) refl])
  then have "r mod 2147483647 = r' mod 2147483647" unfolding inv .
  then show ?thesis using assms(2,3) by simp
qed

text \<open>
  The generator permutes the numbers 1 to \<open>FEV_RANDOM_MAX\<close>: it stays in this range and never maps two
  numbers to one, so that its sequence comes back to its seed before it repeats any other number. The
  schedulers seed it with \<open>rand()\<close>, which may also return 0 or \<open>FEV_RANDOM_MODULUS\<close>: from these the generator
  is stuck at 0.
\<close>

theorem fev_random_next_permutes:
  "bij_betw FEV_RANDOM_NEXT {r. 0 < r \<and> r < 2147483647} {r. 0 < r \<and> r < 2147483647} \<and>
   FEV_RANDOM_NEXT 0 = 0 \<and> FEV_RANDOM_NEXT 2147483647 = 0"
proof -
  let ?R = "{r :: u32. 0 < r \<and> r < 2147483647}"
  have range: "r \<in> ?R \<longleftrightarrow> 0 < unat r \<and> unat r < 2147483647" for r by (simp add: word_less_nat_alt)
  have inj: "inj_on FEV_RANDOM_NEXT ?R"
  proof (rule inj_onI)
    fix r r' assume r: "r \<in> ?R" "r' \<in> ?R" and "FEV_RANDOM_NEXT r = FEV_RANDOM_NEXT r'"
    then have "unat r * 48271 mod 2147483647 = unat r' * 48271 mod 2147483647"
      unfolding unat_random_next [symmetric] by simp
    then have "unat r = unat r'"
      by (rule multiplier_cancel) (use r range in blast)+
    then show "r = r'" by (simp add: word_unat_eq_iff)
  qed
  have "FEV_RANDOM_NEXT r \<in> ?R" if r: "r \<in> ?R" for r
  proof -
    have "unat r * 48271 mod 2147483647 \<noteq> 0 * 48271 mod 2147483647"
      using multiplier_cancel [of "unat r" 0] r range by auto
    then show ?thesis unfolding range unat_random_next by simp
  qed
  then have sub: "FEV_RANDOM_NEXT ` ?R \<subseteq> ?R" by blast
  have "FEV_RANDOM_NEXT ` ?R = ?R" by (rule endo_inj_surj [OF _ sub inj]) simp
  moreover have "FEV_RANDOM_NEXT 0 = 0" "FEV_RANDOM_NEXT 2147483647 = 0"
    by (simp_all add: word_unat_eq_iff unat_random_next)
  ultimately show ?thesis using inj by (simp add: bij_betw_def)
qed

section \<open>Victims\<close>

text \<open>The victim of the \<open>i\<close>-th round of \<open>fev_sched_steal\<close>.\<close>

definition victim :: "u32 \<Rightarrow> nat \<Rightarrow> nat \<Rightarrow> nat" where
  "victim rnd num_workers i = unat ((rnd + of_nat i) mod of_nat num_workers)"

lemma victim_eq:
  assumes "0 < n" "n \<le> 2 ^ 31" "i < n" "unat rnd < 2147483647"
  shows "victim rnd n i = (unat rnd + i) mod n"
proof -
  have "unat rnd + i < 2 ^ 32" using assms by simp
  then have "unat (rnd + of_nat i) = unat rnd + i"
    by (simp add: unat_word_ariths unat_of_nat)
  then show ?thesis using assms by (simp add: victim_def unat_mod_distrib unat_of_nat)
qed

lemma victim_range: "0 < n \<Longrightarrow> n < 2 ^ 32 \<Longrightarrow> victim rnd n i < n"
  by (simp add: victim_def unat_mod_distrib unat_of_nat)

text \<open>
  In one call of \<open>fev_sched_steal\<close> a worker that found nothing has visited every worker exactly once,
  whatever the random number was, for up to \<open>2 ^ 31\<close> workers.
\<close>

theorem fev_sched_steal_visits_all:
  assumes "0 < num_workers" "num_workers \<le> 2 ^ 31"
  shows "bij_betw (victim (FEV_RANDOM_NEXT rnd) num_workers) {..<num_workers} {..<num_workers}"
proof -
  let ?r = "unat (FEV_RANDOM_NEXT rnd)" and ?v = "victim (FEV_RANDOM_NEXT rnd) num_workers"
  have v: "?v i = (?r + i) mod num_workers" if "i < num_workers" for i
    by (rule victim_eq [OF assms that]) (simp add: unat_random_next)
  have inj: "inj_on ?v {..<num_workers}"
  proof (rule inj_onI)
    fix i j assume ij: "i \<in> {..<num_workers}" "j \<in> {..<num_workers}" "?v i = ?v j"
    then have eq: "(?r + i) mod num_workers = (?r + j) mod num_workers" using v by simp
    show "i = j"
    proof (cases i j rule: linorder_cases)
      case less
      then show ?thesis using eq mod_neq_within [of "?r + i" "?r + j" num_workers] ij(2) by simp
    next
      case greater
      then show ?thesis using eq mod_neq_within [of "?r + j" "?r + i" num_workers] ij(1) by simp
    qed
  qed
  have "?v ` {..<num_workers} \<subseteq> {..<num_workers}" using v assms(1) by auto
  then have "?v ` {..<num_workers} = {..<num_workers}" by (rule endo_inj_surj [OF finite_lessThan _ inj])
  then show ?thesis using inj by (simp add: bij_betw_def)
qed

theorem fev_sched_steal_visits_all_witness:
  "bij_betw (victim (FEV_RANDOM_NEXT 5) 4) {..<4} {..<4}"
  by (rule fev_sched_steal_visits_all) simp_all

section \<open>Waking workers\<close>

text \<open>
  \<open>fev_wake_workers_slow\<close>, with \<open>poller_waiting\<close> as it loads it: whether it interrupts the poller and how often
  it posts the semaphore. The counter is unsigned: without a fiber to run it would wrap around.
\<close>

definition fev_wake_workers_slow :: "bool \<Rightarrow> u32 \<Rightarrow> u32 \<Rightarrow> bool \<times> u32" where
  "fev_wake_workers_slow poller_waiting num_waiting num_fibers =
     (let n = (if num_fibers > num_waiting then num_waiting else num_fibers)
      in if poller_waiting then (True, n - 1) else (False, n))"

lemma fev_wake_workers_slow_bound:
  assumes "num_waiting > 0" "num_fibers > 0" "fev_wake_workers_slow pw num_waiting num_fibers = (intr, posts)"
  shows "intr = pw \<and> unat posts + (if intr then 1 else 0) = min (unat num_fibers) (unat num_waiting)"
proof -
  have "unat (x - 1) = unat x - 1" "unat x > 0" if "x > 0" for x :: u32
    using that by (simp_all add: unat_minus_one unat_gt_0 word_neq_0_conv)
  then show ?thesis using assms
    by (auto simp: fev_wake_workers_slow_def Let_def word_less_nat_alt min_def split: if_splits)
qed

section \<open>Sums over the workers\<close>

text \<open>
  Each counter of a scheduler is a sum of what its workers contribute. A step of worker \<open>j\<close> changes the
  summand of \<open>j\<close> only.
\<close>

definition wsum :: "nat \<Rightarrow> ('a \<Rightarrow> 'b::comm_monoid_add) \<Rightarrow> (nat \<Rightarrow> 'a) \<Rightarrow> 'b" where
  "wsum n f g = (\<Sum>i<n. f (g i))"

definition others :: "nat \<Rightarrow> ('a \<Rightarrow> 'b::comm_monoid_add) \<Rightarrow> (nat \<Rightarrow> 'a) \<Rightarrow> nat \<Rightarrow> 'b" where
  "others n f g j = (\<Sum>i\<in>{..<n} - {j}. f (g i))"

lemma wsum_split: "j < n \<Longrightarrow> wsum n f g = f (g j) + others n f g j"
  by (simp add: wsum_def others_def sum.remove)

lemma others_upd [simp]: "others n f (g(j := x)) j = others n f g j"
  by (simp add: others_def)

lemma wsum_upd: "j < n \<Longrightarrow> wsum n f (g(j := x)) = f x + others n f g j"
  using wsum_split [of j n f "g(j := x)"] by simp

lemma wsum_0: "(\<And>i. i < n \<Longrightarrow> f (g i) = 0) \<Longrightarrow> wsum n f g = 0"
  by (simp add: wsum_def)

lemma others_member:
  fixes f :: "'a \<Rightarrow> 'b multiset"
  assumes "j < n" "j \<noteq> i"
  shows "f (g j) \<subseteq># others n f g i"
proof -
  have "others n f g i = f (g j) + (\<Sum>k\<in>{..<n} - {i} - {j}. f (g k))"
    unfolding others_def by (rule sum.remove) (use assms in auto)
  then show ?thesis by simp
qed

end
