(* ===== verification/Steal_Sched.thy ===== *)
theory Steal_Sched
  imports Sched_Common
begin

text \<open>
  Work stealing, as a concurrent system of \<open>n\<close> workers: the default scheduler with one locked run queue per
  worker (\<open>fev_sched_steal_locking.c\<close>, \<open>fev_sched_steal_locking_impl.h\<close>), and the schedulers with one bounded
  queue per worker and a shared fallback queue for what does not fit (\<open>fev_sched_steal_bounded_spmc.c\<close>,
  \<open>fev_sched_steal_bounded_mpmc.c\<close> and their \<open>_impl.h\<close>), with \<open>fev_sched_impl.h\<close> and \<open>fev_sched_common.c\<close>.
  A critical section of a run queue's lock is one step (the lock excludes, theory \<open>Locks\<close>), and so is a push or
  a pop of a bounded queue (theories \<open>Spmc_Concurrent\<close> and \<open>Mpmc_Concurrent\<close>: only the owner of a queue pushes, so
  that a pop gives up only when the queue is empty; a push may give up while a pop is in progress);
  every access to a counter of the scheduler is a step. What a running fiber does to the
  scheduler (create, wake, wait, yield, exit) and what the poller finds are events of the environment.
\<close>

section \<open>The system\<close>

text \<open>The strategy that the library is compiled for; a bounded queue has a capacity.\<close>

datatype steal_strategy = StealLocking | StealSpmc nat | StealMpmc nat

text \<open>Where a worker goes on after it has pushed fibers.\<close>

datatype resume =
    RFiber fiber_ptr \<comment> \<open>back in the running fiber\<close>
  | RNext \<comment> \<open>the fiber yielded\<close>
  | RCheck \<comment> \<open>in \<open>fev_poller_check\<close>\<close>
  | RPoll \<comment> \<open>in \<open>fev_poller_wait\<close>, counted as waiting\<close>

datatype worker_pc =
    WLocal \<comment> \<open>at \<open>get_local\<close>\<close>
  | WRunning fiber_ptr
  | WNext \<comment> \<open>back from a fiber\<close>
  | WGlobal \<comment> \<open>at \<open>get_global\<close>, in \<open>fev_poller_check\<close>\<close>
  | WFallback \<comment> \<open>at the load of \<open>fallback_queue_len\<close>\<close>
  | WMove \<comment> \<open>in \<open>fev_move_from_fallback\<close>, before the lock\<close>
  | WMoving "fiber_ptr list" u32 u32 \<comment> \<open>with the lock: fibers to push, pushed, \<open>len\<close>\<close>
  | WBackoff \<comment> \<open>at the load of the queue's size\<close>
  | WSteal nat \<comment> \<open>in round \<open>i\<close> of \<open>fev_sched_steal\<close>\<close>
  | WStealing nat "fiber_ptr list" \<comment> \<open>popping from a bounded queue\<close>
  | WStolen "fiber_ptr list"
  | WStealPush u32 "fiber_ptr list" \<comment> \<open>pushing what was stolen, \<open>num_stolen\<close>\<close>
  | WStealFall u32 "fiber_ptr list"
  | WCheckR
  | WCheckW u32 \<comment> \<open>\<open>num_run_fibers\<close>\<close>
  | WDone u32
  | WXchg
  | WAddW bool \<comment> \<open>\<open>poller_waiting\<close>\<close>
  | WLoadR bool u32 \<comment> \<open>and \<open>num_waiting\<close>\<close>
  | WUndoP bool
  | WPoll \<comment> \<open>asleep in \<open>fev_poller_wait\<close>\<close>
  | WPollStore
  | WSem \<comment> \<open>asleep in \<open>fev_thr_sem_wait\<close>\<close>
  | WSubW worker_pc \<comment> \<open>at the decrement of \<open>num_waiting\<close>\<close>
  | WOut
  | WExit
  | WPush resume "fiber_ptr list"
  | WPushing resume u32 "fiber_ptr list" \<comment> \<open>\<open>num_fibers\<close> and the fibers that are left\<close>
  | WFall resume u32 "fiber_ptr list"
  | WAddR resume u32
  | WLoadW resume u32
  | WSlow resume u32 u32
  | WParking fiber_ptr \<comment> \<open>the fiber waits, \<open>num_run_fibers\<close> already decremented\<close>
  | WYield fiber_ptr
  | WExiting fiber_ptr \<comment> \<open>in \<open>fev_fiber_exit_post\<close>\<close>
  | WExited

text \<open>Ghosts: the fibers that are suspended, and all fibers that exist.\<close>

record sched_sys =
  ss_n :: nat \<comment> \<open>\<open>num_workers\<close>\<close>
  ss_strategy :: steal_strategy
  ss_count :: nat \<comment> \<open>\<open>FEV_SCHED_STEAL_LOCKING_STEAL_COUNT\<close> and its like\<close>
  ss_fallback :: "fiber_ptr list"
  ss_flen :: u32
  ss_flock :: bool
  ss_queue :: "nat \<Rightarrow> fiber_ptr list"
  ss_size :: "nat \<Rightarrow> u32"
  ss_backoff :: "nat \<Rightarrow> u32"
  ss_rnd :: "nat \<Rightarrow> u32"
  ss_waiting :: u32
  ss_pwait :: bool
  ss_run :: u32
  ss_fibers :: u32
  ss_sem :: nat
  ss_intr :: bool
  ss_pc :: "nat \<Rightarrow> worker_pc"
  ss_fault :: bool
  ss_parked :: "fiber_ptr multiset"
  ss_all :: "fiber_ptr multiset"

definition sgoto :: "sched_sys \<Rightarrow> nat \<Rightarrow> worker_pc \<Rightarrow> sched_sys" where
  "sgoto s i p = s\<lparr>ss_pc := (ss_pc s)(i := p)\<rparr>"

definition sassert :: "bool \<Rightarrow> sched_sys \<Rightarrow> sched_sys" where
  "sassert b s = s\<lparr>ss_fault := ss_fault s \<or> \<not> b\<rparr>"

text \<open>
  \<open>fev_push_one\<close> and \<open>fev_push_stq\<close>, then \<open>fev_wake_up_waiting_workers\<close>. Its slow part, \<open>fev_wake_workers_slow\<close> at \<open>WSlow\<close>, is
  one step, although it loads \<open>poller_waiting\<close>, interrupts the poller and posts the semaphore one after the other; so is
  \<open>WSubW\<close> below, the decrement of \<open>num_waiting\<close> with the load of the worker's own queue size that follows it.
\<close>

fun resume_at :: "resume \<Rightarrow> worker_pc" where
  "resume_at (RFiber f) = WRunning f"
| "resume_at RNext = WNext"
| "resume_at RCheck = WGlobal"
| "resume_at RPoll = WPollStore"

definition fev_push_one :: "nat \<Rightarrow> fiber_ptr \<Rightarrow> sched_sys \<Rightarrow> sched_sys" where
  "fev_push_one i fiber s =
     s\<lparr>ss_queue := (ss_queue s)(i := ss_queue s i @ [fiber]), ss_size := (ss_size s)(i := ss_size s i + 1)\<rparr>"

definition fev_push_stq :: "nat \<Rightarrow> fiber_ptr list \<Rightarrow> sched_sys \<Rightarrow> sched_sys" where
  "fev_push_stq i fibers s =
     (sassert (fibers \<noteq> []) s)\<lparr>ss_queue := (ss_queue s)(i := ss_queue s i @ fibers),
        ss_size := (ss_size s)(i := ss_size s i + of_nat (length fibers))\<rparr>"

definition fev_sched_wake_all_workers :: "sched_sys \<Rightarrow> sched_sys" where
  "fev_sched_wake_all_workers s = s\<lparr>ss_intr := True, ss_sem := ss_sem s + ss_n s\<rparr>"

definition fev_wake_step :: "nat \<Rightarrow> sched_sys \<Rightarrow> sched_sys option" where
  "fev_wake_step i s =
     (case ss_pc s i of
        WPush c fibers \<Rightarrow>
          (case fibers of
             [f] \<Rightarrow> Some (sgoto (fev_push_one i f s) i (WAddR c 1))
           | _ \<Rightarrow> Some (sgoto (fev_push_stq i fibers s) i (WAddR c (of_nat (length fibers)))))
      | WAddR c k \<Rightarrow> Some (sgoto (s\<lparr>ss_run := ss_run s + k\<rparr>) i (WLoadW c k))
      | WLoadW c k \<Rightarrow> Some (sgoto s i (if ss_waiting s = 0 then resume_at c else WSlow c (ss_waiting s) k))
      | WSlow c w k \<Rightarrow>
          (let (intr, posts) = fev_wake_workers_slow (ss_pwait s) w k
           in Some (sgoto (s\<lparr>ss_intr := ss_intr s \<or> intr, ss_sem := ss_sem s + unat posts\<rparr>) i (resume_at c)))
      | _ \<Rightarrow> None)"

text \<open>
  \<open>fev_push_one\<close> and \<open>fev_push_stq\<close> with bounded queues: one fiber after the other, and what the queue does not
  take goes to the fallback queue (\<open>fev_push_one_fallback\<close>, \<open>fev_push_stq_fallback\<close>). The queue of the SPMC strategy
  publishes a list at once; that is the case where nothing comes in between. \<open>ok\<close> is whether the push does not
  give up although there is room: the head that it loaded may be old, or a pop is in progress.
\<close>

fun steal_room :: "steal_strategy \<Rightarrow> nat \<Rightarrow> bool" where
  "steal_room StealLocking len = True"
| "steal_room (StealSpmc c) len = (len < c)"
| "steal_room (StealMpmc c) len = (len < c)"

definition bounded_push :: "nat \<Rightarrow> fiber_ptr \<Rightarrow> sched_sys \<Rightarrow> sched_sys" where
  "bounded_push i fiber s =
     s\<lparr>ss_queue := (ss_queue s)(i := ss_queue s i @ [fiber]), ss_size := (ss_size s)(i := ss_size s i + 1)\<rparr>"

definition steal_push_fallback :: "fiber_ptr list \<Rightarrow> sched_sys \<Rightarrow> sched_sys" where
  "steal_push_fallback fibers s =
     (sassert (fibers \<noteq> []) s)\<lparr>ss_fallback := ss_fallback s @ fibers, ss_flen := ss_flen s + of_nat (length fibers)\<rparr>"

definition steal_push_step :: "bool \<Rightarrow> nat \<Rightarrow> sched_sys \<Rightarrow> sched_sys option" where
  "steal_push_step ok i s =
     (case ss_pc s i of
        WPush c fibers \<Rightarrow> Some (sgoto (sassert (fibers \<noteq> []) s) i (WPushing c (of_nat (length fibers)) fibers))
      | WPushing c m fibers \<Rightarrow>
          (case fibers of
             [] \<Rightarrow> Some (sgoto s i (WAddR c m))
           | f # fs \<Rightarrow>
               if ok \<and> steal_room (ss_strategy s) (length (ss_queue s i))
               then Some (sgoto (bounded_push i f s) i (WPushing c m fs)) else Some (sgoto s i (WFall c m fibers)))
      | WFall c m fibers \<Rightarrow>
          if ss_flock s then None else Some (sgoto (steal_push_fallback fibers s) i (WAddR c m))
      | _ \<Rightarrow> None)"

text \<open>\<open>fev_move_from_fallback\<close>\<close>

definition steal_move_step :: "bool \<Rightarrow> nat \<Rightarrow> sched_sys \<Rightarrow> sched_sys option" where
  "steal_move_step ok i s =
     (case ss_pc s i of
        WFallback \<Rightarrow> Some (sgoto s i (if ss_flen s > 0 then WMove else WBackoff))
      | WMove \<Rightarrow>
          if ss_flock s then None
          else if ss_flen s > 0
               then Some (sgoto (s\<lparr>ss_flock := True, ss_fallback := []\<rparr>) i (WMoving (ss_fallback s) 0 (ss_flen s)))
               else Some (sgoto s i WBackoff)
      | WMoving fibers n len \<Rightarrow>
          (case fibers of
             f # fs \<Rightarrow>
               if ok \<and> steal_room (ss_strategy s) (length (ss_queue s i))
               then Some (sgoto (bounded_push i f s) i (WMoving fs (n + 1) len))
               else Some (sgoto ((sassert (n \<noteq> len \<and> n \<le> len) s)\<lparr>ss_flock := False, ss_fallback := fibers, ss_flen := len - n\<rparr>) i WBackoff)
           | [] \<Rightarrow> Some (sgoto ((sassert (n = len) s)\<lparr>ss_flock := False, ss_fallback := [], ss_flen := len - n\<rparr>) i WBackoff))
      | _ \<Rightarrow> None)"

text \<open>
  \<open>fev_sched_steal\<close> with bounded queues: a round pops one fiber after the other. With the SPMC queue all that was
  stolen must fit; with the MPMC queue it is pushed like new fibers.
\<close>

definition bounded_steal_step :: "bool \<Rightarrow> nat \<Rightarrow> sched_sys \<Rightarrow> sched_sys option" where
  "bounded_steal_step ok i s =
     (case ss_pc s i of
        WSteal r \<Rightarrow>
          if r \<ge> ss_n s then Some (sgoto s i WCheckR)
          else if victim (ss_rnd s i) (ss_n s) r = i then Some (sgoto s i (WSteal (Suc r)))
          else Some (sgoto s i (WStealing r []))
      | WStealing r fibers \<Rightarrow>
          (let v = victim (ss_rnd s i) (ss_n s) r
           in case (if length fibers < ss_count s then ss_queue s v else []) of
                f # q \<Rightarrow>
                  Some (sgoto (s\<lparr>ss_queue := (ss_queue s)(v := q), ss_size := (ss_size s)(v := ss_size s v - 1)\<rparr>) i
                    (WStealing r (fibers @ [f])))
              | [] \<Rightarrow> Some (sgoto s i (if fibers = [] then WSteal (Suc r) else WStolen fibers)))
      | WStolen fibers \<Rightarrow>
          (case ss_strategy s of
             StealSpmc c \<Rightarrow>
               (let n = min (length fibers) (c - length (ss_queue s i))
                in Some (sgoto ((sassert (n = length fibers) s)
                     \<lparr>ss_queue := (ss_queue s)(i := ss_queue s i @ take n fibers), ss_size := (ss_size s)(i := ss_size s i + of_nat n),
                      ss_backoff := (ss_backoff s)(i := of_nat (length fibers))\<rparr>) i WLocal))
           | _ \<Rightarrow> Some (sgoto s i (WStealPush (of_nat (length fibers)) fibers)))
      | WStealPush m fibers \<Rightarrow>
          (case fibers of
             [] \<Rightarrow> Some (sgoto (s\<lparr>ss_backoff := (ss_backoff s)(i := m)\<rparr>) i WLocal)
           | f # fs \<Rightarrow>
               if ok \<and> steal_room (ss_strategy s) (length (ss_queue s i))
               then Some (sgoto (bounded_push i f s) i (WStealPush m fs)) else Some (sgoto s i (WStealFall m fibers)))
      | WStealFall m fibers \<Rightarrow>
          if ss_flock s then None
          else Some (sgoto ((steal_push_fallback fibers s)\<lparr>ss_backoff := (ss_backoff s)(i := m)\<rparr>) i WLocal)
      | _ \<Rightarrow> None)"

text \<open>\<open>fev_sched_steal\<close> with locks: one round, then the hand-over of what was stolen to the worker's own queue.\<close>

definition fev_sched_steal_step :: "nat \<Rightarrow> sched_sys \<Rightarrow> sched_sys option" where
  "fev_sched_steal_step i s =
     (case ss_pc s i of
        WSteal r \<Rightarrow>
          if r \<ge> ss_n s then Some (sgoto s i WCheckR)
          else let v = victim (ss_rnd s i) (ss_n s) r
               in if v = i then Some (sgoto s i (WSteal (Suc r)))
                  else let stolen = take (ss_count s) (ss_queue s v); num = of_nat (length stolen) :: u32
                       in Some (sgoto ((sassert (ss_size s v \<ge> num) s)
                                  \<lparr>ss_queue := (ss_queue s)(v := drop (ss_count s) (ss_queue s v)),
                                   ss_size := (ss_size s)(v := ss_size s v - num)\<rparr>) i
                            (if stolen = [] then WSteal (Suc r) else WStolen stolen))
      | WStolen fibers \<Rightarrow>
          (let num = of_nat (length fibers)
           in Some (sgoto ((sassert (ss_queue s i = [] \<and> ss_size s i = 0) s)
                       \<lparr>ss_queue := (ss_queue s)(i := fibers), ss_size := (ss_size s)(i := num),
                        ss_backoff := (ss_backoff s)(i := num)\<rparr>) i WLocal))
      | _ \<Rightarrow> None)"

text \<open>\<open>fev_sched_work\<close>, up to the decision to sleep.\<close>

definition fev_sched_work_step :: "nat \<Rightarrow> sched_sys \<Rightarrow> sched_sys option" where
  "fev_sched_work_step i s =
     (case ss_pc s i of
        WNext \<Rightarrow>
          if ss_backoff s i = 0 then Some (sgoto s i WGlobal)
          else Some (sgoto (s\<lparr>ss_backoff := (ss_backoff s)(i := ss_backoff s i - 1)\<rparr>) i WLocal)
      | WLocal \<Rightarrow>
          (case ss_queue s i of
             [] \<Rightarrow> Some (sgoto s i WGlobal)
           | f # fs \<Rightarrow>
               Some (sgoto ((sassert (ss_size s i > 0) s)
                  \<lparr>ss_queue := (ss_queue s)(i := fs), ss_size := (ss_size s)(i := ss_size s i - 1)\<rparr>) i (WRunning f)))
      | WGlobal \<Rightarrow> Some (sgoto s i (if ss_strategy s = StealLocking then WBackoff else WFallback))
      | WBackoff \<Rightarrow>
          (let s' = s\<lparr>ss_backoff := (ss_backoff s)(i := ss_size s i)\<rparr>
           in if ss_size s i > 0 then Some (sgoto s' i WLocal)
              else Some (sgoto (s'\<lparr>ss_rnd := (ss_rnd s)(i := FEV_RANDOM_NEXT (ss_rnd s i))\<rparr>) i (WSteal 0)))
      | WCheckR \<Rightarrow> Some (sgoto s i (WCheckW (ss_run s)))
      | WCheckW r \<Rightarrow> Some (sgoto s i (if r \<ge> of_nat (ss_n s) - ss_waiting s then WGlobal else WDone r))
      | WDone r \<Rightarrow> Some (sgoto s i (if r = 0 \<and> ss_fibers s = 0 then WOut else WXchg))
      | WOut \<Rightarrow> Some (sgoto (fev_sched_wake_all_workers s) i WExit)
      | _ \<Rightarrow> None)"

text \<open>The part of \<open>fev_sched_work\<close> that goes to sleep and wakes up.\<close>

definition fev_sched_sleep_step :: "nat \<Rightarrow> sched_sys \<Rightarrow> sched_sys option" where
  "fev_sched_sleep_step i s =
     (case ss_pc s i of
        WXchg \<Rightarrow> Some (sgoto (s\<lparr>ss_pwait := True\<rparr>) i (WAddW (ss_pwait s)))
      | WAddW pw \<Rightarrow> Some (sgoto (s\<lparr>ss_waiting := ss_waiting s + 1\<rparr>) i (WLoadR pw (ss_waiting s)))
      | WLoadR pw w \<Rightarrow>
          Some (sgoto s i (if ss_run s \<ge> of_nat (ss_n s) - w then WUndoP pw else if \<not> pw then WPoll else WSem))
      | WUndoP pw \<Rightarrow> Some (sgoto (if \<not> pw then s\<lparr>ss_pwait := False\<rparr> else s) i (WSubW WGlobal))
      | WPoll \<Rightarrow> if ss_intr s then Some (sgoto (s\<lparr>ss_intr := False\<rparr>) i WPollStore) else None
      | WPollStore \<Rightarrow> Some (sgoto (s\<lparr>ss_pwait := False\<rparr>) i (WSubW WLocal))
      | WSem \<Rightarrow> if ss_sem s > 0 then Some (sgoto (s\<lparr>ss_sem := ss_sem s - 1\<rparr>) i (WSubW WGlobal)) else None
      | WSubW p \<Rightarrow>
          Some (sgoto (s\<lparr>ss_waiting := ss_waiting s - 1,
                    ss_backoff := (if p = WLocal then (ss_backoff s)(i := ss_size s i) else ss_backoff s)\<rparr>) i p)
      | _ \<Rightarrow> None)"

text \<open>
  What a running fiber does: \<open>fev_fiber_create\<close> in the current scheduler, waking suspended fibers, waiting
  (\<open>fev_waiter_wait\<close>), \<open>fev_yield\<close>, \<open>fev_fiber_exit_post\<close>.
\<close>

datatype sched_event =
    Step nat
  | GiveUp nat \<comment> \<open>a push to a bounded queue gives up\<close>
  | OldSize nat u32 \<comment> \<open>the size of a bounded queue, with a head loaded before other workers stole\<close>
  | Create nat fiber_ptr
  | Wake nat "fiber_ptr list"
  | Wait nat
  | Yield nat
  | Exit nat
  | PollCheck nat "fiber_ptr list" \<comment> \<open>\<open>fev_poller_check\<close> finds fibers to wake\<close>
  | PollWait nat "fiber_ptr list" \<comment> \<open>\<open>fev_poller_wait\<close> ends with an event, with fibers to wake or none\<close>
  | Drain nat \<comment> \<open>\<open>fev_poller_check\<close> takes the edge-triggered event of an interrupt\<close>

definition fiber_step :: "nat \<Rightarrow> sched_sys \<Rightarrow> sched_sys option" where
  "fiber_step i s =
     (case ss_pc s i of
        WParking f \<Rightarrow> Some (sgoto (s\<lparr>ss_parked := add_mset f (ss_parked s)\<rparr>) i WNext)
      | WYield f \<Rightarrow> Some (sgoto s i (WPush RNext [f]))
      | WExiting f \<Rightarrow> Some (sgoto (s\<lparr>ss_fibers := ss_fibers s - 1, ss_all := ss_all s - {#f#}\<rparr>) i WExited)
      | WExited \<Rightarrow> Some (sgoto (s\<lparr>ss_run := ss_run s - 1\<rparr>) i WNext)
      | _ \<Rightarrow> None)"

definition wake_parked :: "nat \<Rightarrow> resume \<Rightarrow> fiber_ptr list \<Rightarrow> sched_sys \<Rightarrow> sched_sys option" where
  "wake_parked i c fs s =
     (if fs \<noteq> [] \<and> mset fs \<subseteq># ss_parked s
      then Some (sgoto (s\<lparr>ss_parked := ss_parked s - mset fs\<rparr>) i (WPush c fs)) else None)"

text \<open>The statement at which a worker is, for its strategy.\<close>

definition steal_worker_step :: "bool \<Rightarrow> nat \<Rightarrow> sched_sys \<Rightarrow> sched_sys option" where
  "steal_worker_step ok i s =
     (case ss_pc s i of
        WPush _ _ \<Rightarrow> if ss_strategy s = StealLocking then fev_wake_step i s else steal_push_step ok i s
      | WPushing _ _ _ \<Rightarrow> steal_push_step ok i s
      | WFall _ _ _ \<Rightarrow> steal_push_step ok i s
      | WAddR _ _ \<Rightarrow> fev_wake_step i s
      | WLoadW _ _ \<Rightarrow> fev_wake_step i s
      | WSlow _ _ _ \<Rightarrow> fev_wake_step i s
      | WFallback \<Rightarrow> steal_move_step ok i s
      | WMove \<Rightarrow> steal_move_step ok i s
      | WMoving _ _ _ \<Rightarrow> steal_move_step ok i s
      | WSteal _ \<Rightarrow> if ss_strategy s = StealLocking then fev_sched_steal_step i s else bounded_steal_step ok i s
      | WStolen _ \<Rightarrow> if ss_strategy s = StealLocking then fev_sched_steal_step i s else bounded_steal_step ok i s
      | WStealing _ _ \<Rightarrow> bounded_steal_step ok i s
      | WStealPush _ _ \<Rightarrow> bounded_steal_step ok i s
      | WStealFall _ _ \<Rightarrow> bounded_steal_step ok i s
      | WXchg \<Rightarrow> fev_sched_sleep_step i s
      | WAddW _ \<Rightarrow> fev_sched_sleep_step i s
      | WLoadR _ _ \<Rightarrow> fev_sched_sleep_step i s
      | WUndoP _ \<Rightarrow> fev_sched_sleep_step i s
      | WPoll \<Rightarrow> fev_sched_sleep_step i s
      | WPollStore \<Rightarrow> fev_sched_sleep_step i s
      | WSem \<Rightarrow> fev_sched_sleep_step i s
      | WSubW _ \<Rightarrow> fev_sched_sleep_step i s
      | WParking _ \<Rightarrow> fiber_step i s
      | WYield _ \<Rightarrow> fiber_step i s
      | WExiting _ \<Rightarrow> fiber_step i s
      | WExited \<Rightarrow> fiber_step i s
      | _ \<Rightarrow> fev_sched_work_step i s)"

fun sched_event_step :: "sched_event \<Rightarrow> sched_sys \<Rightarrow> sched_sys option" where
  "sched_event_step (Step i) s = steal_worker_step True i s"
| "sched_event_step (GiveUp i) s =
     (case ss_pc s i of
        WPushing _ _ _ \<Rightarrow> steal_push_step False i s
      | WMoving _ _ _ \<Rightarrow> steal_move_step False i s
      | WStealPush _ _ \<Rightarrow> bounded_steal_step False i s
      | _ \<Rightarrow> None)"
| "sched_event_step (OldSize i k) s =
     (if ss_pc s i = WBackoff \<and> ss_strategy s \<noteq> StealLocking \<and> ss_size s i + k > 0
      then Some (sgoto (s\<lparr>ss_backoff := (ss_backoff s)(i := ss_size s i + k)\<rparr>) i WLocal)
      else if ss_pc s i = WSubW WLocal \<and> ss_strategy s \<noteq> StealLocking
      then Some (sgoto (s\<lparr>ss_waiting := ss_waiting s - 1, ss_backoff := (ss_backoff s)(i := ss_size s i + k)\<rparr>) i WLocal)
      else None)"
| "sched_event_step (Create i g) s =
     (case ss_pc s i of
        WRunning f \<Rightarrow>
          if g \<notin># ss_all s \<and> size (ss_all s) < 2 ^ 32 - 1
          then Some (sgoto (s\<lparr>ss_fibers := ss_fibers s + 1, ss_all := add_mset g (ss_all s)\<rparr>) i (WPush (RFiber f) [g]))
          else None
      | _ \<Rightarrow> None)"
| "sched_event_step (Wake i fs) s = (case ss_pc s i of WRunning f \<Rightarrow> wake_parked i (RFiber f) fs s | _ \<Rightarrow> None)"
| "sched_event_step (Wait i) s =
     (case ss_pc s i of WRunning f \<Rightarrow> Some (sgoto (s\<lparr>ss_run := ss_run s - 1\<rparr>) i (WParking f)) | _ \<Rightarrow> None)"
| "sched_event_step (Yield i) s =
     (case ss_pc s i of WRunning f \<Rightarrow> Some (sgoto (s\<lparr>ss_run := ss_run s - 1\<rparr>) i (WYield f)) | _ \<Rightarrow> None)"
| "sched_event_step (Exit i) s = (case ss_pc s i of WRunning f \<Rightarrow> Some (sgoto s i (WExiting f)) | _ \<Rightarrow> None)"
| "sched_event_step (PollCheck i fs) s = (if ss_pc s i = WGlobal then wake_parked i RCheck fs s else None)"
| "sched_event_step (PollWait i fs) s =
     (if ss_pc s i = WPoll \<and> fs = [] then Some (sgoto s i WPollStore)
      else if ss_pc s i = WPoll \<or> ss_pc s i = WPollStore then wake_parked i RPoll fs s else None)"
| "sched_event_step (Drain i) s =
     (if ss_pc s i = WGlobal \<and> ss_intr s then Some (s\<lparr>ss_intr := False\<rparr>) else None)"

fun event_worker :: "sched_event \<Rightarrow> nat" where
  "event_worker (Step i) = i"
| "event_worker (GiveUp i) = i"
| "event_worker (OldSize i _) = i"
| "event_worker (Create i _) = i"
| "event_worker (Wake i _) = i"
| "event_worker (Wait i) = i"
| "event_worker (Yield i) = i"
| "event_worker (Exit i) = i"
| "event_worker (PollCheck i _) = i"
| "event_worker (PollWait i _) = i"
| "event_worker (Drain i) = i"

definition sched_step :: "sched_event \<Rightarrow> sched_sys \<Rightarrow> sched_sys option" where
  "sched_step e s = (if event_worker e < ss_n s then sched_event_step e s else None)"

text \<open>
  \<open>fev_sched_init\<close> and, for each fiber created before \<open>fev_sched_run\<close>, \<open>fev_sched_put\<close>.
\<close>

definition sched_sys_init :: "steal_strategy \<Rightarrow> nat \<Rightarrow> nat \<Rightarrow> (nat \<Rightarrow> u32) \<Rightarrow> sched_sys" where
  "sched_sys_init strategy n steal_count rnd =
     \<lparr>ss_n = n, ss_strategy = strategy, ss_count = steal_count, ss_fallback = [], ss_flen = 0, ss_flock = False,
      ss_queue = (\<lambda>_. []), ss_size = (\<lambda>_. 0), ss_backoff = (\<lambda>_. 0), ss_rnd = rnd,
      ss_waiting = 0, ss_pwait = False, ss_run = 0, ss_fibers = 0, ss_sem = 0, ss_intr = False,
      ss_pc = (\<lambda>_. WLocal), ss_fault = False, ss_parked = {#}, ss_all = {#}\<rparr>"

definition fev_sched_put :: "fiber_ptr \<Rightarrow> sched_sys \<Rightarrow> sched_sys" where
  "fev_sched_put f s =
     (let s1 = sassert (ss_n s > 0) s;
          s2 = (if ss_strategy s = StealLocking then fev_push_one 0 f s1
                else if steal_room (ss_strategy s) (length (ss_queue s 0)) then bounded_push 0 f s1
                else steal_push_fallback [f] s1)
      in s2\<lparr>ss_run := ss_run s + 1, ss_fibers := ss_fibers s + 1, ss_all := add_mset f (ss_all s)\<rparr>)"

definition sched_start :: "steal_strategy \<Rightarrow> nat \<Rightarrow> nat \<Rightarrow> (nat \<Rightarrow> u32) \<Rightarrow> fiber_ptr list \<Rightarrow> sched_sys" where
  "sched_start strategy n steal_count rnd fibers = fold fev_sched_put fibers (sched_sys_init strategy n steal_count rnd)"

section \<open>The invariant\<close>

text \<open>
  What a worker contributes: to the fibers that exist, those it has in its hands; to \<open>num_run_fibers\<close>, those
  of them that are counted, and those it pushed but has not counted yet; to \<open>num_waiting\<close>.
\<close>

fun resume_fibers :: "resume \<Rightarrow> fiber_ptr multiset" where
  "resume_fibers (RFiber f) = {#f#}"
| "resume_fibers _ = {#}"

fun carried :: "worker_pc \<Rightarrow> fiber_ptr multiset" where
  "carried (WRunning f) = {#f#}"
| "carried (WMoving fs k len) = mset fs"
| "carried (WStealing r fs) = mset fs"
| "carried (WStolen fs) = mset fs"
| "carried (WStealPush m fs) = mset fs"
| "carried (WStealFall m fs) = mset fs"
| "carried (WPushing c m fs) = resume_fibers c + mset fs"
| "carried (WFall c m fs) = resume_fibers c + mset fs"
| "carried (WPush c fs) = resume_fibers c + mset fs"
| "carried (WAddR c k) = resume_fibers c"
| "carried (WLoadW c k) = resume_fibers c"
| "carried (WSlow c w k) = resume_fibers c"
| "carried (WParking f) = {#f#}"
| "carried (WYield f) = {#f#}"
| "carried (WExiting f) = {#f#}"
| "carried _ = {#}"

fun counted :: "worker_pc \<Rightarrow> u32" where
  "counted (WPush c fs) = of_nat (size (resume_fibers c))"
| "counted (WPushing c m fs) = of_nat (size (resume_fibers c))"
| "counted (WFall c m fs) = of_nat (size (resume_fibers c))"
| "counted (WParking f) = 0"
| "counted (WYield f) = 0"
| "counted WExited = 1"
| "counted p = of_nat (size (carried p))"

fun uncounted :: "worker_pc \<Rightarrow> u32" where
  "uncounted (WAddR c k) = k"
| "uncounted (WPushing c m fs) = m - of_nat (length fs)"
| "uncounted (WFall c m fs) = m - of_nat (length fs)"
| "uncounted _ = 0"

fun waiting_pc :: "worker_pc \<Rightarrow> bool" where
  "waiting_pc (WLoadR _ _) = True"
| "waiting_pc (WUndoP _) = True"
| "waiting_pc WPoll = True"
| "waiting_pc WPollStore = True"
| "waiting_pc WSem = True"
| "waiting_pc (WSubW _) = True"
| "waiting_pc (WPush c _) = (c = RPoll)"
| "waiting_pc (WPushing c _ _) = (c = RPoll)"
| "waiting_pc (WFall c _ _) = (c = RPoll)"
| "waiting_pc (WAddR c _) = (c = RPoll)"
| "waiting_pc (WLoadW c _) = (c = RPoll)"
| "waiting_pc (WSlow c _ _) = (c = RPoll)"
| "waiting_pc _ = False"

definition waits :: "worker_pc \<Rightarrow> u32" where
  "waits p = (if waiting_pc p then 1 else 0)"

definition qlen :: "fiber_ptr list \<Rightarrow> u32" where
  "qlen q = of_nat (length q)"

definition sched_counts :: "sched_sys \<Rightarrow> bool" where
  "sched_counts s \<longleftrightarrow>
     ss_waiting s = wsum (ss_n s) waits (ss_pc s) \<and>
     ss_run s + wsum (ss_n s) uncounted (ss_pc s) =
       wsum (ss_n s) qlen (ss_queue s) + qlen (ss_fallback s) + wsum (ss_n s) counted (ss_pc s) \<and>
     ss_all s = ss_parked s + wsum (ss_n s) mset (ss_queue s) + mset (ss_fallback s) + wsum (ss_n s) carried (ss_pc s)"

definition sched_fibers :: "sched_sys \<Rightarrow> bool" where
  "sched_fibers s \<longleftrightarrow>
     ss_fibers s = of_nat (size (ss_all s)) \<and> size (ss_all s) < 2 ^ 32 \<and> (\<forall>f. count (ss_all s) f \<le> 1)"

text \<open>What a worker knows at a point of the code, with its own queue.\<close>

fun pc_ok :: "fiber_ptr list \<Rightarrow> worker_pc \<Rightarrow> bool" where
  "pc_ok q (WSteal _) = (q = [])"
| "pc_ok q (WStealing _ _) = (q = [])"
| "pc_ok q (WStolen fs) = (q = [] \<and> fs \<noteq> [])"
| "pc_ok q (WStealFall m fs) = (fs \<noteq> [])"
| "pc_ok q (WFall c m fs) = (fs \<noteq> [])"
| "pc_ok q (WPush c fs) = (fs \<noteq> [])"
| "pc_ok q (WSubW p) = (p = WLocal \<or> p = WGlobal)"
| "pc_ok q _ = True"

definition sched_local :: "sched_sys \<Rightarrow> bool" where
  "sched_local s \<longleftrightarrow>
     0 < ss_n s \<and> ss_n s < 2 ^ 32 \<and> \<not> ss_fault s \<and>
     (\<forall>i. ss_size s i = qlen (ss_queue s i)) \<and> (\<forall>i. pc_ok (ss_queue s i) (ss_pc s i))"

text \<open>
  The fallback queue: its lock is held by the one worker that moves fibers from it, and its recorded length is right
  when the lock is free. What a worker steals fits into an empty bounded queue.
\<close>

fun moving :: "worker_pc \<Rightarrow> bool" where
  "moving (WMoving _ _ _) = True"
| "moving _ = False"

fun moving_ok :: "u32 \<Rightarrow> worker_pc \<Rightarrow> bool" where
  "moving_ok flen (WMoving fs n len) = (len = flen \<and> unat len = unat n + length fs)"
| "moving_ok flen _ = True"

fun stolen :: "worker_pc \<Rightarrow> nat" where
  "stolen (WStealing _ fs) = length fs"
| "stolen (WStolen fs) = length fs"
| "stolen _ = 0"

fun strategy_ok :: "steal_strategy \<Rightarrow> nat \<Rightarrow> bool" where
  "strategy_ok StealLocking steal_count = True"
| "strategy_ok (StealSpmc c) steal_count = (steal_count < c)"
| "strategy_ok (StealMpmc c) steal_count = (steal_count < c)"

definition sched_fallback :: "sched_sys \<Rightarrow> bool" where
  "sched_fallback s \<longleftrightarrow>
     (\<forall>i j. moving (ss_pc s i) \<longrightarrow> moving (ss_pc s j) \<longrightarrow> i = j) \<and> (ss_flock s \<longleftrightarrow> (\<exists>i < ss_n s. moving (ss_pc s i))) \<and>
     (\<forall>i. moving (ss_pc s i) \<longrightarrow> i < ss_n s) \<and>
     (ss_flock s \<longrightarrow> ss_fallback s = []) \<and> (\<not> ss_flock s \<longrightarrow> ss_flen s = qlen (ss_fallback s)) \<and>
     (\<forall>i. moving_ok (ss_flen s) (ss_pc s i)) \<and> (\<forall>i. stolen (ss_pc s i) \<le> ss_count s) \<and> strategy_ok (ss_strategy s) (ss_count s)"

text \<open>
  A worker that sleeps, or is about to find that it is not the last one to go to sleep. When all workers
  are in this state, nothing is runnable.
\<close>

fun dormant :: "nat \<Rightarrow> worker_pc \<Rightarrow> bool" where
  "dormant n WPoll = True"
| "dormant n WSem = True"
| "dormant n (WLoadR pw w) = (w \<noteq> of_nat n - 1)"
| "dormant n _ = False"

definition sched_sleep_ok :: "sched_sys \<Rightarrow> bool" where
  "sched_sleep_ok s \<longleftrightarrow> ((\<forall>i < ss_n s. dormant (ss_n s) (ss_pc s i)) \<longrightarrow> ss_run s = 0)"

definition left_loop :: "worker_pc \<Rightarrow> bool" where
  "left_loop p \<longleftrightarrow> p = WOut \<or> p = WExit"

definition sched_done_ok :: "sched_sys \<Rightarrow> bool" where
  "sched_done_ok s \<longleftrightarrow> (\<forall>i < ss_n s. left_loop (ss_pc s i) \<longrightarrow> ss_all s = {#})"

definition sched_inv :: "sched_sys \<Rightarrow> bool" where
  "sched_inv s \<longleftrightarrow> sched_counts s \<and> sched_fibers s \<and> sched_local s \<and> sched_fallback s \<and> sched_sleep_ok s \<and> sched_done_ok s"

lemma sgoto_simps [simp]:
  "ss_n (sgoto s i p) = ss_n s" "ss_count (sgoto s i p) = ss_count s" "ss_queue (sgoto s i p) = ss_queue s"
  "ss_size (sgoto s i p) = ss_size s" "ss_backoff (sgoto s i p) = ss_backoff s" "ss_rnd (sgoto s i p) = ss_rnd s"
  "ss_waiting (sgoto s i p) = ss_waiting s" "ss_pwait (sgoto s i p) = ss_pwait s" "ss_run (sgoto s i p) = ss_run s"
  "ss_fibers (sgoto s i p) = ss_fibers s" "ss_sem (sgoto s i p) = ss_sem s" "ss_intr (sgoto s i p) = ss_intr s"
  "ss_pc (sgoto s i p) = (ss_pc s)(i := p)" "ss_fault (sgoto s i p) = ss_fault s" "ss_parked (sgoto s i p) = ss_parked s"
  "ss_all (sgoto s i p) = ss_all s" "ss_strategy (sgoto s i p) = ss_strategy s" "ss_fallback (sgoto s i p) = ss_fallback s"
  "ss_flen (sgoto s i p) = ss_flen s" "ss_flock (sgoto s i p) = ss_flock s"
  by (simp_all add: sgoto_def)

lemma sassert_simps [simp]:
  "ss_n (sassert b s) = ss_n s" "ss_count (sassert b s) = ss_count s" "ss_queue (sassert b s) = ss_queue s"
  "ss_size (sassert b s) = ss_size s" "ss_backoff (sassert b s) = ss_backoff s" "ss_rnd (sassert b s) = ss_rnd s"
  "ss_waiting (sassert b s) = ss_waiting s" "ss_pwait (sassert b s) = ss_pwait s" "ss_run (sassert b s) = ss_run s"
  "ss_fibers (sassert b s) = ss_fibers s" "ss_sem (sassert b s) = ss_sem s" "ss_intr (sassert b s) = ss_intr s"
  "ss_pc (sassert b s) = ss_pc s" "ss_fault (sassert b s) = (ss_fault s \<or> \<not> b)" "ss_parked (sassert b s) = ss_parked s"
  "ss_all (sassert b s) = ss_all s" "ss_strategy (sassert b s) = ss_strategy s" "ss_fallback (sassert b s) = ss_fallback s"
  "ss_flen (sassert b s) = ss_flen s" "ss_flock (sassert b s) = ss_flock s"
  by (simp_all add: sassert_def)

lemma qlen_simps [simp]: "qlen [] = 0" "qlen (x # xs) = 1 + qlen xs" "qlen (xs @ ys) = qlen xs + qlen ys"
  by (simp_all add: qlen_def)

lemma waits_simps [simp]: "waiting_pc p \<Longrightarrow> waits p = 1" "\<not> waiting_pc p \<Longrightarrow> waits p = 0"
  by (simp_all add: waits_def)

lemma resume_at_contrib [simp]:
  "carried (resume_at c) = resume_fibers c" "counted (resume_at c) = of_nat (size (resume_fibers c))"
  "uncounted (resume_at c) = 0" "waiting_pc (resume_at c) = (c = RPoll)"
  by (cases c; simp)+

lemma bounded_push_stq: "bounded_push i f s = fev_push_stq i [f] s"
  by (cases s) (simp add: bounded_push_def fev_push_stq_def sassert_def)

text \<open>Pushing one fiber is pushing a list of one.\<close>

lemma fev_push_one_stq: "fev_push_one i f s = fev_push_stq i [f] s"
  by (cases s) (simp add: fev_push_one_def fev_push_stq_def sassert_def)

lemma fev_wake_step_eq:
  "fev_wake_step i s =
     (case ss_pc s i of
        WPush c fibers \<Rightarrow> Some (sgoto (fev_push_stq i fibers s) i (WAddR c (of_nat (length fibers))))
      | WAddR c k \<Rightarrow> Some (sgoto (s\<lparr>ss_run := ss_run s + k\<rparr>) i (WLoadW c k))
      | WLoadW c k \<Rightarrow> Some (sgoto s i (if ss_waiting s = 0 then resume_at c else WSlow c (ss_waiting s) k))
      | WSlow c w k \<Rightarrow>
          (let (intr, posts) = fev_wake_workers_slow (ss_pwait s) w k
           in Some (sgoto (s\<lparr>ss_intr := ss_intr s \<or> intr, ss_sem := ss_sem s + unat posts\<rparr>) i (resume_at c)))
      | _ \<Rightarrow> None)"
  unfolding fev_wake_step_def by (auto simp: fev_push_one_stq split: worker_pc.split list.split)

lemma wake_all_simps [simp]:
  "ss_n (fev_sched_wake_all_workers s) = ss_n s" "ss_queue (fev_sched_wake_all_workers s) = ss_queue s"
  "ss_size (fev_sched_wake_all_workers s) = ss_size s" "ss_waiting (fev_sched_wake_all_workers s) = ss_waiting s"
  "ss_run (fev_sched_wake_all_workers s) = ss_run s" "ss_fibers (fev_sched_wake_all_workers s) = ss_fibers s"
  "ss_pc (fev_sched_wake_all_workers s) = ss_pc s" "ss_fault (fev_sched_wake_all_workers s) = ss_fault s"
  "ss_parked (fev_sched_wake_all_workers s) = ss_parked s" "ss_all (fev_sched_wake_all_workers s) = ss_all s"
  "ss_strategy (fev_sched_wake_all_workers s) = ss_strategy s" "ss_count (fev_sched_wake_all_workers s) = ss_count s"
  "ss_fallback (fev_sched_wake_all_workers s) = ss_fallback s" "ss_flen (fev_sched_wake_all_workers s) = ss_flen s"
  "ss_flock (fev_sched_wake_all_workers s) = ss_flock s"
  "ss_intr (fev_sched_wake_all_workers s)" "ss_sem (fev_sched_wake_all_workers s) = ss_sem s + ss_n s"
  by (simp_all add: fev_sched_wake_all_workers_def)

lemma counts_wake:
  assumes i: "i < ss_n s" and c: "sched_counts s" and step: "fev_wake_step i s = Some s'"
  shows "sched_counts s'"
  using c step
  by (cases "ss_pc s i")
     (auto simp: sched_counts_def fev_wake_step_eq fev_push_stq_def wsum_upd [OF i] wsum_split [OF i] Let_def waits_def
        algebra_simps qlen_def split: prod.splits)

lemma counts_steal:
  assumes i: "i < ss_n s" and n: "ss_n s < 2 ^ 32" and l: "pc_ok (ss_queue s i) (ss_pc s i)"
    and c: "sched_counts s" and step: "fev_sched_steal_step i s = Some s'"
  shows "sched_counts s'"
proof (cases "ss_pc s i")
  case (WSteal r)
  define v where "v = victim (ss_rnd s i) (ss_n s) r"
  have v: "v < ss_n s" unfolding v_def by (rule victim_range) (use i n in auto)
  have q: "mset (ss_queue s v) = mset (take (ss_count s) (ss_queue s v)) + mset (drop (ss_count s) (ss_queue s v))"
      "qlen (ss_queue s v) = qlen (take (ss_count s) (ss_queue s v)) + qlen (drop (ss_count s) (ss_queue s v))"
    by (metis append_take_drop_id mset_append, metis append_take_drop_id qlen_simps(3))
  show ?thesis
    using c step WSteal q
    by (auto simp: sched_counts_def fev_sched_steal_step_def v_def [symmetric] wsum_upd [OF i] wsum_split [OF i, of _ "ss_pc s"]
        wsum_upd [OF v] wsum_split [OF v, of _ "ss_queue s"] Let_def waits_def algebra_simps qlen_def split: if_splits)
next
  case (WStolen fs)
  then show ?thesis using c step l
    by (auto simp: sched_counts_def fev_sched_steal_step_def wsum_upd [OF i] wsum_split [OF i] Let_def waits_def algebra_simps qlen_def)
qed (use step in \<open>simp_all add: fev_sched_steal_step_def\<close>)

lemma counts_work:
  assumes i: "i < ss_n s" and c: "sched_counts s" and step: "fev_sched_work_step i s = Some s'"
  shows "sched_counts s'"
  using c step
  by (cases "ss_pc s i"; cases "ss_queue s i")
     (auto simp: sched_counts_def fev_sched_work_step_def wsum_upd [OF i] wsum_split [OF i] Let_def waits_def algebra_simps
        split: if_splits)

lemma counts_sleep:
  assumes i: "i < ss_n s" and l: "pc_ok (ss_queue s i) (ss_pc s i)" and c: "sched_counts s" and step: "fev_sched_sleep_step i s = Some s'"
  shows "sched_counts s'"
  using c step l
  by (cases "ss_pc s i")
     (auto simp: sched_counts_def fev_sched_sleep_step_def wsum_upd [OF i] wsum_split [OF i] Let_def waits_def algebra_simps
        split: if_splits)

lemma counts_fiber:
  assumes i: "i < ss_n s" and c: "sched_counts s" and step: "fiber_step i s = Some s'"
  shows "sched_counts s'"
  using c step
  by (cases "ss_pc s i")
     (auto simp: sched_counts_def fiber_step_def wsum_upd [OF i] wsum_split [OF i] Let_def waits_def algebra_simps)

lemma counts_push:
  assumes i: "i < ss_n s" and c: "sched_counts s" and step: "steal_push_step ok i s = Some s'"
  shows "sched_counts s'"
proof (cases "ss_pc s i")
  case (WPushing c m fs)
  then show ?thesis using assms
    by (cases fs)
       (auto simp: sched_counts_def steal_push_step_def bounded_push_def wsum_upd [OF i] wsum_split [OF i] waits_def
          algebra_simps qlen_def split: if_splits)
qed (use assms in \<open>auto simp: sched_counts_def steal_push_step_def steal_push_fallback_def wsum_upd [OF i] wsum_split [OF i]
        waits_def algebra_simps qlen_def split: if_splits\<close>)

lemma counts_move:
  assumes i: "i < ss_n s" and c: "sched_counts s" and l: "sched_fallback s" and step: "steal_move_step ok i s = Some s'"
  shows "sched_counts s'"
proof (cases "ss_pc s i")
  case (WMoving fs n len)
  then have "ss_fallback s = []" using l i unfolding sched_fallback_def by (metis moving.simps(1))
  then show ?thesis using assms WMoving
    by (cases fs)
       (auto simp: sched_counts_def steal_move_step_def bounded_push_def wsum_upd [OF i] wsum_split [OF i] waits_def
          algebra_simps qlen_def split: if_splits)
qed (use assms in \<open>auto simp: sched_counts_def steal_move_step_def wsum_upd [OF i] wsum_split [OF i] waits_def algebra_simps
        qlen_def split: if_splits\<close>)

lemma counts_bounded_steal:
  assumes i: "i < ss_n s" and n: "ss_n s < 2 ^ 32" and l: "pc_ok (ss_queue s i) (ss_pc s i)" "stolen (ss_pc s i) \<le> ss_count s"
      "strategy_ok (ss_strategy s) (ss_count s)"
    and c: "sched_counts s" and step: "bounded_steal_step ok i s = Some s'"
  shows "sched_counts s'"
proof (cases "ss_pc s i")
  case (WStealing r fs)
  define v where "v = victim (ss_rnd s i) (ss_n s) r"
  have v: "v < ss_n s" unfolding v_def by (rule victim_range) (use i n in auto)
  show ?thesis
  proof (cases "if length fs < ss_count s then ss_queue s v else []")
    case Nil
    then show ?thesis using c step WStealing
      by (auto simp: sched_counts_def bounded_steal_step_def v_def [symmetric] wsum_upd [OF i] wsum_split [OF i] Let_def waits_def)
  next
    case (Cons f q)
    then have q: "ss_queue s v = f # q" "length fs < ss_count s" by (auto split: if_splits)
    then show ?thesis using c step WStealing
      by (auto simp: sched_counts_def bounded_steal_step_def v_def [symmetric] wsum_upd [OF i] wsum_split [OF i, of _ "ss_pc s"]
          wsum_upd [OF v] wsum_split [OF v, of _ "ss_queue s"] Let_def waits_def algebra_simps)
  qed
next
  case (WStolen fs)
  then show ?thesis using c step l
    by (cases "ss_strategy s")
       (auto simp: sched_counts_def bounded_steal_step_def wsum_upd [OF i] wsum_split [OF i] Let_def waits_def algebra_simps qlen_def)
next
  case (WStealPush m fs)
  then show ?thesis using assms
    by (cases fs)
       (auto simp: sched_counts_def bounded_steal_step_def bounded_push_def wsum_upd [OF i] wsum_split [OF i] waits_def
          algebra_simps qlen_def split: if_splits)
qed (use step c in \<open>auto simp: sched_counts_def bounded_steal_step_def steal_push_fallback_def wsum_upd [OF i] wsum_split [OF i]
        waits_def algebra_simps qlen_def split: if_splits\<close>)

text \<open>Queues are shorter than the range of their sizes.\<close>

lemma carried_in_all:
  assumes "sched_counts s" "i < ss_n s"
  shows "carried (ss_pc s i) \<subseteq># ss_all s" "mset (ss_queue s i) \<subseteq># ss_all s" "mset (ss_fallback s) \<subseteq># ss_all s"
  using assms by (auto simp: sched_counts_def wsum_split [OF assms(2)] ac_simps)

lemma queue_len:
  assumes "sched_counts s" "sched_fibers s" "i < ss_n s"
  shows "length (ss_queue s i) < 2 ^ 32"
  using size_mset_mono [OF carried_in_all(2) [OF assms(1,3)]] assms(2) by (simp add: sched_fibers_def)

lemma qlen_less: "length q < 2 ^ 32 \<Longrightarrow> unat (qlen q) = length q"
  by (simp add: qlen_def unat_of_nat)

lemma qlen_zero: "length q < 2 ^ 32 \<Longrightarrow> qlen q = 0 \<longleftrightarrow> q = []"
  unfolding unat_eq_zero [symmetric] by (simp add: qlen_less)

lemma qlen_pos: "length q < 2 ^ 32 \<Longrightarrow> q \<noteq> [] \<Longrightarrow> qlen q > 0"
  by (simp add: word_less_nat_alt qlen_less)

lemma qlen_take_le: "length q < 2 ^ 32 \<Longrightarrow> of_nat (length (take k q)) \<le> qlen q"
  by (simp add: word_le_nat_alt qlen_less unat_of_nat)

lemma resume_at_ok [simp]: "pc_ok q (resume_at c)"
  by (cases c) simp_all

lemma local_wake:
  assumes l: "sched_local s" and step: "fev_wake_step i s = Some s'"
  shows "sched_local s'"
proof -
  have "pc_ok (ss_queue s i) (ss_pc s i)" using l by (simp add: sched_local_def)
  then show ?thesis using l step
    by (cases "ss_pc s i") (auto simp: sched_local_def fev_wake_step_eq fev_push_stq_def qlen_def split: prod.splits)
qed

lemma local_steal:
  assumes i: "i < ss_n s" and inv: "sched_counts s" "sched_fibers s" "sched_local s" and step: "fev_sched_steal_step i s = Some s'"
  shows "sched_local s'"
proof (cases "ss_pc s i")
  case (WSteal r)
  define v where "v = victim (ss_rnd s i) (ss_n s) r"
  have v: "v < ss_n s" unfolding v_def by (rule victim_range) (use i inv(3) in \<open>auto simp: sched_local_def\<close>)
  have "qlen (ss_queue s v) = qlen (take (ss_count s) (ss_queue s v)) + qlen (drop (ss_count s) (ss_queue s v))"
    by (metis append_take_drop_id qlen_simps(3))
  then have sz: "ss_size s v - of_nat (length (take (ss_count s) (ss_queue s v))) = qlen (drop (ss_count s) (ss_queue s v))"
    using inv(3) by (simp only: sched_local_def qlen_def [symmetric] add_diff_cancel_left')
  have le: "of_nat (length (take (ss_count s) (ss_queue s v))) \<le> ss_size s v"
    using qlen_take_le [OF queue_len [OF inv(1,2) v]] inv(3) by (simp add: sched_local_def)
  have vok: "pc_ok (drop (ss_count s) (ss_queue s v)) (ss_pc s v)"
  proof -
    have "pc_ok (ss_queue s v) (ss_pc s v)" using inv(3) by (simp add: sched_local_def)
    then show ?thesis by (cases "ss_pc s v") auto
  qed
  have ok: "pc_ok (ss_queue s i) (ss_pc s i)" using inv(3) by (simp add: sched_local_def)
  show ?thesis using inv(3) step WSteal ok vok le sz
    by (auto simp: sched_local_def fev_sched_steal_step_def v_def [symmetric] Let_def split: if_splits)
next
  case (WStolen fs)
  have "pc_ok (ss_queue s i) (ss_pc s i)" using inv(3) by (simp add: sched_local_def)
  then show ?thesis using inv(3) step WStolen by (auto simp: sched_local_def fev_sched_steal_step_def Let_def qlen_def)
qed (use step in \<open>simp_all add: fev_sched_steal_step_def\<close>)

lemma local_work:
  assumes i: "i < ss_n s" and inv: "sched_counts s" "sched_fibers s" "sched_local s" and step: "fev_sched_work_step i s = Some s'"
  shows "sched_local s'"
proof -
  note len = queue_len [OF inv(1,2) i]
  have sz: "ss_size s i = qlen (ss_queue s i)" using inv(3) by (simp add: sched_local_def)
  have "ss_size s i > 0 \<longleftrightarrow> ss_queue s i \<noteq> []"
    unfolding sz using qlen_pos [OF len] qlen_zero [OF len] by auto
  then show ?thesis using inv(3) step sz
    by (cases "ss_pc s i"; cases "ss_queue s i") (auto simp: sched_local_def fev_sched_work_step_def Let_def split: if_splits)
qed

lemma local_sleep:
  assumes l: "sched_local s" and step: "fev_sched_sleep_step i s = Some s'"
  shows "sched_local s'"
proof -
  have "pc_ok (ss_queue s i) (ss_pc s i)" using l by (simp add: sched_local_def)
  then show ?thesis using l step
    by (cases "ss_pc s i") (auto simp: sched_local_def fev_sched_sleep_step_def split: if_splits)
qed

lemma local_fiber: "sched_local s \<Longrightarrow> fiber_step i s = Some s' \<Longrightarrow> sched_local s'"
  by (cases "ss_pc s i") (auto simp: sched_local_def fiber_step_def)

lemma local_push:
  assumes l: "sched_local s" and step: "steal_push_step ok i s = Some s'"
  shows "sched_local s'"
proof -
  have "pc_ok (ss_queue s i) (ss_pc s i)" using l by (simp add: sched_local_def)
  then show ?thesis using l step
    by (cases "ss_pc s i")
       (auto simp: sched_local_def steal_push_step_def bounded_push_def steal_push_fallback_def split: if_splits list.splits)
qed

lemma moving_counts:
  assumes "moving_ok flen (WMoving fs n len)"
  shows "fs = [] \<Longrightarrow> n = len" "fs \<noteq> [] \<Longrightarrow> n \<noteq> len \<and> n \<le> len" "len - n = qlen fs"
    "fs = f # fs' \<Longrightarrow> moving_ok flen (WMoving fs' (n + 1) len)"
proof -
  have u: "unat len = unat n + length fs" "len = flen" using assms by auto
  show "fs = [] \<Longrightarrow> n = len" "fs \<noteq> [] \<Longrightarrow> n \<noteq> len \<and> n \<le> len" using u by (auto simp: word_unat_eq_iff word_le_nat_alt)
  have "len = of_nat (unat n + length fs)" using u(1) by (metis of_nat_unat ucast_id)
  then show "len - n = qlen fs" by (simp add: qlen_def)
  show "moving_ok flen (WMoving fs' (n + 1) len)" if "fs = f # fs'"
    using u that unsigned_less [of len, where ?'a = nat] by (simp add: unat_word_ariths)
qed

lemma local_move:
  assumes l: "sched_local s" "sched_fallback s" and step: "steal_move_step ok i s = Some s'"
  shows "sched_local s'"
proof (cases "ss_pc s i")
  case (WMoving fs n len)
  have "moving_ok (ss_flen s) (WMoving fs n len)" using l(2) WMoving unfolding sched_fallback_def by metis
  note m = moving_counts [OF this]
  show ?thesis using l(1) step WMoving m(1,2)
    by (cases fs) (auto simp: sched_local_def steal_move_step_def bounded_push_def split: if_splits)
qed (use l step in \<open>auto simp: sched_local_def steal_move_step_def split: if_splits\<close>)

lemma local_bounded_steal:
  assumes i: "i < ss_n s" and inv: "sched_local s" "sched_fallback s" and step: "bounded_steal_step ok i s = Some s'"
  shows "sched_local s'"
proof -
  have ok: "pc_ok (ss_queue s j) (ss_pc s j)" "ss_size s j = qlen (ss_queue s j)" for j using inv(1) by (simp_all add: sched_local_def)
  have fb: "stolen (ss_pc s i) \<le> ss_count s" "strategy_ok (ss_strategy s) (ss_count s)" using inv(2) by (simp_all add: sched_fallback_def)
  show ?thesis
  proof (cases "ss_pc s i")
    case (WStealing r fs)
    define v where "v = victim (ss_rnd s i) (ss_n s) r"
    show ?thesis
    proof (cases "if length fs < ss_count s then ss_queue s v else []")
      case Nil
      then show ?thesis using inv(1) step WStealing ok(1) [of i]
        by (auto simp: sched_local_def bounded_steal_step_def v_def [symmetric] Let_def)
    next
      case (Cons f q)
      then have q: "ss_queue s v = f # q" by (auto split: if_splits)
      have "pc_ok q (ss_pc s v)" using ok(1) [of v] q by (cases "ss_pc s v") auto
      then show ?thesis using inv(1) step WStealing Cons q ok(2) [of v] ok(1) [of i]
        by (auto simp: sched_local_def bounded_steal_step_def v_def [symmetric] Let_def)
    qed
  next
    case (WStolen fs)
    then show ?thesis using inv(1) step ok [of i] fb
      by (cases "ss_strategy s") (auto simp: sched_local_def bounded_steal_step_def Let_def qlen_def)
  next
    case (WStealPush m fs)
    then show ?thesis using inv(1) step by (cases fs) (auto simp: sched_local_def bounded_steal_step_def bounded_push_def split: if_splits)
  qed (use inv(1) step ok [of i] in \<open>auto simp: sched_local_def bounded_steal_step_def steal_push_fallback_def split: if_splits\<close>)
qed

lemma fibers_exiting:
  assumes "i < ss_n s" "sched_counts s" "sched_fibers s" "fiber_step i s = Some s'"
  shows "sched_fibers s'"
proof (cases "ss_pc s i")
  case (WExiting f)
  then have f: "f \<in># ss_all s" using carried_in_all(1) [OF assms(2,1)] by simp
  then have "size (ss_all s - {#f#}) = size (ss_all s) - 1" "size (ss_all s) > 0"
    using size_Diff_singleton [OF f] multi_member_split [OF f] by auto
  moreover have "\<forall>g. count (ss_all s - {#f#}) g \<le> 1"
    using assms(3) unfolding sched_fibers_def by (meson diff_subset_eq_self le_trans mset_subset_eq_count)
  moreover have "s' = sgoto (s\<lparr>ss_fibers := ss_fibers s - 1, ss_all := ss_all s - {#f#}\<rparr>) i WExited"
    using assms(4) WExiting by (simp add: fiber_step_def)
  moreover have "size (ss_all s) - 1 < 2 ^ 32" using assms(3) unfolding sched_fibers_def by linarith
  ultimately show ?thesis using assms(3) by (simp add: sched_fibers_def of_nat_diff)
qed (use assms in \<open>auto simp: fiber_step_def sched_fibers_def\<close>)

text \<open>
  A step that moves one worker, not into sleep and not out of the loop, and creates no fiber.
\<close>

definition quiet_move :: "nat \<Rightarrow> sched_sys \<Rightarrow> sched_sys \<Rightarrow> bool" where
  "quiet_move i s s' \<longleftrightarrow>
     ss_pc s' = (ss_pc s)(i := ss_pc s' i) \<and> \<not> dormant (ss_n s) (ss_pc s' i) \<and>
     (left_loop (ss_pc s' i) \<longrightarrow> left_loop (ss_pc s i)) \<and>
     ss_n s' = ss_n s \<and> ss_all s' \<subseteq># ss_all s"

lemma quiet_move_inv:
  assumes "quiet_move i s s'" "i < ss_n s" "sched_done_ok s"
  shows "sched_sleep_ok s'" "sched_done_ok s'"
proof -
  have p: "ss_pc s' = (ss_pc s)(i := ss_pc s' i)" "\<not> dormant (ss_n s) (ss_pc s' i)"
      "left_loop (ss_pc s' i) \<longrightarrow> left_loop (ss_pc s i)" "ss_n s' = ss_n s" "ss_all s' \<subseteq># ss_all s"
    using assms(1) by (simp_all add: quiet_move_def)
  show "sched_sleep_ok s'" using p(2,4) assms(2) by (auto simp: sched_sleep_ok_def)
  have "left_loop (ss_pc s' j) \<Longrightarrow> left_loop (ss_pc s j)" for j
    using p(3) fun_cong [OF p(1), of j] by (cases "j = i") auto
  then show "sched_done_ok s'" using assms(3) p(4,5) by (auto simp: sched_done_ok_def)
qed

lemma resume_at_awake [simp]: "\<not> dormant n (resume_at c)" "resume_at c \<noteq> WOut" "resume_at c \<noteq> WExit"
  by (cases c; simp)+

lemma quiet_wake: "fev_wake_step i s = Some s' \<Longrightarrow> quiet_move i s s'"
  by (cases "ss_pc s i")
     (auto simp: quiet_move_def fev_wake_step_eq fev_push_stq_def left_loop_def split: prod.splits if_splits)

lemma quiet_steal: "fev_sched_steal_step i s = Some s' \<Longrightarrow> quiet_move i s s'"
  by (cases "ss_pc s i")
     (auto simp: quiet_move_def fev_sched_steal_step_def left_loop_def Let_def split: if_splits)

lemma quiet_fiber: "fiber_step i s = Some s' \<Longrightarrow> quiet_move i s s'"
  by (cases "ss_pc s i") (auto simp: quiet_move_def fiber_step_def left_loop_def)

lemma quiet_work:
  assumes "fev_sched_work_step i s = Some s'"
  shows "quiet_move i s s' \<or> s' = sgoto s i WOut \<and> ss_fibers s = 0"
  using assms by (cases "ss_pc s i"; cases "ss_queue s i")
     (auto simp: quiet_move_def fev_sched_work_step_def left_loop_def Let_def split: if_splits)

lemma quiet_sleep:
  assumes "fev_sched_sleep_step i s = Some s'" "pc_ok (ss_queue s i) (ss_pc s i)"
  shows "quiet_move i s s' \<or>
     (\<exists>pw. ss_pc s i = WAddW pw \<and> s' = sgoto (s\<lparr>ss_waiting := ss_waiting s + 1\<rparr>) i (WLoadR pw (ss_waiting s))) \<or>
     (\<exists>pw w p. ss_pc s i = WLoadR pw w \<and> s' = sgoto s i p \<and> (p = WPoll \<or> p = WSem) \<and> \<not> ss_run s \<ge> of_nat (ss_n s) - w)"
  using assms by (cases "ss_pc s i")
     (auto simp: quiet_move_def fev_sched_sleep_step_def left_loop_def split: if_splits)

lemma quiet_push: "steal_push_step ok i s = Some s' \<Longrightarrow> quiet_move i s s'"
  by (cases "ss_pc s i")
     (auto simp: quiet_move_def steal_push_step_def bounded_push_def steal_push_fallback_def left_loop_def split: list.splits if_splits)

lemma quiet_fallback: "steal_move_step ok i s = Some s' \<Longrightarrow> quiet_move i s s'"
  by (cases "ss_pc s i")
     (auto simp: quiet_move_def steal_move_step_def bounded_push_def left_loop_def split: list.splits if_splits)

lemma quiet_bounded_steal: "bounded_steal_step ok i s = Some s' \<Longrightarrow> quiet_move i s s'"
  by (cases "ss_pc s i")
     (auto simp: quiet_move_def bounded_steal_step_def bounded_push_def steal_push_fallback_def left_loop_def Let_def
        split: list.splits if_splits steal_strategy.splits)

text \<open>A step that leaves the fallback queue and its lock alone.\<close>

definition fallback_kept :: "nat \<Rightarrow> sched_sys \<Rightarrow> sched_sys \<Rightarrow> bool" where
  "fallback_kept i s s' \<longleftrightarrow>
     ss_pc s' = (ss_pc s)(i := ss_pc s' i) \<and> \<not> moving (ss_pc s i) \<and> \<not> moving (ss_pc s' i) \<and> stolen (ss_pc s' i) \<le> ss_count s \<and>
     ss_n s' = ss_n s \<and> ss_strategy s' = ss_strategy s \<and> ss_count s' = ss_count s \<and>
     ss_fallback s' = ss_fallback s \<and> ss_flen s' = ss_flen s \<and> ss_flock s' = ss_flock s"

lemma not_moving_ok: "\<not> moving p \<Longrightarrow> moving_ok flen p"
  by (cases p) simp_all

lemma fallback_kept_inv:
  assumes "sched_fallback s" "fallback_kept i s s'"
  shows "sched_fallback s'"
proof -
  have k: "\<not> moving (ss_pc s i)" "\<not> moving (ss_pc s' i)" "stolen (ss_pc s' i) \<le> ss_count s"
      "ss_n s' = ss_n s" "ss_strategy s' = ss_strategy s" "ss_count s' = ss_count s"
      "ss_fallback s' = ss_fallback s" "ss_flen s' = ss_flen s" "ss_flock s' = ss_flock s"
    using assms(2) unfolding fallback_kept_def by blast+
  have pc: "ss_pc s' j = ss_pc s j" if "j \<noteq> i" for j using assms(2) that unfolding fallback_kept_def by (metis fun_upd_other)
  have mv: "moving (ss_pc s' j) = moving (ss_pc s j)" for j using pc k(1,2) by (cases "j = i") auto
  have mo: "moving_ok (ss_flen s) (ss_pc s' j)" for j
    using assms(1) pc [of j] not_moving_ok [OF k(2)] by (cases "j = i") (simp_all add: sched_fallback_def)
  have st: "stolen (ss_pc s' j) \<le> ss_count s" for j
    using assms(1) pc [of j] k(3) by (cases "j = i") (simp_all add: sched_fallback_def)
  show ?thesis using assms(1) mo st unfolding sched_fallback_def k(4-9) mv by blast
qed

lemma resume_at_not_moving [simp]: "\<not> moving (resume_at c)" "stolen (resume_at c) = 0"
  by (cases c; simp)+

lemma kept_wake: "fev_wake_step i s = Some s' \<Longrightarrow> fallback_kept i s s'"
  by (cases "ss_pc s i") (auto simp: fallback_kept_def fev_wake_step_eq fev_push_stq_def split: prod.splits if_splits)

lemma kept_steal: "fev_sched_steal_step i s = Some s' \<Longrightarrow> fallback_kept i s s'"
  by (cases "ss_pc s i") (auto simp: fallback_kept_def fev_sched_steal_step_def Let_def split: if_splits)

lemma kept_fiber: "fiber_step i s = Some s' \<Longrightarrow> fallback_kept i s s'"
  by (cases "ss_pc s i") (auto simp: fallback_kept_def fiber_step_def)

lemma kept_work: "fev_sched_work_step i s = Some s' \<Longrightarrow> fallback_kept i s s'"
  by (cases "ss_pc s i"; cases "ss_queue s i") (auto simp: fallback_kept_def fev_sched_work_step_def Let_def split: if_splits)

lemma kept_sleep: "fev_sched_sleep_step i s = Some s' \<Longrightarrow> pc_ok (ss_queue s i) (ss_pc s i) \<Longrightarrow> fallback_kept i s s'"
  by (cases "ss_pc s i") (auto simp: fallback_kept_def fev_sched_sleep_step_def split: if_splits)

text \<open>Appending to the fallback queue, with its lock free.\<close>

lemma fallback_append:
  assumes "sched_fallback s" "\<not> ss_flock s" "\<not> moving p" "stolen p = 0"
    and "ss_pc s' = (ss_pc s)(i := p)" "ss_n s' = ss_n s" "ss_strategy s' = ss_strategy s" "ss_count s' = ss_count s" "\<not> ss_flock s'"
    and "ss_fallback s' = ss_fallback s @ fs" "ss_flen s' = ss_flen s + of_nat (length fs)"
  shows "sched_fallback s'"
proof -
  have none: "\<not> moving (ss_pc s j)" for j using assms(1,2) unfolding sched_fallback_def by blast
  then have "\<not> moving (ss_pc s' j)" for j using assms(3,5) by simp
  moreover from this have "moving_ok (ss_flen s') (ss_pc s' j)" for j by (rule not_moving_ok)
  moreover have "stolen (ss_pc s' j) \<le> ss_count s'" for j using assms(1,4,5,8) by (simp add: sched_fallback_def)
  moreover have "ss_flen s' = qlen (ss_fallback s')" using assms(1,2,10,11) by (simp add: sched_fallback_def qlen_def)
  ultimately show ?thesis using assms(1,7-9) unfolding sched_fallback_def by simp
qed

lemma fallback_push:
  assumes l: "sched_fallback s" and step: "steal_push_step ok i s = Some s'"
  shows "sched_fallback s'"
proof (cases "\<exists>c m fs. ss_pc s i = WFall c m fs")
  case True
  then obtain c m fs where pc: "ss_pc s i = WFall c m fs" by blast
  then have s': "\<not> ss_flock s" "s' = sgoto (steal_push_fallback fs s) i (WAddR c m)"
    using step by (auto simp: steal_push_step_def split: if_splits)
  show ?thesis by (rule fallback_append [OF l s'(1), of "WAddR c m" s' i fs]) (use s' in \<open>simp_all add: steal_push_fallback_def\<close>)
next
  case False
  then have "fallback_kept i s s'" using step
    by (cases "ss_pc s i") (auto simp: fallback_kept_def steal_push_step_def bounded_push_def split: list.splits if_splits)
  then show ?thesis by (rule fallback_kept_inv [OF l])
qed

lemma fallback_bounded_steal:
  assumes l: "sched_fallback s" and step: "bounded_steal_step ok i s = Some s'"
  shows "sched_fallback s'"
proof (cases "\<exists>m fs. ss_pc s i = WStealFall m fs")
  case True
  then obtain m fs where pc: "ss_pc s i = WStealFall m fs" by blast
  then have s': "\<not> ss_flock s" "s' = sgoto ((steal_push_fallback fs s)\<lparr>ss_backoff := (ss_backoff s)(i := m)\<rparr>) i WLocal"
    using step by (auto simp: bounded_steal_step_def split: if_splits)
  show ?thesis by (rule fallback_append [OF l s'(1), of WLocal s' i fs]) (use s' in \<open>simp_all add: steal_push_fallback_def\<close>)
next
  case False
  have "stolen (ss_pc s i) \<le> ss_count s" using l by (simp add: sched_fallback_def)
  then have "fallback_kept i s s'" using step False
    by (cases "ss_pc s i")
       (auto simp: fallback_kept_def bounded_steal_step_def bounded_push_def Let_def split: list.splits if_splits steal_strategy.splits)
  then show ?thesis by (rule fallback_kept_inv [OF l])
qed

lemma fallback_len:
  assumes "sched_counts s" "sched_fibers s" "i < ss_n s"
  shows "length (ss_fallback s) < 2 ^ 32"
  using size_mset_mono [OF carried_in_all(3) [OF assms(1,3)]] assms(2) by (simp add: sched_fibers_def)

lemma fallback_lock:
  assumes "sched_fallback s" "\<not> ss_flock s" "i < ss_n s" "length (ss_fallback s) < 2 ^ 32"
  shows "sched_fallback (sgoto (s\<lparr>ss_flock := True, ss_fallback := []\<rparr>) i (WMoving (ss_fallback s) 0 (ss_flen s)))"
proof -
  have none: "\<not> moving (ss_pc s j)" for j using assms(1,2) unfolding sched_fallback_def by blast
  moreover have "unat (ss_flen s) = length (ss_fallback s)"
    using assms(1,2) qlen_less [OF assms(4)] by (simp add: sched_fallback_def)
  ultimately show ?thesis using assms(1,3) by (auto simp: sched_fallback_def)
qed

lemma fallback_moving:
  assumes "sched_fallback s" "ss_pc s i = WMoving fs n len"
  shows "moving_ok (ss_flen s) (WMoving fs n len)" "ss_flock s" "ss_fallback s = []" "i < ss_n s" "j \<noteq> i \<Longrightarrow> \<not> moving (ss_pc s j)"
proof -
  have m: "moving (ss_pc s i)" using assms(2) by simp
  show i: "i < ss_n s" using assms(1) m unfolding sched_fallback_def by blast
  show "ss_flock s" using assms(1) m i unfolding sched_fallback_def by blast
  then show "ss_fallback s = []" using assms(1) unfolding sched_fallback_def by blast
  show "moving_ok (ss_flen s) (WMoving fs n len)" using assms unfolding sched_fallback_def by metis
  show "\<not> moving (ss_pc s j)" if "j \<noteq> i" using assms(1) m that unfolding sched_fallback_def by blast
qed

lemma fallback_unlock:
  assumes l: "sched_fallback s" and pc: "ss_pc s i = WMoving fs n len"
    and s': "ss_pc s' = (ss_pc s)(i := WBackoff)" "ss_n s' = ss_n s" "ss_strategy s' = ss_strategy s" "ss_count s' = ss_count s"
      "\<not> ss_flock s'" "ss_fallback s' = fs" "ss_flen s' = len - n"
  shows "sched_fallback s'"
proof -
  note m = fallback_moving [OF l pc]
  have none: "\<not> moving (ss_pc s' j)" for j using m(5) s'(1) by simp
  moreover have "moving_ok (ss_flen s') (ss_pc s' j)" for j using none by (rule not_moving_ok)
  moreover have "stolen (ss_pc s' j) \<le> ss_count s'" for j using l s'(1,4) by (simp add: sched_fallback_def)
  moreover have "ss_flen s' = qlen (ss_fallback s')" using moving_counts(3) [OF m(1)] s'(6,7) by simp
  ultimately show ?thesis using l s'(3-5) unfolding sched_fallback_def by simp
qed

lemma fallback_move:
  assumes i: "i < ss_n s" and c: "sched_counts s" "sched_fibers s" and l: "sched_fallback s" and step: "steal_move_step ok i s = Some s'"
  shows "sched_fallback s'"
proof (cases "ss_pc s i")
  case WMove
  show ?thesis
  proof (cases "ss_flen s > 0")
    case True
    then show ?thesis using step WMove fallback_lock [OF l _ i fallback_len [OF c i]]
      by (auto simp: steal_move_step_def split: if_splits)
  next
    case False
    then have "fallback_kept i s s'" using step WMove by (auto simp: fallback_kept_def steal_move_step_def split: if_splits)
    then show ?thesis by (rule fallback_kept_inv [OF l])
  qed
next
  case WFallback
  then have "fallback_kept i s s'" using step by (auto simp: fallback_kept_def steal_move_step_def split: if_splits)
  then show ?thesis by (rule fallback_kept_inv [OF l])
next
  case (WMoving fs n len)
  note m = fallback_moving [OF l WMoving]
  show ?thesis
  proof (cases "\<exists>f fs'. fs = f # fs' \<and> ok \<and> steal_room (ss_strategy s) (length (ss_queue s i))")
    case True
    then obtain f fs' where fs: "fs = f # fs'" "s' = sgoto (bounded_push i f s) i (WMoving fs' (n + 1) len)"
      using step WMoving by (auto simp: steal_move_step_def)
    have mv: "moving (ss_pc s' j) = moving (ss_pc s j)" for j using fs(2) WMoving by (simp add: bounded_push_def)
    have "moving_ok (ss_flen s) (ss_pc s' j)" for j
      using l fs(2) moving_counts(4) [OF m(1) fs(1)]
      by (cases "j = i") (simp_all add: bounded_push_def sched_fallback_def del: moving_ok.simps)
    moreover have "stolen (ss_pc s' j) \<le> ss_count s" for j using l fs(2) by (simp add: bounded_push_def sched_fallback_def)
    ultimately show ?thesis using l unfolding sched_fallback_def mv by (simp add: fs(2) bounded_push_def)
  next
    case False
    then have "s' = sgoto ((sassert (if fs = [] then n = len else n \<noteq> len \<and> n \<le> len) s)\<lparr>ss_flock := False, ss_fallback := fs, ss_flen := len - n\<rparr>) i WBackoff"
      using step WMoving by (auto simp: steal_move_step_def split: list.splits if_splits)
    then show ?thesis by (intro fallback_unlock [OF l WMoving]) simp_all
  qed
qed (use step in \<open>simp_all add: steal_move_step_def\<close>)

lemma others_ones:
  assumes "i < n" "\<And>j. j < n \<Longrightarrow> j \<noteq> i \<Longrightarrow> f (g j) = (1 :: u32)"
  shows "others n f g i = of_nat n - 1"
proof -
  have "others n f g i = (\<Sum>j\<in>{..<n} - {i}. 1)" unfolding others_def by (rule sum.cong) (use assms(2) in auto)
  also have "\<dots> = of_nat (n - 1)" using assms(1) by simp
  finally show ?thesis using assms(1) by (simp add: of_nat_diff)
qed

lemma dormant_waits: "dormant n p \<Longrightarrow> waits p = 1"
  by (cases p) auto

lemma sleep_ok_sleep:
  assumes i: "i < ss_n s" and inv: "sched_inv s" and step: "fev_sched_sleep_step i s = Some s'"
  shows "sched_sleep_ok s'" "sched_done_ok s'"
proof -
  have ok: "sched_counts s" "sched_sleep_ok s" "sched_done_ok s" "pc_ok (ss_queue s i) (ss_pc s i)"
    using inv by (auto simp: sched_inv_def sched_local_def)
  consider (q) "quiet_move i s s'"
    | (add) pw where "ss_pc s i = WAddW pw" "s' = sgoto (s\<lparr>ss_waiting := ss_waiting s + 1\<rparr>) i (WLoadR pw (ss_waiting s))"
    | (load) pw w p where "ss_pc s i = WLoadR pw w" "s' = sgoto s i p" "p = WPoll \<or> p = WSem" "\<not> ss_run s \<ge> of_nat (ss_n s) - w"
    using quiet_sleep [OF step ok(4)] by blast
  then have "sched_sleep_ok s' \<and> sched_done_ok s'"
  proof cases
    case q
    then show ?thesis using quiet_move_inv [OF q i ok(3)] by simp
  next
    case add
    have "\<not> (\<forall>j < ss_n s'. dormant (ss_n s') (ss_pc s' j))"
    proof
      assume all: "\<forall>j < ss_n s'. dormant (ss_n s') (ss_pc s' j)"
      then have "waits (ss_pc s j) = 1" if "j < ss_n s" "j \<noteq> i" for j
        using that add(2) dormant_waits [of "ss_n s" "ss_pc s j"] by auto
      then have "others (ss_n s) waits (ss_pc s) i = of_nat (ss_n s) - 1" by (rule others_ones [OF i])
      then have "ss_waiting s = of_nat (ss_n s) - 1"
        using ok(1) add(1) by (simp add: sched_counts_def wsum_split [OF i])
      then show False using all i add(2) by auto
    qed
    moreover have "sched_done_ok s'" using ok(3) add by (auto simp: sched_done_ok_def left_loop_def)
    ultimately show ?thesis unfolding sched_sleep_ok_def by blast
  next
    case load
    have "ss_run s = 0" if all: "\<forall>j < ss_n s'. dormant (ss_n s') (ss_pc s' j)"
    proof (cases "w = of_nat (ss_n s) - 1")
      case True
      then have "\<not> ss_run s \<ge> 1" using load(4) by simp
      then show ?thesis by (simp add: word_le_nat_alt unat_eq_zero [symmetric])
    next
      case False
      then have "dormant (ss_n s) (ss_pc s j)" if "j < ss_n s" for j
        using all that load(1,2) by (cases "j = i") auto
      then show ?thesis using ok(2) by (simp add: sched_sleep_ok_def)
    qed
    then show ?thesis using ok(3) load by (auto simp: sched_sleep_ok_def sched_done_ok_def left_loop_def)
  qed
  then show "sched_sleep_ok s'" "sched_done_ok s'" by simp_all
qed

lemma wake_fibers_same: "fev_wake_step i s = Some s' \<Longrightarrow> sched_fibers s \<Longrightarrow> sched_fibers s'"
  by (cases "ss_pc s i") (auto simp: sched_fibers_def fev_wake_step_eq fev_push_stq_def split: prod.splits)

lemma steal_fibers_same: "fev_sched_steal_step i s = Some s' \<Longrightarrow> sched_fibers s \<Longrightarrow> sched_fibers s'"
  by (cases "ss_pc s i") (auto simp: sched_fibers_def fev_sched_steal_step_def Let_def split: if_splits)

lemma work_fibers_same: "fev_sched_work_step i s = Some s' \<Longrightarrow> sched_fibers s \<Longrightarrow> sched_fibers s'"
  by (cases "ss_pc s i"; cases "ss_queue s i") (auto simp: sched_fibers_def fev_sched_work_step_def Let_def split: if_splits)

lemma sleep_fibers_same: "fev_sched_sleep_step i s = Some s' \<Longrightarrow> sched_fibers s \<Longrightarrow> sched_fibers s'"
  by (cases "ss_pc s i") (auto simp: sched_fibers_def fev_sched_sleep_step_def split: if_splits)

lemma push_fibers_same: "steal_push_step ok i s = Some s' \<Longrightarrow> sched_fibers s \<Longrightarrow> sched_fibers s'"
  by (cases "ss_pc s i")
     (auto simp: sched_fibers_def steal_push_step_def bounded_push_def steal_push_fallback_def split: list.splits if_splits)

lemma move_fibers_same: "steal_move_step ok i s = Some s' \<Longrightarrow> sched_fibers s \<Longrightarrow> sched_fibers s'"
  by (cases "ss_pc s i") (auto simp: sched_fibers_def steal_move_step_def bounded_push_def split: list.splits if_splits)

lemma bounded_steal_fibers_same: "bounded_steal_step ok i s = Some s' \<Longrightarrow> sched_fibers s \<Longrightarrow> sched_fibers s'"
  by (cases "ss_pc s i")
     (auto simp: sched_fibers_def bounded_steal_step_def bounded_push_def steal_push_fallback_def Let_def
        split: list.splits if_splits steal_strategy.splits)

lemma sched_invI:
  assumes "sched_counts s'" "sched_fibers s'" "sched_local s'" "sched_fallback s'" "quiet_move i s s'" "i < ss_n s" "sched_inv s"
  shows "sched_inv s'"
  using assms quiet_move_inv [OF assms(5,6)] by (simp add: sched_inv_def)

lemma inv_wake:
  assumes "i < ss_n s" "sched_inv s" "fev_wake_step i s = Some s'"
  shows "sched_inv s'"
  by (rule sched_invI [OF counts_wake [OF assms(1) _ assms(3)] wake_fibers_same [OF assms(3)] local_wake [OF _ assms(3)]
        fallback_kept_inv [OF _ kept_wake [OF assms(3)]] quiet_wake [OF assms(3)] assms(1,2)]) (use assms(2) in \<open>simp_all add: sched_inv_def\<close>)

lemma inv_steal:
  assumes "i < ss_n s" "sched_inv s" "fev_sched_steal_step i s = Some s'"
  shows "sched_inv s'"
  by (rule sched_invI [OF counts_steal [OF assms(1) _ _ _ assms(3)] steal_fibers_same [OF assms(3)]
        local_steal [OF assms(1) _ _ _ assms(3)] fallback_kept_inv [OF _ kept_steal [OF assms(3)]] quiet_steal [OF assms(3)] assms(1,2)])
     (use assms(2) in \<open>simp_all add: sched_inv_def sched_local_def\<close>)

lemma inv_fiber:
  assumes "i < ss_n s" "sched_inv s" "fiber_step i s = Some s'"
  shows "sched_inv s'"
  by (rule sched_invI [OF counts_fiber [OF assms(1) _ assms(3)] fibers_exiting [OF assms(1) _ _ assms(3)] local_fiber [OF _ assms(3)]
        fallback_kept_inv [OF _ kept_fiber [OF assms(3)]] quiet_fiber [OF assms(3)] assms(1,2)]) (use assms(2) in \<open>simp_all add: sched_inv_def\<close>)

lemma inv_push:
  assumes "i < ss_n s" "sched_inv s" "steal_push_step ok i s = Some s'"
  shows "sched_inv s'"
  by (rule sched_invI [OF counts_push [OF assms(1) _ assms(3)] push_fibers_same [OF assms(3)] local_push [OF _ assms(3)]
        fallback_push [OF _ assms(3)] quiet_push [OF assms(3)] assms(1,2)]) (use assms(2) in \<open>simp_all add: sched_inv_def\<close>)

lemma inv_move:
  assumes "i < ss_n s" "sched_inv s" "steal_move_step ok i s = Some s'"
  shows "sched_inv s'"
  by (rule sched_invI [OF counts_move [OF assms(1) _ _ assms(3)] move_fibers_same [OF assms(3)] local_move [OF _ _ assms(3)]
        fallback_move [OF assms(1) _ _ _ assms(3)] quiet_fallback [OF assms(3)] assms(1,2)]) (use assms(2) in \<open>simp_all add: sched_inv_def\<close>)

lemma inv_bounded_steal:
  assumes "i < ss_n s" "sched_inv s" "bounded_steal_step ok i s = Some s'"
  shows "sched_inv s'"
  by (rule sched_invI [OF counts_bounded_steal [OF assms(1) _ _ _ _ _ assms(3)] bounded_steal_fibers_same [OF assms(3)]
        local_bounded_steal [OF assms(1) _ _ assms(3)] fallback_bounded_steal [OF _ assms(3)] quiet_bounded_steal [OF assms(3)] assms(1,2)])
     (use assms(2) in \<open>simp_all add: sched_inv_def sched_local_def sched_fallback_def\<close>)

lemma inv_sleep:
  assumes "i < ss_n s" "sched_inv s" "fev_sched_sleep_step i s = Some s'"
  shows "sched_inv s'"
  using assms sleep_ok_sleep [OF assms] counts_sleep [OF assms(1) _ _ assms(3)] sleep_fibers_same [OF assms(3)]
    local_sleep [OF _ assms(3)] fallback_kept_inv [OF _ kept_sleep [OF assms(3)]]
  by (auto simp: sched_inv_def sched_local_def)

lemma inv_work:
  assumes "i < ss_n s" "sched_inv s" "fev_sched_work_step i s = Some s'"
  shows "sched_inv s'"
proof -
  have ok: "sched_counts s'" "sched_fibers s'" "sched_local s'" "sched_fallback s'"
    using assms counts_work [OF assms(1) _ assms(3)] work_fibers_same [OF assms(3)] local_work [OF assms(1) _ _ _ assms(3)]
      fallback_kept_inv [OF _ kept_work [OF assms(3)]]
    by (simp_all add: sched_inv_def)
  show ?thesis
  proof (cases "quiet_move i s s'")
    case True
    then show ?thesis by (rule sched_invI [OF ok _ assms(1,2)])
  next
    case False
    then have s': "s' = sgoto s i WOut" "ss_fibers s = 0" using quiet_work [OF assms(3)] by auto
    have "size (ss_all s) < 2 ^ 32" "of_nat (size (ss_all s)) = (0 :: u32)"
      using assms(2) s'(2) by (simp_all add: sched_inv_def sched_fibers_def)
    then have "size (ss_all s) = 0" by (simp add: unat_eq_zero [symmetric] unat_of_nat)
    then have "sched_done_ok s'" "sched_sleep_ok s'"
      using s'(1) assms(1) by (auto simp: sched_done_ok_def sched_sleep_ok_def)
    then show ?thesis using ok by (simp add: sched_inv_def)
  qed
qed

lemma inv_wake_parked:
  assumes i: "i < ss_n s" and inv: "sched_inv s" and step: "wake_parked i c fs s = Some s'"
    and p: "carried (ss_pc s i) = resume_fibers c" "counted (ss_pc s i) = of_nat (size (resume_fibers c))"
      "uncounted (ss_pc s i) = 0" "waiting_pc (ss_pc s i) = (c = RPoll)" "\<not> moving (ss_pc s i)"
  shows "sched_inv s'"
proof (rule sched_invI [OF _ _ _ _ _ i inv])
  have s': "fs \<noteq> []" "mset fs \<subseteq># ss_parked s" "s' = sgoto (s\<lparr>ss_parked := ss_parked s - mset fs\<rparr>) i (WPush c fs)"
    using step by (auto simp: wake_parked_def split: if_splits)
  obtain rest where rest: "ss_parked s = rest + mset fs" using s'(2) by (metis subset_mset.diff_add)
  show "sched_counts s'" using inv s'(3) p rest
    by (auto simp: sched_inv_def sched_counts_def wsum_upd [OF i] wsum_split [OF i] waits_def algebra_simps)
  show "sched_fibers s'" using inv s'(3) by (simp add: sched_inv_def sched_fibers_def)
  show "sched_local s'" using inv s'(1,3) by (auto simp: sched_inv_def sched_local_def)
  show "sched_fallback s'"
    by (rule fallback_kept_inv [of s i]) (use inv s'(3) p(5) in \<open>simp_all add: sched_inv_def fallback_kept_def\<close>)
  show "quiet_move i s s'" using s'(3) by (simp add: quiet_move_def left_loop_def)
qed

lemma inv_leave_fiber:
  assumes i: "i < ss_n s" and inv: "sched_inv s" and pc: "ss_pc s i = WRunning f"
    and p: "carried p = {#f#}" "uncounted p = 0" "\<not> waiting_pc p" "\<And>q. pc_ok q p" "\<And>n. \<not> dormant n p" "\<not> left_loop p"
      "\<not> moving p" "stolen p = 0"
  shows "sched_inv (sgoto (s\<lparr>ss_run := ss_run s + counted p - 1\<rparr>) i p)" (is "sched_inv ?s")
proof (rule sched_invI [OF _ _ _ _ _ i inv])
  show "sched_counts ?s" using inv pc p
    by (auto simp: sched_inv_def sched_counts_def wsum_upd [OF i] wsum_split [OF i] waits_def algebra_simps)
  show "sched_fibers ?s" using inv by (simp add: sched_inv_def sched_fibers_def)
  show "sched_local ?s" using inv p(4) by (auto simp: sched_inv_def sched_local_def)
  show "sched_fallback ?s"
    by (rule fallback_kept_inv [of s i]) (use inv p(7,8) pc in \<open>simp_all add: sched_inv_def fallback_kept_def\<close>)
  show "quiet_move i s ?s" using p(5,6) by (simp add: quiet_move_def)
qed

lemma inv_simple_event:
  assumes i: "i < ss_n s" and inv: "sched_inv s" and pc: "ss_pc s i = WRunning f"
  shows "sched_inv (sgoto (s\<lparr>ss_run := ss_run s - 1\<rparr>) i (WParking f))"
    and "sched_inv (sgoto (s\<lparr>ss_run := ss_run s - 1\<rparr>) i (WYield f))" and "sched_inv (sgoto s i (WExiting f))"
  using inv_leave_fiber [OF assms, of "WParking f"] inv_leave_fiber [OF assms, of "WYield f"]
    inv_leave_fiber [OF assms, of "WExiting f"]
  by (simp_all add: left_loop_def)

lemma inv_poll_return:
  assumes i: "i < ss_n s" and inv: "sched_inv s" and pc: "ss_pc s i = WPoll"
  shows "sched_inv (sgoto s i WPollStore)" (is "sched_inv ?s")
proof (rule sched_invI [OF _ _ _ _ _ i inv])
  show "sched_counts ?s" using inv pc by (auto simp: sched_inv_def sched_counts_def wsum_upd [OF i] wsum_split [OF i])
  show "sched_fibers ?s" using inv by (simp add: sched_inv_def sched_fibers_def)
  show "sched_local ?s" using inv by (auto simp: sched_inv_def sched_local_def)
  show "sched_fallback ?s" by (rule fallback_kept_inv [of s i]) (use inv pc in \<open>simp_all add: sched_inv_def fallback_kept_def\<close>)
  show "quiet_move i s ?s" by (simp add: quiet_move_def left_loop_def)
qed

lemma inv_create:
  assumes i: "i < ss_n s" and inv: "sched_inv s" and p: "ss_pc s i = WRunning f"
    and g: "g \<notin># ss_all s" "size (ss_all s) < 2 ^ 32 - 1"
  shows "sched_inv (sgoto (s\<lparr>ss_fibers := ss_fibers s + 1, ss_all := add_mset g (ss_all s)\<rparr>) i (WPush (RFiber f) [g]))" (is "sched_inv ?s")
proof -
  have "f \<in># ss_all s" using carried_in_all(1) [of s i] inv i p by (simp add: sched_inv_def)
  then have "\<not> left_loop (ss_pc s j)" if "j < ss_n s" for j using inv that by (auto simp: sched_inv_def sched_done_ok_def)
  then have "sched_done_ok ?s" by (auto simp: sched_done_ok_def left_loop_def)
  moreover have "sched_sleep_ok ?s" using i by (auto simp: sched_sleep_ok_def)
  moreover have "sched_fibers ?s" using inv g by (auto simp: sched_inv_def sched_fibers_def not_in_iff)
  moreover have "sched_counts ?s" using inv p
    by (auto simp: sched_inv_def sched_counts_def wsum_upd [OF i] wsum_split [OF i] waits_def algebra_simps)
  moreover have "sched_local ?s" using inv by (auto simp: sched_inv_def sched_local_def)
  moreover have "sched_fallback ?s"
    by (rule fallback_kept_inv [of s i]) (use inv p in \<open>simp_all add: sched_inv_def fallback_kept_def\<close>)
  ultimately show ?thesis by (simp add: sched_inv_def)
qed

lemma intr_irrelevant:
  "sched_counts (s\<lparr>ss_intr := b\<rparr>) = sched_counts s" "sched_fibers (s\<lparr>ss_intr := b\<rparr>) = sched_fibers s"
  "sched_local (s\<lparr>ss_intr := b\<rparr>) = sched_local s" "sched_fallback (s\<lparr>ss_intr := b\<rparr>) = sched_fallback s"
  "sched_sleep_ok (s\<lparr>ss_intr := b\<rparr>) = sched_sleep_ok s" "sched_done_ok (s\<lparr>ss_intr := b\<rparr>) = sched_done_ok s"
  by (simp_all add: sched_counts_def sched_fibers_def sched_local_def sched_fallback_def sched_sleep_ok_def sched_done_ok_def)

lemma inv_old_size:
  assumes i: "i < ss_n s" and inv: "sched_inv s" and step: "sched_event_step (OldSize i k) s = Some s'"
  shows "sched_inv s'"
proof (rule sched_invI [OF _ _ _ _ _ i inv])
  show "sched_counts s'" using inv step
    by (auto simp: sched_inv_def sched_counts_def wsum_upd [OF i] wsum_split [OF i] waits_def algebra_simps split: if_splits)
  show "sched_fibers s'" using inv step by (auto simp: sched_inv_def sched_fibers_def split: if_splits)
  show "sched_local s'" using inv step by (auto simp: sched_inv_def sched_local_def split: if_splits)
  show "sched_fallback s'"
    by (rule fallback_kept_inv [of s i]) (use inv step in \<open>auto simp: sched_inv_def fallback_kept_def split: if_splits\<close>)
  show "quiet_move i s s'" using step by (auto simp: quiet_move_def left_loop_def split: if_splits)
qed

lemma inv_worker:
  assumes "i < ss_n s" "sched_inv s" "steal_worker_step ok i s = Some s'"
  shows "sched_inv s'"
  using assms(3) inv_wake [OF assms(1,2)] inv_steal [OF assms(1,2)] inv_fiber [OF assms(1,2)] inv_sleep [OF assms(1,2)]
    inv_work [OF assms(1,2)] inv_push [OF assms(1,2)] inv_move [OF assms(1,2)] inv_bounded_steal [OF assms(1,2)]
  by (cases "ss_pc s i") (simp_all add: steal_worker_step_def split: if_splits)

lemma sched_step_inv:
  assumes inv: "sched_inv s" and step: "sched_step e s = Some s'"
  shows "sched_inv s'"
proof -
  have i: "event_worker e < ss_n s" and ev: "sched_event_step e s = Some s'"
    using step by (auto simp: sched_step_def split: if_splits)
  show ?thesis
  proof (cases e)
    case (Step i)
    then show ?thesis using ev i inv_worker [OF _ inv] by simp
  next
    case (GiveUp i)
    then show ?thesis using ev i inv_push [OF _ inv] inv_move [OF _ inv] inv_bounded_steal [OF _ inv] by (cases "ss_pc s i") auto
  next
    case (OldSize i k)
    then show ?thesis using ev i inv_old_size [OF _ inv] by (metis event_worker.simps(3))
  next
    case (Create i g)
    then show ?thesis using ev i inv_create [of i s _ g, OF _ inv] by (auto split: worker_pc.splits if_splits)
  next
    case (Wake i fs)
    then show ?thesis using ev i inv_wake_parked [of i s _ fs s', OF _ inv] by (cases "ss_pc s i") auto
  next
    case (Wait i)
    then show ?thesis using ev i inv_simple_event [of i s, OF _ inv] by (cases "ss_pc s i") auto
  next
    case (Yield i)
    then show ?thesis using ev i inv_simple_event [of i s, OF _ inv] by (cases "ss_pc s i") auto
  next
    case (Exit i)
    then show ?thesis using ev i inv_simple_event [of i s, OF _ inv] by (cases "ss_pc s i") auto
  next
    case (PollCheck i fs)
    then show ?thesis using ev i inv_wake_parked [of i s RCheck fs s', OF _ inv] by (auto split: if_splits)
  next
    case (PollWait i fs)
    show ?thesis
    proof (cases "ss_pc s i = WPoll \<and> fs = []")
      case True
      then have "s' = sgoto s i WPollStore" using ev PollWait by simp
      then show ?thesis using True i PollWait inv_poll_return [OF _ inv] by simp
    next
      case False
      then show ?thesis using ev i PollWait inv_wake_parked [of i s RPoll fs s', OF _ inv] by (auto split: if_splits)
    qed
  next
    case (Drain i)
    then have "s' = s\<lparr>ss_intr := False\<rparr>" using ev by (auto split: if_splits)
    then show ?thesis using inv by (simp add: sched_inv_def intr_irrelevant)
  qed
qed

section \<open>The start\<close>

lemma sched_init_inv: "0 < n \<Longrightarrow> n < 2 ^ 32 \<Longrightarrow> strategy_ok st k \<Longrightarrow> sched_inv (sched_sys_init st n k rnd)"
  by (auto simp: sched_sys_init_def sched_inv_def sched_counts_def sched_fibers_def sched_local_def sched_fallback_def sched_sleep_ok_def
      sched_done_ok_def left_loop_def wsum_0)

lemma sched_put_queue:
  "ss_strategy s = StealLocking \<or> steal_room (ss_strategy s) (length (ss_queue s 0)) \<Longrightarrow>
     fev_sched_put f s = (sassert (ss_n s > 0) s)\<lparr>ss_queue := (ss_queue s)(0 := ss_queue s 0 @ [f]),
        ss_size := (ss_size s)(0 := ss_size s 0 + 1), ss_run := ss_run s + 1, ss_fibers := ss_fibers s + 1, ss_all := add_mset f (ss_all s)\<rparr>"
  "\<not> (ss_strategy s = StealLocking \<or> steal_room (ss_strategy s) (length (ss_queue s 0))) \<Longrightarrow>
     fev_sched_put f s = (sassert (ss_n s > 0) s)\<lparr>ss_fallback := ss_fallback s @ [f], ss_flen := ss_flen s + 1,
        ss_run := ss_run s + 1, ss_fibers := ss_fibers s + 1, ss_all := add_mset f (ss_all s)\<rparr>"
  by (cases s; auto simp: fev_sched_put_def fev_push_one_def bounded_push_def steal_push_fallback_def sassert_def Let_def)+

lemma sched_put_inv:
  assumes inv: "sched_inv s" and idle: "ss_pc s = (\<lambda>_. WLocal)" and f: "f \<notin># ss_all s" "size (ss_all s) < 2 ^ 32 - 1"
  shows "sched_inv (fev_sched_put f s)"
proof -
  have n: "0 < ss_n s" using inv by (simp add: sched_inv_def sched_local_def)
  show ?thesis
  proof (cases "ss_strategy s = StealLocking \<or> steal_room (ss_strategy s) (length (ss_queue s 0))")
    case True
    note put = sched_put_queue(1) [OF this, of f]
    have "sched_counts (fev_sched_put f s)" using inv idle unfolding put
      by (auto simp: sched_inv_def sched_counts_def wsum_upd [OF n] wsum_split [OF n, of _ "ss_queue s"] algebra_simps)
    moreover have "sched_fibers (fev_sched_put f s)" using inv f unfolding put
      by (auto simp: sched_inv_def sched_fibers_def not_in_iff)
    moreover have "sched_local (fev_sched_put f s)" "sched_fallback (fev_sched_put f s)" using inv idle unfolding put
      by (auto simp: sched_inv_def sched_local_def sched_fallback_def)
    moreover have "sched_sleep_ok (fev_sched_put f s)" "sched_done_ok (fev_sched_put f s)" using n idle unfolding put
      by (auto simp: sched_sleep_ok_def sched_done_ok_def left_loop_def)
    ultimately show ?thesis by (simp add: sched_inv_def)
  next
    case False
    note put = sched_put_queue(2) [OF this, of f]
    have "sched_counts (fev_sched_put f s)" using inv unfolding put by (simp add: sched_inv_def sched_counts_def algebra_simps)
    moreover have "sched_fibers (fev_sched_put f s)" using inv f unfolding put
      by (auto simp: sched_inv_def sched_fibers_def not_in_iff)
    moreover have "sched_local (fev_sched_put f s)" using inv idle unfolding put by (auto simp: sched_inv_def sched_local_def)
    moreover have "sched_fallback (fev_sched_put f s)" using inv idle unfolding put
      by (auto simp: sched_inv_def sched_fallback_def)
    moreover have "sched_sleep_ok (fev_sched_put f s)" "sched_done_ok (fev_sched_put f s)" using n idle unfolding put
      by (auto simp: sched_sleep_ok_def sched_done_ok_def left_loop_def)
    ultimately show ?thesis by (simp add: sched_inv_def)
  qed
qed

lemma sched_put_simps [simp]:
  "ss_pc (fev_sched_put f s) = ss_pc s" "ss_all (fev_sched_put f s) = add_mset f (ss_all s)"
  by (simp_all add: fev_sched_put_def fev_push_one_def bounded_push_def steal_push_fallback_def Let_def)

lemma sched_puts_inv:
  assumes "sched_inv s" "ss_pc s = (\<lambda>_. WLocal)" "distinct fs" "set fs \<inter> set_mset (ss_all s) = {}"
    and "size (ss_all s) + length fs < 2 ^ 32"
  shows "sched_inv (fold fev_sched_put fs s)"
  using assms
proof (induction fs arbitrary: s)
  case (Cons f fs)
  have "sched_inv (fev_sched_put f s)" by (rule sched_put_inv [OF Cons.prems(1,2)]) (use Cons.prems(4,5) in auto)
  then show ?case using Cons.IH [of "fev_sched_put f s"] Cons.prems(2-5) by auto
qed simp

lemma sched_start_inv:
  assumes "0 < n" "n < 2 ^ 32" "strategy_ok st k" "distinct fibers" "length fibers < 2 ^ 32"
  shows "sched_inv (sched_start st n k rnd fibers)"
  unfolding sched_start_def
  by (rule sched_puts_inv [OF sched_init_inv [OF assms(1-3)]]) (use assms(4,5) in \<open>simp_all add: sched_sys_init_def\<close>)

text \<open>A scheduler that is started correctly; the steal count of a bounded strategy is below its capacity (a static assertion).\<close>

definition sched_started :: "sched_sys \<Rightarrow> bool" where
  "sched_started s \<longleftrightarrow>
     (\<exists>st n k rnd fibers. 0 < n \<and> n < 2 ^ 32 \<and> strategy_ok st k \<and> distinct fibers \<and> length fibers < 2 ^ 32 \<and>
        s = sched_start st n k rnd fibers)"

interpretation sched: step_invariant sched_step sched_started sched_inv
  by unfold_locales (auto simp: sched_started_def sched_start_inv intro: sched_step_inv)

section \<open>What the scheduler promises\<close>

text \<open>
  C3. Safety of the work-stealing schedulers (locked, bounded SPMC and bounded MPMC run queues), for any number of
  workers, in every interleaving of their steps: every fiber that exists is in exactly one place (suspended, in one
  run queue, in the fallback queue, or in the hands of one worker), so that none is lost and none runs on two workers or runs while queued; the sizes of the queues
  agree with their contents; and no assertion fails.
\<close>

theorem fev_sched_safe:
  assumes "sched_started s0" "run sched_step s0 es = Some s"
  shows "\<not> ss_fault s \<and> (\<forall>f. count (ss_all s) f \<le> 1) \<and>
     ss_all s = ss_parked s + wsum (ss_n s) mset (ss_queue s) + mset (ss_fallback s) + wsum (ss_n s) carried (ss_pc s) \<and>
     (\<forall>i. ss_size s i = of_nat (length (ss_queue s i))) \<and>
     (\<forall>i < ss_n s. \<forall>j < ss_n s. \<forall>f. ss_pc s i = WRunning f \<longrightarrow>
        f \<notin> set (ss_queue s j) \<and> (ss_pc s j = WRunning f \<longrightarrow> i = j))"
proof -
  have inv: "sched_inv s" using sched.inv_run_init [OF assms] .
  then have c: "ss_all s = ss_parked s + wsum (ss_n s) mset (ss_queue s) + mset (ss_fallback s) + wsum (ss_n s) carried (ss_pc s)"
      "\<And>f. count (ss_all s) f \<le> 1"
    by (auto simp: sched_inv_def sched_counts_def sched_fibers_def)
  have "f \<notin> set (ss_queue s j) \<and> (ss_pc s j = WRunning f \<longrightarrow> i = j)"
    if i: "i < ss_n s" "ss_pc s i = WRunning f" and j: "j < ss_n s" for i j f
  proof (intro conjI impI)
    have f1: "wsum (ss_n s) carried (ss_pc s) = {#f#} + others (ss_n s) carried (ss_pc s) i"
      using wsum_split [OF i(1), of carried "ss_pc s"] i(2) by simp
    show "f \<notin> set (ss_queue s j)"
    proof
      assume "f \<in> set (ss_queue s j)"
      then obtain q where "mset (ss_queue s j) = add_mset f q" by (metis in_multiset_in_set multi_member_split)
      then have "count (ss_all s) f \<ge> 2" using c(1) f1 wsum_split [OF j, of mset "ss_queue s"] by simp
      then show False using c(2) [of f] by simp
    qed
    show "i = j" if r: "ss_pc s j = WRunning f"
    proof (rule ccontr)
      assume "i \<noteq> j"
      then have "carried (ss_pc s j) \<subseteq># others (ss_n s) carried (ss_pc s) i" using others_member [OF j] by metis
      then obtain q where "others (ss_n s) carried (ss_pc s) i = add_mset f q" using r by (auto dest: multi_member_split)
      then have "count (ss_all s) f \<ge> 2" using c(1) f1 by simp
      then show False using c(2) [of f] by simp
    qed
  qed
  then show ?thesis using inv c by (auto simp: sched_inv_def sched_local_def qlen_def)
qed

text \<open>
  C4. No runnable fiber is stranded: whenever all workers are asleep, in the poller or on the semaphore,
  every run queue and the fallback queue are empty and the scheduler counts no runnable fiber.
\<close>

theorem fev_sched_no_stranded_fiber:
  assumes "sched_started s0" "run sched_step s0 es = Some s"
    and "\<forall>i < ss_n s. ss_pc s i = WPoll \<or> ss_pc s i = WSem"
  shows "ss_run s = 0 \<and> (\<forall>i < ss_n s. ss_queue s i = []) \<and> ss_fallback s = []"
proof -
  have inv: "sched_counts s" "sched_fibers s" "sched_sleep_ok s"
    using sched.inv_run_init [OF assms(1,2)] by (simp_all add: sched_inv_def)
  have "dormant (ss_n s) (ss_pc s i)" if "i < ss_n s" for i using assms(3) that by fastforce
  then have run: "ss_run s = 0" using inv(3) by (simp add: sched_sleep_ok_def)
  have "wsum (ss_n s) uncounted (ss_pc s) = 0" "wsum (ss_n s) counted (ss_pc s) = 0"
    by (rule wsum_0; use assms(3) in fastforce)+
  then have "wsum (ss_n s) qlen (ss_queue s) + qlen (ss_fallback s) = 0" using inv(1) run by (simp add: sched_counts_def)
  moreover define M where "M = wsum (ss_n s) mset (ss_queue s) + mset (ss_fallback s)"
  moreover have "wsum (ss_n s) qlen (ss_queue s) + qlen (ss_fallback s) = of_nat (size M)"
    by (simp add: M_def wsum_def qlen_def size_multiset_sum)
  ultimately have "(of_nat (size M) :: u32) = 0" by metis
  moreover have "size M < 2 ^ 32" using inv(1,2) by (simp add: M_def sched_counts_def sched_fibers_def)
  ultimately have "size M = 0" by (simp add: unat_eq_zero [symmetric] unat_of_nat)
  then have "wsum (ss_n s) mset (ss_queue s) = {#}" "ss_fallback s = []" by (simp_all add: M_def)
  moreover from this have "ss_queue s i = []" if "i < ss_n s" for i using wsum_split [OF that, of mset "ss_queue s"] by auto
  ultimately show ?thesis using run by blast
qed

text \<open>A worker leaves its loop only when no fiber exists any more.\<close>

theorem fev_sched_leaves_when_done:
  assumes "sched_started s0" "run sched_step s0 es = Some s" "i < ss_n s" "ss_pc s i = WOut \<or> ss_pc s i = WExit"
  shows "ss_all s = {#} \<and> ss_fibers s = 0 \<and> (\<forall>j < ss_n s. ss_queue s j = [] \<and> (\<forall>f. ss_pc s j \<noteq> WRunning f))"
proof -
  have inv: "sched_inv s" using sched.inv_run_init [OF assms(1,2)] .
  then have all: "ss_all s = {#}" using assms(3,4) by (auto simp: sched_inv_def sched_done_ok_def left_loop_def)
  have "ss_queue s j = [] \<and> (\<forall>f. ss_pc s j \<noteq> WRunning f)" if "j < ss_n s" for j
    using carried_in_all [of s j] inv that all by (auto simp: sched_inv_def)
  then show ?thesis using all inv by (simp add: sched_inv_def sched_fibers_def)
qed

section \<open>Shutdown\<close>

text \<open>
  Once a worker has left, the others follow. A worker that saw runnable fibers may still go to sleep; it
  is \<open>stale\<close>. Either some worker is neither gone nor stale, and will wake the others when it leaves, or the
  semaphore and the interrupt of those that left are enough for all that may sleep.
\<close>

fun stale :: "worker_pc \<Rightarrow> bool" where
  "stale (WCheckW r) = (r \<noteq> 0)"
| "stale (WDone r) = (r \<noteq> 0)"
| "stale WXchg = True"
| "stale (WAddW _) = True"
| "stale (WLoadR _ _) = True"
| "stale WPoll = True"
| "stale WSem = True"
| "stale _ = False"

definition fresh :: "worker_pc \<Rightarrow> bool" where
  "fresh p \<longleftrightarrow> p \<noteq> WExit \<and> \<not> stale p"

definition shutdown_ok :: "sched_sys \<Rightarrow> bool" where
  "shutdown_ok s \<longleftrightarrow>
     ((\<exists>i < ss_n s. ss_pc s i = WExit) \<longrightarrow>
      (\<exists>i < ss_n s. fresh (ss_pc s i)) \<or>
      ss_intr s \<and> card {i. i < ss_n s \<and> stale (ss_pc s i)} \<le> ss_sem s)"

text \<open>After a step of worker \<open>i\<close>, some worker is fresh, or nothing has changed for the others.\<close>

definition shutdown_move :: "nat \<Rightarrow> sched_sys \<Rightarrow> sched_sys \<Rightarrow> bool" where
  "shutdown_move i s s' \<longleftrightarrow>
     ss_n s' = ss_n s \<and> ss_pc s' = (ss_pc s)(i := ss_pc s' i) \<and>
     (fresh (ss_pc s' i) \<or>
      ss_intr s' = ss_intr s \<and> ss_sem s' = ss_sem s \<and> stale (ss_pc s i) \<and> stale (ss_pc s' i) \<or>
      ss_pc s i = WCheckR \<and> s' = sgoto s i (WCheckW (ss_run s)) \<and> ss_run s \<noteq> 0 \<or>
      ss_pc s i = WOut \<and> ss_intr s' \<and> ss_n s \<le> ss_sem s')"

lemma resume_at_fresh [simp]: "fresh (resume_at c)" "\<not> stale (resume_at c)"
  by (cases c; simp add: fresh_def)+

lemma move_wake: "fev_wake_step i s = Some s' \<Longrightarrow> shutdown_move i s s'"
  by (cases "ss_pc s i")
     (auto simp: shutdown_move_def fresh_def fev_wake_step_eq fev_push_stq_def split: prod.splits if_splits)

lemma move_steal: "fev_sched_steal_step i s = Some s' \<Longrightarrow> shutdown_move i s s'"
  by (cases "ss_pc s i")
     (auto simp: shutdown_move_def fresh_def fev_sched_steal_step_def Let_def split: if_splits)

lemma move_push: "steal_push_step ok i s = Some s' \<Longrightarrow> shutdown_move i s s'"
  by (cases "ss_pc s i")
     (auto simp: shutdown_move_def fresh_def steal_push_step_def bounded_push_def steal_push_fallback_def split: list.splits if_splits)

lemma move_fallback: "steal_move_step ok i s = Some s' \<Longrightarrow> shutdown_move i s s'"
  by (cases "ss_pc s i")
     (auto simp: shutdown_move_def fresh_def steal_move_step_def bounded_push_def split: list.splits if_splits)

lemma move_bounded_steal: "bounded_steal_step ok i s = Some s' \<Longrightarrow> shutdown_move i s s'"
  by (cases "ss_pc s i")
     (auto simp: shutdown_move_def fresh_def bounded_steal_step_def bounded_push_def steal_push_fallback_def Let_def
        split: list.splits if_splits steal_strategy.splits)

lemma move_fiber: "fiber_step i s = Some s' \<Longrightarrow> shutdown_move i s s'"
  by (cases "ss_pc s i") (auto simp: shutdown_move_def fresh_def fiber_step_def)

lemma move_sleep:
  "fev_sched_sleep_step i s = Some s' \<Longrightarrow> pc_ok (ss_queue s i) (ss_pc s i) \<Longrightarrow> shutdown_move i s s'"
  by (cases "ss_pc s i") (auto simp: shutdown_move_def fresh_def fev_sched_sleep_step_def split: if_splits)

lemma move_work:
  "fev_sched_work_step i s = Some s' \<Longrightarrow> ss_fibers s = 0 \<Longrightarrow> shutdown_move i s s'"
  by (cases "ss_pc s i"; cases "ss_queue s i")
     (auto simp: shutdown_move_def fresh_def fev_sched_work_step_def Let_def split: if_splits)

lemma move_event:
  assumes inv: "sched_inv s" and gone: "ss_all s = {#}" and step: "sched_step e s = Some s'"
  shows "shutdown_move (event_worker e) s s'"
proof -
  have i: "event_worker e < ss_n s" and ev: "sched_event_step e s = Some s'"
    using step by (auto simp: sched_step_def split: if_splits)
  have ok: "ss_fibers s = 0" "\<And>j. pc_ok (ss_queue s j) (ss_pc s j)" "ss_parked s = {#}"
    using inv gone by (simp_all add: sched_inv_def sched_fibers_def sched_local_def sched_counts_def)
  have run: "ss_pc s (event_worker e) \<noteq> WRunning f" for f
    using carried_in_all(1) [OF _ i] inv gone by (auto simp: sched_inv_def)
  show ?thesis
  proof (cases e)
    case (Step j)
    then show ?thesis
      using ev move_wake move_steal move_fiber move_sleep [OF _ ok(2)] move_work [OF _ ok(1)] move_push move_fallback move_bounded_steal
      by (cases "ss_pc s j") (simp_all add: steal_worker_step_def split: if_splits)
  next
    case (GiveUp j)
    then show ?thesis using ev move_push move_fallback move_bounded_steal by (cases "ss_pc s j") simp_all
  next
    case (OldSize j k)
    then show ?thesis using ev by (auto simp: shutdown_move_def fresh_def split: if_splits)
  next
    case (Drain j)
    then show ?thesis using ev by (auto simp: shutdown_move_def fresh_def split: if_splits)
  qed (use ev run ok(3) in \<open>auto simp: wake_parked_def shutdown_move_def fresh_def split: worker_pc.splits if_splits\<close>)
qed

lemma stale_card:
  assumes "pc' = pc(i := p)" "stale p \<longrightarrow> stale (pc i)"
  shows "card {j. j < (n :: nat) \<and> stale (pc' j)} \<le> card {j. j < n \<and> stale (pc j)}"
  by (rule card_mono) (use assms in \<open>auto split: if_splits\<close>)

text \<open>A count of runnable fibers that is not zero although no fiber is left is about to be corrected.\<close>

lemma run_nonzero_fresh:
  assumes inv: "sched_inv s" and gone: "ss_all s = {#}" and run: "ss_run s \<noteq> 0"
  shows "\<exists>j < ss_n s. fresh (ss_pc s j) \<and> ss_pc s j \<noteq> WCheckR"
proof (rule ccontr)
  assume none: "\<not> ?thesis"
  have c: "sched_counts s" using inv by (simp add: sched_inv_def)
  have "ss_queue s j = []" "uncounted (ss_pc s j) = 0" "counted (ss_pc s j) = 0" if "j < ss_n s" for j
  proof -
    have car: "carried (ss_pc s j) = {#}" "ss_queue s j = []" using carried_in_all [OF c that] gone by simp_all
    have "\<not> fresh (ss_pc s j) \<or> ss_pc s j = WCheckR" using none that by blast
    then show "uncounted (ss_pc s j) = 0" "counted (ss_pc s j) = 0" using car(1) by (cases "ss_pc s j"; simp add: fresh_def)+
    show "ss_queue s j = []" by (rule car(2))
  qed
  then have "wsum (ss_n s) uncounted (ss_pc s) = 0" "wsum (ss_n s) counted (ss_pc s) = 0" "wsum (ss_n s) qlen (ss_queue s) = 0"
    by (auto intro!: wsum_0)
  moreover have "ss_fallback s = []" using carried_in_all(3) [OF c, of 0] gone inv by (simp add: sched_inv_def sched_local_def)
  ultimately show False using c run by (simp add: sched_counts_def)
qed

lemma worker_step_quiet:
  assumes "steal_worker_step ok i s = Some s'"
  shows "quiet_move i s s' \<or> fev_sched_work_step i s = Some s' \<or> fev_sched_sleep_step i s = Some s'"
  using assms quiet_wake quiet_steal quiet_fiber quiet_push quiet_fallback quiet_bounded_steal
  by (cases "ss_pc s i") (simp_all add: steal_worker_step_def split: if_splits)

lemma give_up_quiet: "sched_event_step (GiveUp i) s = Some s' \<Longrightarrow> quiet_move i s s'"
  using quiet_push quiet_fallback quiet_bounded_steal by (cases "ss_pc s i") simp_all

lemma work_sleep_n: "fev_sched_work_step i s = Some s' \<Longrightarrow> ss_n s' = ss_n s" "fev_sched_sleep_step i s = Some s' \<Longrightarrow> ss_n s' = ss_n s"
  by (cases "ss_pc s i"; auto simp: fev_sched_work_step_def fev_sched_sleep_step_def Let_def split: if_splits list.splits)+

lemma sched_n_const:
  assumes "sched_step e s = Some s'"
  shows "ss_n s' = ss_n s"
proof -
  have ev: "sched_event_step e s = Some s'" using assms by (auto simp: sched_step_def split: if_splits)
  have q: "ss_n s' = ss_n s" if "quiet_move i s s'" for i using that by (simp add: quiet_move_def)
  show ?thesis
  proof (cases e)
    case (Step i)
    then show ?thesis using ev worker_step_quiet [of True i s s'] q work_sleep_n by auto
  next
    case (GiveUp i)
    then show ?thesis using ev give_up_quiet q by blast
  qed (use ev in \<open>auto simp: wake_parked_def split: worker_pc.splits if_splits\<close>)
qed

lemma exit_from_out:
  assumes inv: "sched_inv s" and step: "sched_step e s = Some s'" and ex: "ss_pc s' j = WExit"
  shows "left_loop (ss_pc s j)"
proof -
  have ev: "sched_event_step e s = Some s'" using step by (auto simp: sched_step_def split: if_splits)
  have quiet: "left_loop (ss_pc s j)" if "quiet_move i s s'" for i
  proof -
    have q: "ss_pc s' = (ss_pc s)(i := ss_pc s' i)" "left_loop (ss_pc s' i) \<longrightarrow> left_loop (ss_pc s i)"
      using that unfolding quiet_move_def by blast+
    show ?thesis using q(2) ex fun_cong [OF q(1), of j] by (cases "j = i") (simp_all add: left_loop_def)
  qed
  show ?thesis
  proof (cases e)
    case (Step i)
    have "pc_ok (ss_queue s i) (ss_pc s i)" using inv by (simp add: sched_inv_def sched_local_def)
    then have sl: "left_loop (ss_pc s j)" if "fev_sched_sleep_step i s = Some s'"
      using quiet_sleep [OF that] quiet ex by (auto simp: left_loop_def split: if_splits)
    have "left_loop (ss_pc s j)" if "fev_sched_work_step i s = Some s'"
      using quiet_work [OF that] quiet ex by (auto simp: left_loop_def split: if_splits)
    then show ?thesis using ev Step sl quiet worker_step_quiet [of True i s s'] by auto
  next
    case (GiveUp i)
    then show ?thesis using ev quiet give_up_quiet by blast
  qed (use ev ex in \<open>auto simp: wake_parked_def left_loop_def split: worker_pc.splits if_splits\<close>)
qed

lemma shutdown_step:
  assumes inv: "sched_inv s" and sd: "shutdown_ok s" and step: "sched_step e s = Some s'"
  shows "shutdown_ok s'"
proof -
  let ?i = "event_worker e"
  have i: "?i < ss_n s" using step by (auto simp: sched_step_def split: if_splits)
  have "ss_intr s' \<and> card {j. j < ss_n s' \<and> stale (ss_pc s' j)} \<le> ss_sem s'"
    if x: "x < ss_n s'" "ss_pc s' x = WExit" and nofresh: "\<not> (\<exists>j < ss_n s'. fresh (ss_pc s' j))" for x
  proof -
    have left: "left_loop (ss_pc s x)" by (rule exit_from_out [OF inv step x(2)])
    have gone: "ss_all s = {#}"
      using left inv x(1) sched_n_const [OF step] by (auto simp: sched_inv_def sched_done_ok_def)
    have m: "ss_n s' = ss_n s" "ss_pc s' = (ss_pc s)(?i := ss_pc s' ?i)"
      "fresh (ss_pc s' ?i) \<or>
      ss_intr s' = ss_intr s \<and> ss_sem s' = ss_sem s \<and> stale (ss_pc s ?i) \<and> stale (ss_pc s' ?i) \<or>
      ss_pc s ?i = WCheckR \<and> s' = sgoto s ?i (WCheckW (ss_run s)) \<and> ss_run s \<noteq> 0 \<or>
      ss_pc s ?i = WOut \<and> ss_intr s' \<and> ss_n s \<le> ss_sem s'"
      using move_event [OF inv gone step] by (simp_all add: shutdown_move_def)
    have same: "ss_pc s' j = ss_pc s j" if "j \<noteq> ?i" for j using fun_cong [OF m(2), of j] that by simp
    consider (st) "ss_intr s' = ss_intr s" "ss_sem s' = ss_sem s" "stale (ss_pc s ?i)" "stale (ss_pc s' ?i)"
      | (chk) "ss_pc s ?i = WCheckR" "ss_run s \<noteq> 0"
      | (out) "ss_intr s'" "ss_n s \<le> ss_sem s'"
      using m(1,3) nofresh i by auto
    then show ?thesis
    proof cases
      case st
      have nf: "\<not> (\<exists>j < ss_n s. fresh (ss_pc s j))"
        using nofresh m(1) same st(3) by (metis fresh_def)
      have "x \<noteq> ?i" using st(4) x(2) by auto
      then have "ss_pc s x = WExit" using same x(2) by simp
      then have "ss_intr s \<and> card {j. j < ss_n s \<and> stale (ss_pc s j)} \<le> ss_sem s"
        using sd nf x(1) m(1) by (auto simp: shutdown_ok_def)
      moreover have "card {j. j < ss_n s \<and> stale (ss_pc s' j)} \<le> card {j. j < ss_n s \<and> stale (ss_pc s j)}"
        by (rule stale_card [OF m(2)]) (use st(3) in simp)
      ultimately show ?thesis using st(1,2) m(1) by simp
    next
      case chk
      obtain j where "j < ss_n s" "fresh (ss_pc s j)" "ss_pc s j \<noteq> WCheckR" using run_nonzero_fresh [OF inv gone chk(2)] by blast
      then have "fresh (ss_pc s' j)" using same chk(1) by (cases "j = ?i") auto
      then show ?thesis using nofresh m(1) \<open>j < ss_n s\<close> by auto
    next
      case out
      have "card {j. j < ss_n s \<and> stale (ss_pc s' j)} \<le> card {j. j < ss_n s}" by (rule card_mono) auto
      then show ?thesis using out m(1) by simp
    qed
  qed
  then show ?thesis unfolding shutdown_ok_def by blast
qed

interpretation shutdown: step_invariant sched_step sched_started "\<lambda>s. sched_inv s \<and> shutdown_ok s"
proof unfold_locales
  fix s assume s: "sched_started s"
  have pcs: "ss_pc (fold fev_sched_put fs u) = ss_pc u" for fs u
    by (induction fs arbitrary: u) simp_all
  have "ss_pc s = (\<lambda>_. WLocal)" using s by (auto simp: sched_started_def sched_start_def pcs sched_sys_init_def)
  then have "shutdown_ok s" by (simp add: shutdown_ok_def)
  moreover have "sched_inv s" using s by (rule sched.inv_init)
  ultimately show "sched_inv s \<and> shutdown_ok s" by blast
qed (blast intro: sched_step_inv shutdown_step)

lemma step_enabled:
  assumes "\<And>f. ss_pc s i \<noteq> WRunning f" "ss_pc s i \<noteq> WExit" "ss_pc s i = WPoll \<longrightarrow> ss_intr s" "ss_pc s i = WSem \<longrightarrow> ss_sem s > 0"
    and "ss_flock s \<longrightarrow> moving (ss_pc s i) \<or> stale (ss_pc s i)"
  shows "\<exists>s'. sched_event_step (Step i) s = Some s'"
  using assms
  by (cases "ss_pc s i"; cases "ss_queue s i")
     (auto simp: steal_worker_step_def fev_wake_step_eq fev_sched_steal_step_def fev_sched_work_step_def fev_sched_sleep_step_def fiber_step_def
        steal_push_step_def steal_move_step_def bounded_steal_step_def Let_def split: prod.split list.split steal_strategy.split)

lemma moving_fresh: "moving p \<Longrightarrow> fresh p"
  by (cases p) (simp_all add: fresh_def)


section \<open>Witnesses\<close>

text \<open>Two workers, one fiber: the second worker finds nothing to steal and sleeps while the first runs the fiber.\<close>

definition two_workers :: sched_sys where
  "two_workers = sched_start StealLocking 2 8 (\<lambda>_. 1) [7]"

lemma two_workers_started: "sched_started two_workers"
  unfolding sched_started_def two_workers_def
  by (rule exI [of _ StealLocking], rule exI [of _ 2], rule exI [of _ 8], rule exI [of _ "\<lambda>_. 1"], rule exI [of _ "[7]"]) simp

lemmas sched_eval = two_workers_def sched_start_def sched_sys_init_def fev_sched_put_def fev_push_one_def sched_step_def steal_worker_step_def fev_sched_work_step_def
  fev_sched_sleep_step_def fev_sched_steal_step_def fev_wake_step_eq fiber_step_def sgoto_def sassert_def Let_def victim_def
  fev_sched_wake_all_workers_def
  FEV_RANDOM_NEXT_def FEV_RANDOM_MULTIPLIER_def FEV_RANDOM_MODULUS_def word_le_nat_alt

definition one_fiber_run :: "sched_event list" where
  "one_fiber_run =
     [Step 0, Step 1, Step 1, Step 1, Step 1, Step 1, Step 1, Step 1, Step 1, Step 1, Step 1, Step 1, Step 1]"

text \<open>
  Two workers with bounded queues for two fibers, three fibers: the third one is in the fallback queue, from where
  the second worker takes it.
\<close>

definition bounded_workers :: sched_sys where
  "bounded_workers = sched_start (StealSpmc 2) 2 1 (\<lambda>_. 1) [7, 8, 9]"

lemma bounded_workers_started: "sched_started bounded_workers"
  unfolding sched_started_def bounded_workers_def
  by (rule exI [of _ "StealSpmc 2"], rule exI [of _ 2], rule exI [of _ 1], rule exI [of _ "\<lambda>_. 1"], rule exI [of _ "[7, 8, 9]"]) simp

definition fallback_steal_run :: "sched_event list" where
  "fallback_steal_run = [Step 0, Step 1, Step 1, Step 1, Step 1, Step 1, Step 1, Step 1, Step 1]"

theorem fev_sched_safe_witness:
  "\<exists>s. run sched_step bounded_workers fallback_steal_run = Some s \<and> ss_fallback bounded_workers = [9] \<and> ss_fallback s = [] \<and>
     ss_pc s 0 = WRunning 7 \<and> ss_pc s 1 = WRunning 9 \<and> \<not> ss_fault s"
proof -
  obtain s where s: "run sched_step bounded_workers fallback_steal_run = Some s" "ss_pc s 0 = WRunning 7" "ss_pc s 1 = WRunning 9"
      "ss_fallback s = []"
    by (simp add: fallback_steal_run_def bounded_workers_def sched_eval bounded_push_def steal_push_fallback_def steal_move_step_def)
  moreover have "ss_fallback bounded_workers = [9]"
    by (simp add: bounded_workers_def sched_eval bounded_push_def steal_push_fallback_def)
  ultimately show ?thesis using fev_sched_safe [OF bounded_workers_started s(1)] by blast
qed

definition all_asleep_run :: "sched_event list" where
  "all_asleep_run = one_fiber_run @
     [Wait 0, Step 0, Step 0, Step 0, Step 0, Step 0, Step 0, Step 0, Step 0, Step 0, Step 0, Step 0, Step 0, Step 0]"

theorem fev_sched_no_stranded_fiber_witness:
  "\<exists>s. run sched_step two_workers all_asleep_run = Some s \<and> ss_pc s 0 = WSem \<and> ss_pc s 1 = WPoll \<and> ss_parked s = {#7#} \<and>
     (\<forall>i < 2. ss_queue s i = []) \<and> ss_fallback s = []"
proof -
  obtain s where s: "run sched_step two_workers all_asleep_run = Some s" "ss_pc s 0 = WSem" "ss_pc s 1 = WPoll"
      "ss_parked s = {#7#}" "ss_n s = 2"
    by (simp add: all_asleep_run_def one_fiber_run_def sched_eval)
  have "\<forall>i < ss_n s. ss_pc s i = WPoll \<or> ss_pc s i = WSem" using s(2,3,5) by (auto simp: less_2_cases_iff)
  with fev_sched_no_stranded_fiber [OF two_workers_started s(1)] s show ?thesis by auto
qed

definition one_exit_run :: "sched_event list" where
  "one_exit_run = one_fiber_run @
     [Exit 0, Step 0, Step 0, Step 0, Step 0, Step 0, Step 0, Step 0, Step 0, Step 0, Step 0, Step 0, Step 0]"

lemma one_exit_state:
  "\<exists>s. run sched_step two_workers one_exit_run = Some s \<and> ss_pc s 0 = WExit \<and> ss_pc s 1 = WPoll \<and> ss_n s = 2"
  by (simp add: one_exit_run_def one_fiber_run_def sched_eval)

theorem fev_sched_leaves_when_done_witness:
  "\<exists>s. run sched_step two_workers one_exit_run = Some s \<and> ss_pc s 0 = WExit \<and> ss_all s = {#}"
proof -
  obtain s where s: "run sched_step two_workers one_exit_run = Some s" "ss_pc s 0 = WExit" "ss_n s = 2"
    using one_exit_state by blast
  with fev_sched_leaves_when_done [OF two_workers_started s(1), of 0] show ?thesis by auto
qed


end
