(* ===== verification/Shr_Sched.thy ===== *)
theory Shr_Sched
  imports Sched_Common
begin

text \<open>
  The work-sharing schedulers (\<open>fev_sched_shr_locking.c\<close>, \<open>fev_sched_shr_bounded_mpmc.c\<close>,
  \<open>fev_sched_shr_simple_mpmc.c\<close> with their \<open>_impl.h\<close>, \<open>fev_sched_impl.h\<close> and \<open>fev_sched_common.c\<close>): one run queue
  for all workers, as a concurrent system of \<open>n\<close> workers. The three strategies have the same work loop; they
  differ in how fibers are pushed and popped.
\<close>

section \<open>The system\<close>

text \<open>
  The run queue of the strategy: guarded by a lock; the unbounded lock-free queue; the bounded lock-free queue of
  the given capacity, which has a fallback queue with a lock. A lock-free queue may look empty, and the bounded
  one full, while an operation on it is in progress.
\<close>

datatype shr_strategy = ShrLocking | ShrSimple | ShrBounded nat

datatype shr_resume =
    KFiber fiber_ptr \<comment> \<open>back in the running fiber\<close>
  | KNext \<comment> \<open>the fiber yielded\<close>
  | KCheck \<comment> \<open>in \<open>fev_poller_check\<close>\<close>
  | KPoll \<comment> \<open>in \<open>fev_poller_wait\<close>, counted as waiting\<close>

datatype shr_pc =
    HGet \<comment> \<open>at \<open>get_fiber\<close>\<close>
  | HRunning fiber_ptr
  | HNext \<comment> \<open>back from a fiber\<close>
  | HCheck \<comment> \<open>at \<open>check_poller\<close>\<close>
  | HFallback \<comment> \<open>at the load of \<open>fallback_queue_len\<close>\<close>
  | HMove \<comment> \<open>at the lock in \<open>fev_move_from_fallback\<close>\<close>
  | HMoving "fiber_ptr list" u32 u32 \<comment> \<open>what is left, the number pushed, \<open>len\<close>\<close>
  | HLoadR
  | HStoreB u32 \<comment> \<open>\<open>num_run_fibers\<close>\<close>
  | HDone
  | HAddW
  | HXchg
  | HPollWait \<comment> \<open>asleep in \<open>fev_poller_wait\<close>\<close>
  | HPollStore
  | HSem \<comment> \<open>asleep in \<open>fev_thr_sem_wait\<close>\<close>
  | HSubW
  | HOut
  | HExit
  | HPush shr_resume u32 "fiber_ptr list" \<comment> \<open>\<open>num_fibers\<close> and those not pushed yet\<close>
  | HFall shr_resume u32 "fiber_ptr list"
  | HAddR shr_resume u32
  | HLoadW shr_resume u32
  | HSlow shr_resume u32 u32
  | HParking fiber_ptr
  | HYield fiber_ptr
  | HExiting fiber_ptr
  | HExited

text \<open>Ghosts: the fibers that are suspended, and all fibers that exist.\<close>

record shr_sys =
  sh_n :: nat
  sh_strategy :: shr_strategy
  sh_queue :: "fiber_ptr list"
  sh_fallback :: "fiber_ptr list"
  sh_flen :: u32
  sh_flock :: bool
  sh_backoff :: u32
  sh_waiting :: u32
  sh_pwait :: bool
  sh_run :: u32
  sh_fibers :: u32
  sh_sem :: nat
  sh_intr :: bool
  sh_pc :: "nat \<Rightarrow> shr_pc"
  sh_fault :: bool
  sh_parked :: "fiber_ptr multiset"
  sh_all :: "fiber_ptr multiset"

definition hgoto :: "shr_sys \<Rightarrow> nat \<Rightarrow> shr_pc \<Rightarrow> shr_sys" where
  "hgoto s i p = s\<lparr>sh_pc := (sh_pc s)(i := p)\<rparr>"

definition hassert :: "bool \<Rightarrow> shr_sys \<Rightarrow> shr_sys" where
  "hassert b s = s\<lparr>sh_fault := sh_fault s \<or> \<not> b\<rparr>"

fun shr_resume_at :: "shr_resume \<Rightarrow> shr_pc" where
  "shr_resume_at (KFiber f) = HRunning f"
| "shr_resume_at KNext = HNext"
| "shr_resume_at KCheck = HCheck"
| "shr_resume_at KPoll = HPollStore"

text \<open>
  One attempt to push a fiber into the run queue; \<open>ok\<close> tells whether the lock-free queue lets it in, when it has
  room.
\<close>

fun shr_room :: "shr_strategy \<Rightarrow> bool \<Rightarrow> nat \<Rightarrow> bool" where
  "shr_room (ShrBounded c) ok len \<longleftrightarrow> ok \<and> len < c"
| "shr_room _ ok len \<longleftrightarrow> True"

text \<open>
  \<open>fev_push_one\<close> and \<open>fev_push_stq\<close>: with a lock all fibers are appended at once; otherwise one after the other, and
  what a bounded queue does not take goes to the fallback queue (\<open>fev_push_one_fallback\<close>, \<open>fev_push_stq_fallback\<close>).
  Then \<open>fev_wake_up_waiting_workers\<close>.
\<close>

definition locking_push_stq :: "nat \<Rightarrow> shr_resume \<Rightarrow> u32 \<Rightarrow> fiber_ptr list \<Rightarrow> shr_sys \<Rightarrow> shr_sys" where
  "locking_push_stq i c m fs s = hgoto ((hassert (fs \<noteq> []) s)\<lparr>sh_queue := sh_queue s @ fs\<rparr>) i (HAddR c m)"

definition lock_free_push_step :: "nat \<Rightarrow> shr_resume \<Rightarrow> u32 \<Rightarrow> fiber_ptr list \<Rightarrow> bool \<Rightarrow> shr_sys \<Rightarrow> shr_sys" where
  "lock_free_push_step i c m fs ok s =
     (case fs of
        [] \<Rightarrow> hgoto s i (HAddR c m)
      | f # fs' \<Rightarrow>
          if shr_room (sh_strategy s) ok (length (sh_queue s))
          then hgoto (s\<lparr>sh_queue := sh_queue s @ [f]\<rparr>) i (HPush c m fs')
          else hgoto s i (HFall c m fs))"

definition fev_push_stq_fallback :: "nat \<Rightarrow> shr_resume \<Rightarrow> u32 \<Rightarrow> fiber_ptr list \<Rightarrow> shr_sys \<Rightarrow> shr_sys option" where
  "fev_push_stq_fallback i c m fs s =
     (if sh_flock s then None
      else Some (hgoto ((hassert (fs \<noteq> []) s)\<lparr>sh_fallback := sh_fallback s @ fs, sh_flen := sh_flen s + of_nat (length fs)\<rparr>) i (HAddR c m)))"

definition shr_push_step :: "nat \<Rightarrow> bool \<Rightarrow> shr_sys \<Rightarrow> shr_sys option" where
  "shr_push_step i ok s =
     (case sh_pc s i of
        HPush c m fs \<Rightarrow> Some (if sh_strategy s = ShrLocking then locking_push_stq i c m fs s else lock_free_push_step i c m fs ok s)
      | HFall c m fs \<Rightarrow> fev_push_stq_fallback i c m fs s
      | _ \<Rightarrow> None)"

lemmas push_defs = locking_push_stq_def lock_free_push_step_def fev_push_stq_fallback_def

definition shr_wake_all_workers :: "shr_sys \<Rightarrow> shr_sys" where
  "shr_wake_all_workers s = s\<lparr>sh_intr := True, sh_sem := sh_sem s + sh_n s\<rparr>"

definition shr_wake_step :: "nat \<Rightarrow> shr_sys \<Rightarrow> shr_sys option" where
  "shr_wake_step i s =
     (case sh_pc s i of
        HAddR c m \<Rightarrow> Some (hgoto (s\<lparr>sh_run := sh_run s + m\<rparr>) i (HLoadW c m))
      | HLoadW c m \<Rightarrow> Some (hgoto s i (if sh_waiting s = 0 then shr_resume_at c else HSlow c (sh_waiting s) m))
      | HSlow c w m \<Rightarrow>
          (let (intr, posts) = fev_wake_workers_slow (sh_pwait s) w m
           in Some (hgoto (s\<lparr>sh_intr := sh_intr s \<or> intr, sh_sem := sh_sem s + unat posts\<rparr>) i (shr_resume_at c)))
      | _ \<Rightarrow> None)"

text \<open>\<open>fev_move_from_fallback\<close>: the lock is held while the fibers are pushed one after the other.\<close>

definition fev_move_from_fallback_step :: "nat \<Rightarrow> bool \<Rightarrow> shr_sys \<Rightarrow> shr_sys option" where
  "fev_move_from_fallback_step i ok s =
     (case sh_pc s i of
        HMove \<Rightarrow>
          if sh_flock s then None
          else if sh_flen s > 0
               then Some (hgoto (s\<lparr>sh_flock := True, sh_fallback := []\<rparr>) i (HMoving (sh_fallback s) 0 (sh_flen s)))
               else Some (hgoto s i HLoadR)
      | HMoving fs k len \<Rightarrow>
          (case fs of
             f # fs' \<Rightarrow>
               if shr_room (sh_strategy s) ok (length (sh_queue s))
               then Some (hgoto (s\<lparr>sh_queue := sh_queue s @ [f]\<rparr>) i (HMoving fs' (k + 1) len))
               else Some (hgoto ((hassert (k \<noteq> len \<and> k \<le> len) s)\<lparr>sh_flock := False, sh_fallback := fs, sh_flen := len - k\<rparr>) i HLoadR)
           | [] \<Rightarrow> Some (hgoto ((hassert (k = len) s)\<lparr>sh_flock := False, sh_fallback := [], sh_flen := len - k\<rparr>) i HLoadR))
      | _ \<Rightarrow> None)"

text \<open>\<open>fev_sched_work\<close>, up to the decision to sleep.\<close>

definition shr_work_step :: "nat \<Rightarrow> bool \<Rightarrow> shr_sys \<Rightarrow> shr_sys option" where
  "shr_work_step i ok s =
     (case sh_pc s i of
        HNext \<Rightarrow> Some (hgoto (s\<lparr>sh_backoff := sh_backoff s - 1\<rparr>) i (if sh_backoff s = 1 then HCheck else HGet))
      | HGet \<Rightarrow>
          (case sh_queue s of
             [] \<Rightarrow> Some (hgoto s i HCheck)
           | f # fs \<Rightarrow>
               if sh_strategy s \<noteq> ShrLocking \<and> \<not> ok then Some (hgoto s i HCheck)
               else Some (hgoto (s\<lparr>sh_queue := fs\<rparr>) i (HRunning f)))
      | HCheck \<Rightarrow> Some (hgoto s i (case sh_strategy s of ShrBounded _ \<Rightarrow> HFallback | _ \<Rightarrow> HLoadR))
      | HFallback \<Rightarrow> Some (hgoto s i (if sh_flen s > 0 then HMove else HLoadR))
      | HLoadR \<Rightarrow> Some (hgoto s i (HStoreB (sh_run s)))
      | HStoreB r \<Rightarrow> Some (hgoto (s\<lparr>sh_backoff := r\<rparr>) i (if r > 0 then HGet else HDone))
      | HDone \<Rightarrow> Some (hgoto s i (if sh_fibers s = 0 then HOut else HAddW))
      | HOut \<Rightarrow> Some (hgoto (shr_wake_all_workers s) i HExit)
      | _ \<Rightarrow> None)"

definition shr_sleep_step :: "nat \<Rightarrow> shr_sys \<Rightarrow> shr_sys option" where
  "shr_sleep_step i s =
     (case sh_pc s i of
        HAddW \<Rightarrow> Some (hgoto (s\<lparr>sh_waiting := sh_waiting s + 1\<rparr>) i HXchg)
      | HXchg \<Rightarrow> Some (hgoto (s\<lparr>sh_pwait := True\<rparr>) i (if sh_pwait s then HSem else HPollWait))
      | HPollWait \<Rightarrow> if sh_intr s then Some (hgoto (s\<lparr>sh_intr := False\<rparr>) i HPollStore) else None
      | HPollStore \<Rightarrow> Some (hgoto (s\<lparr>sh_pwait := False\<rparr>) i HSubW)
      | HSem \<Rightarrow> if sh_sem s > 0 then Some (hgoto (s\<lparr>sh_sem := sh_sem s - 1\<rparr>) i HSubW) else None
      | HSubW \<Rightarrow> Some (hgoto (s\<lparr>sh_waiting := sh_waiting s - 1\<rparr>) i HGet)
      | _ \<Rightarrow> None)"

text \<open>What a running fiber does, as in theory \<open>Steal_Sched\<close>.\<close>

definition shr_fiber_step :: "nat \<Rightarrow> shr_sys \<Rightarrow> shr_sys option" where
  "shr_fiber_step i s =
     (case sh_pc s i of
        HParking f \<Rightarrow> Some (hgoto (s\<lparr>sh_parked := add_mset f (sh_parked s)\<rparr>) i HNext)
      | HYield f \<Rightarrow> Some (hgoto s i (HPush KNext 1 [f]))
      | HExiting f \<Rightarrow> Some (hgoto (s\<lparr>sh_fibers := sh_fibers s - 1, sh_all := sh_all s - {#f#}\<rparr>) i HExited)
      | HExited \<Rightarrow> Some (hgoto (s\<lparr>sh_run := sh_run s - 1\<rparr>) i HNext)
      | _ \<Rightarrow> None)"

text \<open>Each control point belongs to one of the step functions.\<close>

definition shr_worker_step :: "nat \<Rightarrow> bool \<Rightarrow> shr_sys \<Rightarrow> shr_sys option" where
  "shr_worker_step i ok s =
     (case shr_push_step i ok s of Some s' \<Rightarrow> Some s' | None \<Rightarrow>
     (case shr_wake_step i s of Some s' \<Rightarrow> Some s' | None \<Rightarrow>
     (case fev_move_from_fallback_step i ok s of Some s' \<Rightarrow> Some s' | None \<Rightarrow>
     (case shr_work_step i ok s of Some s' \<Rightarrow> Some s' | None \<Rightarrow>
     (case shr_sleep_step i s of Some s' \<Rightarrow> Some s' | None \<Rightarrow> shr_fiber_step i s)))))"

datatype shr_event =
    HStep nat bool
  | HCreate nat fiber_ptr
  | HWake nat "fiber_ptr list"
  | HWaits nat
  | HYields nat
  | HExits nat
  | HPollCheck nat "fiber_ptr list" \<comment> \<open>\<open>fev_poller_check\<close> finds fibers to wake\<close>
  | HPollEvent nat "fiber_ptr list" \<comment> \<open>\<open>fev_poller_wait\<close> ends with an event\<close>
  | HDrain nat \<comment> \<open>\<open>fev_poller_check\<close> takes the event of an interrupt\<close>

fun shr_event_worker :: "shr_event \<Rightarrow> nat" where
  "shr_event_worker (HStep i _) = i"
| "shr_event_worker (HCreate i _) = i"
| "shr_event_worker (HWake i _) = i"
| "shr_event_worker (HWaits i) = i"
| "shr_event_worker (HYields i) = i"
| "shr_event_worker (HExits i) = i"
| "shr_event_worker (HPollCheck i _) = i"
| "shr_event_worker (HPollEvent i _) = i"
| "shr_event_worker (HDrain i) = i"

definition shr_wake_parked :: "nat \<Rightarrow> shr_resume \<Rightarrow> fiber_ptr list \<Rightarrow> shr_sys \<Rightarrow> shr_sys option" where
  "shr_wake_parked i c fs s =
     (if fs \<noteq> [] \<and> mset fs \<subseteq># sh_parked s
      then Some (hgoto (s\<lparr>sh_parked := sh_parked s - mset fs\<rparr>) i (HPush c (of_nat (length fs)) fs)) else None)"

fun shr_event_step :: "shr_event \<Rightarrow> shr_sys \<Rightarrow> shr_sys option" where
  "shr_event_step (HStep i ok) s = shr_worker_step i ok s"
| "shr_event_step (HCreate i g) s =
     (case sh_pc s i of
        HRunning f \<Rightarrow>
          if g \<notin># sh_all s \<and> size (sh_all s) < 2 ^ 32 - 1
          then Some (hgoto (s\<lparr>sh_fibers := sh_fibers s + 1, sh_all := add_mset g (sh_all s)\<rparr>) i (HPush (KFiber f) 1 [g]))
          else None
      | _ \<Rightarrow> None)"
| "shr_event_step (HWake i fs) s = (case sh_pc s i of HRunning f \<Rightarrow> shr_wake_parked i (KFiber f) fs s | _ \<Rightarrow> None)"
| "shr_event_step (HWaits i) s =
     (case sh_pc s i of HRunning f \<Rightarrow> Some (hgoto (s\<lparr>sh_run := sh_run s - 1\<rparr>) i (HParking f)) | _ \<Rightarrow> None)"
| "shr_event_step (HYields i) s =
     (case sh_pc s i of HRunning f \<Rightarrow> Some (hgoto (s\<lparr>sh_run := sh_run s - 1\<rparr>) i (HYield f)) | _ \<Rightarrow> None)"
| "shr_event_step (HExits i) s = (case sh_pc s i of HRunning f \<Rightarrow> Some (hgoto s i (HExiting f)) | _ \<Rightarrow> None)"
| "shr_event_step (HPollCheck i fs) s = (if sh_pc s i = HCheck then shr_wake_parked i KCheck fs s else None)"
| "shr_event_step (HPollEvent i fs) s =
     (if sh_pc s i = HPollWait \<and> fs = [] then Some (hgoto s i HPollStore)
      else if sh_pc s i = HPollWait \<or> sh_pc s i = HPollStore then shr_wake_parked i KPoll fs s else None)"
| "shr_event_step (HDrain i) s =
     (if sh_pc s i = HCheck \<and> sh_intr s then Some (s\<lparr>sh_intr := False\<rparr>) else None)"

definition shr_step :: "shr_event \<Rightarrow> shr_sys \<Rightarrow> shr_sys option" where
  "shr_step e s = (if shr_event_worker e < sh_n s then shr_event_step e s else None)"

text \<open>
  \<open>fev_sched_init\<close> and, for each fiber created before \<open>fev_sched_run\<close>, \<open>fev_sched_put\<close>, which inserts at the head
  with a lock, and otherwise is \<open>fev_push_one\<close>.
\<close>

definition shr_sys_init :: "nat \<Rightarrow> shr_strategy \<Rightarrow> shr_sys" where
  "shr_sys_init n strategy =
     \<lparr>sh_n = n, sh_strategy = strategy, sh_queue = [], sh_fallback = [], sh_flen = 0, sh_flock = False, sh_backoff = 1,
      sh_waiting = 0, sh_pwait = False, sh_run = 0, sh_fibers = 0, sh_sem = 0, sh_intr = False,
      sh_pc = (\<lambda>_. HGet), sh_fault = False, sh_parked = {#}, sh_all = {#}\<rparr>"

definition locking_put :: "fiber_ptr \<Rightarrow> shr_sys \<Rightarrow> shr_sys" where
  "locking_put f s = s\<lparr>sh_queue := f # sh_queue s, sh_run := sh_run s + 1\<rparr>"

definition simple_put :: "fiber_ptr \<Rightarrow> shr_sys \<Rightarrow> shr_sys" where
  "simple_put f s = s\<lparr>sh_queue := sh_queue s @ [f], sh_run := sh_run s + 1\<rparr>"

definition bounded_put :: "nat \<Rightarrow> fiber_ptr \<Rightarrow> shr_sys \<Rightarrow> shr_sys" where
  "bounded_put c f s =
     (if length (sh_queue s) < c then (hassert (sh_n s > 0) s)\<lparr>sh_queue := sh_queue s @ [f], sh_run := sh_run s + 1\<rparr>
      else (hassert (sh_n s > 0) s)\<lparr>sh_fallback := sh_fallback s @ [f], sh_flen := sh_flen s + 1, sh_run := sh_run s + 1\<rparr>)"

text \<open>\<open>fev_fiber_create\<close> before the scheduler runs: the fiber is counted and put.\<close>

definition shr_put :: "fiber_ptr \<Rightarrow> shr_sys \<Rightarrow> shr_sys" where
  "shr_put f s =
     (let s' = s\<lparr>sh_fibers := sh_fibers s + 1, sh_all := add_mset f (sh_all s)\<rparr>
      in case sh_strategy s of ShrLocking \<Rightarrow> locking_put f s' | ShrSimple \<Rightarrow> simple_put f s' | ShrBounded c \<Rightarrow> bounded_put c f s')"

lemmas put_defs = shr_put_def locking_put_def simple_put_def bounded_put_def Let_def

definition shr_start :: "nat \<Rightarrow> shr_strategy \<Rightarrow> fiber_ptr list \<Rightarrow> shr_sys" where
  "shr_start n strategy fibers = fold shr_put fibers (shr_sys_init n strategy)"

section \<open>The steps, one by one\<close>

lemma shr_worker_cases:
  assumes "shr_worker_step i ok s = Some s'"
  obtains
    (push_all) c m fs where "sh_pc s i = HPush c m fs" "sh_strategy s = ShrLocking"
      "s' = hgoto ((hassert (fs \<noteq> []) s)\<lparr>sh_queue := sh_queue s @ fs\<rparr>) i (HAddR c m)"
  | (pushed) c m where "sh_pc s i = HPush c m []" "sh_strategy s \<noteq> ShrLocking" "s' = hgoto s i (HAddR c m)"
  | (push) c m f fs where "sh_pc s i = HPush c m (f # fs)" "sh_strategy s \<noteq> ShrLocking"
      "s' = hgoto (s\<lparr>sh_queue := sh_queue s @ [f]\<rparr>) i (HPush c m fs)"
  | (push_fails) c m f fs where "sh_pc s i = HPush c m (f # fs)" "s' = hgoto s i (HFall c m (f # fs))"
  | (fall) c m fs where "sh_pc s i = HFall c m fs" "\<not> sh_flock s"
      "s' = hgoto ((hassert (fs \<noteq> []) s)\<lparr>sh_fallback := sh_fallback s @ fs, sh_flen := sh_flen s + of_nat (length fs)\<rparr>) i (HAddR c m)"
  | (addr) c m where "sh_pc s i = HAddR c m" "s' = hgoto (s\<lparr>sh_run := sh_run s + m\<rparr>) i (HLoadW c m)"
  | (nobody) c m where "sh_pc s i = HLoadW c m" "s' = hgoto s i (shr_resume_at c)"
  | (somebody) c m where "sh_pc s i = HLoadW c m" "s' = hgoto s i (HSlow c (sh_waiting s) m)"
  | (slow) c w m intr k where "sh_pc s i = HSlow c w m" "s' = hgoto (s\<lparr>sh_intr := sh_intr s \<or> intr, sh_sem := sh_sem s + k\<rparr>) i (shr_resume_at c)"
  | (move) "sh_pc s i = HMove" "\<not> sh_flock s" "sh_flen s > 0"
      "s' = hgoto (s\<lparr>sh_flock := True, sh_fallback := []\<rparr>) i (HMoving (sh_fallback s) 0 (sh_flen s))"
  | (no_move) "sh_pc s i = HMove" "s' = hgoto s i HLoadR"
  | (moving) f fs k len where "sh_pc s i = HMoving (f # fs) k len" "s' = hgoto (s\<lparr>sh_queue := sh_queue s @ [f]\<rparr>) i (HMoving fs (k + 1) len)"
  | (moved) fs k len where "sh_pc s i = HMoving fs k len"
      "s' = hgoto ((hassert (if fs = [] then k = len else k \<noteq> len \<and> k \<le> len) s)\<lparr>sh_flock := False, sh_fallback := fs, sh_flen := len - k\<rparr>) i HLoadR"
  | (next_step) p where "sh_pc s i = HNext" "p \<in> {HCheck, HGet}" "s' = hgoto (s\<lparr>sh_backoff := sh_backoff s - 1\<rparr>) i p"
  | (empty) "sh_pc s i = HGet" "s' = hgoto s i HCheck"
  | (pop) f fs where "sh_pc s i = HGet" "sh_queue s = f # fs" "s' = hgoto (s\<lparr>sh_queue := fs\<rparr>) i (HRunning f)"
  | (check) p where "sh_pc s i = HCheck" "p \<in> {HFallback, HLoadR}" "s' = hgoto s i p"
  | (fallback) p where "sh_pc s i = HFallback" "p \<in> {HMove, HLoadR}" "s' = hgoto s i p"
  | (load) "sh_pc s i = HLoadR" "s' = hgoto s i (HStoreB (sh_run s))"
  | (store) r where "sh_pc s i = HStoreB r" "s' = hgoto (s\<lparr>sh_backoff := r\<rparr>) i (if r > 0 then HGet else HDone)"
  | (done_step) "sh_pc s i = HDone" "s' = hgoto s i (if sh_fibers s = 0 then HOut else HAddW)"
  | (out) "sh_pc s i = HOut" "s' = hgoto (s\<lparr>sh_intr := True, sh_sem := sh_sem s + sh_n s\<rparr>) i HExit"
  | (addw) "sh_pc s i = HAddW" "s' = hgoto (s\<lparr>sh_waiting := sh_waiting s + 1\<rparr>) i HXchg"
  | (xchg) "sh_pc s i = HXchg" "s' = hgoto (s\<lparr>sh_pwait := True\<rparr>) i (if sh_pwait s then HSem else HPollWait)"
  | (poll) "sh_pc s i = HPollWait" "sh_intr s" "s' = hgoto (s\<lparr>sh_intr := False\<rparr>) i HPollStore"
  | (poll_store) "sh_pc s i = HPollStore" "s' = hgoto (s\<lparr>sh_pwait := False\<rparr>) i HSubW"
  | (sem) "sh_pc s i = HSem" "sh_sem s > 0" "s' = hgoto (s\<lparr>sh_sem := sh_sem s - 1\<rparr>) i HSubW"
  | (subw) "sh_pc s i = HSubW" "s' = hgoto (s\<lparr>sh_waiting := sh_waiting s - 1\<rparr>) i HGet"
  | (park) f where "sh_pc s i = HParking f" "s' = hgoto (s\<lparr>sh_parked := add_mset f (sh_parked s)\<rparr>) i HNext"
  | (yield) f where "sh_pc s i = HYield f" "s' = hgoto s i (HPush KNext 1 [f])"
  | (exiting) f where "sh_pc s i = HExiting f" "s' = hgoto (s\<lparr>sh_fibers := sh_fibers s - 1, sh_all := sh_all s - {#f#}\<rparr>) i HExited"
  | (exited) "sh_pc s i = HExited" "s' = hgoto (s\<lparr>sh_run := sh_run s - 1\<rparr>) i HNext"
proof -
  note d = shr_worker_step_def shr_push_step_def push_defs shr_wake_step_def fev_move_from_fallback_step_def shr_work_step_def shr_sleep_step_def shr_fiber_step_def
    shr_wake_all_workers_def
  show ?thesis
  proof (cases "sh_pc s i")
    case (HPush c m fs)
    then show ?thesis using assms push_all pushed push push_fails by (cases fs) (auto simp: d split: if_splits)
  next
    case (HFall c m fs)
    then show ?thesis using assms fall by (auto simp: d split: if_splits)
  next
    case (HAddR c m)
    then show ?thesis using assms addr by (simp add: d)
  next
    case (HLoadW c m)
    then show ?thesis using assms nobody somebody by (auto simp: d split: if_splits)
  next
    case (HSlow c w m)
    then show ?thesis using assms slow by (auto simp: d split: prod.splits)
  next
    case HMove
    then show ?thesis using assms move no_move by (auto simp: d split: if_splits)
  next
    case (HMoving fs k len)
    then show ?thesis using assms moving moved by (cases fs) (auto simp: d split: if_splits)
  next
    case HNext
    then show ?thesis using assms next_step by (auto simp: d split: if_splits)
  next
    case HGet
    then show ?thesis using assms empty pop by (cases "sh_queue s") (auto simp: d split: if_splits)
  next
    case HCheck
    then show ?thesis using assms check by (auto simp: d split: shr_strategy.splits)
  next
    case HFallback
    then show ?thesis using assms fallback by (auto simp: d split: if_splits)
  next
    case HLoadR
    then show ?thesis using assms load by (simp add: d)
  next
    case (HStoreB r)
    then show ?thesis using assms store by (simp add: d)
  next
    case HDone
    then show ?thesis using assms done_step by (simp add: d)
  next
    case HOut
    then show ?thesis using assms out by (simp add: d)
  next
    case HAddW
    then show ?thesis using assms addw by (simp add: d)
  next
    case HXchg
    then show ?thesis using assms xchg by (simp add: d)
  next
    case HPollWait
    then show ?thesis using assms poll by (simp add: d split: if_splits)
  next
    case HPollStore
    then show ?thesis using assms poll_store by (simp add: d)
  next
    case HSem
    then show ?thesis using assms sem by (simp add: d split: if_splits)
  next
    case HSubW
    then show ?thesis using assms subw by (simp add: d)
  next
    case (HParking f)
    then show ?thesis using assms park by (simp add: d)
  next
    case (HYield f)
    then show ?thesis using assms yield by (simp add: d)
  next
    case (HExiting f)
    then show ?thesis using assms exiting by (simp add: d)
  next
    case HExited
    then show ?thesis using assms exited by (simp add: d)
  qed (use assms in \<open>simp_all add: d\<close>)
qed

section \<open>The invariant\<close>

text \<open>
  What a worker contributes: to the fibers that exist, those it has in its hands; to \<open>num_run_fibers\<close>, those of
  them that are counted less those it has pushed and not counted yet; to \<open>num_waiting\<close>.
\<close>

fun kept :: "shr_resume \<Rightarrow> fiber_ptr multiset" where
  "kept (KFiber f) = {#f#}"
| "kept _ = {#}"

abbreviation kept_num :: "shr_resume \<Rightarrow> u32" where
  "kept_num c \<equiv> of_nat (size (kept c))"

fun shr_carried :: "shr_pc \<Rightarrow> fiber_ptr multiset" where
  "shr_carried (HRunning f) = {#f#}"
| "shr_carried (HMoving fs _ _) = mset fs"
| "shr_carried (HPush c m fs) = kept c + mset fs"
| "shr_carried (HFall c m fs) = kept c + mset fs"
| "shr_carried (HAddR c m) = kept c"
| "shr_carried (HLoadW c m) = kept c"
| "shr_carried (HSlow c w m) = kept c"
| "shr_carried (HParking f) = {#f#}"
| "shr_carried (HYield f) = {#f#}"
| "shr_carried (HExiting f) = {#f#}"
| "shr_carried _ = {#}"

fun run_of :: "shr_pc \<Rightarrow> u32" where
  "run_of (HRunning f) = 1"
| "run_of (HMoving fs _ _) = of_nat (length fs)"
| "run_of (HPush c m fs) = kept_num c + of_nat (length fs) - m"
| "run_of (HFall c m fs) = kept_num c + of_nat (length fs) - m"
| "run_of (HAddR c m) = kept_num c - m"
| "run_of (HLoadW c m) = kept_num c"
| "run_of (HSlow c w m) = kept_num c"
| "run_of (HExiting f) = 1"
| "run_of HExited = 1"
| "run_of _ = 0"

definition kept_waits :: "shr_resume \<Rightarrow> u32" where
  "kept_waits c = (if c = KPoll then 1 else 0)"

fun waits_of :: "shr_pc \<Rightarrow> u32" where
  "waits_of HXchg = 1"
| "waits_of HPollWait = 1"
| "waits_of HPollStore = 1"
| "waits_of HSem = 1"
| "waits_of HSubW = 1"
| "waits_of (HPush c m fs) = kept_waits c"
| "waits_of (HFall c m fs) = kept_waits c"
| "waits_of (HAddR c m) = kept_waits c"
| "waits_of (HLoadW c m) = kept_waits c"
| "waits_of (HSlow c w m) = kept_waits c"
| "waits_of _ = 0"

definition fibers_ok :: "shr_sys \<Rightarrow> bool" where
  "fibers_ok s \<longleftrightarrow>
     sh_all s = mset (sh_queue s) + mset (sh_fallback s) + sh_parked s + wsum (sh_n s) shr_carried (sh_pc s)"

definition size_ok :: "shr_sys \<Rightarrow> bool" where
  "size_ok s \<longleftrightarrow> sh_fibers s = of_nat (size (sh_all s)) \<and> size (sh_all s) < 2 ^ 32"

definition run_ok :: "shr_sys \<Rightarrow> bool" where
  "run_ok s \<longleftrightarrow> sh_run s = of_nat (length (sh_queue s)) + of_nat (length (sh_fallback s)) + wsum (sh_n s) run_of (sh_pc s)"

definition waiting_ok :: "shr_sys \<Rightarrow> bool" where
  "waiting_ok s \<longleftrightarrow> sh_waiting s = wsum (sh_n s) waits_of (sh_pc s)"

lemma resume_simps [simp]:
  "shr_carried (shr_resume_at c) = kept c" "run_of (shr_resume_at c) = kept_num c" "waits_of (shr_resume_at c) = kept_waits c"
  by (cases c; simp add: kept_waits_def)+

lemmas hdefs = hgoto_def hassert_def

lemma kept_waits_simps [simp]: "kept_waits (KFiber f) = 0" "kept_waits KNext = 0" "kept_waits KCheck = 0" "kept_waits KPoll = 1"
  by (simp_all add: kept_waits_def)

text \<open>The lock of the fallback queue, and what its holder has.\<close>

fun moving_pc :: "shr_pc \<Rightarrow> bool" where
  "moving_pc (HMoving _ _ _) \<longleftrightarrow> True"
| "moving_pc _ \<longleftrightarrow> False"

fun shr_shape :: "shr_strategy \<Rightarrow> shr_pc \<Rightarrow> bool" where
  "shr_shape st (HMoving fs k len) \<longleftrightarrow> unat k + length fs = unat len"
| "shr_shape st (HPush c m fs) \<longleftrightarrow> st = ShrLocking \<longrightarrow> fs \<noteq> []"
| "shr_shape st (HFall c m fs) \<longleftrightarrow> fs \<noteq> []"
| "shr_shape st _ \<longleftrightarrow> True"

definition shape_ok :: "shr_sys \<Rightarrow> bool" where
  "shape_ok s \<longleftrightarrow> (\<forall>i < sh_n s. shr_shape (sh_strategy s) (sh_pc s i))"

definition lock_ok :: "shr_sys \<Rightarrow> bool" where
  "lock_ok s \<longleftrightarrow>
     (\<forall>i < sh_n s. \<forall>j < sh_n s. moving_pc (sh_pc s i) \<longrightarrow> moving_pc (sh_pc s j) \<longrightarrow> i = j) \<and>
     (sh_flock s \<longleftrightarrow> (\<exists>i < sh_n s. moving_pc (sh_pc s i))) \<and> (sh_flock s \<longrightarrow> sh_fallback s = []) \<and>
     (\<not> sh_flock s \<longrightarrow> unat (sh_flen s) = length (sh_fallback s))"

lemma moving_facts:
  assumes "lock_ok s" "i < sh_n s" "sh_pc s i = HMoving fs k len"
  shows "sh_fallback s = []" "sh_flock s" "j < sh_n s \<Longrightarrow> moving_pc (sh_pc s j) \<Longrightarrow> j = i"
proof -
  have m: "moving_pc (sh_pc s i)" using assms(3) by simp
  show "sh_flock s" using assms(1,2) m unfolding lock_ok_def by blast
  then show "sh_fallback s = []" using assms(1) unfolding lock_ok_def by blast
  show "j < sh_n s \<Longrightarrow> moving_pc (sh_pc s j) \<Longrightarrow> j = i" using assms(1,2) m unfolding lock_ok_def by blast
qed

lemma run_worker: "run_ok s \<Longrightarrow> lock_ok s \<Longrightarrow> i < sh_n s \<Longrightarrow> shr_worker_step i ok s = Some s' \<Longrightarrow> run_ok s'"
  by (erule shr_worker_cases; simp add: run_ok_def hdefs wsum_upd wsum_split [of i _ run_of "sh_pc s"])
     (auto simp: wsum_upd moving_facts)

lemma waiting_worker: "waiting_ok s \<Longrightarrow> i < sh_n s \<Longrightarrow> shr_worker_step i ok s = Some s' \<Longrightarrow> waiting_ok s'"
  by (erule shr_worker_cases; simp add: waiting_ok_def hdefs wsum_upd wsum_split [of i _ waits_of "sh_pc s"])
     (auto simp: wsum_upd)

lemma fibers_worker: "fibers_ok s \<Longrightarrow> lock_ok s \<Longrightarrow> i < sh_n s \<Longrightarrow> shr_worker_step i ok s = Some s' \<Longrightarrow> fibers_ok s'"
  by (erule shr_worker_cases; simp add: fibers_ok_def hdefs wsum_upd wsum_split [of i _ shr_carried "sh_pc s"])
     (auto simp: wsum_upd moving_facts)

lemma shr_carried_in_all:
  assumes "fibers_ok s" "i < sh_n s"
  shows "shr_carried (sh_pc s i) \<subseteq># sh_all s"
  using assms by (simp add: fibers_ok_def wsum_split [of i])

lemma size_worker:
  assumes "size_ok s" "fibers_ok s" "i < sh_n s" "shr_worker_step i ok s = Some s'"
  shows "size_ok s'"
  using assms(4)
proof (cases rule: shr_worker_cases)
  case (exiting f)
  then have "f \<in># sh_all s" using shr_carried_in_all [OF assms(2,3)] by simp
  then have "size (sh_all s) = Suc (size (sh_all s - {#f#}))" by (simp add: size_Suc_Diff1)
  then show ?thesis using exiting assms(1) by (simp add: size_ok_def hdefs)
qed (use assms(1) in \<open>simp_all add: size_ok_def hdefs\<close>)

lemma shape_worker:
  assumes "shape_ok s" "lock_ok s" "i < sh_n s" "shr_worker_step i ok s = Some s'"
  shows "shape_ok s'"
proof -
  have sh: "shr_shape (sh_strategy s) (sh_pc s i)" using assms(1,3) by (simp add: shape_ok_def)
  have r: "shr_shape st (shr_resume_at c)" for st c by (cases c) simp_all
  have "shr_shape (sh_strategy s') (sh_pc s' i) \<and> sh_strategy s' = sh_strategy s \<and> sh_n s' = sh_n s \<and> (\<forall>j. j \<noteq> i \<longrightarrow> sh_pc s' j = sh_pc s j)"
    using assms(4)
  proof (cases rule: shr_worker_cases)
    case (moving f fs k len)
    have "unat len < 2 ^ 32" using unsigned_less [of len] by simp
    then have "Suc (unat k) < 2 ^ 32" using sh moving(1) by simp
    then have "unat (k + 1) = Suc (unat k)" by (simp add: unat_word_ariths)
    then show ?thesis using sh moving by (simp add: hdefs)
  next
    case move
    then show ?thesis using assms(2) by (simp add: hdefs lock_ok_def)
  qed (use sh r in \<open>auto simp: hdefs\<close>)
  then show ?thesis using assms(1) unfolding shape_ok_def by metis
qed

lemma lock_same:
  assumes "lock_ok s" "i < sh_n s" "sh_n s' = sh_n s" "sh_pc s' = (sh_pc s)(i := p)" "\<not> moving_pc (sh_pc s i)" "\<not> moving_pc p"
    and "sh_flock s' = sh_flock s" "sh_fallback s' = sh_fallback s" "sh_flen s' = sh_flen s"
  shows "lock_ok s'"
proof -
  have "moving_pc (sh_pc s' j) = moving_pc (sh_pc s j)" for j using assms(4-6) by auto
  then show ?thesis using assms(1) by (simp add: lock_ok_def assms(3,7-9))
qed

lemma lock_worker:
  assumes "lock_ok s" "shape_ok s" "fibers_ok s" "size_ok s" and i: "i < sh_n s" and step: "shr_worker_step i ok s = Some s'"
  shows "lock_ok s'"
proof -
  have sh: "shr_shape (sh_strategy s) (sh_pc s i)" using assms(2) i by (simp add: shape_ok_def)
  have small: "unat (sh_flen s) = length (sh_fallback s) \<Longrightarrow> length (sh_fallback s) + length fs < 2 ^ 32" if "sh_pc s i = HFall c m fs" for c m fs
  proof -
    have "mset (sh_fallback s) + mset fs \<subseteq># sh_all s" using assms(3) that by (simp add: fibers_ok_def wsum_split [OF i])
    then have "length (sh_fallback s) + length fs \<le> size (sh_all s)" using size_mset_mono by fastforce
    then show ?thesis using assms(4) by (simp add: size_ok_def)
  qed
  have r: "\<not> moving_pc (shr_resume_at c)" for c by (cases c) simp_all
  show ?thesis using step
  proof (cases rule: shr_worker_cases)
    case (fall c m fs)
    then have "unat (sh_flen s) = length (sh_fallback s)" using assms(1) by (simp add: lock_ok_def)
    then have "unat (sh_flen s + of_nat (length fs)) = length (sh_fallback s @ fs)"
      using small [OF fall(1)] by (simp add: unat_word_ariths unat_of_nat)
    moreover have "moving_pc (sh_pc s' j) = moving_pc (sh_pc s j)" for j using fall by (auto simp: hdefs)
    ultimately show ?thesis using assms(1) fall by (simp add: lock_ok_def hdefs)
  next
    case move
    then have none: "\<not> moving_pc (sh_pc s j)" if "j < sh_n s" for j using assms(1) that by (auto simp: lock_ok_def)
    have "moving_pc (sh_pc s' j) \<longleftrightarrow> j = i" if "j < sh_n s" for j using none [OF that] move by (simp add: hdefs)
    then show ?thesis using i move unfolding lock_ok_def by (auto simp: hdefs)
  next
    case (moving f fs k len)
    then have "moving_pc (sh_pc s' j) = moving_pc (sh_pc s j)" for j by (simp add: hdefs)
    then show ?thesis using assms(1) moving by (simp add: lock_ok_def hdefs)
  next
    case (moved fs k len)
    note f = moving_facts [OF assms(1) i moved(1)]
    have none: "\<not> moving_pc (sh_pc s' j)" if "j < sh_n s" for j using f(3) [OF that] moved(2) by (auto simp: hdefs)
    have "k \<le> len" using sh moved(1) by (simp add: word_le_nat_alt)
    then have "unat (len - k) = unat len - unat k" by (rule unat_sub)
    then have "unat (len - k) = length fs" using sh moved(1) by simp
    then show ?thesis using none moved(2) unfolding lock_ok_def by (auto simp: hdefs)
  qed (use lock_same [OF assms(1) i] r in \<open>auto simp: hdefs\<close>)
qed

lemma no_fault_worker:
  assumes "shape_ok s" "\<not> sh_fault s" and i: "i < sh_n s" and step: "shr_worker_step i ok s = Some s'"
  shows "\<not> sh_fault s'"
proof -
  have sh: "shr_shape (sh_strategy s) (sh_pc s i)" using assms(1) i by (simp add: shape_ok_def)
  show ?thesis using step
  proof (cases rule: shr_worker_cases)
    case (moved fs k len)
    then have "if fs = [] then k = len else k \<noteq> len \<and> k \<le> len"
      using sh by (auto simp: word_le_nat_alt word_unat_eq_iff)
    then show ?thesis using moved(2) assms(2) by (simp add: hdefs)
  qed (use sh assms(2) in \<open>auto simp: hdefs\<close>)
qed

text \<open>
  A worker is committed to sleep, or to leave, once it has read \<open>num_run_fibers = 0\<close>. While there is something to
  run, some worker is not.
\<close>

fun committed :: "shr_pc \<Rightarrow> bool" where
  "committed (HStoreB r) \<longleftrightarrow> r = 0"
| "committed HDone \<longleftrightarrow> True"
| "committed HAddW \<longleftrightarrow> True"
| "committed HXchg \<longleftrightarrow> True"
| "committed HPollWait \<longleftrightarrow> True"
| "committed HSem \<longleftrightarrow> True"
| "committed HOut \<longleftrightarrow> True"
| "committed HExit \<longleftrightarrow> True"
| "committed _ \<longleftrightarrow> False"

definition awake_ok :: "shr_sys \<Rightarrow> bool" where
  "awake_ok s \<longleftrightarrow> (\<forall>i < sh_n s. committed (sh_pc s i)) \<longrightarrow> sh_queue s = [] \<and> sh_fallback s = []"

lemma committed_zero: "committed p \<Longrightarrow> run_of p = 0 \<and> shr_carried p = {#} \<and> \<not> moving_pc p"
  by (cases p) simp_all

lemma all_committed_empty:
  assumes "run_ok s" "fibers_ok s" "size_ok s" "sh_run s = 0" "\<And>j. j < sh_n s \<Longrightarrow> run_of (sh_pc s j) = 0"
  shows "sh_queue s = [] \<and> sh_fallback s = []"
proof -
  have "wsum (sh_n s) run_of (sh_pc s) = 0" by (rule wsum_0) (use assms(5) in blast)
  then have "(of_nat (length (sh_queue s) + length (sh_fallback s)) :: u32) = 0" using assms(1,4) by (simp add: run_ok_def)
  moreover have "length (sh_queue s) + length (sh_fallback s) \<le> size (sh_all s)" using assms(2) by (simp add: fibers_ok_def)
  then have "length (sh_queue s) + length (sh_fallback s) < 2 ^ 32" using assms(3) by (simp add: size_ok_def)
  then have "unat (of_nat (length (sh_queue s) + length (sh_fallback s)) :: u32) = length (sh_queue s) + length (sh_fallback s)"
    by (simp add: unat_of_nat del: of_nat_add)
  ultimately have "length (sh_queue s) + length (sh_fallback s) = 0" by (simp del: of_nat_add)
  then show ?thesis by simp
qed

lemma awake_worker:
  assumes "awake_ok s" "run_ok s" "fibers_ok s" "size_ok s" and i: "i < sh_n s" and step: "shr_worker_step i ok s = Some s'"
  shows "awake_ok s'"
  unfolding awake_ok_def
proof
  assume all: "\<forall>i < sh_n s'. committed (sh_pc s' i)"
  have frame: "sh_n s' = sh_n s \<and> (\<forall>j. j \<noteq> i \<longrightarrow> sh_pc s' j = sh_pc s j)" using step by (cases rule: shr_worker_cases) (simp_all add: hdefs)
  then have ci: "committed (sh_pc s' i)" and others: "\<And>j. j < sh_n s \<Longrightarrow> j \<noteq> i \<Longrightarrow> committed (sh_pc s j)"
    using all i by auto
  have e: "sh_queue s = [] \<and> sh_fallback s = []" if "committed (sh_pc s i)"
    using assms(1) others that unfolding awake_ok_def by blast
  have r: "\<not> committed (shr_resume_at c)" for c by (cases c) simp_all
  show "sh_queue s' = [] \<and> sh_fallback s' = []" using step
  proof (cases rule: shr_worker_cases)
    case load
    have "sh_run s = 0" using ci load by (simp add: hdefs)
    moreover have "run_of (sh_pc s j) = 0" if "j < sh_n s" for j
      using others [OF that] committed_zero load(1) by (cases "j = i") auto
    ultimately have "sh_queue s = [] \<and> sh_fallback s = []" by (rule all_committed_empty [OF assms(2-4)])
    then show ?thesis using load by (simp add: hdefs)
  qed (use ci e r in \<open>auto simp: hdefs word_greater_zero_iff split: if_splits\<close>)
qed

text \<open>
  Leaving: a worker leaves when no fiber exists. Once a worker has left, the others do not go to sleep any more,
  except those that have passed the check of \<open>num_fibers\<close> before; there are enough posts of the semaphore for these,
  and the poller is interrupted or will be.
\<close>

definition done_ok :: "shr_sys \<Rightarrow> bool" where
  "done_ok s \<longleftrightarrow> (\<forall>i < sh_n s. sh_pc s i = HOut \<or> sh_pc s i = HExit \<longrightarrow> sh_all s = {#})"

fun stale_pc :: "shr_pc \<Rightarrow> bool" where
  "stale_pc HAddW \<longleftrightarrow> True"
| "stale_pc HXchg \<longleftrightarrow> True"
| "stale_pc HPollWait \<longleftrightarrow> True"
| "stale_pc HSem \<longleftrightarrow> True"
| "stale_pc _ \<longleftrightarrow> False"

definition fresh_pc :: "shr_pc \<Rightarrow> bool" where
  "fresh_pc p \<longleftrightarrow> \<not> stale_pc p \<and> p \<noteq> HExit"

definition stales :: "shr_sys \<Rightarrow> nat set" where
  "stales s = {j. j < sh_n s \<and> stale_pc (sh_pc s j)}"

definition token_ok :: "shr_sys \<Rightarrow> bool" where
  "token_ok s \<longleftrightarrow>
     (\<exists>i < sh_n s. sh_pc s i = HExit) \<longrightarrow> card (stales s) \<le> sh_sem s \<and> (sh_intr s \<or> (\<exists>j < sh_n s. fresh_pc (sh_pc s j)))"

lemma done_worker:
  assumes "done_ok s" "size_ok s" and i: "i < sh_n s" and step: "shr_worker_step i ok s = Some s'"
  shows "done_ok s'"
proof -
  have z: "sh_all s = {#}" if "sh_fibers s = 0"
  proof -
    have "unat (of_nat (size (sh_all s)) :: u32) = 0" using that assms(2) by (simp add: size_ok_def)
    then show ?thesis using assms(2) by (simp add: size_ok_def unat_of_nat)
  qed
  have r: "shr_resume_at c \<noteq> HOut" "shr_resume_at c \<noteq> HExit" for c by (cases c; simp)+
  have old: "sh_all s = {#}" if "sh_pc s j = HOut \<or> sh_pc s j = HExit" "j < sh_n s" for j
    using assms(1) that unfolding done_ok_def by blast
  show ?thesis using step
  proof (cases rule: shr_worker_cases)
    case out
    then show ?thesis using old [of i] i by (simp add: done_ok_def hdefs)
  next
    case done_step
    then show ?thesis using old z by (auto simp: done_ok_def hdefs)
  next
    case (exiting f)
    have "sh_all s' = {#}" if "sh_pc s' j = HOut \<or> sh_pc s' j = HExit" "j < sh_n s'" for j
    proof -
      have "sh_pc s j = HOut \<or> sh_pc s j = HExit" "j < sh_n s" using that exiting(2) by (auto simp: hdefs split: if_splits)
      then show ?thesis using old exiting(2) by (simp add: hdefs)
    qed
    then show ?thesis unfolding done_ok_def by blast
  qed (use old r in \<open>auto simp: done_ok_def hdefs\<close>)
qed

lemma token_keep:
  assumes "token_ok s" "i < sh_n s" and s': "sh_n s' = sh_n s" "sh_pc s' = (sh_pc s)(i := p)" "sh_sem s \<le> sh_sem s'"
    and p: "stale_pc p \<Longrightarrow> stale_pc (sh_pc s i)" "p \<noteq> HExit" "fresh_pc (sh_pc s i) \<Longrightarrow> fresh_pc p" "sh_intr s \<Longrightarrow> sh_intr s' \<or> fresh_pc p"
  shows "token_ok s'"
  unfolding token_ok_def
proof
  assume "\<exists>j < sh_n s'. sh_pc s' j = HExit"
  then obtain j where "j < sh_n s" "sh_pc s j = HExit" using s'(1,2) p(2) by (auto split: if_splits)
  then have t: "card (stales s) \<le> sh_sem s" "sh_intr s \<or> (\<exists>j < sh_n s. fresh_pc (sh_pc s j))"
    using assms(1) unfolding token_ok_def by blast+
  have "card (stales s') \<le> card (stales s)" by (rule card_mono) (use s' p(1) in \<open>auto simp: stales_def split: if_splits\<close>)
  moreover have "sh_intr s' \<or> (\<exists>j < sh_n s'. fresh_pc (sh_pc s' j))"
    using t(2) p(3,4) s'(1,2) assms(2) by (metis fun_upd_apply)
  ultimately show "card (stales s') \<le> sh_sem s' \<and> (sh_intr s' \<or> (\<exists>j < sh_n s'. fresh_pc (sh_pc s' j)))"
    using t(1) s'(3) by (meson order_trans)
qed

lemma token_worker:
  assumes tok: "token_ok s" and dn: "done_ok s" "size_ok s" and i: "i < sh_n s" and step: "shr_worker_step i ok s = Some s'"
  shows "token_ok s'"
proof -
  have r: "fresh_pc (shr_resume_at c)" "\<not> stale_pc (shr_resume_at c)" "shr_resume_at c \<noteq> HExit" for c by (cases c; simp add: fresh_pc_def)+
  note keep = token_keep [OF tok i]
  show ?thesis using step
  proof (cases rule: shr_worker_cases)
    case out
    have "card (stales s') \<le> card {..<sh_n s'}" by (rule card_mono) (auto simp: stales_def)
    then show ?thesis using out by (simp add: token_ok_def hdefs)
  next
    case sem
    show ?thesis unfolding token_ok_def
    proof
      assume "\<exists>j < sh_n s'. sh_pc s' j = HExit"
      then obtain j where "j < sh_n s" "sh_pc s j = HExit" using sem(3) by (auto simp: hdefs split: if_splits)
      then have t: "card (stales s) \<le> sh_sem s" using tok unfolding token_ok_def by blast
      have "stales s' = stales s - {i}" using sem by (auto simp: stales_def hdefs split: if_splits)
      moreover have "i \<in> stales s" "finite (stales s)" using sem(1) i by (simp_all add: stales_def)
      ultimately have "card (stales s') = card (stales s) - 1" by simp
      moreover have "fresh_pc (sh_pc s' i)" "i < sh_n s'" using sem(3) i by (simp_all add: hdefs fresh_pc_def)
      ultimately show "card (stales s') \<le> sh_sem s' \<and> (sh_intr s' \<or> (\<exists>j < sh_n s'. fresh_pc (sh_pc s' j)))"
        using t sem(3) by (auto simp: hdefs)
    qed
  next
    case done_step
    show ?thesis
    proof (cases "sh_fibers s = 0")
      case True
      then show ?thesis using done_step by (intro keep [where p = HOut]) (simp_all add: hdefs fresh_pc_def)
    next
      case False
      then have "sh_all s \<noteq> {#}" using dn(2) by (auto simp: size_ok_def)
      then have "\<not> (\<exists>j < sh_n s. sh_pc s j = HExit)" using dn(1) unfolding done_ok_def by blast
      then show ?thesis using done_step False by (auto simp: token_ok_def hdefs split: if_splits)
    qed
  qed (rule keep [where p = "sh_pc s' i"]; use r in \<open>auto simp: hdefs fresh_pc_def split: if_splits\<close>)+
qed

section \<open>The events\<close>

lemma shr_event_cases:
  assumes "shr_step ev s = Some s'"
  obtains
    (worker) i ok where "i < sh_n s" "shr_worker_step i ok s = Some s'"
  | (create) i f g where "i < sh_n s" "sh_pc s i = HRunning f" "size (sh_all s) < 2 ^ 32 - 1"
      "s' = hgoto (s\<lparr>sh_fibers := sh_fibers s + 1, sh_all := add_mset g (sh_all s)\<rparr>) i (HPush (KFiber f) 1 [g])"
  | (wake) i c fs where "i < sh_n s" "fs \<noteq> []" "mset fs \<subseteq># sh_parked s"
      "(\<exists>f. c = KFiber f \<and> sh_pc s i = HRunning f) \<or> c = KCheck \<and> sh_pc s i = HCheck \<or> c = KPoll \<and> sh_pc s i = HPollWait \<or> c = KPoll \<and> sh_pc s i = HPollStore"
      "s' = hgoto (s\<lparr>sh_parked := sh_parked s - mset fs\<rparr>) i (HPush c (of_nat (length fs)) fs)"
  | (suspend) i f p where "i < sh_n s" "sh_pc s i = HRunning f" "p = HParking f \<or> p = HYield f" "s' = hgoto (s\<lparr>sh_run := sh_run s - 1\<rparr>) i p"
  | (exits) i f where "i < sh_n s" "sh_pc s i = HRunning f" "s' = hgoto s i (HExiting f)"
  | (poll) i where "i < sh_n s" "sh_pc s i = HPollWait" "s' = hgoto s i HPollStore"
  | (drain) i where "i < sh_n s" "sh_pc s i = HCheck" "s' = s\<lparr>sh_intr := False\<rparr>"
proof -
  have n: "shr_event_worker ev < sh_n s" and step: "shr_event_step ev s = Some s'" using assms by (auto simp: shr_step_def split: if_splits)
  show ?thesis
  proof (cases ev)
    case (HStep i ok)
    then show ?thesis using n step worker by simp
  next
    case (HCreate i g)
    then show ?thesis using n step create by (auto split: shr_pc.splits if_splits)
  next
    case (HWake i fs)
    then show ?thesis using n step wake by (auto simp: shr_wake_parked_def split: shr_pc.splits if_splits)
  next
    case (HWaits i)
    then show ?thesis using n step suspend by (auto split: shr_pc.splits)
  next
    case (HYields i)
    then show ?thesis using n step suspend by (auto split: shr_pc.splits)
  next
    case (HExits i)
    then show ?thesis using n step exits by (auto split: shr_pc.splits)
  next
    case (HPollCheck i fs)
    then show ?thesis using n step wake by (auto simp: shr_wake_parked_def split: if_splits)
  next
    case (HPollEvent i fs)
    then show ?thesis using n step wake poll by (auto simp: shr_wake_parked_def split: if_splits)
  next
    case (HDrain i)
    then show ?thesis using n step drain by (auto split: if_splits)
  qed
qed

definition shr_inv :: "shr_sys \<Rightarrow> bool" where
  "shr_inv s \<longleftrightarrow> fibers_ok s \<and> size_ok s \<and> run_ok s \<and> waiting_ok s \<and> shape_ok s \<and> lock_ok s \<and> awake_ok s \<and> done_ok s \<and> token_ok s \<and> \<not> sh_fault s"

lemma shr_invD:
  assumes "shr_inv s"
  shows "fibers_ok s" "size_ok s" "run_ok s" "waiting_ok s" "shape_ok s" "lock_ok s" "awake_ok s" "done_ok s" "token_ok s" "\<not> sh_fault s"
  using assms by (simp_all add: shr_inv_def)

lemma shr_worker_inv:
  assumes "shr_inv s" and i: "i < sh_n s" and step: "shr_worker_step i ok s = Some s'"
  shows "shr_inv s'"
proof -
  note d = shr_invD [OF assms(1)]
  show ?thesis unfolding shr_inv_def
    using fibers_worker [OF d(1,6) i step] size_worker [OF d(2,1) i step] run_worker [OF d(3,6) i step] waiting_worker [OF d(4) i step]
      shape_worker [OF d(5,6) i step] lock_worker [OF d(6,5,1,2) i step] awake_worker [OF d(7,3,1,2) i step] done_worker [OF d(8,2) i step]
      token_worker [OF d(9,8,2) i step] no_fault_worker [OF d(5,10) i step]
    by blast
qed

text \<open>Any other event is a step of a worker that is awake, or that becomes so.\<close>

lemma event_inv:
  assumes inv: "shr_inv s" and i: "i < sh_n s"
    and s': "sh_n s' = sh_n s" "sh_strategy s' = sh_strategy s" "sh_pc s' = (sh_pc s)(i := p)" "sh_queue s' = sh_queue s" "sh_fallback s' = sh_fallback s"
      "sh_flen s' = sh_flen s" "sh_flock s' = sh_flock s" "sh_waiting s' = sh_waiting s" "sh_sem s' = sh_sem s" "sh_fault s' = sh_fault s"
    and fib: "sh_all s' = sh_all s + A" "shr_carried p + sh_parked s' = shr_carried (sh_pc s i) + sh_parked s + A" and size: "size_ok s'"
    and run: "sh_run s' - run_of p = sh_run s - run_of (sh_pc s i)"
    and waits: "waits_of p = waits_of (sh_pc s i)" and shape: "shr_shape (sh_strategy s) p" "\<not> moving_pc (sh_pc s i)" "\<not> moving_pc p"
    and awake: "\<not> committed p" "fresh_pc p" "p \<noteq> HOut" and new: "A \<noteq> {#} \<Longrightarrow> shr_carried (sh_pc s i) \<noteq> {#}"
  shows "shr_inv s'"
proof -
  note d = shr_invD [OF inv]
  have "fibers_ok s'" using d(1) fib
    by (simp add: fibers_ok_def s' wsum_upd [OF i] wsum_split [OF i, of shr_carried "sh_pc s"] ac_simps)
  moreover have "run_ok s'"
  proof -
    have "sh_run s' = sh_run s - run_of (sh_pc s i) + run_of p" using run by (metis diff_add_cancel)
    then show ?thesis using d(3) by (simp add: run_ok_def s' wsum_upd [OF i] wsum_split [OF i, of run_of "sh_pc s"])
  qed
  moreover have "waiting_ok s'" using d(4) waits by (simp add: waiting_ok_def s' wsum_upd [OF i] wsum_split [OF i, of waits_of "sh_pc s"])
  moreover have "shape_ok s'" using d(5) shape(1) by (simp add: shape_ok_def s')
  moreover have "lock_ok s'" by (rule lock_same [OF d(6) i s'(1,3) shape(2,3) s'(7,5,6)])
  moreover have "awake_ok s'" using awake(1) i by (auto simp: awake_ok_def s')
  moreover have "done_ok s'"
  proof -
    have "sh_all s' = {#}" if "sh_all s = {#}"
    proof -
      have "shr_carried (sh_pc s i) = {#}" using shr_carried_in_all [OF d(1) i] that by simp
      then show ?thesis using fib(1) new that by auto
    qed
    then show ?thesis using d(8) awake(2,3) unfolding done_ok_def s'(1,3) by (auto simp: fresh_pc_def)
  qed
  moreover have "token_ok s'" by (rule token_keep [OF d(9) i s'(1,3)]) (use awake(2) s'(9) in \<open>auto simp: fresh_pc_def\<close>)
  ultimately show ?thesis using d(10) size s'(10) by (simp add: shr_inv_def)
qed

text \<open>Before the workers start.\<close>

lemma put_inv:
  assumes inv: "shr_inv s" and pc: "sh_pc s = (\<lambda>_. HGet)" and n: "0 < sh_n s" and small: "size (sh_all s) < 2 ^ 32 - 1" and "\<not> sh_flock s"
  shows "shr_inv (shr_put f s)" "sh_pc (shr_put f s) = (\<lambda>_. HGet)" "sh_n (shr_put f s) = sh_n s" "sh_all (shr_put f s) = add_mset f (sh_all s)"
    "\<not> sh_flock (shr_put f s)"
proof -
  note d = shr_invD [OF inv]
  have flen: "unat (sh_flen s) = length (sh_fallback s)" using d(6) assms(5) by (simp add: lock_ok_def)
  have "length (sh_fallback s) \<le> size (sh_all s)" using d(1) by (simp add: fibers_ok_def)
  then have "unat (sh_flen s + 1) = Suc (length (sh_fallback s))" using small flen by (simp add: unat_word_ariths)
  moreover have w: "wsum (sh_n s) h (\<lambda>_. HGet) = 0" if "h HGet = 0" for h :: "shr_pc \<Rightarrow> 'a :: comm_monoid_add" using that by (simp add: wsum_def)
  ultimately show "shr_inv (shr_put f s)"
    using d(1-4,10) pc n small assms(5) flen
    unfolding shr_inv_def fibers_ok_def size_ok_def run_ok_def waiting_ok_def shape_ok_def lock_ok_def awake_ok_def done_ok_def token_ok_def
    by (cases "sh_strategy s") (auto simp: put_defs hassert_def wsum_def)
  show "sh_pc (shr_put f s) = (\<lambda>_. HGet)" "sh_n (shr_put f s) = sh_n s" "sh_all (shr_put f s) = add_mset f (sh_all s)" "\<not> sh_flock (shr_put f s)"
    using pc assms(5) by (cases "sh_strategy s"; simp add: put_defs hassert_def)+
qed

lemma start_inv:
  assumes "0 < n" "length fibers < 2 ^ 32"
  shows "shr_inv (shr_start n strategy fibers)"
proof -
  have "shr_inv (fold shr_put fs s)"
    if "shr_inv s" "sh_pc s = (\<lambda>_. HGet)" "0 < sh_n s" "size (sh_all s) + length fs < 2 ^ 32" "\<not> sh_flock s" for fs s
    using that
  proof (induction fs arbitrary: s)
    case (Cons f fs)
    then have "size (sh_all s) < 2 ^ 32 - 1" by simp
    from put_inv [OF Cons.prems(1-3) this Cons.prems(5), of f] show ?case using Cons by simp
  qed simp
  moreover have "shr_inv (shr_sys_init n strategy)"
    unfolding shr_inv_def fibers_ok_def size_ok_def run_ok_def waiting_ok_def shape_ok_def lock_ok_def awake_ok_def done_ok_def token_ok_def
    using assms(1) by (auto simp: shr_sys_init_def wsum_def)
  ultimately show ?thesis using assms by (simp add: shr_start_def shr_sys_init_def)
qed

interpretation shr: step_invariant shr_step "\<lambda>s. \<exists>n strategy fibers. 0 < n \<and> length fibers < 2 ^ 32 \<and> s = shr_start n strategy fibers" shr_inv
proof
  fix s t s' assume inv: "shr_inv s" and step: "shr_step t s = Some s'"
  note d = shr_invD [OF inv]
  show "shr_inv s'" using step
  proof (cases rule: shr_event_cases)
    case (worker i ok)
    then show ?thesis using shr_worker_inv [OF inv] by blast
  next
    case (create i f g)
    show ?thesis
      by (rule event_inv [OF inv create(1), where A = "{#g#}" and p = "HPush (KFiber f) 1 [g]"]) (use create d(2) in \<open>simp_all add: hdefs size_ok_def fresh_pc_def\<close>)
  next
    case (wake i c fs)
    have pc: "shr_carried (sh_pc s i) = kept c" "run_of (sh_pc s i) = kept_num c" "waits_of (sh_pc s i) = kept_waits c" "\<not> moving_pc (sh_pc s i)"
      using wake(4) by auto
    show ?thesis
      by (rule event_inv [OF inv wake(1), where A = "{#}" and p = "HPush c (of_nat (length fs)) fs"])
         (use wake(2,3,5) d(2) pc in \<open>simp_all add: hdefs size_ok_def fresh_pc_def\<close>)
  next
    case (suspend i f p)
    show ?thesis
      by (rule event_inv [OF inv suspend(1), where A = "{#}" and p = p]) (use suspend d(2) in \<open>auto simp: hdefs size_ok_def fresh_pc_def\<close>)
  next
    case (exits i f)
    show ?thesis
      by (rule event_inv [OF inv exits(1), where A = "{#}" and p = "HExiting f"]) (use exits d(2) in \<open>simp_all add: hdefs size_ok_def fresh_pc_def\<close>)
  next
    case (poll i)
    show ?thesis
      by (rule event_inv [OF inv poll(1), where A = "{#}" and p = HPollStore]) (use poll d(2) in \<open>simp_all add: hdefs size_ok_def fresh_pc_def\<close>)
  next
    case (drain i)
    have s': "s' = s\<lparr>sh_intr := False\<rparr>" by (rule drain(3))
    have "token_ok s'" by (rule token_keep [OF d(9) drain(1), where p = HCheck]) (use drain in \<open>auto simp: fresh_pc_def fun_upd_idem\<close>)
    then show ?thesis using d by (simp add: shr_inv_def s' fibers_ok_def size_ok_def run_ok_def waiting_ok_def shape_ok_def lock_ok_def awake_ok_def done_ok_def)
  qed
qed (use start_inv in blast)

section \<open>Properties\<close>



lemma worker_enabled:
  assumes "\<And>f. sh_pc s i \<noteq> HRunning f" "sh_pc s i \<noteq> HExit" "\<And>c m fs. sh_pc s i = HFall c m fs \<Longrightarrow> \<not> sh_flock s"
    "sh_pc s i = HMove \<Longrightarrow> \<not> sh_flock s" "sh_pc s i = HPollWait \<Longrightarrow> sh_intr s" "sh_pc s i = HSem \<Longrightarrow> sh_sem s > 0"
  shows "shr_worker_step i ok s \<noteq> None"
  using assms
  by (cases "sh_pc s i") (auto simp: shr_worker_step_def shr_push_step_def push_defs shr_wake_step_def fev_move_from_fallback_step_def shr_work_step_def
      shr_sleep_step_def shr_fiber_step_def split: option.splits list.splits prod.splits)

text \<open>
  The scheduler comes to an end: when a worker has left its loop and another has not, some worker can take a
  step, so that a sleeping worker is never forgotten.
\<close>

theorem shr_sched_shutdown_progress:
  assumes "0 < n" "length fibers < 2 ^ 32" "run shr_step (shr_start n strategy fibers) evs = Some s"
    and i: "i < sh_n s" "sh_pc s i = HExit" and j: "j < sh_n s" "sh_pc s j \<noteq> HExit"
  shows "\<exists>k < sh_n s. sh_pc s k \<noteq> HExit \<and> shr_step (HStep k True) s \<noteq> None"
proof -
  have inv: "shr_inv s" using shr.inv_run_init [OF _ assms(3)] assms(1,2) by blast
  note d = shr_invD [OF inv]
  have none: "sh_all s = {#}" using d(8) i unfolding done_ok_def by blast
  have idle: "shr_carried (sh_pc s k) = {#}" if "k < sh_n s" for k using shr_carried_in_all [OF d(1) that] none by simp
  have en: "\<exists>k < sh_n s. sh_pc s k \<noteq> HExit \<and> shr_step (HStep k True) s \<noteq> None"
    if k: "k < sh_n s" "sh_pc s k \<noteq> HExit" "sh_pc s k = HPollWait \<Longrightarrow> sh_intr s" "sh_pc s k = HSem \<Longrightarrow> sh_sem s > 0" for k
  proof (cases "sh_flock s \<and> \<not> moving_pc (sh_pc s k)")
    case True
    then obtain m where m: "m < sh_n s" "moving_pc (sh_pc s m)" using d(6) unfolding lock_ok_def by blast
    then have "shr_worker_step m True s \<noteq> None" by (intro worker_enabled) auto
    then show ?thesis using m by (intro exI [of _ m]) (auto simp: shr_step_def)
  next
    case False
    have "shr_worker_step k True s \<noteq> None"
      by (rule worker_enabled) (use k False idle [OF k(1)] in auto)
    then show ?thesis using k by (intro exI [of _ k]) (simp add: shr_step_def)
  qed
  have tok: "card (stales s) \<le> sh_sem s" "sh_intr s \<or> (\<exists>k < sh_n s. fresh_pc (sh_pc s k))"
    using d(9) i unfolding token_ok_def by blast+
  show ?thesis
  proof (cases "\<exists>k < sh_n s. fresh_pc (sh_pc s k)")
    case True
    then obtain k where "k < sh_n s" "fresh_pc (sh_pc s k)" by blast
    then show ?thesis by (intro en [of k]) (auto simp: fresh_pc_def)
  next
    case False
    then have "j \<in> stales s" using j by (auto simp: fresh_pc_def stales_def)
    moreover have "finite (stales s)" by (simp add: stales_def)
    ultimately have "sh_sem s > 0" using tok(1) by (metis card_gt_0_iff empty_iff less_le_trans)
    then show ?thesis using en [OF j] tok(2) False by blast
  qed
qed

section \<open>Witnesses\<close>

definition steps_of :: "nat \<Rightarrow> nat \<Rightarrow> shr_event list" where
  "steps_of k i = replicate k (HStep i True)"

text \<open>The only fiber waits, and the only worker goes to sleep.\<close>

definition sleep_run :: "shr_event list" where
  "sleep_run = steps_of 1 0 @ [HWaits 0] @ steps_of 8 0"

text \<open>The only fiber exits, and one of two workers leaves.\<close>

definition leave_run :: "shr_event list" where
  "leave_run = steps_of 1 0 @ [HExits 0] @ steps_of 8 0"

text \<open>A bounded queue of capacity 1: the second fiber goes to the fallback queue and is moved from there.\<close>

definition fallback_run :: "shr_event list" where
  "fallback_run = steps_of 1 0 @ steps_of 6 1"

lemmas shr_eval = sleep_run_def leave_run_def fallback_run_def steps_of_def shr_start_def put_defs push_defs shr_sys_init_def shr_step_def shr_worker_step_def
  shr_push_step_def shr_wake_step_def fev_move_from_fallback_step_def shr_work_step_def shr_sleep_step_def shr_fiber_step_def shr_wake_all_workers_def
  hgoto_def hassert_def numeral_eq_Suc



theorem shr_sched_shutdown_progress_witness:
  "\<exists>s. run shr_step (shr_start 2 ShrSimple [5]) leave_run = Some s \<and> sh_pc s 0 = HExit \<and> (\<exists>k < 2. sh_pc s k \<noteq> HExit \<and> shr_step (HStep k True) s \<noteq> None)"
proof -
  obtain s where s: "run shr_step (shr_start 2 ShrSimple [5]) leave_run = Some s" "sh_pc s 0 = HExit" "sh_n s = 2" "sh_pc s 1 \<noteq> HExit"
    by (simp add: shr_eval)
  have "\<exists>k < sh_n s. sh_pc s k \<noteq> HExit \<and> shr_step (HStep k True) s \<noteq> None"
    by (rule shr_sched_shutdown_progress [OF _ _ s(1), of 0 1]) (use s in simp_all)
  then show ?thesis using s by auto
qed
end
