(* ===== verification/Resources.thy ===== *)
theory Resources
  imports Prelude
begin

text \<open>
  Set-up and tear-down code acquires resources (memory blocks, locks, descriptors, threads) one after the
  other and, when one cannot be had, gives back those it already holds. Such code is modelled over a state
  with the multiset of held resources and the results of the calls still to come. Giving back something
  that is not held is a fault.
\<close>

section \<open>Acquiring and releasing\<close>

record 'r rstate =
  rs_rets :: "int list" \<comment> \<open>return values of the calls still to come; once used up, calls succeed\<close>
  rs_held :: "'r multiset"

text \<open>A call that may fail and holds nothing; a call that on success yields a resource.\<close>

definition attempt :: "('r, 'z) rstate_scheme \<Rightarrow> int \<times> ('r, 'z) rstate_scheme" where
  "attempt s = (case rs_rets s of [] \<Rightarrow> (0, s) | ret # rets \<Rightarrow> (ret, s\<lparr>rs_rets := rets\<rparr>))"

definition acquire :: "'r \<Rightarrow> ('r, 'z) rstate_scheme \<Rightarrow> int \<times> ('r, 'z) rstate_scheme" where
  "acquire r s =
     (let (ret, s) = attempt s in (ret, if ret = 0 then s\<lparr>rs_held := add_mset r (rs_held s)\<rparr> else s))"

definition release :: "'r \<Rightarrow> ('r, 'z) rstate_scheme \<Rightarrow> ('r, 'z) rstate_scheme option" where
  "release r s = (if r \<in># rs_held s then Some (s\<lparr>rs_held := rs_held s - {#r#}\<rparr>) else None)"

text \<open>
  The loops of the sources: \<open>for (n = first; n < last; n++)\<close> that acquires the resources \<open>r n\<close> and stops at the
  first failure; the loop that gives back \<open>r first\<close> to \<open>r (last - 1)\<close>, counting up; and \<open>while (n-- > 0)\<close>,
  counting down.
\<close>

function acquire_loop ::
  "(nat \<Rightarrow> 'r) \<Rightarrow> nat \<Rightarrow> nat \<Rightarrow> ('r, 'z) rstate_scheme \<Rightarrow> int \<times> nat \<times> ('r, 'z) rstate_scheme" where
  "acquire_loop r n limit s =
     (if n < limit
      then let (ret, s) = acquire (r n) s in if ret \<noteq> 0 then (ret, n, s) else acquire_loop r (Suc n) limit s
      else (0, n, s))"
  by pat_completeness auto
termination
  by (relation "measure (\<lambda>(r, n, limit, s). limit - n)") auto

declare acquire_loop.simps [simp del]

fun release_up :: "(nat \<Rightarrow> 'r) \<Rightarrow> nat \<Rightarrow> nat \<Rightarrow> ('r, 'z) rstate_scheme \<Rightarrow> ('r, 'z) rstate_scheme option" where
  "release_up r first 0 s = Some s"
| "release_up r first (Suc k) s = do { s \<leftarrow> release (r first) s; release_up r (Suc first) k s }"

fun release_down :: "(nat \<Rightarrow> 'r) \<Rightarrow> nat \<Rightarrow> ('r, 'z) rstate_scheme \<Rightarrow> ('r, 'z) rstate_scheme option" where
  "release_down r 0 s = Some s"
| "release_down r (Suc n) s = do { s \<leftarrow> release (r n) s; release_down r n s }"

text \<open>The resources \<open>r first\<close> to \<open>r (last - 1)\<close>.\<close>

definition segment :: "(nat \<Rightarrow> 'r) \<Rightarrow> nat \<Rightarrow> nat \<Rightarrow> 'r multiset" where
  "segment r first limit = mset (map r [first..<limit])"

lemma segment_simps [simp]:
  "segment r n n = {#}" "segment r 0 (Suc n) = add_mset (r n) (segment r 0 n)"
  by (simp_all add: segment_def)

lemma segment_rec: "n < limit \<Longrightarrow> segment r n limit = add_mset (r n) (segment r (Suc n) limit)"
  by (simp add: segment_def upt_conv_Cons)

section \<open>What the operations do to the held resources\<close>

text \<open>\<open>holds_after s ret s' R\<close>: a call that returned \<open>ret\<close> holds \<open>R\<close> more on success, and nothing more on failure.\<close>

definition holds_after :: "('r, 'z) rstate_scheme \<Rightarrow> int \<Rightarrow> ('r, 'z) rstate_scheme \<Rightarrow> 'r multiset \<Rightarrow> bool" where
  "holds_after s ret s' R \<longleftrightarrow> rs_held s' = rs_held s + (if ret = 0 then R else {#})"

lemma attempt_held: "attempt s = (ret, s') \<Longrightarrow> rs_held s' = rs_held s \<and> rstate.more s' = rstate.more s"
  by (auto simp: attempt_def split: list.splits)

lemma acquire_held:
  "acquire r s = (ret, s') \<Longrightarrow> rs_held s' = rs_held s + (if ret = 0 then {#r#} else {#}) \<and> rstate.more s' = rstate.more s"
  by (auto simp: acquire_def dest: attempt_held split: prod.splits)

lemma release_held: "r \<in># rs_held s \<Longrightarrow> release r s = Some (s\<lparr>rs_held := rs_held s - {#r#}\<rparr>)"
  by (simp add: release_def)

lemma acquire_loop_held:
  "acquire_loop r n limit s = (ret, m, s') \<Longrightarrow> n \<le> limit \<Longrightarrow>
     n \<le> m \<and> m \<le> limit \<and> (ret = 0 \<longrightarrow> m = limit) \<and> rs_held s' = rs_held s + segment r n m \<and>
     rstate.more s' = rstate.more s"
proof (induction r n limit s rule: acquire_loop.induct)
  case (1 r n limit s)
  obtain ret1 s1 where a: "acquire (r n) s = (ret1, s1)" by fastforce
  show ?case
  proof (cases "n < limit \<and> ret1 = 0")
    case True
    then have "acquire_loop r (Suc n) limit s1 = (ret, m, s')"
      using 1(2) a by (simp add: acquire_loop.simps [of r n])
    then have "Suc n \<le> m \<and> m \<le> limit \<and> (ret = 0 \<longrightarrow> m = limit) \<and> rs_held s' = rs_held s1 + segment r (Suc n) m \<and>
        rstate.more s' = rstate.more s1"
      using 1(1) [OF _ a [symmetric] refl] True by auto
    then show ?thesis using acquire_held [OF a] True segment_rec [of n m r] by auto
  next
    case False
    then show ?thesis using 1(2,3) a acquire_held [OF a] by (auto simp: acquire_loop.simps [of r n] split: if_splits)
  qed
qed

lemma release_up_held:
  "segment r first (first + k) \<subseteq># rs_held s \<Longrightarrow>
     release_up r first k s = Some (s\<lparr>rs_held := rs_held s - segment r first (first + k)\<rparr>)"
proof (induction k arbitrary: first s)
  case (Suc k)
  have seg: "segment r first (first + Suc k) = add_mset (r first) (segment r (Suc first) (Suc first + k))"
    using segment_rec [of first "first + Suc k"] by simp
  then have hold: "r first \<in># rs_held s" "segment r (Suc first) (Suc first + k) \<subseteq># rs_held s - {#r first#}"
    using Suc.prems by (auto simp: insert_subset_eq_iff)
  then show ?case using Suc.IH [of "Suc first" "s\<lparr>rs_held := rs_held s - {#r first#}\<rparr>"] seg by (simp add: release_held)
qed simp

lemma release_down_held:
  "segment r 0 n \<subseteq># rs_held s \<Longrightarrow> release_down r n s = Some (s\<lparr>rs_held := rs_held s - segment r 0 n\<rparr>)"
proof (induction n arbitrary: s)
  case (Suc n)
  have "r n \<in># rs_held s" "segment r 0 n \<subseteq># rs_held s - {#r n#}"
    using Suc.prems by (auto simp: insert_subset_eq_iff)
  then show ?case using Suc.IH [of "s\<lparr>rs_held := rs_held s - {#r n#}\<rparr>"] by (simp add: release_held)
qed simp

lemma release_down_more: "release_down r n s = Some s' \<Longrightarrow> rstate.more s' = rstate.more s"
  by (induction r n s rule: release_down.induct) (auto simp: release_def split: Option.bind_splits if_splits)

section \<open>The contract of a component that is set up and torn down\<close>

text \<open>
  \<open>init\<close> holds all of \<open>res\<close> on success and nothing more than before on failure, and never faults; \<open>fini\<close>
  gives back \<open>res\<close>.
\<close>

locale component =
  fixes init :: "('r, 'z) rstate_scheme \<Rightarrow> (int \<times> ('r, 'z) rstate_scheme) option"
    and fini :: "('r, 'z) rstate_scheme \<Rightarrow> ('r, 'z) rstate_scheme option"
    and res :: "'r multiset"
  assumes init_holds: "\<exists>ret s'. init s = Some (ret, s') \<and> holds_after s ret s' res \<and> rstate.more s' = rstate.more s"
    and fini_releases: "res \<subseteq># rs_held s \<Longrightarrow> \<exists>s'. fini s = Some s' \<and> rs_held s' = rs_held s - res \<and> rstate.more s' = rstate.more s"
begin

lemma init_then_fini:
  assumes "init s = Some (0, s')"
  shows "\<exists>s''. fini s' = Some s'' \<and> rs_held s'' = rs_held s"
proof -
  have "holds_after s 0 s' res" using init_holds [of s] assms by auto
  then have "rs_held s' = rs_held s + res" by (simp add: holds_after_def)
  then show ?thesis using fini_releases [of s'] by auto
qed

text \<open>A failed step of a larger set-up that already holds \<open>R\<close> gives \<open>R\<close> back after it.\<close>

lemma init_cases:
  obtains ret s' where "init s = Some (ret, s')" "ret \<noteq> 0" "rs_held s' = rs_held s" "rstate.more s' = rstate.more s"
  | s' where "init s = Some (0, s')" "rs_held s' = rs_held s + res" "rstate.more s' = rstate.more s"
proof -
  obtain ret s' where "init s = Some (ret, s')" "holds_after s ret s' res" "rstate.more s' = rstate.more s"
    using init_holds by blast
  then show ?thesis using that by (cases "ret = 0") (auto simp: holds_after_def)
qed

end

section \<open>Steps of a set-up function\<close>

text \<open>
  The statements \<open>ret = init(...); if (ret != 0) goto fail_previous;\<close> and, at the label of this step, \<open>fini(...)\<close>:
  when the \<open>rest\<close> of the function fails, the step is undone before those that came earlier.
\<close>

definition init_step ::
  "(('r, 'z) rstate_scheme \<Rightarrow> (int \<times> ('r, 'z) rstate_scheme) option) \<Rightarrow>
   (('r, 'z) rstate_scheme \<Rightarrow> ('r, 'z) rstate_scheme option) \<Rightarrow>
   (('r, 'z) rstate_scheme \<Rightarrow> (int \<times> ('r, 'z) rstate_scheme) option) \<Rightarrow>
   ('r, 'z) rstate_scheme \<Rightarrow> (int \<times> ('r, 'z) rstate_scheme) option" where
  "init_step init fini rest s =
     do { (ret, s) \<leftarrow> init s;
          if ret \<noteq> 0 then Some (ret, s)
          else do { (ret, s) \<leftarrow> rest s;
                    if ret \<noteq> 0 then do { s \<leftarrow> fini s; Some (ret, s) } else Some (0, s) } }"

text \<open>Two components in sequence are a component, torn down in the opposite order.\<close>

lemma component_step:
  assumes "component init1 fini1 res1" "component init2 fini2 res2"
  shows "component (init_step init1 fini1 init2) (\<lambda>s. do { s \<leftarrow> fini2 s; fini1 s }) (res1 + res2)"
proof unfold_locales
  fix s :: "('a, 'b) rstate_scheme"
  show "\<exists>ret s'. init_step init1 fini1 init2 s = Some (ret, s') \<and> holds_after s ret s' (res1 + res2) \<and> rstate.more s' = rstate.more s"
  proof (cases rule: component.init_cases [OF assms(1), of s])
    case (1 ret s')
    then show ?thesis by (simp add: init_step_def holds_after_def)
  next
    case (2 s')
    note first = this
    show ?thesis
    proof (cases rule: component.init_cases [OF assms(2), of s'])
      case (1 ret s'')
      then have "res1 \<subseteq># rs_held s''" using first by simp
      then show ?thesis
        using component.fini_releases [OF assms(1), of s''] 1 first by (auto simp: init_step_def holds_after_def)
    next
      case (2 s'')
      then show ?thesis using first by (simp add: init_step_def holds_after_def ac_simps)
    qed
  qed
next
  fix s :: "('a, 'b) rstate_scheme"
  assume held: "res1 + res2 \<subseteq># rs_held s"
  then have "res2 \<subseteq># rs_held s" using subset_mset.order_trans [OF _ held] by simp
  then obtain s' where s': "fini2 s = Some s'" "rs_held s' = rs_held s - res2" "rstate.more s' = rstate.more s"
    using component.fini_releases [OF assms(2)] by blast
  moreover have "res1 \<subseteq># rs_held s'" using held s'(2) by (auto simp: mset_subset_eq_exists_conv ac_simps)
  ultimately show "\<exists>s'. fini2 s \<bind> fini1 = Some s' \<and> rs_held s' = rs_held s - (res1 + res2) \<and> rstate.more s' = rstate.more s"
    using component.fini_releases [OF assms(1), of s'] by (auto simp: add.commute)
qed

text \<open>One resource is the smallest component.\<close>

interpretation single: component "\<lambda>s. Some (acquire r s)" "release r" "{#r#}" for r
proof unfold_locales
  fix s :: "('a, 'b) rstate_scheme"
  obtain ret s' where a: "acquire r s = (ret, s')" by fastforce
  show "\<exists>ret s'. Some (acquire r s) = Some (ret, s') \<and> holds_after s ret s' {#r#} \<and> rstate.more s' = rstate.more s"
    using a acquire_held [OF a] by (auto simp: holds_after_def)
next
  fix s :: "('a, 'b) rstate_scheme"
  assume "{#r#} \<subseteq># rs_held s"
  then show "\<exists>s'. release r s = Some s' \<and> rs_held s' = rs_held s - {#r#} \<and> rstate.more s' = rstate.more s"
    by (simp add: release_def)
qed

text \<open>Memory from the allocator, whose failure the callers report as \<open>-ENOMEM\<close>; and a step that is left out.\<close>

definition acquire_mem :: "'r \<Rightarrow> ('r, 'z) rstate_scheme \<Rightarrow> (int \<times> ('r, 'z) rstate_scheme) option" where
  "acquire_mem r s = (let (ret, s) = acquire r s in Some (if ret \<noteq> 0 then - ENOMEM else 0, s))"

interpretation memory: component "acquire_mem r" "release r" "{#r#}" for r
proof unfold_locales
  fix s :: "('a, 'b) rstate_scheme"
  obtain ret s' where a: "acquire r s = (ret, s')" by fastforce
  show "\<exists>ret s'. acquire_mem r s = Some (ret, s') \<and> holds_after s ret s' {#r#} \<and> rstate.more s' = rstate.more s"
    using a acquire_held [OF a] by (auto simp: acquire_mem_def holds_after_def ENOMEM_def)
qed (rule single.fini_releases)

interpretation nothing: component "\<lambda>s. Some (0, s)" Some "{#}"
  by unfold_locales (simp_all add: holds_after_def)

end
