(* ===== verification/Poller_Setup.thy ===== *)
theory Poller_Setup
  imports Resources Timers
begin

text \<open>
  Set-up and tear-down of the epoll poller (\<open>fev_poller_epoll.c\<close>): the epoll descriptor, the event descriptor
  that interrupts it, and one timer descriptor per bucket of timers.
\<close>

section \<open>The resources of a scheduler\<close>

datatype sched_res =
    SchedBlock
  | WorkersBlock
  | QueueRes nat \<comment> \<open>lock or buffer of the run queue of a worker\<close>
  | QueueBlock \<comment> \<open>the linked run queue\<close>
  | QueueNode \<comment> \<open>its first node, from the pool\<close>
  | EpollFd
  | EventFd
  | KqueueFd
  | TimerFd nat
  | TimersRes \<comment> \<open>what \<open>fev_timers_init\<close> holds (theory \<open>Timers\<close>)\<close>
  | SchedSem
  | QueueLock \<comment> \<open>lock of the shared queue or of the fallback queue\<close>
  | StartSem
  | ThrsBlock
  | Thread nat

text \<open>
  The fields of \<open>struct fev_sched\<close> that set-up code writes: \<open>workers\<close> (\<open>None\<close>: not written yet, the
  memory comes from the allocator as it is) and \<open>num_workers\<close>.
\<close>

record sched_rs = "sched_res rstate" +
  rs_workers :: "sched_res option"
  rs_num_workers :: nat

section \<open>The poller\<close>

text \<open>
  The loop of \<open>fev_poller_create_timer_fds\<close>: \<open>timerfd_create\<close> yields a descriptor, \<open>epoll_ctl\<close> may fail after
  it. The result is the return value and the number of descriptors that are registered.
\<close>

function timer_fds_loop :: "nat \<Rightarrow> sched_rs \<Rightarrow> (int \<times> nat \<times> sched_rs) option" where
  "timer_fds_loop n s =
     (if n < FEV_TIMERS_BUCKETS
      then let (ret, s) = acquire (TimerFd n) s
           in if ret \<noteq> 0 then Some (ret, n, s)
              else let (ret, s) = attempt s
                   in if ret \<noteq> 0 then do { s \<leftarrow> release (TimerFd n) s; Some (ret, n, s) }
                      else timer_fds_loop (Suc n) s
      else Some (0, n, s))"
  by pat_completeness auto
termination
  by (relation "measure (\<lambda>(n, s). FEV_TIMERS_BUCKETS - n)") auto

declare timer_fds_loop.simps [simp del]

definition fev_poller_create_timer_fds :: "sched_rs \<Rightarrow> (int \<times> sched_rs) option" where
  "fev_poller_create_timer_fds s =
     do { (ret, n, s) \<leftarrow> timer_fds_loop 0 s;
          if ret = 0 then Some (0, s) else do { s \<leftarrow> release_down TimerFd n s; Some (ret, s) } }"

definition fev_poller_init :: "sched_rs \<Rightarrow> (int \<times> sched_rs) option" where
  "fev_poller_init s =
     (let fail_epoll_fd = (\<lambda>ret s. do { s \<leftarrow> release EpollFd s; Some (ret, s) });
          fail_event_fd = (\<lambda>ret s. do { s \<leftarrow> release EventFd s; fail_epoll_fd ret s });
          (ret, s) = acquire EpollFd s
      in if ret \<noteq> 0 then Some (ret, s)
         else let (ret, s) = acquire EventFd s
              in if ret \<noteq> 0 then fail_epoll_fd ret s
                 else let (ret, s) = attempt s
                      in if ret \<noteq> 0 then fail_event_fd ret s
                         else do { (ret, s) \<leftarrow> fev_poller_create_timer_fds s;
                                   if ret \<noteq> 0 then fail_event_fd ret s else Some (0, s) })"

definition fev_poller_fini :: "sched_rs \<Rightarrow> sched_rs option" where
  "fev_poller_fini s =
     do { s \<leftarrow> release_up TimerFd 0 FEV_TIMERS_BUCKETS s; s \<leftarrow> release EventFd s; release EpollFd s }"

definition poller_res :: "sched_res multiset" where
  "poller_res = {#EpollFd, EventFd#} + segment TimerFd 0 FEV_TIMERS_BUCKETS"

lemma timer_fds_loop_held:
  "n \<le> FEV_TIMERS_BUCKETS \<Longrightarrow> \<exists>ret m s'. timer_fds_loop n s = Some (ret, m, s') \<and> n \<le> m \<and> (ret = 0 \<longrightarrow> m = FEV_TIMERS_BUCKETS) \<and>
     rs_held s' = rs_held s + segment TimerFd n m \<and> rstate.more s' = rstate.more s"
proof (induction n s rule: timer_fds_loop.induct)
  case (1 n s)
  obtain ret1 s1 where a: "acquire (TimerFd n) s = (ret1, s1)" by fastforce
  obtain ret2 s2 where b: "attempt s1 = (ret2, s2)" by fastforce
  note h = acquire_held [OF a] attempt_held [OF b]
  consider "\<not> n < FEV_TIMERS_BUCKETS" | "n < FEV_TIMERS_BUCKETS" "ret1 \<noteq> 0" | "n < FEV_TIMERS_BUCKETS" "ret1 = 0" "ret2 \<noteq> 0"
    | "n < FEV_TIMERS_BUCKETS" "ret1 = 0" "ret2 = 0" by blast
  then show ?case
  proof cases
    case 1
    then show ?thesis using "1.prems" by (subst timer_fds_loop.simps) auto
  next
    case 2
    then show ?thesis using a h by (subst timer_fds_loop.simps) auto
  next
    case 3
    then show ?thesis using a b h by (subst timer_fds_loop.simps) (auto simp: release_def)
  next
    case 4
    then obtain ret m s' where "timer_fds_loop (Suc n) s2 = Some (ret, m, s')" "Suc n \<le> m" "ret = 0 \<longrightarrow> m = FEV_TIMERS_BUCKETS"
        "rs_held s' = rs_held s2 + segment TimerFd (Suc n) m" "rstate.more s' = rstate.more s2"
      using "1.IH" [OF _ a [symmetric] refl _ b [symmetric] refl] by auto
    moreover have "timer_fds_loop n s = timer_fds_loop (Suc n) s2" using 4 a b by (subst timer_fds_loop.simps) simp
    moreover have "segment TimerFd n m = add_mset (TimerFd n) (segment TimerFd (Suc n) m)"
      using calculation(2) by (intro segment_rec) simp
    ultimately show ?thesis using 4 h by auto
  qed
qed

lemma create_timer_fds_component:
  "\<exists>ret s'. fev_poller_create_timer_fds s = Some (ret, s') \<and> holds_after s ret s' (segment TimerFd 0 FEV_TIMERS_BUCKETS) \<and>
     rstate.more s' = rstate.more s"
proof -
  obtain ret m s' where l: "timer_fds_loop 0 s = Some (ret, m, s')" "ret = 0 \<longrightarrow> m = FEV_TIMERS_BUCKETS"
      "rs_held s' = rs_held s + segment TimerFd 0 m" "rstate.more s' = rstate.more s"
    using timer_fds_loop_held [of 0 s] by auto
  show ?thesis
  proof (cases "ret = 0")
    case True
    then show ?thesis using l by (auto simp: fev_poller_create_timer_fds_def holds_after_def)
  next
    case False
    then have "release_down TimerFd m s' = Some (s'\<lparr>rs_held := rs_held s' - segment TimerFd 0 m\<rparr>)"
      using l(3) by (intro release_down_held) simp
    then show ?thesis using False l by (simp add: fev_poller_create_timer_fds_def holds_after_def)
  qed
qed

text \<open>The poller is set up all or nothing, and its tear-down gives everything back.\<close>

interpretation poller: component fev_poller_init fev_poller_fini poller_res
proof unfold_locales
  fix s :: sched_rs
  obtain r1 s1 where 1: "acquire EpollFd s = (r1, s1)" by fastforce
  obtain r2 s2 where 2: "acquire EventFd s1 = (r2, s2)" by fastforce
  obtain r3 s3 where 3: "attempt s2 = (r3, s3)" by fastforce
  obtain r4 s4 where 4: "fev_poller_create_timer_fds s3 = Some (r4, s4)"
      "holds_after s3 r4 s4 (segment TimerFd 0 FEV_TIMERS_BUCKETS)" "rstate.more s4 = rstate.more s3"
    using create_timer_fds_component by blast
  note h = acquire_held [OF 1] acquire_held [OF 2] attempt_held [OF 3] 4(2,3)
  show "\<exists>ret s'. fev_poller_init s = Some (ret, s') \<and> holds_after s ret s' poller_res \<and> rstate.more s' = rstate.more s"
    using h 1 2 3 4(1)
    by (cases "r1 = 0"; cases "r2 = 0"; cases "r3 = 0"; cases "r4 = 0")
       (auto simp: fev_poller_init_def holds_after_def release_def poller_res_def)
next
  fix s :: sched_rs
  assume "poller_res \<subseteq># rs_held s"
  then obtain R where R: "rs_held s = R + segment TimerFd 0 FEV_TIMERS_BUCKETS + {#EpollFd, EventFd#}"
    by (auto simp: poller_res_def mset_subset_eq_exists_conv ac_simps)
  then have "release_up TimerFd 0 FEV_TIMERS_BUCKETS s = Some (s\<lparr>rs_held := R + {#EpollFd, EventFd#}\<rparr>)"
    using release_up_held [of TimerFd 0 FEV_TIMERS_BUCKETS s] by simp
  then show "\<exists>s'. fev_poller_fini s = Some s' \<and> rs_held s' = rs_held s - poller_res \<and> rstate.more s' = rstate.more s"
    using R by (simp add: fev_poller_fini_def release_def poller_res_def)
qed

end
