(* ===== verification/Sched_Setup.thy ===== *)
theory Sched_Setup
  imports Poller_Setup Alloc
begin

text \<open>
  Creation, running and destruction of a scheduler (\<open>fev_sched_common.c\<close>, \<open>fev_sched_attr.c\<close>, \<open>fev_os_nix.c\<close>), and
  the set-up functions \<open>fev_sched_init\<close> and \<open>fev_sched_fini\<close> that each scheduling strategy provides.
\<close>

section \<open>Attributes and the number of processors\<close>

record fev_sched_attr =
  sa_num_workers :: u32

definition fev_sched_default_attr :: fev_sched_attr where
  "fev_sched_default_attr = \<lparr>sa_num_workers = 0\<rparr>"

definition fev_sched_attr_create :: "bool \<Rightarrow> int + fev_sched_attr" where
  "fev_sched_attr_create mem_ok =
     (if mem_ok then Inr \<lparr>sa_num_workers = sa_num_workers fev_sched_default_attr\<rparr> else Inl (- ENOMEM))"

definition fev_sched_attr_get_num_workers :: "fev_sched_attr \<Rightarrow> u32" where
  "fev_sched_attr_get_num_workers attr = sa_num_workers attr"

definition fev_sched_attr_set_num_workers :: "fev_sched_attr \<Rightarrow> u32 \<Rightarrow> fev_sched_attr" where
  "fev_sched_attr_set_num_workers attr num_workers = attr\<lparr>sa_num_workers := num_workers\<rparr>"

text \<open>\<open>value\<close> is the result of \<open>sysconf\<close>; \<open>None\<close> is \<open>abort\<close>.\<close>

definition fev_get_num_processors :: "int \<Rightarrow> u32 option" where
  "fev_get_num_processors v =
     (if v = -1 then None
      else if v < 1 then None
      else Some (word_of_int (if v \<ge> 2 ^ 32 - 1 then 2 ^ 32 - 1 else v)))"

lemma fev_get_num_processors_pos: "v > 0 \<Longrightarrow> \<exists>n. fev_get_num_processors v = Some n \<and> n \<noteq> 0"
proof -
  assume v: "v > 0"
  define k where "k = (if v \<ge> 2 ^ 32 - 1 then 2 ^ 32 - 1 else v)"
  have "0 < k" "k < 2 ^ 32" using v by (auto simp: k_def)
  then have "uint (word_of_int k :: u32) = k" by (simp add: uint_word_of_int)
  then have "word_of_int k \<noteq> (0 :: u32)" using \<open>0 < k\<close> by (metis less_irrefl uint_0_eq)
  then show ?thesis using v by (auto simp: fev_get_num_processors_def k_def)
qed

section \<open>Creating, running and destroying a scheduler\<close>

text \<open>
  \<open>init\<close> and \<open>fini\<close> are \<open>fev_sched_init\<close> and \<open>fev_sched_fini\<close> of the strategy. The block that the allocator
  returns has no contents yet, so that \<open>workers\<close> is not written.
\<close>

definition fev_sched_create ::
  "(nat \<Rightarrow> sched_rs \<Rightarrow> (int \<times> sched_rs) option) \<Rightarrow> int \<Rightarrow> fev_sched_attr option \<Rightarrow> sched_rs \<Rightarrow> (int \<times> sched_rs) option" where
  "fev_sched_create init nproc attr s =
     (let attr = (case attr of None \<Rightarrow> fev_sched_default_attr | Some a \<Rightarrow> a);
          (ret, s) = acquire SchedBlock s
      in if ret \<noteq> 0 then Some (- ENOMEM, s)
         else do { num_workers \<leftarrow> if sa_num_workers attr = 0 then fev_get_num_processors nproc else Some (sa_num_workers attr);
                   (ret, s) \<leftarrow> init (unat num_workers) (s\<lparr>rs_workers := None\<rparr>);
                   if ret \<noteq> 0 then do { s \<leftarrow> release SchedBlock s; Some (ret, s) } else Some (0, s) })"

definition fev_sched_destroy :: "(sched_rs \<Rightarrow> sched_rs option) \<Rightarrow> sched_rs \<Rightarrow> sched_rs option" where
  "fev_sched_destroy fini s = do { s \<leftarrow> fini s; release SchedBlock s }"

text \<open>
  \<open>fev_sched_run\<close>. Its work is theory \<open>Steal_Sched\<close>; here are the semaphore, the array and the threads. The
  second result is the number of posts to the semaphore for which a new thread waits before it works.
\<close>

definition fev_sched_run :: "sched_rs \<Rightarrow> (int \<times> nat \<times> sched_rs) option" where
  "fev_sched_run s =
     (let num_workers = rs_num_workers s;
          out_sem = (\<lambda>ret posts s. do { s \<leftarrow> release StartSem s; Some (ret, posts, s) });
          out_thrs = (\<lambda>ret posts n s. do { s \<leftarrow> release_up Thread 1 (n - 1) s; s \<leftarrow> release ThrsBlock s; out_sem ret posts s })
      in if num_workers = 0 then None
         else let (ret, s) = acquire StartSem s
              in if ret \<noteq> 0 then Some (ret, 0, s)
                 else let (ret, s) = acquire ThrsBlock s
                      in if ret \<noteq> 0 then out_sem (- ENOMEM) 0 s
                         else let (ret, n, s) = acquire_loop Thread 1 num_workers s
                              in if ret \<noteq> 0 then out_thrs ret 0 n s else out_thrs 0 (num_workers - 1) n s)"

text \<open>What the common part relies on, whatever the strategy.\<close>

locale sched_backend =
  fixes init :: "nat \<Rightarrow> sched_rs \<Rightarrow> (int \<times> sched_rs) option"
    and fini :: "sched_rs \<Rightarrow> sched_rs option"
    and res :: "nat \<Rightarrow> sched_res multiset"
  assumes init_holds: "n > 0 \<Longrightarrow> \<exists>ret s'. init n s = Some (ret, s') \<and> holds_after s ret s' (res n) \<and>
      (ret = 0 \<longrightarrow> rs_workers s' = Some WorkersBlock \<and> rs_num_workers s' = n)"
    and fini_releases: "rs_workers s = Some WorkersBlock \<Longrightarrow> res (rs_num_workers s) \<subseteq># rs_held s \<Longrightarrow>
      \<exists>s'. fini s = Some s' \<and> rs_held s' = rs_held s - res (rs_num_workers s)"
begin

definition created :: "sched_rs \<Rightarrow> sched_rs \<Rightarrow> bool" where
  "created s s' \<longleftrightarrow> rs_num_workers s' > 0 \<and> rs_workers s' = Some WorkersBlock \<and>
     rs_held s' = rs_held s + res (rs_num_workers s') + {#SchedBlock#}"

lemma create_all_or_nothing:
  assumes "nproc > 0"
  shows "\<exists>ret s'. fev_sched_create init nproc attr s = Some (ret, s') \<and> (if ret = 0 then created s s' else rs_held s' = rs_held s)"
proof -
  define a where "a = (case attr of None \<Rightarrow> fev_sched_default_attr | Some a \<Rightarrow> a)"
  obtain n where n: "(if sa_num_workers a = 0 then fev_get_num_processors nproc else Some (sa_num_workers a)) = Some n" "n \<noteq> 0"
    using fev_get_num_processors_pos [OF assms] by (cases "sa_num_workers a = 0") auto
  then have pos: "unat n > 0" by (simp add: unat_eq_zero [symmetric])
  obtain ret1 s1 where 1: "acquire SchedBlock s = (ret1, s1)" by fastforce
  obtain ret2 s2 where 2: "init (unat n) (s1\<lparr>rs_workers := None\<rparr>) = Some (ret2, s2)"
      "holds_after (s1\<lparr>rs_workers := None\<rparr>) ret2 s2 (res (unat n))"
      "ret2 = 0 \<longrightarrow> rs_workers s2 = Some WorkersBlock \<and> rs_num_workers s2 = unat n"
    using init_holds [OF pos] by blast
  show ?thesis
    using acquire_held [OF 1] 1 2 n(1) pos
    by (auto simp: fev_sched_create_def Let_def a_def [symmetric] holds_after_def release_def created_def ENOMEM_def)
qed

lemma destroy_releases: "created s s' \<Longrightarrow> \<exists>s''. fev_sched_destroy fini s' = Some s'' \<and> rs_held s'' = rs_held s"
  using fini_releases [of s'] by (auto simp: created_def fev_sched_destroy_def release_def)

end

text \<open>\<open>fev_sched_run\<close> gives back all it takes, and lets no thread work unless all of them exist.\<close>

lemma fev_sched_run_held:
  assumes "rs_num_workers s > 0"
  shows "\<exists>ret posts s'. fev_sched_run s = Some (ret, posts, s') \<and> rs_held s' = rs_held s \<and>
    posts = (if ret = 0 then rs_num_workers s - 1 else 0)"
proof -
  obtain ret1 s1 where 1: "acquire StartSem s = (ret1, s1)" by fastforce
  obtain ret2 s2 where 2: "acquire ThrsBlock s1 = (ret2, s2)" by fastforce
  obtain ret3 n s3 where 3: "acquire_loop Thread 1 (rs_num_workers s) s2 = (ret3, n, s3)" by (metis prod.exhaust)
  note held = acquire_held [OF 1] acquire_held [OF 2] acquire_loop_held [OF 3]
  have threads: "release_up Thread 1 (n - 1) s3 = Some (s3\<lparr>rs_held := rs_held s2\<rparr>)"
    using held assms release_up_held [of Thread 1 "n - 1" s3] by (simp add: le_add_diff_inverse)
  show ?thesis
    using 1 2 3 held threads assms by (auto simp: fev_sched_run_def Let_def release_def ENOMEM_def)
qed

end
