(* ===== verification/Poller.thy ===== *)
theory Poller
  imports Timers "HOL-Library.Sublist"
begin

text \<open>
  The epoll poller at work (\<open>fev_poller_epoll.c\<close>): registration of sockets, time-outs, and the loop that turns
  events into fibers to be woken. The sockets are those of \<open>fev_socket_reactor.h\<close>.

  A waiter lies in an end of a socket or, as in a node of a queue, on the stack of its fiber. The timer of a timed
  operation on a socket points at the waiter of the socket's end, so that an event of the timer and an event of
  the socket may be about the same waiter; \<open>ps_place\<close> says in which object the waiter at an address lies.
\<close>

unbundle bit_operations_syntax

section \<open>Data\<close>

definition EPOLLIN :: u32 where "EPOLLIN = 0x1"
definition EPOLLOUT :: u32 where "EPOLLOUT = 0x4"
definition EPOLLERR :: u32 where "EPOLLERR = 0x8"
definition EPOLLHUP :: u32 where "EPOLLHUP = 0x10"
definition EPOLLRDHUP :: u32 where "EPOLLRDHUP = 0x2000"
definition EPOLLET :: u32 where "EPOLLET = 0x80000000"

lemmas epoll_flags = EPOLLIN_def EPOLLOUT_def EPOLLERR_def EPOLLHUP_def EPOLLRDHUP_def EPOLLET_def

record fev_socket_end =
  se_waiter :: fev_waiter
  se_active :: bool

record fev_socket =
  sk_read_end :: fev_socket_end
  sk_write_end :: fev_socket_end
  sk_fd :: int
  sk_error :: u32

text \<open>An event of \<open>epoll_wait\<close>: its flags and \<open>data.ptr\<close>.\<close>

record epoll_event =
  ev_events :: u32
  ev_ptr :: u64

text \<open>The object that a waiter lies in.\<close>

datatype slot =
    Read_End u64
  | Write_End u64
  | Stack_Waiter waiter_ptr

record ('s, 'b) poll_state =
  ps_timers :: 's
  ps_buckets :: "u64 \<rightharpoonup> 'b timers_bucket"
  ps_waiters :: waiter_store
  ps_sockets :: "u64 \<rightharpoonup> fev_socket"
  ps_place :: "waiter_ptr \<Rightarrow> slot"

text \<open>Reading and writing a waiter through its place.\<close>

fun slot_waiter :: "('s, 'b) poll_state \<Rightarrow> slot \<Rightarrow> fev_waiter option" where
  "slot_waiter s (Read_End p) = map_option (\<lambda>k. se_waiter (sk_read_end k)) (ps_sockets s p)"
| "slot_waiter s (Write_End p) = map_option (\<lambda>k. se_waiter (sk_write_end k)) (ps_sockets s p)"
| "slot_waiter s (Stack_Waiter w) = ps_waiters s w"

fun put_slot :: "slot \<Rightarrow> fev_waiter \<Rightarrow> ('s, 'b) poll_state \<Rightarrow> ('s, 'b) poll_state" where
  "put_slot (Read_End p) w s =
     s\<lparr>ps_sockets := (ps_sockets s)(p := map_option (\<lambda>k. k\<lparr>sk_read_end := (sk_read_end k)\<lparr>se_waiter := w\<rparr>\<rparr>) (ps_sockets s p))\<rparr>"
| "put_slot (Write_End p) w s =
     s\<lparr>ps_sockets := (ps_sockets s)(p := map_option (\<lambda>k. k\<lparr>sk_write_end := (sk_write_end k)\<lparr>se_waiter := w\<rparr>\<rparr>) (ps_sockets s p))\<rparr>"
| "put_slot (Stack_Waiter wp) w s = s\<lparr>ps_waiters := (ps_waiters s)(wp \<mapsto> w)\<rparr>"

section \<open>Registration and time-outs\<close>

datatype epoll_op = EPOLL_CTL_ADD | EPOLL_CTL_MOD

text \<open>
  \<open>fev_poller_register\<close>: the operation and the mask that are passed to \<open>epoll_ctl\<close>, whose result \<open>ctl\<close> (0 or
  \<open>-errno\<close>) is returned.
\<close>

definition fev_poller_register :: "fev_socket \<Rightarrow> u32 \<Rightarrow> (epoll_op \<Rightarrow> int \<Rightarrow> u32 \<Rightarrow> 'r) \<Rightarrow> 'r option" where
  "fev_poller_register socket flag ctl =
     do { fev_assert (flag = EPOLLIN \<or> flag = EPOLLOUT);
          let old_flags = (if se_active (sk_read_end socket) then EPOLLIN else 0) OR
                          (if se_active (sk_write_end socket) then EPOLLOUT else 0);
          fev_assert (old_flags AND flag = 0);
          let new_flags = old_flags OR flag;
          let op = (if old_flags = 0 then EPOLL_CTL_ADD else EPOLL_CTL_MOD);
          Some (ctl op (sk_fd socket) (EPOLLRDHUP OR EPOLLHUP OR EPOLLET OR new_flags)) }"

text \<open>\<open>fev_poller_set_timeout\<close>: the time that the timer descriptor of the bucket is set to, absolute and once.\<close>

definition fev_poller_set_timeout :: "timespec \<Rightarrow> (timespec \<times> timespec) option" where
  "fev_poller_set_timeout abs_time =
     do { fev_timespec_assert_valid abs_time; Some (\<lparr>tv_sec = 0, tv_nsec = 0\<rparr>, abs_time) }"

text \<open>\<open>fev_poller_interrupt\<close>: the counter 1 is written to \<open>event_fd\<close>, which makes \<open>epoll_wait\<close> return.\<close>

definition fev_poller_interrupt :: "(u64 \<Rightarrow> int) \<Rightarrow> unit option" where
  "fev_poller_interrupt write_event_fd = fev_assert (write_event_fd 1 = 8)"

section \<open>Processing events\<close>

text \<open>Wake the fiber of a waiter and add it to the list of fibers to be scheduled.\<close>

definition wake_into :: "fev_waiter \<Rightarrow> u32 \<Rightarrow> fiber_ptr list \<Rightarrow> u32 \<Rightarrow> (fev_waiter \<times> fiber_ptr list \<times> u32) option" where
  "wake_into w reason fibers num_fibers =
     do { (result, w') \<leftarrow> fev_waiter_wake w reason;
          if result = FEV_WAITER_SET_AND_WAKE_UP then Some (w', fibers @ [w_fiber w], num_fibers + 1)
          else Some (w', fibers, num_fibers) }"

text \<open>\<open>fev_process_timer_fd\<close> returns the fiber to be woken; \<open>0\<close> is \<open>NULL\<close>.\<close>

definition fev_process_timer_fd ::
  "('s, 'b) bucket_ops \<Rightarrow> u64 \<Rightarrow> ('s, 'b) poll_state \<Rightarrow> (('s, 'b) poll_state \<times> fiber_ptr) option" where
  "fev_process_timer_fd ops ptr s =
     do { bucket \<leftarrow> ps_buckets s (ptr XOR 1);
          if tb_min bucket \<noteq> 0
          then do { waiter \<leftarrow> bo_waiter ops (ps_timers s) (tb_min bucket);
                    w \<leftarrow> slot_waiter s (ps_place s waiter);
                    (result, w') \<leftarrow> fev_waiter_wake w FEV_WAITER_TIMED_OUT_CHECK;
                    Some (put_slot (ps_place s waiter) w' s, if result = FEV_WAITER_SET_AND_WAKE_UP then w_fiber w' else 0) }
          else Some (s, 0) }"

definition event_error :: "epoll_event \<Rightarrow> bool" where
  "event_error event \<longleftrightarrow> ev_events event AND (EPOLLRDHUP OR EPOLLERR OR EPOLLHUP) \<noteq> 0"

definition fev_process_socket ::
  "epoll_event \<Rightarrow> fev_socket \<Rightarrow> fiber_ptr list \<Rightarrow> u32 \<Rightarrow> (fev_socket \<times> fiber_ptr list \<times> u32) option" where
  "fev_process_socket event socket fibers num_fibers =
     (let error = event_error event;
          socket = (if error then socket\<lparr>sk_error := 1\<rparr> else socket)
      in do { (socket, fibers, num_fibers) \<leftarrow>
                (if ev_events event AND EPOLLIN \<noteq> 0 \<or> error
                 then do { (w, fibers, num_fibers) \<leftarrow> wake_into (se_waiter (sk_read_end socket)) FEV_WAITER_READY fibers num_fibers;
                           Some (socket\<lparr>sk_read_end := (sk_read_end socket)\<lparr>se_waiter := w\<rparr>\<rparr>, fibers, num_fibers) }
                 else Some (socket, fibers, num_fibers));
              if ev_events event AND EPOLLOUT \<noteq> 0 \<or> error
              then do { (w, fibers, num_fibers) \<leftarrow> wake_into (se_waiter (sk_write_end socket)) FEV_WAITER_READY fibers num_fibers;
                        Some (socket\<lparr>sk_write_end := (sk_write_end socket)\<lparr>se_waiter := w\<rparr>\<rparr>, fibers, num_fibers) }
              else Some (socket, fibers, num_fibers) })"

text \<open>A fiber that was returned is added to the list.\<close>

definition add_fiber :: "fiber_ptr \<Rightarrow> fiber_ptr list \<Rightarrow> u32 \<Rightarrow> fiber_ptr list \<times> u32" where
  "add_fiber fiber fibers num_fibers = (if fiber \<noteq> 0 then (fibers @ [fiber], num_fibers + 1) else (fibers, num_fibers))"

definition process_event ::
  "('s, 'b) bucket_ops \<Rightarrow> epoll_event \<Rightarrow> ('s, 'b) poll_state \<Rightarrow> fiber_ptr list \<Rightarrow> u32 \<Rightarrow> (('s, 'b) poll_state \<times> fiber_ptr list \<times> u32) option" where
  "process_event ops event s fibers num_fibers =
     (if ev_ptr event = 0 then Some (s, fibers, num_fibers)
      else if ev_ptr event AND 1 \<noteq> 0
      then do { (s, fiber) \<leftarrow> fev_process_timer_fd ops (ev_ptr event) s;
                Some (s, add_fiber fiber fibers num_fibers) }
      else do { socket \<leftarrow> ps_sockets s (ev_ptr event);
                (socket, fibers, num_fibers) \<leftarrow> fev_process_socket event socket fibers num_fibers;
                Some (s\<lparr>ps_sockets := (ps_sockets s)(ev_ptr event \<mapsto> socket)\<rparr>, fibers, num_fibers) })"

fun process_events ::
  "('s, 'b) bucket_ops \<Rightarrow> epoll_event list \<Rightarrow> ('s, 'b) poll_state \<Rightarrow> fiber_ptr list \<Rightarrow> u32 \<Rightarrow> (('s, 'b) poll_state \<times> fiber_ptr list \<times> u32) option" where
  "process_events ops [] s fibers num_fibers = Some (s, fibers, num_fibers)"
| "process_events ops (e # es) s fibers num_fibers =
     do { (s, fibers, num_fibers) \<leftarrow> process_event ops e s fibers num_fibers; process_events ops es s fibers num_fibers }"

text \<open>
  \<open>fev_poller_process\<close>: \<open>n\<close> and \<open>events\<close> are the result of \<open>epoll_wait\<close>. The result is the list that is passed to
  \<open>fev_wake_stq\<close>, if it is. The quiescent state that follows is theory \<open>Qsbr\<close>.
\<close>

definition fev_poller_process ::
  "('s, 'b) bucket_ops \<Rightarrow> int \<Rightarrow> epoll_event list \<Rightarrow> ('s, 'b) poll_state \<Rightarrow> (('s, 'b) poll_state \<times> (fiber_ptr list \<times> u32) option) option" where
  "fev_poller_process ops n events s =
     (if n < 0 then None
      else do { (s, fibers, num_fibers) \<leftarrow> process_events ops (take (nat n) events) s [] 0;
                Some (s, if num_fibers > 0 then Some (fibers, num_fibers) else None) })"

section \<open>The specification\<close>

text \<open>
  What waking a waiter for a reason does to it: the first reason is kept, and a fiber that waits is told of it.
\<close>

definition claim :: "u32 \<Rightarrow> fev_waiter \<Rightarrow> fev_waiter" where
  "claim r w =
     (if w_reason w = FEV_WAITER_NONE
      then w\<lparr>w_reason := r, w_do_wake := 0, w_wake_reason := if w_do_wake w \<noteq> 0 then r else w_wake_reason w, w_wait_for_wake := 0\<rparr>
      else w)"

definition claims :: "(slot \<times> u32) list \<Rightarrow> (slot \<Rightarrow> fev_waiter option) \<Rightarrow> slot \<Rightarrow> fev_waiter option" where
  "claims xs m x = (case map_of xs x of None \<Rightarrow> m x | Some r \<Rightarrow> map_option (claim r) (m x))"

text \<open>The waiters that an event is about, with the reason that it has for them.\<close>

definition timer_wakes :: "('s, 'b) bucket_ops \<Rightarrow> ('s, 'b) poll_state \<Rightarrow> u64 \<Rightarrow> (slot \<times> u32) list" where
  "timer_wakes ops s bucket =
     (case ps_buckets s bucket of
        None \<Rightarrow> []
      | Some b \<Rightarrow> if tb_min b = 0 then []
                 else (case bo_waiter ops (ps_timers s) (tb_min b) of
                         None \<Rightarrow> [] | Some w \<Rightarrow> [(ps_place s w, FEV_WAITER_TIMED_OUT_CHECK)]))"

definition end_wakes :: "bool \<Rightarrow> bool \<Rightarrow> u64 \<Rightarrow> (slot \<times> u32) list" where
  "end_wakes go rd p = (if go then [(if rd then Read_End p else Write_End p, FEV_WAITER_READY)] else [])"

definition event_wakes :: "('s, 'b) bucket_ops \<Rightarrow> ('s, 'b) poll_state \<Rightarrow> epoll_event \<Rightarrow> (slot \<times> u32) list" where
  "event_wakes ops s e =
     (if ev_ptr e = 0 then []
      else if ev_ptr e AND 1 \<noteq> 0 then timer_wakes ops s (ev_ptr e XOR 1)
      else end_wakes (ev_events e AND EPOLLIN \<noteq> 0 \<or> event_error e) True (ev_ptr e) @
           end_wakes (ev_events e AND EPOLLOUT \<noteq> 0 \<or> event_error e) False (ev_ptr e))"

text \<open>An event is about something that exists.\<close>

definition timer_ok :: "('s, 'b) bucket_ops \<Rightarrow> ('s, 'b) poll_state \<Rightarrow> u64 \<Rightarrow> bool" where
  "timer_ok ops s bucket \<longleftrightarrow>
     (\<exists>b. ps_buckets s bucket = Some b \<and>
        (tb_min b \<noteq> 0 \<longrightarrow> (\<exists>w. bo_waiter ops (ps_timers s) (tb_min b) = Some w \<and> slot_waiter s (ps_place s w) \<noteq> None)))"

definition event_ok :: "('s, 'b) bucket_ops \<Rightarrow> ('s, 'b) poll_state \<Rightarrow> epoll_event \<Rightarrow> bool" where
  "event_ok ops s e \<longleftrightarrow>
     ev_ptr e = 0 \<or> (if ev_ptr e AND 1 \<noteq> 0 then timer_ok ops s (ev_ptr e XOR 1) else slot_waiter s (Read_End (ev_ptr e)) \<noteq> None)"

text \<open>What holds of the waiters between the statements of \<open>fev_waiter_impl.h\<close>: only the waiter of a fiber can be armed.\<close>

definition waiter_sane :: "fev_waiter \<Rightarrow> bool" where
  "waiter_sane w \<longleftrightarrow> w_reason w \<le> FEV_WAITER_TIMED_OUT_NO_CHECK \<and> w_do_wake w \<le> 1 \<and> (w_do_wake w \<noteq> 0 \<longrightarrow> w_fiber w \<noteq> 0)"

definition waiters_sane :: "('s, 'b) poll_state \<Rightarrow> bool" where
  "waiters_sane s \<longleftrightarrow> (\<forall>x w. slot_waiter s x = Some w \<longrightarrow> waiter_sane w)"

definition waiter_armed :: "fev_waiter \<Rightarrow> bool" where
  "waiter_armed w \<longleftrightarrow> w_reason w = FEV_WAITER_NONE \<and> w_do_wake w \<noteq> 0"

definition armed :: "('s, 'b) poll_state \<Rightarrow> slot \<Rightarrow> bool" where
  "armed s x \<longleftrightarrow> (case slot_waiter s x of None \<Rightarrow> False | Some w \<Rightarrow> waiter_armed w)"

definition slot_fiber :: "('s, 'b) poll_state \<Rightarrow> slot \<Rightarrow> fiber_ptr" where
  "slot_fiber s x = (case slot_waiter s x of None \<Rightarrow> 0 | Some w \<Rightarrow> w_fiber w)"

text \<open>Every slot is woken at its first event, if its fiber waits.\<close>

fun woken_slots :: "(slot \<Rightarrow> bool) \<Rightarrow> slot list \<Rightarrow> slot list" where
  "woken_slots A [] = []"
| "woken_slots A (x # xs) = (if A x then x # woken_slots (\<lambda>y. A y \<and> y \<noteq> x) xs else woken_slots A xs)"

lemma woken_slots_append:
  "woken_slots A (xs @ ys) = woken_slots A xs @ woken_slots (\<lambda>x. A x \<and> x \<notin> set xs) ys"
proof (induction xs arbitrary: A)
  case (Cons x xs)
  have "(\<lambda>y. A y \<and> y \<notin> set xs) = (\<lambda>y. A y \<and> y \<notin> set (x # xs))" if "\<not> A x" using that by auto
  then show ?case using Cons.IH [of "\<lambda>y. A y \<and> y \<noteq> x"] Cons.IH [of A] by simp
qed simp

lemma woken_slots_props:
  "distinct (woken_slots A xs)" "set (woken_slots A xs) = {x \<in> set xs. A x}" "subseq (woken_slots A xs) xs"
proof -
  show s: "set (woken_slots A xs) = {x \<in> set xs. A x}" for A by (induction xs arbitrary: A) auto
  show "distinct (woken_slots A xs)"
  proof (induction xs arbitrary: A)
    case (Cons x xs)
    have "set (woken_slots B xs) = {y \<in> set xs. B y}" for B by (induction xs arbitrary: B) auto
    then show ?case using Cons by simp
  qed simp
  show "subseq (woken_slots A xs) xs" by (induction xs arbitrary: A) auto
qed

section \<open>Correctness of the loop\<close>

text \<open>One waiter.\<close>

definition wakes_ok :: "(slot \<times> u32) list \<Rightarrow> bool" where
  "wakes_ok xs \<longleftrightarrow> snd ` set xs \<subseteq> {FEV_WAITER_READY, FEV_WAITER_TIMED_OUT_CHECK}"

lemma wakes_ok_simps [simp]:
  "wakes_ok []" "wakes_ok (xs @ ys) \<longleftrightarrow> wakes_ok xs \<and> wakes_ok ys" "wakes_ok (end_wakes go rd p)" "wakes_ok (timer_wakes ops s b)"
  "wakes_ok (concat (map f es)) \<longleftrightarrow> (\<forall>e \<in> set es. wakes_ok (f e))"
  by (auto simp: wakes_ok_def end_wakes_def timer_wakes_def split: option.splits)

lemma map_of_reason: "wakes_ok xs \<Longrightarrow> map_of xs x = Some r \<Longrightarrow> r = FEV_WAITER_READY \<or> r = FEV_WAITER_TIMED_OUT_CHECK"
  by (force simp: wakes_ok_def dest: map_of_SomeD)

lemma claim_props:
  assumes "r = FEV_WAITER_READY \<or> r = FEV_WAITER_TIMED_OUT_CHECK"
  shows "claim r' (claim r w) = claim r w" "\<not> waiter_armed (claim r w)" "w_fiber (claim r w) = w_fiber w"
    "waiter_sane w \<Longrightarrow> waiter_sane (claim r w)"
  using assms by (auto simp: claim_def waiter_armed_def waiter_sane_def reason_defs)

lemma wake_claim:
  assumes "waiter_sane w" "r = FEV_WAITER_READY \<or> r = FEV_WAITER_TIMED_OUT_CHECK"
  shows "fev_waiter_wake w r =
    Some (if waiter_armed w then FEV_WAITER_SET_AND_WAKE_UP
          else if w_reason w = FEV_WAITER_NONE then FEV_WAITER_SET_ONLY else FEV_WAITER_FAILED, claim r w)"
  using assms
  by (auto simp: fev_waiter_wake_def claim_def waiter_armed_def wake_asserts_def waiter_sane_def Let_def reason_defs)

text \<open>All waiters.\<close>

lemma claims_append: "wakes_ok xs \<Longrightarrow> claims (xs @ ys) m = claims ys (claims xs m)"
  by (rule ext)
     (auto simp: claims_def map_add_def option.map_comp comp_def claim_props(1) dest: map_of_reason split: option.splits)

lemma claims_one: "claims [(x, r)] m = m(x := map_option (claim r) (m x))"
  by (auto simp: claims_def)

lemma claims_None: "claims xs m x = None \<longleftrightarrow> m x = None"
  by (simp add: claims_def split: option.splits)

lemma put_slot_simps [simp]:
  "ps_timers (put_slot x w s) = ps_timers s" "ps_buckets (put_slot x w s) = ps_buckets s" "ps_place (put_slot x w s) = ps_place s"
  by (cases x; simp)+

lemma put_slot_waiter: "slot_waiter s x = Some w \<Longrightarrow> slot_waiter (put_slot x w' s) = (slot_waiter s)(x \<mapsto> w')"
proof
  fix y assume "slot_waiter s x = Some w"
  then show "slot_waiter (put_slot x w' s) y = ((slot_waiter s)(x \<mapsto> w')) y" by (cases x; cases y) auto
qed

text \<open>What events about the waiters \<open>xs\<close> do.\<close>

definition woke :: "('s, 'b) poll_state \<Rightarrow> (slot \<times> u32) list \<Rightarrow> ('s, 'b) poll_state \<Rightarrow> bool" where
  "woke s xs s' \<longleftrightarrow>
     ps_timers s' = ps_timers s \<and> ps_buckets s' = ps_buckets s \<and> ps_place s' = ps_place s \<and>
     slot_waiter s' = claims xs (slot_waiter s)"

lemma woke_none: "woke s [] s"
  by (simp add: woke_def claims_def fun_eq_iff)

lemma woke_append: "woke s xs s' \<Longrightarrow> woke s' ys s'' \<Longrightarrow> wakes_ok xs \<Longrightarrow> woke s (xs @ ys) s''"
  by (simp add: woke_def claims_append)

lemma woke_put: "slot_waiter s x = Some w \<Longrightarrow> woke s [(x, r)] (put_slot x (claim r w) s)"
  by (auto simp: woke_def put_slot_waiter claims_one)

lemma woke_facts:
  assumes "woke s xs s'" "wakes_ok xs"
  shows "waiters_sane s \<Longrightarrow> waiters_sane s'" "armed s' x \<longleftrightarrow> armed s x \<and> x \<notin> fst ` set xs" "slot_fiber s' x = slot_fiber s x"
    "slot_waiter s' x = None \<longleftrightarrow> slot_waiter s x = None"
proof -
  have sw: "slot_waiter s' = claims xs (slot_waiter s)" using assms(1) by (simp add: woke_def)
  show "waiters_sane s'" if "waiters_sane s"
    using that map_of_reason [OF assms(2)]
    by (auto simp: waiters_sane_def sw claims_def claim_props(4) split: option.splits)
  show "slot_fiber s' x = slot_fiber s x" "armed s' x \<longleftrightarrow> armed s x \<and> x \<notin> fst ` set xs"
    using map_of_reason [OF assms(2), of x]
    by (auto simp: slot_fiber_def armed_def sw claims_def claim_props map_of_eq_None_iff intro: rev_image_eqI dest: map_of_SomeD
        split: option.splits)
  show "slot_waiter s' x = None \<longleftrightarrow> slot_waiter s x = None" by (simp add: sw claims_None)
qed

text \<open>The fibers that \<open>xs\<close> yields.\<close>

definition fires :: "('s, 'b) poll_state \<Rightarrow> (slot \<times> u32) list \<Rightarrow> fiber_ptr list" where
  "fires s xs = map (slot_fiber s) (woken_slots (armed s) (map fst xs))"

lemma fires_simps [simp]: "fires s [] = []" "fires s [x] = (if armed s (fst x) then [slot_fiber s (fst x)] else [])"
  by (simp_all add: fires_def)

lemma fires_append: "woke s xs s' \<Longrightarrow> wakes_ok xs \<Longrightarrow> fires s (xs @ ys) = fires s xs @ fires s' ys"
proof -
  assume w: "woke s xs s'" "wakes_ok xs"
  then have "armed s' = (\<lambda>x. armed s x \<and> x \<notin> set (map fst xs))" "slot_fiber s' = slot_fiber s"
    using woke_facts(2,3) [OF w] by (simp_all add: fun_eq_iff)
  then show ?thesis by (simp add: fires_def woken_slots_append)
qed

text \<open>Waking the waiter of a slot, with the fiber put on the list at once or returned first.\<close>

lemma wake_into_fires:
  assumes "waiters_sane s" "slot_waiter s x = Some w" "r = FEV_WAITER_READY \<or> r = FEV_WAITER_TIMED_OUT_CHECK"
  shows "wake_into w r fibers num = Some (claim r w, fibers @ fires s [(x, r)], num + of_nat (length (fires s [(x, r)])))"
proof -
  have "waiter_sane w" using assms(1,2) by (simp add: waiters_sane_def)
  from wake_claim [OF this assms(3)] show ?thesis
    using assms(2) by (simp add: wake_into_def armed_def slot_fiber_def)
qed

lemma wake_fiber_fires:
  assumes "waiters_sane s" "slot_waiter s x = Some w" "r = FEV_WAITER_READY \<or> r = FEV_WAITER_TIMED_OUT_CHECK"
  shows "\<exists>result. fev_waiter_wake w r = Some (result, claim r w) \<and>
    add_fiber (if result = FEV_WAITER_SET_AND_WAKE_UP then w_fiber (claim r w) else 0) fibers num =
      (fibers @ fires s [(x, r)], num + of_nat (length (fires s [(x, r)])))"
proof -
  have sane: "waiter_sane w" using assms(1,2) by (simp add: waiters_sane_def)
  then have "waiter_armed w \<Longrightarrow> w_fiber w \<noteq> 0" by (simp add: waiter_sane_def waiter_armed_def)
  then show ?thesis
    using wake_claim [OF sane assms(3)] assms(2)
    by (cases "waiter_armed w") (simp_all add: add_fiber_def armed_def slot_fiber_def claim_props(3) [OF assms(3)])
qed

lemma timer_okE:
  assumes "timer_ok ops s bucket"
  obtains (none) b where "ps_buckets s bucket = Some b" "tb_min b = 0"
    | (min) b wp w where "ps_buckets s bucket = Some b" "tb_min b \<noteq> 0" "bo_waiter ops (ps_timers s) (tb_min b) = Some wp"
        "slot_waiter s (ps_place s wp) = Some w" "timer_wakes ops s bucket = [(ps_place s wp, FEV_WAITER_TIMED_OUT_CHECK)]"
  using assms by (auto simp: timer_ok_def timer_wakes_def)

text \<open>One end of a socket.\<close>

definition wake_end :: "bool \<Rightarrow> bool \<Rightarrow> fev_socket \<Rightarrow> fiber_ptr list \<Rightarrow> u32 \<Rightarrow> (fev_socket \<times> fiber_ptr list \<times> u32) option" where
  "wake_end go rd socket fibers num =
     (if \<not> go then Some (socket, fibers, num)
      else if rd
      then do { (w, fibers, num) \<leftarrow> wake_into (se_waiter (sk_read_end socket)) FEV_WAITER_READY fibers num;
                Some (socket\<lparr>sk_read_end := (sk_read_end socket)\<lparr>se_waiter := w\<rparr>\<rparr>, fibers, num) }
      else do { (w, fibers, num) \<leftarrow> wake_into (se_waiter (sk_write_end socket)) FEV_WAITER_READY fibers num;
                Some (socket\<lparr>sk_write_end := (sk_write_end socket)\<lparr>se_waiter := w\<rparr>\<rparr>, fibers, num) })"

lemma fev_process_socket_ends:
  "fev_process_socket event socket fibers num =
     do { (socket, fibers, num) \<leftarrow> wake_end (ev_events event AND EPOLLIN \<noteq> 0 \<or> event_error event) True
            (if event_error event then socket\<lparr>sk_error := 1\<rparr> else socket) fibers num;
          wake_end (ev_events event AND EPOLLOUT \<noteq> 0 \<or> event_error event) False socket fibers num }"
  by (simp add: fev_process_socket_def wake_end_def Let_def split: Option.bind_split)

definition put_socket :: "u64 \<Rightarrow> fev_socket \<Rightarrow> ('s, 'b) poll_state \<Rightarrow> ('s, 'b) poll_state" where
  "put_socket p k s = s\<lparr>ps_sockets := (ps_sockets s)(p \<mapsto> k)\<rparr>"

lemma put_socket_simps [simp]:
  "ps_timers (put_socket p k s) = ps_timers s" "ps_buckets (put_socket p k s) = ps_buckets s" "ps_waiters (put_socket p k s) = ps_waiters s"
  "ps_place (put_socket p k s) = ps_place s"
  "ps_sockets (put_socket p k s) = (ps_sockets s)(p \<mapsto> k)" "put_socket p k (put_socket p k' s) = put_socket p k s"
  by (simp_all add: put_socket_def)

lemma wake_end_spec:
  assumes sane: "waiters_sane s" and k: "ps_sockets s p = Some socket"
  shows "\<exists>socket'. wake_end go rd socket fibers num =
      Some (socket', fibers @ fires s (end_wakes go rd p), num + of_nat (length (fires s (end_wakes go rd p)))) \<and>
    woke s (end_wakes go rd p) (put_socket p socket' s)"
proof (cases go)
  case False
  then show ?thesis using k by (simp add: wake_end_def end_wakes_def woke_none put_socket_def fun_upd_idem)
next
  case True
  define x where "x = (if rd then Read_End p else Write_End p)"
  define w where "w = se_waiter (if rd then sk_read_end socket else sk_write_end socket)"
  have sw: "slot_waiter s x = Some w" using k by (simp add: x_def w_def)
  define socket' where "socket' = (if rd then socket\<lparr>sk_read_end := (sk_read_end socket)\<lparr>se_waiter := claim FEV_WAITER_READY w\<rparr>\<rparr>
      else socket\<lparr>sk_write_end := (sk_write_end socket)\<lparr>se_waiter := claim FEV_WAITER_READY w\<rparr>\<rparr>)"
  have "put_slot x (claim FEV_WAITER_READY w) s = put_socket p socket' s"
    using k by (simp add: x_def socket'_def put_socket_def)
  then have "woke s [(x, FEV_WAITER_READY)] (put_socket p socket' s)" using woke_put [OF sw, of FEV_WAITER_READY] by simp
  moreover have "wake_end go rd socket fibers num =
      Some (socket', fibers @ fires s [(x, FEV_WAITER_READY)], num + of_nat (length (fires s [(x, FEV_WAITER_READY)])))"
    using True wake_into_fires [OF sane sw, of FEV_WAITER_READY fibers num]
    by (cases rd) (simp_all add: wake_end_def w_def socket'_def del: fires_simps)
  moreover have "end_wakes go rd p = [(x, FEV_WAITER_READY)]" using True by (simp add: end_wakes_def x_def)
  ultimately show ?thesis by (auto simp del: fires_simps)
qed

lemma process_socket_spec:
  fixes e :: epoll_event
  assumes sane: "waiters_sane s" and k: "ps_sockets s p = Some socket"
  defines "xs \<equiv> end_wakes (ev_events e AND EPOLLIN \<noteq> 0 \<or> event_error e) True p @ end_wakes (ev_events e AND EPOLLOUT \<noteq> 0 \<or> event_error e) False p"
  shows "\<exists>socket'. fev_process_socket e socket fibers num = Some (socket', fibers @ fires s xs, num + of_nat (length (fires s xs))) \<and>
    woke s xs (put_socket p socket' s)"
proof -
  define k0 where "k0 = (if event_error e then socket\<lparr>sk_error := 1\<rparr> else socket)"
  define s0 where "s0 = put_socket p k0 s"
  let ?r = "end_wakes (ev_events e AND EPOLLIN \<noteq> 0 \<or> event_error e) True p"
    and ?w = "end_wakes (ev_events e AND EPOLLOUT \<noteq> 0 \<or> event_error e) False p"
  have "slot_waiter s0 x = slot_waiter s x" for x using k by (cases x) (auto simp: s0_def k0_def)
  then have same: "slot_waiter s0 = slot_waiter s" by (rule ext)
  then have eq: "armed s0 = armed s" "slot_fiber s0 = slot_fiber s" by (simp_all add: fun_eq_iff armed_def slot_fiber_def)
  have sane0: "waiters_sane s0" using sane by (simp add: waiters_sane_def same)
  have k00: "ps_sockets s0 p = Some k0" by (simp add: s0_def)
  obtain k1 where k1: "wake_end (ev_events e AND EPOLLIN \<noteq> 0 \<or> event_error e) True k0 fibers num =
        Some (k1, fibers @ fires s0 ?r, num + of_nat (length (fires s0 ?r)))" "woke s0 ?r (put_socket p k1 s0)"
    using wake_end_spec [OF sane0 k00] by blast
  define s1 where "s1 = put_socket p k1 s0"
  have sane1: "waiters_sane s1" using woke_facts(1) [OF k1(2)] sane0 by (simp add: s1_def)
  have "ps_sockets s1 p = Some k1" by (simp add: s1_def)
  from wake_end_spec [OF sane1 this] obtain k2 where
      k2: "wake_end (ev_events e AND EPOLLOUT \<noteq> 0 \<or> event_error e) False k1 (fibers @ fires s0 ?r) (num + of_nat (length (fires s0 ?r))) =
        Some (k2, (fibers @ fires s0 ?r) @ fires s1 ?w, num + of_nat (length (fires s0 ?r)) + of_nat (length (fires s1 ?w)))"
      "woke s1 ?w (put_socket p k2 s1)"
    by blast
  have "woke s0 xs (put_socket p k2 s)"
    using woke_append [OF k1(2) [folded s1_def] k2(2)] by (simp add: xs_def s1_def s0_def)
  then have "woke s xs (put_socket p k2 s)" unfolding woke_def same by (simp add: s0_def)
  moreover have "fires s xs = fires s0 ?r @ fires s1 ?w"
    using fires_append [OF k1(2) [folded s1_def]] eq by (simp add: xs_def fires_def)
  ultimately show ?thesis using k1(1) k2(1) by (simp add: fev_process_socket_ends k0_def [symmetric] add.assoc)
qed

lemma process_event_spec:
  assumes sane: "waiters_sane s" and ok: "event_ok ops s e"
  shows "\<exists>s'. process_event ops e s fibers num =
      Some (s', fibers @ fires s (event_wakes ops s e), num + of_nat (length (fires s (event_wakes ops s e)))) \<and>
    woke s (event_wakes ops s e) s'"
proof -
  consider (interrupt) "ev_ptr e = 0"
    | (timer) "ev_ptr e \<noteq> 0" "ev_ptr e AND 1 \<noteq> 0" "timer_ok ops s (ev_ptr e XOR 1)"
    | (socket) k where "ev_ptr e \<noteq> 0" "ev_ptr e AND 1 = 0" "ps_sockets s (ev_ptr e) = Some k"
    using ok unfolding event_ok_def by (auto split: if_splits)
  then show ?thesis
  proof cases
    case interrupt
    then show ?thesis by (simp add: process_event_def event_wakes_def woke_none)
  next
    case timer
    from timer(3) show ?thesis
    proof (cases rule: timer_okE)
      case none
      then show ?thesis using timer by (simp add: process_event_def event_wakes_def timer_wakes_def fev_process_timer_fd_def add_fiber_def woke_none)
    next
      case (min b wp w)
      let ?r = FEV_WAITER_TIMED_OUT_CHECK
      obtain result where r: "fev_waiter_wake w ?r = Some (result, claim ?r w)"
          "add_fiber (if result = FEV_WAITER_SET_AND_WAKE_UP then w_fiber (claim ?r w) else 0) fibers num =
            (fibers @ fires s [(ps_place s wp, ?r)], num + of_nat (length (fires s [(ps_place s wp, ?r)])))"
        using wake_fiber_fires [OF sane min(4), of ?r fibers num] by blast
      have "process_event ops e s fibers num = Some (put_slot (ps_place s wp) (claim ?r w) s,
            fibers @ fires s [(ps_place s wp, ?r)], num + of_nat (length (fires s [(ps_place s wp, ?r)])))"
        using timer min(1-4) r by (simp add: process_event_def fev_process_timer_fd_def del: fires_simps)
      moreover have "event_wakes ops s e = [(ps_place s wp, ?r)]" using timer min(5) by (simp add: event_wakes_def)
      ultimately show ?thesis using woke_put [OF min(4), of ?r] by (auto simp del: fires_simps)
    qed
  next
    case socket
    then show ?thesis
      using process_socket_spec [OF sane socket(3), of e fibers num] by (auto simp: process_event_def event_wakes_def put_socket_def)
  qed
qed

lemma timer_wakes_woke:
  assumes "woke s xs s'"
  shows "timer_wakes ops s' b = timer_wakes ops s b" "timer_ok ops s' b \<longleftrightarrow> timer_ok ops s b"
    "slot_waiter s' x = None \<longleftrightarrow> slot_waiter s x = None"
proof -
  have same: "ps_timers s' = ps_timers s" "ps_buckets s' = ps_buckets s" "ps_place s' = ps_place s"
      "slot_waiter s' x = None \<longleftrightarrow> slot_waiter s x = None" for x
    using assms by (simp_all add: woke_def claims_None)
  show "timer_wakes ops s' b = timer_wakes ops s b" unfolding timer_wakes_def same ..
  show "timer_ok ops s' b \<longleftrightarrow> timer_ok ops s b" unfolding timer_ok_def same ..
  show "slot_waiter s' x = None \<longleftrightarrow> slot_waiter s x = None" by (rule same)
qed

section \<open>The loop over the events\<close>

text \<open>
  The loop, whatever the kernel calls an event: \<open>one\<close> processes one event and \<open>loop\<close> a list of them; \<open>wakes\<close> are the waiters
  that an event is about, with the reasons, and \<open>ok\<close> says that an event is about something that exists.
\<close>

locale event_loop =
  fixes one :: "'e \<Rightarrow> ('s, 'b) poll_state \<Rightarrow> fiber_ptr list \<Rightarrow> u32 \<Rightarrow> (('s, 'b) poll_state \<times> fiber_ptr list \<times> u32) option"
    and loop :: "'e list \<Rightarrow> ('s, 'b) poll_state \<Rightarrow> fiber_ptr list \<Rightarrow> u32 \<Rightarrow> (('s, 'b) poll_state \<times> fiber_ptr list \<times> u32) option"
    and wakes :: "('s, 'b) poll_state \<Rightarrow> 'e \<Rightarrow> (slot \<times> u32) list"
    and ok :: "('s, 'b) poll_state \<Rightarrow> 'e \<Rightarrow> bool"
  assumes loop_Nil: "loop [] s fibers num = Some (s, fibers, num)"
    and loop_Cons: "loop (e # es) s fibers num = do { (s, fibers, num) \<leftarrow> one e s fibers num; loop es s fibers num }"
    and one_spec: "waiters_sane s \<Longrightarrow> ok s e \<Longrightarrow>
      \<exists>s'. one e s fibers num = Some (s', fibers @ fires s (wakes s e), num + of_nat (length (fires s (wakes s e)))) \<and>
        woke s (wakes s e) s'"
    and wakes_reasons: "wakes_ok (wakes s e)"
    and wakes_woke: "woke s xs s' \<Longrightarrow> wakes s' e = wakes s e"
    and ok_woke: "woke s xs s' \<Longrightarrow> ok s e \<Longrightarrow> ok s' e"
    and wakes_two: "length (wakes s e) \<le> 2"
begin

lemma loop_spec:
  assumes "waiters_sane s" "\<forall>e \<in> set es. ok s e"
  shows "\<exists>s'. loop es s fibers num =
      Some (s', fibers @ fires s (concat (map (wakes s) es)), num + of_nat (length (fires s (concat (map (wakes s) es))))) \<and>
    woke s (concat (map (wakes s) es)) s'"
  using assms
proof (induction es arbitrary: s fibers num)
  case (Cons e es)
  let ?xs = "wakes s e"
  obtain s1 where s1: "one e s fibers num = Some (s1, fibers @ fires s ?xs, num + of_nat (length (fires s ?xs)))" "woke s ?xs s1"
    using one_spec [OF Cons.prems(1)] Cons.prems(2) by fastforce
  have w: "wakes s1 = wakes s" using wakes_woke [OF s1(2)] by (rule ext)
  have "waiters_sane s1" using woke_facts(1) [OF s1(2) wakes_reasons Cons.prems(1)] .
  moreover have "\<forall>e \<in> set es. ok s1 e" using Cons.prems(2) ok_woke [OF s1(2)] by simp
  ultimately obtain s2 where s2: "loop es s1 (fibers @ fires s ?xs) (num + of_nat (length (fires s ?xs))) =
      Some (s2, (fibers @ fires s ?xs) @ fires s1 (concat (map (wakes s) es)),
        num + of_nat (length (fires s ?xs)) + of_nat (length (fires s1 (concat (map (wakes s) es)))))"
      "woke s1 (concat (map (wakes s) es)) s2"
    using Cons.IH [of s1 "fibers @ fires s ?xs" "num + of_nat (length (fires s ?xs))"] unfolding w by blast
  show ?case
    using s1(1) s2(1) fires_append [OF s1(2) wakes_reasons] woke_append [OF s1(2) s2(2) wakes_reasons] by (simp add: loop_Cons add.assoc)
qed (simp add: loop_Nil woke_none)

lemma loop_exact:
  assumes "waiters_sane s" "\<forall>e \<in> set es. ok s e" "length es \<le> 64"
  defines "xs \<equiv> concat (map (wakes s) es)"
  shows "\<exists>s' woken num. loop es s [] 0 = Some (s', map (slot_fiber s) woken, num) \<and> num = of_nat (length woken) \<and>
    (num > 0 \<longleftrightarrow> woken \<noteq> []) \<and> distinct woken \<and> set woken = {x \<in> fst ` set xs. armed s x} \<and> subseq woken (map fst xs) \<and>
    length woken \<le> 128 \<and> slot_waiter s' = claims xs (slot_waiter s) \<and> waiters_sane s' \<and>
    (\<forall>x. armed s' x \<longleftrightarrow> armed s x \<and> x \<notin> fst ` set xs)"
proof -
  let ?woken = "woken_slots (armed s) (map fst xs)"
  obtain s' where s': "loop es s [] 0 = Some (s', fires s xs, of_nat (length (fires s xs)))" "woke s xs s'"
    using loop_spec [OF assms(1,2), of "[]" 0] by (auto simp: xs_def)
  have "wakes_ok xs" by (simp add: xs_def wakes_reasons)
  note w = woke_facts [OF s'(2) this]
  have "length (concat (map (wakes s) es)) \<le> 2 * length es" for es
  proof (induction es)
    case (Cons e es)
    then show ?case using wakes_two [of s e] by simp
  qed simp
  then have "length xs \<le> 2 * length es" unfolding xs_def .
  then have len: "length ?woken \<le> 128"
    using list_emb_length [OF woken_slots_props(3), of "armed s" "map fst xs"] assms(3) by simp
  then have "(of_nat (length ?woken) :: u32) > 0 \<longleftrightarrow> ?woken \<noteq> []" by (simp add: word_less_nat_alt unat_of_nat)
  then show ?thesis using s' w(1) [OF assms(1)] w(2) woken_slots_props [of "armed s" "map fst xs"] len
    by (auto simp: fires_def woke_def)
qed

end

interpretation epoll: event_loop "process_event ops" "process_events ops" "event_wakes ops" "event_ok ops" for ops
proof unfold_locales
  fix s :: "('a, 'b) poll_state" and e
  show "length (event_wakes ops s e) \<le> 2" by (auto simp: event_wakes_def timer_wakes_def end_wakes_def split: option.splits)
  show "wakes_ok (event_wakes ops s e)" by (simp add: event_wakes_def)
  fix xs s' assume w: "woke s xs s'"
  show "event_wakes ops s' e = event_wakes ops s e" by (simp add: event_wakes_def timer_wakes_woke [OF w])
  show "event_ok ops s e \<Longrightarrow> event_ok ops s' e" unfolding event_ok_def timer_wakes_woke [OF w] .
qed (simp_all add: process_event_spec)

text \<open>
  C16. The event loop of the poller, for every list of events about existing sockets and timers, where an event of a
  timer and an event of a socket may be about the same waiter: it ends without a fault; the waiters it wakes are exactly
  those that an event is about and whose fiber waits unclaimed, each once, in the order of the first event about it, so
  that no fiber is woken twice when no fiber waits at two places; it passes their fibers on with their number, unless
  there are none; and every waiter that an event is about has the reason of the first event about it, or the one that it
  had before, so that it is claimed even when its fiber does not sleep yet. All other waiters are left alone.
\<close>

theorem fev_poller_process_exact:
  assumes "waiters_sane s" "\<forall>e \<in> set events. event_ok ops s e" "n = int (length events)" "length events \<le> 64"
  defines "xs \<equiv> concat (map (event_wakes ops s) events)"
  shows "\<exists>s' woken. fev_poller_process ops n events s =
      Some (s', if woken = [] then None else Some (map (slot_fiber s) woken, of_nat (length woken))) \<and>
    distinct woken \<and> set woken = {x \<in> fst ` set xs. armed s x} \<and> subseq woken (map fst xs) \<and> length woken \<le> 128 \<and>
    (inj_on (slot_fiber s) {x. armed s x} \<longrightarrow> distinct (map (slot_fiber s) woken)) \<and>
    slot_waiter s' = claims xs (slot_waiter s) \<and>
    waiters_sane s' \<and> (\<forall>x. armed s' x \<longleftrightarrow> armed s x \<and> x \<notin> fst ` set xs)"
proof -
  obtain s' woken num where l: "process_events ops events s [] 0 = Some (s', map (slot_fiber s) woken, num)" "num = of_nat (length woken)"
      "num > 0 \<longleftrightarrow> woken \<noteq> []"
    and w: "distinct woken" "set woken = {x \<in> fst ` set xs. armed s x}" "subseq woken (map fst xs)" "length woken \<le> 128"
      "slot_waiter s' = claims xs (slot_waiter s)" "waiters_sane s'" "\<forall>x. armed s' x \<longleftrightarrow> armed s x \<and> x \<notin> fst ` set xs"
    using epoll.loop_exact [OF assms(1,2,4)] unfolding xs_def by blast
  have "fev_poller_process ops n events s =
      Some (s', if woken = [] then None else Some (map (slot_fiber s) woken, of_nat (length woken)))"
    using l assms(3) by (simp add: fev_poller_process_def)
  moreover have "distinct (map (slot_fiber s) woken)" if "inj_on (slot_fiber s) {x. armed s x}"
    using w(1,2) inj_on_subset [OF that, of "set woken"] by (auto simp: distinct_map)
  ultimately show ?thesis using w by blast
qed

text \<open>
  A reader with a time-out: its timer is the first of the bucket at 64, and points at the waiter of the socket at 16. The
  timer fires, and the socket becomes ready: the reader is woken once, because of the time-out.
\<close>

definition waiting_socket :: fev_socket where
  "waiting_socket =
     \<lparr>sk_read_end = \<lparr>se_waiter = \<lparr>w_reason = 0, w_do_wake = 1, w_wake_reason = 0, w_wait_for_post = 0, w_wait_for_wake = 1, w_fiber = 7\<rparr>, se_active = True\<rparr>,
      sk_write_end = \<lparr>se_waiter = \<lparr>w_reason = 0, w_do_wake = 0, w_wake_reason = 0, w_wait_for_post = 0, w_wait_for_wake = 0, w_fiber = 0\<rparr>, se_active = False\<rparr>,
      sk_fd = 3, sk_error = 0\<rparr>"

definition timed_reader :: "(timer_store, binheap_bucket) poll_state" where
  "timed_reader =
     \<lparr>ps_timers = [9 \<mapsto> \<lparr>t_abs_time = \<lparr>tv_sec = 1, tv_nsec = 0\<rparr>, t_index = 1, t_waiter = 16\<rparr>],
      ps_buckets = [64 \<mapsto> \<lparr>tb_lock = undefined, tb_queue = undefined, tb_min = 9\<rparr>],
      ps_waiters = Map.empty, ps_sockets = [16 \<mapsto> waiting_socket], ps_place = (\<lambda>_. Read_End 16)\<rparr>"

definition timer_and_socket :: "epoll_event list" where
  "timer_and_socket = [\<lparr>ev_events = EPOLLIN, ev_ptr = 65\<rparr>, \<lparr>ev_events = EPOLLIN, ev_ptr = 16\<rparr>]"

lemma timed_reader_sane: "waiters_sane timed_reader"
proof -
  have "waiter_sane w" if "slot_waiter timed_reader x = Some w" for x w
    using that by (cases x) (auto simp: timed_reader_def waiting_socket_def waiter_sane_def reason_defs split: if_splits)
  then show ?thesis by (simp add: waiters_sane_def)
qed

lemma timed_reader_wakes:
  "concat (map (event_wakes binheap_ops timed_reader) timer_and_socket) =
     [(Read_End 16, FEV_WAITER_TIMED_OUT_CHECK), (Read_End 16, FEV_WAITER_READY)]"
  "armed timed_reader (Read_End 16)" "slot_fiber timed_reader (Read_End 16) = 7"
  "\<forall>e \<in> set timer_and_socket. event_ok binheap_ops timed_reader e"
  by (simp_all add: timer_and_socket_def event_wakes_def timer_wakes_def end_wakes_def event_error_def epoll_flags timed_reader_def
      armed_def waiter_armed_def slot_fiber_def waiting_socket_def reason_defs event_ok_def timer_ok_def)

theorem fev_poller_process_exact_witness:
  "\<exists>s'. fev_poller_process binheap_ops 2 timer_and_socket timed_reader = Some (s', Some ([7], 1)) \<and> \<not> armed s' (Read_End 16) \<and>
     map_option w_reason (slot_waiter s' (Read_End 16)) = Some FEV_WAITER_TIMED_OUT_CHECK"
proof -
  note t = timed_reader_wakes
  have n: "2 = int (length timer_and_socket)" "length timer_and_socket \<le> 64" by (simp_all add: timer_and_socket_def)
  obtain s' woken where r: "fev_poller_process binheap_ops 2 timer_and_socket timed_reader =
        Some (s', if woken = [] then None else Some (map (slot_fiber timed_reader) woken, of_nat (length woken)))"
      "distinct woken" "set woken = {x \<in> {Read_End 16}. armed timed_reader x}"
      "slot_waiter s' = claims [(Read_End 16, FEV_WAITER_TIMED_OUT_CHECK), (Read_End 16, FEV_WAITER_READY)] (slot_waiter timed_reader)"
      "\<forall>x. armed s' x \<longleftrightarrow> armed timed_reader x \<and> x \<notin> {Read_End 16}"
    using fev_poller_process_exact [OF timed_reader_sane t(4) n] unfolding t(1) by auto
  have set: "set woken = {Read_End 16}" using r(3) t(2) by auto
  have "woken = [Read_End 16]"
  proof (cases woken)
    case (Cons y ys)
    then show ?thesis using r(2) set by (cases ys) auto
  qed (use set in simp)
  moreover have "map_option w_reason (slot_waiter s' (Read_End 16)) = Some FEV_WAITER_TIMED_OUT_CHECK"
    unfolding r(4) by (simp add: claims_def claim_def timed_reader_def waiting_socket_def reason_defs)
  ultimately show ?thesis using r(1,5) t(3) by simp
qed

end
