(* ===== verification/Kqueue.thy ===== *)
theory Kqueue
  imports Poller Poller_Setup
begin

text \<open>
  The kqueue poller (\<open>fev_poller_kqueue.c\<close>, \<open>fev_poller_kqueue.h\<close>): registration, time-outs, interrupts, the loop over the
  events, and set-up and tear-down. What an event does to the waiters is described as for epoll (theory \<open>Poller\<close>).
\<close>

unbundle bit_operations_syntax

section \<open>Changes\<close>

datatype kfilter = EVFILT_READ | EVFILT_WRITE | EVFILT_TIMER | EVFILT_USER

definition EV_ADD :: u32 where "EV_ADD = 0x1"
definition EV_ENABLE :: u32 where "EV_ENABLE = 0x4"
definition EV_ONESHOT :: u32 where "EV_ONESHOT = 0x10"
definition EV_CLEAR :: u32 where "EV_CLEAR = 0x20"
definition NOTE_NSECONDS :: u32 where "NOTE_NSECONDS = 0x4"
definition NOTE_FFNOP :: u32 where "NOTE_FFNOP = 0"
definition NOTE_TRIGGER :: u32 where "NOTE_TRIGGER = 0x01000000"

text \<open>A \<open>struct kevent\<close>. The field \<open>data\<close> is signed, of the width of a pointer.\<close>

record kevent =
  ke_ident :: u64
  ke_filter :: kfilter
  ke_flags :: u32
  ke_fflags :: u32
  ke_data :: "64 word"
  ke_udata :: u64

text \<open>\<open>kevent_change\<close> is the call that applies one change; its result is 0 or \<open>-errno\<close>.\<close>

definition kqueue_register :: "fev_socket \<Rightarrow> u64 \<Rightarrow> kfilter \<Rightarrow> (kevent \<Rightarrow> int) \<Rightarrow> int option" where
  "kqueue_register socket socket_ptr flag kevent_change =
     do { fev_assert (flag = EVFILT_READ \<or> flag = EVFILT_WRITE);
          fev_assert (sk_fd socket \<ge> 0);
          let event = \<lparr>ke_ident = word_of_int (sk_fd socket), ke_filter = flag, ke_flags = EV_ADD OR EV_CLEAR, ke_fflags = 0,
                       ke_data = 0, ke_udata = socket_ptr\<rparr>;
          let ret = kevent_change event;
          Some (if ret = 0 then 0 else ret) }"

definition kqueue_set_timeout :: "timespec \<Rightarrow> u64 \<Rightarrow> timespec \<Rightarrow> (kevent \<Rightarrow> int) \<Rightarrow> kevent option" where
  "kqueue_set_timeout now bucket abs_time kevent_change =
     do { rel_time \<leftarrow> fev_timespec_abs_to_rel now abs_time;
          ns \<leftarrow> fev_timespec_to_ns rel_time;
          let event = \<lparr>ke_ident = bucket, ke_filter = EVFILT_TIMER, ke_flags = EV_ADD OR EV_ONESHOT OR EV_CLEAR,
                       ke_fflags = NOTE_NSECONDS, ke_data = ns, ke_udata = 0\<rparr>;
          fev_assert (kevent_change event = 0);
          Some event }"

definition interrupt_event :: kevent where
  "interrupt_event = \<lparr>ke_ident = 0, ke_filter = EVFILT_USER, ke_flags = EV_ENABLE, ke_fflags = NOTE_TRIGGER, ke_data = 0, ke_udata = 0\<rparr>"

definition kqueue_interrupt :: "(kevent \<Rightarrow> int) \<Rightarrow> unit option" where
  "kqueue_interrupt kevent_change = fev_assert (kevent_change interrupt_event = 0)"

section \<open>Processing events\<close>

text \<open>The result is the fiber to be woken; \<open>0\<close> is \<open>NULL\<close>.\<close>

definition fev_process_timer_event :: "('s, 'b) bucket_ops \<Rightarrow> u64 \<Rightarrow> ('s, 'b) poll_state \<Rightarrow> (('s, 'b) poll_state \<times> fiber_ptr) option" where
  "fev_process_timer_event ops ident s =
     do { bucket \<leftarrow> ps_buckets s ident;
          if tb_min bucket \<noteq> 0
          then do { waiter \<leftarrow> bo_waiter ops (ps_timers s) (tb_min bucket);
                    w \<leftarrow> slot_waiter s (ps_place s waiter);
                    (result, w') \<leftarrow> fev_waiter_wake w FEV_WAITER_TIMED_OUT_CHECK;
                    Some (put_slot (ps_place s waiter) w' s,
                          if result = FEV_WAITER_SET_AND_WAKE_UP then w_fiber w' else 0) }
          else Some (s, 0) }"

definition kqueue_process_socket :: "fev_socket \<Rightarrow> kfilter \<Rightarrow> (fev_socket \<times> fiber_ptr) option" where
  "kqueue_process_socket socket filt =
     do { fev_assert (filt = EVFILT_READ \<or> filt = EVFILT_WRITE);
          let rd = (filt = EVFILT_READ);
          (result, w') \<leftarrow> fev_waiter_wake (se_waiter (if rd then sk_read_end socket else sk_write_end socket)) FEV_WAITER_READY;
          Some (if rd then socket\<lparr>sk_read_end := (sk_read_end socket)\<lparr>se_waiter := w'\<rparr>\<rparr>
                else socket\<lparr>sk_write_end := (sk_write_end socket)\<lparr>se_waiter := w'\<rparr>\<rparr>,
                if result = FEV_WAITER_SET_AND_WAKE_UP then w_fiber w' else 0) }"

definition process_kevent ::
  "('s, 'b) bucket_ops \<Rightarrow> kevent \<Rightarrow> ('s, 'b) poll_state \<Rightarrow> fiber_ptr list \<Rightarrow> u32 \<Rightarrow> (('s, 'b) poll_state \<times> fiber_ptr list \<times> u32) option" where
  "process_kevent ops event s fibers num_fibers =
     (if ke_udata event = 0
      then do { fev_assert (ke_filter event = EVFILT_TIMER \<or> ke_filter event = EVFILT_USER);
                if ke_filter event = EVFILT_USER then Some (s, fibers, num_fibers)
                else do { (s, fiber) \<leftarrow> fev_process_timer_event ops (ke_ident event) s;
                          Some (s, add_fiber fiber fibers num_fibers) } }
      else do { fev_assert (ke_filter event = EVFILT_READ \<or> ke_filter event = EVFILT_WRITE);
                socket \<leftarrow> ps_sockets s (ke_udata event);
                (socket, fiber) \<leftarrow> kqueue_process_socket socket (ke_filter event);
                Some (s\<lparr>ps_sockets := (ps_sockets s)(ke_udata event \<mapsto> socket)\<rparr>, add_fiber fiber fibers num_fibers) })"

fun process_kevents ::
  "('s, 'b) bucket_ops \<Rightarrow> kevent list \<Rightarrow> ('s, 'b) poll_state \<Rightarrow> fiber_ptr list \<Rightarrow> u32 \<Rightarrow> (('s, 'b) poll_state \<times> fiber_ptr list \<times> u32) option" where
  "process_kevents ops [] s fibers num_fibers = Some (s, fibers, num_fibers)"
| "process_kevents ops (e # es) s fibers num_fibers =
     do { (s, fibers, num_fibers) \<leftarrow> process_kevent ops e s fibers num_fibers; process_kevents ops es s fibers num_fibers }"

text \<open>\<open>n\<close> and \<open>events\<close> are the result of \<open>kevent\<close>; \<open>None\<close> is \<open>fev_fatal_kevent\<close> or a failed assertion.\<close>

definition kqueue_process ::
  "('s, 'b) bucket_ops \<Rightarrow> int \<Rightarrow> kevent list \<Rightarrow> ('s, 'b) poll_state \<Rightarrow> (('s, 'b) poll_state \<times> (fiber_ptr list \<times> u32) option) option" where
  "kqueue_process ops n events s =
     (if n < 0 then None
      else do { (s, fibers, num_fibers) \<leftarrow> process_kevents ops (take (nat n) events) s [] 0;
                Some (s, if num_fibers > 0 then Some (fibers, num_fibers) else None) })"

section \<open>Set-up and tear-down\<close>

definition kqueue_init :: "sched_rs \<Rightarrow> (int \<times> sched_rs) option" where
  "kqueue_init s =
     (let (ret, s) = acquire KqueueFd s
      in if ret \<noteq> 0 then Some (ret, s)
         else let (ret, s) = attempt s
              in if ret \<noteq> 0 then do { s \<leftarrow> release KqueueFd s; Some (ret, s) } else Some (0, s))"

definition kqueue_fini :: "sched_rs \<Rightarrow> sched_rs option" where
  "kqueue_fini s = release KqueueFd s"

interpretation kqueue_poller: component kqueue_init kqueue_fini "{#KqueueFd#}"
proof unfold_locales
  fix s :: sched_rs
  obtain r1 s1 where 1: "acquire KqueueFd s = (r1, s1)" by fastforce
  obtain r2 s2 where 2: "attempt s1 = (r2, s2)" by fastforce
  show "\<exists>ret s'. kqueue_init s = Some (ret, s') \<and> holds_after s ret s' {#KqueueFd#} \<and> rstate.more s' = rstate.more s"
    using acquire_held [OF 1] attempt_held [OF 2] 1 2
    by (cases "r1 = 0"; cases "r2 = 0") (auto simp: kqueue_init_def holds_after_def release_def)
qed (simp add: kqueue_fini_def release_def)

section \<open>Correctness of the loop\<close>

definition kevent_wakes :: "('s, 'b) bucket_ops \<Rightarrow> ('s, 'b) poll_state \<Rightarrow> kevent \<Rightarrow> (slot \<times> u32) list" where
  "kevent_wakes ops s e =
     (if ke_udata e = 0 then if ke_filter e = EVFILT_USER then [] else timer_wakes ops s (ke_ident e)
      else end_wakes True (ke_filter e = EVFILT_READ) (ke_udata e))"

text \<open>An event is about something that exists.\<close>

definition kevent_ok :: "('s, 'b) bucket_ops \<Rightarrow> ('s, 'b) poll_state \<Rightarrow> kevent \<Rightarrow> bool" where
  "kevent_ok ops s e \<longleftrightarrow>
     (if ke_udata e = 0
      then ke_filter e = EVFILT_USER \<or> ke_filter e = EVFILT_TIMER \<and> timer_ok ops s (ke_ident e)
      else (ke_filter e = EVFILT_READ \<or> ke_filter e = EVFILT_WRITE) \<and> slot_waiter s (Read_End (ke_udata e)) \<noteq> None)"

lemma process_kevent_timer:
  assumes sane: "waiters_sane s" and e: "ke_udata e = 0" "ke_filter e = EVFILT_TIMER" and ok: "timer_ok ops s (ke_ident e)"
  defines "xs \<equiv> timer_wakes ops s (ke_ident e)"
  shows "\<exists>s'. process_kevent ops e s fibers num = Some (s', fibers @ fires s xs, num + of_nat (length (fires s xs))) \<and> woke s xs s'"
  using ok
proof (cases rule: timer_okE)
  case none
  then show ?thesis
    using e by (simp add: process_kevent_def xs_def timer_wakes_def fev_process_timer_event_def add_fiber_def woke_none)
next
  case (min b wp w)
  let ?r = FEV_WAITER_TIMED_OUT_CHECK
  obtain result where r: "fev_waiter_wake w ?r = Some (result, claim ?r w)"
      "add_fiber (if result = FEV_WAITER_SET_AND_WAKE_UP then w_fiber (claim ?r w) else 0) fibers num =
        (fibers @ fires s [(ps_place s wp, ?r)], num + of_nat (length (fires s [(ps_place s wp, ?r)])))"
    using wake_fiber_fires [OF sane min(4), of ?r fibers num] by blast
  have "process_kevent ops e s fibers num = Some (put_slot (ps_place s wp) (claim ?r w) s,
        fibers @ fires s [(ps_place s wp, ?r)], num + of_nat (length (fires s [(ps_place s wp, ?r)])))"
    using e min(1-4) r by (simp add: process_kevent_def fev_process_timer_event_def del: fires_simps)
  then show ?thesis using woke_put [OF min(4), of ?r] min(5) by (auto simp: xs_def simp del: fires_simps)
qed

lemma process_kevent_socket:
  assumes sane: "waiters_sane s" and e: "ke_udata e = p" "p \<noteq> 0" "ke_filter e = EVFILT_READ \<or> ke_filter e = EVFILT_WRITE" and k: "ps_sockets s p = Some k"
  defines "xs \<equiv> end_wakes True (ke_filter e = EVFILT_READ) p"
  shows "\<exists>s'. process_kevent ops e s fibers num = Some (s', fibers @ fires s xs, num + of_nat (length (fires s xs))) \<and> woke s xs s'"
proof -
  let ?rd = "ke_filter e = EVFILT_READ" and ?r = FEV_WAITER_READY
  define x where "x = (if ?rd then Read_End p else Write_End p)"
  define w where "w = se_waiter (if ?rd then sk_read_end k else sk_write_end k)"
  have sw: "slot_waiter s x = Some w" using k by (simp add: x_def w_def)
  obtain result where r: "fev_waiter_wake w ?r = Some (result, claim ?r w)"
      "add_fiber (if result = FEV_WAITER_SET_AND_WAKE_UP then w_fiber (claim ?r w) else 0) fibers num =
        (fibers @ fires s [(x, ?r)], num + of_nat (length (fires s [(x, ?r)])))"
    using wake_fiber_fires [OF sane sw, of ?r fibers num] by blast
  define k' where "k' = (if ?rd then k\<lparr>sk_read_end := (sk_read_end k)\<lparr>se_waiter := claim ?r w\<rparr>\<rparr>
      else k\<lparr>sk_write_end := (sk_write_end k)\<lparr>se_waiter := claim ?r w\<rparr>\<rparr>)"
  have "put_slot x (claim ?r w) s = s\<lparr>ps_sockets := (ps_sockets s)(p \<mapsto> k')\<rparr>" using k by (simp add: x_def k'_def)
  then have "woke s xs (s\<lparr>ps_sockets := (ps_sockets s)(p \<mapsto> k')\<rparr>)" using woke_put [OF sw, of ?r] by (simp add: xs_def end_wakes_def x_def)
  moreover have "process_kevent ops e s fibers num =
      Some (s\<lparr>ps_sockets := (ps_sockets s)(p \<mapsto> k')\<rparr>, fibers @ fires s [(x, ?r)], num + of_nat (length (fires s [(x, ?r)])))"
    using e k r by (auto simp: process_kevent_def kqueue_process_socket_def w_def k'_def simp del: fires_simps)
  moreover have "xs = [(x, ?r)]" by (simp add: xs_def end_wakes_def x_def)
  ultimately show ?thesis by (auto simp del: fires_simps)
qed

lemma process_kevent_spec:
  assumes sane: "waiters_sane s" and ok: "kevent_ok ops s e"
  shows "\<exists>s'. process_kevent ops e s fibers num =
      Some (s', fibers @ fires s (kevent_wakes ops s e), num + of_nat (length (fires s (kevent_wakes ops s e)))) \<and>
    woke s (kevent_wakes ops s e) s'"
proof -
  consider (user) "ke_udata e = 0" "ke_filter e = EVFILT_USER"
    | (timer) "ke_udata e = 0" "ke_filter e = EVFILT_TIMER" "timer_ok ops s (ke_ident e)"
    | (socket) k where "ke_udata e \<noteq> 0" "ke_filter e = EVFILT_READ \<or> ke_filter e = EVFILT_WRITE" "ps_sockets s (ke_udata e) = Some k"
    using ok unfolding kevent_ok_def by (auto split: if_splits)
  then show ?thesis
  proof cases
    case user
    then show ?thesis by (simp add: process_kevent_def kevent_wakes_def woke_none)
  next
    case timer
    then show ?thesis using process_kevent_timer [OF sane timer] by (simp add: kevent_wakes_def)
  next
    case socket
    then show ?thesis using process_kevent_socket [OF sane refl socket] by (simp add: kevent_wakes_def)
  qed
qed

interpretation kqueue: event_loop "process_kevent ops" "process_kevents ops" "kevent_wakes ops" "kevent_ok ops" for ops
proof unfold_locales
  fix s :: "('a, 'b) poll_state" and e
  show "length (kevent_wakes ops s e) \<le> 2" by (auto simp: kevent_wakes_def timer_wakes_def end_wakes_def split: option.splits)
  show "wakes_ok (kevent_wakes ops s e)" by (simp add: kevent_wakes_def)
  fix xs s' assume w: "woke s xs s'"
  show "kevent_wakes ops s' e = kevent_wakes ops s e" by (simp add: kevent_wakes_def timer_wakes_woke [OF w])
  show "kevent_ok ops s e \<Longrightarrow> kevent_ok ops s' e" unfolding kevent_ok_def timer_wakes_woke [OF w] .
qed (simp_all add: process_kevent_spec)

section \<open>The properties\<close>

lemma sint_iff_small:
  fixes w :: u64
  shows "uint w < 2 ^ 63 \<Longrightarrow> sint w = uint w" "2 ^ 63 \<le> uint w \<Longrightarrow> sint w < 0"
proof -
  show "sint w = uint w" if "uint w < 2 ^ 63" using that by (simp add: sint_uint signed_take_bit_int_eq_self order_trans [OF _ uint_ge_0])
  have "uint w = take_bit 64 (sint w)" by (simp add: uint_sint)
  moreover have "sint w < 2 ^ 63" using sint_lt [of w] by simp
  ultimately show "sint w < 0" if "2 ^ 63 \<le> uint w" using that by (cases "0 \<le> sint w") (simp_all add: take_bit_int_eq_self)
qed

text \<open>What \<open>kevent\<close> gets as the time of a time-out, which it reads as a signed number.\<close>

lemma set_timeout_data:
  assumes "timespec_wf now" "timespec_wf abs_time"
  shows "\<exists>ev. kqueue_set_timeout now bucket abs_time (\<lambda>_. 0) = Some ev \<and> ke_ident ev = bucket \<and>
    (if ns abs_time - ns now < 2 ^ 63 then sint (ke_data ev) = max 0 (ns abs_time - ns now) else sint (ke_data ev) < 0)"
proof -
  obtain r where r: "fev_timespec_abs_to_rel now abs_time = Some r" "timespec_wf r" "ns r = max 0 (ns abs_time - ns now)"
    using abs_to_rel_wf [OF assms] by blast
  obtain d where d: "fev_timespec_to_ns r = Some d" "uint d = min (ns r) (2 ^ 64 - 1)" using fev_timespec_to_ns_saturates [OF r(2)] by blast
  have "if ns abs_time - ns now < 2 ^ 63 then sint d = max 0 (ns abs_time - ns now) else sint d < 0"
  proof (cases "ns abs_time - ns now < 2 ^ 63")
    case True
    then have "uint d = max 0 (ns abs_time - ns now)" using d(2) r(3) by simp
    then show ?thesis using sint_iff_small(1) [of d] True by simp
  next
    case False
    then have "2 ^ 63 \<le> uint d" using d(2) r(3) by simp
    then show ?thesis using sint_iff_small(2) [of d] False by simp
  qed
  then show ?thesis using r(1) d(1) by (simp add: kqueue_set_timeout_def)
qed

text \<open>
  A reader with a time-out, of whose waiter the timer and the socket have an event, and an interrupt: as in theory \<open>Poller\<close>,
  the reader is woken once, because of the time-out.
\<close>

definition three_kevents :: "kevent list" where
  "three_kevents =
     [interrupt_event, interrupt_event\<lparr>ke_filter := EVFILT_TIMER, ke_ident := 64\<rparr>, interrupt_event\<lparr>ke_filter := EVFILT_READ, ke_udata := 16\<rparr>]"

text \<open>
  C38. The two pollers do the same: whenever the events of \<open>epoll_wait\<close> and those of \<open>kevent\<close> are about the same ends of
  sockets and the same timers, in the same order, both loops end without a fault, hand the same fibers in the same order and
  with the same number to the scheduler, or none, and leave every waiter in the same state, its reason and \<open>do_wake\<close>
  included, whether or not its fiber slept already. An event of epoll may be about both ends of a socket, for which
  kqueue has two events. (Only epoll records an error in the socket; the waiters are what is compared.)
\<close>

theorem pollers_agree:
  assumes "waiters_sane s" "\<forall>e \<in> set events. event_ok ops s e" "\<forall>e \<in> set kevents. kevent_ok ops s e"
    and "concat (map (event_wakes ops s) events) = concat (map (kevent_wakes ops s) kevents)"
  shows "\<exists>s1 s2 woken. fev_poller_process ops (int (length events)) events s = Some (s1, woken) \<and>
    kqueue_process ops (int (length kevents)) kevents s = Some (s2, woken) \<and>
    slot_waiter s1 = slot_waiter s2 \<and> slot_waiter s2 = claims (concat (map (kevent_wakes ops s) kevents)) (slot_waiter s)"
proof -
  let ?xs = "concat (map (event_wakes ops s) events)"
  obtain s1 where 1: "process_events ops events s [] 0 = Some (s1, fires s ?xs, of_nat (length (fires s ?xs)))" "woke s ?xs s1"
    using epoll.loop_spec [OF assms(1,2), of "[]" 0] by auto
  obtain s2 where 2: "process_kevents ops kevents s [] 0 = Some (s2, fires s ?xs, of_nat (length (fires s ?xs)))" "woke s ?xs s2"
    using kqueue.loop_spec [OF assms(1,3), of "[]" 0] unfolding assms(4) by auto
  have "slot_waiter s1 = slot_waiter s2" "slot_waiter s2 = claims ?xs (slot_waiter s)" using 1(2) 2(2) by (simp_all add: woke_def)
  then show ?thesis using 1(1) 2(1) by (simp add: fev_poller_process_def kqueue_process_def assms(4))
qed

theorem pollers_agree_witness:
  "\<exists>s1 s2 woken. fev_poller_process binheap_ops 2 timer_and_socket timed_reader = Some (s1, woken) \<and>
     kqueue_process binheap_ops 3 three_kevents timed_reader = Some (s2, woken) \<and> slot_waiter s1 = slot_waiter s2"
proof -
  have ok: "\<forall>e \<in> set three_kevents. kevent_ok binheap_ops timed_reader e"
    by (simp add: three_kevents_def interrupt_event_def kevent_ok_def timer_ok_def timed_reader_def)
  have wakes: "concat (map (kevent_wakes binheap_ops timed_reader) three_kevents) =
      [(Read_End 16, FEV_WAITER_TIMED_OUT_CHECK), (Read_End 16, FEV_WAITER_READY)]"
    by (simp add: three_kevents_def interrupt_event_def kevent_wakes_def timer_wakes_def end_wakes_def timed_reader_def)
  have n: "int (length timer_and_socket) = 2" "int (length three_kevents) = 3" by (simp_all add: timer_and_socket_def three_kevents_def)
  show ?thesis
    using pollers_agree [OF timed_reader_sane timed_reader_wakes(4) ok] unfolding n timed_reader_wakes(1) wakes by blast
qed

text \<open>
  A time-out that lies more than \<open>2^63\<close> nanoseconds ahead is passed to \<open>kevent\<close> as a negative number, although
  \<open>fev_timespec_to_ns\<close> takes care not to wrap around.
\<close>

theorem kqueue_far_timeout_is_negative:
  "\<exists>ev. kqueue_set_timeout \<lparr>tv_sec = 0, tv_nsec = 0\<rparr> 64 \<lparr>tv_sec = 10000000000, tv_nsec = 0\<rparr> (\<lambda>_. 0) = Some ev \<and> sint (ke_data ev) < 0"
  using set_timeout_data [of "\<lparr>tv_sec = 0, tv_nsec = 0\<rparr>" "\<lparr>tv_sec = 10000000000, tv_nsec = 0\<rparr>" 64]
  by (auto simp: time_defs ns_def)

end
