(* ===== verification/Sched_Backends.thy ===== *)
theory Sched_Backends
  imports Sched_Setup Kqueue
begin

text \<open>
  \<open>fev_sched_init\<close> and \<open>fev_sched_fini\<close> of the scheduling strategies, and that they keep the contract of the
  common part.
\<close>

section \<open>Locks of the run queues\<close>

text \<open>
  The run queues of \<open>fev_sched_steal_locking.c\<close> have a lock each. The futex mutex of the builds for Linux and the
  spin lock are set up without a call that can fail. The mutex of the other builds, those with kqueue, is the
  POSIX mutex of the operating system, whose set-up may fail.
\<close>

definition futex_lock_init :: "nat \<Rightarrow> sched_rs \<Rightarrow> int \<times> sched_rs" where
  "futex_lock_init n s = (0, s\<lparr>rs_held := add_mset (QueueRes n) (rs_held s)\<rparr>)"

definition os_lock_init :: "nat \<Rightarrow> sched_rs \<Rightarrow> int \<times> sched_rs" where
  "os_lock_init n s = acquire (QueueRes n) s"

function lock_init_loop :: "(nat \<Rightarrow> sched_rs \<Rightarrow> int \<times> sched_rs) \<Rightarrow> nat \<Rightarrow> nat \<Rightarrow> sched_rs \<Rightarrow> int \<times> nat \<times> sched_rs" where
  "lock_init_loop lock_init n limit s =
     (if n < limit
      then let (ret, s) = lock_init n s in if ret \<noteq> 0 then (ret, n, s) else lock_init_loop lock_init (Suc n) limit s
      else (0, n, s))"
  by pat_completeness auto
termination
  by (relation "measure (\<lambda>(f, n, limit, s). limit - n)") auto

declare lock_init_loop.simps [simp del]

lemma futex_lock_init_loop:
  "n \<le> limit \<Longrightarrow> lock_init_loop futex_lock_init n limit s = (0, limit, s\<lparr>rs_held := rs_held s + segment QueueRes n limit\<rparr>)"
proof (induction "limit - n" arbitrary: n s)
  case 0
  then show ?case by (subst lock_init_loop.simps) simp
next
  case (Suc k)
  then have "n < limit" by simp
  then show ?case using Suc by (subst lock_init_loop.simps) (simp add: futex_lock_init_def segment_rec [of n limit])
qed

lemma os_lock_init_loop: "lock_init_loop os_lock_init n limit s = (ret, m, s') \<Longrightarrow> rstate.more s' = rstate.more s"
proof (induction os_lock_init n limit s rule: lock_init_loop.induct)
  case (1 n limit s)
  obtain ret1 s1 where a: "os_lock_init n s = (ret1, s1)" by fastforce
  then have "rstate.more s1 = rstate.more s" using acquire_held [of "QueueRes n" s] by (simp add: os_lock_init_def)
  then show ?case
    using 1 a by (subst (asm) (2) lock_init_loop.simps) (auto split: if_splits)
qed

section \<open>Workers\<close>

text \<open>
  \<open>fev_aligned_free (sched->workers)\<close> faults when the field was never written.
\<close>

definition free_workers :: "sched_rs \<Rightarrow> sched_rs option" where
  "free_workers s = do { w \<leftarrow> rs_workers s; release w s }"

definition set_workers :: "nat \<Rightarrow> sched_rs \<Rightarrow> sched_rs" where
  "set_workers n s = s\<lparr>rs_workers := Some WorkersBlock, rs_num_workers := n\<rparr>"

text \<open>Work stealing with locks: the failure path frees \<open>sched->workers\<close>, which is written only on success.\<close>

definition steal_locking_init_workers ::
  "(nat \<Rightarrow> sched_rs \<Rightarrow> int \<times> sched_rs) \<Rightarrow> nat \<Rightarrow> sched_rs \<Rightarrow> (int \<times> sched_rs) option" where
  "steal_locking_init_workers lock_init num_workers s =
     (if num_workers = 0 then None
      else let (ret, s) = acquire WorkersBlock s
           in if ret \<noteq> 0 then Some (- ENOMEM, s)
              else let (ret, n, s) = lock_init_loop lock_init 0 num_workers s
                   in if ret = 0 then Some (0, set_workers num_workers s)
                      else do { s \<leftarrow> release_down QueueRes n s; s \<leftarrow> free_workers s; Some (ret, s) })"

definition steal_fini_workers :: "sched_rs \<Rightarrow> sched_rs option" where
  "steal_fini_workers s = do { s \<leftarrow> release_up QueueRes 0 (rs_num_workers s) s; free_workers s }"

text \<open>Work stealing with bounded queues, whose buffers are allocated.\<close>

definition steal_bounded_init_workers :: "nat \<Rightarrow> sched_rs \<Rightarrow> (int \<times> sched_rs) option" where
  "steal_bounded_init_workers num_workers s =
     (if num_workers = 0 then None
      else let (ret, s) = acquire WorkersBlock s
           in if ret \<noteq> 0 then Some (- ENOMEM, s)
              else let (ret, n, s) = acquire_loop QueueRes 0 num_workers s
                   in if ret = 0 then Some (0, set_workers num_workers s)
                      else do { s \<leftarrow> release_up QueueRes 0 n s; s \<leftarrow> release WorkersBlock s; Some (ret, s) })"

text \<open>Work sharing: the workers have no queues.\<close>

definition shr_init_workers :: "nat \<Rightarrow> sched_rs \<Rightarrow> (int \<times> sched_rs) option" where
  "shr_init_workers num_workers s =
     (if num_workers = 0 then None
      else let (ret, s) = acquire WorkersBlock s
           in if ret \<noteq> 0 then Some (- ENOMEM, s) else Some (0, set_workers num_workers s))"

definition steal_res :: "nat \<Rightarrow> sched_res multiset" where
  "steal_res n = add_mset WorkersBlock (segment QueueRes 0 n)"

lemma steal_fini_workers_held:
  assumes "rs_workers s = Some WorkersBlock" "steal_res (rs_num_workers s) \<subseteq># rs_held s"
  shows "\<exists>s'. steal_fini_workers s = Some s' \<and> rs_held s' = rs_held s - steal_res (rs_num_workers s)"
proof -
  obtain R where R: "rs_held s = R + steal_res (rs_num_workers s)"
    using assms(2) by (auto simp: mset_subset_eq_exists_conv ac_simps)
  then have "release_up QueueRes 0 (rs_num_workers s) s = Some (s\<lparr>rs_held := add_mset WorkersBlock R\<rparr>)"
    using release_up_held [of QueueRes 0 "rs_num_workers s" s] by (simp add: steal_res_def)
  then show ?thesis using R assms(1) by (simp add: steal_fini_workers_def free_workers_def release_def steal_res_def)
qed

interpretation steal_locking_workers: sched_backend "steal_locking_init_workers futex_lock_init" steal_fini_workers steal_res
proof unfold_locales
  fix n :: nat and s :: sched_rs
  assume n: "n > 0"
  obtain ret s1 where a: "acquire WorkersBlock s = (ret, s1)" by fastforce
  show "\<exists>ret s'. steal_locking_init_workers futex_lock_init n s = Some (ret, s') \<and> holds_after s ret s' (steal_res n) \<and>
      (ret = 0 \<longrightarrow> rs_workers s' = Some WorkersBlock \<and> rs_num_workers s' = n)"
    using n a acquire_held [OF a] futex_lock_init_loop [of 0 n s1]
    by (cases "ret = 0") (auto simp: steal_locking_init_workers_def holds_after_def steal_res_def set_workers_def ENOMEM_def)
qed (rule steal_fini_workers_held)

interpretation steal_bounded_workers: sched_backend steal_bounded_init_workers steal_fini_workers steal_res
proof unfold_locales
  fix n :: nat and s :: sched_rs
  assume n: "n > 0"
  obtain ret s1 where a: "acquire WorkersBlock s = (ret, s1)" by fastforce
  obtain ret2 m s2 where l: "acquire_loop QueueRes 0 n s1 = (ret2, m, s2)" by (metis prod.exhaust)
  note held = acquire_held [OF a] acquire_loop_held [OF l]
  have "release_up QueueRes 0 m s2 = Some (s2\<lparr>rs_held := rs_held s1\<rparr>)"
    using held release_up_held [of QueueRes 0 m s2] by simp
  then show "\<exists>ret s'. steal_bounded_init_workers n s = Some (ret, s') \<and> holds_after s ret s' (steal_res n) \<and>
      (ret = 0 \<longrightarrow> rs_workers s' = Some WorkersBlock \<and> rs_num_workers s' = n)"
    using n a l held
    by (cases "ret = 0"; cases "ret2 = 0")
       (auto simp: steal_bounded_init_workers_def holds_after_def steal_res_def set_workers_def release_def ENOMEM_def)
qed (rule steal_fini_workers_held)

interpretation shr_workers: sched_backend shr_init_workers free_workers "\<lambda>_. {#WorkersBlock#}"
proof unfold_locales
  fix n :: nat and s :: sched_rs
  assume n: "n > 0"
  obtain ret s1 where a: "acquire WorkersBlock s = (ret, s1)" by fastforce
  show "\<exists>ret s'. shr_init_workers n s = Some (ret, s') \<and> holds_after s ret s' {#WorkersBlock#} \<and>
      (ret = 0 \<longrightarrow> rs_workers s' = Some WorkersBlock \<and> rs_num_workers s' = n)"
    using n a acquire_held [OF a]
    by (cases "ret = 0") (auto simp: shr_init_workers_def holds_after_def set_workers_def ENOMEM_def)
qed (simp add: free_workers_def release_def)

section \<open>\<open>fev_sched_init\<close> and \<open>fev_sched_fini\<close>\<close>

text \<open>After the workers: the poller, the timers, the semaphore, and what the strategy shares between workers.\<close>

lemma more_workers:
  fixes s s' :: sched_rs
  shows "rstate.more s' = rstate.more s \<Longrightarrow> rs_workers s' = rs_workers s \<and> rs_num_workers s' = rs_num_workers s"
  by (cases s; cases s') simp

lemma backend_step:
  assumes w: "sched_backend init_workers fini_workers wres" and c: "component init fini res"
  shows "sched_backend (\<lambda>n. init_step (init_workers n) fini_workers init) (\<lambda>s. do { s \<leftarrow> fini s; fini_workers s }) (\<lambda>n. wres n + res)"
proof unfold_locales
  fix n :: nat and s :: sched_rs
  assume "n > 0"
  then obtain ret s1 where 1: "init_workers n s = Some (ret, s1)" "holds_after s ret s1 (wres n)"
      "ret = 0 \<longrightarrow> rs_workers s1 = Some WorkersBlock \<and> rs_num_workers s1 = n"
    using sched_backend.init_holds [OF w] by blast
  show "\<exists>ret s'. init_step (init_workers n) fini_workers init s = Some (ret, s') \<and> holds_after s ret s' (wres n + res) \<and>
      (ret = 0 \<longrightarrow> rs_workers s' = Some WorkersBlock \<and> rs_num_workers s' = n)"
  proof (cases "ret = 0")
    case False
    then show ?thesis using 1 by (simp add: init_step_def holds_after_def)
  next
    case True
    show ?thesis
    proof (cases rule: component.init_cases [OF c, of s1])
      case (1 ret' s2)
      then have "rs_workers s2 = Some WorkersBlock" "rs_num_workers s2 = n" "wres n \<subseteq># rs_held s2"
        using \<open>ret = 0\<close> \<open>holds_after s ret s1 (wres n)\<close> \<open>ret = 0 \<longrightarrow> _\<close> more_workers [OF 1(4)] by (simp_all add: holds_after_def)
      then show ?thesis
        using sched_backend.fini_releases [OF w, of s2] 1 True \<open>init_workers n s = _\<close> \<open>holds_after s ret s1 (wres n)\<close>
        by (auto simp: init_step_def holds_after_def)
    next
      case (2 s2)
      then show ?thesis
        using True 1 more_workers [OF 2(3)] by (simp add: init_step_def holds_after_def)
    qed
  qed
next
  fix s :: sched_rs
  assume ws: "rs_workers s = Some WorkersBlock" and held: "wres (rs_num_workers s) + res \<subseteq># rs_held s"
  then have "res \<subseteq># rs_held s" using subset_mset.order_trans [OF _ held] by simp
  then obtain s' where s': "fini s = Some s'" "rs_held s' = rs_held s - res" "rstate.more s' = rstate.more s"
    using component.fini_releases [OF c] by blast
  have same: "rs_workers s' = Some WorkersBlock" "rs_num_workers s' = rs_num_workers s"
    using more_workers [OF s'(3)] ws by simp_all
  moreover have "wres (rs_num_workers s) \<subseteq># rs_held s'" using held s'(2) by (auto simp: mset_subset_eq_exists_conv ac_simps)
  ultimately obtain s'' where "fini_workers s' = Some s''" "rs_held s'' = rs_held s' - wres (rs_num_workers s)"
    using sched_backend.fini_releases [OF w, of s'] by auto
  then show "\<exists>s'. fini s \<bind> fini_workers = Some s' \<and> rs_held s' = rs_held s - (wres (rs_num_workers s) + res)"
    using s' by (auto simp: add.commute)
qed

text \<open>What a strategy sets up before the workers.\<close>

lemma backend_prefix:
  assumes c: "component init fini res" and b: "sched_backend binit bfini bres"
  shows "sched_backend (\<lambda>n. init_step init fini (binit n)) (\<lambda>s. do { s \<leftarrow> bfini s; fini s }) (\<lambda>n. res + bres n)"
proof unfold_locales
  fix n :: nat and s :: sched_rs
  assume n: "n > 0"
  show "\<exists>ret s'. init_step init fini (binit n) s = Some (ret, s') \<and> holds_after s ret s' (res + bres n) \<and>
      (ret = 0 \<longrightarrow> rs_workers s' = Some WorkersBlock \<and> rs_num_workers s' = n)"
  proof (cases rule: component.init_cases [OF c, of s])
    case (1 ret s1)
    then show ?thesis by (simp add: init_step_def holds_after_def)
  next
    case (2 s1)
    obtain ret s2 where s2: "binit n s1 = Some (ret, s2)" "holds_after s1 ret s2 (bres n)"
        "ret = 0 \<longrightarrow> rs_workers s2 = Some WorkersBlock \<and> rs_num_workers s2 = n"
      using sched_backend.init_holds [OF b n] by blast
    show ?thesis
    proof (cases "ret = 0")
      case True
      then show ?thesis using 2 s2 by (simp add: init_step_def holds_after_def ac_simps)
    next
      case False
      then have "rs_held s2 = rs_held s + res" using s2(2) 2(2) by (simp add: holds_after_def)
      then show ?thesis using component.fini_releases [OF c, of s2] 2 s2(1) False by (auto simp: init_step_def holds_after_def)
    qed
  qed
next
  fix s :: sched_rs
  assume ws: "rs_workers s = Some WorkersBlock" and held: "res + bres (rs_num_workers s) \<subseteq># rs_held s"
  then have "bres (rs_num_workers s) \<subseteq># rs_held s" using subset_mset.order_trans [OF _ held] by simp
  then obtain s' where s': "bfini s = Some s'" "rs_held s' = rs_held s - bres (rs_num_workers s)"
    using sched_backend.fini_releases [OF b ws] by blast
  moreover have "res \<subseteq># rs_held s'" using held s'(2) by (auto simp: mset_subset_eq_exists_conv ac_simps)
  ultimately show "\<exists>s'. bfini s \<bind> fini = Some s' \<and> rs_held s' = rs_held s - (res + bres (rs_num_workers s))"
    using component.fini_releases [OF c, of s'] by (auto simp: add.commute)
qed

text \<open>The pollers that a build may have under the strategies.\<close>

datatype poller = EPOLL | KQUEUE

fun poller_init :: "poller \<Rightarrow> sched_rs \<Rightarrow> (int \<times> sched_rs) option" where
  "poller_init EPOLL = fev_poller_init"
| "poller_init KQUEUE = kqueue_init"

fun poller_fini :: "poller \<Rightarrow> sched_rs \<Rightarrow> sched_rs option" where
  "poller_fini EPOLL = fev_poller_fini"
| "poller_fini KQUEUE = kqueue_fini"

fun poller_holds :: "poller \<Rightarrow> sched_res multiset" where
  "poller_holds EPOLL = poller_res"
| "poller_holds KQUEUE = {#KqueueFd#}"

interpretation any_poller: component "poller_init pl" "poller_fini pl" "poller_holds pl" for pl
  by (cases pl) (simp_all add: poller.component_axioms kqueue_poller.component_axioms)

text \<open>The part that all strategies have between the workers and what is their own.\<close>

definition common_init :: "poller \<Rightarrow> (sched_rs \<Rightarrow> (int \<times> sched_rs) option) \<Rightarrow> sched_rs \<Rightarrow> (int \<times> sched_rs) option" where
  "common_init pl rest =
     init_step (poller_init pl) (poller_fini pl)
       (init_step (\<lambda>s. Some (acquire TimersRes s)) (release TimersRes) rest)"

definition common_fini :: "poller \<Rightarrow> sched_rs \<Rightarrow> sched_rs option" where
  "common_fini pl s = do { s \<leftarrow> release TimersRes s; poller_fini pl s }"

definition steal_locking_init :: "poller \<Rightarrow> (nat \<Rightarrow> sched_rs \<Rightarrow> int \<times> sched_rs) \<Rightarrow> nat \<Rightarrow> sched_rs \<Rightarrow> (int \<times> sched_rs) option" where
  "steal_locking_init pl lock_init num_workers =
     init_step (steal_locking_init_workers lock_init num_workers) steal_fini_workers
       (common_init pl (\<lambda>s. Some (acquire SchedSem s)))"

definition steal_locking_fini :: "poller \<Rightarrow> sched_rs \<Rightarrow> sched_rs option" where
  "steal_locking_fini pl s = do { s \<leftarrow> do { s \<leftarrow> release SchedSem s; common_fini pl s }; steal_fini_workers s }"

definition steal_bounded_init :: "poller \<Rightarrow> nat \<Rightarrow> sched_rs \<Rightarrow> (int \<times> sched_rs) option" where
  "steal_bounded_init pl num_workers =
     init_step (steal_bounded_init_workers num_workers) steal_fini_workers
       (common_init pl (init_step (\<lambda>s. Some (acquire SchedSem s)) (release SchedSem) (\<lambda>s. Some (acquire QueueLock s))))"

definition steal_bounded_fini :: "poller \<Rightarrow> sched_rs \<Rightarrow> sched_rs option" where
  "steal_bounded_fini pl s =
     do { s \<leftarrow> do { s \<leftarrow> do { s \<leftarrow> release QueueLock s; release SchedSem s }; common_fini pl s }; steal_fini_workers s }"

definition shr_locking_init :: "poller \<Rightarrow> nat \<Rightarrow> sched_rs \<Rightarrow> (int \<times> sched_rs) option" where
  "shr_locking_init pl num_workers =
     init_step (shr_init_workers num_workers) free_workers
       (common_init pl (init_step (\<lambda>s. Some (acquire SchedSem s)) (release SchedSem) (\<lambda>s. Some (acquire QueueLock s))))"

definition shr_locking_fini :: "poller \<Rightarrow> sched_rs \<Rightarrow> sched_rs option" where
  "shr_locking_fini pl s =
     do { s \<leftarrow> do { s \<leftarrow> do { s \<leftarrow> release QueueLock s; release SchedSem s }; common_fini pl s }; free_workers s }"

definition shr_bounded_init :: "poller \<Rightarrow> nat \<Rightarrow> sched_rs \<Rightarrow> (int \<times> sched_rs) option" where
  "shr_bounded_init pl num_workers =
     init_step (shr_init_workers num_workers) free_workers
       (common_init pl
         (init_step (\<lambda>s. Some (acquire SchedSem s)) (release SchedSem)
           (init_step (\<lambda>s. Some (acquire (QueueRes 0) s)) (release (QueueRes 0)) (\<lambda>s. Some (acquire QueueLock s)))))"

definition shr_bounded_fini :: "poller \<Rightarrow> sched_rs \<Rightarrow> sched_rs option" where
  "shr_bounded_fini pl s =
     do { s \<leftarrow> do { s \<leftarrow> do { s \<leftarrow> do { s \<leftarrow> release QueueLock s; release (QueueRes 0) s }; release SchedSem s }; common_fini pl s };
          free_workers s }"

text \<open>
  The linked queue and its first node come before the workers. The node that the queue gives back goes to the pool, which is freed;
  theory \<open>Simple_Pool\<close> has the other nodes.
\<close>

definition shr_simple_init :: "poller \<Rightarrow> nat \<Rightarrow> sched_rs \<Rightarrow> (int \<times> sched_rs) option" where
  "shr_simple_init pl num_workers =
     init_step (init_step (acquire_mem QueueBlock) (release QueueBlock) (acquire_mem QueueNode))
       (\<lambda>s. do { s \<leftarrow> release QueueNode s; release QueueBlock s })
       (init_step (shr_init_workers num_workers) free_workers (common_init pl (\<lambda>s. Some (acquire SchedSem s))))"

definition shr_simple_fini :: "poller \<Rightarrow> sched_rs \<Rightarrow> sched_rs option" where
  "shr_simple_fini pl s =
     do { s \<leftarrow> do { s \<leftarrow> do { s \<leftarrow> release SchedSem s; common_fini pl s }; free_workers s };
          s \<leftarrow> release QueueNode s; release QueueBlock s }"

definition common_res :: "poller \<Rightarrow> sched_res multiset" where
  "common_res pl = poller_holds pl + {#TimersRes#}"

lemma common_component:
  assumes "component rest fini_rest res"
  shows "component (common_init pl rest) (\<lambda>s. do { s \<leftarrow> fini_rest s; common_fini pl s }) (common_res pl + res)"
proof -
  have "component (common_init pl rest) (\<lambda>s. do { s \<leftarrow> do { s \<leftarrow> fini_rest s; release TimersRes s }; poller_fini pl s }) (poller_holds pl + ({#TimersRes#} + res))"
    unfolding common_init_def
    by (intro component_step any_poller.component_axioms single.component_axioms assms)
  moreover have "(\<lambda>s. do { s \<leftarrow> do { s \<leftarrow> fini_rest s; release TimersRes s }; poller_fini pl s }) = (\<lambda>s. do { s \<leftarrow> fini_rest s; common_fini pl s })"
    by (rule ext) (simp add: common_fini_def)
  ultimately show ?thesis by (simp add: common_res_def add.assoc)
qed

lemmas strategy_component = common_component component_step single.component_axioms

text \<open>The strategies, as the build selects them; the one with locks also selects the lock.\<close>

datatype queue_lock = FUTEX_MUTEX | POSIX_MUTEX | SPINLOCK

fun run_queue_lock_init :: "queue_lock \<Rightarrow> nat \<Rightarrow> sched_rs \<Rightarrow> int \<times> sched_rs" where
  "run_queue_lock_init FUTEX_MUTEX = futex_lock_init"
| "run_queue_lock_init POSIX_MUTEX = os_lock_init"
| "run_queue_lock_init SPINLOCK = futex_lock_init"

datatype strategy =
    WORK_SHARING_LOCKING
  | WORK_SHARING_BOUNDED_MPMC
  | WORK_SHARING_SIMPLE_MPMC
  | WORK_STEALING_LOCKING queue_lock
  | WORK_STEALING_BOUNDED

fun strategy_init :: "poller \<Rightarrow> strategy \<Rightarrow> nat \<Rightarrow> sched_rs \<Rightarrow> (int \<times> sched_rs) option" where
  "strategy_init pl WORK_SHARING_LOCKING = shr_locking_init pl"
| "strategy_init pl WORK_SHARING_BOUNDED_MPMC = shr_bounded_init pl"
| "strategy_init pl WORK_SHARING_SIMPLE_MPMC = shr_simple_init pl"
| "strategy_init pl (WORK_STEALING_LOCKING lk) = steal_locking_init pl (run_queue_lock_init lk)"
| "strategy_init pl WORK_STEALING_BOUNDED = steal_bounded_init pl"

fun strategy_fini :: "poller \<Rightarrow> strategy \<Rightarrow> sched_rs \<Rightarrow> sched_rs option" where
  "strategy_fini pl WORK_SHARING_LOCKING = shr_locking_fini pl"
| "strategy_fini pl WORK_SHARING_BOUNDED_MPMC = shr_bounded_fini pl"
| "strategy_fini pl WORK_SHARING_SIMPLE_MPMC = shr_simple_fini pl"
| "strategy_fini pl (WORK_STEALING_LOCKING lk) = steal_locking_fini pl"
| "strategy_fini pl WORK_STEALING_BOUNDED = steal_bounded_fini pl"

fun strategy_res :: "poller \<Rightarrow> strategy \<Rightarrow> nat \<Rightarrow> sched_res multiset" where
  "strategy_res pl WORK_SHARING_LOCKING = (\<lambda>n. {#WorkersBlock#} + (common_res pl + ({#SchedSem#} + {#QueueLock#})))"
| "strategy_res pl WORK_SHARING_BOUNDED_MPMC = (\<lambda>n. {#WorkersBlock#} + (common_res pl + ({#SchedSem#} + ({#QueueRes 0#} + {#QueueLock#}))))"
| "strategy_res pl WORK_SHARING_SIMPLE_MPMC = (\<lambda>n. ({#QueueBlock#} + {#QueueNode#}) + ({#WorkersBlock#} + (common_res pl + {#SchedSem#})))"
| "strategy_res pl (WORK_STEALING_LOCKING lk) = (\<lambda>n. steal_res n + (common_res pl + {#SchedSem#}))"
| "strategy_res pl WORK_STEALING_BOUNDED = (\<lambda>n. steal_res n + (common_res pl + ({#SchedSem#} + {#QueueLock#})))"

text \<open>All of them keep the contract, except work stealing with locks whose set-up can fail.\<close>

definition locks_cannot_fail :: "strategy \<Rightarrow> bool" where
  "locks_cannot_fail st \<longleftrightarrow> st \<noteq> WORK_STEALING_LOCKING POSIX_MUTEX"

lemma strategy_backend:
  assumes "locks_cannot_fail st"
  shows "sched_backend (strategy_init pl st) (strategy_fini pl st) (strategy_res pl st)"
proof (cases st)
  case WORK_SHARING_LOCKING
  then show "sched_backend (strategy_init pl st) (strategy_fini pl st) (strategy_res pl st)"
    using backend_step [OF shr_workers.sched_backend_axioms strategy_component(1) [OF strategy_component(2) [OF strategy_component(3,3)]]]
    by (simp add: shr_locking_init_def [abs_def] shr_locking_fini_def [abs_def])
next
  case WORK_SHARING_BOUNDED_MPMC
  then show "sched_backend (strategy_init pl st) (strategy_fini pl st) (strategy_res pl st)"
    using backend_step [OF shr_workers.sched_backend_axioms strategy_component(1) [OF strategy_component(2) [OF strategy_component(3) strategy_component(2) [OF strategy_component(3,3)]]]]
    by (simp add: shr_bounded_init_def [abs_def] shr_bounded_fini_def [abs_def])
next
  case WORK_SHARING_SIMPLE_MPMC
  then show "sched_backend (strategy_init pl st) (strategy_fini pl st) (strategy_res pl st)"
    using backend_prefix [OF component_step [OF memory.component_axioms memory.component_axioms]
        backend_step [OF shr_workers.sched_backend_axioms strategy_component(1) [OF strategy_component(3)]], of QueueBlock QueueNode pl SchedSem]
    by (simp add: shr_simple_init_def [abs_def] shr_simple_fini_def [abs_def])
next
  case (WORK_STEALING_LOCKING lk)
  then have "run_queue_lock_init lk = futex_lock_init" using assms by (cases lk) (simp_all add: locks_cannot_fail_def)
  then show "sched_backend (strategy_init pl st) (strategy_fini pl st) (strategy_res pl st)"
    using WORK_STEALING_LOCKING backend_step [OF steal_locking_workers.sched_backend_axioms strategy_component(1) [OF strategy_component(3)]]
    by (simp add: steal_locking_init_def [abs_def] steal_locking_fini_def [abs_def])
next
  case WORK_STEALING_BOUNDED
  then show "sched_backend (strategy_init pl st) (strategy_fini pl st) (strategy_res pl st)"
    using backend_step [OF steal_bounded_workers.sched_backend_axioms strategy_component(1) [OF strategy_component(2) [OF strategy_component(3,3)]]]
    by (simp add: steal_bounded_init_def [abs_def] steal_bounded_fini_def [abs_def])
qed

section \<open>Creation and destruction\<close>

text \<open>
  C19. For every strategy, over epoll or kqueue, whatever call of the set-up fails, except for work stealing with POSIX mutexes
  as locks of the run queues: \<open>fev_sched_create\<close> returns without a fault; when it returns an error it holds nothing, and when it
  returns 0 it has at least one worker and \<open>fev_sched_destroy\<close> gives back exactly what it took. In between \<open>fev_sched_run\<close> takes
  and gives back its own threads, and lets none of them work unless it could create all of them. The exception is the default
  of the builds with kqueue, and it is real: \<open>fev_sched_init_workers_fault\<close> below shows that \<open>fev_sched_create\<close> frees a pointer
  that was never written when the set-up of such a mutex fails.
\<close>

theorem fev_sched_create_all_or_nothing:
  assumes "nproc > 0" "locks_cannot_fail st"
  shows "\<exists>ret s'. fev_sched_create (strategy_init pl st) nproc attr s = Some (ret, s') \<and>
    (ret \<noteq> 0 \<longrightarrow> rs_held s' = rs_held s) \<and>
    (ret = 0 \<longrightarrow> rs_num_workers s' > 0 \<and>
      (\<exists>s''. fev_sched_destroy (strategy_fini pl st) s' = Some s'' \<and> rs_held s'' = rs_held s) \<and>
      (\<exists>ret2 posts s''. fev_sched_run s' = Some (ret2, posts, s'') \<and> rs_held s'' = rs_held s' \<and>
         posts = (if ret2 = 0 then rs_num_workers s' - 1 else 0)))"
proof -
  note b = strategy_backend [OF assms(2), of pl]
  obtain ret s' where c: "fev_sched_create (strategy_init pl st) nproc attr s = Some (ret, s')"
      "if ret = 0 then sched_backend.created (strategy_res pl st) s s' else rs_held s' = rs_held s"
    using sched_backend.create_all_or_nothing [OF b assms(1)] by blast
  then have "ret = 0 \<longrightarrow> rs_num_workers s' > 0 \<and> (\<exists>s''. fev_sched_destroy (strategy_fini pl st) s' = Some s'' \<and> rs_held s'' = rs_held s)"
    using sched_backend.destroy_releases [OF b] by (auto simp: sched_backend.created_def [OF b])
  then show ?thesis using c fev_sched_run_held [of s'] by auto
qed

definition no_sched :: "int list \<Rightarrow> sched_rs" where
  "no_sched rets = \<lparr>rs_rets = rets, rs_held = {#}, rs_workers = None, rs_num_workers = 0\<rparr>"

text \<open>The buffer of the second worker cannot be allocated.\<close>

lemma second_buffer_fails:
  "acquire_loop QueueRes 0 2 (no_sched [0, - ENOMEM]\<lparr>rs_held := R\<rparr>) = (- ENOMEM, 1, no_sched []\<lparr>rs_held := add_mset (QueueRes 0) R\<rparr>)"
  by (simp add: acquire_loop.simps [of _ 0] acquire_loop.simps [of _ "Suc 0"] acquire_def attempt_def no_sched_def ENOMEM_def)

theorem fev_sched_create_all_or_nothing_witness:
  "\<exists>s'. fev_sched_create (strategy_init EPOLL WORK_STEALING_BOUNDED) 2 None (no_sched [0, 0, 0, - ENOMEM]) = Some (- ENOMEM, s') \<and>
     rs_held s' = {#}"
proof -
  obtain ret s' where c: "fev_sched_create (strategy_init EPOLL WORK_STEALING_BOUNDED) 2 None (no_sched [0, 0, 0, - ENOMEM]) = Some (ret, s')"
      "ret \<noteq> 0 \<longrightarrow> rs_held s' = {#}"
    using fev_sched_create_all_or_nothing [of 2 WORK_STEALING_BOUNDED EPOLL None "no_sched [0, 0, 0, - ENOMEM]"]
    by (auto simp: no_sched_def locks_cannot_fail_def)
  have "acquire SchedBlock (no_sched [0, 0, 0, - ENOMEM]) = (0, no_sched [0, 0, - ENOMEM]\<lparr>rs_held := {#SchedBlock#}\<rparr>)"
    "acquire WorkersBlock (no_sched [0, 0, - ENOMEM]\<lparr>rs_held := {#SchedBlock#}, rs_workers := None\<rparr>) =
       (0, no_sched [0, - ENOMEM]\<lparr>rs_held := {#WorkersBlock, SchedBlock#}\<rparr>)"
    by (simp_all add: acquire_def attempt_def no_sched_def)
  then have "ret = - ENOMEM"
    using c(1)
    by (simp add: fev_sched_create_def fev_sched_default_attr_def fev_get_num_processors_def steal_bounded_init_def init_step_def
        steal_bounded_init_workers_def second_buffer_fails [unfolded ENOMEM_def] release_def ENOMEM_def)
  then show ?thesis using c by (simp add: ENOMEM_def)
qed

text \<open>
  The failure path of \<open>fev_sched_init_workers\<close> of the work-stealing scheduler with locks frees a pointer that
  was never written: with POSIX mutexes, whose set-up can fail, \<open>fev_sched_create\<close> faults as soon as the lock of any
  worker cannot be set up.
\<close>

theorem fev_sched_init_workers_fault:
  assumes "acquire SchedBlock s = (0, s1)" "acquire WorkersBlock (s1\<lparr>rs_workers := None\<rparr>) = (0, s2)"
    and "lock_init_loop os_lock_init 0 (unat n) s2 = (ret, m, s3)" "ret \<noteq> 0" "n \<noteq> 0"
  shows "fev_sched_create (strategy_init pl (WORK_STEALING_LOCKING POSIX_MUTEX)) nproc (Some \<lparr>sa_num_workers = n\<rparr>) s = None"
proof -
  have "rs_workers s2 = None" using acquire_held [OF assms(2)] more_workers [of s2 "s1\<lparr>rs_workers := None\<rparr>"] by simp
  moreover have "rstate.more s3 = rstate.more s2"
    using os_lock_init_loop [OF assms(3)] .
  ultimately have "rs_workers s4 = None" if "release_down QueueRes m s3 = Some s4" for s4
    using release_down_more [OF that] more_workers [of s4 s2] by simp
  then have "release_down QueueRes m s3 \<bind> (\<lambda>s. free_workers s \<bind> (\<lambda>s. Some (ret, s))) = None"
    by (cases "release_down QueueRes m s3") (auto simp: free_workers_def)
  then show ?thesis
    using assms
    by (simp add: fev_sched_create_def steal_locking_init_def init_step_def steal_locking_init_workers_def unat_eq_zero
        del: bind_assoc)
qed

theorem fev_sched_init_workers_fault_witness:
  "fev_sched_create (strategy_init KQUEUE (WORK_STEALING_LOCKING POSIX_MUTEX)) 1 (Some \<lparr>sa_num_workers = 1\<rparr>) (no_sched [0, 0, - ENOMEM]) = None"
  by (rule fev_sched_init_workers_fault [where m = 0 and ret = "- ENOMEM" and ?s1.0 = "no_sched [0, - ENOMEM]\<lparr>rs_held := {#SchedBlock#}\<rparr>" and
        ?s2.0 = "no_sched [- ENOMEM]\<lparr>rs_held := {#WorkersBlock, SchedBlock#}\<rparr>" and ?s3.0 = "no_sched []\<lparr>rs_held := {#WorkersBlock, SchedBlock#}\<rparr>"])
     (simp_all add: acquire_def attempt_def no_sched_def lock_init_loop.simps os_lock_init_def ENOMEM_def)

end
