(* ===== verification/Fiber.thy ===== *)
theory Fiber
  imports Resources Alloc
begin

text \<open>
  Fiber attributes, stacks and the creation of fibers: \<open>fev_fiber_attr.c\<close>, \<open>fev_stack_posix.c\<close> and
  \<open>fev_fiber_create\<close>, \<open>fev_fiber_spawn\<close> of \<open>fev_fiber.c\<close>.
\<close>

section \<open>Attributes\<close>

text \<open>The sizes that the build configures: \<open>FEV_PAGE_SIZE\<close>, \<open>FEV_DEFAULT_STACK_SIZE\<close>, \<open>FEV_DEFAULT_GUARD_SIZE\<close>.\<close>

record fiber_config =
  cfg_page :: u64
  cfg_stack :: u64
  cfg_guard :: u64

record fev_fiber_attr =
  at_stack_addr :: u64 \<comment> \<open>0 is \<open>NULL\<close>\<close>
  at_stack_size :: u64
  at_guard_size :: u64
  at_detached :: bool

definition fev_fiber_create_default_attr :: "fiber_config \<Rightarrow> fev_fiber_attr" where
  "fev_fiber_create_default_attr c =
     \<lparr>at_stack_addr = 0, at_stack_size = cfg_stack c, at_guard_size = cfg_guard c, at_detached = False\<rparr>"

definition fev_fiber_spawn_default_attr :: "fiber_config \<Rightarrow> fev_fiber_attr" where
  "fev_fiber_spawn_default_attr c =
     \<lparr>at_stack_addr = 0, at_stack_size = cfg_stack c, at_guard_size = cfg_guard c, at_detached = True\<rparr>"

definition fev_fiber_attr_create :: "fiber_config \<Rightarrow> bool \<Rightarrow> int + fev_fiber_attr" where
  "fev_fiber_attr_create c mem_ok = (if mem_ok then Inr (fev_fiber_create_default_attr c) else Inl (- ENOMEM))"

definition fev_fiber_attr_get_stack :: "fev_fiber_attr \<Rightarrow> u64 \<times> u64" where
  "fev_fiber_attr_get_stack attr = (at_stack_addr attr, at_stack_size attr)"

definition fev_fiber_attr_set_stack :: "fiber_config \<Rightarrow> fev_fiber_attr \<Rightarrow> u64 \<Rightarrow> u64 \<Rightarrow> int \<times> fev_fiber_attr" where
  "fev_fiber_attr_set_stack c attr stack_addr stack_size =
     (if stack_addr mod cfg_page c \<noteq> 0 then (- EINVAL, attr)
      else if stack_size mod cfg_page c \<noteq> 0 then (- EINVAL, attr)
      else (0, attr\<lparr>at_stack_addr := stack_addr, at_stack_size := stack_size\<rparr>))"

definition fev_fiber_attr_get_stack_size :: "fev_fiber_attr \<Rightarrow> u64" where
  "fev_fiber_attr_get_stack_size attr = at_stack_size attr"

definition fev_fiber_attr_set_stack_size :: "fiber_config \<Rightarrow> fev_fiber_attr \<Rightarrow> u64 \<Rightarrow> int \<times> fev_fiber_attr" where
  "fev_fiber_attr_set_stack_size c attr stack_size =
     (if stack_size mod cfg_page c \<noteq> 0 then (- EINVAL, attr) else (0, attr\<lparr>at_stack_size := stack_size\<rparr>))"

definition fev_fiber_attr_get_guard_size :: "fev_fiber_attr \<Rightarrow> u64" where
  "fev_fiber_attr_get_guard_size attr = at_guard_size attr"

definition fev_fiber_attr_set_guard_size :: "fiber_config \<Rightarrow> fev_fiber_attr \<Rightarrow> u64 \<Rightarrow> int \<times> fev_fiber_attr" where
  "fev_fiber_attr_set_guard_size c attr guard_size =
     (if guard_size mod cfg_page c \<noteq> 0 then (- EINVAL, attr) else (0, attr\<lparr>at_guard_size := guard_size\<rparr>))"

definition fev_fiber_attr_get_detached :: "fev_fiber_attr \<Rightarrow> bool" where
  "fev_fiber_attr_get_detached attr = at_detached attr"

definition fev_fiber_attr_set_detached :: "fev_fiber_attr \<Rightarrow> bool \<Rightarrow> fev_fiber_attr" where
  "fev_fiber_attr_set_detached attr detached = attr\<lparr>at_detached := detached\<rparr>"

text \<open>The calls of a program on its attributes, and what they keep: everything is a multiple of the page size.\<close>

datatype attr_call =
    Set_Stack u64 u64
  | Set_Stack_Size u64
  | Set_Guard_Size u64
  | Set_Detached bool

fun do_attr_call :: "fiber_config \<Rightarrow> attr_call \<Rightarrow> fev_fiber_attr \<Rightarrow> fev_fiber_attr" where
  "do_attr_call c (Set_Stack a n) attr = snd (fev_fiber_attr_set_stack c attr a n)"
| "do_attr_call c (Set_Stack_Size n) attr = snd (fev_fiber_attr_set_stack_size c attr n)"
| "do_attr_call c (Set_Guard_Size n) attr = snd (fev_fiber_attr_set_guard_size c attr n)"
| "do_attr_call c (Set_Detached d) attr = fev_fiber_attr_set_detached attr d"

definition attr_wf :: "fiber_config \<Rightarrow> fev_fiber_attr \<Rightarrow> bool" where
  "attr_wf c attr \<longleftrightarrow>
     at_stack_addr attr mod cfg_page c = 0 \<and> at_stack_size attr mod cfg_page c = 0 \<and> at_guard_size attr mod cfg_page c = 0"

text \<open>The static assertions of \<open>fev_fiber_attr.c\<close>.\<close>

definition config_ok :: "fiber_config \<Rightarrow> bool" where
  "config_ok c \<longleftrightarrow> cfg_stack c mod cfg_page c = 0 \<and> cfg_guard c mod cfg_page c = 0"

lemmas attr_defs = fev_fiber_attr_set_stack_def fev_fiber_attr_set_stack_size_def fev_fiber_attr_set_guard_size_def
  fev_fiber_attr_set_detached_def fev_fiber_create_default_attr_def fev_fiber_spawn_default_attr_def

lemma do_attr_call_wf: "attr_wf c attr \<Longrightarrow> attr_wf c (do_attr_call c k attr)"
  by (cases k) (auto simp: attr_wf_def attr_defs)

lemma default_attr_wf:
  "config_ok c \<Longrightarrow> attr_wf c (fev_fiber_create_default_attr c)"
  "config_ok c \<Longrightarrow> attr_wf c (fev_fiber_spawn_default_attr c)"
  by (simp_all add: config_ok_def attr_wf_def attr_defs)

text \<open>
  C37. Whatever a program sets, the attributes stay well-formed: the address and the sizes of the stack and of
  its guard are multiples of the page size. An argument that is not is refused and changes nothing.
\<close>

theorem fev_fiber_attr_well_formed:
  assumes "config_ok c" "fev_fiber_attr_create c mem_ok = Inr attr"
  shows "attr_wf c (fold (do_attr_call c) calls attr)"
proof -
  have "attr_wf c attr" using assms default_attr_wf by (auto simp: fev_fiber_attr_create_def split: if_splits)
  then show ?thesis by (induction calls arbitrary: attr) (simp_all add: do_attr_call_wf)
qed

definition default_config :: fiber_config where
  "default_config = \<lparr>cfg_page = 4096, cfg_stack = 65536, cfg_guard = 0\<rparr>"

theorem fev_fiber_attr_well_formed_witness:
  "attr_wf default_config
     (fold (do_attr_call default_config) [Set_Stack 8192 12288, Set_Guard_Size 100, Set_Stack_Size 8192] (fev_fiber_create_default_attr default_config))"
  by (rule fev_fiber_attr_well_formed [where mem_ok = True])
     (simp_all add: config_ok_def default_config_def fev_fiber_attr_create_def)

section \<open>Stacks\<close>

datatype fiber_res = FiberBlock | StackMap | CondRes | MutexRes

definition fev_stack_free :: "(fiber_res, 'z) rstate_scheme \<Rightarrow> (fiber_res, 'z) rstate_scheme option" where
  "fev_stack_free s = release StackMap s"

definition fev_stack_alloc ::
  "u64 \<Rightarrow> u64 \<Rightarrow> (fiber_res, 'z) rstate_scheme \<Rightarrow> (int \<times> (fiber_res, 'z) rstate_scheme) option" where
  "fev_stack_alloc usable_size guard_size s =
     do { fev_assert (unat usable_size \<le> SIZE_MAX - unat guard_size);
          let (ret, s) = acquire StackMap s
          in if ret \<noteq> 0 then Some (ret, s)
             else if guard_size > 0
                  then let (ret, s) = attempt s
                       in if ret \<noteq> 0 then do { s \<leftarrow> fev_stack_free s; Some (ret, s) } else Some (0, s)
                  else Some (0, s) }"

definition stack_fits :: "fev_fiber_attr \<Rightarrow> bool" where
  "stack_fits attr \<longleftrightarrow> at_stack_addr attr \<noteq> 0 \<or> unat (at_stack_size attr) \<le> SIZE_MAX - unat (at_guard_size attr)"

lemma fev_stack_alloc_component:
  assumes "unat usable_size \<le> SIZE_MAX - unat guard_size"
  shows "component (fev_stack_alloc usable_size guard_size) fev_stack_free {#StackMap#}"
proof unfold_locales
  fix s :: "(fiber_res, 'a) rstate_scheme"
  obtain ret1 s1 where 1: "acquire StackMap s = (ret1, s1)" by fastforce
  obtain ret2 s2 where 2: "attempt s1 = (ret2, s2)" by fastforce
  show "\<exists>ret s'. fev_stack_alloc usable_size guard_size s = Some (ret, s') \<and> holds_after s ret s' {#StackMap#} \<and> rstate.more s' = rstate.more s"
    using assms 1 2 acquire_held [OF 1] attempt_held [OF 2]
    by (auto simp: fev_stack_alloc_def fev_stack_free_def holds_after_def release_def)
next
  fix s :: "(fiber_res, 'a) rstate_scheme"
  assume "{#StackMap#} \<subseteq># rs_held s"
  then show "\<exists>s'. fev_stack_free s = Some s' \<and> rs_held s' = rs_held s - {#StackMap#} \<and> rstate.more s' = rstate.more s"
    using single.fini_releases [of StackMap s] by (simp add: fev_stack_free_def)
qed

lemma unat_add_fits:
  fixes x y :: u64
  assumes "unat x + unat y < 2 ^ 64"
  shows "unat (x + y) = unat x + unat y"
  using assms by (simp add: unat_word_ariths)

section \<open>Creating fibers\<close>

definition FEV_FIBER_DEAD :: u32 where "FEV_FIBER_DEAD = 1"
definition FEV_FIBER_JOINABLE :: u32 where "FEV_FIBER_JOINABLE = 2"
definition FEV_FIBER_JOINING :: u32 where "FEV_FIBER_JOINING = 4"

lemmas fiber_flags = FEV_FIBER_DEAD_def FEV_FIBER_JOINABLE_def FEV_FIBER_JOINING_def

text \<open>\<open>struct fev_fiber\<close>, without the context and the links; the condition variable and the mutex are resources here.\<close>

record fev_fiber =
  fb_stack_addr :: u64
  fb_total_stack_size :: u64
  fb_user_stack :: bool
  fb_start_routine :: u64
  fb_arg :: u64
  fb_return_value :: u64
  fb_flags :: u32
  fb_ref_count :: u32

text \<open>
  \<open>cur\<close> is the scheduler of the calling worker (\<open>None\<close>: the caller is not a worker), \<open>sched\<close> the argument
  (\<open>None\<close>: \<open>NULL\<close>), \<open>running\<close> is \<open>fev_sched_is_running\<close>, \<open>addr\<close> what \<open>mmap\<close> returns. A fiber that was created comes
  with its scheduler, and with whether it goes to the queue of the current worker (\<open>fev_wake_one\<close>) or to a
  scheduler that is not running yet (\<open>fev_sched_put\<close>).
\<close>

definition fev_fiber_target :: "nat option \<Rightarrow> nat option \<Rightarrow> (nat \<Rightarrow> bool) \<Rightarrow> bool \<Rightarrow> (nat \<times> bool) option" where
  "fev_fiber_target cur sched running detached =
     (case sched of
        None \<Rightarrow> (case cur of None \<Rightarrow> None | Some s \<Rightarrow> Some (s, True))
      | Some s \<Rightarrow>
          if cur = Some s then Some (s, True)
          else if running s then None
          else if \<not> detached then None
          else Some (s, False))"

definition fiber_setup :: "fev_fiber_attr \<Rightarrow> (fiber_res, 'z) rstate_scheme \<Rightarrow> (int \<times> (fiber_res, 'z) rstate_scheme) option" where
  "fiber_setup attr =
     init_step (acquire_mem FiberBlock) (release FiberBlock)
       (init_step (if at_stack_addr attr \<noteq> 0 then \<lambda>s. Some (0, s) else fev_stack_alloc (at_stack_size attr) (at_guard_size attr))
                  (if at_stack_addr attr \<noteq> 0 then Some else fev_stack_free)
         (init_step (\<lambda>s. Some (acquire CondRes s)) (release CondRes) (\<lambda>s. Some (acquire MutexRes s))))"

definition fiber_new :: "fev_fiber_attr \<Rightarrow> u64 \<Rightarrow> u64 \<Rightarrow> u64 \<Rightarrow> fev_fiber" where
  "fiber_new attr addr start_routine arg =
     \<lparr>fb_stack_addr = (if at_stack_addr attr \<noteq> 0 then at_stack_addr attr else addr),
      fb_total_stack_size = (if at_stack_addr attr \<noteq> 0 then at_stack_size attr else at_stack_size attr + at_guard_size attr),
      fb_user_stack = (at_stack_addr attr \<noteq> 0), fb_start_routine = start_routine, fb_arg = arg, fb_return_value = 0,
      fb_flags = (if at_detached attr then 0 else FEV_FIBER_JOINABLE), fb_ref_count = (if at_detached attr then 1 else 2)\<rparr>"

definition fev_fiber_create ::
  "fiber_config \<Rightarrow> nat option \<Rightarrow> nat option \<Rightarrow> (nat \<Rightarrow> bool) \<Rightarrow> u64 \<Rightarrow> u64 \<Rightarrow> u64 \<Rightarrow> fev_fiber_attr option \<Rightarrow>
   (fiber_res, 'z) rstate_scheme \<Rightarrow> ((int + fev_fiber \<times> nat \<times> bool) \<times> (fiber_res, 'z) rstate_scheme) option" where
  "fev_fiber_create c cur sched running addr start_routine arg attr s =
     (let attr = (case attr of None \<Rightarrow> fev_fiber_create_default_attr c | Some a \<Rightarrow> a)
      in case fev_fiber_target cur sched running (at_detached attr) of
           None \<Rightarrow> Some (Inl (- EINVAL), s)
         | Some (target, in_cur) \<Rightarrow>
             do { (ret, s) \<leftarrow> fiber_setup attr s;
                  Some (if ret \<noteq> 0 then Inl ret else Inr (fiber_new attr addr start_routine arg, target, in_cur), s) })"

definition fev_fiber_spawn ::
  "fiber_config \<Rightarrow> nat option \<Rightarrow> nat option \<Rightarrow> (nat \<Rightarrow> bool) \<Rightarrow> u64 \<Rightarrow> u64 \<Rightarrow> u64 \<Rightarrow>
   (fiber_res, 'z) rstate_scheme \<Rightarrow> ((int + fev_fiber \<times> nat \<times> bool) \<times> (fiber_res, 'z) rstate_scheme) option" where
  "fev_fiber_spawn c cur sched running addr start_routine arg s =
     fev_fiber_create c cur sched running addr start_routine arg (Some (fev_fiber_spawn_default_attr c)) s"

definition fiber_held :: "fev_fiber_attr \<Rightarrow> fiber_res multiset" where
  "fiber_held attr = {#FiberBlock#} + ((if at_stack_addr attr \<noteq> 0 then {#} else {#StackMap#}) + ({#CondRes#} + {#MutexRes#}))"

lemma fiber_setup_component:
  assumes "stack_fits attr"
  shows "\<exists>fini. component (fiber_setup attr) fini (fiber_held attr)"
proof (cases "at_stack_addr attr = 0")
  case True
  then have "unat (at_stack_size attr) \<le> SIZE_MAX - unat (at_guard_size attr)" using assms by (simp add: stack_fits_def)
  note component_step [OF memory.component_axioms component_step [OF fev_stack_alloc_component [OF this]
      component_step [OF single.component_axioms single.component_axioms]], of FiberBlock CondRes MutexRes]
  then show ?thesis using True unfolding fiber_setup_def fiber_held_def by auto
next
  case False
  note component_step [OF memory.component_axioms component_step [OF nothing.component_axioms
      component_step [OF single.component_axioms single.component_axioms]], of FiberBlock CondRes MutexRes]
  then show ?thesis using False unfolding fiber_setup_def fiber_held_def by auto
qed

text \<open>When no call fails that is still to come, the fiber is set up.\<close>

definition no_failure :: "('r, 'z) rstate_scheme \<Rightarrow> bool" where
  "no_failure s \<longleftrightarrow> set (rs_rets s) \<subseteq> {0}"

lemma no_failure_attempt: "no_failure s \<Longrightarrow> attempt s = (ret, s') \<Longrightarrow> ret = 0 \<and> no_failure s'"
  by (auto simp: no_failure_def attempt_def split: list.splits)

lemma no_failure_acquire: "no_failure s \<Longrightarrow> \<exists>s'. acquire r s = (0, s') \<and> no_failure s'"
  using no_failure_attempt [of s] by (cases "attempt s") (auto simp: acquire_def no_failure_def)

lemma no_failure_stack:
  assumes "no_failure s" "unat usable_size \<le> SIZE_MAX - unat guard_size"
  shows "\<exists>s'. fev_stack_alloc usable_size guard_size s = Some (0, s') \<and> no_failure s'"
proof -
  obtain s1 where s1: "acquire StackMap s = (0, s1)" "no_failure s1" using no_failure_acquire [OF assms(1)] by blast
  obtain ret s2 where s2: "attempt s1 = (ret, s2)" by fastforce
  then show ?thesis using no_failure_attempt [OF s1(2) s2] s1 assms(2) by (simp add: fev_stack_alloc_def)
qed

lemma no_failure_setup:
  assumes "no_failure s" "stack_fits attr"
  shows "\<exists>s'. fiber_setup attr s = Some (0, s')"
proof -
  obtain s1 where s1: "acquire FiberBlock s = (0, s1)" "no_failure s1" using no_failure_acquire [OF assms(1)] by blast
  obtain s2 where s2: "(if at_stack_addr attr \<noteq> 0 then \<lambda>s. Some (0, s) else fev_stack_alloc (at_stack_size attr) (at_guard_size attr)) s1 = Some (0, s2)"
      "no_failure s2"
    using no_failure_stack [OF s1(2), of "at_stack_size attr" "at_guard_size attr"] assms(2) s1(2)
    by (cases "at_stack_addr attr = 0") (auto simp: stack_fits_def)
  obtain s3 where s3: "acquire CondRes s2 = (0, s3)" "no_failure s3" using no_failure_acquire [OF s2(2)] by blast
  obtain s4 where s4: "acquire MutexRes s3 = (0, s4)" using no_failure_acquire [OF s3(2)] by blast
  show ?thesis using s1(1) s2(1) s3(1) s4 by (simp add: fiber_setup_def init_step_def acquire_mem_def)
qed

text \<open>The cases that are supported: the caller's own scheduler, or a detached fiber in one that does not run yet.\<close>

definition fiber_supported :: "nat option \<Rightarrow> nat option \<Rightarrow> (nat \<Rightarrow> bool) \<Rightarrow> bool \<Rightarrow> bool" where
  "fiber_supported cur sched running detached \<longleftrightarrow>
     (case sched of None \<Rightarrow> cur \<noteq> None | Some t \<Rightarrow> cur = Some t \<or> \<not> running t \<and> detached)"



end
