(* ===== verification/Fiber_Lifetime.thy ===== *)
theory Fiber_Lifetime
  imports Fiber
begin

text \<open>
  The end of a fiber: \<open>fev_fiber_exit\<close>, \<open>fev_fiber_join\<close>, \<open>fev_fiber_detach\<close> and the reference count that decides
  who frees it (\<open>fev_fiber.c\<close>), as a concurrent system of the fiber and of callers that have its handle. The
  mutex excludes and hands over, and a wait on the condition variable releases the mutex and joins the
  queue in one step (theories \<open>Mutex_Concurrent\<close> and \<open>Sync\<close>). Any access to the fiber after it was freed is a
  fault.
\<close>

section \<open>The system\<close>

datatype life_actor = The_Fiber | Caller nat

datatype exit_pc =
    XRunning
  | XLock u64 \<comment> \<open>in \<open>fev_fiber_exit\<close>, with its argument\<close>
  | XStore u64
  | XUnlock
  | XNotify
  | XPost \<comment> \<open>in \<open>fev_fiber_exit_post\<close>\<close>
  | XRelease
  | XGone

datatype call_pc =
    CIdle
  | JLock
  | JJoining
  | JCheck
  | JWaiting \<comment> \<open>in \<open>fev_cond_wait\<close>\<close>
  | JRelock
  | JFail
  | JUnlock
  | JRead
  | JRelease u64
  | JDone int u64
  | DLock
  | DCheck
  | DFail
  | DUnlock
  | DRelease
  | DDone int

text \<open>Ghosts: how often the block and the stack were freed, and the value given to \<open>fev_fiber_exit\<close>.\<close>

record life_sys =
  lf_fiber :: fev_fiber
  lf_owner :: "life_actor option" \<comment> \<open>of the mutex\<close>
  lf_cond :: "nat list"
  lf_exit :: exit_pc
  lf_call :: "nat \<Rightarrow> call_pc"
  lf_fault :: bool
  lf_freed :: nat
  lf_stack_freed :: nat
  lf_value :: u64

definition touch :: "life_sys \<Rightarrow> life_sys" where
  "touch s = s\<lparr>lf_fault := lf_fault s \<or> lf_freed s > 0\<rparr>"

definition lassert :: "bool \<Rightarrow> life_sys \<Rightarrow> life_sys" where
  "lassert b s = s\<lparr>lf_fault := lf_fault s \<or> \<not> b\<rparr>"

definition cgoto :: "life_sys \<Rightarrow> nat \<Rightarrow> call_pc \<Rightarrow> life_sys" where
  "cgoto s k p = s\<lparr>lf_call := (lf_call s)(k := p)\<rparr>"

definition set_flags :: "(u32 \<Rightarrow> u32) \<Rightarrow> life_sys \<Rightarrow> life_sys" where
  "set_flags g s = s\<lparr>lf_fiber := (lf_fiber s)\<lparr>fb_flags := g (fb_flags (lf_fiber s))\<rparr>\<rparr>"

text \<open>
  \<open>fev_fiber_release\<close>. Nobody may own the mutex or wait on the condition variable when they are destroyed.
\<close>

definition fev_fiber_release :: "life_sys \<Rightarrow> life_sys" where
  "fev_fiber_release s =
     (let ref_count = fb_ref_count (lf_fiber s);
          s = lassert (ref_count > 0) (touch s);
          s = s\<lparr>lf_fiber := (lf_fiber s)\<lparr>fb_ref_count := ref_count - 1\<rparr>\<rparr>
      in if ref_count = 1 then lassert (lf_owner s = None \<and> lf_cond s = []) (s\<lparr>lf_freed := lf_freed s + 1\<rparr>) else s)"

text \<open>\<open>fev_fiber_exit\<close>, and \<open>fev_fiber_exit_post\<close> from \<open>XPost\<close> on; its counters are part of theory \<open>Steal_Sched\<close>.\<close>

definition fev_fiber_exit_step :: "life_sys \<Rightarrow> life_sys option" where
  "fev_fiber_exit_step s =
     (case lf_exit s of
        XLock v \<Rightarrow> if lf_owner s = None then Some (touch (s\<lparr>lf_owner := Some The_Fiber, lf_exit := XStore v\<rparr>)) else None
      | XStore v \<Rightarrow>
          Some (set_flags (\<lambda>f. f OR FEV_FIBER_DEAD)
            (touch (s\<lparr>lf_fiber := (lf_fiber s)\<lparr>fb_return_value := v\<rparr>, lf_exit := XUnlock\<rparr>)))
      | XUnlock \<Rightarrow> Some (touch (s\<lparr>lf_owner := None, lf_exit := XNotify\<rparr>))
      | XNotify \<Rightarrow>
          (case lf_cond s of
             [] \<Rightarrow> Some (touch (s\<lparr>lf_exit := XPost\<rparr>))
           | k # ks \<Rightarrow> Some (touch (cgoto (s\<lparr>lf_cond := ks, lf_exit := XPost\<rparr>) k JRelock)))
      | XPost \<Rightarrow>
          Some (touch (s\<lparr>lf_stack_freed := lf_stack_freed s + (if fb_user_stack (lf_fiber s) then 0 else 1), lf_exit := XRelease\<rparr>))
      | XRelease \<Rightarrow> Some ((fev_fiber_release s)\<lparr>lf_exit := XGone\<rparr>)
      | _ \<Rightarrow> None)"

definition fev_fiber_join_step :: "nat \<Rightarrow> life_sys \<Rightarrow> life_sys option" where
  "fev_fiber_join_step k s =
     (case lf_call s k of
        JLock \<Rightarrow> if lf_owner s = None then Some (touch (cgoto (s\<lparr>lf_owner := Some (Caller k)\<rparr>) k JJoining)) else None
      | JJoining \<Rightarrow>
          if fb_flags (lf_fiber s) AND FEV_FIBER_JOINING \<noteq> 0 then Some (touch (cgoto s k JFail))
          else Some (set_flags (\<lambda>f. f OR FEV_FIBER_JOINING) (touch (cgoto s k JCheck)))
      | JCheck \<Rightarrow>
          if fb_flags (lf_fiber s) AND FEV_FIBER_JOINABLE = 0 then Some (touch (cgoto s k JFail))
          else if fb_flags (lf_fiber s) AND FEV_FIBER_DEAD \<noteq> 0 then Some (touch (cgoto s k JUnlock))
          else Some (touch (cgoto (s\<lparr>lf_cond := lf_cond s @ [k], lf_owner := None\<rparr>) k JWaiting))
      | JRelock \<Rightarrow> if lf_owner s = None then Some (touch (cgoto (s\<lparr>lf_owner := Some (Caller k)\<rparr>) k JCheck)) else None
      | JFail \<Rightarrow> Some (touch (cgoto (s\<lparr>lf_owner := None\<rparr>) k (JDone (- EINVAL) 0)))
      | JUnlock \<Rightarrow> Some (touch (cgoto (s\<lparr>lf_owner := None\<rparr>) k JRead))
      | JRead \<Rightarrow> Some (touch (cgoto s k (JRelease (fb_return_value (lf_fiber s)))))
      | JRelease v \<Rightarrow> Some (cgoto (fev_fiber_release s) k (JDone 0 v))
      | _ \<Rightarrow> None)"

definition fev_fiber_detach_step :: "nat \<Rightarrow> life_sys \<Rightarrow> life_sys option" where
  "fev_fiber_detach_step k s =
     (case lf_call s k of
        DLock \<Rightarrow> if lf_owner s = None then Some (touch (cgoto (s\<lparr>lf_owner := Some (Caller k)\<rparr>) k DCheck)) else None
      | DCheck \<Rightarrow>
          if fb_flags (lf_fiber s) AND FEV_FIBER_JOINABLE = 0 then Some (touch (cgoto s k DFail))
          else Some (set_flags (\<lambda>f. f AND NOT FEV_FIBER_JOINABLE) (touch (cgoto s k DUnlock)))
      | DFail \<Rightarrow> Some (touch (cgoto (s\<lparr>lf_owner := None\<rparr>) k (DDone (- EINVAL))))
      | DUnlock \<Rightarrow> Some (touch (cgoto (s\<lparr>lf_owner := None\<rparr>) k DRelease))
      | DRelease \<Rightarrow> Some (cgoto (fev_fiber_release s) k (DDone 0))
      | _ \<Rightarrow> None)"

text \<open>
  The events: the fiber calls \<open>fev_fiber_exit\<close>, a caller calls \<open>fev_fiber_join\<close> or \<open>fev_fiber_detach\<close>, in a worker
  or not (when not, the call returns \<open>-EINVAL\<close> at once), and everybody takes steps.
\<close>

datatype life_event =
    Exit u64
  | Join nat bool
  | Detach nat bool
  | Step_Fiber
  | Step_Caller nat

fun life_step :: "life_event \<Rightarrow> life_sys \<Rightarrow> life_sys option" where
  "life_step (Exit v) s = (if lf_exit s = XRunning then Some (s\<lparr>lf_exit := XLock v, lf_value := v\<rparr>) else None)"
| "life_step (Join k in_worker) s = (if lf_call s k = CIdle then Some (if in_worker then cgoto s k JLock else s) else None)"
| "life_step (Detach k in_worker) s = (if lf_call s k = CIdle then Some (if in_worker then cgoto s k DLock else s) else None)"
| "life_step Step_Fiber s = fev_fiber_exit_step s"
| "life_step (Step_Caller k) s =
     (case lf_call s k of
        DLock \<Rightarrow> fev_fiber_detach_step k s
      | DCheck \<Rightarrow> fev_fiber_detach_step k s
      | DFail \<Rightarrow> fev_fiber_detach_step k s
      | DUnlock \<Rightarrow> fev_fiber_detach_step k s
      | DRelease \<Rightarrow> fev_fiber_detach_step k s
      | _ \<Rightarrow> fev_fiber_join_step k s)"

text \<open>A fiber as \<open>fev_fiber_create\<close> made it, when it begins to run.\<close>

definition life_init :: "fev_fiber_attr \<Rightarrow> life_sys" where
  "life_init attr =
     \<lparr>lf_fiber = fiber_new attr 0 0 0, lf_owner = None, lf_cond = [], lf_exit = XRunning, lf_call = (\<lambda>_. CIdle),
      lf_fault = False, lf_freed = 0, lf_stack_freed = 0, lf_value = 0\<rparr>"

section \<open>The invariant\<close>

text \<open>
  The handle of a joinable fiber is used once: one caller either joins or detaches. The handle of a detached
  fiber is not used.
\<close>

fun proper_use :: "bool \<Rightarrow> life_event \<Rightarrow> bool" where
  "proper_use detached (Join k _) \<longleftrightarrow> \<not> detached \<and> k = 0"
| "proper_use detached (Detach k _) \<longleftrightarrow> \<not> detached \<and> k = 0"
| "proper_use _ _ \<longleftrightarrow> True"

definition mk_flags :: "bool \<Rightarrow> bool \<Rightarrow> bool \<Rightarrow> u32" where
  "mk_flags dead joinable joining = (if dead then 1 else 0) + (if joinable then 2 else 0) + (if joining then 4 else 0)"

lemma mk_flags_simps [simp]:
  "mk_flags d j g AND FEV_FIBER_DEAD = 0 \<longleftrightarrow> \<not> d"
  "mk_flags d j g AND FEV_FIBER_JOINABLE = 0 \<longleftrightarrow> \<not> j"
  "mk_flags d j g AND FEV_FIBER_JOINING = 0 \<longleftrightarrow> \<not> g"
  "mk_flags d j g OR FEV_FIBER_DEAD = mk_flags True j g"
  "mk_flags d j g OR FEV_FIBER_JOINING = mk_flags d j True"
  "mk_flags d j g AND NOT FEV_FIBER_JOINABLE = mk_flags d False g"
  by (cases d; cases j; cases g; simp add: mk_flags_def fiber_flags)+

fun dead :: "exit_pc \<Rightarrow> bool" where
  "dead XUnlock \<longleftrightarrow> True"
| "dead XNotify \<longleftrightarrow> True"
| "dead XPost \<longleftrightarrow> True"
| "dead XRelease \<longleftrightarrow> True"
| "dead XGone \<longleftrightarrow> True"
| "dead _ \<longleftrightarrow> False"

fun exit_owns :: "exit_pc \<Rightarrow> bool" where
  "exit_owns (XStore _) \<longleftrightarrow> True"
| "exit_owns XUnlock \<longleftrightarrow> True"
| "exit_owns _ \<longleftrightarrow> False"

fun call_owns :: "call_pc \<Rightarrow> bool" where
  "call_owns JJoining \<longleftrightarrow> True"
| "call_owns JCheck \<longleftrightarrow> True"
| "call_owns JUnlock \<longleftrightarrow> True"
| "call_owns DCheck \<longleftrightarrow> True"
| "call_owns DUnlock \<longleftrightarrow> True"
| "call_owns _ \<longleftrightarrow> False"

fun joined :: "call_pc \<Rightarrow> bool" where
  "joined JUnlock \<longleftrightarrow> True"
| "joined JRead \<longleftrightarrow> True"
| "joined (JRelease _) \<longleftrightarrow> True"
| "joined (JDone _ _) \<longleftrightarrow> True"
| "joined _ \<longleftrightarrow> False"

fun joining :: "call_pc \<Rightarrow> bool" where
  "joining JCheck \<longleftrightarrow> True"
| "joining JWaiting \<longleftrightarrow> True"
| "joining JRelock \<longleftrightarrow> True"
| "joining JUnlock \<longleftrightarrow> True"
| "joining JRead \<longleftrightarrow> True"
| "joining (JRelease _) \<longleftrightarrow> True"
| "joining (JDone _ _) \<longleftrightarrow> True"
| "joining _ \<longleftrightarrow> False"

fun call_over :: "call_pc \<Rightarrow> bool" where
  "call_over (JDone _ _) \<longleftrightarrow> True"
| "call_over (DDone _) \<longleftrightarrow> True"
| "call_over _ \<longleftrightarrow> False"

fun unjoinable :: "call_pc \<Rightarrow> bool" where
  "unjoinable DUnlock \<longleftrightarrow> True"
| "unjoinable DRelease \<longleftrightarrow> True"
| "unjoinable (DDone _) \<longleftrightarrow> True"
| "unjoinable _ \<longleftrightarrow> False"

fun call_sound :: "u64 \<Rightarrow> call_pc \<Rightarrow> bool" where
  "call_sound v (JRelease w) \<longleftrightarrow> w = v"
| "call_sound v (JDone ret w) \<longleftrightarrow> ret = 0 \<and> w = v"
| "call_sound v (DDone ret) \<longleftrightarrow> ret = 0"
| "call_sound v JFail \<longleftrightarrow> False"
| "call_sound v DFail \<longleftrightarrow> False"
| "call_sound v _ \<longleftrightarrow> True"

text \<open>References, and what follows from the places of the fiber and the caller.\<close>

fun exit_refs :: "exit_pc \<Rightarrow> nat" where
  "exit_refs XGone = 0"
| "exit_refs _ = 1"

definition call_refs :: "bool \<Rightarrow> call_pc \<Rightarrow> nat" where
  "call_refs detached c = (if detached \<or> call_over c then 0 else 1)"

definition freed_at :: "nat \<Rightarrow> nat" where
  "freed_at refs = (if refs = 0 then 1 else 0)"

lemma freed_at_simps [simp]: "freed_at 0 = 1" "freed_at (Suc n) = 0"
  by (simp_all add: freed_at_def)

lemma call_refs_simps [simp]: "call_refs True c = 0" "call_over c \<Longrightarrow> call_refs d c = 0" "\<not> call_over c \<Longrightarrow> call_refs False c = 1"
  by (simp_all add: call_refs_def)

fun owner_at :: "bool \<Rightarrow> bool \<Rightarrow> life_actor option" where
  "owner_at True _ = Some The_Fiber"
| "owner_at False True = Some (Caller 0)"
| "owner_at False False = None"

lemma call_over_owns: "call_over c \<Longrightarrow> \<not> call_owns c"
  by (cases c) simp_all

lemma owner_at_None [simp]: "owner_at x c = None \<longleftrightarrow> \<not> x \<and> \<not> c" "None = owner_at x c \<longleftrightarrow> \<not> x \<and> \<not> c"
  by (cases x; cases c; simp)+

fun cond_at :: "call_pc \<Rightarrow> nat list" where
  "cond_at JWaiting = [0]"
| "cond_at _ = []"

lemma cond_at_Nil [simp]: "cond_at c = [] \<longleftrightarrow> c \<noteq> JWaiting" "cond_at c = k # ks \<longleftrightarrow> c = JWaiting \<and> k = 0 \<and> ks = []"
  by (cases c; auto)+

fun stack_freed_at :: "bool \<Rightarrow> exit_pc \<Rightarrow> nat" where
  "stack_freed_at user XRelease = (if user then 0 else 1)"
| "stack_freed_at user XGone = (if user then 0 else 1)"
| "stack_freed_at user _ = 0"

fun past_notify :: "exit_pc \<Rightarrow> bool" where
  "past_notify XPost \<longleftrightarrow> True"
| "past_notify XRelease \<longleftrightarrow> True"
| "past_notify XGone \<longleftrightarrow> True"
| "past_notify _ \<longleftrightarrow> False"

fun exit_sound :: "u64 \<Rightarrow> exit_pc \<Rightarrow> bool" where
  "exit_sound v (XLock w) \<longleftrightarrow> w = v"
| "exit_sound v (XStore w) \<longleftrightarrow> w = v"
| "exit_sound v _ \<longleftrightarrow> True"

definition life_places :: "bool \<Rightarrow> bool \<Rightarrow> exit_pc \<Rightarrow> call_pc \<Rightarrow> life_sys \<Rightarrow> bool" where
  "life_places d user x c s \<longleftrightarrow>
     lf_owner s = owner_at (exit_owns x) (call_owns c) \<and> lf_cond s = cond_at c \<and>
     fb_flags (lf_fiber s) = mk_flags (dead x) (\<not> d \<and> \<not> unjoinable c) (joining c) \<and>
     fb_ref_count (lf_fiber s) = of_nat (exit_refs x + call_refs d c) \<and> lf_freed s = freed_at (exit_refs x + call_refs d c) \<and>
     fb_user_stack (lf_fiber s) = user \<and> lf_stack_freed s = stack_freed_at user x \<and>
     (dead x \<longrightarrow> fb_return_value (lf_fiber s) = lf_value s)"

definition life_inv :: "fev_fiber_attr \<Rightarrow> life_sys \<Rightarrow> bool" where
  "life_inv attr s \<longleftrightarrow>
     (let x = lf_exit s; c = lf_call s 0; d = at_detached attr
      in \<not> lf_fault s \<and> (\<forall>k. k \<noteq> 0 \<longrightarrow> lf_call s k = CIdle) \<and> (d \<longrightarrow> c = CIdle) \<and> \<not> (exit_owns x \<and> call_owns c) \<and>
         (c = JWaiting \<longrightarrow> \<not> past_notify x) \<and> (joined c \<longrightarrow> dead x) \<and>
         exit_sound (lf_value s) x \<and> call_sound (lf_value s) c \<and> life_places d (at_stack_addr attr \<noteq> 0) x c s)"

lemmas life_defs = life_inv_def life_places_def Let_def touch_def lassert_def cgoto_def set_flags_def

lemma release_refs:
  assumes "fb_ref_count (lf_fiber s) = of_nat (Suc n)" "n \<le> 1" "lf_freed s = 0" "n = 0 \<longrightarrow> lf_owner s = None \<and> lf_cond s = []"
  shows "fev_fiber_release s = s\<lparr>lf_fiber := (lf_fiber s)\<lparr>fb_ref_count := of_nat n\<rparr>, lf_freed := freed_at n\<rparr>"
proof -
  consider "n = 0" | "n = 1" using assms(2) by linarith
  then show ?thesis using assms by cases (simp_all add: fev_fiber_release_def touch_def lassert_def)
qed

lemma life_inv_init: "life_inv attr (life_init attr)"
  by (simp add: life_defs life_init_def fiber_new_def mk_flags_def fiber_flags)

lemma alive:
  assumes "life_inv attr s" "lf_exit s \<noteq> XGone \<or> lf_call s 0 \<noteq> CIdle \<and> \<not> call_over (lf_call s 0)"
  shows "lf_freed s = 0"
proof -
  have "exit_refs (lf_exit s) + call_refs (at_detached attr) (lf_call s 0) \<noteq> 0"
    using assms by (cases "lf_exit s") (auto simp: life_inv_def Let_def call_refs_def)
  then show ?thesis using assms(1) by (simp add: life_inv_def life_places_def Let_def freed_at_def)
qed

lemmas inv_defs = life_inv_def life_places_def Let_def
lemmas step_defs = touch_def lassert_def cgoto_def set_flags_def

lemma exit_step_inv:
  assumes inv: "life_inv attr s" and step: "fev_fiber_exit_step s = Some s'"
  shows "life_inv attr s'"
proof (cases "lf_exit s")
  case (XLock v)
  then have "s' = s\<lparr>lf_owner := Some The_Fiber, lf_exit := XStore v\<rparr>" "lf_owner s = None"
    using step alive [OF inv] by (simp_all add: fev_fiber_exit_step_def step_defs split: if_splits)
  then show ?thesis using inv XLock by (simp add: inv_defs)
next
  case (XStore v)
  then have "s' = s\<lparr>lf_exit := XUnlock, lf_fiber := (lf_fiber s)\<lparr>fb_return_value := v, fb_flags := fb_flags (lf_fiber s) OR FEV_FIBER_DEAD\<rparr>\<rparr>"
    using step alive [OF inv] by (simp add: fev_fiber_exit_step_def step_defs)
  then show ?thesis using inv XStore by (simp add: inv_defs)
next
  case XUnlock
  then have "s' = s\<lparr>lf_owner := None, lf_exit := XNotify\<rparr>"
    using step alive [OF inv] by (simp add: fev_fiber_exit_step_def step_defs)
  then show ?thesis using inv XUnlock by (simp add: inv_defs)
next
  case XNotify
  have "lf_cond s = cond_at (lf_call s 0)" using inv by (simp add: inv_defs)
  then have "s' = (if lf_call s 0 = JWaiting then s\<lparr>lf_cond := [], lf_exit := XPost, lf_call := (lf_call s)(0 := JRelock)\<rparr>
      else s\<lparr>lf_exit := XPost\<rparr>)"
    using step XNotify alive [OF inv] by (simp add: fev_fiber_exit_step_def step_defs split: list.splits if_splits)
  then show ?thesis using inv XNotify by (cases "lf_call s 0 = JWaiting") (simp_all add: inv_defs)
next
  case XPost
  then have "s' = s\<lparr>lf_stack_freed := lf_stack_freed s + (if fb_user_stack (lf_fiber s) then 0 else 1), lf_exit := XRelease\<rparr>"
    using step alive [OF inv] by (simp add: fev_fiber_exit_step_def step_defs)
  then show ?thesis using inv XPost by (simp add: inv_defs)
next
  case XRelease
  then have "fev_fiber_release s = s\<lparr>lf_fiber := (lf_fiber s)\<lparr>fb_ref_count := of_nat (call_refs (at_detached attr) (lf_call s 0))\<rparr>,
      lf_freed := freed_at (call_refs (at_detached attr) (lf_call s 0))\<rparr>"
    using inv by (intro release_refs) (auto simp: life_defs call_refs_def dest: call_over_owns split: if_splits)
  then have "s' = s\<lparr>lf_fiber := (lf_fiber s)\<lparr>fb_ref_count := of_nat (call_refs (at_detached attr) (lf_call s 0))\<rparr>,
      lf_freed := freed_at (call_refs (at_detached attr) (lf_call s 0)), lf_exit := XGone\<rparr>"
    using XRelease step by (simp add: fev_fiber_exit_step_def)
  then show ?thesis using XRelease inv by (simp add: inv_defs)
qed (use step in \<open>simp_all add: fev_fiber_exit_step_def\<close>)

lemma join_step_inv:
  assumes inv: "life_inv attr s" and step: "fev_fiber_join_step 0 s = Some s'"
  shows "life_inv attr s'"
proof (cases "lf_call s 0")
  case JLock
  then have "s' = s\<lparr>lf_owner := Some (Caller 0), lf_call := (lf_call s)(0 := JJoining)\<rparr>" "lf_owner s = None"
    using step alive [OF inv] by (simp_all add: fev_fiber_join_step_def step_defs split: if_splits)
  then show ?thesis using inv JLock by (simp add: inv_defs)
next
  case JJoining
  then have "fb_flags (lf_fiber s) AND FEV_FIBER_JOINING = 0" using inv by (simp add: inv_defs)
  then have "s' = s\<lparr>lf_call := (lf_call s)(0 := JCheck), lf_fiber := (lf_fiber s)\<lparr>fb_flags := fb_flags (lf_fiber s) OR FEV_FIBER_JOINING\<rparr>\<rparr>"
    using step JJoining alive [OF inv] by (simp add: fev_fiber_join_step_def step_defs)
  then show ?thesis using inv JJoining by (simp add: inv_defs)
next
  case JCheck
  then have "fb_flags (lf_fiber s) AND FEV_FIBER_JOINABLE \<noteq> 0" "fb_flags (lf_fiber s) AND FEV_FIBER_DEAD = 0 \<longleftrightarrow> \<not> dead (lf_exit s)"
    using inv by (simp_all add: inv_defs)
  then have "s' = (if dead (lf_exit s) then s\<lparr>lf_call := (lf_call s)(0 := JUnlock)\<rparr>
      else s\<lparr>lf_cond := lf_cond s @ [0], lf_owner := None, lf_call := (lf_call s)(0 := JWaiting)\<rparr>)"
    using step JCheck alive [OF inv] by (simp add: fev_fiber_join_step_def step_defs split: if_splits)
  moreover have "past_notify x \<Longrightarrow> dead x" for x by (cases x) simp_all
  ultimately show ?thesis using inv JCheck by (cases "dead (lf_exit s)") (auto simp: inv_defs)
next
  case JRelock
  then have "s' = s\<lparr>lf_owner := Some (Caller 0), lf_call := (lf_call s)(0 := JCheck)\<rparr>" "lf_owner s = None"
    using step alive [OF inv] by (simp_all add: fev_fiber_join_step_def step_defs split: if_splits)
  then show ?thesis using inv JRelock by (simp add: inv_defs)
next
  case JFail
  then show ?thesis using inv by (simp add: inv_defs)
next
  case JUnlock
  then have "s' = s\<lparr>lf_owner := None, lf_call := (lf_call s)(0 := JRead)\<rparr>"
    using step alive [OF inv] by (simp add: fev_fiber_join_step_def step_defs)
  then show ?thesis using inv JUnlock by (simp add: inv_defs)
next
  case JRead
  then have "s' = s\<lparr>lf_call := (lf_call s)(0 := JRelease (fb_return_value (lf_fiber s)))\<rparr>"
    using step alive [OF inv] by (simp add: fev_fiber_join_step_def step_defs)
  then show ?thesis using inv JRead by (simp add: inv_defs)
next
  case (JRelease v)
  then have "fev_fiber_release s = s\<lparr>lf_fiber := (lf_fiber s)\<lparr>fb_ref_count := of_nat (exit_refs (lf_exit s))\<rparr>,
      lf_freed := freed_at (exit_refs (lf_exit s))\<rparr>"
    using inv by (intro release_refs) (cases "lf_exit s"; simp add: life_defs)+
  then have "s' = s\<lparr>lf_fiber := (lf_fiber s)\<lparr>fb_ref_count := of_nat (exit_refs (lf_exit s))\<rparr>,
      lf_freed := freed_at (exit_refs (lf_exit s)), lf_call := (lf_call s)(0 := JDone 0 v)\<rparr>"
    using JRelease step by (simp add: fev_fiber_join_step_def cgoto_def)
  then show ?thesis using JRelease inv by (simp add: inv_defs)
qed (use step in \<open>simp_all add: fev_fiber_join_step_def\<close>)

lemma detach_step_inv:
  assumes inv: "life_inv attr s" and step: "fev_fiber_detach_step 0 s = Some s'"
  shows "life_inv attr s'"
proof (cases "lf_call s 0")
  case DLock
  then have "s' = s\<lparr>lf_owner := Some (Caller 0), lf_call := (lf_call s)(0 := DCheck)\<rparr>" "lf_owner s = None"
    using step alive [OF inv] by (simp_all add: fev_fiber_detach_step_def step_defs split: if_splits)
  then show ?thesis using inv DLock by (simp add: inv_defs)
next
  case DCheck
  then have "fb_flags (lf_fiber s) AND FEV_FIBER_JOINABLE \<noteq> 0" using inv by (simp add: inv_defs)
  then have "s' = s\<lparr>lf_call := (lf_call s)(0 := DUnlock), lf_fiber := (lf_fiber s)\<lparr>fb_flags := fb_flags (lf_fiber s) AND NOT FEV_FIBER_JOINABLE\<rparr>\<rparr>"
    using step DCheck alive [OF inv] by (simp add: fev_fiber_detach_step_def step_defs)
  then show ?thesis using inv DCheck by (simp add: inv_defs)
next
  case DFail
  then show ?thesis using inv by (simp add: inv_defs)
next
  case DUnlock
  then have "s' = s\<lparr>lf_owner := None, lf_call := (lf_call s)(0 := DRelease)\<rparr>"
    using step alive [OF inv] by (simp add: fev_fiber_detach_step_def step_defs)
  then show ?thesis using inv DUnlock by (simp add: inv_defs)
next
  case DRelease
  then have "fev_fiber_release s = s\<lparr>lf_fiber := (lf_fiber s)\<lparr>fb_ref_count := of_nat (exit_refs (lf_exit s))\<rparr>,
      lf_freed := freed_at (exit_refs (lf_exit s))\<rparr>"
    using inv by (intro release_refs) (cases "lf_exit s"; simp add: life_defs)+
  then have "s' = s\<lparr>lf_fiber := (lf_fiber s)\<lparr>fb_ref_count := of_nat (exit_refs (lf_exit s))\<rparr>,
      lf_freed := freed_at (exit_refs (lf_exit s)), lf_call := (lf_call s)(0 := DDone 0)\<rparr>"
    using DRelease step by (simp add: fev_fiber_detach_step_def cgoto_def)
  then show ?thesis using DRelease inv by (simp add: inv_defs)
qed (use step in \<open>simp_all add: fev_fiber_detach_step_def\<close>)

lemma life_step_inv:
  assumes "life_inv attr s" "life_step e s = Some s'" "proper_use (at_detached attr) e"
  shows "life_inv attr s'"
proof (cases e)
  case (Exit v)
  then have "s' = s\<lparr>lf_exit := XLock v, lf_value := v\<rparr>" "lf_exit s = XRunning" using assms(2) by (simp_all split: if_splits)
  then show ?thesis using assms(1) by (cases "lf_call s 0") (simp_all add: inv_defs)
next
  case (Join k w)
  then have "s' = (if w then s\<lparr>lf_call := (lf_call s)(0 := JLock)\<rparr> else s)" "lf_call s 0 = CIdle" "\<not> at_detached attr"
    using assms by (simp_all add: cgoto_def split: if_splits)
  then show ?thesis using assms(1) by (cases w) (simp_all add: inv_defs)
next
  case (Detach k w)
  then have "s' = (if w then s\<lparr>lf_call := (lf_call s)(0 := DLock)\<rparr> else s)" "lf_call s 0 = CIdle" "\<not> at_detached attr"
    using assms by (simp_all add: cgoto_def split: if_splits)
  then show ?thesis using assms(1) by (cases w) (simp_all add: inv_defs)
next
  case Step_Fiber
  then show ?thesis using assms exit_step_inv by simp
next
  case (Step_Caller k)
  then have "k = 0"
    using assms by (cases "k = 0") (simp_all add: inv_defs fev_fiber_join_step_def)
  then have "fev_fiber_join_step 0 s = Some s' \<or> fev_fiber_detach_step 0 s = Some s'"
    using assms(2) Step_Caller by (cases "lf_call s 0") simp_all
  then show ?thesis using assms(1) join_step_inv detach_step_inv by blast
qed

definition life_guarded_step :: "bool \<Rightarrow> life_event \<Rightarrow> life_sys \<Rightarrow> life_sys option" where
  "life_guarded_step detached e s = (if proper_use detached e then life_step e s else None)"

interpretation life: step_invariant "life_guarded_step (at_detached attr)" "\<lambda>s. s = life_init attr" "life_inv attr" for attr
  by unfold_locales (auto simp: life_guarded_step_def life_inv_init intro: life_step_inv split: if_splits)

section \<open>Properties\<close>

text \<open>
  C17. The end of a fiber is safe, in every interleaving of the fiber with the one caller that joins or
  detaches it: nothing is accessed after it was freed and no assertion fails; the fiber is freed exactly
  once, by whoever comes last, and its own stack exactly once; and \<open>fev_fiber_join\<close> returns the value given to
  \<open>fev_fiber_exit\<close>.
\<close>

theorem fev_fiber_lifetime_safe:
  assumes "run (life_guarded_step (at_detached attr)) (life_init attr) es = Some s"
  shows "\<not> lf_fault s \<and>
    lf_freed s = (if lf_exit s = XGone \<and> (at_detached attr \<or> call_over (lf_call s 0)) then 1 else 0) \<and>
    (lf_exit s = XGone \<longrightarrow> lf_stack_freed s = (if at_stack_addr attr = 0 then 1 else 0)) \<and>
    (\<forall>ret v. lf_call s 0 = JDone ret v \<longrightarrow> ret = 0 \<and> v = lf_value s \<and> dead (lf_exit s))"
proof -
  have inv: "life_inv attr s" using life.inv_run_init assms by blast
  then have "lf_freed s = freed_at (exit_refs (lf_exit s) + call_refs (at_detached attr) (lf_call s 0))"
    "lf_stack_freed s = stack_freed_at (at_stack_addr attr \<noteq> 0) (lf_exit s)" "\<not> lf_fault s"
    "call_sound (lf_value s) (lf_call s 0)" "joined (lf_call s 0) \<longrightarrow> dead (lf_exit s)"
    by (simp_all add: inv_defs)
  moreover have "exit_refs (lf_exit s) = 0 \<longleftrightarrow> lf_exit s = XGone" by (cases "lf_exit s") simp_all
  ultimately show ?thesis by (cases "lf_call s 0") (simp_all add: freed_at_def call_refs_def)
qed

text \<open>
  C18. Nobody waits for ever: whenever neither the fiber nor the caller can take a step, the fiber is still
  running (and not in \<open>fev_fiber_exit\<close>), or it is gone and the caller has returned or did not call yet. In
  particular a joiner that waits is woken by the exit of the fiber.
\<close>

theorem fev_fiber_join_progress:
  assumes "run (life_guarded_step (at_detached attr)) (life_init attr) es = Some s"
    and "life_step Step_Fiber s = None" "life_step (Step_Caller 0) s = None"
  shows "lf_exit s = XRunning \<or> lf_exit s = XGone \<and> (lf_call s 0 = CIdle \<or> call_over (lf_call s 0))"
proof -
  have inv: "life_inv attr s" using life.inv_run_init assms(1) by blast
  consider "lf_owner s = Some The_Fiber" | "lf_owner s = Some (Caller 0)" | "lf_owner s = None" "\<not> call_owns (lf_call s 0)"
    using inv by (cases "exit_owns (lf_exit s)"; cases "call_owns (lf_call s 0)") (auto simp: inv_defs)
  then show ?thesis
  proof cases
    case 1
    then have "exit_owns (lf_exit s)" using inv by (cases "exit_owns (lf_exit s)"; cases "call_owns (lf_call s 0)") (auto simp: inv_defs)
    then show ?thesis using assms(2) by (cases "lf_exit s") (simp_all add: fev_fiber_exit_step_def)
  next
    case 2
    then have "call_owns (lf_call s 0)" using inv by (cases "exit_owns (lf_exit s)"; cases "call_owns (lf_call s 0)") (auto simp: inv_defs)
    then show ?thesis
      using assms(3) by (cases "lf_call s 0") (auto simp: fev_fiber_join_step_def fev_fiber_detach_step_def split: if_splits)
  next
    case 3
    then have "lf_exit s = XRunning \<or> lf_exit s = XGone"
      using assms(2) by (cases "lf_exit s") (auto simp: fev_fiber_exit_step_def split: list.splits)
    moreover have "lf_call s 0 = CIdle \<or> call_over (lf_call s 0) \<or> lf_call s 0 = JWaiting"
      using assms(3) 3 inv
      by (cases "lf_call s 0") (auto simp: inv_defs fev_fiber_join_step_def fev_fiber_detach_step_def split: if_splits)
    ultimately show ?thesis using inv by (auto simp: inv_defs)
  qed
qed

definition joinable_attr :: fev_fiber_attr where
  "joinable_attr = fev_fiber_create_default_attr default_config"

text \<open>The joiner waits first, then the fiber exits with 7.\<close>

definition join_run :: "life_event list" where
  "join_run = Join 0 True # replicate 3 (Step_Caller 0) @ Exit 7 # replicate 6 Step_Fiber @ replicate 5 (Step_Caller 0)"

definition wait_run :: "life_event list" where
  "wait_run = Join 0 True # replicate 3 (Step_Caller 0)"

lemmas run_eval = numeral_eq_Suc life_guarded_step_def fev_fiber_join_step_def fev_fiber_detach_step_def
  fev_fiber_exit_step_def fev_fiber_release_def touch_def lassert_def cgoto_def set_flags_def life_init_def fiber_new_def
  joinable_attr_def attr_defs default_config_def fiber_flags

theorem fev_fiber_lifetime_safe_witness:
  "\<exists>s. run (life_guarded_step (at_detached joinable_attr)) (life_init joinable_attr) join_run = Some s \<and>
     lf_call s 0 = JDone 0 7 \<and> \<not> lf_fault s \<and> lf_freed s = 1"
proof -
  obtain s where r: "run (life_guarded_step (at_detached joinable_attr)) (life_init joinable_attr) join_run = Some s"
      "lf_call s 0 = JDone 0 7" "lf_exit s = XGone"
    by (simp add: join_run_def run_eval Let_def)
  then show ?thesis using fev_fiber_lifetime_safe [OF r(1)] by auto
qed

theorem fev_fiber_join_progress_witness:
  "\<exists>s. run (life_guarded_step (at_detached joinable_attr)) (life_init joinable_attr) wait_run = Some s \<and>
     lf_call s 0 = JWaiting \<and> lf_exit s = XRunning"
proof -
  obtain s where r: "run (life_guarded_step (at_detached joinable_attr)) (life_init joinable_attr) wait_run = Some s"
      "lf_call s 0 = JWaiting" "life_step Step_Fiber s = None" "life_step (Step_Caller 0) s = None"
    by (simp add: wait_run_def run_eval Let_def)
  then show ?thesis using fev_fiber_join_progress [OF r(1,3,4)] by auto
qed

text \<open>
  \<open>fev_fiber_detach\<close> while another fiber is in \<open>fev_fiber_join\<close>, although both calls check for it: the detacher
  gives up the reference that the joiner relies on. The fiber is freed when it exits, and the joiner that is
  then woken takes the mutex in freed memory.
\<close>

definition detach_during_join_run :: "life_event list" where
  "detach_during_join_run =
     Join 0 True # replicate 3 (Step_Caller 0) @ Detach 1 True # replicate 4 (Step_Caller 1) @
     Exit 7 # replicate 6 Step_Fiber @ [Step_Caller 0]"

theorem fev_fiber_detach_during_join_faults:
  "\<exists>s. run life_step (life_init joinable_attr) detach_during_join_run = Some s \<and> lf_freed s = 1 \<and> lf_fault s \<and>
     lf_owner s = Some (Caller 0) \<and> lf_call s 1 = DDone 0"
  by (simp add: detach_during_join_run_def run_eval Let_def)

end
