(* ===== verification/Qsbr.thy ===== *)
theory Qsbr
  imports Sched_Common
begin

text \<open>
  Quiescent-state-based reclamation (\<open>fev_qsbr.h\<close>): a socket that a fiber frees may still be in the hands of
  workers that are processing events, so that its memory is given back only after every worker has been in a
  quiescent state. The model is a concurrent system of \<open>n\<close> threads whose steps are the atomic accesses.
\<close>

section \<open>The system\<close>

text \<open>
  A chain of entries, linked through \<open>next\<close>, is a list; \<open>NULL\<close> is the empty list. The comparison of a
  compare-and-swap is on the head of the chain.
\<close>

datatype qsbr_pc =
    QIdle
  | FCas nat \<comment> \<open>\<open>fev_qsbr_free\<close> with its entry\<close>
  | FLoad
  | FSetRem u32 \<comment> \<open>the epoch it has read\<close>
  | FSetEpoch u32
  | FSetLocal u32
  | FLoad2 nat
  | FPush nat "nat option" \<comment> \<open>and the head it expects\<close>
  | QLoad \<comment> \<open>\<open>fev_qsbr_quiescent\<close>\<close>
  | QSub u32
  | QTake u32
  | QLoad2 u32 "nat list" \<comment> \<open>\<open>to_free\<close>\<close>
  | QXchg u32 "nat list" "nat option"
  | QSet1 u32 "nat list" "nat list" \<comment> \<open>and \<open>new_to_free1\<close>\<close>
  | QSetRem u32 "nat list"
  | QSetEpoch u32 "nat list"
  | QClear u32 "nat list"
  | QStore u32 "nat list"
  | QReturn "nat list"

text \<open>
  Ghosts: the entries that were freed and not yet given back, and for each thread those it may still refer to.
\<close>

record qsbr_sys =
  qs_n :: nat \<comment> \<open>\<open>num_threads\<close>\<close>
  qs_epoch :: u32
  qs_rem :: u32 \<comment> \<open>\<open>num_remaining\<close>\<close>
  qs_free1 :: "nat list"
  qs_free2 :: "nat list"
  qs_local :: "nat \<Rightarrow> u32"
  qs_pc :: "nat \<Rightarrow> qsbr_pc"
  qs_fault :: bool
  qs_pending :: "nat multiset"
  qs_refs :: "nat \<Rightarrow> nat set"

definition qgoto :: "qsbr_sys \<Rightarrow> nat \<Rightarrow> qsbr_pc \<Rightarrow> qsbr_sys" where
  "qgoto s i p = s\<lparr>qs_pc := (qs_pc s)(i := p)\<rparr>"

definition qassert :: "bool \<Rightarrow> qsbr_sys \<Rightarrow> qsbr_sys" where
  "qassert b s = s\<lparr>qs_fault := qs_fault s \<or> \<not> b\<rparr>"

definition chain_head :: "'a list \<Rightarrow> 'a option" where
  "chain_head xs = (case xs of [] \<Rightarrow> None | x # _ \<Rightarrow> Some x)"

definition fev_qsbr_free_step :: "nat \<Rightarrow> qsbr_sys \<Rightarrow> qsbr_sys option" where
  "fev_qsbr_free_step i s =
     (case qs_pc s i of
        FCas e \<Rightarrow> Some (if qs_free1 s = [] then qgoto (s\<lparr>qs_free1 := [e]\<rparr>) i FLoad else qgoto s i (FLoad2 e))
      | FLoad \<Rightarrow> Some (qgoto s i (FSetRem (qs_epoch s)))
      | FSetRem ep \<Rightarrow> Some (qgoto (s\<lparr>qs_rem := of_nat (qs_n s) - 1\<rparr>) i (FSetEpoch ep))
      | FSetEpoch ep \<Rightarrow> Some (qgoto (s\<lparr>qs_epoch := ep + 1\<rparr>) i (FSetLocal ep))
      | FSetLocal ep \<Rightarrow> Some (qgoto (s\<lparr>qs_local := (qs_local s)(i := ep + 1)\<rparr>) i QIdle)
      | FLoad2 e \<Rightarrow> Some (qgoto s i (FPush e (chain_head (qs_free2 s))))
      | FPush e x \<Rightarrow>
          Some (if chain_head (qs_free2 s) = x then qgoto (s\<lparr>qs_free2 := e # qs_free2 s\<rparr>) i QIdle
                else qgoto s i (FPush e (chain_head (qs_free2 s))))
      | _ \<Rightarrow> None)"

definition fev_qsbr_quiescent_step :: "nat \<Rightarrow> qsbr_sys \<Rightarrow> qsbr_sys option" where
  "fev_qsbr_quiescent_step i s =
     (case qs_pc s i of
        QLoad \<Rightarrow> Some (qgoto s i (if qs_epoch s = qs_local s i then QReturn [] else QSub (qs_epoch s)))
      | QSub ep \<Rightarrow>
          Some (qgoto ((qassert (qs_rem s \<ge> 1) s)\<lparr>qs_rem := qs_rem s - 1\<rparr>) i (if qs_rem s = 1 then QTake ep else QStore ep []))
      | QTake ep \<Rightarrow> Some (qgoto (qassert (qs_free1 s \<noteq> []) s) i (QLoad2 ep (qs_free1 s)))
      | QLoad2 ep fs \<Rightarrow>
          Some (qgoto s i (if qs_free2 s \<noteq> [] then QXchg ep fs (chain_head (qs_free2 s)) else QClear ep fs))
      | QXchg ep fs x \<Rightarrow>
          Some (if chain_head (qs_free2 s) = x
                then qgoto ((qassert (qs_free2 s \<noteq> []) s)\<lparr>qs_free2 := []\<rparr>) i (QSet1 ep fs (qs_free2 s))
                else qgoto s i (QXchg ep fs (chain_head (qs_free2 s))))
      | QSet1 ep fs new \<Rightarrow> Some (qgoto (s\<lparr>qs_free1 := new\<rparr>) i (QSetRem ep fs))
      | QSetRem ep fs \<Rightarrow> Some (qgoto (s\<lparr>qs_rem := of_nat (qs_n s) - 1\<rparr>) i (QSetEpoch ep fs))
      | QSetEpoch ep fs \<Rightarrow> Some (qgoto (s\<lparr>qs_epoch := ep + 1\<rparr>) i (QStore (ep + 1) fs))
      | QClear ep fs \<Rightarrow> Some (qgoto (s\<lparr>qs_free1 := []\<rparr>) i (QStore ep fs))
      | QStore ep fs \<Rightarrow> Some (qgoto (s\<lparr>qs_local := (qs_local s)(i := ep)\<rparr>) i (QReturn fs))
      | QReturn fs \<Rightarrow> Some (qgoto (s\<lparr>qs_pending := qs_pending s - mset fs\<rparr>) i QIdle)
      | _ \<Rightarrow> None)"

text \<open>
  A thread frees an entry that is not freed already: every other thread may refer to it, except those that are
  in a quiescent state. A thread that calls \<open>fev_qsbr_quiescent\<close> refers to nothing.
\<close>

datatype qsbr_event =
    Free nat nat
  | Quiescent nat
  | Step nat

fun quiescing :: "qsbr_pc \<Rightarrow> bool" where
  "quiescing QIdle \<longleftrightarrow> False"
| "quiescing (FCas _) \<longleftrightarrow> False"
| "quiescing FLoad \<longleftrightarrow> False"
| "quiescing (FSetRem _) \<longleftrightarrow> False"
| "quiescing (FSetEpoch _) \<longleftrightarrow> False"
| "quiescing (FSetLocal _) \<longleftrightarrow> False"
| "quiescing (FLoad2 _) \<longleftrightarrow> False"
| "quiescing (FPush _ _) \<longleftrightarrow> False"
| "quiescing _ \<longleftrightarrow> True"

fun qsbr_event_step :: "qsbr_event \<Rightarrow> qsbr_sys \<Rightarrow> qsbr_sys option" where
  "qsbr_event_step (Free i e) s =
     (if qs_pc s i = QIdle \<and> e \<notin># qs_pending s
      then Some (qgoto ((qassert (qs_n s > 1) s)\<lparr>qs_pending := add_mset e (qs_pending s),
             qs_refs := (\<lambda>j. if j = i \<or> quiescing (qs_pc s j) then qs_refs s j else insert e (qs_refs s j))\<rparr>) i (FCas e))
      else None)"
| "qsbr_event_step (Quiescent i) s =
     (if qs_pc s i = QIdle then Some (qgoto (s\<lparr>qs_refs := (qs_refs s)(i := {})\<rparr>) i QLoad) else None)"
| "qsbr_event_step (Step i) s =
     (if quiescing (qs_pc s i) then fev_qsbr_quiescent_step i s else fev_qsbr_free_step i s)"

fun event_thread :: "qsbr_event \<Rightarrow> nat" where
  "event_thread (Free i _) = i"
| "event_thread (Quiescent i) = i"
| "event_thread (Step i) = i"

definition qsbr_step :: "qsbr_event \<Rightarrow> qsbr_sys \<Rightarrow> qsbr_sys option" where
  "qsbr_step ev s = (if event_thread ev < qs_n s then qsbr_event_step ev s else None)"

text \<open>\<open>fev_qsbr_init_global\<close> and, for each thread, \<open>fev_qsbr_init_local\<close>.\<close>

definition fev_qsbr_init :: "nat \<Rightarrow> qsbr_sys" where
  "fev_qsbr_init n =
     \<lparr>qs_n = n, qs_epoch = 0, qs_rem = 0, qs_free1 = [], qs_free2 = [], qs_local = (\<lambda>_. 0), qs_pc = (\<lambda>_. QIdle),
      qs_fault = False, qs_pending = {#}, qs_refs = (\<lambda>_. {})\<rparr>"

section \<open>The invariant\<close>

text \<open>
  The thread that starts or ends a grace period is its coordinator: there is at most one, and while there is
  one every thread has been counted for the current epoch.
\<close>

fun starting :: "qsbr_pc \<Rightarrow> bool" where
  "starting FLoad \<longleftrightarrow> True"
| "starting (FSetRem _) \<longleftrightarrow> True"
| "starting (FSetEpoch _) \<longleftrightarrow> True"
| "starting (QSetRem _ _) \<longleftrightarrow> True"
| "starting (QSetEpoch _ _) \<longleftrightarrow> True"
| "starting _ \<longleftrightarrow> False"

fun ending :: "qsbr_pc \<Rightarrow> bool" where
  "ending (QTake _) \<longleftrightarrow> True"
| "ending (QLoad2 _ _) \<longleftrightarrow> True"
| "ending (QXchg _ _ _) \<longleftrightarrow> True"
| "ending (QSet1 _ _ _) \<longleftrightarrow> True"
| "ending (QClear _ _) \<longleftrightarrow> True"
| "ending _ \<longleftrightarrow> False"

text \<open>The epoch for which a thread has been counted.\<close>

fun counted_for :: "u32 \<Rightarrow> qsbr_pc \<Rightarrow> u32" where
  "counted_for l (FSetLocal ep) = ep + 1"
| "counted_for l (QTake ep) = ep"
| "counted_for l (QLoad2 ep _) = ep"
| "counted_for l (QXchg ep _ _) = ep"
| "counted_for l (QSet1 ep _ _) = ep"
| "counted_for l (QSetRem ep _) = ep"
| "counted_for l (QSetEpoch ep _) = ep"
| "counted_for l (QClear ep _) = ep"
| "counted_for l (QStore ep _) = ep"
| "counted_for l _ = l"

definition counted :: "qsbr_sys \<Rightarrow> nat \<Rightarrow> bool" where
  "counted s i \<longleftrightarrow> counted_for (qs_local s i) (qs_pc s i) = qs_epoch s"

fun pc_shape :: "u32 \<Rightarrow> nat list \<Rightarrow> nat list \<Rightarrow> u32 \<Rightarrow> qsbr_pc \<Rightarrow> bool" where
  "pc_shape ep f1 f2 l FLoad \<longleftrightarrow> f1 \<noteq> []"
| "pc_shape ep f1 f2 l (FSetRem e) \<longleftrightarrow> e = ep \<and> f1 \<noteq> []"
| "pc_shape ep f1 f2 l (FSetEpoch e) \<longleftrightarrow> e = ep \<and> f1 \<noteq> []"
| "pc_shape ep f1 f2 l (QSub e) \<longleftrightarrow> e = ep \<and> l \<noteq> ep"
| "pc_shape ep f1 f2 l (QTake e) \<longleftrightarrow> e = ep \<and> f1 \<noteq> []"
| "pc_shape ep f1 f2 l (QLoad2 e fs) \<longleftrightarrow> e = ep \<and> fs = f1 \<and> f1 \<noteq> []"
| "pc_shape ep f1 f2 l (QXchg e fs x) \<longleftrightarrow> e = ep \<and> fs = f1 \<and> f1 \<noteq> [] \<and> f2 \<noteq> []"
| "pc_shape ep f1 f2 l (QSet1 e fs new) \<longleftrightarrow> e = ep \<and> fs = f1 \<and> f1 \<noteq> [] \<and> new \<noteq> []"
| "pc_shape ep f1 f2 l (QSetRem e fs) \<longleftrightarrow> e = ep \<and> f1 \<noteq> []"
| "pc_shape ep f1 f2 l (QSetEpoch e fs) \<longleftrightarrow> e = ep \<and> f1 \<noteq> []"
| "pc_shape ep f1 f2 l (QClear e fs) \<longleftrightarrow> e = ep \<and> fs = f1 \<and> f1 \<noteq> []"
| "pc_shape ep f1 f2 l _ \<longleftrightarrow> True"

fun rem_at :: "nat \<Rightarrow> qsbr_pc \<Rightarrow> u32" where
  "rem_at n (FSetEpoch _) = of_nat n - 1"
| "rem_at n (QSetEpoch _ _) = of_nat n - 1"
| "rem_at n _ = 0"

text \<open>Entries in the hands of a thread, and among them those that are about to be given back.\<close>

fun reclaimed :: "qsbr_pc \<Rightarrow> nat list" where
  "reclaimed (QSetRem _ fs) = fs"
| "reclaimed (QSetEpoch _ fs) = fs"
| "reclaimed (QStore _ fs) = fs"
| "reclaimed (QReturn fs) = fs"
| "reclaimed _ = []"

fun in_hand :: "qsbr_pc \<Rightarrow> nat multiset" where
  "in_hand (FCas e) = {#e#}"
| "in_hand (FLoad2 e) = {#e#}"
| "in_hand (FPush e _) = {#e#}"
| "in_hand (QSet1 _ _ new) = mset new"
| "in_hand (QSetRem _ fs) = mset fs"
| "in_hand (QSetEpoch _ fs) = mset fs"
| "in_hand (QStore _ fs) = mset fs"
| "in_hand (QReturn fs) = mset fs"
| "in_hand _ = {#}"

definition coord :: "qsbr_sys \<Rightarrow> nat \<Rightarrow> bool" where
  "coord s i \<longleftrightarrow> starting (qs_pc s i) \<or> ending (qs_pc s i)"

definition uncounted :: "qsbr_sys \<Rightarrow> nat set" where
  "uncounted s = {i. i < qs_n s \<and> \<not> counted s i}"

definition qsbr_shape :: "qsbr_sys \<Rightarrow> bool" where
  "qsbr_shape s \<longleftrightarrow> 1 < qs_n s \<and> qs_n s < 2 ^ 32 \<and> \<not> qs_fault s \<and>
     (\<forall>i < qs_n s. pc_shape (qs_epoch s) (qs_free1 s) (qs_free2 s) (qs_local s i) (qs_pc s i))"

definition qsbr_phase :: "qsbr_sys \<Rightarrow> bool" where
  "qsbr_phase s \<longleftrightarrow>
     (\<forall>i < qs_n s. \<forall>j < qs_n s. coord s i \<longrightarrow> coord s j \<longrightarrow> i = j) \<and>
     (\<forall>i < qs_n s. coord s i \<longrightarrow> uncounted s = {} \<and> qs_rem s = rem_at (qs_n s) (qs_pc s i)) \<and>
     ((\<forall>i < qs_n s. \<not> coord s i) \<longrightarrow> qs_rem s = of_nat (card (uncounted s)) \<and> (uncounted s = {} \<longleftrightarrow> qs_free1 s = []))"

text \<open>
  Who may refer to the entries of the current grace period: not the thread that starts it, and not a thread
  that has been counted. Nobody refers to entries that are about to be given back.
\<close>

definition refs_quiescing :: "qsbr_sys \<Rightarrow> bool" where
  "refs_quiescing s \<longleftrightarrow> (\<forall>i < qs_n s. quiescing (qs_pc s i) \<longrightarrow> qs_refs s i = {})"

definition refs_starting :: "qsbr_sys \<Rightarrow> bool" where
  "refs_starting s \<longleftrightarrow> (\<forall>i < qs_n s. starting (qs_pc s i) \<longrightarrow> set (qs_free1 s) \<inter> qs_refs s i = {})"

definition refs_counted :: "qsbr_sys \<Rightarrow> bool" where
  "refs_counted s \<longleftrightarrow>
     (\<forall>i < qs_n s. \<not> starting (qs_pc s i)) \<longrightarrow> (\<forall>i < qs_n s. counted s i \<longrightarrow> set (qs_free1 s) \<inter> qs_refs s i = {})"

definition refs_reclaimed :: "qsbr_sys \<Rightarrow> bool" where
  "refs_reclaimed s \<longleftrightarrow> (\<forall>i < qs_n s. \<forall>j < qs_n s. set (reclaimed (qs_pc s j)) \<inter> qs_refs s i = {})"

definition refs_own :: "qsbr_sys \<Rightarrow> bool" where
  "refs_own s \<longleftrightarrow> (\<forall>i < qs_n s. \<forall>e. qs_pc s i = FCas e \<longrightarrow> e \<notin> qs_refs s i)"

definition qsbr_refs :: "qsbr_sys \<Rightarrow> bool" where
  "qsbr_refs s \<longleftrightarrow> refs_quiescing s \<and> refs_starting s \<and> refs_counted s \<and> refs_reclaimed s \<and> refs_own s"

definition qsbr_counts :: "qsbr_sys \<Rightarrow> bool" where
  "qsbr_counts s \<longleftrightarrow>
     qs_pending s = mset (qs_free1 s) + mset (qs_free2 s) + wsum (qs_n s) in_hand (qs_pc s) \<and> (\<forall>e. count (qs_pending s) e \<le> 1) \<and>
     (\<forall>i < qs_n s. qs_refs s i \<subseteq> set_mset (qs_pending s))"

definition qsbr_inv :: "qsbr_sys \<Rightarrow> bool" where
  "qsbr_inv s \<longleftrightarrow> qsbr_shape s \<and> qsbr_phase s \<and> qsbr_refs s \<and> qsbr_counts s"

lemma qsbr_inv_init: "1 < n \<Longrightarrow> n < 2 ^ 32 \<Longrightarrow> qsbr_inv (fev_qsbr_init n)"
  by (simp add: qsbr_inv_def qsbr_shape_def qsbr_phase_def qsbr_refs_def refs_quiescing_def
      refs_starting_def refs_counted_def refs_reclaimed_def refs_own_def qsbr_counts_def fev_qsbr_init_def coord_def uncounted_def
      counted_def wsum_def)

section \<open>Steps that leave the shared state as it is\<close>

definition qmove :: "qsbr_sys \<Rightarrow> nat \<Rightarrow> qsbr_pc \<Rightarrow> u32 \<Rightarrow> qsbr_sys" where
  "qmove s i p l = s\<lparr>qs_pc := (qs_pc s)(i := p), qs_local := (qs_local s)(i := l)\<rparr>"

lemma qmove_simps [simp]:
  "qs_n (qmove s i p l) = qs_n s" "qs_epoch (qmove s i p l) = qs_epoch s" "qs_rem (qmove s i p l) = qs_rem s"
  "qs_free1 (qmove s i p l) = qs_free1 s" "qs_free2 (qmove s i p l) = qs_free2 s" "qs_fault (qmove s i p l) = qs_fault s"
  "qs_pending (qmove s i p l) = qs_pending s" "qs_refs (qmove s i p l) = qs_refs s"
  "qs_pc (qmove s i p l) = (qs_pc s)(i := p)" "qs_local (qmove s i p l) = (qs_local s)(i := l)"
  by (simp_all add: qmove_def)

lemma qmoves: "l = qs_local s i \<Longrightarrow> qmove s i p l = qgoto s i p"
  by (simp add: qgoto_def qmove_def)

lemma qmove_local: "qgoto (s\<lparr>qs_local := (qs_local s)(i := l)\<rparr>) i p = qmove s i p l"
  by (simp add: qgoto_def qmove_def)

lemma counted_qmove: "counted (qmove s i p l) j \<longleftrightarrow> (if j = i then counted_for l p = qs_epoch s else counted s j)"
  by (simp add: counted_def)

lemma coord_qmove: "coord (qmove s i p l) j \<longleftrightarrow> (if j = i then starting p \<or> ending p else coord s j)"
  by (simp add: coord_def)

lemma uncounted_qmove:
  "counted_for l p = counted_for (qs_local s i) (qs_pc s i) \<Longrightarrow> uncounted (qmove s i p l) = uncounted s"
  by (auto simp: uncounted_def counted_qmove) (auto simp: counted_def)

lemma in_hand_qmove:
  assumes "i < qs_n s" "in_hand p = in_hand (qs_pc s i)"
  shows "wsum (qs_n s) in_hand ((qs_pc s)(i := p)) = wsum (qs_n s) in_hand (qs_pc s)"
  using wsum_upd [OF assms(1), of in_hand "qs_pc s" p] wsum_split [OF assms(1), of in_hand "qs_pc s"] assms(2) by simp

lemma refs_weaken:
  assumes r: "qsbr_refs s" and e: "qs_n s' = qs_n s" "qs_refs s' = qs_refs s" "set (qs_free1 s') = set (qs_free1 s)"
    and "\<And>j. j < qs_n s \<Longrightarrow> quiescing (qs_pc s' j) \<Longrightarrow> quiescing (qs_pc s j)"
    and "\<And>j. j < qs_n s \<Longrightarrow> starting (qs_pc s' j) = starting (qs_pc s j)"
    and "\<And>j. j < qs_n s \<Longrightarrow> counted s' j \<Longrightarrow> counted s j"
    and "\<And>j. j < qs_n s \<Longrightarrow> set (reclaimed (qs_pc s' j)) \<subseteq> set (reclaimed (qs_pc s j))"
    and "\<And>j e. j < qs_n s \<Longrightarrow> qs_pc s' j = FCas e \<Longrightarrow> qs_pc s j = FCas e"
  shows "qsbr_refs s'"
proof -
  have "refs_quiescing s'" using r assms(5) unfolding qsbr_refs_def refs_quiescing_def e by blast
  moreover have "refs_starting s'" using r assms(6) unfolding qsbr_refs_def refs_starting_def e by blast
  moreover have "refs_counted s'" using r assms(6,7) unfolding qsbr_refs_def refs_counted_def e by blast
  moreover have "refs_reclaimed s'" using r assms(8) unfolding qsbr_refs_def refs_reclaimed_def e by blast
  moreover have "refs_own s'" using r assms(9) unfolding qsbr_refs_def refs_own_def e by blast
  ultimately show ?thesis by (simp add: qsbr_refs_def)
qed

lemma qmove_inv:
  assumes inv: "qsbr_inv s" and i: "i < qs_n s"
    and same: "counted_for l p = counted_for (qs_local s i) (qs_pc s i)" "starting p = starting (qs_pc s i)"
      "ending p = ending (qs_pc s i)" "rem_at (qs_n s) p = rem_at (qs_n s) (qs_pc s i)" "in_hand p = in_hand (qs_pc s i)"
    and shape: "pc_shape (qs_epoch s) (qs_free1 s) (qs_free2 s) l p"
    and refs: "quiescing p \<longrightarrow> quiescing (qs_pc s i)" "set (reclaimed p) \<subseteq> set (reclaimed (qs_pc s i))" "\<And>e. p \<noteq> FCas e"
  shows "qsbr_inv (qmove s i p l)"
proof -
  have c: "coord (qmove s i p l) j = coord s j" for j using same(2,3) by (simp add: coord_qmove) (simp add: coord_def)
  have "qsbr_shape (qmove s i p l)" using inv shape by (simp add: qsbr_inv_def qsbr_shape_def)
  moreover have "qsbr_phase (qmove s i p l)"
    using inv same(4) unfolding qsbr_inv_def qsbr_phase_def c uncounted_qmove [OF same(1)] by auto
  moreover have "qsbr_refs (qmove s i p l)"
  proof (rule refs_weaken [of s])
    show "qsbr_refs s" using inv by (simp add: qsbr_inv_def)
  qed (use same refs in \<open>auto simp: counted_def split: if_splits\<close>)
  moreover have "qsbr_counts (qmove s i p l)"
    using inv unfolding qsbr_inv_def qsbr_counts_def qmove_simps in_hand_qmove [OF i same(5)] by blast
  ultimately show ?thesis by (simp add: qsbr_inv_def)
qed

section \<open>Steps that change the shared state\<close>

lemma phase_coordI:
  assumes "i < qs_n s" "coord s i" "\<And>j. j < qs_n s \<Longrightarrow> j \<noteq> i \<Longrightarrow> \<not> coord s j" "uncounted s = {}"
    and "qs_rem s = rem_at (qs_n s) (qs_pc s i)"
  shows "qsbr_phase s"
  using assms unfolding qsbr_phase_def by metis

lemma phase_noneI:
  assumes "\<And>j. j < qs_n s \<Longrightarrow> \<not> coord s j" "qs_rem s = of_nat (card (uncounted s))" "uncounted s = {} \<longleftrightarrow> qs_free1 s = []"
  shows "qsbr_phase s"
  using assms unfolding qsbr_phase_def by blast

lemma inv_shape:
  "qsbr_inv s \<Longrightarrow> j < qs_n s \<Longrightarrow> pc_shape (qs_epoch s) (qs_free1 s) (qs_free2 s) (qs_local s j) (qs_pc s j)"
  by (simp add: qsbr_inv_def qsbr_shape_def)

lemma coord_facts:
  assumes "qsbr_inv s" "i < qs_n s" "coord s i"
  shows "qs_free1 s \<noteq> []" "uncounted s = {}" "\<And>j. j < qs_n s \<Longrightarrow> j \<noteq> i \<Longrightarrow> \<not> coord s j"
    "qs_rem s = rem_at (qs_n s) (qs_pc s i)" "\<And>j. j < qs_n s \<Longrightarrow> counted s j"
proof -
  show "qs_free1 s \<noteq> []" using inv_shape [OF assms(1,2)] assms(3) by (cases "qs_pc s i") (auto simp: coord_def)
  show u: "uncounted s = {}" "qs_rem s = rem_at (qs_n s) (qs_pc s i)"
    using assms by (auto simp: qsbr_inv_def qsbr_phase_def)
  show "\<not> coord s j" if "j < qs_n s" "j \<noteq> i" for j using assms that by (auto simp: qsbr_inv_def qsbr_phase_def)
  show "counted s j" if "j < qs_n s" for j using u(1) that by (auto simp: uncounted_def)
qed

lemma no_coord: "qsbr_inv s \<Longrightarrow> qs_free1 s = [] \<Longrightarrow> j < qs_n s \<Longrightarrow> \<not> coord s j"
  using coord_facts(1) by blast

lemma none_facts:
  assumes "qsbr_inv s" "\<And>j. j < qs_n s \<Longrightarrow> \<not> coord s j"
  shows "qs_rem s = of_nat (card (uncounted s))" "uncounted s = {} \<longleftrightarrow> qs_free1 s = []"
  using assms by (auto simp: qsbr_inv_def qsbr_phase_def)

text \<open>A counted thread that is not the coordinator does not depend on the shared state.\<close>

lemma shape_any: "counted s j \<Longrightarrow> \<not> coord s j \<Longrightarrow> pc_shape (qs_epoch s) f1 f2 (qs_local s j) (qs_pc s j) \<Longrightarrow>
    pc_shape ep' f1' f2' (qs_local s j) (qs_pc s j)"
  by (cases "qs_pc s j") (auto simp: counted_def coord_def)

lemma in_hand_upd:
  assumes "i < qs_n s"
  shows "wsum (qs_n s) in_hand ((qs_pc s)(i := p)) = in_hand p + others (qs_n s) in_hand (qs_pc s) i"
    "wsum (qs_n s) in_hand (qs_pc s) = in_hand (qs_pc s i) + others (qs_n s) in_hand (qs_pc s) i"
  by (rule wsum_upd [OF assms], rule wsum_split [OF assms])

lemma counts_same:
  assumes "qsbr_counts s" "qs_pending s' = qs_pending s" "qs_n s' = qs_n s" "qs_refs s' = qs_refs s"
    and "mset (qs_free1 s') + mset (qs_free2 s') + wsum (qs_n s') in_hand (qs_pc s') =
      mset (qs_free1 s) + mset (qs_free2 s) + wsum (qs_n s) in_hand (qs_pc s)"
  shows "qsbr_counts s'"
  using assms unfolding qsbr_counts_def by metis

lemma set_rem_inv:
  assumes inv: "qsbr_inv s" and i: "i < qs_n s"
    and p: "qs_pc s i = FSetRem ep \<and> p = FSetEpoch ep \<or> qs_pc s i = QSetRem ep fs \<and> p = QSetEpoch ep fs"
  shows "qsbr_inv (qmove (s\<lparr>qs_rem := of_nat (qs_n s) - 1\<rparr>) i p (qs_local s i))" (is "qsbr_inv ?s'")
proof -
  have "coord s i" using p by (auto simp: coord_def)
  note f = coord_facts [OF inv i this]
  have "coord ?s' i" "\<And>j. j \<noteq> i \<Longrightarrow> coord ?s' j = coord s j" using p by (auto simp: coord_def)
  moreover have u: "counted ?s' j = counted s j" for j using p by (auto simp: counted_def)
  then have "uncounted ?s' = {}" using f(2) by (simp add: uncounted_def)
  ultimately have "qsbr_phase ?s'" using i f(3) p by (intro phase_coordI [of i]) auto
  moreover have "qsbr_shape ?s'" using inv p inv_shape [OF inv i] by (auto simp: qsbr_inv_def qsbr_shape_def)
  moreover have "qsbr_refs ?s'"
  proof (rule refs_weaken [of s])
    show "qsbr_refs s" using inv by (simp add: qsbr_inv_def)
  qed (use p u in \<open>auto split: if_splits\<close>)
  moreover have "in_hand p = in_hand (qs_pc s i)" using p by auto
  note h = in_hand_qmove [OF i this]
  have "qsbr_counts ?s'" by (rule counts_same [of s]) (use inv h in \<open>simp_all add: qsbr_inv_def\<close>)
  ultimately show ?thesis by (simp add: qsbr_inv_def)
qed

lemma set_epoch_inv:
  assumes inv: "qsbr_inv s" and i: "i < qs_n s"
    and p: "qs_pc s i = FSetEpoch ep \<and> p = FSetLocal ep \<or> qs_pc s i = QSetEpoch ep fs \<and> p = QStore (ep + 1) fs"
  shows "qsbr_inv (qmove (s\<lparr>qs_epoch := ep + 1\<rparr>) i p (qs_local s i))" (is "qsbr_inv ?s'")
proof -
  have ci: "coord s i" using p by (auto simp: coord_def)
  note f = coord_facts [OF inv i ci]
  have ep: "ep = qs_epoch s" using inv_shape [OF inv i] p by auto
  have n: "1 < qs_n s" using inv by (simp add: qsbr_inv_def qsbr_shape_def)
  have c: "counted ?s' j \<longleftrightarrow> j = i" if "j < qs_n s" for j
    using p f(5) [OF that] by (auto simp: counted_def ep)
  have "uncounted ?s' = {..<qs_n s} - {i}" using c by (auto simp: uncounted_def)
  then have card: "card (uncounted ?s') = qs_n s - 1" using i by simp
  have "\<not> coord ?s' j" if "j < qs_n s" for j using f(3) [OF that] p by (auto simp: coord_def)
  moreover have "uncounted ?s' \<noteq> {}" using card n by auto
  ultimately have "qsbr_phase ?s'"
    using f(1,4) p card n by (intro phase_noneI) (auto simp: of_nat_diff)
  moreover have "pc_shape (ep + 1) (qs_free1 s) (qs_free2 s) (qs_local s j) (qs_pc s j)" if "j < qs_n s" "j \<noteq> i" for j
    using shape_any [OF f(5) [OF that(1)] f(3) [OF that] inv_shape [OF inv that(1)]] .
  then have "qsbr_shape ?s'" using inv p by (auto simp: qsbr_inv_def qsbr_shape_def)
  moreover have "qsbr_refs ?s'"
  proof -
    have r: "refs_quiescing s" "refs_starting s" "refs_reclaimed s" "refs_own s" using inv by (simp_all add: qsbr_inv_def qsbr_refs_def)
    have "refs_quiescing ?s'" using r(1) p i by (auto simp: refs_quiescing_def)
    moreover have "\<not> starting (((qs_pc s)(i := p)) j)" if "j < qs_n s" for j
      using f(3) [OF that] p by (auto simp: coord_def)
    then have "refs_starting ?s'" by (simp add: refs_starting_def)
    moreover have "set (qs_free1 s) \<inter> qs_refs s i = {}" using r(2) i p unfolding refs_starting_def by force
    then have "refs_counted ?s'" using c by (simp add: refs_counted_def)
    moreover have "set (reclaimed p) = set (reclaimed (qs_pc s i))" using p by auto
    then have "refs_reclaimed ?s'" using r(3) i by (simp add: refs_reclaimed_def)
    moreover have "refs_own ?s'" using r(4) p by (auto simp: refs_own_def)
    ultimately show ?thesis by (simp add: qsbr_refs_def)
  qed
  moreover have "in_hand p = in_hand (qs_pc s i)" using p by auto
  note h = in_hand_qmove [OF i this]
  have "qsbr_counts ?s'" by (rule counts_same [of s]) (use inv h in \<open>simp_all add: qsbr_inv_def\<close>)
  ultimately show ?thesis by (simp add: qsbr_inv_def)
qed

lemma free_cas_inv:
  assumes inv: "qsbr_inv s" and i: "i < qs_n s" and p: "qs_pc s i = FCas e" "qs_free1 s = []"
  shows "qsbr_inv (qmove (s\<lparr>qs_free1 := [e]\<rparr>) i FLoad (qs_local s i))" (is "qsbr_inv ?s'")
proof -
  note nc = no_coord [OF inv p(2)]
  note f = none_facts [OF inv nc]
  have u: "uncounted s = {}" using f(2) p(2) by simp
  then have call: "counted s j" if "j < qs_n s" for j using that by (auto simp: uncounted_def)
  have "counted ?s' j = counted s j" for j using p(1) by (simp add: counted_def)
  then have "uncounted ?s' = {}" using u by (simp add: uncounted_def)
  moreover have "coord ?s' j \<longleftrightarrow> j = i" if "j < qs_n s" for j using nc [OF that] by (simp add: coord_def)
  ultimately have "qsbr_phase ?s'" using i u f(1) by (intro phase_coordI [of i]) auto
  moreover have "pc_shape (qs_epoch s) [e] (qs_free2 s) (qs_local s j) (qs_pc s j)" if "j < qs_n s" for j
    using shape_any [OF call [OF that] nc [OF that] inv_shape [OF inv that]] .
  then have "qsbr_shape ?s'" using inv by (simp add: qsbr_inv_def qsbr_shape_def)
  moreover have "qsbr_refs ?s'"
  proof -
    have rr: "refs_quiescing s" "refs_reclaimed s" "refs_own s" using inv by (simp_all add: qsbr_inv_def qsbr_refs_def)
    have "refs_quiescing ?s'" using rr(1) by (simp add: refs_quiescing_def)
    moreover have "refs_starting ?s'" using rr(3) i p(1) nc by (auto simp: refs_starting_def refs_own_def coord_def)
    moreover have "refs_counted ?s'" using i by (auto simp: refs_counted_def)
    moreover have "refs_reclaimed ?s'" "refs_own ?s'" using rr(2,3) by (simp_all add: refs_reclaimed_def refs_own_def)
    ultimately show ?thesis by (simp add: qsbr_refs_def)
  qed
  moreover have "qsbr_counts ?s'"
    by (rule counts_same [of s]) (use inv p in \<open>simp_all add: qsbr_inv_def in_hand_upd [OF i]\<close>)
  ultimately show ?thesis by (simp add: qsbr_inv_def)
qed

lemma free_push_inv:
  assumes inv: "qsbr_inv s" and i: "i < qs_n s" and p: "qs_pc s i = FPush e x"
  shows "qsbr_inv (qmove (s\<lparr>qs_free2 := e # qs_free2 s\<rparr>) i QIdle (qs_local s i))" (is "qsbr_inv ?s'")
proof -
  have c: "coord ?s' j = coord s j" "counted ?s' j = counted s j" for j using p by (simp_all add: coord_def counted_def)
  then have "uncounted ?s' = uncounted s" by (simp add: uncounted_def)
  then have "qsbr_phase ?s'" using inv p c unfolding qsbr_inv_def qsbr_phase_def by auto
  moreover have "pc_shape (qs_epoch s) (qs_free1 s) (e # qs_free2 s) (qs_local s j) (qs_pc s j)" if "j < qs_n s" for j
    using inv_shape [OF inv that] by (cases "qs_pc s j") simp_all
  then have "qsbr_shape ?s'" using inv by (simp add: qsbr_inv_def qsbr_shape_def)
  moreover have "qsbr_refs ?s'"
    by (rule refs_weaken [of s]) (use inv p c in \<open>auto simp: qsbr_inv_def split: if_splits\<close>)
  moreover have "qsbr_counts ?s'"
    by (rule counts_same [of s]) (use inv p in \<open>simp_all add: qsbr_inv_def in_hand_upd [OF i]\<close>)
  ultimately show ?thesis by (simp add: qsbr_inv_def)
qed

lemma xchg_inv:
  assumes inv: "qsbr_inv s" and i: "i < qs_n s" and p: "qs_pc s i = QXchg ep fs x"
  shows "qsbr_inv (qmove (s\<lparr>qs_free2 := []\<rparr>) i (QSet1 ep fs (qs_free2 s)) (qs_local s i))" (is "qsbr_inv ?s'")
proof -
  have ci: "coord s i" using p by (simp add: coord_def)
  note f = coord_facts [OF inv i ci]
  have c: "coord ?s' j = coord s j" "counted ?s' j = counted s j" for j using p by (simp_all add: coord_def counted_def)
  then have "uncounted ?s' = uncounted s" by (simp add: uncounted_def)
  then have "qsbr_phase ?s'" using inv p c unfolding qsbr_inv_def qsbr_phase_def by auto
  moreover have "pc_shape (qs_epoch s) (qs_free1 s) [] (qs_local s j) (qs_pc s j)" if "j < qs_n s" "j \<noteq> i" for j
    using shape_any [OF f(5) [OF that(1)] f(3) [OF that] inv_shape [OF inv that(1)]] .
  then have "qsbr_shape ?s'" using inv inv_shape [OF inv i] p by (simp add: qsbr_inv_def qsbr_shape_def)
  moreover have "qsbr_refs ?s'"
    by (rule refs_weaken [of s]) (use inv p c in \<open>auto simp: qsbr_inv_def split: if_splits\<close>)
  moreover have "qsbr_counts ?s'"
    by (rule counts_same [of s]) (use inv p in \<open>simp_all add: qsbr_inv_def in_hand_upd [OF i]\<close>)
  ultimately show ?thesis by (simp add: qsbr_inv_def)
qed

text \<open>The end of a grace period: nobody refers to its entries any more.\<close>

lemma ending_unreferenced:
  assumes inv: "qsbr_inv s" and i: "i < qs_n s" "ending (qs_pc s i)" and j: "j < qs_n s"
  shows "set (qs_free1 s) \<inter> qs_refs s j = {}"
proof -
  have "coord s i" using i by (simp add: coord_def)
  note f = coord_facts [OF inv i(1) this]
  have "\<not> starting (qs_pc s k)" if "k < qs_n s" for k
    using f(3) [OF that] i(2) by (cases "k = i"; cases "qs_pc s i") (auto simp: coord_def)
  then show ?thesis using inv f(5) [OF j] j by (auto simp: qsbr_inv_def qsbr_refs_def refs_counted_def)
qed

lemma take_over_inv:
  assumes inv: "qsbr_inv s" and i: "i < qs_n s"
    and p: "qs_pc s i = QSet1 ep fs new \<and> p = QSetRem ep fs \<or> qs_pc s i = QClear ep fs \<and> p = QStore ep fs \<and> new = []"
  shows "qsbr_inv (qmove (s\<lparr>qs_free1 := new\<rparr>) i p (qs_local s i))" (is "qsbr_inv ?s'")
proof -
  have ci: "coord s i" "ending (qs_pc s i)" using p by (auto simp: coord_def)
  note f = coord_facts [OF inv i ci(1)]
  have fs: "fs = qs_free1 s" "ep = qs_epoch s" using inv_shape [OF inv i] p by auto
  have c: "counted ?s' j = counted s j" for j using p by (auto simp: counted_def)
  then have u: "uncounted ?s' = {}" using f(2) by (simp add: uncounted_def)
  have "qsbr_phase ?s'"
  proof (cases "new = [] \<and> p = QStore ep fs")
    case True
    then show ?thesis using u f(3,4) p by (intro phase_noneI) (auto simp: coord_def)
  next
    case False
    then have "p = QSetRem ep fs" using p by auto
    then show ?thesis using u f(3,4) p i by (intro phase_coordI [of i]) (auto simp: coord_def)
  qed
  moreover have "pc_shape (qs_epoch s) new (qs_free2 s) (qs_local s j) (qs_pc s j)" if "j < qs_n s" "j \<noteq> i" for j
    using shape_any [OF f(5) [OF that(1)] f(3) [OF that] inv_shape [OF inv that(1)]] .
  then have "qsbr_shape ?s'" using inv inv_shape [OF inv i] p by (auto simp: qsbr_inv_def qsbr_shape_def)
  moreover have "qsbr_refs ?s'"
  proof -
    have r: "refs_quiescing s" "refs_reclaimed s" "refs_own s" using inv by (simp_all add: qsbr_inv_def qsbr_refs_def)
    have "refs_quiescing ?s'" using r(1) p i by (auto simp: refs_quiescing_def)
    moreover have "qs_refs s i = {}" using r(1) i p by (auto simp: refs_quiescing_def)
    then have "refs_starting ?s'" using f(3) by (auto simp: refs_starting_def coord_def)
    moreover have "refs_counted ?s'" using p i by (auto simp: refs_counted_def)
    moreover have "set (reclaimed p) \<inter> qs_refs s j = {}" if "j < qs_n s" for j
      using ending_unreferenced [OF inv i ci(2) that] fs p by auto
    then have "refs_reclaimed ?s'" using r(2) by (simp add: refs_reclaimed_def)
    moreover have "refs_own ?s'" using r(3) p by (auto simp: refs_own_def)
    ultimately show ?thesis by (simp add: qsbr_refs_def)
  qed
  moreover have "qsbr_counts ?s'"
    by (rule counts_same [of s]) (use inv p fs in \<open>auto simp: qsbr_inv_def in_hand_upd [OF i]\<close>)
  ultimately show ?thesis by (simp add: qsbr_inv_def)
qed

text \<open>A thread is counted for the current epoch. The last one becomes the coordinator.\<close>

lemma sub_facts:
  assumes inv: "qsbr_inv s" and i: "i < qs_n s" and p: "qs_pc s i = QSub ep"
  shows "ep = qs_epoch s" "i \<in> uncounted s" "\<And>j. j < qs_n s \<Longrightarrow> \<not> coord s j" "qs_free1 s \<noteq> []"
    "unat (qs_rem s) = card (uncounted s)" "card (uncounted s) \<ge> 1"
proof -
  show e: "ep = qs_epoch s" "i \<in> uncounted s"
    using inv_shape [OF inv i] p i by (auto simp: uncounted_def counted_def)
  show nc: "\<not> coord s j" if "j < qs_n s" for j using coord_facts(2) [OF inv that] e(2) by blast
  note f = none_facts [OF inv nc]
  show "qs_free1 s \<noteq> []" using f(2) e(2) by blast
  have fin: "finite (uncounted s)" "uncounted s \<subseteq> {..<qs_n s}" by (auto simp: uncounted_def)
  then have "card (uncounted s) \<le> qs_n s" using card_mono [of "{..<qs_n s}"] by simp
  moreover have "qs_n s < 2 ^ 32" using inv by (simp add: qsbr_inv_def qsbr_shape_def)
  ultimately show "unat (qs_rem s) = card (uncounted s)" using f(1) by (simp add: unat_of_nat)
  show "card (uncounted s) \<ge> 1" using fin(1) e(2) by (simp add: Suc_le_eq card_gt_0_iff) blast
qed

lemma sub_inv:
  assumes inv: "qsbr_inv s" and i: "i < qs_n s" and p: "qs_pc s i = QSub ep"
    and p': "p' = (if qs_rem s = 1 then QTake ep else QStore ep [])"
  shows "qsbr_inv (qmove (s\<lparr>qs_rem := qs_rem s - 1\<rparr>) i p' (qs_local s i))" (is "qsbr_inv ?s'")
proof -
  note f = sub_facts [OF inv i p]
  have one: "qs_rem s = 1 \<longleftrightarrow> card (uncounted s) = 1" using f(5) by (simp add: word_unat_eq_iff)
  have c: "counted ?s' j \<longleftrightarrow> counted s j \<or> j = i" for j using p' f(1) by (auto simp: counted_def)
  then have u: "uncounted ?s' = uncounted s - {i}" by (auto simp: uncounted_def)
  then have card: "card (uncounted ?s') = card (uncounted s) - 1" using f(2) by simp
  have fin: "finite (uncounted ?s')" by (simp add: uncounted_def)
  have rem: "qs_rem s - 1 = of_nat (card (uncounted ?s'))"
    using f(5,6) card by (metis of_nat_1 of_nat_diff of_nat_unat ucast_id)
  have "qsbr_phase ?s'"
  proof (cases "qs_rem s = 1")
    case True
    then have "uncounted ?s' = {}" using card one fin by simp
    then show ?thesis using True i f(3) p' by (intro phase_coordI [of i]) (auto simp: coord_def)
  next
    case False
    then have "uncounted ?s' \<noteq> {}" using card one f(6) by auto
    then show ?thesis using False f(3,4) p' rem by (intro phase_noneI) (auto simp: coord_def)
  qed
  moreover have "qsbr_shape ?s'" using inv p' f(1,4) by (simp add: qsbr_inv_def qsbr_shape_def)
  moreover have "qsbr_refs ?s'"
  proof -
    have r: "refs_quiescing s" "refs_starting s" "refs_counted s" "refs_reclaimed s" "refs_own s"
      using inv by (simp_all add: qsbr_inv_def qsbr_refs_def)
    have ri: "qs_refs s i = {}" using r(1) i p by (auto simp: refs_quiescing_def)
    have "refs_quiescing ?s'" using r(1) ri by (simp add: refs_quiescing_def)
    moreover have "refs_starting ?s'" using r(2) ri by (simp add: refs_starting_def)
    moreover have "\<not> starting (qs_pc s j)" if "j < qs_n s" for j using f(3) [OF that] by (simp add: coord_def)
    then have "refs_counted ?s'" using r(3) ri c by (auto simp: refs_counted_def)
    moreover have "refs_reclaimed ?s'" "refs_own ?s'" using r(4,5) p' by (auto simp: refs_reclaimed_def refs_own_def)
    ultimately show ?thesis by (simp add: qsbr_refs_def)
  qed
  moreover have "qsbr_counts ?s'"
    by (rule counts_same [of s]) (use inv p p' in \<open>simp_all add: qsbr_inv_def in_hand_upd [OF i]\<close>)
  ultimately show ?thesis by (simp add: qsbr_inv_def)
qed

text \<open>The entries are given back.\<close>

lemma return_inv:
  assumes inv: "qsbr_inv s" and i: "i < qs_n s" and p: "qs_pc s i = QReturn fs"
  shows "qsbr_inv (qmove (s\<lparr>qs_pending := qs_pending s - mset fs\<rparr>) i QIdle (qs_local s i))" (is "qsbr_inv ?s'")
proof -
  have c: "coord ?s' j = coord s j" "counted ?s' j = counted s j" for j using p by (simp_all add: coord_def counted_def)
  then have "uncounted ?s' = uncounted s" by (simp add: uncounted_def)
  then have "qsbr_phase ?s'" using inv p c unfolding qsbr_inv_def qsbr_phase_def by auto
  moreover have "qsbr_shape ?s'" using inv by (simp add: qsbr_inv_def qsbr_shape_def)
  moreover have "qsbr_refs ?s'"
    by (rule refs_weaken [of s]) (use inv p c in \<open>auto simp: qsbr_inv_def split: if_splits\<close>)
  moreover have "qsbr_counts ?s'"
  proof -
    have r: "qs_pending s = mset (qs_free1 s) + mset (qs_free2 s) + wsum (qs_n s) in_hand (qs_pc s)"
        "\<And>e. count (qs_pending s) e \<le> 1" "\<And>j. j < qs_n s \<Longrightarrow> qs_refs s j \<subseteq> set_mset (qs_pending s)"
      using inv unfolding qsbr_inv_def qsbr_counts_def by blast+
    have "qs_refs s j \<subseteq> set_mset (qs_pending s - mset fs)" if "j < qs_n s" for j
    proof
      fix e assume e: "e \<in> qs_refs s j"
      have "set fs \<inter> qs_refs s j = {}"
        using inv i that p unfolding qsbr_inv_def qsbr_refs_def refs_reclaimed_def by force
      then have "e \<notin># mset fs" using e by auto
      moreover have "e \<in># qs_pending s" using r(3) [OF that] e by blast
      ultimately show "e \<in># qs_pending s - mset fs" by (metis count_greater_zero_iff in_diff_count not_in_iff)
    qed
    moreover have "count (qs_pending s - mset fs) e \<le> 1" for e using r(2) [of e] by simp
    moreover have "qs_pending s - mset fs = mset (qs_free1 s) + mset (qs_free2 s) + wsum (qs_n s) in_hand ((qs_pc s)(i := QIdle))"
      using r(1) p by (simp add: in_hand_upd [OF i])
    ultimately show ?thesis unfolding qsbr_counts_def by simp
  qed
  ultimately show ?thesis by (simp add: qsbr_inv_def)
qed

lemma free_inv:
  assumes inv: "qsbr_inv s" and i: "i < qs_n s" and p: "qs_pc s i = QIdle" and e: "e \<notin># qs_pending s"
  shows "qsbr_inv (qmove (s\<lparr>qs_pending := add_mset e (qs_pending s),
      qs_refs := (\<lambda>j. if j = i \<or> quiescing (qs_pc s j) then qs_refs s j else insert e (qs_refs s j))\<rparr>) i (FCas e) (qs_local s i))" (is "qsbr_inv ?s'")
proof -
  have k: "qs_pending s = mset (qs_free1 s) + mset (qs_free2 s) + wsum (qs_n s) in_hand (qs_pc s)"
      "\<And>e. count (qs_pending s) e \<le> 1" "\<And>j. j < qs_n s \<Longrightarrow> qs_refs s j \<subseteq> set_mset (qs_pending s)"
    using inv unfolding qsbr_inv_def qsbr_counts_def by blast+
  have c: "coord ?s' j = coord s j" "counted ?s' j = counted s j" for j using p by (simp_all add: coord_def counted_def)
  then have "uncounted ?s' = uncounted s" by (simp add: uncounted_def)
  then have "qsbr_phase ?s'" using inv p c unfolding qsbr_inv_def qsbr_phase_def by auto
  moreover have "qsbr_shape ?s'" using inv by (simp add: qsbr_inv_def qsbr_shape_def)
  moreover have "qsbr_refs ?s'"
  proof -
    have r: "refs_quiescing s" "refs_starting s" "refs_counted s" "refs_reclaimed s" "refs_own s"
      using inv by (simp_all add: qsbr_inv_def qsbr_refs_def)
    have e1: "e \<notin> set (qs_free1 s)" using e k(1) by auto
    have er: "e \<notin> set (reclaimed (qs_pc s j))" if "j < qs_n s" for j
    proof -
      have "set (reclaimed (qs_pc s j)) \<subseteq> set_mset (in_hand (qs_pc s j))" by (cases "qs_pc s j") simp_all
      moreover have "e \<notin># in_hand (qs_pc s j)" using e k(1) in_hand_upd(2) [OF that] by auto
      ultimately show ?thesis by blast
    qed
    have "refs_quiescing ?s'" using r(1) by (simp add: refs_quiescing_def)
    moreover have "refs_starting ?s'" using r(2) e1 by (simp add: refs_starting_def)
    moreover have st: "starting (qs_pc ?s' j) = starting (qs_pc s j)" for j using p by simp
    have "refs_counted ?s'" using r(3) e1 unfolding refs_counted_def st c(2) by simp
    moreover have "refs_reclaimed ?s'" using r(4) er by (simp add: refs_reclaimed_def)
    moreover have "refs_own ?s'"
    proof -
      have "e \<notin> qs_refs s i" using e k(3) [OF i] by blast
      moreover have "e \<noteq> e'" if "j < qs_n s" "qs_pc s j = FCas e'" for j e'
        using e k(1) in_hand_upd(2) [OF that(1)] that(2) by auto
      ultimately show ?thesis using r(5) by (auto simp: refs_own_def)
    qed
    ultimately show ?thesis by (simp add: qsbr_refs_def)
  qed
  moreover have "qsbr_counts ?s'"
  proof -
    have "add_mset e (qs_pending s) = mset (qs_free1 s) + mset (qs_free2 s) + wsum (qs_n s) in_hand ((qs_pc s)(i := FCas e))"
      unfolding k(1) using p by (simp add: in_hand_upd [OF i])
    moreover have "count (add_mset e (qs_pending s)) e' \<le> 1" for e' using k(2) [of e'] e by (auto simp: not_in_iff)
    moreover have "(if j = i \<or> quiescing (qs_pc s j) then qs_refs s j else insert e (qs_refs s j)) \<subseteq> set_mset (add_mset e (qs_pending s))"
      if "j < qs_n s" for j using k(3) [OF that] by auto
    ultimately show ?thesis unfolding qsbr_counts_def by simp
  qed
  ultimately show ?thesis by (simp add: qsbr_inv_def)
qed

lemma quiescent_inv:
  assumes inv: "qsbr_inv s" and i: "i < qs_n s" and p: "qs_pc s i = QIdle"
  shows "qsbr_inv (qmove (s\<lparr>qs_refs := (qs_refs s)(i := {})\<rparr>) i QLoad (qs_local s i))" (is "qsbr_inv ?s'")
proof -
  have c: "coord ?s' j = coord s j" "counted ?s' j = counted s j" for j using p by (simp_all add: coord_def counted_def)
  then have "uncounted ?s' = uncounted s" by (simp add: uncounted_def)
  then have "qsbr_phase ?s'" using inv p c unfolding qsbr_inv_def qsbr_phase_def by auto
  moreover have "qsbr_shape ?s'" using inv by (simp add: qsbr_inv_def qsbr_shape_def)
  moreover have "qsbr_refs ?s'"
  proof -
    have r: "refs_quiescing s" "refs_starting s" "refs_counted s" "refs_reclaimed s" "refs_own s"
      using inv by (simp_all add: qsbr_inv_def qsbr_refs_def)
    have "refs_quiescing ?s'" using r(1) by (simp add: refs_quiescing_def)
    moreover have "refs_starting ?s'" using r(2) by (simp add: refs_starting_def)
    moreover have st: "starting (qs_pc ?s' j) = starting (qs_pc s j)" for j using p by simp
    have "refs_counted ?s'" using r(3) unfolding refs_counted_def st c(2) by simp
    moreover have "refs_reclaimed ?s'" "refs_own ?s'" using r(4,5) by (simp_all add: refs_reclaimed_def refs_own_def)
    ultimately show ?thesis by (simp add: qsbr_refs_def)
  qed
  moreover have "qsbr_counts ?s'"
  proof -
    have k: "qs_pending s = mset (qs_free1 s) + mset (qs_free2 s) + wsum (qs_n s) in_hand (qs_pc s)"
        "\<And>e. count (qs_pending s) e \<le> 1" "\<And>j. j < qs_n s \<Longrightarrow> qs_refs s j \<subseteq> set_mset (qs_pending s)"
      using inv unfolding qsbr_inv_def qsbr_counts_def by blast+
    have "wsum (qs_n s) in_hand ((qs_pc s)(i := QLoad)) = wsum (qs_n s) in_hand (qs_pc s)"
      by (rule in_hand_qmove [OF i]) (simp add: p)
    then show ?thesis using k unfolding qsbr_counts_def by simp
  qed
  ultimately show ?thesis by (simp add: qsbr_inv_def)
qed

lemma free_step_inv:
  assumes inv: "qsbr_inv s" and i: "i < qs_n s" and step: "fev_qsbr_free_step i s = Some s'"
  shows "qsbr_inv s'"
proof (cases "qs_pc s i")
  case (FCas e)
  show ?thesis
  proof (cases "qs_free1 s = []")
    case True
    then show ?thesis using FCas step free_cas_inv [OF inv i FCas True] by (simp add: fev_qsbr_free_step_def qmoves)
  next
    case False
    then have "s' = qmove s i (FLoad2 e) (qs_local s i)" using FCas step by (simp add: fev_qsbr_free_step_def qmoves)
    then show ?thesis using qmove_inv [OF inv i] FCas by simp
  qed
next
  case FLoad
  then have "s' = qmove s i (FSetRem (qs_epoch s)) (qs_local s i)" using step by (simp add: fev_qsbr_free_step_def qmoves)
  then show ?thesis using qmove_inv [OF inv i] FLoad inv_shape [OF inv i] by simp
next
  case (FSetRem ep)
  then show ?thesis using step set_rem_inv [OF inv i] by (simp add: fev_qsbr_free_step_def qmoves)
next
  case (FSetEpoch ep)
  then show ?thesis using step set_epoch_inv [OF inv i] by (simp add: fev_qsbr_free_step_def qmoves)
next
  case (FSetLocal ep)
  then have "s' = qmove s i QIdle (ep + 1)" using step by (simp add: fev_qsbr_free_step_def qmove_local)
  then show ?thesis using qmove_inv [OF inv i] FSetLocal by simp
next
  case (FLoad2 e)
  then have "s' = qmove s i (FPush e (chain_head (qs_free2 s))) (qs_local s i)" using step by (simp add: fev_qsbr_free_step_def qmoves)
  then show ?thesis using qmove_inv [OF inv i] FLoad2 by simp
next
  case (FPush e x)
  show ?thesis
  proof (cases "chain_head (qs_free2 s) = x")
    case True
    then show ?thesis using FPush step free_push_inv [OF inv i FPush] by (simp add: fev_qsbr_free_step_def qmoves)
  next
    case False
    then have "s' = qmove s i (FPush e (chain_head (qs_free2 s))) (qs_local s i)"
      using FPush step by (simp add: fev_qsbr_free_step_def qmoves)
    then show ?thesis using qmove_inv [OF inv i] FPush by simp
  qed
qed (use step in \<open>simp_all add: fev_qsbr_free_step_def\<close>)

lemma quiescent_step_inv:
  assumes inv: "qsbr_inv s" and i: "i < qs_n s" and step: "fev_qsbr_quiescent_step i s = Some s'"
  shows "qsbr_inv s'"
proof (cases "qs_pc s i")
  case QLoad
  then have "s' = qmove s i (if qs_epoch s = qs_local s i then QReturn [] else QSub (qs_epoch s)) (qs_local s i)"
    using step by (simp add: fev_qsbr_quiescent_step_def qmoves)
  then show ?thesis using qmove_inv [OF inv i] QLoad by simp
next
  case (QSub ep)
  have "qs_rem s \<ge> 1" using sub_facts(5,6) [OF inv i QSub] by (simp add: word_le_nat_alt)
  then show ?thesis
    using step QSub sub_inv [OF inv i QSub refl] by (simp add: fev_qsbr_quiescent_step_def qmoves qassert_def)
next
  case (QTake ep)
  then have "s' = qmove s i (QLoad2 ep (qs_free1 s)) (qs_local s i)"
    using step inv_shape [OF inv i] by (simp add: fev_qsbr_quiescent_step_def qmoves qassert_def)
  then show ?thesis using qmove_inv [OF inv i] QTake inv_shape [OF inv i] by simp
next
  case (QLoad2 ep fs)
  then have "s' = qmove s i (if qs_free2 s \<noteq> [] then QXchg ep fs (chain_head (qs_free2 s)) else QClear ep fs) (qs_local s i)"
    using step by (simp add: fev_qsbr_quiescent_step_def qmoves)
  then show ?thesis using qmove_inv [OF inv i] QLoad2 inv_shape [OF inv i] by simp
next
  case (QXchg ep fs x)
  show ?thesis
  proof (cases "chain_head (qs_free2 s) = x")
    case True
    then show ?thesis
      using QXchg step xchg_inv [OF inv i QXchg] inv_shape [OF inv i] by (simp add: fev_qsbr_quiescent_step_def qmoves qassert_def)
  next
    case False
    then have "s' = qmove s i (QXchg ep fs (chain_head (qs_free2 s))) (qs_local s i)"
      using QXchg step by (simp add: fev_qsbr_quiescent_step_def qmoves)
    then show ?thesis using qmove_inv [OF inv i] QXchg inv_shape [OF inv i] by simp
  qed
next
  case (QSet1 ep fs new)
  then show ?thesis using step take_over_inv [OF inv i] by (simp add: fev_qsbr_quiescent_step_def qmoves)
next
  case (QSetRem ep fs)
  then show ?thesis using step set_rem_inv [OF inv i] by (simp add: fev_qsbr_quiescent_step_def qmoves)
next
  case (QSetEpoch ep fs)
  then show ?thesis using step set_epoch_inv [OF inv i] by (simp add: fev_qsbr_quiescent_step_def qmoves)
next
  case (QClear ep fs)
  then show ?thesis using step take_over_inv [OF inv i] by (simp add: fev_qsbr_quiescent_step_def qmoves)
next
  case (QStore ep fs)
  then have "s' = qmove s i (QReturn fs) ep" using step by (simp add: fev_qsbr_quiescent_step_def qmove_local)
  then show ?thesis using qmove_inv [OF inv i] QStore by simp
next
  case (QReturn fs)
  then show ?thesis using step return_inv [OF inv i QReturn] by (simp add: fev_qsbr_quiescent_step_def qmoves)
qed (use step in \<open>simp_all add: fev_qsbr_quiescent_step_def\<close>)

interpretation qsbr: step_invariant qsbr_step "\<lambda>s. \<exists>n. 1 < n \<and> n < 2 ^ 32 \<and> s = fev_qsbr_init n" qsbr_inv
proof unfold_locales
  fix s ev s'
  assume inv: "qsbr_inv s" and "qsbr_step ev s = Some s'"
  then have i: "event_thread ev < qs_n s" and step: "qsbr_event_step ev s = Some s'" by (auto simp: qsbr_step_def split: if_splits)
  have n: "1 < qs_n s" using inv by (simp add: qsbr_inv_def qsbr_shape_def)
  show "qsbr_inv s'"
  proof (cases ev)
    case (Free i e)
    then have "s' = qmove (s\<lparr>qs_pending := add_mset e (qs_pending s),
        qs_refs := (\<lambda>j. if j = i \<or> quiescing (qs_pc s j) then qs_refs s j else insert e (qs_refs s j))\<rparr>) i (FCas e) (qs_local s i)"
        "qs_pc s i = QIdle" "e \<notin># qs_pending s"
      using step n by (simp_all add: qmoves qassert_def split: if_splits)
    then show ?thesis using free_inv [OF inv, of i e] i Free by simp
  next
    case (Quiescent i)
    then show ?thesis using step quiescent_inv [OF inv, of i] i by (simp add: qmoves split: if_splits)
  next
    case (Step i)
    then show ?thesis using step free_step_inv [OF inv, of i] quiescent_step_inv [OF inv, of i] i by (simp split: if_splits)
  qed
qed (use qsbr_inv_init in blast)

section \<open>Properties\<close>

text \<open>
  C14. Reclamation is safe, for any number of threads and in every interleaving: when \<open>fev_qsbr_quiescent\<close>
  returns entries to be given back, no thread refers to any of them any more; every entry that was freed is in
  exactly one place until it is given back, so that none is lost and none is given back twice; no assertion
  fails.
\<close>

theorem fev_qsbr_safe:
  assumes "1 < n" "n < 2 ^ 32" "run qsbr_step (fev_qsbr_init n) evs = Some s"
  shows "\<not> qs_fault s \<and>
    (\<forall>i < qs_n s. \<forall>fs. qs_pc s i = QReturn fs \<longrightarrow> (\<forall>j < qs_n s. set fs \<inter> qs_refs s j = {})) \<and>
    qs_pending s = mset (qs_free1 s) + mset (qs_free2 s) + wsum (qs_n s) in_hand (qs_pc s) \<and>
    (\<forall>e. count (qs_pending s) e \<le> 1)"
proof -
  have inv: "qsbr_inv s" using qsbr.inv_run_init [OF _ assms(3)] assms(1,2) by blast
  then have "refs_reclaimed s" by (simp add: qsbr_inv_def qsbr_refs_def)
  then have "set fs \<inter> qs_refs s j = {}" if "i < qs_n s" "qs_pc s i = QReturn fs" "j < qs_n s" for i j fs
    using that unfolding refs_reclaimed_def by force
  moreover have "\<not> qs_fault s" "qs_pending s = mset (qs_free1 s) + mset (qs_free2 s) + wsum (qs_n s) in_hand (qs_pc s)"
      "\<forall>e. count (qs_pending s) e \<le> 1"
    using inv unfolding qsbr_inv_def qsbr_shape_def qsbr_counts_def by blast+
  ultimately show ?thesis by blast
qed

text \<open>
  Whole calls of \<open>fev_qsbr_quiescent\<close> while no other thread is inside a call. A thread that has not been
  counted for the epoch is counted; the last one returns the entries of \<open>to_free1\<close>, and those of \<open>to_free2\<close>
  take their place.
\<close>

definition qsbr_idle :: "qsbr_sys \<Rightarrow> bool" where
  "qsbr_idle s \<longleftrightarrow> (\<forall>i < qs_n s. qs_pc s i = QIdle)"

lemmas qsbr_call_defs = qsbr_step_def qgoto_def qassert_def fev_qsbr_quiescent_step_def qsbr_idle_def

lemma qsbr_idle_counts:
  assumes inv: "qsbr_inv s" and idle: "qsbr_idle s"
  shows "uncounted s = {i. i < qs_n s \<and> qs_local s i \<noteq> qs_epoch s}" "unat (qs_rem s) = card (uncounted s)"
    "uncounted s = {} \<longleftrightarrow> qs_free1 s = []" "qs_pending s = mset (qs_free1 s) + mset (qs_free2 s)"
proof -
  have "\<not> coord s j" if "j < qs_n s" for j using idle that by (simp add: qsbr_idle_def coord_def)
  note f = none_facts [OF inv this]
  show "uncounted s = {i. i < qs_n s \<and> qs_local s i \<noteq> qs_epoch s}"
    using idle by (auto simp: uncounted_def counted_def qsbr_idle_def)
  have "card (uncounted s) \<le> card {..<qs_n s}" by (rule card_mono) (auto simp: uncounted_def)
  moreover have "qs_n s < 2 ^ 32" using inv by (simp add: qsbr_inv_def qsbr_shape_def)
  ultimately show "unat (qs_rem s) = card (uncounted s)" using f(1) by (simp add: unat_of_nat)
  show "uncounted s = {} \<longleftrightarrow> qs_free1 s = []" using f(2) .
  have "wsum (qs_n s) in_hand (qs_pc s) = {#}" using idle by (simp add: wsum_def qsbr_idle_def)
  then show "qs_pending s = mset (qs_free1 s) + mset (qs_free2 s)"
    using inv by (simp add: qsbr_inv_def qsbr_counts_def)
qed

definition quiescent_call :: "nat \<Rightarrow> qsbr_sys \<Rightarrow> qsbr_event list" where
  "quiescent_call i s =
     Quiescent i # replicate (if qs_local s i = qs_epoch s then 2 else if qs_rem s \<noteq> 1 then 4 else if qs_free2 s = [] then 7 else 10) (Step i)"

lemma quiescent_call_counted:
  assumes "qsbr_idle s" "i < qs_n s" "qs_local s i = qs_epoch s"
  shows "\<exists>s'. run qsbr_step s (quiescent_call i s) = Some s' \<and> qsbr_idle s' \<and> qs_pending s' = qs_pending s \<and>
    qs_free1 s' = qs_free1 s \<and> qs_free2 s' = qs_free2 s"
  using assms by (simp add: quiescent_call_def qsbr_call_defs eval_nat_numeral)

lemma quiescent_call_not_last:
  assumes "qsbr_idle s" "i < qs_n s" "qs_local s i \<noteq> qs_epoch s" "qs_rem s \<noteq> 1"
  shows "\<exists>s'. run qsbr_step s (quiescent_call i s) = Some s' \<and> qsbr_idle s' \<and> qs_pending s' = qs_pending s \<and>
    qs_free1 s' = qs_free1 s \<and> qs_free2 s' = qs_free2 s \<and> qs_rem s' = qs_rem s - 1"
  using assms by (simp add: quiescent_call_def qsbr_call_defs eval_nat_numeral)

lemma quiescent_call_last:
  assumes "qsbr_idle s" "i < qs_n s" "qs_local s i \<noteq> qs_epoch s" "qs_rem s = 1"
  shows "\<exists>s'. run qsbr_step s (quiescent_call i s) = Some s' \<and> qsbr_idle s' \<and> qs_pending s' = qs_pending s - mset (qs_free1 s) \<and>
    qs_free1 s' = qs_free2 s \<and> qs_free2 s' = []"
  using assms by (cases "qs_free2 s") (simp_all add: quiescent_call_def qsbr_call_defs chain_head_def eval_nat_numeral)

text \<open>So calls of all threads end the grace period.\<close>

lemma grace_period_ends:
  assumes "qsbr_inv s" "qsbr_idle s" "qs_free1 s \<noteq> []"
  shows "\<exists>evs s'. (\<forall>i e. Free i e \<notin> set evs) \<and> run qsbr_step s evs = Some s' \<and> qsbr_inv s' \<and> qsbr_idle s' \<and>
    qs_free1 s' = qs_free2 s \<and> qs_free2 s' = [] \<and> qs_pending s' = qs_pending s - mset (qs_free1 s)"
  using assms
proof (induction "unat (qs_rem s)" arbitrary: s rule: less_induct)
  case less
  note c = qsbr_idle_counts [OF less.prems(1,2)]
  have "uncounted s \<noteq> {}" using c(3) less.prems(3) by blast
  then obtain i where i: "i < qs_n s" "qs_local s i \<noteq> qs_epoch s" using c(1) by blast
  obtain s1 where s1: "run qsbr_step s (quiescent_call i s) = Some s1" "qsbr_idle s1"
      "qs_rem s \<noteq> 1 \<Longrightarrow> qs_pending s1 = qs_pending s \<and> qs_free1 s1 = qs_free1 s \<and> qs_free2 s1 = qs_free2 s \<and> qs_rem s1 = qs_rem s - 1"
      "qs_rem s = 1 \<Longrightarrow> qs_pending s1 = qs_pending s - mset (qs_free1 s) \<and> qs_free1 s1 = qs_free2 s \<and> qs_free2 s1 = []"
    using quiescent_call_last [OF less.prems(2) i] quiescent_call_not_last [OF less.prems(2) i] by (cases "qs_rem s = 1") auto
  have inv1: "qsbr_inv s1" using qsbr.inv_run [OF less.prems(1) s1(1)] .
  have nf: "\<forall>j e. Free j e \<notin> set (quiescent_call i s)" by (simp add: quiescent_call_def)
  show ?case
  proof (cases "qs_rem s = 1")
    case True
    then show ?thesis using s1 inv1 nf by blast
  next
    case False
    have "card (uncounted s) > 0" using i c(1) by (auto simp: card_gt_0_iff uncounted_def)
    then have "unat (qs_rem s1) < unat (qs_rem s)"
      using s1(3) [OF False] c(2) unat_minus_one [of "qs_rem s"] by (cases "qs_rem s = 0") auto
    from less.hyps [OF this inv1 s1(2)] s1(3) [OF False] less.prems(3)
    obtain evs s' where e: "\<forall>j e. Free j e \<notin> set evs" "run qsbr_step s1 evs = Some s'" "qsbr_inv s'" "qsbr_idle s'"
        "qs_free1 s' = qs_free2 s" "qs_free2 s' = []" "qs_pending s' = qs_pending s - mset (qs_free1 s)"
      by auto
    have "run qsbr_step s (quiescent_call i s @ evs) = Some s'" using s1(1) e(2) by (simp add: run_append)
    then show ?thesis using e nf by (intro exI [of _ "quiescent_call i s @ evs"] exI [of _ s']) auto
  qed
qed

text \<open>
  C15. A grace period ends. While entries wait in \<open>to_free1\<close> and no thread is inside a call, exactly
  \<open>num_remaining\<close> threads have yet to be quiescent, and there is at least one; the next call of such a thread is
  counted without giving anything back when it is not the last, and gives back the entries of \<open>to_free1\<close>
  when it is; and calls of \<open>fev_qsbr_quiescent\<close> alone lead to a state in which every entry has been given back,
  those that waited in \<open>to_free2\<close> included. Entries that wait only in \<open>to_free2\<close> (\<open>to_free1\<close> empty) are not meant:
  no call gives them back before the next \<open>fev_qsbr_free\<close> starts a grace period.
\<close>

theorem fev_qsbr_grace_period_progress:
  assumes "1 < n" "n < 2 ^ 32" "run qsbr_step (fev_qsbr_init n) evs = Some s"
    and "qsbr_idle s" "qs_free1 s \<noteq> []"
  shows "unat (qs_rem s) = card {i. i < qs_n s \<and> qs_local s i \<noteq> qs_epoch s} \<and> qs_rem s > 0 \<and>
    (\<forall>i < qs_n s. qs_local s i \<noteq> qs_epoch s \<longrightarrow>
       (\<exists>s'. run qsbr_step s (quiescent_call i s) = Some s' \<and> qsbr_idle s' \<and>
          (if qs_rem s = 1 then qs_pending s' = qs_pending s - mset (qs_free1 s) \<and> qs_free1 s' = qs_free2 s
           else qs_pending s' = qs_pending s \<and> qs_rem s' = qs_rem s - 1))) \<and>
    (\<exists>evs' s'. (\<forall>i e. Free i e \<notin> set evs') \<and> run qsbr_step s evs' = Some s' \<and> qs_pending s' = {#})"
proof -
  have inv: "qsbr_inv s" using qsbr.inv_run_init [OF _ assms(3)] assms(1,2) by blast
  note c = qsbr_idle_counts [OF inv assms(4)]
  have "uncounted s \<noteq> {}" using c(3) assms(5) by blast
  then have "card (uncounted s) > 0" by (simp add: card_gt_0_iff uncounted_def)
  then have pos: "qs_rem s > 0" using c(2) by (simp add: word_less_nat_alt)
  have call: "\<exists>s'. run qsbr_step s (quiescent_call i s) = Some s' \<and> qsbr_idle s' \<and>
          (if qs_rem s = 1 then qs_pending s' = qs_pending s - mset (qs_free1 s) \<and> qs_free1 s' = qs_free2 s
           else qs_pending s' = qs_pending s \<and> qs_rem s' = qs_rem s - 1)"
    if "i < qs_n s" "qs_local s i \<noteq> qs_epoch s" for i
    using quiescent_call_last [OF assms(4) that] quiescent_call_not_last [OF assms(4) that] by auto
  obtain e1 s1 where 1: "\<forall>i e. Free i e \<notin> set e1" "run qsbr_step s e1 = Some s1" "qsbr_inv s1" "qsbr_idle s1"
      "qs_free1 s1 = qs_free2 s" "qs_free2 s1 = []"
    using grace_period_ends [OF inv assms(4,5)] by blast
  have "\<exists>evs' s'. (\<forall>i e. Free i e \<notin> set evs') \<and> run qsbr_step s evs' = Some s' \<and> qs_pending s' = {#}"
  proof (cases "qs_free1 s1 = []")
    case True
    then have "qs_pending s1 = {#}" using qsbr_idle_counts(4) [OF 1(3,4)] 1(6) by simp
    then show ?thesis using 1 by blast
  next
    case False
    then obtain e2 s2 where 2: "\<forall>i e. Free i e \<notin> set e2" "run qsbr_step s1 e2 = Some s2" "qsbr_inv s2" "qsbr_idle s2"
        "qs_free1 s2 = []" "qs_free2 s2 = []"
      using grace_period_ends [OF 1(3,4)] 1(6) by auto
    then have "qs_pending s2 = {#}" using qsbr_idle_counts(4) [OF 2(3,4)] by simp
    moreover have "run qsbr_step s (e1 @ e2) = Some s2" using 1(2) 2(2) by (simp add: run_append)
    ultimately show ?thesis using 1(1) 2(1) by (intro exI [of _ "e1 @ e2"] exI [of _ s2]) auto
  qed
  then show ?thesis using c(1,2) pos call by simp
qed

text \<open>
  The remaining case: with \<open>to_free1\<close> empty no call changes anything, so that the entries of \<open>to_free2\<close>, if there
  are any, wait for the next \<open>fev_qsbr_free\<close>.
\<close>

lemma fev_qsbr_to_free2_waits:
  assumes "1 < n" "n < 2 ^ 32" "run qsbr_step (fev_qsbr_init n) evs = Some s"
    and "qsbr_idle s" "qs_free1 s = []" "i < qs_n s"
  shows "\<exists>s'. run qsbr_step s (quiescent_call i s) = Some s' \<and> qsbr_idle s' \<and> qs_pending s' = qs_pending s \<and>
    qs_free1 s' = [] \<and> qs_free2 s' = qs_free2 s"
proof -
  have inv: "qsbr_inv s" using qsbr.inv_run_init [OF _ assms(3)] assms(1,2) by blast
  have "qs_local s i = qs_epoch s" using qsbr_idle_counts(1,3) [OF inv assms(4)] assms(5,6) by blast
  then show ?thesis using quiescent_call_counted [OF assms(4,6)] assms(5) by auto
qed

definition two_thread_run :: "qsbr_event list" where
  "two_thread_run = Free 0 5 # replicate 5 (Step 0) @ Quiescent 1 # replicate 6 (Step 1)"

lemmas qsbr_eval = numeral_eq_Suc qsbr_step_def qgoto_def qassert_def fev_qsbr_free_step_def fev_qsbr_quiescent_step_def
  fev_qsbr_init_def chain_head_def

theorem fev_qsbr_safe_witness:
  "\<exists>s. run qsbr_step (fev_qsbr_init 2) two_thread_run = Some s \<and> qs_pc s 1 = QReturn [5] \<and> 5 \<notin> qs_refs s 0 \<and> 5 \<notin> qs_refs s 1"
proof -
  obtain s where r: "run qsbr_step (fev_qsbr_init 2) two_thread_run = Some s" "qs_pc s 1 = QReturn [5]" "qs_n s = 2"
    by (simp add: two_thread_run_def qsbr_eval)
  have t: "\<forall>i < qs_n s. \<forall>fs. qs_pc s i = QReturn fs \<longrightarrow> (\<forall>j < qs_n s. set fs \<inter> qs_refs s j = {})"
    using fev_qsbr_safe [OF _ _ r(1)] by simp
  show ?thesis using r t [rule_format, of 1 "[5]" 0] t [rule_format, of 1 "[5]" 1] by simp
qed

text \<open>An entry in each of the two lists.\<close>

definition two_entry_run :: "qsbr_event list" where
  "two_entry_run = Free 0 5 # replicate 5 (Step 0) @ Free 0 6 # replicate 3 (Step 0)"

theorem fev_qsbr_grace_period_progress_witness:
  "\<exists>s. run qsbr_step (fev_qsbr_init 2) two_entry_run = Some s \<and> qs_free1 s = [5] \<and> qs_free2 s = [6] \<and>
     (\<exists>evs' s'. (\<forall>i e. Free i e \<notin> set evs') \<and> run qsbr_step s evs' = Some s' \<and> qs_pending s' = {#})"
proof -
  obtain s where r: "run qsbr_step (fev_qsbr_init 2) two_entry_run = Some s" "qsbr_idle s" "qs_free1 s = [5]" "qs_free2 s = [6]"
    by (auto simp: two_entry_run_def qsbr_eval qsbr_idle_def)
  have "qs_free1 s \<noteq> []" using r(3) by simp
  from fev_qsbr_grace_period_progress [OF _ _ r(1,2) this]
  have "\<exists>evs' s'. (\<forall>i e. Free i e \<notin> set evs') \<and> run qsbr_step s evs' = Some s' \<and> qs_pending s' = {#}" by simp
  then show ?thesis using r by blast
qed

end
