(* ===== verification/Poller_Reactor.thy ===== *)
theory Poller_Reactor
  imports Qsbr
begin

text \<open>
  The destruction of sockets (\<open>fev_poller_reactor.c\<close>): a socket is given to the reclamation of theory \<open>Qsbr\<close>, and
  each worker frees the sockets that its quiescent states give back. With one worker a socket is freed at once.
\<close>

section \<open>The system\<close>

definition FEV_POLLER_WAKE_ALL_THRESHOLD :: u32 where "FEV_POLLER_WAKE_ALL_THRESHOLD = 64"
definition FEV_POLLER_WAKE_ALL_STEP :: u32 where "FEV_POLLER_WAKE_ALL_STEP = 32"

text \<open>What a worker does outside \<open>fev_qsbr.h\<close>: the rest of \<open>fev_poller_free_socket\<close> and of \<open>fev_poller_quiescent\<close>.\<close>

datatype pr_pc =
    RIdle
  | RAdd
  | RFreeing "nat list" u32
  | RSub u32

text \<open>
  Ghosts: the sockets whose memory is allocated, and those that were created and not destroyed. A fault is a
  double free, or a free while a worker may still refer to the socket.
\<close>

record pr_sys =
  pr_qsbr :: qsbr_sys
  pr_num :: u32 \<comment> \<open>\<open>num_sockets_to_free\<close>\<close>
  pr_pc :: "nat \<Rightarrow> pr_pc"
  pr_heap :: "nat multiset"
  pr_live :: "nat multiset"
  pr_wakes :: nat \<comment> \<open>calls of \<open>fev_sched_wake_all_workers\<close>\<close>
  pr_fault :: bool

definition pgoto :: "pr_sys \<Rightarrow> nat \<Rightarrow> pr_pc \<Rightarrow> pr_sys" where
  "pgoto s i p = s\<lparr>pr_pc := (pr_pc s)(i := p)\<rparr>"

definition free_socket_memory :: "nat \<Rightarrow> pr_sys \<Rightarrow> pr_sys" where
  "free_socket_memory e s =
     s\<lparr>pr_fault := pr_fault s \<or> e \<notin># pr_heap s \<or> (\<exists>j \<in> set [0..<qs_n (pr_qsbr s)]. e \<in> qs_refs (pr_qsbr s) j),
       pr_heap := pr_heap s - {#e#}\<rparr>"

definition fev_poller_free_socket :: "nat \<Rightarrow> nat \<Rightarrow> pr_sys \<Rightarrow> pr_sys option" where
  "fev_poller_free_socket i e s =
     (if qs_n (pr_qsbr s) = 1 then Some (free_socket_memory e s)
      else do { q \<leftarrow> qsbr_step (Free i e) (pr_qsbr s); Some (s\<lparr>pr_qsbr := q\<rparr>) })"

text \<open>One round of the loop in \<open>fev_poller_free_socket_list\<close>, which counts the sockets.\<close>

definition fev_poller_free_socket_list_step :: "nat \<Rightarrow> nat list \<Rightarrow> u32 \<Rightarrow> pr_sys \<Rightarrow> pr_sys" where
  "fev_poller_free_socket_list_step i cur n s =
     (case cur of
        [] \<Rightarrow> pgoto s i (if n > 0 then RSub n else RIdle)
      | e # next \<Rightarrow> pgoto (free_socket_memory e s) i (RFreeing next (n + 1)))"

text \<open>A step of a call of \<open>fev_qsbr_free\<close> or \<open>fev_qsbr_quiescent\<close>, and what follows its return.\<close>

definition qsbr_call_step :: "nat \<Rightarrow> pr_sys \<Rightarrow> pr_sys option" where
  "qsbr_call_step i s =
     (if qs_pc (pr_qsbr s) i = QIdle then None
      else do { q \<leftarrow> qsbr_step (Step i) (pr_qsbr s);
                Some (pgoto (s\<lparr>pr_qsbr := q\<rparr>) i
                  (if qs_pc q i \<noteq> QIdle then RIdle
                   else (case qs_pc (pr_qsbr s) i of QReturn fs \<Rightarrow> RFreeing fs 0 | _ \<Rightarrow> RAdd))) })"

definition pr_worker_step :: "nat \<Rightarrow> pr_sys \<Rightarrow> pr_sys option" where
  "pr_worker_step i s =
     (case pr_pc s i of
        RIdle \<Rightarrow> qsbr_call_step i s
      | RAdd \<Rightarrow>
          (let s' = pgoto (s\<lparr>pr_num := pr_num s + 1\<rparr>) i RIdle
           in Some (if pr_num s \<ge> FEV_POLLER_WAKE_ALL_THRESHOLD \<and> pr_num s mod FEV_POLLER_WAKE_ALL_STEP = 0
                    then s'\<lparr>pr_wakes := pr_wakes s + 1\<rparr> else s'))
      | RFreeing cur n \<Rightarrow> Some (fev_poller_free_socket_list_step i cur n s)
      | RSub n \<Rightarrow> Some (pgoto (s\<lparr>pr_num := pr_num s - n\<rparr>) i RIdle))"

text \<open>
  The events: a socket is created; a fiber on worker \<open>i\<close> destroys one, once; worker \<open>i\<close> calls
  \<open>fev_poller_quiescent\<close>; a step of worker \<open>i\<close>.
\<close>

datatype pr_event =
    PCreate nat
  | PDestroy nat nat
  | PQuiescent nat
  | PStep nat

fun pr_step :: "pr_event \<Rightarrow> pr_sys \<Rightarrow> pr_sys option" where
  "pr_step (PCreate e) s =
     (if e \<in># pr_heap s then None else Some (s\<lparr>pr_heap := add_mset e (pr_heap s), pr_live := add_mset e (pr_live s)\<rparr>))"
| "pr_step (PDestroy i e) s =
     (if i < qs_n (pr_qsbr s) \<and> pr_pc s i = RIdle \<and> qs_pc (pr_qsbr s) i = QIdle \<and> e \<in># pr_live s
      then fev_poller_free_socket i e (s\<lparr>pr_live := pr_live s - {#e#}\<rparr>) else None)"
| "pr_step (PQuiescent i) s =
     (if i < qs_n (pr_qsbr s) \<and> pr_pc s i = RIdle \<and> qs_pc (pr_qsbr s) i = QIdle
      then do { q \<leftarrow> qsbr_step (Quiescent i) (pr_qsbr s); Some (s\<lparr>pr_qsbr := q\<rparr>) } else None)"
| "pr_step (PStep i) s = (if i < qs_n (pr_qsbr s) then pr_worker_step i s else None)"

definition pr_init :: "nat \<Rightarrow> pr_sys" where
  "pr_init n =
     \<lparr>pr_qsbr = fev_qsbr_init n, pr_num = 0, pr_pc = (\<lambda>_. RIdle), pr_heap = {#}, pr_live = {#}, pr_wakes = 0, pr_fault = False\<rparr>"

text \<open>\<open>fev_poller_free_remaining_sockets\<close>, when the workers have ended.\<close>

definition fev_poller_free_remaining_sockets :: "pr_sys \<Rightarrow> pr_sys" where
  "fev_poller_free_remaining_sockets s =
     fold free_socket_memory (qs_free1 (pr_qsbr s) @ qs_free2 (pr_qsbr s)) s"

section \<open>The invariant\<close>

fun freeing :: "pr_pc \<Rightarrow> nat multiset" where
  "freeing (RFreeing es n) = mset es"
| "freeing _ = {#}"

text \<open>Sockets that are still counted although they are no longer pending, and those that are not counted yet.\<close>

fun overcount :: "pr_pc \<Rightarrow> u32" where
  "overcount (RFreeing es n) = of_nat (length es) + n"
| "overcount (RSub n) = n"
| "overcount RIdle = 0"
| "overcount RAdd = - 1"

definition in_free :: "qsbr_pc \<Rightarrow> u32" where
  "in_free p = (if p = QIdle \<or> quiescing p then 0 else 1)"

definition once :: "nat multiset \<Rightarrow> bool" where
  "once M \<longleftrightarrow> (\<forall>e. count M e \<le> 1)"

lemma once_empty [simp]: "once {#}"
  by (simp add: once_def)

lemma once_add: "once (add_mset e M) \<longleftrightarrow> e \<notin># M \<and> once M"
proof
  assume o: "once (add_mset e M)"
  have "count M e = 0" using o [unfolded once_def, rule_format, of e] by simp
  moreover have "count M x \<le> 1" for x using o [unfolded once_def, rule_format, of x] by (simp split: if_splits)
  ultimately show "e \<notin># M \<and> once M" by (simp add: once_def not_in_iff)
qed (simp add: once_def not_in_iff)

definition pr_counts :: "pr_sys \<Rightarrow> bool" where
  "pr_counts s \<longleftrightarrow>
     pr_heap s = pr_live s + qs_pending (pr_qsbr s) + wsum (qs_n (pr_qsbr s)) freeing (pr_pc s) \<and>
     once (pr_heap s)"

lemma pr_countsI:
  "pr_heap s = pr_live s + qs_pending (pr_qsbr s) + wsum (qs_n (pr_qsbr s)) freeing (pr_pc s) \<Longrightarrow> once (pr_heap s) \<Longrightarrow> pr_counts s"
  by (simp only: pr_counts_def simp_thms)

definition pr_number :: "pr_sys \<Rightarrow> bool" where
  "pr_number s \<longleftrightarrow>
     pr_num s + wsum (qs_n (pr_qsbr s)) in_free (qs_pc (pr_qsbr s)) =
       of_nat (size (qs_pending (pr_qsbr s))) + wsum (qs_n (pr_qsbr s)) overcount (pr_pc s)"

definition pr_single :: "qsbr_sys \<Rightarrow> bool" where
  "pr_single q \<longleftrightarrow> qs_n q = 1 \<and> qs_epoch q = 0 \<and> qs_local q 0 = 0 \<and> qs_free1 q = [] \<and> qs_free2 q = [] \<and> qs_pending q = {#} \<and>
     qs_refs q 0 = {} \<and> qs_pc q 0 \<in> {QIdle, QLoad, QReturn []} \<and> \<not> qs_fault q"

definition pr_inv :: "pr_sys \<Rightarrow> bool" where
  "pr_inv s \<longleftrightarrow> (qsbr_inv (pr_qsbr s) \<or> pr_single (pr_qsbr s)) \<and> \<not> pr_fault s \<and> pr_counts s \<and> pr_number s \<and>
     (\<forall>i < qs_n (pr_qsbr s). pr_pc s i \<noteq> RIdle \<longrightarrow> qs_pc (pr_qsbr s) i = QIdle)"

lemma qsbr_call_facts:
  assumes "qsbr_step (Step i) q = Some q'" "qs_pc q i \<noteq> QIdle"
  shows "qs_pc q' = (qs_pc q)(i := qs_pc q' i)" "qs_n q' = qs_n q"
    "qs_pc q i = QReturn fs \<Longrightarrow> qs_pc q' i = QIdle \<and> qs_pending q' = qs_pending q - mset fs"
    "(\<And>fs. qs_pc q i \<noteq> QReturn fs) \<Longrightarrow>
       qs_pending q' = qs_pending q \<and> in_free (qs_pc q i) = (if qs_pc q' i = QIdle then 1 else in_free (qs_pc q' i))"
proof -
  have "qsbr_event_step (Step i) q = Some q'" using assms(1) by (simp add: qsbr_step_def split: if_splits)
  then have "qs_pc q' = (qs_pc q)(i := qs_pc q' i) \<and> qs_n q' = qs_n q \<and> (\<forall>fs. qs_pc q i = QReturn fs \<longrightarrow> qs_pc q' i = QIdle \<and> qs_pending q' = qs_pending q - mset fs) \<and>
     ((\<forall>fs. qs_pc q i \<noteq> QReturn fs) \<longrightarrow> qs_pending q' = qs_pending q \<and> in_free (qs_pc q i) = (if qs_pc q' i = QIdle then 1 else in_free (qs_pc q' i)))"
    using assms(2) by (cases "qs_pc q i") (simp_all add: fev_qsbr_free_step_def fev_qsbr_quiescent_step_def qgoto_def qassert_def in_free_def split: if_splits; force)+
  then show "qs_pc q' = (qs_pc q)(i := qs_pc q' i)" "qs_n q' = qs_n q"
    "qs_pc q i = QReturn fs \<Longrightarrow> qs_pc q' i = QIdle \<and> qs_pending q' = qs_pending q - mset fs"
    "(\<And>fs. qs_pc q i \<noteq> QReturn fs) \<Longrightarrow>
       qs_pending q' = qs_pending q \<and> in_free (qs_pc q i) = (if qs_pc q' i = QIdle then 1 else in_free (qs_pc q' i))"
    by blast+
qed

lemma wsum_same: "wsum n f (g(i := x)) = wsum n f g" if "i < n" "f x = f (g i)"
  using that by (simp add: wsum_upd wsum_split [of i n f g])

lemma single_step:
  assumes "pr_single q" "qsbr_step (Step i) q = Some q'" "qs_pc q i \<noteq> QIdle"
  shows "pr_single q'"
proof -
  have "i = 0" using assms(1,2) by (auto simp: qsbr_step_def pr_single_def split: if_splits)
  then show ?thesis using assms by (auto simp: pr_single_def qsbr_step_def fev_qsbr_quiescent_step_def qgoto_def)
qed

lemma not_referred:
  assumes "qsbr_inv q \<or> pr_single q" "j < qs_n q" "e \<notin># qs_pending q"
  shows "e \<notin> qs_refs q j"
  using assms by (auto simp: qsbr_inv_def qsbr_counts_def pr_single_def)

text \<open>A socket that is neither pending nor live is freed without a fault.\<close>

lemma free_socket_memory_ok:
  assumes "qsbr_inv (pr_qsbr s) \<or> pr_single (pr_qsbr s)" "\<not> pr_fault s" "e \<in># pr_heap s" "e \<notin># qs_pending (pr_qsbr s)"
  shows "free_socket_memory e s = s\<lparr>pr_heap := pr_heap s - {#e#}\<rparr>"
  using assms not_referred [OF assms(1) _ assms(4)] by (auto simp: free_socket_memory_def)

lemma call_step_inv:
  assumes inv: "pr_inv s" and i: "i < qs_n (pr_qsbr s)" and idle: "pr_pc s i = RIdle" and step: "qsbr_call_step i s = Some s'"
  shows "pr_inv s'"
proof -
  let ?q = "pr_qsbr s"
  obtain q where q: "qs_pc ?q i \<noteq> QIdle" "qsbr_step (Step i) ?q = Some q"
    using step by (auto simp: qsbr_call_step_def split: if_splits Option.bind_splits)
  define p where "p = qs_pc q i"
  have p: "qs_pc q = (qs_pc ?q)(i := p)" "qs_n q = qs_n ?q"
      "\<And>fs. qs_pc ?q i = QReturn fs \<Longrightarrow> p = QIdle \<and> qs_pending q = qs_pending ?q - mset fs"
      "(\<And>fs. qs_pc ?q i \<noteq> QReturn fs) \<Longrightarrow> qs_pending q = qs_pending ?q \<and> in_free (qs_pc ?q i) = (if p = QIdle then 1 else in_free p)"
    using qsbr_call_facts [OF q(2,1)] by (simp_all add: p_def)
  define r where "r = (if p \<noteq> QIdle then RIdle else (case qs_pc ?q i of QReturn fs \<Rightarrow> RFreeing fs 0 | _ \<Rightarrow> RAdd))"
  have s': "s' = pgoto (s\<lparr>pr_qsbr := q\<rparr>) i r" using step q p(1) by (simp add: qsbr_call_step_def r_def)
  have ok: "qsbr_inv q \<or> pr_single q"
    using inv qsbr.inv_step [OF _ q(2)] single_step [OF _ q(2,1)] by (auto simp: pr_inv_def)
  have old: "pr_counts s" "pr_number s" "\<not> pr_fault s" using inv by (simp_all add: pr_inv_def)
  have idle': "\<forall>j < qs_n q. pr_pc s' j \<noteq> RIdle \<longrightarrow> qs_pc q j = QIdle"
    using inv p(1,2) by (auto simp: s' pgoto_def pr_inv_def r_def)
  have cn: "pr_counts s' \<and> pr_number s'"
  proof (cases "\<exists>fs. qs_pc ?q i = QReturn fs")
    case True
    then obtain fs where fs: "qs_pc ?q i = QReturn fs" by blast
    then have p': "p = QIdle" "qs_pending q = qs_pending ?q - mset fs" "r = RFreeing fs 0" using p(3) by (simp_all add: r_def)
    have sub: "mset fs \<subseteq># qs_pending ?q"
    proof (cases "qsbr_inv ?q")
      case True
      then have "qs_pending ?q = mset (qs_free1 ?q) + mset (qs_free2 ?q) + (in_hand (QReturn fs) + others (qs_n ?q) in_hand (qs_pc ?q) i)"
        using wsum_split [OF i, of in_hand "qs_pc ?q"] fs by (simp add: qsbr_inv_def qsbr_counts_def)
      then show ?thesis by simp
    next
      case False
      then have "pr_single ?q" using inv by (simp add: pr_inv_def)
      then show ?thesis using fs i by (auto simp: pr_single_def)
    qed
    then have pend: "qs_pending ?q = qs_pending q + mset fs" by (simp add: p'(2))
    then have n: "size (qs_pending ?q) = size (qs_pending q) + length fs" by simp
    have "pr_heap s' = pr_live s' + qs_pending (pr_qsbr s') + wsum (qs_n (pr_qsbr s')) freeing (pr_pc s')" using old(1) pend idle
      by (simp add: pr_counts_def s' pgoto_def p(2) p'(3) wsum_upd [OF i] wsum_split [OF i, of freeing "pr_pc s"])
    moreover have "once (pr_heap s)" using old(1) unfolding pr_counts_def by blast
    ultimately have "pr_counts s'" by (intro pr_countsI) (simp_all add: s' pgoto_def)
    moreover have "pr_number s'" using old(2) idle fs n
      by (simp add: pr_number_def s' pgoto_def p(1,2) p'(1,3) wsum_upd [OF i] wsum_split [OF i, of overcount "pr_pc s"]
          wsum_split [OF i, of in_free "qs_pc ?q"] in_free_def algebra_simps)
    ultimately show ?thesis ..
  next
    case False
    then have p': "qs_pending q = qs_pending ?q" "in_free (qs_pc ?q i) = (if p = QIdle then 1 else in_free p)" using p(4) by blast+
    have r': "freeing r = {#}" "overcount r = (if p = QIdle then - 1 else 0)"
      using False by (auto simp: r_def split: qsbr_pc.splits)
    have "pr_heap s' = pr_live s' + qs_pending (pr_qsbr s') + wsum (qs_n (pr_qsbr s')) freeing (pr_pc s')" using old(1) idle r'
      by (simp add: pr_counts_def s' pgoto_def p(2) p' wsum_upd [OF i] wsum_split [OF i, of freeing "pr_pc s"])
    moreover have "once (pr_heap s)" using old(1) unfolding pr_counts_def by blast
    ultimately have "pr_counts s'" by (intro pr_countsI) (simp_all add: s' pgoto_def)
    moreover have "pr_number s'" using old(2) idle p'(2) r'(2)
      by (simp add: pr_number_def s' pgoto_def p(1,2) p'(1) wsum_upd [OF i] wsum_split [OF i, of overcount "pr_pc s"]
          wsum_split [OF i, of in_free "qs_pc ?q"] algebra_simps split: if_splits) (simp add: in_free_def)
    ultimately show ?thesis ..
  qed
  show ?thesis using ok old(3) idle' cn p(2) by (simp add: pr_inv_def s' pgoto_def)
qed

lemma worker_step_inv:
  assumes inv: "pr_inv s" and i: "i < qs_n (pr_qsbr s)" and step: "pr_worker_step i s = Some s'"
  shows "pr_inv s'"
proof -
  have old: "qsbr_inv (pr_qsbr s) \<or> pr_single (pr_qsbr s)" "\<not> pr_fault s" "pr_number s"
      "pr_heap s = pr_live s + qs_pending (pr_qsbr s) + wsum (qs_n (pr_qsbr s)) freeing (pr_pc s)" "once (pr_heap s)"
      "\<forall>i < qs_n (pr_qsbr s). pr_pc s i \<noteq> RIdle \<longrightarrow> qs_pc (pr_qsbr s) i = QIdle"
    using inv unfolding pr_inv_def pr_counts_def by blast+
  have idle: "qs_pc (pr_qsbr s) i = QIdle" if "pr_pc s i \<noteq> RIdle" using old(6) i that by blast
  note sums = wsum_upd [OF i] wsum_split [OF i, of freeing "pr_pc s"] wsum_split [OF i, of overcount "pr_pc s"]
  have move: "pr_inv s'"
    if s': "s' = (s\<lparr>pr_num := k, pr_wakes := w\<rparr>)\<lparr>pr_pc := (pr_pc s)(i := r)\<rparr>" and nf: "freeing r = freeing (pr_pc s i)"
      and num: "k - overcount r = pr_num s - overcount (pr_pc s i)" and idle': "r \<noteq> RIdle \<Longrightarrow> pr_pc s i \<noteq> RIdle" for k w r
  proof -
    have "pr_counts s'" by (rule pr_countsI) (use old(4,5) nf in \<open>simp_all add: s' wsum_same [OF i]\<close>)
    moreover have "pr_number s'"
    proof -
      have k: "k = pr_num s - overcount (pr_pc s i) + overcount r" using num by (metis diff_add_cancel)
      have n: "pr_num s = of_nat (size (qs_pending (pr_qsbr s))) + (overcount (pr_pc s i) + others (qs_n (pr_qsbr s)) overcount (pr_pc s) i) -
          wsum (qs_n (pr_qsbr s)) in_free (qs_pc (pr_qsbr s))"
        using old(3) by (simp add: pr_number_def sums flip: eq_diff_eq)
      show ?thesis by (simp add: pr_number_def s' sums k n)
    qed
    ultimately show ?thesis using old(1,2,6) idle' by (auto simp: pr_inv_def s')
  qed
  show ?thesis
  proof (cases "pr_pc s i")
    case RIdle
    then show ?thesis using step call_step_inv [OF inv i] by (simp add: pr_worker_step_def)
  next
    case RAdd
    then show ?thesis
      by (intro move [where k = "pr_num s + 1" and w = "pr_wakes s'" and r = RIdle]) (use step in \<open>auto simp: pr_worker_step_def pgoto_def Let_def split: if_splits\<close>)
  next
    case (RSub n)
    then show ?thesis
      by (intro move [where k = "pr_num s - n" and w = "pr_wakes s" and r = RIdle]) (use step in \<open>auto simp: pr_worker_step_def pgoto_def\<close>)
  next
    case (RFreeing cur n)
    show ?thesis
    proof (cases cur)
      case Nil
      then show ?thesis
        by (intro move [where k = "pr_num s" and w = "pr_wakes s" and r = "if n > 0 then RSub n else RIdle"])
          (use step RFreeing in \<open>auto simp: pr_worker_step_def fev_poller_free_socket_list_step_def pgoto_def word_greater_zero_iff\<close>)
    next
      case (Cons e es)
      have h: "pr_heap s = add_mset e (pr_live s + qs_pending (pr_qsbr s) + mset es + others (qs_n (pr_qsbr s)) freeing (pr_pc s) i)"
        using old(4) RFreeing Cons by (simp add: sums)
      have e: "e \<in># pr_heap s" using h by simp
      have "e \<notin># pr_live s + qs_pending (pr_qsbr s) + mset es + others (qs_n (pr_qsbr s)) freeing (pr_pc s) i"
          "once (pr_live s + qs_pending (pr_qsbr s) + mset es + others (qs_n (pr_qsbr s)) freeing (pr_pc s) i)"
        using old(5) unfolding h once_add by blast+
      note fresh = this
      then have np: "e \<notin># qs_pending (pr_qsbr s)" by simp
      have s': "s' = s\<lparr>pr_heap := pr_heap s - {#e#}, pr_pc := (pr_pc s)(i := RFreeing es (n + 1))\<rparr>"
        using step RFreeing Cons free_socket_memory_ok [OF old(1,2) e np]
        by (simp add: pr_worker_step_def fev_poller_free_socket_list_step_def pgoto_def)
      have "pr_counts s'"
      proof (rule pr_countsI)
        show "pr_heap s' = pr_live s' + qs_pending (pr_qsbr s') + wsum (qs_n (pr_qsbr s')) freeing (pr_pc s')"
          using h by (simp add: s' sums ac_simps)
        show "once (pr_heap s')" using fresh(2) h by (simp add: s')
      qed
      moreover have "pr_number s'" using old(3) RFreeing Cons by (simp add: pr_number_def s' sums algebra_simps)
      ultimately show ?thesis using old(1,2,6) idle RFreeing by (auto simp: pr_inv_def s')
    qed
  qed
qed

interpretation pr: step_invariant pr_step "\<lambda>s. \<exists>n. 0 < n \<and> n < 2 ^ 32 \<and> s = pr_init n" pr_inv
proof
  fix s assume "\<exists>n. 0 < n \<and> n < 2 ^ 32 \<and> s = pr_init n"
  then obtain n where n: "0 < n" "n < 2 ^ 32" "s = pr_init n" by blast
  have "qsbr_inv (fev_qsbr_init n) \<or> pr_single (fev_qsbr_init n)"
    using n qsbr_inv_init [of n] by (cases "n = 1") (auto simp: pr_single_def fev_qsbr_init_def)
  then show "pr_inv s" using n(3)
    by (simp add: pr_inv_def pr_counts_def pr_number_def pr_init_def wsum_0 in_free_def) (simp add: fev_qsbr_init_def wsum_0 in_free_def)
next
  fix s t s' assume inv: "pr_inv s" and step: "pr_step t s = Some s'"
  have old: "qsbr_inv (pr_qsbr s) \<or> pr_single (pr_qsbr s)" "\<not> pr_fault s" "pr_number s"
      "pr_heap s = pr_live s + qs_pending (pr_qsbr s) + wsum (qs_n (pr_qsbr s)) freeing (pr_pc s)" "once (pr_heap s)"
      "\<forall>i < qs_n (pr_qsbr s). pr_pc s i \<noteq> RIdle \<longrightarrow> qs_pc (pr_qsbr s) i = QIdle"
    using inv unfolding pr_inv_def pr_counts_def by blast+
  show "pr_inv s'"
  proof (cases t)
    case (PCreate e)
    then have s': "s' = s\<lparr>pr_heap := add_mset e (pr_heap s), pr_live := add_mset e (pr_live s)\<rparr>" "e \<notin># pr_heap s"
      using step by (auto split: if_splits)
    have "pr_counts s'"
    proof (rule pr_countsI)
      show "pr_heap s' = pr_live s' + qs_pending (pr_qsbr s') + wsum (qs_n (pr_qsbr s')) freeing (pr_pc s')" using old(4) by (simp add: s')
      show "once (pr_heap s')" using old(5) s'(2) by (simp add: s'(1) once_add)
    qed
    then show ?thesis using old(1,2,3,6) by (simp add: pr_inv_def pr_number_def s'(1))
  next
    case (PQuiescent i)
    then obtain q where q: "qsbr_step (Quiescent i) (pr_qsbr s) = Some q" "s' = s\<lparr>pr_qsbr := q\<rparr>"
        and i: "i < qs_n (pr_qsbr s)" "pr_pc s i = RIdle" "qs_pc (pr_qsbr s) i = QIdle"
      using step by (auto split: if_splits Option.bind_splits)
    have q': "q = qgoto ((pr_qsbr s)\<lparr>qs_refs := (qs_refs (pr_qsbr s))(i := {})\<rparr>) i QLoad" using q(1) i by (simp add: qsbr_step_def)
    have "qsbr_inv q \<or> pr_single q" using old(1) qsbr.inv_step [OF _ q(1)] i by (auto simp: pr_single_def q' qgoto_def)
    moreover have "pr_counts s'" by (rule pr_countsI) (use old(4,5) in \<open>simp_all add: q(2) q' qgoto_def\<close>)
    moreover have "pr_number s'" using old(3) i by (simp add: pr_number_def q(2) q' qgoto_def wsum_same in_free_def)
    ultimately show ?thesis using old(2,6) i by (auto simp: pr_inv_def q(2)) (auto simp: q' qgoto_def)
  next
    case (PStep i)
    then show ?thesis using step worker_step_inv [OF inv] by (simp split: if_splits)
  next
    case (PDestroy i e)
    have i: "i < qs_n (pr_qsbr s)" "pr_pc s i = RIdle" "qs_pc (pr_qsbr s) i = QIdle" "e \<in># pr_live s"
        and free: "fev_poller_free_socket i e (s\<lparr>pr_live := pr_live s - {#e#}\<rparr>) = Some s'"
      using step PDestroy by (auto split: if_splits)
    define L where "L = pr_live s - {#e#}"
    have l: "pr_live s = add_mset e L" using i(4) by (simp add: L_def)
    have h: "pr_heap s = add_mset e (L + qs_pending (pr_qsbr s) + wsum (qs_n (pr_qsbr s)) freeing (pr_pc s))" using old(4) l by simp
    have fresh: "e \<notin># L + qs_pending (pr_qsbr s) + wsum (qs_n (pr_qsbr s)) freeing (pr_pc s)"
        "once (L + qs_pending (pr_qsbr s) + wsum (qs_n (pr_qsbr s)) freeing (pr_pc s))"
      using old(5) unfolding h once_add by blast+
    then have np: "e \<notin># qs_pending (pr_qsbr s)" by simp
    show ?thesis
    proof (cases "qs_n (pr_qsbr s) = 1")
      case True
      then have s': "s' = s\<lparr>pr_live := L, pr_heap := pr_heap s - {#e#}\<rparr>"
        using free free_socket_memory_ok [of "s\<lparr>pr_live := L\<rparr>" e] old(1,2) h np by (simp add: fev_poller_free_socket_def L_def)
      have "pr_counts s'"
      proof (rule pr_countsI)
        show "pr_heap s' = pr_live s' + qs_pending (pr_qsbr s') + wsum (qs_n (pr_qsbr s')) freeing (pr_pc s')" using h by (simp add: s')
        show "once (pr_heap s')" using fresh(2) h by (simp add: s')
      qed
      then show ?thesis using old(1,2,3,6) by (simp add: pr_inv_def pr_number_def s')
    next
      case False
      then obtain q where q: "qsbr_step (Free i e) (pr_qsbr s) = Some q" "s' = s\<lparr>pr_live := L, pr_qsbr := q\<rparr>"
        using free by (auto simp: fev_poller_free_socket_def L_def split: Option.bind_splits)
      have qi: "qsbr_inv (pr_qsbr s)" using old(1) False by (auto simp: pr_single_def)
      have q': "qs_pending q = add_mset e (qs_pending (pr_qsbr s))" "qs_n q = qs_n (pr_qsbr s)" "qs_pc q = (qs_pc (pr_qsbr s))(i := FCas e)"
        using q(1) by (auto simp: qsbr_step_def qgoto_def qassert_def split: if_splits)
      have "pr_counts s'" by (rule pr_countsI) (use h old(5) in \<open>simp_all add: q(2) q'\<close>)
      moreover have "pr_number s'" using old(3) i(3)
        by (simp add: pr_number_def q(2) q' wsum_upd [OF i(1)] wsum_split [OF i(1), of in_free "qs_pc (pr_qsbr s)"] in_free_def algebra_simps)
      ultimately show ?thesis using old(2,6) i qsbr.inv_step [OF qi q(1)] by (auto simp: pr_inv_def q(2)) (auto simp: q')
    qed
  qed
qed

section \<open>Properties\<close>

lemma free_all_memory:
  assumes "\<not> pr_fault s" "pr_heap s = L + mset es" "\<And>e j. e \<in> set es \<Longrightarrow> j < qs_n (pr_qsbr s) \<Longrightarrow> e \<notin> qs_refs (pr_qsbr s) j"
  shows "fold free_socket_memory es s = s\<lparr>pr_heap := L\<rparr>"
  using assms
proof (induction es arbitrary: s)
  case (Cons e es)
  have "free_socket_memory e s = s\<lparr>pr_heap := L + mset es\<rparr>" using Cons.prems by (auto simp: free_socket_memory_def)
  moreover have "fold free_socket_memory es (s\<lparr>pr_heap := L + mset es\<rparr>) = s\<lparr>pr_heap := L\<rparr>"
    using Cons.IH [of "s\<lparr>pr_heap := L + mset es\<rparr>"] Cons.prems by simp
  ultimately show ?case by simp
qed simp

text \<open>
  C10. Destroying sockets, for any number of workers and in every interleaving: the memory of a socket is freed
  only when no worker can refer to it any more, and only once; a destroyed socket is pending or being freed until
  then, so that none is lost; and when the workers are at rest, \<open>num_sockets_to_free\<close> is the number of destroyed
  sockets that are not freed, modulo \<open>2 ^ 32\<close>, and \<open>fev_poller_free_remaining_sockets\<close> frees exactly these
  (which nobody refers to when all workers have ended).
\<close>

theorem fev_poller_sockets_freed_once:
  assumes "0 < n" "n < 2 ^ 32" "run pr_step (pr_init n) evs = Some s"
  shows "\<not> pr_fault s \<and> (\<forall>e. count (pr_heap s) e \<le> 1) \<and>
    pr_heap s = pr_live s + qs_pending (pr_qsbr s) + wsum (qs_n (pr_qsbr s)) freeing (pr_pc s) \<and>
    ((\<forall>i < qs_n (pr_qsbr s). pr_pc s i = RIdle \<and> qs_pc (pr_qsbr s) i = QIdle) \<longrightarrow>
       pr_num s = of_nat (size (pr_heap s - pr_live s)) \<and>
       ((\<forall>i < qs_n (pr_qsbr s). qs_refs (pr_qsbr s) i = {}) \<longrightarrow>
          fev_poller_free_remaining_sockets s = s\<lparr>pr_heap := pr_live s\<rparr>))"
proof -
  have inv: "pr_inv s" using pr.inv_run_init [OF _ assms(3)] assms(1,2) by blast
  have old: "qsbr_inv (pr_qsbr s) \<or> pr_single (pr_qsbr s)" "\<not> pr_fault s" "pr_number s"
      "pr_heap s = pr_live s + qs_pending (pr_qsbr s) + wsum (qs_n (pr_qsbr s)) freeing (pr_pc s)" "once (pr_heap s)"
    using inv unfolding pr_inv_def pr_counts_def by blast+
  have "pr_num s = of_nat (size (pr_heap s - pr_live s)) \<and>
       ((\<forall>i < qs_n (pr_qsbr s). qs_refs (pr_qsbr s) i = {}) \<longrightarrow> fev_poller_free_remaining_sockets s = s\<lparr>pr_heap := pr_live s\<rparr>)"
    if rest: "\<forall>i < qs_n (pr_qsbr s). pr_pc s i = RIdle \<and> qs_pc (pr_qsbr s) i = QIdle"
  proof -
    have f: "wsum (qs_n (pr_qsbr s)) freeing (pr_pc s) = {#}" "wsum (qs_n (pr_qsbr s)) overcount (pr_pc s) = 0"
        "wsum (qs_n (pr_qsbr s)) in_free (qs_pc (pr_qsbr s)) = 0" "wsum (qs_n (pr_qsbr s)) in_hand (qs_pc (pr_qsbr s)) = {#}"
      using rest by (simp_all add: wsum_0 in_free_def)
    have p: "qs_pending (pr_qsbr s) = mset (qs_free1 (pr_qsbr s)) + mset (qs_free2 (pr_qsbr s))"
      using old(1) f(4) by (auto simp: qsbr_inv_def qsbr_counts_def pr_single_def)
    have h: "pr_heap s = pr_live s + qs_pending (pr_qsbr s)" using old(4) f(1) by simp
    have "fev_poller_free_remaining_sockets s = s\<lparr>pr_heap := pr_live s\<rparr>" if "\<forall>i < qs_n (pr_qsbr s). qs_refs (pr_qsbr s) i = {}"
      unfolding fev_poller_free_remaining_sockets_def by (rule free_all_memory [OF old(2)]) (use that h p in simp_all)
    moreover have "pr_num s = of_nat (size (pr_heap s - pr_live s))" using old(3) f(2,3) h by (simp add: pr_number_def)
    ultimately show ?thesis by blast
  qed
  then show ?thesis using old(2,4,5) unfolding once_def by blast
qed

text \<open>Worker 0 destroys socket 5; worker 1 is quiescent, and frees it.\<close>

definition two_worker_run :: "pr_event list" where
  "two_worker_run = PCreate 5 # PCreate 6 # PDestroy 0 5 # replicate 6 (PStep 0) @ PQuiescent 1 # replicate 10 (PStep 1)"

theorem fev_poller_sockets_freed_once_witness:
  "\<exists>s. run pr_step (pr_init 2) two_worker_run = Some s \<and> \<not> pr_fault s \<and> pr_live s = {#6#} \<and> pr_heap s = {#6#} \<and> pr_num s = 0"
proof -
  have two: "\<And>P. (\<forall>i < Suc (Suc 0). P i) \<longleftrightarrow> P 0 \<and> P (Suc 0)" by (auto simp: less_Suc_eq)
  have low: "FEV_POLLER_WAKE_ALL_THRESHOLD \<noteq> 0" by (simp add: FEV_POLLER_WAKE_ALL_THRESHOLD_def)
  obtain s where s: "run pr_step (pr_init 2) two_worker_run = Some s" "pr_live s = {#6#}" "pr_heap s = {#6#}"
      "\<forall>i < qs_n (pr_qsbr s). pr_pc s i = RIdle \<and> qs_pc (pr_qsbr s) i = QIdle"
    by (simp add: two low two_worker_run_def pr_init_def pr_worker_step_def qsbr_call_step_def fev_poller_free_socket_def free_socket_memory_def
        fev_poller_free_socket_list_step_def pgoto_def Let_def qsbr_eval)
  then show ?thesis using fev_poller_sockets_freed_once [OF _ _ s(1)] by simp
qed

end
