(* ===== verification/Socket.thy ===== *)
theory Socket
  imports Poller
begin

text \<open>
  Sockets over a reactor (\<open>fev_socket_reactor.c\<close>): the plain operations, and the blocking operations on the two
  ends of a socket as a concurrent system with the workers that process events, the timers and the kernel.
\<close>

unbundle bit_operations_syntax

definition EEXIST :: int where "EEXIST = 17"
definition ENOENT :: int where "ENOENT = 2"
definition EINPROGRESS :: int where "EINPROGRESS = 115"

lemmas [errno_defs] = EEXIST_def ENOENT_def EINPROGRESS_def

section \<open>The plain operations\<close>

text \<open>
  The results of the system calls, and \<open>errno\<close> where they fail, are arguments. An operation that opens or closes
  descriptors also returns the set of open descriptors.
\<close>

definition zero_waiter :: fev_waiter where
  "zero_waiter = \<lparr>w_reason = 0, w_do_wake = 0, w_wake_reason = 0, w_wait_for_post = 0, w_wait_for_wake = 0, w_fiber = 0\<rparr>"

definition fev_socket_init :: fev_socket where
  "fev_socket_init =
     \<lparr>sk_read_end = \<lparr>se_waiter = zero_waiter, se_active = False\<rparr>,
      sk_write_end = \<lparr>se_waiter = zero_waiter, se_active = False\<rparr>, sk_fd = - 1, sk_error = 0\<rparr>"

definition fev_socket_create :: "bool \<Rightarrow> int + fev_socket" where
  "fev_socket_create mem_ok = (if mem_ok then Inr fev_socket_init else Inl (- ENOMEM))"

definition fev_socket_native_handle :: "fev_socket \<Rightarrow> int" where
  "fev_socket_native_handle socket = sk_fd socket"

text \<open>\<open>setsockopt\<close>, \<open>bind\<close>, \<open>listen\<close> and \<open>ioctl\<close> are called on the descriptor and their errors passed on.\<close>

definition call_result :: "int \<Rightarrow> int \<Rightarrow> int" where
  "call_result ret errno = (if ret = 0 then 0 else - errno)"

definition fev_set_nonblock :: "(int \<Rightarrow> int \<times> int) \<Rightarrow> int \<Rightarrow> int" where
  "fev_set_nonblock ioctl fd = (case ioctl fd of (ret, errno) \<Rightarrow> call_result ret errno)"

definition fev_socket_set_opt :: "(int \<Rightarrow> int \<times> int) \<Rightarrow> fev_socket \<Rightarrow> int" where
  "fev_socket_set_opt setsockopt socket = (case setsockopt (sk_fd socket) of (ret, errno) \<Rightarrow> call_result ret errno)"

definition fev_socket_bind :: "(int \<Rightarrow> int \<times> int) \<Rightarrow> fev_socket \<Rightarrow> int" where
  "fev_socket_bind bind_call socket = (case bind_call (sk_fd socket) of (ret, errno) \<Rightarrow> call_result ret errno)"

definition fev_socket_listen :: "(int \<Rightarrow> int \<times> int) \<Rightarrow> fev_socket \<Rightarrow> int" where
  "fev_socket_listen listen_call socket = (case listen_call (sk_fd socket) of (ret, errno) \<Rightarrow> call_result ret errno)"

text \<open>\<open>accept\<close> without \<open>accept4\<close>: a descriptor that cannot be made non-blocking is closed.\<close>

definition fev_accept_nonblock :: "(int \<Rightarrow> int \<times> int) \<Rightarrow> (int \<Rightarrow> int \<times> int) \<Rightarrow> bool \<Rightarrow> int \<Rightarrow> int set \<Rightarrow> int \<times> int set" where
  "fev_accept_nonblock accept ioctl have_accept4 fd fds =
     (case accept fd of (new_fd, errno) \<Rightarrow>
        if new_fd < 0 then (- errno, fds)
        else if have_accept4 then (new_fd, insert new_fd fds)
        else let ret = fev_set_nonblock ioctl new_fd
             in if ret \<noteq> 0 then (ret, fds) else (new_fd, insert new_fd fds))"

definition fev_socket_open :: "int \<times> int \<Rightarrow> (int \<Rightarrow> int \<times> int) \<Rightarrow> fev_socket \<Rightarrow> int set \<Rightarrow> int \<times> fev_socket \<times> int set" where
  "fev_socket_open socket_call ioctl sock fds =
     (case socket_call of (fd, errno) \<Rightarrow>
        if fd < 0 then (- errno, sock, fds)
        else let ret = fev_set_nonblock ioctl fd
             in if ret \<noteq> 0 then (ret, sock, fds) else (0, sock\<lparr>sk_fd := fd\<rparr>, insert fd fds))"

definition fev_socket_close :: "(int \<Rightarrow> int \<times> int) \<Rightarrow> fev_socket \<Rightarrow> int set \<Rightarrow> int \<times> fev_socket \<times> int set" where
  "fev_socket_close close_call socket fds =
     (if sk_fd socket \<noteq> - 1
      then (case close_call (sk_fd socket) of (ret, errno) \<Rightarrow>
              if ret < 0 then (- errno, socket, fds) else (0, socket\<lparr>sk_fd := - 1\<rparr>, fds - {sk_fd socket}))
      else (0, socket, fds))"

text \<open>A descriptor that was opened is closed again, and none is left open after an error.\<close>

lemma fev_socket_open_close:
  assumes "fd \<ge> 0 \<Longrightarrow> fd \<notin> fds" "fev_socket_open (fd, errno) ioctl sock fds = (r, sock', fds')"
  shows "if r = 0 \<and> fd \<ge> 0 then fds' = insert fd fds \<and> fev_socket_close (\<lambda>_. (0, 0)) sock' fds' = (0, sock\<lparr>sk_fd := - 1\<rparr>, fds)
    else sock' = sock \<and> fds' = fds"
  using assms by (auto simp: fev_socket_open_def fev_socket_close_def Let_def split: if_splits)

section \<open>The blocking operations\<close>

text \<open>
  The four operations: the result of the system call is a value to return (\<open>Inr\<close>) or an error (\<open>Inl\<close>). For
  \<open>accept\<close> it is that of \<open>fev_accept_nonblock\<close>, which is stored into the new socket.
\<close>

datatype sock_op = Accept | Connect | Read | Write

datatype sock_end = Rd | Wr

fun op_end :: "sock_op \<Rightarrow> sock_end" where
  "op_end Accept = Rd"
| "op_end Connect = Wr"
| "op_end Read = Rd"
| "op_end Write = Wr"

fun end_flag :: "sock_end \<Rightarrow> u32" where
  "end_flag Rd = EPOLLIN"
| "end_flag Wr = EPOLLOUT"

fun op_result :: "sock_op \<Rightarrow> int \<Rightarrow> int \<Rightarrow> int + int" where
  "op_result Accept ret errno = (if ret \<ge> 0 then Inr 0 else Inl ret)"
| "op_result Connect ret errno = (if ret = 0 then Inr 0 else Inl (if errno = EINPROGRESS then - EAGAIN else - errno))"
| "op_result Read n errno = (if n \<ge> 0 then Inr n else Inl (- errno))"
| "op_result Write n errno = (if n \<ge> 0 then Inr n else Inl (- errno))"

fun get_end :: "sock_end \<Rightarrow> fev_socket \<Rightarrow> fev_socket_end" where
  "get_end Rd k = sk_read_end k"
| "get_end Wr k = sk_write_end k"

fun set_end :: "sock_end \<Rightarrow> fev_socket_end \<Rightarrow> fev_socket \<Rightarrow> fev_socket" where
  "set_end Rd x k = k\<lparr>sk_read_end := x\<rparr>"
| "set_end Wr x k = k\<lparr>sk_write_end := x\<rparr>"

text \<open>
  The control points of \<open>FEV_GEN_SOCKET_OP\<close> and \<open>FEV_GEN_SOCKET_OP_TIMEOUT\<close>, of \<open>fev_timed_wait\<close> (\<open>OAdd\<close>) and of
  \<open>fev_waiter_wait\<close> and \<open>fev_waiter_enable_wake_ups\<close> (\<open>OWait\<close> to \<open>OSusp\<close>).
\<close>

datatype op_pc =
    OIdle
  | OStore
  | OOp
  | ORegister
  | OCtl epoll_op u32
  | OActivate
  | OCheck
  | OAdd
  | OWait
  | ODoWake
  | OLoad
  | OXchg u32
  | OPost bool
  | OSusp

text \<open>
  A worker in \<open>fev_process_socket\<close> with the flags of its event, and whoever wakes the fiber of an end because of
  its timer, with the reason: \<open>fev_process_timer_fd\<close> or \<open>fev_timers_wake_expired\<close>, which exclude one another by the
  locks of the bucket. The store of \<open>wake_reason\<close> and the insertion into the list of fibers belong to the step
  of the exchange: nobody reads \<open>wake_reason\<close> before the fiber runs.
\<close>

datatype ev_pc =
    VIdle
  | VErr u32
  | VCas u32 sock_end
  | VXchg u32 sock_end

datatype tm_pc =
    TIdle
  | TCas u32
  | TXchg u32

text \<open>
  The kernel: the mask with which the descriptor is registered, if it is; which ends are ready; whether the
  connection is hung up or broken; whether \<open>epoll_wait\<close> has an event for the descriptor. A ghost tells whether the
  socket was closed and opened again.
\<close>

record sock_sys =
  so_socket :: fev_socket
  so_pc :: "sock_end \<Rightarrow> op_pc"
  so_op :: "sock_end \<Rightarrow> sock_op"
  so_timed :: "sock_end \<Rightarrow> bool"
  so_fiber :: "sock_end \<Rightarrow> fiber_ptr"
  so_woken :: "sock_end \<Rightarrow> bool"
  so_timer :: "sock_end \<Rightarrow> bool"
  so_result :: "sock_end \<Rightarrow> int option"
  so_worker :: "nat \<Rightarrow> ev_pc"
  so_tmr :: "sock_end \<Rightarrow> tm_pc"
  so_fault :: bool
  so_mask :: "u32 option"
  so_ready :: "sock_end \<Rightarrow> bool"
  so_hup :: bool
  so_pending :: bool
  so_reopened :: bool

abbreviation so_waiter :: "sock_sys \<Rightarrow> sock_end \<Rightarrow> fev_waiter" where
  "so_waiter s e \<equiv> se_waiter (get_end e (so_socket s))"

abbreviation so_active :: "sock_sys \<Rightarrow> sock_end \<Rightarrow> bool" where
  "so_active s e \<equiv> se_active (get_end e (so_socket s))"

definition ogoto :: "sock_sys \<Rightarrow> sock_end \<Rightarrow> op_pc \<Rightarrow> sock_sys" where
  "ogoto s e p = s\<lparr>so_pc := (so_pc s)(e := p)\<rparr>"

definition vgoto :: "sock_sys \<Rightarrow> nat \<Rightarrow> ev_pc \<Rightarrow> sock_sys" where
  "vgoto s i p = s\<lparr>so_worker := (so_worker s)(i := p)\<rparr>"

definition sassert :: "bool \<Rightarrow> sock_sys \<Rightarrow> sock_sys" where
  "sassert b s = s\<lparr>so_fault := so_fault s \<or> \<not> b\<rparr>"

definition set_waiter :: "sock_end \<Rightarrow> fev_waiter \<Rightarrow> sock_sys \<Rightarrow> sock_sys" where
  "set_waiter e w s = s\<lparr>so_socket := set_end e ((get_end e (so_socket s))\<lparr>se_waiter := w\<rparr>) (so_socket s)\<rparr>"

definition oreturn :: "sock_sys \<Rightarrow> sock_end \<Rightarrow> int \<Rightarrow> sock_sys" where
  "oreturn s e v = (ogoto s e OIdle)\<lparr>so_result := (so_result s)(e := Some v)\<rparr>"

text \<open>What \<open>epoll_wait\<close> reports.\<close>

definition event_flags :: "sock_sys \<Rightarrow> u32 \<Rightarrow> u32" where
  "event_flags s msk =
     (if so_ready s Rd then msk AND EPOLLIN else 0) OR (if so_ready s Wr then msk AND EPOLLOUT else 0) OR
     (if so_hup s then EPOLLRDHUP OR EPOLLHUP else 0)"

text \<open>
  \<open>epoll_ctl\<close>: adding a registered descriptor fails, as does modifying an unregistered one; it may fail for other
  reasons (\<open>err \<noteq> 0\<close>). With a mask for which the socket is ready there is an event at once.
\<close>

definition epoll_ctl :: "epoll_op \<Rightarrow> u32 \<Rightarrow> int \<Rightarrow> sock_sys \<Rightarrow> int \<times> sock_sys" where
  "epoll_ctl op msk err s =
     (if op = EPOLL_CTL_ADD \<and> so_mask s \<noteq> None then (- EEXIST, s)
      else if op = EPOLL_CTL_MOD \<and> so_mask s = None then (- ENOENT, s)
      else if err \<noteq> 0 then (err, s)
      else (0, s\<lparr>so_mask := Some msk, so_pending := so_pending s \<or> event_flags s msk \<noteq> 0\<rparr>))"

text \<open>
  One step of the fiber at the end \<open>e\<close>. The arguments are what the environment decides: the result of the system
  call and \<open>errno\<close>, and whether the end stays ready after it. A system call would block exactly when the end is
  not ready.
\<close>

definition op_step :: "sock_end \<Rightarrow> int \<Rightarrow> int \<Rightarrow> bool \<Rightarrow> sock_sys \<Rightarrow> sock_sys option" where
  "op_step e ret errno stays s =
     (let w = so_waiter s e in
      case so_pc s e of
        OIdle \<Rightarrow> None
      | OStore \<Rightarrow> Some (ogoto (set_waiter e (w\<lparr>w_reason := FEV_WAITER_NONE\<rparr>) s) e OOp)
      | OOp \<Rightarrow>
          (case op_result (so_op s e) ret errno of
             Inr v \<Rightarrow>
               if so_ready s e then Some (oreturn (s\<lparr>so_ready := (so_ready s)(e := stays)\<rparr>) e v) else None
           | Inl err \<Rightarrow>
               if err = - EAGAIN
               then if so_ready s e then None
                    else Some (ogoto (set_waiter e (w\<lparr>w_fiber := so_fiber s e\<rparr>) s) e (if so_active s e then OCheck else ORegister))
               else Some (oreturn s e err))
      | ORegister \<Rightarrow>
          (case fev_poller_register (so_socket s) (end_flag e) (\<lambda>op fd msk. OCtl op msk) of
             None \<Rightarrow> Some (sassert False s)
           | Some pc \<Rightarrow> Some (ogoto s e pc))
      | OCtl op msk \<Rightarrow>
          (case epoll_ctl op msk ret s of (err, s') \<Rightarrow>
             Some (if err \<noteq> 0 then oreturn s' e err else ogoto s' e OActivate))
      | OActivate \<Rightarrow>
          Some (ogoto (s\<lparr>so_socket := set_end e ((get_end e (so_socket s))\<lparr>se_active := True\<rparr>) (so_socket s)\<rparr>) e OCheck)
      | OCheck \<Rightarrow>
          Some (if sk_error (so_socket s) \<noteq> 0 then oreturn (sassert (w_do_wake w = 0) s) e (- ECONNRESET)
                else ogoto (sassert (w_do_wake w = 0) s) e (if so_timed s e then OAdd else OWait))
      | OAdd \<Rightarrow>
          Some (if ret = - ENOMEM then oreturn (sassert (w_do_wake w = 0) s) e (- ENOMEM)
                else ogoto ((sassert (w_do_wake w = 0) s)\<lparr>so_timer := (so_timer s)(e := True)\<rparr>) e OWait)
      | OWait \<Rightarrow>
          Some (ogoto (set_waiter e (w\<lparr>w_wait_for_post := 1\<rparr>) (sassert (w_do_wake w = 0 \<and> w_fiber w \<noteq> 0) s)) e ODoWake)
      | ODoWake \<Rightarrow> Some (ogoto (set_waiter e (w\<lparr>w_do_wake := 1\<rparr>) s) e OLoad)
      | OLoad \<Rightarrow> Some (ogoto s e (if w_reason w \<noteq> 0 then OXchg (w_reason w) else OPost False))
      | OXchg r \<Rightarrow>
          Some (if w_do_wake w \<noteq> 0 then ogoto (set_waiter e (w\<lparr>w_do_wake := 0, w_wake_reason := r\<rparr>) s) e (OPost True)
                else ogoto (set_waiter e (w\<lparr>w_do_wake := 0\<rparr>) s) e (OPost False))
      | OPost b \<Rightarrow>
          Some (ogoto ((sassert (b \<longrightarrow> \<not> so_woken s e) (set_waiter e (w\<lparr>w_wait_for_post := 0\<rparr>) s))
                  \<lparr>so_woken := (so_woken s)(e := so_woken s e \<or> b)\<rparr>) e OSusp)
      | OSusp \<Rightarrow>
          if \<not> so_woken s e \<or> w_wait_for_post w \<noteq> 0 \<or> w_wait_for_wake w \<noteq> 0 \<or> so_timed s e \<and> so_tmr s e \<noteq> TIdle then None
          else let s' = (sassert (w_wake_reason w \<noteq> FEV_WAITER_NONE) s)\<lparr>so_woken := (so_woken s)(e := False), so_timer := (so_timer s)(e := False)\<rparr>
               in Some (if so_timed s e \<and>
                          (w_wake_reason w = FEV_WAITER_TIMED_OUT_NO_CHECK \<or> w_wake_reason w = FEV_WAITER_TIMED_OUT_CHECK \<and> ret = - ETIMEDOUT)
                        then oreturn s' e (- ETIMEDOUT)
                        else ogoto s' e OStore))"

text \<open>One step of the worker \<open>i\<close> in \<open>fev_process_socket\<close>.\<close>

definition wake_cas :: "sock_end \<Rightarrow> u32 \<Rightarrow> sock_sys \<Rightarrow> sock_sys" where
  "wake_cas e r s =
     (let w = so_waiter s e; s' = sassert (wake_asserts w r) s
      in if w_reason w = FEV_WAITER_NONE then set_waiter e (w\<lparr>w_reason := r\<rparr>) s' else s')"

definition wake_xchg :: "sock_end \<Rightarrow> u32 \<Rightarrow> sock_sys \<Rightarrow> sock_sys" where
  "wake_xchg e r s =
     (let w = so_waiter s e
      in if w_do_wake w \<noteq> 0
         then (sassert (\<not> so_woken s e) (set_waiter e (w\<lparr>w_do_wake := 0, w_wake_reason := r, w_wait_for_wake := 0\<rparr>) s))
                \<lparr>so_woken := (so_woken s)(e := True)\<rparr>
         else set_waiter e (w\<lparr>w_do_wake := 0, w_wait_for_wake := 0\<rparr>) s)"

definition wakes :: "u32 \<Rightarrow> sock_end \<Rightarrow> bool" where
  "wakes ev e \<longleftrightarrow> ev AND end_flag e \<noteq> 0 \<or> ev AND (EPOLLRDHUP OR EPOLLERR OR EPOLLHUP) \<noteq> 0"

definition ev_error :: "u32 \<Rightarrow> bool" where
  "ev_error ev \<longleftrightarrow> ev AND (EPOLLRDHUP OR EPOLLERR OR EPOLLHUP) \<noteq> 0"

fun after_end :: "u32 \<Rightarrow> sock_end \<Rightarrow> ev_pc" where
  "after_end ev Rd = (if wakes ev Wr then VCas ev Wr else VIdle)"
| "after_end ev Wr = VIdle"

definition worker_step :: "nat \<Rightarrow> sock_sys \<Rightarrow> sock_sys option" where
  "worker_step i s =
     (case so_worker s i of
        VIdle \<Rightarrow> None
      | VErr ev \<Rightarrow>
          Some (vgoto (if ev_error ev then s\<lparr>so_socket := (so_socket s)\<lparr>sk_error := 1\<rparr>\<rparr> else s) i
                  (if wakes ev Rd then VCas ev Rd else after_end ev Rd))
      | VCas ev e \<Rightarrow>
          Some (vgoto (wake_cas e FEV_WAITER_READY s) i
                  (if w_reason (so_waiter s e) = FEV_WAITER_NONE then VXchg ev e else after_end ev e))
      | VXchg ev e \<Rightarrow> Some (vgoto (wake_xchg e FEV_WAITER_READY s) i (after_end ev e)))"

definition timer_step :: "sock_end \<Rightarrow> sock_sys \<Rightarrow> sock_sys option" where
  "timer_step e s =
     (case so_tmr s e of
        TIdle \<Rightarrow> None
      | TCas r \<Rightarrow>
          Some ((wake_cas e r s)\<lparr>so_tmr := (so_tmr s)(e := if w_reason (so_waiter s e) = FEV_WAITER_NONE then TXchg r else TIdle)\<rparr>)
      | TXchg r \<Rightarrow> Some ((wake_xchg e r s)\<lparr>so_tmr := (so_tmr s)(e := TIdle)\<rparr>))"

text \<open>
  The events: a fiber calls an operation, with or without a time-out; a step of it; a worker gets an event from
  \<open>epoll_wait\<close>; a step of it; the timer of an end fires with the given reason; a step of the waker; an end becomes
  ready; the connection breaks; the socket is closed and opened again with a new descriptor.
\<close>

datatype sock_event =
    SCall sock_op bool fiber_ptr
  | SFiber sock_end int int bool
  | SPoll nat
  | SWorker nat
  | SFire sock_end u32
  | STimer sock_end
  | SArrive sock_end
  | SHangup
  | SReopen int

fun sock_step :: "sock_event \<Rightarrow> sock_sys \<Rightarrow> sock_sys option" where
  "sock_step (SCall op timed f) s =
     (let e = op_end op
      in if so_pc s e = OIdle \<and> f \<noteq> 0
         then Some ((ogoto s e OStore)\<lparr>so_op := (so_op s)(e := op), so_timed := (so_timed s)(e := timed), so_fiber := (so_fiber s)(e := f)\<rparr>)
         else None)"
| "sock_step (SFiber e ret errno stays) s = op_step e ret errno stays s"
| "sock_step (SPoll i) s =
     (case so_mask s of
        Some msk \<Rightarrow>
          if so_pending s \<and> so_worker s i = VIdle
          then Some (vgoto (s\<lparr>so_pending := False\<rparr>) i (if event_flags s msk = 0 then VIdle else VErr (event_flags s msk)))
          else None
      | None \<Rightarrow> None)"
| "sock_step (SWorker i) s = worker_step i s"
| "sock_step (SFire e r) s =
     (if so_timer s e \<and> so_tmr s e = TIdle \<and> r \<in> {FEV_WAITER_TIMED_OUT_CHECK, FEV_WAITER_TIMED_OUT_NO_CHECK}
      then Some (s\<lparr>so_tmr := (so_tmr s)(e := TCas r), so_timer := (so_timer s)(e := r = FEV_WAITER_TIMED_OUT_CHECK)\<rparr>)
      else None)"
| "sock_step (STimer e) s = timer_step e s"
| "sock_step (SArrive e) s =
     Some (s\<lparr>so_ready := (so_ready s)(e := True),
       so_pending := so_pending s \<or> (case so_mask s of Some msk \<Rightarrow> msk AND end_flag e \<noteq> 0 | None \<Rightarrow> False)\<rparr>)"
| "sock_step SHangup s = Some (s\<lparr>so_hup := True, so_pending := so_pending s \<or> so_mask s \<noteq> None\<rparr>)"
| "sock_step (SReopen fd) s =
     (if so_pc s Rd = OIdle \<and> so_pc s Wr = OIdle \<and> fd \<ge> 0
      then let (r1, socket, fds) = fev_socket_close (\<lambda>_. (0, 0)) (so_socket s) {sk_fd (so_socket s)};
               (r2, socket, fds) = fev_socket_open (fd, 0) (\<lambda>_. (0, 0)) socket fds
           in Some (s\<lparr>so_socket := socket, so_mask := None, so_ready := (\<lambda>_. False), so_hup := False, so_pending := False, so_reopened := True\<rparr>)
      else None)"

text \<open>A socket that was created and opened.\<close>

definition sock_sys_init :: "int \<Rightarrow> sock_sys" where
  "sock_sys_init fd =
     \<lparr>so_socket = fev_socket_init\<lparr>sk_fd := fd\<rparr>, so_pc = (\<lambda>_. OIdle), so_op = (\<lambda>_. Read), so_timed = (\<lambda>_. False), so_fiber = (\<lambda>_. 0),
      so_woken = (\<lambda>_. False), so_timer = (\<lambda>_. False), so_result = (\<lambda>_. None), so_worker = (\<lambda>_. VIdle), so_tmr = (\<lambda>_. TIdle),
      so_fault = False, so_mask = None, so_ready = (\<lambda>_. False), so_hup = False, so_pending = False, so_reopened = False\<rparr>"

end
