(* ===== verification/Socket_Concurrent.thy ===== *)
theory Socket_Concurrent
  imports Socket
begin

text \<open>
  The invariant of the sockets over a reactor and what follows from it: no assertion fails, no readiness is
  lost, a worker on its own is the sequential \<open>fev_process_socket\<close>; and what goes wrong when both ends are
  used for the first time at once or a socket is opened again.
\<close>

unbundle bit_operations_syntax

section \<open>The invariant\<close>

fun exposed :: "op_pc \<Rightarrow> bool" where
  "exposed OLoad \<longleftrightarrow> True"
| "exposed (OXchg _) \<longleftrightarrow> True"
| "exposed (OPost b) \<longleftrightarrow> \<not> b"
| "exposed OSusp \<longleftrightarrow> True"
| "exposed _ \<longleftrightarrow> False"

text \<open>After the call of \<open>fev_poller_register\<close> has succeeded, and after the check of \<open>error\<close>.\<close>

fun waiting :: "op_pc \<Rightarrow> bool" where
  "waiting OAdd \<longleftrightarrow> True"
| "waiting OWait \<longleftrightarrow> True"
| "waiting ODoWake \<longleftrightarrow> True"
| "waiting OLoad \<longleftrightarrow> True"
| "waiting (OXchg _) \<longleftrightarrow> True"
| "waiting (OPost _) \<longleftrightarrow> True"
| "waiting OSusp \<longleftrightarrow> True"
| "waiting _ \<longleftrightarrow> False"

fun registering :: "op_pc \<Rightarrow> bool" where
  "registering ORegister \<longleftrightarrow> True"
| "registering (OCtl _ _) \<longleftrightarrow> True"
| "registering OActivate \<longleftrightarrow> True"
| "registering _ \<longleftrightarrow> False"

fun parked :: "op_pc \<Rightarrow> bool" where
  "parked (OPost b) \<longleftrightarrow> \<not> b"
| "parked OSusp \<longleftrightarrow> True"
| "parked _ \<longleftrightarrow> False"

lemma waiting_pcs: "exposed p \<Longrightarrow> waiting p" "waiting p \<Longrightarrow> \<not> registering p" "parked p \<Longrightarrow> exposed p"
  by (cases p; simp)+

lemma get_set_end [simp]: "get_end e' (set_end e x k) = (if e' = e then x else get_end e' k)"
  by (cases e; cases e') simp_all

lemma set_end_other [simp]: "sk_error (set_end e x k) = sk_error k" "sk_fd (set_end e x k) = sk_fd k"
  by (cases e; simp)+

lemma get_end_other [simp]: "get_end e (k\<lparr>sk_error := x\<rparr>) = get_end e k" "get_end e (k\<lparr>sk_fd := y\<rparr>) = get_end e k"
  by (cases e; simp)+

named_theorems sock_defs "the helper operations of the socket system"
lemmas [sock_defs] = ogoto_def vgoto_def sassert_def set_waiter_def oreturn_def

definition do_wake_ok :: "sock_sys \<Rightarrow> sock_end \<Rightarrow> bool" where
  "do_wake_ok s e \<longleftrightarrow>
     w_do_wake (so_waiter s e) = (if exposed (so_pc s e) \<and> \<not> so_woken s e then 1 else 0) \<and>
     (so_woken s e \<longrightarrow> exposed (so_pc s e))"

fun xchg_reason :: "op_pc \<Rightarrow> bool" where
  "xchg_reason (OXchg r) \<longleftrightarrow> r \<noteq> 0"
| "xchg_reason _ \<longleftrightarrow> True"

fun timer_reason :: "tm_pc \<Rightarrow> bool" where
  "timer_reason TIdle \<longleftrightarrow> True"
| "timer_reason (TCas r) \<longleftrightarrow> r \<noteq> 0 \<and> r \<le> 3"
| "timer_reason (TXchg r) \<longleftrightarrow> r \<noteq> 0 \<and> r \<le> 3"

definition reason_ok :: "sock_sys \<Rightarrow> sock_end \<Rightarrow> bool" where
  "reason_ok s e \<longleftrightarrow>
     w_reason (so_waiter s e) \<le> 3 \<and> xchg_reason (so_pc s e) \<and> timer_reason (so_tmr s e) \<and>
     (so_woken s e \<or> so_pc s e = OPost True \<longrightarrow> w_wake_reason (so_waiter s e) \<noteq> 0) \<and>
     (so_pc s e \<noteq> OIdle \<longrightarrow> so_fiber s e \<noteq> 0) \<and> (waiting (so_pc s e) \<or> registering (so_pc s e) \<or> so_pc s e = OCheck \<longrightarrow> w_fiber (so_waiter s e) \<noteq> 0)"

definition active_ok :: "sock_sys \<Rightarrow> sock_end \<Rightarrow> bool" where
  "active_ok s e \<longleftrightarrow>
     (registering (so_pc s e) \<longrightarrow> \<not> so_active s e) \<and> (waiting (so_pc s e) \<or> so_pc s e = OCheck \<longrightarrow> so_active s e)"


text \<open>The part of the state that belongs to one end.\<close>

definition sview :: "sock_sys \<Rightarrow> sock_end \<Rightarrow> op_pc \<times> bool \<times> fev_socket_end \<times> fiber_ptr \<times> tm_pc \<times> bool" where
  "sview s e = (so_pc s e, so_woken s e, get_end e (so_socket s), so_fiber s e, so_tmr s e, so_ready s e)"

lemma sview_helpers [simp]:
  "sview (ogoto s e p) e' = (if e' = e then (p, snd (sview s e)) else sview s e')"
  "sview (vgoto s i q) = sview s"
  "sview (sassert b s) = sview s"
  "sview (oreturn s e v) e' = (if e' = e then (OIdle, snd (sview s e)) else sview s e')"
  "e' \<noteq> e \<Longrightarrow> sview (set_waiter e w s) e' = sview s e'"
  "e' \<noteq> e \<Longrightarrow> sview (s\<lparr>so_woken := (so_woken s)(e := b)\<rparr>) e' = sview s e'"
  "e' \<noteq> e \<Longrightarrow> sview (s\<lparr>so_ready := (so_ready s)(e := b)\<rparr>) e' = sview s e'"
  "sview (s\<lparr>so_timer := f\<rparr>) = sview s"
  "e' \<noteq> e \<Longrightarrow> sview (s\<lparr>so_socket := set_end e x (so_socket s)\<rparr>) e' = sview s e'"
  by (auto simp: sview_def sock_defs fun_eq_iff)

lemma op_frame: "op_step e ret errno stays s = Some s' \<Longrightarrow> e' \<noteq> e \<Longrightarrow> sview s' e' = sview s e'"
  unfolding op_step_def epoll_ctl_def Let_def
  apply (cases "so_pc s e"; simp)
  apply (simp_all split: if_splits sum.splits option.splits prod.splits)
  apply (auto simp: sview_def sock_defs)
  done


text \<open>The steps of a fiber, one by one.\<close>

lemma op_step_cases:
  assumes "op_step e ret errno stays s = Some s'"
  obtains
    (store) "so_pc s e = OStore" "s' = ogoto (set_waiter e ((so_waiter s e)\<lparr>w_reason := FEV_WAITER_NONE\<rparr>) s) e OOp"
  | (success) v where "so_pc s e = OOp" "so_ready s e" "s' = oreturn (s\<lparr>so_ready := (so_ready s)(e := stays)\<rparr>) e v"
  | (block) "so_pc s e = OOp" "\<not> so_ready s e"
      "s' = ogoto (set_waiter e ((so_waiter s e)\<lparr>w_fiber := so_fiber s e\<rparr>) s) e (if so_active s e then OCheck else ORegister)"
  | (failure) v where "so_pc s e = OOp" "s' = oreturn s e v"
  | (register) op m where "so_pc s e = ORegister" "fev_poller_register (so_socket s) (end_flag e) (\<lambda>op fd m. OCtl op m) = Some (OCtl op m)"
      "s' = ogoto s e (OCtl op m)"
  | (register_fault) "so_pc s e = ORegister" "fev_poller_register (so_socket s) (end_flag e) (\<lambda>op fd m. OCtl op m) = None" "s' = sassert False s"
  | (ctl_fails) op m v where "so_pc s e = OCtl op m" "s' = oreturn s e v"
  | (ctl) op m where "so_pc s e = OCtl op m" "op = EPOLL_CTL_ADD \<longleftrightarrow> so_mask s = None"
      "s' = ogoto (s\<lparr>so_mask := Some m, so_pending := so_pending s \<or> event_flags s m \<noteq> 0\<rparr>) e OActivate"
  | (activate) "so_pc s e = OActivate"
      "s' = ogoto (s\<lparr>so_socket := set_end e ((get_end e (so_socket s))\<lparr>se_active := True\<rparr>) (so_socket s)\<rparr>) e OCheck"
  | (reset) v where "so_pc s e = OCheck" "s' = oreturn (sassert (w_do_wake (so_waiter s e) = 0) s) e v"
  | (check) "so_pc s e = OCheck" "sk_error (so_socket s) = 0"
      "s' = ogoto (sassert (w_do_wake (so_waiter s e) = 0) s) e (if so_timed s e then OAdd else OWait)"
  | (no_mem) v where "so_pc s e = OAdd" "s' = oreturn (sassert (w_do_wake (so_waiter s e) = 0) s) e v"
  | (add) "so_pc s e = OAdd" "s' = ogoto ((sassert (w_do_wake (so_waiter s e) = 0) s)\<lparr>so_timer := (so_timer s)(e := True)\<rparr>) e OWait"
  | (wait) "so_pc s e = OWait"
      "s' = ogoto (set_waiter e ((so_waiter s e)\<lparr>w_wait_for_post := 1\<rparr>) (sassert (w_do_wake (so_waiter s e) = 0 \<and> w_fiber (so_waiter s e) \<noteq> 0) s)) e ODoWake"
  | (do_wake) "so_pc s e = ODoWake" "s' = ogoto (set_waiter e ((so_waiter s e)\<lparr>w_do_wake := 1\<rparr>) s) e OLoad"
  | (load) "so_pc s e = OLoad" "s' = ogoto s e (if w_reason (so_waiter s e) \<noteq> 0 then OXchg (w_reason (so_waiter s e)) else OPost False)"
  | (taken) r where "so_pc s e = OXchg r" "w_do_wake (so_waiter s e) \<noteq> 0"
      "s' = ogoto (set_waiter e ((so_waiter s e)\<lparr>w_do_wake := 0, w_wake_reason := r\<rparr>) s) e (OPost True)"
  | (missed) r where "so_pc s e = OXchg r" "w_do_wake (so_waiter s e) = 0"
      "s' = ogoto (set_waiter e ((so_waiter s e)\<lparr>w_do_wake := 0\<rparr>) s) e (OPost False)"
  | (post) b where "so_pc s e = OPost b"
      "s' = ogoto ((sassert (b \<longrightarrow> \<not> so_woken s e) (set_waiter e ((so_waiter s e)\<lparr>w_wait_for_post := 0\<rparr>) s))
                  \<lparr>so_woken := (so_woken s)(e := so_woken s e \<or> b)\<rparr>) e OSusp"
  | (leave) v where "so_pc s e = OSusp" "so_woken s e"
      "s' = oreturn ((sassert (w_wake_reason (so_waiter s e) \<noteq> FEV_WAITER_NONE) s)
              \<lparr>so_woken := (so_woken s)(e := False), so_timer := (so_timer s)(e := False)\<rparr>) e v"
  | (again) "so_pc s e = OSusp" "so_woken s e"
      "s' = ogoto ((sassert (w_wake_reason (so_waiter s e) \<noteq> FEV_WAITER_NONE) s)
              \<lparr>so_woken := (so_woken s)(e := False), so_timer := (so_timer s)(e := False)\<rparr>) e OStore"
proof (cases "so_pc s e")
  case OOp
  then show ?thesis using assms success block failure
    by (fastforce simp: op_step_def split: sum.splits if_splits)
next
  case ORegister
  show ?thesis
  proof (cases "fev_poller_register (so_socket s) (end_flag e) (\<lambda>op fd m. OCtl op m)")
    case None
    then show ?thesis using register_fault assms ORegister by (simp add: op_step_def)
  next
    case (Some pc)
    then obtain op m where "pc = OCtl op m" by (auto simp: fev_poller_register_def Let_def split: if_splits)
    then show ?thesis using register Some assms ORegister by (simp add: op_step_def)
  qed
next
  case (OCtl op m)
  then show ?thesis using assms ctl_fails ctl
    by (cases op) (auto simp: op_step_def epoll_ctl_def errno_defs split: if_splits)
next
  case OSusp
  then show ?thesis using assms leave again by (auto simp: op_step_def Let_def split: if_splits)
next
  case OStore
  then show ?thesis using assms store by (auto simp: op_step_def Let_def split: if_splits)
next
  case OActivate
  then show ?thesis using assms activate by (auto simp: op_step_def Let_def split: if_splits)
next
  case OCheck
  then show ?thesis using assms reset check by (auto simp: op_step_def Let_def split: if_splits)
next
  case OAdd
  then show ?thesis using assms no_mem add by (auto simp: op_step_def Let_def split: if_splits)
next
  case OWait
  then show ?thesis using assms wait by (auto simp: op_step_def Let_def split: if_splits)
next
  case ODoWake
  then show ?thesis using assms do_wake by (auto simp: op_step_def Let_def split: if_splits)
next
  case OLoad
  then show ?thesis using assms load by (auto simp: op_step_def Let_def split: if_splits)
next
  case (OXchg r)
  then show ?thesis using assms taken missed by (auto simp: op_step_def Let_def split: if_splits)
next
  case (OPost b)
  then show ?thesis using assms post by (auto simp: op_step_def Let_def split: if_splits)
qed (use assms in \<open>simp add: op_step_def\<close>)

lemma do_wake_op: "do_wake_ok s e \<Longrightarrow> op_step e ret errno stays s = Some s' \<Longrightarrow> do_wake_ok s' e"
  by (erule op_step_cases) (auto simp: do_wake_ok_def sock_defs)

lemma reason_op:
  "reason_ok s e \<Longrightarrow> do_wake_ok s e \<Longrightarrow> op_step e ret errno stays s = Some s' \<Longrightarrow> reason_ok s' e"
  by (erule op_step_cases) (auto simp: reason_ok_def do_wake_ok_def sock_defs reason_defs)

lemma active_op: "active_ok s e \<Longrightarrow> op_step e ret errno stays s = Some s' \<Longrightarrow> active_ok s' e"
  by (erule op_step_cases) (auto simp: active_ok_def sock_defs)

lemma register_ok: "\<not> so_active s e \<Longrightarrow> fev_poller_register (so_socket s) (end_flag e) f \<noteq> None"
  by (cases e) (auto simp: fev_poller_register_def epoll_flags)

lemma op_no_fault:
  assumes "do_wake_ok s e" "reason_ok s e" "active_ok s e" "\<not> so_fault s" "op_step e ret errno stays s = Some s'"
  shows "\<not> so_fault s'"
  using assms(5,1-4) by (cases rule: op_step_cases)
    (auto simp: reason_ok_def do_wake_ok_def active_ok_def sock_defs reason_defs register_ok)

text \<open>The two steps of \<open>fev_waiter_wake\<close>.\<close>

lemma wake_frame:
  "e' \<noteq> e \<Longrightarrow> sview (wake_cas e r s) e' = sview s e'" "e' \<noteq> e \<Longrightarrow> sview (wake_xchg e r s) e' = sview s e'"
  by (simp_all add: wake_cas_def wake_xchg_def sview_def sock_defs Let_def)

lemma wake_fields [simp]:
  "so_pc (wake_cas e r s) = so_pc s" "so_pc (wake_xchg e r s) = so_pc s" "so_tmr (wake_cas e r s) = so_tmr s" "so_tmr (wake_xchg e r s) = so_tmr s"
  "so_worker (wake_cas e r s) = so_worker s" "so_worker (wake_xchg e r s) = so_worker s" "so_mask (wake_cas e r s) = so_mask s" "so_mask (wake_xchg e r s) = so_mask s"
  "so_ready (wake_cas e r s) = so_ready s" "so_ready (wake_xchg e r s) = so_ready s" "so_hup (wake_cas e r s) = so_hup s" "so_hup (wake_xchg e r s) = so_hup s"
  "so_pending (wake_cas e r s) = so_pending s" "so_pending (wake_xchg e r s) = so_pending s" "so_reopened (wake_cas e r s) = so_reopened s" "so_reopened (wake_xchg e r s) = so_reopened s"
  "sk_error (so_socket (wake_cas e r s)) = sk_error (so_socket s)" "sk_error (so_socket (wake_xchg e r s)) = sk_error (so_socket s)"
  "so_active (wake_cas e r s) e' = so_active s e'" "so_active (wake_xchg e r s) e' = so_active s e'" "so_woken (wake_cas e r s) = so_woken s"
  "so_timer (wake_cas e r s) = so_timer s" "so_timer (wake_xchg e r s) = so_timer s"
  "w_reason (so_waiter (wake_xchg e r s) e') = w_reason (so_waiter s e')"
  "w_reason (so_waiter (wake_cas e r s) e') = (if e' = e \<and> w_reason (so_waiter s e) = FEV_WAITER_NONE then r else w_reason (so_waiter s e'))"
  by (auto simp: wake_cas_def wake_xchg_def Let_def sock_defs)

definition local_ok :: "sock_sys \<Rightarrow> sock_end \<Rightarrow> bool" where
  "local_ok s e \<longleftrightarrow> do_wake_ok s e \<and> reason_ok s e \<and> active_ok s e"

lemma local_sview: "sview s' e = sview s e \<Longrightarrow> local_ok s' e = local_ok s e"
  by (simp add: local_ok_def do_wake_ok_def reason_ok_def active_ok_def sview_def)

lemma wake_local:
  assumes "local_ok s e" "r \<noteq> 0" "r \<le> 3"
  shows "local_ok (wake_cas e r s) e" "local_ok (wake_xchg e r s) e"
  using assms
  by (auto simp: local_ok_def do_wake_ok_def reason_ok_def active_ok_def wake_cas_def wake_xchg_def sock_defs Let_def)

lemma wake_no_fault:
  assumes "local_ok s e" "r \<noteq> 0" "\<not> so_fault s"
  shows "\<not> so_fault (wake_cas e r s)" "\<not> so_fault (wake_xchg e r s)"
  using assms by (auto simp: local_ok_def do_wake_ok_def reason_ok_def wake_asserts_def wake_cas_def wake_xchg_def sock_defs reason_defs Let_def)

text \<open>A wake-up for an end is on its way: the reason is set, or a worker is about to set it.\<close>

fun will_cas :: "sock_end \<Rightarrow> ev_pc \<Rightarrow> bool" where
  "will_cas e VIdle \<longleftrightarrow> False"
| "will_cas e (VErr ev) \<longleftrightarrow> wakes ev e"
| "will_cas e (VCas ev e') \<longleftrightarrow> e' = e \<or> e' = Rd \<and> wakes ev e"
| "will_cas e (VXchg ev e') \<longleftrightarrow> e' = Rd \<and> e = Wr \<and> wakes ev e"

fun will_error :: "ev_pc \<Rightarrow> bool" where
  "will_error (VErr ev) \<longleftrightarrow> ev_error ev"
| "will_error _ \<longleftrightarrow> False"

fun at_xchg :: "sock_end \<Rightarrow> ev_pc \<Rightarrow> bool" where
  "at_xchg e (VXchg ev e') \<longleftrightarrow> e' = e"
| "at_xchg e _ \<longleftrightarrow> False"

definition coming :: "sock_sys \<Rightarrow> sock_end \<Rightarrow> bool" where
  "coming s e \<longleftrightarrow> w_reason (so_waiter s e) \<noteq> 0 \<or> (\<exists>i. will_cas e (so_worker s i))"

definition xchg_pending :: "sock_sys \<Rightarrow> sock_end \<Rightarrow> bool" where
  "xchg_pending s e \<longleftrightarrow> (\<exists>i. at_xchg e (so_worker s i)) \<or> (\<exists>r. so_tmr s e = TXchg r)"

definition handshake_ok :: "sock_sys \<Rightarrow> sock_end \<Rightarrow> bool" where
  "handshake_ok s e \<longleftrightarrow> (parked (so_pc s e) \<and> \<not> so_woken s e \<and> w_reason (so_waiter s e) \<noteq> 0 \<longrightarrow> xchg_pending s e)"

definition error_ok :: "sock_sys \<Rightarrow> sock_end \<Rightarrow> bool" where
  "error_ok s e \<longleftrightarrow> (waiting (so_pc s e) \<and> sk_error (so_socket s) \<noteq> 0 \<longrightarrow> coming s e)"

definition ready_ok :: "sock_sys \<Rightarrow> sock_end \<Rightarrow> bool" where
  "ready_ok s e \<longleftrightarrow>
     (\<not> so_reopened s \<and> (waiting (so_pc s e) \<or> so_pc s e = OCheck \<or> so_pc s e = OActivate) \<and> so_ready s e \<longrightarrow> so_pending s \<or> coming s e)"

fun ctl_ok :: "sock_end \<Rightarrow> op_pc \<Rightarrow> bool" where
  "ctl_ok e (OCtl op m) \<longleftrightarrow> m AND end_flag e \<noteq> 0 \<and> (op = EPOLL_CTL_MOD \<longrightarrow> m AND EPOLLIN \<noteq> 0 \<and> m AND EPOLLOUT \<noteq> 0)"
| "ctl_ok e _ \<longleftrightarrow> True"

definition mask_ok :: "sock_sys \<Rightarrow> sock_end \<Rightarrow> bool" where
  "mask_ok s e \<longleftrightarrow> ctl_ok e (so_pc s e) \<and>
     (\<not> so_reopened s \<and> (so_active s e \<or> so_pc s e = OActivate) \<longrightarrow> (\<exists>m. so_mask s = Some m \<and> m AND end_flag e \<noteq> 0))"

definition hup_ok :: "sock_sys \<Rightarrow> bool" where
  "hup_ok s \<longleftrightarrow>
     (\<not> so_reopened s \<and> so_hup s \<and> so_mask s \<noteq> None \<longrightarrow>
        so_pending s \<or> sk_error (so_socket s) \<noteq> 0 \<or> (\<exists>i. will_error (so_worker s i)))"

definition sock_inv :: "sock_sys \<Rightarrow> bool" where
  "sock_inv s \<longleftrightarrow> \<not> so_fault s \<and> hup_ok s \<and>
     (\<forall>e. local_ok s e \<and> handshake_ok s e \<and> error_ok s e \<and> ready_ok s e \<and> mask_ok s e)"

text \<open>The steps of a fiber.\<close>

lemma sview_fields:
  assumes "sview s' e = sview s e"
  shows "so_pc s' e = so_pc s e" "so_woken s' e = so_woken s e" "get_end e (so_socket s') = get_end e (so_socket s)" "so_tmr s' e = so_tmr s e"
    "so_ready s' e = so_ready s e"
  using assms by (simp_all add: sview_def)

lemma op_worker: "op_step e ret errno stays s = Some s' \<Longrightarrow> so_worker s' = so_worker s \<and> so_tmr s' = so_tmr s \<and> so_hup s' = so_hup s \<and> so_reopened s' = so_reopened s \<and> sk_error (so_socket s') = sk_error (so_socket s) \<and> (so_pending s \<longrightarrow> so_pending s')"
  by (erule op_step_cases) (simp_all add: sock_defs)

lemma handshake_op: "handshake_ok s e \<Longrightarrow> local_ok s e \<Longrightarrow> op_step e ret errno stays s = Some s' \<Longrightarrow> handshake_ok s' e"
  by (erule op_step_cases) (auto simp: handshake_ok_def local_ok_def do_wake_ok_def xchg_pending_def sock_defs)

lemma error_op: "error_ok s e \<Longrightarrow> op_step e ret errno stays s = Some s' \<Longrightarrow> error_ok s' e"
  by (erule op_step_cases) (auto simp: error_ok_def coming_def sock_defs)

lemma event_flags_ready: "so_ready s e \<Longrightarrow> m AND end_flag e \<noteq> 0 \<Longrightarrow> event_flags s m AND end_flag e \<noteq> 0"
  by (cases e) (auto simp: event_flags_def epoll_flags bit.conj_disj_distrib2 and.assoc)
lemma event_flags_hup: "so_hup s \<Longrightarrow> ev_error (event_flags s m)"
  by (simp add: event_flags_def ev_error_def epoll_flags bit.conj_disj_distrib2 and.assoc)

lemma ready_op: "ready_ok s e \<Longrightarrow> mask_ok s e \<Longrightarrow> op_step e ret errno stays s = Some s' \<Longrightarrow> ready_ok s' e"
  by (erule op_step_cases) (auto simp: ready_ok_def mask_ok_def coming_def sock_defs dest: event_flags_ready)


lemma register_ctl:
  assumes "fev_poller_register (so_socket s) (end_flag e) (\<lambda>op fd m. OCtl op m) = Some (OCtl op m)"
  shows "ctl_ok e (OCtl op m)"
  using assms by (cases e) (auto simp: fev_poller_register_def epoll_flags Let_def split: if_splits)

lemma mask_op:
  assumes "mask_ok s e" "mask_ok s e'" "op_step e ret errno stays s = Some s'"
  shows "mask_ok s' e'"
  using assms(3)
proof (cases rule: op_step_cases)
  case (ctl op m)
  then have "m AND end_flag e \<noteq> 0" "op = EPOLL_CTL_MOD \<Longrightarrow> m AND end_flag e' \<noteq> 0"
    using assms(1) by (cases e'; simp add: mask_ok_def)+
  then show ?thesis using ctl assms(1,2) by (cases op) (auto simp: mask_ok_def sock_defs)
next
  case (register op m)
  then show ?thesis using register_ctl [OF register(2)] assms(1,2) by (auto simp: mask_ok_def sock_defs)
qed (use assms(1,2) in \<open>auto simp: mask_ok_def sock_defs\<close>)

lemma event_flags_hup_nonzero: "so_hup s \<Longrightarrow> event_flags s m \<noteq> 0"
  using event_flags_hup [of s m] by (auto simp: ev_error_def)

lemma hup_op: "hup_ok s \<Longrightarrow> op_step e ret errno stays s = Some s' \<Longrightarrow> hup_ok s'"
  by (erule op_step_cases) (auto simp: hup_ok_def sock_defs event_flags_hup_nonzero)

text \<open>Nothing else of the other end depends on a step of the fiber.\<close>

lemma op_other:
  assumes step: "op_step e ret errno stays s = Some s'" and e': "e' \<noteq> e"
    and ok: "local_ok s e'" "handshake_ok s e'" "error_ok s e'" "ready_ok s e'"
  shows "local_ok s' e'" "handshake_ok s' e'" "error_ok s' e'" "ready_ok s' e'"
proof -
  note v = op_frame [OF step e']
  note f = sview_fields [OF v] op_worker [OF step]
  show "local_ok s' e'" using ok(1) local_sview [OF v] by simp
  show "handshake_ok s' e'" "error_ok s' e'" using ok(2,3) f by (simp_all add: handshake_ok_def error_ok_def xchg_pending_def coming_def)
  show "ready_ok s' e'" using ok(4) f by (auto simp: ready_ok_def coming_def)
qed

lemma op_inv:
  assumes "sock_inv s" "op_step e ret errno stays s = Some s'"
  shows "sock_inv s'"
proof -
  have i: "\<not> so_fault s" "hup_ok s" "\<And>e. local_ok s e" "\<And>e. handshake_ok s e" "\<And>e. error_ok s e" "\<And>e. ready_ok s e" "\<And>e. mask_ok s e"
    using assms(1) by (auto simp: sock_inv_def)
  have l: "local_ok s' e" using do_wake_op [OF _ assms(2)] reason_op [OF _ _ assms(2)] active_op [OF _ assms(2)] i(3) [of e] by (simp add: local_ok_def)
  have own: "local_ok s' e" "handshake_ok s' e" "error_ok s' e" "ready_ok s' e"
    using l handshake_op [OF i(4,3) assms(2)] error_op [OF i(5) assms(2)] ready_op [OF i(6,7) assms(2)] by blast+
  have "local_ok s' e'" "handshake_ok s' e'" "error_ok s' e'" "ready_ok s' e'" for e'
    using own op_other [OF assms(2) _ i(3-6)] by (cases "e' = e"; blast)+
  moreover have "\<not> so_fault s'" using op_no_fault [OF _ _ _ i(1) assms(2)] i(3) [of e] by (simp add: local_ok_def)
  ultimately show ?thesis using hup_op [OF i(2) assms(2)] mask_op [OF i(7,7) assms(2)] by (simp add: sock_inv_def)
qed

text \<open>The steps of a worker, of a timer, and of the environment.\<close>

lemma coming_worker:
  assumes "coming s e" "so_worker s' = (so_worker s)(i := p)"
    and "w_reason (so_waiter s e) \<noteq> 0 \<Longrightarrow> w_reason (so_waiter s' e) \<noteq> 0"
    and "will_cas e (so_worker s i) \<Longrightarrow> will_cas e p \<or> w_reason (so_waiter s' e) \<noteq> 0"
  shows "coming s' e"
proof (cases "w_reason (so_waiter s e) \<noteq> 0")
  case True
  then show ?thesis using assms(3) by (simp add: coming_def)
next
  case False
  then obtain j where "will_cas e (so_worker s j)" using assms(1) by (auto simp: coming_def)
  then have "will_cas e (so_worker s' j) \<or> w_reason (so_waiter s' e) \<noteq> 0"
    using assms(2,4) by (cases "j = i") auto
  then show ?thesis by (auto simp: coming_def)
qed

text \<open>What the wake-up of an end needs of a step that is not the fiber's.\<close>

lemma env_inv:
  assumes "sock_inv s" and pc: "so_pc s' = so_pc s" and mask: "so_mask s' = so_mask s" "so_reopened s' = so_reopened s"
    and act: "\<And>e. so_active s' e = so_active s e"
    and fault: "\<not> so_fault s'" and local: "\<And>e. local_ok s' e" and hs: "\<And>e. handshake_ok s' e" and hup: "hup_ok s'"
    and coming: "\<And>e. coming s e \<Longrightarrow> coming s' e"
    and error: "\<And>e. waiting (so_pc s e) \<Longrightarrow> sk_error (so_socket s) = 0 \<Longrightarrow> sk_error (so_socket s') \<noteq> 0 \<Longrightarrow> coming s' e"
    and ready: "\<And>e m. so_mask s = Some m \<Longrightarrow> m AND end_flag e \<noteq> 0 \<Longrightarrow> so_ready s' e \<Longrightarrow> (so_ready s e \<Longrightarrow> so_pending s \<or> coming s e) \<Longrightarrow> so_pending s' \<or> coming s' e"
  shows "sock_inv s'"
proof -
  have i: "\<And>e. error_ok s e" "\<And>e. ready_ok s e" "\<And>e. mask_ok s e" "\<And>e. local_ok s e"
    using assms(1) by (auto simp: sock_inv_def)
  have "mask_ok s' e" for e using i(3) [of e] pc mask act by (simp add: mask_ok_def)
  moreover have "error_ok s' e" for e
    using i(1) [of e] pc coming [of e] error [of e] unfolding error_ok_def by auto
  moreover have "ready_ok s' e" for e
  proof -
    have "so_pending s' \<or> coming s' e" if a: "\<not> so_reopened s" "waiting (so_pc s e) \<or> so_pc s e = OCheck \<or> so_pc s e = OActivate" "so_ready s' e"
    proof -
      have "so_active s e \<or> so_pc s e = OActivate" using a(2) i(4) [of e] by (auto simp: local_ok_def active_ok_def)
      then obtain m where "so_mask s = Some m" "m AND end_flag e \<noteq> 0" using i(3) [of e] a(1) by (auto simp: mask_ok_def)
      moreover have "so_ready s e \<Longrightarrow> so_pending s \<or> coming s e" using a i(2) [of e] by (simp add: ready_ok_def)
      ultimately show ?thesis using ready a(3) by blast
    qed
    then show ?thesis using pc mask by (simp add: ready_ok_def)
  qed
  ultimately show ?thesis using fault local hs hup by (simp add: sock_inv_def)
qed

lemma will_cas_after [simp]: "will_cas e (after_end ev e') \<longleftrightarrow> e' = Rd \<and> e = Wr \<and> wakes ev Wr" "\<not> at_xchg e (after_end ev e')" "\<not> will_error (after_end ev e')"
  by (cases e; cases e'; simp)+

lemma wakes_error: "ev_error ev \<Longrightarrow> wakes ev e"
  by (simp add: wakes_def ev_error_def)

lemma xchg_not_parked:
  assumes "local_ok s e"
  shows "exposed (so_pc s e) \<Longrightarrow> so_woken (wake_xchg e r s) e"
  using assms by (auto simp: local_ok_def do_wake_ok_def wake_xchg_def Let_def sock_defs)

lemma parked_exposed: "parked p \<Longrightarrow> exposed p"
  by (cases p) auto

lemma xchg_woken_other: "e' \<noteq> e \<Longrightarrow> so_woken (wake_xchg e r s) e' = so_woken s e'"
  by (simp add: wake_xchg_def Let_def sock_defs)

lemma local_vgoto [simp]: "local_ok (vgoto s i p) e = local_ok s e"
  by (rule local_sview) simp

lemma local_after_wake:
  assumes "\<And>e. local_ok s e" "r \<noteq> 0" "r \<le> 3"
  shows "local_ok (wake_cas e r s) e'" "local_ok (wake_xchg e r s) e'"
  using assms wake_local [of s e r] local_sview [OF wake_frame(1)] local_sview [OF wake_frame(2)] by (cases "e' = e"; simp)+

lemma worker_inv:
  assumes inv: "sock_inv s" and step: "worker_step i s = Some s'"
  shows "sock_inv s'"
proof -
  have i: "\<not> so_fault s" "hup_ok s" "\<And>e. local_ok s e" "\<And>e. handshake_ok s e"
    using inv by (auto simp: sock_inv_def)
  have r: "FEV_WAITER_READY \<noteq> 0" "FEV_WAITER_READY \<le> 3" by (simp_all add: reason_defs)
  show ?thesis
  proof (cases "so_worker s i")
    case (VErr ev)
    define p where "p = (if wakes ev Rd then VCas ev Rd else after_end ev Rd)"
    have s': "s' = vgoto (if ev_error ev then s\<lparr>so_socket := (so_socket s)\<lparr>sk_error := 1\<rparr>\<rparr> else s) i p"
      using step VErr by (simp add: worker_step_def p_def)
    have w: "so_worker s' = (so_worker s)(i := p)" "so_pc s' = so_pc s" "get_end e (so_socket s') = get_end e (so_socket s)"
        "so_woken s' = so_woken s" for e
      by (simp_all add: s' vgoto_def)
    have p: "will_cas e p \<longleftrightarrow> wakes ev e" "\<not> at_xchg e p" for e by (cases e; simp add: p_def)+
    have c: "coming s' e" if "coming s e \<or> wakes ev e" for e
    proof (cases "coming s e")
      case True
      then show ?thesis by (rule coming_worker [OF _ w(1)]) (simp_all add: VErr p w(3))
    next
      case False
      then have "will_cas e (so_worker s' i)" using that p by (simp add: w(1))
      then show ?thesis by (auto simp: coming_def)
    qed
    show ?thesis
    proof (rule env_inv [OF inv w(2)])
      show "local_ok s' e" for e using i(3) [of e] by (subst local_sview [of s' e s]) (simp_all add: s' sview_def vgoto_def)
      have "xchg_pending s e \<Longrightarrow> xchg_pending s' e" for e
        using VErr p by (auto simp: xchg_pending_def w(1) s' vgoto_def) (metis at_xchg.simps(3))
      then show "handshake_ok s' e" for e using i(4) [of e] by (auto simp: handshake_ok_def w)
      show "hup_ok s'" using i(2) VErr by (auto simp: hup_ok_def s' vgoto_def) (metis will_error.simps(1))
      show "coming s' e" if "sk_error (so_socket s) = 0" "sk_error (so_socket s') \<noteq> 0" for e
        using that c wakes_error by (auto simp: s' vgoto_def split: if_splits)
      show "so_pending s' \<or> coming s' e" if "so_ready s' e" "so_ready s e \<Longrightarrow> so_pending s \<or> coming s e" for e
        using that c [of e] by (auto simp: s' vgoto_def)
    qed (use i(1) c w(3) in \<open>simp_all add: s' vgoto_def\<close>)
  next
    case (VCas ev e)
    define p where "p = (if w_reason (so_waiter s e) = FEV_WAITER_NONE then VXchg ev e else after_end ev e)"
    have s': "s' = vgoto (wake_cas e FEV_WAITER_READY s) i p" using step VCas by (simp add: worker_step_def p_def)
    have w: "so_worker s' = (so_worker s)(i := p)" "so_pc s' = so_pc s" by (simp_all add: s' vgoto_def)
    have c: "coming s' e'" if "coming s e'" for e'
    proof (rule coming_worker [OF that w(1)])
      have rs: "w_reason (so_waiter s' e') = (if e' = e \<and> w_reason (so_waiter s e) = 0 then 1 else w_reason (so_waiter s e'))"
        by (simp add: s' vgoto_def reason_defs)
      show "w_reason (so_waiter s e') \<noteq> 0 \<Longrightarrow> w_reason (so_waiter s' e') \<noteq> 0" by (simp add: rs)
      show "will_cas e' p \<or> w_reason (so_waiter s' e') \<noteq> 0" if "will_cas e' (so_worker s i)"
        using that VCas unfolding rs p_def by (cases e'; cases e) (simp_all add: reason_defs)
    qed
    show ?thesis
    proof (rule env_inv [OF inv w(2)])
      show "local_ok s' e" for e using local_after_wake [OF i(3) r] by (simp add: s')
      show "\<not> so_fault s'" using wake_no_fault [OF i(3) r(1) i(1)] by (simp add: s' vgoto_def)
      show "handshake_ok s' e'" for e'
      proof -
        have "xchg_pending s e' \<Longrightarrow> xchg_pending s' e'"
          using VCas by (auto simp: xchg_pending_def w(1) s' vgoto_def) (metis at_xchg.simps(4))
        moreover have "w_reason (so_waiter s e') = 0 \<Longrightarrow> w_reason (so_waiter s' e') \<noteq> 0 \<Longrightarrow> xchg_pending s' e'"
          by (auto simp: xchg_pending_def s' vgoto_def p_def reason_defs split: if_splits)
        ultimately show ?thesis using i(4) [of e'] by (auto simp: handshake_ok_def w) (simp add: s' vgoto_def)
      qed
      show "hup_ok s'" using i(2) VCas by (auto simp: hup_ok_def w(1)) (auto simp: s' vgoto_def, metis will_error.simps(3))
      show "so_pending s' \<or> coming s' e'" if "so_ready s' e'" "so_ready s e' \<Longrightarrow> so_pending s \<or> coming s e'" for e'
        using that c [of e'] by (auto simp: s' vgoto_def)
    qed (use c in \<open>simp_all add: s' vgoto_def\<close>)
  next
    case (VXchg ev e)
    have s': "s' = vgoto (wake_xchg e FEV_WAITER_READY s) i (after_end ev e)" using step VXchg by (simp add: worker_step_def)
    have w: "so_worker s' = (so_worker s)(i := after_end ev e)" "so_pc s' = so_pc s" by (simp_all add: s' vgoto_def)
    have c: "coming s' e'" if "coming s e'" for e'
      by (rule coming_worker [OF that w(1)]) (use VXchg in \<open>auto simp: s' vgoto_def\<close>)
    show ?thesis
    proof (rule env_inv [OF inv w(2)])
      show "local_ok s' e" for e using local_after_wake [OF i(3) r] by (simp add: s')
      show "\<not> so_fault s'" using wake_no_fault [OF i(3) r(1) i(1)] by (simp add: s' vgoto_def)
      show "handshake_ok s' e'" for e'
      proof (cases "e' = e")
        case True
        then show ?thesis using xchg_not_parked [OF i(3) [of e]] parked_exposed by (auto simp: handshake_ok_def s' vgoto_def)
      next
        case False
        then have "xchg_pending s e' \<Longrightarrow> xchg_pending s' e'"
          using VXchg unfolding xchg_pending_def w(1) by (auto simp: s' vgoto_def) (metis at_xchg.simps(1))
        then show ?thesis using i(4) [of e'] False by (auto simp: handshake_ok_def s' vgoto_def xchg_woken_other)
      qed
      show "hup_ok s'" using i(2) VXchg by (auto simp: hup_ok_def s' vgoto_def) (metis will_error.simps(4))
      show "so_pending s' \<or> coming s' e'" if "so_ready s' e'" "so_ready s e' \<Longrightarrow> so_pending s \<or> coming s e'" for e'
        using that c [of e'] by (auto simp: s' vgoto_def)
    qed (use c in \<open>simp_all add: s' vgoto_def\<close>)
  qed (use step in \<open>simp add: worker_step_def\<close>)
qed

lemma timer_inv:
  assumes inv: "sock_inv s" and step: "timer_step e s = Some s'"
  shows "sock_inv s'"
proof -
  have i: "\<not> so_fault s" "hup_ok s" "\<And>e. local_ok s e" "\<And>e. handshake_ok s e"
    using inv by (auto simp: sock_inv_def)
  define t where "t = (\<lambda>q. \<lambda>s. (s :: sock_sys)\<lparr>so_tmr := (so_tmr s)(e := q)\<rparr>)"
  have tm: "local_ok (t q s) e'" if "timer_reason q" "local_ok s e'" for q s e'
    using that by (simp add: t_def local_ok_def do_wake_ok_def reason_ok_def active_ok_def)
  consider r q where "s' = t q (wake_cas e r s)" "so_tmr s e = TCas r" "q = (if w_reason (so_waiter s e) = FEV_WAITER_NONE then TXchg r else TIdle)"
    | r where "s' = t TIdle (wake_xchg e r s)" "so_tmr s e = TXchg r"
    using step by (cases "so_tmr s e") (auto simp: timer_step_def t_def)
  then show ?thesis
  proof cases
    case 1
    have r: "r \<noteq> 0" "r \<le> 3" using i(3) [of e] 1(2) by (auto simp: local_ok_def reason_ok_def)
    show ?thesis
    proof (rule env_inv [OF inv])
      show "local_ok s' e'" for e' unfolding 1(1) by (rule tm [OF _ local_after_wake(1) [OF i(3) r]]) (simp add: 1(3) r)
      show "\<not> so_fault s'" using wake_no_fault(1) [OF i(3) r(1) i(1)] by (simp add: 1(1) t_def)
      show "handshake_ok s' e'" for e'
        using i(4) [of e'] 1(2) by (cases "e' = e") (auto simp: handshake_ok_def xchg_pending_def 1(1,3) t_def reason_defs)
      show "hup_ok s'" using i(2) by (simp add: hup_ok_def 1(1) t_def)
      have "coming s e' \<Longrightarrow> coming s' e'" for e' using r by (auto simp: coming_def 1(1) t_def reason_defs)
      then show "coming s e' \<Longrightarrow> coming s' e'" "so_ready s' e' \<Longrightarrow> (so_ready s e' \<Longrightarrow> so_pending s \<or> coming s e') \<Longrightarrow> so_pending s' \<or> coming s' e'" for e'
        by (auto simp: 1(1) t_def)
    qed (simp_all add: 1(1) t_def)
  next
    case 2
    have r: "r \<noteq> 0" "r \<le> 3" using i(3) [of e] 2(2) by (auto simp: local_ok_def reason_ok_def)
    show ?thesis
    proof (rule env_inv [OF inv])
      show "local_ok s' e'" for e' unfolding 2(1) by (rule tm [OF _ local_after_wake(2) [OF i(3) r]]) simp
      show "\<not> so_fault s'" using wake_no_fault(2) [OF i(3) r(1) i(1)] by (simp add: 2(1) t_def)
      show "handshake_ok s' e'" for e'
      proof (cases "e' = e")
        case True
        then show ?thesis using xchg_not_parked [OF i(3) [of e]] parked_exposed by (auto simp: handshake_ok_def 2(1) t_def)
      next
        case False
        then show ?thesis using i(4) [of e'] by (auto simp: handshake_ok_def xchg_pending_def 2(1) t_def xchg_woken_other)
      qed
      show "hup_ok s'" using i(2) by (simp add: hup_ok_def 2(1) t_def)
      have "coming s e' \<Longrightarrow> coming s' e'" for e' by (simp add: coming_def 2(1) t_def)
      then show "coming s e' \<Longrightarrow> coming s' e'" "so_ready s' e' \<Longrightarrow> (so_ready s e' \<Longrightarrow> so_pending s \<or> coming s e') \<Longrightarrow> so_pending s' \<or> coming s' e'" for e'
        by (auto simp: 2(1) t_def)
    qed (simp_all add: 2(1) t_def)
  qed
qed

lemma poll_inv:
  assumes inv: "sock_inv s" and step: "sock_step (SPoll i) s = Some s'"
  shows "sock_inv s'"
proof -
  obtain m where m: "so_mask s = Some m" "so_worker s i = VIdle"
    using step by (auto split: option.splits if_splits)
  define p where "p = (if event_flags s m = 0 then VIdle else VErr (event_flags s m))"
  have s': "s' = vgoto (s\<lparr>so_pending := False\<rparr>) i p" using step m by (simp add: p_def split: if_splits)
  have i: "\<not> so_fault s" "hup_ok s" "\<And>e. local_ok s e" "\<And>e. handshake_ok s e"
    using inv by (auto simp: sock_inv_def)
  have w: "so_worker s' = (so_worker s)(i := p)" by (simp add: s' vgoto_def)
  have c: "coming s' e" if "coming s e" for e
    by (rule coming_worker [OF that w]) (use m in \<open>auto simp: s' vgoto_def\<close>)
  show ?thesis
  proof (rule env_inv [OF inv])
    show "local_ok s' e" for e using i(3) [of e] by (subst local_sview [of s' e s]) (simp_all add: s' sview_def vgoto_def)
    have "xchg_pending s e \<Longrightarrow> xchg_pending s' e" for e
      using m by (auto simp: xchg_pending_def w s' vgoto_def) (metis at_xchg.simps(2))
    then show "handshake_ok s' e" for e using i(4) [of e] by (auto simp: handshake_ok_def s' vgoto_def)
    have "so_hup s \<Longrightarrow> will_error p" using event_flags_hup event_flags_hup_nonzero by (simp add: p_def)
    then show "hup_ok s'" by (auto simp: hup_ok_def s' vgoto_def)
    fix e k assume k: "so_mask s = Some k" "k AND end_flag e \<noteq> 0" "so_ready s' e"
    then have "event_flags s m AND end_flag e \<noteq> 0" using event_flags_ready m by (auto simp: s' vgoto_def)
    then have "will_cas e p" by (auto simp: p_def wakes_def)
    then show "so_pending s' \<or> coming s' e" by (auto simp: coming_def w)
  qed (use i(1) c in \<open>simp_all add: s' vgoto_def\<close>)
qed

lemma environment_inv:
  assumes inv: "sock_inv s"
  shows "sock_step (SFire e r) s = Some s' \<Longrightarrow> sock_inv s'" "sock_step (SArrive e) s = Some s' \<Longrightarrow> sock_inv s'"
    "sock_step SHangup s = Some s' \<Longrightarrow> sock_inv s'" "sock_step (SCall op timed f) s = Some s' \<Longrightarrow> sock_inv s'"
    "sock_step (SReopen fd) s = Some s' \<Longrightarrow> sock_inv s'"
proof -
  have i: "\<not> so_fault s" "hup_ok s" "\<And>e. local_ok s e" "\<And>e. handshake_ok s e" "\<And>e. error_ok s e" "\<And>e. ready_ok s e" "\<And>e. mask_ok s e"
    using inv by (auto simp: sock_inv_def)
  show "sock_inv s'" if "sock_step (SFire e r) s = Some s'"
  proof -
    have s': "s' = s\<lparr>so_tmr := (so_tmr s)(e := TCas r), so_timer := (so_timer s)(e := r = FEV_WAITER_TIMED_OUT_CHECK)\<rparr>"
        and r: "r \<noteq> 0" "r \<le> 3" and t: "so_tmr s e = TIdle"
      using that by (auto simp: reason_defs split: if_splits)
    have "coming s' = coming s" by (simp add: fun_eq_iff coming_def s')
    moreover have "local_ok s' e'" for e' using i(3) [of e'] r by (simp add: local_ok_def do_wake_ok_def reason_ok_def active_ok_def s')
    moreover have "handshake_ok s' e'" for e' using i(4) [of e'] t by (auto simp: handshake_ok_def xchg_pending_def s')
    moreover have "hup_ok s'" using i(2) by (simp add: hup_ok_def s')
    ultimately show ?thesis using i(1) by (intro env_inv [OF inv]) (simp_all add: s')
  qed
  show "sock_inv s'" if "sock_step (SArrive e) s = Some s'"
  proof -
    have s': "s' = s\<lparr>so_ready := (so_ready s)(e := True),
        so_pending := so_pending s \<or> (case so_mask s of Some m \<Rightarrow> m AND end_flag e \<noteq> 0 | None \<Rightarrow> False)\<rparr>"
      using that by simp
    have "coming s' = coming s" by (simp add: fun_eq_iff coming_def s')
    moreover have "local_ok s' e'" for e' using i(3) [of e'] by (simp add: local_ok_def do_wake_ok_def reason_ok_def active_ok_def s')
    moreover have "handshake_ok s' e'" for e' using i(4) [of e'] by (simp add: handshake_ok_def xchg_pending_def s')
    moreover have "hup_ok s'" using i(2) by (auto simp: hup_ok_def s')
    moreover have "so_pending s' \<or> coming s e'"
      if "so_mask s = Some m" "m AND end_flag e' \<noteq> 0" "so_ready s' e'" "so_ready s e' \<Longrightarrow> so_pending s \<or> coming s e'" for e' m
      using that by (cases "e' = e") (auto simp: s')
    ultimately show ?thesis using i(1) by (intro env_inv [OF inv]) (auto simp: s')
  qed
  show "sock_inv s'" if "sock_step SHangup s = Some s'"
  proof -
    have s': "s' = s\<lparr>so_hup := True, so_pending := so_pending s \<or> so_mask s \<noteq> None\<rparr>" using that by simp
    have "coming s' = coming s" by (simp add: fun_eq_iff coming_def s')
    moreover have "local_ok s' e'" for e' using i(3) [of e'] by (simp add: local_ok_def do_wake_ok_def reason_ok_def active_ok_def s')
    moreover have "handshake_ok s' e'" for e' using i(4) [of e'] by (simp add: handshake_ok_def xchg_pending_def s')
    moreover have "hup_ok s'" by (simp add: hup_ok_def s')
    ultimately show ?thesis using i(1) by (intro env_inv [OF inv]) (auto simp: s')
  qed
  show "sock_inv s'" if "sock_step (SCall op timed f) s = Some s'"
  proof -
    define e where "e = op_end op"
    have s': "s' = (ogoto s e OStore)\<lparr>so_op := (so_op s)(e := op), so_timed := (so_timed s)(e := timed), so_fiber := (so_fiber s)(e := f)\<rparr>"
        and f: "f \<noteq> 0" "so_pc s e = OIdle"
      using that by (auto simp: Let_def e_def split: if_splits)
    have "local_ok s' e'" for e'
    proof (cases "e' = e")
      case True
      then show ?thesis using i(3) [of e] f by (simp add: local_ok_def do_wake_ok_def reason_ok_def active_ok_def s' ogoto_def)
    next
      case False
      then show ?thesis using i(3) [of e'] local_sview [of s' e' s] by (simp add: s' ogoto_def sview_def)
    qed
    moreover have "handshake_ok s' e'" "error_ok s' e'" "ready_ok s' e'" "mask_ok s' e'" for e' using i(4-7) [of e'] f
      by (auto simp: handshake_ok_def error_ok_def ready_ok_def mask_ok_def xchg_pending_def coming_def s' ogoto_def)
    moreover have "hup_ok s'" using i(2) by (simp add: hup_ok_def s' ogoto_def)
    ultimately show ?thesis using i(1) by (simp add: sock_inv_def) (simp add: s' ogoto_def)
  qed
  show "sock_inv s'" if "sock_step (SReopen fd) s = Some s'"
  proof -
    have s': "s' = s\<lparr>so_socket := (so_socket s)\<lparr>sk_fd := fd\<rparr>, so_mask := None, so_ready := (\<lambda>_. False), so_hup := False,
        so_pending := False, so_reopened := True\<rparr>" and p: "so_pc s Rd = OIdle" "so_pc s Wr = OIdle"
      using that by (auto simp: fev_socket_close_def fev_socket_open_def fev_set_nonblock_def call_result_def split: if_splits)
    have idle: "so_pc s e = OIdle" for e using p by (cases e) auto
    have "local_ok s' e'" for e' using i(3) [of e'] by (simp add: local_ok_def do_wake_ok_def reason_ok_def active_ok_def s')
    moreover have "handshake_ok s' e'" "error_ok s' e'" "ready_ok s' e'" "mask_ok s' e'" for e'
      by (simp_all add: handshake_ok_def error_ok_def ready_ok_def mask_ok_def s' idle)
    moreover have "hup_ok s'" by (simp add: hup_ok_def s')
    ultimately show ?thesis using i(1) by (simp add: sock_inv_def) (simp add: s')
  qed
qed

interpretation sock: step_invariant sock_step "\<lambda>s. \<exists>fd. s = sock_sys_init fd" sock_inv
proof
  fix s assume "\<exists>fd. s = sock_sys_init fd"
  then obtain fd where s: "s = sock_sys_init fd" by blast
  have g: "get_end e (so_socket s) = \<lparr>se_waiter = zero_waiter, se_active = False\<rparr>" for e
    by (cases e) (simp_all add: s sock_sys_init_def fev_socket_init_def)
  have "local_ok s e" "handshake_ok s e" "error_ok s e" "ready_ok s e" "mask_ok s e" for e
    by (simp_all add: local_ok_def do_wake_ok_def reason_ok_def active_ok_def handshake_ok_def error_ok_def ready_ok_def mask_ok_def g)
       (simp_all add: s sock_sys_init_def zero_waiter_def)
  moreover have "hup_ok s" "\<not> so_fault s" by (simp_all add: hup_ok_def s sock_sys_init_def)
  ultimately show "sock_inv s" by (simp add: sock_inv_def)
next
  fix s t s' assume inv: "sock_inv s" and step: "sock_step t s = Some s'"
  note env = environment_inv [OF inv]
  show "sock_inv s'"
  proof (cases t)
    case (SFiber e ret errno stays)
    then show ?thesis using op_inv [OF inv] step by simp
  next
    case (SPoll i)
    show ?thesis by (rule poll_inv [OF inv step [unfolded SPoll]])
  next
    case (SWorker i)
    then show ?thesis using worker_inv [OF inv] step by simp
  next
    case (STimer e)
    then show ?thesis using timer_inv [OF inv] step by simp
  qed (use step in \<open>blast intro: env\<close>)+
qed

section \<open>Properties\<close>

text \<open>
  C9. In every interleaving of the two fibers, the workers, the timers and the kernel, also across closing and
  reopening, no assertion of a socket operation fails: in particular a fiber is woken only while it is suspended,
  and only once.
\<close>

theorem fev_socket_safe:
  assumes "run sock_step (sock_sys_init fd) evs = Some s"
  shows "\<not> so_fault s \<and> (so_woken s e \<longrightarrow> w_do_wake (so_waiter s e) = 0 \<and> exposed (so_pc s e))"
proof -
  have "sock_inv s" using assms by (rule sock.inv_run_init [rotated]) blast
  then show ?thesis
    by (auto simp: sock_inv_def local_ok_def do_wake_ok_def)
qed

text \<open>
  C8. No readiness is lost while a socket object is not opened a second time: as long as the socket has not been
  closed and opened again, when no event is pending, no worker is processing one and no timer is waking the
  fiber of an end, a fiber that is suspended in an operation and was not woken is right to wait. Its end is not
  ready, the connection is not broken, and nobody has set its reason. The condition is needed: after a close
  and a second open the claim is false, as \<open>fev_socket_reopen_hangs\<close> below shows.
\<close>

theorem fev_socket_no_lost_readiness:
  assumes "run sock_step (sock_sys_init fd) evs = Some s" "\<not> so_reopened s"
    and "\<not> so_pending s" "\<forall>i. so_worker s i = VIdle" "so_tmr s e = TIdle"
    and "so_pc s e = OSusp" "\<not> so_woken s e"
  shows "\<not> so_ready s e \<and> \<not> so_hup s \<and> w_reason (so_waiter s e) = FEV_WAITER_NONE \<and> sk_error (so_socket s) = 0"
proof -
  have "sock_inv s" using assms(1) by (rule sock.inv_run_init [rotated]) blast
  then have i: "handshake_ok s e" "error_ok s e" "ready_ok s e" "mask_ok s e" "local_ok s e" "hup_ok s" by (auto simp: sock_inv_def)
  have r: "w_reason (so_waiter s e) = 0" using i(1) assms by (auto simp: handshake_ok_def xchg_pending_def)
  then have c: "\<not> coming s e" using assms(4) by (simp add: coming_def)
  have "so_mask s \<noteq> None" using i(4,5) assms(2,6) by (auto simp: mask_ok_def local_ok_def active_ok_def)
  then show ?thesis using i(2,3,6) c r assms by (auto simp: error_ok_def ready_ok_def hup_ok_def reason_defs)
qed

section \<open>A worker on its own\<close>

lemma waiter_wake_steps:
  assumes "wake_asserts (so_waiter s e) FEV_WAITER_READY" "so_worker s i = VCas ev e"
  shows "\<exists>k s' res. k \<le> 2 \<and> run sock_step s (replicate k (SWorker i)) = Some s' \<and> so_worker s' i = after_end ev e \<and>
    fev_waiter_wake (so_waiter s e) FEV_WAITER_READY = Some (res, so_waiter s' e) \<and>
    so_socket s' = set_end e ((get_end e (so_socket s))\<lparr>se_waiter := so_waiter s' e\<rparr>) (so_socket s) \<and>
    so_woken s' = (so_woken s)(e := so_woken s e \<or> res = FEV_WAITER_SET_AND_WAKE_UP)"
proof -
  have id: "set_end e (get_end e k) k = k" for k by (cases e) simp_all
  have twice: "set_end e x (set_end e y k) = set_end e x k" for x y k by (cases e) simp_all
  note d = worker_step_def wake_cas_def wake_xchg_def sock_defs fev_waiter_wake_def Let_def id twice fun_upd_idem
  show ?thesis
  proof (cases "w_reason (so_waiter s e) = FEV_WAITER_NONE")
    case True
    then show ?thesis using assms by (intro exI [of _ 2]) (auto simp: d numeral_2_eq_2)
  next
    case False
    then show ?thesis using assms by (intro exI [of _ 1]) (auto simp: d)
  qed
qed

lemma wake_end_steps:
  assumes "wake_asserts (so_waiter s e) FEV_WAITER_READY" "so_worker s i = VCas ev e"
  shows "\<exists>k s' ends. k \<le> 2 \<and> run sock_step s (replicate k (SWorker i)) = Some s' \<and> so_worker s' i = after_end ev e \<and>
    wake_end True (e = Rd) (so_socket s) fibers num =
      Some (so_socket s', fibers @ map (\<lambda>e. w_fiber (so_waiter s e)) ends, num + of_nat (length ends)) \<and>
    ends \<in> {[], [e]} \<and> (\<forall>e'. so_woken s' e' \<longleftrightarrow> so_woken s e' \<or> e' \<in> set ends) \<and>
    (\<forall>e'. e' \<noteq> e \<longrightarrow> get_end e' (so_socket s') = get_end e' (so_socket s))"
proof -
  obtain k s' res where k: "k \<le> 2" "run sock_step s (replicate k (SWorker i)) = Some s'" "so_worker s' i = after_end ev e"
      "fev_waiter_wake (so_waiter s e) FEV_WAITER_READY = Some (res, so_waiter s' e)"
      "so_socket s' = set_end e ((get_end e (so_socket s))\<lparr>se_waiter := so_waiter s' e\<rparr>) (so_socket s)"
      "so_woken s' = (so_woken s)(e := so_woken s e \<or> res = FEV_WAITER_SET_AND_WAKE_UP)"
    using waiter_wake_steps [OF assms] by blast
  define ends where "ends = (if res = FEV_WAITER_SET_AND_WAKE_UP then [e] else [])"
  have "wake_end True (e = Rd) (so_socket s) fibers num =
      Some (so_socket s', fibers @ map (\<lambda>e. w_fiber (so_waiter s e)) ends, num + of_nat (length ends))"
    using k(4,5) by (cases e) (auto simp: wake_end_def wake_into_def ends_def)
  moreover have "get_end e' (so_socket s') = get_end e' (so_socket s)" if "e' \<noteq> e" for e' by (subst k(5)) (simp add: that)
  ultimately show ?thesis using k(1-3,6) by (intro exI [of _ k] exI [of _ s'] exI [of _ ends]) (auto simp: ends_def)
qed

text \<open>
  Between two steps of others a worker does what the sequential \<open>fev_process_socket\<close> does: running alone it
  comes to the end of the event in at most five steps, with the socket and the list of fibers that the function
  yields, and these are the fibers of the ends that it has woken.
\<close>

theorem fev_process_socket_steps:
  assumes "so_worker s i = VErr ev" and "\<forall>e. wake_asserts (so_waiter s e) FEV_WAITER_READY"
  shows "\<exists>k s' ends. k \<le> 5 \<and> run sock_step s (replicate k (SWorker i)) = Some s' \<and> so_worker s' i = VIdle \<and>
    fev_process_socket \<lparr>ev_events = ev, ev_ptr = p\<rparr> (so_socket s) [] 0 =
      Some (so_socket s', map (\<lambda>e. w_fiber (so_waiter s e)) ends, of_nat (length ends)) \<and>
    distinct ends \<and> (\<forall>e. so_woken s' e \<longleftrightarrow> so_woken s e \<or> e \<in> set ends)"
proof -
  let ?t = "SWorker i"
  define s1 where "s1 = vgoto (if ev_error ev then s\<lparr>so_socket := (so_socket s)\<lparr>sk_error := 1\<rparr>\<rparr> else s) i
                  (if wakes ev Rd then VCas ev Rd else after_end ev Rd)"
  have s1: "run sock_step s (replicate 1 ?t) = Some s1" "get_end e (so_socket s1) = get_end e (so_socket s)" "so_woken s1 = so_woken s"
      "so_worker s1 i = (if wakes ev Rd then VCas ev Rd else after_end ev Rd)"
      "so_socket s1 = (if ev_error ev then (so_socket s)\<lparr>sk_error := 1\<rparr> else so_socket s)" for e
    using assms(1) by (simp_all add: worker_step_def s1_def vgoto_def)
  obtain k1 s2 ends1 where 2: "k1 \<le> 2" "run sock_step s1 (replicate k1 ?t) = Some s2" "so_worker s2 i = after_end ev Rd"
      "wake_end (wakes ev Rd) True (so_socket s1) [] 0 = Some (so_socket s2, map (\<lambda>e. w_fiber (so_waiter s e)) ends1, of_nat (length ends1))"
      "ends1 \<in> {[], [Rd]}" "\<forall>e. so_woken s2 e \<longleftrightarrow> so_woken s e \<or> e \<in> set ends1" "get_end Wr (so_socket s2) = get_end Wr (so_socket s)"
  proof (cases "wakes ev Rd")
    case True
    have a: "wake_asserts (so_waiter s1 Rd) FEV_WAITER_READY" using assms(2) unfolding s1(2) by blast
    have w: "so_worker s1 i = VCas ev Rd" using True s1(4) by simp
    show ?thesis
      using wake_end_steps [OF a w, of "[]" 0, unfolded s1(2,3)] that True by (simp only: append_Nil add_0 simp_thms) blast
  next
    case False
    then show ?thesis using that [of 0 s1 "[]"] s1 by (simp add: wake_end_def del: get_end.simps)
  qed
  obtain k2 s3 ends2 where 3: "k2 \<le> 2" "run sock_step s2 (replicate k2 ?t) = Some s3" "so_worker s3 i = VIdle"
      "wake_end (wakes ev Wr) False (so_socket s2) (map (\<lambda>e. w_fiber (so_waiter s e)) ends1) (of_nat (length ends1)) =
         Some (so_socket s3, map (\<lambda>e. w_fiber (so_waiter s e)) (ends1 @ ends2), of_nat (length (ends1 @ ends2)))"
      "ends2 \<in> {[], [Wr]}" "\<forall>e. so_woken s3 e \<longleftrightarrow> so_woken s2 e \<or> e \<in> set ends2"
  proof (cases "wakes ev Wr")
    case True
    have a: "wake_asserts (so_waiter s2 Wr) FEV_WAITER_READY" using assms(2) unfolding 2(7) by blast
    have w: "so_worker s2 i = VCas ev Wr" using True 2(3) by simp
    obtain k s3 ends where r: "k \<le> 2" "run sock_step s2 (replicate k ?t) = Some s3" "so_worker s3 i = VIdle"
        "wake_end True False (so_socket s2) (map (\<lambda>e. w_fiber (so_waiter s e)) ends1) (of_nat (length ends1)) =
           Some (so_socket s3, map (\<lambda>e. w_fiber (so_waiter s e)) ends1 @ map (\<lambda>e. w_fiber (so_waiter s2 e)) ends, of_nat (length ends1) + of_nat (length ends))"
        "ends \<in> {[], [Wr]}" "\<forall>e. so_woken s3 e \<longleftrightarrow> so_woken s2 e \<or> e \<in> set ends"
      using wake_end_steps [OF a w, of "map (\<lambda>e. w_fiber (so_waiter s e)) ends1" "of_nat (length ends1)"] by auto
    have "map (\<lambda>e. w_fiber (so_waiter s2 e)) ends = map (\<lambda>e. w_fiber (so_waiter s e)) ends"
      using r(5) 2(7) by (auto simp del: get_end.simps)
    then show ?thesis using that [OF r(1-3) _ r(5,6)] r(4) True by simp
  next
    case False
    then show ?thesis using that [of 0 s2 "[]"] 2 by (simp add: wake_end_def del: get_end.simps)
  qed
  have "run sock_step s (replicate (1 + k1 + k2) ?t) = Some s3"
    using s1(1) 2(2) 3(2) by (simp only: replicate_add run_append option.simps)
  moreover have "fev_process_socket \<lparr>ev_events = ev, ev_ptr = p\<rparr> (so_socket s) [] 0 =
      Some (so_socket s3, map (\<lambda>e. w_fiber (so_waiter s e)) (ends1 @ ends2), of_nat (length (ends1 @ ends2)))"
    using 2(4) 3(4) by (simp add: fev_process_socket_ends event_error_def wakes_def ev_error_def s1(5))
  moreover have "distinct (ends1 @ ends2)" using 2(5) 3(5) by auto
  ultimately show ?thesis using 2(1,6) 3(1,3,6) by (intro exI [of _ "1 + k1 + k2"] exI [of _ s3] exI [of _ "ends1 @ ends2"]) auto
qed

section \<open>A race and a leak of state\<close>

text \<open>A call that would block, up to the registration; the wait; the end becomes ready and worker 0 processes the event.\<close>

definition blocking_call :: "sock_op \<Rightarrow> sock_event list" where
  "blocking_call op = [SCall op False 1, SFiber (op_end op) 0 0 False, SFiber (op_end op) (- 1) EAGAIN False]"

definition fiber_steps :: "nat \<Rightarrow> sock_end \<Rightarrow> sock_event list" where
  "fiber_steps n e = replicate n (SFiber e 0 0 False)"

definition arrival :: "sock_end \<Rightarrow> sock_event list" where
  "arrival e = [SArrive e, SPoll 0, SWorker 0, SWorker 0, SWorker 0]"

definition read_run :: "sock_event list" where
  "read_run = blocking_call Read @ fiber_steps 8 Rd"

definition race_run :: "sock_event list" where
  "race_run = blocking_call Read @ blocking_call Write @ [SFiber Rd 0 0 False, SFiber Wr 0 0 False, SFiber Rd 0 0 False, SFiber Wr 0 0 False]"

definition reopen_run :: "sock_event list" where
  "reopen_run =
     read_run @ arrival Rd @ fiber_steps 2 Rd @ [SFiber Rd 5 0 False, SReopen 4] @ blocking_call Read @ fiber_steps 5 Rd @ [SArrive Rd]"

lemmas sock_run_defs = read_run_def race_run_def reopen_run_def blocking_call_def fiber_steps_def arrival_def op_step_def worker_step_def
  wake_cas_def wake_xchg_def wake_asserts_def epoll_ctl_def event_flags_def wakes_def ev_error_def fev_poller_register_def
  sock_sys_init_def fev_socket_init_def zero_waiter_def epoll_flags reason_defs errno_defs numeral_eq_Suc
  fev_socket_close_def fev_socket_open_def fev_set_nonblock_def call_result_def sock_defs Let_def

text \<open>
  Two fibers that use the two ends of a socket for the first time at the same time race in
  \<open>fev_poller_register\<close>: both find the socket unregistered, and the second \<open>EPOLL_CTL_ADD\<close> fails, so that an
  operation that should wait returns \<open>-EEXIST\<close>.
\<close>

theorem fev_socket_register_race:
  "\<exists>s. run sock_step (sock_sys_init 3) race_run = Some s \<and> so_result s Wr = Some (- EEXIST) \<and> \<not> so_active s Wr \<and>
     (\<forall>ev err. sock_step (SFiber Rd ev err False) s \<noteq> None)"
  by (simp add: sock_run_defs)

text \<open>A reader for which no event will ever come.\<close>

definition forgotten :: "sock_sys \<Rightarrow> bool" where
  "forgotten s \<longleftrightarrow>
     so_mask s = None \<and> so_active s Rd \<and> (\<forall>i. so_worker s i = VIdle) \<and> so_tmr s Rd = TIdle \<and> \<not> so_timer s Rd \<and>
     so_pc s Rd = OSusp \<and> \<not> so_woken s Rd \<and> (\<forall>m. so_pc s Wr \<noteq> OCtl EPOLL_CTL_ADD m)"

lemma forgotten_op:
  assumes f: "forgotten s" and step: "op_step e ret errno stays s = Some s'"
  shows "forgotten s'"
proof (cases e)
  case Rd
  then show ?thesis using f step by (auto simp: forgotten_def op_step_def)
next
  case Wr
  then have step': "op_step Wr ret errno stays s = Some s'" using step by simp
  note v = sview_fields [OF op_frame [OF step'], of Rd] and w = op_worker [OF step']
  show ?thesis using step' f
  proof (cases rule: op_step_cases)
    case (register op m)
    then have "op = EPOLL_CTL_MOD" using f by (auto simp: fev_poller_register_def forgotten_def epoll_flags Let_def split: if_splits)
    then show ?thesis using register f by (auto simp: forgotten_def sock_defs)
  qed (auto simp: forgotten_def sock_defs)
qed

interpretation forgotten: step_invariant sock_step forgotten forgotten
proof
  fix s t s' assume f: "forgotten s" and step: "sock_step t s = Some s'"
  show "forgotten s'"
  proof (cases t)
    case (SFiber e ret errno stays)
    then show ?thesis using forgotten_op [OF f] step by simp
  next
    case (STimer e)
    then have "e = Wr" using f step by (cases e) (auto simp: forgotten_def timer_step_def)
    then show ?thesis using f step STimer
      by (auto simp: forgotten_def timer_step_def xchg_woken_other simp del: get_end.simps split: tm_pc.splits)
  next
    case (SCall op timed f)
    then show ?thesis using f step \<open>forgotten s\<close> by (cases op) (auto simp: forgotten_def ogoto_def split: if_splits)
  next
    case (SPoll i)
    then show ?thesis using f step by (auto simp: forgotten_def split: option.splits)
  next
    case (SWorker i)
    then show ?thesis using f step by (auto simp: forgotten_def worker_step_def)
  next
    case (SFire e r)
    then show ?thesis using f step by (cases e) (auto simp: forgotten_def split: if_splits)
  qed (use f step in \<open>auto simp: forgotten_def split: if_splits\<close>)
qed

text \<open>
  \<open>fev_socket_close\<close> does not reset \<open>active\<close>: when a socket is opened again after it was used, an operation
  that has to wait is not registered with the poller. Its fiber stays suspended for ever, although data has
  arrived and whatever happens afterwards.
\<close>

theorem fev_socket_reopen_hangs:
  "\<exists>s. run sock_step (sock_sys_init 3) reopen_run = Some s \<and> so_ready s Rd \<and>
     (\<forall>evs s'. run sock_step s evs = Some s' \<longrightarrow> so_pc s' Rd = OSusp \<and> \<not> so_woken s' Rd)"
proof -
  obtain s where s: "run sock_step (sock_sys_init 3) reopen_run = Some s" "so_ready s Rd" "forgotten s"
    by (simp add: sock_run_defs forgotten_def)
  then show ?thesis using forgotten.inv_run_init [OF s(3)] unfolding forgotten_def by blast
qed

section \<open>Witnesses\<close>

theorem fev_socket_reopen_hangs_witness:
  "\<exists>s s'. run sock_step (sock_sys_init 3) reopen_run = Some s \<and> run sock_step s [SArrive Wr, SArrive Rd] = Some s' \<and>
     so_ready s' Rd \<and> so_pc s' Rd = OSusp \<and> \<not> so_woken s' Rd"
proof -
  obtain s where s: "run sock_step (sock_sys_init 3) reopen_run = Some s"
      "\<And>evs s'. run sock_step s evs = Some s' \<Longrightarrow> so_pc s' Rd = OSusp \<and> \<not> so_woken s' Rd"
    using fev_socket_reopen_hangs by blast
  obtain s' where "run sock_step s [SArrive Wr, SArrive Rd] = Some s'" "so_ready s' Rd" by simp
  then show ?thesis using s by blast
qed

theorem fev_socket_safe_witness:
  "\<exists>s. run sock_step (sock_sys_init 3) (read_run @ arrival Rd) = Some s \<and> so_woken s Rd \<and> \<not> so_fault s \<and> w_do_wake (so_waiter s Rd) = 0"
proof -
  obtain s where s: "run sock_step (sock_sys_init 3) (read_run @ arrival Rd) = Some s" "so_woken s Rd"
    by (simp add: sock_run_defs)
  then show ?thesis using fev_socket_safe [OF s(1), of Rd] by blast
qed

theorem fev_socket_no_lost_readiness_witness:
  "\<exists>s. run sock_step (sock_sys_init 3) read_run = Some s \<and> so_pc s Rd = OSusp \<and> \<not> so_woken s Rd \<and> \<not> so_ready s Rd \<and> \<not> so_hup s"
proof -
  obtain s where s: "run sock_step (sock_sys_init 3) read_run = Some s" "\<not> so_reopened s" "\<not> so_pending s" "\<forall>i. so_worker s i = VIdle"
      "so_tmr s Rd = TIdle" "so_pc s Rd = OSusp" "\<not> so_woken s Rd"
    by (simp add: sock_run_defs)
  then show ?thesis using fev_socket_no_lost_readiness [OF s] by blast
qed

definition polled_run :: "sock_event list" where
  "polled_run = read_run @ [SArrive Rd, SPoll 0]"

theorem fev_process_socket_steps_witness:
  "\<exists>s k s'. run sock_step (sock_sys_init 3) polled_run = Some s \<and> k \<le> 5 \<and> run sock_step s (replicate k (SWorker 0)) = Some s' \<and>
     so_worker s' 0 = VIdle \<and> fev_process_socket \<lparr>ev_events = EPOLLIN, ev_ptr = 16\<rparr> (so_socket s) [] 0 = Some (so_socket s', [1], 1)"
proof -
  obtain s where s: "run sock_step (sock_sys_init 3) polled_run = Some s" "so_worker s 0 = VErr EPOLLIN"
      "wake_asserts (so_waiter s Rd) FEV_WAITER_READY" "wake_asserts (so_waiter s Wr) FEV_WAITER_READY"
      "map_option (\<lambda>(_, f, n). (f, n)) (fev_process_socket \<lparr>ev_events = EPOLLIN, ev_ptr = 16\<rparr> (so_socket s) [] 0) = Some ([1], 1)"
    by (simp add: polled_run_def sock_run_defs fev_process_socket_def event_error_def wake_into_def fev_waiter_wake_def)
  then have "\<forall>e. wake_asserts (so_waiter s e) FEV_WAITER_READY" using sock_end.exhaust by metis
  from fev_process_socket_steps [OF s(2) this, of 16] show ?thesis using s(1,5) by fastforce
qed

end
