(* ===== verification/Uring.thy ===== *)
theory Uring
  imports Spmc_Queue Fev_Time
begin

text \<open>
  The io\_uring back end (\<open>fev_poller_io_uring.h\<close>, \<open>fev_poller_io_uring.c\<close>, \<open>fev_socket_io_uring.c\<close>): the
  submission and completion rings that the library shares with the kernel, the requests that socket operations
  make, and one iteration of the loop that takes completions. Theory \<open>Uring_Concurrent\<close> runs them together.
\<close>

unbundle bit_operations_syntax

section \<open>Rings\<close>

definition EBUSY :: int where "EBUSY = 16"
definition ECANCELED :: int where "ECANCELED = 125"

lemmas [errno_defs] = EBUSY_def ECANCELED_def

text \<open>The kernel's numbers of the operations and of the link flag (\<open>linux/io_uring.h\<close>).\<close>

definition IORING_OP_ACCEPT :: u8 where "IORING_OP_ACCEPT = 13"
definition IORING_OP_LINK_TIMEOUT :: u8 where "IORING_OP_LINK_TIMEOUT = 15"
definition IORING_OP_CONNECT :: u8 where "IORING_OP_CONNECT = 16"
definition IORING_OP_READ :: u8 where "IORING_OP_READ = 22"
definition IORING_OP_WRITE :: u8 where "IORING_OP_WRITE = 23"
definition IOSQE_IO_LINK :: u8 where "IOSQE_IO_LINK = 4"

record io_uring_sqe =
  sqe_opcode :: u8
  sqe_flags :: u8
  sqe_fd :: int
  sqe_off :: u64
  sqe_addr :: u64
  sqe_len :: u32
  sqe_user_data :: u64

record io_uring_cqe =
  cqe_user_data :: u64
  cqe_res :: int

text \<open>
  The pointers of \<open>fev_poller_sqring\<close> are dereferenced: the record holds the shared words themselves. The library
  writes \<open>tail\<close>, \<open>array\<close> and \<open>sqes\<close>; the kernel writes \<open>head\<close>.
\<close>

record fev_poller_sqring =
  sq_head :: u32
  sq_tail :: u32
  sq_ring_mask :: u32
  sq_ring_entries :: u32
  sq_array :: "u32 option list"
  sq_sqes :: "io_uring_sqe option list"

text \<open>Here the kernel writes \<open>tail\<close> and \<open>cqes\<close>, the library writes \<open>head\<close>.\<close>

record fev_poller_cqring =
  cq_head :: u32
  cq_tail :: u32
  cq_ring_mask :: u32
  cq_ring_entries :: u32
  cq_cqes :: "io_uring_cqe option list"

text \<open>The slots for the next \<open>n\<close> requests; \<open>None\<close> is the result \<open>false\<close>, that the ring has no room.\<close>

definition fev_poller_get_sqes :: "fev_poller_sqring \<Rightarrow> u32 \<Rightarrow> u32 list option" where
  "fev_poller_get_sqes r n =
     (if sq_tail r + n - sq_head r > sq_ring_entries r then None
      else Some (map (\<lambda>i. (sq_tail r + of_nat i) AND sq_ring_mask r) [0..<unat n]))"

definition fev_poller_make_sqe ::
  "fev_poller_sqring \<Rightarrow> u32 \<Rightarrow> u8 \<Rightarrow> u8 \<Rightarrow> int \<Rightarrow> u64 \<Rightarrow> u64 \<Rightarrow> u32 \<Rightarrow> u64 \<Rightarrow> fev_poller_sqring option" where
  "fev_poller_make_sqe r slot opcode flags fd off adr len user_data =
     do { sqes \<leftarrow> aset (sq_sqes r) (unat slot)
                   \<lparr>sqe_opcode = opcode, sqe_flags = flags, sqe_fd = fd, sqe_off = off, sqe_addr = adr,
                    sqe_len = len, sqe_user_data = user_data\<rparr>;
          Some (r\<lparr>sq_sqes := sqes\<rparr>) }"

text \<open>The loop of \<open>fev_poller_submit\<close> that names the slots of the new requests in the index array.\<close>

fun submit_loop :: "nat \<Rightarrow> u32 \<Rightarrow> u32 option list \<Rightarrow> u32 \<Rightarrow> (u32 option list \<times> u32) option" where
  "submit_loop 0 ring_mask arr tail = Some (arr, tail)"
| "submit_loop (Suc n) ring_mask arr tail =
     do { arr \<leftarrow> aset arr (unat (tail AND ring_mask)) (tail AND ring_mask);
          submit_loop n ring_mask arr (tail + 1) }"

text \<open>
  What the kernel does in \<open>io_uring_enter\<close> without a polling thread: it takes requests from the head on, each through
  the index array, and advances the head. \<open>n\<close> is the number it takes.
\<close>

fun io_uring_take :: "nat \<Rightarrow> fev_poller_sqring \<Rightarrow> (io_uring_sqe list \<times> fev_poller_sqring) option" where
  "io_uring_take 0 r = Some ([], r)"
| "io_uring_take (Suc n) r =
     do { slot \<leftarrow> aget (sq_array r) (unat (sq_head r AND sq_ring_mask r));
          sqe \<leftarrow> aget (sq_sqes r) (unat slot);
          (sqes, r) \<leftarrow> io_uring_take n (r\<lparr>sq_head := sq_head r + 1\<rparr>);
          Some (sqe # sqes, r) }"

text \<open>
  \<open>ret\<close> is what the system call reports: the number of requests it took, at most the number asked for, or the
  negated \<open>errno\<close>. The result: the return value, the requests the kernel took, and the ring.
\<close>

definition fev_poller_submit ::
  "fev_poller_sqring \<Rightarrow> u32 \<Rightarrow> int \<Rightarrow> (int \<times> io_uring_sqe list \<times> fev_poller_sqring) option" where
  "fev_poller_submit r num_sqes ret =
     do { (arr, tail) \<leftarrow> submit_loop (unat num_sqes) (sq_ring_mask r) (sq_array r) (sq_tail r);
          (sqes, r) \<leftarrow> io_uring_take (nat ret) (r\<lparr>sq_array := arr, sq_tail := tail\<rparr>);
          Some (ret, sqes, r) }"

text \<open>Submitting the read of the event descriptor; every failure aborts the process.\<close>

definition fev_poller_submit_eventfd ::
  "fev_poller_sqring \<Rightarrow> int \<Rightarrow> u64 \<Rightarrow> int \<Rightarrow> (io_uring_sqe list \<times> fev_poller_sqring) option" where
  "fev_poller_submit_eventfd r event_fd event_value ret =
     do { slots \<leftarrow> fev_poller_get_sqes r 1;
          r \<leftarrow> fev_poller_make_sqe r (slots ! 0) IORING_OP_READ 0 event_fd 0 event_value 8 0;
          (n, sqes, r) \<leftarrow> fev_poller_submit r 1 ret;
          (if n = 1 then Some (sqes, r) else None) }"

section \<open>Sockets\<close>

record fev_socket_end_uring =
  se_fiber :: fiber_ptr
  se_num_entries :: u32
  se_res :: int

text \<open>
  A socket is named by its address; its two ends lie 8 and 24 bytes behind it. Ends are kept in a memory of their own,
  by address.
\<close>

record fev_socket_uring =
  so_addr :: u64
  so_fd :: int

definition so_read_end :: "fev_socket_uring \<Rightarrow> u64" where
  "so_read_end s = so_addr s + 8"

definition so_write_end :: "fev_socket_uring \<Rightarrow> u64" where
  "so_write_end s = so_addr s + 24"

definition fev_socket_init_uring :: "u64 \<Rightarrow> fev_socket_uring" where
  "fev_socket_init_uring p = \<lparr>so_addr = p, so_fd = -1\<rparr>"

text \<open>\<open>p\<close> is what the allocator returned, \<open>0\<close> when there is no memory.\<close>

definition fev_socket_create_uring :: "u64 \<Rightarrow> int + fev_socket_uring" where
  "fev_socket_create_uring p = (if p = 0 then Inl (- ENOMEM) else Inr (fev_socket_init_uring p))"

text \<open>
  The operations that are one system call: \<open>call\<close> gives the result and \<open>errno\<close> of the call on a descriptor.
\<close>

definition fev_socket_set_opt_uring :: "(int \<Rightarrow> int \<times> int) \<Rightarrow> fev_socket_uring \<Rightarrow> int" where
  "fev_socket_set_opt_uring setsockopt_call s =
     (let (ret, err) = setsockopt_call (so_fd s) in if ret = 0 then 0 else - err)"

definition fev_socket_bind_uring :: "(int \<Rightarrow> int \<times> int) \<Rightarrow> fev_socket_uring \<Rightarrow> int" where
  "fev_socket_bind_uring bind_call s = (let (ret, err) = bind_call (so_fd s) in if ret = 0 then 0 else - err)"

definition fev_socket_listen_uring :: "(int \<Rightarrow> int \<times> int) \<Rightarrow> fev_socket_uring \<Rightarrow> int" where
  "fev_socket_listen_uring listen_call s = (let (ret, err) = listen_call (so_fd s) in if ret = 0 then 0 else - err)"

definition fev_socket_open_uring :: "int \<times> int \<Rightarrow> fev_socket_uring \<Rightarrow> int \<times> fev_socket_uring" where
  "fev_socket_open_uring socket_call s =
     (let (fd, err) = socket_call in if fd < 0 then (- err, s) else (0, s\<lparr>so_fd := fd\<rparr>))"

definition fev_socket_close_uring :: "(int \<Rightarrow> int \<times> int) \<Rightarrow> fev_socket_uring \<Rightarrow> int \<times> fev_socket_uring" where
  "fev_socket_close_uring close_call s =
     (if so_fd s \<noteq> -1
      then let (ret, err) = close_call (so_fd s) in if ret < 0 then (- err, s) else (0, s\<lparr>so_fd := -1\<rparr>)
      else (0, s))"

text \<open>
  What \<open>fev_socket_submit_and_wait\<close> (no time limit) and \<open>fev_socket_submit_and_wait_for\<close> are called with. A time
  limit is copied into a variable of the caller's frame, whose address is \<open>uc_ts\<close>.
\<close>

record uring_call =
  uc_fd :: int
  uc_end :: u64
  uc_opcode :: u8
  uc_off :: u64
  uc_addr :: u64
  uc_len :: u32
  uc_timed :: "timespec option"
  uc_ts :: u64

definition uring_call_of :: "int \<Rightarrow> u64 \<Rightarrow> u8 \<Rightarrow> u64 \<Rightarrow> u64 \<Rightarrow> u32 \<Rightarrow> (timespec \<times> u64) option \<Rightarrow> uring_call" where
  "uring_call_of fd e opcode off adr len limit =
     \<lparr>uc_fd = fd, uc_end = e, uc_opcode = opcode, uc_off = off, uc_addr = adr, uc_len = len,
      uc_timed = map_option fst limit, uc_ts = (case limit of None \<Rightarrow> 0 | Some (_, ts) \<Rightarrow> ts)\<rparr>"

definition fev_socket_accept_uring :: "fev_socket_uring \<Rightarrow> u64 \<Rightarrow> u64 \<Rightarrow> uring_call" where
  "fev_socket_accept_uring s address address_len =
     uring_call_of (so_fd s) (so_read_end s) IORING_OP_ACCEPT address_len address 0 None"

definition fev_socket_read_uring :: "fev_socket_uring \<Rightarrow> u64 \<Rightarrow> u64 \<Rightarrow> uring_call" where
  "fev_socket_read_uring s buf sz = uring_call_of (so_fd s) (so_read_end s) IORING_OP_READ 0 buf (ucast sz) None"

definition fev_socket_write_uring :: "fev_socket_uring \<Rightarrow> u64 \<Rightarrow> u64 \<Rightarrow> uring_call" where
  "fev_socket_write_uring s buf sz = uring_call_of (so_fd s) (so_write_end s) IORING_OP_WRITE 0 buf (ucast sz) None"

definition fev_socket_try_accept_for_uring :: "fev_socket_uring \<Rightarrow> u64 \<Rightarrow> u64 \<Rightarrow> timespec \<times> u64 \<Rightarrow> uring_call" where
  "fev_socket_try_accept_for_uring s address address_len rel_time =
     uring_call_of (so_fd s) (so_read_end s) IORING_OP_ACCEPT address_len address 0 (Some rel_time)"

definition fev_socket_try_connect_for_uring :: "fev_socket_uring \<Rightarrow> u64 \<Rightarrow> u32 \<Rightarrow> timespec \<times> u64 \<Rightarrow> uring_call" where
  "fev_socket_try_connect_for_uring s address address_len rel_time =
     uring_call_of (so_fd s) (so_write_end s) IORING_OP_CONNECT (ucast address_len) address 0 (Some rel_time)"

definition fev_socket_try_read_for_uring :: "fev_socket_uring \<Rightarrow> u64 \<Rightarrow> u64 \<Rightarrow> timespec \<times> u64 \<Rightarrow> uring_call" where
  "fev_socket_try_read_for_uring s buf sz rel_time =
     uring_call_of (so_fd s) (so_read_end s) IORING_OP_READ 0 buf (ucast sz) (Some rel_time)"

definition fev_socket_try_write_for_uring :: "fev_socket_uring \<Rightarrow> u64 \<Rightarrow> u64 \<Rightarrow> timespec \<times> u64 \<Rightarrow> uring_call" where
  "fev_socket_try_write_for_uring s buf sz rel_time =
     uring_call_of (so_fd s) (so_write_end s) IORING_OP_WRITE 0 buf (ucast sz) (Some rel_time)"

text \<open>The variants with an absolute limit; \<open>now\<close> is what the clock reports.\<close>

definition fev_socket_try_accept_until_uring ::
  "timespec \<Rightarrow> fev_socket_uring \<Rightarrow> u64 \<Rightarrow> u64 \<Rightarrow> timespec \<Rightarrow> u64 \<Rightarrow> uring_call option" where
  "fev_socket_try_accept_until_uring now s address address_len abs_time ts =
     do { rel_time \<leftarrow> fev_timespec_abs_to_rel now abs_time;
          Some (fev_socket_try_accept_for_uring s address address_len (rel_time, ts)) }"

definition fev_socket_try_connect_until_uring ::
  "timespec \<Rightarrow> fev_socket_uring \<Rightarrow> u64 \<Rightarrow> u32 \<Rightarrow> timespec \<Rightarrow> u64 \<Rightarrow> uring_call option" where
  "fev_socket_try_connect_until_uring now s address address_len abs_time ts =
     do { rel_time \<leftarrow> fev_timespec_abs_to_rel now abs_time;
          Some (fev_socket_try_connect_for_uring s address address_len (rel_time, ts)) }"

definition fev_socket_try_read_until_uring ::
  "timespec \<Rightarrow> fev_socket_uring \<Rightarrow> u64 \<Rightarrow> u64 \<Rightarrow> timespec \<Rightarrow> u64 \<Rightarrow> uring_call option" where
  "fev_socket_try_read_until_uring now s buf sz abs_time ts =
     do { rel_time \<leftarrow> fev_timespec_abs_to_rel now abs_time;
          Some (fev_socket_try_read_for_uring s buf sz (rel_time, ts)) }"

definition fev_socket_try_write_until_uring ::
  "timespec \<Rightarrow> fev_socket_uring \<Rightarrow> u64 \<Rightarrow> u64 \<Rightarrow> timespec \<Rightarrow> u64 \<Rightarrow> uring_call option" where
  "fev_socket_try_write_until_uring now s buf sz abs_time ts =
     do { rel_time \<leftarrow> fev_timespec_abs_to_rel now abs_time;
          Some (fev_socket_try_write_for_uring s buf sz (rel_time, ts)) }"

text \<open>
  The first half of \<open>fev_socket_submit_and_wait\<close>, up to the switch away from the fiber: the fiber either goes on
  with an error, or is suspended. The requests the kernel took are returned; \<open>None\<close> is the abort.
\<close>

datatype submit_outcome = SubmitReturn int | SubmitSwitch

definition fev_socket_submit_and_wait_begin ::
  "uring_call \<Rightarrow> fiber_ptr \<Rightarrow> int \<Rightarrow> fev_poller_sqring \<Rightarrow> fev_socket_end_uring \<Rightarrow>
   (submit_outcome \<times> io_uring_sqe list \<times> fev_poller_sqring \<times> fev_socket_end_uring) option" where
  "fev_socket_submit_and_wait_begin c cur_fiber enter_ret r e =
     (let e = e\<lparr>se_fiber := cur_fiber, se_num_entries := 1\<rparr>
      in case fev_poller_get_sqes r 1 of
           None \<Rightarrow> Some (SubmitReturn (- EBUSY), [], r, e)
         | Some slots \<Rightarrow>
             do { r \<leftarrow> fev_poller_make_sqe r (slots ! 0) (uc_opcode c) 0 (uc_fd c) (uc_off c) (uc_addr c) (uc_len c)
                                          (uc_end c);
                  (ret, sqes, r) \<leftarrow> fev_poller_submit r 1 enter_ret;
                  (if ret \<noteq> 1
                   then if ret < 0 then Some (SubmitReturn ret, sqes, r, e) else None
                   else Some (SubmitSwitch, sqes, r, e)) })"

definition fev_socket_submit_and_wait_for_begin ::
  "uring_call \<Rightarrow> fiber_ptr \<Rightarrow> int \<Rightarrow> fev_poller_sqring \<Rightarrow> fev_socket_end_uring \<Rightarrow>
   (submit_outcome \<times> io_uring_sqe list \<times> fev_poller_sqring \<times> fev_socket_end_uring) option" where
  "fev_socket_submit_and_wait_for_begin c cur_fiber enter_ret r e =
     (let e = e\<lparr>se_fiber := cur_fiber, se_num_entries := 2\<rparr>
      in case fev_poller_get_sqes r 2 of
           None \<Rightarrow> Some (SubmitReturn (- EBUSY), [], r, e)
         | Some slots \<Rightarrow>
             do { r \<leftarrow> fev_poller_make_sqe r (slots ! 0) (uc_opcode c) IOSQE_IO_LINK (uc_fd c) (uc_off c) (uc_addr c)
                                          (uc_len c) (uc_end c);
                  r \<leftarrow> fev_poller_make_sqe r (slots ! 1) IORING_OP_LINK_TIMEOUT 0 (-1) 0 (uc_ts c) 1 (uc_end c OR 1);
                  (ret, sqes, r) \<leftarrow> fev_poller_submit r 2 enter_ret;
                  (if ret \<noteq> 2
                   then if ret < 0 then Some (SubmitReturn ret, sqes, r, e) else None
                   else Some (SubmitSwitch, sqes, r, e)) })"

definition submit_begin ::
  "uring_call \<Rightarrow> fiber_ptr \<Rightarrow> int \<Rightarrow> fev_poller_sqring \<Rightarrow> fev_socket_end_uring \<Rightarrow>
   (submit_outcome \<times> io_uring_sqe list \<times> fev_poller_sqring \<times> fev_socket_end_uring) option" where
  "submit_begin c = (if uc_timed c = None then fev_socket_submit_and_wait_begin c
                     else fev_socket_submit_and_wait_for_begin c)"

text \<open>The second half, after the fiber has been switched to again.\<close>

definition fev_socket_submit_and_wait_end :: "fev_socket_end_uring \<Rightarrow> int option" where
  "fev_socket_submit_and_wait_end e = do { fev_assert (se_num_entries e = 0); Some (se_res e) }"

definition fev_socket_submit_and_wait_for_end :: "fev_socket_end_uring \<Rightarrow> int option" where
  "fev_socket_submit_and_wait_for_end e =
     do { fev_assert (se_num_entries e = 0);
          Some (if se_res e = - ECANCELED then - ETIMEDOUT else se_res e) }"

definition submit_end :: "uring_call \<Rightarrow> fev_socket_end_uring \<Rightarrow> int option" where
  "submit_end c = (if uc_timed c = None then fev_socket_submit_and_wait_end else fev_socket_submit_and_wait_for_end)"

text \<open>What accepting does with the result: the descriptor goes into the new socket.\<close>

definition fev_socket_accept_end_uring :: "int \<Rightarrow> fev_socket_uring \<Rightarrow> int \<times> fev_socket_uring" where
  "fev_socket_accept_end_uring ret new_socket =
     (if ret < 0 then (ret, new_socket) else (0, new_socket\<lparr>so_fd := ret\<rparr>))"

section \<open>Taking completions\<close>

text \<open>
  The variables of \<open>fev_poller_check2\<close>; \<open>interrupted\<close> is the caller's, which starts as \<open>false\<close>.
\<close>

record check_loc =
  cl_head :: u32
  cl_fibers :: "fiber_ptr list"
  cl_num :: u32
  cl_interrupted :: bool

definition fev_poller_check2_start :: "fev_poller_cqring \<Rightarrow> check_loc" where
  "fev_poller_check2_start q = \<lparr>cl_head = cq_head q, cl_fibers = [], cl_num = 0, cl_interrupted = False\<rparr>"

text \<open>One iteration with a completion at hand; \<open>mem\<close> is the memory of the socket ends.\<close>

definition fev_poller_check2_body ::
  "fev_poller_cqring \<Rightarrow> check_loc \<Rightarrow> (u64 \<Rightarrow> fev_socket_end_uring) \<Rightarrow> (check_loc \<times> (u64 \<Rightarrow> fev_socket_end_uring)) option" where
  "fev_poller_check2_body q l mem =
     do { cqe \<leftarrow> aget (cq_cqes q) (unat (cl_head l AND cq_ring_mask q));
          Some (let l = l\<lparr>cl_head := cl_head l + 1\<rparr>; user_data = cqe_user_data cqe
                in if user_data = 0 then (l\<lparr>cl_interrupted := True\<rparr>, mem)
                   else let is_timeout = (user_data AND 1 \<noteq> 0);
                            p = user_data AND NOT 1;
                            e = (if is_timeout then mem p else (mem p)\<lparr>se_res := cqe_res cqe\<rparr>);
                            e = e\<lparr>se_num_entries := se_num_entries e - 1\<rparr>
                        in (if se_num_entries e = 0
                            then l\<lparr>cl_fibers := cl_fibers l @ [se_fiber e], cl_num := cl_num l + 1\<rparr>
                            else l,
                            mem(p := e))) }"

text \<open>The end of the loop: the new head, the fibers to wake and the number to return.\<close>

definition fev_poller_check2_end :: "fev_poller_cqring \<Rightarrow> check_loc \<Rightarrow> (int \<times> fiber_ptr list \<times> fev_poller_cqring) option" where
  "fev_poller_check2_end q l =
     do { fev_assert (cl_num l \<le> 2147483647);
          Some (uint (cl_num l), (if cl_num l > 0 then cl_fibers l else []), q\<lparr>cq_head := cl_head l\<rparr>) }"

section \<open>The submission ring as a queue of requests\<close>

text \<open>
  The ring of \<open>2 ^ m\<close> slots holds the published requests \<open>xs\<close>, from the slot of the \<open>H\<close>-th request on, and behind
  them the prepared but not yet published requests \<open>ys\<close>.
\<close>

definition sq_slots :: "nat \<Rightarrow> nat \<Rightarrow> nat \<Rightarrow> u32 list" where
  "sq_slots m H k = map (\<lambda>i. of_nat (i mod 2 ^ m)) [H..<H + k]"

definition sq_rep :: "nat \<Rightarrow> nat \<Rightarrow> fev_poller_sqring \<Rightarrow> io_uring_sqe list \<Rightarrow> io_uring_sqe list \<Rightarrow> bool" where
  "sq_rep m H r xs ys \<longleftrightarrow>
     m < 32 \<and> sq_ring_mask r = mask m \<and> sq_ring_entries r = of_nat (2 ^ m) \<and>
     sq_head r = of_nat H \<and> sq_tail r = of_nat (H + length xs) \<and>
     ring (sq_sqes r) m H (xs @ ys) \<and> ring (sq_array r) m H (sq_slots m H (length xs))"

lemma sq_slots_length [simp]: "length (sq_slots m H k) = k"
  by (simp add: sq_slots_def)

lemma sq_slots_Suc: "sq_slots m H (Suc k) = sq_slots m H k @ [of_nat ((H + k) mod 2 ^ m)]"
  by (simp add: sq_slots_def)

lemma sq_slots_Cons: "sq_slots m H (Suc k) = of_nat (H mod 2 ^ m) # sq_slots m (Suc H) k"
  by (simp add: sq_slots_def upt_conv_Cons del: upt_Suc)

lemma of_nat_mod_u32: "m \<le> 32 \<Longrightarrow> (of_nat k AND mask m :: u32) = of_nat (k mod 2 ^ m)"
  by (rule word_unat_eq_iff [THEN iffD2]) (metis index_of_nat le_mod_geq mod_less_divisor of_nat_inverse unsigned_less zero_less_numeral zero_less_power)

lemma fev_poller_get_sqes_rep:
  assumes r: "sq_rep m H r xs []" and k: "k < 2147483648"
  shows "fev_poller_get_sqes r (of_nat k) =
           (if length xs + k > 2 ^ m then None else Some (sq_slots m (H + length xs) k))"
proof -
  have m: "m < 32" "length xs \<le> 2 ^ m" using r by (auto simp: sq_rep_def ring_def)
  have "sq_tail r + of_nat k - sq_head r = of_nat (length xs + k)" using r by (simp add: sq_rep_def)
  moreover have "(of_nat (2 ^ m) :: u32) < of_nat (length xs + k) \<longleftrightarrow> 2 ^ m < length xs + k"
    using m(2) k pow2_u32 [OF m(1)] by (simp add: word_less_nat_alt unat_of_nat del: of_nat_power of_nat_add)
  moreover have "map (\<lambda>i. (sq_tail r + of_nat i) AND sq_ring_mask r) [0..<unat (of_nat k :: u32)] =
      sq_slots m (H + length xs) k"
  proof -
    have "unat (of_nat k :: u32) = k" using k by (simp add: unat_of_nat)
    moreover have "(sq_tail r + of_nat i) AND sq_ring_mask r = of_nat ((H + length xs + i) mod 2 ^ m)" for i
      using r of_nat_mod_u32 [of m "H + length xs + i"] m(1) by (simp add: sq_rep_def)
    ultimately show ?thesis unfolding sq_slots_def by (simp add: list_eq_iff_nth_eq)
  qed
  ultimately show ?thesis using r by (simp add: fev_poller_get_sqes_def sq_rep_def)
qed

lemma unat_slot: "m < 32 \<Longrightarrow> unat (of_nat (k mod 2 ^ m) :: u32) = k mod 2 ^ m"
  using index_of_nat [of m k] of_nat_mod_u32 [of m k] by simp

lemma fev_poller_make_sqe_rep:
  assumes r: "sq_rep m H r xs ys" and room: "length xs + length ys < 2 ^ m"
    and slot: "slot = of_nat ((H + length xs + length ys) mod 2 ^ m)"
  shows "\<exists>r'. fev_poller_make_sqe r slot opcode flags fd off adr len user_data = Some r' \<and>
              sq_rep m H r' xs (ys @ [\<lparr>sqe_opcode = opcode, sqe_flags = flags, sqe_fd = fd, sqe_off = off, sqe_addr = adr,
                                       sqe_len = len, sqe_user_data = user_data\<rparr>])"
proof -
  have m: "m < 32" "ring (sq_sqes r) m H (xs @ ys)" using r by (simp_all add: sq_rep_def)
  have "unat slot = (H + length (xs @ ys)) mod 2 ^ m" using unat_slot [OF m(1)] slot by (simp add: add.assoc)
  then show ?thesis
    using ring_snoc [OF m(2)] room r ring_length(1) [OF m(2)] by (simp add: fev_poller_make_sqe_def sq_rep_def)
qed

lemma submit_loop_rep:
  assumes "m < 32" "ring arr m H (sq_slots m H k)" "k + n \<le> 2 ^ m"
  shows "\<exists>arr'. submit_loop n (mask m) arr (of_nat (H + k)) = Some (arr', of_nat (H + k + n)) \<and>
                ring arr' m H (sq_slots m H (k + n))"
  using assms(2,3)
proof (induction n arbitrary: arr k)
  case (Suc n)
  let ?i = "(H + k) mod 2 ^ m"
  have "ring (arr[?i := Some (of_nat ?i)]) m H (sq_slots m H (Suc k))"
    using ring_snoc [OF Suc.prems(1)] Suc.prems(2) by (simp add: sq_slots_Suc)
  from Suc.IH [OF this] Suc.prems(2) obtain arr' where
    "submit_loop n (mask m) (arr[?i := Some (of_nat ?i)]) (of_nat (H + Suc k)) = Some (arr', of_nat (H + Suc k + n))"
    "ring arr' m H (sq_slots m H (Suc k + n))" by auto
  moreover have "unat (of_nat (H + k) AND mask m :: u32) = ?i" "(of_nat (H + k) AND mask m :: u32) = of_nat ?i"
    using index_of_nat of_nat_mod_u32 assms(1) by (simp_all del: of_nat_add)
  moreover have "(of_nat (H + k) :: u32) + 1 = of_nat (H + Suc k)" by simp
  ultimately show ?case
    using ring_length(1) [OF Suc.prems(1)] unfolding submit_loop.simps by (simp del: of_nat_add of_nat_Suc)
qed simp

lemma io_uring_take_rep:
  assumes "sq_rep m H r xs []" "n \<le> length xs"
  shows "\<exists>r'. io_uring_take n r = Some (take n xs, r') \<and> sq_rep m (H + n) r' (drop n xs) []"
  using assms
proof (induction n arbitrary: H r xs)
  case (Suc n)
  from Suc.prems(2) obtain x xs' where xs: "xs = x # xs'" by (cases xs) auto
  have m: "m < 32" "ring (sq_sqes r) m H (x # xs')" "ring (sq_array r) m H (of_nat (H mod 2 ^ m) # sq_slots m (Suc H) (length xs'))"
    using Suc.prems(1) by (simp_all add: sq_rep_def xs sq_slots_Cons)
  have "sq_rep m (Suc H) (r\<lparr>sq_head := sq_head r + 1\<rparr>) xs' []"
    using Suc.prems(1) ring_tl [OF m(2)] ring_tl [OF m(3)] by (simp add: sq_rep_def xs ac_simps)
  from Suc.IH [OF this] Suc.prems(2) obtain r' where
    "io_uring_take n (r\<lparr>sq_head := sq_head r + 1\<rparr>) = Some (take n xs', r')" "sq_rep m (H + Suc n) r' (drop n xs') []"
    by (auto simp: xs)
  moreover have "aget (sq_array r) (unat (sq_head r AND sq_ring_mask r)) = Some (of_nat (H mod 2 ^ m))"
    using ring_hd [OF m(3)] ring_length(1) [OF m(3)] index_of_nat [of m H] m(1) Suc.prems(1) by (simp add: sq_rep_def)
  moreover have "aget (sq_sqes r) (unat (of_nat (H mod 2 ^ m) :: u32)) = Some x"
    using ring_hd [OF m(2)] ring_length(1) [OF m(2)] unat_slot [OF m(1)] by simp
  ultimately show ?case by (simp add: xs)
qed simp

lemma fev_poller_submit_rep:
  assumes r: "sq_rep m H r xs ys" and ret: "nat ret \<le> length xs + length ys"
  shows "\<exists>r'. fev_poller_submit r (of_nat (length ys)) ret = Some (ret, take (nat ret) (xs @ ys), r') \<and>
              sq_rep m (H + nat ret) r' (drop (nat ret) (xs @ ys)) []"
proof -
  have m: "m < 32" "ring (sq_array r) m H (sq_slots m H (length xs))" "length xs + length ys \<le> 2 ^ m"
    using r by (auto simp: sq_rep_def ring_def)
  have "unat (of_nat (length ys) :: u32) = length ys" using pow2_u32 [OF m(1)] m(3) by (simp add: unat_of_nat)
  moreover obtain arr' where
    l: "submit_loop (length ys) (mask m) (sq_array r) (of_nat (H + length xs)) = Some (arr', of_nat (H + length xs + length ys))"
    "ring arr' m H (sq_slots m H (length xs + length ys))"
    using submit_loop_rep [OF m] by blast
  moreover have "sq_rep m H (r\<lparr>sq_array := arr', sq_tail := of_nat (H + length xs + length ys)\<rparr>) (xs @ ys) []"
    using r l(2) by (simp add: sq_rep_def ac_simps)
  note io_uring_take_rep [OF this, of "nat ret"]
  ultimately show ?thesis using r ret by (auto simp: fev_poller_submit_def sq_rep_def simp del: of_nat_add)
qed

text \<open>
  The specification of a submission: the requests of the call go behind those already waiting for the kernel, which
  takes as many as it reports from the front. A ring without room refuses the call.
\<close>

definition call_sqes :: "uring_call \<Rightarrow> io_uring_sqe list" where
  "call_sqes c =
     \<lparr>sqe_opcode = uc_opcode c, sqe_flags = (if uc_timed c = None then 0 else IOSQE_IO_LINK), sqe_fd = uc_fd c,
      sqe_off = uc_off c, sqe_addr = uc_addr c, sqe_len = uc_len c, sqe_user_data = uc_end c\<rparr> #
     (if uc_timed c = None then []
      else [\<lparr>sqe_opcode = IORING_OP_LINK_TIMEOUT, sqe_flags = 0, sqe_fd = -1, sqe_off = 0, sqe_addr = uc_ts c,
             sqe_len = 1, sqe_user_data = uc_end c OR 1\<rparr>])"

definition submit_spec ::
  "nat \<Rightarrow> uring_call \<Rightarrow> int \<Rightarrow> io_uring_sqe list \<Rightarrow> (submit_outcome \<times> io_uring_sqe list \<times> io_uring_sqe list) option" where
  "submit_spec cap c ret waiting =
     (let new = call_sqes c; q = waiting @ new
      in if length q > cap then Some (SubmitReturn (- EBUSY), [], waiting)
         else if ret = int (length new) then Some (SubmitSwitch, take (nat ret) q, drop (nat ret) q)
         else if ret < 0 then Some (SubmitReturn ret, [], q)
         else None)"

definition call_end :: "uring_call \<Rightarrow> fiber_ptr \<Rightarrow> fev_socket_end_uring \<Rightarrow> fev_socket_end_uring" where
  "call_end c fiber e = e\<lparr>se_fiber := fiber, se_num_entries := of_nat (length (call_sqes c))\<rparr>"

text \<open>A result of the code against one of the specification, for a ring that held the requests from the \<open>H\<close>-th on.\<close>

fun submit_match ::
  "nat \<Rightarrow> nat \<Rightarrow> fev_socket_end_uring \<Rightarrow> submit_outcome \<times> io_uring_sqe list \<times> fev_poller_sqring \<times> fev_socket_end_uring \<Rightarrow>
   submit_outcome \<times> io_uring_sqe list \<times> io_uring_sqe list \<Rightarrow> bool" where
  "submit_match m H e (out, taken, r, e') (out', taken', waiting) \<longleftrightarrow>
     out = out' \<and> taken = taken' \<and> e' = e \<and> sq_rep m (H + length taken) r waiting []"

lemma submit_one_refines:
  assumes r: "sq_rep m H r waiting []" and ret: "ret \<le> 1" and c: "uc_timed c = None"
  shows "rel_option (submit_match m H (call_end c f e)) (fev_socket_submit_and_wait_begin c f ret r e)
           (submit_spec (2 ^ m) c ret waiting)"
proof -
  have ce: "call_end c f e = e\<lparr>se_fiber := f, se_num_entries := 1\<rparr>" by (simp add: call_end_def call_sqes_def c)
  have len: "length (call_sqes c) = 1" by (simp add: call_sqes_def c)
  have nr: "nat ret \<le> length waiting + length (call_sqes c)" unfolding len using ret by simp
  then have tl: "length (take (nat ret) (waiting @ call_sqes c)) = nat ret" by simp
  note g = fev_poller_get_sqes_rep [OF r, of 1, simplified]
  show ?thesis
  proof (cases "length waiting + 1 > 2 ^ m")
    case True
    then show ?thesis using r ce
      by (simp add: g fev_socket_submit_and_wait_begin_def submit_spec_def call_sqes_def c)
  next
    case False
    then have room: "length waiting + length [] < 2 ^ m" by simp
    obtain r1 where mk: "fev_poller_make_sqe r (of_nat ((H + length waiting) mod 2 ^ m)) (uc_opcode c) 0 (uc_fd c) (uc_off c)
          (uc_addr c) (uc_len c) (uc_end c) = Some r1" and r1: "sq_rep m H r1 waiting (call_sqes c)"
      using fev_poller_make_sqe_rep [OF r room refl, of "uc_opcode c" 0 "uc_fd c" "uc_off c" "uc_addr c" "uc_len c" "uc_end c"]
      by (auto simp: call_sqes_def c)
    obtain r2 where "fev_poller_submit r1 1 ret = Some (ret, take (nat ret) (waiting @ call_sqes c), r2)"
      "sq_rep m (H + nat ret) r2 (drop (nat ret) (waiting @ call_sqes c)) []"
      using fev_poller_submit_rep [OF r1 nr] len by auto
    then show ?thesis using False ret ce len tl
      by (auto simp: g fev_socket_submit_and_wait_begin_def submit_spec_def sq_slots_def mk Let_def simp del: take_append drop_append length_take)
  qed
qed

lemma submit_two_refines:
  assumes r: "sq_rep m H r waiting []" and ret: "ret \<le> 2" and c: "uc_timed c = Some d"
  shows "rel_option (submit_match m H (call_end c f e)) (fev_socket_submit_and_wait_for_begin c f ret r e)
           (submit_spec (2 ^ m) c ret waiting)"
proof -
  have ce: "call_end c f e = e\<lparr>se_fiber := f, se_num_entries := 2\<rparr>" by (simp add: call_end_def call_sqes_def c)
  have len: "length (call_sqes c) = 2" by (simp add: call_sqes_def c)
  have nr: "nat ret \<le> length waiting + length (call_sqes c)" unfolding len using ret by simp
  then have tl: "length (take (nat ret) (waiting @ call_sqes c)) = nat ret" by simp
  note g = fev_poller_get_sqes_rep [OF r, of 2, simplified]
  show ?thesis
  proof (cases "length waiting + 2 > 2 ^ m")
    case True
    then show ?thesis using r ce
      by (simp add: g fev_socket_submit_and_wait_for_begin_def submit_spec_def call_sqes_def c)
  next
    case False
    then have room: "length waiting + length [] < 2 ^ m" by simp
    obtain r1 where mk1: "fev_poller_make_sqe r (of_nat ((H + length waiting) mod 2 ^ m)) (uc_opcode c) IOSQE_IO_LINK (uc_fd c)
          (uc_off c) (uc_addr c) (uc_len c) (uc_end c) = Some r1" and r1: "sq_rep m H r1 waiting [hd (call_sqes c)]"
      using fev_poller_make_sqe_rep [OF r room refl, of "uc_opcode c" IOSQE_IO_LINK "uc_fd c" "uc_off c" "uc_addr c" "uc_len c" "uc_end c"]
      by (auto simp: call_sqes_def c)
    have room1: "length waiting + length [hd (call_sqes c)] < 2 ^ m" using False by simp
    obtain r2 where mk2: "fev_poller_make_sqe r1 (of_nat (Suc (H + length waiting) mod 2 ^ m)) IORING_OP_LINK_TIMEOUT 0 (-1) 0
          (uc_ts c) 1 (uc_end c OR 1) = Some r2" and r2: "sq_rep m H r2 waiting (call_sqes c)"
      using fev_poller_make_sqe_rep [OF r1 room1 refl, of IORING_OP_LINK_TIMEOUT 0 "-1" 0 "uc_ts c" 1 "uc_end c OR 1"]
      by (auto simp: call_sqes_def c)
    obtain r3 where "fev_poller_submit r2 2 ret = Some (ret, take (nat ret) (waiting @ call_sqes c), r3)"
      "sq_rep m (H + nat ret) r3 (drop (nat ret) (waiting @ call_sqes c)) []"
      using fev_poller_submit_rep [OF r2 nr] len by auto
    then show ?thesis using False ret ce len tl
      by (auto simp: g fev_socket_submit_and_wait_for_begin_def submit_spec_def sq_slots_def mk1 mk2 upt_conv_Cons Let_def simp del: take_append drop_append length_take)
  qed
qed

lemma submit_begin_refines:
  assumes "sq_rep m H r waiting []" and "ret \<le> int (length (call_sqes c))"
  shows "rel_option (submit_match m H (call_end c f e)) (submit_begin c f ret r e) (submit_spec (2 ^ m) c ret waiting)"
proof (cases "uc_timed c")
  case None
  then show ?thesis using submit_one_refines [OF assms(1) _ None] assms(2) by (simp add: submit_begin_def call_sqes_def)
next
  case (Some d)
  then show ?thesis using submit_two_refines [OF assms(1) _ Some] assms(2) by (simp add: submit_begin_def call_sqes_def)
qed

lemma fev_poller_submit_eventfd_rep:
  assumes r: "sq_rep m H r [] []" and "ret = 1"
  shows "\<exists>sqe r'. fev_poller_submit_eventfd r event_fd event_value ret = Some ([sqe], r') \<and> sqe_user_data sqe = 0 \<and>
                  sq_rep m (H + 1) r' [] []"
proof -
  let ?sqe = "\<lparr>sqe_opcode = IORING_OP_READ, sqe_flags = 0, sqe_fd = event_fd, sqe_off = 0, sqe_addr = event_value,
               sqe_len = 8, sqe_user_data = 0\<rparr>"
  have g: "fev_poller_get_sqes r 1 = Some [of_nat (H mod 2 ^ m)]"
    using fev_poller_get_sqes_rep [OF r, of 1] by (simp add: sq_slots_def)
  obtain r1 where "fev_poller_make_sqe r (of_nat (H mod 2 ^ m)) IORING_OP_READ 0 event_fd 0 event_value 8 0 = Some r1"
    "sq_rep m H r1 [] [?sqe]"
    using fev_poller_make_sqe_rep [OF r _ refl, of IORING_OP_READ 0 event_fd 0 event_value 8 0] by auto
  moreover from fev_poller_submit_rep [OF this(2), of ret] assms(2) obtain r2 where
    "fev_poller_submit r1 1 ret = Some (ret, [?sqe], r2)" "sq_rep m (H + 1) r2 [] []" by auto
  ultimately show ?thesis using assms(2) g by (auto simp: fev_poller_submit_eventfd_def)
qed

section \<open>The completion ring as a queue\<close>

text \<open>\<open>pushed\<close> by the kernel: it stores a completion when there is room.\<close>

definition io_uring_post :: "io_uring_cqe \<Rightarrow> fev_poller_cqring \<Rightarrow> fev_poller_cqring option" where
  "io_uring_post cqe q =
     (if cq_tail q - cq_head q < cq_ring_entries q
      then do { cqes \<leftarrow> aset (cq_cqes q) (unat (cq_tail q AND cq_ring_mask q)) cqe;
                Some (q\<lparr>cq_cqes := cqes, cq_tail := cq_tail q + 1\<rparr>) }
      else None)"

definition cq_rep :: "nat \<Rightarrow> nat \<Rightarrow> fev_poller_cqring \<Rightarrow> io_uring_cqe list \<Rightarrow> bool" where
  "cq_rep m H q xs \<longleftrightarrow>
     m < 32 \<and> cq_ring_mask q = mask m \<and> cq_ring_entries q = of_nat (2 ^ m) \<and>
     cq_head q = of_nat H \<and> cq_tail q = of_nat (H + length xs) \<and> ring (cq_cqes q) m H xs"

lemma of_nat_u32_less_iff: "a \<le> 2147483648 \<Longrightarrow> b \<le> 2147483648 \<Longrightarrow> (of_nat a :: u32) < of_nat b \<longleftrightarrow> a < b"
  by (simp add: word_less_nat_alt unat_of_nat)

lemma io_uring_post_rep:
  assumes "cq_rep m H q xs"
  shows "length xs < 2 ^ m \<Longrightarrow> \<exists>q'. io_uring_post c q = Some q' \<and> cq_rep m H q' (xs @ [c])"
    and "\<not> length xs < 2 ^ m \<Longrightarrow> io_uring_post c q = None"
proof -
  have m: "m < 32" "ring (cq_cqes q) m H xs" using assms by (simp_all add: cq_rep_def)
  have "cq_tail q - cq_head q = of_nat (length xs)" using assms by (simp add: cq_rep_def)
  then have room: "cq_tail q - cq_head q < cq_ring_entries q \<longleftrightarrow> length xs < 2 ^ m"
    using assms of_nat_u32_less_iff [of "length xs" "2 ^ m"] pow2_u32 [OF m(1)] ring_length(2) [OF m(2)]
    by (simp add: cq_rep_def del: of_nat_power)
  have i: "unat (cq_tail q AND cq_ring_mask q) = (H + length xs) mod 2 ^ m"
    using assms index_of_nat [of m "H + length xs"] by (simp add: cq_rep_def)
  have t: "cq_tail q + 1 = of_nat (H + length (xs @ [c]))" using assms by (simp add: cq_rep_def)
  show "length xs < 2 ^ m \<Longrightarrow> \<exists>q'. io_uring_post c q = Some q' \<and> cq_rep m H q' (xs @ [c])"
    using ring_snoc [OF m(2)] ring_length(1) [OF m(2)] room i t assms by (simp add: io_uring_post_def cq_rep_def)
  show "\<not> length xs < 2 ^ m \<Longrightarrow> io_uring_post c q = None" using room by (simp add: io_uring_post_def)
qed

lemma ring_nth:
  assumes "ring buffer m H (xs @ x # ys)"
  shows "aget buffer ((H + length xs) mod 2 ^ m) = Some x"
  using assms by (auto simp: ring_def nth_append dest: spec [of _ "length xs"])

lemma cq_rep_read:
  assumes "cq_rep m H q (xs @ c # ys)" "h = of_nat (H + length xs)"
  shows "aget (cq_cqes q) (unat (h AND cq_ring_mask q)) = Some c"
  using assms index_of_nat [of m "H + length xs"] ring_nth [of "cq_cqes q" m H xs c ys] by (simp add: cq_rep_def del: of_nat_add)

lemma cq_rep_empty:
  assumes "cq_rep m H q (xs @ ys)" "h = of_nat (H + length xs)"
  shows "h = cq_tail q \<longleftrightarrow> ys = []"
proof -
  have "length ys < 2 ^ 32" using assms(1) pow2_u32 [of m] by (auto simp: cq_rep_def ring_def)
  then have "(of_nat (length ys) :: u32) = 0 \<longleftrightarrow> ys = []"
    using of_nat_u32_less [of "length ys"] by (simp add: word_unat_eq_iff)
  then show ?thesis using assms by (simp add: cq_rep_def)
qed

lemma ring_append_right: "ring buffer m H (xs @ ys) \<Longrightarrow> ring buffer m (H + length xs) ys"
  by (induction xs arbitrary: H) (fastforce dest: ring_tl)+

lemma cq_rep_release:
  "cq_rep m H q (xs @ ys) \<Longrightarrow> h = of_nat (H + length xs) \<Longrightarrow> cq_rep m (H + length xs) (q\<lparr>cq_head := h\<rparr>) ys"
  by (auto simp: cq_rep_def ac_simps dest: ring_append_right)

section \<open>The low bit of the user data\<close>

text \<open>The address of a socket end is even; the lowest bit tells the two completions of a call with a limit apart.\<close>

definition end_addr :: "u64 \<Rightarrow> bool" where
  "end_addr p \<longleftrightarrow> p \<noteq> 0 \<and> p AND 1 = 0"

lemma end_addr_bits:
  assumes "end_addr p"
  shows "p AND 1 = 0" "p AND NOT 1 = p" "(p OR 1) AND 1 \<noteq> 0" "(p OR 1) AND NOT 1 = p" "p \<noteq> 0" "p OR 1 \<noteq> 0" "p OR 1 \<noteq> p"
proof -
  have "\<not> bit p 0" using assms by (simp add: end_addr_def bit_0 and_one_eq even_iff_mod_2_eq_zero)
  then have b: "bit p n \<Longrightarrow> n \<noteq> 0" for n by metis
  show "p AND NOT 1 = p" "(p OR 1) AND NOT 1 = p" by (rule bit_word_eqI; auto simp: bit_simps dest: b)+
  have "bit (p OR 1) 0" by (simp add: bit_simps)
  then show "p OR 1 \<noteq> p" "p OR 1 \<noteq> 0" using b by (metis, metis bit_0_eq bot2E bot_fun_def bot_bool_def)
  have "bit ((p OR 1) AND 1) 0" by (simp add: bit_simps)
  then show "(p OR 1) AND 1 \<noteq> 0" by auto
qed (use assms in \<open>simp_all add: end_addr_def\<close>)

section \<open>Rings as the kernel sets them up\<close>

definition sq_start :: "nat \<Rightarrow> nat \<Rightarrow> fev_poller_sqring" where
  "sq_start m H = \<lparr>sq_head = of_nat H, sq_tail = of_nat H, sq_ring_mask = mask m, sq_ring_entries = of_nat (2 ^ m),
                   sq_array = replicate (2 ^ m) None, sq_sqes = replicate (2 ^ m) None\<rparr>"

definition cq_start :: "nat \<Rightarrow> nat \<Rightarrow> fev_poller_cqring" where
  "cq_start m H = \<lparr>cq_head = of_nat H, cq_tail = of_nat H, cq_ring_mask = mask m, cq_ring_entries = of_nat (2 ^ m),
                   cq_cqes = replicate (2 ^ m) None\<rparr>"

lemma sq_start_rep: "m < 32 \<Longrightarrow> sq_rep m H (sq_start m H) [] []"
  by (simp add: sq_start_def sq_rep_def ring_def)

lemma cq_start_rep: "m < 32 \<Longrightarrow> cq_rep m H (cq_start m H) []"
  by (simp add: cq_start_def cq_rep_def ring_def)

section \<open>The property\<close>

text \<open>
  C39. Submitting a call on the shared ring, with 32-bit indices that wrap around, does what the specification says
  of a bounded queue: the requests of the call (two for a call with a time limit) go behind the published ones,
  the kernel takes its share from the front, the outcome is a suspended fiber exactly when the kernel took as many as
  were added, and an error of the system call leaves the new requests published.
\<close>

theorem fev_socket_submit_refines:
  assumes "sq_rep m H r waiting []" and "ret \<le> int (length (call_sqes c))"
  shows "rel_option (submit_match m H (call_end c f e)) (submit_begin c f ret r e) (submit_spec (2 ^ m) c ret waiting)"
  by (rule submit_begin_refines [OF assms])

definition sample_call :: uring_call where
  "sample_call = fev_socket_try_read_for_uring \<lparr>so_addr = 4096, so_fd = 5\<rparr> 8192 100 (\<lparr>tv_sec = 1, tv_nsec = 0\<rparr>, 512)"

theorem fev_socket_submit_refines_witness:
  "rel_option (submit_match 2 4294967295 (call_end sample_call 7 \<lparr>se_fiber = 0, se_num_entries = 0, se_res = 0\<rparr>))
     (submit_begin sample_call 7 2 (sq_start 2 4294967295) \<lparr>se_fiber = 0, se_num_entries = 0, se_res = 0\<rparr>)
     (submit_spec (2 ^ 2) sample_call 2 []) \<and>
   submit_spec (2 ^ 2) sample_call 2 [] = Some (SubmitSwitch, call_sqes sample_call, [])"
proof
  have l: "length (call_sqes sample_call) = 2"
    by (simp add: call_sqes_def sample_call_def fev_socket_try_read_for_uring_def uring_call_of_def)
  show "rel_option (submit_match 2 4294967295 (call_end sample_call 7 \<lparr>se_fiber = 0, se_num_entries = 0, se_res = 0\<rparr>))
     (submit_begin sample_call 7 2 (sq_start 2 4294967295) \<lparr>se_fiber = 0, se_num_entries = 0, se_res = 0\<rparr>)
     (submit_spec (2 ^ 2) sample_call 2 [])"
    by (rule fev_socket_submit_refines [OF sq_start_rep]) (simp_all add: l)
  show "submit_spec (2 ^ 2) sample_call 2 [] = Some (SubmitSwitch, call_sqes sample_call, [])"
    using l by (simp add: submit_spec_def)
qed

end
