(* ===== verification/Uring_Concurrent.thy ===== *)
theory Uring_Concurrent
  imports Uring
begin

text \<open>
  Fibers, workers and the kernel over the rings of theory \<open>Uring\<close>. Every worker has its own pair of rings; a fiber
  may be continued by another worker than the one it was suspended on, and the completions of its call come through
  the rings of the latter. What a worker does between two switches is one step, except that taking completions is
  one step per completion, between which the kernel posts more and other workers run.
\<close>

unbundle bit_operations_syntax

section \<open>The system\<close>

text \<open>
  A fiber runs, waits inside a call that worker \<open>w\<close> submitted, or has been woken and not yet continued.
\<close>

datatype uring_fiber = URun | UWait nat uring_call | UWoken uring_call

text \<open>
  \<open>us_flight w\<close> are the requests the kernel took from the ring of worker \<open>w\<close> and has not completed. Three components
  record history: \<open>us_pend w\<close>, the completions posted and not yet taken; \<open>us_kres p\<close>, the result the kernel posted for
  the current call on the end \<open>p\<close>; and \<open>us_log\<close>, the finished calls with what they returned and what the kernel posted.
\<close>

record uring_sys =
  us_workers :: nat
  us_fibers :: nat
  us_sq :: "nat \<Rightarrow> fev_poller_sqring"
  us_cq :: "nat \<Rightarrow> fev_poller_cqring"
  us_loc :: "nat \<Rightarrow> check_loc option"
  us_mem :: "u64 \<Rightarrow> fev_socket_end_uring"
  us_fiber :: "nat \<Rightarrow> uring_fiber"
  us_flight :: "nat \<Rightarrow> io_uring_sqe list"
  us_fault :: bool
  us_pend :: "nat \<Rightarrow> io_uring_cqe list"
  us_kres :: "u64 \<Rightarrow> int option"
  us_log :: "(nat \<times> uring_call \<times> int \<times> int option) list"

fun uring_uses :: "uring_fiber \<Rightarrow> u64 \<Rightarrow> bool" where
  "uring_uses URun p \<longleftrightarrow> False"
| "uring_uses (UWait w c) p \<longleftrightarrow> uc_end c = p"
| "uring_uses (UWoken c) p \<longleftrightarrow> uc_end c = p"

definition ufault :: "uring_sys \<Rightarrow> uring_sys" where
  "ufault s = s\<lparr>us_fault := True\<rparr>"

text \<open>A fiber makes a call; the end is not in use by another call, as the callers of the library have to ensure.\<close>

definition uring_begin :: "nat \<Rightarrow> nat \<Rightarrow> uring_call \<Rightarrow> int \<Rightarrow> uring_sys \<Rightarrow> uring_sys option" where
  "uring_begin w f c ret s =
     (if w < us_workers s \<and> us_loc s w = None \<and> f < us_fibers s \<and> us_fiber s f = URun \<and> end_addr (uc_end c) \<and>
         list_all (\<lambda>g. \<not> uring_uses (us_fiber s g) (uc_end c)) [0..<us_fibers s] \<and> ret \<le> int (length (call_sqes c))
      then Some (case submit_begin c f ret (us_sq s w) (us_mem s (uc_end c)) of
             None \<Rightarrow> ufault s
           | Some (out, taken, r, e) \<Rightarrow>
               s\<lparr>us_sq := (us_sq s)(w := r), us_mem := (us_mem s)(uc_end c := e),
                 us_flight := (us_flight s)(w := us_flight s w @ taken),
                 us_fiber := (us_fiber s)(f := (case out of SubmitReturn v \<Rightarrow> URun | SubmitSwitch \<Rightarrow> UWait w c)),
                 us_kres := (us_kres s)(uc_end c := None),
                 us_log := (case out of SubmitReturn v \<Rightarrow> us_log s @ [(f, c, v, None)] | SubmitSwitch \<Rightarrow> us_log s)\<rparr>)
      else None)"

text \<open>The worker arms its event descriptor.\<close>

definition uring_arm :: "nat \<Rightarrow> int \<Rightarrow> u64 \<Rightarrow> int \<Rightarrow> uring_sys \<Rightarrow> uring_sys option" where
  "uring_arm w event_fd event_value ret s =
     (if w < us_workers s \<and> us_loc s w = None \<and> ret \<le> 1
      then Some (case fev_poller_submit_eventfd (us_sq s w) event_fd event_value ret of
             None \<Rightarrow> ufault s
           | Some (taken, r) \<Rightarrow>
               s\<lparr>us_sq := (us_sq s)(w := r), us_flight := (us_flight s)(w := us_flight s w @ taken)\<rparr>)
      else None)"

text \<open>
  The kernel completes the \<open>k\<close>-th of the requests in flight, in any order, with any result; it holds a completion
  back as long as the ring is full.
\<close>

definition uring_complete :: "nat \<Rightarrow> nat \<Rightarrow> int \<Rightarrow> uring_sys \<Rightarrow> uring_sys option" where
  "uring_complete w k res s =
     (if k < length (us_flight s w)
      then let u = sqe_user_data (us_flight s w ! k); cqe = \<lparr>cqe_user_data = u, cqe_res = res\<rparr>
           in case io_uring_post cqe (us_cq s w) of
                None \<Rightarrow> None
              | Some q \<Rightarrow>
                  Some (s\<lparr>us_cq := (us_cq s)(w := q),
                          us_flight := (us_flight s)(w := take k (us_flight s w) @ drop (Suc k) (us_flight s w)),
                          us_pend := (us_pend s)(w := us_pend s w @ [cqe]),
                          us_kres := (if u AND 1 = 0 then (us_kres s)(u := Some res) else us_kres s)\<rparr>)
      else None)"

text \<open>The three parts of \<open>fev_poller_check2\<close> on worker \<open>w\<close>.\<close>

definition uring_check_start :: "nat \<Rightarrow> uring_sys \<Rightarrow> uring_sys option" where
  "uring_check_start w s =
     (if w < us_workers s \<and> us_loc s w = None
      then Some (s\<lparr>us_loc := (us_loc s)(w := Some (fev_poller_check2_start (us_cq s w)))\<rparr>) else None)"

definition uring_check_next :: "nat \<Rightarrow> uring_sys \<Rightarrow> uring_sys option" where
  "uring_check_next w s =
     (case us_loc s w of
        None \<Rightarrow> None
      | Some l \<Rightarrow>
          if cl_head l = cq_tail (us_cq s w) then None
          else Some (case fev_poller_check2_body (us_cq s w) l (us_mem s) of
                 None \<Rightarrow> ufault s
               | Some (l, mem) \<Rightarrow>
                   s\<lparr>us_loc := (us_loc s)(w := Some l), us_mem := mem, us_pend := (us_pend s)(w := tl (us_pend s w))\<rparr>))"

text \<open>Waking a fiber that does not wait, or one fiber twice, is a fault.\<close>

definition uring_waits :: "uring_fiber \<Rightarrow> bool" where
  "uring_waits x \<longleftrightarrow> (case x of UWait w c \<Rightarrow> True | _ \<Rightarrow> False)"

definition uring_wake :: "nat list \<Rightarrow> (nat \<Rightarrow> uring_fiber) \<Rightarrow> (nat \<Rightarrow> uring_fiber)" where
  "uring_wake fs fiber f =
     (if f \<in> set fs then case fiber f of UWait w c \<Rightarrow> UWoken c | x \<Rightarrow> x else fiber f)"

definition uring_check_end :: "nat \<Rightarrow> uring_sys \<Rightarrow> uring_sys option" where
  "uring_check_end w s =
     (case us_loc s w of
        None \<Rightarrow> None
      | Some l \<Rightarrow>
          if cl_head l \<noteq> cq_tail (us_cq s w) then None
          else Some (case fev_poller_check2_end (us_cq s w) l of
                 None \<Rightarrow> ufault s
               | Some (n, fs, q) \<Rightarrow>
                   s\<lparr>us_loc := (us_loc s)(w := None), us_cq := (us_cq s)(w := q),
                     us_fiber := uring_wake fs (us_fiber s),
                     us_fault := (us_fault s \<or> \<not> (distinct fs \<and> list_all (\<lambda>f. uring_waits (us_fiber s f)) fs \<and> n = int (length fs)))\<rparr>))"

definition uring_resume :: "nat \<Rightarrow> uring_sys \<Rightarrow> uring_sys option" where
  "uring_resume f s =
     (case us_fiber s f of
        UWoken c \<Rightarrow>
          Some (case submit_end c (us_mem s (uc_end c)) of
             None \<Rightarrow> ufault s
           | Some v \<Rightarrow> s\<lparr>us_fiber := (us_fiber s)(f := URun),
                          us_log := us_log s @ [(f, c, v, us_kres s (uc_end c))]\<rparr>)
      | _ \<Rightarrow> None)"

datatype uring_event =
    UBegin nat nat uring_call int
  | UArm nat int u64 int
  | UComplete nat nat int
  | UCheckStart nat
  | UCheckNext nat
  | UCheckEnd nat
  | UResume nat

fun uring_step :: "uring_event \<Rightarrow> uring_sys \<Rightarrow> uring_sys option" where
  "uring_step (UBegin w f c ret) s = uring_begin w f c ret s"
| "uring_step (UArm w event_fd event_value ret) s = uring_arm w event_fd event_value ret s"
| "uring_step (UComplete w k res) s = uring_complete w k res s"
| "uring_step (UCheckStart w) s = uring_check_start w s"
| "uring_step (UCheckNext w) s = uring_check_next w s"
| "uring_step (UCheckEnd w) s = uring_check_end w s"
| "uring_step (UResume f) s = uring_resume f s"

text \<open>The system call took every request it was handed.\<close>

fun uring_taken :: "uring_event \<Rightarrow> bool" where
  "uring_taken (UBegin w f c ret) \<longleftrightarrow> ret = int (length (call_sqes c))"
| "uring_taken (UArm w event_fd event_value ret) \<longleftrightarrow> ret = 1"
| "uring_taken ev \<longleftrightarrow> True"

text \<open>\<open>nw\<close> workers with rings of \<open>2 ^ m\<close> submissions and \<open>2 ^ m'\<close> completions, whose indices start at \<open>H\<close>.\<close>

definition uring_init :: "nat \<Rightarrow> nat \<Rightarrow> nat \<Rightarrow> nat \<Rightarrow> nat \<Rightarrow> uring_sys" where
  "uring_init nw nf m m' H =
     \<lparr>us_workers = nw, us_fibers = nf, us_sq = (\<lambda>w. sq_start m H), us_cq = (\<lambda>w. cq_start m' H),
      us_loc = (\<lambda>w. None), us_mem = (\<lambda>p. \<lparr>se_fiber = 0, se_num_entries = 0, se_res = 0\<rparr>),
      us_fiber = (\<lambda>f. URun), us_flight = (\<lambda>w. []), us_fault = False, us_pend = (\<lambda>w. []), us_kres = (\<lambda>p. None), us_log = []\<rparr>"

section \<open>The invariant\<close>

definition entries :: "io_uring_sqe list \<Rightarrow> io_uring_cqe list \<Rightarrow> u64 multiset" where
  "entries flight pend = mset (map sqe_user_data flight) + mset (map cqe_user_data pend)"

abbreviation ent :: "uring_sys \<Rightarrow> nat \<Rightarrow> u64 multiset" where
  "ent s w \<equiv> entries (us_flight s w) (us_pend s w)"

definition wake_list :: "check_loc option \<Rightarrow> nat list" where
  "wake_list l = (case l of None \<Rightarrow> [] | Some l \<Rightarrow> cl_fibers l)"

abbreviation to_wake :: "uring_sys \<Rightarrow> nat \<Rightarrow> nat list" where
  "to_wake s w \<equiv> wake_list (us_loc s w)"

lemma entries_append [simp]:
  "entries (fl @ xs) pd = entries fl pd + mset (map sqe_user_data xs)" "entries fl (pd @ ys) = entries fl pd + mset (map cqe_user_data ys)"
  "entries fl (y # pd) = add_mset (cqe_user_data y) (entries fl pd)" "entries [] [] = {#}"
  by (simp_all add: entries_def)

lemma wake_list_simps [simp]: "wake_list None = []" "wake_list (Some l) = cl_fibers l"
  by (simp_all add: wake_list_def)

text \<open>
  The completion ring as its worker sees it: the pending completions lie behind those that the loop has taken and not
  yet given back.
\<close>

definition cq_view :: "fev_poller_cqring \<Rightarrow> check_loc option \<Rightarrow> io_uring_cqe list \<Rightarrow> bool" where
  "cq_view q loc pend \<longleftrightarrow>
     (\<exists>m H seen. cq_rep m H q (seen @ pend) \<and>
        (case loc of None \<Rightarrow> seen = [] | Some l \<Rightarrow> cl_head l = of_nat (H + length seen)))"

lemma cq_view_post:
  assumes "cq_view q loc pend" "io_uring_post cqe q = Some q'"
  shows "cq_view q' loc (pend @ [cqe])"
proof -
  obtain m H seen where rep: "cq_rep m H q (seen @ pend)"
    and loc: "case loc of None \<Rightarrow> seen = [] | Some l \<Rightarrow> cl_head l = of_nat (H + length seen)"
    using assms(1) unfolding cq_view_def by blast
  have "cq_rep m H q' (seen @ pend @ [cqe])"
    using io_uring_post_rep [OF rep, of cqe] assms(2) by (cases "length (seen @ pend) < 2 ^ m") auto
  then show ?thesis using loc unfolding cq_view_def by blast
qed

lemma cq_view_start: "cq_view q None pend \<Longrightarrow> cq_view q (Some (fev_poller_check2_start q)) pend"
  unfolding cq_view_def fev_poller_check2_start_def by (fastforce simp: cq_rep_def)

lemma cq_view_next:
  assumes "cq_view q (Some l) pend" "cl_head l \<noteq> cq_tail q"
  obtains cqe rest where "pend = cqe # rest" "aget (cq_cqes q) (unat (cl_head l AND cq_ring_mask q)) = Some cqe"
    "\<And>l'. cl_head l' = cl_head l + 1 \<Longrightarrow> cq_view q (Some l') rest"
proof -
  obtain m H seen where rep: "cq_rep m H q (seen @ pend)" "cl_head l = of_nat (H + length seen)"
    using assms(1) unfolding cq_view_def by auto
  obtain cqe rest where p: "pend = cqe # rest" using cq_rep_empty [OF rep] assms(2) by (cases pend) auto
  have "cq_rep m H q ((seen @ [cqe]) @ rest)" "cl_head l + 1 = of_nat (H + length (seen @ [cqe]))"
    using rep by (simp_all add: p)
  then have "cq_view q (Some l') rest" if "cl_head l' = cl_head l + 1" for l'
    unfolding cq_view_def option.simps using that by metis
  then show thesis using that [OF p] cq_rep_read rep unfolding p by blast
qed

lemma cq_view_end:
  assumes "cq_view q (Some l) pend" "cl_head l = cq_tail q"
  shows "pend = []" "cq_view (q\<lparr>cq_head := cl_head l\<rparr>) None []"
proof -
  obtain m H seen where rep: "cq_rep m H q (seen @ pend)" "cl_head l = of_nat (H + length seen)"
    using assms(1) unfolding cq_view_def by auto
  show p: "pend = []" using cq_rep_empty [OF rep] assms(2) by simp
  show "cq_view (q\<lparr>cq_head := cl_head l\<rparr>) None []"
    using cq_rep_release [OF rep] unfolding cq_view_def p by auto
qed

definition uring_rings :: "uring_sys \<Rightarrow> bool" where
  "uring_rings s \<longleftrightarrow> (\<forall>w. (\<exists>m H. sq_rep m H (us_sq s w) [] []) \<and> cq_view (us_cq s w) (us_loc s w) (us_pend s w))"

definition call_ids :: "uring_call \<Rightarrow> u64 set" where
  "call_ids c = sqe_user_data ` set (call_sqes c)"

text \<open>Every request in flight and every completion belongs to a waiting call.\<close>

definition uring_owned :: "uring_sys \<Rightarrow> bool" where
  "uring_owned s \<longleftrightarrow>
     (\<forall>w. (\<forall>sqe \<in> set (us_flight s w). sqe_user_data sqe \<noteq> 0 \<longrightarrow> (\<exists>f c. us_fiber s f = UWait w c \<and> sqe \<in> set (call_sqes c))) \<and>
          (\<forall>cqe \<in> set (us_pend s w). cqe_user_data cqe \<noteq> 0 \<longrightarrow>
             (\<exists>f c. us_fiber s f = UWait w c \<and> cqe_user_data cqe \<in> call_ids c)))"

definition uring_ends :: "uring_sys \<Rightarrow> bool" where
  "uring_ends s \<longleftrightarrow>
     (\<forall>f p. uring_uses (us_fiber s f) p \<longrightarrow> f < us_fibers s \<and> end_addr p) \<and>
     (\<forall>f g p. uring_uses (us_fiber s f) p \<longrightarrow> uring_uses (us_fiber s g) p \<longrightarrow> f = g)"

text \<open>What a waiting call is still to get, and that its fiber is to be woken exactly when that is nothing.\<close>

definition call_counted :: "fev_socket_end_uring \<Rightarrow> nat \<Rightarrow> u64 multiset \<Rightarrow> nat list \<Rightarrow> u64 \<Rightarrow> bool" where
  "call_counted e f E W p \<longleftrightarrow>
     se_fiber e = f \<and> se_num_entries e = of_nat (count E p + count E (p OR 1)) \<and> count E p \<le> 1 \<and> count E (p OR 1) \<le> 1 \<and>
     (f \<in> set W \<longleftrightarrow> count E p = 0 \<and> count E (p OR 1) = 0)"

definition uring_counted :: "uring_sys \<Rightarrow> bool" where
  "uring_counted s \<longleftrightarrow>
     (\<forall>f w c. us_fiber s f = UWait w c \<longrightarrow> call_counted (us_mem s (uc_end c)) f (ent s w) (to_wake s w) (uc_end c))"

definition uring_wakes :: "uring_sys \<Rightarrow> bool" where
  "uring_wakes s \<longleftrightarrow>
     (\<forall>w. distinct (to_wake s w) \<and> (\<forall>f \<in> set (to_wake s w). \<exists>c. us_fiber s f = UWait w c) \<and>
          (\<forall>l. us_loc s w = Some l \<longrightarrow> cl_num l = of_nat (length (cl_fibers l))))"

definition uring_results :: "uring_sys \<Rightarrow> bool" where
  "uring_results s \<longleftrightarrow>
     (\<forall>w. \<forall>cqe \<in> set (us_pend s w). cqe_user_data cqe \<noteq> 0 \<longrightarrow> cqe_user_data cqe AND 1 = 0 \<longrightarrow>
        us_kres s (cqe_user_data cqe) = Some (cqe_res cqe)) \<and>
     (\<forall>f w c. us_fiber s f = UWait w c \<longrightarrow> count (ent s w) (uc_end c) = 0 \<longrightarrow>
        us_kres s (uc_end c) = Some (se_res (us_mem s (uc_end c)))) \<and>
     (\<forall>f c. us_fiber s f = UWoken c \<longrightarrow>
        se_num_entries (us_mem s (uc_end c)) = 0 \<and> us_kres s (uc_end c) = Some (se_res (us_mem s (uc_end c))))"

definition call_result_of :: "uring_call \<Rightarrow> int \<Rightarrow> int" where
  "call_result_of c res = (if uc_timed c \<noteq> None \<and> res = - ECANCELED then - ETIMEDOUT else res)"

definition uring_logged :: "uring_sys \<Rightarrow> bool" where
  "uring_logged s \<longleftrightarrow>
     (\<forall>(f, c, v, k) \<in> set (us_log s). case k of None \<Rightarrow> v = - EBUSY | Some res \<Rightarrow> v = call_result_of c res)"

definition uring_inv :: "uring_sys \<Rightarrow> bool" where
  "uring_inv s \<longleftrightarrow>
     uring_rings s \<and> uring_owned s \<and> uring_ends s \<and> uring_counted s \<and> uring_wakes s \<and> uring_results s \<and> uring_logged s \<and>
     \<not> us_fault s \<and> us_fibers s < 2147483648"

lemmas uring_inv_defs = uring_inv_def uring_owned_def uring_ends_def uring_wakes_def uring_results_def uring_logged_def

lemma call_ids_eq: "call_ids c = (if uc_timed c = None then {uc_end c} else {uc_end c, uc_end c OR 1})"
  by (simp add: call_ids_def call_sqes_def)

lemma call_ids_end:
  assumes "u \<in> call_ids c" "end_addr (uc_end c)"
  shows "u AND NOT 1 = uc_end c" "u \<noteq> 0" "u AND 1 = 0 \<longleftrightarrow> u = uc_end c" "u = uc_end c \<or> u = uc_end c OR 1"
  using assms(1) end_addr_bits [OF assms(2)] by (auto simp: call_ids_eq split: if_splits)

lemma ids_disjoint:
  assumes "end_addr p" "end_addr q" "p \<noteq> q"
  shows "p \<noteq> q OR 1" "p OR 1 \<noteq> q OR 1"
  using end_addr_bits [OF assms(1)] end_addr_bits [OF assms(2)] assms(3) by metis+

lemma pend_in_ent: "cqe \<in> set (us_pend s w) \<Longrightarrow> cqe_user_data cqe \<in># ent s w"
  by (auto simp: entries_def)

lemma flight_in_ent: "sqe \<in> set (us_flight s w) \<Longrightarrow> sqe_user_data sqe \<in># ent s w"
  by (auto simp: entries_def)

lemma in_ent_owner:
  assumes "uring_owned s" "u \<in># ent s w" "u \<noteq> 0"
  shows "\<exists>f c. us_fiber s f = UWait w c \<and> u \<in> call_ids c"
proof -
  consider sqe where "sqe \<in> set (us_flight s w)" "sqe_user_data sqe = u" | cqe where "cqe \<in> set (us_pend s w)" "cqe_user_data cqe = u"
    using assms(2) by (auto simp: entries_def)
  then show ?thesis
  proof cases
    case 1
    with assms(1,3) obtain f c where "us_fiber s f = UWait w c" "sqe \<in> set (call_sqes c)"
      unfolding uring_owned_def by blast
    then show ?thesis using 1 by (auto simp: call_ids_def)
  next
    case 2
    with assms(1,3) show ?thesis unfolding uring_owned_def by blast
  qed
qed

lemma uses_end:
  assumes "uring_ends s"
  shows "us_fiber s f = UWait w c \<Longrightarrow> end_addr (uc_end c) \<and> f < us_fibers s"
    and "us_fiber s f = UWoken c \<Longrightarrow> end_addr (uc_end c) \<and> f < us_fibers s"
  using assms unfolding uring_ends_def by (metis uring_uses.simps)+

text \<open>Nothing is under way for an end that is not in use.\<close>

lemma ent_fresh:
  assumes "uring_owned s" "uring_ends s" "end_addr p" "\<And>g. \<not> uring_uses (us_fiber s g) p"
  shows "count (ent s w) p = 0" "count (ent s w) (p OR 1) = 0"
proof -
  have "u \<notin># ent s w" if u: "u = p \<or> u = p OR 1" for u
  proof
    assume "u \<in># ent s w"
    moreover have "u \<noteq> 0" "u AND NOT 1 = p" using u end_addr_bits [OF assms(3)] by auto
    ultimately obtain f c where fc: "us_fiber s f = UWait w c" "u \<in> call_ids c"
      using in_ent_owner [OF assms(1)] by blast
    have "end_addr (uc_end c)" using uses_end(1) [OF assms(2) fc(1)] ..
    then have "uc_end c = p" using call_ids_end(1) [OF fc(2)] \<open>u AND NOT 1 = p\<close> by simp
    then show False using assms(4) [of f] fc(1) by simp
  qed
  then show "count (ent s w) p = 0" "count (ent s w) (p OR 1) = 0" by (auto simp: not_in_iff)
qed

lemma uses_none:
  assumes "uring_ends s" "list_all (\<lambda>g. \<not> uring_uses (us_fiber s g) p) [0..<us_fibers s]"
  shows "\<not> uring_uses (us_fiber s g) p"
  using assms by (auto simp: uring_ends_def list_all_iff)

lemma owner_unique:
  assumes "uring_ends s" "us_fiber s f = UWait w c" "us_fiber s g = UWait w' c'" "uc_end c = uc_end c'"
  shows "f = g" "w = w'" "c = c'"
proof -
  show "f = g" using assms unfolding uring_ends_def by (metis uring_uses.simps(2))
  then show "w = w'" "c = c'" using assms(2,3) by auto
qed

lemma owned_mono:
  assumes own: "uring_owned s"
    and fiber: "\<And>f w c. us_fiber s f = UWait w c \<Longrightarrow> us_fiber s' f = UWait w c"
    and flight: "\<And>w sqe. sqe \<in> set (us_flight s' w) \<Longrightarrow> sqe_user_data sqe \<noteq> 0 \<Longrightarrow>
      sqe \<in> set (us_flight s w) \<or> (\<exists>f c. us_fiber s' f = UWait w c \<and> sqe \<in> set (call_sqes c))"
    and pend: "\<And>w cqe. cqe \<in> set (us_pend s' w) \<Longrightarrow> cqe_user_data cqe \<in># ent s w"
  shows "uring_owned s'"
  unfolding uring_owned_def
proof (intro allI conjI ballI impI)
  fix w sqe
  assume "sqe \<in> set (us_flight s' w)" "sqe_user_data sqe \<noteq> 0"
  then show "\<exists>f c. us_fiber s' f = UWait w c \<and> sqe \<in> set (call_sqes c)"
    using flight [of sqe w] fiber own unfolding uring_owned_def by blast
next
  fix w cqe
  assume "cqe \<in> set (us_pend s' w)" "cqe_user_data cqe \<noteq> 0"
  then show "\<exists>f c. us_fiber s' f = UWait w c \<and> cqe_user_data cqe \<in> call_ids c"
    using in_ent_owner [OF own pend [of cqe w]] fiber by blast
qed

lemma call_counted_cong:
  "count E' p = count E p \<Longrightarrow> count E' (p OR 1) = count E (p OR 1) \<Longrightarrow> (f \<in> set W' \<longleftrightarrow> f \<in> set W) \<Longrightarrow>
   call_counted e f E' W' p = call_counted e f E W p"
  by (simp add: call_counted_def)

lemma resultsI:
  assumes "\<And>w cqe. cqe \<in> set (us_pend s w) \<Longrightarrow> cqe_user_data cqe \<noteq> 0 \<Longrightarrow> cqe_user_data cqe AND 1 = 0 \<Longrightarrow>
             us_kres s (cqe_user_data cqe) = Some (cqe_res cqe)"
    and "\<And>f w c. us_fiber s f = UWait w c \<Longrightarrow> count (ent s w) (uc_end c) = 0 \<Longrightarrow>
             us_kres s (uc_end c) = Some (se_res (us_mem s (uc_end c)))"
    and "\<And>f c. us_fiber s f = UWoken c \<Longrightarrow>
             se_num_entries (us_mem s (uc_end c)) = 0 \<and> us_kres s (uc_end c) = Some (se_res (us_mem s (uc_end c)))"
  shows "uring_results s"
  using assms unfolding uring_results_def by blast

lemma resultsD:
  assumes "uring_results s"
  shows "cqe \<in> set (us_pend s w) \<Longrightarrow> cqe_user_data cqe \<noteq> 0 \<Longrightarrow> cqe_user_data cqe AND 1 = 0 \<Longrightarrow>
             us_kres s (cqe_user_data cqe) = Some (cqe_res cqe)"
    and "us_fiber s f = UWait w c \<Longrightarrow> count (ent s w) (uc_end c) = 0 \<Longrightarrow>
             us_kres s (uc_end c) = Some (se_res (us_mem s (uc_end c)))"
    and "us_fiber s f = UWoken c \<Longrightarrow> se_num_entries (us_mem s (uc_end c)) = 0"
    and "us_fiber s f = UWoken c \<Longrightarrow> us_kres s (uc_end c) = Some (se_res (us_mem s (uc_end c)))"
  using assms unfolding uring_results_def by blast+

lemma wakesD:
  assumes "uring_wakes s" "us_loc s w = Some l"
  shows "distinct (cl_fibers l)" "f \<in> set (cl_fibers l) \<Longrightarrow> \<exists>c. us_fiber s f = UWait w c" "cl_num l = of_nat (length (cl_fibers l))"
  using assms unfolding uring_wakes_def by (metis wake_list_simps(2))+

section \<open>Making a call\<close>

lemma uring_begin_elim:
  assumes inv: "uring_inv s" and st: "uring_begin w f c (int (length (call_sqes c))) s = Some s'"
  obtains (busy) r m H where "sq_rep m H r [] []"
      "s' = s\<lparr>us_sq := (us_sq s)(w := r), us_mem := (us_mem s)(uc_end c := call_end c f (us_mem s (uc_end c))),
             us_kres := (us_kres s)(uc_end c := None), us_log := us_log s @ [(f, c, - EBUSY, None)]\<rparr>"
  | (switch) r m H where "sq_rep m H r [] []"
      "s' = s\<lparr>us_sq := (us_sq s)(w := r), us_mem := (us_mem s)(uc_end c := call_end c f (us_mem s (uc_end c))),
             us_flight := (us_flight s)(w := us_flight s w @ call_sqes c), us_fiber := (us_fiber s)(f := UWait w c),
             us_kres := (us_kres s)(uc_end c := None)\<rparr>"
proof -
  from inv obtain m H where r: "sq_rep m H (us_sq s w) [] []"
    unfolding uring_inv_def uring_rings_def by blast
  let ?e = "call_end c f (us_mem s (uc_end c))"
  note ref = submit_begin_refines [OF r order.refl, of c f "us_mem s (uc_end c)"]
  have run: "us_fiber s f = URun" using st by (simp add: uring_begin_def split: if_splits)
  show thesis
  proof (cases "length (call_sqes c) > 2 ^ m")
    case True
    then obtain r' where "submit_begin c f (int (length (call_sqes c))) (us_sq s w) (us_mem s (uc_end c)) =
        Some (SubmitReturn (- EBUSY), [], r', ?e)" "sq_rep m H r' [] []"
      using ref by (auto simp: submit_spec_def option_rel_Some2)
    then show thesis using st run by (intro busy [of m H r']) (auto simp: uring_begin_def fun_upd_idem split: if_splits)
  next
    case False
    then obtain r' where "submit_begin c f (int (length (call_sqes c))) (us_sq s w) (us_mem s (uc_end c)) =
        Some (SubmitSwitch, call_sqes c, r', ?e)" "sq_rep m (H + length (call_sqes c)) r' [] []"
      using ref by (auto simp: submit_spec_def option_rel_Some2)
    then show thesis using st by (intro switch [of m "H + length (call_sqes c)" r']) (auto simp: uring_begin_def split: if_splits)
  qed
qed

lemma uring_begin_guard:
  assumes "uring_begin w f c ret s = Some s'"
  shows "us_loc s w = None" "us_fiber s f = URun" "end_addr (uc_end c)" "f < us_fibers s"
    "list_all (\<lambda>g. \<not> uring_uses (us_fiber s g) (uc_end c)) [0..<us_fibers s]"
  using assms by (auto simp: uring_begin_def split: if_splits)

lemma call_count:
  assumes "end_addr (uc_end c)"
  shows "count (mset (map sqe_user_data (call_sqes c))) (uc_end c) = 1"
    "count (mset (map sqe_user_data (call_sqes c))) (uc_end c OR 1) = (if uc_timed c = None then 0 else 1)"
    "end_addr p \<Longrightarrow> p \<noteq> uc_end c \<Longrightarrow> count (mset (map sqe_user_data (call_sqes c))) p = 0"
    "end_addr p \<Longrightarrow> p \<noteq> uc_end c \<Longrightarrow> count (mset (map sqe_user_data (call_sqes c))) (p OR 1) = 0"
  using end_addr_bits [OF assms] ids_disjoint [OF _ assms, of p] ids_disjoint [OF assms, of p]
  by (auto simp: call_sqes_def)

lemma inv_begin_busy:
  assumes inv: "uring_inv s" and r: "sq_rep m H r [] []" and p: "end_addr p"
    and free: "\<And>g. \<not> uring_uses (us_fiber s g) p"
  shows "uring_inv (s\<lparr>us_sq := (us_sq s)(w := r), us_mem := (us_mem s)(p := e), us_kres := (us_kres s)(p := None),
                      us_log := us_log s @ [(f, c, - EBUSY, None)]\<rparr>)"
    (is "uring_inv ?s'")
proof -
  have ne: "us_fiber s g = UWait w' c' \<Longrightarrow> uc_end c' \<noteq> p" "us_fiber s g = UWoken c' \<Longrightarrow> uc_end c' \<noteq> p" for g w' c'
    using free [of g] by auto
  have parts: "uring_rings s" "uring_owned s" "uring_ends s" "uring_counted s" "uring_wakes s" "uring_results s"
    using inv by (simp_all add: uring_inv_def)
  note fresh = ent_fresh [OF parts(2,3) p free]
  have "uring_rings ?s'" using parts(1) r unfolding uring_rings_def by auto
  moreover have "uring_owned ?s'" using parts(2) by (simp add: uring_owned_def)
  moreover have "uring_ends ?s'" using parts(3) by (simp add: uring_ends_def)
  moreover have "uring_counted ?s'" using parts(4) ne(1) by (simp add: uring_counted_def)
  moreover have "uring_wakes ?s'" using parts(5) by (simp add: uring_wakes_def)
  moreover have "cqe_user_data cqe \<noteq> p" if "cqe \<in> set (us_pend s w')" for cqe w'
    using fresh(1) [of w'] pend_in_ent [OF that] by (metis not_in_iff)
  then have "uring_results ?s'" using parts(6) ne by (simp add: uring_results_def)
  ultimately show ?thesis using inv by (auto simp: uring_inv_def uring_logged_def)
qed

lemma inv_begin_switch:
  assumes inv: "uring_inv s" and r: "sq_rep m H r [] []" and p: "end_addr (uc_end c)"
    and free: "\<And>g. \<not> uring_uses (us_fiber s g) (uc_end c)" and f: "f < us_fibers s" "us_fiber s f = URun" "us_loc s w = None"
  shows "uring_inv (s\<lparr>us_sq := (us_sq s)(w := r), us_mem := (us_mem s)(uc_end c := call_end c f e),
                      us_flight := (us_flight s)(w := us_flight s w @ call_sqes c), us_fiber := (us_fiber s)(f := UWait w c),
                      us_kres := (us_kres s)(uc_end c := None)\<rparr>)"
    (is "uring_inv ?s'")
proof -
  have ne: "us_fiber s g = UWait w' c' \<Longrightarrow> uc_end c' \<noteq> uc_end c" "us_fiber s g = UWoken c' \<Longrightarrow> uc_end c' \<noteq> uc_end c" for g w' c'
    using free [of g] by auto
  have parts: "uring_rings s" "uring_owned s" "uring_ends s" "uring_counted s" "uring_wakes s" "uring_results s"
    using inv by (simp_all add: uring_inv_def)
  note fresh = ent_fresh [OF parts(2,3) p free]
  have same: "count (ent ?s' w') (uc_end c') = count (ent s w') (uc_end c')" "count (ent ?s' w') (uc_end c' OR 1) = count (ent s w') (uc_end c' OR 1)"
    if "us_fiber s g = UWait w' c'" for g w' c'
    using call_count(3,4) [OF p, of "uc_end c'"] uses_end(1) [OF parts(3) that] ne(1) [OF that] by auto
  have "uring_rings ?s'" using parts(1) r unfolding uring_rings_def by auto
  moreover have "uring_owned ?s'"
    by (rule owned_mono [OF parts(2)]) (use f(2) in \<open>auto simp: pend_in_ent split: if_splits\<close>)
  moreover have "uring_ends ?s'" using parts(3) p free f(1) unfolding uring_ends_def by auto
  moreover have "uring_counted ?s'"
    unfolding uring_counted_def
  proof (intro allI impI)
    fix g w' c'
    assume g: "us_fiber ?s' g = UWait w' c'"
    show "call_counted (us_mem ?s' (uc_end c')) g (ent ?s' w') (to_wake ?s' w') (uc_end c')"
    proof (cases "g = f")
      case True
      then show ?thesis using g f(3) call_count(1,2) [OF p] fresh [of w]
        by (auto simp: call_counted_def call_end_def call_sqes_def)
    next
      case False
      then have old: "us_fiber s g = UWait w' c'" using g by simp
      show ?thesis
        using parts(4) old ne(1) [OF old] call_counted_cong [OF same [OF old] refl] unfolding uring_counted_def by simp
    qed
  qed
  moreover have "uring_wakes ?s'" using parts(5) f(2,3) unfolding uring_wakes_def by simp (metis uring_fiber.distinct(1))
  moreover have "uring_results ?s'"
  proof -
    have "cqe_user_data cqe \<noteq> uc_end c" if "cqe \<in> set (us_pend s w')" for cqe w'
      using fresh(1) [of w'] pend_in_ent [OF that] by (metis not_in_iff)
    moreover have "uc_end c \<in> sqe_user_data ` set (call_sqes c)" by (simp add: call_sqes_def)
    ultimately show ?thesis using parts(6) ne same by (auto simp: uring_results_def split: if_splits)
  qed
  ultimately show ?thesis using inv by (auto simp: uring_inv_def uring_logged_def)
qed

lemma inv_begin:
  assumes inv: "uring_inv s" and st: "uring_begin w f c (int (length (call_sqes c))) s = Some s'"
  shows "uring_inv s'"
proof -
  note g = uring_begin_guard [OF st]
  have free: "\<not> uring_uses (us_fiber s g) (uc_end c)" for g
    using uses_none [OF _ g(5)] inv by (simp add: uring_inv_def)
  show ?thesis using inv st
  proof (cases rule: uring_begin_elim)
    case (busy r m H)
    then show ?thesis using inv_begin_busy [OF inv busy(1) g(3) free] by simp
  next
    case (switch r m H)
    then show ?thesis using inv_begin_switch [OF inv switch(1) g(3) free g(4) g(2) g(1)] by simp
  qed
qed

section \<open>The kernel\<close>

lemma mset_take_drop:
  assumes "k < length xs"
  shows "mset xs = add_mset (xs ! k) (mset (take k xs @ drop (Suc k) xs))"
  using id_take_nth_drop [OF assms] by (metis mset.simps(2) mset_append union_mset_add_mset_right)

lemma entry_owner:
  assumes "uring_inv s" "u \<in># ent s w" "u \<noteq> 0"
  obtains f c where "us_fiber s f = UWait w c" "u \<in> call_ids c" "end_addr (uc_end c)" "u AND NOT 1 = uc_end c"
    "u AND 1 = 0 \<longleftrightarrow> u = uc_end c" "count (ent s w) u = 1" "f \<notin> set (to_wake s w)"
proof -
  have parts: "uring_owned s" "uring_ends s" "uring_counted s" using assms(1) by (simp_all add: uring_inv_def)
  obtain f c where fc: "us_fiber s f = UWait w c" "u \<in> call_ids c" using in_ent_owner [OF parts(1) assms(2,3)] by blast
  have e: "end_addr (uc_end c)" using uses_end(1) [OF parts(2) fc(1)] ..
  have cc: "call_counted (us_mem s (uc_end c)) f (ent s w) (to_wake s w) (uc_end c)"
    using parts(3) fc(1) unfolding uring_counted_def by blast
  have "1 \<le> count (ent s w) u" using assms(2) by (simp add: Suc_le_eq)
  then have "count (ent s w) u = 1 \<and> f \<notin> set (to_wake s w)"
    using cc call_ids_end(4) [OF fc(2) e] unfolding call_counted_def by (metis le_antisym not_one_le_zero)
  then show thesis using that [OF fc e call_ids_end(1,3) [OF fc(2) e]] by blast
qed

lemma flight_not_pending:
  assumes inv: "uring_inv s" and "sqe \<in> set (us_flight s w)" "cqe \<in> set (us_pend s w')" "sqe_user_data sqe \<noteq> 0"
  shows "cqe_user_data cqe \<noteq> sqe_user_data sqe"
proof
  assume eq: "cqe_user_data cqe = sqe_user_data sqe"
  define u where "u = sqe_user_data sqe"
  obtain f c where f: "us_fiber s f = UWait w c" "u AND NOT 1 = uc_end c" "count (ent s w) u = 1"
    using entry_owner [OF inv flight_in_ent [OF assms(2)] assms(4)] unfolding u_def by metis
  obtain g d where g: "us_fiber s g = UWait w' d" "u AND NOT 1 = uc_end d"
    using entry_owner [OF inv pend_in_ent [OF assms(3)]] assms(4) eq unfolding u_def by metis
  have ww: "w = w'" using owner_unique(2) [OF _ f(1) g(1)] inv f(2) g(2) by (simp add: uring_inv_def)
  have "count (mset (map sqe_user_data (us_flight s w))) u > 0" "count (mset (map cqe_user_data (us_pend s w))) u > 0"
    using assms(2,3) eq by (force simp: u_def ww)+
  then show False using f(3) unfolding entries_def count_union by linarith
qed

lemma inv_complete:
  assumes inv: "uring_inv s" and st: "uring_complete w k res s = Some s'"
  shows "uring_inv s'"
proof -
  have parts: "uring_rings s" "uring_owned s" "uring_ends s" "uring_counted s" "uring_wakes s" "uring_results s"
    using inv by (simp_all add: uring_inv_def)
  let ?sqe = "us_flight s w ! k"
  let ?rest = "take k (us_flight s w) @ drop (Suc k) (us_flight s w)"
  define u where "u = sqe_user_data ?sqe"
  define cqe where "cqe = \<lparr>cqe_user_data = u, cqe_res = res\<rparr>"
  from st obtain q where k: "k < length (us_flight s w)" and q: "io_uring_post cqe (us_cq s w) = Some q"
    and s': "s' = s\<lparr>us_cq := (us_cq s)(w := q), us_flight := (us_flight s)(w := ?rest),
                   us_pend := (us_pend s)(w := us_pend s w @ [cqe]),
                   us_kres := (if u AND 1 = 0 then (us_kres s)(u := Some res) else us_kres s)\<rparr>"
    by (auto simp: uring_complete_def Let_def u_def cqe_def split: if_splits option.splits)
  have perm: "mset (us_flight s w) = add_mset ?sqe (mset ?rest)" by (rule mset_take_drop [OF k])
  have ent: "ent s' w' = ent s w'" for w'
    using arg_cong [OF perm, of "image_mset sqe_user_data"] by (simp add: s' entries_def cqe_def u_def)
  have flight: "set (us_flight s' w') \<subseteq> set (us_flight s w')" for w'
    by (auto simp: s' dest: in_set_takeD in_set_dropD)
  have "uring_rings s'" using parts(1) cq_view_post [OF _ q] unfolding uring_rings_def by (simp add: s')
  moreover have "uring_owned s'"
  proof (rule owned_mono [OF parts(2)])
    show "cqe_user_data c \<in># ent s w'" if "c \<in> set (us_pend s' w')" for w' c
      using pend_in_ent [OF that] by (simp add: ent)
  qed (use flight in \<open>auto simp: s'\<close>)
  moreover have "uring_ends s'" using parts(3) by (simp add: s' uring_ends_def)
  moreover have "uring_counted s'" using parts(4) ent by (simp add: s' uring_counted_def)
  moreover have "uring_wakes s'" using parts(5) by (simp add: s' uring_wakes_def)
  moreover have "uring_results s'"
  proof -
    have sq: "?sqe \<in> set (us_flight s w)" using k by simp
    have other: "cqe_user_data d \<noteq> u" if "d \<in> set (us_pend s w')" "cqe_user_data d \<noteq> 0" for d w'
      using flight_not_pending [OF inv sq that(1)] that(2) unfolding u_def by metis
    have free: "uc_end d \<noteq> u" if "us_fiber s g = UWait w' d \<and> count (ent s w') (uc_end d) = 0 \<or> us_fiber s g = UWoken d" for g w' d
    proof
      assume du: "uc_end d = u"
      have "end_addr u" using that uses_end [OF parts(3)] du by blast
      then have u: "u \<noteq> 0" "u AND NOT 1 = u" using end_addr_bits by auto
      obtain f c where f: "us_fiber s f = UWait w c" "u AND NOT 1 = uc_end c" "count (ent s w) u = 1"
        using entry_owner [OF inv flight_in_ent [OF sq]] u(1) unfolding u_def by metis
      have "f = g" using parts(3) that f(1,2) du u(2) unfolding uring_ends_def by (metis uring_uses.simps(2,3))
      then show False using that f(1,3) du by auto
    qed
    have free1: "uc_end d \<noteq> u" if "us_fiber s g = UWait w' d" "count (ent s w') (uc_end d) = 0" for g d w' using free that by blast
    have free2: "uc_end d \<noteq> u" if "us_fiber s g = UWoken d" for g d using free that by blast
    show ?thesis using parts(6) other free1 free2 unfolding uring_results_def ent by (auto simp: s' cqe_def)
  qed
  ultimately show ?thesis using inv by (simp add: uring_inv_def uring_logged_def s')
qed

section \<open>Taking completions\<close>

lemma inv_check_start:
  assumes inv: "uring_inv s" and st: "uring_check_start w s = Some s'"
  shows "uring_inv s'"
proof -
  have s': "s' = s\<lparr>us_loc := (us_loc s)(w := Some (fev_poller_check2_start (us_cq s w)))\<rparr>" and l: "us_loc s w = None"
    using st by (auto simp: uring_check_start_def split: if_splits)
  have W: "to_wake s' w' = to_wake s w'" for w' using l by (simp add: s' fev_poller_check2_start_def)
  have parts: "uring_rings s" "uring_owned s" "uring_ends s" "uring_counted s" "uring_wakes s" "uring_results s"
    using inv by (simp_all add: uring_inv_def)
  have "uring_rings s'" using parts(1) l cq_view_start unfolding uring_rings_def s' by simp metis
  moreover have "uring_owned s'" using parts(2) by (simp add: s' uring_owned_def)
  moreover have "uring_ends s'" using parts(3) by (simp add: s' uring_ends_def)
  moreover have "uring_counted s'" using parts(4) unfolding uring_counted_def W by (simp add: s')
  moreover have "uring_wakes s'" using parts(5) unfolding uring_wakes_def W by (simp add: s' fev_poller_check2_start_def)
  moreover have "uring_results s'" using parts(6) by (simp add: s' uring_results_def)
  ultimately show ?thesis using inv by (simp add: uring_inv_def uring_logged_def s')
qed

lemma check2_body_head:
  assumes "aget (cq_cqes q) (unat (cl_head l AND cq_ring_mask q)) = Some cqe"
  shows "\<exists>l' mem'. fev_poller_check2_body q l mem = Some (l', mem') \<and> cl_head l' = cl_head l + 1"
  using assms by (cases "cqe_user_data cqe = 0") (simp_all add: fev_poller_check2_body_def Let_def)

text \<open>The completion that an iteration takes is the first of the pending ones.\<close>

lemma check_next_elim:
  assumes inv: "uring_inv s" and st: "uring_check_next w s = Some s'"
  obtains l cqe rest l' mem' where "us_loc s w = Some l" "us_pend s w = cqe # rest"
    "aget (cq_cqes (us_cq s w)) (unat (cl_head l AND cq_ring_mask (us_cq s w))) = Some cqe"
    "fev_poller_check2_body (us_cq s w) l (us_mem s) = Some (l', mem')" "cq_view (us_cq s w) (Some l') rest"
    "s' = s\<lparr>us_loc := (us_loc s)(w := Some l'), us_mem := mem', us_pend := (us_pend s)(w := rest)\<rparr>"
proof -
  obtain l where l: "us_loc s w = Some l" "cl_head l \<noteq> cq_tail (us_cq s w)"
    using st by (auto simp: uring_check_next_def split: option.splits if_splits)
  have "cq_view (us_cq s w) (Some l) (us_pend s w)" using inv l(1) unfolding uring_inv_def uring_rings_def by metis
  from this l(2) obtain cqe rest where p: "us_pend s w = cqe # rest"
    and a: "aget (cq_cqes (us_cq s w)) (unat (cl_head l AND cq_ring_mask (us_cq s w))) = Some cqe"
    and v: "\<And>l'. cl_head l' = cl_head l + 1 \<Longrightarrow> cq_view (us_cq s w) (Some l') rest"
    by (rule cq_view_next) blast
  obtain l' mem' where b: "fev_poller_check2_body (us_cq s w) l (us_mem s) = Some (l', mem')" "cl_head l' = cl_head l + 1"
    using check2_body_head [OF a] by blast
  show thesis using that [OF l(1) p a b(1) v [OF b(2)]] st l b(1) p by (simp add: uring_check_next_def)
qed

lemma call_counted_take:
  assumes cc: "call_counted e f (add_mset u E) W p" and u: "u = p \<or> u = p OR 1" and p: "end_addr p"
    and e: "se_fiber e' = se_fiber e" "se_num_entries e' = se_num_entries e - 1"
  shows "call_counted e' f E (if se_num_entries e' = 0 then W @ [f] else W) p"
proof -
  have u': "p OR 1 \<noteq> p" using end_addr_bits(7) [OF p] .
  define n where "n = count E p + count E (p OR 1)"
  have n: "n \<le> 1" "se_num_entries e' = of_nat n" "count E p \<le> 1" "count E (p OR 1) \<le> 1" "f \<notin> set W"
    using cc u u' e(2) unfolding call_counted_def n_def by (auto split: if_splits)
  have "(of_nat n :: u32) = 0 \<longleftrightarrow> n = 0" using n(1) by (cases n) auto
  then show ?thesis using n e(1) cc unfolding call_counted_def n_def by auto
qed

lemma inv_check_zero:
  assumes inv: "uring_inv s" and l: "us_loc s w = Some l" "us_pend s w = cqe # rest" "cqe_user_data cqe = 0"
    and l': "cq_view (us_cq s w) (Some l') rest" "cl_fibers l' = cl_fibers l" "cl_num l' = cl_num l"
  shows "uring_inv (s\<lparr>us_loc := (us_loc s)(w := Some l'), us_pend := (us_pend s)(w := rest)\<rparr>)" (is "uring_inv ?s'")
proof -
  have parts: "uring_rings s" "uring_owned s" "uring_ends s" "uring_counted s" "uring_wakes s" "uring_results s"
    using inv by (simp_all add: uring_inv_def)
  have cnt: "u \<noteq> 0 \<Longrightarrow> count (ent ?s' w') u = count (ent s w') u" for w' u using l(2,3) by simp
  have W: "to_wake ?s' w' = to_wake s w'" for w' using l(1) l'(2) by simp
  have sub: "set (us_pend ?s' w') \<subseteq> set (us_pend s w')" for w' using l(2) by auto
  have "uring_rings ?s'" using parts(1) l'(1) by (simp add: uring_rings_def)
  moreover have "uring_owned ?s'"
  proof (rule owned_mono [OF parts(2)])
    show "cqe_user_data c \<in># ent s w'" if "c \<in> set (us_pend ?s' w')" for w' c
      using sub that pend_in_ent by blast
  qed auto
  moreover have "uring_ends ?s'" using parts(3) by (simp add: uring_ends_def)
  moreover have "uring_counted ?s'" unfolding uring_counted_def W
  proof (intro allI impI)
    fix f w' c assume "us_fiber ?s' f = UWait w' c"
    then have f: "us_fiber s f = UWait w' c" by simp
    note nz = end_addr_bits(5,6) [OF conjunct1 [OF uses_end(1) [OF parts(3) f]]]
    show "call_counted (us_mem ?s' (uc_end c)) f (ent ?s' w') (to_wake s w') (uc_end c)"
      using parts(4) f call_counted_cong [OF cnt [OF nz(1)] cnt [OF nz(2)] refl] unfolding uring_counted_def by simp
  qed
  moreover have "uring_wakes ?s'" using parts(5) l'(2,3) l(1) unfolding uring_wakes_def W by simp
  moreover have "uring_results ?s'"
  proof (rule resultsI)
    show "us_kres ?s' (cqe_user_data d) = Some (cqe_res d)"
      if "d \<in> set (us_pend ?s' w')" "cqe_user_data d \<noteq> 0" "cqe_user_data d AND 1 = 0" for d w'
      using resultsD(1) [OF parts(6) subsetD [OF sub that(1)] that(2,3)] by simp
    show "us_kres ?s' (uc_end c) = Some (se_res (us_mem ?s' (uc_end c)))"
      if "us_fiber ?s' f = UWait w' c" "count (ent ?s' w') (uc_end c) = 0" for f w' c
    proof -
      have "us_fiber s f = UWait w' c" using that(1) by simp
      then show ?thesis
        using resultsD(2) [OF parts(6)] that(2) cnt end_addr_bits(5) uses_end(1) [OF parts(3)] by simp
    qed
  qed (use resultsD(3,4) [OF parts(6)] in simp)
  ultimately show ?thesis using inv by (simp add: uring_inv_def uring_logged_def)
qed

lemma inv_check_entry:
  assumes inv: "uring_inv s" and l: "us_loc s w = Some l" "us_pend s w = cqe # rest" "cqe_user_data cqe = u" "u \<noteq> 0"
    and f: "us_fiber s f = UWait w c" "u \<in> call_ids c"
    and l': "cq_view (us_cq s w) (Some l') rest"
    "cl_fibers l' = (if se_num_entries e' = 0 then cl_fibers l @ [f] else cl_fibers l)"
    "cl_num l' = (if se_num_entries e' = 0 then cl_num l + 1 else cl_num l)"
    and e': "se_fiber e' = f" "se_num_entries e' = se_num_entries (us_mem s (uc_end c)) - 1"
    "se_res e' = (if u AND 1 \<noteq> 0 then se_res (us_mem s (uc_end c)) else cqe_res cqe)"
  shows "uring_inv (s\<lparr>us_loc := (us_loc s)(w := Some l'), us_mem := (us_mem s)(uc_end c := e'), us_pend := (us_pend s)(w := rest)\<rparr>)"
    (is "uring_inv ?s'")
proof -
  have parts: "uring_rings s" "uring_owned s" "uring_ends s" "uring_counted s" "uring_wakes s" "uring_results s"
    using inv by (simp_all add: uring_inv_def)
  have p: "end_addr (uc_end c)" using uses_end(1) [OF parts(3) f(1)] ..
  note u = call_ids_end [OF f(2) p]
  have E: "ent s w = add_mset u (ent ?s' w)" using l(2,3) by simp
  have cc: "call_counted (us_mem s (uc_end c)) f (ent s w) (cl_fibers l) (uc_end c)"
    using parts(4) f(1) l(1) unfolding uring_counted_def by fastforce
  have sf: "se_fiber e' = se_fiber (us_mem s (uc_end c))" using cc e'(1) by (simp add: call_counted_def)
  have nf: "f \<notin> set (cl_fibers l)"
    using cc u(4) unfolding E call_counted_def by auto
  have ne: "uc_end c' \<noteq> uc_end c" if "us_fiber s g = UWait w' c' \<or> us_fiber s g = UWoken c'" "g \<noteq> f" for g w' c'
    using parts(3) that f(1) unfolding uring_ends_def by (metis uring_uses.simps(2,3))
  have cnt: "count (ent ?s' w') (uc_end c') = count (ent s w') (uc_end c')" "count (ent ?s' w') (uc_end c' OR 1) = count (ent s w') (uc_end c' OR 1)"
    if "us_fiber s g = UWait w' c'" "g \<noteq> f" for g w' c'
  proof -
    have "end_addr (uc_end c')" "uc_end c' \<noteq> uc_end c"
      using uses_end(1) [OF parts(3) that(1)] ne [OF disjI1 [OF that(1)] that(2)] by auto
    then have "u \<noteq> uc_end c'" "u \<noteq> uc_end c' OR 1" using end_addr_bits(2,4) u(1) by metis+
    then show "count (ent ?s' w') (uc_end c') = count (ent s w') (uc_end c')"
      "count (ent ?s' w') (uc_end c' OR 1) = count (ent s w') (uc_end c' OR 1)" using l(2,3) by auto
  qed
  have W: "set (to_wake ?s' w') = (if w' = w \<and> se_num_entries e' = 0 then insert f (set (to_wake s w')) else set (to_wake s w'))" for w'
    using l(1) l'(2) by auto
  have sub: "set (us_pend ?s' w') \<subseteq> set (us_pend s w')" for w' using l(2) by auto
  have "uring_rings ?s'" using parts(1) l'(1) by (simp add: uring_rings_def)
  moreover have "uring_owned ?s'"
  proof (rule owned_mono [OF parts(2)])
    show "cqe_user_data c \<in># ent s w'" if "c \<in> set (us_pend ?s' w')" for w' c
      using sub that pend_in_ent by blast
  qed auto
  moreover have "uring_ends ?s'" using parts(3) by (simp add: uring_ends_def)
  moreover have "uring_counted ?s'" unfolding uring_counted_def
  proof (intro allI impI)
    fix g w' c' assume "us_fiber ?s' g = UWait w' c'"
    then have g: "us_fiber s g = UWait w' c'" by simp
    show "call_counted (us_mem ?s' (uc_end c')) g (ent ?s' w') (to_wake ?s' w') (uc_end c')"
    proof (cases "g = f")
      case True
      then have "w' = w" "c' = c" using g f(1) by auto
      then show ?thesis
        using call_counted_take [OF cc [unfolded E] u(4) p sf e'(2)] True l'(2) by simp
    next
      case False
      then have "g \<in> set (to_wake ?s' w') \<longleftrightarrow> g \<in> set (to_wake s w')" unfolding W by auto
      from call_counted_cong [OF cnt [OF g False] this] show ?thesis
        using parts(4) g ne [OF disjI1 [OF g] False] unfolding uring_counted_def by simp
    qed
  qed
  moreover have "uring_wakes ?s'" 
    using parts(5) wakesD [OF parts(5) l(1)] l'(2,3) nf f(1) unfolding uring_wakes_def by auto
  moreover have "uring_results ?s'"
  proof (rule resultsI)
    show "us_kres ?s' (cqe_user_data d) = Some (cqe_res d)"
      if "d \<in> set (us_pend ?s' w')" "cqe_user_data d \<noteq> 0" "cqe_user_data d AND 1 = 0" for d w'
      using resultsD(1) [OF parts(6) subsetD [OF sub that(1)] that(2,3)] by simp
    show "us_kres ?s' (uc_end c') = Some (se_res (us_mem ?s' (uc_end c')))"
      if g: "us_fiber ?s' g = UWait w' c'" and z: "count (ent ?s' w') (uc_end c') = 0" for g w' c'
    proof (cases "g = f")
      case False
      have g: "us_fiber s g = UWait w' c'" using g by simp
      show ?thesis using resultsD(2) [OF parts(6) g] z ne [OF disjI1 [OF g] False] cnt(1) [OF g False] by simp
    next
      case True
      then have cw: "c' = c" "w' = w" using g f(1) by auto
      show ?thesis
      proof (cases "u = uc_end c")
        case True
        then show ?thesis using resultsD(1) [OF parts(6), of cqe w] u(2,3) l(2,3) e'(3) cw by simp
      next
        case False
        then have "count (ent s w) (uc_end c) = 0" using z unfolding cw E by simp
        then show ?thesis using resultsD(2) [OF parts(6) f(1)] u(3) False e'(3) cw by simp
      qed
    qed
    show "se_num_entries (us_mem ?s' (uc_end c')) = 0 \<and> us_kres ?s' (uc_end c') = Some (se_res (us_mem ?s' (uc_end c')))"
      if g: "us_fiber ?s' g = UWoken c'" for g c'
    proof -
      have g: "us_fiber s g = UWoken c'" using g by simp
      moreover have "g \<noteq> f" using g f(1) by auto
      ultimately show ?thesis using resultsD(3,4) [OF parts(6) g] ne [OF disjI2 [OF g]] by simp
    qed
  qed
  ultimately show ?thesis using inv by (simp add: uring_inv_def uring_logged_def)
qed

lemma inv_check_next:
  assumes inv: "uring_inv s" and st: "uring_check_next w s = Some s'"
  shows "uring_inv s'"
proof -
  obtain l cqe rest l' mem' where l: "us_loc s w = Some l" and p: "us_pend s w = cqe # rest"
    and a: "aget (cq_cqes (us_cq s w)) (unat (cl_head l AND cq_ring_mask (us_cq s w))) = Some cqe"
    and b: "fev_poller_check2_body (us_cq s w) l (us_mem s) = Some (l', mem')" and v: "cq_view (us_cq s w) (Some l') rest"
    and s': "s' = s\<lparr>us_loc := (us_loc s)(w := Some l'), us_mem := mem', us_pend := (us_pend s)(w := rest)\<rparr>"
    using inv st by (rule check_next_elim) blast
  show ?thesis
  proof (cases "cqe_user_data cqe = 0")
    case True
    then have "l' = l\<lparr>cl_head := cl_head l + 1, cl_interrupted := True\<rparr>" "mem' = us_mem s"
      using a b by (auto simp: fev_poller_check2_body_def)
    then show ?thesis using inv_check_zero [OF inv l p True v] by (simp add: s')
  next
    case False
    define u where "u = cqe_user_data cqe"
    have u: "cqe_user_data cqe = u" "u \<noteq> 0" "u \<in># ent s w" using False p by (simp_all add: u_def)
    obtain f c where f: "us_fiber s f = UWait w c" "u \<in> call_ids c" "u AND NOT 1 = uc_end c"
      using entry_owner [OF inv u(3,2)] by metis
    have sf: "se_fiber (us_mem s (uc_end c)) = f"
      using inv f(1) by (auto simp: uring_inv_def uring_counted_def call_counted_def)
    define e' where "e' = (let e = us_mem s (uc_end c); e1 = (if u AND 1 \<noteq> 0 then e else e\<lparr>se_res := cqe_res cqe\<rparr>)
        in e1\<lparr>se_num_entries := se_num_entries e1 - 1\<rparr>)"
    have e': "se_fiber e' = f" "se_num_entries e' = se_num_entries (us_mem s (uc_end c)) - 1"
      "se_res e' = (if u AND 1 \<noteq> 0 then se_res (us_mem s (uc_end c)) else cqe_res cqe)"
      by (simp_all add: e'_def Let_def sf)
    have "mem' = (us_mem s)(uc_end c := e')"
      "l' = (if se_num_entries e' = 0 then l\<lparr>cl_head := cl_head l + 1, cl_fibers := cl_fibers l @ [f], cl_num := cl_num l + 1\<rparr>
             else l\<lparr>cl_head := cl_head l + 1\<rparr>)"
      using a b u(1,2) f(3) sf by (auto simp: fev_poller_check2_body_def Let_def e'_def)
    then show ?thesis using inv_check_entry [OF inv l p u(1,2) f(1,2) v _ _ e'] by (simp add: s')
  qed
qed

lemma wake_bound:
  assumes "uring_inv s" "us_loc s w = Some l"
  shows "length (cl_fibers l) < 2147483648"
proof -
  have parts: "uring_wakes s" "uring_ends s" "us_fibers s < 2147483648" using assms(1) by (simp_all add: uring_inv_def)
  have "set (cl_fibers l) \<subseteq> {..<us_fibers s}"
    using wakesD(2) [OF parts(1) assms(2)] uses_end(1) [OF parts(2)] by blast
  from card_mono [OF finite_lessThan this] have "card (set (cl_fibers l)) \<le> us_fibers s" by simp
  then show ?thesis using distinct_card [OF wakesD(1) [OF parts(1) assms(2)]] parts(3) by simp
qed

lemma check_end_elim:
  assumes inv: "uring_inv s" and st: "uring_check_end w s = Some s'"
  obtains l where "us_loc s w = Some l" "cl_head l = cq_tail (us_cq s w)"
    "s' = s\<lparr>us_loc := (us_loc s)(w := None), us_cq := (us_cq s)(w := (us_cq s w)\<lparr>cq_head := cl_head l\<rparr>),
           us_fiber := uring_wake (cl_fibers l) (us_fiber s)\<rparr>"
proof -
  obtain l where l: "us_loc s w = Some l" "cl_head l = cq_tail (us_cq s w)"
    using st by (auto simp: uring_check_end_def split: option.splits if_splits)
  have wk: "uring_wakes s" "\<not> us_fault s" using inv by (simp_all add: uring_inv_def)
  note b = wake_bound [OF inv l(1)] and d = wakesD [OF wk(1) l(1)]
  have n: "cl_num l \<le> 2147483647" "uint (cl_num l) = int (length (cl_fibers l))" "(if cl_num l > 0 then cl_fibers l else []) = cl_fibers l"
  proof -
    have u: "unat (cl_num l) = length (cl_fibers l)" unfolding d(3) using of_nat_u32_less b by simp
    then show "cl_num l \<le> 2147483647" "uint (cl_num l) = int (length (cl_fibers l))"
      using b by (simp_all add: word_le_nat_alt uint_nat)
    show "(if cl_num l > 0 then cl_fibers l else []) = cl_fibers l"
      using u by (cases "cl_fibers l") (auto simp: word_less_nat_alt)
  qed
  have "list_all (\<lambda>f. uring_waits (us_fiber s f)) (cl_fibers l)"
    using d(2) by (fastforce simp: list_all_iff uring_waits_def)
  then have "s' = s\<lparr>us_loc := (us_loc s)(w := None), us_cq := (us_cq s)(w := (us_cq s w)\<lparr>cq_head := cl_head l\<rparr>),
           us_fiber := uring_wake (cl_fibers l) (us_fiber s)\<rparr>"
    using st l n d(1) wk(2) by (intro uring_sys.equality) (auto simp: uring_check_end_def fev_poller_check2_end_def)
  then show thesis using that [OF l] by blast
qed

lemma uring_wake_Wait: "uring_wake fs fiber f = UWait w c \<longleftrightarrow> fiber f = UWait w c \<and> f \<notin> set fs"
  by (auto simp: uring_wake_def split: uring_fiber.splits)

lemma uring_wake_Woken:
  "uring_wake fs fiber f = UWoken c \<longleftrightarrow> fiber f = UWoken c \<or> f \<in> set fs \<and> (\<exists>w. fiber f = UWait w c)"
  by (auto simp: uring_wake_def split: uring_fiber.splits)

lemma uring_wake_uses [simp]: "uring_uses (uring_wake fs fiber f) p = uring_uses (fiber f) p"
  by (auto simp: uring_wake_def split: uring_fiber.splits)

lemma inv_check_end:
  assumes inv: "uring_inv s" and st: "uring_check_end w s = Some s'"
  shows "uring_inv s'"
proof -
  obtain l where l: "us_loc s w = Some l" "cl_head l = cq_tail (us_cq s w)"
    and s': "s' = s\<lparr>us_loc := (us_loc s)(w := None), us_cq := (us_cq s)(w := (us_cq s w)\<lparr>cq_head := cl_head l\<rparr>),
           us_fiber := uring_wake (cl_fibers l) (us_fiber s)\<rparr>"
    using inv st by (rule check_end_elim) blast
  have parts: "uring_rings s" "uring_owned s" "uring_ends s" "uring_counted s" "uring_wakes s" "uring_results s"
    using inv by (simp_all add: uring_inv_def)
  have cc: "call_counted (us_mem s (uc_end c)) f (ent s w') (to_wake s w') (uc_end c)" if "us_fiber s f = UWait w' c" for f w' c
    using parts(4) that unfolding uring_counted_def by blast
  have v: "us_pend s w = []" "cq_view ((us_cq s w)\<lparr>cq_head := cl_head l\<rparr>) None []"
    using cq_view_end [OF _ l(2)] parts(1) l(1) unfolding uring_rings_def by metis+
  have wait: "us_fiber s' f = UWait w' c \<longleftrightarrow> us_fiber s f = UWait w' c \<and> (w' = w \<longrightarrow> f \<notin> set (to_wake s w))" for f w' c
    using wakesD(2) [OF parts(5) l(1), of f] l(1) by (auto simp: s' uring_wake_Wait)
  have stays: "us_fiber s' f = UWait w' c" if "u \<in># ent s w'" "u \<noteq> 0" "us_fiber s f = UWait w' c" "u \<in> call_ids c" for u w' f c
  proof -
    have "count (ent s w') u > 0" using that(1) by simp
    then have "f \<notin> set (to_wake s w')"
      using cc [OF that(3)] call_ids_end(4) [OF that(4)] uses_end(1) [OF parts(3) that(3)] unfolding call_counted_def by auto
    then show ?thesis using wait that(3) by blast
  qed
  have "uring_rings s'" using parts(1) v unfolding uring_rings_def by (simp add: s')
  moreover have "uring_owned s'" unfolding uring_owned_def
  proof (intro allI conjI ballI impI)
    fix w' sqe assume sqe: "sqe \<in> set (us_flight s' w')" "sqe_user_data sqe \<noteq> 0"
    then have q: "sqe \<in> set (us_flight s w')" by (simp add: s')
    with sqe(2) parts(2) obtain f c where f: "us_fiber s f = UWait w' c" "sqe \<in> set (call_sqes c)"
      unfolding uring_owned_def by blast
    then show "\<exists>f c. us_fiber s' f = UWait w' c \<and> sqe \<in> set (call_sqes c)"
      using stays [OF flight_in_ent [OF q] sqe(2) f(1)] by (auto simp: call_ids_def)
  next
    fix w' cqe assume cqe: "cqe \<in> set (us_pend s' w')" "cqe_user_data cqe \<noteq> 0"
    then have q: "cqe_user_data cqe \<in># ent s w'" by (simp add: s' pend_in_ent)
    show "\<exists>f c. us_fiber s' f = UWait w' c \<and> cqe_user_data cqe \<in> call_ids c"
      using in_ent_owner [OF parts(2) q cqe(2)] stays [OF q cqe(2)] by blast
  qed
  moreover have "uring_ends s'" using parts(3) by (simp add: s' uring_ends_def)
  moreover have "uring_counted s'" unfolding uring_counted_def
    using cc wait by (auto simp: s' call_counted_def)
  moreover have "uring_wakes s'" unfolding uring_wakes_def
  proof
    fix w'
    show "distinct (to_wake s' w') \<and> (\<forall>f\<in>set (to_wake s' w'). \<exists>c. us_fiber s' f = UWait w' c) \<and>
          (\<forall>l. us_loc s' w' = Some l \<longrightarrow> cl_num l = of_nat (length (cl_fibers l)))"
      using parts(5) unfolding uring_wakes_def wait by (cases "w' = w") (simp_all add: s')
  qed
  moreover have "uring_results s'"
  proof (rule resultsI)
    show "us_kres s' (cqe_user_data d) = Some (cqe_res d)"
      if "d \<in> set (us_pend s' w')" "cqe_user_data d \<noteq> 0" "cqe_user_data d AND 1 = 0" for d w'
      using resultsD(1) [OF parts(6), of d w'] that by (simp add: s')
    show "us_kres s' (uc_end c) = Some (se_res (us_mem s' (uc_end c)))"
      if "us_fiber s' f = UWait w' c" "count (ent s' w') (uc_end c) = 0" for f w' c
      using resultsD(2) [OF parts(6), of f w' c] that unfolding wait by (simp add: s')
    show "se_num_entries (us_mem s' (uc_end c)) = 0 \<and> us_kres s' (uc_end c) = Some (se_res (us_mem s' (uc_end c)))"
      if "us_fiber s' f = UWoken c" for f c
    proof (cases "us_fiber s f = UWoken c")
      case True
      then show ?thesis using resultsD(3,4) [OF parts(6)] by (simp add: s')
    next
      case False
      then have f: "f \<in> set (cl_fibers l)" "\<exists>w. us_fiber s f = UWait w c" using that by (auto simp: s' uring_wake_Woken)
      then have fw: "us_fiber s f = UWait w c" using wakesD(2) [OF parts(5) l(1) f(1)] by auto
      then have "se_num_entries (us_mem s (uc_end c)) = 0" "count (ent s w) (uc_end c) = 0"
        using cc [OF fw] f(1) l(1) by (simp_all add: call_counted_def)
      then show ?thesis using resultsD(2) [OF parts(6) fw] by (simp add: s')
    qed
  qed
  ultimately show ?thesis using inv by (simp add: uring_inv_def uring_logged_def s')
qed

section \<open>The remaining steps and all runs\<close>

lemma inv_resume:
  assumes inv: "uring_inv s" and st: "uring_resume f s = Some s'"
  shows "uring_inv s'"
proof -
  obtain c where f: "us_fiber s f = UWoken c" using st by (auto simp: uring_resume_def split: uring_fiber.splits)
  have parts: "uring_rings s" "uring_owned s" "uring_ends s" "uring_counted s" "uring_wakes s" "uring_results s"
    using inv by (simp_all add: uring_inv_def)
  note r = resultsD(3,4) [OF parts(6) f]
  have s': "s' = s\<lparr>us_fiber := (us_fiber s)(f := URun),
       us_log := us_log s @ [(f, c, call_result_of c (se_res (us_mem s (uc_end c))), us_kres s (uc_end c))]\<rparr>"
    using st f r by (auto simp: uring_resume_def submit_end_def fev_socket_submit_and_wait_end_def
        fev_socket_submit_and_wait_for_end_def call_result_of_def)
  have "uring_owned s'" by (rule owned_mono [OF parts(2)]) (use f in \<open>auto simp: s' pend_in_ent\<close>)
  moreover have "uring_ends s'" using parts(3) unfolding uring_ends_def by (auto simp: s')
  moreover have "uring_counted s'" using parts(4) unfolding uring_counted_def by (auto simp: s')
  moreover have "uring_wakes s'" using parts(5) f unfolding uring_wakes_def by (fastforce simp: s')
  moreover have "uring_results s'" using parts(6) unfolding uring_results_def by (auto simp: s')
  moreover have "uring_rings s'" using parts(1) by (simp add: s' uring_rings_def)
  ultimately show ?thesis using inv r by (auto simp: uring_inv_def uring_logged_def s')
qed

lemma inv_arm:
  assumes inv: "uring_inv s" and st: "uring_arm w event_fd event_value 1 s = Some s'"
  shows "uring_inv s'"
proof -
  have parts: "uring_rings s" "uring_owned s" "uring_ends s" "uring_counted s" "uring_wakes s" "uring_results s"
    using inv by (simp_all add: uring_inv_def)
  obtain m H where "sq_rep m H (us_sq s w) [] []" using parts(1) unfolding uring_rings_def by blast
  then obtain sqe r where r: "fev_poller_submit_eventfd (us_sq s w) event_fd event_value 1 = Some ([sqe], r)"
    "sqe_user_data sqe = 0" "sq_rep m (H + 1) r [] []" using fev_poller_submit_eventfd_rep by blast
  then have s': "s' = s\<lparr>us_sq := (us_sq s)(w := r), us_flight := (us_flight s)(w := us_flight s w @ [sqe])\<rparr>"
    using st by (auto simp: uring_arm_def split: if_splits)
  have cnt: "count (ent s' w') u = count (ent s w') u" if "u \<noteq> 0" for w' u using r(2) that by (simp add: s')
  have nz: "uc_end c \<noteq> 0" "uc_end c OR 1 \<noteq> 0" if "us_fiber s f = UWait w' c" for f w' c
    using uses_end(1) [OF parts(3) that] end_addr_bits(5,6) by auto
  have "uring_rings s'" using parts(1) r(3) unfolding uring_rings_def by (auto simp: s')
  moreover have "uring_owned s'" by (rule owned_mono [OF parts(2)]) (use r(2) in \<open>auto simp: s' pend_in_ent split: if_splits\<close>)
  moreover have "uring_ends s'" using parts(3) unfolding uring_ends_def by (simp add: s')
  moreover have "uring_counted s'" unfolding uring_counted_def
  proof (intro allI impI)
    fix f w' c assume "us_fiber s' f = UWait w' c"
    then have f: "us_fiber s f = UWait w' c" by (simp add: s')
    have W: "to_wake s' w' = to_wake s w'" "us_mem s' = us_mem s" by (simp_all add: s')
    show "call_counted (us_mem s' (uc_end c)) f (ent s' w') (to_wake s' w') (uc_end c)"
      unfolding W using parts(4) f call_counted_cong [OF cnt [OF nz(1) [OF f]] cnt [OF nz(2) [OF f]] refl]
      unfolding uring_counted_def by blast
  qed
  moreover have "uring_wakes s'" using parts(5) by (simp add: s' uring_wakes_def)
  moreover have "uring_results s'"
  proof (rule resultsI)
    show "us_kres s' (uc_end c) = Some (se_res (us_mem s' (uc_end c)))"
      if "us_fiber s' f = UWait w' c" "count (ent s' w') (uc_end c) = 0" for f w' c
    proof -
      have f: "us_fiber s f = UWait w' c" using that(1) by (simp add: s')
      show ?thesis using resultsD(2) [OF parts(6) f] that(2) unfolding cnt [OF nz(1) [OF f]] by (simp add: s')
    qed
  qed (use resultsD [OF parts(6)] in \<open>simp_all add: s'\<close>)
  ultimately show ?thesis using inv by (simp add: uring_inv_def uring_logged_def s')
qed

lemma inv_uring_step: "uring_inv s \<Longrightarrow> uring_taken ev \<Longrightarrow> uring_step ev s = Some s' \<Longrightarrow> uring_inv s'"
  by (cases ev) (auto intro: inv_begin inv_arm inv_complete inv_check_start inv_check_next inv_check_end inv_resume)

lemma inv_uring_init: "m < 32 \<Longrightarrow> m' < 32 \<Longrightarrow> nf < 2147483648 \<Longrightarrow> uring_inv (uring_init nw nf m m' H)"
proof -
  assume "m < 32" "m' < 32" "nf < 2147483648"
  moreover from this(2) have "cq_view (cq_start m' H) None []" unfolding cq_view_def using cq_start_rep by fastforce
  ultimately show ?thesis using sq_start_rep [of m H]
    by (auto simp: uring_inv_defs uring_counted_def uring_rings_def uring_init_def)
qed

text \<open>The steps of a kernel that takes every request it is handed.\<close>

definition uring_good_step :: "uring_event \<Rightarrow> uring_sys \<Rightarrow> uring_sys option" where
  "uring_good_step ev s = (if uring_taken ev then uring_step ev s else None)"

interpretation ur: step_invariant uring_good_step uring_inv uring_inv
  by unfold_locales (auto simp: uring_good_step_def inv_uring_step split: if_splits)

section \<open>Progress\<close>

definition uring_placed :: "uring_sys \<Rightarrow> bool" where
  "uring_placed s \<longleftrightarrow> (\<forall>f w c. us_fiber s f = UWait w c \<longrightarrow> w < us_workers s)"

lemma step_placed:
  assumes "uring_step ev s = Some s'"
  shows "us_workers s' = us_workers s \<and> (us_fiber s' f = UWait w c \<longrightarrow> us_fiber s f = UWait w c \<or> w < us_workers s)"
  using assms
  by (cases ev)
    (auto simp: uring_begin_def uring_arm_def uring_complete_def uring_check_start_def uring_check_next_def
       uring_check_end_def uring_resume_def ufault_def uring_wake_Wait Let_def
       split: if_splits option.splits prod.splits submit_outcome.splits uring_fiber.splits)

lemma placed_step: "uring_placed s \<Longrightarrow> uring_step ev s = Some s' \<Longrightarrow> uring_placed s'"
  unfolding uring_placed_def using step_placed by metis

definition uring_good :: "uring_sys \<Rightarrow> bool" where
  "uring_good s \<longleftrightarrow> uring_inv s \<and> uring_placed s"

interpretation ug: step_invariant uring_good_step uring_good uring_good
  by unfold_locales (auto simp: uring_good_def uring_good_step_def split: if_splits intro: inv_uring_step placed_step)

text \<open>The loop that takes completions ends, as long as the kernel posts no more; then every completion has been taken.\<close>

lemma uring_check_finishes:
  assumes "uring_good s" "us_loc s w = Some l" "us_fiber s f = UWait w c"
  shows "\<exists>sched s'. run uring_good_step s sched = Some s' \<and> us_loc s' w = None \<and> us_pend s' w = [] \<and>
           us_flight s' = us_flight s \<and> (us_fiber s' f = UWoken c \<or> us_fiber s' f = UWait w c)"
  using assms
proof (induction "length (us_pend s w)" arbitrary: s l)
  case 0
  have inv: "uring_inv s" using 0 by (simp add: uring_good_def)
  have "cq_view (us_cq s w) (Some l) []" using inv 0 unfolding uring_inv_def uring_rings_def by (metis length_0_conv)
  then have "cl_head l = cq_tail (us_cq s w)" by (metis cq_view_next list.distinct(1))
  then obtain s' where st: "uring_check_end w s = Some s'" using 0 by (simp add: uring_check_end_def)
  from inv st obtain l' where "us_loc s w = Some l'"
    "s' = s\<lparr>us_loc := (us_loc s)(w := None), us_cq := (us_cq s)(w := (us_cq s w)\<lparr>cq_head := cl_head l'\<rparr>),
           us_fiber := uring_wake (cl_fibers l') (us_fiber s)\<rparr>"
    by (rule check_end_elim) blast
  then show ?case using st 0
    by (intro exI [of _ "[UCheckEnd w]"] exI [of _ s']) (auto simp: uring_good_step_def uring_wake_def)
next
  case (Suc n)
  have inv: "uring_inv s" using Suc by (simp add: uring_good_def)
  have "cq_view (us_cq s w) (Some l) (us_pend s w)" using inv Suc unfolding uring_inv_def uring_rings_def by metis
  then have "cl_head l \<noteq> cq_tail (us_cq s w)" using cq_view_end(1) Suc.hyps(2) by fastforce
  then obtain s1 where st: "uring_check_next w s = Some s1" using Suc by (simp add: uring_check_next_def)
  from inv st obtain cqe rest l1 mem1 where "us_pend s w = cqe # rest"
    "s1 = s\<lparr>us_loc := (us_loc s)(w := Some l1), us_mem := mem1, us_pend := (us_pend s)(w := rest)\<rparr>"
    by (rule check_next_elim) blast
  then have s1: "length (us_pend s1 w) = n" "us_loc s1 w = Some l1" "us_fiber s1 f = UWait w c" "us_flight s1 = us_flight s"
    using Suc by auto
  have g: "uring_good_step (UCheckNext w) s = Some s1" using st by (simp add: uring_good_step_def)
  obtain sched s' where "run uring_good_step s1 sched = Some s'" "us_loc s' w = None" "us_pend s' w = []"
    "us_flight s' = us_flight s" "us_fiber s' f = UWoken c \<or> us_fiber s' f = UWait w c"
    using Suc.hyps(1) [OF s1(1) [symmetric] ug.inv_step [OF Suc.prems(1) g] s1(2,3)] s1(4) by auto
  then show ?case using g by (intro exI [of _ "UCheckNext w # sched"] exI [of _ s']) simp
qed

lemma uring_check_runs:
  assumes "uring_good s" "us_fiber s f = UWait w c"
  shows "\<exists>sched s'. run uring_good_step s sched = Some s' \<and> us_loc s' w = None \<and> us_pend s' w = [] \<and>
           us_flight s' = us_flight s \<and> (us_fiber s' f = UWoken c \<or> us_fiber s' f = UWait w c)"
proof (cases "us_loc s w")
  case None
  have "w < us_workers s" using assms unfolding uring_good_def uring_placed_def by blast
  then obtain s1 where g: "uring_good_step (UCheckStart w) s = Some s1"
    and s1: "s1 = s\<lparr>us_loc := (us_loc s)(w := Some (fev_poller_check2_start (us_cq s w)))\<rparr>"
    using None by (simp add: uring_good_step_def uring_check_start_def)
  have "us_loc s1 w = Some (fev_poller_check2_start (us_cq s w))" "us_fiber s1 f = UWait w c" "us_flight s1 = us_flight s"
    using assms(2) by (simp_all add: s1)
  then obtain sched s' where "run uring_good_step s1 sched = Some s'" "us_loc s' w = None" "us_pend s' w = []"
    "us_flight s' = us_flight s" "us_fiber s' f = UWoken c \<or> us_fiber s' f = UWait w c"
    using uring_check_finishes [OF ug.inv_step [OF assms(1) g]] by metis
  then show ?thesis using g by (intro exI [of _ "UCheckStart w # sched"] exI [of _ s']) simp
next
  case (Some l)
  then show ?thesis using uring_check_finishes [OF assms(1) _ assms(2)] by blast
qed

lemma uring_wakes_up:
  assumes "uring_good s" "us_fiber s f = UWait w c"
  shows "\<exists>sched s'. run uring_good_step s sched = Some s' \<and> us_fiber s' f = UWoken c"
  using assms
proof (induction "length (us_flight s w)" arbitrary: s rule: less_induct)
  case less
  obtain sched1 s1 where r1: "run uring_good_step s sched1 = Some s1" "us_loc s1 w = None" "us_pend s1 w = []"
    "us_flight s1 = us_flight s" and f1: "us_fiber s1 f = UWoken c \<or> us_fiber s1 f = UWait w c"
    using uring_check_runs [OF less.prems] by blast
  have good1: "uring_good s1" using ug.inv_run [OF less.prems(1) r1(1)] .
  show ?case
  proof (cases "us_fiber s1 f = UWoken c")
    case True
    then show ?thesis using r1(1) by blast
  next
    case False
    then have f1: "us_fiber s1 f = UWait w c" using f1 by blast
    have inv1: "uring_inv s1" using good1 by (simp add: uring_good_def)
    have "call_counted (us_mem s1 (uc_end c)) f (ent s1 w) (to_wake s1 w) (uc_end c)"
      using inv1 f1 by (auto simp: uring_inv_def uring_counted_def)
    then have ne: "us_flight s1 w \<noteq> []" using r1(2,3) by (auto simp: call_counted_def)
    define cqe where "cqe = \<lparr>cqe_user_data = sqe_user_data (us_flight s1 w ! 0), cqe_res = 0\<rparr>"
    have "cq_view (us_cq s1 w) None []" using inv1 r1(2,3) unfolding uring_inv_def uring_rings_def by metis
    then obtain m H where "cq_rep m H (us_cq s1 w) []" unfolding cq_view_def by auto
    then obtain q where "io_uring_post cqe (us_cq s1 w) = Some q" using io_uring_post_rep(1) by fastforce
    then obtain s2 where g: "uring_good_step (UComplete w 0 0) s1 = Some s2"
      and s2: "us_flight s2 w = drop 1 (us_flight s1 w)" "us_fiber s2 = us_fiber s1"
      using ne by (auto simp: uring_good_step_def uring_complete_def Let_def cqe_def)
    have "length (us_flight s2 w) < length (us_flight s w)" using ne r1(4) by (simp add: s2(1))
    from less.hyps [OF this ug.inv_step [OF good1 g]] f1 s2(2) obtain sched2 s' where
      "run uring_good_step s2 sched2 = Some s'" "us_fiber s' f = UWoken c" by auto
    then show ?thesis using r1(1) g by (intro exI [of _ "sched1 @ UComplete w 0 0 # sched2"] exI [of _ s']) (simp add: run_append)
  qed
qed

lemma good_uring_init: "m < 32 \<Longrightarrow> m' < 32 \<Longrightarrow> nf < 2147483648 \<Longrightarrow> uring_good (uring_init nw nf m m' H)"
  using inv_uring_init by (simp add: uring_good_def uring_placed_def uring_init_def)

section \<open>Properties\<close>

definition read_a :: uring_call where
  "read_a = fev_socket_read_uring \<lparr>so_addr = 4096, so_fd = 5\<rparr> 8192 100"

definition read_b :: uring_call where
  "read_b = fev_socket_try_read_for_uring \<lparr>so_addr = 5120, so_fd = 6\<rparr> 9216 50 (\<lparr>tv_sec = 1, tv_nsec = 0\<rparr>, 512)"

definition sample_schedule :: "uring_event list" where
  "sample_schedule =
     [UBegin 0 1 read_a 1, UBegin 0 2 read_b 2, UArm 0 9 256 1, UComplete 0 1 (- 125), UCheckStart 0, UComplete 0 0 77, UCheckNext 0,
      UCheckNext 0, UComplete 0 0 (- 62), UCheckNext 0, UCheckEnd 0, UResume 1, UResume 2]"

text \<open>
  C11. With any number of fibers and workers and a kernel that takes the requests it is handed, completing them in any
  order: no assertion fails and the process does not abort, a fiber is woken only while it waits, and once; every request
  in flight is one of a call whose fiber waits, so the kernel never works on a call that has returned; and a call returns
  the result the kernel posted for it, with \<open>ECANCELED\<close> of a call with a time limit reported as \<open>ETIMEDOUT\<close>, or \<open>EBUSY\<close> when
  the ring has no room.
\<close>

theorem fev_socket_uring_safe:
  assumes "run uring_good_step (uring_init nw nf m m' H) sched = Some s" "m < 32" "m' < 32" "nf < 2147483648"
  shows "\<not> us_fault s \<and>
    (\<forall>w. \<forall>sqe \<in> set (us_flight s w). sqe_user_data sqe \<noteq> 0 \<longrightarrow> (\<exists>f c. us_fiber s f = UWait w c \<and> sqe \<in> set (call_sqes c))) \<and>
    (\<forall>(f, c, v, k) \<in> set (us_log s). case k of None \<Rightarrow> v = - EBUSY | Some res \<Rightarrow> v = call_result_of c res)"
proof -
  have "uring_inv s" using ur.inv_run_init [OF inv_uring_init [OF assms(2-4)] assms(1)] .
  then show ?thesis unfolding uring_inv_def uring_owned_def uring_logged_def by blast
qed

theorem fev_socket_uring_safe_witness:
  "\<exists>s. run uring_good_step (uring_init 1 3 2 2 3) sample_schedule = Some s \<and>
     (map (\<lambda>(f, c, v, k). (f, v)) (us_log s), length (us_flight s 0)) = ([(1, 77), (2, - 110)], 1) \<and>
     \<not> us_fault s \<and> (\<forall>(f, c, v, k) \<in> set (us_log s). case k of None \<Rightarrow> v = - EBUSY | Some res \<Rightarrow> v = call_result_of c res)"
proof -
  have "map_option (\<lambda>s. (map (\<lambda>(f, c, v, k). (f, v)) (us_log s), length (us_flight s 0)))
     (run uring_good_step (uring_init 1 3 2 2 3) sample_schedule) = Some ([(1, 77), (2, - 110)], 1)" by code_simp
  then obtain s where r: "run uring_good_step (uring_init 1 3 2 2 3) sample_schedule = Some s"
      "(map (\<lambda>(f, c, v, k). (f, v)) (us_log s), length (us_flight s 0)) = ([(1, 77), (2, - 110)], 1)"
    by (rule observeE)
  have n: "(2 :: nat) < 32" "(3 :: nat) < 2147483648" by simp_all
  note safe = fev_socket_uring_safe [OF r(1) n(1) n(1) n(2)]
  show ?thesis by (intro exI [of _ s] conjI r safe [THEN conjunct1] safe [THEN conjunct2, THEN conjunct2])
qed

text \<open>
  C12. No completion is lost: in every state the system can reach, a fiber that waits in a call is woken from that call
  after finitely many further steps, once the kernel completes the requests it has taken and the worker takes the
  completions.
\<close>

theorem fev_socket_uring_wakes_up:
  assumes "run uring_good_step (uring_init nw nf m m' H) sched = Some s" "m < 32" "m' < 32" "nf < 2147483648"
    and "us_fiber s f = UWait w c"
  shows "\<exists>sched' s'. run uring_good_step s sched' = Some s' \<and> us_fiber s' f = UWoken c"
  using uring_wakes_up ug.inv_run_init [OF good_uring_init [OF assms(2-4)] assms(1)] assms(5) by blast

theorem fev_socket_uring_wakes_up_witness:
  "\<exists>s. run uring_good_step (uring_init 1 3 2 2 3) (take 3 sample_schedule) = Some s \<and>
     (us_fiber s 2 = UWait 0 read_b) = True \<and>
     (\<exists>sched' s'. run uring_good_step s sched' = Some s' \<and> us_fiber s' 2 = UWoken read_b)"
proof -
  have "map_option (\<lambda>s. (us_fiber s 2 = UWait 0 read_b))
     (run uring_good_step (uring_init 1 3 2 2 3) (take 3 sample_schedule)) = Some True" by code_simp
  then obtain s where r: "run uring_good_step (uring_init 1 3 2 2 3) (take 3 sample_schedule) = Some s"
      "(us_fiber s 2 = UWait 0 read_b) = True"
    by (rule observeE)
  have n: "(2 :: nat) < 32" "(3 :: nat) < 2147483648" by simp_all
  have w: "us_fiber s 2 = UWait 0 read_b" using r(2) by simp
  from r fev_socket_uring_wakes_up [OF r(1) n(1) n(1) n(2) w] show ?thesis by blast
qed

text \<open>
  When the system call fails, the request stays published in the ring although the call returns: the next call of
  the same worker hands the kernel the old request instead of its own. Its completion then wakes the fiber of the call that
  returned long ago, which is running, while the fiber of the second call waits and the kernel has nothing of it.
\<close>

theorem fev_poller_submit_error_wakes_wrong_fiber:
  "map_option (\<lambda>s. (us_fault s, us_fiber s 1 = URun, us_fiber s 2 = UWait 0 (fev_socket_read_uring \<lparr>so_addr = 5120, so_fd = 6\<rparr> 9216 50),
      us_flight s 0, us_pend s 0, us_log s))
     (run uring_step (uring_init 1 3 2 2 0)
        [UBegin 0 1 read_a (- EAGAIN), UBegin 0 2 (fev_socket_read_uring \<lparr>so_addr = 5120, so_fd = 6\<rparr> 9216 50) 1,
         UComplete 0 0 77, UCheckStart 0, UCheckNext 0, UCheckEnd 0]) =
   Some (True, True, True, [], [], [(1, read_a, - EAGAIN, None)])"
  by code_simp

end
