(* ===== verification/Uring_Interrupt.thy ===== *)
theory Uring_Interrupt
  imports Sched_Common
begin

text \<open>
  Interrupting a worker that waits on its ring (\<open>fev_poller_interrupt\<close>, \<open>fev_poller_wait\<close> and
  \<open>fev_poller_try_rearming_interrupt\<close> of \<open>fev_poller_io_uring.c\<close>). A worker puts itself into the array \<open>waiters\<close> and
  submits a read of its event descriptor; an interrupter takes a worker out of the array, asks it to arm again, and
  writes to the descriptor. Every access to shared memory is one step.
\<close>

section \<open>The system\<close>

datatype wait_pc =
    PRun \<comment> \<open>not in \<open>fev_poller_wait\<close>\<close>
  | PCheck \<comment> \<open>at the call of \<open>fev_poller_check2\<close>\<close>
  | PLoad \<comment> \<open>loading \<open>rearm_interrupt\<close>\<close>
  | PClear \<comment> \<open>resetting it\<close>
  | PArm \<comment> \<open>storing into \<open>waiters\<close>\<close>
  | PSubmit \<comment> \<open>submitting the read of the event descriptor\<close>
  | PEnter \<comment> \<open>in \<open>io_uring_enter\<close>, which returns when there is a completion\<close>

datatype intr_pc =
    JIdle
  | JScan nat \<comment> \<open>at the exchange of \<open>waiters[i]\<close>\<close>
  | JStore nat \<comment> \<open>setting \<open>rearm_interrupt\<close> of worker \<open>i\<close>\<close>
  | JWrite nat \<comment> \<open>writing to its event descriptor\<close>

text \<open>
  Of a ring, only the requests that read the event descriptor and the completions matter: \<open>in_zeros\<close> counts those of such
  reads, \<open>in_others\<close> those of other requests.
\<close>

record intr_sys =
  in_workers :: nat
  in_threads :: nat
  in_waiters :: "nat \<Rightarrow> bool"
  in_rearm :: "nat \<Rightarrow> bool"
  in_event :: "nat \<Rightarrow> nat"
  in_reads :: "nat \<Rightarrow> nat"
  in_zeros :: "nat \<Rightarrow> nat"
  in_others :: "nat \<Rightarrow> nat"
  in_wpc :: "nat \<Rightarrow> wait_pc"
  in_ipc :: "nat \<Rightarrow> intr_pc"

definition wgoto :: "intr_sys \<Rightarrow> nat \<Rightarrow> wait_pc \<Rightarrow> intr_sys" where
  "wgoto s i p = s\<lparr>in_wpc := (in_wpc s)(i := p)\<rparr>"

definition jgoto :: "intr_sys \<Rightarrow> nat \<Rightarrow> intr_pc \<Rightarrow> intr_sys" where
  "jgoto s j p = s\<lparr>in_ipc := (in_ipc s)(j := p)\<rparr>"

text \<open>
  Taking all completions; \<open>woke\<close> tells whether one of them was the last of its call, so that a fiber is woken.
\<close>

definition take_completions :: "nat \<Rightarrow> intr_sys \<Rightarrow> intr_sys" where
  "take_completions i s = s\<lparr>in_zeros := (in_zeros s)(i := 0), in_others := (in_others s)(i := 0)\<rparr>"

definition fev_poller_try_rearming_interrupt_step :: "nat \<Rightarrow> intr_sys \<Rightarrow> intr_sys option" where
  "fev_poller_try_rearming_interrupt_step i s =
     (case in_wpc s i of
        PLoad \<Rightarrow> Some (wgoto s i (if in_rearm s i then PClear else PEnter))
      | PClear \<Rightarrow> Some (wgoto (s\<lparr>in_rearm := (in_rearm s)(i := False)\<rparr>) i PArm)
      | PArm \<Rightarrow> Some (wgoto (s\<lparr>in_waiters := (in_waiters s)(i := True)\<rparr>) i PSubmit)
      | PSubmit \<Rightarrow> Some (wgoto (s\<lparr>in_reads := (in_reads s)(i := in_reads s i + 1)\<rparr>) i PEnter)
      | _ \<Rightarrow> None)"

definition fev_poller_wait_step :: "nat \<Rightarrow> bool \<Rightarrow> intr_sys \<Rightarrow> intr_sys option" where
  "fev_poller_wait_step i woke s =
     (case in_wpc s i of
        PRun \<Rightarrow> Some (wgoto s i PCheck)
      | PCheck \<Rightarrow>
          if woke \<and> in_others s i = 0 then None
          else Some (wgoto (take_completions i s) i (if woke \<or> in_zeros s i > 0 then PRun else PLoad))
      | PEnter \<Rightarrow> if in_zeros s i + in_others s i > 0 then Some (wgoto s i PCheck) else None
      | _ \<Rightarrow> fev_poller_try_rearming_interrupt_step i s)"

text \<open>\<open>fev_poller_check\<close>, from the work loop: what it finds about an interrupt is dropped.\<close>

definition fev_poller_check_step :: "nat \<Rightarrow> intr_sys \<Rightarrow> intr_sys option" where
  "fev_poller_check_step i s = (if in_wpc s i = PRun then Some (take_completions i s) else None)"

definition fev_poller_interrupt_step :: "nat \<Rightarrow> intr_sys \<Rightarrow> intr_sys option" where
  "fev_poller_interrupt_step j s =
     (case in_ipc s j of
        JIdle \<Rightarrow> Some (jgoto s j (JScan 0))
      | JScan i \<Rightarrow>
          Some (if i < in_workers s
                then if in_waiters s i then jgoto (s\<lparr>in_waiters := (in_waiters s)(i := False)\<rparr>) j (JStore i)
                     else jgoto s j (JScan (Suc i))
                else jgoto s j JIdle)
      | JStore i \<Rightarrow> Some (jgoto (s\<lparr>in_rearm := (in_rearm s)(i := True)\<rparr>) j (JWrite i))
      | JWrite i \<Rightarrow> Some (jgoto (s\<lparr>in_event := (in_event s)(i := in_event s i + 1)\<rparr>) j JIdle))"

text \<open>
  The kernel completes a read of the event descriptor when the counter is not zero, which resets it, and completes other
  requests at any time.
\<close>

definition event_read_step :: "nat \<Rightarrow> intr_sys \<Rightarrow> intr_sys option" where
  "event_read_step i s =
     (if in_event s i > 0 \<and> in_reads s i > 0
      then Some (s\<lparr>in_event := (in_event s)(i := 0), in_reads := (in_reads s)(i := in_reads s i - 1),
                  in_zeros := (in_zeros s)(i := in_zeros s i + 1)\<rparr>)
      else None)"

datatype intr_event = Wait nat bool | Check nat | Interrupt nat | EventRead nat | Other nat

fun intr_step :: "intr_event \<Rightarrow> intr_sys \<Rightarrow> intr_sys option" where
  "intr_step (Wait i woke) s = (if i < in_workers s then fev_poller_wait_step i woke s else None)"
| "intr_step (Check i) s = (if i < in_workers s then fev_poller_check_step i s else None)"
| "intr_step (Interrupt j) s = (if j < in_threads s then fev_poller_interrupt_step j s else None)"
| "intr_step (EventRead i) s = event_read_step i s"
| "intr_step (Other i) s = Some (s\<lparr>in_others := (in_others s)(i := in_others s i + 1)\<rparr>)"

text \<open>As \<open>fev_poller_init\<close> leaves it: no worker is in the array, all are asked to arm.\<close>

definition intr_init :: "nat \<Rightarrow> nat \<Rightarrow> intr_sys" where
  "intr_init nw nj =
     \<lparr>in_workers = nw, in_threads = nj, in_waiters = (\<lambda>i. False), in_rearm = (\<lambda>i. True), in_event = (\<lambda>i. 0),
      in_reads = (\<lambda>i. 0), in_zeros = (\<lambda>i. 0), in_others = (\<lambda>i. 0), in_wpc = (\<lambda>i. PRun), in_ipc = (\<lambda>j. JIdle)\<rparr>"

section \<open>The invariant\<close>

definition storing :: "nat \<Rightarrow> intr_sys \<Rightarrow> nat" where
  "storing i s = wsum (in_threads s) (\<lambda>p. of_bool (p = JStore i)) (in_ipc s)"

definition writing :: "nat \<Rightarrow> intr_sys \<Rightarrow> nat" where
  "writing i s = wsum (in_threads s) (\<lambda>p. of_bool (p = JWrite i)) (in_ipc s)"

text \<open>
  The invariant of one worker. A token goes round: in the array, with the interrupter that took it out, in the flag, and
  with the worker that read the flag. There is a read for every write that can come. A worker that goes to sleep although
  it is asked to arm is being woken.
\<close>

definition intr_ok :: "bool \<Rightarrow> bool \<Rightarrow> nat \<Rightarrow> nat \<Rightarrow> nat \<Rightarrow> wait_pc \<Rightarrow> nat \<Rightarrow> nat \<Rightarrow> bool" where
  "intr_ok waiting rearm event reads zeros pc st wr \<longleftrightarrow>
     of_bool waiting + st + of_bool rearm + of_bool (pc = PArm) = 1 \<and>
     (pc = PClear \<longrightarrow> rearm) \<and>
     of_bool waiting + st + wr + of_bool (event > 0) \<le> reads + of_bool (pc = PSubmit) \<and>
     ((pc = PSubmit \<or> pc = PEnter) \<and> rearm \<longrightarrow> wr > 0 \<or> event > 0 \<or> zeros > 0)"

abbreviation intr_local :: "intr_sys \<Rightarrow> nat \<Rightarrow> bool" where
  "intr_local s i \<equiv> intr_ok (in_waiters s i) (in_rearm s i) (in_event s i) (in_reads s i) (in_zeros s i) (in_wpc s i) (storing i s) (writing i s)"

definition intr_inv :: "intr_sys \<Rightarrow> bool" where
  "intr_inv s \<longleftrightarrow> (\<forall>i. intr_local s i)"

lemma waiting_upd:
  assumes "j < in_threads s"
  shows "storing i (s\<lparr>in_ipc := (in_ipc s)(j := p)\<rparr>) + of_bool (in_ipc s j = JStore i) = storing i s + of_bool (p = JStore i)"
    "writing i (s\<lparr>in_ipc := (in_ipc s)(j := p)\<rparr>) + of_bool (in_ipc s j = JWrite i) = writing i s + of_bool (p = JWrite i)"
  using assms unfolding storing_def writing_def by (simp_all add: wsum_upd [OF assms] wsum_split [OF assms])

lemma counts_upd [simp]:
  "storing i (s\<lparr>in_wpc := a\<rparr>) = storing i s" "storing i (s\<lparr>in_waiters := b\<rparr>) = storing i s"
  "storing i (s\<lparr>in_rearm := b\<rparr>) = storing i s" "storing i (s\<lparr>in_event := e\<rparr>) = storing i s"
  "storing i (s\<lparr>in_reads := e\<rparr>) = storing i s" "storing i (s\<lparr>in_zeros := e\<rparr>) = storing i s" "storing i (s\<lparr>in_others := e\<rparr>) = storing i s"
  "writing i (s\<lparr>in_wpc := a\<rparr>) = writing i s" "writing i (s\<lparr>in_waiters := b\<rparr>) = writing i s"
  "writing i (s\<lparr>in_rearm := b\<rparr>) = writing i s" "writing i (s\<lparr>in_event := e\<rparr>) = writing i s"
  "writing i (s\<lparr>in_reads := e\<rparr>) = writing i s" "writing i (s\<lparr>in_zeros := e\<rparr>) = writing i s" "writing i (s\<lparr>in_others := e\<rparr>) = writing i s"
  by (simp_all add: storing_def writing_def)

lemma intr_ok_calm:
  assumes "intr_ok w r e rd z p st wr" "p \<in> {PRun, PCheck, PLoad, PEnter}" "p' \<in> {PRun, PCheck, PLoad}"
  shows "intr_ok w r e rd z' p' st wr"
  using assms unfolding intr_ok_def by (elim insertE emptyE; simp)

lemma intr_ok_load: "intr_ok w r e rd z PLoad st wr \<Longrightarrow> intr_ok w r e rd z (if r then PClear else PEnter) st wr"
  unfolding intr_ok_def by (cases w; cases r) auto

lemma intr_ok_clear: "intr_ok w r e rd z PClear st wr \<Longrightarrow> intr_ok w False e rd z PArm st wr"
  unfolding intr_ok_def by (cases w; cases r) simp_all

lemma intr_ok_arm: "intr_ok w r e rd z PArm st wr \<Longrightarrow> intr_ok True r e rd z PSubmit st wr"
  unfolding intr_ok_def by (cases w; cases r) simp_all

lemma intr_ok_submit: "intr_ok w r e rd z PSubmit st wr \<Longrightarrow> intr_ok w r e (rd + 1) z PEnter st wr"
  unfolding intr_ok_def by (cases w; cases r) simp_all

lemma intr_ok_taken: "intr_ok True r e rd z p st wr \<Longrightarrow> intr_ok False r e rd z p (st + 1) wr"
  unfolding intr_ok_def by (cases r) simp_all

lemma intr_ok_stored: "intr_ok w r e rd z p (st + 1) wr \<Longrightarrow> intr_ok w True e rd z p st (wr + 1)"
  unfolding intr_ok_def by (cases w; cases r) simp_all

lemma intr_ok_written: "intr_ok w r e rd z p st (wr + 1) \<Longrightarrow> intr_ok w r (e + 1) rd z p st wr"
  unfolding intr_ok_def by (cases w; cases r) simp_all

lemma intr_ok_read: "intr_ok w r e (rd + 1) z p st wr \<Longrightarrow> e > 0 \<Longrightarrow> intr_ok w r 0 rd (z + 1) p st wr"
  unfolding intr_ok_def by (cases w; cases r) simp_all

lemma intr_ok_asleep: "intr_ok w r e rd 0 PEnter st wr \<Longrightarrow> w \<or> st > 0 \<or> wr > 0 \<or> e > 0"
  unfolding intr_ok_def by (cases w; cases r) auto

text \<open>A step of worker \<open>i\<close> concerns nobody else.\<close>

definition same_local :: "nat \<Rightarrow> intr_sys \<Rightarrow> intr_sys \<Rightarrow> bool" where
  "same_local k s s' \<longleftrightarrow>
     in_waiters s' k = in_waiters s k \<and> in_rearm s' k = in_rearm s k \<and> in_event s' k = in_event s k \<and> in_reads s' k = in_reads s k \<and>
     in_zeros s' k = in_zeros s k \<and> in_wpc s' k = in_wpc s k \<and> storing k s' = storing k s \<and> writing k s' = writing k s"

lemma inv_local_step:
  assumes "intr_inv s" "\<And>k. k \<noteq> i \<Longrightarrow> same_local k s s'" "intr_local s i \<Longrightarrow> intr_local s' i"
  shows "intr_inv s'"
  unfolding intr_inv_def
proof
  fix k
  show "intr_local s' k" using assms unfolding intr_inv_def same_local_def by (cases "k = i") simp_all
qed

lemma inv_wait:
  assumes inv: "intr_inv s" and st: "fev_poller_wait_step i woke s = Some s'"
  shows "intr_inv s'"
proof (rule inv_local_step [OF inv])
  show "same_local k s s'" if "k \<noteq> i" for k
    using st that by (cases "in_wpc s i") (auto simp: same_local_def fev_poller_wait_step_def
        fev_poller_try_rearming_interrupt_step_def wgoto_def take_completions_def split: if_splits)
  assume old: "intr_local s i"
  note defs = fev_poller_wait_step_def fev_poller_try_rearming_interrupt_step_def wgoto_def take_completions_def
  show "intr_local s' i"
  proof (cases "in_wpc s i")
    case PLoad
    then show ?thesis using st old intr_ok_load by (auto simp: defs)
  next
    case PClear
    then show ?thesis using st old intr_ok_clear by (auto simp: defs)
  next
    case PArm
    then show ?thesis using st old intr_ok_arm by (auto simp: defs)
  next
    case PSubmit
    then show ?thesis using st old intr_ok_submit by (auto simp: defs)
  qed (use st old in \<open>auto simp: defs elim: intr_ok_calm split: if_splits\<close>)
qed

lemma inv_check:
  assumes inv: "intr_inv s" and st: "fev_poller_check_step i s = Some s'"
  shows "intr_inv s'"
  by (rule inv_local_step [OF inv])
    (use st in \<open>auto simp: same_local_def fev_poller_check_step_def take_completions_def elim: intr_ok_calm split: if_splits\<close>)

lemma inv_event_read:
  assumes inv: "intr_inv s" and st: "event_read_step i s = Some s'"
  shows "intr_inv s'"
proof (rule inv_local_step [OF inv])
  show "same_local k s s'" if "k \<noteq> i" for k
    using st that by (auto simp: same_local_def event_read_step_def split: if_splits)
  assume old: "intr_local s i"
  obtain rd where "in_reads s i = rd + 1" "in_event s i > 0"
    using st by (cases "in_reads s i") (auto simp: event_read_step_def split: if_splits)
  then show "intr_local s' i" using intr_ok_read old st by (auto simp: event_read_step_def)
qed

lemma inv_interrupt:
  assumes inv: "intr_inv s" and j: "j < in_threads s" and st: "fev_poller_interrupt_step j s = Some s'"
  shows "intr_inv s'"
proof -
  note upd = waiting_upd [OF j] and defs = fev_poller_interrupt_step_def jgoto_def
  have calm: "intr_inv (s\<lparr>in_ipc := (in_ipc s)(j := p)\<rparr>)"
    if "\<forall>i. p \<noteq> JStore i \<and> p \<noteq> JWrite i \<and> in_ipc s j \<noteq> JStore i \<and> in_ipc s j \<noteq> JWrite i" for p
    using inv that upd [where p = p] by (simp add: intr_inv_def)
  show ?thesis
  proof (cases "in_ipc s j")
    case JIdle
    then show ?thesis using st calm [of "JScan 0"] by (auto simp: defs)
  next
    case (JScan i)
    show ?thesis
    proof (cases "i < in_workers s \<and> in_waiters s i")
      case True
      then have s': "s' = s\<lparr>in_waiters := (in_waiters s)(i := False), in_ipc := (in_ipc s)(j := JStore i)\<rparr>"
        using st JScan by (simp add: defs)
      have c: "storing k s' = storing k s + of_bool (k = i)" "writing k s' = writing k s" for k
        using upd [of k "JStore i"] JScan by (auto simp: s' storing_def writing_def split: if_splits)
      show ?thesis by (rule inv_local_step [OF inv, of i])
        (use True intr_ok_taken c in \<open>auto simp: s' same_local_def\<close>)
    next
      case False
      then show ?thesis using st JScan calm [of "JScan (Suc i)"] calm [of JIdle] by (auto simp: defs split: if_splits)
    qed
  next
    case (JStore i)
    then have s': "s' = s\<lparr>in_rearm := (in_rearm s)(i := True), in_ipc := (in_ipc s)(j := JWrite i)\<rparr>"
      using st by (simp add: defs)
    have c: "storing k s = storing k s' + of_bool (k = i)" "writing k s' = writing k s + of_bool (k = i)" for k
      using upd [of k "JWrite i"] JStore by (auto simp: s' storing_def writing_def split: if_splits)
    show ?thesis
    proof (rule inv_local_step [OF inv])
      show "same_local k s s'" if "k \<noteq> i" for k using that c [of k] by (simp add: same_local_def) (simp add: s')
      show "intr_local s' i" if "intr_local s i" using that intr_ok_stored c [of i] by (simp add: s')
    qed
  next
    case (JWrite i)
    then have s': "s' = s\<lparr>in_event := (in_event s)(i := in_event s i + 1), in_ipc := (in_ipc s)(j := JIdle)\<rparr>"
      using st by (simp add: defs)
    have c: "storing k s' = storing k s" "writing k s = writing k s' + of_bool (k = i)" for k
      using upd [of k JIdle] JWrite by (auto simp: s' storing_def writing_def split: if_splits)
    show ?thesis
    proof (rule inv_local_step [OF inv])
      show "same_local k s s'" if "k \<noteq> i" for k using that c [of k] by (simp add: same_local_def) (simp add: s')
      show "intr_local s' i" if "intr_local s i" using that intr_ok_written c [of i] by (simp add: s')
    qed
  qed
qed

lemma inv_other: "intr_inv s \<Longrightarrow> intr_inv (s\<lparr>in_others := e\<rparr>)"
  by (simp add: intr_inv_def)

lemma inv_intr_step: "intr_inv s \<Longrightarrow> intr_step ev s = Some s' \<Longrightarrow> intr_inv s'"
  by (cases ev) (auto intro: inv_wait inv_check inv_interrupt inv_event_read inv_other split: if_splits)

lemma inv_intr_init: "intr_inv (intr_init nw nj)"
  by (simp add: intr_inv_def intr_init_def intr_ok_def storing_def writing_def wsum_def)

interpretation ui: step_invariant intr_step "\<lambda>s. \<exists>nw nj. s = intr_init nw nj" intr_inv
  by unfold_locales (auto simp: inv_intr_init intro: inv_intr_step)

section \<open>Properties\<close>

lemma event_wakes:
  assumes "intr_inv s" "i < in_workers s" "in_wpc s i = PEnter" "in_event s i > 0"
  shows "\<exists>s'. run intr_step s [EventRead i, Wait i False, Wait i False] = Some s' \<and> in_wpc s' i = PRun"
proof -
  have "intr_local s i" using assms(1) by (simp add: intr_inv_def)
  then have "in_reads s i > 0" using assms(3,4) by (auto simp: intr_ok_def)
  then show ?thesis using assms(2-4)
    by (simp add: event_read_step_def fev_poller_wait_step_def wgoto_def take_completions_def)
qed

lemma write_wakes:
  assumes "intr_inv s" "i < in_workers s" "in_wpc s i = PEnter" "j < in_threads s" "in_ipc s j = JWrite i"
  shows "\<exists>s'. run intr_step s [Interrupt j, EventRead i, Wait i False, Wait i False] = Some s' \<and> in_wpc s' i = PRun"
proof -
  obtain s1 where st: "intr_step (Interrupt j) s = Some s1"
    and s1: "in_wpc s1 i = PEnter" "in_event s1 i > 0" "in_workers s1 = in_workers s"
    using assms by (auto simp: fev_poller_interrupt_step_def jgoto_def)
  show ?thesis using event_wakes [OF inv_intr_step [OF assms(1) st]] s1 assms(2) st by simp
qed

lemma store_wakes:
  assumes "intr_inv s" "i < in_workers s" "in_wpc s i = PEnter" "j < in_threads s" "in_ipc s j = JStore i"
  shows "\<exists>s'. run intr_step s [Interrupt j, Interrupt j, EventRead i, Wait i False, Wait i False] = Some s' \<and> in_wpc s' i = PRun"
proof -
  obtain s1 where st: "intr_step (Interrupt j) s = Some s1"
    and s1: "in_wpc s1 i = PEnter" "in_ipc s1 j = JWrite i" "in_workers s1 = in_workers s" "in_threads s1 = in_threads s"
    using assms by (auto simp: fev_poller_interrupt_step_def jgoto_def)
  show ?thesis using write_wakes [OF inv_intr_step [OF assms(1) st]] s1 assms(2,4) st by simp
qed

lemma wsum_ex: "wsum n (\<lambda>p. of_bool (P p) :: nat) g > 0 \<Longrightarrow> \<exists>j < n. P (g j)"
  using wsum_0 [of n "\<lambda>p. of_bool (P p) :: nat" g] by fastforce

lemma storing_ex: "storing i s > 0 \<Longrightarrow> \<exists>j < in_threads s. in_ipc s j = JStore i"
  using wsum_ex [of "in_threads s" "\<lambda>p. p = JStore i" "in_ipc s"] by (simp add: storing_def)

lemma writing_ex: "writing i s > 0 \<Longrightarrow> \<exists>j < in_threads s. in_ipc s j = JWrite i"
  using wsum_ex [of "in_threads s" "\<lambda>p. p = JWrite i" "in_ipc s"] by (simp add: writing_def)

lemma workers_run: "run intr_step s sched = Some s' \<Longrightarrow> in_workers s' = in_workers s \<and> in_threads s' = in_threads s"
proof (induction sched arbitrary: s)
  case (Cons ev sched)
  then obtain s1 where s1: "intr_step ev s = Some s1" "run intr_step s1 sched = Some s'" by (auto split: option.splits)
  have "in_workers s1 = in_workers s \<and> in_threads s1 = in_threads s"
    using s1(1) by (cases ev) (auto simp: fev_poller_wait_step_def fev_poller_try_rearming_interrupt_step_def
        fev_poller_check_step_def fev_poller_interrupt_step_def event_read_step_def wgoto_def jgoto_def take_completions_def
        split: if_splits wait_pc.splits intr_pc.splits)
  then show ?case using Cons.IH [OF s1(2)] by simp
qed simp

text \<open>
  C13. A worker that sleeps on its ring can be woken: in every reachable state it either stands in the array with a
  read of its event descriptor at the kernel, so that the next interrupt that comes to it will find it, or an interrupt is
  already on its way and needs at most five more steps, of the interrupter, the kernel and the worker, until the worker
  returns. No interrupt that took a worker out of the array is lost, however interrupts and arming overlap.
\<close>

theorem fev_poller_wait_interruptible:
  assumes "run intr_step (intr_init nw nj) sched = Some s" "i < nw" "in_wpc s i = PEnter" "in_zeros s i = 0"
  shows "in_waiters s i \<and> in_reads s i > 0 \<or>
    (\<exists>sched' s'. length sched' \<le> 5 \<and> set sched' \<subseteq> {EventRead i, Wait i False} \<union> {Interrupt j | j. in_ipc s j = JStore i \<or> in_ipc s j = JWrite i} \<and>
       run intr_step s sched' = Some s' \<and> in_wpc s' i = PRun)"
proof -
  have inv: "intr_inv s" using ui.inv_run_init assms(1) by blast
  have n: "in_workers s = nw" using workers_run [OF assms(1)] by (simp add: intr_init_def)
  have i: "i < in_workers s" using assms(2) n by simp
  have ok: "intr_local s i" using inv by (simp add: intr_inv_def)
  consider "in_waiters s i" | "storing i s > 0" | "writing i s > 0" | "in_event s i > 0"
    using intr_ok_asleep ok assms(3,4) by metis
  then show ?thesis
  proof cases
    case 1
    then show ?thesis using ok assms(3) by (auto simp: intr_ok_def)
  next
    case 2
    then obtain j where "j < in_threads s" "in_ipc s j = JStore i" using storing_ex by blast
    then show ?thesis using store_wakes [OF inv i assms(3)]
      by (intro disjI2 exI [of _ "[Interrupt j, Interrupt j, EventRead i, Wait i False, Wait i False]"]) auto
  next
    case 3
    then obtain j where "j < in_threads s" "in_ipc s j = JWrite i" using writing_ex by blast
    then show ?thesis using write_wakes [OF inv i assms(3)]
      by (intro disjI2 exI [of _ "[Interrupt j, EventRead i, Wait i False, Wait i False]"]) auto
  next
    case 4
    then show ?thesis using event_wakes [OF inv i assms(3)]
      by (intro disjI2 exI [of _ "[EventRead i, Wait i False, Wait i False]"]) auto
  qed
qed

definition interrupted_schedule :: "intr_event list" where
  "interrupted_schedule =
     [Wait 0 False, Wait 0 False, Wait 0 False, Wait 0 False, Wait 0 False, Wait 0 False, Interrupt 0, Interrupt 0, Interrupt 0]"

theorem fev_poller_wait_interruptible_witness:
  "\<exists>s. run intr_step (intr_init 2 1) interrupted_schedule = Some s \<and>
     (in_wpc s 0, in_zeros s 0, in_waiters s 0, in_ipc s 0) = (PEnter, 0, False, JWrite 0) \<and>
     (\<exists>sched' s'. length sched' \<le> 5 \<and> run intr_step s sched' = Some s' \<and> in_wpc s' 0 = PRun)"
proof -
  have "map_option (\<lambda>s. (in_wpc s 0, in_zeros s 0, in_waiters s 0, in_ipc s 0))
     (run intr_step (intr_init 2 1) interrupted_schedule) = Some (PEnter, 0, False, JWrite 0)" by code_simp
  then obtain s where r: "run intr_step (intr_init 2 1) interrupted_schedule = Some s"
      "(in_wpc s 0, in_zeros s 0, in_waiters s 0, in_ipc s 0) = (PEnter, 0, False, JWrite 0)"
    by (rule observeE)
  then show ?thesis using fev_poller_wait_interruptible [OF r(1), of 0] by auto
qed

section \<open>An interrupt that comes too early\<close>

text \<open>An interrupt that finds nobody in the array changes nothing.\<close>

lemma scan_empty:
  assumes "j < in_threads s" "\<forall>i < in_workers s. \<not> in_waiters s i"
  shows "k \<le> in_workers s \<Longrightarrow>
    run intr_step (jgoto s j (JScan (in_workers s - k))) (replicate (Suc k) (Interrupt j)) = Some (jgoto s j JIdle)"
proof (induction k)
  case 0
  then show ?case using assms by (simp add: fev_poller_interrupt_step_def jgoto_def)
next
  case (Suc k)
  have "Suc (in_workers s - Suc k) = in_workers s - k" using Suc.prems by simp
  then have "intr_step (Interrupt j) (jgoto s j (JScan (in_workers s - Suc k))) = Some (jgoto s j (JScan (in_workers s - k)))"
    using assms Suc.prems by (simp add: fev_poller_interrupt_step_def jgoto_def)
  then show ?case using Suc.IH Suc.prems by simp
qed

lemma interrupts_lost:
  assumes "j < in_threads s" "\<forall>i < in_workers s. \<not> in_waiters s i" "in_ipc s j = JIdle"
  shows "run intr_step s (replicate (n * (in_workers s + 2)) (Interrupt j)) = Some s"
proof (induction n)
  case (Suc n)
  have same: "jgoto s j JIdle = s" using assms(3) by (simp add: jgoto_def fun_upd_idem)
  have "intr_step (Interrupt j) s = Some (jgoto s j (JScan (in_workers s - in_workers s)))"
    using assms(1,3) by (simp add: fev_poller_interrupt_step_def)
  then have "run intr_step s (Interrupt j # replicate (Suc (in_workers s)) (Interrupt j)) = Some s"
    using scan_empty [OF assms(1,2), of "in_workers s"] same by simp
  then have "run intr_step s (replicate (in_workers s + 2) (Interrupt j)) = Some s" by simp
  then show ?case using Suc by (simp only: mult_Suc replicate_add run_append option.case)
qed simp

text \<open>A worker that sleeps with nothing on its way to it.\<close>

definition forsaken :: "nat \<Rightarrow> intr_sys \<Rightarrow> bool" where
  "forsaken i s \<longleftrightarrow> in_wpc s i = PEnter \<and> in_event s i = 0 \<and> in_zeros s i = 0 \<and> in_others s i = 0"

lemma forsaken_step:
  assumes "forsaken i s" "intr_step ev s = Some s'" "\<forall>j. ev \<noteq> Interrupt j" "ev \<noteq> Other i"
  shows "forsaken i s'"
  using assms
  by (cases ev)
     (auto simp: forsaken_def fev_poller_wait_step_def fev_poller_try_rearming_interrupt_step_def fev_poller_check_step_def
        event_read_step_def wgoto_def take_completions_def split: if_splits wait_pc.splits)

lemma forsaken_run:
  "forsaken i s \<Longrightarrow> run intr_step s evs = Some s' \<Longrightarrow> \<forall>ev \<in> set evs. (\<forall>j. ev \<noteq> Interrupt j) \<and> ev \<noteq> Other i \<Longrightarrow> forsaken i s'"
  by (induction evs arbitrary: s) (auto split: option.splits dest: forsaken_step)

text \<open>A worker that has decided to wait and is not in the array yet.\<close>

definition deciding :: "wait_pc \<Rightarrow> bool" where
  "deciding p \<longleftrightarrow> p = PCheck \<or> p = PLoad \<or> p = PClear \<or> p = PArm"

lemma deciding_sleeps:
  assumes inv: "intr_inv s" and i: "i < in_workers s" "deciding (in_wpc s i)" "\<not> in_waiters s i" "storing i s = 0"
    and calm: "in_event s i = 0" "in_zeros s i = 0" "in_others s i = 0"
  shows "\<exists>k \<le> 5. \<exists>s'. run intr_step s (replicate k (Wait i False)) = Some s' \<and> forsaken i s'"
proof -
  have "intr_local s i" using inv by (simp add: intr_inv_def)
  then have rearm: "in_wpc s i \<noteq> PArm \<Longrightarrow> in_rearm s i" using i by (cases "in_rearm s i") (auto simp: intr_ok_def)
  note defs = fev_poller_wait_step_def fev_poller_try_rearming_interrupt_step_def wgoto_def take_completions_def forsaken_def numeral_eq_Suc
  consider "in_wpc s i = PCheck" | "in_wpc s i = PLoad" | "in_wpc s i = PClear" | "in_wpc s i = PArm" using i(2) by (auto simp: deciding_def)
  then show ?thesis
  proof cases
    case 1
    then show ?thesis using i calm rearm by (intro exI [of _ 5]) (simp add: defs)
  next
    case 2
    then show ?thesis using i calm rearm by (intro exI [of _ 4]) (simp add: defs)
  next
    case 3
    then show ?thesis using i calm rearm by (intro exI [of _ 3]) (simp add: defs)
  next
    case 4
    then show ?thesis using i calm by (intro exI [of _ 2]) (simp add: defs)
  qed
qed

text \<open>
  C40. An interrupt that comes before the worker stands in the array is lost, and with it the wake-up at the end of a run.
  Take any reachable state in which no interrupt is under way, the array of waiters is empty, and a worker has decided to
  wait (it is counted as waiting) but has not armed yet, with no completion and no event pending for it. Then interrupts, however
  many \<open>fev_sched_wake_all_workers\<close> makes, leave the state as it is; the worker needs at most five steps of its own until it
  sleeps in its system call; and from then on it sleeps as long as there is no further interrupt and no request of its own
  completes, whatever the other workers and the kernel do. When the interrupts were those of the last worker, which has found that
  no fiber is left, there is neither, and \<open>fev_sched_run\<close>, which joins the threads, does not return.
\<close>

theorem fev_sched_wake_all_workers_misses_worker:
  assumes "run intr_step (intr_init nw nj) sched = Some s" "i < nw" "j < nj"
    and "\<forall>j < nj. in_ipc s j = JIdle" "\<forall>i < nw. \<not> in_waiters s i"
    and "deciding (in_wpc s i)" "in_event s i = 0" "in_zeros s i = 0" "in_others s i = 0"
  shows "\<exists>k \<le> 5. \<exists>s1. run intr_step s (replicate (n * (nw + 2)) (Interrupt j) @ replicate k (Wait i False)) = Some s1 \<and>
    in_wpc s1 i = PEnter \<and>
    (\<forall>evs s2. (\<forall>ev \<in> set evs. (\<forall>j. ev \<noteq> Interrupt j) \<and> ev \<noteq> Other i) \<longrightarrow> run intr_step s1 evs = Some s2 \<longrightarrow> in_wpc s2 i = PEnter)"
proof -
  have inv: "intr_inv s" using ui.inv_run_init assms(1) by blast
  have w: "in_workers s = nw" "in_threads s = nj" using workers_run [OF assms(1)] by (simp_all add: intr_init_def)
  have "storing i s = 0" using storing_ex [of i s] assms(4) w(2) by (cases "storing i s = 0") auto
  then obtain k s1 where k: "k \<le> 5" "run intr_step s (replicate k (Wait i False)) = Some s1" "forsaken i s1"
    using deciding_sleeps [OF inv] assms w by blast
  have "run intr_step s (replicate (n * (nw + 2)) (Interrupt j)) = Some s" using interrupts_lost [of j s n] assms w by simp
  then have "run intr_step s (replicate (n * (nw + 2)) (Interrupt j) @ replicate k (Wait i False)) = Some s1" using k(2) by (simp add: run_append)
  moreover have "in_wpc s2 i = PEnter"
    if "\<forall>ev \<in> set evs. (\<forall>j. ev \<noteq> Interrupt j) \<and> ev \<noteq> Other i" "run intr_step s1 evs = Some s2" for evs s2
    using forsaken_run [OF k(3) that(2,1)] by (simp add: forsaken_def)
  ultimately show ?thesis using k(1,3) by (auto simp: forsaken_def)
qed

text \<open>Two workers; worker 0 has decided to wait, and the other wakes both of them.\<close>

theorem fev_sched_wake_all_workers_misses_worker_witness:
  "\<exists>s k s1. run intr_step (intr_init 2 1) [Wait 0 False] = Some s \<and> in_wpc s 0 = PCheck \<and> k \<le> 5 \<and>
     run intr_step s (replicate (2 * (2 + 2)) (Interrupt 0) @ replicate k (Wait 0 False)) = Some s1 \<and> in_wpc s1 0 = PEnter"
proof -
  obtain s where s: "run intr_step (intr_init 2 1) [Wait 0 False] = Some s" "in_wpc s 0 = PCheck"
      "\<forall>j < 1. in_ipc s j = JIdle" "\<forall>i < 2. \<not> in_waiters s i" "in_event s 0 = 0" "in_zeros s 0 = 0" "in_others s 0 = 0"
    by (simp add: intr_init_def fev_poller_wait_step_def wgoto_def)
  have "deciding (in_wpc s 0)" "(0 :: nat) < 2" "(0 :: nat) < 1" using s(2) by (simp_all add: deciding_def)
  from fev_sched_wake_all_workers_misses_worker [OF s(1) this(2,3) s(3,4) this(1) s(5-7), of 2] s(1,2)
  show ?thesis by blast
qed

end
