(* ===== verification/Uring_Setup.thy ===== *)
theory Uring_Setup
  imports Resources
begin

text \<open>
  Set-up and tear-down of the io\_uring poller (\<open>fev_poller_io_uring.c\<close>): for each worker a ring with its three
  mappings and an event descriptor.
\<close>

section \<open>Operations\<close>

datatype uring_res =
    WaitersBlock
  | RingFd nat
  | SqRing nat
  | CqRing nat
  | Sqes nat
  | EventFdOf nat

type_synonym uring_rs = "uring_res rstate"

text \<open>Set-up of worker \<open>n\<close>, with the labels \<open>fail_ring_fd\<close> to \<open>fail_sqes\<close>.\<close>

definition fev_poller_init_worker :: "nat \<Rightarrow> uring_rs \<Rightarrow> (int \<times> uring_rs) option" where
  "fev_poller_init_worker n =
     init_step (\<lambda>s. Some (acquire (RingFd n) s)) (release (RingFd n))
       (init_step (\<lambda>s. Some (acquire (SqRing n) s)) (release (SqRing n))
         (init_step (\<lambda>s. Some (acquire (CqRing n) s)) (release (CqRing n))
           (init_step (\<lambda>s. Some (acquire (Sqes n) s)) (release (Sqes n)) (\<lambda>s. Some (acquire (EventFdOf n) s)))))"

definition fev_poller_fini_worker :: "nat \<Rightarrow> uring_rs \<Rightarrow> uring_rs option" where
  "fev_poller_fini_worker n s =
     do { s \<leftarrow> release (Sqes n) s; s \<leftarrow> release (CqRing n) s; s \<leftarrow> release (SqRing n) s; release (RingFd n) s }"

text \<open>The loop of \<open>fev_poller_init\<close>, and the loop that undoes it, counting down.\<close>

function init_workers_loop :: "nat \<Rightarrow> nat \<Rightarrow> uring_rs \<Rightarrow> (int \<times> nat \<times> uring_rs) option" where
  "init_workers_loop n num_workers s =
     (if n < num_workers
      then do { (ret, s) \<leftarrow> fev_poller_init_worker n s;
                if ret \<noteq> 0 then Some (ret, n, s) else init_workers_loop (Suc n) num_workers s }
      else Some (0, n, s))"
  by pat_completeness auto
termination
  by (relation "measure (\<lambda>(n, num_workers, s). num_workers - n)") auto

declare init_workers_loop.simps [simp del]

fun fini_workers_down :: "nat \<Rightarrow> uring_rs \<Rightarrow> uring_rs option" where
  "fini_workers_down 0 s = Some s"
| "fini_workers_down (Suc n) s = do { s \<leftarrow> fev_poller_fini_worker n s; fini_workers_down n s }"

fun fini_workers_up :: "nat \<Rightarrow> nat \<Rightarrow> uring_rs \<Rightarrow> uring_rs option" where
  "fini_workers_up i 0 s = Some s"
| "fini_workers_up i (Suc k) s = do { s \<leftarrow> fev_poller_fini_worker i s; fini_workers_up (Suc i) k s }"

definition fev_poller_init_uring :: "nat \<Rightarrow> uring_rs \<Rightarrow> (int \<times> uring_rs) option" where
  "fev_poller_init_uring num_workers s =
     do { (ret, s) \<leftarrow> acquire_mem WaitersBlock s;
          if ret \<noteq> 0 then Some (ret, s)
          else do { (ret, n, s) \<leftarrow> init_workers_loop 0 num_workers s;
                    if ret = 0 then Some (0, s)
                    else do { s \<leftarrow> fini_workers_down n s; s \<leftarrow> release WaitersBlock s; Some (ret, s) } } }"

definition fev_poller_fini_uring :: "nat \<Rightarrow> uring_rs \<Rightarrow> uring_rs option" where
  "fev_poller_fini_uring num_workers s = do { s \<leftarrow> fini_workers_up 0 num_workers s; release WaitersBlock s }"

section \<open>What is held\<close>

definition ring_res :: "nat \<Rightarrow> uring_res multiset" where
  "ring_res n = {#RingFd n, SqRing n, CqRing n, Sqes n#}"

definition rings_res :: "nat \<Rightarrow> nat \<Rightarrow> uring_res multiset" where
  "rings_res i k = (\<Sum>n \<in># mset [i..<k]. ring_res n)"

lemma rings_res_simps [simp]:
  "rings_res n n = {#}" "rings_res 0 (Suc n) = ring_res n + rings_res 0 n"
  by (simp_all add: rings_res_def)

lemma rings_res_rec: "i < k \<Longrightarrow> rings_res i k = ring_res i + rings_res (Suc i) k"
  by (simp add: rings_res_def upt_conv_Cons)

lemma rings_res_snoc: "i \<le> k \<Longrightarrow> rings_res i (Suc k) = ring_res k + rings_res i k"
  by (simp add: rings_res_def)

lemma segment_snoc: "i \<le> k \<Longrightarrow> segment r i (Suc k) = add_mset (r k) (segment r i k)"
  by (simp add: segment_def)

interpretation worker_rings: component "fev_poller_init_worker n"
  "\<lambda>s. do { s \<leftarrow> do { s \<leftarrow> do { s \<leftarrow> do { s \<leftarrow> release (EventFdOf n) s; release (Sqes n) s }; release (CqRing n) s }; release (SqRing n) s };
        release (RingFd n) s }"
  "{#RingFd n#} + ({#SqRing n#} + ({#CqRing n#} + ({#Sqes n#} + {#EventFdOf n#})))" for n
  unfolding fev_poller_init_worker_def by (intro component_step single.component_axioms)

lemma fini_worker_held:
  assumes "rs_held s = ring_res n + R"
  shows "\<exists>s'. fev_poller_fini_worker n s = Some s' \<and> rs_held s' = R"
  using assms by (simp add: fev_poller_fini_worker_def release_def ring_res_def)

lemma init_workers_loop_held:
  "n \<le> num_workers \<Longrightarrow> \<exists>ret m s'. init_workers_loop n num_workers s = Some (ret, m, s') \<and> n \<le> m \<and> m \<le> num_workers \<and>
     (ret = 0 \<longrightarrow> m = num_workers) \<and> rs_held s' = rs_held s + rings_res n m + segment EventFdOf n m"
proof (induction n num_workers s rule: init_workers_loop.induct)
  case (1 n num_workers s)
  show ?case
  proof (cases "n < num_workers")
    case False
    then show ?thesis using 1 by (subst init_workers_loop.simps) simp
  next
    case True
    show ?thesis
    proof (cases rule: worker_rings.init_cases [of n s])
      case (1 ret s1)
      then show ?thesis using True by (subst init_workers_loop.simps) simp
    next
      case (2 s1)
      then obtain ret m s' where "init_workers_loop (Suc n) num_workers s1 = Some (ret, m, s')" "Suc n \<le> m" "m \<le> num_workers"
        "ret = 0 \<longrightarrow> m = num_workers" "rs_held s' = rs_held s1 + rings_res (Suc n) m + segment EventFdOf (Suc n) m"
        using "1.IH" [OF True 2(1) refl] True by auto
      moreover have "init_workers_loop n num_workers s = init_workers_loop (Suc n) num_workers s1"
        using True 2(1) by (subst init_workers_loop.simps) simp
      moreover have "rings_res n m = ring_res n + rings_res (Suc n) m" "segment EventFdOf n m = add_mset (EventFdOf n) (segment EventFdOf (Suc n) m)"
        using calculation(2) by (auto intro: rings_res_rec segment_rec)
      ultimately show ?thesis using 2(2) by (simp add: ring_res_def)
    qed
  qed
qed

lemma fini_workers_down_held:
  "rs_held s = rings_res 0 n + R \<Longrightarrow> \<exists>s'. fini_workers_down n s = Some s' \<and> rs_held s' = R"
proof (induction n arbitrary: s)
  case (Suc n)
  then obtain s1 where "fev_poller_fini_worker n s = Some s1" "rs_held s1 = rings_res 0 n + R"
    using fini_worker_held [of s n "rings_res 0 n + R"] by (auto simp: ac_simps)
  then show ?case using Suc.IH by auto
qed simp

lemma fini_workers_up_held:
  "rs_held s = rings_res i (i + k) + R \<Longrightarrow> \<exists>s'. fini_workers_up i k s = Some s' \<and> rs_held s' = R"
proof (induction k arbitrary: i s)
  case (Suc k)
  then obtain s1 where "fev_poller_fini_worker i s = Some s1" "rs_held s1 = rings_res (Suc i) (Suc i + k) + R"
    using fini_worker_held [of s i "rings_res (Suc i) (Suc i + k) + R"] rings_res_rec [of i "i + Suc k"] by (auto simp: ac_simps)
  then show ?case using Suc.IH by auto
qed simp

section \<open>The property\<close>

text \<open>
  Whatever call fails, set-up and tear-down of the poller do not fault and give back every ring, mapping and block
  they took, but no event descriptor: a set-up that fails after \<open>k\<close> workers leaves their \<open>k\<close> event descriptors open, and a
  set-up that succeeds leaves, after the tear-down, one open descriptor for each worker.
\<close>

theorem fev_poller_uring_leaks_event_fds:
  "\<exists>ret s'. fev_poller_init_uring num_workers s = Some (ret, s') \<and>
     (if ret = 0
      then rs_held s' = rs_held s + {#WaitersBlock#} + rings_res 0 num_workers + segment EventFdOf 0 num_workers \<and>
           (\<exists>s''. fev_poller_fini_uring num_workers s' = Some s'' \<and> rs_held s'' = rs_held s + segment EventFdOf 0 num_workers)
      else \<exists>k \<le> num_workers. rs_held s' = rs_held s + segment EventFdOf 0 k)"
proof (cases rule: memory.init_cases [of WaitersBlock s])
  case (1 ret s1)
  then show ?thesis by (auto simp: fev_poller_init_uring_def intro: exI [of _ 0])
next
  case (2 s1)
  obtain ret m s2 where l: "init_workers_loop 0 num_workers s1 = Some (ret, m, s2)" "m \<le> num_workers" "ret = 0 \<longrightarrow> m = num_workers"
    "rs_held s2 = rs_held s1 + rings_res 0 m + segment EventFdOf 0 m"
    using init_workers_loop_held [of 0 num_workers s1] by auto
  have held: "rs_held s2 = rings_res 0 m + (add_mset WaitersBlock (rs_held s + segment EventFdOf 0 m))"
    using l(4) 2(2) by (simp add: ac_simps)
  show ?thesis
  proof (cases "ret = 0")
    case True
    then have m: "m = num_workers" using l(3) by simp
    obtain s3 where "fini_workers_up 0 num_workers s2 = Some s3" "rs_held s3 = add_mset WaitersBlock (rs_held s + segment EventFdOf 0 num_workers)"
      using fini_workers_up_held [of s2 0 num_workers] held m by auto
    then have "\<exists>s''. fev_poller_fini_uring num_workers s2 = Some s'' \<and> rs_held s'' = rs_held s + segment EventFdOf 0 num_workers"
      by (simp add: fev_poller_fini_uring_def release_def)
    moreover have "rs_held s2 = rs_held s + {#WaitersBlock#} + rings_res 0 num_workers + segment EventFdOf 0 num_workers"
      unfolding l(4) 2(2) m ..
    moreover have "fev_poller_init_uring num_workers s = Some (0, s2)"
      using l(1) 2(1) True by (simp add: fev_poller_init_uring_def)
    ultimately show ?thesis by simp
  next
    case False
    obtain s3 where "fini_workers_down m s2 = Some s3" "rs_held s3 = add_mset WaitersBlock (rs_held s + segment EventFdOf 0 m)"
      using fini_workers_down_held [OF held] by auto
    then show ?thesis using False l 2(1) by (auto simp: fev_poller_init_uring_def release_def)
  qed
qed

end
