(* ===== verification/Simple_Stack.thy ===== *)
theory Simple_Stack
  imports Prelude
begin

text \<open>
  The lock-free stack with a counted tp (\<open>fev_simple_mpmc_stack.h\<close>), used by any number of threads. The tp and its
  count are read one after the other and replaced together by a double-width compare-and-swap. Nodes stay in memory, so
  that a thread may still read the link of a node that was taken and pushed again.
\<close>

section \<open>The system\<close>

type_synonym node_ptr = addr

datatype stack_pc =
    SIdle
  | SPushCount node_ptr
  | SPushTop node_ptr u64
  | SPushStore node_ptr u64 node_ptr
  | SPushCas node_ptr u64 node_ptr
  | SPopCount
  | SPopTop u64
  | SPopTest u64 node_ptr
  | SPopCas u64 node_ptr node_ptr

text \<open>
  The results of the operations in the order in which they took effect: a push or pop with its compare-and-swap, a pop of
  the empty stack when it read the tp.
\<close>

datatype stack_op = Pushed node_ptr | Popped node_ptr | WasEmpty

record stack_sys =
  st_top :: node_ptr
  st_count :: u64
  st_next :: "node_ptr \<Rightarrow> node_ptr"
  st_pc :: "nat \<Rightarrow> stack_pc"
  st_hist :: "stack_op list"

fun replay :: "node_ptr list \<Rightarrow> stack_op list \<Rightarrow> node_ptr list option" where
  "replay xs [] = Some xs"
| "replay xs (Pushed n # h) = replay (n # xs) h"
| "replay xs (Popped n # h) = (case xs of [] \<Rightarrow> None | x # xs \<Rightarrow> if x = n then replay xs h else None)"
| "replay xs (WasEmpty # h) = (if xs = [] then replay xs h else None)"

definition stgoto :: "stack_sys \<Rightarrow> nat \<Rightarrow> stack_pc \<Rightarrow> stack_sys" where
  "stgoto s t p = s\<lparr>st_pc := (st_pc s)(t := p)\<rparr>"

definition fev_simple_mpmc_stack_init :: "(node_ptr \<Rightarrow> node_ptr) \<Rightarrow> stack_sys" where
  "fev_simple_mpmc_stack_init nxt = \<lparr>st_top = 0, st_count = 0, st_next = nxt, st_pc = (\<lambda>t. SIdle), st_hist = []\<rparr>"

text \<open>The test at the head of the loop of a pop, after \<open>top\<close> has been read.\<close>

definition pop_loop :: "nat \<Rightarrow> u64 \<Rightarrow> node_ptr \<Rightarrow> stack_sys \<Rightarrow> stack_sys" where
  "pop_loop t c tp s = (if tp = 0 then stgoto (s\<lparr>st_hist := st_hist s @ [WasEmpty]\<rparr>) t SIdle else stgoto s t (SPopTest c tp))"

definition fev_simple_mpmc_stack_push_step :: "nat \<Rightarrow> stack_sys \<Rightarrow> stack_sys option" where
  "fev_simple_mpmc_stack_push_step t s =
     (case st_pc s t of
        SPushCount n \<Rightarrow> Some (stgoto s t (SPushTop n (st_count s)))
      | SPushTop n c \<Rightarrow> Some (stgoto s t (SPushStore n c (st_top s)))
      | SPushStore n c tp \<Rightarrow> Some (stgoto (s\<lparr>st_next := (st_next s)(n := tp)\<rparr>) t (SPushCas n c tp))
      | SPushCas n c tp \<Rightarrow>
          Some (if st_top s = tp \<and> st_count s = c
                then stgoto (s\<lparr>st_top := n, st_count := c + 1, st_hist := st_hist s @ [Pushed n]\<rparr>) t SIdle
                else stgoto s t (SPushStore n (st_count s) (st_top s)))
      | _ \<Rightarrow> None)"

definition fev_simple_mpmc_stack_pop_step :: "nat \<Rightarrow> stack_sys \<Rightarrow> stack_sys option" where
  "fev_simple_mpmc_stack_pop_step t s =
     (case st_pc s t of
        SPopCount \<Rightarrow> Some (stgoto s t (SPopTop (st_count s)))
      | SPopTop c \<Rightarrow> Some (pop_loop t c (st_top s) s)
      | SPopTest c tp \<Rightarrow> Some (stgoto s t (SPopCas c tp (st_next s tp)))
      | SPopCas c tp nxt \<Rightarrow>
          Some (if st_top s = tp \<and> st_count s = c
                then stgoto (s\<lparr>st_top := nxt, st_count := c + 1, st_hist := st_hist s @ [Popped tp]\<rparr>) t SIdle
                else pop_loop t (st_count s) (st_top s) s)
      | _ \<Rightarrow> None)"

text \<open>A node that is being pushed by a thread.\<close>

fun pushes :: "stack_pc \<Rightarrow> node_ptr \<Rightarrow> bool" where
  "pushes (SPushCount n) m \<longleftrightarrow> m = n"
| "pushes (SPushTop n c) m \<longleftrightarrow> m = n"
| "pushes (SPushStore n c tp) m \<longleftrightarrow> m = n"
| "pushes (SPushCas n c tp) m \<longleftrightarrow> m = n"
| "pushes _ m \<longleftrightarrow> False"

datatype stack_event = StartPush nat node_ptr | StartPop nat | StackStep nat

text \<open>
  There are \<open>nt\<close> threads. A thread may push any node that is neither in the stack nor being pushed. Steps are taken only while the
  64-bit count has not gone round.
\<close>

fun stack_step :: "nat \<Rightarrow> stack_event \<Rightarrow> stack_sys \<Rightarrow> stack_sys option" where
  "stack_step nt (StartPush t n) s =
     (if t < nt \<and> st_pc s t = SIdle \<and> n \<noteq> 0 \<and> (case replay [] (st_hist s) of None \<Rightarrow> False | Some xs \<Rightarrow> n \<notin> set xs) \<and>
         list_all (\<lambda>u. \<not> pushes (st_pc s u) n) [0..<nt]
      then Some (stgoto s t (SPushCount n)) else None)"
| "stack_step nt (StartPop t) s = (if t < nt \<and> st_pc s t = SIdle then Some (stgoto s t SPopCount) else None)"
| "stack_step nt (StackStep t) s =
     (if t < nt \<and> st_count s \<noteq> - 1
      then case fev_simple_mpmc_stack_push_step t s of None \<Rightarrow> fev_simple_mpmc_stack_pop_step t s | Some s' \<Rightarrow> Some s'
      else None)"

section \<open>The invariant\<close>

fun chain :: "(node_ptr \<Rightarrow> node_ptr) \<Rightarrow> node_ptr \<Rightarrow> node_ptr list \<Rightarrow> bool" where
  "chain nxt p [] \<longleftrightarrow> p = 0"
| "chain nxt p (x # xs) \<longleftrightarrow> p = x \<and> x \<noteq> 0 \<and> chain nxt (nxt x) xs"

lemma chain_upd: "n \<notin> set xs \<Longrightarrow> chain (nxt(n := v)) p xs = chain nxt p xs"
  by (induction xs arbitrary: p) auto

text \<open>What a thread has read is right as long as the count is the one it has read before.\<close>

fun pc_current :: "stack_sys \<Rightarrow> stack_pc \<Rightarrow> bool" where
  "pc_current s (SPushTop n c) \<longleftrightarrow> c \<le> st_count s"
| "pc_current s (SPushStore n c tp) \<longleftrightarrow> c \<le> st_count s \<and> (c = st_count s \<longrightarrow> tp = st_top s)"
| "pc_current s (SPushCas n c tp) \<longleftrightarrow> c \<le> st_count s \<and> st_next s n = tp"
| "pc_current s (SPopTop c) \<longleftrightarrow> c \<le> st_count s"
| "pc_current s (SPopTest c tp) \<longleftrightarrow> c \<le> st_count s \<and> tp \<noteq> 0"
| "pc_current s (SPopCas c tp nxt) \<longleftrightarrow> c \<le> st_count s \<and> tp \<noteq> 0 \<and> (c = st_count s \<and> tp = st_top s \<longrightarrow> nxt = st_next s tp)"
| "pc_current s _ \<longleftrightarrow> True"

definition stack_holds :: "stack_sys \<Rightarrow> node_ptr list \<Rightarrow> bool" where
  "stack_holds s xs \<longleftrightarrow>
     replay [] (st_hist s) = Some xs \<and> chain (st_next s) (st_top s) xs \<and> distinct xs \<and>
     (\<forall>t n. pushes (st_pc s t) n \<longrightarrow> n \<noteq> 0 \<and> n \<notin> set xs)"

definition stack_inv :: "nat \<Rightarrow> stack_sys \<Rightarrow> bool" where
  "stack_inv nt s \<longleftrightarrow>
     (\<exists>xs. stack_holds s xs) \<and>
     (\<forall>t u n. pushes (st_pc s t) n \<longrightarrow> pushes (st_pc s u) n \<longrightarrow> t = u) \<and>
     (\<forall>t. pc_current s (st_pc s t)) \<and> (\<forall>t \<ge> nt. st_pc s t = SIdle)"

lemma replay_snoc: "replay xs (h @ [op]) = Option.bind (replay xs h) (\<lambda>ys. replay ys [op])"
  by (induction xs h rule: replay.induct) (auto split: list.splits)

lemma chain_top: "chain nxt p xs \<Longrightarrow> p = 0 \<longleftrightarrow> xs = []"
  by (cases xs) auto

text \<open>A step that changes neither the stack nor what the other threads rely on.\<close>

lemma inv_quiet:
  assumes inv: "stack_inv nt s" and t: "t < nt" and cur: "pc_current s p" and push: "\<And>n. pushes p n \<Longrightarrow> pushes (st_pc s t) n"
  shows "stack_inv nt (stgoto s t p)"
proof -
  have "pc_current (stgoto s t p) q = pc_current s q" for q by (cases q) (auto simp: stgoto_def)
  then show ?thesis using inv t cur push unfolding stack_inv_def stack_holds_def
    by (auto simp: stgoto_def split: if_splits) blast+
qed

lemma inv_empty:
  assumes inv: "stack_inv nt s" and t: "t < nt" and e: "st_top s = 0"
  shows "stack_inv nt (stgoto (s\<lparr>st_hist := st_hist s @ [WasEmpty]\<rparr>) t SIdle)" (is "stack_inv nt ?s'")
proof -
  have cur: "pc_current ?s' q = pc_current s q" for q by (cases q) (auto simp: stgoto_def)
  obtain xs where xs: "stack_holds s xs" using inv by (auto simp: stack_inv_def)
  then have "xs = []" using e by (auto simp: stack_holds_def dest: chain_top)
  then have "stack_holds ?s' []" using xs by (auto simp: stack_holds_def stgoto_def replay_snoc)
  then show ?thesis using inv t unfolding stack_inv_def cur by (auto simp: stgoto_def)
qed

lemma inv_pop_loop:
  assumes "stack_inv nt s" "t < nt" "tp = st_top s" "c \<le> st_count s"
  shows "stack_inv nt (pop_loop t c tp s)"
  unfolding pop_loop_def using inv_empty [OF assms(1,2)] inv_quiet [OF assms(1,2), of "SPopTest c tp"] assms(3,4) by auto

lemma count_succ:
  fixes c d :: u64
  assumes "c \<noteq> - 1" "d \<le> c"
  shows "d \<le> c + 1 \<and> d \<noteq> c + 1"
proof -
  have "unat (c + 1) = Suc (unat c)" using assms(1) by (metis unatSuc add.commute add.right_inverse add_eq_0_iff2)
  then show ?thesis using assms(2) by (auto simp: word_le_nat_alt)
qed

text \<open>A compare-and-swap that succeeds moves the count on, so that nothing that was read before it will be believed.\<close>

lemma inv_swap:
  assumes inv: "stack_inv nt s" and t: "t < nt" and nw: "st_count s \<noteq> - 1"
    and holds: "stack_holds (stgoto (s\<lparr>st_top := tp, st_count := st_count s + 1, st_hist := h\<rparr>) t SIdle) xs"
  shows "stack_inv nt (stgoto (s\<lparr>st_top := tp, st_count := st_count s + 1, st_hist := h\<rparr>) t SIdle)" (is "stack_inv nt ?s'")
proof -
  have "pc_current ?s' q" if "pc_current s q" for q
    using that count_succ [OF nw] by (cases q) (auto simp: stgoto_def)
  then show ?thesis using inv t holds unfolding stack_inv_def by (auto simp: stgoto_def)
qed

lemma inv_push_step:
  assumes inv: "stack_inv nt s" and t: "t < nt" and nw: "st_count s \<noteq> - 1" and st: "fev_simple_mpmc_stack_push_step t s = Some s'"
  shows "stack_inv nt s'"
proof (cases "st_pc s t")
  case (SPushCount n)
  then show ?thesis using st inv_quiet [OF inv t, of "SPushTop n (st_count s)"] by (simp add: fev_simple_mpmc_stack_push_step_def)
next
  case (SPushTop n c)
  then have "pc_current s (SPushTop n c)" using inv by (metis stack_inv_def)
  then show ?thesis using SPushTop st inv_quiet [OF inv t, of "SPushStore n c (st_top s)"] by (simp add: fev_simple_mpmc_stack_push_step_def)
next
  case (SPushStore n c tp)
  have cur: "pc_current s (SPushStore n c tp)" using inv SPushStore by (metis stack_inv_def)
  let ?s1 = "s\<lparr>st_next := (st_next s)(n := tp)\<rparr>"
  obtain xs where xs: "stack_holds s xs" using inv by (auto simp: stack_inv_def)
  have n: "pushes (st_pc s t) n" "n \<noteq> 0" "n \<notin> set xs"
    using xs SPushStore unfolding stack_holds_def by (metis pushes.simps(3))+
  have top: "st_top s \<noteq> n" using xs n(2,3) by (cases xs) (auto simp: stack_holds_def)
  have "pc_current ?s1 (st_pc s u)" for u
  proof (cases "u = t")
    case True
    then show ?thesis using cur SPushStore by simp
  next
    case False
    then have "\<not> pushes (st_pc s u) n" using inv n(1) unfolding stack_inv_def by blast
    moreover have "pc_current s (st_pc s u)" using inv by (simp add: stack_inv_def)
    ultimately show ?thesis using top by (cases "st_pc s u") auto
  qed
  moreover have "stack_holds ?s1 xs" using xs n(3) by (simp add: stack_holds_def chain_upd)
  ultimately have "stack_inv nt ?s1" using inv unfolding stack_inv_def by auto
  then have "stack_inv nt (stgoto ?s1 t (SPushCas n c tp))"
    by (rule inv_quiet [OF _ t]) (use cur SPushStore in auto)
  then show ?thesis using SPushStore st by (simp add: fev_simple_mpmc_stack_push_step_def)
next
  case (SPushCas n c tp)
  have cur: "pc_current s (SPushCas n c tp)" using inv SPushCas by (metis stack_inv_def)
  obtain xs where xs: "stack_holds s xs" using inv by (auto simp: stack_inv_def)
  have p: "pushes (st_pc s t) n" using SPushCas by simp
  then have n: "n \<noteq> 0" "n \<notin> set xs" using xs unfolding stack_holds_def by blast+
  have only: "pushes (st_pc s u) n \<Longrightarrow> u = t" for u using p inv unfolding stack_inv_def by blast
  show ?thesis
  proof (cases "st_top s = tp \<and> st_count s = c")
    case True
    have "stack_holds (stgoto (s\<lparr>st_top := n, st_count := st_count s + 1, st_hist := st_hist s @ [Pushed n]\<rparr>) t SIdle) (n # xs)"
      using xs SPushCas cur True n only unfolding stack_holds_def by (auto simp: stgoto_def replay_snoc split: if_splits)
    from inv_swap [OF inv t nw this] show ?thesis using True SPushCas st by (simp add: fev_simple_mpmc_stack_push_step_def)
  next
    case False
    then show ?thesis using SPushCas st inv_quiet [OF inv t, of "SPushStore n (st_count s) (st_top s)"]
      by (auto simp: fev_simple_mpmc_stack_push_step_def split: if_splits)
  qed
qed (use st in \<open>simp_all add: fev_simple_mpmc_stack_push_step_def\<close>)

lemma inv_pop_step:
  assumes inv: "stack_inv nt s" and t: "t < nt" and nw: "st_count s \<noteq> - 1" and st: "fev_simple_mpmc_stack_pop_step t s = Some s'"
  shows "stack_inv nt s'"
proof (cases "st_pc s t")
  case SPopCount
  then show ?thesis using st inv_quiet [OF inv t, of "SPopTop (st_count s)"] by (simp add: fev_simple_mpmc_stack_pop_step_def)
next
  case (SPopTop c)
  have "pc_current s (SPopTop c)" using inv SPopTop by (metis stack_inv_def)
  then show ?thesis using SPopTop st inv_pop_loop [OF inv t refl, of c] by (simp add: fev_simple_mpmc_stack_pop_step_def)
next
  case (SPopTest c tp)
  have "pc_current s (SPopTest c tp)" using inv SPopTest by (metis stack_inv_def)
  then show ?thesis using SPopTest st inv_quiet [OF inv t, of "SPopCas c tp (st_next s tp)"] by (simp add: fev_simple_mpmc_stack_pop_step_def)
next
  case (SPopCas c tp nxt)
  have cur: "pc_current s (SPopCas c tp nxt)" using inv SPopCas by (metis stack_inv_def)
  obtain xs where xs: "stack_holds s xs" using inv by (auto simp: stack_inv_def)
  show ?thesis
  proof (cases "st_top s = tp \<and> st_count s = c")
    case True
    then obtain ys where ys: "xs = tp # ys" using xs cur by (cases xs) (auto simp: stack_holds_def)
    have "stack_holds (stgoto (s\<lparr>st_top := nxt, st_count := st_count s + 1, st_hist := st_hist s @ [Popped tp]\<rparr>) t SIdle) ys"
      using xs SPopCas cur True ys unfolding stack_holds_def by (auto simp: stgoto_def replay_snoc split: if_splits)
    from inv_swap [OF inv t nw this] show ?thesis using True SPopCas st by (simp add: fev_simple_mpmc_stack_pop_step_def)
  next
    case False
    then show ?thesis using SPopCas st inv_pop_loop [OF inv t] by (auto simp: fev_simple_mpmc_stack_pop_step_def)
  qed
qed (use st in \<open>simp_all add: fev_simple_mpmc_stack_pop_step_def\<close>)

lemma inv_start:
  assumes inv: "stack_inv nt s"
  shows "stack_step nt (StartPush t n) s = Some s' \<Longrightarrow> stack_inv nt s'"
    and "stack_step nt (StartPop t) s = Some s' \<Longrightarrow> stack_inv nt s'"
proof -
  assume st: "stack_step nt (StartPush t n) s = Some s'"
  then have t: "t < nt" "st_pc s t = SIdle" "n \<noteq> 0" "list_all (\<lambda>u. \<not> pushes (st_pc s u) n) [0..<nt]"
    and s': "s' = stgoto s t (SPushCount n)" and out: "\<And>xs. replay [] (st_hist s) = Some xs \<Longrightarrow> n \<notin> set xs"
    by (auto split: if_splits option.splits)
  have np: "\<not> pushes (st_pc s u) n" for u
    using inv t(4) by (cases "u < nt") (auto simp: list_all_iff stack_inv_def)
  have cur: "pc_current s' q = pc_current s q" for q by (cases q) (auto simp: s' stgoto_def)
  obtain xs where xs: "stack_holds s xs" using inv by (auto simp: stack_inv_def)
  then have "stack_holds s' xs" using t(3) out by (auto simp: stack_holds_def s' stgoto_def)
  then show "stack_inv nt s'" using inv np t(1) unfolding stack_inv_def cur by (auto simp: s' stgoto_def)
next
  assume "stack_step nt (StartPop t) s = Some s'"
  then show "stack_inv nt s'" using inv_quiet [OF inv, of t SPopCount] by (auto split: if_splits)
qed

lemma inv_stack_step: "stack_inv nt s \<Longrightarrow> stack_step nt ev s = Some s' \<Longrightarrow> stack_inv nt s'"
  by (cases ev) (auto intro: inv_start inv_push_step inv_pop_step split: if_splits option.splits)

lemma inv_stack_init: "stack_inv nt (fev_simple_mpmc_stack_init nxt)"
  by (simp add: stack_inv_def stack_holds_def fev_simple_mpmc_stack_init_def)

interpretation sstack: step_invariant "stack_step nt" "\<lambda>s. \<exists>nxt. s = fev_simple_mpmc_stack_init nxt" "stack_inv nt" for nt
  by unfold_locales (auto simp: inv_stack_init intro: inv_stack_step)

section \<open>The property\<close>

text \<open>
  C25. In every interleaving of any number of threads that push and pop, nodes being used again included, the operations
  take effect one after the other as those of a list: the linked nodes are at any time the list that this order of
  operations gives, every pop returned the node that was then first, and a pop found nothing only when the list was
  empty. So no node is handed out twice, although the links that a pop has read may be stale.
\<close>

theorem fev_simple_mpmc_stack_linearizable:
  assumes "run (stack_step nt) (fev_simple_mpmc_stack_init nxt) sched = Some s"
  shows "\<exists>xs. replay [] (st_hist s) = Some xs \<and> chain (st_next s) (st_top s) xs \<and> distinct xs"
proof -
  have "stack_inv nt s" using sstack.inv_run_init assms by blast
  then show ?thesis by (auto simp: stack_inv_def stack_holds_def)
qed

text \<open>
  Two nodes are pushed; thread 0 begins a pop and reads the link of the first; thread 1 takes both nodes and pushes the first
  again; thread 0, which sees the same top, notices it by the count and tries again.
\<close>

definition aba_run :: "stack_event list" where
  "aba_run =
     StartPush 1 8 # replicate 4 (StackStep 1) @ StartPush 1 16 # replicate 4 (StackStep 1) @
     StartPop 0 # replicate 3 (StackStep 0) @
     StartPop 1 # replicate 4 (StackStep 1) @ StartPop 1 # replicate 4 (StackStep 1) @
     StartPush 1 16 # replicate 4 (StackStep 1) @ replicate 3 (StackStep 0)"

theorem fev_simple_mpmc_stack_linearizable_witness:
  "\<exists>s. run (stack_step 2) (fev_simple_mpmc_stack_init (\<lambda>_. 0)) aba_run = Some s \<and>
     (st_hist s, st_top s, st_pc s 0) = ([Pushed 8, Pushed 16, Popped 16, Popped 8, Pushed 16, Popped 16], 0, SIdle) \<and>
     (\<exists>xs. replay [] (st_hist s) = Some xs \<and> chain (st_next s) (st_top s) xs \<and> distinct xs)"
proof -
  have "map_option (\<lambda>s. (st_hist s, st_top s, st_pc s 0))
     (run (stack_step 2) (fev_simple_mpmc_stack_init (\<lambda>_. 0)) aba_run) = Some ([Pushed 8, Pushed 16, Popped 16, Popped 8, Pushed 16, Popped 16], 0, SIdle)" by code_simp
  then obtain s where r: "run (stack_step 2) (fev_simple_mpmc_stack_init (\<lambda>_. 0)) aba_run = Some s"
      "(st_hist s, st_top s, st_pc s 0) = ([Pushed 8, Pushed 16, Popped 16, Popped 8, Pushed 16, Popped 16], 0, SIdle)"
    by (rule observeE)
  then show ?thesis using fev_simple_mpmc_stack_linearizable [OF r(1)] by blast
qed

end
