(* ===== verification/Simple_Pool.thy ===== *)
theory Simple_Pool
  imports Simple_Stack Sched_Common
begin

text \<open>
  The pool of queue nodes (\<open>fev_simple_mpmc_pool.h\<close>): every worker has a linked list of its own with a bounded length,
  behind them is one shared stack. The shared stack is the list that theory \<open>Simple_Stack\<close> shows it to be. A node, the
  element of the pool around it and the links in the element have one address.
\<close>

section \<open>Operations\<close>

record fev_simple_mpmc_pool_local =
  lo_top :: node_ptr
  lo_max_size :: nat
  lo_cur_size :: nat

text \<open>
  \<open>po_heap\<close> are the elements that the allocator has handed out; \<open>po_used\<close> records the nodes that the pool has handed out and
  not got back.
\<close>

record pool_sys =
  po_workers :: nat
  po_global :: "node_ptr list"
  po_local_next :: "node_ptr \<Rightarrow> node_ptr"
  po_local :: "nat \<Rightarrow> fev_simple_mpmc_pool_local"
  po_heap :: "node_ptr list"
  po_used :: "node_ptr list"

text \<open>\<open>fresh\<close> is what \<open>fev_aligned_alloc\<close> returns, \<open>0\<close> when there is no memory.\<close>

definition fev_simple_mpmc_pool_alloc_global :: "node_ptr \<Rightarrow> pool_sys \<Rightarrow> node_ptr \<times> pool_sys" where
  "fev_simple_mpmc_pool_alloc_global fresh p =
     (case po_global p of
        n # free \<Rightarrow> (n, p\<lparr>po_global := free\<rparr>)
      | [] \<Rightarrow> if fresh = 0 then (0, p) else (fresh, p\<lparr>po_heap := fresh # po_heap p\<rparr>))"

definition fev_simple_mpmc_pool_free_global :: "node_ptr \<Rightarrow> pool_sys \<Rightarrow> pool_sys" where
  "fev_simple_mpmc_pool_free_global n p = p\<lparr>po_global := n # po_global p\<rparr>"

definition fev_simple_mpmc_pool_alloc_local :: "nat \<Rightarrow> node_ptr \<Rightarrow> pool_sys \<Rightarrow> (node_ptr \<times> pool_sys) option" where
  "fev_simple_mpmc_pool_alloc_local w fresh p =
     (let l = po_local p w
      in do { fev_assert (lo_cur_size l \<le> lo_max_size l);
              if lo_top l = 0
              then do { fev_assert (lo_cur_size l = 0); Some (fev_simple_mpmc_pool_alloc_global fresh p) }
              else Some (lo_top l, p\<lparr>po_local := (po_local p)(w := l\<lparr>lo_top := po_local_next p (lo_top l),
                                                                 lo_cur_size := lo_cur_size l - 1\<rparr>)\<rparr>) })"

definition fev_simple_mpmc_pool_free_local :: "nat \<Rightarrow> node_ptr \<Rightarrow> pool_sys \<Rightarrow> pool_sys option" where
  "fev_simple_mpmc_pool_free_local w n p =
     (let l = po_local p w
      in do { fev_assert (lo_cur_size l \<le> lo_max_size l);
              Some (if lo_cur_size l = lo_max_size l then fev_simple_mpmc_pool_free_global n p
                    else p\<lparr>po_local_next := (po_local_next p)(n := lo_top l),
                           po_local := (po_local p)(w := l\<lparr>lo_top := n, lo_cur_size := lo_cur_size l + 1\<rparr>)\<rparr>) })"

definition fev_simple_mpmc_pool_init_local :: "nat \<Rightarrow> fev_simple_mpmc_pool_local" where
  "fev_simple_mpmc_pool_init_local max_size = \<lparr>lo_top = 0, lo_max_size = max_size, lo_cur_size = 0\<rparr>"

definition fev_simple_mpmc_pool_init :: "nat \<Rightarrow> nat \<Rightarrow> pool_sys" where
  "fev_simple_mpmc_pool_init nw max_size =
     \<lparr>po_workers = nw, po_global = [], po_local_next = (\<lambda>n. 0), po_local = (\<lambda>w. fev_simple_mpmc_pool_init_local max_size),
      po_heap = [], po_used = []\<rparr>"

text \<open>The loop over a local list; a cyclic list would keep it going for ever, which is the result \<open>None\<close>.\<close>

partial_function (option) fini_local_loop :: "node_ptr \<Rightarrow> pool_sys \<Rightarrow> pool_sys option" where
  [code]: "fini_local_loop tp p =
     (if tp = 0 then Some p else fini_local_loop (po_local_next p tp) (fev_simple_mpmc_pool_free_global tp p))"

definition fev_simple_mpmc_pool_fini_local :: "nat \<Rightarrow> pool_sys \<Rightarrow> pool_sys option" where
  "fev_simple_mpmc_pool_fini_local w p = fini_local_loop (lo_top (po_local p w)) p"

text \<open>Freeing an element that the allocator has not handed out is a fault.\<close>

fun fini_global_loop :: "node_ptr list \<Rightarrow> node_ptr list \<Rightarrow> node_ptr list option" where
  "fini_global_loop [] heap = Some heap"
| "fini_global_loop (n # free) heap = (if n \<in> set heap then fini_global_loop free (remove1 n heap) else None)"

definition fev_simple_mpmc_pool_fini_global :: "pool_sys \<Rightarrow> pool_sys option" where
  "fev_simple_mpmc_pool_fini_global p =
     do { heap \<leftarrow> fini_global_loop (po_global p) (po_heap p); Some (p\<lparr>po_global := [], po_heap := heap\<rparr>) }"

fun fini_locals :: "nat \<Rightarrow> pool_sys \<Rightarrow> pool_sys option" where
  "fini_locals 0 p = Some p"
| "fini_locals (Suc w) p = do { p \<leftarrow> fini_locals w p; fev_simple_mpmc_pool_fini_local w p }"

text \<open>Requests of the users of the pool: they give back only what they got.\<close>

datatype pool_event = AllocGlobal node_ptr | FreeGlobal node_ptr | AllocLocal nat node_ptr | FreeLocal nat node_ptr

definition hand_out :: "node_ptr \<times> pool_sys \<Rightarrow> pool_sys" where
  "hand_out r = (let (n, p) = r in if n = 0 then p else p\<lparr>po_used := n # po_used p\<rparr>)"

definition take_back :: "node_ptr \<Rightarrow> pool_sys \<Rightarrow> pool_sys" where
  "take_back n p = p\<lparr>po_used := remove1 n (po_used p)\<rparr>"

text \<open>The result: \<open>None\<close> when the request is not allowed, \<open>Some None\<close> when an assertion fails.\<close>

fun pool_request :: "pool_event \<Rightarrow> pool_sys \<Rightarrow> pool_sys option option" where
  "pool_request (AllocGlobal fresh) p =
     (if fresh \<in> set (po_heap p) then None else Some (Some (hand_out (fev_simple_mpmc_pool_alloc_global fresh p))))"
| "pool_request (FreeGlobal n) p =
     (if n \<in> set (po_used p) then Some (Some (fev_simple_mpmc_pool_free_global n (take_back n p))) else None)"
| "pool_request (AllocLocal w fresh) p =
     (if w < po_workers p \<and> fresh \<notin> set (po_heap p) then Some (map_option hand_out (fev_simple_mpmc_pool_alloc_local w fresh p)) else None)"
| "pool_request (FreeLocal w n) p =
     (if w < po_workers p \<and> n \<in> set (po_used p) then Some (fev_simple_mpmc_pool_free_local w n (take_back n p)) else None)"

definition pool_step :: "pool_event \<Rightarrow> pool_sys option \<Rightarrow> pool_sys option option" where
  "pool_step ev p = (case p of None \<Rightarrow> None | Some p \<Rightarrow> pool_request ev p)"

section \<open>The invariant\<close>

text \<open>\<open>L w\<close> is the list of worker \<open>w\<close>. Every element is in exactly one place.\<close>

definition pool_lists :: "pool_sys \<Rightarrow> (nat \<Rightarrow> node_ptr list) \<Rightarrow> bool" where
  "pool_lists p L \<longleftrightarrow>
     mset (po_heap p) = mset (po_used p) + mset (po_global p) + wsum (po_workers p) mset L \<and>
     distinct (po_heap p) \<and> 0 \<notin> set (po_heap p) \<and>
     (\<forall>w < po_workers p. chain (po_local_next p) (lo_top (po_local p w)) (L w) \<and> lo_cur_size (po_local p w) = length (L w) \<and>
                         length (L w) \<le> lo_max_size (po_local p w))"

definition pool_inv :: "pool_sys \<Rightarrow> bool" where
  "pool_inv p \<longleftrightarrow> (\<exists>L. pool_lists p L)"

lemma local_member:
  assumes "w < n" "x \<in> set (L w)"
  shows "x \<in># wsum n mset L"
  using assms wsum_split [OF assms(1), of mset L] by simp

lemma in_pool:
  assumes "pool_lists p L"
  shows "x \<in> set (po_heap p) \<longleftrightarrow> x \<in># mset (po_used p) + mset (po_global p) + wsum (po_workers p) mset L"
  using assms unfolding pool_lists_def by (metis set_mset_mset)

text \<open>A node in use is in no list.\<close>

lemma used_not_local:
  assumes "pool_lists p L" "n \<in> set (po_used p)" "w < po_workers p"
  shows "n \<notin> set (L w)"
proof
  assume "n \<in> set (L w)"
  then have "count (wsum (po_workers p) mset L) n > 0" using local_member assms(3) by force
  moreover have "count (mset (po_used p)) n > 0" using assms(2) by force
  moreover have "distinct (po_heap p)" using assms(1) by (simp add: pool_lists_def)
  then have "count (mset (po_heap p)) n \<le> 1" by (simp add: distinct_count_atmost_1)
  moreover have "count (mset (po_heap p)) n = count (mset (po_used p)) n + count (mset (po_global p)) n + count (wsum (po_workers p) mset L) n"
    using assms(1) by (simp add: pool_lists_def)
  ultimately show False by linarith
qed

lemma inv_alloc_global:
  assumes p: "pool_lists p L" and fresh: "fresh \<notin> set (po_heap p)"
  shows "pool_lists (hand_out (fev_simple_mpmc_pool_alloc_global fresh p)) L"
proof (cases "po_global p")
  case Nil
  then show ?thesis using p fresh unfolding pool_lists_def
    by (auto simp: fev_simple_mpmc_pool_alloc_global_def hand_out_def)
next
  case (Cons n free)
  have "n \<in> set (po_heap p)" using in_pool [OF p] Cons by simp
  then have "n \<noteq> 0" using p unfolding pool_lists_def by metis
  then show ?thesis using p Cons unfolding pool_lists_def
    by (auto simp: fev_simple_mpmc_pool_alloc_global_def hand_out_def)
qed

lemma inv_free_global:
  assumes "pool_lists p L" "n \<in> set (po_used p)"
  shows "pool_lists (fev_simple_mpmc_pool_free_global n (take_back n p)) L"
  using assms unfolding pool_lists_def by (auto simp: fev_simple_mpmc_pool_free_global_def take_back_def)

lemma inv_alloc_local:
  assumes p: "pool_lists p L" and fresh: "fresh \<notin> set (po_heap p)" and w: "w < po_workers p"
  shows "\<exists>r. fev_simple_mpmc_pool_alloc_local w fresh p = Some r \<and> pool_inv (hand_out r)"
proof -
  have l: "chain (po_local_next p) (lo_top (po_local p w)) (L w)" "lo_cur_size (po_local p w) = length (L w)"
    "length (L w) \<le> lo_max_size (po_local p w)" using p w by (simp_all add: pool_lists_def)
  show ?thesis
  proof (cases "L w")
    case Nil
    then show ?thesis using l inv_alloc_global [OF p fresh]
      by (auto simp: fev_simple_mpmc_pool_alloc_local_def pool_inv_def)
  next
    case (Cons n ns)
    let ?p' = "p\<lparr>po_local := (po_local p)(w := (po_local p w)\<lparr>lo_top := po_local_next p n, lo_cur_size := lo_cur_size (po_local p w) - 1\<rparr>),
               po_used := n # po_used p\<rparr>"
    have "wsum (po_workers p) mset L = add_mset n (wsum (po_workers p) mset (L(w := ns)))"
      using wsum_split [OF w, of mset L] wsum_upd [OF w, of mset L ns] Cons by simp
    then have "pool_lists ?p' (L(w := ns))" using p l Cons unfolding pool_lists_def by auto
    then show ?thesis using l Cons by (auto simp: fev_simple_mpmc_pool_alloc_local_def hand_out_def pool_inv_def Let_def)
  qed
qed

lemma inv_free_local:
  assumes p: "pool_lists p L" and n: "n \<in> set (po_used p)" and w: "w < po_workers p"
  shows "\<exists>p'. fev_simple_mpmc_pool_free_local w n (take_back n p) = Some p' \<and> pool_inv p'"
proof -
  have l: "chain (po_local_next p) (lo_top (po_local p w)) (L w)" "lo_cur_size (po_local p w) = length (L w)"
    "length (L w) \<le> lo_max_size (po_local p w)" using p w by (simp_all add: pool_lists_def)
  show ?thesis
  proof (cases "lo_cur_size (po_local p w) = lo_max_size (po_local p w)")
    case True
    then show ?thesis using inv_free_global [OF p n] by (auto simp: fev_simple_mpmc_pool_free_local_def take_back_def pool_inv_def)
  next
    case False
    let ?p' = "(take_back n p)\<lparr>po_local_next := (po_local_next p)(n := lo_top (po_local p w)),
        po_local := (po_local p)(w := (po_local p w)\<lparr>lo_top := n, lo_cur_size := lo_cur_size (po_local p w) + 1\<rparr>)\<rparr>"
    have "wsum (po_workers p) mset (L(w := n # L w)) = add_mset n (wsum (po_workers p) mset L)"
      using wsum_split [OF w, of mset L] wsum_upd [OF w, of mset L "n # L w"] by simp
    moreover have "n \<in> set (po_heap p)" using in_pool [OF p, of n] n by simp
    then have "n \<noteq> 0" using p unfolding pool_lists_def by metis
    ultimately have "pool_lists ?p' (L(w := n # L w))"
      using p l n False used_not_local [OF p n] unfolding pool_lists_def by (auto simp: take_back_def chain_upd)
    then show ?thesis using l False
      by (auto simp: fev_simple_mpmc_pool_free_local_def take_back_def pool_inv_def Let_def)
  qed
qed

lemma inv_pool_request: "pool_inv p \<Longrightarrow> pool_request ev p = Some r \<Longrightarrow> \<exists>p'. r = Some p' \<and> pool_inv p'"
proof -
  assume "pool_inv p" and st: "pool_request ev p = Some r"
  then obtain L where L: "pool_lists p L" by (auto simp: pool_inv_def)
  show ?thesis
  proof (cases ev)
    case (AllocGlobal fresh)
    then show ?thesis using st inv_alloc_global [OF L, of fresh] by (auto simp: pool_inv_def split: if_splits)
  next
    case (FreeGlobal n)
    then show ?thesis using st inv_free_global [OF L, of n] by (auto simp: pool_inv_def split: if_splits)
  next
    case (AllocLocal w fresh)
    then show ?thesis using st inv_alloc_local [OF L, of fresh w] by (auto split: if_splits)
  next
    case (FreeLocal w n)
    then show ?thesis using st inv_free_local [OF L, of n w] by (auto split: if_splits)
  qed
qed

definition pool_state_inv :: "pool_sys option \<Rightarrow> bool" where
  "pool_state_inv p \<longleftrightarrow> (case p of None \<Rightarrow> False | Some p \<Rightarrow> pool_inv p)"

lemma inv_pool_init: "pool_inv (fev_simple_mpmc_pool_init nw max_size)"
  unfolding pool_inv_def
  by (rule exI [of _ "\<lambda>w. []"]) (simp add: pool_lists_def fev_simple_mpmc_pool_init_def fev_simple_mpmc_pool_init_local_def wsum_def)

interpretation spool: step_invariant pool_step "\<lambda>p. \<exists>nw k. p = Some (fev_simple_mpmc_pool_init nw k)" pool_state_inv
  by unfold_locales (auto simp: pool_state_inv_def pool_step_def inv_pool_init dest: inv_pool_request split: option.splits)

section \<open>Tear-down\<close>

lemma fini_local_loop_chain:
  "chain (po_local_next p) tp xs \<Longrightarrow> fini_local_loop tp p = Some (p\<lparr>po_global := rev xs @ po_global p\<rparr>)"
proof (induction xs arbitrary: tp p)
  case Nil
  then show ?case by (subst fini_local_loop.simps) simp
next
  case (Cons x xs)
  then show ?case by (subst fini_local_loop.simps) (simp add: fev_simple_mpmc_pool_free_global_def)
qed

lemma fini_locals_lists:
  assumes "pool_lists p L" "k \<le> po_workers p"
  shows "fini_locals k p = Some (p\<lparr>po_global := rev (concat (map L [0..<k])) @ po_global p\<rparr>)"
  using assms(2)
proof (induction k)
  case (Suc k)
  have "chain (po_local_next p) (lo_top (po_local p k)) (L k)" using assms(1) Suc.prems by (simp add: pool_lists_def)
  then show ?case using Suc
    by (simp add: fev_simple_mpmc_pool_fini_local_def fini_local_loop_chain)
qed simp

lemma fini_global_loop_frees:
  "mset heap = mset free + mset R \<Longrightarrow> \<exists>heap'. fini_global_loop free heap = Some heap' \<and> mset heap' = mset R"
proof (induction free arbitrary: heap)
  case (Cons n free)
  then have "n \<in> set heap" by (metis mset.simps(2) set_mset_mset union_iff union_single_eq_member add_mset_add_single)
  moreover from this have "mset (remove1 n heap) = mset free + mset R" using Cons.prems by simp
  ultimately show ?case using Cons.IH by simp
qed simp

lemma wsum_concat: "wsum n mset L = mset (concat (map L [0..<n]))"
  by (induction n) (simp_all add: wsum_def add.commute)

section \<open>The property\<close>

text \<open>
  Whatever workers take from the pool and give back, from their own lists or the shared one, and whenever the
  allocator fails: no assertion fails, no node is handed out while it is in use, and nothing is lost; when the pool is
  torn down the loops end and every element has been given back to the allocator once, but those still in use.
\<close>

theorem fev_simple_mpmc_pool_conserves:
  assumes "run pool_step (Some (fev_simple_mpmc_pool_init nw max_size)) evs = Some p"
  shows "\<exists>q. p = Some q \<and> distinct (po_used q) \<and>
    (\<exists>q1 q2. fini_locals (po_workers q) q = Some q1 \<and> fev_simple_mpmc_pool_fini_global q1 = Some q2 \<and>
       mset (po_heap q2) = mset (po_used q))"
proof -
  have "pool_state_inv p" using spool.inv_run_init assms by blast
  then obtain q L where q: "p = Some q" "pool_lists q L" by (auto simp: pool_state_inv_def pool_inv_def split: option.splits)
  let ?g = "rev (concat (map L [0..<po_workers q])) @ po_global q"
  have heap: "mset (po_heap q) = mset ?g + mset (po_used q)" and d: "distinct (po_heap q)"
    using q(2) by (simp_all add: pool_lists_def wsum_concat ac_simps)
  obtain heap' where "fini_global_loop ?g (po_heap q) = Some heap'" "mset heap' = mset (po_used q)"
    using fini_global_loop_frees [OF heap] by blast
  then have "fev_simple_mpmc_pool_fini_global (q\<lparr>po_global := ?g\<rparr>) = Some (q\<lparr>po_global := [], po_heap := heap'\<rparr>)"
    by (simp add: fev_simple_mpmc_pool_fini_global_def)
  moreover have "distinct (po_used q)"
  proof -
    have "distinct (?g @ po_used q)" using d heap by (metis mset_append mset_eq_imp_distinct_iff)
    then show ?thesis by (simp only: distinct_append)
  qed
  ultimately show ?thesis using q(1) fini_locals_lists [OF q(2) order.refl] \<open>mset heap' = _\<close> by auto
qed

definition pool_run :: "pool_event list" where
  "pool_run = [AllocGlobal 8, AllocLocal 0 16, AllocLocal 1 24, FreeLocal 0 24, FreeLocal 0 16, AllocLocal 1 32, AllocLocal 1 40, FreeGlobal 8]"

theorem fev_simple_mpmc_pool_conserves_witness:
  "\<exists>q. run pool_step (Some (fev_simple_mpmc_pool_init 2 1)) pool_run = Some (Some q) \<and>
     (po_used q, po_global q, lo_top (po_local q 0), po_heap q) = ([40, 16], [8], 24, [40, 24, 16, 8]) \<and>
     distinct (po_used q) \<and>
     (\<exists>q1 q2. fini_locals (po_workers q) q = Some q1 \<and> fev_simple_mpmc_pool_fini_global q1 = Some q2 \<and>
        mset (po_heap q2) = mset (po_used q))"
proof -
  have "map_option (map_option (\<lambda>q. (po_used q, po_global q, lo_top (po_local q 0), po_heap q)))
     (run pool_step (Some (fev_simple_mpmc_pool_init 2 1)) pool_run) = Some (Some ([40, 16], [8], 24, [40, 24, 16, 8]))" by code_simp
  then obtain q where r: "run pool_step (Some (fev_simple_mpmc_pool_init 2 1)) pool_run = Some (Some q)"
      "(po_used q, po_global q, lo_top (po_local q 0), po_heap q) = ([40, 16], [8], 24, [40, 24, 16, 8])"
    unfolding map_option_eq_Some by blast
  then show ?thesis using fev_simple_mpmc_pool_conserves [OF r(1)] by blast
qed

end
