(* ===== verification/Simple_Queue.thy ===== *)
theory Simple_Queue
  imports Simple_Pool
begin

text \<open>
  The linked lock-free queue (\<open>fev_simple_mpmc_queue.h\<close>), after Michael and Scott, with any number of threads that push
  and pop. Head, tail and every link carry a count that a double-width compare-and-swap checks. A node that a pop has
  freed may be pushed again at once, while other threads still hold its address.
\<close>

section \<open>The system\<close>

text \<open>
  Where a node is, as history: in the queue, with a thread that pushes it or hanging behind such a node, or free.
\<close>

datatype place = OMain | OThread nat | OFree

datatype queue_pc =
    QIdle
  | QValue node_ptr nat \<comment> \<open>push of the value into the node: storing the value\<close>
  | QNext node_ptr
  | QCount node_ptr
  | QTailC node_ptr \<comment> \<open>at \<open>load_tail\<close>\<close>
  | QTailP node_ptr u64
  | QNextC node_ptr u64 node_ptr \<comment> \<open>at \<open>load_next\<close>, with \<open>tail_count\<close> and \<open>tail_ptr\<close>\<close>
  | QNextP node_ptr u64 node_ptr u64
  | QCheck node_ptr u64 node_ptr u64 node_ptr
  | QHelp node_ptr u64 node_ptr node_ptr
  | QLink node_ptr u64 node_ptr u64
  | QSwing node_ptr u64 node_ptr
  | RHeadC \<comment> \<open>pop, at \<open>load_head\<close>\<close>
  | RHeadP u64
  | RTailC u64 node_ptr \<comment> \<open>at \<open>load_tail\<close>, with \<open>head_count\<close> and \<open>head_ptr\<close>\<close>
  | RTailP u64 node_ptr u64
  | RNext u64 node_ptr u64 node_ptr
  | RHelp u64 node_ptr node_ptr
  | RValue u64 node_ptr node_ptr
  | RCas u64 node_ptr node_ptr nat

text \<open>
  The last six components are history: the place of each node, the number of its last push, the number of pushes, the
  values of all pushes and pops, and the number of pops that reported an empty queue.
\<close>

record queue_sys =
  ms_head :: node_ptr
  ms_hcount :: u64
  ms_tail :: node_ptr
  ms_tcount :: u64
  ms_value :: "node_ptr \<Rightarrow> nat"
  ms_next :: "node_ptr \<Rightarrow> node_ptr"
  ms_ncount :: "node_ptr \<Rightarrow> u64"
  ms_pc :: "nat \<Rightarrow> queue_pc"
  ms_own :: "node_ptr \<Rightarrow> place"
  ms_stamp :: "node_ptr \<Rightarrow> nat"
  ms_clock :: nat
  ms_pushed :: "nat list"
  ms_popped :: "nat list"
  ms_empties :: nat

definition qsgoto :: "queue_sys \<Rightarrow> nat \<Rightarrow> queue_pc \<Rightarrow> queue_sys" where
  "qsgoto s t p = s\<lparr>ms_pc := (ms_pc s)(t := p)\<rparr>"

definition fev_simple_mpmc_queue_init :: "node_ptr \<Rightarrow> (node_ptr \<Rightarrow> node_ptr) \<Rightarrow> (node_ptr \<Rightarrow> u64) \<Rightarrow> queue_sys" where
  "fev_simple_mpmc_queue_init init_node nxt cnt =
     \<lparr>ms_head = init_node, ms_hcount = 0, ms_tail = init_node, ms_tcount = 0, ms_value = (\<lambda>n. 0),
      ms_next = nxt(init_node := 0), ms_ncount = cnt(init_node := 0), ms_pc = (\<lambda>t. QIdle),
      ms_own = (\<lambda>n. if n = init_node then OMain else OFree), ms_stamp = (\<lambda>n. 0), ms_clock = 1, ms_pushed = [], ms_popped = [],
      ms_empties = 0\<rparr>"

definition fev_simple_mpmc_queue_push_step :: "nat \<Rightarrow> queue_sys \<Rightarrow> queue_sys option" where
  "fev_simple_mpmc_queue_push_step t s =
     (case ms_pc s t of
        QValue n v \<Rightarrow> Some (qsgoto (s\<lparr>ms_value := (ms_value s)(n := v)\<rparr>) t (QNext n))
      | QNext n \<Rightarrow> Some (qsgoto (s\<lparr>ms_next := (ms_next s)(n := 0)\<rparr>) t (QCount n))
      | QCount n \<Rightarrow> Some (qsgoto (s\<lparr>ms_ncount := (ms_ncount s)(n := 0)\<rparr>) t (QTailC n))
      | QTailC n \<Rightarrow> Some (qsgoto s t (QTailP n (ms_tcount s)))
      | QTailP n c \<Rightarrow> Some (qsgoto s t (QNextC n c (ms_tail s)))
      | QNextC n c r \<Rightarrow> Some (qsgoto s t (QNextP n c r (ms_ncount s r)))
      | QNextP n c r k \<Rightarrow> Some (qsgoto s t (QCheck n c r k (ms_next s r)))
      | QCheck n c r k x \<Rightarrow>
          Some (qsgoto s t (if ms_tcount s \<noteq> c then QTailC n else if x \<noteq> 0 then QHelp n c r x else QLink n c r k))
      | QHelp n c r x \<Rightarrow>
          Some (if ms_tail s = r \<and> ms_tcount s = c
                then qsgoto (s\<lparr>ms_tail := x, ms_tcount := c + 1\<rparr>) t (QNextC n c r)
                else qsgoto s t (QNextC n (ms_tcount s) (ms_tail s)))
      | QLink n c r k \<Rightarrow>
          Some (if ms_next s r = 0 \<and> ms_ncount s r = k
                then qsgoto (s\<lparr>ms_next := (ms_next s)(r := n), ms_ncount := (ms_ncount s)(r := k + 1),
                              ms_own := (\<lambda>x. if ms_own s x = OThread t then ms_own s r else ms_own s x)\<rparr>) t (QSwing n c r)
                else qsgoto s t (QTailC n))
      | QSwing n c r \<Rightarrow>
          Some (if ms_tail s = r \<and> ms_tcount s = c
                then qsgoto (s\<lparr>ms_tail := n, ms_tcount := c + 1\<rparr>) t QIdle
                else qsgoto s t QIdle)
      | _ \<Rightarrow> None)"

definition fev_simple_mpmc_queue_pop_step :: "nat \<Rightarrow> queue_sys \<Rightarrow> queue_sys option" where
  "fev_simple_mpmc_queue_pop_step t s =
     (case ms_pc s t of
        RHeadC \<Rightarrow> Some (qsgoto s t (RHeadP (ms_hcount s)))
      | RHeadP hc \<Rightarrow> Some (qsgoto s t (RTailC hc (ms_head s)))
      | RTailC hc h \<Rightarrow> Some (qsgoto s t (RTailP hc h (ms_tcount s)))
      | RTailP hc h tc \<Rightarrow> Some (qsgoto s t (RNext hc h tc (ms_tail s)))
      | RNext hc h tc r \<Rightarrow>
          (let x = ms_next s h
           in Some (if h = r
                    then if x = 0 then qsgoto (s\<lparr>ms_empties := ms_empties s + 1\<rparr>) t QIdle else qsgoto s t (RHelp tc r x)
                    else qsgoto s t (if x = 0 then RHeadC else RValue hc h x)))
      | RHelp tc r x \<Rightarrow>
          Some (if ms_tail s = r \<and> ms_tcount s = tc then qsgoto (s\<lparr>ms_tail := x, ms_tcount := tc + 1\<rparr>) t RHeadC
                else qsgoto s t RHeadC)
      | RValue hc h x \<Rightarrow> Some (qsgoto s t (RCas hc h x (ms_value s x)))
      | RCas hc h x v \<Rightarrow>
          Some (if ms_head s = h \<and> ms_hcount s = hc
                then qsgoto (s\<lparr>ms_head := x, ms_hcount := hc + 1, ms_popped := ms_popped s @ [v], ms_own := (ms_own s)(h := OFree)\<rparr>) t QIdle
                else qsgoto s t (RTailC (ms_hcount s) (ms_head s)))
      | _ \<Rightarrow> None)"

datatype queue_event = QPush nat node_ptr nat | QPop nat | QStep nat

text \<open>
  There are \<open>nt\<close> threads; a thread may push any free node. Steps are taken only while the 64-bit counts of head and tail have not
  gone round.
\<close>

fun queue_step :: "nat \<Rightarrow> queue_event \<Rightarrow> queue_sys \<Rightarrow> queue_sys option" where
  "queue_step nt (QPush t n v) s =
     (if t < nt \<and> ms_pc s t = QIdle \<and> n \<noteq> 0 \<and> ms_own s n = OFree
      then Some (qsgoto (s\<lparr>ms_own := (ms_own s)(n := OThread t), ms_stamp := (ms_stamp s)(n := ms_clock s), ms_clock := ms_clock s + 1,
                          ms_pushed := ms_pushed s @ [v]\<rparr>) t (QValue n v))
      else None)"
| "queue_step nt (QPop t) s = (if t < nt \<and> ms_pc s t = QIdle then Some (qsgoto s t RHeadC) else None)"
| "queue_step nt (QStep t) s =
     (if t < nt \<and> ms_tcount s \<noteq> - 1 \<and> ms_hcount s \<noteq> - 1
      then case fev_simple_mpmc_queue_push_step t s of None \<Rightarrow> fev_simple_mpmc_queue_pop_step t s | Some s' \<Rightarrow> Some s'
      else None)"

section \<open>The invariant\<close>

text \<open>The node that a thread is pushing and has not linked yet; whether it is not prepared yet; the node it takes for the tail.\<close>

fun pushing :: "queue_pc \<Rightarrow> node_ptr option" where
  "pushing (QValue n v) = Some n"
| "pushing (QNext n) = Some n"
| "pushing (QCount n) = Some n"
| "pushing (QTailC n) = Some n"
| "pushing (QTailP n c) = Some n"
| "pushing (QNextC n c r) = Some n"
| "pushing (QNextP n c r k) = Some n"
| "pushing (QCheck n c r k x) = Some n"
| "pushing (QHelp n c r x) = Some n"
| "pushing (QLink n c r k) = Some n"
| "pushing _ = None"

fun closed_pc :: "queue_pc \<Rightarrow> bool" where
  "closed_pc (QValue n v) \<longleftrightarrow> True"
| "closed_pc (QNext n) \<longleftrightarrow> True"
| "closed_pc (QCount n) \<longleftrightarrow> True"
| "closed_pc _ \<longleftrightarrow> False"

fun tail_ref :: "queue_pc \<Rightarrow> node_ptr option" where
  "tail_ref (QNextC n c r) = Some r"
| "tail_ref (QNextP n c r k) = Some r"
| "tail_ref (QCheck n c r k x) = Some r"
| "tail_ref (QHelp n c r x) = Some r"
| "tail_ref (QLink n c r k) = Some r"
| "tail_ref _ = None"

text \<open>
  What a thread relies on. A count that it has read is not ahead of the current one; while it is the current one, what was
  read after it still holds.
\<close>

fun queue_current :: "queue_sys \<Rightarrow> queue_pc \<Rightarrow> bool" where
  "queue_current s (QTailP n c) \<longleftrightarrow> c \<le> ms_tcount s"
| "queue_current s (QCount n) \<longleftrightarrow> ms_next s n = 0"
| "queue_current s (QNextC n c r) \<longleftrightarrow> c \<le> ms_tcount s \<and> (c = ms_tcount s \<longrightarrow> r = ms_tail s)"
| "queue_current s (QNextP n c r k) \<longleftrightarrow>
     c \<le> ms_tcount s \<and> (c = ms_tcount s \<longrightarrow> r = ms_tail s \<and> (ms_next s r = 0 \<longrightarrow> k = 0))"
| "queue_current s (QCheck n c r k x) \<longleftrightarrow>
     c \<le> ms_tcount s \<and> (c = ms_tcount s \<longrightarrow> r = ms_tail s \<and> (if x = 0 then k = 0 else x = ms_next s r))"
| "queue_current s (QHelp n c r x) \<longleftrightarrow> c \<le> ms_tcount s \<and> x \<noteq> 0 \<and> (c = ms_tcount s \<longrightarrow> r = ms_tail s \<and> x = ms_next s r)"
| "queue_current s (QLink n c r k) \<longleftrightarrow> c \<le> ms_tcount s \<and> k = 0 \<and> (c = ms_tcount s \<longrightarrow> r = ms_tail s)"
| "queue_current s (QSwing n c r) \<longleftrightarrow> c \<le> ms_tcount s \<and> n \<noteq> 0 \<and> (c = ms_tcount s \<longrightarrow> r = ms_tail s \<and> n = ms_next s r)"
| "queue_current s (RHeadP hc) \<longleftrightarrow> hc \<le> ms_hcount s"
| "queue_current s (RTailC hc h) \<longleftrightarrow> hc \<le> ms_hcount s \<and> (hc = ms_hcount s \<longrightarrow> h = ms_head s)"
| "queue_current s (RTailP hc h tc) \<longleftrightarrow> hc \<le> ms_hcount s \<and> (hc = ms_hcount s \<longrightarrow> h = ms_head s) \<and> tc \<le> ms_tcount s"
| "queue_current s (RNext hc h tc r) \<longleftrightarrow>
     hc \<le> ms_hcount s \<and> (hc = ms_hcount s \<longrightarrow> h = ms_head s \<and> (h \<noteq> r \<longrightarrow> ms_tail s \<noteq> ms_head s)) \<and>
     tc \<le> ms_tcount s \<and> (tc = ms_tcount s \<longrightarrow> r = ms_tail s)"
| "queue_current s (RHelp tc r x) \<longleftrightarrow> tc \<le> ms_tcount s \<and> x \<noteq> 0 \<and> (tc = ms_tcount s \<longrightarrow> r = ms_tail s \<and> x = ms_next s r)"
| "queue_current s (RValue hc h x) \<longleftrightarrow>
     hc \<le> ms_hcount s \<and> x \<noteq> 0 \<and> (hc = ms_hcount s \<longrightarrow> h = ms_head s \<and> x = ms_next s h \<and> ms_tail s \<noteq> ms_head s)"
| "queue_current s (RCas hc h x v) \<longleftrightarrow>
     hc \<le> ms_hcount s \<and> x \<noteq> 0 \<and> (hc = ms_hcount s \<longrightarrow> h = ms_head s \<and> x = ms_next s h \<and> v = ms_value s x \<and> ms_tail s \<noteq> ms_head s)"
| "queue_current s _ \<longleftrightarrow> True"

text \<open>
  The node \<open>r\<close> that the push of \<open>n\<close> takes for the tail: it is in the queue; or it has been freed, and then its link count is
  \<open>1\<close> until it is prepared again; or a later push has it.
\<close>

definition ref_at :: "place \<Rightarrow> nat \<Rightarrow> nat \<Rightarrow> u64 \<Rightarrow> (nat \<Rightarrow> queue_pc) \<Rightarrow> bool" where
  "ref_at place stamp_n stamp_r cnt pc \<longleftrightarrow>
     (case place of
        OMain \<Rightarrow> True
      | OFree \<Rightarrow> cnt = 1
      | OThread u \<Rightarrow> stamp_n < stamp_r \<and> (closed_pc (pc u) \<longrightarrow> cnt = 1))"

abbreviation ref_ok :: "queue_sys \<Rightarrow> node_ptr \<Rightarrow> node_ptr \<Rightarrow> bool" where
  "ref_ok s n r \<equiv> ref_at (ms_own s r) (ms_stamp s n) (ms_stamp s r) (ms_ncount s r) (ms_pc s)"

definition node_list :: "(node_ptr \<Rightarrow> node_ptr) \<Rightarrow> (node_ptr \<Rightarrow> nat) \<Rightarrow> queue_pc \<Rightarrow> node_ptr list \<Rightarrow> bool" where
  "node_list nxt stamp p ys \<longleftrightarrow>
     (case pushing p of
        None \<Rightarrow> ys = []
      | Some n \<Rightarrow> n \<noteq> 0 \<and> (if closed_pc p then ys = [n] else chain nxt n ys \<and> sorted_wrt (\<lambda>x y. stamp y < stamp x) ys))"

definition thread_nodes :: "queue_sys \<Rightarrow> nat \<Rightarrow> node_ptr list \<Rightarrow> bool" where
  "thread_nodes s t ys \<longleftrightarrow>
     node_list (ms_next s) (ms_stamp s) (ms_pc s t) ys \<and> (\<forall>x. ms_own s x = OThread t \<longleftrightarrow> x \<in> set ys)"

text \<open>The value that a thread is still to bring into the queue, before and after it has been stored.\<close>

fun owed :: "queue_sys \<Rightarrow> queue_pc \<Rightarrow> node_ptr list \<Rightarrow> nat multiset" where
  "owed s (QValue n v) ys = {#v#}"
| "owed s p ys = mset (map (ms_value s) ys)"

definition link_counts :: "queue_sys \<Rightarrow> node_ptr list \<Rightarrow> bool" where
  "link_counts s xs \<longleftrightarrow> (\<forall>x \<in> set xs. ms_ncount s x = (if ms_next s x = 0 then 0 else 1))"

definition main_ok :: "queue_sys \<Rightarrow> node_ptr list \<Rightarrow> bool" where
  "main_ok s X \<longleftrightarrow>
     chain (ms_next s) (ms_head s) X \<and> distinct X \<and> ms_tail s \<in> set X \<and> link_counts s X \<and> (\<forall>x. ms_own s x = OMain \<longleftrightarrow> x \<in> set X)"

definition threads_ok :: "queue_sys \<Rightarrow> (nat \<Rightarrow> node_ptr list) \<Rightarrow> bool" where
  "threads_ok s C \<longleftrightarrow>
     (\<forall>t. thread_nodes s t (C t) \<and> (\<not> closed_pc (ms_pc s t) \<longrightarrow> link_counts s (C t)) \<and> queue_current s (ms_pc s t) \<and>
          (\<forall>n r. pushing (ms_pc s t) = Some n \<longrightarrow> tail_ref (ms_pc s t) = Some r \<longrightarrow> ref_ok s n r))"

definition values_ok :: "nat \<Rightarrow> queue_sys \<Rightarrow> node_ptr list \<Rightarrow> (nat \<Rightarrow> node_ptr list) \<Rightarrow> bool" where
  "values_ok nt s X C \<longleftrightarrow>
     mset (ms_pushed s) =
       mset (ms_popped s) + mset (map (ms_value s) (tl X)) + (\<Sum>t < nt. owed s (ms_pc s t) (C t))"

definition queue_ok :: "nat \<Rightarrow> queue_sys \<Rightarrow> node_ptr list \<Rightarrow> (nat \<Rightarrow> node_ptr list) \<Rightarrow> bool" where
  "queue_ok nt s X C \<longleftrightarrow>
     main_ok s X \<and> threads_ok s C \<and> values_ok nt s X C \<and> (\<forall>x. ms_stamp s x < ms_clock s) \<and> ms_own s 0 = OFree \<and>
     (\<forall>t \<ge> nt. ms_pc s t = QIdle)"

section \<open>Chains\<close>

lemma chain_nth_next: "chain nxt p xs \<Longrightarrow> x \<in> set xs \<Longrightarrow> nxt x \<noteq> 0 \<Longrightarrow> nxt x \<in> set (tl xs)"
proof (induction xs arbitrary: p)
  case (Cons y xs)
  show ?case
  proof (cases "x = y")
    case True
    then show ?thesis using Cons.prems by (cases xs) auto
  next
    case False
    then have "nxt x \<in> set (tl xs)" using Cons by auto
    then show ?thesis by (cases xs) auto
  qed
qed simp

lemma chain_last: "chain nxt p xs \<Longrightarrow> x \<in> set xs \<Longrightarrow> nxt x = 0 \<Longrightarrow> \<exists>ys. xs = ys @ [x]"
proof (induction xs arbitrary: p)
  case (Cons y xs)
  show ?case
  proof (cases "x = y")
    case True
    then show ?thesis using Cons.prems by (cases xs) auto
  next
    case False
    then obtain ys where "xs = ys @ [x]" using Cons by auto
    then show ?thesis by (auto intro: exI [of _ "y # ys"])
  qed
qed simp

lemma chain_append:
  assumes "chain nxt p (xs @ [r])" "chain nxt n ys" "r \<notin> set xs" "r \<notin> set ys"
  shows "chain (nxt(r := n)) p ((xs @ [r]) @ ys)"
  using assms by (induction xs arbitrary: p) (auto simp: chain_upd)

lemma chain_nonzero: "chain nxt p xs \<Longrightarrow> x \<in> set xs \<Longrightarrow> x \<noteq> 0"
  by (induction xs arbitrary: p) auto

lemma chain_hd: "chain nxt p xs \<Longrightarrow> p \<noteq> 0 \<Longrightarrow> \<exists>ys. xs = p # ys"
  by (cases xs) auto

lemma sum_exchange:
  fixes f g :: "nat \<Rightarrow> 'a :: comm_monoid_add"
  assumes "t < n" "\<And>u. u \<noteq> t \<Longrightarrow> f u = g u"
  shows "sum f {..<n} + g t = sum g {..<n} + f t"
proof -
  have "sum f ({..<n} - {t}) = sum g ({..<n} - {t})" using assms(2) by (intro sum.cong) auto
  then show ?thesis using assms(1) sum.remove [of "{..<n}" t f] sum.remove [of "{..<n}" t g] by (simp add: ac_simps)
qed

section \<open>Steps that only read\<close>

lemma queue_okD:
  assumes "queue_ok nt s X C"
  shows "main_ok s X" "threads_ok s C" "values_ok nt s X C" "ms_stamp s x < ms_clock s" "ms_own s 0 = OFree"
    "t \<ge> nt \<Longrightarrow> ms_pc s t = QIdle"
  using assms by (simp_all add: queue_ok_def)

lemma threads_okD:
  assumes "threads_ok s C"
  shows "thread_nodes s t (C t)" "\<not> closed_pc (ms_pc s t) \<Longrightarrow> link_counts s (C t)" "queue_current s (ms_pc s t)"
    "pushing (ms_pc s t) = Some n \<Longrightarrow> tail_ref (ms_pc s t) = Some r \<Longrightarrow> ref_ok s n r"
  using assms unfolding threads_ok_def by blast+

lemma own_thread: "threads_ok s C \<Longrightarrow> ms_own s x = OThread u \<longleftrightarrow> x \<in> set (C u)"
  using threads_okD(1) [of s C u] unfolding thread_nodes_def by blast

lemma own_main: "main_ok s X \<Longrightarrow> ms_own s x = OMain \<longleftrightarrow> x \<in> set X"
  by (simp add: main_ok_def)

lemma queue_current_goto [simp]: "queue_current (qsgoto s t p) q = queue_current s q"
  by (cases q) (auto simp: qsgoto_def)

lemma owed_goto [simp]: "owed (qsgoto s t p) q ys = owed s q ys"
  by (cases q) (auto simp: qsgoto_def)

lemma ref_ok_goto:
  "closed_pc p = closed_pc (ms_pc s t) \<Longrightarrow> ref_ok (qsgoto s t p) n r = ref_ok s n r"
  by (auto simp: ref_at_def qsgoto_def split: place.splits)

text \<open>Moving on without a change of what the thread pushes.\<close>

lemma queue_ok_goto:
  assumes ok: "queue_ok nt s X C" and t: "t < nt" and cur: "queue_current s p"
    and same: "pushing p = pushing (ms_pc s t)" "closed_pc p = closed_pc (ms_pc s t)" "\<And>n v. p \<noteq> QValue n v" "\<And>n v. ms_pc s t \<noteq> QValue n v"
    and ref: "\<And>n r. pushing p = Some n \<Longrightarrow> tail_ref p = Some r \<Longrightarrow> ref_ok s n r"
  shows "queue_ok nt (qsgoto s t p) X C"
proof -
  let ?s' = "qsgoto s t p"
  have pc: "ms_pc ?s' u = (if u = t then p else ms_pc s u)" for u by (simp add: qsgoto_def)
  note parts = queue_okD [OF ok]
  have "main_ok ?s' X" using parts(1) by (simp add: main_ok_def link_counts_def qsgoto_def)
  moreover have "threads_ok ?s' C" unfolding threads_ok_def
  proof (intro allI conjI impI)
    fix u
    have "thread_nodes ?s' u (C u) = thread_nodes s u (C u)"
      using same(1,2) by (auto simp: thread_nodes_def node_list_def qsgoto_def split: option.splits)
    then show "thread_nodes ?s' u (C u)" using threads_okD(1) [OF parts(2)] by simp
    show "link_counts ?s' (C u)" if "\<not> closed_pc (ms_pc ?s' u)"
      using that threads_okD(2) [OF parts(2), of u] same(2) unfolding pc by (auto simp: link_counts_def qsgoto_def split: if_splits)
    show "queue_current ?s' (ms_pc ?s' u)" unfolding pc using cur threads_okD(3) [OF parts(2)] by simp
    fix n r
    assume "pushing (ms_pc ?s' u) = Some n" "tail_ref (ms_pc ?s' u) = Some r"
    then show "ref_ok ?s' n r" unfolding pc ref_ok_goto [OF same(2)]
      using ref threads_okD(4) [OF parts(2), of u] by (auto split: if_splits)
  qed
  moreover have "values_ok nt ?s' X C"
  proof -
    have "owed s p ys = owed s (ms_pc s t) ys" for ys using same(3,4) by (cases p; cases "ms_pc s t") auto
    then have "owed ?s' (ms_pc ?s' u) (C u) = owed s (ms_pc s u) (C u)" for u unfolding pc by simp
    then show ?thesis using parts(3) unfolding values_ok_def by (simp add: qsgoto_def)
  qed
  ultimately show ?thesis using ok t unfolding queue_ok_def by (auto simp: qsgoto_def)
qed

section \<open>Moving the tail\<close>

lemma queue_ok_swing:
  assumes ok: "queue_ok nt s X C" and x: "x = ms_next s (ms_tail s)" "x \<noteq> 0" and nw: "ms_tcount s \<noteq> - 1"
  shows "queue_ok nt (s\<lparr>ms_tail := x, ms_tcount := ms_tcount s + 1\<rparr>) X C" (is "queue_ok nt ?s' X C")
proof -
  note parts = queue_okD [OF ok]
  have m: "chain (ms_next s) (ms_head s) X" "distinct X" "ms_tail s \<in> set X" using parts(1) by (simp_all add: main_ok_def)
  have tl: "x \<in> set (tl X)" using chain_nth_next [OF m(1,3)] x by simp
  then obtain ys where X: "X = ms_head s # ys" using m(1) by (cases X) auto
  have xh: "x \<noteq> ms_head s" using tl m(2) X by auto
  have cur: "queue_current ?s' q" if "queue_current s q" for q
    using that count_succ [OF nw] xh by (cases q) (auto split: if_splits)
  have ref: "ref_ok ?s' n r = ref_ok s n r" for n r by simp
  have "main_ok ?s' X" using parts(1) tl by (auto simp: main_ok_def link_counts_def dest: list.set_sel(2) [rotated])
  moreover have "threads_ok ?s' C" unfolding threads_ok_def ref
    using threads_okD [OF parts(2)] cur by (auto simp: thread_nodes_def link_counts_def)
  moreover have "owed ?s' q ys = owed s q ys" for q ys by (cases q) auto
  then have "values_ok nt ?s' X C" using parts(3) by (simp add: values_ok_def)
  ultimately show ?thesis using ok unfolding queue_ok_def by auto
qed

section \<open>Preparing a node\<close>

lemma owed_cong:
  assumes "map (ms_value s') ys = map (ms_value s) ys"
  shows "owed s' p ys = owed s p ys"
proof (cases "\<exists>n v. p = QValue n v")
  case False
  then have "owed s'' p ys = mset (map (ms_value s'') ys)" for s'' by (cases p) auto
  then show ?thesis using assms by metis
qed auto

lemma queue_ok_value:
  assumes ok: "queue_ok nt s X C" and t: "t < nt" and pc: "ms_pc s t = QValue n v"
  shows "queue_ok nt (qsgoto (s\<lparr>ms_value := (ms_value s)(n := v)\<rparr>) t (QNext n)) X C" (is "queue_ok nt ?s' X C")
proof -
  note parts = queue_okD [OF ok] and th = threads_okD [OF queue_okD(2) [OF ok]]
  have ct: "C t = [n]" "ms_own s n = OThread t" using th(1) [of t] pc by (auto simp: thread_nodes_def node_list_def)
  have other: "n \<notin> set (C u)" if "u \<noteq> t" for u using own_thread [OF parts(2), of n u] ct(2) that by simp
  have main: "n \<notin> set X" using own_main [OF parts(1), of n] ct(2) by simp
  have "hd X = ms_head s" "n \<notin> set (tl X)" using main parts(1) by (cases X; auto simp: main_ok_def)+
  have pc': "ms_pc ?s' u = (if u = t then QNext n else ms_pc s u)" for u by (simp add: qsgoto_def)
  have cur: "queue_current ?s' (ms_pc s u)" if u: "u \<noteq> t" for u
  proof -
    have q: "queue_current s (ms_pc s u)" by (rule th(3))
    have "x \<noteq> n" if "x = ms_next s (ms_head s)" "x \<noteq> 0" for x
    proof -
      have "ms_head s \<in> set X" using parts(1) chain_hd [of "ms_next s" "ms_head s" X]
        by (cases X) (auto simp: main_ok_def)
      then have "x \<in> set (tl X)" using chain_nth_next parts(1) that by (auto simp: main_ok_def)
      then show ?thesis using main by (cases X) auto
    qed
    then show ?thesis using q by (cases "ms_pc s u") (auto simp: qsgoto_def split: if_splits)
  qed
  have ref: "ref_ok ?s' m r = ref_ok s m r" for m r
    using pc by (auto simp: ref_at_def qsgoto_def split: place.splits)
  have "main_ok ?s' X" using parts(1) by (simp add: main_ok_def link_counts_def qsgoto_def)
  moreover have "threads_ok ?s' C" unfolding threads_ok_def ref
  proof (intro allI conjI impI)
    fix u
    show "thread_nodes ?s' u (C u)" using th(1) [of u] pc by (auto simp: thread_nodes_def node_list_def qsgoto_def)
    show "link_counts ?s' (C u)" if "\<not> closed_pc (ms_pc ?s' u)"
      using that th(2) [of u] unfolding pc' by (auto simp: link_counts_def qsgoto_def split: if_splits)
    show "queue_current ?s' (ms_pc ?s' u)" unfolding pc' using cur [of u] by simp
    fix m r
    assume "pushing (ms_pc ?s' u) = Some m" "tail_ref (ms_pc ?s' u) = Some r"
    then show "ref_ok s m r" unfolding pc' using th(4) [of u] by (auto split: if_splits)
  qed
  moreover have "values_ok nt ?s' X C"
  proof -
    have vals: "map (ms_value ?s') ys = map (ms_value s) ys" if "n \<notin> set ys" for ys using that by (simp add: qsgoto_def)
    have o: "owed ?s' (ms_pc ?s' u) (C u) = owed s (ms_pc s u) (C u)" for u
    proof (cases "u = t")
      case True
      then show ?thesis using pc ct(1) by (simp add: qsgoto_def)
    next
      case False
      then show ?thesis unfolding pc' using owed_cong [OF vals [OF other [OF False]], of "ms_pc s u"] by simp
    qed
    have "mset (map (ms_value ?s') (tl X)) = mset (map (ms_value s) (tl X))" using vals [OF \<open>n \<notin> set (tl X)\<close>] by (simp only:)
    then show ?thesis using parts(3) unfolding values_ok_def o by (simp add: qsgoto_def del: mset_map)
  qed
  ultimately show ?thesis using ok t unfolding queue_ok_def by (auto simp: qsgoto_def)
qed

text \<open>Clearing the link.\<close>

lemma head_in: "main_ok s X \<Longrightarrow> ms_head s \<in> set X"
  by (cases X) (auto simp: main_ok_def)

lemma queue_ok_next:
  assumes ok: "queue_ok nt s X C" and t: "t < nt" and pc: "ms_pc s t = QNext n"
  shows "queue_ok nt (qsgoto (s\<lparr>ms_next := (ms_next s)(n := 0)\<rparr>) t (QCount n)) X C" (is "queue_ok nt ?s' X C")
proof -
  note parts = queue_okD [OF ok] and th = threads_okD [OF queue_okD(2) [OF ok]]
  have ct: "C t = [n]" "ms_own s n = OThread t" using th(1) [of t] pc by (auto simp: thread_nodes_def node_list_def)
  have other: "n \<notin> set (C u)" if "u \<noteq> t" for u using own_thread [OF parts(2), of n u] ct(2) that by simp
  have main: "n \<notin> set X" using own_main [OF parts(1), of n] ct(2) by simp
  have pc': "ms_pc ?s' u = (if u = t then QCount n else ms_pc s u)" for u by (simp add: qsgoto_def)
  have ends: "ms_head s \<noteq> n" "ms_tail s \<noteq> n" using main head_in [OF parts(1)] parts(1) by (auto simp: main_ok_def)
  have cur: "queue_current ?s' q" if "queue_current s q" for q
    using that ends by (cases q) (auto simp: qsgoto_def split: if_splits)
  have ref: "ref_ok ?s' m r = ref_ok s m r" for m r
    using pc by (auto simp: ref_at_def qsgoto_def split: place.splits)
  have "main_ok ?s' X" using parts(1) main by (auto simp: main_ok_def link_counts_def qsgoto_def chain_upd)
  moreover have "threads_ok ?s' C" unfolding threads_ok_def ref
  proof (intro allI conjI impI)
    fix u
    show "thread_nodes ?s' u (C u)" using th(1) [of u] pc other [of u]
      by (auto simp: thread_nodes_def node_list_def qsgoto_def chain_upd split: option.splits)
    show "link_counts ?s' (C u)" if "\<not> closed_pc (ms_pc ?s' u)"
      using that th(2) [of u] other [of u] unfolding pc' by (auto simp: link_counts_def qsgoto_def split: if_splits)
    show "queue_current ?s' (ms_pc ?s' u)" unfolding pc' using cur [OF th(3)] by (simp add: qsgoto_def)
    fix m r
    assume "pushing (ms_pc ?s' u) = Some m" "tail_ref (ms_pc ?s' u) = Some r"
    then show "ref_ok s m r" unfolding pc' using th(4) [of u] by (auto split: if_splits)
  qed
  moreover have "values_ok nt ?s' X C"
  proof -
    have "owed ?s' (ms_pc ?s' u) (C u) = owed s (ms_pc s u) (C u)" for u
      using pc owed_cong [of ?s' "C u" s "ms_pc s u"] unfolding pc' by (auto simp: qsgoto_def)
    then show ?thesis using parts(3) unfolding values_ok_def by (simp add: qsgoto_def)
  qed
  ultimately show ?thesis using ok t unfolding queue_ok_def by (auto simp: qsgoto_def)
qed

text \<open>Clearing the count: from here on other threads may take the node for the tail of a queue.\<close>

lemma queue_ok_count:
  assumes ok: "queue_ok nt s X C" and t: "t < nt" and pc: "ms_pc s t = QCount n"
  shows "queue_ok nt (qsgoto (s\<lparr>ms_ncount := (ms_ncount s)(n := 0)\<rparr>) t (QTailC n)) X C" (is "queue_ok nt ?s' X C")
proof -
  note parts = queue_okD [OF ok] and th = threads_okD [OF queue_okD(2) [OF ok]]
  have ct: "C t = [n]" "ms_own s n = OThread t" "n \<noteq> 0" using th(1) [of t] pc by (auto simp: thread_nodes_def node_list_def)
  have z: "ms_next s n = 0" using th(3) [of t] pc by simp
  have other: "n \<notin> set (C u)" if "u \<noteq> t" for u using own_thread [OF parts(2), of n u] ct(2) that by simp
  have main: "n \<notin> set X" using own_main [OF parts(1), of n] ct(2) by simp
  have pc': "ms_pc ?s' u = (if u = t then QTailC n else ms_pc s u)" for u by (simp add: qsgoto_def)
  have cur: "queue_current ?s' q = queue_current s q" for q by (cases q) (auto simp: qsgoto_def)
  have ref: "ref_ok ?s' m r" if "ref_ok s m r" for m r
    using that ct(2) by (auto simp: ref_at_def qsgoto_def split: place.splits if_splits)
  have "main_ok ?s' X" using parts(1) main by (auto simp: main_ok_def link_counts_def qsgoto_def)
  moreover have "threads_ok ?s' C" unfolding threads_ok_def
  proof (intro allI conjI impI)
    fix u
    show "thread_nodes ?s' u (C u)" using th(1) [of u] pc ct z
      by (auto simp: thread_nodes_def node_list_def qsgoto_def split: option.splits)
    show "link_counts ?s' (C u)" if "\<not> closed_pc (ms_pc ?s' u)"
      using that th(2) [of u] other [of u] ct(1) z unfolding pc' by (auto simp: link_counts_def qsgoto_def split: if_splits)
    show "queue_current ?s' (ms_pc ?s' u)" unfolding pc' cur using th(3) by simp
    fix m r
    assume "pushing (ms_pc ?s' u) = Some m" "tail_ref (ms_pc ?s' u) = Some r"
    then have "ref_ok s m r" unfolding pc' using th(4) [of u] by (auto split: if_splits)
    then show "ref_ok ?s' m r" by (rule ref)
  qed
  moreover have "values_ok nt ?s' X C"
  proof -
    have "owed ?s' (ms_pc ?s' u) (C u) = owed s (ms_pc s u) (C u)" for u
      using pc owed_cong [of ?s' "C u" s "ms_pc s u"] unfolding pc' by (auto simp: qsgoto_def)
    then show ?thesis using parts(3) unfolding values_ok_def by (simp add: qsgoto_def)
  qed
  ultimately show ?thesis using ok t unfolding queue_ok_def by (auto simp: qsgoto_def)
qed

section \<open>Starting\<close>

lemma node_list_stamp: "n \<notin> set ys \<Longrightarrow> node_list nxt (stamp(n := c)) p ys = node_list nxt stamp p ys"
proof -
  assume n: "n \<notin> set ys"
  then have "sorted_wrt (\<lambda>x y. (stamp(n := c)) y < (stamp(n := c)) x) ys = sorted_wrt (\<lambda>x y. stamp y < stamp x) ys"
    by (induction ys) auto
  then show ?thesis unfolding node_list_def by (simp only:)
qed

lemma queue_ok_push:
  assumes ok: "queue_ok nt s X C" and t: "t < nt" and pc: "ms_pc s t = QIdle" and n: "n \<noteq> 0" "ms_own s n = OFree"
  shows "queue_ok nt (qsgoto (s\<lparr>ms_own := (ms_own s)(n := OThread t), ms_stamp := (ms_stamp s)(n := ms_clock s), ms_clock := ms_clock s + 1,
                          ms_pushed := ms_pushed s @ [v]\<rparr>) t (QValue n v)) X (C(t := [n]))" (is "queue_ok nt ?s' X ?C")
proof -
  note parts = queue_okD [OF ok] and th = threads_okD [OF queue_okD(2) [OF ok]]
  have ct: "C t = []" using th(1) [of t] pc by (auto simp: thread_nodes_def node_list_def)
  have other: "n \<notin> set (C u)" for u using own_thread [OF parts(2), of n u] n(2) by simp
  have main: "n \<notin> set X" using own_main [OF parts(1), of n] n(2) by simp
  have pc': "ms_pc ?s' u = (if u = t then QValue n v else ms_pc s u)" for u by (simp add: qsgoto_def)
  have cur: "queue_current ?s' q = queue_current s q" for q by (cases q) (auto simp: qsgoto_def)
  have ref: "ref_ok ?s' m r" if "ref_ok s m r" "m \<noteq> n" for m r
    using that n(2) parts(4) [of m] pc own_thread [OF parts(2), of r t] ct by (auto simp: ref_at_def qsgoto_def split: place.splits if_splits)
  have "main_ok ?s' X" using parts(1) main by (auto simp: main_ok_def link_counts_def qsgoto_def)
  moreover have "threads_ok ?s' ?C" unfolding threads_ok_def
  proof (intro allI conjI impI)
    fix u
    show "thread_nodes ?s' u (?C u)"
    proof (cases "u = t")
      case True
      then show ?thesis using n ct own_thread [OF parts(2), of _ t] by (auto simp: thread_nodes_def node_list_def qsgoto_def)
    next
      case False
      then show ?thesis using th(1) [of u] other [of u] by (auto simp: thread_nodes_def node_list_stamp qsgoto_def)
    qed
    show "link_counts ?s' (?C u)" if "\<not> closed_pc (ms_pc ?s' u)"
      using that th(2) [of u] unfolding pc' by (auto simp: link_counts_def qsgoto_def split: if_splits)
    show "queue_current ?s' (ms_pc ?s' u)" unfolding pc' cur using th(3) by simp
    fix m r
    assume a: "pushing (ms_pc ?s' u) = Some m" "tail_ref (ms_pc ?s' u) = Some r"
    then have "ref_ok s m r" "u \<noteq> t" unfolding pc' using th(4) [of u] by (auto split: if_splits)
    moreover have "m \<in> set (C u)" using a \<open>u \<noteq> t\<close> th(1) [of u] unfolding pc'
      by (cases "C u") (auto simp: thread_nodes_def node_list_def split: if_splits)
    ultimately show "ref_ok ?s' m r" using ref other by blast
  qed
  moreover have "values_ok nt ?s' X ?C"
  proof -
    have "(\<Sum>u<nt. owed ?s' (ms_pc ?s' u) (?C u)) + owed s (ms_pc s t) (C t) = (\<Sum>u<nt. owed s (ms_pc s u) (C u)) + owed ?s' (ms_pc ?s' t) (?C t)"
    proof (rule sum_exchange [OF t])
      fix u assume u: "u \<noteq> t"
      have "map (ms_value ?s') (C u) = map (ms_value s) (C u)" by (simp add: qsgoto_def)
      then show "owed ?s' (ms_pc ?s' u) (?C u) = owed s (ms_pc s u) (C u)" unfolding pc' using owed_cong u by auto
    qed
    moreover have "owed s (ms_pc s t) (C t) = {#}" "owed ?s' (ms_pc ?s' t) (?C t) = {#v#}" using pc ct by (simp_all add: qsgoto_def)
    ultimately have "(\<Sum>u<nt. owed ?s' (ms_pc ?s' u) (?C u)) = (\<Sum>u<nt. owed s (ms_pc s u) (C u)) + {#v#}" by simp
    then show ?thesis using parts(3) unfolding values_ok_def by (simp add: qsgoto_def)
  qed
  moreover have "ms_stamp ?s' x < ms_clock ?s'" for x using parts(4) [of x] by (simp add: qsgoto_def less_SucI)
  ultimately show ?thesis using ok t n unfolding queue_ok_def by (auto simp: qsgoto_def)
qed

section \<open>Linking a node\<close>

text \<open>
  The compare-and-swap of the link. The nodes of the thread go behind \<open>r\<close>, which is the last of the queue, or the last of the
  nodes of another thread, when that thread is pushing a node that has been freed in the meantime.
\<close>

definition linked :: "queue_sys \<Rightarrow> nat \<Rightarrow> node_ptr \<Rightarrow> u64 \<Rightarrow> node_ptr \<Rightarrow> queue_sys" where
  "linked s t n c r =
     qsgoto (s\<lparr>ms_next := (ms_next s)(r := n), ms_ncount := (ms_ncount s)(r := 1),
              ms_own := (\<lambda>x. if ms_own s x = OThread t then ms_own s r else ms_own s x)\<rparr>) t (QSwing n c r)"

lemma linked_simps [simp]:
  "ms_head (linked s t n c r) = ms_head s" "ms_hcount (linked s t n c r) = ms_hcount s"
  "ms_tail (linked s t n c r) = ms_tail s" "ms_tcount (linked s t n c r) = ms_tcount s"
  "ms_value (linked s t n c r) = ms_value s" "ms_next (linked s t n c r) = (ms_next s)(r := n)"
  "ms_ncount (linked s t n c r) = (ms_ncount s)(r := 1)" "ms_pc (linked s t n c r) = (ms_pc s)(t := QSwing n c r)"
  "ms_own (linked s t n c r) x = (if ms_own s x = OThread t then ms_own s r else ms_own s x)"
  "ms_stamp (linked s t n c r) = ms_stamp s" "ms_clock (linked s t n c r) = ms_clock s"
  "ms_pushed (linked s t n c r) = ms_pushed s" "ms_popped (linked s t n c r) = ms_popped s"
  by (simp_all add: linked_def qsgoto_def)

lemma sum_move:
  fixes f g :: "nat \<Rightarrow> 'a :: cancel_comm_monoid_add"
  assumes "t < n" "u < n" "t \<noteq> u" "f t = 0" "f u = g u + g t" "\<And>v. v \<noteq> t \<Longrightarrow> v \<noteq> u \<Longrightarrow> f v = g v"
  shows "sum f {..<n} = sum g {..<n}"
proof -
  let ?h = "g(t := 0)"
  have 1: "sum f {..<n} + ?h u = sum ?h {..<n} + f u" using assms by (intro sum_exchange) auto
  have 2: "sum ?h {..<n} + g t = sum g {..<n} + ?h t" by (intro sum_exchange assms(1)) auto
  have "sum f {..<n} + g u = (sum ?h {..<n} + g t) + g u" using 1 assms(3,5) by (simp add: ac_simps)
  then show ?thesis unfolding 2 by simp
qed

text \<open>What a thread that links knows.\<close>

lemma link_facts:
  assumes ok: "queue_ok nt s X C" and t: "t < nt" and pc: "ms_pc s t = QLink n c r k" and free: "ms_next s r = 0" "ms_ncount s r = k"
  shows "k = 0" "n \<in> set (C t)" "n \<noteq> 0" "chain (ms_next s) n (C t)" "sorted_wrt (\<lambda>x y. ms_stamp s y < ms_stamp s x) (C t)" "link_counts s (C t)"
    "ms_own s r \<noteq> OFree" "ms_own s r \<noteq> OThread t" "ms_own s r = OThread u \<Longrightarrow> \<not> closed_pc (ms_pc s u)"
    "ms_own s r = OThread u \<Longrightarrow> ms_stamp s n < ms_stamp s r" "c = ms_tcount s \<Longrightarrow> r = ms_tail s"
proof -
  note parts = queue_okD [OF ok] and th = threads_okD [OF queue_okD(2) [OF ok]]
  show k: "k = 0" using th(3) [of t] pc by simp
  have nl: "node_list (ms_next s) (ms_stamp s) (ms_pc s t) (C t)" using th(1) [of t] by (simp add: thread_nodes_def)
  then show n0: "n \<noteq> 0" and ch: "chain (ms_next s) n (C t)" and st: "sorted_wrt (\<lambda>x y. ms_stamp s y < ms_stamp s x) (C t)"
    using pc by (auto simp: node_list_def)
  obtain zs where zs: "C t = n # zs" using chain_hd [OF ch n0] by blast
  then show "n \<in> set (C t)" by simp
  show "link_counts s (C t)" using th(2) [of t] pc by simp
  have ref: "ref_ok s n r" using th(4) [of t] pc by simp
  then show "ms_own s r \<noteq> OFree" using free k by (auto simp: ref_at_def)
  show open_u: "ms_own s r = OThread u \<Longrightarrow> \<not> closed_pc (ms_pc s u)" for u using ref free k by (auto simp: ref_at_def)
  show later: "ms_own s r = OThread u \<Longrightarrow> ms_stamp s n < ms_stamp s r" for u using ref by (auto simp: ref_at_def)
  show "ms_own s r \<noteq> OThread t"
  proof
    assume a: "ms_own s r = OThread t"
    then have "r \<in> set (C t)" using own_thread [OF parts(2)] by simp
    then have "r = n \<or> ms_stamp s r < ms_stamp s n" using zs st by auto
    then show False using later [OF a] by auto
  qed
  show "c = ms_tcount s \<Longrightarrow> r = ms_tail s" using th(3) [of t] pc by simp
qed

lemma link_counts_append [simp]: "link_counts s (xs @ ys) \<longleftrightarrow> link_counts s xs \<and> link_counts s ys" "link_counts s []"
  by (auto simp: link_counts_def)

lemma stamps_distinct: "sorted_wrt (\<lambda>x y. f y < (f x :: nat)) xs \<Longrightarrow> distinct xs"
  by (induction xs) auto

lemma linked_current:
  assumes "queue_current s q" "ms_next s r = 0" "q \<noteq> QCount r"
  shows "queue_current (linked s t n c r) q"
  using assms by (cases q) (auto split: if_splits)

lemma linked_ref:
  assumes "ref_ok s m x" "ms_own s r \<noteq> OFree" "ms_own s r \<noteq> OThread t"
    "\<And>u. ms_own s r = OThread u \<Longrightarrow> \<not> closed_pc (ms_pc s u)"
  shows "ref_ok (linked s t n c r) m x"
proof (cases "ms_own s x = OThread t")
  case True
  then show ?thesis using assms by (cases "ms_own s r") (auto simp: ref_at_def)
next
  case False
  then show ?thesis using assms(1,3) by (cases "ms_own s x") (auto simp: ref_at_def)
qed

lemma linked_threads:
  assumes ok: "queue_ok nt s X C" and t: "t < nt" and pc: "ms_pc s t = QLink n c r k" and free: "ms_next s r = 0" "ms_ncount s r = k"
    and C': "C' t = []" "\<And>u. u \<noteq> t \<Longrightarrow> ms_own s r \<noteq> OThread u \<Longrightarrow> C' u = C u" "\<And>u. ms_own s r = OThread u \<Longrightarrow> C' u = C u @ C t"
  shows "threads_ok (linked s t n c r) C'"
  unfolding threads_ok_def
proof (intro allI conjI impI)
  let ?s' = "linked s t n c r"
  note parts = queue_okD [OF ok] and th = threads_okD [OF queue_okD(2) [OF ok]] and f = link_facts [OF assms(1-5)]
  have rt: "r \<notin> set (C t)" using own_thread [OF parts(2), of r t] f(8) by simp
  fix u
  have own: "ms_own ?s' x = OThread u \<longleftrightarrow> u \<noteq> t \<and> (x \<in> set (C u) \<or> ms_own s r = OThread u \<and> x \<in> set (C t))" for x
    using own_thread [OF parts(2), of x u] own_thread [OF parts(2), of x t] f(8) by auto
  show "thread_nodes ?s' u (C' u)"
  proof (cases "u = t")
    case True
    then show ?thesis using own C' by (simp add: thread_nodes_def node_list_def)
  next
    case ut: False
    show ?thesis
    proof (cases "ms_own s r = OThread u")
      case True
      then obtain m where m: "pushing (ms_pc s u) = Some m" "m \<noteq> 0" "chain (ms_next s) m (C u)" "sorted_wrt (\<lambda>x y. ms_stamp s y < ms_stamp s x) (C u)"
        using th(1) [of u] f(9) [OF True] own_thread [OF parts(2), of r u] by (auto simp: thread_nodes_def node_list_def split: option.splits)
      obtain zs where zs: "C u = zs @ [r]" using chain_last [OF m(3) _ free(1)] own_thread [OF parts(2), of r u] True by auto
      have "r \<notin> set zs" using m(4) zs by (auto simp: sorted_wrt_append)
      then have "chain ((ms_next s)(r := n)) m (C u @ C t)" using chain_append [OF m(3) [unfolded zs] f(4) _ rt] zs by simp
      moreover have "ms_stamp s y < ms_stamp s x" if "x \<in> set (C u)" "y \<in> set (C t)" for x y
      proof -
        have "ms_stamp s r \<le> ms_stamp s x" using that(1) m(4) zs by (auto simp: sorted_wrt_append less_imp_le)
        moreover have "ms_stamp s y \<le> ms_stamp s n" using that(2) f(5) chain_hd [OF f(4,3)] by (auto simp: less_imp_le)
        ultimately show ?thesis using f(10) [OF True] by simp
      qed
      then have "sorted_wrt (\<lambda>x y. ms_stamp s y < ms_stamp s x) (C u @ C t)" using m(4) f(5) by (simp add: sorted_wrt_append)
      ultimately show ?thesis using own C'(3) [OF True] m(1,2) f(9) [OF True] ut True by (auto simp: thread_nodes_def node_list_def)
    next
      case False
      then have "r \<notin> set (C u)" using own_thread [OF parts(2)] by auto
      then have "node_list ((ms_next s)(r := n)) (ms_stamp s) (ms_pc s u) (C u)" using th(1) [of u]
        by (auto simp: thread_nodes_def node_list_def chain_upd split: option.splits)
      then show ?thesis unfolding thread_nodes_def own C'(2) [OF ut False] using ut False by simp
    qed
  qed
  show "link_counts ?s' (C' u)" if "\<not> closed_pc (ms_pc ?s' u)"
  proof -
    have l: "link_counts ?s' ys" if "link_counts s ys" for ys using that f(3) by (auto simp: link_counts_def)
    have "link_counts ?s' (C u)" if "u \<noteq> t" using l [OF th(2) [of u]] that \<open>\<not> closed_pc (ms_pc ?s' u)\<close> by simp
    moreover have "link_counts ?s' (C t)" by (rule l [OF f(6)])
    ultimately show ?thesis using C'(2) [of u] C'(3) [of u] C'(1) by (cases "u = t"; cases "ms_own s r = OThread u") simp_all
  qed
  show "queue_current ?s' (ms_pc ?s' u)"
  proof (cases "u = t")
    case True
    then show ?thesis using th(3) [of t] pc f(3) by simp
  next
    case False
    have "ms_pc s u \<noteq> QCount r"
    proof
      assume q: "ms_pc s u = QCount r"
      then have "C u = [r]" using th(1) [of u] by (simp add: thread_nodes_def node_list_def)
      then show False using own_thread [OF parts(2), of r u] f(9) [of u] q by simp
    qed
    then show ?thesis using linked_current [OF th(3) free(1)] False by simp
  qed
  fix m x
  assume "pushing (ms_pc ?s' u) = Some m" "tail_ref (ms_pc ?s' u) = Some x"
  then have "ref_ok s m x" using th(4) [of u] by (auto split: if_splits)
  then show "ref_ok ?s' m x" using linked_ref f(7,8,9) by blast
qed

lemma linked_rest:
  assumes ok: "queue_ok nt s X C" and ml: "main_ok (linked s t n c r) X'" and tl: "threads_ok (linked s t n c r) C'"
    and vl: "values_ok nt (linked s t n c r) X' C'" and t: "t < nt" and r: "ms_own s r \<noteq> OThread t"
  shows "queue_ok nt (linked s t n c r) X' C'"
  using ok ml tl vl t unfolding queue_ok_def by auto

lemma queue_ok_link:
  assumes ok: "queue_ok nt s X C" and t: "t < nt" and pc: "ms_pc s t = QLink n c r k" and free: "ms_next s r = 0" "ms_ncount s r = k"
  shows "\<exists>zs C'. queue_ok nt (linked s t n c r) (X @ zs) C'"
proof -
  let ?s' = "linked s t n c r"
  note parts = queue_okD [OF ok] and th = threads_okD [OF queue_okD(2) [OF ok]] and f = link_facts [OF assms]
  have m: "chain (ms_next s) (ms_head s) X" "distinct X" "ms_tail s \<in> set X" "link_counts s X" using parts(1) by (simp_all add: main_ok_def)
  have rt: "r \<notin> set (C t)" using own_thread [OF parts(2), of r t] f(8) by simp
  have ow: "owed ?s' q ys = owed s q ys" for q ys by (rule owed_cong) simp
  have owt: "owed s (ms_pc s t) ys = mset (map (ms_value s) ys)" for ys using pc by simp
  show ?thesis
  proof (cases "ms_own s r")
    case OMain
    then obtain xs where X: "X = xs @ [r]" using chain_last [OF m(1) _ free(1)] own_main [OF parts(1), of r] by auto
    let ?C = "C(t := [])"
    have "chain ((ms_next s)(r := n)) (ms_head s) (X @ C t)" using chain_append [OF m(1) [unfolded X] f(4) _ rt] m(2) X by simp
    moreover have "y \<notin> set (C t)" if "y \<in> set X" for y
      using own_main [OF parts(1), of y] own_thread [OF parts(2), of y t] that by simp
    moreover have "distinct (C t)" by (rule stamps_distinct [OF f(5)])
    moreover have "link_counts ?s' (X @ C t)" using m(4) f(3,6) by (auto simp: link_counts_def)
    ultimately have "main_ok ?s' (X @ C t)"
      using m(2,3) OMain own_main [OF parts(1)] own_thread [OF parts(2), of _ t] by (auto simp: main_ok_def)
    moreover have "threads_ok ?s' ?C" by (rule linked_threads [OF assms]) (use OMain in auto)
    moreover have "values_ok nt ?s' (X @ C t) ?C"
    proof -
      have "(\<Sum>u<nt. owed ?s' (ms_pc ?s' u) (?C u)) + owed s (ms_pc s t) (C t) = (\<Sum>u<nt. owed s (ms_pc s u) (C u)) + owed ?s' (ms_pc ?s' t) (?C t)"
        by (rule sum_exchange [OF t]) (simp add: ow)
      then have "(\<Sum>u<nt. owed ?s' (ms_pc ?s' u) (?C u)) + mset (map (ms_value s) (C t)) = (\<Sum>u<nt. owed s (ms_pc s u) (C u))"
        unfolding owt by simp
      moreover have "tl (X @ C t) = tl X @ C t" using X by (cases xs) auto
      ultimately show ?thesis using parts(3) unfolding values_ok_def by (simp add: ac_simps)
    qed
    ultimately have "queue_ok nt ?s' (X @ C t) ?C" using linked_rest [OF ok] t f(8) by blast
    then show ?thesis by blast
  next
    case (OThread u)
    let ?C = "C(t := [], u := C u @ C t)"
    have ut: "u \<noteq> t" using OThread f(8) by auto
    have rX: "r \<notin> set X" using OThread own_main [OF parts(1), of r] by simp
    have rC: "r \<in> set (C u)" using OThread own_thread [OF parts(2), of r u] by simp
    have "ms_own ?s' y = OMain \<longleftrightarrow> y \<in> set X" for y using own_main [OF parts(1), of y] OThread by auto
    moreover have "link_counts ?s' X" using m(4) rX by (auto simp: link_counts_def)
    ultimately have "main_ok ?s' X" using m rX by (simp add: main_ok_def chain_upd)
    moreover have "threads_ok ?s' ?C" by (rule linked_threads [OF assms]) (use OThread ut in auto)
    moreover have "values_ok nt ?s' X ?C"
    proof -
      have un: "u < nt" using parts(6) [of u] th(1) [of u] rC by (cases "u < nt") (auto simp: thread_nodes_def node_list_def)
      have "owed s (ms_pc s u) ys = mset (map (ms_value s) ys)" for ys using f(9) [OF OThread] by (cases "ms_pc s u") auto
      then have "(\<Sum>v<nt. owed ?s' (ms_pc ?s' v) (?C v)) = (\<Sum>v<nt. owed s (ms_pc s v) (C v))"
        using ut owt by (intro sum_move [OF t un]) (auto simp: ow)
      then show ?thesis using parts(3) unfolding values_ok_def by simp
    qed
    ultimately have "queue_ok nt ?s' X ?C" using linked_rest [OF ok] t f(8) by blast
    then show ?thesis by (metis append_Nil2)
  qed (use f(7) in simp)
qed

section \<open>Unlinking a node\<close>

lemma queue_ok_unlink:
  assumes ok: "queue_ok nt s X C" and t: "t < nt" and pc: "ms_pc s t = RCas (ms_hcount s) (ms_head s) x v" and nw: "ms_hcount s \<noteq> - 1"
  shows "\<exists>rest. X = ms_head s # x # rest \<and> v = ms_value s x \<and>
    queue_ok nt (qsgoto (s\<lparr>ms_head := x, ms_hcount := ms_hcount s + 1, ms_popped := ms_popped s @ [v], ms_own := (ms_own s)(ms_head s := OFree)\<rparr>) t QIdle)
      (x # rest) C" (is "\<exists>rest. _ \<and> _ \<and> queue_ok nt ?s' _ C")
proof -
  note parts = queue_okD [OF ok] and th = threads_okD [OF queue_okD(2) [OF ok]]
  let ?h = "ms_head s"
  have m: "chain (ms_next s) ?h X" "distinct X" "ms_tail s \<in> set X" "link_counts s X" using parts(1) by (simp_all add: main_ok_def)
  have x: "x \<noteq> 0" "x = ms_next s ?h" "v = ms_value s x" "ms_tail s \<noteq> ?h" using th(3) [of t] pc by simp_all
  obtain rest where X: "X = ?h # x # rest" using m(1,3) x by (cases X; cases "tl X") auto
  have ct: "C t = []" using th(1) [of t] pc by (auto simp: thread_nodes_def node_list_def)
  have pc': "ms_pc ?s' u = (if u = t then QIdle else ms_pc s u)" for u by (simp add: qsgoto_def)
  have cur: "queue_current ?s' q" if "queue_current s q" for q
    using that count_succ [OF nw] by (cases q) (auto simp: qsgoto_def split: if_splits)
  have "ms_ncount s ?h = 1" using m(4) x X by (auto simp: link_counts_def)
  then have ref: "ref_ok ?s' a b" if "ref_ok s a b" for a b
    using that pc by (auto simp: ref_at_def qsgoto_def split: place.splits if_splits)
  have hC: "?h \<notin> set (C u)" for u using own_main [OF parts(1), of ?h] own_thread [OF parts(2), of ?h u] X by auto
  have tail: "ms_tail s \<in> set (x # rest)" "?h \<notin> set (x # rest)" using m(2,3) x(4) X by auto
  have "chain (ms_next s) x (x # rest)" using m(1) X by simp
  moreover have "link_counts s (x # rest)" using m(4) X by (simp add: link_counts_def)
  moreover have "((ms_own s)(?h := OFree)) y = OMain \<longleftrightarrow> y \<in> set (x # rest)" for y
    using own_main [OF parts(1), of y] X tail(2) by auto
  moreover have "distinct (x # rest)" using m(2) X by simp
  ultimately have "main_ok ?s' (x # rest)" using tail(1) by (simp add: main_ok_def link_counts_def qsgoto_def)
  moreover have "threads_ok ?s' C" unfolding threads_ok_def
  proof (intro allI conjI impI)
    fix u
    have "node_list (ms_next s) (ms_stamp s) (ms_pc ?s' u) (C u)" unfolding pc'
      using th(1) [of u] ct by (simp add: thread_nodes_def node_list_def)
    moreover have "((ms_own s)(?h := OFree)) y = OThread u \<longleftrightarrow> y \<in> set (C u)" for y
      using own_thread [OF parts(2), of y u] hC [of u] by auto
    ultimately show "thread_nodes ?s' u (C u)" by (simp add: thread_nodes_def qsgoto_def)
    show "link_counts ?s' (C u)" if "\<not> closed_pc (ms_pc ?s' u)"
      using that th(2) [of u] ct unfolding pc' by (auto simp: link_counts_def qsgoto_def split: if_splits)
    show "queue_current ?s' (ms_pc ?s' u)" unfolding pc' using cur [OF th(3)] by simp
    fix a b
    assume "pushing (ms_pc ?s' u) = Some a" "tail_ref (ms_pc ?s' u) = Some b"
    then have "ref_ok s a b" unfolding pc' using th(4) [of u] by (auto split: if_splits)
    then show "ref_ok ?s' a b" by (rule ref)
  qed
  moreover have "values_ok nt ?s' (x # rest) C"
  proof -
    have "owed ?s' q ys = owed s q ys" for q ys by (rule owed_cong) (simp add: qsgoto_def)
    then have "owed ?s' (ms_pc ?s' u) (C u) = owed s (ms_pc s u) (C u)" for u unfolding pc' using pc ct by simp
    then show ?thesis using parts(3) x(3) X unfolding values_ok_def by (simp add: qsgoto_def)
  qed
  moreover have "ms_own ?s' 0 = OFree" using parts(5) by (simp add: qsgoto_def)
  ultimately have "queue_ok nt ?s' (x # rest) C" using ok t unfolding queue_ok_def by (auto simp: qsgoto_def)
  then show ?thesis using X x(3) by blast
qed

section \<open>Every step\<close>

text \<open>What a step does to the values in the queue: it leaves them, it adds some at the end, or it takes the first.\<close>

definition fifo :: "nat list \<Rightarrow> nat list \<Rightarrow> nat list \<Rightarrow> nat list \<Rightarrow> bool" where
  "fifo popped vs popped' vs' \<longleftrightarrow>
     (popped' = popped \<and> (\<exists>added. vs' = vs @ added)) \<or> (\<exists>v. popped' = popped @ [v] \<and> vs = v # vs')"

definition queue_next :: "nat \<Rightarrow> queue_sys \<Rightarrow> node_ptr list \<Rightarrow> queue_sys \<Rightarrow> bool" where
  "queue_next nt s X s' \<longleftrightarrow>
     (\<exists>X' C'. queue_ok nt s' X' C' \<and> fifo (ms_popped s) (map (ms_value s) (tl X)) (ms_popped s') (map (ms_value s') (tl X')))"

lemma queue_next_same:
  assumes "queue_ok nt s' X C'" "ms_popped s' = ms_popped s" "map (ms_value s') (tl X) = map (ms_value s) (tl X)"
  shows "queue_next nt s X s'"
  using assms unfolding queue_next_def fifo_def by (metis append_Nil2)

lemma queue_next_goto:
  assumes "queue_ok nt s X C" "t < nt" "queue_current s p" "pushing p = pushing (ms_pc s t)" "closed_pc p = closed_pc (ms_pc s t)"
    "\<And>n v. p \<noteq> QValue n v" "\<And>n v. ms_pc s t \<noteq> QValue n v" "\<And>n r. pushing p = Some n \<Longrightarrow> tail_ref p = Some r \<Longrightarrow> ref_ok s n r"
  shows "queue_next nt s X (qsgoto s t p)"
proof (rule queue_next_same)
  show "queue_ok nt (qsgoto s t p) X C" by (rule queue_ok_goto [OF assms])
qed (simp_all add: qsgoto_def)

lemma queue_next_swing:
  assumes ok: "queue_ok nt s X C" and x: "x = ms_next s (ms_tail s)" "x \<noteq> 0" and nw: "ms_tcount s \<noteq> - 1"
    and "t < nt" "queue_current (s\<lparr>ms_tail := x, ms_tcount := ms_tcount s + 1\<rparr>) p"
    and "pushing p = pushing (ms_pc s t)" "closed_pc p = closed_pc (ms_pc s t)"
    "\<And>n v. p \<noteq> QValue n v" "\<And>n v. ms_pc s t \<noteq> QValue n v" "\<And>n r. pushing p = Some n \<Longrightarrow> tail_ref p = Some r \<Longrightarrow> ref_ok s n r"
  shows "queue_next nt s X (qsgoto (s\<lparr>ms_tail := x, ms_tcount := ms_tcount s + 1\<rparr>) t p)"
proof -
  have "queue_next nt (s\<lparr>ms_tail := x, ms_tcount := ms_tcount s + 1\<rparr>) X (qsgoto (s\<lparr>ms_tail := x, ms_tcount := ms_tcount s + 1\<rparr>) t p)"
    by (rule queue_next_goto [OF queue_ok_swing [OF ok x nw]]) (use assms in auto)
  then show ?thesis by (simp add: queue_next_def)
qed

lemma tail_ref_ok:
  assumes "queue_ok nt s X C"
  shows "ref_ok s n (ms_tail s)"
proof -
  note main = queue_okD(1) [OF assms]
  then have "ms_own s (ms_tail s) = OMain" unfolding own_main [OF main] by (simp add: main_ok_def)
  then show ?thesis by (simp add: ref_at_def)
qed

lemma tail_count: "queue_ok nt s X C \<Longrightarrow> ms_next s (ms_tail s) = 0 \<Longrightarrow> ms_ncount s (ms_tail s) = 0"
  by (auto simp: queue_ok_def main_ok_def link_counts_def)

lemma queue_next_link:
  assumes ok: "queue_ok nt s X C" and t: "t < nt" and pc: "ms_pc s t = QLink n c r k" and free: "ms_next s r = 0" "ms_ncount s r = k"
  shows "queue_next nt s X (linked s t n c r)"
proof -
  obtain zs C' where q: "queue_ok nt (linked s t n c r) (X @ zs) C'" using queue_ok_link [OF assms] by blast
  have "X \<noteq> []" using head_in [OF queue_okD(1) [OF ok]] by auto
  then have "map (ms_value s) (tl (X @ zs)) = map (ms_value s) (tl X) @ map (ms_value s) zs" by (cases X) auto
  then show ?thesis using q unfolding queue_next_def fifo_def by (intro exI [of _ "X @ zs"] exI [of _ C']) simp
qed

lemma queue_next_unlink:
  assumes ok: "queue_ok nt s X C" and t: "t < nt" and pc: "ms_pc s t = RCas (ms_hcount s) (ms_head s) x v" and nw: "ms_hcount s \<noteq> - 1"
  shows "queue_next nt s X
    (qsgoto (s\<lparr>ms_head := x, ms_hcount := ms_hcount s + 1, ms_popped := ms_popped s @ [v], ms_own := (ms_own s)(ms_head s := OFree)\<rparr>) t QIdle)"
    (is "queue_next nt s X ?s'")
proof -
  obtain rest where r: "X = ms_head s # x # rest" "v = ms_value s x" "queue_ok nt ?s' (x # rest) C"
    using queue_ok_unlink [OF assms] by blast
  then show ?thesis unfolding queue_next_def fifo_def
    by (intro exI [of _ "x # rest"] exI [of _ C]) (simp add: qsgoto_def)
qed

lemma queue_next_push:
  assumes ok: "queue_ok nt s X C" and t: "t < nt" and nw: "ms_tcount s \<noteq> - 1" and step: "fev_simple_mpmc_queue_push_step t s = Some s'"
  shows "queue_next nt s X s'"
proof -
  note go = queue_next_goto [OF ok t]
  note cur = threads_okD(3) [OF queue_okD(2) [OF ok], of t] and ref = threads_okD(4) [OF queue_okD(2) [OF ok], of t]
  show ?thesis
  proof (cases "ms_pc s t")
    case (QValue n v)
    have "ms_own s n = OThread t" using threads_okD(1) [OF queue_okD(2) [OF ok], of t] QValue
      by (simp add: thread_nodes_def node_list_def)
    then have "n \<notin> set X" using own_main [OF queue_okD(1) [OF ok], of n] by simp
    then have "n \<notin> set (tl X)" by (cases X) auto
    then have "queue_next nt s X (qsgoto (s\<lparr>ms_value := (ms_value s)(n := v)\<rparr>) t (QNext n))"
      by (intro queue_next_same [OF queue_ok_value [OF ok t QValue]]) (simp_all add: qsgoto_def)
    then show ?thesis using step QValue by (simp add: fev_simple_mpmc_queue_push_step_def)
  next
    case (QNext n)
    have "queue_next nt s X (qsgoto (s\<lparr>ms_next := (ms_next s)(n := 0)\<rparr>) t (QCount n))"
      by (intro queue_next_same [OF queue_ok_next [OF ok t QNext]]) (simp_all add: qsgoto_def)
    then show ?thesis using step QNext by (simp add: fev_simple_mpmc_queue_push_step_def)
  next
    case (QCount n)
    have "queue_next nt s X (qsgoto (s\<lparr>ms_ncount := (ms_ncount s)(n := 0)\<rparr>) t (QTailC n))"
      by (intro queue_next_same [OF queue_ok_count [OF ok t QCount]]) (simp_all add: qsgoto_def)
    then show ?thesis using step QCount by (simp add: fev_simple_mpmc_queue_push_step_def)
  next
    case (QTailC n)
    then show ?thesis using step go [of "QTailP n (ms_tcount s)"] by (simp add: fev_simple_mpmc_queue_push_step_def)
  next
    case (QTailP n c)
    then show ?thesis using step go [of "QNextC n c (ms_tail s)"] cur tail_ref_ok [OF ok]
      by (auto simp: fev_simple_mpmc_queue_push_step_def)
  next
    case (QNextC n c r)
    then show ?thesis using step go [of "QNextP n c r (ms_ncount s r)"] cur ref tail_count [OF ok]
      by (auto simp: fev_simple_mpmc_queue_push_step_def)
  next
    case (QNextP n c r k)
    then show ?thesis using step go [of "QCheck n c r k (ms_next s r)"] cur ref
      by (auto simp: fev_simple_mpmc_queue_push_step_def)
  next
    case (QCheck n c r k x)
    then show ?thesis using step go [of "QTailC n"] go [of "QHelp n c r x"] go [of "QLink n c r k"] cur ref
      by (auto simp: fev_simple_mpmc_queue_push_step_def split: if_splits)
  next
    case (QHelp n c r x)
    have miss: "queue_next nt s X (qsgoto s t (QNextC n (ms_tcount s) (ms_tail s)))"
      by (rule go) (use QHelp tail_ref_ok [OF ok] in auto)
    show ?thesis
    proof (cases "ms_tail s = r \<and> ms_tcount s = c")
      case True
      then have "x = ms_next s (ms_tail s)" "x \<noteq> 0" using cur QHelp by simp_all
      moreover have "c \<le> c + 1 \<and> c \<noteq> c + 1" using count_succ [OF nw order_refl] True by simp
      ultimately have "queue_next nt s X (qsgoto (s\<lparr>ms_tail := x, ms_tcount := ms_tcount s + 1\<rparr>) t (QNextC n c r))"
        by (intro queue_next_swing [OF ok _ _ nw t]) (use QHelp True ref in auto)
      then show ?thesis using step QHelp True by (simp add: fev_simple_mpmc_queue_push_step_def)
    next
      case False
      then show ?thesis using step QHelp miss by (auto simp: fev_simple_mpmc_queue_push_step_def)
    qed
  next
    case (QLink n c r k)
    show ?thesis
    proof (cases "ms_next s r = 0 \<and> ms_ncount s r = k")
      case True
      then have "s' = linked s t n c r" using step QLink cur by (auto simp: fev_simple_mpmc_queue_push_step_def linked_def)
      then show ?thesis using queue_next_link [OF ok t QLink] True by simp
    next
      case False
      then show ?thesis using step QLink go [of "QTailC n"] by (auto simp: fev_simple_mpmc_queue_push_step_def split: if_splits)
    qed
  next
    case (QSwing n c r)
    have miss: "queue_next nt s X (qsgoto s t QIdle)" by (rule go) (use QSwing in simp_all)
    show ?thesis
    proof (cases "ms_tail s = r \<and> ms_tcount s = c")
      case True
      then have "n = ms_next s (ms_tail s)" "n \<noteq> 0" using cur QSwing by simp_all
      then have "queue_next nt s X (qsgoto (s\<lparr>ms_tail := n, ms_tcount := ms_tcount s + 1\<rparr>) t QIdle)"
        by (rule queue_next_swing [OF ok _ _ nw t]) (use QSwing in simp_all)
      then show ?thesis using step QSwing True by (simp add: fev_simple_mpmc_queue_push_step_def)
    next
      case False
      then show ?thesis using step QSwing miss by (auto simp: fev_simple_mpmc_queue_push_step_def)
    qed
  qed (use step in \<open>simp_all add: fev_simple_mpmc_queue_push_step_def\<close>)
qed

lemma queue_next_pop:
  assumes ok: "queue_ok nt s X C" and t: "t < nt" and nw: "ms_tcount s \<noteq> - 1" "ms_hcount s \<noteq> - 1"
    and step: "fev_simple_mpmc_queue_pop_step t s = Some s'"
  shows "queue_next nt s X s'"
proof -
  note go = queue_next_goto [OF ok t] and cur = threads_okD(3) [OF queue_okD(2) [OF ok], of t]
  show ?thesis
  proof (cases "ms_pc s t")
    case RHeadC
    then show ?thesis using step go [of "RHeadP (ms_hcount s)"] by (simp add: fev_simple_mpmc_queue_pop_step_def)
  next
    case (RHeadP hc)
    then show ?thesis using step cur go [of "RTailC hc (ms_head s)"] by (simp add: fev_simple_mpmc_queue_pop_step_def)
  next
    case (RTailC hc h)
    then show ?thesis using step cur go [of "RTailP hc h (ms_tcount s)"] by (simp add: fev_simple_mpmc_queue_pop_step_def)
  next
    case (RTailP hc h tc)
    then show ?thesis using step cur go [of "RNext hc h tc (ms_tail s)"] by (auto simp: fev_simple_mpmc_queue_pop_step_def)
  next
    case (RNext hc h tc r)
    consider (none) "h = r" "ms_next s h = 0" | (behind) "h = r" "ms_next s h \<noteq> 0" | (again) "h \<noteq> r" "ms_next s h = 0" | (val) "h \<noteq> r" "ms_next s h \<noteq> 0"
      by blast
    then show ?thesis
    proof cases
      case none
      have "queue_ok nt (s\<lparr>ms_empties := ms_empties s + 1\<rparr>) X C"
      proof -
        let ?e = "s\<lparr>ms_empties := ms_empties s + 1\<rparr>"
        have "queue_current ?e q = queue_current s q" "owed ?e q ys = owed s q ys" for q ys by (cases q; simp)+
        then show ?thesis using ok
          by (simp add: queue_ok_def main_ok_def threads_ok_def values_ok_def thread_nodes_def link_counts_def)
      qed
      then have "queue_next nt (s\<lparr>ms_empties := ms_empties s + 1\<rparr>) X (qsgoto (s\<lparr>ms_empties := ms_empties s + 1\<rparr>) t QIdle)"
        by (rule queue_next_goto [OF _ t]) (use RNext in auto)
      then have "queue_next nt s X (qsgoto (s\<lparr>ms_empties := ms_empties s + 1\<rparr>) t QIdle)" by (simp add: queue_next_def)
      then show ?thesis using step RNext none by (simp add: fev_simple_mpmc_queue_pop_step_def Let_def)
    next
      case behind
      then show ?thesis using step cur RNext go [of "RHelp tc r (ms_next s h)"]
        by (auto simp: fev_simple_mpmc_queue_pop_step_def Let_def)
    next
      case again
      then show ?thesis using step cur RNext go [of RHeadC] by (simp add: fev_simple_mpmc_queue_pop_step_def Let_def)
    next
      case val
      then show ?thesis using step cur RNext go [of "RValue hc h (ms_next s h)"]
        by (simp add: fev_simple_mpmc_queue_pop_step_def Let_def)
    qed
  next
    case (RHelp tc r x)
    have miss: "queue_next nt s X (qsgoto s t RHeadC)" by (rule go) (use RHelp in simp_all)
    show ?thesis
    proof (cases "ms_tail s = r \<and> ms_tcount s = tc")
      case True
      then have "x = ms_next s (ms_tail s)" "x \<noteq> 0" using cur RHelp by simp_all
      then have "queue_next nt s X (qsgoto (s\<lparr>ms_tail := x, ms_tcount := ms_tcount s + 1\<rparr>) t RHeadC)"
        by (rule queue_next_swing [OF ok _ _ nw(1) t]) (use RHelp in simp_all)
      then show ?thesis using step RHelp True by (simp add: fev_simple_mpmc_queue_pop_step_def)
    next
      case False
      then show ?thesis using step RHelp miss by (auto simp: fev_simple_mpmc_queue_pop_step_def)
    qed
  next
    case (RValue hc h x)
    then show ?thesis using step cur go [of "RCas hc h x (ms_value s x)"] by (simp add: fev_simple_mpmc_queue_pop_step_def)
  next
    case (RCas hc h x v)
    have miss: "queue_next nt s X (qsgoto s t (RTailC (ms_hcount s) (ms_head s)))"
      by (rule go) (use RCas in simp_all)
    show ?thesis
    proof (cases "ms_head s = h \<and> ms_hcount s = hc")
      case True
      then have "ms_pc s t = RCas (ms_hcount s) (ms_head s) x v" using RCas by simp
      from queue_next_unlink [OF ok t this nw(2)] show ?thesis using step RCas True
        by (simp add: fev_simple_mpmc_queue_pop_step_def)
    next
      case False
      then show ?thesis using step RCas miss by (auto simp: fev_simple_mpmc_queue_pop_step_def)
    qed
  qed (use step in \<open>simp_all add: fev_simple_mpmc_queue_pop_step_def\<close>)
qed

lemma queue_next_step:
  assumes ok: "queue_ok nt s X C" and step: "queue_step nt e s = Some s'"
  shows "queue_next nt s X s'"
proof (cases e)
  case (QPush t n v)
  then have a: "t < nt" "ms_pc s t = QIdle" "n \<noteq> 0" "ms_own s n = OFree" using step by (auto split: if_splits)
  have "queue_next nt s X (qsgoto (s\<lparr>ms_own := (ms_own s)(n := OThread t), ms_stamp := (ms_stamp s)(n := ms_clock s),
      ms_clock := ms_clock s + 1, ms_pushed := ms_pushed s @ [v]\<rparr>) t (QValue n v))"
    by (rule queue_next_same [OF queue_ok_push [OF ok a]]) (simp_all add: qsgoto_def)
  then show ?thesis using step QPush a by simp
next
  case (QPop t)
  then show ?thesis using step queue_next_goto [OF ok, of t RHeadC] by (auto split: if_splits)
next
  case (QStep t)
  then show ?thesis using step queue_next_push [OF ok] queue_next_pop [OF ok] by (auto split: if_splits option.splits)
qed

lemma queue_ok_init:
  assumes "init_node \<noteq> 0"
  shows "queue_ok nt (fev_simple_mpmc_queue_init init_node nxt cnt) [init_node] (\<lambda>t. [])"
proof -
  let ?s = "fev_simple_mpmc_queue_init init_node nxt cnt"
  have "main_ok ?s [init_node]" using assms by (auto simp: main_ok_def link_counts_def fev_simple_mpmc_queue_init_def)
  moreover have "threads_ok ?s (\<lambda>t. [])"
    by (auto simp: threads_ok_def thread_nodes_def node_list_def fev_simple_mpmc_queue_init_def)
  moreover have "values_ok nt ?s [init_node] (\<lambda>t. [])" by (simp add: values_ok_def fev_simple_mpmc_queue_init_def)
  ultimately show ?thesis using assms by (simp add: queue_ok_def fev_simple_mpmc_queue_init_def)
qed

lemma queue_ok_step: "\<exists>X C. queue_ok nt s X C \<Longrightarrow> queue_step nt e s = Some s' \<Longrightarrow> \<exists>X C. queue_ok nt s' X C"
  using queue_next_step unfolding queue_next_def by blast

interpretation squeue: step_invariant "queue_step nt" "\<lambda>s. \<exists>n nxt cnt. n \<noteq> 0 \<and> s = fev_simple_mpmc_queue_init n nxt cnt"
    "\<lambda>s. \<exists>X C. queue_ok nt s X C" for nt
proof unfold_locales
  fix s
  assume "\<exists>n nxt cnt. n \<noteq> 0 \<and> s = fev_simple_mpmc_queue_init n nxt cnt"
  then show "\<exists>X C. queue_ok nt s X C" using queue_ok_init by blast
next
  fix s e s'
  assume "\<exists>X C. queue_ok nt s X C" "queue_step nt e s = Some s'"
  then show "\<exists>X C. queue_ok nt s' X C" by (rule queue_ok_step)
qed

definition fev_simple_mpmc_queue_fini :: "queue_sys \<Rightarrow> node_ptr" where
  "fev_simple_mpmc_queue_fini s = ms_head s"

section \<open>The properties\<close>

lemma owed_idle: "threads_ok s C \<Longrightarrow> \<forall>t. ms_pc s t = QIdle \<Longrightarrow> owed s (ms_pc s t) (C t) = {#}"
  using threads_okD(1) [of s C t] by (simp add: thread_nodes_def node_list_def)

text \<open>
  C23. In every interleaving of any number of threads that push and pop, freed nodes being pushed again at once included, the
  nodes from the head on are a finite chain of different nodes with the tail among them; the values that were popped and the
  values in the chain, behind the first node, are values that were pushed, none more often than it was pushed; and they are
  all of them once no thread is inside an operation. Every step leaves the values in the chain, adds some at its end, or
  takes the first one, which is the one that the pop returns.
\<close>

theorem fev_simple_mpmc_queue_fifo:
  assumes "init_node \<noteq> 0" "run (queue_step nt) (fev_simple_mpmc_queue_init init_node nxt cnt) sched = Some s"
  shows "\<exists>X. chain (ms_next s) (ms_head s) X \<and> distinct X \<and> ms_tail s \<in> set X \<and>
    mset (ms_popped s) + mset (map (ms_value s) (tl X)) \<subseteq># mset (ms_pushed s) \<and>
    ((\<forall>t. ms_pc s t = QIdle) \<longrightarrow> mset (ms_pushed s) = mset (ms_popped s) + mset (map (ms_value s) (tl X))) \<and>
    (\<forall>e s'. queue_step nt e s = Some s' \<longrightarrow>
       (\<exists>X'. chain (ms_next s') (ms_head s') X' \<and>
          fifo (ms_popped s) (map (ms_value s) (tl X)) (ms_popped s') (map (ms_value s') (tl X'))))"
proof -
  obtain X C where ok: "queue_ok nt s X C" using squeue.inv_run_init assms by blast
  have v: "mset (ms_pushed s) = mset (ms_popped s) + mset (map (ms_value s) (tl X)) + (\<Sum>t<nt. owed s (ms_pc s t) (C t))"
    using queue_okD(3) [OF ok] by (simp add: values_ok_def)
  have "mset (ms_popped s) + mset (map (ms_value s) (tl X)) \<subseteq># mset (ms_pushed s)" unfolding v by (rule mset_subset_eq_add_left)
  moreover have "mset (ms_pushed s) = mset (ms_popped s) + mset (map (ms_value s) (tl X))" if "\<forall>t. ms_pc s t = QIdle"
    using v owed_idle [OF queue_okD(2) [OF ok] that] by simp
  moreover have "\<exists>X'. chain (ms_next s') (ms_head s') X' \<and> fifo (ms_popped s) (map (ms_value s) (tl X)) (ms_popped s') (map (ms_value s') (tl X'))"
    if "queue_step nt e s = Some s'" for e s'
    using queue_next_step [OF ok that] unfolding queue_next_def queue_ok_def main_ok_def by blast
  ultimately show ?thesis using queue_okD(1) [OF ok] by (auto simp: main_ok_def)
qed

text \<open>
  A whole push and a whole pop without interference. In the first run below thread 0 has begun to push node 24 behind node 8,
  which thread 1 then takes out and prepares for a push of its own; thread 0 links behind it there.
\<close>

definition push_run :: "nat \<Rightarrow> node_ptr \<Rightarrow> nat \<Rightarrow> queue_event list" where
  "push_run t n v = QPush t n v # replicate 10 (QStep t)"

definition pop_run :: "nat \<Rightarrow> queue_event list" where
  "pop_run t = QPop t # replicate 7 (QStep t)"

definition stale_link_run :: "nat \<Rightarrow> nat \<Rightarrow> node_ptr \<Rightarrow> node_ptr \<Rightarrow> node_ptr \<Rightarrow> queue_event list" where
  "stale_link_run t u h a b =
     QPush t a 7 # replicate 8 (QStep t) @ push_run u b 5 @ pop_run u @ QPush u h 6 # replicate 3 (QStep u) @ replicate 2 (QStep t)"

theorem fev_simple_mpmc_queue_fifo_witness:
  "\<exists>s. run (queue_step 2) (fev_simple_mpmc_queue_init 8 (\<lambda>_. 0) (\<lambda>_. 0)) (stale_link_run 0 1 8 24 16 @ replicate 7 (QStep 1)) = Some s \<and>
     (ms_pushed s, ms_popped s, ms_head s, ms_next s 16, ms_next s 8, ms_next s 24, map (ms_value s) [8, 24]) = ([7, 5, 6], [5], 16, 8, 24, 0, [6, 7]) \<and>
     (\<exists>X. chain (ms_next s) (ms_head s) X \<and> distinct X \<and> mset (ms_popped s) + mset (map (ms_value s) (tl X)) \<subseteq># mset (ms_pushed s))"
proof -
  have "map_option (\<lambda>s. (ms_pushed s, ms_popped s, ms_head s, ms_next s 16, ms_next s 8, ms_next s 24, map (ms_value s) [8, 24]))
     (run (queue_step 2) (fev_simple_mpmc_queue_init 8 (\<lambda>_. 0) (\<lambda>_. 0)) (stale_link_run 0 1 8 24 16 @ replicate 7 (QStep 1))) = Some ([7, 5, 6], [5], 16, 8, 24, 0, [6, 7])" by code_simp
  then obtain s where r: "run (queue_step 2) (fev_simple_mpmc_queue_init 8 (\<lambda>_. 0) (\<lambda>_. 0)) (stale_link_run 0 1 8 24 16 @ replicate 7 (QStep 1)) = Some s"
      "(ms_pushed s, ms_popped s, ms_head s, ms_next s 16, ms_next s 8, ms_next s 24, map (ms_value s) [8, 24]) = ([7, 5, 6], [5], 16, 8, 24, 0, [6, 7])"
    by (rule observeE)
  have "(8 :: node_ptr) \<noteq> 0" by simp
  from fev_simple_mpmc_queue_fifo [OF this r(1)]
  have "\<exists>X. chain (ms_next s) (ms_head s) X \<and> distinct X \<and> mset (ms_popped s) + mset (map (ms_value s) (tl X)) \<subseteq># mset (ms_pushed s)"
    by (elim exE conjE) (intro exI conjI)
  then show ?thesis by (intro exI [of _ s] conjI r)
qed

text \<open>A run all of whose states satisfy a condition, the first and the last included.\<close>

fun run_through :: "('e \<Rightarrow> 's \<Rightarrow> 's option) \<Rightarrow> ('s \<Rightarrow> bool) \<Rightarrow> 's \<Rightarrow> 'e list \<Rightarrow> 's option" where
  "run_through f P s [] = (if P s then Some s else None)"
| "run_through f P s (e # es) = (if P s then case f e s of None \<Rightarrow> None | Some s' \<Rightarrow> run_through f P s' es else None)"

text \<open>Thread \<open>t\<close> reads the head; \<open>u\<close> takes out the node \<open>h\<close> at the head and pushes it again; \<open>t\<close> goes on.\<close>

definition stale_head_run :: "nat \<Rightarrow> nat \<Rightarrow> node_ptr \<Rightarrow> nat \<Rightarrow> queue_event list" where
  "stale_head_run t u h v = QPop t # replicate 2 (QStep t) @ pop_run u @ push_run u h v @ replicate 3 (QStep t)"

text \<open>The counts are not about to go round.\<close>

definition counts_low :: "queue_sys \<Rightarrow> bool" where
  "counts_low s \<longleftrightarrow> (\<forall>k \<in> {0, 1, 2}. ms_hcount s + k \<noteq> - 1 \<and> ms_tcount s + k \<noteq> - 1)"

lemmas queue_eval = pop_run_def push_run_def numeral_eq_Suc qsgoto_def fev_simple_mpmc_queue_push_step_def
  fev_simple_mpmc_queue_pop_step_def Let_def

lemma stale_head_reports_empty:
  assumes "t < nt" "u < nt" "t \<noteq> u" "ms_pc s t = QIdle" "ms_pc s u = QIdle" "counts_low s"
    and "ms_head s = h" "h \<noteq> 0" "ms_next s h = x" "ms_tail s = r" "ms_next s r = 0" "distinct [h, x, r]" "x \<noteq> 0" "ms_next s x \<noteq> 0"
  shows "\<exists>s'. run_through (queue_step nt) (\<lambda>s. ms_next s (ms_head s) \<noteq> 0) s (stale_head_run t u h v) = Some s' \<and>
    ms_pc s' t = QIdle \<and> ms_empties s' = ms_empties s + 1"
  using assms by (simp add: stale_head_run_def queue_eval counts_low_def)

lemma stale_link_hides_push:
  assumes "t < nt" "u < nt" "w < nt" "distinct [t, u, w]" "ms_pc s t = QIdle" "ms_pc s u = QIdle" "ms_pc s w = QIdle" "counts_low s"
    and "ms_head s = h" "ms_tail s = h" "ms_next s h = 0" "ms_ncount s h = 0" "ms_own s a = OFree" "ms_own s b = OFree" "ms_own s h = OMain"
      "distinct [0, h, a, b]"
  shows "\<exists>s1 s2. run (queue_step nt) s (stale_link_run t u h a b) = Some s1 \<and> ms_pc s1 t = QIdle \<and>
    run (queue_step nt) s1 (QPop w # replicate 5 (QStep w)) = Some s2 \<and> ms_pc s2 w = QIdle \<and> ms_empties s2 = ms_empties s1 + 1 \<and>
    ms_pushed s2 = ms_pushed s @ [7, 5, 6] \<and> ms_popped s2 = ms_popped s @ [5]"
  using assms by (simp add: stale_link_run_def queue_eval counts_low_def)

text \<open>
  C24. The queue is not linearizable, whatever its contents: its pops may report an empty queue wrongly, in two ways. First, a pop
  does not look at the head again before it reports an empty queue. In every state with at least two elements, with the tail up to
  date and two idle threads, there is a run in which the queue has an element at every moment and yet a pop, begun and ended in
  the run, reports it empty: after it has read the head, the other thread takes that node out and pushes it again, so that it is the
  tail and has no successor. Second, the preparation of a node sets the count of its link to zero again. In every empty state
  with three idle threads there is a run after which one push has returned (of 7), and yet a pop that begins then reports an empty
  queue, although 7 has not been popped: it was linked behind a node that was not in the queue any more.
\<close>

theorem fev_simple_mpmc_queue_not_linearizable:
  assumes "t < nt" "u < nt" "w < nt" "distinct [t, u, w]" "ms_pc s t = QIdle" "ms_pc s u = QIdle" "ms_pc s w = QIdle" "counts_low s"
    and "ms_head s = h" "h \<noteq> 0"
  shows "(\<forall>x r v. ms_next s h = x \<and> ms_tail s = r \<and> ms_next s r = 0 \<and> distinct [h, x, r] \<and> x \<noteq> 0 \<and> ms_next s x \<noteq> 0 \<longrightarrow>
      (\<exists>s'. run_through (queue_step nt) (\<lambda>s. ms_next s (ms_head s) \<noteq> 0) s (stale_head_run t u h v) = Some s' \<and>
         ms_pc s' t = QIdle \<and> ms_empties s' = ms_empties s + 1)) \<and>
    (\<forall>a b. ms_tail s = h \<and> ms_next s h = 0 \<and> ms_ncount s h = 0 \<and> ms_own s a = OFree \<and> ms_own s b = OFree \<and> ms_own s h = OMain \<and>
        distinct [0, h, a, b] \<longrightarrow>
      (\<exists>s1 s2. run (queue_step nt) s (stale_link_run t u h a b) = Some s1 \<and> ms_pc s1 t = QIdle \<and>
         run (queue_step nt) s1 (QPop w # replicate 5 (QStep w)) = Some s2 \<and> ms_pc s2 w = QIdle \<and> ms_empties s2 = ms_empties s1 + 1 \<and>
         ms_pushed s2 = ms_pushed s @ [7, 5, 6] \<and> ms_popped s2 = ms_popped s @ [5]))"
proof (intro conjI allI impI; elim conjE)
  fix x r v
  assume a: "ms_next s h = x" "ms_tail s = r" "ms_next s r = 0" "distinct [h, x, r]" "x \<noteq> 0" "ms_next s x \<noteq> 0"
  have "t \<noteq> u" using assms(4) by simp
  from stale_head_reports_empty [OF assms(1,2) this assms(5,6,8,9,10) a]
  show "\<exists>s'. run_through (queue_step nt) (\<lambda>s. ms_next s (ms_head s) \<noteq> 0) s (stale_head_run t u h v) = Some s' \<and>
      ms_pc s' t = QIdle \<and> ms_empties s' = ms_empties s + 1" .
next
  fix a b
  assume a: "ms_tail s = h" "ms_next s h = 0" "ms_ncount s h = 0" "ms_own s a = OFree" "ms_own s b = OFree" "ms_own s h = OMain" "distinct [0, h, a, b]"
  from stale_link_hides_push [OF assms(1-9) a]
  show "\<exists>s1 s2. run (queue_step nt) s (stale_link_run t u h a b) = Some s1 \<and> ms_pc s1 t = QIdle \<and>
      run (queue_step nt) s1 (QPop w # replicate 5 (QStep w)) = Some s2 \<and> ms_pc s2 w = QIdle \<and> ms_empties s2 = ms_empties s1 + 1 \<and>
      ms_pushed s2 = ms_pushed s @ [7, 5, 6] \<and> ms_popped s2 = ms_popped s @ [5]" .
qed

text \<open>Two elements after two pushes, and none at the start.\<close>

definition two_pushes :: "queue_event list" where
  "two_pushes = push_run 1 16 5 @ push_run 1 24 6"

theorem fev_simple_mpmc_queue_not_linearizable_witness:
  "(\<exists>s s'. run (queue_step 3) (fev_simple_mpmc_queue_init 8 (\<lambda>_. 0) (\<lambda>_. 0)) two_pushes = Some s \<and>
      run_through (queue_step 3) (\<lambda>s. ms_next s (ms_head s) \<noteq> 0) s (stale_head_run 0 1 8 7) = Some s' \<and> ms_empties s' = ms_empties s + 1) \<and>
   (\<exists>s1 s2. run (queue_step 3) (fev_simple_mpmc_queue_init 8 (\<lambda>_. 0) (\<lambda>_. 0)) (stale_link_run 0 1 8 16 24) = Some s1 \<and>
      run (queue_step 3) s1 (QPop 2 # replicate 5 (QStep 2)) = Some s2 \<and> ms_empties s2 = ms_empties s1 + 1 \<and> ms_popped s2 = [5])"
proof
  let ?i = "fev_simple_mpmc_queue_init 8 (\<lambda>_. 0) (\<lambda>_. 0)"
  have "map_option (\<lambda>s. (map (ms_pc s) [0, 1, 2], ms_hcount s, ms_tcount s, ms_head s, ms_tail s, map (ms_next s) [8, 16, 24]))
     (run (queue_step 3) ?i two_pushes) = Some ([QIdle, QIdle, QIdle], 0, 2, 8, 24, [16, 24, 0])" by code_simp
  then obtain s where r: "run (queue_step 3) ?i two_pushes = Some s"
      "(map (ms_pc s) [0, 1, 2], ms_hcount s, ms_tcount s, ms_head s, ms_tail s, map (ms_next s) [8, 16, 24]) =
        ([QIdle, QIdle, QIdle], 0, 2, 8, 24, [16, 24, 0])"
    by (rule observeE)
  have f: "ms_pc s 0 = QIdle" "ms_pc s 1 = QIdle" "ms_pc s 2 = QIdle" "counts_low s" "ms_head s = 8"
      "ms_next s 8 = 16 \<and> ms_tail s = 24 \<and> ms_next s 24 = 0 \<and> distinct [8, 16, 24 :: node_ptr] \<and> (16 :: node_ptr) \<noteq> 0 \<and> ms_next s 16 \<noteq> 0"
    using r(2) by (simp_all add: counts_low_def)
  have n: "(0 :: nat) < 3" "(1 :: nat) < 3" "(2 :: nat) < 3" "distinct [0, 1, 2 :: nat]" "(8 :: node_ptr) \<noteq> 0" by simp_all
  from fev_simple_mpmc_queue_not_linearizable [OF n(1-4) f(1-5) n(5), THEN conjunct1, rule_format, OF f(6), of 7] r(1)
  show "\<exists>s s'. run (queue_step 3) ?i two_pushes = Some s \<and>
      run_through (queue_step 3) (\<lambda>s. ms_next s (ms_head s) \<noteq> 0) s (stale_head_run 0 1 8 7) = Some s' \<and> ms_empties s' = ms_empties s + 1"
    by (elim exE conjE) (intro exI conjI)
  have g: "ms_pc ?i 0 = QIdle" "ms_pc ?i 1 = QIdle" "ms_pc ?i 2 = QIdle" "counts_low ?i" "ms_head ?i = 8"
      "ms_tail ?i = 8 \<and> ms_next ?i 8 = 0 \<and> ms_ncount ?i 8 = 0 \<and> ms_own ?i 16 = OFree \<and> ms_own ?i 24 = OFree \<and> ms_own ?i 8 = OMain \<and>
        distinct [0, 8, 16, 24 :: node_ptr]" "ms_popped ?i = []"
    by (simp_all add: fev_simple_mpmc_queue_init_def counts_low_def)
  from fev_simple_mpmc_queue_not_linearizable [OF n(1-4) g(1-5) n(5), THEN conjunct2, rule_format, OF g(6), unfolded g(7) append_Nil]
  show "\<exists>s1 s2. run (queue_step 3) ?i (stale_link_run 0 1 8 16 24) = Some s1 \<and>
      run (queue_step 3) s1 (QPop 2 # replicate 5 (QStep 2)) = Some s2 \<and> ms_empties s2 = ms_empties s1 + 1 \<and> ms_popped s2 = [5]"
    by (elim exE conjE) (intro exI conjI)
qed

end
