(* ===== verification/Cxx.thy ===== *)
theory Cxx
  imports Fev_Time "HOL-Library.Signed_Division"
begin

text \<open>
  The C++ interface (\<open>include/fev/fev++.hpp\<close>): how results of the C functions become return values and exceptions, the
  conversion of durations, the waits with a predicate, and the life of the handles that own fibers and sockets. The C
  functions are known by their results, which are arguments of the operations.
\<close>

section \<open>Results\<close>

text \<open>
  A C++ function returns, throws a \<open>std::system_error\<close> with a code, or ends the program by \<open>std::terminate\<close>.
\<close>

datatype 'a outcome = Returns 'a | Throws int | Terminates

definition throw_err :: "int \<Rightarrow> 'a outcome" where
  "throw_err err = Throws (- err)"

definition throw_on_err :: "int \<Rightarrow> 'a \<Rightarrow> 'a outcome" where
  "throw_on_err err x = (if err \<noteq> 0 then throw_err err else Returns x)"

text \<open>\<open>mutex::try_lock_until\<close>, \<open>try_lock_for\<close>, \<open>semaphore::wait_until\<close> and \<open>wait_for\<close>.\<close>

definition try_lock_until :: "int \<Rightarrow> bool outcome" where
  "try_lock_until ret = (if ret = 0 then Returns True else if ret = - ETIMEDOUT then Returns False else throw_err ret)"

text \<open>\<open>condition_variable::wait_until\<close> and \<open>wait_for\<close>.\<close>

datatype cv_status = no_timeout | timeout

definition cv_wait_until :: "int \<Rightarrow> cv_status outcome" where
  "cv_wait_until ret =
     (if ret = 0 \<or> ret = - EAGAIN then Returns no_timeout else if ret = - ETIMEDOUT then Returns timeout else throw_err ret)"

text \<open>\<open>socket::read\<close>, \<open>write\<close> and their timed forms.\<close>

definition socket_read :: "int \<Rightarrow> int outcome" where
  "socket_read ret = (if ret < 0 then throw_err ret else Returns ret)"

section \<open>Durations\<close>

text \<open>
  A duration is a number of ticks of \<open>num / den\<close> seconds each. The cast to ticks of \<open>1 / per\<close> seconds multiplies and divides by the
  reduced ratio, in 64 bits; an overflow is undefined.
\<close>

definition duration_cast :: "int \<Rightarrow> int \<Rightarrow> int \<Rightarrow> int \<Rightarrow> int option" where
  "duration_cast per num den c =
     (let g = gcd (num * per) den in do { p \<leftarrow> long_op (c * (num * per div g)); Some (p sdiv (den div g)) })"

text \<open>\<open>time_t\<close> and the number of seconds of a duration are 64-bit integers, so that the range check is compiled away.\<close>

definition duration_to_timespec :: "int \<Rightarrow> int \<Rightarrow> int \<Rightarrow> timespec option" where
  "duration_to_timespec num den c =
     do { sec \<leftarrow> duration_cast 1 num den c;
          ns \<leftarrow> duration_cast FEV_NSECS_PER_SEC num den c;
          Some \<lparr>tv_sec = sec, tv_nsec = ns smod FEV_NSECS_PER_SEC\<rparr> }"

text \<open>The deadline of \<open>condition_variable::wait_for\<close> with a predicate.\<close>

definition cv_wait_for_deadline :: "timespec \<Rightarrow> timespec \<Rightarrow> timespec option" where
  "cv_wait_for_deadline now rel_time =
     do { n \<leftarrow> long_op (tv_nsec now + tv_nsec rel_time);
          d \<leftarrow> long_op (tv_sec rel_time + n sdiv 1000000000);
          sec \<leftarrow> long_op (tv_sec now + d);
          Some \<lparr>tv_sec = sec, tv_nsec = n smod 1000000000\<rparr> }"

lemma sdiv_nonneg: "0 \<le> (a :: int) \<Longrightarrow> 0 < b \<Longrightarrow> a sdiv b = a div b"
  by (cases "a = 0") (simp_all add: signed_divide_int_def)

lemma smod_nonneg: "0 \<le> (a :: int) \<Longrightarrow> 0 < b \<Longrightarrow> a smod b = a mod b"
  by (cases "a = 0") (simp_all add: signed_modulo_int_def)

lemma ratio_reduced:
  fixes c a b :: int
  assumes "0 < a" "0 < b" "0 \<le> c"
  shows "(c * (a div gcd a b)) div (b div gcd a b) = (c * a) div b" "0 < a div gcd a b" "0 < b div gcd a b"
proof -
  define g where "g = gcd a b"
  obtain a' b' where ab: "a = a' * g" "b = b' * g" by (metis g_def gcd_dvd1 gcd_dvd2 dvd_div_mult_self)
  have g: "0 < g" using assms unfolding g_def by simp
  then have d: "a div g = a'" "b div g = b'" using ab by simp_all
  have pos: "0 < a'" "0 < b'" using assms ab g by (simp_all add: zero_less_mult_iff)
  have "(c * a) div b = (c * a' * g) div (b' * g)" using ab by (simp add: mult.assoc)
  also have "\<dots> = (c * a') div b'" using g by simp
  finally show "(c * (a div gcd a b)) div (b div gcd a b) = (c * a) div b" using d unfolding g_def [symmetric] by simp
  show "0 < a div gcd a b" "0 < b div gcd a b" using d pos unfolding g_def [symmetric] by simp_all
qed

lemma duration_cast_nonneg:
  assumes "0 < num" "0 < den" "0 \<le> c" "0 < per" "fits_long (c * (num * per div gcd (num * per) den))"
  shows "duration_cast per num den c = Some ((c * (num * per)) div den)"
proof -
  note r = ratio_reduced [of "num * per" den c]
  have "0 \<le> c * (num * per div gcd (num * per) den)" using r assms by simp
  then show ?thesis using r assms by (simp add: duration_cast_def long_op_def Let_def sdiv_nonneg)
qed

text \<open>
  A duration that is not negative becomes the valid time that has exactly its nanoseconds, rounded down, provided the
  conversion to nanoseconds does not overflow; and the wait on a condition variable with a predicate and a time-out uses
  the deadline that the C library itself would compute.
\<close>

theorem duration_to_timespec_exact:
  assumes "0 < num" "0 < den" "0 \<le> c"
    and "fits_long (c * (num div gcd num den))" "fits_long (c * (num * FEV_NSECS_PER_SEC div gcd (num * FEV_NSECS_PER_SEC) den))"
    and "timespec_wf now"
  shows "\<exists>ts. duration_to_timespec num den c = Some ts \<and> timespec_wf ts \<and> ns ts = (c * num * FEV_NSECS_PER_SEC) div den \<and>
    (tv_sec now + tv_sec ts < LONG_MAX \<longrightarrow>
      (\<exists>d. cv_wait_for_deadline now ts = Some d \<and> fev_get_abs_time_since_now now ts = Some d \<and> ns d = ns now + ns ts))"
proof -
  let ?B = "FEV_NSECS_PER_SEC" and ?sec = "(c * num) div den" and ?T = "(c * num * FEV_NSECS_PER_SEC) div den"
  have B: "0 < ?B" by (simp add: FEV_NSECS_PER_SEC_def)
  have s: "duration_cast 1 num den c = Some ?sec" using duration_cast_nonneg [of num den c 1] assms by simp
  have n: "duration_cast ?B num den c = Some ?T" using duration_cast_nonneg [of num den c ?B] assms B by (simp add: mult.assoc)
  have T: "0 \<le> ?T" "0 \<le> ?sec" using assms B by (simp_all add: pos_imp_zdiv_nonneg_iff)
  have "?T div ?B = (c * num * ?B) div (den * ?B)" using assms(2) B by (simp add: zdiv_zmult2_eq)
  also have "\<dots> = ?sec" using B by simp
  finally have sec: "?T div ?B = ?sec" .
  define ts where "ts = \<lparr>tv_sec = ?sec, tv_nsec = ?T mod ?B\<rparr>"
  have d: "duration_to_timespec num den c = Some ts" using s n T B by (simp add: duration_to_timespec_def ts_def smod_nonneg)
  have "fits_long ?sec"
  proof -
    have "?sec = (c * (num div gcd num den)) div (den div gcd num den)" using ratio_reduced(1) [OF assms(1-3)] by simp
    also have "\<dots> \<le> c * (num div gcd num den)" using ratio_reduced(2,3) [OF assms(1-3)] assms(3) zdiv_mono2 [of "c * (num div gcd num den)" 1 "den div gcd num den"] by simp
    finally show ?thesis using assms(4) T by (simp add: fits_long_def LONG_MAX_def)
  qed
  then have wf: "timespec_wf ts" using T B by (simp add: ts_def timespec_wf_def timespec_valid_def fits_long_def)
  have nsT: "ns ts = ?T" using sec div_mult_mod_eq [of ?T ?B] by (simp add: ns_def ts_def)
  have "\<exists>d. cv_wait_for_deadline now ts = Some d \<and> fev_get_abs_time_since_now now ts = Some d \<and> ns d = ns now + ns ts"
    if small: "tv_sec now + tv_sec ts < LONG_MAX"
  proof -
    have fits: "deadline_fits now ts" using small assms(6) wf by (auto simp: deadline_fits_def ns_def time_defs)
    obtain d where d: "fev_get_abs_time_since_now now ts = Some d" "ns d = ns now + ns ts"
      using abs_time_since_now_wf [OF assms(6) wf] fits by blast
    moreover have "cv_wait_for_deadline now ts = Some d"
      using d(1) assms(6) wf
      by (auto simp: cv_wait_for_deadline_def fev_get_abs_time_since_now_def FEV_NSECS_PER_SEC_def sdiv_nonneg smod_nonneg time_defs
          split: Option.bind_splits if_splits)
    ultimately show ?thesis by blast
  qed
  then show ?thesis using d wf nsT by blast
qed

text \<open>Two and a half seconds in milliseconds.\<close>

theorem duration_to_timespec_exact_witness:
  "\<exists>ts. duration_to_timespec 1 1000 2500 = Some ts \<and> ns ts = 2500000000 \<and>
     (\<exists>d. cv_wait_for_deadline \<lparr>tv_sec = 7, tv_nsec = 600000000\<rparr> ts = Some d \<and> ns d = 10100000000)"
proof -
  have t: "duration_to_timespec 1 1000 2500 = Some \<lparr>tv_sec = 2, tv_nsec = 500000000\<rparr>" by code_simp
  have f: "fits_long (2500 * (1 div gcd 1 1000))" "fits_long (2500 * (1 * FEV_NSECS_PER_SEC div gcd (1 * FEV_NSECS_PER_SEC) 1000))" by code_simp+
  show ?thesis
    using duration_to_timespec_exact [of 1 1000 2500 "\<lparr>tv_sec = 7, tv_nsec = 600000000\<rparr>"] f
    by (auto simp: t time_defs ns_def)
qed

text \<open>
  A negative duration, which the standard library takes as no waiting at all, becomes a time that the C functions
  must not be called with, unless it is a whole number of seconds; and that is before the epoch.
\<close>

theorem negative_duration_is_invalid:
  "duration_to_timespec 1 1000 (- 1) = Some \<lparr>tv_sec = 0, tv_nsec = - 1000000\<rparr> \<and>
   fev_get_abs_time_since_now now \<lparr>tv_sec = 0, tv_nsec = - 1000000\<rparr> = None"
proof
  show "duration_to_timespec 1 1000 (- 1) = Some \<lparr>tv_sec = 0, tv_nsec = - 1000000\<rparr>" by code_simp
qed (simp add: fev_get_abs_time_since_now_def fev_timespec_assert_valid_def)

section \<open>Waiting for a predicate\<close>

text \<open>
  \<open>condition_variable::wait_until\<close> with a predicate. \<open>pred i\<close> is the value of the predicate when it is called for the \<open>i\<close>-th time (from 0), and
  \<open>ret i\<close> the result of the wait after that call. The second result is the number of waits.
\<close>

partial_function (option) cv_wait_until_pred :: "(nat \<Rightarrow> bool) \<Rightarrow> (nat \<Rightarrow> int) \<Rightarrow> nat \<Rightarrow> (bool outcome \<times> nat) option" where
  "cv_wait_until_pred pred ret i =
     (if pred i then Some (Returns True, i)
      else case cv_wait_until (ret i) of
             Returns timeout \<Rightarrow> Some (Returns (pred (Suc i)), Suc i)
           | Returns no_timeout \<Rightarrow> cv_wait_until_pred pred ret (Suc i)
           | Throws e \<Rightarrow> Some (Throws e, Suc i)
           | Terminates \<Rightarrow> Some (Terminates, Suc i))"

text \<open>
  The wait ends with the first call of the predicate that is true, or the first wait that times out or fails, and then returns
  what the predicate says, or throws.
\<close>

theorem cv_wait_until_pred_exact:
  assumes "\<forall>i < n. \<not> pred i \<and> (ret i = 0 \<or> ret i = - EAGAIN)"
  shows "pred n \<Longrightarrow> cv_wait_until_pred pred ret 0 = Some (Returns True, n)"
    and "\<not> pred n \<Longrightarrow> ret n = - ETIMEDOUT \<Longrightarrow> cv_wait_until_pred pred ret 0 = Some (Returns (pred (Suc n)), Suc n)"
    and "\<not> pred n \<Longrightarrow> ret n \<notin> {0, - EAGAIN, - ETIMEDOUT} \<Longrightarrow> cv_wait_until_pred pred ret 0 = Some (Throws (- ret n), Suc n)"
proof -
  have skip: "cv_wait_until_pred pred ret 0 = cv_wait_until_pred pred ret k" if "k \<le> n" for k
    using that
  proof (induction k)
    case (Suc k)
    then have "cv_wait_until_pred pred ret k = cv_wait_until_pred pred ret (Suc k)"
      using assms by (subst cv_wait_until_pred.simps) (auto simp: cv_wait_until_def)
    then show ?case using Suc by simp
  qed simp
  show "pred n \<Longrightarrow> cv_wait_until_pred pred ret 0 = Some (Returns True, n)"
    unfolding skip [OF order_refl] by (subst cv_wait_until_pred.simps) simp
  show "\<not> pred n \<Longrightarrow> ret n = - ETIMEDOUT \<Longrightarrow> cv_wait_until_pred pred ret 0 = Some (Returns (pred (Suc n)), Suc n)"
    unfolding skip [OF order_refl] by (subst cv_wait_until_pred.simps) (simp add: cv_wait_until_def errno_defs)
  show "\<not> pred n \<Longrightarrow> ret n \<notin> {0, - EAGAIN, - ETIMEDOUT} \<Longrightarrow> cv_wait_until_pred pred ret 0 = Some (Throws (- ret n), Suc n)"
    unfolding skip [OF order_refl] by (subst cv_wait_until_pred.simps) (simp add: cv_wait_until_def throw_err_def)
qed

end
