(* ===== verification/Cxx_Handles.thy ===== *)
theory Cxx_Handles
  imports Cxx
begin

text \<open>
  The handles of the C++ interface (\<open>include/fev/fev++.hpp\<close>): the classes \<open>fiber\<close> and \<open>socket\<close>, whose objects own a fiber or a socket of
  the C library. A program is a sequence of constructions, moves, calls and destructions of variables of these classes. The
  handles of the other classes (attributes, scheduler, mutex, condition variable, semaphore) own their object in the
  same way as a socket without a descriptor.
\<close>

section \<open>Ownership\<close>

text \<open>
  \<open>vars v\<close> is the pointer in variable \<open>v\<close>, \<open>0\<close> when it is empty, and \<open>None\<close> outside its lifetime. No two variables own the same object, and
  the owned objects are exactly \<open>objs\<close>.
\<close>

definition owns :: "(nat \<rightharpoonup> addr) \<Rightarrow> addr set \<Rightarrow> bool" where
  "owns vars objs \<longleftrightarrow>
     (\<forall>v w p. vars v = Some p \<longrightarrow> vars w = Some p \<longrightarrow> p \<noteq> 0 \<longrightarrow> v = w) \<and> objs = {p. p \<noteq> 0 \<and> (\<exists>v. vars v = Some p)}"

lemma owns_empty [simp]: "owns Map.empty {}"
  by (simp add: owns_def)

lemma owns_member: "owns vars objs \<Longrightarrow> vars v = Some p \<Longrightarrow> p \<noteq> 0 \<Longrightarrow> p \<in> objs"
  by (auto simp: owns_def)

lemma owns_none: "owns vars objs \<Longrightarrow> \<forall>v. vars v = None \<Longrightarrow> objs = {}"
  by (auto simp: owns_def)

lemma ownsI:
  assumes "\<And>v w p. vars v = Some p \<Longrightarrow> vars w = Some p \<Longrightarrow> p \<noteq> 0 \<Longrightarrow> v = w"
    and "\<And>p. p \<noteq> 0 \<Longrightarrow> (\<exists>v. vars v = Some p) \<longleftrightarrow> p \<in> objs" and "0 \<notin> objs"
  shows "owns vars objs"
proof -
  have "p \<in> objs \<longleftrightarrow> p \<noteq> 0 \<and> (\<exists>v. vars v = Some p)" for p using assms(2) [of p] assms(3) by (cases "p = 0") auto
  then have "objs = {p. p \<noteq> 0 \<and> (\<exists>v. vars v = Some p)}" by blast
  then show ?thesis using assms(1) unfolding owns_def by blast
qed

lemma ownsD:
  assumes "owns vars objs"
  shows "vars v = Some p \<Longrightarrow> vars w = Some p \<Longrightarrow> p \<noteq> 0 \<Longrightarrow> v = w" "p \<noteq> 0 \<Longrightarrow> p \<in> objs \<longleftrightarrow> (\<exists>v. vars v = Some p)" "0 \<notin> objs"
  using assms unfolding owns_def by blast+

lemma owns_new:
  assumes "owns vars objs" "vars v = None" "p \<noteq> 0" "p \<notin> objs"
  shows "owns (vars(v \<mapsto> p)) (insert p objs)"
proof (rule ownsI)
  fix u w q
  assume a: "(vars(v \<mapsto> p)) u = Some q" "(vars(v \<mapsto> p)) w = Some q" "q \<noteq> 0"
  then show "u = w" using ownsD(1) [OF assms(1), of u q w] ownsD(2) [OF assms(1), of p] assms(3,4) by (auto split: if_splits)
next
  fix q :: addr
  assume "q \<noteq> 0"
  then show "(\<exists>u. (vars(v \<mapsto> p)) u = Some q) \<longleftrightarrow> q \<in> insert p objs"
    using ownsD(2) [OF assms(1), of q] assms(2) by (metis fun_upd_other fun_upd_same insert_iff option.distinct(1) option.inject)
qed (use assms ownsD(3) in auto)

lemma owns_null:
  assumes "owns vars objs" "vars v = None \<or> vars v = Some 0"
  shows "owns (vars(v \<mapsto> 0)) objs"
proof (rule ownsI)
  fix q :: addr
  assume "q \<noteq> 0"
  then show "(\<exists>u. (vars(v \<mapsto> 0)) u = Some q) \<longleftrightarrow> q \<in> objs"
    using ownsD(2) [OF assms(1), of q] assms(2) by (metis fun_upd_other fun_upd_same option.distinct(1) option.inject)
qed (use assms ownsD in \<open>auto split: if_splits\<close>)

lemma owns_drop:
  assumes "owns vars objs" "vars v = Some p" "p \<noteq> 0"
  shows "owns (vars(v \<mapsto> 0)) (objs - {p})"
proof (rule ownsI)
  fix q :: addr
  assume q: "q \<noteq> 0"
  show "(\<exists>u. (vars(v \<mapsto> 0)) u = Some q) \<longleftrightarrow> q \<in> objs - {p}"
  proof (cases "q = p")
    case True
    then show ?thesis using ownsD(1) [OF assms(1,2) _ assms(3)] assms(3) by (auto split: if_splits)
  next
    case False
    then show ?thesis using ownsD(2) [OF assms(1) q] assms(2) q by (metis Diff_iff fun_upd_other fun_upd_same option.inject singletonD)
  qed
qed (use assms ownsD in \<open>auto split: if_splits\<close>)

lemma owns_swap:
  assumes "owns vars objs" "vars v = Some p" "vars w = Some q"
  shows "owns (vars(v \<mapsto> q, w \<mapsto> p)) objs"
proof (rule ownsI)
  fix r :: addr
  assume "r \<noteq> 0"
  then show "(\<exists>u. (vars(v \<mapsto> q, w \<mapsto> p)) u = Some r) \<longleftrightarrow> r \<in> objs"
    using ownsD(2) [OF assms(1), of r] assms(2,3) by (metis fun_upd_other fun_upd_same)
next
  fix a b r
  assume h: "(vars(v \<mapsto> q, w \<mapsto> p)) a = Some r" "(vars(v \<mapsto> q, w \<mapsto> p)) b = Some r" "r \<noteq> 0"
  define f where "f = (\<lambda>u. if u = w then v else if u = v then w else u)"
  have "vars (f u) = (vars(v \<mapsto> q, w \<mapsto> p)) u" for u using assms(2,3) by (simp add: f_def)
  then have "f a = f b" using ownsD(1) [OF assms(1)] h by metis
  then show "a = b" by (auto simp: f_def split: if_splits)
qed (use ownsD(3) [OF assms(1)] in simp)

lemma owns_move:
  assumes "owns vars objs" "vars v = None \<or> vars v = Some 0" "vars w = Some p"
  shows "owns (vars(v \<mapsto> p, w \<mapsto> 0)) objs"
proof (cases "v = w")
  case True
  then show ?thesis using assms owns_null by simp
next
  case False
  then show ?thesis using owns_swap [OF owns_null [OF assms(1,2)], of v 0 w p] assms(3) by simp
qed

lemma owns_remove: "owns vars objs \<Longrightarrow> vars v = Some 0 \<Longrightarrow> owns (vars(v := None)) objs"
proof -
  assume a: "owns vars objs" "vars v = Some 0"
  show ?thesis
  proof (rule ownsI)
    fix q :: addr
    assume "q \<noteq> 0"
    then show "(\<exists>u. (vars(v := None)) u = Some q) \<longleftrightarrow> q \<in> objs"
      using ownsD(2) [OF a(1), of q] a(2) by (metis fun_upd_apply option.distinct(1) option.inject)
  qed (use a ownsD in \<open>auto split: if_splits\<close>)
qed

section \<open>Fibers\<close>

text \<open>
  \<open>fx_joinable\<close> are the joinable fibers that nobody has joined or detached, \<open>fx_done\<close> those that were, in order; \<open>fx_fault\<close> is set when
  \<open>fev_fiber_join\<close> or \<open>fev_fiber_detach\<close> is called with anything else, and \<open>fx_ended\<close> by \<open>std::terminate\<close>.
\<close>

record fiber_cxx =
  fx_vars :: "nat \<rightharpoonup> addr"
  fx_joinable :: "addr set"
  fx_done :: "addr list"
  fx_created :: "addr list"
  fx_fault :: bool
  fx_ended :: bool

definition fiber_impl :: "fiber_cxx \<Rightarrow> nat \<Rightarrow> addr" where
  "fiber_impl s v = (case fx_vars s v of None \<Rightarrow> 0 | Some p \<Rightarrow> p)"

definition fiber_joinable :: "fiber_cxx \<Rightarrow> nat \<Rightarrow> bool" where
  "fiber_joinable s v \<longleftrightarrow> fiber_impl s v \<noteq> 0"

definition fiber_ctor :: "nat \<Rightarrow> fiber_cxx \<Rightarrow> fiber_cxx" where
  "fiber_ctor v s = s\<lparr>fx_vars := (fx_vars s)(v \<mapsto> 0)\<rparr>"

text \<open>
  \<open>create_impl\<close>: \<open>fiber_attr\<close> is \<open>None\<close> or the detached flag of the attributes, \<open>err\<close> and \<open>p\<close> the results of \<open>fev_fiber_create\<close>. When a
  constructor throws, the variable does not come to life.
\<close>

definition fiber_create_impl :: "nat \<Rightarrow> bool option \<Rightarrow> int \<Rightarrow> addr \<Rightarrow> fiber_cxx \<Rightarrow> fiber_cxx outcome" where
  "fiber_create_impl v fiber_attr err p s =
     throw_on_err err
       (if fiber_attr = None \<or> fiber_attr = Some False
        then s\<lparr>fx_vars := (fx_vars s)(v \<mapsto> p), fx_joinable := insert p (fx_joinable s), fx_created := fx_created s @ [p]\<rparr>
        else fiber_ctor v s)"

definition fiber_move_ctor :: "nat \<Rightarrow> nat \<Rightarrow> fiber_cxx \<Rightarrow> fiber_cxx" where
  "fiber_move_ctor v other s = s\<lparr>fx_vars := (fx_vars s)(v \<mapsto> fiber_impl s other, other \<mapsto> 0)\<rparr>"

definition fiber_move_assign :: "nat \<Rightarrow> nat \<Rightarrow> fiber_cxx \<Rightarrow> fiber_cxx outcome" where
  "fiber_move_assign v other s =
     (if fiber_joinable s v then Terminates
      else Returns (s\<lparr>fx_vars := (fx_vars s)(v \<mapsto> fiber_impl s other, other \<mapsto> 0)\<rparr>))"

definition fiber_dtor :: "nat \<Rightarrow> fiber_cxx \<Rightarrow> fiber_cxx outcome" where
  "fiber_dtor v s = (if fiber_joinable s v then Terminates else Returns (s\<lparr>fx_vars := (fx_vars s)(v := None)\<rparr>))"

text \<open>\<open>join\<close>; \<open>detach\<close> differs in the C function only. \<open>ret\<close> is what that function returns; when it succeeds the fiber is gone.\<close>

definition fiber_join :: "nat \<Rightarrow> int \<Rightarrow> fiber_cxx \<Rightarrow> fiber_cxx outcome" where
  "fiber_join v ret s =
     (let p = fiber_impl s v;
          err = (if fiber_joinable s v then ret else - EINVAL)
      in throw_on_err err
           (s\<lparr>fx_vars := (fx_vars s)(v \<mapsto> 0), fx_joinable := fx_joinable s - {p}, fx_done := fx_done s @ [p],
              fx_fault := (fx_fault s \<or> p \<notin> fx_joinable s)\<rparr>))"

definition fiber_swap :: "nat \<Rightarrow> nat \<Rightarrow> fiber_cxx \<Rightarrow> fiber_cxx" where
  "fiber_swap v w s = s\<lparr>fx_vars := (fx_vars s)(v \<mapsto> fiber_impl s w, w \<mapsto> fiber_impl s v)\<rparr>"

datatype fiber_event =
    FNew nat
  | FCreate nat "bool option" int addr
  | FMove nat nat
  | FAssign nat nat
  | FJoin nat int
  | FSwap nat nat
  | FDestroy nat

text \<open>An exception leaves the state as it is; \<open>std::terminate\<close> ends the program.\<close>

definition fiber_after :: "fiber_cxx \<Rightarrow> fiber_cxx outcome \<Rightarrow> fiber_cxx option" where
  "fiber_after s r = Some (case r of Returns s' \<Rightarrow> s' | Throws e \<Rightarrow> s | Terminates \<Rightarrow> s\<lparr>fx_ended := True\<rparr>)"

definition alive :: "(nat \<rightharpoonup> addr) \<Rightarrow> nat \<Rightarrow> bool" where
  "alive vars v \<longleftrightarrow> vars v \<noteq> None"

fun fiber_cxx_step :: "fiber_event \<Rightarrow> fiber_cxx \<Rightarrow> fiber_cxx option" where
  "fiber_cxx_step (FNew v) s = (if fx_ended s \<or> alive (fx_vars s) v then None else Some (fiber_ctor v s))"
| "fiber_cxx_step (FCreate v attr err p) s =
     (if fx_ended s \<or> alive (fx_vars s) v \<or> p = 0 \<or> p \<in> fx_joinable s then None else fiber_after s (fiber_create_impl v attr err p s))"
| "fiber_cxx_step (FMove v w) s =
     (if fx_ended s \<or> alive (fx_vars s) v \<or> \<not> alive (fx_vars s) w then None else Some (fiber_move_ctor v w s))"
| "fiber_cxx_step (FAssign v w) s =
     (if fx_ended s \<or> \<not> alive (fx_vars s) v \<or> \<not> alive (fx_vars s) w then None else fiber_after s (fiber_move_assign v w s))"
| "fiber_cxx_step (FJoin v ret) s = (if fx_ended s \<or> \<not> alive (fx_vars s) v then None else fiber_after s (fiber_join v ret s))"
| "fiber_cxx_step (FSwap v w) s =
     (if fx_ended s \<or> \<not> alive (fx_vars s) v \<or> \<not> alive (fx_vars s) w then None else Some (fiber_swap v w s))"
| "fiber_cxx_step (FDestroy v) s = (if fx_ended s \<or> \<not> alive (fx_vars s) v then None else fiber_after s (fiber_dtor v s))"

definition fiber_cxx_init :: fiber_cxx where
  "fiber_cxx_init = \<lparr>fx_vars = Map.empty, fx_joinable = {}, fx_done = [], fx_created = [], fx_fault = False, fx_ended = False\<rparr>"

definition fiber_cxx_inv :: "fiber_cxx \<Rightarrow> bool" where
  "fiber_cxx_inv s \<longleftrightarrow> owns (fx_vars s) (fx_joinable s) \<and> \<not> fx_fault s \<and>
     mset (fx_created s) = mset (fx_done s) + mset_set (fx_joinable s) \<and> finite (fx_joinable s)"

lemma fiber_impl_alive: "alive (fx_vars s) v \<Longrightarrow> fx_vars s v = Some (fiber_impl s v)"
  by (auto simp: fiber_impl_def alive_def)

lemma fiber_cxx_inv_step:
  assumes inv: "fiber_cxx_inv s" and step: "fiber_cxx_step e s = Some s'"
  shows "fiber_cxx_inv s'"
proof -
  have o: "owns (fx_vars s) (fx_joinable s)" using inv by (simp add: fiber_cxx_inv_def)
  note impl = fiber_impl_alive [of s]
  show ?thesis
  proof (cases e)
    case (FNew v)
    then show ?thesis using step inv owns_null [OF o, of v] by (auto simp: fiber_cxx_inv_def fiber_ctor_def alive_def split: if_splits)
  next
    case (FCreate v attr err p)
    then show ?thesis using step inv owns_null [OF o, of v] owns_new [OF o, of v p]
      by (auto simp: fiber_cxx_inv_def fiber_after_def fiber_create_impl_def throw_on_err_def throw_err_def fiber_ctor_def alive_def split: if_splits)
  next
    case (FMove v w)
    then show ?thesis using step inv owns_move [OF o, of v w] impl [of w]
      by (auto simp: fiber_cxx_inv_def fiber_move_ctor_def alive_def split: if_splits)
  next
    case (FAssign v w)
    show ?thesis
    proof (cases "v = w")
      case True
      then show ?thesis using step inv FAssign owns_null [OF o, of v] impl [of v]
        by (auto simp: fiber_cxx_inv_def fiber_after_def fiber_move_assign_def fiber_joinable_def split: if_splits)
    next
      case False
      then show ?thesis using step inv FAssign owns_move [OF o, of v w] impl [of v] impl [of w]
        by (auto simp: fiber_cxx_inv_def fiber_after_def fiber_move_assign_def fiber_joinable_def split: if_splits)
    qed
  next
    case (FJoin v ret)
    show ?thesis
    proof (cases "fiber_joinable s v \<and> ret = 0")
      case True
      let ?p = "fiber_impl s v"
      have p: "fx_vars s v = Some ?p" "?p \<noteq> 0" "\<not> fx_ended s" using True step FJoin impl [of v] by (auto simp: fiber_joinable_def split: if_splits)
      then have "?p \<in> fx_joinable s" using owns_member [OF o] by blast
      moreover have "s' = s\<lparr>fx_vars := (fx_vars s)(v \<mapsto> 0), fx_joinable := fx_joinable s - {?p}, fx_done := fx_done s @ [?p],
          fx_fault := (fx_fault s \<or> ?p \<notin> fx_joinable s)\<rparr>"
        using True step FJoin p by (auto simp: alive_def fiber_after_def fiber_join_def throw_on_err_def Let_def split: if_splits)
      ultimately show ?thesis using inv owns_drop [OF o p(1,2)] by (simp add: fiber_cxx_inv_def mset_set.remove)
    next
      case False
      then have "s' = s" using step FJoin
        by (auto simp: fiber_after_def fiber_join_def throw_on_err_def throw_err_def EINVAL_def Let_def split: if_splits)
      then show ?thesis using inv by simp
    qed
  next
    case (FSwap v w)
    then show ?thesis using step inv owns_swap [OF o, of v "fiber_impl s v" w "fiber_impl s w"] impl [of v] impl [of w]
      by (auto simp: fiber_cxx_inv_def fiber_swap_def split: if_splits)
  next
    case (FDestroy v)
    then show ?thesis using step inv owns_remove [OF o, of v] impl [of v]
      by (auto simp: fiber_cxx_inv_def fiber_after_def fiber_dtor_def fiber_joinable_def split: if_splits)
  qed
qed

interpretation fiber_handles: step_invariant fiber_cxx_step "\<lambda>s. s = fiber_cxx_init" fiber_cxx_inv
proof unfold_locales
  fix s
  assume "s = fiber_cxx_init"
  then show "fiber_cxx_inv s" by (simp add: fiber_cxx_inv_def fiber_cxx_init_def)
qed (rule fiber_cxx_inv_step)

text \<open>
  C34. In every program over the class \<open>fiber\<close>, moves, swaps, failing calls and exceptions included: no fiber is joined or
  detached that is not joinable, no two variables own the same fiber, and once all variables have ended their lives without
  \<open>std::terminate\<close>, every fiber that was created joinable has been joined or detached exactly once.
\<close>

theorem fiber_handles_join_once:
  assumes "run fiber_cxx_step fiber_cxx_init evs = Some s"
  shows "\<not> fx_fault s \<and> owns (fx_vars s) (fx_joinable s) \<and>
    ((\<forall>v. fx_vars s v = None) \<longrightarrow> mset (fx_done s) = mset (fx_created s))"
proof -
  have inv: "fiber_cxx_inv s" using fiber_handles.inv_run_init [OF refl assms] .
  then have "fx_joinable s = {}" if "\<forall>v. fx_vars s v = None" using owns_none that by (auto simp: fiber_cxx_inv_def)
  then show ?thesis using inv by (auto simp: fiber_cxx_inv_def)
qed

definition handle_run :: "fiber_event list" where
  "handle_run = [FCreate 0 None 0 8, FMove 1 0, FJoin 0 0, FJoin 1 0, FCreate 2 (Some False) (- ENOMEM) 16, FDestroy 0, FDestroy 1]"

theorem fiber_handles_join_once_witness:
  "\<exists>s. run fiber_cxx_step fiber_cxx_init handle_run = Some s \<and>
     (fx_ended s, map (fx_vars s) [0, 1, 2], fx_created s, fx_done s) = (False, [None, None, None], [8], [8]) \<and>
     \<not> fx_fault s \<and> owns (fx_vars s) (fx_joinable s)"
proof -
  have "map_option (\<lambda>s. (fx_ended s, map (fx_vars s) [0, 1, 2], fx_created s, fx_done s))
     (run fiber_cxx_step fiber_cxx_init handle_run) = Some (False, [None, None, None], [8], [8])" by code_simp
  then obtain s where r: "run fiber_cxx_step fiber_cxx_init handle_run = Some s"
      "(fx_ended s, map (fx_vars s) [0, 1, 2], fx_created s, fx_done s) = (False, [None, None, None], [8], [8])"
    by (rule observeE)
  note once = fiber_handles_join_once [OF r(1)]
  show ?thesis by (intro exI [of _ s] conjI r once [THEN conjunct1] once [THEN conjunct2, THEN conjunct1])
qed

section \<open>Sockets\<close>

text \<open>
  \<open>sx_live\<close> are the sockets of the C library that exist and \<open>sx_fd\<close> their descriptors; \<open>sx_open\<close> are the descriptors that the process has open, and
  \<open>sx_lost\<close> those that no socket refers to any more although nobody closed them. Ghosts: \<open>sx_reopened\<close>, an open socket was opened
  again, and \<open>sx_stale\<close>, a failing \<open>close\<close> has released the descriptor (as on Linux), which the socket keeps. \<open>sx_fault\<close> is set when
  a socket is destroyed that does not exist.
\<close>

record socket_cxx =
  sx_vars :: "nat \<rightharpoonup> addr"
  sx_live :: "addr set"
  sx_fd :: "addr \<Rightarrow> int"
  sx_open :: "int set"
  sx_lost :: "int set"
  sx_reopened :: bool
  sx_stale :: bool
  sx_fault :: bool
  sx_ended :: bool

definition socket_impl :: "socket_cxx \<Rightarrow> nat \<Rightarrow> addr" where
  "socket_impl s v = (case sx_vars s v of None \<Rightarrow> 0 | Some p \<Rightarrow> p)"

text \<open>The constructor: \<open>err\<close> and \<open>p\<close> are the results of \<open>fev_socket_create\<close>, which gives a closed socket.\<close>

definition socket_ctor :: "nat \<Rightarrow> int \<Rightarrow> addr \<Rightarrow> socket_cxx \<Rightarrow> socket_cxx outcome" where
  "socket_ctor v err p s =
     throw_on_err err (s\<lparr>sx_vars := (sx_vars s)(v \<mapsto> p), sx_live := insert p (sx_live s), sx_fd := (sx_fd s)(p := - 1)\<rparr>)"

text \<open>\<open>fev_socket_destroy\<close>, the deleter.\<close>

definition socket_delete :: "addr \<Rightarrow> socket_cxx \<Rightarrow> socket_cxx" where
  "socket_delete p s =
     s\<lparr>sx_live := sx_live s - {p}, sx_fault := (sx_fault s \<or> p \<notin> sx_live s),
       sx_lost := (if sx_fd s p = - 1 then sx_lost s else insert (sx_fd s p) (sx_lost s))\<rparr>"

definition socket_move_ctor :: "nat \<Rightarrow> nat \<Rightarrow> socket_cxx \<Rightarrow> socket_cxx" where
  "socket_move_ctor v other s = s\<lparr>sx_vars := (sx_vars s)(v \<mapsto> socket_impl s other, other \<mapsto> 0)\<rparr>"

text \<open>
  The defaulted move assignment takes the pointer over and then deletes the one that was there; it does not close the socket. A
  variable that is assigned to itself keeps its pointer.
\<close>

definition socket_move_assign :: "nat \<Rightarrow> nat \<Rightarrow> socket_cxx \<Rightarrow> socket_cxx" where
  "socket_move_assign v other s =
     (let old = socket_impl s v;
          s' = s\<lparr>sx_vars := (sx_vars s)(v \<mapsto> socket_impl s other, other \<mapsto> 0)\<rparr>
      in if v = other then s else if old = 0 then s' else socket_delete old s')"

text \<open>
  \<open>fev_socket_close\<close>, where \<open>ret\<close> is 0 or \<open>-errno\<close> of \<open>close\<close>, and \<open>socket::close\<close>. When \<open>close\<close> fails the socket keeps its descriptor,
  whether the kernel does (\<open>keeps\<close>) or has released it nevertheless.
\<close>

definition c_socket_close :: "addr \<Rightarrow> int \<Rightarrow> bool \<Rightarrow> socket_cxx \<Rightarrow> int \<times> socket_cxx" where
  "c_socket_close p ret keeps s =
     (if sx_fd s p \<noteq> - 1
      then if ret \<noteq> 0
           then (ret, if keeps then s else s\<lparr>sx_open := sx_open s - {sx_fd s p}, sx_stale := True\<rparr>)
           else (0, s\<lparr>sx_open := sx_open s - {sx_fd s p}, sx_fd := (sx_fd s)(p := - 1)\<rparr>)
      else (0, s))"

definition socket_close :: "nat \<Rightarrow> int \<Rightarrow> bool \<Rightarrow> socket_cxx \<Rightarrow> socket_cxx outcome \<times> socket_cxx" where
  "socket_close v ret keeps s = (let (err, s') = c_socket_close (socket_impl s v) ret keeps s in (throw_on_err err s', s'))"

text \<open>The destructor: its body, and then that of the pointer.\<close>

definition socket_dtor :: "nat \<Rightarrow> int \<Rightarrow> socket_cxx \<Rightarrow> socket_cxx outcome" where
  "socket_dtor v ret s =
     (if socket_impl s v \<noteq> 0
      then case fst (socket_close v ret True s) of
             Returns s' \<Rightarrow> Returns (socket_delete (socket_impl s v) (s'\<lparr>sx_vars := (sx_vars s')(v := None)\<rparr>))
           | _ \<Rightarrow> Terminates
      else Returns (s\<lparr>sx_vars := (sx_vars s)(v := None)\<rparr>))"

text \<open>\<open>fev_socket_open\<close> does not look at the descriptor that the socket has, and overwrites it.\<close>

definition socket_open :: "nat \<Rightarrow> int \<Rightarrow> int \<Rightarrow> socket_cxx \<Rightarrow> socket_cxx outcome" where
  "socket_open v err fd s =
     (let p = socket_impl s v; old = sx_fd s p
      in throw_on_err err
           (s\<lparr>sx_fd := (sx_fd s)(p := fd), sx_open := insert fd (sx_open s),
              sx_lost := (if old = - 1 then sx_lost s else insert old (sx_lost s)), sx_reopened := (sx_reopened s \<or> old \<noteq> - 1)\<rparr>))"

text \<open>
  \<open>accept\<close> and its timed forms, into the new variable \<open>v\<close>: the new socket is created, \<open>err\<close> is the result of the C function, and
  when that is an error the new socket is destroyed again before the exception leaves the function.
\<close>

definition socket_accept :: "nat \<Rightarrow> int \<Rightarrow> addr \<Rightarrow> int \<Rightarrow> int \<Rightarrow> socket_cxx \<Rightarrow> socket_cxx outcome \<times> socket_cxx" where
  "socket_accept v cerr p err fd s =
     (case socket_ctor v cerr p s of
        Returns s1 \<Rightarrow>
          if err = 0 then (Returns (s1\<lparr>sx_fd := (sx_fd s1)(p := fd), sx_open := insert fd (sx_open s1)\<rparr>), s)
          else (case socket_dtor v 0 s1 of Returns s2 \<Rightarrow> (throw_err err, s2) | Throws e \<Rightarrow> (Terminates, s1) | Terminates \<Rightarrow> (Terminates, s1))
      | r \<Rightarrow> (r, s))"

datatype socket_event =
    XNew nat int addr
  | XMove nat nat
  | XAssign nat nat
  | XOpen nat int int
  | XAccept nat int addr int int
  | XClose nat int bool
  | XDestroy nat int

definition socket_after :: "socket_cxx \<Rightarrow> socket_cxx outcome \<Rightarrow> socket_cxx option" where
  "socket_after s r = Some (case r of Returns s' \<Rightarrow> s' | Throws e \<Rightarrow> s | Terminates \<Rightarrow> s\<lparr>sx_ended := True\<rparr>)"

text \<open>
  The allocator returns an address that is not in use, the kernel a descriptor that is not open; a socket is used only while its
  variable owns it.
\<close>

fun socket_cxx_step :: "socket_event \<Rightarrow> socket_cxx \<Rightarrow> socket_cxx option" where
  "socket_cxx_step (XNew v err p) s =
     (if sx_ended s \<or> alive (sx_vars s) v \<or> p = 0 \<or> p \<in> sx_live s then None else socket_after s (socket_ctor v err p s))"
| "socket_cxx_step (XMove v w) s =
     (if sx_ended s \<or> alive (sx_vars s) v \<or> \<not> alive (sx_vars s) w then None else Some (socket_move_ctor v w s))"
| "socket_cxx_step (XAssign v w) s =
     (if sx_ended s \<or> \<not> alive (sx_vars s) v \<or> \<not> alive (sx_vars s) w then None else Some (socket_move_assign v w s))"
| "socket_cxx_step (XOpen v err fd) s =
     (if sx_ended s \<or> socket_impl s v = 0 \<or> fd < 0 \<or> fd \<in> sx_open s then None
      else socket_after s (socket_open v err fd s))"
| "socket_cxx_step (XAccept v cerr p err fd) s =
     (if sx_ended s \<or> alive (sx_vars s) v \<or> p = 0 \<or> p \<in> sx_live s \<or> fd < 0 \<or> fd \<in> sx_open s then None
      else let (r, s') = socket_accept v cerr p err fd s in socket_after s' r)"
| "socket_cxx_step (XClose v ret keeps) s =
     (if sx_ended s \<or> socket_impl s v = 0 then None else let (r, s') = socket_close v ret keeps s in socket_after s' r)"
| "socket_cxx_step (XDestroy v ret) s = (if sx_ended s \<or> \<not> alive (sx_vars s) v then None else socket_after s (socket_dtor v ret s))"

definition socket_cxx_init :: socket_cxx where
  "socket_cxx_init =
     \<lparr>sx_vars = Map.empty, sx_live = {}, sx_fd = (\<lambda>p. - 1), sx_open = {}, sx_lost = {}, sx_reopened = False, sx_stale = False, sx_fault = False, sx_ended = False\<rparr>"

text \<open>The open descriptors are those of the live sockets, each of one socket, and the lost ones.\<close>

definition fds_ok :: "addr set \<Rightarrow> (addr \<Rightarrow> int) \<Rightarrow> int set \<Rightarrow> int set \<Rightarrow> bool" where
  "fds_ok live fd opn lost \<longleftrightarrow>
     opn = fd ` live - {- 1} \<union> lost \<and> fd ` live \<inter> lost = {} \<and> - 1 \<notin> lost \<and>
     (\<forall>p \<in> live. \<forall>q \<in> live. fd p = fd q \<longrightarrow> fd p \<noteq> - 1 \<longrightarrow> p = q)"

definition socket_cxx_inv :: "socket_cxx \<Rightarrow> bool" where
  "socket_cxx_inv s \<longleftrightarrow> owns (sx_vars s) (sx_live s) \<and> \<not> sx_fault s \<and> (\<not> sx_stale s \<longrightarrow> fds_ok (sx_live s) (sx_fd s) (sx_open s) (sx_lost s))"

lemma fds_new: "fds_ok live fd opn lost \<Longrightarrow> p \<notin> live \<Longrightarrow> fds_ok (insert p live) (fd(p := - 1)) opn lost"
  by (auto simp: fds_ok_def)

lemma fds_open: "fds_ok live fd opn lost \<Longrightarrow> p \<in> live \<Longrightarrow> 0 \<le> n \<Longrightarrow> n \<notin> opn \<Longrightarrow>
    fds_ok live (fd(p := n)) (insert n opn) (if fd p = - 1 then lost else insert (fd p) lost)"
  unfolding fds_ok_def by (auto split: if_splits)

lemma fds_close: "fds_ok live fd opn lost \<Longrightarrow> p \<in> live \<Longrightarrow> fd p \<noteq> - 1 \<Longrightarrow> fds_ok live (fd(p := - 1)) (opn - {fd p}) lost"
  unfolding fds_ok_def by (auto split: if_splits)

lemma fds_delete:
  "fds_ok live fd opn lost \<Longrightarrow> p \<in> live \<Longrightarrow> fds_ok (live - {p}) fd opn (if fd p = - 1 then lost else insert (fd p) lost)"
  unfolding fds_ok_def by auto

lemma socket_impl_alive: "alive (sx_vars s) v \<Longrightarrow> sx_vars s v = Some (socket_impl s v)"
  by (auto simp: socket_impl_def alive_def)

lemma socket_impl_var: "socket_impl s v \<noteq> 0 \<Longrightarrow> sx_vars s v = Some (socket_impl s v)"
  by (auto simp: socket_impl_def split: option.splits)

lemma socket_inv_after:
  assumes "socket_cxx_inv s" "\<And>s1. r = Returns s1 \<Longrightarrow> socket_cxx_inv s1" "socket_after s r = Some s'"
  shows "socket_cxx_inv s'"
  using assms by (cases r) (auto simp: socket_after_def socket_cxx_inv_def)

lemma socket_inv_ctor:
  assumes "socket_cxx_inv s" "\<not> alive (sx_vars s) v" "p \<noteq> 0" "p \<notin> sx_live s" "socket_ctor v err p s = Returns s1"
  shows "socket_cxx_inv s1"
  using assms owns_new [of "sx_vars s" "sx_live s" v p] fds_new [of "sx_live s" "sx_fd s" "sx_open s" "sx_lost s" p]
  by (auto simp: socket_ctor_def throw_on_err_def throw_err_def socket_cxx_inv_def alive_def split: if_splits)

lemma socket_inv_close:
  assumes inv: "socket_cxx_inv s" and v: "socket_impl s v \<noteq> 0" and r: "socket_close v ret keeps s = (r, s1)"
  shows "socket_cxx_inv s1" "r = Returns s2 \<Longrightarrow> s2 = s1 \<and> sx_fd s1 (socket_impl s v) = - 1" "sx_vars s1 = sx_vars s" "sx_live s1 = sx_live s"
proof -
  have "socket_impl s v \<in> sx_live s" using inv owns_member socket_impl_var [OF v] v by (auto simp: socket_cxx_inv_def)
  then show "socket_cxx_inv s1"
    using inv r fds_close [of "sx_live s" "sx_fd s" "sx_open s" "sx_lost s" "socket_impl s v"]
    by (auto simp: socket_close_def c_socket_close_def socket_cxx_inv_def split: if_splits)
  show "r = Returns s2 \<Longrightarrow> s2 = s1 \<and> sx_fd s1 (socket_impl s v) = - 1" "sx_vars s1 = sx_vars s" "sx_live s1 = sx_live s"
    using r by (auto simp: socket_close_def c_socket_close_def throw_on_err_def throw_err_def split: if_splits)
qed

text \<open>Taking the pointer out of a variable and deleting it.\<close>

lemma socket_inv_delete:
  assumes inv: "socket_cxx_inv s" and v: "sx_vars s v = Some p" "p \<noteq> 0" and o: "owns vars (sx_live s - {p})"
  shows "socket_cxx_inv (socket_delete p (s\<lparr>sx_vars := vars\<rparr>))"
proof -
  have "p \<in> sx_live s" using inv owns_member v by (auto simp: socket_cxx_inv_def)
  then show ?thesis using inv o fds_delete [of "sx_live s" "sx_fd s" "sx_open s" "sx_lost s" p]
    by (cases "sx_fd s p = - 1") (simp_all add: socket_cxx_inv_def socket_delete_def)
qed

lemma socket_inv_dtor:
  assumes inv: "socket_cxx_inv s" and a: "alive (sx_vars s) v" and r: "socket_dtor v ret s = Returns s1"
  shows "socket_cxx_inv s1"
proof (cases "socket_impl s v = 0")
  case True
  then show ?thesis using r inv owns_remove [of "sx_vars s" "sx_live s" v] socket_impl_alive [OF a]
    by (auto simp: socket_dtor_def socket_cxx_inv_def)
next
  case False
  then obtain s2 where s2: "fst (socket_close v ret True s) = Returns s2"
      "s1 = socket_delete (socket_impl s v) (s2\<lparr>sx_vars := (sx_vars s2)(v := None)\<rparr>)"
    using r by (auto simp: socket_dtor_def split: outcome.splits)
  then have "socket_close v ret True s = (Returns s2, s2)"
    using socket_inv_close(2) [OF inv False, of ret True] by (metis prod.collapse)
  note c = socket_inv_close [OF inv False this]
  have p: "sx_vars s2 v = Some (socket_impl s v)" using socket_impl_var [OF False] c(3) by simp
  have "owns (sx_vars s2) (sx_live s2)" using c(1) by (simp add: socket_cxx_inv_def)
  from owns_remove [OF owns_drop [OF this p False], of v] have "owns ((sx_vars s2)(v := None)) (sx_live s2 - {socket_impl s v})" by simp
  then show ?thesis using socket_inv_delete [OF c(1) p False] s2(2) by simp
qed

lemma socket_inv_assign:
  assumes inv: "socket_cxx_inv s" and a: "alive (sx_vars s) v" "alive (sx_vars s) w"
  shows "socket_cxx_inv (socket_move_assign v w s)"
proof -
  have o: "owns (sx_vars s) (sx_live s)" using inv by (simp add: socket_cxx_inv_def)
  note impl = socket_impl_alive [OF a(1)] socket_impl_alive [OF a(2)]
  show ?thesis
  proof (cases "socket_impl s v = 0 \<or> v = w")
    case True
    then show ?thesis using inv owns_move [OF o, of v w] impl by (auto simp: socket_move_assign_def Let_def socket_cxx_inv_def)
  next
    case False
    then have "owns ((sx_vars s)(v \<mapsto> 0)) (sx_live s - {socket_impl s v})" using owns_drop [OF o impl(1)] by simp
    from owns_move [OF this, of v w] have "owns ((sx_vars s)(v \<mapsto> socket_impl s w, w \<mapsto> 0)) (sx_live s - {socket_impl s v})"
      using impl(2) False by simp
    then show ?thesis using socket_inv_delete [OF inv impl(1)] False by (simp add: socket_move_assign_def Let_def)
  qed
qed

lemma socket_inv_accept:
  assumes inv: "socket_cxx_inv s" and v: "\<not> alive (sx_vars s) v" "p \<noteq> 0" "p \<notin> sx_live s" and fd: "0 \<le> fd" "fd \<notin> sx_open s"
    and r: "socket_accept v cerr p err fd s = (r, s1)"
  shows "socket_cxx_inv s1 \<and> (\<forall>s2. r = Returns s2 \<longrightarrow> socket_cxx_inv s2)"
proof (cases "socket_ctor v cerr p s")
  case (Returns s0)
  have i0: "socket_cxx_inv s0" by (rule socket_inv_ctor [OF inv v Returns])
  have s0: "sx_vars s0 v = Some p" "p \<in> sx_live s0" "sx_fd s0 p = - 1" "sx_open s0 = sx_open s"
    using Returns by (auto simp: socket_ctor_def throw_on_err_def throw_err_def split: if_splits)
  show ?thesis
  proof (cases "err = 0")
    case True
    have "socket_cxx_inv (s0\<lparr>sx_fd := (sx_fd s0)(p := fd), sx_open := insert fd (sx_open s0)\<rparr>)"
      using i0 fds_open [of "sx_live s0" "sx_fd s0" "sx_open s0" "sx_lost s0" p fd] s0 fd by (simp add: socket_cxx_inv_def)
    then show ?thesis using r inv Returns True by (auto simp: socket_accept_def)
  next
    case False
    have "socket_cxx_inv s2" if "socket_dtor v 0 s0 = Returns s2" for s2
      using socket_inv_dtor [OF i0 _ that] s0(1) by (simp add: alive_def)
    then show ?thesis using r inv i0 Returns False by (auto simp: socket_accept_def throw_err_def split: outcome.splits)
  qed
qed (use r inv in \<open>auto simp: socket_accept_def\<close>)

lemma socket_cxx_inv_step:
  assumes inv: "socket_cxx_inv s" and step: "socket_cxx_step e s = Some s'"
  shows "socket_cxx_inv s'"
proof -
  have o: "owns (sx_vars s) (sx_live s)" using inv by (simp add: socket_cxx_inv_def)
  show ?thesis
  proof (cases e)
    case (XNew v err p)
    then have "\<not> alive (sx_vars s) v" "p \<noteq> 0" "p \<notin> sx_live s" "socket_after s (socket_ctor v err p s) = Some s'"
      using step by (auto split: if_splits)
    then show ?thesis using socket_inv_after [OF inv] socket_inv_ctor [OF inv] by blast
  next
    case (XMove v w)
    then show ?thesis using step inv owns_move [OF o, of v w] socket_impl_alive [of s w]
      by (auto simp: socket_cxx_inv_def socket_move_ctor_def alive_def split: if_splits)
  next
    case (XAssign v w)
    then show ?thesis using step socket_inv_assign [OF inv] by (auto split: if_splits)
  next
    case (XOpen v err fd)
    then have a: "socket_impl s v \<noteq> 0" "0 \<le> fd" "fd \<notin> sx_open s"
        "socket_after s (socket_open v err fd s) = Some s'" using step by (auto split: if_splits)
    have "socket_impl s v \<in> sx_live s" using owns_member [OF o] socket_impl_var [OF a(1)] a(1) by blast
    then have "socket_cxx_inv s1" if "socket_open v err fd s = Returns s1" for s1
      using that inv a fds_open [of "sx_live s" "sx_fd s" "sx_open s" "sx_lost s" "socket_impl s v" fd]
      by (auto simp: socket_open_def throw_on_err_def throw_err_def socket_cxx_inv_def Let_def split: if_splits)
    then show ?thesis using socket_inv_after [OF inv _ a(4)] by blast
  next
    case (XAccept v cerr p err fd)
    obtain r s1 where r: "socket_accept v cerr p err fd s = (r, s1)" by fastforce
    have a: "\<not> alive (sx_vars s) v" "p \<noteq> 0" "p \<notin> sx_live s" "0 \<le> fd" "fd \<notin> sx_open s" "socket_after s1 r = Some s'"
      using step XAccept r by (auto split: if_splits)
    show ?thesis using socket_inv_after [OF _ _ a(6)] socket_inv_accept [OF inv a(1-5) r] by blast
  next
    case (XClose v ret keeps)
    obtain r s1 where r: "socket_close v ret keeps s = (r, s1)" by fastforce
    have a: "socket_impl s v \<noteq> 0" "socket_after s1 r = Some s'" using step XClose r by (auto split: if_splits)
    show ?thesis using socket_inv_after [OF _ _ a(2)] socket_inv_close(1,2) [OF inv a(1) r] by metis
  next
    case (XDestroy v ret)
    then have "alive (sx_vars s) v" "socket_after s (socket_dtor v ret s) = Some s'" using step by (auto split: if_splits)
    then show ?thesis using socket_inv_after [OF inv] socket_inv_dtor [OF inv] by blast
  qed
qed

interpretation socket_handles: step_invariant socket_cxx_step "\<lambda>s. s = socket_cxx_init" socket_cxx_inv
proof unfold_locales
  fix s
  assume "s = socket_cxx_init"
  then show "socket_cxx_inv s" by (simp add: socket_cxx_inv_def socket_cxx_init_def fds_ok_def)
qed (rule socket_cxx_inv_step)

text \<open>Only a move assignment, and the opening of an open socket, lose a descriptor.\<close>

definition nothing_lost :: "socket_cxx \<Rightarrow> bool" where
  "nothing_lost s \<longleftrightarrow> sx_reopened s \<or> sx_lost s = {}"

lemma socket_lost_dtor:
  assumes "socket_dtor v ret s = Returns s1"
  shows "sx_lost s1 = sx_lost s \<and> sx_reopened s1 = sx_reopened s"
  using assms
  by (auto simp: socket_dtor_def socket_close_def c_socket_close_def throw_on_err_def throw_err_def socket_delete_def Let_def
      split: outcome.splits if_splits)

lemma socket_lost_accept:
  "socket_accept v cerr p err fd s = (r, s1) \<Longrightarrow> nothing_lost s \<Longrightarrow> nothing_lost s1 \<and> (\<forall>s2. r = Returns s2 \<longrightarrow> nothing_lost s2)"
  by (auto simp: socket_accept_def socket_ctor_def throw_on_err_def throw_err_def nothing_lost_def dest: socket_lost_dtor
      split: outcome.splits if_splits)

lemma socket_lost_step:
  assumes "socket_cxx_step e s = Some s'" "\<And>v w. e \<noteq> XAssign v w" "nothing_lost s"
  shows "nothing_lost s'"
proof -
  have after: "nothing_lost s2" if "socket_after s1 r = Some s2" "nothing_lost s1" "\<And>s3. r = Returns s3 \<Longrightarrow> nothing_lost s3" for s1 s2 r
    using that by (cases r) (auto simp: socket_after_def nothing_lost_def)
  show ?thesis
  proof (cases e)
    case (XAccept v cerr p err fd)
    obtain r s1 where r: "socket_accept v cerr p err fd s = (r, s1)" by fastforce
    then have "socket_after s1 r = Some s'" using assms(1) XAccept by (auto split: if_splits)
    then show ?thesis using after socket_lost_accept [OF r assms(3)] by metis
  next
    case (XDestroy v ret)
    then show ?thesis using assms after socket_lost_dtor by (auto simp: nothing_lost_def split: if_splits)
  qed (use assms in \<open>auto simp: nothing_lost_def socket_after_def socket_ctor_def socket_move_ctor_def socket_open_def socket_close_def c_socket_close_def
      throw_on_err_def throw_err_def Let_def split: if_splits\<close>)
qed

lemma socket_lost_run:
  "run socket_cxx_step s evs = Some s' \<Longrightarrow> \<forall>e \<in> set evs. \<forall>v w. e \<noteq> XAssign v w \<Longrightarrow> nothing_lost s \<Longrightarrow> nothing_lost s'"
  by (induction evs arbitrary: s) (auto split: option.splits dest: socket_lost_step)

text \<open>
  C35. In every program over the class \<open>socket\<close>, failing calls and exceptions included, no socket is destroyed twice, no two
  variables own the same, and once all variables have ended their lives no socket is left. As long as no failing \<open>close\<close> has
  released a descriptor (which the socket would keep), the descriptors that are open are those of the sockets that exist and the
  lost ones, so that at the end only the latter are open; and a program loses a descriptor only by a move assignment, which
  destroys the socket of its target without closing it, or by opening a socket that is open, which overwrites its descriptor.
\<close>

theorem socket_handles_close:
  assumes "run socket_cxx_step socket_cxx_init evs = Some s"
  shows "\<not> sx_fault s \<and> owns (sx_vars s) (sx_live s) \<and>
    ((\<forall>v. sx_vars s v = None) \<longrightarrow> sx_live s = {}) \<and>
    (\<not> sx_stale s \<longrightarrow> sx_open s = sx_fd s ` sx_live s - {- 1} \<union> sx_lost s) \<and>
    (\<not> sx_stale s \<longrightarrow> (\<forall>v. sx_vars s v = None) \<longrightarrow> sx_open s = sx_lost s) \<and>
    (\<not> sx_reopened s \<longrightarrow> (\<forall>e \<in> set evs. \<forall>v w. e \<noteq> XAssign v w) \<longrightarrow> sx_lost s = {})"
proof -
  have inv: "socket_cxx_inv s" using socket_handles.inv_run_init [OF refl assms] .
  have "sx_lost s = {}" if "\<not> sx_reopened s" "\<forall>e \<in> set evs. \<forall>v w. e \<noteq> XAssign v w"
    using socket_lost_run [OF assms that(2)] that(1) by (simp add: socket_cxx_init_def nothing_lost_def)
  moreover from inv have "sx_live s = {}" if "\<forall>v. sx_vars s v = None" using owns_none that by (auto simp: socket_cxx_inv_def)
  ultimately show ?thesis using inv by (auto simp: socket_cxx_inv_def fds_ok_def)
qed

text \<open>
  A socket is opened twice, and an accepted connection replaces it by move assignment: the descriptors 3 and 4 are never closed,
  although every variable ends its life.
\<close>

definition leak_run :: "socket_event list" where
  "leak_run =
     [XNew 0 0 8, XOpen 0 0 3, XOpen 0 0 4, XAccept 1 0 16 (- ETIMEDOUT) 5, XAccept 1 0 16 0 5, XAssign 0 1, XDestroy 1 0, XDestroy 0 0]"

theorem socket_handles_close_witness:
  "\<exists>s. run socket_cxx_step socket_cxx_init leak_run = Some s \<and>
     (map (sx_vars s) [0, 1], sx_ended s, sx_stale s, map (\<lambda>n. n \<in> sx_lost s) [3, 4, 5]) = ([None, None], False, False, [True, True, False]) \<and>
     \<not> sx_fault s \<and> owns (sx_vars s) (sx_live s) \<and> sx_open s = sx_fd s ` sx_live s - {- 1} \<union> sx_lost s"
proof -
  have "map_option (\<lambda>s. (map (sx_vars s) [0, 1], sx_ended s, sx_stale s, map (\<lambda>n. n \<in> sx_lost s) [3, 4, 5]))
     (run socket_cxx_step socket_cxx_init leak_run) = Some ([None, None], False, False, [True, True, False])" by code_simp
  then obtain s where r: "run socket_cxx_step socket_cxx_init leak_run = Some s"
      "(map (sx_vars s) [0, 1], sx_ended s, sx_stale s, map (\<lambda>n. n \<in> sx_lost s) [3, 4, 5]) = ([None, None], False, False, [True, True, False])"
    by (rule observeE)
  have ns: "\<not> sx_stale s" using r(2) by (auto simp only: prod.inject)
  note closed = socket_handles_close [OF r(1)]
  show ?thesis
    by (intro exI [of _ s] conjI r closed [THEN conjunct1] closed [THEN conjunct2, THEN conjunct1]
          closed [THEN conjunct2, THEN conjunct2, THEN conjunct2, THEN conjunct1, THEN mp] ns)
qed

end
