(* ===== verification/Cond_Concurrent.thy ===== *)
theory Cond_Concurrent
  imports Sync
begin

text \<open>
  The condition variable under concurrency (\<open>fev_cond.c\<close> over \<open>fev_waiters_queue_impl.h\<close>). A waiting fiber takes the
  lock of the condition's queue while it holds the mutex, releases the mutex inside the lock, and only then inserts its
  node: between the two it is neither protected by the mutex nor in the queue, and what keeps a notification from being
  lost is that the notifying fiber needs the lock too. The system has one program counter per access, so that this order
  is part of the model.

  The mutex and the queue's lock are locks that exclude (theories \<open>Mutex_Concurrent\<close> and \<open>Ilock\<close>). A waiter is the result of
  its wait: none yet, or the one that the single handler that claimed it has set (theory \<open>Waiter\<close>).
\<close>

section \<open>The system\<close>

datatype cv_pc =
    CIdle
  | CLockQ bool \<comment> \<open>taking the queue's lock in \<open>fev_waiters_queue_wait\<close>; timed?\<close>
  | CUnlockM bool \<comment> \<open>at \<open>fev_mutex_unlock\<close>, in \<open>fev_cond_wait_recheck\<close>\<close>
  | CInsert bool
  | CUnlockQ bool
  | CTimer \<comment> \<open>adding the timer in \<open>fev_timed_wait\<close>\<close>
  | CWait bool
  | CCancelQ int \<comment> \<open>taking the queue's lock after a wait that failed\<close>
  | CCancel int
  | CCancelU int
  | CReturn bool int \<comment> \<open>\<open>fev_waiters_queue_wait\<close> has returned\<close>
  | CRelock bool
  | NLockQ u32 \<comment> \<open>taking the queue's lock in \<open>fev_waiters_queue_wake\<close>, with \<open>max_waiters\<close>\<close>
  | NLoop u32 u32 \<comment> \<open>and \<open>num_woken\<close>\<close>
  | NUnlock u32 u32

text \<open>
  Ghosts: \<open>cs_count f\<close> is the number of waits that \<open>f\<close> has begun; \<open>cs_log (f, k)\<close> is the result that its \<open>k\<close>-th wait was
  given, by whoever claimed its waiter, or \<open>-ENOMEM\<close> when the fiber gave up because the timer could not be added;
  \<open>cs_woken n\<close> are the waits that the latest notification of \<open>n\<close> has woken.
\<close>

record cond_sys =
  cs_owner :: "nat option" \<comment> \<open>of the mutex\<close>
  cs_lock :: "nat option"
  cs_nodes :: "nat list"
  cs_del :: "nat \<Rightarrow> bool" \<comment> \<open>\<open>node.deleted\<close>\<close>
  cs_res :: "nat \<Rightarrow> int option" \<comment> \<open>the waiter's reason, as the result of the wait\<close>
  cs_pc :: "nat \<Rightarrow> cv_pc"
  cs_fault :: bool
  cs_count :: "nat \<Rightarrow> nat"
  cs_log :: "nat \<times> nat \<rightharpoonup> int"
  cs_woken :: "nat \<Rightarrow> (nat \<times> nat) list"

datatype cond_event =
    CvLock nat
  | CvUnlock nat
  | CvWait nat bool
  | CvNotify nat u32 \<comment> \<open>\<open>fev_cond_notify_one\<close>: 1, \<open>fev_cond_notify_all\<close>: \<open>UINT32_MAX\<close>\<close>
  | CvStep nat
  | CvTimeout nat int \<comment> \<open>the timer claims the waiter; what \<open>fev_timed_wait\<close> will return\<close>
  | CvEnomem nat \<comment> \<open>the timer cannot be added\<close>
  | CvGiveUp nat \<comment> \<open>\<open>fev_mutex_try_lock_until\<close> fails\<close>

definition cond_sys_init :: cond_sys where
  "cond_sys_init =
     \<lparr>cs_owner = None, cs_lock = None, cs_nodes = [], cs_del = (\<lambda>_. False), cs_res = (\<lambda>_. None), cs_pc = (\<lambda>_. CIdle),
      cs_fault = False, cs_count = (\<lambda>_. 0), cs_log = Map.empty, cs_woken = (\<lambda>_. [])\<rparr>"

definition cgoto :: "cond_sys \<Rightarrow> nat \<Rightarrow> cv_pc \<Rightarrow> cond_sys" where
  "cgoto s f p = s\<lparr>cs_pc := (cs_pc s)(f := p)\<rparr>"

definition cassert :: "bool \<Rightarrow> cond_sys \<Rightarrow> cond_sys" where
  "cassert b s = s\<lparr>cs_fault := cs_fault s \<or> \<not> b\<rparr>"

text \<open>A handler claims the waiter of \<open>f\<close>.\<close>

definition cclaim :: "nat \<Rightarrow> int \<Rightarrow> cond_sys \<Rightarrow> cond_sys" where
  "cclaim f r s = s\<lparr>cs_res := (cs_res s)(f \<mapsto> r), cs_log := (cs_log s)((f, cs_count s f) \<mapsto> r)\<rparr>"

text \<open>\<open>fev_waiters_queue_wait\<close> with \<open>fev_cond_wait_recheck\<close>, up to the wait.\<close>

definition cond_wait_step :: "nat \<Rightarrow> cond_sys \<Rightarrow> cond_sys option" where
  "cond_wait_step f s =
     (case cs_pc s f of
        CLockQ timed \<Rightarrow> if cs_lock s = None then Some (cgoto (s\<lparr>cs_lock := Some f\<rparr>) f (CUnlockM timed)) else None
      | CUnlockM timed \<Rightarrow> Some (cgoto ((cassert (cs_owner s = Some f) s)\<lparr>cs_owner := None\<rparr>) f (CInsert timed))
      | CInsert timed \<Rightarrow> Some (cgoto (s\<lparr>cs_nodes := cs_nodes s @ [f], cs_del := (cs_del s)(f := False)\<rparr>) f (CUnlockQ timed))
      | CUnlockQ timed \<Rightarrow> Some (cgoto (s\<lparr>cs_lock := None\<rparr>) f (if timed then CTimer else CWait False))
      | CTimer \<Rightarrow> Some (cgoto s f (CWait True))
      | _ \<Rightarrow> None)"

text \<open>The rest of \<open>fev_waiters_queue_wait\<close>, and of \<open>fev_cond_wait\<close> and \<open>fev_cond_wait_until\<close>.\<close>

definition cond_return_step :: "nat \<Rightarrow> cond_sys \<Rightarrow> cond_sys option" where
  "cond_return_step f s =
     (case cs_pc s f of
        CWait timed \<Rightarrow>
          (case cs_res s f of
             None \<Rightarrow> None
           | Some r \<Rightarrow> Some (if r = 0 then cgoto (cassert (cs_del s f) s) f (CReturn timed 0)
                            else cgoto (cassert (timed \<and> (r = - EAGAIN \<or> r = - ENOMEM \<or> r = - ETIMEDOUT)) s) f (CCancelQ r)))
      | CCancelQ r \<Rightarrow> if cs_lock s = None then Some (cgoto (s\<lparr>cs_lock := Some f\<rparr>) f (CCancel r)) else None
      | CCancel r \<Rightarrow> Some (cgoto (if cs_del s f then s else s\<lparr>cs_nodes := remove1 f (cs_nodes s)\<rparr>) f (CCancelU r))
      | CCancelU r \<Rightarrow> Some (cgoto (s\<lparr>cs_lock := None\<rparr>) f (CReturn True r))
      | CReturn timed r \<Rightarrow>
          Some (if \<not> timed then cgoto (cassert (r = 0) s) f (CRelock False)
                else if r = - ENOMEM \<or> r = - ETIMEDOUT then cgoto s f CIdle
                else cgoto (cassert (r = 0 \<or> r = - EAGAIN) s) f (CRelock True))
      | CRelock _ \<Rightarrow> if cs_owner s = None then Some (cgoto (s\<lparr>cs_owner := Some f\<rparr>) f CIdle) else None
      | _ \<Rightarrow> None)"

text \<open>\<open>fev_waiters_queue_wake\<close>.\<close>

definition cond_notify_step :: "nat \<Rightarrow> cond_sys \<Rightarrow> cond_sys option" where
  "cond_notify_step n s =
     (case cs_pc s n of
        NLockQ m \<Rightarrow> if cs_lock s = None then Some (cgoto (s\<lparr>cs_lock := Some n\<rparr>) n (NLoop m 0)) else None
      | NLoop m num \<Rightarrow>
          Some (if num < m
                then (case cs_nodes s of
                        [] \<Rightarrow> cgoto s n (NUnlock m num)
                      | g # gs \<Rightarrow>
                          let s1 = s\<lparr>cs_nodes := gs, cs_del := (cs_del s)(g := True)\<rparr>
                          in if cs_res s g = None
                             then cgoto ((cclaim g 0 s1)\<lparr>cs_woken := (cs_woken s)(n := (g, cs_count s g) # cs_woken s n)\<rparr>) n (NLoop m (num + 1))
                             else s1)
                else cgoto s n (NUnlock m num))
      | NUnlock m num \<Rightarrow> Some (cgoto (s\<lparr>cs_lock := None\<rparr>) n CIdle)
      | _ \<Rightarrow> None)"

fun cond_step :: "cond_event \<Rightarrow> cond_sys \<Rightarrow> cond_sys option" where
  "cond_step (CvLock f) s =
     (if cs_pc s f = CIdle \<and> cs_owner s = None then Some (s\<lparr>cs_owner := Some f\<rparr>) else None)"
| "cond_step (CvUnlock f) s =
     (if cs_pc s f = CIdle \<and> cs_owner s = Some f then Some (s\<lparr>cs_owner := None\<rparr>) else None)"
| "cond_step (CvWait f timed) s =
     (if cs_pc s f = CIdle \<and> cs_owner s = Some f
      then Some (cgoto (s\<lparr>cs_res := (cs_res s)(f := None), cs_count := (cs_count s)(f := cs_count s f + 1)\<rparr>) f (CLockQ timed))
      else None)"
| "cond_step (CvNotify n m) s =
     (if cs_pc s n = CIdle then Some (cgoto (s\<lparr>cs_woken := (cs_woken s)(n := [])\<rparr>) n (NLockQ m)) else None)"
| "cond_step (CvStep f) s =
     (case cond_wait_step f s of
        Some s' \<Rightarrow> Some s'
      | None \<Rightarrow> (case cond_return_step f s of Some s' \<Rightarrow> Some s' | None \<Rightarrow> cond_notify_step f s))"
| "cond_step (CvTimeout f r) s =
     (if cs_pc s f = CWait True \<and> cs_res s f = None \<and> (r = - ETIMEDOUT \<or> r = - EAGAIN) then Some (cclaim f r s) else None)"
| "cond_step (CvEnomem f) s =
     (if cs_pc s f = CTimer
      then Some (cgoto (if cs_res s f = None then s\<lparr>cs_log := (cs_log s)((f, cs_count s f) \<mapsto> - ENOMEM)\<rparr> else s) f (CCancelQ (- ENOMEM)))
      else None)"
| "cond_step (CvGiveUp f) s = (if cs_pc s f = CRelock True then Some (cgoto s f CIdle) else None)"

section \<open>The invariant\<close>

text \<open>A fiber is inside its wait and has let go of the mutex.\<close>

fun in_wait :: "cv_pc \<Rightarrow> bool" where
  "in_wait (CLockQ _) = True"
| "in_wait (CUnlockM _) = True"
| "in_wait (CInsert _) = True"
| "in_wait (CUnlockQ _) = True"
| "in_wait CTimer = True"
| "in_wait (CWait _) = True"
| "in_wait _ = False"

definition released :: "cond_sys \<Rightarrow> nat \<Rightarrow> bool" where
  "released s f \<longleftrightarrow> in_wait (cs_pc s f) \<and> cs_owner s \<noteq> Some f"

fun in_queue_lock :: "cv_pc \<Rightarrow> bool" where
  "in_queue_lock (CUnlockM _) = True"
| "in_queue_lock (CInsert _) = True"
| "in_queue_lock (CUnlockQ _) = True"
| "in_queue_lock (CCancel _) = True"
| "in_queue_lock (CCancelU _) = True"
| "in_queue_lock (NLoop _ _) = True"
| "in_queue_lock (NUnlock _ _) = True"
| "in_queue_lock _ = False"

text \<open>The node of a fiber is in the queue, unless it has been deleted.\<close>

fun linked :: "cv_pc \<Rightarrow> bool" where
  "linked (CUnlockQ _) = True"
| "linked CTimer = True"
| "linked (CWait _) = True"
| "linked (CCancelQ _) = True"
| "linked (CCancel _) = True"
| "linked _ = False"

text \<open>A wait that has let go of the mutex and has not come to an end.\<close>

fun pending_at :: "cv_pc \<Rightarrow> bool" where
  "pending_at (CInsert _) = True"
| "pending_at (CUnlockQ _) = True"
| "pending_at CTimer = True"
| "pending_at (CWait _) = True"
| "pending_at _ = False"

fun untimed :: "cv_pc \<Rightarrow> bool" where
  "untimed (CLockQ b) = (\<not> b)"
| "untimed (CUnlockM b) = (\<not> b)"
| "untimed (CInsert b) = (\<not> b)"
| "untimed (CUnlockQ b) = (\<not> b)"
| "untimed (CWait b) = (\<not> b)"
| "untimed _ = False"

text \<open>The results that a program counter carries.\<close>

fun result_ok :: "cv_pc \<Rightarrow> bool" where
  "result_ok (CCancelQ r) = (r = - EAGAIN \<or> r = - ENOMEM \<or> r = - ETIMEDOUT)"
| "result_ok (CCancel r) = (r = - EAGAIN \<or> r = - ENOMEM \<or> r = - ETIMEDOUT)"
| "result_ok (CCancelU r) = (r = - EAGAIN \<or> r = - ENOMEM \<or> r = - ETIMEDOUT)"
| "result_ok (CReturn timed r) = (r = 0 \<or> timed \<and> (r = - EAGAIN \<or> r = - ENOMEM \<or> r = - ETIMEDOUT))"
| "result_ok _ = True"

text \<open>What holds of one fiber: its program counter, its waiter and its node, against the log of its wait.\<close>

definition fiber_fine :: "cv_pc \<Rightarrow> int option \<Rightarrow> bool \<Rightarrow> int option \<Rightarrow> bool" where
  "fiber_fine p res del log \<longleftrightarrow>
     result_ok p \<and>
     (in_wait p \<and> \<not> linked p \<longrightarrow> res = None) \<and> (in_wait p \<longrightarrow> log = res) \<and>
     (linked p \<longrightarrow> (res = None \<longrightarrow> \<not> del \<and> log \<noteq> Some 0) \<and> (res = Some 0 \<longrightarrow> del)) \<and>
     (in_wait p \<longrightarrow> res \<in> (if untimed p then {None, Some 0} else {None, Some 0, Some (- EAGAIN), Some (- ETIMEDOUT)}))"

fun notify_fine :: "cv_pc \<Rightarrow> nat list \<Rightarrow> nat \<Rightarrow> bool" where
  "notify_fine (NLockQ m) nodes k = (k = 0)"
| "notify_fine (NLoop m num) nodes k = (unat num = k \<and> num \<le> m)"
| "notify_fine (NUnlock m num) nodes k = (unat num = k \<and> num \<le> m \<and> (num = m \<or> nodes = []))"
| "notify_fine _ nodes k = True"

definition cond_inv :: "cond_sys \<Rightarrow> bool" where
  "cond_inv s \<longleftrightarrow>
     \<not> cs_fault s \<and> (\<forall>f. cs_lock s = Some f \<longleftrightarrow> in_queue_lock (cs_pc s f)) \<and>
     (\<forall>f t. cs_pc s f = CLockQ t \<or> cs_pc s f = CUnlockM t \<longrightarrow> cs_owner s = Some f) \<and>
     distinct (cs_nodes s) \<and> (\<forall>f. f \<in> set (cs_nodes s) \<longleftrightarrow> linked (cs_pc s f) \<and> \<not> cs_del s f) \<and>
     (\<forall>f. fiber_fine (cs_pc s f) (cs_res s f) (cs_del s f) (cs_log s (f, cs_count s f))) \<and>
     (\<forall>f k. cs_count s f < k \<longrightarrow> cs_log s (f, k) = None) \<and>
     (\<forall>n. notify_fine (cs_pc s n) (cs_nodes s) (length (cs_woken s n))) \<and>
     (\<forall>n. distinct (cs_woken s n) \<and> (\<forall>x \<in> set (cs_woken s n). cs_log s x = Some 0))"

lemma cond_invD:
  assumes "cond_inv s"
  shows "\<not> cs_fault s" "cs_lock s = Some f \<longleftrightarrow> in_queue_lock (cs_pc s f)"
    "cs_pc s f = CLockQ t \<Longrightarrow> cs_owner s = Some f" "cs_pc s f = CUnlockM t \<Longrightarrow> cs_owner s = Some f"
    "distinct (cs_nodes s)" "f \<in> set (cs_nodes s) \<longleftrightarrow> linked (cs_pc s f) \<and> \<not> cs_del s f"
    "fiber_fine (cs_pc s f) (cs_res s f) (cs_del s f) (cs_log s (f, cs_count s f))"
    "cs_count s f < k \<Longrightarrow> cs_log s (f, k) = None"
    "notify_fine (cs_pc s f) (cs_nodes s) (length (cs_woken s f))"
    "distinct (cs_woken s f)" "x \<in> set (cs_woken s f) \<Longrightarrow> cs_log s x = Some 0"
  using assms unfolding cond_inv_def by blast+

text \<open>
  A step of \<open>f\<close> that leaves the queue, the waiters and the log alone: it may move, take or leave the queue's lock, and take
  or leave the mutex.
\<close>

lemma cond_inv_move:
  assumes inv: "cond_inv s"
    and lock: "lk = (if in_queue_lock p then Some f else if cs_lock s = Some f then None else cs_lock s)"
      "in_queue_lock p \<Longrightarrow> cs_lock s = None \<or> cs_lock s = Some f"
    and owner: "ow = cs_owner s \<or> cs_owner s = Some f \<and> ow = None \<or> cs_owner s = None \<and> ow = Some f"
      "\<And>t. p = CLockQ t \<or> p = CUnlockM t \<Longrightarrow> ow = Some f"
    and p: "linked p \<and> \<not> cs_del s f \<longleftrightarrow> linked (cs_pc s f) \<and> \<not> cs_del s f"
      "fiber_fine p (cs_res s f) (cs_del s f) (cs_log s (f, cs_count s f))"
      "notify_fine p (cs_nodes s) (length (cs_woken s f))"
  shows "cond_inv (cgoto (s\<lparr>cs_lock := lk, cs_owner := ow\<rparr>) f p)"
proof -
  note d = cond_invD [OF inv]
  have "lk = Some g \<longleftrightarrow> in_queue_lock (((cs_pc s)(f := p)) g)" for g using lock d(2) [of g] d(2) [of f] by (auto split: if_splits)
  moreover have "ow = Some g" if "((cs_pc s)(f := p)) g = CLockQ t \<or> ((cs_pc s)(f := p)) g = CUnlockM t" for g t
    using that owner d(3,4) [of g t] d(3,4) [of f t] by (cases "g = f") auto
  moreover have "g \<in> set (cs_nodes s) \<longleftrightarrow> linked (((cs_pc s)(f := p)) g) \<and> \<not> cs_del s g" for g using p(1) d(6) [of g] by (cases "g = f") auto
  ultimately show ?thesis using p(2,3) inv unfolding cond_inv_def cgoto_def by auto
qed

lemma record_upd_same:
  "s\<lparr>cs_lock := cs_lock s, cs_owner := cs_owner s\<rparr> = s" "s\<lparr>cs_lock := lk, cs_owner := cs_owner s\<rparr> = s\<lparr>cs_lock := lk\<rparr>"
  "s\<lparr>cs_lock := cs_lock s, cs_owner := ow\<rparr> = s\<lparr>cs_owner := ow\<rparr>" for s :: cond_sys
  by simp_all

lemmas cond_inv_pc = cond_inv_move [where lk = "cs_lock s" and ow = "cs_owner s" and s = s for s, unfolded record_upd_same]
lemmas cond_inv_lock = cond_inv_move [where ow = "cs_owner s" and s = s for s, unfolded record_upd_same]
lemmas cond_inv_owner = cond_inv_move [where lk = "cs_lock s" and s = s for s, unfolded record_upd_same]

lemma cassert_True [simp]: "b \<Longrightarrow> cassert b s = s"
  by (simp add: cassert_def)

lemma cond_insert_inv:
  assumes inv: "cond_inv s" and pc: "cs_pc s f = CInsert timed"
  shows "cond_inv (cgoto (s\<lparr>cs_nodes := cs_nodes s @ [f], cs_del := (cs_del s)(f := False)\<rparr>) f (CUnlockQ timed))"
proof -
  note d = cond_invD [OF inv]
  have out: "f \<notin> set (cs_nodes s)" using d(6) [of f] pc by simp
  have lock: "cs_lock s = Some f" using d(2) [of f] pc by simp
  have nf: "notify_fine (cs_pc s n) (cs_nodes s @ [f]) k" if "notify_fine (cs_pc s n) (cs_nodes s) k" for n k
    using that d(2) [of n] lock pc by (cases "cs_pc s n") auto
  show ?thesis
    using inv out nf d(7) [of f] pc unfolding cond_inv_def cgoto_def by (auto simp: fiber_fine_def)
qed

lemma cond_cancel_inv:
  assumes inv: "cond_inv s" and pc: "cs_pc s f = CCancel r"
  shows "cond_inv (cgoto (if cs_del s f then s else s\<lparr>cs_nodes := remove1 f (cs_nodes s)\<rparr>) f (CCancelU r))"
proof -
  note d = cond_invD [OF inv]
  have nf: "notify_fine (cs_pc s n) (remove1 f (cs_nodes s)) k" if "notify_fine (cs_pc s n) (cs_nodes s) k" for n k
    using that by (cases "cs_pc s n") auto
  have fine: "fiber_fine (CCancelU r) x y z" for x y z using d(7) [of f] pc by (simp add: fiber_fine_def)
  have mem: "g \<in> set (if cs_del s f then cs_nodes s else remove1 f (cs_nodes s)) \<longleftrightarrow> linked (((cs_pc s)(f := CCancelU r)) g) \<and> \<not> cs_del s g" for g
    using d(5) d(6) [of g] d(6) [of f] by auto
  show ?thesis
    using inv fine nf mem pc unfolding cond_inv_def cgoto_def by auto
qed

lemma cond_wait_inv:
  assumes inv: "cond_inv s" and pc: "cs_pc s f = CIdle" and own: "cs_owner s = Some f"
  shows "cond_inv (cgoto (s\<lparr>cs_res := (cs_res s)(f := None), cs_count := (cs_count s)(f := cs_count s f + 1)\<rparr>) f (CLockQ timed))"
proof -
  note d = cond_invD [OF inv]
  have fine: "fiber_fine (CLockQ timed) None (cs_del s f) (cs_log s (f, Suc (cs_count s f)))"
    using d(8) [of f "Suc (cs_count s f)"] by (simp add: fiber_fine_def)
  show ?thesis using inv fine pc own unfolding cond_inv_def cgoto_def by auto
qed

lemma cond_notify_inv:
  assumes inv: "cond_inv s" and pc: "cs_pc s n = CIdle"
  shows "cond_inv (cgoto (s\<lparr>cs_woken := (cs_woken s)(n := [])\<rparr>) n (NLockQ m))"
proof -
  have "fiber_fine (NLockQ m) x y z" for x y z by (simp add: fiber_fine_def)
  then show ?thesis using inv pc unfolding cond_inv_def cgoto_def by auto
qed

lemma cond_timeout_inv:
  assumes inv: "cond_inv s" and pc: "cs_pc s f = CWait True" and res: "cs_res s f = None" and r: "r = - ETIMEDOUT \<or> r = - EAGAIN"
  shows "cond_inv (cclaim f r s)"
proof -
  note d = cond_invD [OF inv]
  have log: "cs_log s (f, cs_count s f) = None" using d(7) [of f] pc res by (simp add: fiber_fine_def)
  have r0: "r \<noteq> 0" using r by (auto simp: errno_defs)
  have fine: "fiber_fine (CWait True) (Some r) (cs_del s f) (Some r)" using r r0 by (auto simp: fiber_fine_def)
  have w: "(f, cs_count s f) \<notin> set (cs_woken s n)" for n using d(11) log by force
  have fresh: "((cs_log s)((f, cs_count s f) \<mapsto> r)) (g, k) = None" if "cs_count s g < k" for g k using d(8) [OF that] that by auto
  show ?thesis using inv fine w fresh pc unfolding cond_inv_def cclaim_def by (auto split: if_splits)
qed

lemma cond_enomem_inv:
  assumes inv: "cond_inv s" and pc: "cs_pc s f = CTimer"
  shows "cond_inv (cgoto (if cs_res s f = None then s\<lparr>cs_log := (cs_log s)((f, cs_count s f) \<mapsto> - ENOMEM)\<rparr> else s) f (CCancelQ (- ENOMEM)))"
proof -
  note d = cond_invD [OF inv]
  have fine: "fiber_fine (CCancelQ (- ENOMEM)) (cs_res s f) (cs_del s f) (cs_log s (f, cs_count s f))"
      "cs_res s f = None \<Longrightarrow> fiber_fine (CCancelQ (- ENOMEM)) None (cs_del s f) (Some (- ENOMEM))"
    using d(7) [of f] pc by (auto simp: fiber_fine_def errno_defs)
  have log: "cs_res s f = None \<Longrightarrow> cs_log s (f, cs_count s f) = None" using d(7) [of f] pc by (simp add: fiber_fine_def)
  then have w: "cs_res s f = None \<Longrightarrow> (f, cs_count s f) \<notin> set (cs_woken s n)" for n using d(11) by force
  show ?thesis
  proof (cases "cs_res s f = None")
    case True
    then show ?thesis using inv fine(2) w pc unfolding cond_inv_def cgoto_def by (auto split: if_splits)
  next
    case False
    then show ?thesis using inv fine(1) pc unfolding cond_inv_def cgoto_def by auto
  qed
qed

lemma cond_pop_inv:
  assumes inv: "cond_inv s" and pc: "cs_pc s n = NLoop m num" and less: "num < m" and nodes: "cs_nodes s = g # gs"
  defines "s1 \<equiv> s\<lparr>cs_nodes := gs, cs_del := (cs_del s)(g := True)\<rparr>"
  shows "cond_inv (if cs_res s g = None
      then cgoto ((cclaim g 0 s1)\<lparr>cs_woken := (cs_woken s)(n := (g, cs_count s g) # cs_woken s n)\<rparr>) n (NLoop m (num + 1)) else s1)"
proof -
  note d = cond_invD [OF inv]
  have g: "linked (cs_pc s g)" "\<not> cs_del s g" "g \<noteq> n" "g \<notin> set gs" using d(5) d(6) [of g] nodes pc by auto
  have nf: "notify_fine (cs_pc s n') gs k" if "notify_fine (cs_pc s n') (cs_nodes s) k" for n' k
    using that nodes by (cases "cs_pc s n'") auto
  have mem: "h \<in> set gs \<longleftrightarrow> linked (cs_pc s h) \<and> \<not> ((cs_del s)(g := True)) h" for h
    using d(6) [of h] nodes g(4) by auto
  show ?thesis
  proof (cases "cs_res s g = None")
    case False
    have fine: "fiber_fine (cs_pc s g) (cs_res s g) True (cs_log s (g, cs_count s g))"
      using d(7) [of g] False by (auto simp: fiber_fine_def)
    show ?thesis using False inv fine nf mem g(4) nodes unfolding cond_inv_def s1_def by auto
  next
    case True
    have fine: "fiber_fine (cs_pc s g) (Some 0) True (Some 0)" using d(7) [of g] True g(1) by (cases "cs_pc s g") (auto simp: fiber_fine_def)
    have "cs_log s (g, cs_count s g) \<noteq> Some 0" using d(7) [of g] True g(1) by (simp add: fiber_fine_def)
    then have w: "(g, cs_count s g) \<notin> set (cs_woken s n')" for n' using d(11) by force
    have "unat m < 2 ^ 32" by (rule order_less_le_trans [OF unsigned_less]) simp
    then have "unat num + 1 < 2 ^ 32" using less by (simp add: word_less_nat_alt)
    then have "unat (num + 1) = unat num + 1" by (simp add: unat_plus_if_size word_size)
    then have num: "unat (num + 1) = Suc (length (cs_woken s n))" "num + 1 \<le> m"
      using d(9) [of n] pc less by (simp_all add: word_less_nat_alt word_le_nat_alt)
    have loop: "fiber_fine (NLoop m (num + 1)) x y z" for x y z by (simp add: fiber_fine_def)
    have fresh: "((cs_log s)((g, cs_count s g) \<mapsto> 0)) (h, k) = None" if "cs_count s h < k" for h k using d(8) [OF that] that by auto
    show ?thesis using True inv fine nf mem num w loop fresh g(1,3,4) pc nodes unfolding cond_inv_def s1_def cclaim_def cgoto_def by auto
  qed
qed

lemma cond_wait_step_inv:
  assumes inv: "cond_inv s" and step: "cond_wait_step f s = Some s'"
  shows "cond_inv s'"
proof -
  note d = cond_invD [OF inv] and ff = cond_invD(7) [OF inv, of f, unfolded fiber_fine_def]
  show ?thesis
  proof (cases "cs_pc s f")
    case (CLockQ t)
    then show ?thesis using step cond_inv_lock [OF inv, where p = "CUnlockM t" and f = f and lk = "Some f"] d(3) [OF CLockQ] ff
      by (auto simp: cond_wait_step_def fiber_fine_def split: if_splits)
  next
    case (CUnlockM t)
    then show ?thesis using step cond_inv_owner [OF inv, where p = "CInsert t" and f = f and ow = None] d(4) [OF CUnlockM] d(2) [of f] ff
      by (auto simp: cond_wait_step_def fiber_fine_def)
  next
    case (CInsert t)
    then show ?thesis using step cond_insert_inv [OF inv CInsert] by (auto simp: cond_wait_step_def)
  next
    case (CUnlockQ t)
    then show ?thesis
      using step cond_inv_lock [OF inv, where p = "if t then CTimer else CWait False" and f = f and lk = None] d(2) [of f] ff
      by (auto simp: cond_wait_step_def fiber_fine_def split: if_splits)
  next
    case CTimer
    then show ?thesis using step cond_inv_pc [OF inv, where p = "CWait True" and f = f] d(2) [of f] ff
      by (auto simp: cond_wait_step_def fiber_fine_def)
  qed (use step in \<open>simp_all add: cond_wait_step_def\<close>)
qed

lemma cond_return_step_inv:
  assumes inv: "cond_inv s" and step: "cond_return_step f s = Some s'"
  shows "cond_inv s'"
proof -
  note d = cond_invD [OF inv] and ff = cond_invD(7) [OF inv, of f, unfolded fiber_fine_def]
  note move = cond_inv_pc [OF inv, where f = f]
  show ?thesis
  proof (cases "cs_pc s f")
    case (CWait t)
    then obtain r where r: "cs_res s f = Some r" using step by (auto simp: cond_return_step_def split: option.splits)
    show ?thesis
    proof (cases "r = 0")
      case True
      then have "s' = cgoto s f (CReturn t 0)" "cs_del s f" using step CWait r ff by (auto simp: cond_return_step_def)
      then show ?thesis using move [of "CReturn t 0"] d(2) [of f] CWait by (auto simp: fiber_fine_def)
    next
      case False
      then have "s' = cgoto s f (CCancelQ r)" "t \<and> (r = - EAGAIN \<or> r = - ETIMEDOUT)"
        using step CWait r ff by (auto simp: cond_return_step_def split: if_splits)
      then show ?thesis using move [of "CCancelQ r"] d(2) [of f] CWait ff r by (auto simp: fiber_fine_def)
    qed
  next
    case (CCancelQ r)
    then show ?thesis using step cond_inv_lock [OF inv, where p = "CCancel r" and f = f and lk = "Some f"] ff
      by (auto simp: cond_return_step_def fiber_fine_def split: if_splits)
  next
    case (CCancel r)
    then show ?thesis using step cond_cancel_inv [OF inv CCancel] by (simp add: cond_return_step_def)
  next
    case (CCancelU r)
    then show ?thesis using step cond_inv_lock [OF inv, where p = "CReturn True r" and f = f and lk = None] d(2) [of f] ff
      by (auto simp: cond_return_step_def fiber_fine_def)
  next
    case (CReturn t r)
    then have "s' = cgoto s f (if \<not> t then CRelock False else if r = - ENOMEM \<or> r = - ETIMEDOUT then CIdle else CRelock True)"
      using step ff by (auto simp: cond_return_step_def split: if_splits)
    then show ?thesis
      using move [of "if \<not> t then CRelock False else if r = - ENOMEM \<or> r = - ETIMEDOUT then CIdle else CRelock True"] d(2) [of f] CReturn
      by (auto simp: fiber_fine_def)
  next
    case (CRelock t)
    then show ?thesis using step cond_inv_owner [OF inv, where p = CIdle and f = f and ow = "Some f"] d(2) [of f] ff
      by (auto simp: cond_return_step_def fiber_fine_def split: if_splits)
  qed (use step in \<open>simp_all add: cond_return_step_def\<close>)
qed

lemma cond_notify_step_inv:
  assumes inv: "cond_inv s" and step: "cond_notify_step n s = Some s'"
  shows "cond_inv s'"
proof -
  note d = cond_invD [OF inv] and nf = cond_invD(9) [OF inv, of n]
  note move = cond_inv_pc [OF inv, where f = n]
  show ?thesis
  proof (cases "cs_pc s n")
    case (NLockQ m)
    then show ?thesis using step cond_inv_lock [OF inv, where p = "NLoop m 0" and f = n and lk = "Some n"] nf
      by (auto simp: cond_notify_step_def fiber_fine_def split: if_splits)
  next
    case (NLoop m num)
    show ?thesis
    proof (cases "num < m \<and> cs_nodes s \<noteq> []")
      case True
      then obtain g gs where "cs_nodes s = g # gs" by (cases "cs_nodes s") auto
      then show ?thesis using step True NLoop cond_pop_inv [OF inv NLoop, of g gs] by (simp add: cond_notify_step_def Let_def split: if_splits)
    next
      case False
      then have "s' = cgoto s n (NUnlock m num)" using step NLoop by (auto simp: cond_notify_step_def split: list.splits if_splits)
      then show ?thesis using move [of "NUnlock m num"] d(2) [of n] NLoop nf False by (auto simp: fiber_fine_def)
    qed
  next
    case (NUnlock m num)
    then show ?thesis using step cond_inv_lock [OF inv, where p = CIdle and f = n and lk = None] d(2) [of n]
      by (auto simp: cond_notify_step_def fiber_fine_def)
  qed (use step in \<open>simp_all add: cond_notify_step_def\<close>)
qed

lemma cond_inv_init: "cond_inv cond_sys_init"
  by (simp add: cond_inv_def cond_sys_init_def fiber_fine_def)

interpretation cv: step_invariant cond_step "\<lambda>s. s = cond_sys_init" cond_inv
proof
  fix s e s' assume inv: "cond_inv s" and step: "cond_step e s = Some s'"
  note move = cond_inv_owner [OF inv] and d = cond_invD [OF inv]
  show "cond_inv s'"
  proof (cases e)
    case (CvLock f)
    then show ?thesis using step move [where f = f and p = CIdle and ow = "Some f"] d(2,7,9) [of f]
      by (auto simp: cgoto_def fun_upd_idem split: if_splits)
  next
    case (CvUnlock f)
    then show ?thesis using step move [where f = f and p = CIdle and ow = None] d(2,7,9) [of f]
      by (auto simp: cgoto_def fun_upd_idem split: if_splits)
  next
    case (CvWait f timed)
    then show ?thesis using step cond_wait_inv [OF inv, of f timed] by (simp split: if_splits)
  next
    case (CvNotify n m)
    then show ?thesis using step cond_notify_inv [OF inv, of n m] by (simp split: if_splits)
  next
    case (CvStep f)
    then show ?thesis using step cond_wait_step_inv [OF inv, of f] cond_return_step_inv [OF inv, of f] cond_notify_step_inv [OF inv, of f]
      by (auto split: option.splits)
  next
    case (CvTimeout f r)
    then show ?thesis using step cond_timeout_inv [OF inv, of f r] by (auto split: if_splits)
  next
    case (CvEnomem f)
    then show ?thesis using step cond_enomem_inv [OF inv, of f] by (simp split: if_splits)
  next
    case (CvGiveUp f)
    then show ?thesis using step move [where f = f and p = CIdle and ow = "cs_owner s"] d(2) [of f]
      by (auto simp: cgoto_def fiber_fine_def split: if_splits)
  qed
qed (simp add: cond_inv_init)

section \<open>No notification is lost\<close>

text \<open>The waits \<open>X\<close> that have let go of the mutex: each has come to an end, or its fiber is still in it.\<close>

definition tracked :: "(nat \<times> nat) set \<Rightarrow> cond_sys \<Rightarrow> bool" where
  "tracked X s \<longleftrightarrow> (\<forall>(f, k) \<in> X. cs_log s (f, k) = None \<longrightarrow> k = cs_count s f \<and> pending_at (cs_pc s f))"

lemma trackedD: "tracked X s \<Longrightarrow> (f, k) \<in> X \<Longrightarrow> cs_log s (f, k) = None \<Longrightarrow> k = cs_count s f \<and> pending_at (cs_pc s f)"
  by (auto simp: tracked_def)

lemmas cond_step_defs = cond_wait_step_def cond_return_step_def cond_notify_step_def cgoto_def cassert_def cclaim_def Let_def

text \<open>A step keeps what was logged, and a fiber whose wait is not logged stays in it.\<close>

lemma cond_step_frame:
  "cond_wait_step g s = Some s' \<Longrightarrow> cs_count s' = cs_count s \<and> cs_log s' = cs_log s \<and> (f \<noteq> g \<longrightarrow> cs_pc s' f = cs_pc s f)"
  "cond_return_step g s = Some s' \<Longrightarrow> cs_count s' = cs_count s \<and> cs_log s' = cs_log s \<and> (f \<noteq> g \<longrightarrow> cs_pc s' f = cs_pc s f)"
  "cond_notify_step g s = Some s' \<Longrightarrow> cs_count s' = cs_count s \<and> (f \<noteq> g \<longrightarrow> cs_pc s' f = cs_pc s f) \<and> (cs_log s' x = None \<longrightarrow> cs_log s x = None)"
    by (cases "cs_pc s g"; auto simp: cond_step_defs split: if_splits option.splits list.splits)+

lemma cond_step_log_mono: "cond_step e s = Some s' \<Longrightarrow> cs_log s' x = None \<Longrightarrow> cs_log s x = None"
  by (cases e)
     (auto simp: cgoto_def cclaim_def dest: cond_step_frame(1) [of _ _ _ 0] cond_step_frame(2) [of _ _ _ 0] cond_step_frame(3) [of _ _ _ 0 x]
       split: if_splits option.splits)

lemma cond_step_log:
  assumes inv: "cond_inv s" and step: "cond_step e s = Some s'" and p: "pending_at (cs_pc s f)"
  shows "(cs_log s' (f, cs_count s f) = None \<longrightarrow> pending_at (cs_pc s' f)) \<and> cs_count s' f = cs_count s f"
proof -
  have "in_wait (cs_pc s f)" using p by (cases "cs_pc s f") auto
  then have log: "cs_log s (f, cs_count s f) = cs_res s f" using cond_invD(7) [OF inv, of f] by (simp add: fiber_fine_def)
  show ?thesis
  proof (cases e)
    case (CvStep g)
    have notify: "cond_notify_step f s = None" using p by (cases "cs_pc s f") (simp_all add: cond_notify_step_def)
    show ?thesis
    proof (cases "g = f")
      case True
      then show ?thesis using step CvStep p log notify
        by (cases "cs_pc s f") (auto simp: cond_wait_step_def cond_return_step_def cgoto_def cassert_def split: if_splits option.splits)
    next
      case False
      then show ?thesis using step CvStep p
        by (auto dest: cond_step_frame(1) [of _ _ _ f] cond_step_frame(2) [of _ _ _ f] cond_step_frame(3) [of _ _ _ f] split: option.splits)
    qed
  qed (use step p log in \<open>auto simp: cgoto_def cclaim_def split: if_splits\<close>)
qed

lemma tracked_step:
  assumes "cond_inv s" "tracked X s" and step: "cond_step e s = Some s'"
  shows "tracked X s'"
  unfolding tracked_def
proof clarify
  fix f k assume x: "(f, k) \<in> X" and none: "cs_log s' (f, k) = None"
  have "k = cs_count s f" "pending_at (cs_pc s f)" using trackedD [OF assms(2) x cond_step_log_mono [OF step none]] by simp_all
  then show "k = cs_count s' f \<and> pending_at (cs_pc s' f)" using cond_step_log [OF assms(1) step, of f] none by simp
qed

interpretation track: step_invariant cond_step "\<lambda>s. cond_inv s \<and> tracked X s" "\<lambda>s. cond_inv s \<and> tracked X s" for X
proof
  fix s e s' assume "cond_inv s \<and> tracked X s" "cond_step e s = Some s'"
  then show "cond_inv s' \<and> tracked X s'" using cv.inv_step tracked_step by blast
qed

text \<open>A wait that is not logged when the notifying fiber is about to unlock the queue: its node is still there.\<close>

lemma pending_queued:
  assumes inv: "cond_inv s" and n: "cs_pc s n = NUnlock m num" and f: "pending_at (cs_pc s f)" "cs_log s (f, cs_count s f) = None"
  shows "f \<in> set (cs_nodes s)"
proof -
  note d = cond_invD [OF inv]
  have "cs_lock s = Some n" using d(2) [of n] n by simp
  then have "\<not> in_queue_lock (cs_pc s f)" using d(2) [of f] f(1) n by auto
  then have "linked (cs_pc s f)" "in_wait (cs_pc s f)" using f(1) by (cases "cs_pc s f"; simp)+
  then show ?thesis using d(6,7) [of f] f(2) by (auto simp: fiber_fine_def)
qed

text \<open>
  C28. No notification is lost, in every interleaving of any number of waiting and notifying fibers. Let a fiber begin
  \<open>fev_cond_notify_one\<close> or \<open>fev_cond_notify_all\<close> (\<open>m\<close> is 1 or \<open>UINT32_MAX\<close>) at a moment when a wait has let go of the
  mutex, whether or not its node is in the queue yet. When the notification is about to unlock the queue, it has woken \<open>m\<close>
  waiters, or that wait has ended: it was woken, its time-out came first, or its timer could not be added. The waiters that
  the notification has woken are different waits, as many as it has counted, each of which returns 0 from its
  \<open>fev_waiters_queue_wait\<close> or has given up with \<open>-ENOMEM\<close>; and no assertion fails.
\<close>

theorem fev_cond_no_lost_notify:
  assumes "run cond_step cond_sys_init evs = Some s" "cond_step (CvNotify n m) s = Some s1" "run cond_step s1 evs1 = Some s2"
    and "cs_pc s2 n = NUnlock m' num"
  shows "(num = m' \<or> (\<forall>f. released s f \<longrightarrow> cs_log s2 (f, cs_count s f) \<noteq> None)) \<and>
    unat num = length (cs_woken s2 n) \<and> distinct (cs_woken s2 n) \<and> (\<forall>x \<in> set (cs_woken s2 n). cs_log s2 x = Some 0) \<and> \<not> cs_fault s2"
proof -
  define X where "X = {(f, cs_count s f) |f. released s f}"
  have inv: "cond_inv s" using cv.inv_run_init [OF refl assms(1)] .
  have "pending_at (cs_pc s f)" if "released s f" for f
    using that cond_invD(3,4) [OF inv, of f] by (cases "cs_pc s f") (auto simp: released_def)
  then have "tracked X s" by (auto simp: tracked_def X_def)
  then have "cond_inv s1 \<and> tracked X s1" using track.inv_step [OF _ assms(2)] inv by blast
  from track.inv_run [OF this assms(3)] have 2: "cond_inv s2" "tracked X s2" by blast+
  note d = cond_invD [OF 2(1)]
  have "cs_log s2 (f, cs_count s f) \<noteq> None" if "num \<noteq> m'" "released s f" for f
  proof
    assume none: "cs_log s2 (f, cs_count s f) = None"
    have "(f, cs_count s f) \<in> X" using that(2) by (auto simp: X_def)
    from trackedD [OF 2(2) this none] have "f \<in> set (cs_nodes s2)" using pending_queued [OF 2(1) assms(4)] none by simp
    then show False using d(9) [of n] assms(4) that(1) by simp
  qed
  then show ?thesis using d(1) d(9,10) [of n] d(11) [of _ n] assms(4) by auto
qed

text \<open>
  The fiber 1 stands between its release of the mutex and the insertion of its node when fiber 2, which takes the mutex at
  once, notifies: the notification waits for the queue's lock and wakes fiber 1.
\<close>

definition cond_wait_run :: "cond_event list" where
  "cond_wait_run = [CvLock 1, CvWait 1 False, CvStep 1, CvStep 1, CvLock 2]"

definition cond_notify_run :: "cond_event list" where
  "cond_notify_run = [CvStep 1, CvStep 1, CvStep 2, CvStep 2, CvStep 2]"

theorem fev_cond_no_lost_notify_witness:
  "\<exists>s s1 s2. run cond_step cond_sys_init cond_wait_run = Some s \<and> released s 1 \<and> cs_nodes s = [] \<and>
     cond_step (CvNotify 2 5) s = Some s1 \<and> run cond_step s1 cond_notify_run = Some s2 \<and> cs_pc s2 2 = NUnlock 5 1 \<and>
     cs_log s2 (1, 1) \<noteq> None \<and> cs_woken s2 2 = [(1, 1)] \<and> \<not> cs_fault s2"
proof -
  obtain s where s: "run cond_step cond_sys_init cond_wait_run = Some s" "released s 1" "cs_nodes s = []" "cs_count s 1 = 1"
      "\<exists>s1 s2. cond_step (CvNotify 2 5) s = Some s1 \<and> run cond_step s1 cond_notify_run = Some s2 \<and> cs_pc s2 2 = NUnlock 5 1 \<and> cs_woken s2 2 = [(1, 1)]"
    by (simp add: cond_wait_run_def cond_notify_run_def cond_sys_init_def cond_step_defs released_def)
  then obtain s1 s2 where r: "cond_step (CvNotify 2 5) s = Some s1" "run cond_step s1 cond_notify_run = Some s2" "cs_pc s2 2 = NUnlock 5 1"
      "cs_woken s2 2 = [(1, 1)]"
    by blast
  have "cs_log s2 (1, 1) \<noteq> None" "\<not> cs_fault s2"
    using fev_cond_no_lost_notify [OF s(1) r(1-3)] s(2,4) by auto
  then show ?thesis using s(1-3) r by blast
qed

end
