(* ===== verification/Spec2Isabelle.thy ===== *)
theory Spec2Isabelle
  imports Timers Mutex_Concurrent Mpmc_Concurrent Steal_Sched Shr_Sched Sched_Backends Fiber_Lifetime Poller_Reactor Socket_Concurrent Uring_Concurrent Uring_Interrupt Uring_Setup Simple_Queue Cxx_Handles Cond_Concurrent
begin

text \<open>
  libfev is a C library of fibers and events: a scheduler runs many fibers on a few worker threads; a fiber that
  must wait (for a lock, a time-out, another fiber or a socket) is suspended, and the worker runs another one. This
  development models the library (\<open>src/src\<close>) for its builds on Linux and the BSDs: all six scheduling strategies (work stealing and
  work sharing, with locked, bounded and linked run queues), the epoll, kqueue and io_uring pollers, binary-heap timers and the
  futex lock; and the C++ interface (\<open>src/include/fev/fev++.hpp\<close>) in part.

  \<^bold>\<open>The parts of the program and their theories.\<close>

  \<^item> \<open>Prelude\<close>: machine types and error codes, the fault monad (\<open>None\<close> is a failed \<open>FEV_ASSERT\<close> or undefined
    behaviour), bounds-checked arrays, runs of step relations, and the locales \<open>step_invariant\<close> (what holds
    at the start and is kept by every step holds in every reachable state) and \<open>mutual_exclusion\<close>.
  \<^item> \<open>Fev_Time\<close> (\<open>fev_time.h\<close>): \<open>timespec\<close> with the range of \<open>time_t\<close> written out.
  \<^item> \<open>Alloc\<close> (\<open>fev_alloc.h\<close>, \<open>fev_util.h\<close>): the allocator with its overflow checks and alignment in 64-bit words.
  \<^item> \<open>Locks\<close> (\<open>fev_spinlock_impl.h\<close>, \<open>fev_thr_mutex_linux.h\<close>): the locks of threads, with the two futex calls.
  \<^item> \<open>Ilock\<close> (\<open>fev_ilock*.h\<close>, \<open>fev_ilock.c\<close>): the lock that suspends a fiber instead of its thread.
  \<^item> \<open>Waiter\<close> (\<open>fev_waiter_*.h\<close>): the rendezvous of one suspending fiber with the handlers that may wake it.
  \<^item> \<open>Heap_Array\<close>, \<open>Binheap\<close>, \<open>Timers\<close> (\<open>fev_timers*.h\<close>, \<open>fev_timers*.c\<close>): the binary heap in an array of
    pointers with recorded indices, growth of the array and its failure; hashing to buckets, adding, deleting,
    expiry; \<open>fev_timed_wait\<close>. The contract between the timers and a bucket is the locale \<open>timers_bucket\<close>.
  \<^item> \<open>Waiters_Queue\<close>, \<open>Sync\<close>, \<open>Mutex_Concurrent\<close>, \<open>Cond_Concurrent\<close> (\<open>fev_waiters_queue_*.h\<close>, \<open>fev_mutex*\<close>, \<open>fev_cond*\<close>,
    \<open>fev_sem*\<close>): the queue of waiters and the mutex, condition variable and semaphore on top of it; the mutex
    again with its fast paths as single atomic accesses, and the condition variable again with the release of the mutex, the
    insertion of the node and the lock of the queue as separate steps.
  \<^item> \<open>Resources\<close>, \<open>Poller_Setup\<close>, \<open>Sched_Setup\<close>, \<open>Sched_Backends\<close> (\<open>fev_poller_epoll.c\<close>, \<open>fev_poller_kqueue.c\<close>, \<open>fev_sched_common.c\<close>,
    \<open>fev_sched_attr.c\<close>, \<open>fev_os_nix.c\<close> and the \<open>init\<close>/\<open>fini\<close> functions of the strategies): set-up and tear-down.
    The outcome of every call that may fail is taken from a script, so that a statement for every script covers
    every combination of failures. The contracts are the locales \<open>component\<close> and \<open>sched_backend\<close>.
  \<^item> \<open>Spmc_Queue\<close>, \<open>Spmc_Concurrent\<close> (\<open>fev_bounded_spmc_queue.h\<close>): the ring buffer of a stealing worker, on its own
    and with every atomic access as a step. \<open>Mpmc_Concurrent\<close> (\<open>fev_bounded_mpmc_queue.h\<close>): the ring buffer with sequence
    numbers, for any number of threads.
  \<^item> \<open>Simple_Stack\<close>, \<open>Simple_Pool\<close>, \<open>Simple_Queue\<close> (\<open>fev_simple_mpmc_stack.h\<close>, \<open>fev_simple_mpmc_pool.h\<close>, \<open>fev_simple_mpmc_queue.h\<close>): the linked
    lock-free stack and queue with counted pointers, every access a step, nodes being used again at once; and the pool of nodes,
    a list per worker over a shared stack.
  \<^item> \<open>Sched_Common\<close>, \<open>Steal_Sched\<close> (\<open>fev_sched_intf.h\<close>, \<open>fev_sched_impl.h\<close>, \<open>fev_sched_steal_locking.c\<close>,
    \<open>fev_sched_steal_bounded_spmc.c\<close>, \<open>fev_sched_steal_bounded_mpmc.c\<close>) and \<open>Shr_Sched\<close>
    (\<open>fev_sched_shr_locking.c\<close>, \<open>fev_sched_shr_bounded_mpmc.c\<close>, \<open>fev_sched_shr_simple_mpmc.c\<close>): the work loops, stealing,
    sleeping and waking of any number of workers. The run queues are lists there; a lock-free one may in addition look empty,
    and a bounded one full, at any time, which covers what \<open>Simple_Queue\<close> shows of the linked queue.
  \<^item> \<open>Fiber\<close>, \<open>Fiber_Lifetime\<close> (\<open>fev_fiber*.c\<close>, \<open>fev_fiber_attr.c\<close>, \<open>fev_stack_posix.c\<close>): attributes, stacks and creation;
    exit, join, detach and the reference count.
  \<^item> \<open>Poller\<close> (\<open>fev_poller_epoll.c\<close>), \<open>Kqueue\<close> (\<open>fev_poller_kqueue.c\<close>), \<open>Qsbr\<close> (\<open>fev_qsbr.h\<close>), \<open>Poller_Reactor\<close> (\<open>fev_poller_reactor.c\<close>), \<open>Socket\<close> and
    \<open>Socket_Concurrent\<close> (\<open>fev_socket_reactor.c\<close>): registration and the event loop, deferred reclamation of sockets,
    and the socket operations with the fibers, the workers that process events, the timers and the kernel. The two pollers
    share the locale \<open>event_loop\<close>. A waiter is named by the place where it lives (an end of a socket, or the stack of a fiber), and a
    timer points to such a place, so that a time-out and an event of a socket may be about one waiter.
  \<^item> \<open>Uring\<close>, \<open>Uring_Concurrent\<close>, \<open>Uring_Interrupt\<close>, \<open>Uring_Setup\<close> (\<open>fev_poller_io_uring.h\<close>, \<open>fev_poller_io_uring.c\<close>, \<open>fev_socket_io_uring.c\<close>): the
    rings with their wrapping indices and the socket operations on them; the fibers that submit, the workers that take
    completions and the kernel as one system; waiting and interrupting; set-up and tear-down.
  \<^item> \<open>Cxx\<close>, \<open>Cxx_Handles\<close> (\<open>fev++.hpp\<close>): results and exceptions, durations and waits with a predicate; the handles of fibers
    and sockets under moves, exceptions and destruction.

  \<^bold>\<open>How state and operations correspond to the code.\<close> A structure is a record with the fields of the source, an
  operation a function of the same name on it. A counter or position keeps its C width as a word where it wraps
  around. Where an operation suspends the calling fiber it is split there, as the code before and after the
  suspension. A component used by several threads has in addition a step relation: the state is the shared
  record together with a program counter for every thread, which names the statement that is next and holds the
  local variables. One step is one access to a shared atomic variable, or a whole critical section
  when everything in it is protected by one lock (the lock itself is treated in \<open>Locks\<close> and \<open>Ilock\<close>). Two places of the
  stealing schedulers take more accesses in one step: the slow part of a wake-up, and the decrement of \<open>num_waiting\<close> with the load that
  follows it. Steps of
  different threads interleave freely, so that the atomic accesses are sequentially consistent: the weaker
  orders that the code asks for are not modelled. A failed assertion, a double release or an access to released
  memory sets a flag of the state or gives \<open>None\<close>; the safety theorems show that this never happens.

  \<^bold>\<open>What the lemmas show.\<close>

  \<^item> Wake-ups: a suspended fiber is woken exactly once, by the handler that won, and never lost (\<open>Waiter\<close>, \<open>Ilock\<close>,
    \<open>Locks\<close>, \<open>Mutex_Concurrent\<close>, \<open>Sync\<close>, \<open>Waiters_Queue\<close>); a notification that begins after a wait has let go of the mutex reaches
    it, or as many others as it may wake (\<open>Cond_Concurrent\<close>).
  \<^item> Scheduling: every fiber is in exactly one place, no runnable fiber is left behind by sleeping workers,
    the workers leave together (\<open>Steal_Sched\<close>, \<open>Shr_Sched\<close>), and the run queue of a stealing worker is a queue in every interleaving
    (\<open>Spmc_Concurrent\<close>, \<open>Mpmc_Concurrent\<close>; without interference it refines a bounded list, \<open>Spmc_Queue\<close>). The linked stack behaves as a
    list, and the linked queue loses and duplicates nothing and keeps the order (\<open>Simple_Stack\<close>, \<open>Simple_Queue\<close>).
  \<^item> Timers: the heap keeps its order and its indices under every operation, and exactly the timers that are
    due expire (\<open>Binheap\<close>, \<open>Timers\<close>).
  \<^item> Resources: set-up takes everything or nothing whatever fails, tear-down returns everything (\<open>Sched_Backends\<close>, where the
    one exception, work stealing with POSIX mutexes, is shown to fault; \<open>Fiber\<close>); a fiber and a socket are freed exactly once and not used afterwards (\<open>Fiber_Lifetime\<close>, \<open>Qsbr\<close>,
    \<open>Poller_Reactor\<close>), and a grace period ends (\<open>Qsbr\<close>).
  \<^item> Sockets: a fiber waits only while its end is not ready, as long as its socket is not opened a second time (\<open>Socket_Concurrent\<close>), and the event loop wakes exactly
    the fibers that an event is about, with epoll and kqueue alike (\<open>Poller\<close>, \<open>Kqueue\<close>). Over io_uring every call gets its own result,
    every waiting fiber can be woken, and submission refines a bounded queue (\<open>Uring_Concurrent\<close>, \<open>Uring\<close>); a worker that sleeps on
    its ring can be interrupted (\<open>Uring_Interrupt\<close>).
  \<^item> C++: a fiber is joined or detached once, and a socket is destroyed once (\<open>Cxx_Handles\<close>); a duration keeps its nanoseconds (\<open>Cxx\<close>).
  \<^item> Defects of the code, as theorems about the same definitions: a lost mutex when a timer cannot be allocated, an
    unwritten pointer that is freed, a join that uses freed memory, a registration race, a socket that hangs
    after it is closed and opened again; over io_uring a stale submission after an error, an interrupt that is lost at shutdown, and event
    descriptors that are never closed; pops of the linked queue that report an empty queue which is not; a move assignment of
    the C++ interface, and an open of an open socket, that leak a descriptor; entries of \<open>Qsbr\<close> that no quiescent call gives back.

  \<^bold>\<open>Bounds, fuel and hypotheses.\<close> Loops are recursive functions with a termination proof, so that there is no fuel,
  except for retry loops, which are loops of a step relation, and the wait for a predicate in \<open>Cxx\<close>, which may
  wait for ever and is a partial function. Some bounds are hypotheses. The concurrent queues take
  steps only while their 32-bit tickets have not gone round (\<open>no_wrap\<close>, \<open>mpmc_no_wrap\<close>), and the linked stack and queue while their 64-bit counts have not, because the compare-exchange
  identifies a position by these bits; the sequential \<open>Spmc_Queue\<close> covers the wrap-around. Over io_uring fewer than \<open>2 ^ 31\<close> fibers share a ring,
  the kernel takes all requests that it is handed without an error, and it holds completions back while their ring is full. The numbers of
  workers and of fibers are below \<open>2 ^ 32\<close>, the range of their counters. The capacity of a bucket stays below the bound where its
  size in bytes would overflow. Operating-system calls return every value their documentation allows, as arguments of
  the definitions or as choices of a step. In the socket model the kernel reports a change of readiness as an edge-triggered
  event of a registered descriptor, and each end is used by at most one fiber at a time, as the interface demands.

  \<^bold>\<open>Not modelled.\<close> The switch of contexts (\<open>fev_context*\<close>, assembly) appears as the split of an operation at its
  suspension, and the per-architecture instructions (\<open>fev_arch*\<close>) as atomic steps. The wrappers of threads, semaphores and of the POSIX and
  Windows mutex only call the operating system. The macros of \<open>third_party\<close> are used as lists and trees.
  The red-black tree bucket (\<open>fev_timers_rbtree.c\<close>) relies on how the macros of \<open>third_party/tree.h\<close> rotate, not only on the order of a tree, and is
  not modelled. The classes of \<open>fev++.hpp\<close> other than \<open>fiber\<close> and \<open>socket\<close> wrap the C functions one by one. Tests, examples and benchmarks
  use the library.
\<close>

end
